(* ===== verification/ChronoPrelude.thy ===== *)
theory ChronoPrelude
  imports "HOL-Library.Word" "HOL-Library.Product_Lexorder"
begin

text \<open>
  Shared vocabulary of the development: the machine integers of the sources, byte strings,
  and the ordered associative container \<^verbatim>\<open>std::map\<close> with the contract its clients use.

  A \<^verbatim>\<open>std::map<K, V>\<close> is the list of its nodes in iteration order, so that iteration,
  \<open>lower_bound\<close>, \<open>upper_bound\<close> and range erasure are visible in the model; its
  lookup is \<^const>\<open>map_of\<close>. A \<^verbatim>\<open>std::set<K>\<close> is the ascending list of its
  elements. The keys used are unsigned words and tuples of them, ordered lexicographically as
  \<^verbatim>\<open>std::tuple\<close> is.
\<close>

section \<open>Machine integers and byte strings\<close>

type_synonym u8 = "8 word"
type_synonym u16 = "16 word"
type_synonym u32 = "32 word"
type_synonym u64 = "64 word"

text \<open>A \<^verbatim>\<open>std::string\<close> is a sequence of bytes, not of characters.\<close>

type_synonym cpp_string = "u8 list"

text \<open>Facts about the containers, used as simplification rules throughout.\<close>

named_theorems omap_simps

section \<open>Status codes\<close>

text \<open>The codes of \<^verbatim>\<open>client_errcode.h\<close>.\<close>

datatype cl_status =
  CL_SUCCESS
| CL_ERR_UNKNOWN
| CL_ERR_INVALID_ARG
| CL_ERR_NOT_EXIST
| CL_ERR_ACQUIRED
| CL_ERR_NOT_ACQUIRED
| CL_ERR_CHRONICLE_EXISTS
| CL_ERR_NO_KEEPERS
| CL_ERR_NO_CONNECTION
| CL_ERR_NOT_AUTHORIZED
| CL_ERR_NO_PLAYERS
| CL_ERR_NOT_READER_MODE
| CL_ERR_QUERY_TIMED_OUT
| CL_ERR_PROTOCOL_VERSION_MISMATCH
| CL_ERR_PARTIAL_RESULT
| CL_ERR_DURABILITY_UNAVAILABLE
| CL_ERR_DURABILITY_FULL
| CL_ERR_DURABILITY_UNKNOWN

section \<open>Results with an exception\<close>

text \<open>A call that may throw: the left summand is the exception, which the rest of the body does not see.\<close>

definition sum_bind :: "'e + 'a \<Rightarrow> ('a \<Rightarrow> 'e + 'b) \<Rightarrow> 'e + 'b" where
  "sum_bind r f = (case r of Inl e \<Rightarrow> Inl e | Inr a \<Rightarrow> f a)"

lemma sum_bind_simps [simp]: "sum_bind (Inl e) f = Inl e" "sum_bind (Inr a) f = f a"
  by (simp_all add: sum_bind_def)

lemma sum_bind_Inr: "sum_bind r f = Inr b \<longleftrightarrow> (\<exists>a. r = Inr a \<and> f a = Inr b)"
  by (cases r) simp_all

section \<open>Ordered maps\<close>

type_synonym ('k, 'v) omap = "('k \<times> 'v) list"

definition omap_ok :: "('k::linorder, 'v) omap \<Rightarrow> bool" where
  "omap_ok m \<longleftrightarrow> sorted_wrt (<) (map fst m)"

text \<open>\<^verbatim>\<open>m[k] = v\<close>: overwrites.\<close>

definition omap_put :: "'k::linorder \<Rightarrow> 'v \<Rightarrow> ('k, 'v) omap \<Rightarrow> ('k, 'v) omap" where
  "omap_put k v m = filter (\<lambda>p. fst p < k) m @ (k, v) # filter (\<lambda>p. k < fst p) m"

text \<open>\<^verbatim>\<open>m.insert({k, v})\<close> and \<^verbatim>\<open>m.emplace(k, v)\<close>: an existing key keeps its value.\<close>

definition omap_emplace :: "'k::linorder \<Rightarrow> 'v \<Rightarrow> ('k, 'v) omap \<Rightarrow> ('k, 'v) omap" where
  "omap_emplace k v m = (case map_of m k of Some _ \<Rightarrow> m | None \<Rightarrow> omap_put k v m)"

definition omap_erase :: "'k::linorder \<Rightarrow> ('k, 'v) omap \<Rightarrow> ('k, 'v) omap" where
  "omap_erase k m = filter (\<lambda>p. fst p \<noteq> k) m"

text \<open>The nodes from \<^verbatim>\<open>m.lower_bound(k)\<close> to \<^verbatim>\<open>m.end()\<close>.\<close>

definition omap_from :: "'k::linorder \<Rightarrow> ('k, 'v) omap \<Rightarrow> ('k, 'v) omap" where
  "omap_from k m = filter (\<lambda>p. k \<le> fst p) m"

text \<open>The nodes from \<^verbatim>\<open>m.begin()\<close> to \<^verbatim>\<open>m.upper_bound(k)\<close>, the latter excluded.\<close>

definition omap_upto :: "'k::linorder \<Rightarrow> ('k, 'v) omap \<Rightarrow> ('k, 'v) omap" where
  "omap_upto k m = filter (\<lambda>p. fst p \<le> k) m"

text \<open>\<^verbatim>\<open>m.erase(i, j)\<close> where \<open>i\<close> points at the first key not below \<open>lo\<close> and \<open>j\<close> at the first key above \<open>hi\<close>.\<close>

definition omap_erase_range :: "'k::linorder \<Rightarrow> 'k \<Rightarrow> ('k, 'v) omap \<Rightarrow> ('k, 'v) omap" where
  "omap_erase_range lo hi m = filter (\<lambda>p. \<not> (lo \<le> fst p \<and> fst p \<le> hi)) m"


text \<open>\<^verbatim>\<open>s.insert(k)\<close> on a \<^verbatim>\<open>std::set\<close>.\<close>

definition oset_insert :: "'k::linorder \<Rightarrow> 'k list \<Rightarrow> 'k list" where
  "oset_insert k s = filter (\<lambda>a. a < k) s @ k # filter (\<lambda>a. k < a) s"

definition oset_ok :: "'k::linorder list \<Rightarrow> bool" where
  "oset_ok s \<longleftrightarrow> sorted_wrt (<) s"

section \<open>The contract of an ordered map\<close>

text \<open>
  What the components rely on: lookups after an insertion, an assignment or an erasure, the
  order of iteration, and that every operation keeps the representation invariant. The
  lemmas inside the locale are the ones the clients use: loops that insert a whole sequence
  keep the first copy of every key.
\<close>

locale ordered_map =
  fixes empty :: "'m"
    and put :: "'k::linorder \<Rightarrow> 'v \<Rightarrow> 'm \<Rightarrow> 'm"
    and emplace :: "'k \<Rightarrow> 'v \<Rightarrow> 'm \<Rightarrow> 'm"
    and erase :: "'k \<Rightarrow> 'm \<Rightarrow> 'm"
    and lookup :: "'m \<Rightarrow> 'k \<Rightarrow> 'v option"
    and items :: "'m \<Rightarrow> ('k \<times> 'v) list"
    and ok :: "'m \<Rightarrow> bool"
  assumes ok_empty: "ok empty"
    and ok_put: "ok m \<Longrightarrow> ok (put k v m)"
    and ok_emplace: "ok m \<Longrightarrow> ok (emplace k v m)"
    and ok_erase: "ok m \<Longrightarrow> ok (erase k m)"
    and lookup_empty: "lookup empty = Map.empty"
    and lookup_put: "ok m \<Longrightarrow> lookup (put k v m) = (lookup m)(k \<mapsto> v)"
    and lookup_emplace: "ok m \<Longrightarrow>
      lookup (emplace k v m) = (case lookup m k of None \<Rightarrow> (lookup m)(k \<mapsto> v) | Some _ \<Rightarrow> lookup m)"
    and lookup_erase: "ok m \<Longrightarrow> lookup (erase k m) = (lookup m)(k := None)"
    and items_sorted: "ok m \<Longrightarrow> sorted_wrt (<) (map fst (items m))"
    and items_lookup: "ok m \<Longrightarrow> map_of (items m) = lookup m"
begin

lemma emplace_present: "ok m \<Longrightarrow> lookup m k = Some v \<Longrightarrow> lookup (emplace k w m) = lookup m"
  by (simp add: lookup_emplace)

lemma ok_fold_emplace: "ok m \<Longrightarrow> ok (fold (\<lambda>p. emplace (fst p) (snd p)) ps m)"
  by (induction ps arbitrary: m) (auto intro: ok_emplace)

text \<open>Inserting a sequence of nodes: what was there stays, and of new keys the first copy wins.\<close>

lemma lookup_fold_emplace:
  "ok m \<Longrightarrow> lookup (fold (\<lambda>p. emplace (fst p) (snd p)) ps m) = map_of ps ++ lookup m"
proof (induction ps arbitrary: m)
  case Nil
  then show ?case by simp
next
  case (Cons p ps)
  have "map_of ps ++ lookup (emplace (fst p) (snd p) m) = map_of (p # ps) ++ lookup m"
    using Cons.prems
    by (auto simp: lookup_emplace map_add_def fun_eq_iff split: option.splits)
  then show ?case
    unfolding fold_simps comp_def by (simp only: Cons.IH [OF ok_emplace [OF Cons.prems]])
qed

lemma items_in_order: "ok m \<Longrightarrow> distinct (map fst (items m))"
  using items_sorted strict_sorted_iff by blast

lemma item_iff_lookup: "ok m \<Longrightarrow> (k, v) \<in> set (items m) \<longleftrightarrow> lookup m k = Some v"
  using items_in_order [of m] items_lookup [of m] by (metis map_of_eq_Some_iff)

end

section \<open>The node list meets the contract\<close>

lemma omap_ok_Nil [simp]: "omap_ok []"
  by (simp add: omap_ok_def)

lemma omap_ok_Cons: "omap_ok (p # m) \<longleftrightarrow> (\<forall>q\<in>set m. fst p < fst q) \<and> omap_ok m"
  by (simp add: omap_ok_def)

lemma omap_ok_append:
  "omap_ok (m @ n) \<longleftrightarrow> omap_ok m \<and> omap_ok n \<and> (\<forall>p\<in>set m. \<forall>q\<in>set n. fst p < fst q)"
  by (simp add: omap_ok_def sorted_wrt_append)

lemma omap_ok_filter [intro]: "omap_ok m \<Longrightarrow> omap_ok (filter P m)"
  by (induction m) (auto simp: omap_ok_Cons)

lemma omap_ok_put [intro]: "omap_ok m \<Longrightarrow> omap_ok (omap_put k v m)"
  by (auto simp: omap_put_def omap_ok_append omap_ok_Cons)

lemma omap_ok_emplace [intro]: "omap_ok m \<Longrightarrow> omap_ok (omap_emplace k v m)"
  by (auto simp: omap_emplace_def split: option.split)

lemma omap_ok_erase [intro]: "omap_ok m \<Longrightarrow> omap_ok (omap_erase k m)"
  by (auto simp: omap_erase_def)

lemma omap_ok_from [intro]: "omap_ok m \<Longrightarrow> omap_ok (omap_from k m)"
  by (auto simp: omap_from_def)

lemma omap_ok_erase_range [intro]: "omap_ok m \<Longrightarrow> omap_ok (omap_erase_range a b m)"
  by (auto simp: omap_erase_range_def)

lemma omap_ok_distinct: "omap_ok m \<Longrightarrow> distinct (map fst m)"
  by (simp add: omap_ok_def strict_sorted_iff)

lemma dom_keys: "map fst m' = map fst m \<Longrightarrow> dom (map_of m') = dom (map_of m)"
  by (metis dom_map_of_conv_image_fst list.set_map)

lemma map_of_filter_key: "map_of (filter (\<lambda>p. P (fst p)) m) k = (if P k then map_of m k else None)"
  by (induction m) auto

lemmas map_of_filter_keys =
  map_of_filter_key [of "\<lambda>a. a < k" for k]
  map_of_filter_key [of "\<lambda>a. k < a" for k]
  map_of_filter_key [of "\<lambda>a. k \<le> a" for k]
  map_of_filter_key [of "\<lambda>a. a \<noteq> k" for k]
  map_of_filter_key [of "\<lambda>a. \<not> (lo \<le> a \<and> a \<le> hi)" for lo hi]

lemma map_of_omap_put [omap_simps]: "map_of (omap_put k v m) = (map_of m)(k \<mapsto> v)"
  by (auto simp: omap_put_def map_add_def fun_eq_iff map_of_filter_keys split: option.split)

lemma map_of_omap_emplace [omap_simps]:
  "map_of (omap_emplace k v m) = (case map_of m k of None \<Rightarrow> (map_of m)(k \<mapsto> v) | Some _ \<Rightarrow> map_of m)"
  by (simp add: omap_emplace_def map_of_omap_put split: option.split)

lemma map_of_omap_erase [omap_simps]: "map_of (omap_erase k m) = (map_of m)(k := None)"
  by (auto simp: omap_erase_def fun_eq_iff map_of_filter_keys)

lemma map_of_omap_from [omap_simps]:
  "map_of (omap_from a m) k = (if a \<le> k then map_of m k else None)"
  by (simp only: omap_from_def map_of_filter_keys)

lemma map_of_omap_erase_range [omap_simps]:
  "map_of (omap_erase_range a b m) k = (if a \<le> k \<and> k \<le> b then None else map_of m k)"
  by (simp only: omap_erase_range_def map_of_filter_keys) simp

interpretation om: ordered_map "[]" omap_put omap_emplace omap_erase map_of "\<lambda>m. m" omap_ok
  by unfold_locales (auto simp: omap_simps, simp add: omap_ok_def)

lemma set_omap_put: "set (omap_put k v m) = insert (k, v) {p \<in> set m. fst p \<noteq> k}"
  by (auto simp: omap_put_def)

lemma map_of_omap_Some [omap_simps]:
  "omap_ok m \<Longrightarrow> map_of m k = Some v \<longleftrightarrow> (k, v) \<in> set m"
  by (simp add: om.item_iff_lookup)

lemma omap_emplace_neq_Nil [simp]: "omap_emplace k v m \<noteq> []"
  by (auto simp: omap_emplace_def omap_put_def split: option.split dest: map_of_SomeD)

lemma omap_put_front: "\<forall>q\<in>set m. k < fst q \<Longrightarrow> omap_put k v m = (k, v) # m"
proof -
  assume b: "\<forall>q\<in>set m. k < fst q"
  then have "\<forall>q\<in>set m. \<not> fst q < k" by (auto dest: less_asym)
  with b show ?thesis by (simp add: omap_put_def)
qed

lemma omap_put_back: "\<forall>q\<in>set m. fst q < k \<Longrightarrow> omap_put k v m = m @ [(k, v)]"
proof -
  assume b: "\<forall>q\<in>set m. fst q < k"
  then have "\<forall>q\<in>set m. \<not> k < fst q" by (auto dest: less_asym)
  with b show ?thesis by (simp add: omap_put_def)
qed

lemma omap_put_mid: "omap_ok (m @ (k, v) # n) \<Longrightarrow> omap_put k w (m @ (k, v) # n) = m @ (k, w) # n"
proof -
  assume "omap_ok (m @ (k, v) # n)"
  then have b: "\<forall>p\<in>set m. fst p < k" "\<forall>q\<in>set n. k < fst q" by (auto simp: omap_ok_append omap_ok_Cons)
  then have "\<forall>p\<in>set m. \<not> k < fst p" "\<forall>q\<in>set n. \<not> fst q < k" by (auto dest: less_asym)
  with b show ?thesis by (simp add: omap_put_def)
qed

lemma omap_split: "omap_ok m \<Longrightarrow> m = filter (\<lambda>p. fst p < k) m @ omap_from k m"
proof (induction m)
  case (Cons p m)
  show ?case
  proof (cases "fst p < k")
    case True
    with Cons show ?thesis by (simp add: omap_from_def omap_ok_Cons)
  next
    case False
    with Cons.prems have "\<forall>q\<in>set m. k \<le> fst q" by (auto simp: omap_ok_Cons)
    then have "\<forall>q\<in>set m. \<not> fst q < k" by (simp add: not_less)
    with \<open>\<forall>q\<in>set m. k \<le> fst q\<close> False show ?thesis by (simp add: omap_from_def not_less)
  qed
qed (simp add: omap_from_def)

lemma omap_from_mid: "omap_ok (m @ p # n) \<Longrightarrow> omap_from (fst p) (m @ p # n) = p # n"
proof -
  assume "omap_ok (m @ p # n)"
  then have "\<forall>q\<in>set m. \<not> fst p \<le> fst q" "\<forall>q\<in>set n. fst p \<le> fst q"
    by (auto simp: omap_ok_append omap_ok_Cons not_le less_imp_le)
  then show ?thesis by (simp add: omap_from_def)
qed

lemma map_of_None_keys: "\<forall>q\<in>set m. k \<noteq> fst q \<Longrightarrow> map_of m k = None"
  by (induction m) auto

text \<open>Two ordered maps with the same lookups have the same nodes in the same order.\<close>

lemma omap_eqI:
  assumes "omap_ok m" "omap_ok n" "map_of m = map_of n"
  shows "m = n"
proof (rule map_sorted_distinct_set_unique [where f = fst])
  show same: "set m = set n"
    using assms by (auto simp flip: map_of_omap_Some)
  show "inj_on fst (set m \<union> set n)"
    using omap_ok_distinct [OF assms(1)] same by (simp add: distinct_map)
qed (use assms in \<open>simp_all add: omap_ok_def strict_sorted_iff\<close>)

section \<open>Ordered sets\<close>

lemma set_oset_insert [simp]: "set (oset_insert k s) = insert k (set s)"
  by (auto simp: oset_insert_def)

lemma oset_ok_insert [intro]: "oset_ok s \<Longrightarrow> oset_ok (oset_insert k s)"
  by (auto simp: oset_insert_def oset_ok_def sorted_wrt_append sorted_wrt_filter)

end
