(* ===== verification/StoryChunk.thy ===== *)
theory StoryChunk
  imports ChronoPrelude
begin

text \<open>
  Events (\<^verbatim>\<open>client/cpp/include/chronolog_types.h\<close>) and story chunks
  (\<^verbatim>\<open>src/chrono-common/include/StoryChunk.h\<close>, \<^verbatim>\<open>src/chrono-common/src/StoryChunk.cpp\<close>).

  A chunk owns the events of one story for the half-open interval from its start time to its
  end time, in a map ordered by event sequence. Log calls are left out; counters of events,
  which cannot exceed the number of map nodes in memory, are natural numbers.
\<close>

section \<open>Events\<close>

type_synonym StoryId = u64
type_synonym EventSequence = "u64 \<times> u64 \<times> u32"

record LogEvent =
  evStoryId :: StoryId
  eventTime :: u64
  clientId :: u64
  eventIndex :: u32
  logRecord :: cpp_string

definition event_sequence :: "LogEvent \<Rightarrow> EventSequence" where
  "event_sequence e = (eventTime e, clientId e, eventIndex e)"

text \<open>The client-facing event, which has no story id.\<close>

record Event =
  evTime :: u64
  evClient :: u64
  evIndex :: u32
  evRecord :: cpp_string

definition to_Event :: "LogEvent \<Rightarrow> Event" where
  "to_Event e = \<lparr>evTime = eventTime e, evClient = clientId e, evIndex = eventIndex e,
                 evRecord = logRecord e\<rparr>"

section \<open>The chunk\<close>

record StoryChunk =
  chronicleName :: cpp_string
  storyName :: cpp_string
  chunkStoryId :: StoryId
  startTime :: u64
  endTime :: u64
  revisionTime :: u64
  logEvents :: "(EventSequence, LogEvent) omap"
  watermarkExempt :: bool
  chunkIncarnation :: u64
  grapherInstance :: u64
  grapherReceipt :: u64
  carriedReceipts :: "u64 list"

definition new_StoryChunk ::
  "cpp_string \<Rightarrow> cpp_string \<Rightarrow> StoryId \<Rightarrow> u64 \<Rightarrow> u64 \<Rightarrow> StoryChunk" where
  "new_StoryChunk chronicle_name story_name story_id start_time end_time =
     (let end' = (if end_time \<le> start_time then start_time + 5000 else end_time)
      in \<lparr>chronicleName = chronicle_name, storyName = story_name, chunkStoryId = story_id,
          startTime = start_time, endTime = end', revisionTime = end', logEvents = [],
          watermarkExempt = False, chunkIncarnation = 0, grapherInstance = 0, grapherReceipt = 0,
          carriedReceipts = []\<rparr>)"

abbreviation chunk_empty :: "StoryChunk \<Rightarrow> bool" where
  "chunk_empty c \<equiv> logEvents c = []"

text \<open>The number of events, which the code returns as an \<^verbatim>\<open>int\<close>.\<close>

definition getEventCount :: "StoryChunk \<Rightarrow> nat" where
  "getEventCount c = length (logEvents c)"

text \<open>The nodes from \<^verbatim>\<open>lower_bound(chrono_time)\<close> on.\<close>

definition chunk_lower_bound :: "StoryChunk \<Rightarrow> u64 \<Rightarrow> (EventSequence, LogEvent) omap" where
  "chunk_lower_bound c t = omap_from (t, 0, 0) (logEvents c)"

definition findEvent :: "StoryChunk \<Rightarrow> EventSequence \<Rightarrow> LogEvent option" where
  "findEvent c s = map_of (logEvents c) s"

definition firstEventTime :: "StoryChunk \<Rightarrow> u64" where
  "firstEventTime c = (if chunk_empty c then 0 else eventTime (snd (hd (logEvents c))))"

definition lastEventTime :: "StoryChunk \<Rightarrow> u64" where
  "lastEventTime c = (if chunk_empty c then 0 else eventTime (snd (last (logEvents c))))"

text \<open>The test both overloads of \<^verbatim>\<open>insertEvent\<close> make.\<close>

definition accepts :: "StoryChunk \<Rightarrow> LogEvent \<Rightarrow> bool" where
  "accepts c e \<longleftrightarrow> evStoryId e = chunkStoryId c \<and> startTime c \<le> eventTime e \<and>
                 eventTime e < endTime c \<and> logRecord e \<noteq> []"

definition insertEvent :: "StoryChunk \<Rightarrow> LogEvent \<Rightarrow> nat \<times> StoryChunk" where
  "insertEvent c e =
     (if accepts c e
      then (1, c\<lparr>logEvents := omap_emplace (event_sequence e) e (logEvents c)\<rparr>)
      else (0, c))"

text \<open>
  The loop both overloads of \<^verbatim>\<open>mergeEvents\<close> run over the nodes to merge: it inserts every
  event and remembers, in order, the keys of those that were accepted.
\<close>

fun merge_walk ::
  "StoryChunk \<Rightarrow> (EventSequence, LogEvent) omap \<Rightarrow> EventSequence list \<times> StoryChunk" where
  "merge_walk c [] = ([], c)"
| "merge_walk c ((k, e) # ps) =
     (case insertEvent c e of (r, c') \<Rightarrow>
        (case merge_walk c' ps of (merged, c'') \<Rightarrow>
           (if r > 0 then k # merged else merged, c'')))"

text \<open>The nodes from the first to the last merged one leave the source map.\<close>

definition erase_merged ::
  "EventSequence list \<Rightarrow> (EventSequence, LogEvent) omap \<Rightarrow> (EventSequence, LogEvent) omap" where
  "erase_merged merged m = (if merged = [] then m else omap_erase_range (hd merged) (last merged) m)"

text \<open>
  \<^verbatim>\<open>mergeEvents(std::map&, const_iterator&)\<close>. The iterator is the key of the node it points
  at, or none for the end iterator; reading through it is undefined for a non-empty map, which
  the outer \<open>None\<close> stands for. The caller's iterator is moved to the start of the walk; it is returned after the count,
  and its node may be one of those that were merged and erased.
\<close>

definition mergeEvents_map ::
  "StoryChunk \<Rightarrow> (EventSequence, LogEvent) omap \<Rightarrow> EventSequence option
    \<Rightarrow> (nat \<times> EventSequence option \<times> StoryChunk \<times> (EventSequence, LogEvent) omap) option" where
  "mergeEvents_map c events merge_start =
     (if events = [] then Some (0, merge_start, c, events)
      else case Option.bind merge_start (\<lambda>k. map_option (Pair k) (map_of events k)) of
        None \<Rightarrow> None
      | Some (k, e) \<Rightarrow>
          (let rest = omap_from (if eventTime e < startTime c then (startTime c, 0, 0) else k) events;
               merge_start' = (case rest of [] \<Rightarrow> None | p # _ \<Rightarrow> Some (fst p));
               walk = takeWhile (\<lambda>p. eventTime (snd p) < endTime c) rest
           in case merge_walk c walk of (merged, c') \<Rightarrow>
                Some (length merged, merge_start', c', erase_merged merged events)))"

text \<open>\<^verbatim>\<open>mergeEvents(StoryChunk&, uint64_t)\<close>: the count, this chunk and the other one afterwards.\<close>

definition mergeEvents :: "StoryChunk \<Rightarrow> StoryChunk \<Rightarrow> u64 \<Rightarrow> nat \<times> StoryChunk \<times> StoryChunk" where
  "mergeEvents c other merge_start_time =
     (if chunk_empty other then (0, c, other)
      else
        let t = (if merge_start_time = 0 \<or> endTime other \<le> merge_start_time
                 then startTime other else merge_start_time);
            nodes = (if t < startTime c then chunk_lower_bound other (startTime c)
                     else chunk_lower_bound other t);
            walk = takeWhile (\<lambda>p. eventTime (snd p) < endTime c) nodes
        in case merge_walk c walk of (merged, c') \<Rightarrow>
             (length merged, c', other\<lparr>logEvents := erase_merged merged (logEvents other)\<rparr>))"

text \<open>
  \<^verbatim>\<open>eraseEvents(uint64_t, uint64_t)\<close>. The upper end of the erased range is the
  \<^verbatim>\<open>upper_bound\<close> of the end time with client and index 0.
\<close>

definition eraseEvents :: "StoryChunk \<Rightarrow> u64 \<Rightarrow> u64 \<Rightarrow> StoryChunk" where
  "eraseEvents c start_time end_time =
     (if chunk_empty c \<or> start_time = 0 \<or> end_time \<le> start_time \<or> endTime c \<le> start_time
         \<or> end_time < startTime c
      then c
      else
        let lo = (if start_time < startTime c then startTime c else start_time);
            hi = (if endTime c < end_time then endTime c else end_time)
        in c\<lparr>logEvents := omap_erase_range (lo, 0, 0) (hi, 0, 0) (logEvents c)\<rparr>)"

definition extractEventSeries :: "StoryChunk \<Rightarrow> Event list \<Rightarrow> Event list \<times> StoryChunk" where
  "extractEventSeries c event_series =
     (event_series @ map (\<lambda>p. to_Event (snd p)) (logEvents c), c\<lparr>logEvents := []\<rparr>)"

text \<open>
  \<^verbatim>\<open>copyToEventSeries\<close> walks from one iterator to another. When some node lies above the
  upper end and below the lower one, the walk starts behind its end and runs off the map: the
  result is \<open>None\<close>.
\<close>

definition copyToEventSeries :: "StoryChunk \<Rightarrow> Event list \<Rightarrow> u64 \<Rightarrow> u64 \<Rightarrow> Event list option" where
  "copyToEventSeries c event_series start_time end_time =
     (if chunk_empty c \<or> start_time = 0 \<or> end_time \<le> startTime c then Some event_series
      else
        let lo = ((if start_time < startTime c then startTime c else start_time), 0, 0);
            hi = ((if endTime c < end_time then endTime c else end_time), 0, 0)
        in if \<exists>p\<in>set (logEvents c). hi < fst p \<and> fst p < lo then None
           else Some (event_series @
                  map (\<lambda>p. to_Event (snd p)) (omap_upto hi (omap_from lo (logEvents c)))))"

text \<open>\<^verbatim>\<open>carryReceipt\<close>: whether the receipt was not carried yet, and the chunk afterwards.\<close>

definition carryReceipt :: "StoryChunk \<Rightarrow> u64 \<Rightarrow> bool \<times> StoryChunk" where
  "carryReceipt c receipt =
     (receipt \<notin> set (carriedReceipts c), c\<lparr>carriedReceipts := oset_insert receipt (carriedReceipts c)\<rparr>)"

section \<open>Well-formed chunks\<close>

definition wf_event :: "StoryChunk \<Rightarrow> EventSequence \<times> LogEvent \<Rightarrow> bool" where
  "wf_event c p \<longleftrightarrow> fst p = event_sequence (snd p) \<and> accepts c (snd p)"

definition wf_chunk :: "StoryChunk \<Rightarrow> bool" where
  "wf_chunk c \<longleftrightarrow> omap_ok (logEvents c) \<and> (\<forall>p\<in>set (logEvents c). wf_event c p)"

text \<open>The interval a chunk is responsible for, as a set of event sequences.\<close>

definition chunk_range :: "StoryChunk \<Rightarrow> EventSequence set" where
  "chunk_range c = {k. startTime c \<le> fst k \<and> fst k < endTime c}"

abbreviation events_of :: "StoryChunk \<Rightarrow> EventSequence \<Rightarrow> LogEvent option" where
  "events_of c \<equiv> map_of (logEvents c)"

section \<open>Time bounds as bounds on event sequences\<close>

lemma seq_from_time [simp]: "((t, 0, 0) :: EventSequence) \<le> k \<longleftrightarrow> t \<le> fst k"
  by (cases k) (auto simp: less_eq_prod_def)

lemma seq_upto_time: "k \<le> ((t, 0, 0) :: EventSequence) \<longleftrightarrow> fst k < t \<or> k = (t, 0, 0)"
  by (cases k) (auto simp: less_eq_prod_def)

lemma seq_time_mono: "(k :: EventSequence) \<le> k' \<Longrightarrow> fst k \<le> fst k'"
  by (auto simp: less_eq_prod_def)

lemma fst_event_sequence [simp]: "fst (event_sequence e) = eventTime e"
  by (simp add: event_sequence_def)

lemma wf_event_time: "wf_event c p \<Longrightarrow> eventTime (snd p) = fst (fst p)"
  by (simp add: wf_event_def)

lemma wf_chunk_ok: "wf_chunk c \<Longrightarrow> omap_ok (logEvents c)"
  by (simp add: wf_chunk_def)

lemma wf_chunk_eventD:
  "wf_chunk c \<Longrightarrow> events_of c k = Some e \<Longrightarrow> k = event_sequence e \<and> accepts c e"
  by (auto simp: wf_chunk_def wf_event_def dest!: map_of_SomeD)

lemma wf_chunk_dom_range: "wf_chunk c \<Longrightarrow> dom (events_of c) \<subseteq> chunk_range c"
  by (auto simp: chunk_range_def accepts_def dest: wf_chunk_eventD)

lemma accepts_update [simp]:
  "accepts (c\<lparr>logEvents := m\<rparr>) = accepts c" "accepts (c\<lparr>carriedReceipts := s\<rparr>) = accepts c"
  by (simp_all add: accepts_def fun_eq_iff)

lemma wf_event_update [simp]:
  "wf_event (c\<lparr>logEvents := m\<rparr>) = wf_event c" "wf_event (c\<lparr>carriedReceipts := s\<rparr>) = wf_event c"
  by (simp_all add: wf_event_def fun_eq_iff)

lemma wf_chunk_subset:
  "wf_chunk c \<Longrightarrow> omap_ok m \<Longrightarrow> set m \<subseteq> set (logEvents c) \<Longrightarrow> wf_chunk (c\<lparr>logEvents := m\<rparr>)"
  by (auto simp: wf_chunk_def)

lemma wf_new_StoryChunk [simp]: "wf_chunk (new_StoryChunk chronicle story sid a b)"
  by (simp add: wf_chunk_def new_StoryChunk_def Let_def)

lemma new_StoryChunk_interval:
  "a < b \<Longrightarrow> startTime (new_StoryChunk chronicle story sid a b) = a \<and>
             endTime (new_StoryChunk chronicle story sid a b) = b"
  by (auto simp: new_StoryChunk_def Let_def)

section \<open>Insertion\<close>

lemma insertEvent_wf: "wf_chunk c \<Longrightarrow> insertEvent c e = (r, c') \<Longrightarrow> wf_chunk c'"
  by (fastforce simp: insertEvent_def wf_chunk_def wf_event_def omap_emplace_def set_omap_put
      split: if_splits option.splits)

lemma insertEvent_frame:
  "insertEvent c e = (r, c') \<Longrightarrow> c' = c\<lparr>logEvents := logEvents c'\<rparr>"
  by (auto simp: insertEvent_def split: if_splits)

section \<open>Merging\<close>

lemma merge_walk_accepted:
  "(\<And>p. p \<in> set ps \<Longrightarrow> wf_event c p) \<Longrightarrow>
   merge_walk c ps =
     (map fst ps, c\<lparr>logEvents := fold (\<lambda>p. omap_emplace (fst p) (snd p)) ps (logEvents c)\<rparr>)"
proof (induction ps arbitrary: c)
  case Nil
  then show ?case by simp
next
  case (Cons p ps)
  obtain k e where p: "p = (k, e)" by fastforce
  from Cons.prems [of p] have "k = event_sequence e" "accepts c e"
    by (simp_all add: p wf_event_def)
  moreover have "\<And>c'. c' = c\<lparr>logEvents := omap_emplace k e (logEvents c)\<rparr> \<Longrightarrow>
      merge_walk c' ps = (map fst ps,
        c'\<lparr>logEvents := fold (\<lambda>p. omap_emplace (fst p) (snd p)) ps (logEvents c')\<rparr>)"
    using Cons.prems by (intro Cons.IH) auto
  ultimately show ?case
    by (simp add: p insertEvent_def)
qed

text \<open>On an ordered map, walking while the time is below a bound takes exactly the nodes below it.\<close>

lemma takeWhile_time_filter:
  fixes m :: "(EventSequence, LogEvent) omap"
  assumes "omap_ok m" and "\<And>p. p \<in> set m \<Longrightarrow> eventTime (snd p) = fst (fst p)"
  shows "takeWhile (\<lambda>p. eventTime (snd p) < t) m = filter (\<lambda>p. fst (fst p) < (t::u64)) m"
  using assms
proof (induction m)
  case Nil
  then show ?case by simp
next
  case (Cons q m)
  show ?case
  proof (cases "fst (fst q) < t")
    case True
    with Cons show ?thesis by (simp add: omap_ok_Cons)
  next
    case False
    have "\<forall>p\<in>set m. \<not> fst (fst p) < t"
    proof
      fix p assume "p \<in> set m"
      with Cons.prems(1) have "fst q \<le> fst p" by (auto simp: omap_ok_Cons)
      then have "fst (fst q) \<le> fst (fst p)" by (rule seq_time_mono)
      with False show "\<not> fst (fst p) < t" by simp
    qed
    with False Cons.prems(2) [of q] show ?thesis by simp
  qed
qed

lemma omap_ok_hd: "omap_ok m \<Longrightarrow> p \<in> set m \<Longrightarrow> fst (hd m) \<le> fst p"
  by (cases m) (auto simp: omap_ok_Cons less_imp_le)

lemma omap_ok_last: "omap_ok m \<Longrightarrow> p \<in> set m \<Longrightarrow> fst p \<le> fst (last m)"
proof (induction m rule: rev_induct)
  case (snoc q m)
  then show ?case by (auto simp: omap_ok_append less_imp_le)
qed simp

text \<open>Erasing from the first to the last node of a time interval erases that interval.\<close>

lemma erase_merged_interval:
  fixes a b :: u64
  assumes ok: "omap_ok m"
  defines "walk \<equiv> filter (\<lambda>p. a \<le> fst (fst p) \<and> fst (fst p) < b) m"
  shows "erase_merged (map fst walk) m = filter (\<lambda>p. \<not> (a \<le> fst (fst p) \<and> fst (fst p) < b)) m"
proof (cases "walk = []")
  case True
  then show ?thesis
    by (auto simp: erase_merged_def walk_def filter_empty_conv intro!: filter_True [symmetric])
next
  case False
  have wok: "omap_ok walk" using ok by (auto simp: walk_def)
  have hl: "hd walk \<in> set walk" "last walk \<in> set walk" using False by auto
  have "fst (hd walk) \<le> fst p \<and> fst p \<le> fst (last walk) \<longleftrightarrow> a \<le> fst (fst p) \<and> fst (fst p) < b"
    if p: "p \<in> set m" for p
  proof
    assume *: "fst (hd walk) \<le> fst p \<and> fst p \<le> fst (last walk)"
    then have "fst (fst (hd walk)) \<le> fst (fst p)" "fst (fst p) \<le> fst (fst (last walk))"
      by (auto dest: seq_time_mono)
    with hl show "a \<le> fst (fst p) \<and> fst (fst p) < b" by (auto simp: walk_def)
  next
    assume "a \<le> fst (fst p) \<and> fst (fst p) < b"
    with p have "p \<in> set walk" by (simp add: walk_def)
    with wok show "fst (hd walk) \<le> fst p \<and> fst p \<le> fst (last walk)"
      by (blast intro: omap_ok_hd omap_ok_last)
  qed
  then show ?thesis
    using False
    by (simp add: erase_merged_def omap_erase_range_def hd_map last_map del: de_Morgan_conj cong: filter_cong)
qed

lemma mergeEvents_default:
  assumes "wf_chunk c" "wf_chunk other" "chunkStoryId c = chunkStoryId other"
  defines "inside \<equiv> \<lambda>p. startTime c \<le> fst (fst p) \<and> fst (fst p) < endTime c"
  shows "mergeEvents c other 0 =
    (length (filter inside (logEvents other)),
     c\<lparr>logEvents := fold (\<lambda>p. omap_emplace (fst p) (snd p)) (filter inside (logEvents other)) (logEvents c)\<rparr>,
     other\<lparr>logEvents := filter (\<lambda>p. \<not> inside p) (logEvents other)\<rparr>)"
proof (cases "chunk_empty other")
  case True
  then show ?thesis by (simp add: mergeEvents_def)
next
  case False
  let ?m = "logEvents other"
  have ok: "omap_ok ?m" and wf: "\<And>p. p \<in> set ?m \<Longrightarrow> wf_event other p"
    using assms(2) by (auto simp: wf_chunk_def)
  have below: "startTime other \<le> fst (fst p)" if "p \<in> set ?m" for p
    using wf [OF that] by (auto simp: wf_event_def accepts_def)
  have nodes: "(if startTime other < startTime c then chunk_lower_bound other (startTime c)
      else chunk_lower_bound other (startTime other)) = filter (\<lambda>p. startTime c \<le> fst (fst p)) ?m"
    by (auto simp: chunk_lower_bound_def omap_from_def intro!: filter_cong dest: below)
  have walk: "takeWhile (\<lambda>p. eventTime (snd p) < endTime c) (filter (\<lambda>p. startTime c \<le> fst (fst p)) ?m)
      = filter inside ?m"
    using ok wf_event_time [OF wf] by (subst takeWhile_time_filter) (auto simp: inside_def intro!: filter_cong)
  have acc: "wf_event c p" if "p \<in> set (filter inside ?m)" for p
    using that wf [of p] assms(3) by (auto simp: wf_event_def accepts_def inside_def)
  have mw: "merge_walk c (filter inside ?m) = (map fst (filter inside ?m),
      c\<lparr>logEvents := fold (\<lambda>p. omap_emplace (fst p) (snd p)) (filter inside ?m) (logEvents c)\<rparr>)"
    by (rule merge_walk_accepted) (rule acc)
  have er: "erase_merged (map fst (filter inside ?m)) ?m = filter (\<lambda>p. \<not> inside p) ?m"
    unfolding inside_def by (rule erase_merged_interval [OF ok])
  show ?thesis
    unfolding mergeEvents_def Let_def
    using False by (simp only: nodes walk mw er if_False if_True simp_thms prod.case length_map)
qed

lemma fold_emplace_wf:
  "wf_chunk c \<Longrightarrow> (\<And>p. p \<in> set ps \<Longrightarrow> wf_event c p) \<Longrightarrow>
   wf_chunk (c\<lparr>logEvents := fold (\<lambda>p. omap_emplace (fst p) (snd p)) ps (logEvents c)\<rparr>)"
proof -
  assume wf: "wf_chunk c" and ps: "\<And>p. p \<in> set ps \<Longrightarrow> wf_event c p"
  let ?m = "fold (\<lambda>p. omap_emplace (fst p) (snd p)) ps (logEvents c)"
  have ok: "omap_ok ?m" using wf by (intro om.ok_fold_emplace) (rule wf_chunk_ok)
  have "wf_event c (k, e)" if "(k, e) \<in> set ?m" for k e
  proof -
    from that ok have "map_of ?m k = Some e" by (simp add: map_of_omap_Some)
    then have "(map_of ps ++ events_of c) k = Some e"
      using wf by (simp add: om.lookup_fold_emplace wf_chunk_ok)
    then have "(k, e) \<in> set ps \<or> (k, e) \<in> set (logEvents c)"
      by (auto simp: map_add_Some_iff dest: map_of_SomeD)
    with wf ps [of "(k, e)"] show ?thesis by (auto simp: wf_chunk_def)
  qed
  with ok show ?thesis by (auto simp: wf_chunk_def)
qed

lemma map_of_filter_range:
  "map_of (filter (\<lambda>p. startTime c \<le> fst (fst p) \<and> fst (fst p) < endTime c) m) = map_of m |` chunk_range c"
  "map_of (filter (\<lambda>p. \<not> (startTime c \<le> fst (fst p) \<and> fst (fst p) < endTime c)) m) = map_of m |` (- chunk_range c)"
  using map_of_filter_key [of "\<lambda>k. startTime c \<le> fst k \<and> fst k < endTime c" m]
    map_of_filter_key [of "\<lambda>k. \<not> (startTime c \<le> fst k \<and> fst k < endTime c)" m]
  by (simp_all add: fun_eq_iff restrict_map_def chunk_range_def del: de_Morgan_conj)

lemma mergeEvents_lookup:
  assumes "wf_chunk c" "wf_chunk other" "chunkStoryId c = chunkStoryId other"
    and "mergeEvents c other 0 = (n, c', other')"
  shows "events_of c' = (events_of other |` chunk_range c) ++ events_of c"
    and "events_of other' = events_of other |` (- chunk_range c)"
    and "wf_chunk c'" and "wf_chunk other'"
    and "c' = c\<lparr>logEvents := logEvents c'\<rparr>" and "other' = other\<lparr>logEvents := logEvents other'\<rparr>"
    and "n = length (logEvents other) - length (logEvents other')"
proof -
  let ?in = "\<lambda>p. startTime c \<le> fst (fst p) \<and> fst (fst p) < endTime c"
  note eq = mergeEvents_default [OF assms(1-3), unfolded assms(4)]
  have n: "n = length (filter ?in (logEvents other))"
    and c': "c' = c\<lparr>logEvents := fold (\<lambda>p. omap_emplace (fst p) (snd p)) (filter ?in (logEvents other)) (logEvents c)\<rparr>"
    and o': "other' = other\<lparr>logEvents := filter (\<lambda>p. \<not> ?in p) (logEvents other)\<rparr>"
    using eq by simp_all
  show "events_of c' = (events_of other |` chunk_range c) ++ events_of c"
    using assms(1) by (simp add: c' om.lookup_fold_emplace wf_chunk_ok map_of_filter_range)
  show "events_of other' = events_of other |` (- chunk_range c)"
    using map_of_filter_range(2) [of c "logEvents other"] by (simp add: o')
  have "wf_event c p" if "p \<in> set (filter ?in (logEvents other))" for p
    using that assms(2,3) by (auto simp: wf_chunk_def wf_event_def accepts_def)
  then show "wf_chunk c'" unfolding c' using assms(1) by (intro fold_emplace_wf)
  show "wf_chunk other'" unfolding o' using assms(2) by (intro wf_chunk_subset) (auto dest: wf_chunk_ok)
  show "c' = c\<lparr>logEvents := logEvents c'\<rparr>" "other' = other\<lparr>logEvents := logEvents other'\<rparr>"
    by (simp_all add: c' o')
  show "n = length (logEvents other) - length (logEvents other')"
    using sum_length_filter_compl [of ?in "logEvents other"] by (simp add: n o')
qed

section \<open>Properties of the chunk\<close>

text \<open>
  Claim C30. Merging one well-formed chunk of a story into another moves exactly the events of
  the other chunk that fall into this chunk's interval: afterwards this chunk holds them beside
  its own (its own copy wins when both have one), the other chunk holds exactly the rest, both
  are still well-formed, and the returned count is the number of events that left the other chunk.
\<close>

theorem mergeEvents_conserves:
  assumes "wf_chunk c" and "wf_chunk other" and "chunkStoryId c = chunkStoryId other"
    and "mergeEvents c other 0 = (n, c', other')"
  shows "events_of c' = (events_of other |` chunk_range c) ++ events_of c \<and>
    events_of other' = events_of other |` (- chunk_range c) \<and>
    n = getEventCount other - getEventCount other' \<and> wf_chunk c' \<and> wf_chunk other'"
  using mergeEvents_lookup [OF assms] by (simp add: getEventCount_def)

text \<open>
  \<open>insertEvent\<close> refuses an event of another story, outside the interval or with an
  empty record and leaves the chunk as it was; it accepts every other event, and then the chunk
  holds the event under its sequence unless it already held one there, which it keeps.
\<close>

theorem insertEvent_first_copy_wins:
  assumes "wf_chunk c"
  shows "(if accepts c e
          then fst (insertEvent c e) = 1 \<and> wf_chunk (snd (insertEvent c e)) \<and>
               events_of (snd (insertEvent c e)) =
                 (case events_of c (event_sequence e) of
                    None \<Rightarrow> (events_of c)(event_sequence e \<mapsto> e) | Some _ \<Rightarrow> events_of c)
          else insertEvent c e = (0, c))"
  using assms insertEvent_wf [OF assms, of e]
  by (auto simp: insertEvent_def omap_simps split: option.splits)

text \<open>
  For a range with a start that is neither 0 nor above its end, \<open>copyToEventSeries\<close>
  returns the chunk's events of the range in event order; beside the events from the start to
  the end, the end excluded, that is also the event at the end time itself when its client id
  and index are both 0 and the end lies above the start of the chunk.
\<close>

theorem copyToEventSeries_exact:
  assumes wf: "wf_chunk c" and s: "start_time \<noteq> 0" "start_time \<le> end_time"
  shows "\<exists>picked. copyToEventSeries c series start_time end_time = Some (series @ map to_Event picked) \<and>
    sorted_wrt (<) (map event_sequence picked) \<and>
    set picked = {e. events_of c (event_sequence e) = Some e \<and> start_time \<le> eventTime e \<and>
                     (eventTime e < end_time \<or> event_sequence e = (end_time, 0, 0) \<and> startTime c < end_time)}"
proof -
  define lo where "lo = max start_time (startTime c)"
  define hi where "hi = min end_time (endTime c)"
  define nodes where "nodes = omap_upto (hi, 0, 0) (omap_from (lo, 0, 0) (logEvents c))"
  define picked where "picked = (if chunk_empty c \<or> end_time \<le> startTime c then [] else map snd nodes)"
  have ev: "k = event_sequence e \<and> accepts c e" if "(k, e) \<in> set (logEvents c)" for k e
    using wf that by (auto simp: wf_chunk_def wf_event_def)
  have inmap: "(k, e) \<in> set (logEvents c) \<longleftrightarrow> events_of c k = Some e" for k e
    using wf by (simp add: map_of_omap_Some wf_chunk_ok)
  have no_gap: "\<not> (\<exists>p\<in>set (logEvents c). (hi, 0, 0) < fst p \<and> fst p < (lo, 0, 0))" if "\<not> end_time \<le> startTime c"
  proof
    assume "\<exists>p\<in>set (logEvents c). (hi, 0, 0) < fst p \<and> fst p < (lo, 0, 0)"
    then obtain k e where ke: "(k, e) \<in> set (logEvents c)" "(hi, 0, 0) < k" "k < (lo, 0, 0)" by auto
    then have "hi \<le> eventTime e" "eventTime e < lo"
      using ev [OF ke(1)] by (auto simp: less_le seq_upto_time simp flip: fst_event_sequence)
    with ev [OF ke(1)] s that show False
      by (auto simp: lo_def hi_def accepts_def max_def min_def split: if_splits)
  qed
  have result: "copyToEventSeries c series start_time end_time = Some (series @ map to_Event picked)"
  proof -
    have "(if start_time < startTime c then startTime c else start_time) = lo"
      "(if endTime c < end_time then endTime c else end_time) = hi"
      by (auto simp: lo_def hi_def max_def min_def)
    with no_gap s(1) show ?thesis
      by (auto simp only: copyToEventSeries_def picked_def nodes_def Let_def if_True if_False simp_thms
          map_map comp_def list.map append_Nil2 split: if_split)
  qed
  have "omap_ok nodes"
    using wf by (auto simp: nodes_def omap_upto_def dest: wf_chunk_ok)
  then have "sorted_wrt (<) (map fst nodes)" by (simp add: omap_ok_def)
  moreover have "map fst nodes = map event_sequence (map snd nodes)"
    using wf by (auto simp: nodes_def omap_upto_def omap_from_def wf_chunk_def wf_event_def)
  ultimately have order: "sorted_wrt (<) (map event_sequence picked)" by (simp add: picked_def)
  have "e \<in> set picked \<longleftrightarrow> events_of c (event_sequence e) = Some e \<and> start_time \<le> eventTime e \<and>
                     (eventTime e < end_time \<or> event_sequence e = (end_time, 0, 0) \<and> startTime c < end_time)" for e
  proof -
    have "e \<in> set picked \<longleftrightarrow> \<not> end_time \<le> startTime c \<and> (event_sequence e, e) \<in> set nodes"
      using ev by (force simp: picked_def nodes_def omap_upto_def omap_from_def)
    also have "\<dots> \<longleftrightarrow> startTime c < end_time \<and> events_of c (event_sequence e) = Some e \<and> lo \<le> eventTime e
        \<and> (eventTime e < hi \<or> event_sequence e = (hi, 0, 0))"
      by (auto simp: nodes_def omap_upto_def omap_from_def inmap seq_upto_time)
    also have "\<dots> \<longleftrightarrow> events_of c (event_sequence e) = Some e \<and> start_time \<le> eventTime e \<and>
        (eventTime e < end_time \<or> event_sequence e = (end_time, 0, 0) \<and> startTime c < end_time)"
      using ev [of "event_sequence e" e]
      by (auto simp: inmap accepts_def lo_def hi_def event_sequence_def min_def max_def)
    finally show ?thesis .
  qed
  with result order show ?thesis by blast
qed

text \<open>
  \<open>eraseEvents\<close> on a proper range removes exactly the events from the start to the
  end of the range, the end excluded, and the event at the end time itself when its client id
  and index are both 0; every other event stays, and the chunk stays well-formed.
\<close>

theorem eraseEvents_exact:
  assumes wf: "wf_chunk c" and "startTime c < endTime c" "start_time \<noteq> 0" "start_time < end_time"
    and "start_time < endTime c" "startTime c \<le> end_time"
  shows "wf_chunk (eraseEvents c start_time end_time) \<and>
    events_of (eraseEvents c start_time end_time) =
      events_of c |` {k. \<not> (start_time \<le> fst k \<and> (fst k < end_time \<or> k = (end_time, 0, 0)))}"
proof
  show "wf_chunk (eraseEvents c start_time end_time)"
    using wf wf_chunk_ok [OF wf] unfolding eraseEvents_def Let_def
    by (auto simp: omap_erase_range_def intro!: wf_chunk_subset)
  show "events_of (eraseEvents c start_time end_time) =
      events_of c |` {k. \<not> (start_time \<le> fst k \<and> (fst k < end_time \<or> k = (end_time, 0, 0)))}"
    (is "_ = events_of c |` ?keep")
  proof
    fix k
    show "events_of (eraseEvents c start_time end_time) k = (events_of c |` ?keep) k"
    proof (cases "events_of c k")
      case None
      then show ?thesis
        by (auto simp: eraseEvents_def Let_def omap_simps restrict_map_def)
    next
      case (Some e)
      then have "startTime c \<le> fst k" "fst k < endTime c" "\<not> chunk_empty c"
        using wf_chunk_eventD [OF wf Some] by (auto simp: accepts_def)
      with Some assms show ?thesis
        by (auto simp: eraseEvents_def Let_def omap_simps restrict_map_def seq_upto_time)
    qed
  qed
qed

section \<open>Witnesses\<close>

text \<open>A chunk with two events at time 20, the later end of a range, and one event before it.\<close>

definition ex_event :: "u64 \<Rightarrow> u64 \<Rightarrow> u32 \<Rightarrow> LogEvent" where
  "ex_event t cl i = \<lparr>evStoryId = 7, eventTime = t, clientId = cl, eventIndex = i, logRecord = [1]\<rparr>"

definition ex_chunk :: StoryChunk where
  "ex_chunk = (new_StoryChunk [] [] 7 10 30)
     \<lparr>logEvents := [((12, 3, 1), ex_event 12 3 1), ((20, 0, 0), ex_event 20 0 0), ((20, 3, 2), ex_event 20 3 2)]\<rparr>"

lemmas ex_chunk_simps = ex_chunk_def ex_event_def new_StoryChunk_def Let_def event_sequence_def

lemma wf_ex_chunk: "wf_chunk ex_chunk"
  by (simp add: wf_chunk_def wf_event_def accepts_def omap_ok_def ex_chunk_simps)

theorem mergeEvents_conserves_witness:
  "\<exists>n c' other'. mergeEvents (new_StoryChunk [] [] 7 0 20) ex_chunk 0 = (n, c', other') \<and>
     events_of c' (12, 3, 1) = Some (ex_event 12 3 1) \<and> events_of c' (20, 0, 0) = None \<and>
     events_of other' (20, 0, 0) = Some (ex_event 20 0 0)"
proof -
  obtain n c' other' where eq: "mergeEvents (new_StoryChunk [] [] 7 0 20) ex_chunk 0 = (n, c', other')"
    by (metis prod_cases3)
  have "chunkStoryId (new_StoryChunk [] [] 7 0 20) = chunkStoryId ex_chunk"
    by (simp add: ex_chunk_simps)
  note moved = mergeEvents_conserves [OF wf_new_StoryChunk wf_ex_chunk this eq]
  have "events_of c' (12, 3, 1) = Some (ex_event 12 3 1)" "events_of c' (20, 0, 0) = None"
    "events_of other' (20, 0, 0) = Some (ex_event 20 0 0)"
    by (simp_all add: moved map_add_def restrict_map_def chunk_range_def ex_chunk_simps)
  with eq show ?thesis by blast
qed

theorem insertEvent_first_copy_wins_witness:
  "insertEvent ex_chunk (ex_event 12 3 1) = (1, ex_chunk) \<and> insertEvent ex_chunk (ex_event 30 3 1) = (0, ex_chunk)"
proof
  have a: "accepts ex_chunk (ex_event 12 3 1)" "\<not> accepts ex_chunk (ex_event 30 3 1)"
    by (simp_all add: accepts_def ex_chunk_simps)
  show "insertEvent ex_chunk (ex_event 12 3 1) = (1, ex_chunk)"
    using insertEvent_first_copy_wins [OF wf_ex_chunk, of "ex_event 12 3 1"] a
    by (simp add: insertEvent_def) (simp add: ex_chunk_simps omap_emplace_def)
  show "insertEvent ex_chunk (ex_event 30 3 1) = (0, ex_chunk)"
    using insertEvent_first_copy_wins [OF wf_ex_chunk, of "ex_event 30 3 1"] a by simp
qed

theorem copyToEventSeries_exact_witness:
  "\<exists>picked. copyToEventSeries ex_chunk [] 11 20 = Some (map to_Event picked) \<and> ex_event 20 0 0 \<in> set picked"
  using copyToEventSeries_exact [OF wf_ex_chunk, of 11 20 "[]"] by (auto simp: ex_chunk_simps)

theorem eraseEvents_exact_witness:
  "events_of (eraseEvents ex_chunk 11 20) (20, 0, 0) = None \<and> events_of (eraseEvents ex_chunk 11 20) (20, 3, 2) \<noteq> None"
  using eraseEvents_exact [OF wf_ex_chunk, of 11 20] by (simp add: ex_chunk_simps restrict_map_def)

end
