(* ===== verification/StoryPipeline.thy ===== *)
theory StoryPipeline
  imports StoryChunk
begin

text \<open>
  The story pipeline of the grapher and the player
  (\<^verbatim>\<open>src/chrono-common/include/StoryPipeline.h\<close>, \<^verbatim>\<open>src/chrono-common/src/StoryPipeline.cpp\<close>)
  with its ingestion handle (\<^verbatim>\<open>StoryChunkIngestionHandle.h\<close>): a story's timeline of
  consecutive windows, into which arriving chunks of any granularity are merged and from which
  windows decay to extraction.

  The pipeline owns its windows and the queued chunks, so they are values. The calls it makes
  to an attached receipt tracker are recorded in order; the chunks it stashes in an attached
  extraction queue are appended to the queue's contents. A loop that may not end, or a step the
  language leaves undefined, is an outcome \<open>None\<close>.
\<close>

section \<open>State\<close>

datatype tracker_call = HoldReceipt StoryId u64 | ReceiptMerged StoryId u64

record StoryPipeline =
  plIncarnation :: u64
  plStoryId :: StoryId
  plChronicleName :: cpp_string
  plStoryName :: cpp_string
  chunkGranularity :: u64
  acceptanceWindow :: u64
  ingestionHandle :: bool
  activeDeque :: "StoryChunk list"
  passiveDeque :: "StoryChunk list"
  storyTimelineMap :: "(u64, StoryChunk) omap"
  theExtractionQueue :: "StoryChunk list option"
  theReceiptTracker :: "tracker_call list option"

definition TimelineStart :: "StoryPipeline \<Rightarrow> u64" where
  "TimelineStart pl = fst (hd (storyTimelineMap pl))"

definition TimelineEnd :: "StoryPipeline \<Rightarrow> u64" where
  "TimelineEnd pl = endTime (snd (last (storyTimelineMap pl)))"

definition make_window :: "StoryPipeline \<Rightarrow> u64 \<Rightarrow> u64 \<Rightarrow> StoryChunk" where
  "make_window pl a b =
     (new_StoryChunk (plChronicleName pl) (plStoryName pl) (plStoryId pl) a b)
       \<lparr>chunkIncarnation := plIncarnation pl\<rparr>"

text \<open>
  The constructor, given the number of the latest pipeline of the process; it returns the new
  number with the pipeline. A granularity of 0 divides by zero.
\<close>

definition new_StoryPipeline ::
  "u64 \<Rightarrow> cpp_string \<Rightarrow> cpp_string \<Rightarrow> StoryId \<Rightarrow> u64 \<Rightarrow> u32 \<Rightarrow> u32 \<Rightarrow> (u64 \<times> StoryPipeline) option" where
  "new_StoryPipeline latestIncarnation chronicle story sid start_time granularity window =
     (if granularity = 0 then None
      else
        let g = ucast granularity * 1000000000;
            t = start_time - start_time mod g;
            n = latestIncarnation + 1;
            pl = \<lparr>plIncarnation = n, plStoryId = sid, plChronicleName = chronicle, plStoryName = story,
                  chunkGranularity = g, acceptanceWindow = ucast window * 1000000000,
                  ingestionHandle = True, activeDeque = [], passiveDeque = [], storyTimelineMap = [],
                  theExtractionQueue = None, theReceiptTracker = None\<rparr>;
            add = (\<lambda>i m. let c = make_window pl (t + g * i) (t + g * (i + 1)) in omap_emplace (startTime c) c m)
        in Some (n, pl\<lparr>storyTimelineMap := add 2 (add 1 (add 0 []))\<rparr>))"

section \<open>Extending the timeline\<close>

text \<open>The key of the new window, or none (the end iterator) when its key is taken.\<close>

definition insert_window :: "u64 \<Rightarrow> StoryChunk \<Rightarrow> StoryPipeline \<Rightarrow> u64 option \<times> StoryPipeline" where
  "insert_window key c pl =
     (case map_of (storyTimelineMap pl) key of
        Some _ \<Rightarrow> (None, pl)
      | None \<Rightarrow> (Some key, pl\<lparr>storyTimelineMap := omap_emplace key c (storyTimelineMap pl)\<rparr>))"

definition prependStoryChunk :: "StoryPipeline \<Rightarrow> u64 option \<times> StoryPipeline" where
  "prependStoryChunk pl =
     (let c = make_window pl (TimelineStart pl - chunkGranularity pl) (TimelineStart pl)
      in insert_window (startTime c) c pl)"

definition appendStoryChunk :: "StoryPipeline \<Rightarrow> u64 option \<times> StoryPipeline" where
  "appendStoryChunk pl =
     insert_window (TimelineEnd pl)
       (make_window pl (TimelineEnd pl) (TimelineEnd pl + chunkGranularity pl)) pl"

section \<open>Receipts\<close>

fun carry_all :: "StoryId \<Rightarrow> u64 list \<Rightarrow> StoryChunk \<Rightarrow> tracker_call list \<Rightarrow> StoryChunk \<times> tracker_call list" where
  "carry_all sid [] holder calls = (holder, calls)"
| "carry_all sid (r # rs) holder calls =
     (case carryReceipt holder r of (fresh, holder') \<Rightarrow>
        carry_all sid rs holder' (if fresh then calls @ [HoldReceipt sid r] else calls))"

definition holdReceipts :: "StoryPipeline \<Rightarrow> StoryChunk \<Rightarrow> StoryChunk \<Rightarrow> StoryChunk \<times> StoryPipeline" where
  "holdReceipts pl holder other =
     (case theReceiptTracker pl of
        None \<Rightarrow> (holder, pl)
      | Some calls \<Rightarrow>
          (if carriedReceipts other = [] then (holder, pl)
           else (case chunk_lower_bound other (startTime holder) of
              [] \<Rightarrow> (holder, pl)
            | p # _ \<Rightarrow>
                (if endTime holder \<le> eventTime (snd p) then (holder, pl)
                 else (case carry_all (plStoryId pl) (carriedReceipts other) holder calls of
                         (holder', calls') \<Rightarrow> (holder', pl\<lparr>theReceiptTracker := Some calls'\<rparr>))))))"

section \<open>Merging a chunk\<close>

text \<open>Merge the other chunk into the window stored under a key.\<close>

definition merge_into :: "u64 \<Rightarrow> StoryPipeline \<Rightarrow> StoryChunk \<Rightarrow> StoryPipeline \<times> StoryChunk" where
  "merge_into key pl other =
     (case map_of (storyTimelineMap pl) key of
        None \<Rightarrow> (pl, other)
      | Some c \<Rightarrow>
          (case holdReceipts pl c other of (c1, pl1) \<Rightarrow>
             (case mergeEvents c1 other 0 of (_, c2, other') \<Rightarrow>
                (pl1\<lparr>storyTimelineMap := omap_put key c2 (storyTimelineMap pl1)\<rparr>, other'))))"

text \<open>
  The branch taken when the timeline cannot be extended into the past: the events before the
  timeline go to a watermark-exempt chunk in the extraction queue, or are dropped when no queue
  is attached. The flag says whether events were dropped.
\<close>

definition salvage :: "StoryPipeline \<Rightarrow> StoryChunk \<Rightarrow> StoryPipeline \<times> StoryChunk \<times> bool" where
  "salvage pl other =
     (let salvage_end = TimelineStart pl in
      case theExtractionQueue pl of
        None \<Rightarrow> (pl, eraseEvents other (firstEventTime other) salvage_end, True)
      | Some queue \<Rightarrow>
          let sc = (make_window pl (startTime other) salvage_end)\<lparr>watermarkExempt := True\<rparr> in
          case holdReceipts pl sc other of (sc1, pl1) \<Rightarrow>
          case mergeEvents sc1 other 0 of (_, sc2, other1) \<Rightarrow>
          let stuck = (\<not> chunk_empty other1 \<and> firstEventTime other1 < salvage_end);
              other2 = (if stuck then eraseEvents other1 (firstEventTime other1) salvage_end else other1);
              pl2 = (if chunk_empty sc2 then pl1 else pl1\<lparr>theExtractionQueue := Some (queue @ [sc2])\<rparr>)
          in (pl2, other2, stuck))"

partial_function (option) prepend_loop ::
  "StoryPipeline \<Rightarrow> StoryChunk \<Rightarrow> u64 option \<Rightarrow> bool \<Rightarrow> (StoryPipeline \<times> StoryChunk \<times> u64 option \<times> bool) option" where
  "prepend_loop pl other iter discarded =
     (if \<not> chunk_empty other \<and> firstEventTime other < TimelineStart pl
      then (case prependStoryChunk pl of
              (Some key, pl') \<Rightarrow> prepend_loop pl' other (Some key) discarded
            | (None, pl') \<Rightarrow>
                (case salvage pl' other of (pl'', other', d) \<Rightarrow>
                   prepend_loop pl'' other' (Some (TimelineStart pl'')) (discarded \<or> d)))
      else Some (pl, other, iter, discarded))"

text \<open>Where merging starts when the first event lies within the timeline.\<close>

definition locate_window :: "StoryPipeline \<Rightarrow> u64 \<Rightarrow> u64" where
  "locate_window pl t =
     (case omap_from t (storyTimelineMap pl) of
        [] \<Rightarrow> fst (last (storyTimelineMap pl))
      | (key, c) # _ \<Rightarrow>
          if t < startTime c \<and> key \<noteq> TimelineStart pl
          then fst (last (filter (\<lambda>p. fst p < key) (storyTimelineMap pl)))
          else key)"

fun merge_timeline :: "u64 list \<Rightarrow> StoryPipeline \<Rightarrow> StoryChunk \<Rightarrow> StoryPipeline \<times> StoryChunk" where
  "merge_timeline [] pl other = (pl, other)"
| "merge_timeline (key # keys) pl other =
     (if \<not> chunk_empty other \<and> firstEventTime other < TimelineEnd pl
      then (case merge_into key pl other of (pl', other') \<Rightarrow> merge_timeline keys pl' other')
      else (pl, other))"

partial_function (option) append_loop ::
  "StoryPipeline \<Rightarrow> StoryChunk \<Rightarrow> (StoryPipeline \<times> StoryChunk) option" where
  "append_loop pl other =
     (if \<not> chunk_empty other \<and> TimelineEnd pl \<le> endTime other
      then (case appendStoryChunk pl of
              (None, pl') \<Rightarrow> Some (pl', other)
            | (Some key, pl') \<Rightarrow>
                if firstEventTime other < TimelineEnd pl'
                then (case merge_into key pl' other of (pl'', other') \<Rightarrow> append_loop pl'' other')
                else append_loop pl' other)
      else Some (pl, other))"

text \<open>
  Where merging starts: before the timeline (which is extended into the past, after the
  acceptance window is set anew), within it, or behind it (no window yet).
\<close>

definition merge_start ::
  "StoryPipeline \<Rightarrow> StoryChunk \<Rightarrow> (StoryPipeline \<times> StoryChunk \<times> u64 option \<times> bool) option" where
  "merge_start pl other =
     (let first = firstEventTime other in
      if first < TimelineStart pl
      then prepend_loop (pl\<lparr>acceptanceWindow := (TimelineStart pl - first) + 3000\<rparr>) other None False
      else if first < TimelineEnd pl then Some (pl, other, Some (locate_window pl first), False)
      else Some (pl, other, None, False))"

text \<open>
  The end of the merge: what is left is dropped, and unless anything was dropped on the way the
  tracker learns that the receipts' chunk is merged.
\<close>

definition finish_merge :: "bool \<Rightarrow> StoryPipeline \<Rightarrow> StoryChunk \<Rightarrow> StoryPipeline \<times> StoryChunk" where
  "finish_merge discarded pl other =
     (let discarded' = (discarded \<or> \<not> chunk_empty other);
          other' = (if chunk_empty other then other
                    else eraseEvents other (startTime other) (endTime other))
      in (case theReceiptTracker pl of
            Some calls \<Rightarrow>
              (if discarded' then pl
               else pl\<lparr>theReceiptTracker :=
                      Some (calls @ map (ReceiptMerged (plStoryId pl)) (carriedReceipts other'))\<rparr>)
          | None \<Rightarrow> pl, other'))"

text \<open>
  The whole of \<^verbatim>\<open>StoryPipeline::mergeEvents\<close>: the pipeline and the other chunk afterwards.
  On an empty timeline (a finalized pipeline) the code reads through the end iterator.
\<close>

definition pipeline_mergeEvents ::
  "StoryPipeline \<Rightarrow> StoryChunk \<Rightarrow> (StoryPipeline \<times> StoryChunk) option" where
  "pipeline_mergeEvents pl other =
     (if chunk_empty other then Some (pl, other)
      else if storyTimelineMap pl = [] then None
      else
        Option.bind (merge_start pl other)
          (\<lambda>(pl1, other1, iter, discarded).
             case (case iter of None \<Rightarrow> (pl1, other1)
                   | Some key \<Rightarrow> merge_timeline (map fst (omap_from key (storyTimelineMap pl1))) pl1 other1)
             of (pl2, other2) \<Rightarrow>
               map_option (\<lambda>(pl3, other3). finish_merge discarded pl3 other3) (append_loop pl2 other2)))"

section \<open>Ingestion\<close>

definition ingestChunk :: "StoryChunk \<Rightarrow> StoryPipeline \<Rightarrow> StoryPipeline" where
  "ingestChunk c pl = pl\<lparr>activeDeque := activeDeque pl @ [c]\<rparr>"

definition swapActiveDeque :: "StoryPipeline \<Rightarrow> StoryPipeline" where
  "swapActiveDeque pl =
     (if passiveDeque pl \<noteq> [] \<or> activeDeque pl = [] then pl
      else pl\<lparr>activeDeque := passiveDeque pl, passiveDeque := activeDeque pl\<rparr>)"

fun merge_all :: "StoryChunk list \<Rightarrow> StoryPipeline \<Rightarrow> StoryPipeline option" where
  "merge_all [] pl = Some pl"
| "merge_all (c # cs) pl = Option.bind (pipeline_mergeEvents pl c) (\<lambda>(pl', _). merge_all cs pl')"

definition collectIngestedEvents :: "StoryPipeline \<Rightarrow> StoryPipeline option" where
  "collectIngestedEvents pl =
     (if \<not> ingestionHandle pl then None
      else let pl1 = swapActiveDeque pl
           in merge_all (passiveDeque pl1) (pl1\<lparr>passiveDeque := []\<rparr>))"

section \<open>Decay and shutdown\<close>

partial_function (option) extractDecayedStoryChunks ::
  "u64 \<Rightarrow> StoryPipeline \<Rightarrow> StoryChunk list \<Rightarrow> (StoryPipeline \<times> StoryChunk list) option" where
  "extractDecayedStoryChunks current_time pl extracted =
     (case storyTimelineMap pl of
        [] \<Rightarrow> None
      | (key, head) # rest \<Rightarrow>
          if acceptanceWindow pl + endTime head \<le> current_time
          then if acceptanceWindow pl + endTime head < current_time
               then if rest = [] then None
                    else let pl1 = pl\<lparr>storyTimelineMap := rest\<rparr>;
                             pl2 = (if length rest < 2 then snd (appendStoryChunk pl1) else pl1)
                         in extractDecayedStoryChunks current_time pl2 (extracted @ [head])
               else extractDecayedStoryChunks current_time pl extracted
          else Some (pl, extracted))"

definition finalize :: "StoryPipeline \<Rightarrow> StoryChunk list \<Rightarrow> (StoryPipeline \<times> StoryChunk list) option" where
  "finalize pl extracted =
     Option.bind
       (if ingestionHandle pl
        then Option.bind (merge_all (passiveDeque pl) (pl\<lparr>passiveDeque := []\<rparr>))
               (\<lambda>pl1. map_option (\<lambda>pl2. pl2\<lparr>ingestionHandle := False\<rparr>)
                        (merge_all (activeDeque pl1) (pl1\<lparr>activeDeque := []\<rparr>)))
        else Some pl)
       (\<lambda>pl3. Some (pl3\<lparr>storyTimelineMap := []\<rparr>, extracted @ map snd (storyTimelineMap pl3)))"

fun copy_windows :: "(u64, StoryChunk) omap \<Rightarrow> Event list \<Rightarrow> u64 \<Rightarrow> u64 \<Rightarrow> Event list option" where
  "copy_windows [] series start_time end_time = Some series"
| "copy_windows (p # ps) series start_time end_time =
     Option.bind (copyToEventSeries (snd p) series start_time end_time)
       (\<lambda>series'. copy_windows ps series' start_time end_time)"

definition pipeline_copyToEventSeries :: "StoryPipeline \<Rightarrow> Event list \<Rightarrow> u64 \<Rightarrow> u64 \<Rightarrow> Event list option" where
  "pipeline_copyToEventSeries pl series start_time end_time =
     copy_windows (storyTimelineMap pl) series start_time end_time"

section \<open>The timeline invariant\<close>

text \<open>
  Every window is well-formed, belongs to the story, is stored under its start time, has the
  granularity as its length, starts at a multiple of it, and ends where the next one starts.
  The length equation is one of natural numbers: no window wraps around the 64-bit clock.
\<close>

fun contiguous :: "(u64, StoryChunk) omap \<Rightarrow> bool" where
  "contiguous [] = True"
| "contiguous [p] = True"
| "contiguous (p # q # m) = (endTime (snd p) = fst q \<and> contiguous (q # m))"

definition window_ok :: "StoryId \<Rightarrow> nat \<Rightarrow> u64 \<times> StoryChunk \<Rightarrow> bool" where
  "window_ok sid g p \<longleftrightarrow> wf_chunk (snd p) \<and> chunkStoryId (snd p) = sid \<and> startTime (snd p) = fst p \<and>
     unat (endTime (snd p)) = unat (fst p) + g \<and> g dvd unat (fst p)"

definition timeline_ok :: "StoryId \<Rightarrow> nat \<Rightarrow> (u64, StoryChunk) omap \<Rightarrow> bool" where
  "timeline_ok sid g m \<longleftrightarrow> 0 < g \<and> contiguous m \<and> (\<forall>p\<in>set m. window_ok sid g p)"

definition pipeline_ok :: "StoryPipeline \<Rightarrow> bool" where
  "pipeline_ok pl \<longleftrightarrow> storyTimelineMap pl \<noteq> [] \<and>
     timeline_ok (plStoryId pl) (unat (chunkGranularity pl)) (storyTimelineMap pl)"

text \<open>The events of the whole timeline, in order.\<close>

definition timeline_events :: "(u64, StoryChunk) omap \<Rightarrow> (EventSequence, LogEvent) omap" where
  "timeline_events m = concat (map (\<lambda>p. logEvents (snd p)) m)"

abbreviation pipeline_events :: "StoryPipeline \<Rightarrow> EventSequence \<Rightarrow> LogEvent option" where
  "pipeline_events pl \<equiv> map_of (timeline_events (storyTimelineMap pl))"

lemma timeline_ok_Cons:
  "timeline_ok sid g (p # m) \<longleftrightarrow> 0 < g \<and> window_ok sid g p \<and>
     (m = [] \<or> endTime (snd p) = fst (hd m) \<and> timeline_ok sid g m)"
  by (cases m) (auto simp: timeline_ok_def)

lemma contiguous_Cons: "contiguous (p # n) \<longleftrightarrow> n = [] \<or> endTime (snd p) = fst (hd n) \<and> contiguous n"
  by (cases n) simp_all

lemma contiguous_append:
  "contiguous (m @ n) \<longleftrightarrow> contiguous m \<and> contiguous n \<and>
     (m = [] \<or> n = [] \<or> endTime (snd (last m)) = fst (hd n))"
proof (induction m)
  case (Cons a m)
  then show ?case by (cases "m = []") (auto simp: contiguous_Cons)
qed simp

lemma timeline_ok_append:
  "timeline_ok sid g (m @ n) \<longleftrightarrow> timeline_ok sid g m \<and> timeline_ok sid g n \<and>
     (m = [] \<or> n = [] \<or> endTime (snd (last m)) = fst (hd n))"
  by (auto simp: timeline_ok_def contiguous_append)

lemma window_interval: "window_ok sid g p \<Longrightarrow> 0 < g \<Longrightarrow> fst p < endTime (snd p)"
  by (auto simp: window_ok_def word_less_nat_alt)

lemma timeline_after: "timeline_ok sid g (p # m) \<Longrightarrow> q \<in> set m \<Longrightarrow> endTime (snd p) \<le> fst q"
proof (induction m arbitrary: p)
  case Nil
  then show ?case by simp
next
  case (Cons r m)
  then have r: "timeline_ok sid g (r # m)" "endTime (snd p) = fst r"
    by (simp_all add: timeline_ok_Cons)
  then have "fst r < endTime (snd r)" by (auto simp: timeline_ok_Cons intro: window_interval)
  with r Cons.IH [OF r(1)] Cons.prems(2) show ?case by fastforce
qed

lemma timeline_before: "timeline_ok sid g (m @ p # n) \<Longrightarrow> q \<in> set m \<Longrightarrow> endTime (snd q) \<le> fst p"
proof -
  assume ok: "timeline_ok sid g (m @ p # n)" and "q \<in> set m"
  then obtain xs ys where "m = xs @ q # ys" by (auto simp: in_set_conv_decomp)
  with ok have "timeline_ok sid g (xs @ q # (ys @ p # n))" by simp
  then have "timeline_ok sid g (q # (ys @ p # n))" by (simp only: timeline_ok_append)
  then show ?thesis by (rule timeline_after) simp
qed

lemma timeline_interval: "timeline_ok sid g m \<Longrightarrow> p \<in> set m \<Longrightarrow> fst p < endTime (snd p)"
  by (auto simp: timeline_ok_def intro: window_interval)

lemma timeline_sorted: "timeline_ok sid g m \<Longrightarrow> omap_ok m"
proof (induction m)
  case Nil
  then show ?case by simp
next
  case (Cons p m)
  have "fst p < fst q" if "q \<in> set m" for q
    using timeline_interval [OF Cons.prems, of p] timeline_after [OF Cons.prems that] by simp
  moreover have "omap_ok m" using Cons by (cases m) (simp_all add: timeline_ok_Cons)
  ultimately show ?case by (auto simp: omap_ok_Cons)
qed

lemma timeline_end_mono:
  "timeline_ok sid g m \<Longrightarrow> p \<in> set m \<Longrightarrow> endTime (snd p) \<le> endTime (snd (last m))"
proof (cases m rule: rev_cases)
  case (snoc n q)
  assume ok: "timeline_ok sid g m" and p: "p \<in> set m"
  show ?thesis
  proof (cases "p \<in> set n")
    case True
    with ok snoc have "endTime (snd p) \<le> fst q" by (auto intro: timeline_before)
    also have "fst q < endTime (snd q)" using ok snoc by (auto intro: timeline_interval)
    finally show ?thesis using snoc by simp
  qed (use p snoc in auto)
qed simp

text \<open>A window's events are looked up in that window; a time in no window has no events.\<close>

lemma window_None:
  "window_ok sid g p \<Longrightarrow> \<not> (fst p \<le> fst k \<and> fst k < endTime (snd p)) \<Longrightarrow> events_of (snd p) k = None"
  by (cases "events_of (snd p) k") (auto simp: window_ok_def accepts_def dest: wf_chunk_eventD)

lemma timeline_events_simps [simp]:
  "timeline_events [] = []" "timeline_events (p # m) = logEvents (snd p) @ timeline_events m"
  "timeline_events (m @ n) = timeline_events m @ timeline_events n"
  by (simp_all add: timeline_events_def)

lemma timeline_lookup_None:
  "timeline_ok sid g m \<Longrightarrow> (\<And>p. p \<in> set m \<Longrightarrow> \<not> (fst p \<le> fst k \<and> fst k < endTime (snd p))) \<Longrightarrow>
   map_of (timeline_events m) k = None"
proof (induction m)
  case (Cons p m)
  then have "map_of (timeline_events m) k = None"
    by (cases m) (simp_all add: timeline_ok_Cons)
  moreover have "events_of (snd p) k = None"
    using Cons.prems(1) by (intro window_None [of sid g] Cons.prems(2)) (simp_all add: timeline_ok_Cons)
  ultimately show ?case by simp
qed simp

lemma timeline_lookup_split:
  assumes ok: "timeline_ok sid g (m @ p # n)"
  shows "map_of (timeline_events (m @ p # n)) k =
    (if fst p \<le> fst k \<and> fst k < endTime (snd p) then events_of (snd p) k
     else map_of (timeline_events (m @ n)) k)"
proof -
  have parts: "timeline_ok sid g m" "timeline_ok sid g (p # n)" "window_ok sid g p"
    using ok by (auto simp: timeline_ok_append timeline_ok_Cons)
  have n: "timeline_ok sid g n" using parts(2) by (auto simp: timeline_ok_def elim: contiguous.elims)
  show ?thesis
  proof (cases "fst p \<le> fst k \<and> fst k < endTime (snd p)")
    case True
    have "map_of (timeline_events m) k = None"
      using True timeline_before [OF ok] by (intro timeline_lookup_None [OF parts(1)]) fastforce
    moreover have "map_of (timeline_events n) k = None"
      using True timeline_after [OF parts(2)] by (intro timeline_lookup_None [OF n]) fastforce
    ultimately show ?thesis using True by (simp add: map_add_def split: option.split)
  next
    case False
    then have "events_of (snd p) k = None" by (rule window_None [OF parts(3)])
    with False show ?thesis by (auto simp: map_add_def split: option.split)
  qed
qed

section \<open>One step of a merge\<close>

lemma carry_all_frame:
  "carry_all sid rs h calls = (h', calls') \<Longrightarrow> h' = h\<lparr>carriedReceipts := carriedReceipts h'\<rparr>"
proof (induction rs arbitrary: h calls)
  case Nil
  then show ?case by simp
next
  case (Cons r rs)
  from Cons.prems obtain h1 calls1 where h1: "h1 = snd (carryReceipt h r)" "carry_all sid rs h1 calls1 = (h', calls')"
    by (auto split: prod.splits)
  from Cons.IH [OF h1(2)] h1(1) show ?case by (simp add: carryReceipt_def)
qed

lemma holdReceipts_frame:
  "holdReceipts pl h other = (h', pl') \<Longrightarrow>
     h' = h\<lparr>carriedReceipts := carriedReceipts h'\<rparr> \<and> pl' = pl\<lparr>theReceiptTracker := theReceiptTracker pl'\<rparr>"
  by (auto simp: holdReceipts_def dest: carry_all_frame split: option.splits if_splits list.splits prod.splits)

text \<open>
  What a merge never changes: everything of the pipeline but its windows and the calls to the
  tracker, everything of the other chunk but its events, and, taken together, the events.
\<close>

definition pipeline_frame :: "StoryPipeline \<Rightarrow> StoryPipeline \<Rightarrow> bool" where
  "pipeline_frame pl0 pl \<longleftrightarrow>
     pl0\<lparr>storyTimelineMap := [], theReceiptTracker := None\<rparr> = pl\<lparr>storyTimelineMap := [], theReceiptTracker := None\<rparr>"

definition chunk_frame :: "StoryChunk \<Rightarrow> StoryChunk \<Rightarrow> bool" where
  "chunk_frame c0 c \<longleftrightarrow> c0\<lparr>logEvents := []\<rparr> = c\<lparr>logEvents := []\<rparr>"

lemma pipeline_frame_simps [simp]:
  "pipeline_frame pl pl" "pipeline_frame pl0 (pl\<lparr>storyTimelineMap := m\<rparr>) = pipeline_frame pl0 pl"
  "pipeline_frame pl0 (pl\<lparr>theReceiptTracker := t\<rparr>) = pipeline_frame pl0 pl"
  by (simp_all add: pipeline_frame_def)

lemma chunk_frame_simps [simp]: "chunk_frame c c" "chunk_frame c0 (c\<lparr>logEvents := m\<rparr>) = chunk_frame c0 c"
  by (simp_all add: chunk_frame_def)

lemma pipeline_frameD:
  "pipeline_frame pl0 pl \<Longrightarrow> plStoryId pl = plStoryId pl0 \<and> chunkGranularity pl = chunkGranularity pl0 \<and>
     theExtractionQueue pl = theExtractionQueue pl0 \<and> acceptanceWindow pl = acceptanceWindow pl0 \<and>
     plIncarnation pl = plIncarnation pl0 \<and> activeDeque pl = activeDeque pl0 \<and>
     passiveDeque pl = passiveDeque pl0 \<and> ingestionHandle pl = ingestionHandle pl0"
  by (cases pl0; cases pl) (simp add: pipeline_frame_def)

lemma chunk_frameD:
  "chunk_frame c0 c \<Longrightarrow> startTime c = startTime c0 \<and> endTime c = endTime c0 \<and>
     chunkStoryId c = chunkStoryId c0 \<and> carriedReceipts c = carriedReceipts c0"
  by (cases c0; cases c) (simp add: chunk_frame_def)

definition merge_inv :: "StoryPipeline \<Rightarrow> StoryChunk \<Rightarrow> StoryPipeline \<Rightarrow> StoryChunk \<Rightarrow> bool" where
  "merge_inv pl0 other0 pl other \<longleftrightarrow>
     pipeline_ok pl \<and> wf_chunk other \<and> chunkStoryId other = plStoryId pl \<and>
     pipeline_frame pl0 pl \<and> chunk_frame other0 other \<and>
     events_of other ++ pipeline_events pl = events_of other0 ++ pipeline_events pl0 \<and>
     fst ` set (storyTimelineMap pl0) \<subseteq> fst ` set (storyTimelineMap pl)"

lemma merge_inv_refl:
  "pipeline_ok pl \<Longrightarrow> wf_chunk other \<Longrightarrow> chunkStoryId other = plStoryId pl \<Longrightarrow> merge_inv pl other pl other"
  by (simp add: merge_inv_def)

lemma map_add_move: "(\<And>k. g' k = (if k \<in> R then ((f |` R) ++ g) k else g k)) \<Longrightarrow> (f |` (- R)) ++ g' = f ++ g"
  by (auto simp: map_add_def restrict_map_def fun_eq_iff split: option.split)

lemma wf_chunk_carried [simp]: "wf_chunk (c\<lparr>carriedReceipts := s\<rparr>) = wf_chunk c"
  by (simp add: wf_chunk_def)

lemma chunk_range_carried [simp]: "chunk_range (c\<lparr>carriedReceipts := s\<rparr>) = chunk_range c"
  by (simp add: chunk_range_def)

lemma merge_into_step:
  assumes inv: "merge_inv pl0 other0 pl other"
    and at: "storyTimelineMap pl = m @ (key, c) # n"
    and step: "merge_into key pl other = (pl', other')"
  shows "merge_inv pl0 other0 pl' other' \<and>
    (\<exists>c'. storyTimelineMap pl' = m @ (key, c') # n \<and> endTime c' = endTime c) \<and>
    events_of other' = events_of other |` (- {k. key \<le> fst k \<and> fst k < endTime c})"
proof -
  let ?sid = "plStoryId pl" and ?g = "unat (chunkGranularity pl)" and ?R = "{k. key \<le> fst k \<and> fst k < endTime c}"
  have ok: "timeline_ok ?sid ?g (m @ (key, c) # n)" and wfo: "wf_chunk other" "chunkStoryId other = ?sid"
    and fr0: "pipeline_frame pl0 pl" "chunk_frame other0 other"
    and total: "events_of other ++ pipeline_events pl = events_of other0 ++ pipeline_events pl0"
    and keys: "fst ` set (storyTimelineMap pl0) \<subseteq> fst ` set (storyTimelineMap pl)"
    using inv at by (auto simp: merge_inv_def pipeline_ok_def)
  then have win: "window_ok ?sid ?g (key, c)" by (auto simp: timeline_ok_append timeline_ok_Cons)
  have sorted: "omap_ok (m @ (key, c) # n)" using ok by (rule timeline_sorted)
  have look: "map_of (storyTimelineMap pl) key = Some c"
    unfolding at map_of_omap_Some [OF sorted] by simp
  obtain c1 pl1 where hold: "holdReceipts pl c other = (c1, pl1)" by fastforce
  obtain cnt c2 other2 where mrg: "mergeEvents c1 other 0 = (cnt, c2, other2)" by (metis prod_cases3)
  from holdReceipts_frame [OF hold] obtain rs tr where
    c1: "c1 = c\<lparr>carriedReceipts := rs\<rparr>" and pl1: "pl1 = pl\<lparr>theReceiptTracker := tr\<rparr>" by blast
  have c: "wf_chunk c" "chunkStoryId c = ?sid" "startTime c = key" "chunk_range c = ?R"
    using win by (auto simp: window_ok_def chunk_range_def)
  then have pre: "wf_chunk c1" "chunkStoryId c1 = chunkStoryId other" using wfo(2) by (simp_all add: c1)
  note moved = mergeEvents_lookup [OF pre(1) wfo(1) pre(2) mrg]
  from moved(5,6) obtain es os where c2: "c2 = c1\<lparr>logEvents := es\<rparr>" and o2: "other2 = other\<lparr>logEvents := os\<rparr>"
    by blast
  have res: "other' = other2" "pl' = pl\<lparr>theReceiptTracker := tr, storyTimelineMap := m @ (key, c2) # n\<rparr>"
    using step look hold mrg at sorted by (auto simp: merge_into_def pl1 omap_put_mid)
  have win2: "window_ok ?sid ?g (key, c2)"
    using win moved(3) by (simp add: window_ok_def c2 c1)
  have ok2: "timeline_ok ?sid ?g (m @ (key, c2) # n)"
    using ok win2 by (simp add: timeline_ok_append timeline_ok_Cons c2 c1)
  have ends: "endTime c2 = endTime c" by (simp add: c2 c1)
  have "events_of c1 = events_of c" "chunk_range c1 = ?R" using c(4) by (simp_all add: c1)
  then have e2: "events_of c2 k = ((events_of other |` ?R) ++ events_of c) k" for k
    by (simp only: moved(1))
  have "map_of (timeline_events (m @ (key, c2) # n)) k
      = (if k \<in> ?R then ((events_of other |` ?R) ++ pipeline_events pl) k else pipeline_events pl k)" for k
    unfolding at timeline_lookup_split [OF ok] timeline_lookup_split [OF ok2]
    by (simp only: snd_conv fst_conv ends e2 mem_Collect_eq map_add_def if_True split: if_split) (simp, blast)
  then have "(events_of other |` (- ?R)) ++ map_of (timeline_events (m @ (key, c2) # n))
      = events_of other ++ pipeline_events pl"
    by (intro map_add_move) simp
  moreover have rest: "events_of other2 = events_of other |` (- ?R)"
    using moved(2) c(4) by (simp add: c1)
  ultimately have "merge_inv pl0 other0 pl' other'"
    unfolding merge_inv_def pipeline_ok_def
    using ok2 moved(4) fr0 total keys wfo(2) by (simp add: res o2 at)
  then show ?thesis using rest by (simp add: res c2 c1)
qed

section \<open>First events\<close>

abbreviation events_from :: "u64 \<Rightarrow> StoryChunk \<Rightarrow> bool" where
  "events_from t c \<equiv> \<forall>k\<in>dom (events_of c). t \<le> fst k"

lemma first_event:
  assumes "wf_chunk c" "\<not> chunk_empty c"
  shows "firstEventTime c \<in> fst ` dom (events_of c)" and "events_from (firstEventTime c) c"
proof -
  obtain k e m where m: "logEvents c = (k, e) # m" using assms(2) by (metis neq_Nil_conv surj_pair)
  then have t: "fst k = firstEventTime c" and ok: "omap_ok (logEvents c)"
    using assms(1) by (auto simp: wf_chunk_def wf_event_def firstEventTime_def)
  from t m show "firstEventTime c \<in> fst ` dom (events_of c)" by (force simp: domIff)
  show "events_from (firstEventTime c) c"
  proof
    fix k' assume "k' \<in> dom (events_of c)"
    then obtain e' where "(k', e') \<in> set (logEvents c)" by (auto dest: map_of_SomeD)
    with omap_ok_hd [OF ok this] m t show "firstEventTime c \<le> fst k'" by (auto dest: seq_time_mono)
  qed
qed

lemma events_from_first:
  "wf_chunk c \<Longrightarrow> \<not> chunk_empty c \<Longrightarrow> events_from t c \<longleftrightarrow> t \<le> firstEventTime c"
proof -
  assume wf: "wf_chunk c" "\<not> chunk_empty c"
  then obtain k where k: "k \<in> dom (events_of c)" "firstEventTime c = fst k" using first_event(1) by blast
  show ?thesis
  proof
    assume "events_from t c"
    with k show "t \<le> firstEventTime c" by simp
  next
    assume "t \<le> firstEventTime c"
    with first_event(2) [OF wf] show "events_from t c" by (meson order_trans)
  qed
qed

lemma events_from_restrict:
  assumes "events_of c' = events_of c |` (- {k. a \<le> fst k \<and> fst k < b})" and "events_from a c"
  shows "events_from b c'"
proof
  fix k assume "k \<in> dom (events_of c')"
  then have "k \<in> dom (events_of c)" "\<not> (a \<le> fst k \<and> fst k < b)"
    by (auto simp: assms(1) restrict_map_def split: if_splits)
  with assms(2) show "b \<le> fst k" by (simp add: not_less)
qed

lemma chunk_empty_dom: "chunk_empty c \<longleftrightarrow> dom (events_of c) = {}"
  by (cases "logEvents c") (auto simp: domIff)

lemma first_event_below_end: "wf_chunk c \<Longrightarrow> \<not> chunk_empty c \<Longrightarrow> firstEventTime c < endTime c"
proof -
  assume wf: "wf_chunk c" and "\<not> chunk_empty c"
  then obtain k where "k \<in> dom (events_of c)" "firstEventTime c = fst k" using first_event(1) by blast
  with wf_chunk_dom_range [OF wf] show ?thesis by (auto simp: chunk_range_def)
qed

section \<open>The loops of a merge\<close>

lemma merge_timeline_drains:
  assumes "merge_inv pl0 other0 pl other" and "storyTimelineMap pl = m @ n"
    and "events_from (if n = [] then TimelineEnd pl else fst (hd n)) other"
    and "merge_timeline (map fst n) pl other = (pl', other')"
  shows "merge_inv pl0 other0 pl' other' \<and> TimelineEnd pl' = TimelineEnd pl \<and> events_from (TimelineEnd pl') other'"
  using assms
proof (induction n arbitrary: m pl other)
  case Nil
  then show ?case by simp
next
  case (Cons p n)
  obtain key c where p: "p = (key, c)" by fastforce
  have wf: "wf_chunk other" and tl: "timeline_ok (plStoryId pl) (unat (chunkGranularity pl)) (m @ p # n)"
    using Cons.prems(1,2) by (auto simp: merge_inv_def pipeline_ok_def)
  show ?case
  proof (cases "\<not> chunk_empty other \<and> firstEventTime other < TimelineEnd pl")
    case True
    obtain pl1 other1 where step: "merge_into key pl other = (pl1, other1)" by fastforce
    with True Cons.prems(4) have rest: "merge_timeline (map fst n) pl1 other1 = (pl', other')"
      by (simp add: p)
    from merge_into_step [OF Cons.prems(1) _ step, of m c n] Cons.prems(2) obtain c' where
      inv: "merge_inv pl0 other0 pl1 other1" and tl1: "storyTimelineMap pl1 = m @ (key, c') # n" "endTime c' = endTime c"
      and ev: "events_of other1 = events_of other |` (- {k. key \<le> fst k \<and> fst k < endTime c})"
      by (auto simp: p)
    have same: "TimelineEnd pl1 = TimelineEnd pl"
      using tl1 Cons.prems(2) by (simp add: TimelineEnd_def p)
    have "endTime c = (if n = [] then TimelineEnd pl1 else fst (hd n))"
      using tl tl1 by (auto simp: TimelineEnd_def p timeline_ok_append timeline_ok_Cons)
    moreover have "events_from (endTime c) other1"
      using events_from_restrict [OF ev] Cons.prems(3) by (simp add: p)
    ultimately have "events_from (if n = [] then TimelineEnd pl1 else fst (hd n)) other1" by simp
    then have "merge_inv pl0 other0 pl' other' \<and> TimelineEnd pl' = TimelineEnd pl1 \<and> events_from (TimelineEnd pl') other'"
      by (intro Cons.IH [OF inv _ _ rest, of "m @ [(key, c')]"]) (simp_all add: tl1)
    then show ?thesis using same by metis
  next
    case False
    have "events_from (TimelineEnd pl) other"
    proof (cases "chunk_empty other")
      case True
      then show ?thesis by simp
    next
      case nonempty: False
      with False have "TimelineEnd pl \<le> firstEventTime other" by (simp add: not_less)
      then show ?thesis by (simp only: events_from_first [OF wf nonempty])
    qed
    moreover from False Cons.prems(4) have "pl' = pl" "other' = other" by (auto split: if_splits)
    ultimately show ?thesis using Cons.prems(1) by metis
  qed
qed

lemma make_window_ok:
  assumes "0 < unat (chunkGranularity pl)" "unat b = unat a + unat (chunkGranularity pl)"
    "unat (chunkGranularity pl) dvd unat a"
  shows "window_ok (plStoryId pl) (unat (chunkGranularity pl)) (a, make_window pl a b)"
    and "logEvents (make_window pl a b) = []" and "startTime (make_window pl a b) = a"
    and "endTime (make_window pl a b) = b"
proof -
  have "a < b" using assms(1,2) by (simp add: word_less_nat_alt)
  then show "window_ok (plStoryId pl) (unat (chunkGranularity pl)) (a, make_window pl a b)"
    and "logEvents (make_window pl a b) = []" and "startTime (make_window pl a b) = a"
    and "endTime (make_window pl a b) = b"
    using assms by (auto simp: make_window_def window_ok_def new_StoryChunk_def Let_def wf_chunk_def)
qed

lemma prependStoryChunk_step:
  assumes inv: "merge_inv pl0 other0 pl other" and pos: "0 < TimelineStart pl"
  obtains w where "prependStoryChunk pl = (Some (TimelineStart pl - chunkGranularity pl),
      pl\<lparr>storyTimelineMap := (TimelineStart pl - chunkGranularity pl, w) # storyTimelineMap pl\<rparr>)"
    and "merge_inv pl0 other0 (snd (prependStoryChunk pl)) other"
    and "unat (TimelineStart pl - chunkGranularity pl) < unat (TimelineStart pl)"
proof -
  let ?g = "unat (chunkGranularity pl)" and ?a = "TimelineStart pl - chunkGranularity pl"
  obtain p m where m: "storyTimelineMap pl = p # m" and ok: "timeline_ok (plStoryId pl) ?g (p # m)"
    using inv by (auto simp: merge_inv_def pipeline_ok_def neq_Nil_conv)
  have s: "TimelineStart pl = fst p" by (simp add: TimelineStart_def m)
  have g: "0 < ?g" "?g dvd unat (fst p)" using ok by (auto simp: timeline_ok_Cons window_ok_def)
  with pos have le: "?g \<le> unat (fst p)" by (auto simp: s word_less_nat_alt intro: dvd_imp_le)
  then have a: "unat ?a = unat (fst p) - ?g" by (simp add: s unat_sub word_le_nat_alt)
  then have b: "unat (TimelineStart pl) = unat ?a + ?g" "?g dvd unat ?a" using g le by (simp_all add: s)
  note w = make_window_ok [OF g(1) b]
  let ?w = "make_window pl ?a (TimelineStart pl)"
  have less: "?a < fst p" using a g(1) le by (simp add: word_less_nat_alt)
  have above: "\<forall>q\<in>set (p # m). ?a < fst q"
    using timeline_sorted [OF ok] less by (auto simp: omap_ok_Cons dest: less_trans)
  then have "map_of (p # m) ?a = None" by (intro map_of_None_keys) (metis less_irrefl)
  moreover have "omap_put ?a ?w (p # m) = (?a, ?w) # p # m" by (rule omap_put_front [OF above])
  ultimately have res: "prependStoryChunk pl = (Some ?a, pl\<lparr>storyTimelineMap := (?a, ?w) # storyTimelineMap pl\<rparr>)"
    using w(3) by (simp only: prependStoryChunk_def insert_window_def m omap_emplace_def Let_def option.case)
  have "timeline_ok (plStoryId pl) ?g ((?a, ?w) # p # m)"
    unfolding timeline_ok_Cons [of _ _ "(?a, ?w)"] using ok w(1,4) g(1) s by (metis list.sel(1) snd_conv)
  then have "merge_inv pl0 other0 (snd (prependStoryChunk pl)) other"
    using inv w(2) by (auto simp: res merge_inv_def pipeline_ok_def m)
  with res a g(1) le that show thesis by (simp add: s)
qed

lemma appendStoryChunk_step:
  assumes inv: "merge_inv pl0 other0 pl other"
    and room: "unat (TimelineEnd pl) + unat (chunkGranularity pl) < 2 ^ 64"
  obtains w where "appendStoryChunk pl = (Some (TimelineEnd pl),
      pl\<lparr>storyTimelineMap := storyTimelineMap pl @ [(TimelineEnd pl, w)]\<rparr>)"
    and "merge_inv pl0 other0 (snd (appendStoryChunk pl)) other"
    and "unat (TimelineEnd (snd (appendStoryChunk pl))) = unat (TimelineEnd pl) + unat (chunkGranularity pl)"
    and "endTime w = TimelineEnd (snd (appendStoryChunk pl))" and "logEvents w = []"
proof -
  let ?g = "unat (chunkGranularity pl)" and ?a = "TimelineEnd pl" and ?b = "TimelineEnd pl + chunkGranularity pl"
  let ?m = "storyTimelineMap pl"
  have m: "?m \<noteq> []" and ok: "timeline_ok (plStoryId pl) ?g ?m"
    using inv by (auto simp: merge_inv_def pipeline_ok_def)
  have last: "window_ok (plStoryId pl) ?g (last ?m)" and g: "0 < ?g" using ok m by (auto simp: timeline_ok_def)
  have b: "unat ?b = unat ?a + ?g" "?g dvd unat ?a"
    using room last by (simp_all add: unat_word_ariths window_ok_def TimelineEnd_def)
  let ?w = "make_window pl ?a ?b"
  note w = make_window_ok [OF g b]
  have below: "\<forall>q\<in>set ?m. fst q < ?a"
  proof
    fix q assume q: "q \<in> set ?m"
    have "fst q < endTime (snd q)" by (rule timeline_interval [OF ok q])
    also have "\<dots> \<le> ?a" using timeline_end_mono [OF ok q] by (simp add: TimelineEnd_def)
    finally show "fst q < ?a" .
  qed
  then have "map_of ?m ?a = None" by (intro map_of_None_keys) (metis less_irrefl)
  moreover have "omap_put ?a ?w ?m = ?m @ [(?a, ?w)]" by (rule omap_put_back [OF below])
  ultimately have res: "appendStoryChunk pl = (Some ?a, pl\<lparr>storyTimelineMap := ?m @ [(?a, ?w)]\<rparr>)"
    by (simp only: appendStoryChunk_def insert_window_def omap_emplace_def option.case)
  have "timeline_ok (plStoryId pl) ?g [(?a, ?w)]" using w(1) g by (simp add: timeline_ok_Cons)
  then have "timeline_ok (plStoryId pl) ?g (?m @ [(?a, ?w)])"
    unfolding timeline_ok_append using ok by (simp add: TimelineEnd_def)
  then have inv': "merge_inv pl0 other0 (snd (appendStoryChunk pl)) other"
    using inv w(2) by (auto simp: res merge_inv_def pipeline_ok_def)
  have "TimelineEnd (snd (appendStoryChunk pl)) = ?b" using w(4) by (simp add: res TimelineEnd_def)
  with res inv' b(1) w(2,4) that show thesis by metis
qed

lemma prepend_loop_reaches:
  assumes "merge_inv pl0 other0 pl other" and "\<not> chunk_empty other" and "firstEventTime other < TimelineStart pl"
  shows "\<exists>pl'. prepend_loop pl other iter d = Some (pl', other, Some (TimelineStart pl'), d) \<and>
    merge_inv pl0 other0 pl' other \<and> TimelineStart pl' \<le> firstEventTime other"
  using assms
proof (induction "unat (TimelineStart pl)" arbitrary: pl iter rule: less_induct)
  case less
  let ?a = "TimelineStart pl - chunkGranularity pl"
  have "0 < TimelineStart pl" using less.prems(3) le_less_trans word_zero_le by blast
  from prependStoryChunk_step [OF less.prems(1) this] obtain w where
    step: "prependStoryChunk pl = (Some ?a, pl\<lparr>storyTimelineMap := (?a, w) # storyTimelineMap pl\<rparr>)"
    and inv: "merge_inv pl0 other0 (snd (prependStoryChunk pl)) other"
    and dec: "unat ?a < unat (TimelineStart pl)" .
  let ?pl1 = "pl\<lparr>storyTimelineMap := (?a, w) # storyTimelineMap pl\<rparr>"
  have start: "TimelineStart ?pl1 = ?a" by (simp add: TimelineStart_def)
  have unf: "prepend_loop pl other iter d = prepend_loop ?pl1 other (Some ?a) d"
    using less.prems(2,3) by (subst prepend_loop.simps) (simp add: step)
  show ?case
  proof (cases "firstEventTime other < ?a")
    case True
    with less.hyps [of ?pl1 "Some ?a"] dec inv step start less.prems(2) unf show ?thesis by simp
  next
    case False
    then have "prepend_loop ?pl1 other (Some ?a) d = Some (?pl1, other, Some ?a, d)"
      by (subst prepend_loop.simps) (simp add: start)
    with False unf inv step start show ?thesis by (auto simp: not_less)
  qed
qed

lemma append_loop_drains:
  assumes "merge_inv pl0 other0 pl other" and "events_from (TimelineEnd pl) other"
    and "unat (endTime other0) + unat (chunkGranularity pl0) < 2 ^ 64"
  shows "\<exists>pl' other'. append_loop pl other = Some (pl', other') \<and> merge_inv pl0 other0 pl' other' \<and> chunk_empty other'"
  using assms(1,2)
proof (induction "2 ^ 64 - unat (TimelineEnd pl)" arbitrary: pl other rule: less_induct)
  case less
  have wf: "wf_chunk other" and frames: "pipeline_frame pl0 pl" "chunk_frame other0 other"
    and g: "0 < unat (chunkGranularity pl)"
    using less.prems(1) by (auto simp: merge_inv_def pipeline_ok_def timeline_ok_def)
  note fr = pipeline_frameD [OF frames(1)] chunk_frameD [OF frames(2)]
  show ?case
  proof (cases "chunk_empty other")
    case True
    then have "append_loop pl other = Some (pl, other)" by (subst append_loop.simps) simp
    with True less.prems(1) show ?thesis by blast
  next
    case False
    have "TimelineEnd pl \<le> firstEventTime other"
      using less.prems(2) events_from_first [OF wf False] by simp
    with first_event_below_end [OF wf False] have le: "TimelineEnd pl \<le> endTime other" by simp
    have room: "unat (TimelineEnd pl) + unat (chunkGranularity pl) < 2 ^ 64"
      using le assms(3) fr by (simp add: word_le_nat_alt)
    from appendStoryChunk_step [OF less.prems(1) room] obtain w where
      app: "appendStoryChunk pl = (Some (TimelineEnd pl), pl\<lparr>storyTimelineMap := storyTimelineMap pl @ [(TimelineEnd pl, w)]\<rparr>)"
      and inv1: "merge_inv pl0 other0 (snd (appendStoryChunk pl)) other"
      and end1: "unat (TimelineEnd (snd (appendStoryChunk pl))) = unat (TimelineEnd pl) + unat (chunkGranularity pl)"
      and w: "endTime w = TimelineEnd (snd (appendStoryChunk pl))" and "logEvents w = []" .
    let ?pl1 = "pl\<lparr>storyTimelineMap := storyTimelineMap pl @ [(TimelineEnd pl, w)]\<rparr>"
    have pl1: "snd (appendStoryChunk pl) = ?pl1" by (simp add: app)
    have dec: "2 ^ 64 - unat (TimelineEnd ?pl1) < 2 ^ 64 - unat (TimelineEnd pl)"
      using end1 g room unfolding pl1 by linarith
    show ?thesis
    proof (cases "firstEventTime other < TimelineEnd ?pl1")
      case True
      obtain pl2 other2 where mrg: "merge_into (TimelineEnd pl) ?pl1 other = (pl2, other2)" by fastforce
      have unf: "append_loop pl other = append_loop pl2 other2"
        using False le True by (subst append_loop.simps) (simp add: app mrg)
      from merge_into_step [OF inv1 [unfolded pl1] _ mrg, of "storyTimelineMap pl" w "[]"] obtain c' where
        inv2: "merge_inv pl0 other0 pl2 other2" and tl2: "storyTimelineMap pl2 = storyTimelineMap pl @ [(TimelineEnd pl, c')]"
          "endTime c' = endTime w"
        and ev: "events_of other2 = events_of other |` (- {k. TimelineEnd pl \<le> fst k \<and> fst k < endTime w})"
        by auto
      have end2: "TimelineEnd pl2 = TimelineEnd ?pl1" using tl2 by (simp add: TimelineEnd_def)
      have "events_from (TimelineEnd pl2) other2"
        using events_from_restrict [OF ev less.prems(2)] by (simp only: end2 w pl1)
      with less.hyps [OF _ inv2] dec unf show ?thesis by (simp only: end2)
    next
      case later: False
      have unf: "append_loop pl other = append_loop ?pl1 other"
        using False le later by (subst append_loop.simps) (simp add: app)
      have "events_from (TimelineEnd ?pl1) other"
        using later unfolding events_from_first [OF wf False] by simp
      from less.hyps [OF dec inv1 [unfolded pl1] this] unf show ?thesis by simp
    qed
  qed
qed

text \<open>The window merging starts from covers the first event.\<close>

lemma locate_window_covers:
  assumes ok: "timeline_ok sid g (storyTimelineMap pl)" and ne: "storyTimelineMap pl \<noteq> []"
    and t: "TimelineStart pl \<le> t" "t < TimelineEnd pl"
  shows "\<exists>m n. storyTimelineMap pl = m @ n \<and> n \<noteq> [] \<and> fst (hd n) = locate_window pl t \<and>
    locate_window pl t \<le> t \<and> omap_from (locate_window pl t) (storyTimelineMap pl) = n"
proof -
  let ?m = "storyTimelineMap pl"
  have sorted: "omap_ok ?m" using ok by (rule timeline_sorted)
  have at: "\<exists>m n. ?m = m @ n \<and> n \<noteq> [] \<and> fst (hd n) = fst p \<and> omap_from (fst p) ?m = n" if "?m = xs @ p # ys" for xs p ys
    using omap_from_mid [of xs p ys] sorted that by (intro exI [of _ xs] exI [of _ "p # ys"]) simp
  let ?xs = "filter (\<lambda>p. fst p < t) ?m"
  note split = omap_split [OF sorted, of t]
  show ?thesis
  proof (cases "omap_from t ?m")
    case Nil
    then have "last ?m \<in> set ?xs" using split ne by (metis append_Nil2 last_in_set)
    then have last: "fst (last ?m) < t" and loc: "locate_window pl t = fst (last ?m)"
      using Nil by (simp_all add: locate_window_def)
    from at [of "butlast ?m" "last ?m" "[]"] ne last loc show ?thesis by auto
  next
    case (Cons p rest)
    then have "p \<in> set (omap_from t ?m)" by simp
    then have p: "p \<in> set ?m" "t \<le> fst p" by (simp_all add: omap_from_def)
    then have start: "startTime (snd p) = fst p" using ok by (auto simp: timeline_ok_def window_ok_def)
    show ?thesis
    proof (cases "t < fst p \<and> fst p \<noteq> TimelineStart pl")
      case True
      have "?xs \<noteq> []"
        using True Cons split by (metis TimelineStart_def append_Nil list.sel(1))
      then obtain zs z where zs: "?xs = zs @ [z]" by (metis rev_exhaust)
      then have "z \<in> set ?xs" by simp
      then have z: "fst z < t" by simp
      have m: "?m = zs @ z # p # rest" using split zs Cons by simp
      have "omap_from (fst p) ((zs @ [z]) @ p # rest) = p # rest"
        using sorted m by (intro omap_from_mid) simp
      then have "filter (\<lambda>q. fst q < fst p) ?m = zs @ [z]"
        using omap_split [OF sorted, of "fst p"] by (simp add: m)
      then have "locate_window pl t = fst z"
        using True Cons start by (auto simp: locate_window_def split: prod.splits list.splits)
      with at [OF m] z show ?thesis by auto
    next
      case False
      then have "fst p = t" using p t(1) by auto
      moreover from False Cons start have "locate_window pl t = fst p"
        by (auto simp: locate_window_def split: prod.splits list.splits)
      moreover have "?m = ?xs @ p # rest" using split Cons by simp
      ultimately show ?thesis using at by fastforce
    qed
  qed
qed

definition widened :: "StoryPipeline \<Rightarrow> StoryChunk \<Rightarrow> StoryPipeline" where
  "widened pl other =
     (if \<not> chunk_empty other \<and> firstEventTime other < TimelineStart pl
      then pl\<lparr>acceptanceWindow := (TimelineStart pl - firstEventTime other) + 3000\<rparr> else pl)"

lemma widened_same:
  "storyTimelineMap (widened pl other) = storyTimelineMap pl" "TimelineStart (widened pl other) = TimelineStart pl"
  "TimelineEnd (widened pl other) = TimelineEnd pl" "plStoryId (widened pl other) = plStoryId pl"
  "chunkGranularity (widened pl other) = chunkGranularity pl" "theExtractionQueue (widened pl other) = theExtractionQueue pl"
  "pipeline_ok (widened pl other) = pipeline_ok pl"
  by (simp_all add: widened_def TimelineStart_def TimelineEnd_def pipeline_ok_def)

lemma merge_start_covers:
  assumes ok: "pipeline_ok pl" and wf: "wf_chunk other" and sid: "chunkStoryId other = plStoryId pl"
    and ne: "\<not> chunk_empty other"
  shows "\<exists>pl1 iter. merge_start pl other = Some (pl1, other, iter, False) \<and>
    merge_inv (widened pl other) other pl1 other \<and>
    (case iter of None \<Rightarrow> TimelineEnd pl1 \<le> firstEventTime other
     | Some key \<Rightarrow> key \<le> firstEventTime other \<and>
         (\<exists>m n. storyTimelineMap pl1 = m @ n \<and> n \<noteq> [] \<and> fst (hd n) = key
           \<and> omap_from key (storyTimelineMap pl1) = n))"
proof -
  let ?t = "firstEventTime other" and ?pl0 = "widened pl other"
  have inv0: "merge_inv ?pl0 other ?pl0 other"
    using ok wf sid by (intro merge_inv_refl) (simp_all add: widened_same)
  show ?thesis
  proof (cases "?t < TimelineStart pl")
    case True
    with prepend_loop_reaches [OF inv0 ne, of None False] obtain pl1 where
      "prepend_loop ?pl0 other None False = Some (pl1, other, Some (TimelineStart pl1), False)"
      "merge_inv ?pl0 other pl1 other" "TimelineStart pl1 \<le> ?t" by (auto simp: widened_same)
    moreover from this(2) obtain p m where "storyTimelineMap pl1 = p # m" "omap_ok (p # m)"
      by (auto simp: merge_inv_def pipeline_ok_def neq_Nil_conv dest: timeline_sorted)
    ultimately show ?thesis
      using True ne omap_from_mid [of "[]" p m] by (auto simp: merge_start_def Let_def widened_def TimelineStart_def)
  next
    case later: False
    then have "?pl0 = pl" by (simp add: widened_def)
    with later inv0 ok locate_window_covers [of _ _ pl ?t] show ?thesis
      by (cases "?t < TimelineEnd pl") (auto simp: merge_start_def Let_def pipeline_ok_def not_less)
  qed
qed

lemma finish_merge_drained:
  assumes "chunk_empty other"
  shows "finish_merge False pl other = (fst (finish_merge False pl other), other)"
    and "storyTimelineMap (fst (finish_merge False pl other)) = storyTimelineMap pl"
    and "pipeline_frame pl (fst (finish_merge False pl other))"
    and "theReceiptTracker (fst (finish_merge False pl other)) =
      map_option (\<lambda>calls. calls @ map (ReceiptMerged (plStoryId pl)) (carriedReceipts other)) (theReceiptTracker pl)"
  using assms by (simp_all add: finish_merge_def Let_def split: option.split)

lemma pipeline_merge:
  assumes ok: "pipeline_ok pl" and wf: "wf_chunk other" and sid: "chunkStoryId other = plStoryId pl"
    and room: "unat (endTime other) + unat (chunkGranularity pl) < 2 ^ 64" and ne: "\<not> chunk_empty other"
  shows "\<exists>pl3 other3. pipeline_mergeEvents pl other = Some (fst (finish_merge False pl3 other3), other3) \<and>
    merge_inv (widened pl other) other pl3 other3 \<and> chunk_empty other3"
proof -
  let ?t = "firstEventTime other" and ?pl0 = "widened pl other"
  from merge_start_covers [OF ok wf sid ne] obtain pl1 iter where
    start: "merge_start pl other = Some (pl1, other, iter, False)" and inv1: "merge_inv ?pl0 other pl1 other"
    and iter: "case iter of None \<Rightarrow> TimelineEnd pl1 \<le> ?t
         | Some key \<Rightarrow> key \<le> ?t \<and> (\<exists>m n. storyTimelineMap pl1 = m @ n \<and> n \<noteq> [] \<and> fst (hd n) = key
             \<and> omap_from key (storyTimelineMap pl1) = n)" by blast
  obtain pl2 other2 where mt: "(case iter of None \<Rightarrow> (pl1, other)
      | Some key \<Rightarrow> merge_timeline (map fst (omap_from key (storyTimelineMap pl1))) pl1 other) = (pl2, other2)"
    by fastforce
  have "merge_inv ?pl0 other pl2 other2 \<and> events_from (TimelineEnd pl2) other2"
  proof (cases iter)
    case None
    with mt iter inv1 events_from_first [OF wf ne] show ?thesis by simp
  next
    case (Some key)
    with iter obtain m n where n: "storyTimelineMap pl1 = m @ n" "n \<noteq> []" "fst (hd n) = key"
      "omap_from key (storyTimelineMap pl1) = n" "key \<le> ?t" by auto
    with Some mt have "merge_timeline (map fst n) pl1 other = (pl2, other2)" by simp
    moreover have "events_from (if n = [] then TimelineEnd pl1 else fst (hd n)) other"
      using n events_from_first [OF wf ne] by simp
    ultimately show ?thesis using merge_timeline_drains [OF inv1 n(1)] by blast
  qed
  then obtain pl3 other3 where al: "append_loop pl2 other2 = Some (pl3, other3)"
    and inv3: "merge_inv ?pl0 other pl3 other3" and e3: "chunk_empty other3"
    using append_loop_drains room widened_same by metis
  have "storyTimelineMap pl \<noteq> []" using ok by (simp add: pipeline_ok_def)
  then have "pipeline_mergeEvents pl other = Some (finish_merge False pl3 other3)"
    unfolding pipeline_mergeEvents_def using ne start mt al by simp
  with inv3 e3 finish_merge_drained(1) [OF e3] show ?thesis by metis
qed

lemma merge_inv_drained:
  assumes "merge_inv pl0 other0 pl other" "chunk_empty other"
  shows "pipeline_events pl = events_of other0 ++ pipeline_events pl0"
  using assms by (simp add: merge_inv_def)

text \<open>The summary the operations built on a merge use.\<close>

lemma pipeline_merge_summary:
  assumes ok: "pipeline_ok pl" and wf: "wf_chunk other" and sid: "chunkStoryId other = plStoryId pl"
    and room: "unat (endTime other) + unat (chunkGranularity pl) < 2 ^ 64"
  shows "\<exists>pl' other'. pipeline_mergeEvents pl other = Some (pl', other') \<and> pipeline_ok pl' \<and> chunk_empty other' \<and>
    pipeline_events pl' = events_of other ++ pipeline_events pl \<and>
    plStoryId pl' = plStoryId pl \<and> chunkGranularity pl' = chunkGranularity pl \<and>
    theExtractionQueue pl' = theExtractionQueue pl \<and> activeDeque pl' = activeDeque pl \<and>
    passiveDeque pl' = passiveDeque pl \<and> acceptanceWindow pl' = acceptanceWindow (widened pl other) \<and>
    fst ` set (storyTimelineMap pl) \<subseteq> fst ` set (storyTimelineMap pl')"
proof (cases "chunk_empty other")
  case True
  with ok show ?thesis by (simp add: pipeline_mergeEvents_def widened_def)
next
  case False
  from pipeline_merge [OF assms this] obtain pl3 other3 where
    res: "pipeline_mergeEvents pl other = Some (fst (finish_merge False pl3 other3), other3)"
    and inv: "merge_inv (widened pl other) other pl3 other3" and e: "chunk_empty other3" by blast
  have "pipeline_frame (widened pl other) pl3" and ok3: "pipeline_ok pl3"
    and "fst ` set (storyTimelineMap (widened pl other)) \<subseteq> fst ` set (storyTimelineMap pl3)"
    using inv by (simp_all add: merge_inv_def)
  note keys = this(3) [unfolded widened_same]
  note fr = pipeline_frameD [OF \<open>pipeline_frame (widened pl other) pl3\<close>] pipeline_frameD [OF finish_merge_drained(3) [OF e, of pl3]]
  have "activeDeque (widened pl other) = activeDeque pl" "passiveDeque (widened pl other) = passiveDeque pl"
    by (simp_all add: widened_def)
  with res ok3 e fr keys finish_merge_drained(2) [OF e, of pl3] merge_inv_drained [OF inv e] show ?thesis
    by (simp add: widened_same pipeline_ok_def)
qed

lemma merge_all_keeps_events:
  assumes "pipeline_ok pl"
    and "\<And>c. c \<in> set cs \<Longrightarrow> wf_chunk c \<and> chunkStoryId c = plStoryId pl \<and>
           unat (endTime c) + unat (chunkGranularity pl) < 2 ^ 64"
  shows "\<exists>pl'. merge_all cs pl = Some pl' \<and> pipeline_ok pl' \<and> plStoryId pl' = plStoryId pl \<and>
    chunkGranularity pl' = chunkGranularity pl \<and> activeDeque pl' = activeDeque pl \<and> passiveDeque pl' = passiveDeque pl \<and>
    dom (pipeline_events pl') = dom (pipeline_events pl) \<union> (\<Union>c\<in>set cs. dom (events_of c)) \<and>
    pipeline_events pl \<subseteq>\<^sub>m pipeline_events pl' \<and>
    fst ` set (storyTimelineMap pl) \<subseteq> fst ` set (storyTimelineMap pl')"
  using assms
proof (induction cs arbitrary: pl)
  case Nil
  then show ?case by simp
next
  case (Cons c cs)
  from pipeline_merge_summary [OF Cons.prems(1), of c] Cons.prems(2) [of c] obtain pl1 other1 where
    step: "pipeline_mergeEvents pl c = Some (pl1, other1)" "pipeline_ok pl1"
      "pipeline_events pl1 = events_of c ++ pipeline_events pl" "plStoryId pl1 = plStoryId pl"
      "chunkGranularity pl1 = chunkGranularity pl" "activeDeque pl1 = activeDeque pl" "passiveDeque pl1 = passiveDeque pl"
      "fst ` set (storyTimelineMap pl) \<subseteq> fst ` set (storyTimelineMap pl1)"
    by auto
  from Cons.IH [OF step(2)] Cons.prems(2) step(4,5) obtain pl2 where
    rest: "merge_all cs pl1 = Some pl2" "pipeline_ok pl2" "plStoryId pl2 = plStoryId pl1"
      "chunkGranularity pl2 = chunkGranularity pl1" "activeDeque pl2 = activeDeque pl1" "passiveDeque pl2 = passiveDeque pl1"
      "dom (pipeline_events pl2) = dom (pipeline_events pl1) \<union> (\<Union>c\<in>set cs. dom (events_of c))"
      "pipeline_events pl1 \<subseteq>\<^sub>m pipeline_events pl2"
      "fst ` set (storyTimelineMap pl1) \<subseteq> fst ` set (storyTimelineMap pl2)"
    by auto
  have "pipeline_events pl \<subseteq>\<^sub>m pipeline_events pl1" by (simp add: step(3))
  then have "pipeline_events pl \<subseteq>\<^sub>m pipeline_events pl2" using rest(8) by (rule map_le_trans)
  moreover have "fst ` set (storyTimelineMap pl) \<subseteq> fst ` set (storyTimelineMap pl2)"
    using step(8) rest(9) by (rule subset_trans)
  ultimately show ?case using rest(1-7) step(1,3-7) by (simp add: Un_assoc)
qed

section \<open>Decay\<close>

lemma timeline_head_first:
  "timeline_ok sid g (p # m) \<Longrightarrow> q \<in> set (p # m) \<Longrightarrow> endTime (snd p) \<le> endTime (snd q)"
proof (cases "q \<in> set m")
  case True
  assume ok: "timeline_ok sid g (p # m)" and "q \<in> set (p # m)"
  have "endTime (snd p) \<le> fst q" by (rule timeline_after [OF ok True])
  also have "fst q < endTime (snd q)" using timeline_interval [OF ok] True by simp
  finally show ?thesis by simp
qed auto

lemma timeline_drop_head: "timeline_ok sid g (p # m) \<Longrightarrow> m \<noteq> [] \<Longrightarrow> timeline_ok sid g m"
  by (simp add: timeline_ok_Cons)

lemma pipeline_append:
  assumes ok: "pipeline_ok pl" and room: "unat (TimelineEnd pl) + unat (chunkGranularity pl) < 2 ^ 64"
  shows "pipeline_ok (snd (appendStoryChunk pl))"
    and "timeline_events (storyTimelineMap (snd (appendStoryChunk pl))) = timeline_events (storyTimelineMap pl)"
    and "hd (storyTimelineMap (snd (appendStoryChunk pl))) = hd (storyTimelineMap pl)"
    and "length (storyTimelineMap (snd (appendStoryChunk pl))) = Suc (length (storyTimelineMap pl))"
    and "unat (TimelineEnd (snd (appendStoryChunk pl))) = unat (TimelineEnd pl) + unat (chunkGranularity pl)"
    and "pipeline_frame pl (snd (appendStoryChunk pl))"
    and "\<exists>w. storyTimelineMap (snd (appendStoryChunk pl)) = storyTimelineMap pl @ [(TimelineEnd pl, w)] \<and> chunk_empty w"
proof -
  let ?c = "new_StoryChunk [] [] (plStoryId pl) 0 0"
  have inv: "merge_inv pl ?c pl ?c" using ok by (intro merge_inv_refl wf_new_StoryChunk) (simp_all add: new_StoryChunk_def Let_def)
  have ne: "storyTimelineMap pl \<noteq> []" using ok by (simp add: pipeline_ok_def)
  from appendStoryChunk_step [OF inv room] obtain w where
    app: "appendStoryChunk pl = (Some (TimelineEnd pl), pl\<lparr>storyTimelineMap := storyTimelineMap pl @ [(TimelineEnd pl, w)]\<rparr>)"
    and inv': "merge_inv pl ?c (snd (appendStoryChunk pl)) ?c"
    and e: "unat (TimelineEnd (snd (appendStoryChunk pl))) = unat (TimelineEnd pl) + unat (chunkGranularity pl)"
    and w: "endTime w = TimelineEnd (snd (appendStoryChunk pl))" "logEvents w = []" .
  show "pipeline_ok (snd (appendStoryChunk pl))" "pipeline_frame pl (snd (appendStoryChunk pl))"
    using inv' by (simp_all add: merge_inv_def)
  show "unat (TimelineEnd (snd (appendStoryChunk pl))) = unat (TimelineEnd pl) + unat (chunkGranularity pl)" by (rule e)
  show "timeline_events (storyTimelineMap (snd (appendStoryChunk pl))) = timeline_events (storyTimelineMap pl)"
    "hd (storyTimelineMap (snd (appendStoryChunk pl))) = hd (storyTimelineMap pl)"
    "length (storyTimelineMap (snd (appendStoryChunk pl))) = Suc (length (storyTimelineMap pl))"
    using w(2) ne by (simp_all add: app)
  show "\<exists>w. storyTimelineMap (snd (appendStoryChunk pl)) = storyTimelineMap pl @ [(TimelineEnd pl, w)] \<and> chunk_empty w"
    using w(2) by (simp add: app)
qed

text \<open>
  One round of the decay loop: the head leaves, and a window is appended when fewer than two are left.
\<close>

definition drop_head :: "StoryPipeline \<Rightarrow> StoryPipeline" where
  "drop_head pl =
     (let pl1 = pl\<lparr>storyTimelineMap := tl (storyTimelineMap pl)\<rparr>
      in if length (storyTimelineMap pl1) < 2 then snd (appendStoryChunk pl1) else pl1)"

lemma drop_head_step:
  assumes ok: "pipeline_ok pl" and two: "2 \<le> length (storyTimelineMap pl)"
    and head: "hd (storyTimelineMap pl) = (key, h)"
    and room: "A + unat (endTime h) < C" "C + 2 * unat (chunkGranularity pl) < 2 ^ 64" "A + unat (TimelineEnd pl) < 2 ^ 64"
  shows "pipeline_ok (drop_head pl)" and "2 \<le> length (storyTimelineMap (drop_head pl))"
    and "TimelineStart (drop_head pl) = endTime h" and "A + unat (TimelineEnd (drop_head pl)) < 2 ^ 64"
    and "logEvents h @ timeline_events (storyTimelineMap (drop_head pl)) = timeline_events (storyTimelineMap pl)"
    and "pipeline_frame pl (drop_head pl)"
    and "\<exists>added. (key, h) # storyTimelineMap (drop_head pl) = storyTimelineMap pl @ added \<and> (\<forall>p\<in>set added. chunk_empty (snd p))"
proof -
  let ?g = "unat (chunkGranularity pl)"
  obtain q m where m: "storyTimelineMap pl = (key, h) # q # m"
    using two head by (cases "storyTimelineMap pl"; cases "tl (storyTimelineMap pl)") auto
  have tl: "timeline_ok (plStoryId pl) ?g ((key, h) # q # m)" using ok m by (simp add: pipeline_ok_def)
  let ?pl1 = "pl\<lparr>storyTimelineMap := q # m\<rparr>"
  have ok1: "pipeline_ok ?pl1" using timeline_drop_head [OF tl] by (simp add: pipeline_ok_def)
  have q: "fst q = endTime h" "unat (endTime (snd q)) = unat (fst q) + ?g"
    using tl by (auto simp: timeline_ok_Cons window_ok_def)
  have end1: "TimelineEnd ?pl1 = TimelineEnd pl" by (simp add: TimelineEnd_def m)
  have dh: "drop_head pl = (if m = [] then snd (appendStoryChunk ?pl1) else ?pl1)"
    by (cases m) (simp_all add: drop_head_def Let_def m)
  have short: "unat (TimelineEnd ?pl1) = unat (endTime h) + ?g" if "m = []"
    using that q by (simp add: TimelineEnd_def)
  then have "unat (TimelineEnd ?pl1) + unat (chunkGranularity ?pl1) < 2 ^ 64" if "m = []"
    using that room by simp
  note app = pipeline_append [OF ok1 this]
  show "pipeline_ok (drop_head pl)" "2 \<le> length (storyTimelineMap (drop_head pl))"
    "logEvents h @ timeline_events (storyTimelineMap (drop_head pl)) = timeline_events (storyTimelineMap pl)"
    using ok1 app(1,2,4) by (cases m; simp add: dh m)+
  show "TimelineStart (drop_head pl) = endTime h" using app(3) q(1) by (simp add: dh TimelineStart_def)
  show "pipeline_frame pl (drop_head pl)" using app(6) by (simp add: dh pipeline_frame_def)
  show "\<exists>added. (key, h) # storyTimelineMap (drop_head pl) = storyTimelineMap pl @ added \<and> (\<forall>p\<in>set added. chunk_empty (snd p))"
    using app(7) by (cases m) (auto simp: dh m)
  show "A + unat (TimelineEnd (drop_head pl)) < 2 ^ 64"
    using app(5) short room end1 by (cases "m = []") (simp_all add: dh)
qed

lemma extract_unfold:
  assumes "storyTimelineMap pl = (key, h) # q # m"
  shows "extractDecayedStoryChunks now pl ex =
    (if acceptanceWindow pl + endTime h < now then extractDecayedStoryChunks now (drop_head pl) (ex @ [h])
     else if acceptanceWindow pl + endTime h = now then extractDecayedStoryChunks now pl ex
     else Some (pl, ex))"
  by (subst extractDecayedStoryChunks.simps) (auto simp: assms drop_head_def Let_def)

lemma extract_decays:
  assumes "pipeline_ok pl" and "2 \<le> length (storyTimelineMap pl)"
    and "unat (acceptanceWindow pl) + unat (TimelineEnd pl) < 2 ^ 64"
    and "unat now + 2 * unat (chunkGranularity pl) < 2 ^ 64"
    and "acceptanceWindow pl \<le> now \<Longrightarrow> \<not> chunkGranularity pl udvd (now - acceptanceWindow pl)"
  shows "\<exists>pl' out. extractDecayedStoryChunks now pl ex = Some (pl', ex @ out) \<and> pipeline_ok pl' \<and>
    2 \<le> length (storyTimelineMap pl') \<and>
    (\<forall>c\<in>set out. unat (acceptanceWindow pl) + unat (endTime c) < unat now) \<and>
    (\<forall>p\<in>set (storyTimelineMap pl'). unat now < unat (acceptanceWindow pl) + unat (endTime (snd p))) \<and>
    concat (map logEvents out) @ timeline_events (storyTimelineMap pl') = timeline_events (storyTimelineMap pl) \<and>
    (\<exists>added. map (\<lambda>c. (startTime c, c)) out @ storyTimelineMap pl' = storyTimelineMap pl @ added \<and>
       (\<forall>p\<in>set added. chunk_empty (snd p)))"
  using assms
proof (induction "2 ^ 64 - unat (TimelineStart pl)" arbitrary: pl ex rule: less_induct)
  case less
  let ?A = "unat (acceptanceWindow pl)" and ?C = "unat now" and ?g = "unat (chunkGranularity pl)"
  obtain key h q m where m: "storyTimelineMap pl = (key, h) # q # m"
    using less.prems(2) by (cases "storyTimelineMap pl"; cases "tl (storyTimelineMap pl)") auto
  have tl: "timeline_ok (plStoryId pl) ?g ((key, h) # q # m)" using less.prems(1) m by (simp add: pipeline_ok_def)
  then have h: "unat (endTime h) = unat key + ?g" "?g dvd unat (endTime h)" "0 < ?g"
    by (auto simp: timeline_ok_Cons window_ok_def)
  have le: "unat (endTime h) \<le> unat (TimelineEnd pl)"
    using timeline_end_mono [OF tl, of "(key, h)"] by (simp add: TimelineEnd_def m word_le_nat_alt)
  then have sum: "unat (acceptanceWindow pl + endTime h) = ?A + unat (endTime h)"
    using less.prems(3) by (simp add: unat_word_ariths)
  have ne: "?A + unat (endTime h) \<noteq> ?C"
  proof
    assume eq: "?A + unat (endTime h) = ?C"
    then have "acceptanceWindow pl \<le> now" "unat (now - acceptanceWindow pl) = unat (endTime h)"
      by (simp_all add: word_le_nat_alt unat_sub)
    with less.prems(5) h(2) show False by (simp add: udvd_iff_dvd)
  qed
  then have nw: "acceptanceWindow pl + endTime h \<noteq> now" using sum by auto
  show ?case
  proof (cases "?A + unat (endTime h) < ?C")
    case True
    note dh = drop_head_step [OF less.prems(1,2), of key h ?A ?C, OF _ True less.prems(4,3)]
    have start: "TimelineStart pl = key" by (simp add: TimelineStart_def m)
    have dec: "2 ^ 64 - unat (TimelineStart (drop_head pl)) < 2 ^ 64 - unat (TimelineStart pl)"
      using dh(3) h(1,3) le less.prems(3) by (simp add: m start)
    have fr: "acceptanceWindow (drop_head pl) = acceptanceWindow pl" "chunkGranularity (drop_head pl) = chunkGranularity pl"
      using pipeline_frameD [OF dh(6)] m by simp_all
    have unf: "extractDecayedStoryChunks now pl ex = extractDecayedStoryChunks now (drop_head pl) (ex @ [h])"
      using extract_unfold [OF m, of now ex] True sum by (simp add: word_less_nat_alt)
    from less.hyps [OF dec, of "ex @ [h]"] dh(1,2,4) fr less.prems(4,5) m obtain pl' out where
      "extractDecayedStoryChunks now (drop_head pl) (ex @ [h]) = Some (pl', (ex @ [h]) @ out)" "pipeline_ok pl'"
      "2 \<le> length (storyTimelineMap pl')" "\<forall>c\<in>set out. ?A + unat (endTime c) < ?C"
      "\<forall>p\<in>set (storyTimelineMap pl'). ?C < ?A + unat (endTime (snd p))"
      "concat (map logEvents out) @ timeline_events (storyTimelineMap pl') = timeline_events (storyTimelineMap (drop_head pl))"
      and rest: "\<exists>added. map (\<lambda>c. (startTime c, c)) out @ storyTimelineMap pl' = storyTimelineMap (drop_head pl) @ added \<and>
        (\<forall>p\<in>set added. chunk_empty (snd p))"
      by auto
    moreover have "\<exists>added. map (\<lambda>c. (startTime c, c)) (h # out) @ storyTimelineMap pl' = storyTimelineMap pl @ added \<and>
        (\<forall>p\<in>set added. chunk_empty (snd p))"
    proof -
      have key: "startTime h = key" using tl by (simp add: timeline_ok_Cons window_ok_def)
      from dh(7) m obtain a1 where a1: "(key, h) # storyTimelineMap (drop_head pl) = storyTimelineMap pl @ a1"
        "\<forall>p\<in>set a1. chunk_empty (snd p)" by auto
      from rest obtain a2 where a2: "map (\<lambda>c. (startTime c, c)) out @ storyTimelineMap pl' = storyTimelineMap (drop_head pl) @ a2"
        "\<forall>p\<in>set a2. chunk_empty (snd p)" by blast
      have "map (\<lambda>c. (startTime c, c)) (h # out) @ storyTimelineMap pl' = storyTimelineMap pl @ (a1 @ a2)"
        using a1(1) a2(1) key by (simp flip: append_assoc)
      then show ?thesis using a1(2) a2(2) by (metis Un_iff set_append)
    qed
    ultimately show ?thesis using unf True dh(5) m by (intro exI [of _ pl'] exI [of _ "h # out"]) simp
  next
    case False
    then have "extractDecayedStoryChunks now pl ex = Some (pl, ex @ [])"
      using extract_unfold [OF m, of now ex] nw sum by (simp add: word_less_nat_alt)
    moreover have "\<forall>p\<in>set (storyTimelineMap pl). ?C < ?A + unat (endTime (snd p))"
    proof
      fix p assume "p \<in> set (storyTimelineMap pl)"
      then have "unat (endTime h) \<le> unat (endTime (snd p))"
        using timeline_head_first [OF tl] by (simp add: m word_le_nat_alt)
      with False ne show "?C < ?A + unat (endTime (snd p))" by linarith
    qed
    ultimately show ?thesis using less.prems(1,2) by (intro exI [of _ pl] exI [of _ "[]"]) simp
  qed
qed

lemma extract_never_returns:
  assumes ret: "extractDecayedStoryChunks now pl ex = Some r"
  shows "acceptanceWindow pl + endTime (snd (hd (storyTimelineMap pl))) \<noteq> now"
proof (rule extractDecayedStoryChunks.raw_induct
    [where P = "\<lambda>now pl ex r. acceptanceWindow pl + endTime (snd (hd (storyTimelineMap pl))) \<noteq> now", OF _ ret])
  fix f now pl ex r
  assume IH: "\<And>now pl ex r. f now pl ex = Some r \<Longrightarrow> acceptanceWindow pl + endTime (snd (hd (storyTimelineMap pl))) \<noteq> now"
    and eq: "(case storyTimelineMap pl of [] \<Rightarrow> None
      | (key, head) # rest \<Rightarrow>
          if acceptanceWindow pl + endTime head \<le> now
          then if acceptanceWindow pl + endTime head < now
               then if rest = [] then None
                    else let pl1 = pl\<lparr>storyTimelineMap := rest\<rparr>;
                             pl2 = (if length rest < 2 then snd (appendStoryChunk pl1) else pl1)
                         in f now pl2 (ex @ [head])
               else f now pl ex
          else Some (pl, ex)) = Some r"
  show "acceptanceWindow pl + endTime (snd (hd (storyTimelineMap pl))) \<noteq> now"
    using eq IH [of now pl ex r] by (auto split: list.splits prod.splits if_splits)
qed

lemma new_pipeline_ok:
  assumes new: "new_StoryPipeline latest chronicle story sid t granularity window = Some (n, pl)"
    and room: "unat t + 3 * (unat granularity * 1000000000) < 2 ^ 64"
  shows "pipeline_ok pl" and "length (storyTimelineMap pl) = 3" and "timeline_events (storyTimelineMap pl) = []"
    and "TimelineStart pl \<le> t" and "t < TimelineEnd pl"
proof -
  define g :: u64 where "g = ucast granularity * 1000000000"
  define a where "a = t - t mod g"
  have "unat granularity < 2 ^ 32" using unsigned_less [of granularity, where ?'a = nat] by simp
  then have ug: "unat g = unat granularity * 1000000000"
    by (simp add: g_def unat_word_ariths unsigned_ucast_eq take_bit_nat_eq_self)
  have pos: "0 < unat g" using new ug by (auto simp: new_StoryPipeline_def unat_gt_0 split: if_splits)
  have ua: "unat a = unat t - unat t mod unat g" by (simp add: a_def unat_sub unat_mod word_le_nat_alt)
  then have dv: "unat g dvd unat a" by (simp add: minus_mod_eq_mult_div)
  have "unat t mod unat g < unat g" "unat t mod unat g \<le> unat t" using pos by simp_all
  with ua have le: "unat a \<le> unat t" "unat t < unat a + unat g" by linarith+
  have small: "unat a + 3 * unat g < 18446744073709551616" using room le(1) ug by simp
  then have ends: "unat (a + g) = unat a + unat g" "unat (a + g * 2) = unat a + 2 * unat g"
    "unat (a + g * 3) = unat a + 3 * unat g"
    by (simp_all add: unat_word_ariths)
  define pl0 where "pl0 = \<lparr>plIncarnation = latest + 1, plStoryId = sid, plChronicleName = chronicle,
     plStoryName = story, chunkGranularity = g, acceptanceWindow = ucast window * 1000000000, ingestionHandle = True,
     activeDeque = [], passiveDeque = [], storyTimelineMap = [], theExtractionQueue = None, theReceiptTracker = None\<rparr>"
  have g0: "chunkGranularity pl0 = g" by (simp add: pl0_def)
  note w = make_window_ok [of pl0, unfolded g0, OF pos]
  let ?w = "make_window pl0"
  have keys: "a < a + g" "a + g < a + g * 2" "a < a + g * 2" using ends pos by (simp_all add: word_less_nat_alt)
  have d: "unat g dvd unat (a + g)" "unat g dvd unat (a + g * 2)" using dv ends by simp_all
  have e: "unat (a + g * 2) = unat (a + g) + unat g" "unat (a + g * 3) = unat (a + g * 2) + unat g"
    using ends by simp_all
  have tl: "storyTimelineMap pl = [(a, ?w a (a + g)), (a + g, ?w (a + g) (a + g * 2)), (a + g * 2, ?w (a + g * 2) (a + g * 3))]"
    using new w(3) [OF ends(1) dv] w(3) [OF e(1) d(1)] w(3) [OF e(2) d(2)] keys
    by (auto simp: new_StoryPipeline_def Let_def g_def [symmetric] a_def [symmetric] pl0_def [symmetric]
        omap_emplace_def omap_put_front omap_put_back less_imp_neq less_imp_neq [symmetric] split: if_splits)
  have sg: "plStoryId pl = plStoryId pl0" "chunkGranularity pl = g"
    using new by (auto simp: new_StoryPipeline_def Let_def g_def [symmetric] pl0_def split: if_splits)
  show "pipeline_ok pl"
    using w [OF ends(1) dv] w [OF e(1) d(1)] w [OF e(2) d(2)] pos
    by (simp add: pipeline_ok_def sg tl timeline_ok_Cons)
  show "length (storyTimelineMap pl) = 3" "timeline_events (storyTimelineMap pl) = []"
    using w(2) [OF ends(1) dv] w(2) [OF e(1) d(1)] w(2) [OF e(2) d(2)] by (simp_all add: tl)
  show "TimelineStart pl \<le> t" using le by (simp add: TimelineStart_def tl word_le_nat_alt)
  show "t < TimelineEnd pl"
    using le ends w(4) [OF e(2) d(2)] pos by (simp add: TimelineEnd_def tl word_less_nat_alt)
qed

lemma dom_timeline_events: "dom (map_of (timeline_events m)) = (\<Union>p\<in>set m. dom (events_of (snd p)))"
  by (induction m) auto

text \<open>The windows of a timeline determine its keys, and equal keys belong to equal intervals.\<close>

lemma timeline_keyed: "timeline_ok sid g m \<Longrightarrow> map (\<lambda>c. (startTime c, c)) (map snd m) = m"
  by (induction m) (auto simp: timeline_ok_Cons window_ok_def)

lemma timeline_covers_windows:
  assumes "timeline_ok sid g m" and "timeline_ok sid g m'" and "fst ` set m \<subseteq> fst ` set m'"
  shows "\<forall>p\<in>set m. \<exists>c\<in>set (map snd m'). startTime c = startTime (snd p) \<and> endTime c = endTime (snd p)"
proof
  fix p assume p: "p \<in> set m"
  with assms(3) obtain q where q: "q \<in> set m'" "fst q = fst p" by force
  have "window_ok sid g p" "window_ok sid g q" using assms(1,2) p q(1) by (simp_all add: timeline_ok_def)
  then have "startTime (snd q) = startTime (snd p) \<and> endTime (snd q) = endTime (snd p)"
    using q(2) by (simp add: window_ok_def word_unat_eq_iff)
  then show "\<exists>c\<in>set (map snd m'). startTime c = startTime (snd p) \<and> endTime c = endTime (snd p)"
    using q(1) by auto
qed

section \<open>Properties of the pipeline\<close>

text \<open>
  Claim C2. Merging a well-formed chunk of the story into a pipeline always ends, whatever the
  chunk's interval and granularity, and loses nothing: afterwards the chunk is empty, the
  timeline holds exactly its old events and the chunk's events (the copy already there wins),
  it is still a gap-free sequence of windows, and nothing was put aside in the extraction queue.
  The one hypothesis on times is that the chunk ends at least one window before the end of the
  64-bit clock.
\<close>

theorem pipeline_mergeEvents_loses_nothing:
  assumes "pipeline_ok pl" and "wf_chunk other" and "chunkStoryId other = plStoryId pl"
    and "unat (endTime other) + unat (chunkGranularity pl) < 2 ^ 64"
  shows "\<exists>pl' other'. pipeline_mergeEvents pl other = Some (pl', other') \<and> pipeline_ok pl' \<and> chunk_empty other' \<and>
    pipeline_events pl' = events_of other ++ pipeline_events pl \<and> theExtractionQueue pl' = theExtractionQueue pl"
  using pipeline_merge_summary [OF assms] by metis

text \<open>
  A chunk whose first event lies before the timeline sets the acceptance window to
  that distance plus 3000 ns, whatever it was before: the window can get shorter.
\<close>

theorem pipeline_mergeEvents_resets_acceptanceWindow:
  assumes "pipeline_ok pl" and "wf_chunk other" and "chunkStoryId other = plStoryId pl"
    and "unat (endTime other) + unat (chunkGranularity pl) < 2 ^ 64"
    and "\<not> chunk_empty other" and "firstEventTime other < TimelineStart pl"
  shows "\<exists>pl' other'. pipeline_mergeEvents pl other = Some (pl', other') \<and>
    acceptanceWindow pl' = (TimelineStart pl - firstEventTime other) + 3000"
  using pipeline_merge_summary [OF assms(1-4)] assms(5,6) by (auto simp: widened_def)

text \<open>
  A new pipeline (with a granularity other than 0 and room for three windows on the
  clock) satisfies the timeline invariant, covers its start time, has three empty windows, and
  carries a number one above the latest.
\<close>

theorem new_StoryPipeline_establishes_timeline:
  assumes "granularity \<noteq> 0" and "unat start_time + 3 * (unat granularity * 1000000000) < 2 ^ 64"
  shows "\<exists>pl. new_StoryPipeline latest chronicle story sid start_time granularity window = Some (latest + 1, pl) \<and>
    pipeline_ok pl \<and> length (storyTimelineMap pl) = 3 \<and> pipeline_events pl = Map.empty \<and>
    TimelineStart pl \<le> start_time \<and> start_time < TimelineEnd pl \<and> plIncarnation pl = latest + 1"
proof -
  obtain pl where new: "new_StoryPipeline latest chronicle story sid start_time granularity window = Some (latest + 1, pl)"
    and "plIncarnation pl = latest + 1"
    using assms(1) by (simp add: new_StoryPipeline_def Let_def)
  with new_pipeline_ok [OF new assms(2)] show ?thesis by simp
qed

text \<open>
  Claim C28. Decay takes windows off the front of the timeline, empty ones too: when no window's
  decay time equals the current time, and the clock has room for the acceptance window behind the
  timeline and for two windows behind the current time, the extraction of a pipeline with at least
  two windows ends; every extracted window is past its decay time, every window that stays is not,
  and at least two windows stay. The extracted windows followed by the remaining timeline are, window
  by window, the timeline from before followed by empty windows that the loop appended; so the
  events are those from before, in the same order.
\<close>

theorem extractDecayedStoryChunks_splits_timeline:
  assumes "pipeline_ok pl" and "2 \<le> length (storyTimelineMap pl)"
    and "unat (acceptanceWindow pl) + unat (TimelineEnd pl) < 2 ^ 64"
    and "unat now + 2 * unat (chunkGranularity pl) < 2 ^ 64"
    and "acceptanceWindow pl \<le> now \<Longrightarrow> \<not> chunkGranularity pl udvd (now - acceptanceWindow pl)"
  shows "\<exists>pl' out. extractDecayedStoryChunks now pl ex = Some (pl', ex @ out) \<and> pipeline_ok pl' \<and>
    2 \<le> length (storyTimelineMap pl') \<and>
    (\<forall>c\<in>set out. unat (acceptanceWindow pl) + unat (endTime c) < unat now) \<and>
    (\<forall>p\<in>set (storyTimelineMap pl'). unat now < unat (acceptanceWindow pl) + unat (endTime (snd p))) \<and>
    concat (map logEvents out) @ timeline_events (storyTimelineMap pl') = timeline_events (storyTimelineMap pl) \<and>
    (\<exists>added. map (\<lambda>c. (startTime c, c)) out @ storyTimelineMap pl' = storyTimelineMap pl @ added \<and>
       (\<forall>p\<in>set added. chunk_empty (snd p)))"
  by (rule extract_decays [OF assms])

text \<open>
  Claim C31. When the current time is exactly the decay time of the head window, the extraction
  loop of an otherwise idle pipeline never returns: the outer test is not strict, the inner one is.
\<close>

theorem extractDecayedStoryChunks_spins_at_decay_time:
  assumes "acceptanceWindow pl + endTime (snd (hd (storyTimelineMap pl))) = now"
  shows "extractDecayedStoryChunks now pl ex = None"
  using extract_never_returns [of now pl ex] assms by (cases "extractDecayedStoryChunks now pl ex") auto

text \<open>
  Claim C29. Finalizing a pipeline first merges every queued chunk and then hands out the whole
  timeline, empty windows included: the extracted windows are a gap-free sequence of windows of the
  granularity in which every window of the timeline from before occurs, their events are those of the
  timeline and of both ingestion queues, and the copies already in the timeline are kept. Afterwards
  the pipeline is empty, and finalizing it again extracts nothing. The queued chunks are well-formed
  chunks of the story that end at least one window before the end of the 64-bit clock.
\<close>

theorem finalize_hands_out_everything:
  assumes "pipeline_ok pl" and "ingestionHandle pl"
    and "\<forall>c\<in>set (passiveDeque pl) \<union> set (activeDeque pl). wf_chunk c \<and> chunkStoryId c = plStoryId pl \<and>
           unat (endTime c) + unat (chunkGranularity pl) < 2 ^ 64"
  shows "\<exists>pl' out. finalize pl ex = Some (pl', ex @ out) \<and>
    (\<Union>c\<in>set out. dom (events_of c)) = dom (pipeline_events pl) \<union>
       (\<Union>c\<in>set (passiveDeque pl) \<union> set (activeDeque pl). dom (events_of c)) \<and>
    timeline_ok (plStoryId pl) (unat (chunkGranularity pl)) (map (\<lambda>c. (startTime c, c)) out) \<and>
    (\<forall>p\<in>set (storyTimelineMap pl). \<exists>c\<in>set out. startTime c = startTime (snd p) \<and> endTime c = endTime (snd p)) \<and>
    pipeline_events pl \<subseteq>\<^sub>m map_of (concat (map logEvents out)) \<and>
    storyTimelineMap pl' = [] \<and> passiveDeque pl' = [] \<and> activeDeque pl' = [] \<and>
    finalize pl' ex' = Some (pl', ex')"
proof -
  let ?pl0 = "pl\<lparr>passiveDeque := []\<rparr>"
  have "pipeline_ok ?pl0" using assms(1) by (simp add: pipeline_ok_def)
  from merge_all_keeps_events [OF this, of "passiveDeque pl"] assms(3) obtain pl1 where
    m1: "merge_all (passiveDeque pl) ?pl0 = Some pl1" "pipeline_ok pl1" "plStoryId pl1 = plStoryId pl"
      "chunkGranularity pl1 = chunkGranularity pl" "activeDeque pl1 = activeDeque pl" "passiveDeque pl1 = []"
      "dom (pipeline_events pl1) = dom (pipeline_events pl) \<union> (\<Union>c\<in>set (passiveDeque pl). dom (events_of c))"
      "pipeline_events pl \<subseteq>\<^sub>m pipeline_events pl1"
      "fst ` set (storyTimelineMap pl) \<subseteq> fst ` set (storyTimelineMap pl1)"
    by auto
  have "pipeline_ok (pl1\<lparr>activeDeque := []\<rparr>)" using m1(2) by (simp add: pipeline_ok_def)
  from merge_all_keeps_events [OF this, of "activeDeque pl"] assms(3) m1(3,4) obtain pl2 where
    m2: "merge_all (activeDeque pl) (pl1\<lparr>activeDeque := []\<rparr>) = Some pl2" "activeDeque pl2 = []" "passiveDeque pl2 = passiveDeque pl1"
      "dom (pipeline_events pl2) = dom (pipeline_events pl1) \<union> (\<Union>c\<in>set (activeDeque pl). dom (events_of c))"
      "pipeline_ok pl2" "plStoryId pl2 = plStoryId pl" "chunkGranularity pl2 = chunkGranularity pl"
      "pipeline_events pl1 \<subseteq>\<^sub>m pipeline_events pl2"
      "fst ` set (storyTimelineMap pl1) \<subseteq> fst ` set (storyTimelineMap pl2)"
    by auto
  let ?pl3 = "pl2\<lparr>ingestionHandle := False, storyTimelineMap := []\<rparr>"
  let ?out = "map snd (storyTimelineMap pl2)"
  have fin: "finalize pl ex = Some (?pl3, ex @ map snd (storyTimelineMap pl2))"
    using assms(2) m1(1,5) m2(1) by (simp add: finalize_def)
  have "(\<Union>c\<in>set (map snd (storyTimelineMap pl2)). dom (events_of c)) = dom (pipeline_events pl2)"
    by (simp add: dom_timeline_events)
  also have "\<dots> = dom (pipeline_events pl) \<union>
       (\<Union>c\<in>set (passiveDeque pl) \<union> set (activeDeque pl). dom (events_of c))"
    using m2(4) m1(7) by auto
  finally have dom: "(\<Union>c\<in>set ?out. dom (events_of c)) = dom (pipeline_events pl) \<union>
       (\<Union>c\<in>set (passiveDeque pl) \<union> set (activeDeque pl). dom (events_of c))" .
  have tl2: "timeline_ok (plStoryId pl) (unat (chunkGranularity pl)) (storyTimelineMap pl2)"
    using m2(5-7) by (simp add: pipeline_ok_def)
  have "pipeline_events pl \<subseteq>\<^sub>m pipeline_events pl2" using m1(8) m2(8) by (rule map_le_trans)
  then have kept: "pipeline_events pl \<subseteq>\<^sub>m map_of (concat (map logEvents ?out))"
    by (simp add: timeline_events_def comp_def)
  have "fst ` set (storyTimelineMap pl) \<subseteq> fst ` set (storyTimelineMap pl2)" using m1(9) m2(9) by (rule subset_trans)
  note windows = timeline_covers_windows [OF _ tl2 this]
  show ?thesis
    using fin m1(6) m2(2,3) dom tl2 timeline_keyed [OF tl2] kept windows assms(1)
    by (intro exI [of _ ?pl3] exI [of _ ?out]) (simp add: finalize_def pipeline_ok_def)
qed

section \<open>Witnesses\<close>

definition ex_pipeline :: "u64 \<Rightarrow> StoryPipeline" where
  "ex_pipeline t = snd (the (new_StoryPipeline 0 [] [] 7 t 60 120))"

lemma ex_pipeline_new: "new_StoryPipeline 0 [] [] 7 t 60 120 = Some (1, ex_pipeline t)"
  by (simp add: ex_pipeline_def new_StoryPipeline_def Let_def)

lemma ex_pipeline_fields:
  "plStoryId (ex_pipeline t) = 7" "chunkGranularity (ex_pipeline t) = 60000000000"
  "acceptanceWindow (ex_pipeline t) = 120000000000" "ingestionHandle (ex_pipeline t)"
  "passiveDeque (ex_pipeline t) = []" "activeDeque (ex_pipeline t) = []"
  by (simp_all add: ex_pipeline_def new_StoryPipeline_def Let_def)

lemma ex_pipeline_ok: "unat t + 180000000000 < 2 ^ 64 \<Longrightarrow> pipeline_ok (ex_pipeline t)"
  using new_pipeline_ok(1) [OF ex_pipeline_new, of t] by simp

lemma ex_chunk_fields: "chunkStoryId ex_chunk = 7" "endTime ex_chunk = 30"
  by (simp_all add: ex_chunk_simps)

theorem pipeline_mergeEvents_loses_nothing_witness:
  "\<exists>pl' other'. pipeline_mergeEvents (ex_pipeline 5) ex_chunk = Some (pl', other') \<and> chunk_empty other' \<and>
     pipeline_events pl' (12, 3, 1) = Some (ex_event 12 3 1)"
proof -
  have "pipeline_ok (ex_pipeline 5)" by (rule ex_pipeline_ok) simp
  from pipeline_mergeEvents_loses_nothing [OF this wf_ex_chunk] obtain pl' other' where
    "pipeline_mergeEvents (ex_pipeline 5) ex_chunk = Some (pl', other')" "chunk_empty other'"
    "pipeline_events pl' = events_of ex_chunk ++ pipeline_events (ex_pipeline 5)"
    by (auto simp: ex_chunk_fields ex_pipeline_fields)
  moreover have "pipeline_events (ex_pipeline 5) = Map.empty"
    using new_pipeline_ok(3) [OF ex_pipeline_new, of 5] by simp
  ultimately show ?thesis by (simp add: ex_chunk_simps)
qed

text \<open>The timeline of the pipeline started at 200 s: windows from 180 s to 360 s.\<close>

lemma ex_pipeline_timeline:
  "map (\<lambda>p. (fst p, startTime (snd p), endTime (snd p))) (storyTimelineMap (ex_pipeline 200000000000)) =
     [(180000000000, 180000000000, 240000000000), (240000000000, 240000000000, 300000000000),
      (300000000000, 300000000000, 360000000000)]"
  by (simp add: ex_pipeline_def new_StoryPipeline_def Let_def make_window_def new_StoryChunk_def
      omap_emplace_def omap_put_def)

lemma ex_pipeline_bounds:
  "TimelineStart (ex_pipeline 200000000000) = 180000000000" "TimelineEnd (ex_pipeline 200000000000) = 360000000000"
  "endTime (snd (hd (storyTimelineMap (ex_pipeline 200000000000)))) = 240000000000"
  "length (storyTimelineMap (ex_pipeline 200000000000)) = 3"
  using ex_pipeline_timeline by (auto simp: TimelineStart_def TimelineEnd_def)

definition ex_late :: StoryChunk where
  "ex_late = (new_StoryChunk [] [] 7 179000000000 181000000000)
     \<lparr>logEvents := [((179500000000, 3, 1), ex_event 179500000000 3 1)]\<rparr>"

lemmas ex_late_simps = ex_late_def ex_event_def new_StoryChunk_def Let_def event_sequence_def

theorem pipeline_mergeEvents_resets_acceptanceWindow_witness:
  "\<exists>pl' other'. pipeline_mergeEvents (ex_pipeline 200000000000) ex_late = Some (pl', other') \<and>
     acceptanceWindow pl' = 500003000 \<and> acceptanceWindow pl' < acceptanceWindow (ex_pipeline 200000000000)"
proof -
  have ok: "pipeline_ok (ex_pipeline 200000000000)" by (rule ex_pipeline_ok) simp
  have wf: "wf_chunk ex_late" by (simp add: wf_chunk_def wf_event_def accepts_def omap_ok_def ex_late_simps)
  have fields: "chunkStoryId ex_late = 7" "endTime ex_late = 181000000000" "\<not> chunk_empty ex_late"
    "firstEventTime ex_late = 179500000000"
    by (simp_all add: ex_late_simps firstEventTime_def)
  from pipeline_mergeEvents_resets_acceptanceWindow [OF ok wf] fields show ?thesis
    by (auto simp: ex_pipeline_fields ex_pipeline_bounds)
qed

theorem extractDecayedStoryChunks_splits_timeline_witness:
  "\<exists>pl' c out. extractDecayedStoryChunks 370000000000 (ex_pipeline 200000000000) [] = Some (pl', c # out) \<and>
     pipeline_ok pl' \<and> chunk_empty c \<and> startTime c = 180000000000"
proof -
  let ?pl = "ex_pipeline 200000000000"
  have "pipeline_ok ?pl" by (rule ex_pipeline_ok) simp
  from extractDecayedStoryChunks_splits_timeline [OF this, of 370000000000 "[]"] obtain pl' out added where
    res: "extractDecayedStoryChunks 370000000000 ?pl [] = Some (pl', out)" "pipeline_ok pl'"
    and stay: "\<forall>p\<in>set (storyTimelineMap pl'). 370000000000 < 120000000000 + unat (endTime (snd p))"
    and split: "map (\<lambda>c. (startTime c, c)) out @ storyTimelineMap pl' = storyTimelineMap ?pl @ added"
    by (auto simp: ex_pipeline_fields ex_pipeline_bounds udvd_iff_dvd)
  obtain w m where w: "storyTimelineMap ?pl = (180000000000, w) # m" "startTime w = 180000000000" "endTime w = 240000000000"
    using ex_pipeline_timeline by auto
  have empty: "chunk_empty w" using new_pipeline_ok(3) [OF ex_pipeline_new, of 200000000000] w(1) by simp
  show ?thesis
  proof (cases out)
    case Nil
    then have "(180000000000, w) \<in> set (storyTimelineMap pl')" using split w(1) by simp
    with stay have "370000000000 < 120000000000 + unat (endTime w)" by fastforce
    then show ?thesis by (simp add: w(3))
  next
    case (Cons c out')
    with split w(1) have "c = w" by simp
    with res Cons empty w(2) show ?thesis by auto
  qed
qed

theorem extractDecayedStoryChunks_spins_at_decay_time_witness:
  "extractDecayedStoryChunks 360000000000 (ex_pipeline 200000000000) [] = None"
  by (rule extractDecayedStoryChunks_spins_at_decay_time) (simp add: ex_pipeline_fields ex_pipeline_bounds)

theorem finalize_hands_out_everything_witness:
  "\<exists>pl' out. finalize (ingestChunk ex_chunk (ex_pipeline 5)) [] = Some (pl', out) \<and>
     (12, 3, 1) \<in> (\<Union>c\<in>set out. dom (events_of c))"
proof -
  let ?pl = "ingestChunk ex_chunk (ex_pipeline 5)"
  have "pipeline_ok (ex_pipeline 5)" by (rule ex_pipeline_ok) simp
  then have "pipeline_ok ?pl" by (simp add: ingestChunk_def pipeline_ok_def)
  from finalize_hands_out_everything [OF this, of "[]" "[]"] obtain pl' out where
    "finalize ?pl [] = Some (pl', out)"
    "(\<Union>c\<in>set out. dom (events_of c)) = dom (pipeline_events ?pl) \<union> dom (events_of ex_chunk)"
    by (auto simp: ingestChunk_def ex_pipeline_fields ex_chunk_fields wf_ex_chunk)
  moreover have "(12, 3, 1) \<in> dom (events_of ex_chunk)" by (simp add: ex_chunk_simps)
  ultimately show ?thesis by blast
qed

end
