(* ===== verification/StoryWatermarkRegistry.thy ===== *)
theory StoryWatermarkRegistry
  imports StoryPipeline
begin

text \<open>
  The grapher's registry of persisted watermarks and chunk receipts
  (\<^verbatim>\<open>src/chrono-grapher/include/StoryWatermarkRegistry.h\<close>) with the report it sends to the
  keepers (\<^verbatim>\<open>src/chrono-common/include/ChunkReceipt.h\<close>). Every public operation runs under
  one mutex and is one function from registry to registry. The instance id, drawn at random when
  the process starts, is a component of the state that no operation changes.
\<close>

section \<open>Reports\<close>

record StoryWatermarkReport =
  watermark :: u64
  report_grapher_instance :: u64
  report_highest_receipt :: u64
  report_pending_receipts :: "u64 list"

definition kStoryDroppedWatermark :: u64 where
  "kStoryDroppedWatermark = - 1"

section \<open>State\<close>

record Entry =
  anchor :: u64
  persistedW :: u64
  write_failed :: bool
  parked :: "(u64, u64) omap"

record ReceiptState =
  holders :: u32
  receipt_merged :: bool

record StoryReceipts =
  last_assigned :: u64
  pendingReceipts :: "(u64, ReceiptState) omap"

record StoryWatermarkRegistry =
  grapher_id :: u64
  lastReceipt :: u64
  stories :: "(StoryId, Entry) omap"
  receipts :: "(StoryId, StoryReceipts) omap"
  dirty :: "StoryId list"
  dropped :: "StoryId list"
  failedBeforeRegistration :: "StoryId list"

text \<open>\<^verbatim>\<open>s.erase(k)\<close> on an ordered set.\<close>

definition oset_erase :: "'k \<Rightarrow> 'k list \<Rightarrow> 'k list" where
  "oset_erase k s = filter (\<lambda>a. a \<noteq> k) s"

section \<open>Watermarks\<close>

text \<open>The effect of the branch for an id that was destroyed and not reported yet.\<close>

definition start_over :: "StoryId \<Rightarrow> StoryWatermarkRegistry \<Rightarrow> StoryWatermarkRegistry" where
  "start_over sid r =
     (if map_of (stories r) sid \<noteq> None \<and> sid \<in> set (dropped r)
      then r\<lparr>stories := omap_erase sid (stories r), receipts := omap_erase sid (receipts r),
             dropped := oset_erase sid (dropped r), dirty := oset_erase sid (dirty r)\<rparr>
      else r)"

definition registerStory ::
  "StoryId \<Rightarrow> u64 \<Rightarrow> bool \<Rightarrow> StoryWatermarkRegistry \<Rightarrow> StoryWatermarkRegistry" where
  "registerStory sid start_time fresh_pipeline r0 =
     (let r = start_over sid r0 in
      case map_of (stories r) sid of
        None \<Rightarrow>
          r\<lparr>dropped := oset_erase sid (dropped r),
            stories := omap_emplace sid
              \<lparr>anchor = start_time, persistedW = start_time,
               write_failed = (sid \<in> set (failedBeforeRegistration r)), parked = []\<rparr> (stories r),
            failedBeforeRegistration := oset_erase sid (failedBeforeRegistration r),
            dirty := oset_insert sid (dirty r)\<rparr>
      | Some entry \<Rightarrow>
          if persistedW entry < start_time
          then (if \<not> fresh_pipeline \<or> write_failed entry \<or> parked entry \<noteq> [] then r
                else r\<lparr>stories := omap_put sid (entry\<lparr>persistedW := start_time\<rparr>) (stories r),
                       dirty := oset_insert sid (dirty r)\<rparr>)
          else r)"

definition dropStory :: "StoryId \<Rightarrow> StoryWatermarkRegistry \<Rightarrow> StoryWatermarkRegistry" where
  "dropStory sid r0 =
     (let r = r0\<lparr>dropped := oset_insert sid (dropped r0), dirty := oset_insert sid (dirty r0)\<rparr> in
      case map_of (stories r) sid of
        None \<Rightarrow> r
      | Some entry \<Rightarrow>
          let r1 = r\<lparr>stories := omap_put sid (entry\<lparr>persistedW := kStoryDroppedWatermark\<rparr>) (stories r)\<rparr> in
          (case map_of (receipts r1) sid of
             None \<Rightarrow> r1
           | Some sr \<Rightarrow> r1\<lparr>receipts := omap_put sid (sr\<lparr>pendingReceipts := []\<rparr>) (receipts r1)\<rparr>))"

definition persistFailed :: "StoryId \<Rightarrow> StoryWatermarkRegistry \<Rightarrow> StoryWatermarkRegistry" where
  "persistFailed sid r =
     (case map_of (stories r) sid of
        None \<Rightarrow> r\<lparr>failedBeforeRegistration := oset_insert sid (failedBeforeRegistration r)\<rparr>
      | Some entry \<Rightarrow> r\<lparr>stories := omap_put sid (entry\<lparr>write_failed := True\<rparr>) (stories r)\<rparr>)"

fun absorb :: "u64 \<Rightarrow> (u64, u64) omap \<Rightarrow> u64 \<times> (u64, u64) omap" where
  "absorb w [] = (w, [])"
| "absorb w ((s, e) # ps) =
     (if w < s then (w, (s, e) # ps) else absorb (if w < e then e else w) ps)"

definition absorbContiguous :: "Entry \<Rightarrow> Entry" where
  "absorbContiguous entry =
     (case absorb (persistedW entry) (parked entry) of (w, ps) \<Rightarrow> entry\<lparr>persistedW := w, parked := ps\<rparr>)"

text \<open>Parking an interval: of two intervals with the same start the longer one is kept.\<close>

definition park :: "u64 \<Rightarrow> u64 \<Rightarrow> (u64, u64) omap \<Rightarrow> (u64, u64) omap" where
  "park s e ps =
     (case map_of ps s of None \<Rightarrow> omap_emplace s e ps
      | Some e' \<Rightarrow> if e' < e then omap_put s e ps else ps)"

text \<open>What \<^verbatim>\<open>advancePersisted\<close> does to the entry of a story.\<close>

definition advance_entry :: "u64 \<Rightarrow> u64 \<Rightarrow> Entry \<Rightarrow> Entry" where
  "advance_entry s e entry =
     (if e \<le> persistedW entry then entry
      else absorbContiguous (entry\<lparr>parked := park s e (parked entry)\<rparr>))"

definition fresh_entry :: "u64 \<Rightarrow> Entry" where
  "fresh_entry t = \<lparr>anchor = t, persistedW = t, write_failed = False, parked = []\<rparr>"

definition advancePersisted ::
  "StoryId \<Rightarrow> u64 \<Rightarrow> u64 \<Rightarrow> StoryWatermarkRegistry \<Rightarrow> StoryWatermarkRegistry" where
  "advancePersisted sid s e r =
     (if e \<le> s then r
      else
        let entry = (case map_of (stories r) sid of None \<Rightarrow> fresh_entry s | Some x \<Rightarrow> x);
            entry' = advance_entry s e entry
        in r\<lparr>stories := omap_put sid entry' (stories r),
             dirty := (if persistedW entry' \<noteq> persistedW entry then oset_insert sid (dirty r) else dirty r)\<rparr>)"

definition getPersisted :: "StoryId \<Rightarrow> StoryWatermarkRegistry \<Rightarrow> u64" where
  "getPersisted sid r = (case map_of (stories r) sid of None \<Rightarrow> 0 | Some entry \<Rightarrow> persistedW entry)"

section \<open>Receipts\<close>

definition assignReceipt :: "StoryId \<Rightarrow> StoryWatermarkRegistry \<Rightarrow> u64 \<times> StoryWatermarkRegistry" where
  "assignReceipt sid r =
     (let sr = (case map_of (receipts r) sid of None \<Rightarrow> \<lparr>last_assigned = 0, pendingReceipts = []\<rparr> | Some x \<Rightarrow> x);
          n = lastReceipt r + 1
      in (n, r\<lparr>lastReceipt := n,
               receipts := omap_put sid
                 \<lparr>last_assigned = n,
                  pendingReceipts = omap_emplace n \<lparr>holders = 0, receipt_merged = False\<rparr> (pendingReceipts sr)\<rparr>
                 (receipts r)\<rparr>))"

definition findPending :: "StoryId \<Rightarrow> u64 \<Rightarrow> StoryWatermarkRegistry \<Rightarrow> ReceiptState option" where
  "findPending sid n r = Option.bind (map_of (receipts r) sid) (\<lambda>sr. map_of (pendingReceipts sr) n)"

text \<open>Write back the state of a pending receipt, or drop the receipt.\<close>

definition set_pending :: "StoryId \<Rightarrow> u64 \<Rightarrow> ReceiptState \<Rightarrow> StoryWatermarkRegistry \<Rightarrow> StoryWatermarkRegistry" where
  "set_pending sid n st r =
     (case map_of (receipts r) sid of None \<Rightarrow> r
      | Some sr \<Rightarrow> r\<lparr>receipts := omap_put sid
          (sr\<lparr>pendingReceipts := omap_put n st (pendingReceipts sr)\<rparr>) (receipts r)\<rparr>)"

definition settleIfWritten :: "StoryId \<Rightarrow> u64 \<Rightarrow> ReceiptState \<Rightarrow> StoryWatermarkRegistry \<Rightarrow> StoryWatermarkRegistry" where
  "settleIfWritten sid n st r =
     (if \<not> receipt_merged st \<or> holders st \<noteq> 0 then r
      else case map_of (receipts r) sid of None \<Rightarrow> r
        | Some sr \<Rightarrow> r\<lparr>receipts := omap_put sid
            (sr\<lparr>pendingReceipts := omap_erase n (pendingReceipts sr)\<rparr>) (receipts r),
            dirty := oset_insert sid (dirty r)\<rparr>)"

definition holdReceipt :: "StoryId \<Rightarrow> u64 \<Rightarrow> StoryWatermarkRegistry \<Rightarrow> StoryWatermarkRegistry" where
  "holdReceipt sid n r =
     (case findPending sid n r of None \<Rightarrow> r
      | Some st \<Rightarrow> set_pending sid n (st\<lparr>holders := holders st + 1\<rparr>) r)"

definition releaseReceipt :: "StoryId \<Rightarrow> u64 \<Rightarrow> StoryWatermarkRegistry \<Rightarrow> StoryWatermarkRegistry" where
  "releaseReceipt sid n r =
     (case findPending sid n r of None \<Rightarrow> r
      | Some st \<Rightarrow>
          if 0 < holders st
          then let st' = st\<lparr>holders := holders st - 1\<rparr> in settleIfWritten sid n st' (set_pending sid n st' r)
          else r)"

definition receiptMerged :: "StoryId \<Rightarrow> u64 \<Rightarrow> StoryWatermarkRegistry \<Rightarrow> StoryWatermarkRegistry" where
  "receiptMerged sid n r =
     (case findPending sid n r of None \<Rightarrow> r
      | Some st \<Rightarrow>
          let st' = st\<lparr>receipt_merged := True\<rparr> in settleIfWritten sid n st' (set_pending sid n st' r))"

section \<open>Reporting\<close>

fun markUndelivered :: "(StoryId \<times> StoryWatermarkReport) list \<Rightarrow> StoryWatermarkRegistry \<Rightarrow> StoryWatermarkRegistry" where
  "markUndelivered [] r = r"
| "markUndelivered ((sid, report) # reports) r =
     markUndelivered reports
       (if map_of (stories r) sid \<noteq> None then r\<lparr>dirty := oset_insert sid (dirty r)\<rparr>
        else if watermark report = kStoryDroppedWatermark
        then r\<lparr>dropped := oset_insert sid (dropped r), dirty := oset_insert sid (dirty r)\<rparr>
        else r)"

definition story_report :: "StoryWatermarkRegistry \<Rightarrow> StoryId \<Rightarrow> StoryWatermarkReport option" where
  "story_report r sid =
     (case map_of (stories r) sid of
        None \<Rightarrow>
          if sid \<in> set (dropped r)
          then Some \<lparr>watermark = kStoryDroppedWatermark, report_grapher_instance = grapher_id r,
                     report_highest_receipt = 0, report_pending_receipts = []\<rparr>
          else None
      | Some entry \<Rightarrow>
          (case map_of (receipts r) sid of
             None \<Rightarrow> Some \<lparr>watermark = persistedW entry, report_grapher_instance = grapher_id r,
                           report_highest_receipt = 0, report_pending_receipts = []\<rparr>
           | Some sr \<Rightarrow> Some \<lparr>watermark = persistedW entry, report_grapher_instance = grapher_id r,
                              report_highest_receipt = last_assigned sr,
                              report_pending_receipts = map fst (pendingReceipts sr)\<rparr>))"

definition snapshotDirty ::
  "StoryWatermarkRegistry \<Rightarrow> (StoryId \<times> StoryWatermarkReport) list \<times> StoryWatermarkRegistry" where
  "snapshotDirty r =
     (List.map_filter (\<lambda>sid. map_option (Pair sid) (story_report r sid)) (dirty r),
      r\<lparr>dirty := [], dropped := [],
        stories := filter (\<lambda>p. fst p \<notin> set (dropped r)) (stories r),
        receipts := filter (\<lambda>p. fst p \<notin> set (dropped r)) (receipts r)\<rparr>)"

section \<open>Specification\<close>

text \<open>The state of a new registry whose instance id is given.\<close>

definition new_registry :: "u64 \<Rightarrow> StoryWatermarkRegistry" where
  "new_registry i = \<lparr>grapher_id = i, lastReceipt = 0, stories = [], receipts = [], dirty = [], dropped = [],
     failedBeforeRegistration = []\<rparr>"

text \<open>A tick is covered by a family of persisted intervals.\<close>

definition covered :: "(u64 \<times> u64) set \<Rightarrow> u64 \<Rightarrow> bool" where
  "covered P t \<longleftrightarrow> (\<exists>(s, e)\<in>P. s \<le> t \<and> t < e)"

text \<open>
  An entry whose contiguity starts at \<open>a\<close> accounts for the intervals \<open>P\<close>: everything from
  the start up to the watermark is covered, what is parked lies strictly above the watermark, and
  no interval has been forgotten.
\<close>

definition accounts :: "u64 \<Rightarrow> (u64 \<times> u64) set \<Rightarrow> Entry \<Rightarrow> bool" where
  "accounts a P en \<longleftrightarrow>
     a \<le> persistedW en \<and> (\<forall>t. a \<le> t \<and> t < persistedW en \<longrightarrow> covered P t) \<and>
     omap_ok (parked en) \<and> (\<forall>(s, e)\<in>set (parked en). persistedW en < s \<and> (s, e) \<in> P) \<and>
     (\<forall>(s, e)\<in>P. e \<le> persistedW en \<or> (\<exists>e'. (s, e') \<in> set (parked en) \<and> e \<le> e'))"

text \<open>Reports of persisted windows of one story, in the order in which they arrive.\<close>

definition persist_all :: "StoryId \<Rightarrow> (u64 \<times> u64) list \<Rightarrow> StoryWatermarkRegistry \<Rightarrow> StoryWatermarkRegistry" where
  "persist_all sid ivs = fold (\<lambda>(s, e). advancePersisted sid s e) ivs"

text \<open>The calls on a registry, in the order of its mutex.\<close>

datatype registry_op =
  RegisterStory StoryId u64 bool
| DropStory StoryId
| PersistFailed StoryId
| AdvancePersisted StoryId u64 u64
| AssignReceipt StoryId
| Hold StoryId u64
| Release StoryId u64
| Merged StoryId u64
| MarkUndelivered "(StoryId \<times> StoryWatermarkReport) list"
| SnapshotDirty

fun run_op :: "registry_op \<Rightarrow> StoryWatermarkRegistry \<Rightarrow> StoryWatermarkRegistry" where
  "run_op (RegisterStory sid t f) r = registerStory sid t f r"
| "run_op (DropStory sid) r = dropStory sid r"
| "run_op (PersistFailed sid) r = persistFailed sid r"
| "run_op (AdvancePersisted sid s e) r = advancePersisted sid s e r"
| "run_op (AssignReceipt sid) r = snd (assignReceipt sid r)"
| "run_op (Hold sid n) r = holdReceipt sid n r"
| "run_op (Release sid n) r = releaseReceipt sid n r"
| "run_op (Merged sid n) r = receiptMerged sid n r"
| "run_op (MarkUndelivered reports) r = markUndelivered reports r"
| "run_op SnapshotDirty r = snd (snapshotDirty r)"

text \<open>The calls that may destroy a story or forget it.\<close>

fun destroys :: "StoryId \<Rightarrow> registry_op \<Rightarrow> bool" where
  "destroys sid (DropStory s) = (s = sid)"
| "destroys sid (MarkUndelivered reports) = (\<exists>(s, rep)\<in>set reports. s = sid \<and> watermark rep = kStoryDroppedWatermark)"
| "destroys sid _ = False"

text \<open>Representation invariant of the receipts.\<close>

definition receipts_ok :: "StoryWatermarkRegistry \<Rightarrow> bool" where
  "receipts_ok r \<longleftrightarrow>
     omap_ok (receipts r) \<and>
     (\<forall>(sid, sr)\<in>set (receipts r). omap_ok (pendingReceipts sr) \<and> last_assigned sr \<le> lastReceipt r \<and>
        (\<forall>(n, st)\<in>set (pendingReceipts sr). n \<le> last_assigned sr))"

text \<open>What a call does to one receipt.\<close>

datatype receipt_act = Acquires | Discharges | Completes | Ignores

fun act_of :: "StoryId \<Rightarrow> u64 \<Rightarrow> registry_op \<Rightarrow> receipt_act" where
  "act_of sid n (Hold s m) = (if s = sid \<and> m = n then Acquires else Ignores)"
| "act_of sid n (Release s m) = (if s = sid \<and> m = n then Discharges else Ignores)"
| "act_of sid n (Merged s m) = (if s = sid \<and> m = n then Completes else Ignores)"
| "act_of sid n _ = Ignores"

definition settle :: "ReceiptState \<Rightarrow> ReceiptState option" where
  "settle st = (if receipt_merged st \<and> holders st = 0 then None else Some st)"

fun act_effect :: "receipt_act \<Rightarrow> ReceiptState \<Rightarrow> ReceiptState option" where
  "act_effect Acquires st = Some (st\<lparr>holders := holders st + 1\<rparr>)"
| "act_effect Discharges st = (if 0 < holders st then settle (st\<lparr>holders := holders st - 1\<rparr>) else Some st)"
| "act_effect Completes st = settle (st\<lparr>receipt_merged := True\<rparr>)"
| "act_effect Ignores st = Some st"

text \<open>
  The discipline of the callers: a chunk is released only after it was held, and nothing holds a
  receipt after its merge is complete.
\<close>

fun disciplined :: "nat \<Rightarrow> bool \<Rightarrow> receipt_act list \<Rightarrow> bool" where
  "disciplined h m [] = True"
| "disciplined h m (Acquires # as) = (\<not> m \<and> disciplined (Suc h) m as)"
| "disciplined h m (Discharges # as) = (0 < h \<and> disciplined (h - 1) m as)"
| "disciplined h m (Completes # as) = disciplined h True as"
| "disciplined h m (Ignores # as) = disciplined h m as"

text \<open>The receipts handed out by a sequence of calls, in order.\<close>

fun assigned :: "registry_op list \<Rightarrow> StoryWatermarkRegistry \<Rightarrow> u64 list" where
  "assigned [] r = []"
| "assigned (op # ops) r =
     (case op of AssignReceipt sid \<Rightarrow> [fst (assignReceipt sid r)] | _ \<Rightarrow> []) @ assigned ops (run_op op r)"

text \<open>The windows of a story reported as persisted by a sequence of calls.\<close>

definition persisted_in :: "StoryId \<Rightarrow> registry_op list \<Rightarrow> (u64 \<times> u64) set" where
  "persisted_in sid ops = {(s, e). AdvancePersisted sid s e \<in> set ops \<and> s < e}"

text \<open>The highest receipt assigned to a story.\<close>

definition highest_of :: "StoryId \<Rightarrow> StoryWatermarkRegistry \<Rightarrow> u64 option" where
  "highest_of sid r = map_option last_assigned (map_of (receipts r) sid)"

text \<open>The state of the registry while a receipt of a live story is followed, with room for \<open>k\<close> more calls.\<close>

definition tracking :: "StoryId \<Rightarrow> u64 \<Rightarrow> nat \<Rightarrow> StoryWatermarkRegistry \<Rightarrow> bool" where
  "tracking sid n k r \<longleftrightarrow>
     receipts_ok r \<and> sid \<notin> set (dropped r) \<and> (\<exists>h. highest_of sid r = Some h \<and> n \<le> h) \<and> unat (lastReceipt r) + k < 2 ^ 64"

lemma disciplined_done: "disciplined 0 True (map f ops) \<Longrightarrow> Acquires \<notin> f ` set ops \<and> Discharges \<notin> f ` set ops"
proof (induction ops)
  case (Cons op ops)
  then show ?case by (cases "f op") auto
qed simp

text \<open>
  The contract of a receipt tracker with its callers: every call changes the state of the
  receipt as its act says and leaves it alone otherwise.
\<close>

locale receipt_tracker =
  fixes step :: "'op \<Rightarrow> 's \<Rightarrow> 's"
    and allowed :: "'op \<Rightarrow> bool"
    and act :: "'op \<Rightarrow> receipt_act"
    and pend :: "'s \<Rightarrow> ReceiptState option"
    and ok :: "nat \<Rightarrow> 's \<Rightarrow> bool"
  assumes ok_step: "ok (Suc k) s \<Longrightarrow> allowed op \<Longrightarrow> ok k (step op s)"
    and pend_step: "ok (Suc k) s \<Longrightarrow> allowed op \<Longrightarrow> pend (step op s) = Option.bind (pend s) (act_effect (act op))"
begin

lemma settled_stays:
  "ok (length ops) s \<Longrightarrow> \<forall>op\<in>set ops. allowed op \<Longrightarrow> pend s = None \<Longrightarrow> pend (fold step ops s) = None"
proof (induction ops arbitrary: s)
  case (Cons op ops)
  then show ?case using ok_step [of "length ops" s op] pend_step [of "length ops" s op] by simp
qed simp

text \<open>Under the callers' discipline a receipt settles exactly when its merge is complete and every hold is released.\<close>

lemma settles_iff:
  assumes "ok (length ops) s" "\<forall>op\<in>set ops. allowed op"
    and "pend s = Some st" "holders st = of_nat h" "receipt_merged st = m" "\<not> (m \<and> h = 0)"
    and "disciplined h m (map act ops)" "h + count_list (map act ops) Acquires < 2 ^ 32"
  shows "pend (fold step ops s) = None \<longleftrightarrow>
    (m \<or> Completes \<in> act ` set ops) \<and> h + count_list (map act ops) Acquires = count_list (map act ops) Discharges"
  using assms
proof (induction ops arbitrary: s st h m)
  case (Cons op ops)
  let ?s = "step op s"
  have ok': "ok (length ops) ?s" and al: "\<forall>op\<in>set ops. allowed op"
    using Cons.prems ok_step [of "length ops" s op] by auto
  have pend': "pend ?s = act_effect (act op) st"
    using Cons.prems pend_step [of "length ops" s op] by simp
  have hb: "h < 2 ^ 32" "unat (holders st) = h"
    using Cons.prems(4,8) by (auto simp: unat_of_nat)
  note IH = Cons.IH [OF ok' al]
  show ?case
  proof (cases "act op")
    case Acquires
    then show ?thesis
      using IH [of "st\<lparr>holders := holders st + 1\<rparr>" "Suc h" m] Cons.prems pend' by (auto simp: add.commute)
  next
    case Ignores
    then show ?thesis using IH [of st h m] Cons.prems pend' by auto
  next
    case Completes
    have hz: "holders st = 0 \<longleftrightarrow> h = 0" using hb(2) by (metis unat_eq_zero)
    show ?thesis
    proof (cases "h = 0")
      case True
      then have "pend ?s = None" using pend' Completes hz by (simp add: settle_def)
      moreover have "disciplined 0 True (map act ops)" using Cons.prems(7) Completes True by simp
      then have "Acquires \<notin> act ` set ops \<and> Discharges \<notin> act ` set ops" by (rule disciplined_done)
      ultimately show ?thesis
        using settled_stays [OF ok' al] Completes True by (simp add: count_list_0_iff)
    next
      case False
      then show ?thesis
        using IH [of "st\<lparr>receipt_merged := True\<rparr>" h True] Cons.prems pend' Completes hz by (simp add: settle_def)
    qed
  next
    case Discharges
    then have h: "0 < h" "disciplined (h - 1) m (map act ops)" using Cons.prems(7) by auto
    then have pos: "0 < holders st" using hb(2) by (simp add: word_less_nat_alt)
    have h': "holders st - 1 = of_nat (h - 1)" using Cons.prems(4) h(1) by simp
    have hz: "holders st - 1 = 0 \<longleftrightarrow> h = 1"
    proof -
      have "unat (of_nat (h - 1) :: u32) = h - 1" using hb(1) by (simp add: unat_of_nat)
      then have "(of_nat (h - 1) :: u32) = 0 \<longleftrightarrow> h - 1 = 0" by (metis unat_eq_zero)
      then show ?thesis using h(1) h' by auto
    qed
    show ?thesis
    proof (cases "m \<and> h = 1")
      case True
      then have "pend ?s = None" using pend' Discharges hz pos Cons.prems(5) by (simp add: settle_def)
      moreover have "disciplined 0 True (map act ops)" using h True by simp
      then have "Acquires \<notin> act ` set ops \<and> Discharges \<notin> act ` set ops" by (rule disciplined_done)
      ultimately show ?thesis
        using settled_stays [OF ok' al] Discharges True by (simp add: count_list_0_iff)
    next
      case False
      then have "pend ?s = Some (st\<lparr>holders := holders st - 1\<rparr>)"
        using pend' Discharges hz pos Cons.prems(5) by (auto simp: settle_def)
      moreover have "\<not> (m \<and> h - 1 = 0)" using False h(1) by auto
      moreover have "h - 1 + count_list (map act ops) Acquires < 2 ^ 32"
        using Cons.prems(8) Discharges by simp
      ultimately have "pend (fold step ops ?s) = None \<longleftrightarrow> (m \<or> Completes \<in> act ` set ops) \<and>
          h - 1 + count_list (map act ops) Acquires = count_list (map act ops) Discharges"
        using IH [of "st\<lparr>holders := holders st - 1\<rparr>" "h - 1" m] Cons.prems(5) h h' by simp
      then show ?thesis using Discharges h(1) by auto
    qed
  qed
qed simp

end

section \<open>The watermark is the first tick not persisted\<close>

lemma covered_Un: "covered (P \<union> Q) t \<longleftrightarrow> covered P t \<or> covered Q t"
  by (auto simp: covered_def)

lemma coveredI: "(s, e) \<in> P \<Longrightarrow> s \<le> t \<Longrightarrow> t < e \<Longrightarrow> covered P t"
  by (auto simp: covered_def)

lemma covered_mono: "covered P t \<Longrightarrow> P \<subseteq> Q \<Longrightarrow> covered Q t"
  by (auto simp: covered_def)

text \<open>One forward pass over the parked intervals absorbs every interval that touches the prefix.\<close>

lemma absorb_correct:
  assumes "absorb w ps = (w', ps')" and "omap_ok ps"
  shows "w \<le> w' \<and> (\<forall>t. w \<le> t \<and> t < w' \<longrightarrow> covered (set ps) t) \<and> omap_ok ps' \<and> set ps' \<subseteq> set ps \<and>
    (\<forall>(s, e)\<in>set ps'. w' < s) \<and> (\<forall>(s, e)\<in>set ps. e \<le> w' \<or> (s, e) \<in> set ps')"
  using assms
proof (induction w ps rule: absorb.induct)
  case (2 w s e ps)
  show ?case
  proof (cases "w < s")
    case True
    with "2.prems" have "w' = w" "ps' = (s, e) # ps" by auto
    moreover have "\<forall>q\<in>set ps. w < fst q"
      using "2.prems"(2) True by (auto simp: omap_ok_Cons intro: less_trans)
    ultimately show ?thesis using True "2.prems"(2) by auto
  next
    case False
    let ?w = "if w < e then e else w"
    have run: "absorb ?w ps = (w', ps')" using "2.prems"(1) False by simp
    have ok: "omap_ok ps" using "2.prems"(2) by (simp add: omap_ok_Cons)
    note IH = "2.IH" [OF False run ok]
    have here: "covered (set ((s, e) # ps)) t" if "w \<le> t" "t < w'" for t
    proof (cases "t < e")
      case True
      have "s \<le> t" using False that(1) by simp
      then show ?thesis using True by (auto intro: coveredI)
    next
      case False
      then have "?w \<le> t" using that(1) by (simp add: not_less)
      then have "covered (set ps) t" using IH that(2) by blast
      then show ?thesis by (rule covered_mono) auto
    qed
    have "w \<le> ?w" "e \<le> ?w" by auto
    then have le: "w \<le> w'" "e \<le> w'" using IH order_trans by blast+
    show ?thesis using IH here le by auto
  qed
qed (auto simp: covered_def)

lemma map_of_park: "map_of (park s e ps) =
    (map_of ps)(s \<mapsto> (case map_of ps s of None \<Rightarrow> e | Some e' \<Rightarrow> max e' e))"
  by (auto simp: park_def omap_simps max_def fun_eq_iff split: option.split)

lemma omap_ok_park: "omap_ok ps \<Longrightarrow> omap_ok (park s e ps)"
  by (auto simp: park_def split: option.split)

lemma park_sound: "omap_ok ps \<Longrightarrow> set (park s e ps) \<subseteq> insert (s, e) (set ps)"
  using map_of_omap_Some [of ps]
  by (auto simp: map_of_park max_def simp flip: map_of_omap_Some [OF omap_ok_park] split: if_splits option.splits)

lemma park_complete:
  assumes "omap_ok ps" and "p = (s, e) \<or> p \<in> set ps"
  shows "\<exists>e'. (fst p, e') \<in> set (park s e ps) \<and> snd p \<le> e'"
  using assms map_of_omap_Some [of ps "fst p" "snd p"]
  by (auto simp: map_of_park simp flip: map_of_omap_Some [OF omap_ok_park] split: option.split)

lemma accounts_fresh: "persistedW en = a \<Longrightarrow> parked en = [] \<Longrightarrow> accounts a {} en"
  by (auto simp: accounts_def)

lemma accounts_kept:
  "accounts a P en \<Longrightarrow> (s, e) \<in> P \<Longrightarrow> e \<le> persistedW en \<or> (\<exists>e'. (s, e') \<in> set (parked en) \<and> e \<le> e')"
  unfolding accounts_def by blast

lemma accounts_advance:
  assumes inv: "accounts a P en"
  shows "accounts a (insert (s, e) P) (advance_entry s e en)"
proof (cases "e \<le> persistedW en")
  case True
  then have "advance_entry s e en = en" by (simp add: advance_entry_def)
  then show ?thesis using inv True by (auto simp: accounts_def intro: covered_mono)
next
  case False
  define ps where "ps = park s e (parked en)"
  obtain w' ps' where run: "absorb (persistedW en) ps = (w', ps')" by fastforce
  have ok: "omap_ok (parked en)" "omap_ok ps" using inv by (simp_all add: accounts_def ps_def omap_ok_park)
  note ab = absorb_correct [OF run ok(2)]
  have en': "persistedW (advance_entry s e en) = w'" "parked (advance_entry s e en) = ps'"
    using False run by (simp_all add: advance_entry_def absorbContiguous_def ps_def)
  have sub: "set ps \<subseteq> insert (s, e) P"
    using park_sound [OF ok(1), of s e] inv by (auto simp: ps_def accounts_def)
  have cov: "covered (insert (s, e) P) t" if "a \<le> t" "t < w'" for t
  proof (cases "t < persistedW en")
    case True
    then have "covered P t" using inv that by (simp add: accounts_def)
    then show ?thesis by (rule covered_mono) auto
  next
    case False
    then have "covered (set ps) t" using ab that(2) by (simp add: not_less)
    then show ?thesis using sub by (rule covered_mono)
  qed
  have kept: "e2 \<le> w' \<or> (\<exists>e'. (s2, e') \<in> set ps' \<and> e2 \<le> e')" if mem: "(s2, e2) \<in> insert (s, e) P" for s2 e2
  proof (cases "e2 \<le> persistedW en")
    case True
    then show ?thesis using ab by auto
  next
    case F: False
    have "\<exists>e3. (s2, e3) \<in> set ps \<and> e2 \<le> e3"
    proof (cases "(s2, e2) = (s, e)")
      case True
      then show ?thesis using park_complete [OF ok(1), of "(s2, e2)" s e] by (simp add: ps_def)
    next
      case False
      then obtain e3 where "(s2, e3) \<in> set (parked en)" "e2 \<le> e3"
        using accounts_kept [OF inv, of s2 e2] mem F by auto
      moreover then obtain e4 where "(s2, e4) \<in> set ps" "e3 \<le> e4"
        using park_complete [OF ok(1), of "(s2, e3)" s e] by (auto simp: ps_def)
      ultimately show ?thesis using order_trans [of e2 e3 e4] by blast
    qed
    then obtain e3 where "(s2, e3) \<in> set ps" "e2 \<le> e3" by blast
    moreover have "e3 \<le> w' \<or> (s2, e3) \<in> set ps'" using ab \<open>(s2, e3) \<in> set ps\<close> by blast
    ultimately show ?thesis using order_trans [of e2 e3 w'] by blast
  qed
  have "a \<le> w'" using ab inv unfolding accounts_def by (meson order_trans)
  then show ?thesis unfolding accounts_def en' using ab cov kept sub by auto
qed

lemma accounts_exact:
  assumes "accounts a P en"
  shows "\<not> covered P (persistedW en)"
  using assms by (fastforce simp: accounts_def covered_def)

lemma persist_all_accounts:
  assumes "map_of (stories r) sid = Some en" and "accounts a P en" and "\<forall>(s, e)\<in>set ivs. s < e"
  shows "\<exists>en'. map_of (stories (persist_all sid ivs r)) sid = Some en' \<and> accounts a (P \<union> set ivs) en'"
  using assms
proof (induction ivs arbitrary: r en P)
  case (Cons p ivs)
  obtain s e where p: "p = (s, e)" by fastforce
  let ?r = "advancePersisted sid s e r"
  have "map_of (stories ?r) sid = Some (advance_entry s e en)"
    using Cons.prems p by (auto simp: advancePersisted_def omap_simps Let_def)
  moreover have "accounts a (insert p P) (advance_entry s e en)"
    using accounts_advance [OF Cons.prems(2)] p by simp
  moreover have "\<forall>(s, e)\<in>set ivs. s < e" using Cons.prems(3) by simp
  ultimately have "\<exists>en'. map_of (stories (persist_all sid ivs ?r)) sid = Some en' \<and>
      accounts a (insert p P \<union> set ivs) en'"
    by (rule Cons.IH)
  then show ?case by (simp add: persist_all_def p)
qed (auto simp: persist_all_def)

lemma registerStory_new_entry:
  assumes "map_of (stories r) sid = None"
  shows "\<exists>en. map_of (stories (registerStory sid a f r)) sid = Some en \<and> persistedW en = a \<and> parked en = []"
  using assms by (simp add: registerStory_def start_over_def omap_simps Let_def)

lemma registered_persist_all:
  assumes new: "map_of (stories r) sid = None" and ivs: "\<forall>(s, e)\<in>set ivs. s < e"
  shows "\<exists>en. map_of (stories (persist_all sid ivs (registerStory sid a f r))) sid = Some en \<and> accounts a (set ivs) en"
proof -
  obtain en where "map_of (stories (registerStory sid a f r)) sid = Some en" "persistedW en = a" "parked en = []"
    using registerStory_new_entry [OF new] by blast
  then show ?thesis
    using persist_all_accounts [OF _ accounts_fresh ivs, of "registerStory sid a f r" sid en a] by simp
qed

text \<open>
  Claim C4. After a story is registered at \<open>a\<close>, its watermark is, whatever the order in which
  the persisted windows are reported and however they overlap, exactly the first tick at or after
  \<open>a\<close> that no persisted window covers: everything below it is persisted, the tick itself is not.
\<close>

theorem watermark_is_first_tick_not_persisted:
  assumes new: "map_of (stories r) sid = None" and ivs: "\<forall>(s, e)\<in>set ivs. s < e"
    and w: "w = getPersisted sid (persist_all sid ivs (registerStory sid a fresh r))"
  shows "a \<le> w \<and> (\<forall>t. a \<le> t \<and> t < w \<longrightarrow> covered (set ivs) t) \<and> \<not> covered (set ivs) w"
proof -
  obtain en' where en': "map_of (stories (persist_all sid ivs (registerStory sid a fresh r))) sid = Some en'"
    and acc: "accounts a (set ivs) en'"
    using registered_persist_all [OF new ivs] by blast
  have "w = persistedW en'" using en' by (simp add: w getPersisted_def)
  then show ?thesis using acc accounts_exact [OF acc] by (simp add: accounts_def)
qed

theorem watermark_is_first_tick_not_persisted_witness:
  "covered {(30, 40), (20, 25), (10, 22)} 24 \<and> \<not> covered {(30, 40), (20, 25), (10, 22)} 25"
proof -
  have "25 = getPersisted 7 (persist_all 7 [(30, 40), (20, 25), (10, 22)] (registerStory 7 10 True (new_registry 1)))"
    by code_simp
  then have "(\<forall>t. 10 \<le> t \<and> t < 25 \<longrightarrow> covered {(30, 40), (20, 25), (10, 22)} t) \<and>
      \<not> covered {(30, 40), (20, 25), (10, 22)} 25"
    using watermark_is_first_tick_not_persisted [of "new_registry 1" 7 "[(30, 40), (20, 25), (10, 22)]" 25 10 True]
    by (simp add: new_registry_def)
  then show ?thesis by simp
qed

section \<open>The registry keeps the receipt contract\<close>

lemma receipts_ok_cong: "receipts r' = receipts r \<Longrightarrow> lastReceipt r' = lastReceipt r \<Longrightarrow> receipts_ok r' = receipts_ok r"
  by (simp add: receipts_ok_def)

lemma findPending_cong: "receipts r' = receipts r \<Longrightarrow> findPending sid n r' = findPending sid n r"
  by (simp add: findPending_def)

lemma receipts_ok_filter:
  "receipts_ok r \<Longrightarrow> receipts r' = filter P (receipts r) \<Longrightarrow> lastReceipt r' = lastReceipt r \<Longrightarrow> receipts_ok r'"
  by (auto simp: receipts_ok_def)

lemma receipts_ok_lookup:
  assumes "receipts_ok r" "map_of (receipts r) sid = Some sr"
  shows "omap_ok (pendingReceipts sr)" "last_assigned sr \<le> lastReceipt r" "\<forall>(n, st)\<in>set (pendingReceipts sr). n \<le> last_assigned sr"
  using assms by (auto simp: receipts_ok_def map_of_omap_Some)

lemma receipts_ok_put:
  assumes "receipts_ok r" "receipts r' = omap_put sid sr (receipts r)" "lastReceipt r \<le> lastReceipt r'"
    and "omap_ok (pendingReceipts sr)" "last_assigned sr \<le> lastReceipt r'"
    and "\<forall>(n, st)\<in>set (pendingReceipts sr). n \<le> last_assigned sr"
  shows "receipts_ok r'"
  using assms unfolding receipts_ok_def by (auto simp: set_omap_put intro: order_trans)

lemma findPending_put:
  "receipts r' = omap_put s sr (receipts r) \<Longrightarrow>
   findPending sid n r' = (if sid = s then map_of (pendingReceipts sr) n else findPending sid n r)"
  by (auto simp: findPending_def omap_simps)

lemma highest_of_cong: "receipts r' = receipts r \<Longrightarrow> highest_of sid r' = highest_of sid r"
  by (simp add: highest_of_def)

lemma highest_of_put:
  "receipts r' = omap_put s sr (receipts r) \<Longrightarrow>
   highest_of sid r' = (if sid = s then Some (last_assigned sr) else highest_of sid r)"
  by (auto simp: highest_of_def omap_simps)

lemma highest_of_bound: "receipts_ok r \<Longrightarrow> highest_of sid r = Some h \<Longrightarrow> h \<le> lastReceipt r"
  using receipts_ok_lookup(2) by (auto simp: highest_of_def)

lemma pending_bound:
  assumes "receipts_ok r" "findPending sid n r = Some st"
  shows "n \<le> lastReceipt r"
proof -
  obtain sr where sr: "map_of (receipts r) sid = Some sr" "map_of (pendingReceipts sr) n = Some st"
    using assms(2) by (auto simp: findPending_def bind_eq_Some_conv)
  then have "n \<le> last_assigned sr" using receipts_ok_lookup(3) [OF assms(1) sr(1)] map_of_SomeD by fastforce
  then show ?thesis using receipts_ok_lookup(2) [OF assms(1) sr(1)] by (rule order_trans)
qed

lemma set_omap_erase [simp]: "set (omap_erase k m) = {p \<in> set m. fst p \<noteq> k}"
  by (auto simp: omap_erase_def)

lemma set_pending_facts:
  assumes "receipts_ok r" "findPending s m r = Some st0"
  shows "receipts_ok (set_pending s m st r)"
    and "findPending sid n (set_pending s m st r) = (if sid = s \<and> n = m then Some st else findPending sid n r)"
    and "lastReceipt (set_pending s m st r) = lastReceipt r" "dropped (set_pending s m st r) = dropped r"
    and "highest_of sid (set_pending s m st r) = highest_of sid r"
proof -
  obtain sr where sr: "map_of (receipts r) s = Some sr" "map_of (pendingReceipts sr) m = Some st0"
    using assms(2) by (auto simp: findPending_def bind_eq_Some_conv)
  note ok = receipts_ok_lookup [OF assms(1) sr(1)]
  have key: "m \<le> last_assigned sr" using ok(3) map_of_SomeD [OF sr(2)] by auto
  let ?sr = "sr\<lparr>pendingReceipts := omap_put m st (pendingReceipts sr)\<rparr>"
  have rc: "receipts (set_pending s m st r) = omap_put s ?sr (receipts r)"
    and f: "lastReceipt (set_pending s m st r) = lastReceipt r" "dropped (set_pending s m st r) = dropped r"
    by (simp_all add: set_pending_def sr(1))
  show "receipts_ok (set_pending s m st r)"
    by (rule receipts_ok_put [OF assms(1) rc]) (use ok key f in \<open>auto simp: set_omap_put\<close>)
  show "findPending sid n (set_pending s m st r) = (if sid = s \<and> n = m then Some st else findPending sid n r)"
    unfolding findPending_put [OF rc] using sr by (auto simp: omap_simps findPending_def)
  show "highest_of sid (set_pending s m st r) = highest_of sid r"
    unfolding highest_of_put [OF rc] using sr by (simp add: highest_of_def)
qed (simp_all add: set_pending_def split: option.split)

lemma settleIfWritten_facts:
  assumes "receipts_ok r" "findPending s m r = Some st"
  shows "receipts_ok (settleIfWritten s m st r)"
    and "findPending sid n (settleIfWritten s m st r) = (if sid = s \<and> n = m then settle st else findPending sid n r)"
    and "lastReceipt (settleIfWritten s m st r) = lastReceipt r" "dropped (settleIfWritten s m st r) = dropped r"
    and "highest_of sid (settleIfWritten s m st r) = highest_of sid r"
proof -
  obtain sr where sr: "map_of (receipts r) s = Some sr" "map_of (pendingReceipts sr) m = Some st"
    using assms(2) by (auto simp: findPending_def bind_eq_Some_conv)
  note ok = receipts_ok_lookup [OF assms(1) sr(1)]
  let ?sr = "sr\<lparr>pendingReceipts := omap_erase m (pendingReceipts sr)\<rparr>"
  show f: "lastReceipt (settleIfWritten s m st r) = lastReceipt r" "dropped (settleIfWritten s m st r) = dropped r"
    by (simp_all add: settleIfWritten_def split: option.split)
  have both: "receipts_ok (settleIfWritten s m st r) \<and> highest_of sid (settleIfWritten s m st r) = highest_of sid r \<and>
    findPending sid n (settleIfWritten s m st r) = (if sid = s \<and> n = m then settle st else findPending sid n r)"
  proof (cases "receipt_merged st \<and> holders st = 0")
    case True
    then have rc: "receipts (settleIfWritten s m st r) = omap_put s ?sr (receipts r)"
      by (simp add: settleIfWritten_def sr(1))
    have "receipts_ok (settleIfWritten s m st r)"
      by (rule receipts_ok_put [OF assms(1) rc]) (use ok f in auto)
    then show ?thesis
      unfolding findPending_put [OF rc] highest_of_put [OF rc] using sr True
      by (auto simp: omap_simps findPending_def settle_def highest_of_def)
  next
    case False
    then have "settleIfWritten s m st r = r" by (auto simp: settleIfWritten_def)
    then show ?thesis using assms False by (auto simp: settle_def)
  qed
  show "receipts_ok (settleIfWritten s m st r)" "highest_of sid (settleIfWritten s m st r) = highest_of sid r"
    using both by blast+
  show "findPending sid n (settleIfWritten s m st r) = (if sid = s \<and> n = m then settle st else findPending sid n r)"
    using both by blast
qed

lemmas receipt_facts = set_pending_facts settleIfWritten_facts

text \<open>The calls on receipts, seen from one receipt.\<close>

lemma hold_facts:
  assumes "receipts_ok r"
  shows "receipts_ok (holdReceipt s m r)" "lastReceipt (holdReceipt s m r) = lastReceipt r"
    "dropped (holdReceipt s m r) = dropped r" "highest_of sid (holdReceipt s m r) = highest_of sid r"
    "findPending sid n (holdReceipt s m r) =
       Option.bind (findPending sid n r) (act_effect (act_of sid n (Hold s m)))"
  using assms by (auto simp: holdReceipt_def receipt_facts split: option.split)

lemma release_facts:
  assumes "receipts_ok r"
  shows "receipts_ok (releaseReceipt s m r)" "lastReceipt (releaseReceipt s m r) = lastReceipt r"
    "dropped (releaseReceipt s m r) = dropped r" "highest_of sid (releaseReceipt s m r) = highest_of sid r"
    "findPending sid n (releaseReceipt s m r) =
       Option.bind (findPending sid n r) (act_effect (act_of sid n (Release s m)))"
  using assms by (auto simp: releaseReceipt_def receipt_facts Let_def split: option.split)

lemma merged_facts:
  assumes "receipts_ok r"
  shows "receipts_ok (receiptMerged s m r)" "lastReceipt (receiptMerged s m r) = lastReceipt r"
    "dropped (receiptMerged s m r) = dropped r" "highest_of sid (receiptMerged s m r) = highest_of sid r"
    "findPending sid n (receiptMerged s m r) =
       Option.bind (findPending sid n r) (act_effect (act_of sid n (Merged s m)))"
  using assms by (auto simp: receiptMerged_def receipt_facts Let_def split: option.split)

lemma assign_facts:
  assumes ok: "receipts_ok r" and room: "unat (lastReceipt r) + 1 < 2 ^ 64"
  shows "receipts_ok (snd (assignReceipt s r))"
    "findPending sid n (snd (assignReceipt s r)) =
       (if sid = s \<and> n = lastReceipt r + 1 then Some \<lparr>holders = 0, receipt_merged = False\<rparr> else findPending sid n r)"
    "dropped (snd (assignReceipt s r)) = dropped r"
    "fst (assignReceipt s r) = lastReceipt r + 1" "lastReceipt (snd (assignReceipt s r)) = lastReceipt r + 1"
    "unat (lastReceipt r + 1) = unat (lastReceipt r) + 1"
    "highest_of sid (snd (assignReceipt s r)) = (if sid = s then Some (lastReceipt r + 1) else highest_of sid r)"
proof -
  let ?n = "lastReceipt r + 1"
  define sr where "sr = (case map_of (receipts r) s of None \<Rightarrow> \<lparr>last_assigned = 0, pendingReceipts = []\<rparr> | Some x \<Rightarrow> x)"
  define sr' where "sr' = \<lparr>last_assigned = ?n,
    pendingReceipts = omap_emplace ?n \<lparr>holders = 0, receipt_merged = False\<rparr> (pendingReceipts sr)\<rparr>"
  show nn: "unat ?n = unat (lastReceipt r) + 1" using room by (simp add: unat_word_ariths)
  have rc: "receipts (snd (assignReceipt s r)) = omap_put s sr' (receipts r)"
    and f: "lastReceipt (snd (assignReceipt s r)) = ?n" "dropped (snd (assignReceipt s r)) = dropped r"
    by (simp_all add: assignReceipt_def Let_def sr_def sr'_def)
  have le: "lastReceipt r \<le> ?n" and lt: "lastReceipt r < ?n"
    using nn by (simp_all add: word_le_nat_alt word_less_nat_alt)
  have srok: "omap_ok (pendingReceipts sr)" "\<forall>(k, st)\<in>set (pendingReceipts sr). k \<le> lastReceipt r"
  proof -
    show "omap_ok (pendingReceipts sr)"
      using receipts_ok_lookup(1) [OF ok, of s] by (auto simp: sr_def split: option.split)
    show "\<forall>(k, st)\<in>set (pendingReceipts sr). k \<le> lastReceipt r"
    proof (cases "map_of (receipts r) s")
      case (Some x)
      then show ?thesis
        using receipts_ok_lookup(2,3) [OF ok Some] order_trans [of _ "last_assigned x" "lastReceipt r"]
        by (auto simp: sr_def)
    qed (simp add: sr_def)
  qed
  have none: "map_of (pendingReceipts sr) ?n = None"
    using srok(2) lt by (intro map_of_None_keys) (auto dest: leD)
  have put: "pendingReceipts sr' = omap_put ?n \<lparr>holders = 0, receipt_merged = False\<rparr> (pendingReceipts sr)"
    by (simp add: sr'_def omap_emplace_def none)
  have "k \<le> ?n" if "(k, st) \<in> set (pendingReceipts sr')" for k st
    using that srok(2) le unfolding put set_omap_put by (auto intro: order_trans)
  then show "receipts_ok (snd (assignReceipt s r))"
    by (intro receipts_ok_put [OF ok rc]) (use f le put srok(1) in \<open>auto simp: sr'_def\<close>)
  have "map_of (pendingReceipts sr) k = findPending s k r" for k
    by (simp add: sr_def findPending_def split: option.split)
  then show "findPending sid n (snd (assignReceipt s r)) =
      (if sid = s \<and> n = ?n then Some \<lparr>holders = 0, receipt_merged = False\<rparr> else findPending sid n r)"
    unfolding findPending_put [OF rc] put by (auto simp: omap_simps)
  show "highest_of sid (snd (assignReceipt s r)) = (if sid = s then Some ?n else highest_of sid r)"
    unfolding highest_of_put [OF rc] by (simp add: sr'_def)
qed (simp_all add: assignReceipt_def Let_def)

lemma markUndelivered_facts:
  "receipts (markUndelivered reports r) = receipts r \<and> lastReceipt (markUndelivered reports r) = lastReceipt r \<and>
   (sid \<notin> set (dropped r) \<longrightarrow> \<not> destroys sid (MarkUndelivered reports) \<longrightarrow> sid \<notin> set (dropped (markUndelivered reports r)))"
  by (induction reports r rule: markUndelivered.induct) auto

lemma findPending_filter:
  assumes "receipts r' = filter (\<lambda>p. P (fst p)) (receipts r)" "P sid"
  shows "findPending sid n r' = findPending sid n r \<and> highest_of sid r' = highest_of sid r"
  using assms by (simp add: findPending_def highest_of_def map_of_filter_key [of P])

text \<open>Every other call keeps the receipts of the live stories.\<close>

lemma other_facts:
  assumes ok: "receipts_ok r" and live: "sid \<notin> set (dropped r)" and op: "\<not> destroys sid op"
    and kind: "case op of AssignReceipt _ \<Rightarrow> False | Hold _ _ \<Rightarrow> False | Release _ _ \<Rightarrow> False | Merged _ _ \<Rightarrow> False | _ \<Rightarrow> True"
  shows "receipts_ok (run_op op r) \<and> lastReceipt (run_op op r) = lastReceipt r \<and> sid \<notin> set (dropped (run_op op r)) \<and>
    findPending sid n (run_op op r) = findPending sid n r \<and> highest_of sid (run_op op r) = highest_of sid r"
proof (cases op)
  case (RegisterStory s t f)
  have rc: "receipts (registerStory s t f r) = receipts (start_over s r) \<and> lastReceipt (registerStory s t f r) = lastReceipt r \<and>
      set (dropped (registerStory s t f r)) \<subseteq> set (dropped r)"
    by (auto simp: registerStory_def start_over_def oset_erase_def Let_def split: option.split)
  have "receipts_ok (start_over s r)" "lastReceipt (start_over s r) = lastReceipt r"
    using ok by (auto simp: start_over_def omap_erase_def elim: receipts_ok_filter)
  moreover have "findPending sid n (start_over s r) = findPending sid n r \<and> highest_of sid (start_over s r) = highest_of sid r"
    using live by (auto simp: start_over_def findPending_def highest_of_def omap_simps)
  ultimately show ?thesis
    using RegisterStory rc live receipts_ok_cong [of "registerStory s t f r" "start_over s r"]
      findPending_cong [of "registerStory s t f r" "start_over s r"]
      highest_of_cong [of "registerStory s t f r" "start_over s r"] by auto
next
  case (DropStory s)
  then have ne: "s \<noteq> sid" using op by simp
  show ?thesis
  proof (cases "map_of (stories r) s \<noteq> None \<and> map_of (receipts r) s \<noteq> None")
    case True
    then obtain sr where sr: "map_of (receipts r) s = Some sr" by auto
    have rc: "receipts (dropStory s r) = omap_put s (sr\<lparr>pendingReceipts := []\<rparr>) (receipts r)"
      using True sr by (auto simp: dropStory_def Let_def)
    have "lastReceipt (dropStory s r) = lastReceipt r" "set (dropped (dropStory s r)) = insert s (set (dropped r))"
      by (auto simp: dropStory_def Let_def split: option.split)
    then show ?thesis
      using DropStory ne live receipts_ok_put [OF ok rc] receipts_ok_lookup [OF ok sr] findPending_put [OF rc]
        highest_of_put [OF rc] by auto
  next
    case False
    then have "receipts (dropStory s r) = receipts r" "lastReceipt (dropStory s r) = lastReceipt r"
      "set (dropped (dropStory s r)) = insert s (set (dropped r))"
      by (auto simp: dropStory_def Let_def split: option.split)
    then show ?thesis
      using DropStory ne live ok receipts_ok_cong [of "dropStory s r" r] findPending_cong [of "dropStory s r" r]
        highest_of_cong [of "dropStory s r" r] by simp
  qed
next
  case (PersistFailed s)
  then show ?thesis using ok live
    by (auto simp: persistFailed_def findPending_def highest_of_def receipts_ok_def split: option.split)
next
  case (AdvancePersisted s a b)
  then show ?thesis using ok live
    by (auto simp: advancePersisted_def findPending_def highest_of_def receipts_ok_def Let_def)
next
  case (MarkUndelivered reports)
  then show ?thesis
    using ok live op markUndelivered_facts [of reports r sid] receipts_ok_cong [of "markUndelivered reports r" r]
      findPending_cong [of "markUndelivered reports r" r] highest_of_cong [of "markUndelivered reports r" r] by simp
next
  case SnapshotDirty
  then show ?thesis using ok live receipts_ok_filter [OF ok] findPending_filter [of _ "\<lambda>s. s \<notin> set (dropped r)" r sid n]
    by (simp add: snapshotDirty_def)
qed (use kind in auto)

interpretation registry_tracker:
  receipt_tracker run_op "\<lambda>op. \<not> destroys sid op" "act_of sid n" "findPending sid n" "tracking sid n" for sid n
proof (unfold_locales, goal_cases)
  case (1 k r op)
  have ok: "receipts_ok r" and live: "sid \<notin> set (dropped r)" and n: "\<exists>h. highest_of sid r = Some h \<and> n \<le> h"
    and room: "unat (lastReceipt r) + Suc k < 2 ^ 64"
    using 1(1) by (auto simp: tracking_def)
  show ?case
  proof (cases op)
    case (AssignReceipt s)
    have room': "unat (lastReceipt r) + 1 < 2 ^ 64" using room by simp
    note f = assign_facts(1,3,5) [OF ok room', of s] assign_facts(6) [OF ok room'] assign_facts(7) [OF ok room', of sid s]
    have "n \<le> lastReceipt r" using n highest_of_bound [OF ok] order_trans by blast
    then have "n \<le> lastReceipt r + 1" using f(4) by (simp add: word_le_nat_alt)
    then show ?thesis using AssignReceipt f live n room by (auto simp: tracking_def)
  qed (use ok live n room 1(2) other_facts [OF ok live 1(2)] hold_facts [OF ok] release_facts [OF ok] merged_facts [OF ok]
        in \<open>auto simp: tracking_def\<close>)
next
  case (2 k r op)
  have ok: "receipts_ok r" and live: "sid \<notin> set (dropped r)" and n: "\<exists>h. highest_of sid r = Some h \<and> n \<le> h"
    and room: "unat (lastReceipt r) + Suc k < 2 ^ 64"
    using 2(1) by (auto simp: tracking_def)
  have ign: "Option.bind (findPending sid n r) (act_effect Ignores) = findPending sid n r"
    by (cases "findPending sid n r") auto
  show ?case
  proof (cases op)
    case (AssignReceipt s)
    have room': "unat (lastReceipt r) + 1 < 2 ^ 64" using room by simp
    have "n \<le> lastReceipt r" using n highest_of_bound [OF ok] order_trans by blast
    then have "n \<noteq> lastReceipt r + 1" using assign_facts(6) [OF ok room'] by (auto simp: word_le_nat_alt)
    then show ?thesis using AssignReceipt assign_facts(2) [OF ok room', of sid n s] ign by simp
  qed (use 2(2) ign other_facts [OF ok live 2(2)] hold_facts(5) [OF ok] release_facts(5) [OF ok] merged_facts(5) [OF ok]
        in simp_all)
qed

section \<open>What a report promises\<close>

lemma story_report_pending:
  assumes "receipts_ok r" "highest_of sid r = Some h" "story_report r sid = Some rep"
    and "sid \<notin> set (dropped r)"
  shows "report_highest_receipt rep = h" "n \<in> set (report_pending_receipts rep) \<longleftrightarrow> findPending sid n r \<noteq> None"
proof -
  obtain sr where sr: "map_of (receipts r) sid = Some sr" "last_assigned sr = h"
    using assms(2) by (auto simp: highest_of_def)
  have rep: "report_highest_receipt rep = last_assigned sr" "report_pending_receipts rep = map fst (pendingReceipts sr)"
    using assms(3,4) sr(1) by (auto simp: story_report_def split: option.splits)
  show "report_highest_receipt rep = h" using rep sr by simp
  show "n \<in> set (report_pending_receipts rep) \<longleftrightarrow> findPending sid n r \<noteq> None"
    unfolding rep findPending_def sr(1) by (simp add: map_of_eq_None_iff)
qed

lemma snapshot_report:
  "(sid, rep) \<in> set (fst (snapshotDirty r)) \<longleftrightarrow> sid \<in> set (dirty r) \<and> story_report r sid = Some rep"
  by (force simp: snapshotDirty_def List.map_filter_def image_iff)

lemma tracking_run:
  "tracking sid n (length ops) r \<Longrightarrow> \<forall>op\<in>set ops. \<not> destroys sid op \<Longrightarrow> tracking sid n 0 (fold run_op ops r)"
proof (induction ops arbitrary: r)
  case (Cons op ops)
  then show ?case using registry_tracker.ok_step [of sid n "length ops" r op] by simp
qed simp

text \<open>
  Claim C3. From the moment a chunk of a live story gets its receipt, every report of the story
  covers the receipt (its highest receipt is not below it), and the report leaves the receipt out of
  the pending ones exactly when the chunk's merge is complete and every chunk that holds its events
  has been written, whatever other calls are interleaved.
\<close>

theorem report_omits_receipt_iff_written:
  assumes ok: "receipts_ok r" "sid \<notin> set (dropped r)" and room: "unat (lastReceipt r) + 1 + length ops < 2 ^ 64"
    and assign: "assignReceipt sid r = (n, r1)" and live: "\<forall>op\<in>set ops. \<not> destroys sid op"
    and disc: "disciplined 0 False (map (act_of sid n) ops)" "count_list (map (act_of sid n) ops) Acquires < 2 ^ 32"
    and rep: "(sid, rep) \<in> set (fst (snapshotDirty (fold run_op ops r1)))"
  shows "n \<le> report_highest_receipt rep \<and>
    (n \<notin> set (report_pending_receipts rep) \<longleftrightarrow>
       Completes \<in> act_of sid n ` set ops \<and>
       count_list (map (act_of sid n) ops) Acquires = count_list (map (act_of sid n) ops) Discharges)"
proof -
  have room': "unat (lastReceipt r) + 1 < 2 ^ 64" using room by simp
  note f = assign_facts [OF ok(1) room']
  have n: "n = lastReceipt r + 1" and r1: "r1 = snd (assignReceipt sid r)"
    using assign f(4) [of sid] by simp_all
  have tr: "tracking sid n (length ops) r1"
    using f(1) [of sid] f(3) [of sid] f(5) [of sid] f(6) f(7) [of sid sid] ok(2) room by (simp add: tracking_def n r1)
  have p1: "findPending sid n r1 = Some \<lparr>holders = 0, receipt_merged = False\<rparr>"
    using f(2) [of sid n sid] by (simp add: n r1)
  have set: "findPending sid n (fold run_op ops r1) = None \<longleftrightarrow> Completes \<in> act_of sid n ` set ops \<and>
       count_list (map (act_of sid n) ops) Acquires = count_list (map (act_of sid n) ops) Discharges"
    using registry_tracker.settles_iff [OF tr live p1, of 0 False] disc by simp
  obtain h where h: "highest_of sid (fold run_op ops r1) = Some h" "n \<le> h"
    and fin: "receipts_ok (fold run_op ops r1)" "sid \<notin> set (dropped (fold run_op ops r1))"
    using tracking_run [OF tr live] by (auto simp: tracking_def)
  have sr: "story_report (fold run_op ops r1) sid = Some rep" using rep by (simp add: snapshot_report)
  show ?thesis using story_report_pending [OF fin(1) h(1) sr fin(2)] h(2) set by auto
qed

theorem report_omits_receipt_iff_written_witness:
  "\<exists>rep. (7, rep) \<in> set (fst (snapshotDirty (fold run_op
      [Hold 7 1, Hold 7 1, Merged 7 1, Release 7 1, AssignReceipt 7, Release 7 1]
      (snd (assignReceipt 7 (registerStory 7 10 True (new_registry 5))))))) \<and>
    1 \<le> report_highest_receipt rep \<and> 1 \<notin> set (report_pending_receipts rep)"
proof -
  let ?r = "registerStory 7 10 True (new_registry 5)"
  let ?ops = "[Hold 7 1, Hold 7 1, Merged 7 1, Release 7 1, AssignReceipt 7, Release 7 1]"
  let ?rep = "\<lparr>watermark = 10, report_grapher_instance = 5, report_highest_receipt = 2, report_pending_receipts = [2]\<rparr>"
  have r: "?r = \<lparr>grapher_id = 5, lastReceipt = 0, stories = [(7, fresh_entry 10)], receipts = [], dirty = [7], dropped = [],
     failedBeforeRegistration = []\<rparr>"
    by code_simp
  have snap: "fst (snapshotDirty (fold run_op ?ops (snd (assignReceipt 7 ?r)))) = [(7, ?rep)]"
    by code_simp
  have "1 \<le> report_highest_receipt ?rep \<and> (1 \<notin> set (report_pending_receipts ?rep) \<longleftrightarrow>
       Completes \<in> act_of 7 1 ` set ?ops \<and>
       count_list (map (act_of 7 1) ?ops) Acquires = count_list (map (act_of 7 1) ?ops) Discharges)"
  proof (rule report_omits_receipt_iff_written [of ?r])
    show "assignReceipt 7 ?r = (1, snd (assignReceipt 7 ?r))" unfolding r by (simp add: assignReceipt_def)
    show "(7, ?rep) \<in> set (fst (snapshotDirty (fold run_op ?ops (snd (assignReceipt 7 ?r)))))" unfolding snap by simp
  qed (simp_all add: r receipts_ok_def)
  then show ?thesis unfolding snap by (intro exI [of _ ?rep]) simp
qed

section \<open>Receipts are never given out twice\<close>

lemma lastReceipt_step:
  assumes "unat (lastReceipt r) + 1 < 2 ^ 64"
  shows "unat (lastReceipt (run_op op r)) =
    unat (lastReceipt r) + (case op of AssignReceipt _ \<Rightarrow> 1 | _ \<Rightarrow> 0)"
proof (cases op)
  case (AssignReceipt s)
  then show ?thesis using assms by (simp add: assignReceipt_def Let_def unat_word_ariths)
next
  case (Release s n)
  then show ?thesis
    by (auto simp: releaseReceipt_def set_pending_def settleIfWritten_def Let_def split: option.split)
next
  case (MarkUndelivered reports)
  then show ?thesis using markUndelivered_facts [of reports r] by simp
qed (auto simp: registerStory_def start_over_def dropStory_def persistFailed_def advancePersisted_def holdReceipt_def
       receiptMerged_def set_pending_def settleIfWritten_def snapshotDirty_def Let_def split: option.split)

lemma assigned_ascending:
  assumes "unat (lastReceipt r) + length ops < 2 ^ 64"
  shows "sorted_wrt (<) (assigned ops r) \<and> (\<forall>n\<in>set (assigned ops r). lastReceipt r < n)"
  using assms
proof (induction ops arbitrary: r)
  case (Cons op ops)
  have room: "unat (lastReceipt r) + 1 < 2 ^ 64" using Cons.prems by simp
  note step = lastReceipt_step [OF room, of op]
  have le: "lastReceipt r \<le> lastReceipt (run_op op r)" using step by (simp add: word_le_nat_alt)
  have "unat (lastReceipt (run_op op r)) + length ops < 2 ^ 64"
    using Cons.prems step by (simp split: registry_op.splits)
  note IH = Cons.IH [OF this]
  show ?case
  proof (cases op)
    case (AssignReceipt s)
    then have new: "assigned (op # ops) r = lastReceipt (run_op op r) # assigned ops (run_op op r)"
      by (simp add: assignReceipt_def Let_def)
    have "lastReceipt r < lastReceipt (run_op op r)"
      using step AssignReceipt by (simp add: word_less_nat_alt)
    then show ?thesis unfolding new using IH by (auto intro: less_trans)
  qed (use IH le in \<open>auto intro: le_less_trans\<close>)
qed simp

text \<open>
  Claim C32. A grapher process never gives out the same receipt number twice, over all stories and
  also after a story was destroyed and created again: the numbers it assigns in any sequence of
  calls strictly ascend, as long as the 64-bit counter does not run out.
\<close>

theorem receipts_never_reused:
  assumes "length ops < 2 ^ 64"
  shows "sorted_wrt (<) (assigned ops (new_registry i)) \<and> distinct (assigned ops (new_registry i))"
  using assigned_ascending [of "new_registry i" ops] assms by (simp add: new_registry_def strict_sorted_iff)

theorem receipts_never_reused_witness:
  "assigned [AssignReceipt 7, AssignReceipt 3, DropStory 7, SnapshotDirty, AssignReceipt 7] (new_registry 5) = [1, 2, 3] \<and>
   distinct (assigned [AssignReceipt 7, AssignReceipt 3, DropStory 7, SnapshotDirty, AssignReceipt 7] (new_registry 5))"
proof
  show "assigned [AssignReceipt 7, AssignReceipt 3, DropStory 7, SnapshotDirty, AssignReceipt 7] (new_registry 5) = [1, 2, 3]"
    by code_simp
  show "distinct (assigned [AssignReceipt 7, AssignReceipt 3, DropStory 7, SnapshotDirty, AssignReceipt 7] (new_registry 5))"
    by (rule receipts_never_reused [THEN conjunct2]) simp
qed

section \<open>The watermark after a failed write\<close>

lemma stories_of_receipt_calls [simp]:
  "stories (holdReceipt s n r) = stories r" "stories (releaseReceipt s n r) = stories r"
  "stories (receiptMerged s n r) = stories r" "stories (snd (assignReceipt s r)) = stories r"
  "dropped (holdReceipt s n r) = dropped r" "dropped (releaseReceipt s n r) = dropped r"
  "dropped (receiptMerged s n r) = dropped r" "dropped (snd (assignReceipt s r)) = dropped r"
  by (auto simp: holdReceipt_def releaseReceipt_def receiptMerged_def assignReceipt_def set_pending_def
      settleIfWritten_def Let_def split: option.split)

lemma markUndelivered_stories [simp]: "stories (markUndelivered reports r) = stories r"
  by (induction reports r rule: markUndelivered.induct) auto

lemma live_step:
  assumes "sid \<notin> set (dropped r)" "\<not> destroys sid op"
  shows "sid \<notin> set (dropped (run_op op r))"
proof (cases op)
  case (MarkUndelivered reports)
  then show ?thesis using assms markUndelivered_facts [of reports r sid] by simp
qed (use assms in \<open>auto simp: registerStory_def start_over_def oset_erase_def dropStory_def persistFailed_def
      advancePersisted_def snapshotDirty_def Let_def split: option.split\<close>)

text \<open>An entry with a failed write moves only by persisted windows.\<close>

lemma failed_entry_step:
  assumes live: "sid \<notin> set (dropped r)" and op: "\<not> destroys sid op"
    and en: "map_of (stories r) sid = Some en" "write_failed en" and acc: "accounts a P en"
  shows "\<exists>en'. map_of (stories (run_op op r)) sid = Some en' \<and> write_failed en' \<and>
    accounts a (P \<union> persisted_in sid [op]) en'"
proof (cases "\<exists>s e. op = AdvancePersisted sid s e \<and> s < e")
  case True
  then obtain s e where op': "op = AdvancePersisted sid s e" "s < e" by blast
  have "map_of (stories (run_op op r)) sid = Some (advance_entry s e en)"
    using en op' by (auto simp: advancePersisted_def omap_simps Let_def)
  moreover have "write_failed (advance_entry s e en)"
    using en(2) by (simp add: advance_entry_def absorbContiguous_def split: prod.split)
  moreover have "P \<union> persisted_in sid [op] = insert (s, e) P" using op' by (auto simp: persisted_in_def)
  ultimately show ?thesis using accounts_advance [OF acc] by simp
next
  case False
  then have "persisted_in sid [op] = {}" by (auto simp: persisted_in_def)
  moreover have "\<exists>en'. map_of (stories (run_op op r)) sid = Some en' \<and> write_failed en' \<and>
      persistedW en' = persistedW en \<and> parked en' = parked en"
  proof (cases op)
    case (RegisterStory s t f)
    then show ?thesis
      using live en by (cases "s = sid") (auto simp: registerStory_def start_over_def omap_simps Let_def split: option.split)
  next
    case (AdvancePersisted s b e)
    then have "e \<le> b \<or> s \<noteq> sid" using False by auto
    then show ?thesis using AdvancePersisted en by (auto simp: advancePersisted_def omap_simps Let_def)
  next
    case SnapshotDirty
    then show ?thesis
      using live en map_of_filter_key [of "\<lambda>s. s \<notin> set (dropped r)" "stories r" sid] by (simp add: snapshotDirty_def)
  next
    case (DropStory s)
    then show ?thesis using op en by (auto simp: dropStory_def omap_simps Let_def split: option.split)
  next
    case (PersistFailed s)
    then show ?thesis using en by (auto simp: persistFailed_def omap_simps split: option.split)
  qed (use en in auto)
  ultimately show ?thesis using acc by (auto simp: accounts_def)
qed

lemma failed_entry_run:
  assumes "sid \<notin> set (dropped r)" "\<forall>op\<in>set ops. \<not> destroys sid op"
    and "map_of (stories r) sid = Some en" "write_failed en" "accounts a P en"
  shows "\<exists>en'. map_of (stories (fold run_op ops r)) sid = Some en' \<and> accounts a (P \<union> persisted_in sid ops) en'"
  using assms
proof (induction ops arbitrary: r en P)
  case (Cons op ops)
  obtain en' where en': "map_of (stories (run_op op r)) sid = Some en'" "write_failed en'"
      "accounts a (P \<union> persisted_in sid [op]) en'"
    using failed_entry_step [OF Cons.prems(1) _ Cons.prems(3-5), of op] Cons.prems(2) by auto
  have "P \<union> persisted_in sid [op] \<union> persisted_in sid ops = P \<union> persisted_in sid (op # ops)"
    by (auto simp: persisted_in_def)
  then show ?case
    using Cons.IH [OF live_step [OF Cons.prems(1)] _ en'] Cons.prems(2) by simp
qed (auto simp: persisted_in_def)

text \<open>
  Claim C5. Once writing a window of a live story has failed, the watermark never passes a tick of
  that window unless a later persisted window covers the tick: no registration, report or other call
  moves it, whatever their order.
\<close>

theorem watermark_stops_at_failed_write:
  assumes live: "sid \<notin> set (dropped r)" "\<forall>op\<in>set ops. \<not> destroys sid op"
    and en: "map_of (stories r) sid = Some en" "accounts a P en"
    and t: "a \<le> t" "\<not> covered (P \<union> persisted_in sid ops) t"
  shows "getPersisted sid (fold run_op ops (persistFailed sid r)) \<le> t"
proof -
  let ?en = "en\<lparr>write_failed := True\<rparr>"
  have pf: "map_of (stories (persistFailed sid r)) sid = Some ?en" "sid \<notin> set (dropped (persistFailed sid r))"
    using en(1) live(1) by (simp_all add: persistFailed_def omap_simps)
  have "accounts a P ?en" using en(2) by (simp add: accounts_def)
  then obtain en' where en': "map_of (stories (fold run_op ops (persistFailed sid r))) sid = Some en'"
      "accounts a (P \<union> persisted_in sid ops) en'"
    using failed_entry_run [OF pf(2) live(2) pf(1)] by auto
  have "persistedW en' \<le> t"
    using en'(2) t unfolding accounts_def by (meson not_le)
  then show ?thesis using en'(1) by (simp add: getPersisted_def)
qed

theorem watermark_stops_at_failed_write_witness:
  "getPersisted 7 (fold run_op [AdvancePersisted 7 30 40, RegisterStory 7 50 True, AdvancePersisted 7 10 20]
     (persistFailed 7 (registerStory 7 10 True (new_registry 5)))) \<le> 20"
proof -
  let ?r = "registerStory 7 10 True (new_registry 5)"
  have r: "?r = \<lparr>grapher_id = 5, lastReceipt = 0, stories = [(7, fresh_entry 10)], receipts = [], dirty = [7], dropped = [],
     failedBeforeRegistration = []\<rparr>"
    by code_simp
  show ?thesis
    by (rule watermark_stops_at_failed_write [of _ _ _ "fresh_entry 10" 10 "{}"])
      (auto simp: r fresh_entry_def accounts_def covered_def persisted_in_def)
qed

end
