(* ===== verification/KeeperChunkRetentionStore.thy ===== *)
theory KeeperChunkRetentionStore
  imports StoryWatermarkRegistry "HOL-Library.Monad_Syntax"
begin

text \<open>
  The keeper's store of sealed chunks
  (\<^verbatim>\<open>src/chrono-keeper/include/KeeperChunkRetentionStore.h\<close>) and the extraction queue it
  hands chunks to (\<^verbatim>\<open>src/chrono-common/include/StoryChunkExtractionQueue.h\<close>).

  The code works on \<^verbatim>\<open>StoryChunk*\<close>, so the model has a heap of live chunks: reading
  or deleting a chunk that is not live has the outcome \<open>None\<close>, and memory safety is that
  no sequence of calls has that outcome. A pointer is a natural number, 0 the null pointer.

  An \<^verbatim>\<open>unordered_map\<close> is an ordered one: its iteration order is unspecified, and the
  ascending order of the keys is one that is allowed. A time point or duration of the steady clock
  is an integer number of nanoseconds; every locked operation reads the clock once and takes the
  reading as an argument. Byte and event counts are natural numbers: they count what is in memory.
\<close>

section \<open>State\<close>

type_synonym ptr = nat

record ChunkState =
  indexed_count :: nat
  shipped :: bool
  in_queue :: bool
  approx_bytes :: nat
  last_activity :: int
  receipt_instance :: u64
  chunk_receipt :: u64
  chunk_written :: bool
  written_at :: int
  wal_released :: bool

record StoryRetention =
  index :: "(EventSequence, ptr) omap"
  chunks :: "(ptr, ChunkState) omap"
  known_w :: u64
  report_instance :: u64
  highest_receipt :: u64
  pending_receipts :: "u64 list"

text \<open>The calls to the keeper's WAL (\<^verbatim>\<open>src/chrono-keeper/include/WalObserver.h\<close>).\<close>

datatype wal_call =
  ChunkWritten StoryId StoryChunk
| ChunkDiscarded StoryId StoryChunk
| EventDiscarded StoryId EventSequence
| StoryDropped StoryId

record KeeperChunkRetentionStore =
  heap :: "ptr \<Rightarrow> StoryChunk option"
  tailCapacity :: nat
  retentionCapBytes :: nat
  liveTailRead :: bool
  archiveVisibilityDelay :: int
  droppedStoryTtl :: int
  walObserver :: bool
  retainedBytes :: nat
  unconfirmedBytes :: nat
  capWarned :: bool
  droppedStories :: "(StoryId, int) omap"
  storyRetention :: "(StoryId, StoryRetention) omap"
  wal_calls :: "wal_call list"

definition new_store :: "nat \<Rightarrow> nat \<Rightarrow> bool \<Rightarrow> int \<Rightarrow> int \<Rightarrow> bool \<Rightarrow> KeeperChunkRetentionStore" where
  "new_store tail_capacity retention_cap_mb live_tail_read archive_visibility_delay dropped_story_ttl wal =
     \<lparr>heap = Map.empty, tailCapacity = tail_capacity, retentionCapBytes = retention_cap_mb * 1024 * 1024,
      liveTailRead = live_tail_read, archiveVisibilityDelay = archive_visibility_delay,
      droppedStoryTtl = dropped_story_ttl, walObserver = wal, retainedBytes = 0, unconfirmedBytes = 0,
      capWarned = False, droppedStories = [], storyRetention = [], wal_calls = []\<rparr>"

definition new_ChunkState :: ChunkState where
  "new_ChunkState = \<lparr>indexed_count = 0, shipped = False, in_queue = False, approx_bytes = 0, last_activity = 0,
     receipt_instance = 0, chunk_receipt = 0, chunk_written = False, written_at = 0, wal_released = False\<rparr>"

definition new_StoryRetention :: StoryRetention where
  "new_StoryRetention = \<lparr>index = [], chunks = [], known_w = 0, report_instance = 0, highest_receipt = 0,
     pending_receipts = []\<rparr>"

text \<open>\<^verbatim>\<open>storyRetention[story_id]\<close>, which creates the entry.\<close>

definition story_of :: "StoryId \<Rightarrow> KeeperChunkRetentionStore \<Rightarrow> StoryRetention" where
  "story_of sid s = (case map_of (storyRetention s) sid of None \<Rightarrow> new_StoryRetention | Some story \<Rightarrow> story)"

definition put_story :: "StoryId \<Rightarrow> StoryRetention \<Rightarrow> KeeperChunkRetentionStore \<Rightarrow> KeeperChunkRetentionStore" where
  "put_story sid story s = s\<lparr>storyRetention := omap_put sid story (storyRetention s)\<rparr>"

definition approxChunkBytes :: "StoryChunk \<Rightarrow> nat" where
  "approxChunkBytes c = sum_list (map (\<lambda>p. length (logRecord (snd p)) + 64) (logEvents c))"

section \<open>Receipts of a report\<close>

definition mergeReceipts :: "StoryWatermarkReport \<Rightarrow> StoryRetention \<Rightarrow> StoryRetention" where
  "mergeReceipts report story =
     (let reported_pending = fold oset_insert (report_pending_receipts report) [] in
      if report_grapher_instance report \<noteq> report_instance story
      then story\<lparr>report_instance := report_grapher_instance report,
                 highest_receipt := report_highest_receipt report,
                 pending_receipts := reported_pending\<rparr>
      else
        let pending1 = fold oset_insert
              (filter (\<lambda>n. report_highest_receipt report < n \<or> n \<in> set reported_pending) (pending_receipts story)) [];
            pending2 = fold oset_insert (filter (\<lambda>n. highest_receipt story < n) reported_pending) pending1
        in story\<lparr>highest_receipt := max (highest_receipt story) (report_highest_receipt report),
                 pending_receipts := pending2\<rparr>)"

definition receiptSettled :: "StoryRetention \<Rightarrow> ChunkState \<Rightarrow> bool" where
  "receiptSettled story st \<longleftrightarrow>
     chunk_receipt st = 0 \<or>
     (receipt_instance st = report_instance story \<and> chunk_receipt st \<le> highest_receipt story \<and>
      chunk_receipt st \<notin> set (pending_receipts story))"

definition confirmedWritten :: "StoryRetention \<Rightarrow> StoryChunk \<Rightarrow> ChunkState \<Rightarrow> bool" where
  "confirmedWritten story c st \<longleftrightarrow> shipped st \<and> receiptSettled story st \<and> endTime c \<le> known_w story"

definition visibleInArchive :: "int \<Rightarrow> StoryRetention \<Rightarrow> ChunkState \<Rightarrow> int \<Rightarrow> bool \<times> ChunkState" where
  "visibleInArchive delay story st now =
     (if \<not> shipped st \<or> \<not> receiptSettled story st then (False, st)
      else let st' = (if chunk_written st then st else st\<lparr>chunk_written := True, written_at := now\<rparr>)
           in (delay \<le> now - written_at st', st'))"

section \<open>Freeing a chunk\<close>

definition forgetUnconfirmed :: "ChunkState \<Rightarrow> KeeperChunkRetentionStore \<Rightarrow> KeeperChunkRetentionStore" where
  "forgetUnconfirmed st s =
     s\<lparr>unconfirmedBytes := unconfirmedBytes s -
        (if approx_bytes st < unconfirmedBytes s then approx_bytes st else unconfirmedBytes s)\<rparr>"

definition forgetRetained :: "ChunkState \<Rightarrow> KeeperChunkRetentionStore \<Rightarrow> KeeperChunkRetentionStore" where
  "forgetRetained st s =
     s\<lparr>retainedBytes := retainedBytes s -
        (if approx_bytes st < retainedBytes s then approx_bytes st else retainedBytes s)\<rparr>"

definition tell_wal :: "wal_call \<Rightarrow> KeeperChunkRetentionStore \<Rightarrow> KeeperChunkRetentionStore" where
  "tell_wal c s = (if walObserver s then s\<lparr>wal_calls := wal_calls s @ [c]\<rparr> else s)"

text \<open>\<^verbatim>\<open>delete chunk\<close>.\<close>

definition delete_chunk :: "ptr \<Rightarrow> KeeperChunkRetentionStore \<Rightarrow> KeeperChunkRetentionStore option" where
  "delete_chunk p s = (case heap s p of None \<Rightarrow> None | Some _ \<Rightarrow> Some (s\<lparr>heap := (heap s)(p := None)\<rparr>))"

definition maybeFreeChunk ::
  "int \<Rightarrow> StoryId \<Rightarrow> ptr \<Rightarrow> KeeperChunkRetentionStore \<Rightarrow> KeeperChunkRetentionStore option" where
  "maybeFreeChunk now sid p s =
     do {
       story \<leftarrow> map_of (storyRetention s) sid;
       st \<leftarrow> map_of (chunks story) p;
       chunk \<leftarrow> heap s p;
       let (visible, st1) = visibleInArchive (archiveVisibilityDelay s) story st now;
       let newly = (\<not> wal_released st1 \<and> confirmedWritten story chunk st1);
       let st2 = (if newly then st1\<lparr>wal_released := True\<rparr> else st1);
       let s1 = (if newly then tell_wal (ChunkWritten (chunkStoryId chunk) chunk) (forgetUnconfirmed st2 s) else s);
       if \<not> visible \<or> in_queue st2 \<or> indexed_count st2 \<noteq> 0 \<or> known_w story < endTime chunk
       then Some (put_story sid (story\<lparr>chunks := omap_put p st2 (chunks story)\<rparr>) s1)
       else
         let s2 = forgetRetained st2 s1;
             s3 = (if \<not> wal_released st2 then forgetUnconfirmed st2 s2 else s2)
         in delete_chunk p (put_story sid (story\<lparr>chunks := omap_erase p (chunks story)\<rparr>) s3)
     }"

text \<open>The loop of \<^verbatim>\<open>maybeFreeChunk\<close> over chunks of a story, in iteration order.\<close>

fun free_loop :: "int \<Rightarrow> StoryId \<Rightarrow> ptr list \<Rightarrow> KeeperChunkRetentionStore \<Rightarrow> KeeperChunkRetentionStore option" where
  "free_loop now sid [] s = Some s"
| "free_loop now sid (p # ps) s = Option.bind (maybeFreeChunk now sid p s) (free_loop now sid ps)"

definition story_ptrs :: "StoryId \<Rightarrow> KeeperChunkRetentionStore \<Rightarrow> ptr list" where
  "story_ptrs sid s = map fst (chunks (story_of sid s))"

section \<open>Destroyed stories\<close>

fun drop_chunks :: "(ptr \<times> ChunkState) list \<Rightarrow> KeeperChunkRetentionStore \<Rightarrow> KeeperChunkRetentionStore option" where
  "drop_chunks [] s = Some s"
| "drop_chunks ((p, st) # ps) s =
     (let s1 = forgetRetained st s;
          s2 = (if \<not> wal_released st then forgetUnconfirmed st s1 else s1)
      in if in_queue st then drop_chunks ps s2 else Option.bind (delete_chunk p s2) (drop_chunks ps))"

definition keeper_dropStory ::
  "int \<Rightarrow> StoryId \<Rightarrow> KeeperChunkRetentionStore \<Rightarrow> KeeperChunkRetentionStore option" where
  "keeper_dropStory now sid s =
     (let s1 = tell_wal (StoryDropped sid) (s\<lparr>droppedStories := omap_put sid now (droppedStories s)\<rparr>) in
      case map_of (storyRetention s1) sid of
        None \<Rightarrow> Some s1
      | Some story \<Rightarrow>
          map_option (\<lambda>s2. s2\<lparr>storyRetention := omap_erase sid (storyRetention s2)\<rparr>) (drop_chunks (chunks story) s1))"

definition clearDroppedStory :: "StoryId \<Rightarrow> KeeperChunkRetentionStore \<Rightarrow> KeeperChunkRetentionStore" where
  "clearDroppedStory sid s = s\<lparr>droppedStories := omap_erase sid (droppedStories s)\<rparr>"

definition storyWasDropped :: "int \<Rightarrow> StoryId \<Rightarrow> KeeperChunkRetentionStore \<Rightarrow> bool \<times> KeeperChunkRetentionStore" where
  "storyWasDropped now sid s =
     (let left = filter (\<lambda>e. \<not> droppedStoryTtl s \<le> now - snd e) (droppedStories s)
      in (map_of left sid \<noteq> None, s\<lparr>droppedStories := left\<rparr>))"

section \<open>Sealing a chunk\<close>

text \<open>One iteration of the eviction loop: the oldest event leaves the index.\<close>

definition evict_oldest :: "int \<Rightarrow> StoryId \<Rightarrow> KeeperChunkRetentionStore \<Rightarrow> KeeperChunkRetentionStore option" where
  "evict_oldest now sid s =
     (let story = story_of sid s in
      case index story of
        [] \<Rightarrow> None
      | (k, p) # rest \<Rightarrow>
          let story1 = story\<lparr>index := rest\<rparr> in
          (case map_of (chunks story1) p of
             Some st \<Rightarrow>
               (if 0 < indexed_count st
                then let st1 = st\<lparr>indexed_count := indexed_count st - 1\<rparr>;
                         s1 = put_story sid (story1\<lparr>chunks := omap_put p st1 (chunks story1)\<rparr>) s
                     in if indexed_count st1 = 0 then maybeFreeChunk now sid p s1 else Some s1
                else Some (put_story sid story1 s))
           | None \<Rightarrow> Some (put_story sid story1 s)))"

text \<open>The loop ends because every iteration shortens the index; its length bounds the iterations.\<close>

fun evict_loop :: "nat \<Rightarrow> int \<Rightarrow> StoryId \<Rightarrow> KeeperChunkRetentionStore \<Rightarrow> KeeperChunkRetentionStore option" where
  "evict_loop 0 now sid s = Some s"
| "evict_loop (Suc n) now sid s =
     (if tailCapacity s < length (index (story_of sid s))
      then Option.bind (evict_oldest now sid s) (evict_loop n now sid) else Some s)"

definition enforceCapacity :: "int \<Rightarrow> StoryId \<Rightarrow> KeeperChunkRetentionStore \<Rightarrow> KeeperChunkRetentionStore option" where
  "enforceCapacity now sid s = evict_loop (length (index (story_of sid s))) now sid s"

definition warnOnCapCrossing :: "KeeperChunkRetentionStore \<Rightarrow> KeeperChunkRetentionStore" where
  "warnOnCapCrossing s =
     (if retentionCapBytes s = 0 then s
      else if retentionCapBytes s < retainedBytes s \<and> \<not> capWarned s then s\<lparr>capWarned := True\<rparr>
      else if retainedBytes s \<le> retentionCapBytes s then s\<lparr>capWarned := False\<rparr>
      else s)"

text \<open>The state of a chunk that is taken over.\<close>

definition sealed_state :: "int \<Rightarrow> StoryChunk \<Rightarrow> ChunkState" where
  "sealed_state now c = new_ChunkState\<lparr>indexed_count := getEventCount c, approx_bytes := approxChunkBytes c,
     in_queue := True, last_activity := now\<rparr>"

text \<open>
  The operations that stash chunks return the pointers to stash, since the stash is made after
  the lock is released.
\<close>

definition ingestSealedChunk ::
  "int \<Rightarrow> StoryId \<Rightarrow> ptr \<Rightarrow> KeeperChunkRetentionStore \<Rightarrow> (ptr list \<times> KeeperChunkRetentionStore) option" where
  "ingestSealedChunk now sid p s =
     (if p = 0 then Some ([], s)
      else do {
        chunk \<leftarrow> heap s p;
        if chunk_empty chunk then map_option (Pair []) (delete_chunk p s)
        else
          (case storyWasDropped now sid s of (was_dropped, s1) \<Rightarrow>
             if was_dropped
             then map_option (Pair []) (delete_chunk p (tell_wal (ChunkDiscarded sid chunk) s1))
             else
               (let story = story_of sid s1;
                    st = sealed_state now chunk;
                    story1 = story\<lparr>chunks := omap_emplace p st (chunks story),
                                   index := fold (\<lambda>e. omap_put (fst e) p) (logEvents chunk) (index story)\<rparr>;
                    s2 = (put_story sid story1 s1)\<lparr>retainedBytes := retainedBytes s1 + approx_bytes st,
                                                   unconfirmedBytes := unconfirmedBytes s1 + approx_bytes st\<rparr>
                in map_option (\<lambda>s3. ([p], warnOnCapCrossing s3)) (enforceCapacity now sid s2)))
      })"

section \<open>Callbacks of the drain thread\<close>

definition tracked :: "KeeperChunkRetentionStore \<Rightarrow> StoryId \<Rightarrow> ptr \<Rightarrow> ChunkState option" where
  "tracked s sid p = Option.bind (map_of (storyRetention s) sid) (\<lambda>story. map_of (chunks story) p)"

definition put_state :: "StoryId \<Rightarrow> ptr \<Rightarrow> ChunkState \<Rightarrow> KeeperChunkRetentionStore \<Rightarrow> KeeperChunkRetentionStore" where
  "put_state sid p st s =
     (let story = story_of sid s in put_story sid (story\<lparr>chunks := omap_put p st (chunks story)\<rparr>) s)"

definition markShipped :: "int \<Rightarrow> ptr \<Rightarrow> KeeperChunkRetentionStore \<Rightarrow> KeeperChunkRetentionStore option" where
  "markShipped now p s =
     do {
       chunk \<leftarrow> heap s p;
       (case tracked s (chunkStoryId chunk) p of
          None \<Rightarrow> delete_chunk p s
        | Some st \<Rightarrow>
            maybeFreeChunk now (chunkStoryId chunk) p
              (put_state (chunkStoryId chunk) p
                 (st\<lparr>shipped := True, in_queue := False, last_activity := now,
                     receipt_instance := grapherInstance chunk, chunk_receipt := grapherReceipt chunk\<rparr>) s))
     }"

definition markSendFailed :: "int \<Rightarrow> ptr \<Rightarrow> KeeperChunkRetentionStore \<Rightarrow> KeeperChunkRetentionStore option" where
  "markSendFailed now p s =
     do {
       chunk \<leftarrow> heap s p;
       (case tracked s (chunkStoryId chunk) p of
          None \<Rightarrow> delete_chunk p s
        | Some st \<Rightarrow>
            maybeFreeChunk now (chunkStoryId chunk) p
              (put_state (chunkStoryId chunk) p (st\<lparr>in_queue := False, last_activity := now\<rparr>) s))
     }"

section \<open>Watermark reports\<close>

definition applyReport ::
  "int \<Rightarrow> StoryId \<Rightarrow> StoryWatermarkReport \<Rightarrow> KeeperChunkRetentionStore \<Rightarrow> KeeperChunkRetentionStore option" where
  "applyReport now sid report s =
     (if watermark report = kStoryDroppedWatermark then keeper_dropStory now sid s
      else
        let story = story_of sid s;
            story1 = (if watermark report < known_w story then story else story\<lparr>known_w := watermark report\<rparr>);
            story2 = (if report_grapher_instance report \<noteq> 0 then mergeReceipts report story1 else story1);
            s1 = put_story sid story2 s
        in free_loop now sid (story_ptrs sid s1) s1)"

definition confirmPersisted ::
  "int \<Rightarrow> StoryId \<Rightarrow> u64 \<Rightarrow> KeeperChunkRetentionStore \<Rightarrow> KeeperChunkRetentionStore option" where
  "confirmPersisted now sid w =
     applyReport now sid \<lparr>watermark = w, report_grapher_instance = 0, report_highest_receipt = 0,
                          report_pending_receipts = []\<rparr>"

definition knownPersisted :: "StoryId \<Rightarrow> KeeperChunkRetentionStore \<Rightarrow> u64" where
  "knownPersisted sid s = (case map_of (storyRetention s) sid of None \<Rightarrow> 0 | Some story \<Rightarrow> known_w story)"

section \<open>Re-sending and freeing on a timer\<close>

definition is_stalled :: "int \<Rightarrow> int \<Rightarrow> StoryRetention \<Rightarrow> StoryChunk \<Rightarrow> ChunkState \<Rightarrow> bool" where
  "is_stalled now max_age story c st \<longleftrightarrow>
     \<not> (in_queue st \<or> confirmedWritten story c st) \<and>
     \<not> (shipped st \<and> chunk_receipt st \<noteq> 0 \<and> receiptSettled story st) \<and>
     \<not> now - last_activity st < max_age"

fun requeue_chunks ::
  "(ptr \<Rightarrow> StoryChunk option) \<Rightarrow> int \<Rightarrow> int \<Rightarrow> StoryRetention \<Rightarrow> (ptr \<times> ChunkState) list
    \<Rightarrow> (ptr list \<times> (ptr \<times> ChunkState) list) option" where
  "requeue_chunks h now max_age story [] = Some ([], [])"
| "requeue_chunks h now max_age story ((p, st) # cs) =
     do {
       chunk \<leftarrow> h p;
       (ps, cs') \<leftarrow> requeue_chunks h now max_age story cs;
       if is_stalled now max_age story chunk st
       then Some (p # ps, (p, st\<lparr>in_queue := True, last_activity := now\<rparr>) # cs')
       else Some (ps, (p, st) # cs')
     }"

fun requeue_stories ::
  "(ptr \<Rightarrow> StoryChunk option) \<Rightarrow> int \<Rightarrow> int \<Rightarrow> (StoryId \<times> StoryRetention) list
    \<Rightarrow> (ptr list \<times> (StoryId \<times> StoryRetention) list) option" where
  "requeue_stories h now max_age [] = Some ([], [])"
| "requeue_stories h now max_age ((sid, story) # rest) =
     do {
       (ps, cs) \<leftarrow> requeue_chunks h now max_age story (chunks story);
       (qs, rest') \<leftarrow> requeue_stories h now max_age rest;
       Some (ps @ qs, (sid, story\<lparr>chunks := cs\<rparr>) # rest')
     }"

definition requeueStalled ::
  "int \<Rightarrow> int \<Rightarrow> KeeperChunkRetentionStore \<Rightarrow> (ptr list \<times> KeeperChunkRetentionStore) option" where
  "requeueStalled now max_age s =
     map_option (\<lambda>(ps, sr). (ps, s\<lparr>storyRetention := sr\<rparr>)) (requeue_stories (heap s) now max_age (storyRetention s))"

definition unshipped :: "ChunkState \<Rightarrow> bool" where
  "unshipped st \<longleftrightarrow> \<not> (in_queue st \<or> shipped st)"

definition flushUnshippedChunks :: "KeeperChunkRetentionStore \<Rightarrow> ptr list \<times> KeeperChunkRetentionStore" where
  "flushUnshippedChunks s =
     (concat (map (\<lambda>(sid, story). map fst (filter (\<lambda>(p, st). unshipped st) (chunks story))) (storyRetention s)),
      s\<lparr>storyRetention := map (\<lambda>(sid, story). (sid, story\<lparr>chunks :=
          map (\<lambda>(p, st). (p, if unshipped st then st\<lparr>in_queue := True\<rparr> else st)) (chunks story)\<rparr>)) (storyRetention s)\<rparr>)"

fun free_stories :: "int \<Rightarrow> StoryId list \<Rightarrow> KeeperChunkRetentionStore \<Rightarrow> KeeperChunkRetentionStore option" where
  "free_stories now [] s = Some s"
| "free_stories now (sid # sids) s = Option.bind (free_loop now sid (story_ptrs sid s) s) (free_stories now sids)"

definition retained_total :: "KeeperChunkRetentionStore \<Rightarrow> nat" where
  "retained_total s = sum_list (map (\<lambda>e. length (chunks (snd e))) (storyRetention s))"

definition freeDurableChunks :: "int \<Rightarrow> KeeperChunkRetentionStore \<Rightarrow> (nat \<times> KeeperChunkRetentionStore) option" where
  "freeDurableChunks now s =
     map_option (\<lambda>s'. (retained_total s - retained_total s', s')) (free_stories now (map fst (storyRetention s)) s)"

definition unconfirmedChunkCount :: "KeeperChunkRetentionStore \<Rightarrow> nat option" where
  "unconfirmedChunkCount s =
     (let held = concat (map (\<lambda>(sid, story). map (\<lambda>(p, st). (story, p, st)) (chunks story)) (storyRetention s)) in
      if \<forall>(story, p, st)\<in>set held. heap s p \<noteq> None
      then Some (length (filter (\<lambda>(story, p, st). \<not> confirmedWritten story (the (heap s p)) st) held))
      else None)"

text \<open>
  One round of \<^verbatim>\<open>waitUntilDurable\<close>: the outcome \<open>Some b\<close> is the value returned, \<open>None\<close>
  that the caller sleeps for the poll interval and starts the next round.
\<close>

definition waitUntilDurable_round ::
  "int \<Rightarrow> int \<Rightarrow> int \<Rightarrow> KeeperChunkRetentionStore
    \<Rightarrow> (bool option \<times> ptr list \<times> KeeperChunkRetentionStore) option" where
  "waitUntilDurable_round deadline now resend_age s =
     (case flushUnshippedChunks s of (ps, s1) \<Rightarrow>
        do {
          (qs, s2) \<leftarrow> requeueStalled now resend_age s1;
          n \<leftarrow> unconfirmedChunkCount s2;
          Some ((if n = 0 then Some True else if deadline \<le> now then Some False else None), ps @ qs, s2)
        })"

section \<open>Reads\<close>

text \<open>Retiring a story's tail.\<close>

fun release_loop :: "int \<Rightarrow> StoryId \<Rightarrow> ptr list \<Rightarrow> KeeperChunkRetentionStore \<Rightarrow> KeeperChunkRetentionStore option" where
  "release_loop now sid [] s = Some s"
| "release_loop now sid (p # ps) s =
     do {
       st \<leftarrow> tracked s sid p;
       s1 \<leftarrow> maybeFreeChunk now sid p (put_state sid p (st\<lparr>indexed_count := 0\<rparr>) s);
       release_loop now sid ps s1
     }"

definition releaseStoryTail :: "int \<Rightarrow> StoryId \<Rightarrow> KeeperChunkRetentionStore \<Rightarrow> KeeperChunkRetentionStore option" where
  "releaseStoryTail now sid s =
     (case map_of (storyRetention s) sid of
        None \<Rightarrow> Some s
      | Some story \<Rightarrow> release_loop now sid (map fst (chunks story)) (put_story sid (story\<lparr>index := []\<rparr>) s))"

definition retainedChunkCount :: "StoryId \<Rightarrow> KeeperChunkRetentionStore \<Rightarrow> nat" where
  "retainedChunkCount sid s = (case map_of (storyRetention s) sid of None \<Rightarrow> 0 | Some story \<Rightarrow> length (chunks story))"

text \<open>A range read (\<^verbatim>\<open>src/chrono-common/include/HotRangeResponse.h\<close>).\<close>

record HotRangeResponse =
  hot_events :: "LogEvent list"
  unconfirmed_events :: "LogEvent list"
  hot_floor :: u64
  known_W :: u64
  truncated :: bool
  answered :: bool

definition new_HotRangeResponse :: HotRangeResponse where
  "new_HotRangeResponse = \<lparr>hot_events = [], unconfirmed_events = [], hot_floor = - 1, known_W = 0, truncated = False, answered = True\<rparr>"

text \<open>The nodes from the start of the range up to its end, which the loop leaves at the first later event.\<close>

definition range_nodes :: "StoryChunk \<Rightarrow> u64 \<Rightarrow> u64 \<Rightarrow> (EventSequence \<times> LogEvent) list" where
  "range_nodes c start stop = takeWhile (\<lambda>e. eventTime (snd e) < stop) (chunk_lower_bound c start)"

fun merge_nodes ::
  "bool \<Rightarrow> (EventSequence \<times> LogEvent) list \<Rightarrow> (EventSequence, LogEvent \<times> bool) omap
    \<Rightarrow> (EventSequence, LogEvent \<times> bool) omap" where
  "merge_nodes ack [] m = m"
| "merge_nodes ack ((k, e) # es) m =
     (let m1 = omap_emplace k (e, ack) m in
      merge_nodes ack es
        (case map_of m1 k of None \<Rightarrow> m1 | Some (e1, b) \<Rightarrow> omap_put k (e1, b \<or> ack) m1))"

fun fetch_chunks ::
  "(ptr \<Rightarrow> StoryChunk option) \<Rightarrow> int \<Rightarrow> int \<Rightarrow> u64 \<Rightarrow> u64 \<Rightarrow> StoryRetention \<Rightarrow> (ptr \<times> ChunkState) list
    \<Rightarrow> u64 \<times> (EventSequence, LogEvent \<times> bool) omap
    \<Rightarrow> (u64 \<times> (EventSequence, LogEvent \<times> bool) omap \<times> (ptr \<times> ChunkState) list) option" where
  "fetch_chunks h delay now start stop story [] (floor, m) = Some (floor, m, [])"
| "fetch_chunks h delay now start stop story ((p, st) # cs) (floor, m) =
     do {
       chunk \<leftarrow> h p;
       let (acknowledged, st1) = visibleInArchive delay story st now;
       let floor1 = (if \<not> chunk_empty chunk \<and> firstEventTime chunk < floor then firstEventTime chunk else floor);
       let m1 = merge_nodes acknowledged (range_nodes chunk start stop) m;
       (floor2, m2, cs') \<leftarrow> fetch_chunks h delay now start stop story cs (floor1, m1);
       Some (floor2, m2, (p, st1) # cs')
     }"

fun serve ::
  "nat \<Rightarrow> (EventSequence \<times> LogEvent \<times> bool) list \<Rightarrow> nat \<Rightarrow> HotRangeResponse \<Rightarrow> HotRangeResponse" where
  "serve max_events [] served r = r"
| "serve max_events ((k, e, ack) # es) served r =
     (if ack \<and> eventTime e < known_W r then serve max_events es served r
      else if max_events \<le> served then r\<lparr>truncated := True\<rparr>
      else if ack then serve max_events es (served + 1) (r\<lparr>hot_events := hot_events r @ [e]\<rparr>)
      else serve max_events es (served + 1) (r\<lparr>unconfirmed_events := unconfirmed_events r @ [e]\<rparr>))"

definition fetchRange ::
  "int \<Rightarrow> StoryId \<Rightarrow> u64 \<Rightarrow> u64 \<Rightarrow> nat \<Rightarrow> KeeperChunkRetentionStore
    \<Rightarrow> (HotRangeResponse \<times> KeeperChunkRetentionStore) option" where
  "fetchRange now sid start stop max_events s =
     (case map_of (storyRetention s) sid of
        None \<Rightarrow> Some (new_HotRangeResponse, s)
      | Some story \<Rightarrow>
          do {
            (floor, merged, cs) \<leftarrow> fetch_chunks (heap s) (archiveVisibilityDelay s) now start stop story (chunks story)
              (hot_floor new_HotRangeResponse, []);
            Some (serve max_events merged 0 (new_HotRangeResponse\<lparr>known_W := known_w story, hot_floor := floor\<rparr>),
                  put_story sid (story\<lparr>chunks := cs\<rparr>) s)
          })"

text \<open>The last entries of an index, ascending.\<close>

definition last_n :: "nat \<Rightarrow> 'a list \<Rightarrow> 'a list" where
  "last_n n xs = drop (length xs - min n (length xs)) xs"

definition getSealedTailSequences :: "StoryId \<Rightarrow> nat \<Rightarrow> KeeperChunkRetentionStore \<Rightarrow> EventSequence list" where
  "getSealedTailSequences sid n s =
     (case map_of (storyRetention s) sid of None \<Rightarrow> [] | Some story \<Rightarrow> map fst (last_n n (index story)))"

text \<open>
  The active sources are guarded by their own mutex; a source is the pair of the functions of
  \<^verbatim>\<open>ActiveTailSource\<close>.
\<close>

type_synonym active_source = "(nat \<Rightarrow> EventSequence list) \<times> (EventSequence \<Rightarrow> LogEvent option)"

definition registerActiveSource :: "StoryId \<Rightarrow> ptr \<Rightarrow> (StoryId, ptr) omap \<Rightarrow> (StoryId, ptr) omap" where
  "registerActiveSource sid src active = (if src = 0 then active else omap_put sid src active)"

definition unregisterActiveSource :: "StoryId \<Rightarrow> ptr \<Rightarrow> (StoryId, ptr) omap \<Rightarrow> (StoryId, ptr) omap" where
  "unregisterActiveSource sid src active = (if map_of active sid = Some src then omap_erase sid active else active)"

definition getActiveTailSequences :: "active_source option \<Rightarrow> nat \<Rightarrow> EventSequence list" where
  "getActiveTailSequences src n = (case src of None \<Rightarrow> [] | Some f \<Rightarrow> fst f n)"

definition getTailSequences ::
  "active_source option \<Rightarrow> StoryId \<Rightarrow> nat \<Rightarrow> KeeperChunkRetentionStore \<Rightarrow> EventSequence list" where
  "getTailSequences src sid n s =
     (let sealed = getSealedTailSequences sid n s in
      if \<not> liveTailRead s then sealed
      else let active = getActiveTailSequences src n in
        if active = [] then sealed
        else last_n n (fold oset_insert active (fold oset_insert sealed [])))"

fun tail_events ::
  "(ptr \<Rightarrow> StoryChunk option) \<Rightarrow> bool \<Rightarrow> (EventSequence, ptr) omap option \<Rightarrow> EventSequence list
    \<Rightarrow> (LogEvent list \<times> EventSequence list) option" where
  "tail_events h live idx [] = Some ([], [])"
| "tail_events h live idx (seq # seqs) =
     do {
       event \<leftarrow> (case Option.bind idx (\<lambda>m. map_of m seq) of
                   None \<Rightarrow> Some None
                 | Some p \<Rightarrow> map_option (\<lambda>c. findEvent c seq) (h p));
       (es, misses) \<leftarrow> tail_events h live idx seqs;
       Some (case event of Some e \<Rightarrow> (e # es, misses) | None \<Rightarrow> (es, if live then seq # misses else misses))
     }"

definition getTailEvents ::
  "active_source option \<Rightarrow> StoryId \<Rightarrow> EventSequence list \<Rightarrow> KeeperChunkRetentionStore \<Rightarrow> LogEvent list option" where
  "getTailEvents src sid seqs s =
     do {
       (es, misses) \<leftarrow> tail_events (heap s) (liveTailRead s) (map_option index (map_of (storyRetention s) sid)) seqs;
       Some (case src of
               Some f \<Rightarrow> if liveTailRead s then es @ List.map_filter (snd f) misses else es
             | None \<Rightarrow> es)
     }"

section \<open>Shutdown\<close>

fun destroy_chunks ::
  "StoryRetention \<Rightarrow> (ptr \<times> ChunkState) list \<Rightarrow> KeeperChunkRetentionStore \<Rightarrow> (ptr list \<times> KeeperChunkRetentionStore) option" where
  "destroy_chunks story [] s = Some ([], s)"
| "destroy_chunks story ((p, st) # cs) s =
     do {
       chunk \<leftarrow> heap s p;
       if in_queue st then destroy_chunks story cs s
       else if \<not> shipped st then map_option (\<lambda>(ps, s'). (p # ps, s')) (destroy_chunks story cs s)
       else Option.bind (delete_chunk p s) (destroy_chunks story cs)
     }"

fun destroy_stories ::
  "(StoryId \<times> StoryRetention) list \<Rightarrow> KeeperChunkRetentionStore \<Rightarrow> (ptr list \<times> KeeperChunkRetentionStore) option" where
  "destroy_stories [] s = Some ([], s)"
| "destroy_stories ((sid, story) # rest) s =
     do {
       (ps, s1) \<leftarrow> destroy_chunks story (chunks story) s;
       (qs, s2) \<leftarrow> destroy_stories rest (put_story sid (story\<lparr>chunks := [], index := []\<rparr>) s1);
       Some (ps @ qs, s2)
     }"

definition destroy_store :: "KeeperChunkRetentionStore \<Rightarrow> (ptr list \<times> KeeperChunkRetentionStore) option" where
  "destroy_store s = destroy_stories (storyRetention s) s"

section \<open>The extraction queue\<close>

record StoryChunkExtractionQueue =
  extractionDeque :: "ptr list"
  chunksInProcess :: nat

definition stashStoryChunk ::
  "(ptr \<Rightarrow> StoryChunk option) \<Rightarrow> ptr \<Rightarrow> StoryChunkExtractionQueue \<Rightarrow> StoryChunkExtractionQueue option" where
  "stashStoryChunk h p q =
     (if p = 0 then Some q
      else case h p of None \<Rightarrow> None | Some _ \<Rightarrow> Some (q\<lparr>extractionDeque := extractionDeque q @ [p]\<rparr>))"

definition ejectStoryChunk :: "StoryChunkExtractionQueue \<Rightarrow> ptr \<times> StoryChunkExtractionQueue" where
  "ejectStoryChunk q =
     (case extractionDeque q of
        [] \<Rightarrow> (0, q)
      | p # ps \<Rightarrow> (p, q\<lparr>extractionDeque := ps, chunksInProcess := chunksInProcess q + 1\<rparr>))"

definition chunkProcessed :: "StoryChunkExtractionQueue \<Rightarrow> StoryChunkExtractionQueue" where
  "chunkProcessed q = (if 0 < chunksInProcess q then q\<lparr>chunksInProcess := chunksInProcess q - 1\<rparr> else q)"

definition queue_idle :: "StoryChunkExtractionQueue \<Rightarrow> bool" where
  "queue_idle q \<longleftrightarrow> extractionDeque q = [] \<and> chunksInProcess q = 0"

definition queue_size :: "StoryChunkExtractionQueue \<Rightarrow> nat" where
  "queue_size q = length (extractionDeque q)"

fun stashStoryChunks ::
  "(ptr \<Rightarrow> StoryChunk option) \<Rightarrow> ptr list \<Rightarrow> StoryChunkExtractionQueue \<Rightarrow> StoryChunkExtractionQueue option" where
  "stashStoryChunks h [] q = Some q"
| "stashStoryChunks h (p # ps) q = Option.bind (stashStoryChunk h p q) (stashStoryChunks h ps)"

text \<open>The shutdown deletes what is still queued.\<close>

fun delete_all :: "ptr list \<Rightarrow> (ptr \<Rightarrow> StoryChunk option) \<Rightarrow> (ptr \<Rightarrow> StoryChunk option) option" where
  "delete_all [] h = Some h"
| "delete_all (p # ps) h = (case h p of None \<Rightarrow> None | Some _ \<Rightarrow> delete_all ps (h(p := None)))"

definition queue_shutDown ::
  "(ptr \<Rightarrow> StoryChunk option) \<Rightarrow> StoryChunkExtractionQueue \<Rightarrow> ((ptr \<Rightarrow> StoryChunk option) \<times> StoryChunkExtractionQueue) option" where
  "queue_shutDown h q = map_option (\<lambda>h'. (h', q\<lparr>extractionDeque := []\<rparr>)) (delete_all (extractionDeque q) h)"

section \<open>The keeper as a system of interleaved steps\<close>

text \<open>
  The threads of the keeper meet in the store and in the queue. A chunk the store hands over is first
  in the hands of the thread that stashes it, then in the queue, then in flight in a drain thread,
  which calls back when the transfer succeeded or failed. Every operation under the store's lock is
  one step; the stash is a step of its own.
\<close>

record keeper_sys =
  kstore :: KeeperChunkRetentionStore
  kqueue :: StoryChunkExtractionQueue
  stashing :: "ptr list"
  in_flight :: "ptr list"

datatype keeper_op =
  Seal int ptr StoryChunk
| Stash ptr
| Eject
| Deliver ptr u64 u64
| Shipped int ptr
| SendFailed int ptr
| Report int StoryId StoryWatermarkReport
| Requeue int int
| Flush
| FreeDurable int
| FetchRange int StoryId u64 u64 nat
| ReadTail StoryId "EventSequence list"
| ReleaseTail int StoryId
| RecordAgain StoryId

text \<open>A step that is not enabled leaves the system as it is; \<open>None\<close> is an access to a chunk that is not live.\<close>

fun keeper_step :: "keeper_op \<Rightarrow> keeper_sys \<Rightarrow> keeper_sys option" where
  "keeper_step (Seal now p c) k =
     (if p = 0 \<or> heap (kstore k) p \<noteq> None then Some k
      else map_option (\<lambda>(ps, s). k\<lparr>kstore := s, stashing := stashing k @ ps\<rparr>)
             (ingestSealedChunk now (chunkStoryId c) p ((kstore k)\<lparr>heap := (heap (kstore k))(p \<mapsto> c)\<rparr>)))"
| "keeper_step (Stash p) k =
     (if p \<in> set (stashing k)
      then map_option (\<lambda>q. k\<lparr>kqueue := q, stashing := remove1 p (stashing k)\<rparr>)
             (stashStoryChunk (heap (kstore k)) p (kqueue k))
      else Some k)"
| "keeper_step Eject k =
     (case ejectStoryChunk (kqueue k) of (p, q) \<Rightarrow>
        if p = 0 then Some k else Some (k\<lparr>kqueue := q, in_flight := p # in_flight k\<rparr>))"
| "keeper_step (Deliver p inst n) k =
     (if p \<in> set (in_flight k)
      then map_option (\<lambda>c. k\<lparr>kstore := (kstore k)\<lparr>heap := (heap (kstore k))(p \<mapsto>
               c\<lparr>grapherInstance := inst, grapherReceipt := n\<rparr>)\<rparr>\<rparr>) (heap (kstore k) p)
      else Some k)"
| "keeper_step (Shipped now p) k =
     (if p \<in> set (in_flight k)
      then map_option (\<lambda>s. k\<lparr>kstore := s, kqueue := chunkProcessed (kqueue k), in_flight := remove1 p (in_flight k)\<rparr>)
             (markShipped now p (kstore k))
      else Some k)"
| "keeper_step (SendFailed now p) k =
     (if p \<in> set (in_flight k)
      then map_option (\<lambda>s. k\<lparr>kstore := s, kqueue := chunkProcessed (kqueue k), in_flight := remove1 p (in_flight k)\<rparr>)
             (markSendFailed now p (kstore k))
      else Some k)"
| "keeper_step (Report now sid report) k =
     map_option (\<lambda>s. k\<lparr>kstore := s\<rparr>) (applyReport now sid report (kstore k))"
| "keeper_step (Requeue now max_age) k =
     map_option (\<lambda>(ps, s). k\<lparr>kstore := s, stashing := stashing k @ ps\<rparr>) (requeueStalled now max_age (kstore k))"
| "keeper_step Flush k =
     (case flushUnshippedChunks (kstore k) of (ps, s) \<Rightarrow> Some (k\<lparr>kstore := s, stashing := stashing k @ ps\<rparr>))"
| "keeper_step (FreeDurable now) k =
     map_option (\<lambda>(n, s). k\<lparr>kstore := s\<rparr>) (freeDurableChunks now (kstore k))"
| "keeper_step (FetchRange now sid start stop n) k =
     map_option (\<lambda>(r, s). k\<lparr>kstore := s\<rparr>) (fetchRange now sid start stop n (kstore k))"
| "keeper_step (ReadTail sid seqs) k =
     map_option (\<lambda>es. k) (getTailEvents None sid seqs (kstore k))"
| "keeper_step (ReleaseTail now sid) k =
     map_option (\<lambda>s. k\<lparr>kstore := s\<rparr>) (releaseStoryTail now sid (kstore k))"
| "keeper_step (RecordAgain sid) k = Some (k\<lparr>kstore := clearDroppedStory sid (kstore k)\<rparr>)"

fun keeper_run :: "keeper_op list \<Rightarrow> keeper_sys \<Rightarrow> keeper_sys option" where
  "keeper_run [] k = Some k"
| "keeper_run (op # ops) k = Option.bind (keeper_step op k) (keeper_run ops)"

definition new_keeper :: "KeeperChunkRetentionStore \<Rightarrow> keeper_sys" where
  "new_keeper s = \<lparr>kstore = s, kqueue = \<lparr>extractionDeque = [], chunksInProcess = 0\<rparr>, stashing = [], in_flight = []\<rparr>"

section \<open>The ownership invariant\<close>

text \<open>The chunks some other thread or the queue may still touch.\<close>

definition pool :: "keeper_sys \<Rightarrow> ptr list" where
  "pool k = stashing k @ extractionDeque (kqueue k) @ in_flight k"

definition entries :: "ptr \<Rightarrow> (EventSequence, ptr) omap \<Rightarrow> nat" where
  "entries p m = length (filter (\<lambda>e. snd e = p) m)"

definition story_inv :: "ptr set \<Rightarrow> (ptr \<Rightarrow> StoryChunk option) \<Rightarrow> StoryId \<Rightarrow> StoryRetention \<Rightarrow> bool" where
  "story_inv P h sid story \<longleftrightarrow>
     omap_ok (chunks story) \<and> omap_ok (index story) \<and>
     (\<forall>p st. map_of (chunks story) p = Some st \<longrightarrow>
        (\<exists>c. h p = Some c \<and> chunkStoryId c = sid) \<and> (in_queue st \<longleftrightarrow> p \<in> P) \<and> entries p (index story) \<le> indexed_count st) \<and>
     (\<forall>(k, p)\<in>set (index story). map_of (chunks story) p \<noteq> None \<and>
        (\<exists>c. h p = Some c \<and> map_of (logEvents c) k \<noteq> None))"

definition store_inv :: "ptr set \<Rightarrow> KeeperChunkRetentionStore \<Rightarrow> bool" where
  "store_inv P s \<longleftrightarrow>
     omap_ok (storyRetention s) \<and>
     (\<forall>sid story. map_of (storyRetention s) sid = Some story \<longrightarrow> story_inv P (heap s) sid story) \<and>
     (\<forall>p\<in>P. heap s p \<noteq> None) \<and> heap s 0 = None \<and>
     (\<forall>p c. heap s p = Some c \<longrightarrow> p \<in> P \<or> tracked s (chunkStoryId c) p \<noteq> None)"

definition keeper_inv :: "keeper_sys \<Rightarrow> bool" where
  "keeper_inv k \<longleftrightarrow> distinct (pool k) \<and> store_inv (set (pool k)) (kstore k)"

section \<open>Preservation of the invariant\<close>

lemma store_inv_cong:
  "heap s' = heap s \<Longrightarrow> storyRetention s' = storyRetention s \<Longrightarrow> store_inv P s' = store_inv P s"
  by (simp add: store_inv_def tracked_def)

lemma store_invI:
  assumes "omap_ok (storyRetention s)"
    and "\<And>sid story. map_of (storyRetention s) sid = Some story \<Longrightarrow> story_inv P (heap s) sid story"
    and "\<And>p. p \<in> P \<Longrightarrow> heap s p \<noteq> None" and "heap s 0 = None"
    and "\<And>p c. heap s p = Some c \<Longrightarrow> p \<in> P \<or> tracked s (chunkStoryId c) p \<noteq> None"
  shows "store_inv P s"
  using assms unfolding store_inv_def by blast

lemma store_invD:
  assumes "store_inv P s"
  shows "omap_ok (storyRetention s)" "map_of (storyRetention s) sid = Some story \<Longrightarrow> story_inv P (heap s) sid story"
    "p \<in> P \<Longrightarrow> heap s p \<noteq> None" "heap s 0 = None"
    "heap s p = Some c \<Longrightarrow> p \<in> P \<or> tracked s (chunkStoryId c) p \<noteq> None"
  using assms unfolding store_inv_def by blast+

lemma bookkeeping_frame [simp]:
  "heap (forgetUnconfirmed st s) = heap s" "storyRetention (forgetUnconfirmed st s) = storyRetention s"
  "heap (forgetRetained st s) = heap s" "storyRetention (forgetRetained st s) = storyRetention s"
  "heap (tell_wal c s) = heap s" "storyRetention (tell_wal c s) = storyRetention s"
  "tailCapacity (forgetUnconfirmed st s) = tailCapacity s" "tailCapacity (forgetRetained st s) = tailCapacity s"
  "tailCapacity (tell_wal c s) = tailCapacity s"
  "heap (put_story sid story s) = heap s" "tailCapacity (put_story sid story s) = tailCapacity s"
  "storyRetention (put_story sid story s) = omap_put sid story (storyRetention s)"
  by (simp_all add: forgetUnconfirmed_def forgetRetained_def tell_wal_def put_story_def)

lemma story_of_put [simp]: "story_of sid (put_story sid story s) = story"
  by (simp add: story_of_def put_story_def omap_simps)

lemma tracked_put [simp]:
  "tracked (put_story sid story s) sid' p = (if sid' = sid then map_of (chunks story) p else tracked s sid' p)"
  by (simp add: tracked_def omap_simps)

lemma tracked_story_of: "tracked s sid p = map_of (chunks (story_of sid s)) p"
  by (simp add: tracked_def story_of_def new_StoryRetention_def split: option.split)

lemma story_inv_new: "story_inv P h sid new_StoryRetention"
  by (simp add: story_inv_def new_StoryRetention_def)

lemma story_inv_of: "store_inv P s \<Longrightarrow> story_inv P (heap s) sid (story_of sid s)"
  by (auto simp: store_inv_def story_of_def story_inv_new split: option.split)

lemma story_invD:
  assumes "story_inv P h sid story" "map_of (chunks story) p = Some st"
  shows "\<exists>c. h p = Some c \<and> chunkStoryId c = sid" "in_queue st \<longleftrightarrow> p \<in> P" "entries p (index story) \<le> indexed_count st"
  using assms by (auto simp: story_inv_def)

lemma story_inv_index:
  assumes "story_inv P h sid story" "(k, p) \<in> set (index story)"
  shows "map_of (chunks story) p \<noteq> None" "\<exists>c. h p = Some c \<and> map_of (logEvents c) k \<noteq> None"
  using assms unfolding story_inv_def by blast+

lemma story_invI:
  assumes "omap_ok (chunks story)" "omap_ok (index story)"
    and "\<And>p st. map_of (chunks story) p = Some st \<Longrightarrow>
      (\<exists>c. h p = Some c \<and> chunkStoryId c = sid) \<and> (in_queue st \<longleftrightarrow> p \<in> P) \<and> entries p (index story) \<le> indexed_count st"
    and "\<And>k p. (k, p) \<in> set (index story) \<Longrightarrow> map_of (chunks story) p \<noteq> None \<and>
      (\<exists>c. h p = Some c \<and> map_of (logEvents c) k \<noteq> None)"
  shows "story_inv P h sid story"
  using assms unfolding story_inv_def by blast

lemma story_inv_ok: "story_inv P h sid story \<Longrightarrow> omap_ok (chunks story) \<and> omap_ok (index story)"
  by (simp add: story_inv_def)

lemma story_inv_heap:
  assumes "story_inv P h sid story" "\<And>p. map_of (chunks story) p \<noteq> None \<Longrightarrow> h' p = h p"
  shows "story_inv P h' sid story"
proof (rule story_invI)
  show "(\<exists>c. h' p = Some c \<and> chunkStoryId c = sid) \<and> (in_queue st \<longleftrightarrow> p \<in> P) \<and> entries p (index story) \<le> indexed_count st"
    if "map_of (chunks story) p = Some st" for p st
    using story_invD [OF assms(1) that] assms(2) [of p] that by simp
  show "map_of (chunks story) p \<noteq> None \<and> (\<exists>c. h' p = Some c \<and> map_of (logEvents c) k \<noteq> None)"
    if "(k, p) \<in> set (index story)" for k p
    using story_inv_index [OF assms(1) that] assms(2) [of p] by simp
qed (use story_inv_ok [OF assms(1)] in auto)

lemma store_inv_tracked:
  assumes "store_inv P s" "tracked s sid p = Some st"
  shows "\<exists>c. heap s p = Some c \<and> chunkStoryId c = sid" "in_queue st \<longleftrightarrow> p \<in> P"
  using story_invD [OF story_inv_of [OF assms(1), of sid]] assms(2) by (auto simp: tracked_story_of)

text \<open>Replacing the entry of a story, without letting go of a chunk nobody else holds.\<close>

lemma store_inv_put_story:
  assumes inv: "store_inv P s" and story: "story_inv P (heap s) sid story"
    and keeps: "\<And>p. p \<notin> P \<Longrightarrow> tracked s sid p \<noteq> None \<Longrightarrow> map_of (chunks story) p \<noteq> None"
  shows "store_inv P (put_story sid story s)"
proof -
  have ok: "omap_ok (storyRetention s)" using inv by (simp add: store_inv_def)
  have all: "story_inv P (heap s) sid' story'" if "map_of (omap_put sid story (storyRetention s)) sid' = Some story'" for sid' story'
    using that inv story by (auto simp: omap_simps store_inv_def split: if_splits)
  have live: "p \<in> P \<or> tracked (put_story sid story s) (chunkStoryId c) p \<noteq> None" if "heap s p = Some c" for p c
  proof -
    have "p \<in> P \<or> tracked s (chunkStoryId c) p \<noteq> None" using inv that by (auto simp: store_inv_def)
    then show ?thesis using keeps [of p] by auto
  qed
  show ?thesis
    unfolding store_inv_def using inv ok all live by (auto simp: store_inv_def)
qed

text \<open>Releasing a chunk that is not indexed and not in the pool, together with its entry.\<close>

lemma store_inv_free:
  assumes inv: "store_inv P s" and st: "map_of (storyRetention s) sid = Some story" "map_of (chunks story) p = Some st"
    and idle: "\<not> in_queue st" "entries p (index story) = 0"
    and s': "heap s' = (heap s)(p := None)"
      "storyRetention s' = omap_put sid (story\<lparr>chunks := omap_erase p (chunks story)\<rparr>) (storyRetention s)"
  shows "store_inv P s'"
proof -
  have sinv: "story_inv P (heap s) sid story" using inv st(1) by (simp add: store_inv_def)
  obtain c where c: "heap s p = Some c" "chunkStoryId c = sid" using story_invD(1) [OF sinv st(2)] by blast
  have nP: "p \<notin> P" using story_invD(2) [OF sinv st(2)] idle(1) by simp
  have nidx: "p \<notin> snd ` set (index story)" using idle(2) by (force simp: entries_def filter_empty_conv)
  have this_story: "story_inv P (heap s') sid (story\<lparr>chunks := omap_erase p (chunks story)\<rparr>)"
  proof (rule story_invI)
    show "(\<exists>c. heap s' q = Some c \<and> chunkStoryId c = sid) \<and> (in_queue qst \<longleftrightarrow> q \<in> P) \<and>
        entries q (index (story\<lparr>chunks := omap_erase p (chunks story)\<rparr>)) \<le> indexed_count qst"
      if "map_of (chunks (story\<lparr>chunks := omap_erase p (chunks story)\<rparr>)) q = Some qst" for q qst
      using that story_invD [OF sinv, of q qst] by (auto simp: omap_simps s'(1) split: if_splits)
    show "map_of (chunks (story\<lparr>chunks := omap_erase p (chunks story)\<rparr>)) q \<noteq> None \<and>
        (\<exists>c. heap s' q = Some c \<and> map_of (logEvents c) k \<noteq> None)"
      if mem: "(k, q) \<in> set (index (story\<lparr>chunks := omap_erase p (chunks story)\<rparr>))" for k q
    proof -
      have "q \<noteq> p" using mem nidx by force
      then show ?thesis using story_inv_index [OF sinv, of k q] mem by (simp add: omap_simps s'(1))
    qed
  qed (use story_inv_ok [OF sinv] in auto)
  have other: "story_inv P (heap s') sid' story'" if "sid' \<noteq> sid" "map_of (storyRetention s) sid' = Some story'" for sid' story'
  proof -
    have i: "story_inv P (heap s) sid' story'" using inv that(2) by (simp add: store_inv_def)
    have "map_of (chunks story') p = None" using story_invD(1) [OF i, of p] that(1) c by (cases "map_of (chunks story') p") auto
    then show ?thesis by (intro story_inv_heap [OF i]) (auto simp: s'(1))
  qed
  have lookup: "map_of (storyRetention s') = (map_of (storyRetention s))(sid \<mapsto> story\<lparr>chunks := omap_erase p (chunks story)\<rparr>)"
    by (simp add: s'(2) omap_simps)
  have all: "story_inv P (heap s') sid' story'" if "map_of (storyRetention s') sid' = Some story'" for sid' story'
    using that this_story other unfolding lookup by (cases "sid' = sid") auto
  have live: "q \<in> P \<or> tracked s' (chunkStoryId d) q \<noteq> None" if "heap s' q = Some d" for q d
  proof -
    have q: "q \<noteq> p" "heap s q = Some d" using that by (auto simp: s'(1) split: if_splits)
    then have "q \<in> P \<or> tracked s (chunkStoryId d) q \<noteq> None" using inv by (auto simp: store_inv_def)
    then show ?thesis using q(1) st(1) by (auto simp: tracked_def lookup omap_simps split: if_splits)
  qed
  show ?thesis
    by (rule store_invI) (use store_invD [OF inv] all live nP in \<open>auto simp: s'\<close>)
qed

text \<open>Parts of a chunk's state that looking for a chunk to free does not change.\<close>

definition same_delivery :: "ChunkState \<Rightarrow> ChunkState \<Rightarrow> bool" where
  "same_delivery st st' \<longleftrightarrow>
     in_queue st' = in_queue st \<and> shipped st' = shipped st \<and>
     receipt_instance st' = receipt_instance st \<and> chunk_receipt st' = chunk_receipt st"

definition same_view :: "StoryRetention \<Rightarrow> StoryRetention \<Rightarrow> bool" where
  "same_view story story' \<longleftrightarrow> known_w story' = known_w story \<and> report_instance story' = report_instance story \<and>
     highest_receipt story' = highest_receipt story \<and> pending_receipts story' = pending_receipts story"

lemma same_delivery_confirmed: "same_delivery st st' \<Longrightarrow> confirmedWritten story c st' = confirmedWritten story c st"
  by (simp add: same_delivery_def confirmedWritten_def receiptSettled_def)

lemma visibleInArchive_same:
  "visibleInArchive delay story st now = (v, st') \<Longrightarrow> same_delivery st st' \<and> indexed_count st' = indexed_count st"
  by (auto simp: visibleInArchive_def same_delivery_def Let_def split: if_splits)

lemma visibleInArchive_True: "visibleInArchive delay story st now = (True, st') \<Longrightarrow> shipped st \<and> receiptSettled story st"
  by (auto simp: visibleInArchive_def Let_def split: if_splits)

text \<open>The two outcomes of the free condition.\<close>

lemma maybeFreeChunk_cases:
  assumes story: "map_of (storyRetention s) sid = Some story" and st: "map_of (chunks story) p = Some st"
    and chunk: "heap s p = Some c"
  obtains
    (keep) s' st' where "maybeFreeChunk now sid p s = Some s'" "same_delivery st st'"
      "indexed_count st' = indexed_count st" "heap s' = heap s"
      "storyRetention s' = omap_put sid (story\<lparr>chunks := omap_put p st' (chunks story)\<rparr>) (storyRetention s)"
      "tailCapacity s' = tailCapacity s"
  | (freed) s' where "maybeFreeChunk now sid p s = Some s'" "\<not> in_queue st" "indexed_count st = 0"
      "confirmedWritten story c st" "heap s' = (heap s)(p := None)"
      "storyRetention s' = omap_put sid (story\<lparr>chunks := omap_erase p (chunks story)\<rparr>) (storyRetention s)"
      "tailCapacity s' = tailCapacity s"
proof -
  obtain v st1 where v: "visibleInArchive (archiveVisibilityDelay s) story st now = (v, st1)" by fastforce
  define newly where "newly \<longleftrightarrow> \<not> wal_released st1 \<and> confirmedWritten story c st1"
  define st2 where "st2 = (if newly then st1\<lparr>wal_released := True\<rparr> else st1)"
  define s1 where "s1 = (if newly then tell_wal (ChunkWritten (chunkStoryId c) c) (forgetUnconfirmed st2 s) else s)"
  define s3 where "s3 = (if \<not> wal_released st2 then forgetUnconfirmed st2 (forgetRetained st2 s1) else forgetRetained st2 s1)"
  have run: "maybeFreeChunk now sid p s =
      (if \<not> v \<or> in_queue st2 \<or> indexed_count st2 \<noteq> 0 \<or> known_w story < endTime c
       then Some (put_story sid (story\<lparr>chunks := omap_put p st2 (chunks story)\<rparr>) s1)
       else delete_chunk p (put_story sid (story\<lparr>chunks := omap_erase p (chunks story)\<rparr>) s3))"
    by (simp add: maybeFreeChunk_def story st chunk v Let_def newly_def st2_def s1_def s3_def)
  have same: "same_delivery st st2" and idx: "indexed_count st2 = indexed_count st"
    using visibleInArchive_same [OF v] by (simp_all add: st2_def same_delivery_def)
  have frame: "heap s1 = heap s" "storyRetention s1 = storyRetention s" "tailCapacity s1 = tailCapacity s"
      "heap s3 = heap s" "storyRetention s3 = storyRetention s" "tailCapacity s3 = tailCapacity s"
    by (simp_all add: s1_def s3_def)
  show ?thesis
  proof (cases "\<not> v \<or> in_queue st2 \<or> indexed_count st2 \<noteq> 0 \<or> known_w story < endTime c")
    case True
    then have "maybeFreeChunk now sid p s = Some (put_story sid (story\<lparr>chunks := omap_put p st2 (chunks story)\<rparr>) s1)"
      using run by simp
    from keep [OF this same idx] frame show ?thesis by simp
  next
    case False
    then have conf: "confirmedWritten story c st"
      using visibleInArchive_True v by (simp add: confirmedWritten_def not_less)
    have fr: "maybeFreeChunk now sid p s =
        Some (put_story sid (story\<lparr>chunks := omap_erase p (chunks story)\<rparr>) s3\<lparr>heap := (heap s)(p := None)\<rparr>)"
      using run False frame chunk by (simp add: delete_chunk_def)
    have "\<not> in_queue st" "indexed_count st = 0" using False same idx by (simp_all add: same_delivery_def)
    from freed [OF fr this conf] frame show ?thesis by simp
  qed
qed

lemma story_inv_put_state:
  assumes "story_inv P h sid story" "map_of (chunks story) p = Some st"
    and "in_queue st' = in_queue st" "indexed_count st \<le> indexed_count st'"
  shows "story_inv P h sid (story\<lparr>chunks := omap_put p st' (chunks story)\<rparr>)"
proof (rule story_invI)
  show "(\<exists>c. h q = Some c \<and> chunkStoryId c = sid) \<and> (in_queue qst \<longleftrightarrow> q \<in> P) \<and>
      entries q (index (story\<lparr>chunks := omap_put p st' (chunks story)\<rparr>)) \<le> indexed_count qst"
    if "map_of (chunks (story\<lparr>chunks := omap_put p st' (chunks story)\<rparr>)) q = Some qst" for q qst
    using that story_invD [OF assms(1), of q] assms(2-4) by (auto simp: omap_simps split: if_splits)
  show "map_of (chunks (story\<lparr>chunks := omap_put p st' (chunks story)\<rparr>)) q \<noteq> None \<and>
      (\<exists>c. h q = Some c \<and> map_of (logEvents c) k \<noteq> None)"
    if "(k, q) \<in> set (index (story\<lparr>chunks := omap_put p st' (chunks story)\<rparr>))" for k q
    using that story_inv_index [OF assms(1), of k q] by (auto simp: omap_simps)
qed (use story_inv_ok [OF assms(1)] in auto)

text \<open>
  What an operation on the store may do: keep the invariant, keep the stories, and delete a chunk
  only when the grapher has confirmed it written.
\<close>

definition frees_confirmed :: "ptr set \<Rightarrow> StoryId \<Rightarrow> KeeperChunkRetentionStore \<Rightarrow> KeeperChunkRetentionStore \<Rightarrow> bool" where
  "frees_confirmed P sid s s' \<longleftrightarrow>
     store_inv P s' \<and> tailCapacity s' = tailCapacity s \<and>
     (\<forall>sid'. sid' \<noteq> sid \<longrightarrow> map_of (storyRetention s') sid' = map_of (storyRetention s) sid') \<and>
     (\<forall>story. map_of (storyRetention s) sid = Some story \<longrightarrow>
        (\<exists>story'. map_of (storyRetention s') sid = Some story' \<and> same_view story story')) \<and>
     (\<forall>p c. heap s p = Some c \<longrightarrow> heap s' p = Some c \<or>
        (heap s' p = None \<and>
         (\<exists>st. tracked s sid p = Some st \<and> \<not> in_queue st \<and> confirmedWritten (story_of sid s) c st))) \<and>
     (\<forall>p. heap s p = None \<longrightarrow> heap s' p = None) \<and>
     (\<forall>p st'. tracked s' sid p = Some st' \<longrightarrow> (\<exists>st. tracked s sid p = Some st \<and> same_delivery st st')) \<and>
     (\<forall>p. tracked s sid p \<noteq> None \<longrightarrow> heap s' p \<noteq> None \<longrightarrow> tracked s' sid p \<noteq> None)"

lemma maybeFreeChunk_frees:
  assumes inv: "store_inv P s" and tr: "tracked s sid p = Some st"
  shows "\<exists>s'. maybeFreeChunk now sid p s = Some s' \<and> frees_confirmed P sid s s' \<and>
    (\<forall>q. q \<noteq> p \<longrightarrow> tracked s' sid q = tracked s sid q)"
proof -
  obtain story where story: "map_of (storyRetention s) sid = Some story" "map_of (chunks story) p = Some st"
    using tr by (auto simp: tracked_def bind_eq_Some_conv)
  have sinv: "story_inv P (heap s) sid story" using inv story(1) by (simp add: store_inv_def)
  obtain c where c: "heap s p = Some c" "chunkStoryId c = sid" using story_invD(1) [OF sinv story(2)] by blast
  have so: "story_of sid s = story" using story(1) by (simp add: story_of_def)
  have tr': "tracked s sid q = map_of (chunks story) q" for q using story(1) by (simp add: tracked_def)
  show ?thesis
  proof (rule maybeFreeChunk_cases [OF story c(1), of now])
    fix s' st'
    assume a: "maybeFreeChunk now sid p s = Some s'" "same_delivery st st'"
      and ic: "indexed_count st' = indexed_count st"
      and b: "heap s' = heap s"
      "storyRetention s' = omap_put sid (story\<lparr>chunks := omap_put p st' (chunks story)\<rparr>) (storyRetention s)"
      "tailCapacity s' = tailCapacity s"
    have "store_inv P (put_story sid (story\<lparr>chunks := omap_put p st' (chunks story)\<rparr>) s)"
      using a(2) ic by (intro store_inv_put_story [OF inv] story_inv_put_state [OF sinv story(2)])
        (auto simp: same_delivery_def omap_simps tr')
    then have "store_inv P s'"
      using b store_inv_cong [of s' "put_story sid (story\<lparr>chunks := omap_put p st' (chunks story)\<rparr>) s" P] by simp
    moreover have "tracked s' sid q = (if q = p then Some st' else tracked s sid q)" for q
      by (simp add: tracked_def b(2) story(1) omap_simps)
    moreover have "same_delivery x x" for x by (simp add: same_delivery_def)
    ultimately show ?thesis
      using a b tr by (auto simp: frees_confirmed_def omap_simps story(1) same_view_def)
  next
    fix s'
    assume a: "maybeFreeChunk now sid p s = Some s'" "\<not> in_queue st" "indexed_count st = 0"
      "confirmedWritten story c st" "heap s' = (heap s)(p := None)"
      "storyRetention s' = omap_put sid (story\<lparr>chunks := omap_erase p (chunks story)\<rparr>) (storyRetention s)"
      "tailCapacity s' = tailCapacity s"
    have "entries p (index story) = 0" using story_invD(3) [OF sinv story(2)] a(3) by simp
    then have "store_inv P s'" by (rule store_inv_free [OF inv story a(2) _ a(5,6)])
    moreover have "tracked s' sid q = (if q = p then None else tracked s sid q)" for q
      by (simp add: tracked_def a(6) story(1) omap_simps)
    moreover have "same_delivery x x" for x by (simp add: same_delivery_def)
    ultimately show ?thesis
      using a tr c so by (auto simp: frees_confirmed_def omap_simps story(1) same_view_def)
  qed
qed

lemma same_delivery_refl [simp]: "same_delivery st st"
  by (simp add: same_delivery_def)

lemma same_delivery_trans: "same_delivery a b \<Longrightarrow> same_delivery b c \<Longrightarrow> same_delivery a c"
  by (simp add: same_delivery_def)

lemma frees_confirmed_refl: "store_inv P s \<Longrightarrow> frees_confirmed P sid s s"
  unfolding frees_confirmed_def by (auto simp: same_view_def)

lemma frees_confirmedD:
  assumes "frees_confirmed P sid s s'"
  shows "store_inv P s'" "tailCapacity s' = tailCapacity s"
    "sid' \<noteq> sid \<Longrightarrow> map_of (storyRetention s') sid' = map_of (storyRetention s) sid'"
    "map_of (storyRetention s) sid = Some story \<Longrightarrow> \<exists>story'. map_of (storyRetention s') sid = Some story' \<and> same_view story story'"
    "heap s p = Some c \<Longrightarrow> heap s' p = Some c \<or> (heap s' p = None \<and>
       (\<exists>st. tracked s sid p = Some st \<and> \<not> in_queue st \<and> confirmedWritten (story_of sid s) c st))"
    "heap s p = None \<Longrightarrow> heap s' p = None"
    "tracked s' sid p = Some st' \<Longrightarrow> \<exists>st. tracked s sid p = Some st \<and> same_delivery st st'"
    "tracked s sid p \<noteq> None \<Longrightarrow> heap s' p \<noteq> None \<Longrightarrow> tracked s' sid p \<noteq> None"
  using assms unfolding frees_confirmed_def by blast+

lemma frees_confirmed_view:
  assumes "frees_confirmed P sid s s'" "map_of (storyRetention s) sid \<noteq> None"
  shows "confirmedWritten (story_of sid s') c st = confirmedWritten (story_of sid s) c st"
proof -
  obtain story where story: "map_of (storyRetention s) sid = Some story" using assms(2) by blast
  then obtain story' where "map_of (storyRetention s') sid = Some story'" "same_view story story'"
    using frees_confirmedD(4) [OF assms(1)] by blast
  then show ?thesis using story by (simp add: story_of_def confirmedWritten_def receiptSettled_def same_view_def)
qed

lemma tracked_story: "tracked s sid p = Some st \<Longrightarrow> map_of (storyRetention s) sid \<noteq> None"
  by (auto simp: tracked_def bind_eq_Some_conv)

lemma frees_confirmed_trans:
  assumes a: "frees_confirmed P sid s s1" and b: "frees_confirmed P sid s1 s2"
  shows "frees_confirmed P sid s s2"
  unfolding frees_confirmed_def
proof (intro conjI allI impI)
  show "store_inv P s2" "tailCapacity s2 = tailCapacity s"
    using frees_confirmedD(1,2) [OF a] frees_confirmedD(1,2) [OF b] by simp_all
  show "map_of (storyRetention s2) sid' = map_of (storyRetention s) sid'" if "sid' \<noteq> sid" for sid'
    using frees_confirmedD(3) [OF a that] frees_confirmedD(3) [OF b that] by simp
  show "\<exists>story'. map_of (storyRetention s2) sid = Some story' \<and> same_view story story'"
    if "map_of (storyRetention s) sid = Some story" for story
    using frees_confirmedD(4) [OF a that] frees_confirmedD(4) [OF b] by (fastforce simp: same_view_def)
  show "heap s2 p = None" if "heap s p = None" for p
    using frees_confirmedD(6) [OF a that] frees_confirmedD(6) [OF b] by simp
  show "\<exists>st. tracked s sid p = Some st \<and> same_delivery st st'" if "tracked s2 sid p = Some st'" for p st'
    using frees_confirmedD(7) [OF b that] frees_confirmedD(7) [OF a] same_delivery_trans by blast
  show "tracked s2 sid p \<noteq> None" if "tracked s sid p \<noteq> None" "heap s2 p \<noteq> None" for p
    using frees_confirmedD(8) [OF a that(1)] frees_confirmedD(8) [OF b, of p] frees_confirmedD(6) [OF b, of p] that(2) by blast
  show "heap s2 p = Some c \<or> (heap s2 p = None \<and>
      (\<exists>st. tracked s sid p = Some st \<and> \<not> in_queue st \<and> confirmedWritten (story_of sid s) c st))"
    if h: "heap s p = Some c" for p c
  proof (cases "heap s1 p = Some c")
    case True
    show ?thesis
    proof (cases "heap s2 p = Some c")
      case False
      then obtain st1 where st1: "heap s2 p = None" "tracked s1 sid p = Some st1" "\<not> in_queue st1"
          "confirmedWritten (story_of sid s1) c st1"
        using frees_confirmedD(5) [OF b True] by blast
      obtain st where st: "tracked s sid p = Some st" "same_delivery st st1" using frees_confirmedD(7) [OF a st1(2)] by blast
      have "confirmedWritten (story_of sid s) c st"
        using st1(4) frees_confirmed_view [OF a tracked_story [OF st(1)]] same_delivery_confirmed [OF st(2)] by simp
      then show ?thesis using st st1 by (auto simp: same_delivery_def)
    qed simp
  next
    case False
    then show ?thesis using frees_confirmedD(5) [OF a h] frees_confirmedD(6) [OF b, of p] by auto
  qed
qed

lemma free_loop_frees:
  assumes "store_inv P s" "distinct ps" "\<forall>p\<in>set ps. tracked s sid p \<noteq> None"
  shows "\<exists>s'. free_loop now sid ps s = Some s' \<and> frees_confirmed P sid s s'"
  using assms
proof (induction ps arbitrary: s)
  case (Cons p ps)
  obtain s1 where s1: "maybeFreeChunk now sid p s = Some s1" "frees_confirmed P sid s s1"
      "\<forall>q. q \<noteq> p \<longrightarrow> tracked s1 sid q = tracked s sid q"
    using Cons.prems(3) maybeFreeChunk_frees [OF Cons.prems(1), of sid p] by fastforce
  have "\<forall>q\<in>set ps. tracked s1 sid q \<noteq> None" using Cons.prems(2,3) s1(3) by auto
  then obtain s2 where "free_loop now sid ps s1 = Some s2" "frees_confirmed P sid s1 s2"
    using Cons.IH [OF frees_confirmedD(1) [OF s1(2)]] Cons.prems(2) by auto
  then show ?case using s1 frees_confirmed_trans by auto
qed (simp add: frees_confirmed_refl)

lemma story_ptrs_tracked:
  assumes "store_inv P s"
  shows "distinct (story_ptrs sid s)" "\<forall>p\<in>set (story_ptrs sid s). tracked s sid p \<noteq> None"
proof -
  have "omap_ok (chunks (story_of sid s))" using story_inv_ok [OF story_inv_of [OF assms]] by blast
  then show "distinct (story_ptrs sid s)" by (simp add: story_ptrs_def omap_ok_distinct)
  show "\<forall>p\<in>set (story_ptrs sid s). tracked s sid p \<noteq> None"
    by (simp add: story_ptrs_def tracked_story_of map_of_eq_None_iff)
qed

text \<open>Replacing the entry of a story by one with the same chunks and the same view.\<close>

definition same_chunks :: "StoryRetention \<Rightarrow> StoryRetention \<Rightarrow> bool" where
  "same_chunks story story' \<longleftrightarrow>
     (\<forall>p. rel_option same_delivery (map_of (chunks story) p) (map_of (chunks story') p))"

lemma same_chunks_Some:
  "same_chunks story story' \<Longrightarrow> map_of (chunks story') p = Some st' \<Longrightarrow> \<exists>st. map_of (chunks story) p = Some st \<and> same_delivery st st'"
  "same_chunks story story' \<Longrightarrow> map_of (chunks story) p = Some st \<Longrightarrow> \<exists>st'. map_of (chunks story') p = Some st' \<and> same_delivery st st'"
  by (metis same_chunks_def option_rel_Some2, metis same_chunks_def option_rel_Some1)

lemma frees_put_story:
  assumes inv: "store_inv P s" and story: "story_inv P (heap s) sid story'"
    and same: "same_view (story_of sid s) story'" "same_chunks (story_of sid s) story'"
  shows "frees_confirmed P sid s (put_story sid story' s)"
proof -
  have iff: "map_of (chunks story') p = None \<longleftrightarrow> tracked s sid p = None" for p
    using same_chunks_Some [OF same(2), of p] by (cases "map_of (chunks story') p"; cases "tracked s sid p") (auto simp: tracked_story_of)
  have "store_inv P (put_story sid story' s)" by (rule store_inv_put_story [OF inv story]) (simp add: iff)
  moreover have "same_view story story'" if "map_of (storyRetention s) sid = Some story" for story
    using that same(1) by (simp add: story_of_def)
  ultimately show ?thesis
    unfolding frees_confirmed_def using same_chunks_Some(1) [OF same(2)] iff
    by (auto simp: omap_simps tracked_story_of [of s])
qed

lemma put_state_same:
  assumes "map_of (chunks story) p = Some st" "same_delivery st st'"
  shows "same_chunks story (story\<lparr>chunks := omap_put p st' (chunks story)\<rparr>)"
  using assms by (auto simp: same_chunks_def omap_simps rel_option_iff split: option.split)

lemma same_chunks_refl [simp]: "same_chunks story (story\<lparr>index := i\<rparr>)" "same_chunks story story"
  by (simp_all add: same_chunks_def option.rel_refl)

lemma same_view_refl [simp]: "same_view story (story\<lparr>index := i\<rparr>)" "same_view story (story\<lparr>chunks := c\<rparr>)"
  "same_view story (story\<lparr>index := i, chunks := c\<rparr>)" "same_view story story"
  by (simp_all add: same_view_def)

text \<open>Entries of the index leave it.\<close>

lemma story_inv_index_subset:
  assumes "story_inv P h sid story" "omap_ok i" "set i \<subseteq> set (index story)" "\<And>p. entries p i \<le> entries p (index story)"
  shows "story_inv P h sid (story\<lparr>index := i\<rparr>)"
proof (rule story_invI)
  show "(\<exists>c. h p = Some c \<and> chunkStoryId c = sid) \<and> (in_queue st \<longleftrightarrow> p \<in> P) \<and>
      entries p (index (story\<lparr>index := i\<rparr>)) \<le> indexed_count st"
    if "map_of (chunks (story\<lparr>index := i\<rparr>)) p = Some st" for p st
    using that story_invD [OF assms(1), of p st] assms(4) [of p] by simp
  show "map_of (chunks (story\<lparr>index := i\<rparr>)) p \<noteq> None \<and> (\<exists>c. h p = Some c \<and> map_of (logEvents c) k \<noteq> None)"
    if "(k, p) \<in> set (index (story\<lparr>index := i\<rparr>))" for k p
    using that story_inv_index [OF assms(1), of k p] assms(3) by auto
qed (use assms story_inv_ok in auto)

text \<open>Lowering the count of a chunk to the number of entries it has left.\<close>

lemma story_inv_lower_count:
  assumes "story_inv P h sid story" "map_of (chunks story) p = Some st"
    and "in_queue st' = in_queue st" "entries p (index story) \<le> indexed_count st'"
  shows "story_inv P h sid (story\<lparr>chunks := omap_put p st' (chunks story)\<rparr>)"
proof (rule story_invI)
  show "(\<exists>c. h q = Some c \<and> chunkStoryId c = sid) \<and> (in_queue qst \<longleftrightarrow> q \<in> P) \<and>
      entries q (index (story\<lparr>chunks := omap_put p st' (chunks story)\<rparr>)) \<le> indexed_count qst"
    if "map_of (chunks (story\<lparr>chunks := omap_put p st' (chunks story)\<rparr>)) q = Some qst" for q qst
    using that story_invD [OF assms(1), of q] assms(2-4) by (auto simp: omap_simps split: if_splits)
  show "map_of (chunks (story\<lparr>chunks := omap_put p st' (chunks story)\<rparr>)) q \<noteq> None \<and>
      (\<exists>c. h q = Some c \<and> map_of (logEvents c) k \<noteq> None)"
    if "(k, q) \<in> set (index (story\<lparr>chunks := omap_put p st' (chunks story)\<rparr>))" for k q
    using that story_inv_index [OF assms(1), of k q] by (auto simp: omap_simps)
qed (use story_inv_ok [OF assms(1)] in auto)

lemma evict_oldest_frees:
  assumes inv: "store_inv P s" and ne: "index (story_of sid s) \<noteq> []"
  shows "\<exists>s'. evict_oldest now sid s = Some s' \<and> frees_confirmed P sid s s'"
proof -
  define story where "story = story_of sid s"
  obtain k p rest where idx: "index story = (k, p) # rest" using ne by (cases "index story") (auto simp: story_def)
  have sinv: "story_inv P (heap s) sid story" unfolding story_def by (rule story_inv_of [OF inv])
  obtain st where st: "map_of (chunks story) p = Some st" using story_inv_index(1) [OF sinv, of k p] idx by auto
  have cnt: "Suc (entries p rest) \<le> indexed_count st" using story_invD(3) [OF sinv st] by (simp add: idx entries_def)
  define story1 where "story1 = story\<lparr>index := rest\<rparr>"
  define st1 where "st1 = st\<lparr>indexed_count := indexed_count st - 1\<rparr>"
  define story2 where "story2 = story1\<lparr>chunks := omap_put p st1 (chunks story1)\<rparr>"
  have "story_inv P (heap s) sid story1"
    unfolding story1_def using story_inv_ok [OF sinv]
    by (intro story_inv_index_subset [OF sinv]) (auto simp: idx entries_def omap_ok_Cons)
  then have inv2: "story_inv P (heap s) sid story2"
    unfolding story2_def using st cnt by (intro story_inv_lower_count) (auto simp: story1_def st1_def)
  have "same_chunks story story2"
    using put_state_same [of story1 p st st1] st by (simp add: story2_def story1_def st1_def same_delivery_def same_chunks_def)
  then have fr: "frees_confirmed P sid s (put_story sid story2 s)"
    by (intro frees_put_story [OF inv inv2]) (simp_all add: story2_def story1_def story_def [symmetric])
  have run: "evict_oldest now sid s =
      (if indexed_count st1 = 0 then maybeFreeChunk now sid p (put_story sid story2 s) else Some (put_story sid story2 s))"
    unfolding evict_oldest_def story_def [symmetric] Let_def
    using cnt by (simp add: idx st story2_def story1_def st1_def)
  have tr: "tracked (put_story sid story2 s) sid p = Some st1" by (simp add: story2_def omap_simps)
  obtain s' where s': "maybeFreeChunk now sid p (put_story sid story2 s) = Some s'"
      "frees_confirmed P sid (put_story sid story2 s) s'"
    using maybeFreeChunk_frees [OF frees_confirmedD(1) [OF fr] tr] by blast
  then show ?thesis using fr frees_confirmed_trans [OF fr s'(2)] run by auto
qed

lemma evict_loop_frees:
  assumes "store_inv P s"
  shows "\<exists>s'. evict_loop n now sid s = Some s' \<and> frees_confirmed P sid s s'"
  using assms
proof (induction n arbitrary: s)
  case (Suc n)
  show ?case
  proof (cases "tailCapacity s < length (index (story_of sid s))")
    case True
    then obtain s1 where s1: "evict_oldest now sid s = Some s1" "frees_confirmed P sid s s1"
      using evict_oldest_frees [OF Suc.prems, of sid now] by fastforce
    then obtain s2 where "evict_loop n now sid s1 = Some s2" "frees_confirmed P sid s1 s2"
      using Suc.IH [OF frees_confirmedD(1)] by blast
    then show ?thesis using True s1 frees_confirmed_trans [OF s1(2)] by auto
  qed (use frees_confirmed_refl [OF Suc.prems] in simp)
qed (simp add: frees_confirmed_refl)

lemma maybeFreeChunk_index:
  assumes "maybeFreeChunk now sid p s = Some s'"
  shows "index (story_of sid s') = index (story_of sid s)"
proof -
  obtain story st c where a: "map_of (storyRetention s) sid = Some story" "map_of (chunks story) p = Some st" "heap s p = Some c"
    using assms by (cases "map_of (storyRetention s) sid"; cases "heap s p")
      (auto simp: maybeFreeChunk_def bind_eq_Some_conv)
  show ?thesis
    by (rule maybeFreeChunk_cases [OF a, of now]) (use assms a(1) in \<open>auto simp: story_of_def omap_simps\<close>)
qed

lemma release_loop_frees:
  assumes "store_inv P s" "distinct ps" "\<forall>p\<in>set ps. tracked s sid p \<noteq> None" "index (story_of sid s) = []"
  shows "\<exists>s'. release_loop now sid ps s = Some s' \<and> frees_confirmed P sid s s'"
  using assms
proof (induction ps arbitrary: s)
  case (Cons p ps)
  define story where "story = story_of sid s"
  obtain st where st: "tracked s sid p = Some st" using Cons.prems(3) by auto
  define st1 where "st1 = st\<lparr>indexed_count := 0\<rparr>"
  have m: "map_of (chunks story) p = Some st" using st by (simp add: tracked_story_of story_def)
  have sinv: "story_inv P (heap s) sid story" unfolding story_def by (rule story_inv_of [OF Cons.prems(1)])
  have inv1: "story_inv P (heap s) sid (story\<lparr>chunks := omap_put p st1 (chunks story)\<rparr>)"
    using Cons.prems(4) by (intro story_inv_lower_count [OF sinv m]) (simp_all add: st1_def story_def entries_def)
  have same: "same_chunks story (story\<lparr>chunks := omap_put p st1 (chunks story)\<rparr>)"
    by (rule put_state_same [OF m]) (simp add: st1_def same_delivery_def)
  have ps: "put_state sid p st1 s = put_story sid (story\<lparr>chunks := omap_put p st1 (chunks story)\<rparr>) s"
    by (simp add: put_state_def story_def Let_def)
  have fr: "frees_confirmed P sid s (put_state sid p st1 s)"
    unfolding ps using same by (intro frees_put_story [OF Cons.prems(1) inv1]) (simp_all add: story_def [symmetric])
  have tr1: "tracked (put_state sid p st1 s) sid q = (if q = p then Some st1 else tracked s sid q)" for q
    by (simp add: ps omap_simps tracked_story_of [of s] story_def)
  obtain s1 where s1: "maybeFreeChunk now sid p (put_state sid p st1 s) = Some s1"
      "frees_confirmed P sid (put_state sid p st1 s) s1"
      "\<forall>q. q \<noteq> p \<longrightarrow> tracked s1 sid q = tracked (put_state sid p st1 s) sid q"
    using maybeFreeChunk_frees [OF frees_confirmedD(1) [OF fr], of sid p st1 now] tr1 by auto
  have idx: "index (story_of sid s1) = []"
    using maybeFreeChunk_index [OF s1(1)] Cons.prems(4) by (simp add: ps story_def)
  have "tracked s1 sid q = tracked s sid q" if "q \<in> set ps" for q
    using that Cons.prems(2) s1(3) tr1 [of q] by auto
  then have "\<forall>q\<in>set ps. tracked s1 sid q \<noteq> None" using Cons.prems(3) by simp
  then obtain s2 where "release_loop now sid ps s1 = Some s2" "frees_confirmed P sid s1 s2"
    using Cons.IH [OF frees_confirmedD(1) [OF s1(2)]] Cons.prems(2) idx by auto
  then show ?case using s1 st frees_confirmed_trans [OF frees_confirmed_trans [OF fr s1(2)]] by (auto simp: st1_def)
qed (simp add: frees_confirmed_refl)

lemma releaseStoryTail_frees:
  assumes inv: "store_inv P s"
  shows "\<exists>s'. releaseStoryTail now sid s = Some s' \<and> frees_confirmed P sid s s'"
proof (cases "map_of (storyRetention s) sid")
  case None
  then show ?thesis by (simp add: releaseStoryTail_def frees_confirmed_refl [OF inv])
next
  case (Some story)
  let ?s = "put_story sid (story\<lparr>index := []\<rparr>) s"
  have so: "story_of sid s = story" using Some by (simp add: story_of_def)
  have sinv: "story_inv P (heap s) sid story" using story_inv_of [OF inv, of sid] so by simp
  have "story_inv P (heap s) sid (story\<lparr>index := []\<rparr>)"
    by (rule story_inv_index_subset [OF sinv]) (auto simp: entries_def)
  then have fr: "frees_confirmed P sid s ?s"
    by (intro frees_put_story [OF inv]) (simp_all add: so)
  have ps: "map fst (chunks story) = story_ptrs sid ?s" by (simp add: story_ptrs_def)
  have "\<exists>s'. release_loop now sid (story_ptrs sid ?s) ?s = Some s' \<and> frees_confirmed P sid ?s s'"
    using story_ptrs_tracked [OF frees_confirmedD(1) [OF fr], of sid]
    by (intro release_loop_frees [OF frees_confirmedD(1) [OF fr]]) simp_all
  then show ?thesis using Some frees_confirmed_trans [OF fr] by (auto simp: releaseStoryTail_def ps)
qed

text \<open>A report that is not a drop: the view moves first, then confirmed chunks go.\<close>

definition report_view :: "StoryWatermarkReport \<Rightarrow> StoryRetention \<Rightarrow> StoryRetention" where
  "report_view report story =
     (let story1 = (if watermark report < known_w story then story else story\<lparr>known_w := watermark report\<rparr>)
      in if report_grapher_instance report \<noteq> 0 then mergeReceipts report story1 else story1)"

lemma report_view_chunks [simp]: "chunks (report_view report story) = chunks story" "index (report_view report story) = index story"
  by (simp_all add: report_view_def mergeReceipts_def Let_def)

lemma story_inv_view: "chunks story' = chunks story \<Longrightarrow> index story' = index story \<Longrightarrow> story_inv P h sid story' = story_inv P h sid story"
  by (simp add: story_inv_def)

lemma store_inv_view:
  assumes "store_inv P s" "chunks story' = chunks (story_of sid s)" "index story' = index (story_of sid s)"
  shows "store_inv P (put_story sid story' s)"
proof (rule store_inv_put_story [OF assms(1)])
  show "story_inv P (heap s) sid story'" using story_inv_of [OF assms(1), of sid] story_inv_view [OF assms(2,3)] by simp
qed (simp add: assms(2) tracked_story_of)

lemma applyReport_frees:
  assumes inv: "store_inv P s" and w: "watermark report \<noteq> kStoryDroppedWatermark"
    and s1_def: "s1 = put_story sid (report_view report (story_of sid s)) s"
  shows "\<exists>s'. applyReport now sid report s = Some s' \<and> frees_confirmed P sid s1 s'"
proof -
  have inv1: "store_inv P s1" unfolding s1_def by (rule store_inv_view [OF inv]) simp_all
  have "applyReport now sid report s = free_loop now sid (story_ptrs sid s1) s1"
    using w by (simp add: applyReport_def report_view_def s1_def Let_def)
  then show ?thesis using free_loop_frees [OF inv1 story_ptrs_tracked [OF inv1]] by simp
qed

text \<open>A destroyed story: its chunks go, except those another thread still holds.\<close>

lemma drop_chunks_spec:
  assumes "distinct (map fst cs)" "\<forall>(p, st)\<in>set cs. heap s p \<noteq> None"
  shows "\<exists>s'. drop_chunks cs s = Some s' \<and> storyRetention s' = storyRetention s \<and>
    heap s' = (\<lambda>p. if \<exists>st. (p, st) \<in> set cs \<and> \<not> in_queue st then None else heap s p)"
  using assms
proof (induction cs arbitrary: s)
  case (Cons x cs)
  obtain p st where x: "x = (p, st)" by fastforce
  let ?s = "let s1 = forgetRetained st s in if \<not> wal_released st then forgetUnconfirmed st s1 else s1"
  have fr: "heap ?s = heap s" "storyRetention ?s = storyRetention s" by (simp_all add: Let_def)
  show ?case
  proof (cases "in_queue st")
    case True
    then obtain s' where "drop_chunks cs ?s = Some s'" "storyRetention s' = storyRetention s"
        "heap s' = (\<lambda>p. if \<exists>st. (p, st) \<in> set cs \<and> \<not> in_queue st then None else heap s p)"
      using Cons.IH [of ?s, unfolded fr] Cons.prems by auto
    then show ?thesis using True by (auto simp: x Let_def fun_eq_iff)
  next
    case False
    define s1 where "s1 = ?s\<lparr>heap := (heap s)(p := None)\<rparr>"
    have del: "delete_chunk p ?s = Some s1" using Cons.prems(2) fr by (auto simp: delete_chunk_def s1_def x)
    have "\<forall>(q, st)\<in>set cs. heap s1 q \<noteq> None" using Cons.prems by (force simp: s1_def x)
    then obtain s' where "drop_chunks cs s1 = Some s'" "storyRetention s' = storyRetention s1"
        "heap s' = (\<lambda>p. if \<exists>st. (p, st) \<in> set cs \<and> \<not> in_queue st then None else heap s1 p)"
      using Cons.IH [of s1] Cons.prems(1) by auto
    then show ?thesis using False del fr by (auto simp: x Let_def fun_eq_iff s1_def)
  qed
qed simp

lemma keeper_dropStory_spec:
  assumes inv: "store_inv P s"
  shows "\<exists>s'. keeper_dropStory now sid s = Some s' \<and> store_inv P s' \<and>
    (\<forall>p c. heap s p = Some c \<longrightarrow> chunkStoryId c \<noteq> sid \<longrightarrow> heap s' p = Some c) \<and>
    (\<forall>p. heap s' p = heap s p \<or> heap s' p = None) \<and>
    (\<forall>sid'. map_of (storyRetention s') sid' = (if sid' = sid then None else map_of (storyRetention s) sid'))"
proof -
  define s1 where "s1 = tell_wal (StoryDropped sid) (s\<lparr>droppedStories := omap_put sid now (droppedStories s)\<rparr>)"
  have fr: "heap s1 = heap s" "storyRetention s1 = storyRetention s" by (simp_all add: s1_def)
  show ?thesis
  proof (cases "map_of (storyRetention s) sid")
    case None
    then have "keeper_dropStory now sid s = Some s1" by (simp add: keeper_dropStory_def s1_def)
    then show ?thesis using inv fr None store_inv_cong [of s1 s] by auto
  next
    case (Some story)
    have sinv: "story_inv P (heap s) sid story" by (rule store_invD(2) [OF inv Some])
    have ok: "omap_ok (chunks story)" using story_inv_ok [OF sinv] by blast
    have live: "\<forall>(p, st)\<in>set (chunks story). heap s1 p \<noteq> None"
      using story_invD(1) [OF sinv] map_of_omap_Some [OF ok] fr by force
    obtain s2 where s2: "drop_chunks (chunks story) s1 = Some s2" "storyRetention s2 = storyRetention s"
        "heap s2 = (\<lambda>p. if \<exists>st. (p, st) \<in> set (chunks story) \<and> \<not> in_queue st then None else heap s p)"
      using drop_chunks_spec [OF omap_ok_distinct [OF ok] live, unfolded fr] by auto
    define s' where "s' = s2\<lparr>storyRetention := omap_erase sid (storyRetention s2)\<rparr>"
    have run: "keeper_dropStory now sid s = Some s'"
      using Some s2(1) fr by (simp add: keeper_dropStory_def s1_def [symmetric] s'_def Let_def)
    have lookup: "map_of (storyRetention s') sid' = (if sid' = sid then None else map_of (storyRetention s) sid')" for sid'
      by (simp add: s'_def s2(2) omap_simps)
    have gone: "heap s' p = (if p \<notin> P \<and> map_of (chunks story) p \<noteq> None then None else heap s p)" for p
      using story_invD(2) [OF sinv, of p] map_of_omap_Some [OF ok, of p]
      by (auto simp: s'_def s2(3))
    have mine: "chunkStoryId c = sid" if "map_of (chunks story) p \<noteq> None" "heap s p = Some c" for p c
      using that story_invD(1) [OF sinv, of p] by auto
    have other: "story_inv P (heap s') sid' story'" if ne: "sid' \<noteq> sid" and st': "map_of (storyRetention s) sid' = Some story'" for sid' story'
    proof (rule story_inv_heap [OF store_invD(2) [OF inv st']])
      fix p assume "map_of (chunks story') p \<noteq> None"
      then obtain c where "heap s p = Some c" "chunkStoryId c = sid'"
        using story_invD(1) [OF store_invD(2) [OF inv st']] by blast
      then show "heap s' p = heap s p" using gone [of p] mine [of p c] ne by auto
    qed
    have "store_inv P s'"
    proof (rule store_invI)
      show "omap_ok (storyRetention s')" using store_invD(1) [OF inv] by (auto simp: s'_def s2(2))
      show "story_inv P (heap s') sid' story'" if "map_of (storyRetention s') sid' = Some story'" for sid' story'
        using that other by (auto simp: lookup split: if_splits)
      show "heap s' p \<noteq> None" if "p \<in> P" for p using store_invD(3) [OF inv that] that gone [of p] by simp
      show "heap s' 0 = None" using store_invD(4) [OF inv] gone [of 0] by simp
      show "p \<in> P \<or> tracked s' (chunkStoryId c) p \<noteq> None" if h: "heap s' p = Some c" for p c
      proof -
        have hs: "heap s p = Some c" "p \<in> P \<or> map_of (chunks story) p = None" using h gone [of p] by (auto split: if_splits)
        then have "p \<in> P \<or> tracked s (chunkStoryId c) p \<noteq> None" using store_invD(5) [OF inv] by blast
        then show ?thesis using hs(2) Some by (auto simp: tracked_def lookup split: if_splits)
      qed
    qed
    then show ?thesis using run gone mine lookup by (intro exI [of _ s']) auto
  qed
qed

text \<open>A chunk comes to life in the hands of a thread, and a chunk no story tracks is deleted by the thread that holds it.\<close>

lemma store_inv_alloc:
  assumes inv: "store_inv P s" and new: "heap s p = None" "p \<noteq> 0" and s': "heap s' = (heap s)(p \<mapsto> c)" "storyRetention s' = storyRetention s"
  shows "store_inv (insert p P) s' \<and> (\<forall>sid. tracked s' sid p = None)"
proof -
  have un: "map_of (chunks story) p = None" if "map_of (storyRetention s) sid = Some story" for sid story
    using story_invD(1) [OF store_invD(2) [OF inv that], of p] new(1) by (cases "map_of (chunks story) p") auto
  have nP: "p \<notin> P" using store_invD(3) [OF inv] new(1) by blast
  have "story_inv (insert p P) (heap s') sid story" if st: "map_of (storyRetention s) sid = Some story" for sid story
  proof -
    have i: "story_inv P (heap s') sid story"
      by (rule story_inv_heap [OF store_invD(2) [OF inv st]]) (use un [OF st] in \<open>auto simp: s'(1)\<close>)
    show ?thesis
      by (rule story_invI) (use story_inv_ok [OF i] story_invD [OF i] story_inv_index [OF i] un [OF st] in auto)
  qed
  then have "store_inv (insert p P) s'"
    using store_invD [OF inv] new by (intro store_invI) (auto simp: s' tracked_def split: if_splits)
  moreover have "tracked s' sid p = None" for sid
    using un by (cases "map_of (storyRetention s) sid") (auto simp: tracked_def s'(2))
  ultimately show ?thesis by blast
qed

lemma store_inv_delete:
  assumes inv: "store_inv P s" and un: "\<And>sid. tracked s sid p = None"
    and s': "heap s' = (heap s)(p := None)" "storyRetention s' = storyRetention s"
  shows "store_inv (P - {p}) s'"
proof (rule store_invI)
  show "story_inv (P - {p}) (heap s') sid story" if st: "map_of (storyRetention s') sid = Some story" for sid story
  proof -
    have st': "map_of (storyRetention s) sid = Some story" using st s'(2) by simp
    have unp: "map_of (chunks story) p = None" using un [of sid] st' by (simp add: tracked_def)
    have i: "story_inv P (heap s') sid story"
      by (rule story_inv_heap [OF store_invD(2) [OF inv st']]) (use unp in \<open>auto simp: s'(1)\<close>)
    show ?thesis
      by (rule story_invI) (use story_inv_ok [OF i] story_invD [OF i] story_inv_index [OF i] unp in auto)
  qed
  show "q \<in> P - {p} \<or> tracked s' (chunkStoryId c) q \<noteq> None" if "heap s' q = Some c" for q c
    using that store_invD(5) [OF inv, of q c] by (auto simp: s' tracked_def split: if_splits)
qed (use store_invD [OF inv] in \<open>auto simp: s'\<close>)

text \<open>A chunk leaves the pool: its callback clears the mark.\<close>

lemma store_inv_unqueue:
  assumes inv: "store_inv P s" and tr: "tracked s sid p = Some st"
    and st': "\<not> in_queue st'" "indexed_count st' = indexed_count st"
  shows "store_inv (P - {p}) (put_state sid p st' s)"
proof -
  define story where "story = story_of sid s"
  have m: "map_of (chunks story) p = Some st" using tr by (simp add: tracked_story_of story_def)
  have sinv: "story_inv P (heap s) sid story" unfolding story_def by (rule story_inv_of [OF inv])
  obtain c where c: "heap s p = Some c" "chunkStoryId c = sid" using story_invD(1) [OF sinv m] by blast
  let ?story = "story\<lparr>chunks := omap_put p st' (chunks story)\<rparr>"
  have ps: "put_state sid p st' s = put_story sid ?story s" by (simp add: put_state_def story_def Let_def)
  have this_story: "story_inv (P - {p}) (heap s) sid ?story"
  proof (rule story_invI)
    show "(\<exists>c. heap s q = Some c \<and> chunkStoryId c = sid) \<and> (in_queue qst \<longleftrightarrow> q \<in> P - {p}) \<and> entries q (index ?story) \<le> indexed_count qst"
      if "map_of (chunks ?story) q = Some qst" for q qst
      using that story_invD [OF sinv, of q] m st' by (auto simp: omap_simps split: if_splits)
    show "map_of (chunks ?story) q \<noteq> None \<and> (\<exists>c. heap s q = Some c \<and> map_of (logEvents c) k \<noteq> None)"
      if "(k, q) \<in> set (index ?story)" for k q
      using that story_inv_index [OF sinv, of k q] by (auto simp: omap_simps)
  qed (use story_inv_ok [OF sinv] in auto)
  have other: "story_inv (P - {p}) (heap s) sid' story'" if ne: "sid' \<noteq> sid" and sr: "map_of (storyRetention s) sid' = Some story'" for sid' story'
  proof -
    note i = store_invD(2) [OF inv sr]
    have "map_of (chunks story') p = None" using story_invD(1) [OF i, of p] c ne by (cases "map_of (chunks story') p") auto
    then show ?thesis by (intro story_invI) (use story_inv_ok [OF i] story_invD [OF i] story_inv_index [OF i] in auto)
  qed
  show ?thesis
    unfolding ps
  proof (rule store_invI)
    show "story_inv (P - {p}) (heap (put_story sid ?story s)) sid' story'"
      if "map_of (storyRetention (put_story sid ?story s)) sid' = Some story'" for sid' story'
      using that this_story other by (auto simp: omap_simps split: if_splits)
    show "q \<in> P - {p} \<or> tracked (put_story sid ?story s) (chunkStoryId d) q \<noteq> None"
      if "heap (put_story sid ?story s) q = Some d" for q d
      using that store_invD(5) [OF inv, of q d] c by (auto simp: omap_simps tracked_story_of [of s] story_def)
  qed (use store_invD [OF inv] in auto)
qed

text \<open>A callback of the drain thread: the pool loses the chunk, which is freed only when it is confirmed or untracked.\<close>

lemma callback_spec:
  assumes inv: "store_inv P s" and tr: "tracked s sid p = Some st"
    and st': "\<not> in_queue st'" "indexed_count st' = indexed_count st"
  shows "\<exists>s'. maybeFreeChunk now sid p (put_state sid p st' s) = Some s' \<and> store_inv (P - {p}) s' \<and>
    frees_confirmed (P - {p}) sid (put_state sid p st' s) s'"
proof -
  note inv1 = store_inv_unqueue [OF assms]
  have "tracked (put_state sid p st' s) sid p = Some st'" by (simp add: put_state_def Let_def omap_simps)
  then show ?thesis using maybeFreeChunk_frees [OF inv1, of sid p st' now] frees_confirmedD(1) by blast
qed

text \<open>Operations over every story.\<close>

definition same_ack :: "ChunkState \<Rightarrow> ChunkState \<Rightarrow> bool" where
  "same_ack st st' \<longleftrightarrow> shipped st' = shipped st \<and> receipt_instance st' = receipt_instance st \<and> chunk_receipt st' = chunk_receipt st"

definition same_views :: "KeeperChunkRetentionStore \<Rightarrow> KeeperChunkRetentionStore \<Rightarrow> bool" where
  "same_views s s' \<longleftrightarrow> (\<forall>sid story. map_of (storyRetention s) sid = Some story \<longrightarrow>
     (\<exists>story'. map_of (storyRetention s') sid = Some story' \<and> same_view story story'))"

text \<open>Every tracked chunk is kept as it is, or is gone because it is confirmed written.\<close>

definition retains :: "KeeperChunkRetentionStore \<Rightarrow> KeeperChunkRetentionStore \<Rightarrow> bool" where
  "retains s s' \<longleftrightarrow> (\<forall>sid p st c. tracked s sid p = Some st \<longrightarrow> heap s p = Some c \<longrightarrow>
     heap s' p = Some c \<and> (\<exists>st'. tracked s' sid p = Some st' \<and> same_ack st st') \<or>
     heap s' p = None \<and> confirmedWritten (story_of sid s') c st)"

lemma retainsD:
  assumes "retains s s'" "tracked s sid p = Some st" "heap s p = Some c"
  shows "heap s' p = Some c \<and> (\<exists>st'. tracked s' sid p = Some st' \<and> same_ack st st') \<or>
     heap s' p = None \<and> confirmedWritten (story_of sid s') c st"
  using assms by (simp add: retains_def)

lemma same_view_confirmed: "same_view story story' \<Longrightarrow> same_ack st st' \<Longrightarrow> confirmedWritten story' c st' = confirmedWritten story c st"
  by (simp add: same_view_def same_ack_def confirmedWritten_def receiptSettled_def)

lemma same_ack_refl [simp]: "same_ack st st"
  by (simp add: same_ack_def)

lemma retains_trans:
  assumes a: "retains s s1" and b: "retains s1 s2" "same_views s1 s2" "\<And>p. heap s1 p = None \<Longrightarrow> heap s2 p = None"
    and i: "store_inv P s"
  shows "retains s s2"
  unfolding retains_def
proof (intro allI impI)
  fix sid p st c
  assume t: "tracked s sid p = Some st" and h: "heap s p = Some c"
  consider (kept) st1 where "heap s1 p = Some c" "tracked s1 sid p = Some st1" "same_ack st st1"
    | (gone) "heap s1 p = None" "confirmedWritten (story_of sid s1) c st"
    using retainsD [OF a t h] by metis
  then show "heap s2 p = Some c \<and> (\<exists>st'. tracked s2 sid p = Some st' \<and> same_ack st st') \<or>
      heap s2 p = None \<and> confirmedWritten (story_of sid s2) c st"
  proof cases
    case kept
    have ack: "same_ack st st'" if "same_ack st1 st'" for st' using kept(3) that by (simp add: same_ack_def)
    have "confirmedWritten (story_of sid s2) c st = confirmedWritten (story_of sid s2) c st1"
      using kept(3) by (simp add: same_ack_def confirmedWritten_def receiptSettled_def)
    then show ?thesis using retainsD [OF b(1) kept(2,1)] ack by blast
  next
    case gone
    show ?thesis
    proof (cases "map_of (storyRetention s1) sid")
      case None
      then have "endTime c \<le> 0" using gone(2) by (simp add: confirmedWritten_def story_of_def new_StoryRetention_def)
      then have "endTime c = 0" by simp
      moreover have "shipped st" "chunk_receipt st = 0 \<or> receipt_instance st = 0 \<and> chunk_receipt st \<le> 0"
        using gone(2) None by (auto simp: confirmedWritten_def story_of_def new_StoryRetention_def receiptSettled_def)
      ultimately have "confirmedWritten (story_of sid s2) c st" by (auto simp: confirmedWritten_def receiptSettled_def)
      then show ?thesis using gone(1) b(3) by simp
    next
      case (Some story)
      then obtain story' where "map_of (storyRetention s2) sid = Some story'" "same_view story story'"
        using b(2) by (auto simp: same_views_def)
      then have "confirmedWritten (story_of sid s2) c st"
        using gone(2) Some same_view_confirmed [of story story' st st] by (simp add: story_of_def)
      then show ?thesis using gone(1) b(3) by simp
    qed
  qed
qed

lemma frees_confirmed_retains:
  assumes fr: "frees_confirmed P sid s s'" and inv: "store_inv P' s"
  shows "retains s s'" "same_views s s'"
proof -
  show "same_views s s'"
    unfolding same_views_def using frees_confirmedD(3) [OF fr] frees_confirmedD(4) [OF fr] same_view_refl(4) by metis
  show "retains s s'"
    unfolding retains_def
  proof (intro allI impI)
    fix sid' p st c
    assume t: "tracked s sid' p = Some st" and h: "heap s p = Some c"
    have own: "chunkStoryId c = sid'" using store_inv_tracked(1) [OF inv t] h by auto
    show "heap s' p = Some c \<and> (\<exists>st'. tracked s' sid' p = Some st' \<and> same_ack st st') \<or>
        heap s' p = None \<and> confirmedWritten (story_of sid' s') c st"
    proof (cases "sid' = sid")
      case True
      show ?thesis
      proof (cases "heap s' p = Some c")
        case H: True
        then obtain st' where st': "tracked s' sid p = Some st'" using frees_confirmedD(8) [OF fr] t True by fastforce
        then have "same_ack st st'" using frees_confirmedD(7) [OF fr st'] t True by (auto simp: same_ack_def same_delivery_def)
        then show ?thesis using H st' True by blast
      next
        case H: False
        then have "heap s' p = None" "confirmedWritten (story_of sid s) c st"
          using frees_confirmedD(5) [OF fr h] t True by auto
        then show ?thesis using frees_confirmed_view [OF fr] tracked_story [OF t] True by simp
      qed
    next
      case False
      have "tracked s sid p = None"
      proof (rule ccontr)
        assume "tracked s sid p \<noteq> None"
        then obtain x where "tracked s sid p = Some x" by auto
        then have "chunkStoryId c = sid" using store_inv_tracked(1) [OF inv, of sid p x] h by auto
        then show False using own False by simp
      qed
      then have "heap s' p = Some c" using frees_confirmedD(5) [OF fr h] by auto
      moreover have "tracked s' sid' p = Some st" using t frees_confirmedD(3) [OF fr False] by (simp add: tracked_def)
      ultimately show ?thesis by auto
    qed
  qed
qed

lemma free_stories_spec:
  assumes "store_inv P s"
  shows "\<exists>s'. free_stories now sids s = Some s' \<and> store_inv P s' \<and> retains s s' \<and> same_views s s' \<and>
    (\<forall>p. heap s p = None \<longrightarrow> heap s' p = None)"
  using assms
proof (induction sids arbitrary: s)
  case Nil
  have "retains s s" unfolding retains_def by auto
  then show ?case using Nil by (auto simp: same_views_def)
next
  case (Cons sid sids)
  obtain s1 where s1: "free_loop now sid (story_ptrs sid s) s = Some s1" "frees_confirmed P sid s s1"
    using free_loop_frees [OF Cons.prems story_ptrs_tracked [OF Cons.prems]] by blast
  obtain s2 where s2: "free_stories now sids s1 = Some s2" "store_inv P s2" "retains s1 s2" "same_views s1 s2"
      "\<forall>p. heap s1 p = None \<longrightarrow> heap s2 p = None"
    using Cons.IH [OF frees_confirmedD(1) [OF s1(2)]] by blast
  note r = frees_confirmed_retains [OF s1(2) Cons.prems]
  have "retains s s2" using retains_trans [OF r(1) s2(3,4) _ Cons.prems] s2(5) by blast
  moreover have "same_views s s2" using r(2) s2(4) unfolding same_views_def by (fastforce simp: same_view_def)
  ultimately show ?case using s1 s2 frees_confirmedD(6) [OF s1(2)] by auto
qed

text \<open>Taking over a sealed chunk.\<close>

lemma entries_put: "omap_ok m \<Longrightarrow> entries q (omap_put k p m) \<le> entries q m + (if q = p then 1 else 0)"
proof -
  have "entries q (omap_put k p m) = entries q (filter (\<lambda>e. fst e < k) m) + (if q = p then 1 else 0) + entries q (filter (\<lambda>e. k < fst e) m)"
    by (auto simp: entries_def omap_put_def)
  moreover have "entries q (filter (\<lambda>e. fst e < k) m) + entries q (filter (\<lambda>e. k < fst e) m) \<le> entries q m"
    by (induction m) (auto simp: entries_def)
  ultimately show ?thesis by simp
qed

lemma index_fold:
  assumes "omap_ok m"
  shows "omap_ok (fold (\<lambda>e. omap_put (fst e) p) es m) \<and>
    entries q (fold (\<lambda>e. omap_put (fst e) p) es m) \<le> entries q m + (if q = p then length es else 0) \<and>
    set (fold (\<lambda>e. omap_put (fst e) p) es m) \<subseteq> set m \<union> (fst ` set es) \<times> {p}"
  using assms
proof (induction es arbitrary: m)
  case (Cons e es)
  have "omap_ok (omap_put (fst e) p m)" using Cons.prems by auto
  note IH = Cons.IH [OF this]
  have sub: "set (omap_put (fst e) p m) \<subseteq> set m \<union> {fst e} \<times> {p}" by (auto simp: set_omap_put)
  have "set (fold (\<lambda>e. omap_put (fst e) p) es (omap_put (fst e) p m)) \<subseteq>
      set (omap_put (fst e) p m) \<union> (fst ` set es) \<times> {p}"
    using IH by blast
  also have "\<dots> \<subseteq> set m \<union> (fst ` set (e # es)) \<times> {p}" using sub by auto
  finally show ?case
    using IH entries_put [OF Cons.prems, of q "fst e" p] by (simp split: if_splits)
qed simp

definition ingested :: "int \<Rightarrow> ptr \<Rightarrow> StoryChunk \<Rightarrow> StoryRetention \<Rightarrow> StoryRetention" where
  "ingested now p c story =
     story\<lparr>chunks := omap_emplace p (sealed_state now c) (chunks story),
           index := fold (\<lambda>e. omap_put (fst e) p) (logEvents c) (index story)\<rparr>"

lemma story_inv_ingested:
  assumes sinv: "story_inv P h sid story" and p: "p \<in> P" "h p = Some c" "chunkStoryId c = sid" and new: "map_of (chunks story) p = None"
  shows "story_inv P h sid (ingested now p c story)"
proof -
  have ok: "omap_ok (index story)" using story_inv_ok [OF sinv] by blast
  have idx: "omap_ok (index (ingested now p c story))"
      "entries q (index (ingested now p c story)) \<le> entries q (index story) + (if q = p then length (logEvents c) else 0)"
      "set (index (ingested now p c story)) \<subseteq> set (index story) \<union> (fst ` set (logEvents c)) \<times> {p}" for q
    using index_fold [OF ok, where p = p and es = "logEvents c" and q = q] by (simp_all add: ingested_def)
  have none: "entries p (index story) = 0"
    using story_inv_index(1) [OF sinv, of _ p] new by (fastforce simp: entries_def filter_empty_conv)
  have ch: "chunks (ingested now p c story) = omap_put p (sealed_state now c) (chunks story)"
    by (simp add: ingested_def omap_emplace_def new)
  have st: "in_queue (sealed_state now c)" "indexed_count (sealed_state now c) = length (logEvents c)"
    by (simp_all add: sealed_state_def getEventCount_def)
  show ?thesis
  proof (rule story_invI)
    show "(\<exists>c. h q = Some c \<and> chunkStoryId c = sid) \<and> (in_queue qst \<longleftrightarrow> q \<in> P) \<and>
        entries q (index (ingested now p c story)) \<le> indexed_count qst"
      if "map_of (chunks (ingested now p c story)) q = Some qst" for q qst
    proof (cases "q = p")
      case True
      then have "qst = sealed_state now c" using that by (simp add: ch omap_simps)
      then show ?thesis using True p st idx(2) [of p] none by simp
    next
      case False
      then have "map_of (chunks story) q = Some qst" using that by (simp add: ch omap_simps)
      then show ?thesis using story_invD [OF sinv, of q qst] idx(2) [of q] False by simp
    qed
    show "map_of (chunks (ingested now p c story)) q \<noteq> None \<and> (\<exists>c. h q = Some c \<and> map_of (logEvents c) k \<noteq> None)"
      if mem: "(k, q) \<in> set (index (ingested now p c story))" for k q
    proof (cases "(k, q) \<in> set (index story)")
      case True
      then show ?thesis using story_inv_index [OF sinv True] by (auto simp: ch omap_simps)
    next
      case False
      then have "q = p" "k \<in> fst ` set (logEvents c)" using mem idx(3) by auto
      then show ?thesis using p by (auto simp: ch omap_simps map_of_eq_None_iff)
    qed
  qed (use story_inv_ok [OF sinv] idx(1) in \<open>auto simp: ch\<close>)
qed

lemma storyWasDropped_frame:
  "heap (snd (storyWasDropped now sid s)) = heap s" "storyRetention (snd (storyWasDropped now sid s)) = storyRetention s"
  "tailCapacity (snd (storyWasDropped now sid s)) = tailCapacity s"
  by (simp_all add: storyWasDropped_def Let_def)

lemma warnOnCapCrossing_frame [simp]:
  "heap (warnOnCapCrossing s) = heap s" "storyRetention (warnOnCapCrossing s) = storyRetention s"
  by (simp_all add: warnOnCapCrossing_def)

lemma retains_cong: "heap s2 = heap s1 \<Longrightarrow> storyRetention s2 = storyRetention s1 \<Longrightarrow> retains s s2 = retains s s1"
  by (simp add: retains_def tracked_def story_of_def)

lemma retains_delete:
  assumes "\<And>sid. tracked s sid p = None" "heap s' = (heap s)(p := None)" "storyRetention s' = storyRetention s"
  shows "retains s s'"
  unfolding retains_def
proof (intro allI impI)
  fix sid q st c
  assume t: "tracked s sid q = Some st" "heap s q = Some c"
  then have "q \<noteq> p" using assms(1) by auto
  moreover have "tracked s' sid q = Some st" using t(1) assms(3) by (simp add: tracked_def)
  ultimately show "heap s' q = Some c \<and> (\<exists>st'. tracked s' sid q = Some st' \<and> same_ack st st') \<or>
      heap s' q = None \<and> confirmedWritten (story_of sid s') c st"
    using t(2) assms(2) by simp
qed

text \<open>The chunk stays tracked under its story, or is deleted: empty, or of a destroyed story.\<close>

lemma ingestSealedChunk_spec:
  assumes inv: "store_inv P s" and p: "p \<in> P" "p \<noteq> 0" "heap s p = Some c" and un: "\<And>sid. tracked s sid p = None"
  shows "\<exists>ps s'. ingestSealedChunk now (chunkStoryId c) p s = Some (ps, s') \<and> retains s s' \<and>
    (ps = [p] \<and> store_inv P s' \<or> ps = [] \<and> store_inv (P - {p}) s' \<and> heap s' p = None)"
proof -
  define sid where "sid = chunkStoryId c"
  obtain dr s1 where s1: "storyWasDropped now sid s = (dr, s1)" by fastforce
  have f1: "heap s1 = heap s" "storyRetention s1 = storyRetention s"
    using storyWasDropped_frame [of now sid s] s1 by simp_all
  have del: "\<exists>s'. delete_chunk p t = Some s' \<and> retains s s' \<and> store_inv (P - {p}) s' \<and> heap s' p = None"
    if "heap t = heap s" "storyRetention t = storyRetention s" for t
    using that p(3) store_inv_delete [OF inv un, of "t\<lparr>heap := (heap s)(p := None)\<rparr>"]
      retains_delete [of s p "t\<lparr>heap := (heap s)(p := None)\<rparr>", OF un]
    by (simp add: delete_chunk_def)
  consider (empty) "chunk_empty c" | (dropped) "\<not> chunk_empty c" dr | (keep) "\<not> chunk_empty c" "\<not> dr" by blast
  then show ?thesis
  proof cases
    case empty
    then show ?thesis using del [of s] p by (auto simp: ingestSealedChunk_def)
  next
    case dropped
    then show ?thesis
      using del [of "tell_wal (ChunkDiscarded sid c) s1"] p s1 f1 by (auto simp: ingestSealedChunk_def sid_def)
  next
    case keep
    define s2 where "s2 = (put_story sid (ingested now p c (story_of sid s1)) s1)\<lparr>
        retainedBytes := retainedBytes s1 + approx_bytes (sealed_state now c),
        unconfirmedBytes := unconfirmedBytes s1 + approx_bytes (sealed_state now c)\<rparr>"
    have run: "ingestSealedChunk now sid p s = map_option (\<lambda>s3. ([p], warnOnCapCrossing s3)) (enforceCapacity now sid s2)"
      using keep p s1 by (simp add: ingestSealedChunk_def ingested_def s2_def Let_def)
    have inv1: "store_inv P s1" using inv f1 store_inv_cong [of s1 s] by simp
    have new: "map_of (chunks (story_of sid s1)) p = None" using un [of sid] f1 by (simp add: tracked_story_of story_of_def)
    have keeps: "map_of (chunks (ingested now p c (story_of sid s1))) q \<noteq> None" if "tracked s1 sid q \<noteq> None" for q
      using that by (auto simp: ingested_def omap_emplace_def new omap_simps tracked_story_of)
    have "store_inv P (put_story sid (ingested now p c (story_of sid s1)) s1)"
      using p f1 keeps by (intro store_inv_put_story [OF inv1] story_inv_ingested [OF story_inv_of [OF inv1]])
        (simp_all add: sid_def [symmetric] new)
    then have inv2: "store_inv P s2"
      using store_inv_cong [of s2 "put_story sid (ingested now p c (story_of sid s1)) s1" P] by (simp add: s2_def)
    obtain s3 where s3: "enforceCapacity now sid s2 = Some s3" "frees_confirmed P sid s2 s3"
      using evict_loop_frees [OF inv2, of "length (index (story_of sid s2))" now sid] by (auto simp: enforceCapacity_def)
    have tr2: "tracked s2 sid' q = (if sid' = sid \<and> q = p then Some (sealed_state now c) else tracked s sid' q)" for sid' q
      using un [of sid] f1 new
      by (auto simp: s2_def tracked_def omap_simps ingested_def omap_emplace_def story_of_def new_StoryRetention_def split: option.split)
    have "heap s2 = heap s" using f1(1) by (simp add: s2_def)
    then have "retains s s2" unfolding retains_def tr2 using un by auto
    then have "retains s s3"
      using retains_trans [OF _ frees_confirmed_retains [OF s3(2) inv2] frees_confirmedD(6) [OF s3(2)] inv] by blast
    then have "retains s (warnOnCapCrossing s3)" using retains_cong [of "warnOnCapCrossing s3" s3] by simp
    moreover have "store_inv P (warnOnCapCrossing s3)"
      using frees_confirmedD(1) [OF s3(2)] store_inv_cong [of "warnOnCapCrossing s3" s3] by simp
    ultimately show ?thesis using run s3(1) by (simp add: sid_def)
  qed
qed

text \<open>Marking chunks for the queue: what re-sending and flushing have in common.\<close>

definition picked :: "(StoryRetention \<Rightarrow> ptr \<Rightarrow> ChunkState \<Rightarrow> bool) \<Rightarrow> (StoryId \<times> StoryRetention) list \<Rightarrow> ptr list" where
  "picked pick sr = concat (map (\<lambda>(sid, story). map fst (filter (\<lambda>(p, st). pick story p st) (chunks story))) sr)"

definition marked ::
  "(StoryRetention \<Rightarrow> ptr \<Rightarrow> ChunkState \<Rightarrow> bool) \<Rightarrow> (ChunkState \<Rightarrow> ChunkState) \<Rightarrow> StoryRetention \<Rightarrow> StoryRetention" where
  "marked pick upd story = story\<lparr>chunks := map (\<lambda>(p, st). (p, if pick story p st then upd st else st)) (chunks story)\<rparr>"

lemma map_of_map_key: "map_of (map (\<lambda>(k, v). (k, f k v)) m) k = map_option (f k) (map_of m k)"
  by (induction m) auto

lemma omap_ok_map_key: "omap_ok (map (\<lambda>(k, v). (k, f k v)) m) = omap_ok m"
proof -
  have "map fst (map (\<lambda>(k, v). (k, f k v)) m) = map fst m" by (induction m) auto
  then show ?thesis unfolding omap_ok_def by (rule arg_cong)
qed

lemma distinct_concat_keyed:
  "distinct (map fst m) \<Longrightarrow> (\<And>k v. (k, v) \<in> set m \<Longrightarrow> distinct (f k v) \<and> (\<forall>x\<in>set (f k v). g x = k)) \<Longrightarrow>
   distinct (concat (map (\<lambda>(k, v). f k v) m))"
proof (induction m)
  case (Cons e m)
  obtain k v where e: "e = (k, v)" by fastforce
  have "x \<notin> set (f k' v')" if x: "x \<in> set (f k v)" and m: "(k', v') \<in> set m" for x k' v'
  proof
    assume "x \<in> set (f k' v')"
    then have "g x = k'" using Cons.prems(2) [of k' v'] m by auto
    moreover have "g x = k" using Cons.prems(2) [of k v] x e by auto
    ultimately show False using Cons.prems(1) m e by force
  qed
  moreover have "distinct (concat (map (\<lambda>(k, v). f k v) m))" using Cons by auto
  ultimately show ?case using Cons.prems(2) [of k v] e by auto
qed simp

lemma map_of_marked: "map_of (chunks (marked pick upd story)) p =
    map_option (\<lambda>st. if pick story p st then upd st else st) (map_of (chunks story) p)"
  unfolding marked_def by (simp add: map_of_map_key)

lemma marked_frame [simp]: "index (marked pick upd story) = index story" "same_view story (marked pick upd story)"
  by (simp_all add: marked_def)

lemma mark_spec:
  assumes inv: "store_inv P s"
    and idle: "\<And>story p st. pick story p st \<Longrightarrow> \<not> in_queue st"
    and upd: "\<And>st. in_queue (upd st) \<and> indexed_count (upd st) = indexed_count st \<and> same_ack st (upd st)"
    and s': "heap s' = heap s" "storyRetention s' = map (\<lambda>(sid, story). (sid, marked pick upd story)) (storyRetention s)"
  shows "store_inv (P \<union> set (picked pick (storyRetention s))) s' \<and> distinct (picked pick (storyRetention s)) \<and>
    set (picked pick (storyRetention s)) \<inter> P = {} \<and> retains s s'"
proof -
  let ?ps = "picked pick (storyRetention s)"
  have lookup: "map_of (storyRetention s') sid = map_option (marked pick upd) (map_of (storyRetention s) sid)" for sid
    unfolding s'(2) by (simp add: map_of_map_key)
  have mem: "p \<in> set ?ps \<longleftrightarrow> (\<exists>sid story st. map_of (storyRetention s) sid = Some story \<and>
      map_of (chunks story) p = Some st \<and> pick story p st)" for p
  proof -
    have "p \<in> set ?ps \<longleftrightarrow> (\<exists>sid story st. (sid, story) \<in> set (storyRetention s) \<and> (p, st) \<in> set (chunks story) \<and> pick story p st)"
      by (force simp: picked_def)
    also have "\<dots> \<longleftrightarrow> (\<exists>sid story st. map_of (storyRetention s) sid = Some story \<and>
        map_of (chunks story) p = Some st \<and> pick story p st)"
      using map_of_omap_Some [OF store_invD(1) [OF inv]] map_of_omap_Some story_inv_ok [OF store_invD(2) [OF inv]] by metis
    finally show ?thesis .
  qed
  have owner: "map_of (storyRetention s) sid' = Some story' \<Longrightarrow> map_of (chunks story') p \<noteq> None \<Longrightarrow>
      map_of (storyRetention s) sid = Some story \<Longrightarrow> map_of (chunks story) p \<noteq> None \<Longrightarrow> sid' = sid" for sid sid' story story' p
  proof -
    assume a: "map_of (storyRetention s) sid' = Some story'" "map_of (chunks story') p \<noteq> None"
      and b: "map_of (storyRetention s) sid = Some story" "map_of (chunks story) p \<noteq> None"
    show "sid' = sid"
      using story_invD(1) [OF store_invD(2) [OF inv a(1)], of p] story_invD(1) [OF store_invD(2) [OF inv b(1)], of p] a(2) b(2)
      by auto
  qed
  have pick_iff: "p \<in> set ?ps \<longleftrightarrow> pick story p st"
    if "map_of (storyRetention s) sid = Some story" "map_of (chunks story) p = Some st" for sid story p st
  proof
    assume "p \<in> set ?ps"
    then obtain sid' story' st' where a: "map_of (storyRetention s) sid' = Some story'" "map_of (chunks story') p = Some st'" "pick story' p st'"
      unfolding mem by blast
    then have "sid' = sid" using owner [of sid' story' p sid story] that by simp
    then show "pick story p st" using a that by simp
  qed (use that mem in blast)
  have each: "story_inv (P \<union> set ?ps) (heap s') sid (marked pick upd story)"
    if sr: "map_of (storyRetention s) sid = Some story" for sid story
  proof (rule story_invI)
    note i = store_invD(2) [OF inv sr]
    show "(\<exists>c. heap s' p = Some c \<and> chunkStoryId c = sid) \<and> (in_queue st' \<longleftrightarrow> p \<in> P \<union> set ?ps) \<and>
        entries p (index (marked pick upd story)) \<le> indexed_count st'"
      if m: "map_of (chunks (marked pick upd story)) p = Some st'" for p st'
    proof -
      obtain st where st: "map_of (chunks story) p = Some st" "st' = (if pick story p st then upd st else st)"
        using m by (auto simp: map_of_marked)
      show ?thesis
        using story_invD [OF i st(1)] pick_iff [OF sr st(1)] idle [of story p st] upd [of st] st(2) by (simp add: s'(1))
    qed
    show "map_of (chunks (marked pick upd story)) p \<noteq> None \<and> (\<exists>c. heap s' p = Some c \<and> map_of (logEvents c) k \<noteq> None)"
      if "(k, p) \<in> set (index (marked pick upd story))" for k p
      using that story_inv_index [OF i, of k p] by (simp add: map_of_marked s'(1))
    show "omap_ok (chunks (marked pick upd story))"
      unfolding marked_def using story_inv_ok [OF i] by (simp add: omap_ok_map_key)
  qed (use story_inv_ok [OF store_invD(2) [OF inv sr]] in simp)
  have tr: "tracked s' sid p = map_option (\<lambda>st. if pick (story_of sid s) p st then upd st else st) (tracked s sid p)" for sid p
    by (cases "map_of (storyRetention s) sid") (simp_all add: tracked_def lookup map_of_marked story_of_def)
  have "store_inv (P \<union> set ?ps) s'"
  proof (rule store_invI)
    show "omap_ok (storyRetention s')" unfolding s'(2) using store_invD(1) [OF inv] by (simp add: omap_ok_map_key)
    show "story_inv (P \<union> set ?ps) (heap s') sid story" if "map_of (storyRetention s') sid = Some story" for sid story
      using that each by (auto simp: lookup)
    show "heap s' p \<noteq> None" if p: "p \<in> P \<union> set ?ps" for p
    proof (cases "p \<in> P")
      case False
      then obtain sid story st where "map_of (storyRetention s) sid = Some story" "map_of (chunks story) p = Some st"
        using p unfolding Un_iff mem by blast
      then show ?thesis using story_invD(1) [OF store_invD(2) [OF inv], of sid story p st] s'(1) by auto
    qed (use store_invD(3) [OF inv] s'(1) in simp)
    show "p \<in> P \<union> set ?ps \<or> tracked s' (chunkStoryId c) p \<noteq> None" if "heap s' p = Some c" for p c
      using store_invD(5) [OF inv, of p c] that s'(1) tr by auto
  qed (use store_invD(4) [OF inv] s'(1) in simp)
  moreover have "distinct ?ps"
    unfolding picked_def
  proof (rule distinct_concat_keyed [where g = "\<lambda>p. chunkStoryId (the (heap s p))"])
    show "distinct (map fst (storyRetention s))" by (rule omap_ok_distinct [OF store_invD(1) [OF inv]])
    fix sid story assume "(sid, story) \<in> set (storyRetention s)"
    then have sr: "map_of (storyRetention s) sid = Some story" using map_of_omap_Some [OF store_invD(1) [OF inv]] by blast
    have ok: "omap_ok (chunks story)" using story_inv_ok [OF store_invD(2) [OF inv sr]] by blast
    have "distinct (map fst (filter (\<lambda>(p, st). pick story p st) (chunks story)))"
      by (rule distinct_map_filter [OF omap_ok_distinct [OF ok]])
    moreover have "chunkStoryId (the (heap s p)) = sid" if "(p, st) \<in> set (chunks story)" for p st
      using story_invD(1) [OF store_invD(2) [OF inv sr], of p st] that map_of_omap_Some [OF ok] by auto
    ultimately show "distinct (map fst (filter (\<lambda>(p, st). pick story p st) (chunks story))) \<and>
        (\<forall>x\<in>set (map fst (filter (\<lambda>(p, st). pick story p st) (chunks story))). chunkStoryId (the (heap s x)) = sid)"
      by auto
  qed
  moreover have "set ?ps \<inter> P = {}"
  proof -
    have False if ps: "p \<in> set ?ps" and pP: "p \<in> P" for p
    proof -
      obtain sid story st where "map_of (storyRetention s) sid = Some story" "map_of (chunks story) p = Some st" "pick story p st"
        using ps unfolding mem by blast
      then show False using story_invD(2) [OF store_invD(2) [OF inv], of sid story p st] idle pP by simp
    qed
    then show ?thesis by blast
  qed
  moreover have "retains s s'" unfolding retains_def tr s'(1) using upd by simp
  ultimately show ?thesis by blast
qed

lemma requeue_chunks_eq:
  assumes "\<forall>(p, st)\<in>set cs. h p \<noteq> None"
  shows "requeue_chunks h now a story cs =
    Some (map fst (filter (\<lambda>(p, st). is_stalled now a story (the (h p)) st) cs),
      map (\<lambda>(p, st). (p, if is_stalled now a story (the (h p)) st then st\<lparr>in_queue := True, last_activity := now\<rparr> else st)) cs)"
  using assms
proof (induction cs)
  case (Cons x cs)
  obtain p st c where x: "x = (p, st)" "h p = Some c" using Cons.prems by (cases x) auto
  have "\<forall>(p, st)\<in>set cs. h p \<noteq> None" using Cons.prems by simp
  note IH = Cons.IH [OF this]
  show ?case by (cases "is_stalled now a story c st") (simp_all add: x IH)
qed simp

lemma requeue_stories_eq:
  assumes "\<forall>(sid, story)\<in>set sr. \<forall>(p, st)\<in>set (chunks story). h p \<noteq> None"
  shows "requeue_stories h now a sr =
    Some (picked (\<lambda>story p st. is_stalled now a story (the (h p)) st) sr,
      map (\<lambda>(sid, story). (sid, marked (\<lambda>story p st. is_stalled now a story (the (h p)) st)
         (\<lambda>st. st\<lparr>in_queue := True, last_activity := now\<rparr>) story)) sr)"
  using assms
proof (induction sr)
  case (Cons x sr)
  obtain sid story where x: "x = (sid, story)" by fastforce
  have live: "\<forall>(p, st)\<in>set (chunks story). h p \<noteq> None"
    and rest: "\<forall>(sid, story)\<in>set sr. \<forall>(p, st)\<in>set (chunks story). h p \<noteq> None"
    using Cons.prems x by simp_all
  show ?case
    unfolding x requeue_stories.simps requeue_chunks_eq [OF live] Cons.IH [OF rest] by (simp add: picked_def marked_def)
qed (simp add: picked_def)

lemma live_chunks:
  assumes "store_inv P s"
  shows "\<forall>(sid, story)\<in>set (storyRetention s). \<forall>(p, st)\<in>set (chunks story). heap s p \<noteq> None"
proof -
  have "heap s p \<noteq> None" if a: "(sid, story) \<in> set (storyRetention s)" "(p, st) \<in> set (chunks story)" for sid story p st
  proof -
    have sr: "map_of (storyRetention s) sid = Some story" using a(1) map_of_omap_Some [OF store_invD(1) [OF assms]] by blast
    note i = store_invD(2) [OF assms sr]
    have "map_of (chunks story) p = Some st"
      using a(2) map_of_omap_Some [OF conjunct1 [OF story_inv_ok [OF i]]] by simp
    then show ?thesis using story_invD(1) [OF i, of p st] by auto
  qed
  then show ?thesis by auto
qed

lemma requeueStalled_spec:
  assumes inv: "store_inv P s"
  shows "\<exists>ps s'. requeueStalled now a s = Some (ps, s') \<and> store_inv (P \<union> set ps) s' \<and> distinct ps \<and> set ps \<inter> P = {} \<and> retains s s'"
proof -
  let ?pick = "\<lambda>story p st. is_stalled now a story (the (heap s p)) st"
  let ?upd = "\<lambda>st::ChunkState. st\<lparr>in_queue := True, last_activity := now\<rparr>"
  let ?s = "s\<lparr>storyRetention := map (\<lambda>(sid, story). (sid, marked ?pick ?upd story)) (storyRetention s)\<rparr>"
  have "requeueStalled now a s = Some (picked ?pick (storyRetention s), ?s)"
    by (simp add: requeueStalled_def requeue_stories_eq [OF live_chunks [OF inv]])
  moreover have "store_inv (P \<union> set (picked ?pick (storyRetention s))) ?s \<and> distinct (picked ?pick (storyRetention s)) \<and>
      set (picked ?pick (storyRetention s)) \<inter> P = {} \<and> retains s ?s"
    by (rule mark_spec [OF inv, where upd = ?upd]) (auto simp: is_stalled_def same_ack_def)
  ultimately show ?thesis by blast
qed

lemma flushUnshippedChunks_spec:
  assumes inv: "store_inv P s"
  shows "\<exists>ps s'. flushUnshippedChunks s = (ps, s') \<and> store_inv (P \<union> set ps) s' \<and> distinct ps \<and> set ps \<inter> P = {} \<and> retains s s'"
proof -
  let ?pick = "\<lambda>story p st. unshipped st"
  let ?upd = "\<lambda>st::ChunkState. st\<lparr>in_queue := True\<rparr>"
  let ?s = "s\<lparr>storyRetention := map (\<lambda>(sid, story). (sid, marked ?pick ?upd story)) (storyRetention s)\<rparr>"
  have "flushUnshippedChunks s = (picked ?pick (storyRetention s), ?s)"
    by (simp add: flushUnshippedChunks_def picked_def marked_def)
  moreover have "store_inv (P \<union> set (picked ?pick (storyRetention s))) ?s \<and> distinct (picked ?pick (storyRetention s)) \<and>
      set (picked ?pick (storyRetention s)) \<inter> P = {} \<and> retains s ?s"
    by (rule mark_spec [OF inv, where upd = ?upd]) (auto simp: unshipped_def same_ack_def)
  ultimately show ?thesis by blast
qed

text \<open>A range read records sightings and changes nothing else.\<close>

lemma fetch_chunks_spec:
  assumes "\<forall>(p, st)\<in>set cs. h p \<noteq> None"
  shows "\<exists>fl m' cs'. fetch_chunks h d now a b story cs (f, m) = Some (fl, m', cs') \<and>
    list_all2 (\<lambda>x y. fst y = fst x \<and> same_delivery (snd x) (snd y) \<and> indexed_count (snd y) = indexed_count (snd x)) cs cs'"
  using assms
proof (induction cs arbitrary: f m)
  case (Cons x cs)
  obtain p st c where x: "x = (p, st)" "h p = Some c" using Cons.prems by (cases x) auto
  obtain v st1 where v: "visibleInArchive d story st now = (v, st1)" by fastforce
  have "\<forall>(p, st)\<in>set cs. h p \<noteq> None" using Cons.prems by simp
  then obtain fl m' cs' where IH: "fetch_chunks h d now a b story cs
      (if \<not> chunk_empty c \<and> firstEventTime c < f then firstEventTime c else f, merge_nodes v (range_nodes c a b) m) = Some (fl, m', cs')"
      "list_all2 (\<lambda>x y. fst y = fst x \<and> same_delivery (snd x) (snd y) \<and> indexed_count (snd y) = indexed_count (snd x)) cs cs'"
    using Cons.IH by blast
  have "fetch_chunks h d now a b story (x # cs) (f, m) = Some (fl, m', (p, st1) # cs')"
    by (simp add: x v IH(1) Let_def)
  then show ?case using IH(2) visibleInArchive_same [OF v] x by auto
qed simp

lemma list_all2_keys:
  assumes "list_all2 (\<lambda>x y. fst y = fst x \<and> R (snd x) (snd y)) m m'"
  shows "rel_option R (map_of m k) (map_of m' k)" "map fst m' = map fst m"
  using assms by (induction m m' rule: list_all2_induct) auto

lemma fetchRange_frees:
  assumes inv: "store_inv P s"
  shows "\<exists>r s'. fetchRange now sid a b n s = Some (r, s') \<and> frees_confirmed P sid s s'"
proof (cases "map_of (storyRetention s) sid")
  case None
  then show ?thesis by (simp add: fetchRange_def frees_confirmed_refl [OF inv])
next
  case (Some story)
  note i = store_invD(2) [OF inv Some]
  have live: "\<forall>(p, st)\<in>set (chunks story). heap s p \<noteq> None"
    using live_chunks [OF inv] map_of_SomeD [OF Some] by blast
  obtain fl m cs where run: "fetch_chunks (heap s) (archiveVisibilityDelay s) now a b story (chunks story)
      (hot_floor new_HotRangeResponse, []) = Some (fl, m, cs)"
    and rel: "list_all2 (\<lambda>x y. fst y = fst x \<and> same_delivery (snd x) (snd y) \<and> indexed_count (snd y) = indexed_count (snd x)) (chunks story) cs"
    using fetch_chunks_spec [OF live] by blast
  note keys = list_all2_keys [OF rel]
  let ?story = "story\<lparr>chunks := cs\<rparr>"
  have ok: "omap_ok cs" using story_inv_ok [OF i] keys(2) by (simp add: omap_ok_def)
  have state: "\<exists>st. map_of (chunks story) p = Some st \<and> same_delivery st st' \<and> indexed_count st' = indexed_count st"
    if "map_of cs p = Some st'" for p st'
    using keys(1) [of p] that by (auto simp: option_rel_Some2)
  have sinv: "story_inv P (heap s) sid ?story"
  proof (rule story_invI)
    show "(\<exists>c. heap s p = Some c \<and> chunkStoryId c = sid) \<and> (in_queue st' \<longleftrightarrow> p \<in> P) \<and> entries p (index ?story) \<le> indexed_count st'"
      if m: "map_of (chunks ?story) p = Some st'" for p st'
    proof -
      obtain st where "map_of (chunks story) p = Some st" "same_delivery st st'" "indexed_count st' = indexed_count st"
        using state [of p st'] m by auto
      then show ?thesis using story_invD [OF i, of p st] by (simp add: same_delivery_def)
    qed
    show "map_of (chunks ?story) p \<noteq> None \<and> (\<exists>c. heap s p = Some c \<and> map_of (logEvents c) k \<noteq> None)"
      if "(k, p) \<in> set (index ?story)" for k p
      using that story_inv_index [OF i, of k p] keys(1) [of p] by (cases "map_of cs p") (auto simp: rel_option_iff)
  qed (use ok story_inv_ok [OF i] in auto)
  have so: "story_of sid s = story" using Some by (simp add: story_of_def)
  have "rel_option same_delivery (map_of (chunks story) p) (map_of cs p)" for p
    using keys(1) [of p] by (auto simp: rel_option_iff split: option.splits)
  then have "frees_confirmed P sid s (put_story sid ?story s)"
    by (intro frees_put_story [OF inv sinv]) (simp_all add: so same_chunks_def)
  then show ?thesis using Some run by (simp add: fetchRange_def)
qed

text \<open>A tail read finds every indexed event: the chunk is live and holds it.\<close>

lemma tail_events_spec:
  assumes "\<forall>m. idx = Some m \<longrightarrow> (\<forall>k p. map_of m k = Some p \<longrightarrow> (\<exists>c. h p = Some c \<and> findEvent c k \<noteq> None))"
  shows "\<exists>es ms. tail_events h live idx seqs = Some (es, ms) \<and>
    ms = (if live then filter (\<lambda>k. Option.bind idx (\<lambda>m. map_of m k) = None) seqs else []) \<and>
    length es = length (filter (\<lambda>k. Option.bind idx (\<lambda>m. map_of m k) \<noteq> None) seqs)"
proof (induction seqs)
  case (Cons k seqs)
  then obtain es ms where IH: "tail_events h live idx seqs = Some (es, ms)"
      "ms = (if live then filter (\<lambda>k. Option.bind idx (\<lambda>m. map_of m k) = None) seqs else [])"
      "length es = length (filter (\<lambda>k. Option.bind idx (\<lambda>m. map_of m k) \<noteq> None) seqs)" by blast
  show ?case
  proof (cases "Option.bind idx (\<lambda>m. map_of m k)")
    case None
    then show ?thesis using IH by simp
  next
    case (Some p)
    then obtain m where "idx = Some m" "map_of m k = Some p" by (auto simp: bind_eq_Some_conv)
    then obtain c e where "h p = Some c" "findEvent c k = Some e" using assms by blast
    then show ?thesis using IH Some by simp
  qed
qed simp

lemma index_lookup:
  assumes inv: "store_inv P s" and sr: "map_of (storyRetention s) sid = Some story" and k: "map_of (index story) k = Some p"
  shows "\<exists>c. heap s p = Some c \<and> findEvent c k \<noteq> None"
  using story_inv_index(2) [OF store_invD(2) [OF inv sr] map_of_SomeD [OF k]] by (simp add: findEvent_def)

lemma getTailEvents_total:
  assumes inv: "store_inv P s"
  shows "\<exists>es. getTailEvents src sid seqs s = Some es"
proof -
  have "\<forall>m. map_option index (map_of (storyRetention s) sid) = Some m \<longrightarrow>
      (\<forall>k p. map_of m k = Some p \<longrightarrow> (\<exists>c. heap s p = Some c \<and> findEvent c k \<noteq> None))"
    using index_lookup [OF inv] by auto
  from tail_events_spec [OF this, of "liveTailRead s" seqs] show ?thesis by (auto simp: getTailEvents_def)
qed

section \<open>Memory safety and retention of the whole keeper\<close>

text \<open>The one report that lets go of a story's chunks before they are written.\<close>

fun drops_story :: "StoryId \<Rightarrow> keeper_op \<Rightarrow> bool" where
  "drops_story sid (Report now s report) = (s = sid \<and> watermark report = kStoryDroppedWatermark)"
| "drops_story sid _ = False"

text \<open>The delivery a chunk stands on after a step: a transfer that succeeded replaces the receipt.\<close>

fun delivered :: "keeper_op \<Rightarrow> ptr \<Rightarrow> StoryChunk \<Rightarrow> ChunkState \<Rightarrow> ChunkState" where
  "delivered (Shipped now q) p c st =
     (if q = p then st\<lparr>shipped := True, receipt_instance := grapherInstance c, chunk_receipt := grapherReceipt c\<rparr> else st)"
| "delivered _ p c st = st"

definition step_retains :: "keeper_op \<Rightarrow> KeeperChunkRetentionStore \<Rightarrow> KeeperChunkRetentionStore \<Rightarrow> bool" where
  "step_retains op s s' \<longleftrightarrow> (\<forall>sid p st c. tracked s sid p = Some st \<longrightarrow> heap s p = Some c \<longrightarrow> \<not> drops_story sid op \<longrightarrow>
     (\<exists>c' st'. heap s' p = Some c' \<and> chunkStoryId c' = chunkStoryId c \<and> logEvents c' = logEvents c \<and> tracked s' sid p = Some st') \<or>
     heap s' p = None \<and> confirmedWritten (story_of sid s') c (delivered op p c st))"

lemma retains_step:
  assumes "retains s s'" "\<And>p c st. delivered op p c st = st"
  shows "step_retains op s s'"
  unfolding step_retains_def
proof (intro allI impI)
  fix sid p st c assume "tracked s sid p = Some st" "heap s p = Some c"
  from retainsD [OF assms(1) this] assms(2)
  show "(\<exists>c' st'. heap s' p = Some c' \<and> chunkStoryId c' = chunkStoryId c \<and> logEvents c' = logEvents c \<and> tracked s' sid p = Some st') \<or>
     heap s' p = None \<and> confirmedWritten (story_of sid s') c (delivered op p c st)"
    by auto
qed

lemma retains_refl: "retains s s"
  unfolding retains_def by auto

lemma store_inv_deliver:
  assumes inv: "store_inv P s" and c: "heap s p = Some c" "chunkStoryId c' = chunkStoryId c" "logEvents c' = logEvents c"
    and s': "heap s' = (heap s)(p \<mapsto> c')" "storyRetention s' = storyRetention s"
  shows "store_inv P s'"
proof (rule store_invI)
  show "story_inv P (heap s') sid story" if "map_of (storyRetention s') sid = Some story" for sid story
  proof (rule story_invI)
    have i: "story_inv P (heap s) sid story" using store_invD(2) [OF inv] that s'(2) by simp
    show "(\<exists>c. heap s' q = Some c \<and> chunkStoryId c = sid) \<and> (in_queue st \<longleftrightarrow> q \<in> P) \<and> entries q (index story) \<le> indexed_count st"
      if "map_of (chunks story) q = Some st" for q st
      using story_invD [OF i that] c by (auto simp: s'(1))
    show "map_of (chunks story) q \<noteq> None \<and> (\<exists>c. heap s' q = Some c \<and> map_of (logEvents c) k \<noteq> None)"
      if "(k, q) \<in> set (index story)" for k q
      using story_inv_index [OF i that] c by (auto simp: s'(1))
    show "omap_ok (chunks story)" "omap_ok (index story)" using story_inv_ok [OF i] by auto
  qed
  show "heap s' 0 = None" using store_invD(4) [OF inv] c(1) by (cases "p = 0") (auto simp: s'(1))
  show "q \<in> P \<or> tracked s' (chunkStoryId d) q \<noteq> None" if "heap s' q = Some d" for q d
    using that store_invD(5) [OF inv, of q] c by (auto simp: s' tracked_def split: if_splits)
qed (use store_invD [OF inv] in \<open>auto simp: s'\<close>)

lemma untracked_everywhere:
  assumes "store_inv P s" "heap s p = Some c" "tracked s (chunkStoryId c) p = None"
  shows "tracked s sid p = None"
  using store_inv_tracked(1) [OF assms(1), of sid p] assms(2,3) by (cases "tracked s sid p") auto

text \<open>Both callbacks.\<close>

lemma callback_step:
  assumes inv: "store_inv P s" and p: "p \<in> P" "heap s p = Some c"
    and run: "cb = (case tracked s (chunkStoryId c) p of None \<Rightarrow> delete_chunk p s
      | Some st \<Rightarrow> maybeFreeChunk now (chunkStoryId c) p (put_state (chunkStoryId c) p (upd st) s))"
    and upd: "\<And>st. \<not> in_queue (upd st) \<and> indexed_count (upd st) = indexed_count st"
    and del: "\<And>st. same_ack (delivered op p c st) (upd st)" "\<And>q d st. q \<noteq> p \<Longrightarrow> delivered op q d st = st"
  shows "\<exists>s'. cb = Some s' \<and> store_inv (P - {p}) s' \<and> step_retains op s s'"
proof (cases "tracked s (chunkStoryId c) p")
  case None
  note un = untracked_everywhere [OF inv p(2) None]
  let ?s = "s\<lparr>heap := (heap s)(p := None)\<rparr>"
  have "cb = Some ?s" using run None p(2) by (simp add: delete_chunk_def)
  moreover have "store_inv (P - {p}) ?s" by (rule store_inv_delete [OF inv un]) simp_all
  moreover have "step_retains op s ?s"
    unfolding step_retains_def
  proof (intro allI impI)
    fix sid q st d assume a: "tracked s sid q = Some st" "heap s q = Some d"
    then have "q \<noteq> p" using un by auto
    then show "(\<exists>c' st'. heap ?s q = Some c' \<and> chunkStoryId c' = chunkStoryId d \<and> logEvents c' = logEvents d \<and> tracked ?s sid q = Some st') \<or>
        heap ?s q = None \<and> confirmedWritten (story_of sid ?s) d (delivered op q d st)"
      using a by (simp add: tracked_def)
  qed
  ultimately show ?thesis by blast
next
  case (Some st)
  define sid where "sid = chunkStoryId c"
  let ?s1 = "put_state sid p (upd st) s"
  obtain s' where s': "maybeFreeChunk now sid p ?s1 = Some s'" "store_inv (P - {p}) s'" "frees_confirmed (P - {p}) sid ?s1 s'"
    using callback_spec [OF inv, of sid p st "upd st" now] Some upd by (auto simp: sid_def)
  have inv1: "store_inv (P - {p}) ?s1" using store_inv_unqueue [OF inv, of sid p st "upd st"] Some upd by (auto simp: sid_def)
  note ret = frees_confirmed_retains(1) [OF s'(3) inv1]
  have tr1: "tracked ?s1 sid' q = (if sid' = sid \<and> q = p then Some (upd st) else tracked s sid' q)" for sid' q
    by (auto simp: put_state_def Let_def omap_simps tracked_story_of [of s])
  have h1: "heap ?s1 = heap s" by (simp add: put_state_def Let_def)
  have "step_retains op s s'"
    unfolding step_retains_def
  proof (intro allI impI)
    fix sid' q x d assume a: "tracked s sid' q = Some x" "heap s q = Some d"
    define y where "y = (if sid' = sid \<and> q = p then upd st else x)"
    have "tracked ?s1 sid' q = Some y" "heap ?s1 q = Some d" using a tr1 h1 by (simp_all add: y_def)
    note r = retainsD [OF ret this]
    have "confirmedWritten (story_of sid' s') d (delivered op q d x) = confirmedWritten (story_of sid' s') d y"
    proof (cases "q = p")
      case True
      then have "sid' = sid" "d = c" "x = st"
        using store_inv_tracked(1) [OF inv a(1)] a Some p(2) by (auto simp: sid_def)
      then show ?thesis using del(1) [of st] True by (simp add: y_def same_ack_def confirmedWritten_def receiptSettled_def)
    next
      case False
      then show ?thesis using del(2) by (simp add: y_def)
    qed
    then show "(\<exists>c' st'. heap s' q = Some c' \<and> chunkStoryId c' = chunkStoryId d \<and> logEvents c' = logEvents d \<and> tracked s' sid' q = Some st') \<or>
        heap s' q = None \<and> confirmedWritten (story_of sid' s') d (delivered op q d x)"
      using r by auto
  qed
  then show ?thesis using run Some s' by (auto simp: sid_def)
qed

lemma pool_facts:
  assumes "keeper_inv k"
  shows "distinct (stashing k @ extractionDeque (kqueue k) @ in_flight k)" "store_inv (set (pool k)) (kstore k)" "0 \<notin> set (pool k)"
proof -
  show i: "store_inv (set (pool k)) (kstore k)" and "distinct (stashing k @ extractionDeque (kqueue k) @ in_flight k)"
    using assms by (simp_all add: keeper_inv_def pool_def)
  show "0 \<notin> set (pool k)" using store_invD(3) [OF i, of 0] store_invD(4) [OF i] by blast
qed

lemma keeper_inv_store:
  assumes "keeper_inv k" "store_inv (set (pool k)) s"
  shows "keeper_inv (k\<lparr>kstore := s\<rparr>)"
  using assms by (simp add: keeper_inv_def pool_def)

lemma keeper_inv_stashing:
  assumes "keeper_inv k" "store_inv (set (pool k) \<union> set ps) s" "distinct ps" "set ps \<inter> set (pool k) = {}"
  shows "keeper_inv (k\<lparr>kstore := s, stashing := stashing k @ ps\<rparr>)"
proof -
  have "set (pool (k\<lparr>kstore := s, stashing := stashing k @ ps\<rparr>)) = set (pool k) \<union> set ps" by (auto simp: pool_def)
  moreover have "distinct (pool (k\<lparr>kstore := s, stashing := stashing k @ ps\<rparr>))"
    using assms(1,3,4) by (auto simp: keeper_inv_def pool_def)
  ultimately show ?thesis using assms(2) by (simp add: keeper_inv_def)
qed

lemma keeper_inv_landed:
  assumes inv: "keeper_inv k" and p: "p \<in> set (in_flight k)" and s: "store_inv (set (pool k) - {p}) s"
    and q: "extractionDeque q = extractionDeque (kqueue k)"
  shows "keeper_inv (k\<lparr>kstore := s, kqueue := q, in_flight := remove1 p (in_flight k)\<rparr>)"
proof -
  note f = pool_facts [OF inv]
  have "set (pool (k\<lparr>kstore := s, kqueue := q, in_flight := remove1 p (in_flight k)\<rparr>)) = set (pool k) - {p}"
    using f(1) p q by (auto simp: pool_def)
  moreover have "distinct (pool (k\<lparr>kstore := s, kqueue := q, in_flight := remove1 p (in_flight k)\<rparr>))"
    using f(1) q notin_set_remove1 [of _ "in_flight k" p] by (auto simp: pool_def)
  ultimately show ?thesis using s by (simp add: keeper_inv_def)
qed

lemma frees_step:
  assumes "keeper_inv k" "frees_confirmed (set (pool k)) sid (kstore k) s" "\<And>p c st. delivered op p c st = st"
  shows "keeper_inv (k\<lparr>kstore := s\<rparr>) \<and> step_retains op (kstore k) s"
  using assms keeper_inv_store frees_confirmedD(1) retains_step frees_confirmed_retains(1) pool_facts(2) by metis

lemma seal_step:
  assumes inv: "keeper_inv k"
  shows "\<exists>k'. keeper_step (Seal now p c) k = Some k' \<and> keeper_inv k' \<and> step_retains (Seal now p c) (kstore k) (kstore k')"
proof (cases "p = 0 \<or> heap (kstore k) p \<noteq> None")
  case True
  then show ?thesis using inv retains_step [OF retains_refl] by auto
next
  case False
  note f = pool_facts [OF inv]
  let ?P = "set (pool k)"
  let ?s = "(kstore k)\<lparr>heap := (heap (kstore k))(p \<mapsto> c)\<rparr>"
  have nP: "p \<notin> ?P" using False store_invD(3) [OF f(2)] by blast
  have al: "store_inv (insert p ?P) ?s" "\<And>sid. tracked ?s sid p = None"
    using store_inv_alloc [OF f(2), of p ?s c] False by auto
  obtain ps s' where s': "ingestSealedChunk now (chunkStoryId c) p ?s = Some (ps, s')" "retains ?s s'"
      "ps = [p] \<and> store_inv (insert p ?P) s' \<or> ps = [] \<and> store_inv (insert p ?P - {p}) s'"
    using ingestSealedChunk_spec [OF al(1), of p c now] al(2) False by auto
  have store: "store_inv (?P \<union> set ps) s'" "distinct ps" "set ps \<inter> ?P = {}" using s'(3) nP by auto
  have "step_retains (Seal now p c) (kstore k) s'"
    unfolding step_retains_def
  proof (intro allI impI)
    fix sid q st d assume a: "tracked (kstore k) sid q = Some st" "heap (kstore k) q = Some d"
    then have "tracked ?s sid q = Some st" "heap ?s q = Some d" using False by (auto simp: tracked_def)
    from retainsD [OF s'(2) this]
    show "(\<exists>c' st'. heap s' q = Some c' \<and> chunkStoryId c' = chunkStoryId d \<and> logEvents c' = logEvents d \<and> tracked s' sid q = Some st') \<or>
        heap s' q = None \<and> confirmedWritten (story_of sid s') d (delivered (Seal now p c) q d st)" by auto
  qed
  then show ?thesis using False s'(1) keeper_inv_stashing [OF inv store] by simp
qed

lemma report_step:
  assumes inv: "keeper_inv k"
  shows "\<exists>k'. keeper_step (Report now sid rep) k = Some k' \<and> keeper_inv k' \<and> step_retains (Report now sid rep) (kstore k) (kstore k')"
proof (cases "watermark rep = kStoryDroppedWatermark")
  case True
  obtain s' where s': "keeper_dropStory now sid (kstore k) = Some s'" "store_inv (set (pool k)) s'"
      "\<forall>p c. heap (kstore k) p = Some c \<longrightarrow> chunkStoryId c \<noteq> sid \<longrightarrow> heap s' p = Some c"
      "\<forall>sid'. map_of (storyRetention s') sid' = (if sid' = sid then None else map_of (storyRetention (kstore k)) sid')"
    using keeper_dropStory_spec [OF pool_facts(2) [OF inv], of now sid] by blast
  have "step_retains (Report now sid rep) (kstore k) s'"
    unfolding step_retains_def
  proof (intro allI impI)
    fix sid' q st d assume a: "tracked (kstore k) sid' q = Some st" "heap (kstore k) q = Some d" "\<not> drops_story sid' (Report now sid rep)"
    have ne: "sid' \<noteq> sid" using a(3) True by auto
    have "chunkStoryId d = sid'" using store_inv_tracked(1) [OF pool_facts(2) [OF inv] a(1)] a(2) by auto
    then have "heap s' q = Some d" "tracked s' sid' q = Some st" using s'(3,4) a ne by (auto simp: tracked_def)
    then show "(\<exists>c' st'. heap s' q = Some c' \<and> chunkStoryId c' = chunkStoryId d \<and> logEvents c' = logEvents d \<and> tracked s' sid' q = Some st') \<or>
        heap s' q = None \<and> confirmedWritten (story_of sid' s') d (delivered (Report now sid rep) q d st)" by auto
  qed
  then show ?thesis using True s' keeper_inv_store [OF inv s'(2)] by (simp add: applyReport_def)
next
  case False
  let ?s1 = "put_story sid (report_view rep (story_of sid (kstore k))) (kstore k)"
  obtain s' where s': "applyReport now sid rep (kstore k) = Some s'" "frees_confirmed (set (pool k)) sid ?s1 s'"
    using applyReport_frees [OF pool_facts(2) [OF inv] False refl] by blast
  have inv1: "store_inv (set (pool k)) ?s1" by (rule store_inv_view [OF pool_facts(2) [OF inv]]) simp_all
  have tr: "tracked ?s1 = tracked (kstore k)" by (auto simp: fun_eq_iff tracked_story_of [of "kstore k"])
  have "retains (kstore k) s'"
    using frees_confirmed_retains(1) [OF s'(2) inv1] unfolding retains_def tr by simp
  then show ?thesis
    using s'(1) keeper_inv_store [OF inv frees_confirmedD(1) [OF s'(2)]] retains_step by auto
qed

lemma callbacks_step:
  assumes inv: "keeper_inv k"
  shows "\<exists>k'. keeper_step (Shipped now p) k = Some k' \<and> keeper_inv k' \<and> step_retains (Shipped now p) (kstore k) (kstore k')"
    and "\<exists>k'. keeper_step (SendFailed now p) k = Some k' \<and> keeper_inv k' \<and> step_retains (SendFailed now p) (kstore k) (kstore k')"
proof -
  note f = pool_facts [OF inv]
  have idle: "step_retains op (kstore k) (kstore k)" for op
    unfolding step_retains_def by blast
  have pq: "extractionDeque (chunkProcessed (kqueue k)) = extractionDeque (kqueue k)" by (simp add: chunkProcessed_def)
  show "\<exists>k'. keeper_step (Shipped now p) k = Some k' \<and> keeper_inv k' \<and> step_retains (Shipped now p) (kstore k) (kstore k')"
  proof (cases "p \<in> set (in_flight k)")
    case True
    then have pP: "p \<in> set (pool k)" by (simp add: pool_def)
    obtain c where c: "heap (kstore k) p = Some c" using store_invD(3) [OF f(2) pP] by auto
    have "\<exists>s'. markShipped now p (kstore k) = Some s' \<and> store_inv (set (pool k) - {p}) s' \<and> step_retains (Shipped now p) (kstore k) s'"
      by (rule callback_step [OF f(2) pP c, where upd = "\<lambda>st. st\<lparr>shipped := True, in_queue := False, last_activity := now,
          receipt_instance := grapherInstance c, chunk_receipt := grapherReceipt c\<rparr>" and now = now])
        (simp_all add: markShipped_def c same_ack_def)
    then show ?thesis using True keeper_inv_landed [OF inv True _ pq] by auto
  qed (use inv idle in auto)
  show "\<exists>k'. keeper_step (SendFailed now p) k = Some k' \<and> keeper_inv k' \<and> step_retains (SendFailed now p) (kstore k) (kstore k')"
  proof (cases "p \<in> set (in_flight k)")
    case True
    then have pP: "p \<in> set (pool k)" by (simp add: pool_def)
    obtain c where c: "heap (kstore k) p = Some c" using store_invD(3) [OF f(2) pP] by auto
    have "\<exists>s'. markSendFailed now p (kstore k) = Some s' \<and> store_inv (set (pool k) - {p}) s' \<and> step_retains (SendFailed now p) (kstore k) s'"
      by (rule callback_step [OF f(2) pP c, where upd = "\<lambda>st. st\<lparr>in_queue := False, last_activity := now\<rparr>" and now = now])
        (simp_all add: markSendFailed_def c same_ack_def)
    then show ?thesis using True keeper_inv_landed [OF inv True _ pq] by auto
  qed (use inv idle in auto)
qed

lemma queue_steps:
  assumes inv: "keeper_inv k"
  shows "\<exists>k'. keeper_step (Stash p) k = Some k' \<and> keeper_inv k' \<and> kstore k' = kstore k"
    and "\<exists>k'. keeper_step Eject k = Some k' \<and> keeper_inv k' \<and> kstore k' = kstore k"
proof -
  note f = pool_facts [OF inv]
  show "\<exists>k'. keeper_step (Stash p) k = Some k' \<and> keeper_inv k' \<and> kstore k' = kstore k"
  proof (cases "p \<in> set (stashing k)")
    case True
    then have pP: "p \<in> set (pool k)" by (simp add: pool_def)
    obtain c where c: "heap (kstore k) p = Some c" using store_invD(3) [OF f(2) pP] by auto
    have p0: "p \<noteq> 0" using pP f(3) by (cases "p = 0") auto
    let ?k = "k\<lparr>kqueue := (kqueue k)\<lparr>extractionDeque := extractionDeque (kqueue k) @ [p]\<rparr>, stashing := remove1 p (stashing k)\<rparr>"
    have "set (pool ?k) = set (pool k)" using True f(1) by (auto simp: pool_def)
    moreover have "distinct (pool ?k)" using True f(1) by (auto simp: pool_def)
    ultimately have "keeper_inv ?k" using f(2) by (simp add: keeper_inv_def)
    then show ?thesis using True c p0 by (auto simp: stashStoryChunk_def)
  qed (use inv in auto)
  show "\<exists>k'. keeper_step Eject k = Some k' \<and> keeper_inv k' \<and> kstore k' = kstore k"
  proof (cases "extractionDeque (kqueue k)")
    case (Cons p ps)
    have p0: "p \<noteq> 0" using f(3) Cons by (auto simp: pool_def)
    let ?k = "k\<lparr>kqueue := (kqueue k)\<lparr>extractionDeque := ps, chunksInProcess := chunksInProcess (kqueue k) + 1\<rparr>, in_flight := p # in_flight k\<rparr>"
    have "set (pool ?k) = set (pool k)" using Cons by (auto simp: pool_def)
    moreover have "distinct (pool ?k)" using Cons f(1) by (auto simp: pool_def)
    ultimately have "keeper_inv ?k" using f(2) by (simp add: keeper_inv_def)
    then show ?thesis using Cons p0 by (auto simp: ejectStoryChunk_def)
  qed (use inv in \<open>auto simp: ejectStoryChunk_def\<close>)
qed

lemma deliver_step:
  assumes inv: "keeper_inv k"
  shows "\<exists>k'. keeper_step (Deliver p i n) k = Some k' \<and> keeper_inv k' \<and> step_retains (Deliver p i n) (kstore k) (kstore k')"
proof (cases "p \<in> set (in_flight k)")
  case True
  note f = pool_facts [OF inv]
  have pP: "p \<in> set (pool k)" using True by (simp add: pool_def)
  obtain c where c: "heap (kstore k) p = Some c" using store_invD(3) [OF f(2) pP] by auto
  let ?s = "(kstore k)\<lparr>heap := (heap (kstore k))(p \<mapsto> c\<lparr>grapherInstance := i, grapherReceipt := n\<rparr>)\<rparr>"
  have "store_inv (set (pool k)) ?s" by (rule store_inv_deliver [OF f(2) c]) simp_all
  moreover have "step_retains (Deliver p i n) (kstore k) ?s"
    unfolding step_retains_def using c by (auto simp: tracked_def)
  ultimately show ?thesis using True c keeper_inv_store [OF inv] by simp
qed (use inv in \<open>auto simp: step_retains_def\<close>)

text \<open>Every step is defined, keeps the invariant and retains what is not confirmed.\<close>

lemma keeper_step_ok:
  assumes inv: "keeper_inv k"
  shows "\<exists>k'. keeper_step op k = Some k' \<and> keeper_inv k' \<and> step_retains op (kstore k) (kstore k')"
proof -
  note f = pool_facts [OF inv]
  have same: "step_retains op (kstore k) s" if "s = kstore k" for op s
    using that unfolding step_retains_def by auto
  show ?thesis
  proof (cases op)
    case (Requeue now a)
    obtain ps s where "requeueStalled now a (kstore k) = Some (ps, s)" "store_inv (set (pool k) \<union> set ps) s" "distinct ps"
        "set ps \<inter> set (pool k) = {}" "retains (kstore k) s"
      using requeueStalled_spec [OF f(2)] by blast
    then show ?thesis using Requeue keeper_inv_stashing [OF inv] retains_step by auto
  next
    case Flush
    obtain ps s where "flushUnshippedChunks (kstore k) = (ps, s)" "store_inv (set (pool k) \<union> set ps) s" "distinct ps"
        "set ps \<inter> set (pool k) = {}" "retains (kstore k) s"
      using flushUnshippedChunks_spec [OF f(2)] by blast
    then show ?thesis using Flush keeper_inv_stashing [OF inv] retains_step by auto
  next
    case (FreeDurable now)
    obtain s where "free_stories now (map fst (storyRetention (kstore k))) (kstore k) = Some s" "store_inv (set (pool k)) s"
        "retains (kstore k) s"
      using free_stories_spec [OF f(2)] by blast
    then show ?thesis using FreeDurable keeper_inv_store [OF inv] retains_step by (auto simp: freeDurableChunks_def)
  next
    case (FetchRange now sid a b n)
    obtain r s where "fetchRange now sid a b n (kstore k) = Some (r, s)" "frees_confirmed (set (pool k)) sid (kstore k) s"
      using fetchRange_frees [OF f(2)] by blast
    then show ?thesis using FetchRange frees_step [OF inv, of sid s op] by auto
  next
    case (ReadTail sid seqs)
    then show ?thesis using getTailEvents_total [OF f(2), of None sid seqs] inv same by auto
  next
    case (ReleaseTail now sid)
    obtain s where "releaseStoryTail now sid (kstore k) = Some s" "frees_confirmed (set (pool k)) sid (kstore k) s"
      using releaseStoryTail_frees [OF f(2)] by blast
    then show ?thesis using ReleaseTail frees_step [OF inv, of sid s op] by auto
  next
    case (RecordAgain sid)
    let ?s = "clearDroppedStory sid (kstore k)"
    have fr: "heap ?s = heap (kstore k)" "storyRetention ?s = storyRetention (kstore k)" by (simp_all add: clearDroppedStory_def)
    have "store_inv (set (pool k)) ?s" using f(2) store_inv_cong [OF fr] by simp
    moreover have "retains (kstore k) ?s" using retains_cong [OF fr] retains_refl by simp
    ultimately show ?thesis using RecordAgain keeper_inv_store [OF inv] retains_step by auto
  next
    case (Stash p)
    then show ?thesis using queue_steps(1) [OF inv, of p] same by blast
  next
    case Eject
    then show ?thesis using queue_steps(2) [OF inv] same by blast
  qed (use seal_step [OF inv] report_step [OF inv] callbacks_step [OF inv] deliver_step [OF inv] in auto)
qed

lemma keeper_run_ok:
  assumes "keeper_inv k"
  shows "\<exists>k'. keeper_run ops k = Some k' \<and> keeper_inv k'"
  using assms
proof (induction ops arbitrary: k)
  case (Cons op ops)
  then show ?case using keeper_step_ok [OF Cons.prems, of op] by fastforce
qed simp

lemma keeper_inv_new: "keeper_inv (new_keeper (new_store cap mb live delay ttl wal))"
  by (simp add: keeper_inv_def new_keeper_def new_store_def pool_def store_inv_def)

text \<open>
  Claim C7. Whatever the interleaving of sealing, stashing, draining, callbacks, reports,
  re-sends, reads and retirement, a keeper never reads or deletes a chunk that is not live; no chunk
  is in the hands of two threads; a chunk is marked as queued exactly while it is in those hands;
  every chunk that is live is tracked by its story or in those hands, so none is leaked; and every
  indexed event is held by a live chunk of its story.
\<close>

theorem keeper_memory_safe:
  "\<exists>k. keeper_run ops (new_keeper (new_store cap mb live delay ttl wal)) = Some k \<and>
    distinct (pool k) \<and> (\<forall>p. p \<in> set (pool k) \<longrightarrow> heap (kstore k) p \<noteq> None) \<and>
    (\<forall>sid p st. tracked (kstore k) sid p = Some st \<longrightarrow>
       (\<exists>c. heap (kstore k) p = Some c \<and> chunkStoryId c = sid) \<and> (in_queue st \<longleftrightarrow> p \<in> set (pool k))) \<and>
    (\<forall>p c. heap (kstore k) p = Some c \<longrightarrow> p \<notin> set (pool k) \<longrightarrow> tracked (kstore k) (chunkStoryId c) p \<noteq> None) \<and>
    (\<forall>sid story e p. map_of (storyRetention (kstore k)) sid = Some story \<longrightarrow> map_of (index story) e = Some p \<longrightarrow>
       (\<exists>c. heap (kstore k) p = Some c \<and> findEvent c e \<noteq> None))"
proof -
  obtain k where k: "keeper_run ops (new_keeper (new_store cap mb live delay ttl wal)) = Some k" "keeper_inv k"
    using keeper_run_ok [OF keeper_inv_new] by blast
  note f = pool_facts [OF k(2)]
  have "distinct (pool k)" using k(2) by (simp add: keeper_inv_def)
  moreover have "heap (kstore k) p \<noteq> None" if "p \<in> set (pool k)" for p by (rule store_invD(3) [OF f(2) that])
  moreover have "tracked (kstore k) (chunkStoryId c) p \<noteq> None" if "heap (kstore k) p = Some c" "p \<notin> set (pool k)" for p c
    using store_invD(5) [OF f(2) that(1)] that(2) by blast
  moreover note store_inv_tracked [OF f(2)] index_lookup [OF f(2)]
  ultimately show ?thesis using k(1) by (intro exI [of _ k] conjI allI impI) simp_all
qed

theorem keeper_memory_safe_witness:
  "\<exists>k. keeper_run [Seal 0 1 ex_chunk, Stash 1, Eject, Deliver 1 5 1, Shipped 10 1, ReadTail 7 [(3, 0, 0)], Requeue 100 5]
      (new_keeper (new_store 2 0 False 0 10 True)) = Some k \<and> distinct (pool k)"
  using keeper_memory_safe [of "[Seal 0 1 ex_chunk, Stash 1, Eject, Deliver 1 5 1, Shipped 10 1, ReadTail 7 [(3, 0, 0)], Requeue 100 5]"
      2 0 False 0 10 True] by blast

text \<open>
  Claim C6. A keeper lets go of a sealed chunk only when the grapher has confirmed it: in every
  step of a reachable keeper other than the report that its story was destroyed, a tracked chunk stays
  live and tracked with its events, or it is gone and at that moment it was shipped, the receipt of its
  last delivery was settled in the story's receipt view, and the known watermark had passed its end.
\<close>

theorem chunk_freed_only_when_confirmed:
  assumes "keeper_run ops (new_keeper (new_store cap mb live delay ttl wal)) = Some k"
    and "keeper_step op k = Some k'" and "\<not> drops_story sid op"
    and "tracked (kstore k) sid p = Some st" and "heap (kstore k) p = Some c"
  shows "(\<exists>c' st'. heap (kstore k') p = Some c' \<and> logEvents c' = logEvents c \<and> tracked (kstore k') sid p = Some st') \<or>
    heap (kstore k') p = None \<and> confirmedWritten (story_of sid (kstore k')) c (delivered op p c st)"
proof -
  have "keeper_inv k" using keeper_run_ok [OF keeper_inv_new, of ops cap mb live delay ttl wal] assms(1) by auto
  then have "step_retains op (kstore k) (kstore k')" using keeper_step_ok [of k op] assms(2) by auto
  then show ?thesis using assms(3-5) unfolding step_retains_def by blast
qed

theorem chunk_freed_only_when_confirmed_witness:
  "\<exists>k k' st. keeper_run [Seal 0 1 ex_chunk, Stash 1, Eject, Deliver 1 5 1, Shipped 10 1] (new_keeper (new_store 0 0 False 0 10 True)) = Some k \<and>
    keeper_step (Report 20 7 \<lparr>watermark = 30, report_grapher_instance = 5, report_highest_receipt = 1, report_pending_receipts = []\<rparr>) k = Some k' \<and>
    tracked (kstore k) 7 1 = Some st \<and> heap (kstore k') 1 = None \<and>
    confirmedWritten (story_of 7 (kstore k')) (ex_chunk\<lparr>grapherInstance := 5, grapherReceipt := 1\<rparr>) st"
proof -
  let ?ops = "[Seal 0 1 ex_chunk, Stash 1, Eject, Deliver 1 5 1, Shipped 10 1]"
  let ?init = "new_keeper (new_store 0 0 False 0 10 True)"
  let ?op = "Report 20 7 \<lparr>watermark = 30, report_grapher_instance = 5, report_highest_receipt = 1, report_pending_receipts = []\<rparr>"
  let ?c = "ex_chunk\<lparr>grapherInstance := 5, grapherReceipt := 1\<rparr>"
  obtain k where k: "keeper_run ?ops ?init = Some k" "keeper_inv k" using keeper_run_ok [OF keeper_inv_new] by blast
  obtain k' where k': "keeper_step ?op k = Some k'" using keeper_step_ok [OF k(2)] by blast
  have kk: "the (keeper_run ?ops ?init) = k" by (simp only: k(1) option.sel)
  have kk': "the (keeper_step ?op k) = k'" by (simp only: k' option.sel)
  have "heap (kstore (the (keeper_run ?ops ?init))) 1 = Some ?c" by code_simp
  then have c: "heap (kstore k) 1 = Some ?c" unfolding kk .
  have "tracked (kstore (the (keeper_run ?ops ?init))) 7 1 \<noteq> None" by code_simp
  then obtain st where st: "tracked (kstore k) 7 1 = Some st" unfolding kk by blast
  have "heap (kstore (the (keeper_step ?op (the (keeper_run ?ops ?init))))) 1 = None" by code_simp
  then have gone: "heap (kstore k') 1 = None" unfolding kk kk' .
  have "\<not> drops_story 7 ?op" by (simp add: kStoryDroppedWatermark_def)
  from chunk_freed_only_when_confirmed [OF k(1) k' this st c] gone
  have "confirmedWritten (story_of 7 (kstore k')) ?c st" by auto
  then show ?thesis using k(1) k' st gone by blast
qed

section \<open>Receipt views\<close>

text \<open>What a view and a report say about a receipt of their grapher instance.\<close>

definition view_written :: "StoryRetention \<Rightarrow> u64 \<Rightarrow> bool" where
  "view_written story n \<longleftrightarrow> n \<le> highest_receipt story \<and> n \<notin> set (pending_receipts story)"

definition report_written :: "StoryWatermarkReport \<Rightarrow> u64 \<Rightarrow> bool" where
  "report_written report n \<longleftrightarrow> n \<le> report_highest_receipt report \<and> n \<notin> set (report_pending_receipts report)"

lemma set_fold_oset_insert [simp]: "set (fold oset_insert xs ys) = set xs \<union> set ys"
  by (induction xs arbitrary: ys) auto

lemma mergeReceipts_written:
  assumes "report_grapher_instance report = report_instance story"
  shows "view_written (mergeReceipts report story) n \<longleftrightarrow> view_written story n \<or> report_written report n"
proof -
  let ?s = "mergeReceipts report story"
  have h: "highest_receipt ?s = max (highest_receipt story) (report_highest_receipt report)"
    and p: "n \<in> set (pending_receipts ?s) \<longleftrightarrow>
      n \<in> set (pending_receipts story) \<and> (report_highest_receipt report < n \<or> n \<in> set (report_pending_receipts report)) \<or>
      n \<in> set (report_pending_receipts report) \<and> highest_receipt story < n"
    using assms by (auto simp: mergeReceipts_def Let_def)
  have "n \<le> max a b \<longleftrightarrow> n \<le> a \<or> n \<le> b" for a b :: u64 by (simp add: le_max_iff_disj)
  then show ?thesis unfolding view_written_def report_written_def h p by (auto simp: not_less)
qed

lemma mergeReceipts_replaces:
  assumes "report_grapher_instance report \<noteq> report_instance story"
  shows "view_written (mergeReceipts report story) n \<longleftrightarrow> report_written report n"
  using assms by (simp add: mergeReceipts_def view_written_def report_written_def Let_def)

lemma mergeReceipts_instance [simp]: "report_instance (mergeReceipts report story) = report_grapher_instance report"
  by (simp add: mergeReceipts_def Let_def)

lemma receiptSettled_written:
  "receiptSettled story st \<longleftrightarrow> chunk_receipt st = 0 \<or> receipt_instance st = report_instance story \<and> view_written story (chunk_receipt st)"
  by (auto simp: receiptSettled_def view_written_def)

text \<open>
  Claim C8. Reports of one grapher instance combine in any order and any number of times: after
  a keeper has folded a sequence of them into its view, the view takes a receipt as written exactly
  if it did before or if one of the reports says so.
\<close>

theorem mergeReceipts_order_independent:
  assumes "\<forall>report\<in>set reports. report_grapher_instance report = report_instance story"
  shows "view_written (fold mergeReceipts reports story) n \<longleftrightarrow>
    view_written story n \<or> (\<exists>report\<in>set reports. report_written report n)"
  using assms
proof (induction reports arbitrary: story)
  case (Cons report reports)
  have i: "report_grapher_instance report = report_instance story" using Cons.prems by simp
  have "\<forall>r\<in>set reports. report_grapher_instance r = report_instance (mergeReceipts report story)" using Cons.prems i by simp
  then have "view_written (fold mergeReceipts reports (mergeReceipts report story)) n \<longleftrightarrow>
      view_written (mergeReceipts report story) n \<or> (\<exists>r\<in>set reports. report_written r n)"
    by (rule Cons.IH)
  then show ?case using mergeReceipts_written [OF i] by auto
qed simp

theorem mergeReceipts_order_independent_witness:
  "view_written (fold mergeReceipts
     [\<lparr>watermark = 9, report_grapher_instance = 5, report_highest_receipt = 4, report_pending_receipts = [4]\<rparr>,
      \<lparr>watermark = 3, report_grapher_instance = 5, report_highest_receipt = 2, report_pending_receipts = [1]\<rparr>]
     (new_StoryRetention\<lparr>report_instance := 5\<rparr>)) 1"
proof -
  let ?reports = "[\<lparr>watermark = 9, report_grapher_instance = 5, report_highest_receipt = 4, report_pending_receipts = [4]\<rparr>,
      \<lparr>watermark = 3, report_grapher_instance = 5, report_highest_receipt = 2, report_pending_receipts = [1]\<rparr>]"
  have "\<forall>report\<in>set ?reports. report_grapher_instance report = report_instance (new_StoryRetention\<lparr>report_instance := 5\<rparr>)"
    by simp
  from mergeReceipts_order_independent [OF this, of 1] show ?thesis by (simp add: report_written_def)
qed

end
