(* ===== verification/LogEventCodec.thy ===== *)
theory LogEventCodec
  imports StoryChunk
begin

text \<open>
  The byte encoding of an event
  (\<^verbatim>\<open>src/chrono-common/src/LogEventCodec.cpp\<close>,
  \<^verbatim>\<open>src/chrono-common/include/LogEventCodec.h\<close>) and the little-endian integers it shares with
  the records of the keeper's write-ahead log. A buffer is a list of bytes; the reader is its position
  in it, and a field is read only after the check that it fits. Sizes are natural numbers: they are
  the sizes of strings in memory. An exception is the left summand of the result.
\<close>

unbundle bit_operations_syntax

section \<open>Little-endian integers\<close>

text \<open>The loop that appends the low \<open>n\<close> bytes of a value, lowest first.\<close>

definition putLittleEndian :: "u64 \<Rightarrow> nat \<Rightarrow> u8 list" where
  "putLittleEndian v n = map (\<lambda>i. ucast (drop_bit (8 * i) v AND 0xFF)) [0..<n]"

text \<open>The loop that reads \<open>n\<close> bytes from a position of the buffer.\<close>

definition getLittleEndian :: "u8 list \<Rightarrow> nat \<Rightarrow> u64" where
  "getLittleEndian data n = fold (\<lambda>i v. v OR push_bit (8 * i) (ucast (data ! i))) [0..<n] 0"

section \<open>Encoding\<close>

definition kLogEventCodecVersion :: u64 where "kLogEventCodecVersion = 1"
definition kMaxEncodedEventBytes :: nat where "kMaxEncodedEventBytes = 256 * 2 ^ 20"
definition kHeadBytes :: nat where "kHeadBytes = 1 + 8 + 8 + 8 + 4 + 4"
definition kExtensionCountBytes :: nat where "kExtensionCountBytes = 2"
definition kExtensionHeadBytes :: nat where "kExtensionHeadBytes = 2 + 4"

record EventExtension =
  ext_tag :: u16
  ext_value :: cpp_string

record EncodedEventParts =
  part_head :: "u8 list"
  part_record :: "u8 list"
  part_tail :: "u8 list"

datatype length_error = TooManyExtensions | EncodedEventTooLarge | BodyTooLarge

text \<open>The running total over the extensions, or the exception.\<close>

fun total_size :: "EventExtension list \<Rightarrow> nat \<Rightarrow> length_error + nat" where
  "total_size [] bytes = Inr bytes"
| "total_size (x # xs) bytes =
     (if kMaxEncodedEventBytes < bytes + kExtensionHeadBytes + length (ext_value x) then Inl EncodedEventTooLarge
      else total_size xs (bytes + kExtensionHeadBytes + length (ext_value x)))"

definition encode_extension :: "EventExtension \<Rightarrow> u8 list" where
  "encode_extension x =
     putLittleEndian (ucast (ext_tag x)) 2 @ putLittleEndian (of_nat (length (ext_value x))) 4 @ ext_value x"

definition encodeLogEvent :: "LogEvent \<Rightarrow> EventExtension list \<Rightarrow> length_error + EncodedEventParts" where
  "encodeLogEvent event extensions =
     (if 65535 < length extensions then Inl TooManyExtensions
      else
        let bytes = kHeadBytes + kExtensionCountBytes in
        if kMaxEncodedEventBytes < bytes + length (logRecord event) then Inl EncodedEventTooLarge
        else
          (case total_size extensions (bytes + length (logRecord event)) of
             Inl e \<Rightarrow> Inl e
           | Inr _ \<Rightarrow> Inr
               \<lparr>part_head =
                  putLittleEndian kLogEventCodecVersion 1 @ putLittleEndian (evStoryId event) 8 @
                  putLittleEndian (eventTime event) 8 @ putLittleEndian (clientId event) 8 @
                  putLittleEndian (ucast (eventIndex event)) 4 @
                  putLittleEndian (of_nat (length (logRecord event))) 4,
                part_record = logRecord event,
                part_tail = putLittleEndian (of_nat (length extensions)) 2 @ concat (map encode_extension extensions)\<rparr>))"

text \<open>The bytes of the parts in the order they are written.\<close>

definition part_bytes :: "EncodedEventParts \<Rightarrow> u8 list" where
  "part_bytes p = part_head p @ part_record p @ part_tail p"

section \<open>Decoding\<close>

datatype CodecStatus = Truncated | TooLarge | UnsupportedVersion

text \<open>\<^verbatim>\<open>Reader::has\<close>, \<^verbatim>\<open>Reader::take\<close> and \<^verbatim>\<open>Reader::skip\<close> at a position.\<close>

definition rd_has :: "u8 list \<Rightarrow> nat \<Rightarrow> nat \<Rightarrow> bool" where
  "rd_has data pos n \<longleftrightarrow> n \<le> length data - pos"

definition rd_take :: "u8 list \<Rightarrow> nat \<Rightarrow> nat \<Rightarrow> u64" where
  "rd_take data pos n = getLittleEndian (drop pos data) n"

definition rd_skip :: "u8 list \<Rightarrow> nat \<Rightarrow> nat \<Rightarrow> u8 list" where
  "rd_skip data pos n = take n (drop pos data)"

text \<open>The loop over the extensions, with the extensions decoded so far; it returns the final position too.\<close>

fun decode_extensions ::
  "u8 list \<Rightarrow> nat \<Rightarrow> nat \<Rightarrow> EventExtension list \<Rightarrow> CodecStatus + (EventExtension list \<times> nat)" where
  "decode_extensions data 0 pos decoded = Inr (decoded, pos)"
| "decode_extensions data (Suc n) pos decoded =
     (if \<not> rd_has data pos kExtensionHeadBytes then Inl Truncated
      else
        let tag = ucast (rd_take data pos 2);
            value_length = unat (rd_take data (pos + 2) 4);
            pos1 = pos + 6
        in if kMaxEncodedEventBytes < pos1 + value_length then Inl TooLarge
           else if \<not> rd_has data pos1 value_length then Inl Truncated
           else decode_extensions data n (pos1 + value_length)
                  (decoded @ [\<lparr>ext_tag = tag, ext_value = rd_skip data pos1 value_length\<rparr>]))"

definition decodeLogEvent :: "u8 list \<Rightarrow> CodecStatus + (LogEvent \<times> EventExtension list \<times> nat)" where
  "decodeLogEvent data =
     (if \<not> rd_has data 0 1 then Inl Truncated
      else if rd_take data 0 1 \<noteq> kLogEventCodecVersion then Inl UnsupportedVersion
      else if \<not> rd_has data 1 (kHeadBytes - 1) then Inl Truncated
      else
        let story_id = rd_take data 1 8;
            time = rd_take data 9 8;
            client_id = rd_take data 17 8;
            index = ucast (rd_take data 25 4);
            record_length = unat (rd_take data 29 4)
        in if kMaxEncodedEventBytes < kHeadBytes + record_length + kExtensionCountBytes then Inl TooLarge
           else if \<not> rd_has data kHeadBytes record_length then Inl Truncated
           else
             let pos = kHeadBytes + record_length in
             if \<not> rd_has data pos kExtensionCountBytes then Inl Truncated
             else
               (case decode_extensions data (unat (rd_take data pos 2)) (pos + 2) [] of
                  Inl e \<Rightarrow> Inl e
                | Inr (decoded, end_pos) \<Rightarrow> Inr
                    (\<lparr>evStoryId = story_id, eventTime = time, clientId = client_id, eventIndex = index,
                      logRecord = rd_skip data kHeadBytes record_length\<rparr>, decoded, end_pos)))"

section \<open>Integers survive the round trip\<close>

lemma length_putLittleEndian [simp]: "length (putLittleEndian v n) = n"
  by (simp add: putLittleEndian_def)

lemma ucast_low_byte: "(ucast (w AND 0xFF) :: u8) = ucast w" for w :: u64
proof -
  have low: "w AND 0xFF = take_bit 8 w" by (simp add: take_bit_eq_mask mask_numeral)
  show ?thesis unfolding low by (rule bit_word_eqI) (auto simp: bit_simps)
qed

lemma nth_putLittleEndian: "i < n \<Longrightarrow> putLittleEndian v n ! i = ucast (drop_bit (8 * i) v)"
  by (simp add: putLittleEndian_def ucast_low_byte)

lemma bit_getLittleEndian:
  "n \<le> 8 \<Longrightarrow> bit (getLittleEndian data n) k \<longleftrightarrow> k < 8 * n \<and> bit (data ! (k div 8)) (k mod 8)"
proof (induction n)
  case (Suc n)
  have step: "getLittleEndian data (Suc n) = getLittleEndian data n OR push_bit (8 * n) (ucast (data ! n))"
    by (simp add: getLittleEndian_def)
  have "bit (push_bit (8 * n) (ucast (data ! n) :: u64)) k \<longleftrightarrow> 8 * n \<le> k \<and> k < 8 * Suc n \<and> bit (data ! n) (k - 8 * n)"
    using Suc.prems by (auto simp: bit_simps dest: bit_imp_le_length)
  moreover have "k div 8 = n \<and> k mod 8 = k - 8 * n" if "8 * n \<le> k" "k < 8 * Suc n"
  proof -
    have "k div 8 = n" using that by (intro div_nat_eqI) auto
    then show ?thesis using div_mult_mod_eq [of k 8] by auto
  qed
  ultimately show ?case using Suc by (auto simp: step bit_or_iff)
qed (simp add: getLittleEndian_def)

lemma getLittleEndian_put:
  assumes "n \<le> 8" "\<And>i. i < n \<Longrightarrow> data ! i = putLittleEndian v n ! i"
  shows "getLittleEndian data n = take_bit (8 * n) v"
proof (rule bit_word_eqI)
  fix k
  have "bit (data ! (k div 8)) (k mod 8) \<longleftrightarrow> bit v k" if "k < 8 * n"
  proof -
    have "k div 8 < n" using that by auto
    then have "data ! (k div 8) = ucast (drop_bit (8 * (k div 8)) v)" using assms(2) by (simp add: nth_putLittleEndian)
    then show ?thesis by (simp add: bit_simps)
  qed
  then show "bit (getLittleEndian data n) k = bit (take_bit (8 * n) v) k"
    unfolding bit_getLittleEndian [OF assms(1)] bit_take_bit_iff by auto
qed

text \<open>Reading at the position where a value was written.\<close>

lemma rd_take_put:
  assumes "n \<le> 8" "drop pos data = putLittleEndian v n @ rest"
  shows "rd_take data pos n = take_bit (8 * n) v"
  unfolding rd_take_def using assms by (intro getLittleEndian_put) (simp_all add: nth_append)

lemma take_bit_whole: "take_bit 64 (v :: u64) = v"
  by (simp add: take_bit_word_eq_self)

lemma unat_take_bit_of_nat: "k < 2 ^ n \<Longrightarrow> n \<le> 64 \<Longrightarrow> unat (take_bit n (of_nat k :: u64)) = k"
proof -
  assume k: "k < 2 ^ n" and n: "n \<le> 64"
  have "(2::nat) ^ n \<le> 2 ^ 64" using n by (rule power_increasing) simp
  then have "unat (of_nat k :: u64) = k" using k by (simp add: unat_of_nat)
  then show ?thesis using k by (simp add: unsigned_take_bit_eq take_bit_nat_eq_self)
qed

lemma ucast_take_bit_back: "(ucast (take_bit 32 (ucast i :: u64)) :: u32) = i" "(ucast (take_bit 16 (ucast t :: u64)) :: u16) = t"
  by (rule bit_word_eqI, auto simp: bit_simps)+

lemma rd_take_byte8: "drop pos data = putLittleEndian v 8 @ rest \<Longrightarrow> rd_take data pos 8 = v"
  using rd_take_put [of 8 pos data v rest] by (simp add: take_bit_whole)

lemma rd_take_size:
  assumes "drop pos data = putLittleEndian (of_nat k) n @ rest" "n \<le> 8" "k < 2 ^ (8 * n)"
  shows "unat (rd_take data pos n) = k"
proof -
  have "8 * n \<le> 64" using assms(2) by simp
  then show ?thesis using rd_take_put [OF assms(2,1)] unat_take_bit_of_nat [OF assms(3)] by simp
qed

lemma rd_skip_at: "drop pos data = xs @ rest \<Longrightarrow> length xs = n \<Longrightarrow> rd_skip data pos n = xs"
  by (simp add: rd_skip_def)

lemma rd_has_at:
  assumes "drop pos data = xs @ rest" "n \<le> length xs"
  shows "rd_has data pos n"
proof -
  have "length (drop pos data) = length xs + length rest" using assms(1) by simp
  then show ?thesis using assms(2) by (simp add: rd_has_def)
qed

lemma drop_step: "drop pos data = xs @ rest \<Longrightarrow> drop (pos + length xs) data = rest"
  by (metis add.commute append_eq_conv_conj drop_drop)

lemma total_size_bound: "total_size xs a = Inr b \<Longrightarrow> a \<le> kMaxEncodedEventBytes \<Longrightarrow>
    b = a + length (concat (map encode_extension xs)) \<and> b \<le> kMaxEncodedEventBytes"
proof (induction xs arbitrary: a)
  case (Cons x xs)
  have "length (encode_extension x) = kExtensionHeadBytes + length (ext_value x)"
    by (simp add: encode_extension_def kExtensionHeadBytes_def)
  then show ?case using Cons.IH [of "a + kExtensionHeadBytes + length (ext_value x)"] Cons.prems by (auto split: if_splits)
qed simp

lemma decode_extensions_encoded:
  assumes "drop pos data = concat (map encode_extension xs) @ rest"
    and "pos + length (concat (map encode_extension xs)) \<le> kMaxEncodedEventBytes"
  shows "decode_extensions data (length xs) pos acc = Inr (acc @ xs, pos + length (concat (map encode_extension xs)))"
  using assms
proof (induction xs arbitrary: pos acc)
  case (Cons x xs)
  let ?n = "length (ext_value x)"
  let ?more = "concat (map encode_extension xs) @ rest"
  have len: "length (encode_extension x) = 6 + ?n" by (simp add: encode_extension_def)
  have n: "pos + 6 + ?n \<le> kMaxEncodedEventBytes" using Cons.prems(2) len by simp
  then have n32: "?n < 2 ^ (8 * 4)" by (simp add: kMaxEncodedEventBytes_def)
  have d0: "drop pos data = putLittleEndian (ucast (ext_tag x)) 2 @ putLittleEndian (of_nat ?n) 4 @ ext_value x @ ?more"
    using Cons.prems(1) by (simp add: encode_extension_def [of x])
  have d2: "drop (pos + 2) data = putLittleEndian (of_nat ?n) 4 @ ext_value x @ ?more" using drop_step [OF d0] by simp
  have d6: "drop (pos + 6) data = ext_value x @ ?more" using drop_step [OF d2] by (simp add: add.commute)
  have dn: "drop (pos + 6 + ?n) data = ?more" using drop_step [OF d6] by simp
  have has: "rd_has data pos kExtensionHeadBytes"
    by (rule rd_has_at [of pos data "putLittleEndian (ucast (ext_tag x)) 2 @ putLittleEndian (of_nat ?n) 4"])
      (simp_all add: d0 kExtensionHeadBytes_def)
  have tag: "(ucast (rd_take data pos 2) :: u16) = ext_tag x"
    using rd_take_put [OF _ d0] by (simp add: ucast_take_bit_back)
  have size: "unat (rd_take data (pos + 2) 4) = ?n" by (rule rd_take_size [OF d2 _ n32]) simp
  have "decode_extensions data (length xs) (pos + 6 + ?n) (acc @ [x]) =
      Inr ((acc @ [x]) @ xs, pos + 6 + ?n + length (concat (map encode_extension xs)))"
    using Cons.prems(2) len by (intro Cons.IH [OF dn]) simp
  then show ?case
    using has tag size n rd_skip_at [OF d6 refl] rd_has_at [OF d6 order_refl] len
    by (cases x) (simp add: Let_def add.assoc)
qed simp

lemma decodeLogEvent_encoded:
  assumes enc: "encodeLogEvent event extensions = Inr parts"
  shows "decodeLogEvent (part_bytes parts @ rest) = Inr (event, extensions, length (part_bytes parts))"
proof -
  let ?n = "length (logRecord event)"
  let ?exts = "concat (map encode_extension extensions)"
  define data where "data = part_bytes parts @ rest"
  have ext_count: "length extensions \<le> 65535" using enc by (auto simp: encodeLogEvent_def split: if_splits)
  obtain b where fits: "35 + ?n \<le> kMaxEncodedEventBytes" and tot: "total_size extensions (35 + ?n) = Inr b"
    using enc by (auto simp: encodeLogEvent_def Let_def kHeadBytes_def kExtensionCountBytes_def split: if_splits sum.splits)
  have bytes: "part_bytes parts = putLittleEndian kLogEventCodecVersion 1 @ putLittleEndian (evStoryId event) 8 @
      putLittleEndian (eventTime event) 8 @ putLittleEndian (clientId event) 8 @ putLittleEndian (ucast (eventIndex event)) 4 @
      putLittleEndian (of_nat ?n) 4 @ logRecord event @ putLittleEndian (of_nat (length extensions)) 2 @ ?exts"
    using enc by (auto simp: encodeLogEvent_def Let_def part_bytes_def split: if_splits sum.splits)
  have total: "35 + ?n + length ?exts \<le> kMaxEncodedEventBytes" using total_size_bound [OF tot fits] by simp
  have d0: "drop 0 data = putLittleEndian kLogEventCodecVersion 1 @ putLittleEndian (evStoryId event) 8 @
      putLittleEndian (eventTime event) 8 @ putLittleEndian (clientId event) 8 @ putLittleEndian (ucast (eventIndex event)) 4 @
      putLittleEndian (of_nat ?n) 4 @ logRecord event @ putLittleEndian (of_nat (length extensions)) 2 @ ?exts @ rest"
    by (simp add: data_def bytes)
  note d1 = drop_step [OF d0, simplified]
  note d9 = drop_step [OF d1, simplified]
  note d17 = drop_step [OF d9, simplified]
  note d25 = drop_step [OF d17, simplified]
  note d29 = drop_step [OF d25, simplified]
  note d33 = drop_step [OF d29, simplified]
  have dx: "drop (33 + ?n) data = putLittleEndian (of_nat (length extensions)) 2 @ ?exts @ rest" by (rule drop_step [OF d33])
  have dy: "drop (33 + ?n + 2) data = ?exts @ rest" using drop_step [OF dx] by simp
  have ver: "rd_take data 0 1 = kLogEventCodecVersion"
    using rd_take_put [OF _ d0] by (simp add: kLogEventCodecVersion_def)
  have n32: "?n < 2 ^ (8 * 4)" using fits by (simp add: kMaxEncodedEventBytes_def)
  have size: "unat (rd_take data 29 4) = ?n" by (rule rd_take_size [OF d29 _ n32]) simp
  have idx: "(ucast (rd_take data 25 4) :: u32) = eventIndex event" using rd_take_put [OF _ d25] by (simp add: ucast_take_bit_back)
  have cnt: "unat (rd_take data (33 + ?n) 2) = length extensions" by (rule rd_take_size [OF dx]) (use ext_count in simp_all)
  have len: "length data = 35 + ?n + length ?exts + length rest" by (simp add: data_def bytes)
  have exts: "decode_extensions data (length extensions) (33 + ?n + 2) [] = Inr ([] @ extensions, 33 + ?n + 2 + length ?exts)"
    by (rule decode_extensions_encoded [OF dy]) (use total in simp)
  have ev: "\<lparr>evStoryId = evStoryId event, eventTime = eventTime event, clientId = clientId event, eventIndex = eventIndex event,
      logRecord = logRecord event\<rparr> = event" by simp
  have "length (part_bytes parts) = 35 + ?n + length ?exts" by (simp add: bytes)
  then show ?thesis
    unfolding data_def [symmetric] decodeLogEvent_def
    using ver size idx cnt exts ev total len rd_take_byte8 [OF d1] rd_take_byte8 [OF d9] rd_take_byte8 [OF d17] rd_skip_at [OF d33 refl]
    by (simp add: Let_def kHeadBytes_def kExtensionCountBytes_def rd_has_def)
qed

text \<open>
  Claim C35. Decoding reads back exactly the event and the extensions that were encoded, and
  consumes exactly the bytes of the encoding, whatever bytes follow it.
\<close>

theorem decode_encode_event:
  assumes "encodeLogEvent event extensions = Inr parts"
  shows "decodeLogEvent (part_bytes parts @ rest) = Inr (event, extensions, length (part_bytes parts))"
  using assms by (rule decodeLogEvent_encoded)

theorem decode_encode_event_witness:
  "\<exists>parts. encodeLogEvent (ex_event 12 3 1) [\<lparr>ext_tag = 9, ext_value = [4, 5]\<rparr>] = Inr parts \<and>
    decodeLogEvent (part_bytes parts @ [0]) = Inr (ex_event 12 3 1, [\<lparr>ext_tag = 9, ext_value = [4, 5]\<rparr>], length (part_bytes parts))"
proof -
  obtain parts where "encodeLogEvent (ex_event 12 3 1) [\<lparr>ext_tag = 9, ext_value = [4, 5]\<rparr>] = Inr parts"
    by (simp add: encodeLogEvent_def ex_event_def kHeadBytes_def kExtensionCountBytes_def kExtensionHeadBytes_def
        kMaxEncodedEventBytes_def)
  then show ?thesis using decode_encode_event [of "ex_event 12 3 1" "[\<lparr>ext_tag = 9, ext_value = [4, 5]\<rparr>]" parts "[0]"] by blast
qed

section \<open>A cut encoding is recognised\<close>

text \<open>A verdict other than \<open>Truncated\<close> depends only on the bytes that were checked for.\<close>

lemma getLittleEndian_cong: "(\<And>i. i < n \<Longrightarrow> xs ! i = ys ! i) \<Longrightarrow> getLittleEndian xs n = getLittleEndian ys n"
  unfolding getLittleEndian_def by (rule fold_cong) auto

lemma rd_extend:
  assumes "rd_has data pos n" "pos \<le> length data"
  shows "rd_has (data @ ys) pos n" "rd_take (data @ ys) pos n = rd_take data pos n" "rd_skip (data @ ys) pos n = rd_skip data pos n"
proof -
  have n: "n \<le> length (drop pos data)" using assms by (simp add: rd_has_def)
  show "rd_has (data @ ys) pos n" using assms by (simp add: rd_has_def)
  show "rd_take (data @ ys) pos n = rd_take data pos n"
    unfolding rd_take_def using n assms(2) by (intro getLittleEndian_cong) (simp add: nth_append)
  show "rd_skip (data @ ys) pos n = rd_skip data pos n" using n assms(2) by (simp add: rd_skip_def)
qed

lemma rd_extend_part:
  assumes "rd_has data pos n" "pos \<le> length data" "k + m \<le> n"
  shows "rd_take (data @ ys) (pos + k) m = rd_take data (pos + k) m"
  using assms by (intro rd_extend(2)) (auto simp: rd_has_def)

lemma decode_extensions_extend:
  assumes "decode_extensions data n pos acc \<noteq> Inl Truncated" "pos \<le> length data"
  shows "decode_extensions (data @ ys) n pos acc = decode_extensions data n pos acc \<and>
    (\<forall>r e. decode_extensions data n pos acc = Inr (r, e) \<longrightarrow> e \<le> length data)"
  using assms
proof (induction n arbitrary: pos acc)
  case (Suc n)
  have has: "rd_has data pos kExtensionHeadBytes" using Suc.prems(1) by (auto split: if_splits)
  define len where "len = unat (rd_take data (pos + 2) 4)"
  note ex = rd_extend(1) [OF has Suc.prems(2), of ys] rd_extend_part [OF has Suc.prems(2), of 0 2 ys]
    rd_extend_part [OF has Suc.prems(2), of 2 4 ys]
  have pos6: "pos + 6 \<le> length data" using has Suc.prems(2) by (simp add: rd_has_def kExtensionHeadBytes_def)
  show ?case
  proof (cases "kMaxEncodedEventBytes < pos + 6 + len")
    case True
    then show ?thesis using has ex by (simp add: Let_def len_def kExtensionHeadBytes_def)
  next
    case False
    then have has2: "rd_has data (pos + 6) len" using Suc.prems(1) has by (auto simp: Let_def len_def split: if_splits)
    then have le: "pos + 6 + len \<le> length data" using pos6 by (simp add: rd_has_def)
    have run: "decode_extensions data (Suc n) pos acc = decode_extensions data n (pos + 6 + len)
        (acc @ [\<lparr>ext_tag = ucast (rd_take data pos 2), ext_value = rd_skip data (pos + 6) len\<rparr>])"
      using has has2 False by (simp add: Let_def len_def)
    have run': "decode_extensions (data @ ys) (Suc n) pos acc = decode_extensions (data @ ys) n (pos + 6 + len)
        (acc @ [\<lparr>ext_tag = ucast (rd_take data pos 2), ext_value = rd_skip data (pos + 6) len\<rparr>])"
      using ex has2 False rd_extend [OF has2 pos6] by (simp add: Let_def len_def kExtensionHeadBytes_def)
    show ?thesis unfolding run run' by (rule Suc.IH) (use Suc.prems(1) run le in simp_all)
  qed
qed auto

lemma decodeLogEvent_extend:
  assumes "decodeLogEvent data \<noteq> Inl Truncated"
  shows "decodeLogEvent (data @ ys) = decodeLogEvent data \<and> (\<forall>ev r e. decodeLogEvent data = Inr (ev, r, e) \<longrightarrow> e \<le> length data)"
proof -
  have h1: "rd_has data 0 1" using assms by (auto simp: decodeLogEvent_def split: if_splits)
  note x1 = rd_extend [OF h1, of ys]
  show ?thesis
  proof (cases "rd_take data 0 1 = kLogEventCodecVersion")
    case False
    then show ?thesis using h1 x1 by (simp add: decodeLogEvent_def)
  next
    case ver: True
    then have h2: "rd_has data 1 (kHeadBytes - 1)" using assms h1 by (auto simp: decodeLogEvent_def split: if_splits)
    have l1: "1 \<le> length data" using h1 by (simp add: rd_has_def)
    have l33: "33 \<le> length data" using h2 l1 by (simp add: rd_has_def kHeadBytes_def)
    note x2 = rd_extend(1) [OF h2 l1, of ys]
    have f: "rd_take (data @ ys) 1 8 = rd_take data 1 8" "rd_take (data @ ys) 9 8 = rd_take data 9 8"
      "rd_take (data @ ys) 17 8 = rd_take data 17 8" "rd_take (data @ ys) 25 4 = rd_take data 25 4"
      "rd_take (data @ ys) 29 4 = rd_take data 29 4"
      using rd_extend_part [OF h2 l1, of 0 8 ys] rd_extend_part [OF h2 l1, of 8 8 ys] rd_extend_part [OF h2 l1, of 16 8 ys]
        rd_extend_part [OF h2 l1, of 24 4 ys] rd_extend_part [OF h2 l1, of 28 4 ys]
      by (simp_all add: kHeadBytes_def)
    define len where "len = unat (rd_take data 29 4)"
    show ?thesis
    proof (cases "kMaxEncodedEventBytes < kHeadBytes + len + kExtensionCountBytes")
      case True
      then show ?thesis using h1 x1 ver h2 x2 f by (simp add: decodeLogEvent_def Let_def len_def)
    next
      case small: False
      then have h3: "rd_has data kHeadBytes len" and h4: "rd_has data (kHeadBytes + len) kExtensionCountBytes"
        using assms h1 ver h2 by (auto simp: decodeLogEvent_def Let_def len_def split: if_splits)
      have lh: "kHeadBytes \<le> length data" using l33 by (simp add: kHeadBytes_def)
      have lr: "kHeadBytes + len \<le> length data" using h3 lh by (simp add: rd_has_def)
      note x3 = rd_extend [OF h3 lh, of ys]
      note x4 = rd_extend [OF h4 lr, of ys]
      have c2: "kExtensionCountBytes = 2" by (simp add: kExtensionCountBytes_def)
      have lx: "kHeadBytes + len + 2 \<le> length data" using h4 lr by (simp add: rd_has_def c2)
      define r where "r = decode_extensions data (unat (rd_take data (kHeadBytes + len) 2)) (kHeadBytes + len + 2) []"
      have "r \<noteq> Inl Truncated"
        using assms h1 ver h2 small h3 h4 by (auto simp: decodeLogEvent_def Let_def len_def r_def split: if_splits sum.splits)
      then have r': "decode_extensions (data @ ys) (unat (rd_take data (kHeadBytes + len) 2)) (kHeadBytes + len + 2) [] = r"
        "\<forall>xs e. r = Inr (xs, e) \<longrightarrow> e \<le> length data"
        using decode_extensions_extend [of data _ "kHeadBytes + len + 2" "[]" ys, OF _ lx] unfolding r_def by blast+
      show ?thesis
        using h1 x1 ver h2 x2 f small h3 h4 x3 x4 r'
        by (auto simp: decodeLogEvent_def Let_def len_def [symmetric] r_def c2 split: sum.splits)
    qed
  qed
qed

text \<open>
  Claim C34. An encoding that was cut anywhere before its end, as a torn write leaves it, is
  always reported as truncated: it is never taken for a shorter event, for another version or for one
  that is too large.
\<close>

theorem cut_encoding_is_truncated:
  assumes enc: "encodeLogEvent event extensions = Inr parts" and cut: "m < length (part_bytes parts)"
  shows "decodeLogEvent (take m (part_bytes parts)) = Inl Truncated"
proof (rule ccontr)
  let ?cut = "take m (part_bytes parts)"
  assume "decodeLogEvent ?cut \<noteq> Inl Truncated"
  note ext = decodeLogEvent_extend [OF this, of "drop m (part_bytes parts)"]
  have "decodeLogEvent ?cut = Inr (event, extensions, length (part_bytes parts))"
    using ext decodeLogEvent_encoded [OF enc, of "[]"] by simp
  then have "length (part_bytes parts) \<le> length ?cut" using ext by blast
  then show False using cut by simp
qed

theorem cut_encoding_is_truncated_witness:
  "\<exists>parts. encodeLogEvent (ex_event 12 3 1) [] = Inr parts \<and> decodeLogEvent (take 30 (part_bytes parts)) = Inl Truncated"
proof -
  obtain parts where p: "encodeLogEvent (ex_event 12 3 1) [] = Inr parts" "length (part_bytes parts) = 36"
    by (simp add: encodeLogEvent_def ex_event_def kHeadBytes_def kExtensionCountBytes_def kMaxEncodedEventBytes_def part_bytes_def)
  then show ?thesis using cut_encoding_is_truncated [OF p(1), of 30] by auto
qed

end
