(* ===== verification/WalFormat.thy ===== *)
theory WalFormat
  imports LogEventCodec
begin

text \<open>
  The records of the keeper's write-ahead log and the scan recovery runs over a segment
  (\<^verbatim>\<open>src/chrono-keeper/src/WalFormat.cpp\<close>, \<^verbatim>\<open>src/chrono-keeper/include/WalFormat.h\<close>)
  with the checksum of the records (\<^verbatim>\<open>src/chrono-common/src/Crc32c.cpp\<close>).

  The checksum is computed by a CPU instruction or by a library; the two instructions and the
  library's computer are arguments, and what the code relies on is stated as their documented
  behaviour. The records are written and scanned with a checksum function as argument.
\<close>

section \<open>Checksum\<close>

text \<open>
  \<^verbatim>\<open>crc32cHardware\<close>: the instruction on single bytes up to an address divisible by eight, on
  eight bytes at a time, and on the bytes left. \<open>addr\<close> is the address of the first byte.
\<close>

fun crc_align :: "(u32 \<Rightarrow> u8 \<Rightarrow> u32) \<Rightarrow> nat \<Rightarrow> u64 \<Rightarrow> u8 list \<Rightarrow> u64 \<times> u8 list" where
  "crc_align mm8 addr r [] = (r, [])"
| "crc_align mm8 addr r (b # bs) =
     (if addr mod 8 \<noteq> 0 then crc_align mm8 (addr + 1) (ucast (mm8 (ucast r) b)) bs else (r, b # bs))"

function crc_words :: "(u64 \<Rightarrow> u64 \<Rightarrow> u64) \<Rightarrow> u64 \<Rightarrow> u8 list \<Rightarrow> u64 \<times> u8 list" where
  "crc_words mm64 r bs =
     (if 8 \<le> length bs then crc_words mm64 (mm64 r (getLittleEndian bs 8)) (drop 8 bs) else (r, bs))"
  by pat_completeness auto
termination by (relation "measure (\<lambda>(mm64, r, bs). length bs)") auto

declare crc_words.simps [simp del]

definition crc_bytes :: "(u32 \<Rightarrow> u8 \<Rightarrow> u32) \<Rightarrow> u64 \<Rightarrow> u8 list \<Rightarrow> u64" where
  "crc_bytes mm8 r bs = fold (\<lambda>b r. ucast (mm8 (ucast r) b)) bs r"

definition crc32cHardware ::
  "(u32 \<Rightarrow> u8 \<Rightarrow> u32) \<Rightarrow> (u64 \<Rightarrow> u64 \<Rightarrow> u64) \<Rightarrow> nat \<Rightarrow> u32 \<Rightarrow> u8 list \<Rightarrow> u32" where
  "crc32cHardware mm8 mm64 addr crc bs =
     (let r0 = ucast (NOT crc);
          (r1, bs1) = crc_align mm8 addr r0 bs;
          (r2, bs2) = crc_words mm64 r1 bs1
      in NOT (ucast (crc_bytes mm8 r2 bs2)))"

text \<open>The loop of \<^verbatim>\<open>crc32c_software\<close> that reverses the bits of the remainder.\<close>

fun unreflect_loop :: "nat \<Rightarrow> u32 \<Rightarrow> u32 \<Rightarrow> u32" where
  "unreflect_loop 0 r u = u"
| "unreflect_loop (Suc n) r u = unreflect_loop n (drop_bit 1 r) (push_bit 1 u OR (r AND 1))"

definition crc32c_software :: "(u32 \<Rightarrow> u8 list \<Rightarrow> u32) \<Rightarrow> u32 \<Rightarrow> u8 list \<Rightarrow> u32" where
  "crc32c_software boost_crc crc bs = boost_crc (unreflect_loop 32 (crc XOR 0xFFFFFFFF) 0) bs"

definition crc32c_extend ::
  "bool \<Rightarrow> (u32 \<Rightarrow> u8 \<Rightarrow> u32) \<Rightarrow> (u64 \<Rightarrow> u64 \<Rightarrow> u64) \<Rightarrow> (u32 \<Rightarrow> u8 list \<Rightarrow> u32) \<Rightarrow> nat \<Rightarrow> u32 \<Rightarrow> u8 list \<Rightarrow> u32" where
  "crc32c_extend hardware mm8 mm64 boost_crc addr crc bs =
     (if hardware then crc32cHardware mm8 mm64 addr crc bs else crc32c_software boost_crc crc bs)"

section \<open>Frames\<close>

definition kMagic :: "u8 list" where "kMagic = [67, 76, 87, 65, 76]"
definition kFormatVersion :: u16 where "kFormatVersion = 1"
definition kMaxBodyBytes :: nat where "kMaxBodyBytes = 256 * 2 ^ 20"
definition kFrameHeaderBytes :: nat where "kFrameHeaderBytes = 8"
definition kGroupFrameBytes :: nat where "kGroupFrameBytes = kFrameHeaderBytes + 1 + 8"

datatype RecordType = Header | Names | EventR | Dropped | Group

fun type_byte :: "RecordType \<Rightarrow> u8" where
  "type_byte Header = 72"
| "type_byte Names = 78"
| "type_byte EventR = 69"
| "type_byte Dropped = 68"
| "type_byte Group = 71"

record HeaderRecord =
  format_version :: u16
  segment_number :: u64
  created_ns :: u64
  keeper_endpoint :: cpp_string

record NamesRecord =
  names_story_id :: StoryId
  names_chronicle :: cpp_string
  names_story :: cpp_string

text \<open>\<^verbatim>\<open>FrameBuilder\<close>: the frame built so far.\<close>

definition fb_new :: "RecordType \<Rightarrow> u8 list" where
  "fb_new type = replicate kFrameHeaderBytes 0 @ [type_byte type]"

definition fb_put :: "u64 \<Rightarrow> nat \<Rightarrow> u8 list \<Rightarrow> u8 list" where
  "fb_put v n frame = frame @ putLittleEndian v n"

definition fb_checkRoom :: "nat \<Rightarrow> u8 list \<Rightarrow> length_error + u8 list" where
  "fb_checkRoom extra frame =
     (if kMaxBodyBytes < length frame - kFrameHeaderBytes + extra then Inl BodyTooLarge else Inr frame)"

definition fb_putString :: "cpp_string \<Rightarrow> u8 list \<Rightarrow> length_error + u8 list" where
  "fb_putString v frame =
     sum_bind (fb_checkRoom (4 + length v) frame) (\<lambda>f. Inr (fb_put (of_nat (length v)) 4 f @ v))"

definition fb_finish :: "(u32 \<Rightarrow> u8 list \<Rightarrow> u32) \<Rightarrow> u8 list \<Rightarrow> length_error + u8 list" where
  "fb_finish crc frame =
     sum_bind (fb_checkRoom 0 frame) (\<lambda>f.
       let body = drop kFrameHeaderBytes f
       in Inr (putLittleEndian (of_nat (length body)) 4 @ putLittleEndian (ucast (crc 0 body)) 4 @ body))"

definition encodeHeader :: "(u32 \<Rightarrow> u8 list \<Rightarrow> u32) \<Rightarrow> HeaderRecord \<Rightarrow> length_error + u8 list" where
  "encodeHeader crc h =
     (let f = fb_new Header @ kMagic;
          f = fb_put (ucast (format_version h)) 2 f;
          f = fb_put (segment_number h) 8 f;
          f = fb_put (created_ns h) 8 f
      in sum_bind (fb_putString (keeper_endpoint h) f) (fb_finish crc))"

definition encodeNames :: "(u32 \<Rightarrow> u8 list \<Rightarrow> u32) \<Rightarrow> NamesRecord \<Rightarrow> length_error + u8 list" where
  "encodeNames crc n =
     sum_bind (fb_putString (names_chronicle n) (fb_put (names_story_id n) 8 (fb_new Names))) (\<lambda>f.
       sum_bind (fb_putString (names_story n) f) (fb_finish crc))"

definition encodeDropped :: "(u32 \<Rightarrow> u8 list \<Rightarrow> u32) \<Rightarrow> StoryId \<Rightarrow> length_error + u8 list" where
  "encodeDropped crc sid = fb_finish crc (fb_put sid 8 (fb_new Dropped))"

definition encodeGroup :: "(u32 \<Rightarrow> u8 list \<Rightarrow> u32) \<Rightarrow> u64 \<Rightarrow> length_error + u8 list" where
  "encodeGroup crc bytes = fb_finish crc (fb_put bytes 8 (fb_new Group))"

record EventFrame =
  frame_header :: "u8 list"
  frame_head :: "u8 list"
  frame_record :: "u8 list"
  frame_tail :: "u8 list"

definition encodeEvent ::
  "(u32 \<Rightarrow> u8 list \<Rightarrow> u32) \<Rightarrow> LogEvent \<Rightarrow> EventExtension list \<Rightarrow> length_error + EventFrame" where
  "encodeEvent crc event extensions =
     sum_bind (encodeLogEvent event extensions) (\<lambda>parts.
       let body_size = 1 + length (part_head parts) + length (part_record parts) + length (part_tail parts) in
       if kMaxBodyBytes < body_size then Inl BodyTooLarge
       else
         let head = type_byte EventR # part_head parts;
             c = crc 0 head;
             c = crc c (part_record parts);
             c = crc c (part_tail parts)
         in Inr \<lparr>frame_header = putLittleEndian (of_nat body_size) 4 @ putLittleEndian (ucast c) 4,
                 frame_head = head, frame_record = part_record parts, frame_tail = part_tail parts\<rparr>)"

text \<open>The pieces in the order \<^verbatim>\<open>writev\<close> writes them.\<close>

definition event_frame_bytes :: "EventFrame \<Rightarrow> u8 list" where
  "event_frame_bytes f = frame_header f @ frame_head f @ frame_record f @ frame_tail f"

section \<open>Segment names\<close>

text \<open>The digits of \<^verbatim>\<open>%020llu\<close>: the last \<open>k\<close> decimal digits, with leading zeros.\<close>

fun dec_digits :: "nat \<Rightarrow> nat \<Rightarrow> nat list" where
  "dec_digits 0 n = []"
| "dec_digits (Suc k) n = dec_digits k (n div 10) @ [n mod 10]"

definition kSegmentSuffix :: "u8 list" where "kSegmentSuffix = [46, 119, 97, 108]"

definition segmentFileName :: "u64 \<Rightarrow> u8 list" where
  "segmentFileName segment = map (\<lambda>d. of_nat (48 + d)) (dec_digits 20 (unat segment)) @ kSegmentSuffix"

fun parse_digits :: "u8 list \<Rightarrow> u64 \<Rightarrow> u64 option" where
  "parse_digits [] segment = Some segment"
| "parse_digits (c # cs) segment =
     (if c < 48 \<or> 57 < c then None
      else let digit = ucast (c - 48) in
        if (- 1 - digit) div 10 < segment then None
        else parse_digits cs (segment * 10 + digit))"

definition parseSegmentFileName :: "u8 list \<Rightarrow> u64 option" where
  "parseSegmentFileName name =
     (if length name \<noteq> 20 + length kSegmentSuffix \<or> drop 20 name \<noteq> kSegmentSuffix then None
      else parse_digits (take 20 name) 0)"

section \<open>Scanning a segment\<close>

record ScannedRecord =
  sr_type :: u8
  sr_offset :: nat
  sr_body :: "u8 list"

datatype ScanEnd = EndOfData | BadFrame

text \<open>The reason text names the case and these numbers.\<close>

datatype scan_reason =
  HeaderCutShort nat
| BodyLengthOver nat nat
| PassesEnd nat nat nat
| CrcMismatch nat u32 u32

record ScanResult =
  scan_records :: "ScannedRecord list"
  scan_end :: ScanEnd
  end_offset :: nat
  reason :: "scan_reason option"

function scan_from :: "(u32 \<Rightarrow> u8 list \<Rightarrow> u32) \<Rightarrow> u8 list \<Rightarrow> nat \<Rightarrow> ScanResult" where
  "scan_from crc bytes pos =
     (let left = length bytes - pos in
      if left = 0 then \<lparr>scan_records = [], scan_end = EndOfData, end_offset = pos, reason = None\<rparr>
      else if left < 4
      then if \<forall>b\<in>set (drop pos bytes). b = 0
           then \<lparr>scan_records = [], scan_end = EndOfData, end_offset = pos, reason = None\<rparr>
           else \<lparr>scan_records = [], scan_end = BadFrame, end_offset = pos, reason = Some (HeaderCutShort pos)\<rparr>
      else
        let body_size = unat (getLittleEndian (drop pos bytes) 4) in
        if body_size = 0 then \<lparr>scan_records = [], scan_end = EndOfData, end_offset = pos, reason = None\<rparr>
        else if kMaxBodyBytes < body_size
        then \<lparr>scan_records = [], scan_end = BadFrame, end_offset = pos, reason = Some (BodyLengthOver body_size pos)\<rparr>
        else if left < kFrameHeaderBytes + body_size
        then \<lparr>scan_records = [], scan_end = BadFrame, end_offset = pos,
              reason = Some (PassesEnd (kFrameHeaderBytes + body_size) pos left)\<rparr>
        else
          let body = take body_size (drop (pos + kFrameHeaderBytes) bytes);
              stored = ucast (getLittleEndian (drop (pos + 4) bytes) 4);
              computed = crc 0 body
          in if stored \<noteq> computed
             then \<lparr>scan_records = [], scan_end = BadFrame, end_offset = pos,
                   reason = Some (CrcMismatch pos stored computed)\<rparr>
             else
               let r = scan_from crc bytes (pos + (kFrameHeaderBytes + body_size))
               in r\<lparr>scan_records := \<lparr>sr_type = hd body, sr_offset = pos, sr_body = body\<rparr> # scan_records r\<rparr>)"
  by pat_completeness auto
termination by (relation "measure (\<lambda>(crc, bytes, pos). length bytes - pos)") (auto simp: kFrameHeaderBytes_def)

declare scan_from.simps [simp del]

definition scanSegment :: "(u32 \<Rightarrow> u8 list \<Rightarrow> u32) \<Rightarrow> u8 list \<Rightarrow> ScanResult" where
  "scanSegment crc bytes = scan_from crc bytes 0"

section \<open>Decoding a body\<close>

text \<open>\<^verbatim>\<open>BodyReader\<close>: the bytes not read yet.\<close>

definition br_takeType :: "RecordType \<Rightarrow> u8 list \<Rightarrow> u8 list option" where
  "br_takeType type bs = (case bs of [] \<Rightarrow> None | b # rest \<Rightarrow> if b \<noteq> type_byte type then None else Some rest)"

definition br_take :: "nat \<Rightarrow> u8 list \<Rightarrow> (u64 \<times> u8 list) option" where
  "br_take n bs = (if length bs < n then None else Some (getLittleEndian bs n, drop n bs))"

definition br_takeBytes :: "nat \<Rightarrow> u8 list \<Rightarrow> (u8 list \<times> u8 list) option" where
  "br_takeBytes n bs = (if length bs < n then None else Some (take n bs, drop n bs))"

definition br_takeString :: "u8 list \<Rightarrow> (cpp_string \<times> u8 list) option" where
  "br_takeString bs = Option.bind (br_take 4 bs) (\<lambda>(n, rest). br_takeBytes (unat n) rest)"

text \<open>
  \<^verbatim>\<open>decodeHeader\<close> returns the version it found, 0 unless the magic matched, and the record on
  success.
\<close>

definition decodeHeader :: "u8 list \<Rightarrow> u16 \<times> HeaderRecord option" where
  "decodeHeader body =
     (case Option.bind (br_takeType Header body) (br_takeBytes 5) of
        None \<Rightarrow> (0, None)
      | Some (magic, rest) \<Rightarrow>
          if magic \<noteq> kMagic then (0, None)
          else
            (case br_take 2 rest of
               None \<Rightarrow> (0, None)
             | Some (version, rest1) \<Rightarrow>
                 (ucast version,
                  if ucast version \<noteq> kFormatVersion then None
                  else
                    Option.bind (br_take 8 rest1) (\<lambda>(segment, rest2).
                    Option.bind (br_take 8 rest2) (\<lambda>(created, rest3).
                    Option.bind (br_takeString rest3) (\<lambda>(endpoint, rest4).
                      if rest4 = [] then Some \<lparr>format_version = ucast version, segment_number = segment,
                                              created_ns = created, keeper_endpoint = endpoint\<rparr>
                      else None))))))"

definition decodeNames :: "u8 list \<Rightarrow> NamesRecord option" where
  "decodeNames body =
     Option.bind (br_takeType Names body) (\<lambda>r0.
     Option.bind (br_take 8 r0) (\<lambda>(sid, r1).
     Option.bind (br_takeString r1) (\<lambda>(chronicle, r2).
     Option.bind (br_takeString r2) (\<lambda>(story, r3).
       if r3 = [] then Some \<lparr>names_story_id = sid, names_chronicle = chronicle, names_story = story\<rparr> else None))))"

definition decodeDropped :: "u8 list \<Rightarrow> StoryId option" where
  "decodeDropped body =
     Option.bind (br_takeType Dropped body) (\<lambda>r0.
     Option.bind (br_take 8 r0) (\<lambda>(sid, r1). if r1 = [] then Some sid else None))"

definition decodeGroup :: "u8 list \<Rightarrow> u64 option" where
  "decodeGroup body =
     Option.bind (br_takeType Group body) (\<lambda>r0.
     Option.bind (br_take 8 r0) (\<lambda>(bytes, r1). if r1 = [] then Some bytes else None))"

section \<open>The checksum is the bytewise one\<close>

text \<open>The checksum as its definition has it: one step per byte between two complements.\<close>

definition crc32c_bytewise :: "(u32 \<Rightarrow> u8 \<Rightarrow> u32) \<Rightarrow> u32 \<Rightarrow> u8 list \<Rightarrow> u32" where
  "crc32c_bytewise mm8 crc bs = NOT (fold (\<lambda>b r. mm8 r b) bs (NOT crc))"

lemma putLittleEndian_get_n:
  assumes "n \<le> 8" "n \<le> length bs"
  shows "putLittleEndian (getLittleEndian bs n) n = take n bs"
proof (rule nth_equalityI)
  fix i assume "i < length (putLittleEndian (getLittleEndian bs n) n)"
  then have i: "i < n" by simp
  have "bit (putLittleEndian (getLittleEndian bs n) n ! i) k = bit (bs ! i) k" if "k < 8" for k
    using i that assms by (simp add: nth_putLittleEndian bit_simps bit_getLittleEndian)
  then show "putLittleEndian (getLittleEndian bs n) n ! i = take n bs ! i"
    using i assms by (intro bit_word_eqI) simp
qed (use assms in simp)

text \<open>What the users of a checksum rely on: it can be computed piece by piece.\<close>

locale checksum =
  fixes crc :: "u32 \<Rightarrow> u8 list \<Rightarrow> u32"
  assumes extend: "crc (crc c xs) ys = crc c (xs @ ys)"
begin

lemma three_pieces: "crc (crc (crc c xs) ys) zs = crc c (xs @ ys @ zs)"
  by (simp add: extend)

end

text \<open>The instructions as the processor's manual documents them: the wide one takes eight bytes, lowest first.\<close>

locale crc_instructions =
  fixes mm8 :: "u32 \<Rightarrow> u8 \<Rightarrow> u32" and mm64 :: "u64 \<Rightarrow> u64 \<Rightarrow> u64"
  assumes wide: "mm64 (ucast r) w = ucast (fold (\<lambda>b r. mm8 r b) (putLittleEndian w 8) r)"
begin

lemma ucast_up_down: "(ucast (ucast r :: u64) :: u32) = r"
  by (rule bit_word_eqI) (auto simp: bit_simps)

lemma align: "\<exists>seen. bs = seen @ snd (crc_align mm8 addr (ucast r) bs) \<and>
    fst (crc_align mm8 addr (ucast r) bs) = ucast (fold (\<lambda>b r. mm8 r b) seen r)"
proof (induction bs arbitrary: addr r)
  case (Cons b bs)
  show ?case
  proof (cases "addr mod 8 = 0")
    case False
    obtain seen where "bs = seen @ snd (crc_align mm8 (addr + 1) (ucast (mm8 r b)) bs)"
        "fst (crc_align mm8 (addr + 1) (ucast (mm8 r b)) bs) = ucast (fold (\<lambda>b r. mm8 r b) seen (mm8 r b))"
      using Cons by blast
    then show ?thesis using False by (intro exI [of _ "b # seen"]) (simp add: ucast_up_down)
  qed simp
qed simp

lemma words: "\<exists>seen. bs = seen @ snd (crc_words mm64 (ucast r) bs) \<and>
    fst (crc_words mm64 (ucast r) bs) = ucast (fold (\<lambda>b r. mm8 r b) seen r)"
proof (induction "length bs" arbitrary: bs r rule: less_induct)
  case less
  show ?case
  proof (cases "8 \<le> length bs")
    case True
    let ?r = "fold (\<lambda>b r. mm8 r b) (take 8 bs) r"
    have step: "crc_words mm64 (ucast r) bs = crc_words mm64 (ucast ?r) (drop 8 bs)"
      using True by (subst crc_words.simps) (simp add: wide putLittleEndian_get_n)
    have "length (drop 8 bs) < length bs" using True by simp
    then obtain seen where seen: "drop 8 bs = seen @ snd (crc_words mm64 (ucast ?r) (drop 8 bs))"
        "fst (crc_words mm64 (ucast ?r) (drop 8 bs)) = ucast (fold (\<lambda>b r. mm8 r b) seen ?r)"
      using less by blast
    have "bs = (take 8 bs @ seen) @ snd (crc_words mm64 (ucast ?r) (drop 8 bs))"
      unfolding append.assoc seen(1) [symmetric] by simp
    moreover have "fst (crc_words mm64 (ucast ?r) (drop 8 bs)) = ucast (fold (\<lambda>b r. mm8 r b) (take 8 bs @ seen) r)"
      using seen(2) by simp
    ultimately show ?thesis unfolding step by blast
  next
    case False
    then show ?thesis by (subst (1 2) crc_words.simps) simp
  qed
qed

lemma bytes: "crc_bytes mm8 (ucast r) bs = ucast (fold (\<lambda>b r. mm8 r b) bs r)"
  unfolding crc_bytes_def by (induction bs arbitrary: r) (simp_all add: ucast_up_down)

lemma hardware_bytewise: "crc32cHardware mm8 mm64 addr crc bs = crc32c_bytewise mm8 crc bs"
proof -
  obtain r1 bs1 where 1: "crc_align mm8 addr (ucast (NOT crc)) bs = (r1, bs1)" by fastforce
  obtain d1 where d1: "bs = d1 @ bs1" "r1 = ucast (fold (\<lambda>b r. mm8 r b) d1 (NOT crc))"
    using align [of bs addr "NOT crc"] 1 by auto
  obtain r2 bs2 where 2: "crc_words mm64 r1 bs1 = (r2, bs2)" by fastforce
  obtain d2 where d2: "bs1 = d2 @ bs2" "r2 = ucast (fold (\<lambda>b r. mm8 r b) d2 (fold (\<lambda>b r. mm8 r b) d1 (NOT crc)))"
    using words [of bs1 "fold (\<lambda>b r. mm8 r b) d1 (NOT crc)"] 2 d1(2) by auto
  have "crc32cHardware mm8 mm64 addr crc bs = NOT (ucast (crc_bytes mm8 r2 bs2))"
    by (simp add: crc32cHardware_def 1 2)
  also have "\<dots> = NOT (fold (\<lambda>b r. mm8 r b) (d1 @ d2 @ bs2) (NOT crc))"
    by (simp add: d2(2) bytes ucast_up_down)
  finally show ?thesis by (simp only: crc32c_bytewise_def d1(1) d2(1))
qed

sublocale checksum "crc32c_bytewise mm8"
  by unfold_locales (simp add: crc32c_bytewise_def)

end

text \<open>The instruction on one byte: eight shifts with the reflected Castagnoli polynomial.\<close>

definition crc_bit :: "u32 \<Rightarrow> u32" where
  "crc_bit r = (if bit r 0 then drop_bit 1 r XOR 0x82F63B78 else drop_bit 1 r)"

definition sse_u8 :: "u32 \<Rightarrow> u8 \<Rightarrow> u32" where
  "sse_u8 r b = (crc_bit ^^ 8) (r XOR ucast b)"

definition sse_u64 :: "u64 \<Rightarrow> u64 \<Rightarrow> u64" where
  "sse_u64 r w = ucast (fold (\<lambda>b r. sse_u8 r b) (putLittleEndian w 8) (ucast r))"

interpretation sse: crc_instructions sse_u8 sse_u64
proof
  fix r :: u32 and w :: u64
  have "(ucast (ucast r :: u64) :: u32) = r" by (rule bit_word_eqI) (auto simp: bit_simps)
  then show "sse_u64 (ucast r) w = ucast (fold (\<lambda>b r. sse_u8 r b) (putLittleEndian w 8) r)" by (simp add: sse_u64_def)
qed

text \<open>
  Claim C36. The hardware checksum does not depend on where the buffer starts: with bytes before
  an aligned address, whole words and the bytes left taken by different instructions, it is the
  checksum taken byte by byte, and the checksum of two pieces is that of the pieces joined, even when
  the pieces lie at unrelated addresses.
\<close>

theorem crc32cHardware_is_bytewise:
  assumes "\<And>r w. mm64 (ucast r) w = ucast (fold (\<lambda>b r. mm8 r b) (putLittleEndian w 8) r)"
  shows "crc32cHardware mm8 mm64 addr crc xs = crc32c_bytewise mm8 crc xs \<and>
    crc32cHardware mm8 mm64 addr2 (crc32cHardware mm8 mm64 addr1 crc xs) ys = crc32cHardware mm8 mm64 addr3 crc (xs @ ys)"
proof -
  have loc: "crc_instructions mm8 mm64" by unfold_locales (rule assms)
  show ?thesis
    unfolding crc_instructions.hardware_bytewise [OF loc]
    by (simp add: crc32c_bytewise_def)
qed

theorem crc32cHardware_is_bytewise_witness:
  "crc32cHardware sse_u8 sse_u64 3 0 [1, 2, 3, 4, 5, 6, 7, 8, 9, 10, 11, 12, 13, 14] =
   crc32c_bytewise sse_u8 0 [1, 2, 3, 4, 5, 6, 7, 8, 9, 10, 11, 12, 13, 14]"
  by (rule crc32cHardware_is_bytewise [THEN conjunct1]) (rule sse.wide)

section \<open>Scanning what was written\<close>

definition frame_of :: "(u32 \<Rightarrow> u8 list \<Rightarrow> u32) \<Rightarrow> u8 list \<Rightarrow> u8 list" where
  "frame_of crc body = putLittleEndian (of_nat (length body)) 4 @ putLittleEndian (ucast (crc 0 body)) 4 @ body"

definition good_body :: "u8 list \<Rightarrow> bool" where
  "good_body body \<longleftrightarrow> body \<noteq> [] \<and> length body \<le> kMaxBodyBytes"

definition frames_of :: "(u32 \<Rightarrow> u8 list \<Rightarrow> u32) \<Rightarrow> u8 list list \<Rightarrow> u8 list" where
  "frames_of crc bodies = concat (map (frame_of crc) bodies)"

text \<open>The records the scan is to report of bodies framed one after another from \<open>pos\<close> on.\<close>

fun frame_records :: "nat \<Rightarrow> u8 list list \<Rightarrow> ScannedRecord list" where
  "frame_records pos [] = []"
| "frame_records pos (body # bodies) =
     \<lparr>sr_type = hd body, sr_offset = pos, sr_body = body\<rparr> # frame_records (pos + kFrameHeaderBytes + length body) bodies"

lemma frames_of_simps [simp]: "frames_of crc [] = []" "frames_of crc (b # bs) = frame_of crc b @ frames_of crc bs"
  by (simp_all add: frames_of_def)

lemma length_frame_of [simp]: "length (frame_of crc body) = kFrameHeaderBytes + length body"
  by (simp add: frame_of_def kFrameHeaderBytes_def)

lemma map_frame_records [simp]: "map sr_body (frame_records pos bodies) = bodies"
  by (induction bodies arbitrary: pos) simp_all

lemma getLittleEndian_put_append: "n \<le> 8 \<Longrightarrow> getLittleEndian (putLittleEndian v n @ rest) n = take_bit (8 * n) v"
  by (rule getLittleEndian_put) (simp_all add: nth_append)

lemma body_size_read:
  assumes "length body \<le> kMaxBodyBytes"
  shows "unat (getLittleEndian (putLittleEndian (of_nat (length body)) 4 @ rest) 4) = length body"
proof -
  have "length body < 2 ^ 32" using assms by (simp add: kMaxBodyBytes_def)
  then show ?thesis by (simp add: getLittleEndian_put_append unat_take_bit_of_nat)
qed

lemma crc_read: "ucast (getLittleEndian (putLittleEndian (ucast (c :: u32)) 4 @ rest) 4) = c"
  by (simp add: getLittleEndian_put_append ucast_take_bit_back)

lemma scan_frame:
  assumes at: "drop pos bytes = frame_of crc body @ rest" and good: "good_body body"
  shows "scan_from crc bytes pos =
    (let r = scan_from crc bytes (pos + length (frame_of crc body))
     in r\<lparr>scan_records := \<lparr>sr_type = hd body, sr_offset = pos, sr_body = body\<rparr> # scan_records r\<rparr>)"
proof -
  have left: "length bytes - pos = 8 + length body + length rest"
    using arg_cong [OF at, of length] by (simp add: frame_of_def)
  have at4: "drop (pos + 4) bytes = putLittleEndian (ucast (crc 0 body)) 4 @ body @ rest"
    using drop_step [of pos bytes "putLittleEndian (of_nat (length body)) 4"] at by (simp add: frame_of_def)
  have at8: "drop (pos + kFrameHeaderBytes) bytes = body @ rest"
    using drop_step [of "pos + 4" bytes "putLittleEndian (ucast (crc 0 body)) 4"] at4 by (simp add: kFrameHeaderBytes_def add.commute)
  have size: "unat (getLittleEndian (drop pos bytes) 4) = length body"
    using good by (simp add: at frame_of_def body_size_read good_body_def)
  have ok: "length body \<noteq> 0" "\<not> kMaxBodyBytes < length body" "\<not> length bytes - pos < kFrameHeaderBytes + length body"
      "length bytes - pos \<noteq> 0" "\<not> length bytes - pos < 4"
    using good left by (auto simp: good_body_def kFrameHeaderBytes_def)
  show ?thesis
    by (subst scan_from.simps)
      (simp only: Let_def size ok at4 at8 crc_read if_False append_eq_conv_conj length_frame_of not_True_eq_False
        take_append diff_self_eq_0 take_0 append_Nil2 take_all [OF order_refl] add.assoc simp_thms)
qed

lemma scan_frames:
  assumes "drop pos bytes = frames_of crc bodies @ rest" "\<forall>b\<in>set bodies. good_body b"
  shows "scan_from crc bytes pos =
    (let r = scan_from crc bytes (pos + length (frames_of crc bodies))
     in r\<lparr>scan_records := frame_records pos bodies @ scan_records r\<rparr>)"
  using assms
proof (induction bodies arbitrary: pos)
  case (Cons b bs)
  have at: "drop pos bytes = frame_of crc b @ frames_of crc bs @ rest" using Cons.prems by simp
  note step = scan_frame [OF at]
  have "drop (pos + length (frame_of crc b)) bytes = frames_of crc bs @ rest" by (rule drop_step [OF at])
  from Cons.IH [OF this] show ?case using step Cons.prems by (simp add: Let_def add.assoc)
qed (simp add: Let_def)

text \<open>What may follow the last whole frame: room never written, or a frame a crash cut off.\<close>

definition torn_tail :: "(u32 \<Rightarrow> u8 list \<Rightarrow> u32) \<Rightarrow> u8 list \<Rightarrow> bool" where
  "torn_tail crc rest \<longleftrightarrow>
     rest = replicate (length rest) 0 \<or> (\<exists>body m. good_body body \<and> m < length (frame_of crc body) \<and> rest = take m (frame_of crc body))"

lemma take_put_append: "n \<le> m \<Longrightarrow> take m (putLittleEndian v n @ rest) = putLittleEndian v n @ take (m - n) rest"
  by simp

lemma scan_tail:
  assumes tail: "torn_tail crc (drop pos bytes)" and pos: "pos \<le> length bytes"
  shows "\<exists>e why. scan_from crc bytes pos = \<lparr>scan_records = [], scan_end = e, end_offset = pos, reason = why\<rparr> \<and>
    (drop pos bytes = replicate (length bytes - pos) 0 \<longrightarrow> e = EndOfData)"
proof (cases "4 \<le> length bytes - pos \<and> drop pos bytes \<noteq> replicate (length bytes - pos) 0")
  case True
  then obtain body m where cut: "good_body body" "m < length (frame_of crc body)" "drop pos bytes = take m (frame_of crc body)"
    using tail by (auto simp: torn_tail_def)
  have left: "length bytes - pos = m" using arg_cong [OF cut(3), of length] cut(2) by simp
  have "unat (getLittleEndian (drop pos bytes) 4) = length body"
    unfolding cut(3) frame_of_def using True cut(1) left
    by (simp add: take_put_append body_size_read good_body_def)
  then show ?thesis using True left cut(1,2)
    by (subst scan_from.simps) (simp add: Let_def good_body_def)
next
  case False
  show ?thesis
  proof (cases "drop pos bytes = replicate (length bytes - pos) 0")
    case zeros: True
    have "getLittleEndian (replicate k 0) 4 = 0" if "4 \<le> k" for k
      using that by (intro bit_word_eqI) (simp add: bit_getLittleEndian nth_replicate)
    then show ?thesis using zeros by (subst scan_from.simps) (auto simp: Let_def not_less)
  next
    case nonzero: False
    then have "length bytes - pos < 4" using False by simp
    then show ?thesis using nonzero by (subst scan_from.simps) (auto simp: Let_def)
  qed
qed

lemma scanSegment_written:
  assumes "\<forall>b\<in>set bodies. good_body b" "torn_tail crc rest"
  shows "scan_records (scanSegment crc (frames_of crc bodies @ rest)) = frame_records 0 bodies \<and>
    end_offset (scanSegment crc (frames_of crc bodies @ rest)) = length (frames_of crc bodies) \<and>
    (rest = replicate (length rest) 0 \<longrightarrow> scan_end (scanSegment crc (frames_of crc bodies @ rest)) = EndOfData)"
  using scan_frames [of 0 "frames_of crc bodies @ rest" crc bodies rest]
    scan_tail [of crc "length (frames_of crc bodies)" "frames_of crc bodies @ rest"] assms
  by (auto simp: scanSegment_def Let_def)

text \<open>The other way round, for arbitrary bytes: the records are the bytes before the end, frame by frame.\<close>

lemma getLittleEndian_4_ucast: "(ucast (ucast (getLittleEndian bs 4) :: u32) :: u64) = getLittleEndian bs 4"
  by (rule bit_word_eqI) (auto simp: bit_simps bit_getLittleEndian)

lemma scan_from_whole:
  "pos \<le> length bytes \<Longrightarrow> (let r = scan_from crc bytes pos in
    end_offset r \<le> length bytes \<and> pos \<le> end_offset r \<and>
    (\<forall>rec\<in>set (scan_records r). good_body (sr_body rec)) \<and>
    scan_records r = frame_records pos (map sr_body (scan_records r)) \<and>
    frames_of crc (map sr_body (scan_records r)) = take (end_offset r - pos) (drop pos bytes))"
proof (induction "length bytes - pos" arbitrary: pos rule: less_induct)
  case less
  let ?d = "drop pos bytes" and ?n = "unat (getLittleEndian (drop pos bytes) 4)"
  let ?body = "take ?n (drop (pos + kFrameHeaderBytes) bytes)"
  let ?whole = "4 \<le> length bytes - pos \<and> ?n \<noteq> 0 \<and> ?n \<le> kMaxBodyBytes \<and> kFrameHeaderBytes + ?n \<le> length bytes - pos \<and>
    ucast (getLittleEndian (drop (pos + 4) bytes) 4) = crc 0 ?body"
  show ?case
  proof (cases ?whole)
    case False
    then show ?thesis using less.prems by (subst scan_from.simps) (auto simp: Let_def)
  next
    case True
    let ?next = "pos + (kFrameHeaderBytes + ?n)"
    let ?r = "scan_from crc bytes ?next"
    have len: "length ?body = ?n" using True by (auto simp: kFrameHeaderBytes_def min_def)
    have 1: "putLittleEndian (of_nat (length ?body)) 4 = take 4 ?d"
      unfolding len using True by (simp add: putLittleEndian_get_n)
    have "putLittleEndian (ucast (crc 0 ?body)) 4 = putLittleEndian (getLittleEndian (drop (pos + 4) bytes) 4) 4"
      using True by (metis getLittleEndian_4_ucast)
    also have "\<dots> = take 4 (drop 4 ?d)"
      using True by (subst putLittleEndian_get_n) (auto simp: kFrameHeaderBytes_def add.commute)
    finally have 2: "putLittleEndian (ucast (crc 0 ?body)) 4 = take 4 (drop 4 ?d)" .
    have body: "?body = take ?n (drop 8 ?d)" by (simp add: kFrameHeaderBytes_def add.commute)
    have frame: "frame_of crc ?body = take (kFrameHeaderBytes + ?n) ?d"
      unfolding frame_of_def 1 2 unfolding body kFrameHeaderBytes_def
      using take_add [of 4 4 ?d] take_add [of 8 ?n ?d] by (simp add: add.commute)
    have "length bytes - ?next < length bytes - pos" "?next \<le> length bytes"
      using True less.prems by (auto simp: kFrameHeaderBytes_def)
    note IH = less.hyps [OF this]
    have good: "good_body ?body" using True len by (auto simp: good_body_def)
    have "drop pos bytes = frame_of crc ?body @ drop (kFrameHeaderBytes + ?n) ?d" unfolding frame by (rule append_take_drop_id [symmetric])
    note step = scan_frame [OF this good, unfolded length_frame_of len]
    have "end_offset ?r - pos = kFrameHeaderBytes + ?n + (end_offset ?r - ?next)" using IH by (auto simp: Let_def)
    then have "take (end_offset ?r - pos) ?d = take (kFrameHeaderBytes + ?n) ?d @ take (end_offset ?r - ?next) (drop ?next bytes)"
      using take_add [of "kFrameHeaderBytes + ?n" "end_offset ?r - ?next" ?d] by (simp only: drop_drop add.commute)
    then show ?thesis unfolding step Let_def
      using IH good frame len by (simp add: Let_def add.assoc)
  qed
qed

section \<open>Records\<close>

lemma br_take_put: "n \<le> 8 \<Longrightarrow> br_take n (putLittleEndian v n @ rest) = Some (take_bit (8 * n) v, rest)"
  by (simp add: br_take_def getLittleEndian_put_append)

lemma br_take_put8: "br_take 8 (putLittleEndian v 8 @ rest) = Some (v, rest)"
  by (simp add: br_take_put take_bit_whole)

lemma br_takeBytes_append: "length xs = n \<Longrightarrow> br_takeBytes n (xs @ rest) = Some (xs, rest)"
  by (auto simp: br_takeBytes_def)

lemma br_takeString_put:
  assumes "length v \<le> kMaxBodyBytes"
  shows "br_takeString (putLittleEndian (of_nat (length v)) 4 @ v @ rest) = Some (v, rest)"
proof -
  have "length v < 2 ^ 32" using assms by (simp add: kMaxBodyBytes_def)
  then show ?thesis by (simp add: br_takeString_def br_take_put unat_take_bit_of_nat br_takeBytes_append)
qed

lemmas br_read = br_take_put8 br_take_put br_takeBytes_append br_takeString_put br_takeType_def

lemma fb_finish_frame:
  assumes "length pre = kFrameHeaderBytes"
  shows "fb_finish crc (pre @ body) = (if kMaxBodyBytes < length body then Inl BodyTooLarge else Inr (frame_of crc body))"
  using assms by (simp add: fb_finish_def fb_checkRoom_def frame_of_def)

lemma fb_putString_frame:
  assumes "length pre = kFrameHeaderBytes"
  shows "fb_putString v (pre @ body) =
    (if kMaxBodyBytes < length body + (4 + length v) then Inl BodyTooLarge
     else Inr (pre @ (body @ putLittleEndian (of_nat (length v)) 4 @ v)))"
  using assms by (simp add: fb_putString_def fb_checkRoom_def fb_put_def)

text \<open>The body of each record, and that its encoder frames this body or refuses it.\<close>

datatype WalRecord =
  HeaderRec HeaderRecord
| NamesRec NamesRecord
| EventRec LogEvent "EventExtension list"
| DroppedRec StoryId
| GroupRec u64

definition string_field :: "cpp_string \<Rightarrow> u8 list" where
  "string_field v = putLittleEndian (of_nat (length v)) 4 @ v"

fun record_body :: "WalRecord \<Rightarrow> u8 list" where
  "record_body (HeaderRec h) = type_byte Header # kMagic @ putLittleEndian (ucast (format_version h)) 2 @
     putLittleEndian (segment_number h) 8 @ putLittleEndian (created_ns h) 8 @ string_field (keeper_endpoint h)"
| "record_body (NamesRec n) = type_byte Names # putLittleEndian (names_story_id n) 8 @
     string_field (names_chronicle n) @ string_field (names_story n)"
| "record_body (EventRec e xs) = type_byte EventR # (case encodeLogEvent e xs of Inl _ \<Rightarrow> [] | Inr p \<Rightarrow> part_bytes p)"
| "record_body (DroppedRec sid) = type_byte Dropped # putLittleEndian sid 8"
| "record_body (GroupRec n) = type_byte Group # putLittleEndian n 8"

fun encode_record :: "(u32 \<Rightarrow> u8 list \<Rightarrow> u32) \<Rightarrow> WalRecord \<Rightarrow> length_error + u8 list" where
  "encode_record crc (HeaderRec h) = encodeHeader crc h"
| "encode_record crc (NamesRec n) = encodeNames crc n"
| "encode_record crc (EventRec e xs) = sum_bind (encodeEvent crc e xs) (\<lambda>f. Inr (event_frame_bytes f))"
| "encode_record crc (DroppedRec sid) = encodeDropped crc sid"
| "encode_record crc (GroupRec n) = encodeGroup crc n"

text \<open>The decoder a reader picks by the type byte of a scanned record.\<close>

definition decode_record :: "u8 list \<Rightarrow> WalRecord option" where
  "decode_record body =
     (if body = [] then None
      else if hd body = type_byte Header then map_option HeaderRec (snd (decodeHeader body))
      else if hd body = type_byte Names then map_option NamesRec (decodeNames body)
      else if hd body = type_byte EventR
      then (case decodeLogEvent (tl body) of Inl _ \<Rightarrow> None | Inr (e, xs, _) \<Rightarrow> Some (EventRec e xs))
      else if hd body = type_byte Dropped then map_option DroppedRec (decodeDropped body)
      else if hd body = type_byte Group then map_option GroupRec (decodeGroup body)
      else None)"

lemma fb_new_split: "fb_new type @ xs = replicate kFrameHeaderBytes 0 @ (type_byte type # xs)"
  by (simp add: fb_new_def)

lemma encodeHeader_frame:
  assumes "encodeHeader crc h = Inr f"
  shows "f = frame_of crc (record_body (HeaderRec h)) \<and> good_body (record_body (HeaderRec h))"
  using assms
  by (auto simp: encodeHeader_def fb_put_def fb_new_split fb_putString_frame fb_finish_frame good_body_def string_field_def
      split: if_splits)

lemma encodeNames_frame:
  assumes "encodeNames crc n = Inr f"
  shows "f = frame_of crc (record_body (NamesRec n)) \<and> good_body (record_body (NamesRec n))"
  using assms
  by (auto simp: encodeNames_def fb_put_def fb_new_split fb_putString_frame fb_finish_frame good_body_def string_field_def
      split: if_splits)

lemma encodeDropped_frame:
  "encodeDropped crc sid = Inr (frame_of crc (record_body (DroppedRec sid))) \<and> good_body (record_body (DroppedRec sid))"
  by (auto simp: encodeDropped_def fb_put_def fb_new_split fb_finish_frame good_body_def kMaxBodyBytes_def)

lemma encodeGroup_frame:
  "encodeGroup crc n = Inr (frame_of crc (record_body (GroupRec n))) \<and> good_body (record_body (GroupRec n)) \<and>
    length (frame_of crc (record_body (GroupRec n))) = kGroupFrameBytes"
  by (auto simp: encodeGroup_def fb_put_def fb_new_split fb_finish_frame good_body_def kMaxBodyBytes_def kGroupFrameBytes_def)

context checksum
begin

lemma encodeEvent_frame:
  assumes "encodeEvent crc e xs = Inr f"
  shows "event_frame_bytes f = frame_of crc (record_body (EventRec e xs)) \<and> good_body (record_body (EventRec e xs))"
  using assms three_pieces
  by (auto simp: encodeEvent_def sum_bind_Inr event_frame_bytes_def frame_of_def part_bytes_def good_body_def Let_def ac_simps
      split: if_splits)

lemma encode_record_frame:
  "encode_record crc r = Inr f \<Longrightarrow> f = frame_of crc (record_body r) \<and> good_body (record_body r)"
  using encodeHeader_frame [of crc _ f] encodeNames_frame [of crc _ f] encodeDropped_frame [of crc] encodeGroup_frame [of crc]
    encodeEvent_frame
  by (cases r) (auto simp: sum_bind_Inr)

end

lemma decode_record_body:
  assumes "good_body (record_body r)"
    and "\<And>h. r = HeaderRec h \<Longrightarrow> format_version h = kFormatVersion"
    and "\<And>e xs. r = EventRec e xs \<Longrightarrow> \<exists>p. encodeLogEvent e xs = Inr p"
  shows "decode_record (record_body r) = Some r"
proof (cases r)
  case (HeaderRec h)
  have "length (keeper_endpoint h) \<le> kMaxBodyBytes" using assms(1) HeaderRec by (auto simp: good_body_def string_field_def)
  then have "br_takeString (string_field (keeper_endpoint h)) = Some (keeper_endpoint h, [])"
    using br_takeString_put [of "keeper_endpoint h" "[]"] by (simp add: string_field_def)
  moreover have "length kMagic = 5" by (simp add: kMagic_def)
  moreover have "ucast (take_bit 16 (ucast (format_version h) :: u64)) = format_version h" by (rule ucast_take_bit_back)
  ultimately show ?thesis using HeaderRec assms(2) [OF HeaderRec]
    by (simp add: decode_record_def decodeHeader_def br_takeType_def br_takeBytes_append br_take_put br_take_put8)
next
  case (NamesRec n)
  have len: "length (names_chronicle n) \<le> kMaxBodyBytes" "length (names_story n) \<le> kMaxBodyBytes"
    using assms(1) NamesRec by (auto simp: good_body_def string_field_def)
  then show ?thesis using NamesRec br_takeString_put [of "names_story n" "[]"]
    by (simp add: decode_record_def decodeNames_def br_takeType_def br_take_put8 br_takeString_put string_field_def)
next
  case (EventRec e xs)
  then obtain p where p: "encodeLogEvent e xs = Inr p" using assms(3) by blast
  then show ?thesis using EventRec decodeLogEvent_encoded [OF p, of "[]"] by (simp add: decode_record_def)
next
  case (DroppedRec sid)
  then show ?thesis using br_take_put8 [of sid "[]"] by (simp add: decode_record_def decodeDropped_def br_takeType_def)
next
  case (GroupRec n)
  then show ?thesis using br_take_put8 [of n "[]"] by (simp add: decode_record_def decodeGroup_def br_takeType_def)
qed

section \<open>Segment names read back\<close>

fun digits_val :: "u8 list \<Rightarrow> nat \<Rightarrow> nat" where
  "digits_val [] v = v"
| "digits_val (c # cs) v = digits_val cs (v * 10 + (unat c - 48))"

definition is_digit :: "u8 \<Rightarrow> bool" where
  "is_digit c \<longleftrightarrow> \<not> (c < 48 \<or> 57 < c)"

lemma is_digit_nat: "is_digit c \<longleftrightarrow> 48 \<le> unat c \<and> unat c \<le> 57"
  by (auto simp: is_digit_def word_less_nat_alt not_less)

lemma digits_val_mono: "v \<le> digits_val cs v"
proof (induction cs arbitrary: v)
  case (Cons c cs)
  have "v \<le> v * 10 + (unat c - 48)" by simp
  also have "\<dots> \<le> digits_val cs (v * 10 + (unat c - 48))" by (rule Cons)
  finally show ?case by simp
qed simp

lemma digits_val_append: "digits_val (xs @ ys) v = digits_val ys (digits_val xs v)"
  by (induction xs arbitrary: v) simp_all

lemma unat_digit: "is_digit c \<Longrightarrow> unat (ucast (c - 48) :: u64) = unat c - 48"
proof -
  assume d: "is_digit c"
  have "unat (c - 48) = unat c - 48" using d by (subst unat_sub) (simp_all add: is_digit_nat word_le_nat_alt)
  moreover have "unat c - 48 < 2 ^ 64" using d by (auto simp: is_digit_nat)
  ultimately show ?thesis by (simp add: unsigned_ucast_eq take_bit_nat_eq_self)
qed

lemma overflow_guard:
  fixes s d :: u64
  assumes "unat d \<le> 9"
  shows "(- 1 - d) div 10 < s \<longleftrightarrow> 2 ^ 64 \<le> unat s * 10 + unat d"
proof -
  have "unat (- 1 - d) = 2 ^ 64 - 1 - unat d"
    by (subst unat_sub) (simp_all add: unsigned_minus_1_eq_mask mask_eq_exp_minus_1)
  then have "unat ((- 1 - d) div 10) = (2 ^ 64 - 1 - unat d) div 10" by (simp add: unat_div)
  then show ?thesis using assms by (simp add: word_less_nat_alt) linarith
qed

lemma parse_digits_value:
  "parse_digits cs s =
    (if list_all is_digit cs \<and> digits_val cs (unat s) < 2 ^ 64 then Some (of_nat (digits_val cs (unat s))) else None)"
proof (induction cs arbitrary: s)
  case Nil
  have "unat s < 2 ^ 64" using unsigned_less [of s] by simp
  then show ?case by simp
next
  case (Cons c cs)
  show ?case
  proof (cases "is_digit c")
    case True
    let ?d = "ucast (c - 48) :: u64"
    have d: "unat ?d = unat c - 48" "unat ?d \<le> 9" using True unat_digit [OF True] by (auto simp: is_digit_nat)
    show ?thesis
    proof (cases "unat s * 10 + unat ?d < 2 ^ 64")
      case fits: True
      then have "unat (s * 10 + ?d) = unat s * 10 + (unat c - 48)"
        by (simp add: unat_word_ariths d(1))
      then show ?thesis using True fits overflow_guard [OF d(2), of s] Cons [of "s * 10 + ?d"]
        by (simp add: is_digit_def Let_def not_le)
    next
      case False
      have "2 ^ 64 \<le> digits_val cs (unat s * 10 + (unat c - 48))"
        using False digits_val_mono [of "unat s * 10 + (unat c - 48)" cs] by (simp add: d(1))
      then show ?thesis using True False overflow_guard [OF d(2), of s] by (simp add: is_digit_def Let_def)
    qed
  qed (auto simp: is_digit_def)
qed

lemma length_dec_digits [simp]: "length (dec_digits k n) = k"
  by (induction k arbitrary: n) simp_all

lemma dec_digits_small: "d \<in> set (dec_digits k n) \<Longrightarrow> d < 10"
  by (induction k arbitrary: n) auto

abbreviation digit_char :: "nat \<Rightarrow> u8" where
  "digit_char d \<equiv> of_nat (48 + d)"

lemma digit_char: "d < 10 \<Longrightarrow> unat (digit_char d) = 48 + d"
  by (subst unat_of_nat) simp

lemma digits_val_dec: "digits_val (map digit_char (dec_digits k n)) 0 = n mod 10 ^ k"
proof (induction k arbitrary: n)
  case (Suc k)
  have "unat (digit_char (n mod 10)) = 48 + n mod 10" by (rule digit_char) simp
  then show ?case using Suc [of "n div 10"] mod_mult2_eq [of n 10 "10 ^ k"] by (simp add: digits_val_append)
qed simp

lemma dec_digits_val:
  "list_all is_digit cs \<Longrightarrow> map digit_char (dec_digits (length cs) (digits_val cs 0)) = cs"
proof (induction cs rule: rev_induct)
  case (snoc c cs)
  have c: "48 \<le> unat c" "unat c \<le> 57" using snoc.prems by (simp_all add: is_digit_nat)
  then obtain d where d: "unat c = 48 + d" "d < 10" using le_Suc_ex [of 48 "unat c"] by auto
  then have "digit_char d = c" by (metis of_nat_unat ucast_id)
  then show ?case using snoc d by (simp add: digits_val_append)
qed simp

lemma parse_segmentFileName: "parseSegmentFileName (segmentFileName n) = Some n"
proof -
  have "list_all is_digit (map digit_char (dec_digits 20 (unat n)))"
    using dec_digits_small digit_char by (fastforce simp: list_all_iff is_digit_nat)
  moreover have "unat n < 2 ^ 64" using unsigned_less [of n] by simp
  ultimately show ?thesis
    using digits_val_dec [of 20 "unat n"]
    by (simp add: parseSegmentFileName_def segmentFileName_def parse_digits_value)
qed

lemma parseSegmentFileName_name:
  assumes "parseSegmentFileName name = Some n"
  shows "name = segmentFileName n"
proof -
  have name: "length (take 20 name) = 20" "drop 20 name = kSegmentSuffix" "parse_digits (take 20 name) 0 = Some n"
    using assms by (auto simp: parseSegmentFileName_def split: if_splits)
  then have "list_all is_digit (take 20 name)" "unat n = digits_val (take 20 name) 0"
    by (auto simp: parse_digits_value unat_of_nat split: if_splits)
  then have "map digit_char (dec_digits 20 (unat n)) = take 20 name"
    using dec_digits_val [of "take 20 name"] name(1) by simp
  then show ?thesis
    unfolding segmentFileName_def name(2) [symmetric] by (simp del: of_nat_add)
qed

text \<open>
  The reader of segment names accepts exactly the names the writer produces, each for
  its own number: a name that is too long or too short, has another suffix, a character that is no digit
  or a value over 64 bits is refused.
\<close>

theorem parseSegmentFileName_iff: "parseSegmentFileName name = Some n \<longleftrightarrow> name = segmentFileName n"
  using parse_segmentFileName parseSegmentFileName_name by blast

section \<open>A segment survives a crash\<close>

definition readable_record :: "WalRecord \<Rightarrow> bool" where
  "readable_record r \<longleftrightarrow> (case r of HeaderRec h \<Rightarrow> format_version h = kFormatVersion | _ \<Rightarrow> True)"

context checksum
begin

lemma decode_encoded_record:
  assumes "encode_record crc r = Inr f" "readable_record r"
  shows "decode_record (record_body r) = Some r"
proof (rule decode_record_body)
  show "good_body (record_body r)" using encode_record_frame [OF assms(1)] by simp
qed (use assms in \<open>auto simp: readable_record_def sum_bind_Inr encodeEvent_def\<close>)

lemma written_segment:
  assumes enc: "map (encode_record crc) rs = map Inr frames" and ok: "list_all readable_record rs" and tail: "torn_tail crc rest"
  shows "map (\<lambda>r. decode_record (sr_body r)) (scan_records (scanSegment crc (concat frames @ rest))) = map Some rs \<and>
    end_offset (scanSegment crc (concat frames @ rest)) = length (concat frames) \<and>
    (rest = replicate (length rest) 0 \<longrightarrow> scan_end (scanSegment crc (concat frames @ rest)) = EndOfData)"
proof -
  let ?bodies = "map record_body rs"
  have each: "\<exists>f. encode_record crc r = Inr f" if "r \<in> set rs" for r
    using arg_cong [OF enc, of set] that by auto
  then have good: "\<forall>b\<in>set ?bodies. good_body b" using encode_record_frame by fastforce
  have "frames = map (frame_of crc) ?bodies" using enc
  proof (induction rs arbitrary: frames)
    case (Cons r rs)
    then show ?case using encode_record_frame by (cases frames) auto
  qed simp
  then have bytes: "concat frames = frames_of crc ?bodies" by (simp add: frames_of_def)
  have "map decode_record ?bodies = map Some rs"
    using each ok decode_encoded_record by (fastforce simp: list_all_iff)
  then have "map (\<lambda>r. decode_record (sr_body r)) (frame_records 0 ?bodies) = map Some rs"
    using map_map [of decode_record sr_body "frame_records 0 ?bodies"] by (simp add: comp_def del: map_map map_eq_conv)
  then show ?thesis unfolding bytes using scanSegment_written [OF good tail] by simp
qed

end

text \<open>
  Claim C9. Recovery reads a segment back: whatever records the log wrote, followed by room that
  was never written or by a frame that a crash cut off at any byte, the scan finds all of the records, in
  order, stops exactly where they end, and decoding gives each record back.
\<close>

theorem segment_round_trip:
  assumes "\<And>c xs ys. crc (crc c xs) ys = crc c (xs @ ys)"
    and "map (encode_record crc) rs = map Inr frames" "list_all readable_record rs" "torn_tail crc rest"
  shows "map (\<lambda>r. decode_record (sr_body r)) (scan_records (scanSegment crc (concat frames @ rest))) = map Some rs \<and>
    end_offset (scanSegment crc (concat frames @ rest)) = length (concat frames) \<and>
    (rest = replicate (length rest) 0 \<longrightarrow> scan_end (scanSegment crc (concat frames @ rest)) = EndOfData)"
proof -
  have "checksum crc" by unfold_locales (rule assms(1))
  from checksum.written_segment [OF this assms(2-4)] show ?thesis .
qed

theorem segment_round_trip_witness:
  "\<exists>frames. map (\<lambda>r. decode_record (sr_body r)) (scan_records (scanSegment (crc32c_bytewise sse_u8) (concat frames @ [0, 0, 0]))) =
    [Some (GroupRec 34), Some (DroppedRec 7)] \<and>
    scan_end (scanSegment (crc32c_bytewise sse_u8) (concat frames @ [0, 0, 0])) = EndOfData"
proof -
  let ?crc = "crc32c_bytewise sse_u8"
  obtain f g where enc: "encode_record ?crc (GroupRec 34) = Inr f" "encode_record ?crc (DroppedRec 7) = Inr g"
    using encodeGroup_frame [of ?crc 34] encodeDropped_frame [of ?crc 7] by simp
  have zeros: "[0, 0, 0] = replicate (length [0, 0, 0 :: u8]) (0 :: u8)" by (simp add: numeral_3_eq_3)
  then have "torn_tail ?crc [0, 0, 0]" unfolding torn_tail_def by blast
  then have "map (\<lambda>r. decode_record (sr_body r)) (scan_records (scanSegment ?crc (concat [f, g] @ [0, 0, 0]))) =
      map Some [GroupRec 34, DroppedRec 7] \<and> scan_end (scanSegment ?crc (concat [f, g] @ [0, 0, 0])) = EndOfData"
    using segment_round_trip [of ?crc "[GroupRec 34, DroppedRec 7]" "[f, g]" "[0, 0, 0]"] enc zeros sse.extend
    by (simp add: readable_record_def)
  then show ?thesis by (intro exI [of _ "[f, g]"]) simp
qed

text \<open>
  Claim C10. The scan invents nothing: for arbitrary bytes, damaged ones included, the records it
  returns are back to back from the start, each is a non-empty body of at most \<^verbatim>\<open>kMaxBodyBytes\<close> under
  its own length and checksum, and framing them again gives exactly the bytes before the reported end.
\<close>

theorem scanSegment_sound:
  "end_offset (scanSegment crc bytes) \<le> length bytes \<and>
    scan_records (scanSegment crc bytes) = frame_records 0 (map sr_body (scan_records (scanSegment crc bytes))) \<and>
    list_all good_body (map sr_body (scan_records (scanSegment crc bytes))) \<and>
    frames_of crc (map sr_body (scan_records (scanSegment crc bytes))) = take (end_offset (scanSegment crc bytes)) bytes"
  using scan_from_whole [of 0 bytes crc] by (auto simp: scanSegment_def Let_def list_all_iff)

lemma total_size_iff:
  "a \<le> kMaxEncodedEventBytes \<Longrightarrow>
    (\<exists>b. total_size xs a = Inr b) \<longleftrightarrow> a + (\<Sum>x\<leftarrow>xs. 6 + length (ext_value x)) \<le> kMaxEncodedEventBytes"
  by (induction xs arbitrary: a) (auto simp: kExtensionHeadBytes_def)

text \<open>
  Claim C37. The log accepts an event exactly when it has at most 65535 extensions and its
  encoding, the type byte included, fits the largest body a scan accepts: an event of exactly the codec's
  own limit is refused, and nothing the log accepts is later taken for corruption because of its size.
\<close>

theorem encodeEvent_accepts_iff:
  "(\<exists>f. encodeEvent crc e xs = Inr f) \<longleftrightarrow>
    length xs \<le> 65535 \<and> 36 + length (logRecord e) + (\<Sum>x\<leftarrow>xs. 6 + length (ext_value x)) \<le> kMaxBodyBytes"
proof -
  let ?n = "35 + length (logRecord e) + (\<Sum>x\<leftarrow>xs. 6 + length (ext_value x))"
  have sizes: "length (concat (map encode_extension xs)) = (\<Sum>x\<leftarrow>xs. 6 + length (ext_value x))"
    by (induction xs) (simp_all add: encode_extension_def)
  have codec: "(\<exists>p. encodeLogEvent e xs = Inr p) \<longleftrightarrow> length xs \<le> 65535 \<and> ?n \<le> kMaxEncodedEventBytes"
    using total_size_iff [of "35 + length (logRecord e)" xs]
    by (auto simp: encodeLogEvent_def Let_def kHeadBytes_def kExtensionCountBytes_def split: sum.splits)
  have parts: "length (part_head p) + length (part_record p) + length (part_tail p) = ?n" if "encodeLogEvent e xs = Inr p" for p
    using that sizes by (auto simp: encodeLogEvent_def Let_def split: sum.splits if_splits)
  have "(\<exists>f. encodeEvent crc e xs = Inr f) \<longleftrightarrow> (\<exists>p. encodeLogEvent e xs = Inr p) \<and> 1 + ?n \<le> kMaxBodyBytes"
    using parts by (cases "encodeLogEvent e xs") (simp_all add: encodeEvent_def Let_def)
  then show ?thesis unfolding codec by (auto simp: kMaxBodyBytes_def kMaxEncodedEventBytes_def)
qed

end
