(* ===== verification/WalReleaseTracker.thy ===== *)
theory WalReleaseTracker
  imports StoryChunk
begin

text \<open>
  The bookkeeping of the keeper's write-ahead log: which durable events the log still holds, in
  which segments, and which segments can be deleted
  (\<^verbatim>\<open>src/chrono-keeper/src/WalReleaseTracker.cpp\<close>). The specification is the list of copies in
  log order; the tracker with its counters refines it.
\<close>

section \<open>Definitions\<close>

record Copy =
  cp_segment :: u64
  cp_bytes :: u64

record WalReleaseTracker =
  pending :: "StoryId \<rightharpoonup> (EventSequence, Copy list) omap"
  outstandingCopies :: "u64 \<rightharpoonup> u64"
  pendingEventCount :: u64
  pendingByteCount :: u64

definition new_tracker :: WalReleaseTracker where
  "new_tracker = \<lparr>pending = Map.empty, outstandingCopies = Map.empty, pendingEventCount = 0, pendingByteCount = 0\<rparr>"

definition addCopy :: "StoryId \<Rightarrow> EventSequence \<Rightarrow> u64 \<Rightarrow> u64 \<Rightarrow> WalReleaseTracker \<Rightarrow> WalReleaseTracker" where
  "addCopy story_id event segment bytes t =
     (let events = (case pending t story_id of None \<Rightarrow> [] | Some m \<Rightarrow> m);
          copies = (case map_of events event of None \<Rightarrow> [] | Some cs \<Rightarrow> cs);
          count = (case outstandingCopies t segment of None \<Rightarrow> 0 | Some n \<Rightarrow> n)
      in t\<lparr>pending := (pending t)(story_id \<mapsto> omap_put event (copies @ [\<lparr>cp_segment = segment, cp_bytes = bytes\<rparr>]) events),
           pendingEventCount := (if copies = [] then pendingEventCount t + 1 else pendingEventCount t),
           outstandingCopies := (outstandingCopies t)(segment \<mapsto> count + 1),
           pendingByteCount := pendingByteCount t + bytes\<rparr>)"

text \<open>The body of the loop of \<^verbatim>\<open>forgetCopies\<close>, and the function.\<close>

definition forgetCopy :: "Copy \<Rightarrow> WalReleaseTracker \<Rightarrow> WalReleaseTracker" where
  "forgetCopy c t =
     t\<lparr>outstandingCopies :=
         (case outstandingCopies t (cp_segment c) of
            None \<Rightarrow> outstandingCopies t
          | Some n \<Rightarrow> if n - 1 = 0 then (outstandingCopies t)(cp_segment c := None)
                      else (outstandingCopies t)(cp_segment c \<mapsto> n - 1)),
       pendingByteCount := pendingByteCount t - cp_bytes c\<rparr>"

definition forgetCopies :: "Copy list \<Rightarrow> WalReleaseTracker \<Rightarrow> WalReleaseTracker" where
  "forgetCopies copies t =
     (let t' = fold forgetCopy copies t in t'\<lparr>pendingEventCount := pendingEventCount t' - 1\<rparr>)"

text \<open>The last test of \<^verbatim>\<open>releaseEvent\<close> and \<^verbatim>\<open>releaseChunk\<close>: the story's entry goes with its last event.\<close>

definition put_events :: "StoryId \<Rightarrow> (EventSequence, Copy list) omap \<Rightarrow> WalReleaseTracker \<Rightarrow> WalReleaseTracker" where
  "put_events story_id events t =
     t\<lparr>pending := (if events = [] then (pending t)(story_id := None) else (pending t)(story_id \<mapsto> events))\<rparr>"

definition releaseEvent :: "StoryId \<Rightarrow> EventSequence \<Rightarrow> WalReleaseTracker \<Rightarrow> WalReleaseTracker" where
  "releaseEvent story_id event t =
     (case pending t story_id of
        None \<Rightarrow> t
      | Some events \<Rightarrow>
          (case map_of events event of
             None \<Rightarrow> t
           | Some copies \<Rightarrow> put_events story_id (omap_erase event events) (forgetCopies copies t)))"

text \<open>The two loops of \<^verbatim>\<open>releaseChunk\<close>: over the pending events between the chunk's ends, and over the chunk.\<close>

fun release_walk ::
  "StoryChunk \<Rightarrow> (EventSequence, Copy list) omap \<Rightarrow> WalReleaseTracker
    \<Rightarrow> (EventSequence, Copy list) omap \<times> WalReleaseTracker" where
  "release_walk chunk [] t = ([], t)"
| "release_walk chunk ((event, copies) # rest) t =
     (if findEvent chunk event \<noteq> None then release_walk chunk rest (forgetCopies copies t)
      else (case release_walk chunk rest t of (kept, t') \<Rightarrow> ((event, copies) # kept, t')))"

definition release_found ::
  "EventSequence \<Rightarrow> (EventSequence, Copy list) omap \<times> WalReleaseTracker
    \<Rightarrow> (EventSequence, Copy list) omap \<times> WalReleaseTracker" where
  "release_found event s =
     (case s of (events, t) \<Rightarrow>
        (case map_of events event of
           None \<Rightarrow> (events, t)
         | Some copies \<Rightarrow> (omap_erase event events, forgetCopies copies t)))"

definition releaseChunk :: "StoryId \<Rightarrow> StoryChunk \<Rightarrow> WalReleaseTracker \<Rightarrow> WalReleaseTracker" where
  "releaseChunk story_id chunk t =
     (case pending t story_id of
        None \<Rightarrow> t
      | Some events \<Rightarrow>
          if chunk_empty chunk then t
          else
            let (events', t') =
              (if length events \<le> getEventCount chunk
               then
                 let first = fst (hd (logEvents chunk));
                     final = fst (last (logEvents chunk));
                     (kept, t1) = release_walk chunk (omap_upto final (omap_from first events)) t
                 in (filter (\<lambda>p. fst p < first) events @ kept @ filter (\<lambda>p. final < fst p) events, t1)
               else fold release_found (map fst (logEvents chunk)) (events, t))
            in put_events story_id events' t')"

definition wal_dropStory :: "StoryId \<Rightarrow> WalReleaseTracker \<Rightarrow> WalReleaseTracker" where
  "wal_dropStory story_id t =
     (case pending t story_id of
        None \<Rightarrow> t
      | Some events \<Rightarrow>
          (let t' = fold (\<lambda>p. forgetCopies (snd p)) events t in t'\<lparr>pending := (pending t')(story_id := None)\<rparr>))"

definition isPending :: "StoryId \<Rightarrow> EventSequence \<Rightarrow> WalReleaseTracker \<Rightarrow> bool" where
  "isPending story_id event t =
     (case pending t story_id of None \<Rightarrow> False | Some events \<Rightarrow> map_of events event \<noteq> None)"

definition pendingEvents_of :: "StoryId \<Rightarrow> WalReleaseTracker \<Rightarrow> nat" where
  "pendingEvents_of story_id t = (case pending t story_id of None \<Rightarrow> 0 | Some events \<Rightarrow> length events)"

definition pendingEvents :: "WalReleaseTracker \<Rightarrow> u64" where
  "pendingEvents t = pendingEventCount t"

definition pendingBytes :: "WalReleaseTracker \<Rightarrow> u64" where
  "pendingBytes t = pendingByteCount t"

definition outstanding :: "u64 \<Rightarrow> WalReleaseTracker \<Rightarrow> u64" where
  "outstanding segment t = (case outstandingCopies t segment of None \<Rightarrow> 0 | Some n \<Rightarrow> n)"

definition deletable :: "u64 list \<Rightarrow> u64 \<Rightarrow> WalReleaseTracker \<Rightarrow> u64 list" where
  "deletable segments_oldest_first active t =
     filter (\<lambda>segment. segment \<noteq> active \<and> outstanding segment t = 0) segments_oldest_first"

section \<open>Specification\<close>

text \<open>The copies the log still holds, oldest first, and what the calls do to them.\<close>

type_synonym copy_log = "(StoryId \<times> EventSequence \<times> Copy) list"

datatype tracker_op =
  AddCopy StoryId EventSequence u64 u64
| ReleaseEvent StoryId EventSequence
| ReleaseChunk StoryId StoryChunk
| DropStory StoryId

fun tracker_step :: "tracker_op \<Rightarrow> WalReleaseTracker \<Rightarrow> WalReleaseTracker" where
  "tracker_step (AddCopy sid ev seg b) = addCopy sid ev seg b"
| "tracker_step (ReleaseEvent sid ev) = releaseEvent sid ev"
| "tracker_step (ReleaseChunk sid chunk) = releaseChunk sid chunk"
| "tracker_step (DropStory sid) = wal_dropStory sid"

definition without :: "StoryId \<Rightarrow> EventSequence set \<Rightarrow> copy_log \<Rightarrow> copy_log" where
  "without sid E = filter (\<lambda>(s, e, c). \<not> (s = sid \<and> e \<in> E))"

fun log_step :: "tracker_op \<Rightarrow> copy_log \<Rightarrow> copy_log" where
  "log_step (AddCopy sid ev seg b) L = L @ [(sid, ev, \<lparr>cp_segment = seg, cp_bytes = b\<rparr>)]"
| "log_step (ReleaseEvent sid ev) L = without sid {ev} L"
| "log_step (ReleaseChunk sid chunk) L = without sid (fst ` set (logEvents chunk)) L"
| "log_step (DropStory sid) L = without sid UNIV L"

section \<open>The tracker refines the specification\<close>

definition log_copies :: "copy_log \<Rightarrow> StoryId \<Rightarrow> EventSequence \<Rightarrow> Copy list" where
  "log_copies L sid ev = map (\<lambda>x. snd (snd x)) (filter (\<lambda>x. fst x = sid \<and> fst (snd x) = ev) L)"

definition opt_list :: "'a list \<Rightarrow> 'a list option" where
  "opt_list xs = (if xs = [] then None else Some xs)"

definition in_segment :: "copy_log \<Rightarrow> u64 \<Rightarrow> nat" where
  "in_segment L seg = length (filter (\<lambda>x. cp_segment (snd (snd x)) = seg) L)"

definition seg_count :: "nat \<Rightarrow> u64 option" where
  "seg_count n = (if n = 0 then None else Some (of_nat n))"

abbreviation log_events :: "copy_log \<Rightarrow> (StoryId \<times> EventSequence) set" where
  "log_events L \<equiv> (\<lambda>x. (fst x, fst (snd x))) ` set L"

abbreviation log_bytes :: "copy_log \<Rightarrow> u64" where
  "log_bytes L \<equiv> sum_list (map (\<lambda>x. cp_bytes (snd (snd x))) L)"

text \<open>The counters, and the whole relation. The counters are exact as long as fewer than \<open>2 ^ 64\<close> copies are held.\<close>

definition counts :: "WalReleaseTracker \<Rightarrow> copy_log \<Rightarrow> bool" where
  "counts t L \<longleftrightarrow> length L < 2 ^ 64 \<and> (\<forall>seg. outstandingCopies t seg = seg_count (in_segment L seg)) \<and>
     pendingEventCount t = of_nat (card (log_events L)) \<and> pendingByteCount t = log_bytes L"

definition story_events :: "copy_log \<Rightarrow> StoryId \<Rightarrow> (EventSequence, Copy list) omap \<Rightarrow> bool" where
  "story_events L sid m \<longleftrightarrow> omap_ok m \<and> (\<forall>ev. map_of m ev = opt_list (log_copies L sid ev))"

definition tracks :: "WalReleaseTracker \<Rightarrow> copy_log \<Rightarrow> bool" where
  "tracks t L \<longleftrightarrow> counts t L \<and>
     (\<forall>sid. case pending t sid of None \<Rightarrow> story_events L sid [] | Some m \<Rightarrow> m \<noteq> [] \<and> story_events L sid m)"

lemma length_without: "length (without sid E L) \<le> length L"
  unfolding without_def by (rule length_filter_le)

lemma log_copies_without:
  "log_copies (without sid E L) s e = (if s = sid \<and> e \<in> E then [] else log_copies L s e)"
  unfolding log_copies_def without_def by (induction L) auto

lemma log_copies_append: "log_copies (L @ M) s e = log_copies L s e @ log_copies M s e"
  by (simp add: log_copies_def)

lemma without_without: "without sid E (without sid F L) = without sid (F \<union> E) L"
  unfolding without_def by (induction L) auto

lemma without_empty [simp]: "without sid {} L = L"
  by (induction L) (auto simp: without_def)

lemma log_copies_Nil_iff: "log_copies L sid ev = [] \<longleftrightarrow> (sid, ev) \<notin> log_events L"
  by (force simp: log_copies_def filter_empty_conv)

lemma without_same:
  assumes "\<And>e. e \<in> E \<Longrightarrow> log_copies L sid e = []"
  shows "without sid E L = L"
  using assms unfolding without_def log_copies_Nil_iff by (force simp: filter_id_conv)

lemma log_events_without: "log_events (without sid {ev} L) = log_events L - {(sid, ev)}"
  unfolding without_def by force

lemma in_segment_without:
  "in_segment L seg = in_segment (without sid {ev} L) seg + length (filter (\<lambda>c. cp_segment c = seg) (log_copies L sid ev))"
  unfolding in_segment_def without_def log_copies_def by (induction L) auto

lemma bytes_without:
  "log_bytes L = log_bytes (without sid {ev} L) + sum_list (map cp_bytes (log_copies L sid ev))"
  unfolding without_def log_copies_def by (induction L) (auto simp: algebra_simps)

lemma u64_count_zero: "n < 2 ^ 64 \<Longrightarrow> (of_nat n :: u64) = 0 \<longleftrightarrow> n = 0"
proof -
  assume n: "n < 2 ^ 64"
  define w :: u64 where "w = of_nat n"
  have "unat w = n" using n by (simp add: w_def unat_of_nat)
  then have "w = 0 \<longleftrightarrow> n = 0" by (auto simp: w_def)
  then show ?thesis by (simp only: w_def)
qed

lemma seg_count_pred:
  "0 < n \<Longrightarrow> n < 2 ^ 64 \<Longrightarrow> seg_count (n - 1) = (if (of_nat n :: u64) - 1 = 0 then None else Some (of_nat n - 1))"
proof -
  assume n: "0 < n" "n < 2 ^ 64"
  then obtain m where m: "n = Suc m" "m < 2 ^ 64" by (cases n) auto
  have "(of_nat n :: u64) - 1 = of_nat m" "n - 1 = m" by (simp_all add: m(1))
  then show ?thesis by (simp only: seg_count_def u64_count_zero [OF m(2)])
qed

lemma fold_forgetCopy:
  assumes "\<And>seg. outstandingCopies t seg = seg_count (n seg)" "\<And>seg. n seg < 2 ^ 64"
    and "\<And>seg. length (filter (\<lambda>c. cp_segment c = seg) cs) \<le> n seg"
  shows "(\<forall>seg. outstandingCopies (fold forgetCopy cs t) seg = seg_count (n seg - length (filter (\<lambda>c. cp_segment c = seg) cs))) \<and>
    pendingByteCount (fold forgetCopy cs t) = pendingByteCount t - sum_list (map cp_bytes cs) \<and>
    pendingEventCount (fold forgetCopy cs t) = pendingEventCount t \<and> pending (fold forgetCopy cs t) = pending t"
  using assms
proof (induction cs arbitrary: t n)
  case (Cons c cs)
  let ?s = "cp_segment c" and ?t = "forgetCopy c t" and ?n = "n(cp_segment c := n (cp_segment c) - 1)"
  have pos: "0 < n ?s" using Cons.prems(3) [of ?s] by simp
  have "outstandingCopies ?t seg = seg_count (?n seg)" for seg
    using Cons.prems(1) [of seg] Cons.prems(1) [of ?s] seg_count_pred [OF pos Cons.prems(2)] pos
    by (auto simp: forgetCopy_def seg_count_def)
  moreover have "?n seg < 2 ^ 64" for seg using Cons.prems(2) [of seg] by auto
  moreover have "length (filter (\<lambda>c. cp_segment c = seg) cs) \<le> ?n seg" for seg
    using Cons.prems(3) [of seg] by auto
  ultimately show ?case using Cons.IH [of ?t ?n] by (auto simp: forgetCopy_def)
qed simp

lemma forgetCopies_counts:
  assumes t: "counts t L" and cs: "cs = log_copies L sid ev" "cs \<noteq> []"
  shows "counts (forgetCopies cs t) (without sid {ev} L)" "pending (forgetCopies cs t) = pending t"
proof -
  have le: "in_segment L seg \<le> length L" for seg by (simp add: in_segment_def)
  have small: "in_segment L seg < 2 ^ 64" for seg using t le [of seg] by (simp add: counts_def)
  have fits: "length (filter (\<lambda>c. cp_segment c = seg) cs) \<le> in_segment L seg" for seg
    using in_segment_without [of L seg sid ev] cs(1) by simp
  have out: "outstandingCopies t seg = seg_count (in_segment L seg)" for seg using t by (simp add: counts_def)
  note f = fold_forgetCopy [OF out small fits]
  have ev: "(sid, ev) \<in> log_events L" using cs log_copies_Nil_iff by blast
  have card: "card (log_events L) = Suc (card (log_events L - {(sid, ev)}))"
    by (rule card.remove) (simp, rule ev)
  have len: "length (without sid {ev} L) < 2 ^ 64"
    using length_without [of sid "{ev}" L] t by (simp add: counts_def)
  show "counts (forgetCopies cs t) (without sid {ev} L)"
    using f t len card bytes_without [of L sid ev] in_segment_without [of L _ sid ev]
    by (simp add: counts_def forgetCopies_def Let_def log_events_without cs(1))
  show "pending (forgetCopies cs t) = pending t" using f by (simp add: forgetCopies_def Let_def)
qed

lemma opt_list_iff [simp]:
  "opt_list xs = None \<longleftrightarrow> xs = []" "None = opt_list xs \<longleftrightarrow> xs = []" "opt_list xs = Some ys \<longleftrightarrow> xs = ys \<and> ys \<noteq> []" "opt_list [] = None"
  by (auto simp: opt_list_def)

lemma story_events_lookup:
  assumes "story_events L sid m"
  shows "omap_ok m" "map_of m ev = opt_list (log_copies L sid ev)"
  using assms by (simp_all only: story_events_def)

lemma story_eventsI:
  assumes "omap_ok m" "\<And>ev. map_of m ev = opt_list (log_copies L sid ev)"
  shows "story_events L sid m"
  using assms by (simp only: story_events_def) blast

lemma story_events_without:
  assumes "story_events L sid m"
  shows "story_events (without sid {ev} L) sid (omap_erase ev m)"
  using story_events_lookup [OF assms] by (intro story_eventsI) (auto simp: omap_simps log_copies_without)

lemma story_events_other: "s \<noteq> sid \<Longrightarrow> story_events (without sid E L) s m \<longleftrightarrow> story_events L s m"
  by (simp add: story_events_def log_copies_without)

lemma fold_forgetCopies:
  assumes "counts t L" "distinct (map fst ps)" "\<And>ev cs. (ev, cs) \<in> set ps \<Longrightarrow> cs = log_copies L sid ev \<and> cs \<noteq> []"
  shows "counts (fold (\<lambda>p. forgetCopies (snd p)) ps t) (without sid (fst ` set ps) L) \<and>
    pending (fold (\<lambda>p. forgetCopies (snd p)) ps t) = pending t"
  using assms
proof (induction ps arbitrary: t L)
  case (Cons p ps)
  obtain ev cs where p: "p = (ev, cs)" by (cases p)
  have cs: "cs = log_copies L sid ev" "cs \<noteq> []" using Cons.prems(3) [of ev cs] p by auto
  note first = forgetCopies_counts [OF Cons.prems(1) cs]
  have rest: "cs' = log_copies (without sid {ev} L) sid e \<and> cs' \<noteq> []" if mem: "(e, cs') \<in> set ps" for e cs'
  proof -
    have "e \<noteq> ev" using Cons.prems(2) mem p by force
    then show ?thesis using Cons.prems(3) [of e cs'] mem by (auto simp: log_copies_without)
  qed
  have "distinct (map fst ps)" using Cons.prems(2) by simp
  from Cons.IH [OF first(1) this rest] show ?case using first(2) p by (simp add: without_without)
qed simp

lemma story_events_items:
  assumes "story_events L sid m" "(ev, cs) \<in> set m"
  shows "cs = log_copies L sid ev \<and> cs \<noteq> []"
proof -
  have "map_of m ev = Some cs"
    using assms(2) omap_ok_distinct [OF story_events_lookup(1) [OF assms(1)]] by simp
  then show ?thesis using story_events_lookup(2) [OF assms(1), of ev] by simp
qed

lemma story_events_keys:
  assumes "story_events L sid m"
  shows "ev \<in> fst ` set m \<longleftrightarrow> log_copies L sid ev \<noteq> []"
  using story_events_lookup(2) [OF assms, of ev] map_of_eq_None_iff [of m ev] by simp

lemma release_walk_filter:
  "release_walk chunk ps t =
    (filter (\<lambda>p. findEvent chunk (fst p) = None) ps,
     fold (\<lambda>p. forgetCopies (snd p)) (filter (\<lambda>p. findEvent chunk (fst p) \<noteq> None) ps) t)"
  by (induction chunk ps t rule: release_walk.induct) auto

lemma fold_release_found:
  assumes "counts t L" "story_events L sid m"
  shows "case fold release_found ks (m, t) of (m', t') \<Rightarrow>
    counts t' (without sid (set ks) L) \<and> story_events (without sid (set ks) L) sid m' \<and> pending t' = pending t"
  using assms
proof (induction ks arbitrary: t L m)
  case (Cons k ks)
  show ?case
  proof (cases "map_of m k")
    case None
    then have "log_copies L sid k = []" using story_events_lookup(2) [OF Cons.prems(2), of k] by simp
    then have "without sid (set ks) L = without sid (set (k # ks)) L"
      using without_same [of "{k}" L sid] without_without [of sid "set ks" "{k}" L] by simp
    then show ?thesis using Cons.IH [OF Cons.prems] None by (simp add: release_found_def)
  next
    case (Some cs)
    then have cs: "cs = log_copies L sid k" "cs \<noteq> []"
      using story_events_items [OF Cons.prems(2), of k cs] map_of_SomeD by metis+
    note first = forgetCopies_counts [OF Cons.prems(1) cs]
    from Cons.IH [OF first(1) story_events_without [OF Cons.prems(2)]] show ?thesis
      using first(2) Some by (simp add: release_found_def without_without)
  qed
qed simp

lemma tracks_story:
  assumes "tracks t L"
  shows "pending t sid = None \<Longrightarrow> story_events L sid []" "pending t sid = Some m \<Longrightarrow> story_events L sid m \<and> m \<noteq> []"
    "counts t L"
proof -
  have "case pending t sid of None \<Rightarrow> story_events L sid [] | Some m \<Rightarrow> m \<noteq> [] \<and> story_events L sid m" and "counts t L"
    using assms by (auto simp only: tracks_def)
  then show "pending t sid = None \<Longrightarrow> story_events L sid []" "pending t sid = Some m \<Longrightarrow> story_events L sid m \<and> m \<noteq> []" "counts t L"
    by simp_all
qed

lemma tracks_absent: "tracks t L \<Longrightarrow> pending t sid = None \<Longrightarrow> log_copies L sid ev = []"
  using story_events_lookup(2) [OF tracks_story(1), of t L sid ev] by simp

lemma tracks_put:
  assumes t: "tracks t L" and t': "counts t' (without sid E L)" "pending t' = pending t"
    and m: "story_events (without sid E L) sid m"
  shows "tracks (put_events sid m t') (without sid E L)"
proof -
  have "case pending (put_events sid m t') s of None \<Rightarrow> story_events (without sid E L) s []
      | Some m \<Rightarrow> m \<noteq> [] \<and> story_events (without sid E L) s m" for s
  proof (cases "s = sid")
    case True
    then show ?thesis using m by (auto simp: put_events_def)
  next
    case False
    then have "pending (put_events sid m t') s = pending t s" by (simp add: put_events_def t'(2))
    then show ?thesis using tracks_story(1,2) [OF t, of s] story_events_other [OF False] by (auto split: option.splits)
  qed
  moreover have "counts (put_events sid m t') (without sid E L)" using t'(1) by (simp add: counts_def put_events_def)
  ultimately show ?thesis by (simp only: tracks_def) blast
qed

lemma releaseEvent_tracks:
  assumes t: "tracks t L"
  shows "tracks (releaseEvent sid ev t) (without sid {ev} L)"
proof (cases "isPending sid ev t")
  case False
  have "log_copies L sid ev = []"
  proof (cases "pending t sid")
    case None
    then show ?thesis by (rule tracks_absent [OF t])
  next
    case (Some m)
    then show ?thesis using story_events_lookup(2) [OF tracks_story(2) [OF t Some, THEN conjunct1], of ev] False
      by (simp add: isPending_def)
  qed
  then have "without sid {ev} L = L" using without_same [of "{ev}" L sid] by simp
  moreover have "releaseEvent sid ev t = t" using False by (auto simp: releaseEvent_def isPending_def split: option.splits)
  ultimately show ?thesis using t by simp
next
  case True
  then obtain m cs where m: "pending t sid = Some m" "map_of m ev = Some cs" by (auto simp: isPending_def split: option.splits)
  note sm = tracks_story(2) [OF t m(1), THEN conjunct1]
  have cs: "cs = log_copies L sid ev" "cs \<noteq> []" using story_events_items [OF sm map_of_SomeD [OF m(2)]] by blast+
  note first = forgetCopies_counts [OF tracks_story(3) [OF t] cs]
  from tracks_put [OF t first story_events_without [OF sm]] show ?thesis using m by (simp add: releaseEvent_def)
qed

lemma without_cong:
  assumes "\<And>e. log_copies L sid e \<noteq> [] \<Longrightarrow> e \<in> E \<longleftrightarrow> e \<in> F"
  shows "without sid E L = without sid F L"
  using assms unfolding without_def log_copies_Nil_iff by (intro filter_cong) force+

lemma wal_dropStory_tracks:
  assumes t: "tracks t L"
  shows "tracks (wal_dropStory sid t) (without sid UNIV L)"
proof (cases "pending t sid")
  case None
  then have "without sid UNIV L = L" using tracks_absent [OF t None] by (intro without_same) simp
  then show ?thesis using t None by (simp add: wal_dropStory_def)
next
  case (Some m)
  note sm = tracks_story(2) [OF t Some, THEN conjunct1]
  have dist: "distinct (map fst m)" by (rule omap_ok_distinct [OF story_events_lookup(1) [OF sm]])
  note f = fold_forgetCopies [OF tracks_story(3) [OF t] dist story_events_items [OF sm]]
  have "without sid (fst ` set m) L = without sid UNIV L"
    using story_events_keys [OF sm] by (intro without_cong) auto
  moreover have "story_events (without sid UNIV L) sid []" by (rule story_eventsI) (simp_all add: log_copies_without)
  ultimately have "tracks (put_events sid [] (fold (\<lambda>p. forgetCopies (snd p)) m t)) (without sid UNIV L)"
    using f by (intro tracks_put [OF t]) simp_all
  then show ?thesis using Some by (simp add: wal_dropStory_def put_events_def Let_def)
qed

lemma sorted_between: "sorted xs \<Longrightarrow> x \<in> set xs \<Longrightarrow> hd xs \<le> x \<and> x \<le> last xs"
  by (induction xs) (auto simp: last_in_set)

lemma chunk_key_between:
  assumes "omap_ok (logEvents c)" "findEvent c ev \<noteq> None"
  shows "fst (hd (logEvents c)) \<le> ev \<and> ev \<le> fst (last (logEvents c))"
proof -
  obtain e where e: "(ev, e) \<in> set (logEvents c)" using assms(2) by (auto simp: findEvent_def dest: map_of_SomeD)
  have sorted: "sorted (map fst (logEvents c))" using assms(1) by (simp add: omap_ok_def strict_sorted_iff)
  have ne: "map fst (logEvents c) \<noteq> []" "ev \<in> set (map fst (logEvents c))" using e by force+
  show ?thesis using sorted_between [OF sorted ne(2)] e by (cases "logEvents c = []") (simp_all add: hd_map last_map)
qed

lemma story_events_remove:
  assumes "story_events L sid m"
  shows "story_events (without sid E L) sid (filter (\<lambda>p. fst p \<notin> E) m)"
  using story_events_lookup [OF assms]
  by (intro story_eventsI) (auto simp: map_of_filter_key [of "\<lambda>k. k \<notin> E"] log_copies_without)

lemma filter_between:
  assumes "omap_ok m" "lo \<le> hi"
  shows "filter (\<lambda>p. fst p < lo) m @ filter P (omap_upto hi (omap_from lo m)) @ filter (\<lambda>p. hi < fst p) m =
    filter (\<lambda>p. lo \<le> fst p \<and> fst p \<le> hi \<longrightarrow> P p) m"
  using assms(1)
proof (induction m)
  case (Cons p m)
  then have ok: "omap_ok m" "\<forall>q\<in>set m. fst p < fst q" by (simp_all add: omap_ok_Cons)
  note IH = Cons.IH [OF ok(1)]
  show ?case
  proof (cases "fst p < lo")
    case True
    then have "\<not> lo \<le> fst p" "\<not> hi < fst p" using assms(2) by auto
    then show ?thesis using IH True by (simp add: omap_from_def omap_upto_def)
  next
    case False
    then have none: "filter (\<lambda>q. fst q < lo) m = []" using ok(2) by (auto simp: filter_empty_conv)
    have lo: "lo \<le> fst p" using False by simp
    show ?thesis
    proof (cases "fst p \<le> hi")
      case True
      then have "\<not> hi < fst p" by auto
      then show ?thesis using IH True lo False none by (simp add: omap_from_def omap_upto_def)
    next
      case above: False
      then have "omap_upto hi (omap_from lo m) = []" "hi < fst p"
        using ok(2) by (auto simp: filter_empty_conv omap_from_def omap_upto_def)
      then show ?thesis using IH lo False none above by (simp add: omap_from_def omap_upto_def filter_empty_conv)
    qed
  qed
qed (simp add: omap_from_def omap_upto_def)

lemma releaseChunk_tracks:
  assumes t: "tracks t L" and chunk: "omap_ok (logEvents chunk)"
  shows "tracks (releaseChunk sid chunk t) (without sid (fst ` set (logEvents chunk)) L)"
proof (cases "pending t sid = None \<or> chunk_empty chunk")
  case True
  then have "without sid (fst ` set (logEvents chunk)) L = L"
    using tracks_absent [OF t] by (intro without_same) auto
  then show ?thesis using True t by (auto simp: releaseChunk_def split: option.splits)
next
  case False
  then obtain m where m: "pending t sid = Some m" by auto
  let ?E = "fst ` set (logEvents chunk)"
  have found: "findEvent chunk e \<noteq> None \<longleftrightarrow> e \<in> ?E" for e
    using map_of_eq_None_iff [of "logEvents chunk" e] by (auto simp: findEvent_def)
  note sm = tracks_story(2) [OF t m, THEN conjunct1]
  note ct = tracks_story(3) [OF t]
  show ?thesis
  proof (cases "length m \<le> getEventCount chunk")
    case True
    let ?lo = "fst (hd (logEvents chunk))" and ?hi = "fst (last (logEvents chunk))"
    let ?mid = "omap_upto ?hi (omap_from ?lo m)"
    let ?gone = "filter (\<lambda>p. findEvent chunk (fst p) \<noteq> None) ?mid"
    let ?t = "fold (\<lambda>p. forgetCopies (snd p)) ?gone t"
    have between: "e \<in> ?E \<Longrightarrow> ?lo \<le> e \<and> e \<le> ?hi" for e
      using chunk_key_between [OF chunk, of e] found [of e] by blast
    have k: "?lo \<in> ?E" using False by simp
    then have lohi: "?lo \<le> ?hi" using between [OF k] by (meson order_trans)
    have sub: "set ?gone \<subseteq> set m" by (auto simp: omap_upto_def omap_from_def)
    have "distinct (map fst ?gone)"
      using omap_ok_distinct [OF story_events_lookup(1) [OF sm]] by (simp add: omap_upto_def omap_from_def distinct_map_filter)
    then have f: "counts ?t (without sid (fst ` set ?gone) L) \<and> pending ?t = pending t"
      using sub by (intro fold_forgetCopies [OF ct] story_events_items [OF sm]) auto
    have "e \<in> fst ` set ?gone \<longleftrightarrow> e \<in> ?E" if cop: "log_copies L sid e \<noteq> []" for e
      using story_events_keys [OF sm, of e] cop between [of e] found [of e]
      by (force simp: omap_upto_def omap_from_def)
    then have same: "without sid (fst ` set ?gone) L = without sid ?E L" by (rule without_cong)
    have "filter (\<lambda>p. fst p < ?lo) m @ filter (\<lambda>p. findEvent chunk (fst p) = None) ?mid @ filter (\<lambda>p. ?hi < fst p) m =
        filter (\<lambda>p. fst p \<notin> ?E) m"
      unfolding filter_between [OF story_events_lookup(1) [OF sm] lohi]
      using between found by (intro filter_cong) blast+
    then have "releaseChunk sid chunk t = put_events sid (filter (\<lambda>p. fst p \<notin> ?E) m) ?t"
      using m False True by (simp add: releaseChunk_def release_walk_filter Let_def)
    then show ?thesis using tracks_put [OF t _ _ story_events_remove [OF sm], of ?t ?E] f same by simp
  next
    case big: False
    obtain m' t' where mt: "fold release_found (map fst (logEvents chunk)) (m, t) = (m', t')" by fastforce
    have "releaseChunk sid chunk t = put_events sid m' t'"
      using m False big mt by (simp add: releaseChunk_def Let_def)
    then show ?thesis using tracks_put [OF t, of t' sid ?E m'] fold_release_found [OF ct sm, of "map fst (logEvents chunk)"] mt by simp
  qed
qed

lemma addCopy_tracks:
  assumes t: "tracks t L" and room: "length L + 1 < 2 ^ 64"
  shows "tracks (addCopy sid ev seg b t) (L @ [(sid, ev, \<lparr>cp_segment = seg, cp_bytes = b\<rparr>)])"
    (is "tracks ?t ?L")
proof -
  define m where "m = (case pending t sid of None \<Rightarrow> [] | Some m \<Rightarrow> m)"
  define cs where "cs = log_copies L sid ev"
  have sm: "story_events L sid m" using tracks_story(1,2) [OF t, of sid] by (auto simp: m_def split: option.splits)
  have copies: "(case map_of m ev of None \<Rightarrow> [] | Some cs \<Rightarrow> cs) = cs"
    using story_events_lookup(2) [OF sm, of ev] by (auto simp: cs_def opt_list_def)
  have app: "log_copies ?L s e = log_copies L s e @ (if s = sid \<and> e = ev then [\<lparr>cp_segment = seg, cp_bytes = b\<rparr>] else [])" for s e
    by (simp add: log_copies_append) (simp add: log_copies_def)
  have new: "story_events ?L sid (omap_put ev (cs @ [\<lparr>cp_segment = seg, cp_bytes = b\<rparr>]) m)"
    using story_events_lookup [OF sm] by (intro story_eventsI) (auto simp: omap_simps app opt_list_def cs_def)
  have "case pending ?t s of None \<Rightarrow> story_events ?L s [] | Some m \<Rightarrow> m \<noteq> [] \<and> story_events ?L s m" for s
  proof (cases "s = sid")
    case True
    then show ?thesis using new copies by (simp add: addCopy_def Let_def m_def [symmetric] omap_put_def)
  next
    case False
    then have "story_events ?L s m' \<longleftrightarrow> story_events L s m'" for m' by (simp add: story_events_def app)
    moreover have "pending ?t s = pending t s" using False by (simp add: addCopy_def Let_def)
    ultimately show ?thesis using tracks_story(1,2) [OF t, of s] by (auto split: option.splits)
  qed
  moreover have "counts ?t ?L"
  proof -
    note ct = tracks_story(3) [OF t]
    have "seg_count (in_segment ?L s) =
        (if s = seg then Some ((case outstandingCopies t s of None \<Rightarrow> 0 | Some n \<Rightarrow> n) + 1) else outstandingCopies t s)" for s
      using ct by (auto simp: counts_def seg_count_def in_segment_def)
    moreover have "log_events ?L = insert (sid, ev) (log_events L)" by auto
    then have "card (log_events ?L) = (if cs = [] then card (log_events L) + 1 else card (log_events L))"
      using log_copies_Nil_iff [of L sid ev] by (simp add: cs_def card_insert_if insert_absorb)
    ultimately show ?thesis using ct room copies
      by (simp add: counts_def addCopy_def Let_def m_def [symmetric])
  qed
  ultimately show ?thesis by (simp only: tracks_def) blast
qed

lemma new_tracker_tracks: "tracks new_tracker []"
  by (simp add: tracks_def new_tracker_def counts_def seg_count_def in_segment_def story_events_def log_copies_def omap_ok_def)

lemma tracks_unique:
  assumes "tracks t L" "tracks t' L"
  shows "t = t'"
proof -
  have view: "\<exists>m. story_events L sid m \<and> pending u sid = opt_list m" if "tracks u L" for u sid
    using tracks_story(1,2) [OF that, of sid] by (cases "pending u sid") (auto simp: opt_list_def)
  have "m = m'" if "story_events L sid m" "story_events L sid m'" for sid m m'
    using story_events_lookup [OF that(1)] story_events_lookup [OF that(2)] by (intro omap_eqI ext) auto
  then have "pending t sid = pending t' sid" for sid
    using view [OF assms(1), of sid] view [OF assms(2), of sid] by metis
  then show ?thesis
    using tracks_story(3) [OF assms(1)] tracks_story(3) [OF assms(2)]
    by (intro WalReleaseTracker.equality) (auto simp: counts_def)
qed

definition op_ok :: "tracker_op \<Rightarrow> bool" where
  "op_ok op = (case op of ReleaseChunk sid chunk \<Rightarrow> omap_ok (logEvents chunk) | _ \<Rightarrow> True)"

lemma tracker_step_tracks:
  assumes "tracks t L" "op_ok op" "length L + 1 < 2 ^ 64"
  shows "tracks (tracker_step op t) (log_step op L)"
  using assms addCopy_tracks releaseEvent_tracks releaseChunk_tracks wal_dropStory_tracks
  by (cases op) (auto simp: op_ok_def)

lemma length_log_step: "length (log_step op L) \<le> length L + 1"
  using length_without [of _ _ L] by (cases op) (auto intro: le_SucI)

lemma tracker_run_tracks:
  assumes "tracks t L" "list_all op_ok ops" "length L + length ops < 2 ^ 64"
  shows "tracks (fold tracker_step ops t) (fold log_step ops L)"
  using assms
proof (induction ops arbitrary: t L)
  case (Cons op ops)
  have "tracks (tracker_step op t) (log_step op L)"
    using Cons.prems by (intro tracker_step_tracks) auto
  then show ?case using Cons.prems length_log_step [of op L] by (auto intro: Cons.IH)
qed simp

lemma isPending_tracks: "tracks t L \<Longrightarrow> isPending sid ev t \<longleftrightarrow> (sid, ev) \<in> log_events L"
  using story_events_lookup(2) [OF tracks_story(2) [of t L sid, THEN conjunct1], of _ ev] tracks_absent [of t L sid ev]
  unfolding log_copies_Nil_iff [symmetric, THEN arg_cong [of _ _ Not], simplified]
  by (cases "pending t sid") (simp_all add: isPending_def)

lemma outstanding_tracks: "tracks t L \<Longrightarrow> outstanding seg t = of_nat (in_segment L seg)"
  using tracks_story(3) [of t L] by (simp add: outstanding_def counts_def seg_count_def)

lemma outstanding_zero:
  assumes "tracks t L"
  shows "outstanding seg t = 0 \<longleftrightarrow> in_segment L seg = 0"
proof -
  have "in_segment L seg \<le> length L" by (simp add: in_segment_def)
  then have "in_segment L seg < 2 ^ 64" using tracks_story(3) [OF assms] by (simp add: counts_def)
  then show ?thesis unfolding outstanding_tracks [OF assms] by (rule u64_count_zero)
qed

lemma pendingEvents_of_tracks:
  assumes "tracks t L"
  shows "pendingEvents_of sid t = card {ev. (sid, ev) \<in> log_events L}"
proof -
  obtain m where m: "story_events L sid m" "pendingEvents_of sid t = length m"
    using tracks_story(1,2) [OF assms, of sid] by (cases "pending t sid") (auto simp: pendingEvents_of_def)
  have "length m = card (fst ` set m)"
    using omap_ok_distinct [OF story_events_lookup(1) [OF m(1)]] by (metis distinct_card length_map list.set_map)
  also have "fst ` set m = {ev. (sid, ev) \<in> log_events L}"
    using story_events_keys [OF m(1)] log_copies_Nil_iff [of L sid] by blast
  finally show ?thesis using m(2) by simp
qed

lemma fold_releaseEvent_tracks: "tracks t L \<Longrightarrow> tracks (fold (releaseEvent sid) ks t) (without sid (set ks) L)"
proof (induction ks arbitrary: t L)
  case (Cons k ks)
  from Cons.IH [OF releaseEvent_tracks [OF Cons.prems, of sid k]] show ?case by (simp add: without_without)
qed simp

text \<open>
  Claim C11. After any history of calls the tracker answers as the list of copies still held does:
  an event is pending exactly when it has a copy, the event, byte and segment counters are the sizes of
  the list, and a segment is offered for deletion exactly when it is not the active one and holds no
  copy of a pending event, so deleting it loses no event that is not written.
\<close>

theorem tracker_refines_log:
  assumes "list_all op_ok ops" "length ops < 2 ^ 64" "t = fold tracker_step ops new_tracker" "L = fold log_step ops []"
  shows "isPending sid ev t = (\<exists>c. (sid, ev, c) \<in> set L) \<and>
    pendingEvents_of sid t = card {ev. \<exists>c. (sid, ev, c) \<in> set L} \<and>
    pendingEvents t = of_nat (card {(s, e). \<exists>c. (s, e, c) \<in> set L}) \<and>
    pendingBytes t = sum_list (map (\<lambda>(s, e, c). cp_bytes c) L) \<and>
    outstanding seg t = of_nat (length (filter (\<lambda>(s, e, c). cp_segment c = seg) L)) \<and>
    deletable segments active t = filter (\<lambda>seg. seg \<noteq> active \<and> (\<forall>(s, e, c)\<in>set L. cp_segment c \<noteq> seg)) segments"
proof -
  have t: "tracks t L" using tracker_run_tracks [OF new_tracker_tracks, of ops] assms by simp
  have fields: "(\<lambda>x. cp_bytes (snd (snd x))) = (\<lambda>(s, e, c). cp_bytes c)"
      "(\<lambda>x. cp_segment (snd (snd x)) = seg) = (\<lambda>(s, e, c). cp_segment c = seg)" for seg
    by (auto simp: fun_eq_iff)
  have members: "(s, e) \<in> log_events L \<longleftrightarrow> (\<exists>c. (s, e, c) \<in> set L)" for s e by force
  have "log_events L = {(s, e). \<exists>c. (s, e, c) \<in> set L}" using members by auto
  then have "pendingEvents t = of_nat (card {(s, e). \<exists>c. (s, e, c) \<in> set L})"
    using tracks_story(3) [OF t] by (simp add: pendingEvents_def counts_def)
  moreover have "pendingBytes t = sum_list (map (\<lambda>(s, e, c). cp_bytes c) L)"
    using tracks_story(3) [OF t] by (simp add: pendingBytes_def counts_def fields)
  moreover have "in_segment L s = 0 \<longleftrightarrow> (\<forall>(st, e, c)\<in>set L. cp_segment c \<noteq> s)" for s
    by (auto simp: in_segment_def filter_empty_conv)
  then have "deletable segments active t = filter (\<lambda>seg. seg \<noteq> active \<and> (\<forall>(s, e, c)\<in>set L. cp_segment c \<noteq> seg)) segments"
    by (simp add: deletable_def outstanding_zero [OF t])
  ultimately show ?thesis
    using isPending_tracks [OF t] pendingEvents_of_tracks [OF t] outstanding_tracks [OF t]
    by (simp add: members in_segment_def fields)
qed

theorem tracker_refines_log_witness:
  "deletable [6, 7, 8] 8 (fold tracker_step [AddCopy 1 (5, 2, 0) 6 90, AddCopy 1 (6, 2, 0) 7 80, ReleaseEvent 1 (6, 2, 0)] new_tracker) = [7]"
  by (subst tracker_refines_log [THEN conjunct2, THEN conjunct2, THEN conjunct2, THEN conjunct2, THEN conjunct2, OF _ _ refl refl])
    (simp_all add: op_ok_def without_def)

text \<open>
  Claim C38. Releasing a chunk, by whichever of its two walks, leaves exactly the state that
  releasing its events one by one leaves.
\<close>

theorem releaseChunk_is_releaseEvents:
  assumes "list_all op_ok ops" "length ops < 2 ^ 64" "omap_ok (logEvents chunk)" "t = fold tracker_step ops new_tracker"
  shows "releaseChunk sid chunk t = fold (releaseEvent sid) (map fst (logEvents chunk)) t"
proof -
  have t: "tracks t (fold log_step ops [])" using tracker_run_tracks [OF new_tracker_tracks, of ops] assms by simp
  show ?thesis
    using tracks_unique [OF releaseChunk_tracks [OF t assms(3)]] fold_releaseEvent_tracks [OF t, of sid "map fst (logEvents chunk)"]
    by simp
qed

theorem releaseChunk_is_releaseEvents_witness:
  "releaseChunk 1 (new_StoryChunk [] [] 1 0 9\<lparr>logEvents := [((5, 2, 0), ex_event 5 2 0)]\<rparr>)
     (fold tracker_step [AddCopy 1 (5, 2, 0) 6 90, AddCopy 1 (6, 2, 0) 7 80] new_tracker) =
   fold (releaseEvent 1) [(5, 2, 0)] (fold tracker_step [AddCopy 1 (5, 2, 0) 6 90, AddCopy 1 (6, 2, 0) 7 80] new_tracker)"
  by (subst releaseChunk_is_releaseEvents [of "[AddCopy 1 (5, 2, 0) 6 90, AddCopy 1 (6, 2, 0) 7 80]"])
    (simp_all add: op_ok_def omap_ok_def)

end
