(* ===== verification/PlayerReplay.thy ===== *)
theory PlayerReplay
  imports KeeperChunkRetentionStore "HOL-Library.Multiset"
begin

text \<open>
  Replay in the player: the split of a range between the story's keepers and the archive
  (\<^verbatim>\<open>src/chrono-player/include/HotRangeSplit.h\<close>), the merge of the two parts
  (\<^verbatim>\<open>ReplayEventMerge.h\<close>), the request handler (\<^verbatim>\<open>src/chrono-player/src/PlaybackService.cpp\<close>), the
  queue of archive reads with its reading task (\<^verbatim>\<open>ArchiveReadingRequestQueue.h\<close>,
  \<^verbatim>\<open>ArchiveReadingAgent.cpp\<close>) and the responses waiting to be sent
  (\<^verbatim>\<open>QueryResponseTransferAgent.cpp\<close>).

  What a keeper answered, what the archive reader returned and whether a transfer succeeded are
  inputs of the steps. A map or queue operation runs under its mutex, so it is one step.
\<close>

section \<open>Splitting a range\<close>

record HotRangeSplit =
  boundary :: u64
  hotEvents :: "LogEvent list"
  split_complete :: bool

record ReplayPlan =
  archiveNeeded :: bool
  archiveEnd :: u64
  plan_complete :: bool

definition planReplay :: "HotRangeSplit \<Rightarrow> u64 \<Rightarrow> u64 \<Rightarrow> bool \<Rightarrow> bool \<Rightarrow> ReplayPlan" where
  "planReplay split start_time end_time all_keepers_answered any_truncated =
     (let complete = (all_keepers_answered \<and> \<not> any_truncated) in
      if \<not> all_keepers_answered
      then \<lparr>archiveNeeded = True, archiveEnd = end_time, plan_complete = complete\<rparr>
      else \<lparr>archiveNeeded = (\<not> split_complete split), archiveEnd = boundary split, plan_complete = complete\<rparr>)"

text \<open>The first loop of \<^verbatim>\<open>splitHotRange\<close>: the highest watermark and the lowest floor.\<close>

definition split_bounds :: "HotRangeResponse list \<Rightarrow> u64 \<times> u64" where
  "split_bounds responses =
     fold (\<lambda>r (highest, lowest).
         (if highest < known_W r then known_W r else highest, if hot_floor r < lowest then hot_floor r else lowest))
       responses (0, - 1)"

text \<open>The body of the second loop: the unconfirmed events, then the confirmed ones from the boundary on.\<close>

definition merge_response ::
  "u64 \<Rightarrow> HotRangeResponse \<Rightarrow> (EventSequence, LogEvent) omap \<Rightarrow> (EventSequence, LogEvent) omap" where
  "merge_response b r merged =
     fold (\<lambda>e m. if b \<le> eventTime e then omap_emplace (event_sequence e) e m else m) (hot_events r)
       (fold (\<lambda>e. omap_emplace (event_sequence e) e) (unconfirmed_events r) merged)"

definition splitHotRange :: "HotRangeResponse list \<Rightarrow> u64 \<Rightarrow> u64 \<Rightarrow> HotRangeSplit" where
  "splitHotRange responses start_time end_time =
     (let (highest_watermark, lowest_floor) = split_bounds responses;
          b0 = (if 0 < highest_watermark then highest_watermark else lowest_floor);
          b = (if end_time < b0 then end_time else b0);
          merged = fold (merge_response b) responses []
      in \<lparr>boundary = b, hotEvents = map snd merged, split_complete = (b \<le> start_time)\<rparr>)"

text \<open>
  What became of the fetch from one keeper: no client for it, the fetch could not be issued, it
  failed or timed out, or it was answered.
\<close>

datatype fetch_outcome = NoClient | NotIssued | FetchFailed | FetchAnswered HotRangeResponse

definition unansweredResponse :: HotRangeResponse where
  "unansweredResponse = new_HotRangeResponse\<lparr>answered := False\<rparr>"

fun waitForRange :: "fetch_outcome \<Rightarrow> HotRangeResponse" where
  "waitForRange (FetchAnswered r) = r"
| "waitForRange _ = unansweredResponse"

text \<open>The loops of \<^verbatim>\<open>story_playback_request\<close> over the keepers: issue every fetch, then wait for each.\<close>

definition issue_fetches :: "fetch_outcome list \<Rightarrow> fetch_outcome list \<times> bool" where
  "issue_fetches outcomes =
     fold (\<lambda>o1 (pending, all_answered).
         if o1 = NoClient \<or> o1 = NotIssued then (pending, False) else (pending @ [o1], all_answered))
       outcomes ([], True)"

definition gather_hot :: "fetch_outcome list \<Rightarrow> HotRangeResponse list \<times> bool \<times> bool" where
  "gather_hot outcomes =
     (let (pending, issued) = issue_fetches outcomes in
      fold (\<lambda>p (responses, all_answered, any_truncated).
          let r = waitForRange p in (responses @ [r], all_answered \<and> answered r, any_truncated \<or> truncated r))
        pending ([], issued, False))"

section \<open>Merging with the archive\<close>

text \<open>\<^verbatim>\<open>Event::operator<\<close> and \<^verbatim>\<open>Event::operator==\<close> compare this key.\<close>

definition event_key :: "Event \<Rightarrow> EventSequence" where
  "event_key e = (evTime e, evClient e, evIndex e)"

text \<open>\<^verbatim>\<open>std::unique\<close>: of every run of equal elements the first one stays.\<close>

fun unique_by :: "('a \<Rightarrow> 'b) \<Rightarrow> 'a list \<Rightarrow> 'a list" where
  "unique_by f [] = []"
| "unique_by f [x] = [x]"
| "unique_by f (x # y # xs) = (if f x = f y then unique_by f (x # xs) else x # unique_by f (y # xs))"

text \<open>\<^verbatim>\<open>std::sort\<close> is not stable, so the order it gives equal elements is an argument.\<close>

definition mergeReplayEvents :: "(Event list \<Rightarrow> Event list) \<Rightarrow> Event list \<Rightarrow> Event list \<Rightarrow> Event list" where
  "mergeReplayEvents std_sort archived hot = unique_by event_key (std_sort (archived @ hot))"

section \<open>The player\<close>

type_synonym service_endpoint = "u32 \<times> u16"

record PlaybackQueryResponse =
  resp_query_id :: u32
  resp_events :: "Event list"
  resp_complete :: bool

text \<open>\<open>req_receiver\<close> stands for the pointer to the response agent of a receiver; \<open>None\<close> is the null pointer.\<close>

record ArchiveReadingRequest =
  req_receiver :: "service_endpoint option"
  req_queryId :: u32
  req_chronicle :: cpp_string
  req_story :: cpp_string
  req_start :: u64
  req_end :: u64

definition is_valid :: "ArchiveReadingRequest \<Rightarrow> bool" where
  "is_valid r \<longleftrightarrow> req_receiver r \<noteq> None \<and> 0 < req_queryId r \<and> req_chronicle r \<noteq> [] \<and> req_story r \<noteq> [] \<and> 0 < req_start r \<and> req_start r < req_end r"

text \<open>The queries of one receiver with their flag \<^verbatim>\<open>ready_to_send\<close>.\<close>

type_synonym active_queries = "(u32, bool \<times> PlaybackQueryResponse) omap"

record Player =
  responseSenders :: "service_endpoint \<rightharpoonup> active_queries"
  readingRequestQueue :: "ArchiveReadingRequest list"
  transferred :: "(service_endpoint \<times> PlaybackQueryResponse) list"

definition new_Player :: Player where
  "new_Player = \<lparr>responseSenders = Map.empty, readingRequestQueue = [], transferred = []\<rparr>"

text \<open>\<^verbatim>\<open>stashQueryResponseRecord\<close>: an id that is still active is refused.\<close>

definition stashQueryResponseRecord ::
  "u32 \<Rightarrow> PlaybackQueryResponse \<Rightarrow> bool \<Rightarrow> active_queries \<Rightarrow> bool \<times> active_queries" where
  "stashQueryResponseRecord query_id response ready_to_send queries =
     (case map_of queries query_id of
        Some _ \<Rightarrow> (False, queries)
      | None \<Rightarrow> (True, omap_put query_id (ready_to_send, response) queries))"

definition pushReadingRequest :: "ArchiveReadingRequest \<Rightarrow> Player \<Rightarrow> Player" where
  "pushReadingRequest r s = s\<lparr>readingRequestQueue := readingRequestQueue s @ [r]\<rparr>"

definition popReadingRequest :: "Player \<Rightarrow> ArchiveReadingRequest option \<times> Player" where
  "popReadingRequest s =
     (case readingRequestQueue s of [] \<Rightarrow> (None, s) | r # rs \<Rightarrow> (Some r, s\<lparr>readingRequestQueue := rs\<rparr>))"

text \<open>
  \<^verbatim>\<open>story_playback_request\<close>: the reply and the new state. \<open>can_create\<close> tells whether an agent
  for a receiver not seen before can be created.
\<close>

definition story_playback_request ::
  "bool \<Rightarrow> service_endpoint \<Rightarrow> u32 \<Rightarrow> cpp_string \<Rightarrow> cpp_string \<Rightarrow> u64 \<Rightarrow> u64 \<Rightarrow> fetch_outcome list \<Rightarrow> Player
    \<Rightarrow> u32 \<times> Player" where
  "story_playback_request can_create receiver query_id chronicle_name story_name start_time end_time outcomes s =
     (case (case responseSenders s receiver of Some q \<Rightarrow> Some q | None \<Rightarrow> if can_create then Some [] else None) of
        None \<Rightarrow> (0, s)
      | Some queries \<Rightarrow>
          let (hot_responses, all_keepers_answered, any_truncated) = gather_hot outcomes;
              split = splitHotRange hot_responses start_time end_time;
              plan = planReplay split start_time end_time all_keepers_answered any_truncated;
              response = \<lparr>resp_query_id = query_id, resp_events = map to_Event (hotEvents split), resp_complete = plan_complete plan\<rparr>;
              (stashed, queries') = stashQueryResponseRecord query_id response (\<not> archiveNeeded plan) queries;
              s1 = s\<lparr>responseSenders := (responseSenders s)(receiver \<mapsto> queries')\<rparr>
          in if \<not> stashed then (0, s1)
             else if archiveNeeded plan
             then (query_id,
                   pushReadingRequest \<lparr>req_receiver = Some receiver, req_queryId = query_id, req_chronicle = chronicle_name,
                     req_story = story_name, req_start = start_time, req_end = archiveEnd plan\<rparr> s1)
             else (query_id, s1))"

text \<open>\<^verbatim>\<open>addArchivedEventsToQueryResponse\<close>: the first result tells whether the query is known.\<close>

definition addArchivedEventsToQueryResponse ::
  "(Event list \<Rightarrow> Event list) \<Rightarrow> u32 \<Rightarrow> StoryChunk list \<Rightarrow> bool \<Rightarrow> active_queries \<Rightarrow> bool \<times> active_queries" where
  "addArchivedEventsToQueryResponse std_sort query_id archive_chunks read_ok queries =
     (let archived_events = fold (\<lambda>c series. fst (extractEventSeries c series)) archive_chunks [] in
      case map_of queries query_id of
        None \<Rightarrow> (False, queries)
      | Some (ready, response) \<Rightarrow>
          let response1 = (if \<not> read_ok then response\<lparr>resp_complete := False\<rparr> else response);
              response2 = (if archived_events = [] then response1
                           else response1\<lparr>resp_events := mergeReplayEvents std_sort archived_events (resp_events response1)\<rparr>)
          in (True, omap_put query_id (True, response2) queries))"

text \<open>One round of \<^verbatim>\<open>archiveReadingTask\<close>; \<open>read\<close> is what the archive reader returns for a request.\<close>

definition archiveReading_step ::
  "(Event list \<Rightarrow> Event list) \<Rightarrow> (ArchiveReadingRequest \<Rightarrow> bool \<times> StoryChunk list) \<Rightarrow> Player \<Rightarrow> Player" where
  "archiveReading_step std_sort read s =
     (case popReadingRequest s of
        (None, s1) \<Rightarrow> s1
      | (Some r, s1) \<Rightarrow>
          if \<not> is_valid r then s1
          else
            (case req_receiver r of
               None \<Rightarrow> s1
             | Some receiver \<Rightarrow>
                 (case responseSenders s1 receiver of
                    None \<Rightarrow> s1
                  | Some queries \<Rightarrow>
                      let (read_ok, list_of_chunks) = read r;
                          (known, queries') =
                            addArchivedEventsToQueryResponse std_sort (req_queryId r) list_of_chunks read_ok queries
                      in s1\<lparr>responseSenders := (responseSenders s1)(receiver \<mapsto> queries')\<rparr>)))"

text \<open>
  One round of \<^verbatim>\<open>drainQueryResponses\<close> of a receiver's agent: the first ready response leaves the
  map and is transferred; it is deleted whether or not the transfer succeeds.
\<close>

definition drain_step :: "bool \<Rightarrow> service_endpoint \<Rightarrow> Player \<Rightarrow> Player" where
  "drain_step transfer_ok receiver s =
     (case responseSenders s receiver of
        None \<Rightarrow> s
      | Some queries \<Rightarrow>
          (case filter (\<lambda>p. fst (snd p)) queries of
             [] \<Rightarrow> s
           | (query_id, _, response) # _ \<Rightarrow>
               s\<lparr>responseSenders := (responseSenders s)(receiver \<mapsto> omap_erase query_id queries),
                 transferred := (if transfer_ok then transferred s @ [(receiver, response)] else transferred s)\<rparr>))"

section \<open>The merge gives each event once\<close>

locale event_sort =
  fixes std_sort :: "Event list \<Rightarrow> Event list"
  assumes sort_permutes: "mset (std_sort xs) = mset xs"
    and sort_sorts: "sorted (map event_key (std_sort xs))"
begin

lemma set_std_sort [simp]: "set (std_sort xs) = set xs"
  using arg_cong [OF sort_permutes, of set_mset] by simp

end

lemma unique_by_strict: "sorted (map f xs) \<Longrightarrow> sorted_wrt (<) (map f (unique_by f xs))" for f :: "'a \<Rightarrow> 'b::linorder"
proof (induction f xs rule: unique_by.induct)
  case (3 f x y xs)
  show ?case
  proof (cases "f x = f y")
    case False
    then have lt: "f x < f y" "\<forall>z\<in>set xs. f y \<le> f z" using 3(3) by auto
    have "\<forall>z\<in>set (unique_by f (y # xs)). f y \<le> f z"
    proof
      fix z assume "z \<in> set (unique_by f (y # xs))"
      then have "z \<in> set (y # xs)"
        by (induction f "y # xs" arbitrary: y xs rule: unique_by.induct) (auto split: if_splits)
      then show "f y \<le> f z" using lt(2) by auto
    qed
    then show ?thesis using 3 False lt(1) by fastforce
  qed (use 3 in simp)
qed simp_all

lemma unique_by_subset: "set (unique_by f xs) \<subseteq> set xs"
  by (induction f xs rule: unique_by.induct) auto

lemma unique_by_keys: "f ` set (unique_by f xs) = f ` set xs"
  by (induction f xs rule: unique_by.induct) auto

context event_sort
begin

lemma merge_exact:
  "sorted_wrt (<) (map event_key (mergeReplayEvents std_sort archived hot)) \<and>
   event_key ` set (mergeReplayEvents std_sort archived hot) = event_key ` (set archived \<union> set hot) \<and>
   set (mergeReplayEvents std_sort archived hot) \<subseteq> set archived \<union> set hot"
  using unique_by_strict [OF sort_sorts] unique_by_keys [of event_key "std_sort (archived @ hot)"]
    unique_by_subset [of event_key "std_sort (archived @ hot)"]
  by (simp add: mergeReplayEvents_def)

end

interpretation stable_sort: event_sort "sort_key event_key"
  by unfold_locales simp_all

section \<open>The split\<close>

lemma fold_max_bounds:
  fixes b :: "'a::linorder"
  shows "b \<le> fold (\<lambda>x. max (f x)) xs b" "x \<in> set xs \<Longrightarrow> f x \<le> fold (\<lambda>x. max (f x)) xs b"
    "fold (\<lambda>x. max (f x)) xs b \<in> insert b (f ` set xs)"
proof -
  have mono: "c \<le> fold (\<lambda>x. max (f x)) ys c" for c ys
    by (induction ys arbitrary: c) (auto intro: order_trans [OF max.cobounded2])
  show "b \<le> fold (\<lambda>x. max (f x)) xs b" by (rule mono)
  show "x \<in> set xs \<Longrightarrow> f x \<le> fold (\<lambda>x. max (f x)) xs b"
    by (induction xs arbitrary: b) (auto intro: order_trans [OF max.cobounded1 mono])
  show "fold (\<lambda>x. max (f x)) xs b \<in> insert b (f ` set xs)"
  proof (induction xs arbitrary: b)
    case (Cons y ys)
    then show ?case using Cons [of "max (f y) b"] by (auto simp: max_def split: if_splits)
  qed simp
qed

lemma fold_min_bounds:
  fixes b :: "'a::linorder"
  shows "x \<in> set xs \<Longrightarrow> fold (\<lambda>x. min (f x)) xs b \<le> f x"
proof -
  have mono: "fold (\<lambda>x. min (f x)) ys c \<le> c" for c ys
    by (induction ys arbitrary: c) (auto intro: order_trans [OF _ min.cobounded2])
  show "x \<in> set xs \<Longrightarrow> fold (\<lambda>x. min (f x)) xs b \<le> f x"
    by (induction xs arbitrary: b) (auto intro: order_trans [OF mono min.cobounded1])
qed

lemma split_bounds_folds:
  "split_bounds rs = (fold (\<lambda>r. max (known_W r)) rs 0, fold (\<lambda>r. min (hot_floor r)) rs (- 1))"
proof -
  have "fold (\<lambda>r (highest, lowest).
         (if highest < known_W r then known_W r else highest, if hot_floor r < lowest then hot_floor r else lowest)) rs (hi, lo) =
       (fold (\<lambda>r. max (known_W r)) rs hi, fold (\<lambda>r. min (hot_floor r)) rs lo)" for hi lo
  proof (induction rs arbitrary: hi lo)
    case (Cons r rs)
    have "(if hi < known_W r then known_W r else hi) = max (known_W r) hi"
      "(if hot_floor r < lo then hot_floor r else lo) = min (hot_floor r) lo" by (auto simp: max_def min_def)
    then show ?case using Cons [of "max (known_W r) hi" "min (hot_floor r) lo"] by simp
  qed simp
  then show ?thesis unfolding split_bounds_def .
qed

lemma split_bounds_max:
  "r \<in> set rs \<Longrightarrow> known_W r \<le> fst (split_bounds rs)" "r \<in> set rs \<Longrightarrow> snd (split_bounds rs) \<le> hot_floor r"
  unfolding split_bounds_folds using fold_max_bounds(2) [of r rs known_W 0] fold_min_bounds [of r rs hot_floor "- 1"] by simp_all

definition keyed :: "(EventSequence, LogEvent) omap \<Rightarrow> bool" where
  "keyed m \<longleftrightarrow> omap_ok m \<and> (\<forall>p\<in>set m. fst p = event_sequence (snd p))"

definition kept :: "u64 \<Rightarrow> HotRangeResponse \<Rightarrow> LogEvent set" where
  "kept b r = set (unconfirmed_events r) \<union> {e \<in> set (hot_events r). b \<le> eventTime e}"

lemma keyed_emplace:
  assumes "keyed m"
  shows "keyed (omap_emplace (event_sequence e) e m)"
    "fst ` set (omap_emplace (event_sequence e) e m) = insert (event_sequence e) (fst ` set m)"
    "snd ` set (omap_emplace (event_sequence e) e m) \<subseteq> insert e (snd ` set m)"
proof -
  have put: "set (omap_put (event_sequence e) e m) = insert (event_sequence e, e) {p \<in> set m. fst p \<noteq> event_sequence e}"
    by (rule set_omap_put)
  show "keyed (omap_emplace (event_sequence e) e m)"
    using assms put by (auto simp: keyed_def omap_emplace_def split: option.splits)
  show "fst ` set (omap_emplace (event_sequence e) e m) = insert (event_sequence e) (fst ` set m)"
  proof (cases "map_of m (event_sequence e)")
    case None
    then show ?thesis unfolding omap_emplace_def using put by (auto simp: image_iff)
  next
    case (Some v)
    then have "event_sequence e \<in> fst ` set m" by (metis map_of_eq_None_iff option.distinct(1))
    then show ?thesis using Some by (simp add: omap_emplace_def insert_absorb)
  qed
  show "snd ` set (omap_emplace (event_sequence e) e m) \<subseteq> insert e (snd ` set m)"
    using put by (auto simp: omap_emplace_def split: option.splits)
qed

text \<open>A map after events were emplaced into it.\<close>

definition gathers :: "(EventSequence, LogEvent) omap \<Rightarrow> (EventSequence, LogEvent) omap \<Rightarrow> LogEvent set \<Rightarrow> bool" where
  "gathers m m' E \<longleftrightarrow> keyed m' \<and> fst ` set m' = fst ` set m \<union> event_sequence ` E \<and> snd ` set m' \<subseteq> snd ` set m \<union> E"

lemma gathers_trans:
  assumes "gathers m m1 E" "gathers m1 m2 F"
  shows "gathers m m2 (E \<union> F)"
proof -
  have m1: "fst ` set m1 = fst ` set m \<union> event_sequence ` E" "snd ` set m1 \<subseteq> snd ` set m \<union> E"
    and m2: "keyed m2" "fst ` set m2 = fst ` set m1 \<union> event_sequence ` F" "snd ` set m2 \<subseteq> snd ` set m1 \<union> F"
    using assms by (simp_all add: gathers_def)
  have "fst ` set m2 = fst ` set m \<union> event_sequence ` (E \<union> F)" unfolding m2(2) m1(1) image_Un by (rule Un_assoc)
  moreover have "snd ` set m2 \<subseteq> snd ` set m \<union> (E \<union> F)" using m1(2) m2(3) by blast
  ultimately show ?thesis using m2(1) by (simp add: gathers_def)
qed

lemma gathers_keyed: "gathers m m' E \<Longrightarrow> keyed m'"
  by (simp add: gathers_def)

lemma gathers_refl: "keyed m \<Longrightarrow> gathers m m {}"
  by (simp add: gathers_def)

lemma gathers_fold:
  assumes "keyed m" "\<And>x m. keyed m \<Longrightarrow> gathers m (f x m) (E x)"
  shows "gathers m (fold f xs m) (\<Union>x\<in>set xs. E x)"
  using assms(1)
proof (induction xs arbitrary: m)
  case (Cons x xs)
  note step = assms(2) [OF Cons.prems, of x]
  from gathers_trans [OF step Cons.IH [OF gathers_keyed [OF step]]] show ?case by simp
qed (simp add: gathers_refl)

lemma gathers_emplace: "keyed m \<Longrightarrow> gathers m (omap_emplace (event_sequence e) e m) {e}"
  using keyed_emplace [of m e] by (simp add: gathers_def)

lemma merge_response_gathers: "keyed m \<Longrightarrow> gathers m (merge_response b r m) (kept b r)"
proof -
  assume m: "keyed m"
  let ?u = "fold (\<lambda>e. omap_emplace (event_sequence e) e) (unconfirmed_events r) m"
  have u: "gathers m ?u (\<Union>e\<in>set (unconfirmed_events r). {e})" by (rule gathers_fold [OF m gathers_emplace])
  have step: "gathers m (if b \<le> eventTime e then omap_emplace (event_sequence e) e m else m) (if b \<le> eventTime e then {e} else {})"
    if "keyed m" for e m using that gathers_emplace gathers_refl by simp
  have h: "gathers ?u (fold (\<lambda>e m. if b \<le> eventTime e then omap_emplace (event_sequence e) e m else m) (hot_events r) ?u)
      (\<Union>e\<in>set (hot_events r). if b \<le> eventTime e then {e} else {})"
    by (rule gathers_fold [OF gathers_keyed [OF u] step])
  have "kept b r = (\<Union>e\<in>set (unconfirmed_events r). {e}) \<union> (\<Union>e\<in>set (hot_events r). if b \<le> eventTime e then {e} else {})"
    by (auto simp: kept_def)
  then show ?thesis unfolding merge_response_def
    using gathers_trans [OF u h] by simp
qed

lemma splitHotRange_events:
  assumes "split = splitHotRange rs a b"
  shows "sorted_wrt (<) (map event_sequence (hotEvents split))"
    "event_sequence ` set (hotEvents split) = event_sequence ` (\<Union>r\<in>set rs. kept (boundary split) r)"
    "set (hotEvents split) \<subseteq> (\<Union>r\<in>set rs. kept (boundary split) r)"
proof -
  define m where "m = fold (merge_response (boundary split)) rs []"
  have split: "hotEvents split = map snd m"
    unfolding assms m_def by (simp add: splitHotRange_def Let_def case_prod_beta)
  have "keyed []" by (simp add: keyed_def omap_ok_def)
  then have "gathers [] m (\<Union>r\<in>set rs. kept (boundary split) r)"
    unfolding m_def by (rule gathers_fold [OF _ merge_response_gathers])
  then have f: "keyed m" "fst ` set m = event_sequence ` (\<Union>r\<in>set rs. kept (boundary split) r)"
      "snd ` set m \<subseteq> (\<Union>r\<in>set rs. kept (boundary split) r)" by (simp_all add: gathers_def)
  then have keys: "map event_sequence (map snd m) = map fst m" by (auto simp: keyed_def)
  show "sorted_wrt (<) (map event_sequence (hotEvents split))"
    unfolding split keys using f by (simp add: keyed_def omap_ok_def)
  have "event_sequence ` set (map snd m) = fst ` set m" using arg_cong [OF keys, of set] by (simp add: image_image)
  then show "event_sequence ` set (hotEvents split) = event_sequence ` (\<Union>r\<in>set rs. kept (boundary split) r)"
    unfolding split using f by simp
  show "set (hotEvents split) \<subseteq> (\<Union>r\<in>set rs. kept (boundary split) r)" unfolding split using f by simp
qed

lemma splitHotRange_boundary:
  assumes "r \<in> set rs" "t < known_W r" "t < b"
  shows "t < boundary (splitHotRange rs a b)"
proof -
  have "t < fst (split_bounds rs)" using split_bounds_max(1) [OF assms(1)] assms(2) by (rule order_less_le_trans [rotated])
  moreover have "0 < fst (split_bounds rs)" using calculation by (metis word_gt_0 word_not_simps(1))
  ultimately show ?thesis using assms(3) by (simp add: splitHotRange_def Let_def case_prod_beta)
qed

lemma splitHotRange_complete: "split_complete (splitHotRange rs a b) \<longleftrightarrow> boundary (splitHotRange rs a b) \<le> a"
  by (simp add: splitHotRange_def Let_def case_prod_beta)

section \<open>What the player relies on of a keeper\<close>

text \<open>
  A keeper's answer for a range, by the events its chunks retain, the ones among them whose chunk
  is confirmed and visible in the archive, and the watermark it knows: it returns every retained event of
  the range, as unconfirmed unless its chunk is visible, and leaves out only visible ones below the
  watermark. The players' lemma is proved once from these laws.
\<close>

locale hot_source =
  fixes ok :: "'s \<Rightarrow> bool" and answer :: "'s \<Rightarrow> u64 \<Rightarrow> u64 \<Rightarrow> HotRangeResponse"
    and retained visible :: "'s \<Rightarrow> EventSequence set" and watermark :: "'s \<Rightarrow> u64"
  assumes known: "ok s \<Longrightarrow> known_W (answer s a b) = watermark s"
    and serves: "ok s \<Longrightarrow> \<not> truncated (answer s a b) \<Longrightarrow> k \<in> retained s \<Longrightarrow> a \<le> fst k \<Longrightarrow> fst k < b \<Longrightarrow>
      k \<in> event_sequence ` (set (hot_events (answer s a b)) \<union> set (unconfirmed_events (answer s a b))) \<or>
      k \<in> visible s \<and> fst k < watermark s"
    and hot_visible: "ok s \<Longrightarrow> e \<in> set (hot_events (answer s a b)) \<Longrightarrow> event_sequence e \<in> visible s"
begin

lemma replay_covers:
  assumes ok: "\<forall>s\<in>set ss. ok s" and whole: "\<forall>s\<in>set ss. \<not> truncated (answer s a b)"
    and archive: "\<forall>s\<in>set ss. visible s \<subseteq> archive"
    and split: "split = splitHotRange (map (\<lambda>s. answer s a b) ss) a b" and plan: "plan = planReplay split a b True False"
    and s: "s \<in> set ss" and k: "k \<in> retained s \<or> k \<in> archive \<and> fst k < watermark s" "a \<le> fst k" "fst k < b"
  shows "k \<in> event_sequence ` set (hotEvents split) \<or> archiveNeeded plan \<and> k \<in> archive \<and> fst k < archiveEnd plan"
proof -
  let ?r = "answer s a b" and ?rs = "map (\<lambda>s. answer s a b) ss"
  have r: "?r \<in> set ?rs" using s by auto
  have below: "k \<in> archive \<Longrightarrow> fst k < boundary split \<Longrightarrow> ?thesis"
    using k(2) by (auto simp: plan planReplay_def split splitHotRange_complete)
  have freed: ?thesis if mark: "k \<in> archive" "fst k < watermark s"
    using below [OF mark(1)] splitHotRange_boundary [OF r, of "fst k" b a] known [of s a b] ok s mark(2) k(3)
    by (simp add: split)
  have event_time: "fst (event_sequence e) = eventTime e" for e by (simp add: event_sequence_def)
  have shown: ?thesis if ret: "e \<in> set (hot_events ?r) \<union> set (unconfirmed_events ?r)" "k = event_sequence e" for e
  proof (cases "e \<in> kept (boundary split) ?r")
    case True
    then have "k \<in> event_sequence ` (\<Union>r\<in>set ?rs. kept (boundary split) r)" using ret(2) r by blast
    then show ?thesis using splitHotRange_events(2) [OF split] by blast
  next
    case False
    then have "e \<in> set (hot_events ?r)" "\<not> boundary split \<le> eventTime e" using ret(1) by (auto simp: kept_def)
    moreover have "k \<in> archive" using hot_visible [of s e a b] calculation(1) ok archive s ret(2) by blast
    ultimately show ?thesis using below event_time [of e] ret(2) by (simp add: not_le)
  qed
  show ?thesis using k(1)
  proof
    assume "k \<in> retained s"
    then consider (ret) "k \<in> event_sequence ` (set (hot_events ?r) \<union> set (unconfirmed_events ?r))"
      | (vis) "k \<in> visible s" "fst k < watermark s" using serves [of s a b k] ok whole s k(2,3) by blast
    then show ?thesis
    proof cases
      case ret
      then show ?thesis using shown by blast
    next
      case vis
      then show ?thesis using freed archive s by blast
    qed
  qed (use freed in blast)
qed

end

section \<open>The keeper keeps the contract\<close>

definition retained_chunks :: "StoryId \<Rightarrow> KeeperChunkRetentionStore \<Rightarrow> (ptr \<times> ChunkState) list" where
  "retained_chunks sid s = (case map_of (storyRetention s) sid of None \<Rightarrow> [] | Some story \<Rightarrow> chunks story)"

text \<open>The chunks the store retains for the story are live and well-formed.\<close>

definition fetch_ok :: "StoryId \<Rightarrow> KeeperChunkRetentionStore \<Rightarrow> bool" where
  "fetch_ok sid s \<longleftrightarrow>
     list_all (\<lambda>p. case heap s (fst p) of None \<Rightarrow> False | Some c \<Rightarrow> wf_chunk c) (retained_chunks sid s)"

definition fetch_answer :: "int \<Rightarrow> StoryId \<Rightarrow> nat \<Rightarrow> KeeperChunkRetentionStore \<Rightarrow> u64 \<Rightarrow> u64 \<Rightarrow> HotRangeResponse" where
  "fetch_answer now sid n s a b = (case fetchRange now sid a b n s of None \<Rightarrow> unansweredResponse | Some (r, _) \<Rightarrow> r)"

definition chunk_keys :: "KeeperChunkRetentionStore \<Rightarrow> ptr \<Rightarrow> EventSequence set" where
  "chunk_keys s p = (case heap s p of None \<Rightarrow> {} | Some c \<Rightarrow> fst ` set (logEvents c))"

definition retained_keys :: "StoryId \<Rightarrow> KeeperChunkRetentionStore \<Rightarrow> EventSequence set" where
  "retained_keys sid s = (\<Union>p\<in>set (retained_chunks sid s). chunk_keys s (fst p))"

text \<open>The events of chunks that the grapher confirmed long enough ago for the archive to show them.\<close>

definition visible_keys :: "int \<Rightarrow> StoryId \<Rightarrow> KeeperChunkRetentionStore \<Rightarrow> EventSequence set" where
  "visible_keys now sid s =
     (case map_of (storyRetention s) sid of
        None \<Rightarrow> {}
      | Some story \<Rightarrow> \<Union>p\<in>set (chunks story).
          if fst (visibleInArchive (archiveVisibilityDelay s) story (snd p) now) then chunk_keys s (fst p) else {})"

definition known_watermark :: "StoryId \<Rightarrow> KeeperChunkRetentionStore \<Rightarrow> u64" where
  "known_watermark sid s = (case map_of (storyRetention s) sid of None \<Rightarrow> 0 | Some story \<Rightarrow> known_w story)"

lemma takeWhile_sorted:
  assumes "sorted_wrt R xs" "\<And>x y. R x y \<Longrightarrow> P y \<Longrightarrow> P x"
  shows "takeWhile P xs = filter P xs"
  using assms(1)
proof (induction xs)
  case (Cons x xs)
  have "filter P xs = []" if "\<not> P x" using Cons.prems assms(2) that by (auto simp: filter_empty_conv)
  then show ?case using Cons by auto
qed simp

lemma set_range_nodes:
  assumes "wf_chunk c"
  shows "set (range_nodes c a b) = {p \<in> set (logEvents c). a \<le> fst (fst p) \<and> fst (fst p) < b}"
proof -
  have ok: "omap_ok (omap_from (a, 0, 0) (logEvents c))" using assms by (auto simp: wf_chunk_def)
  have key: "fst (fst p) = eventTime (snd p)" if "p \<in> set (logEvents c)" for p
    using assms that by (auto simp: wf_chunk_def wf_event_def event_sequence_def)
  have srt: "sorted_wrt (\<lambda>p q. fst p < fst q) (omap_from (a, 0, 0) (logEvents c))"
    using ok by (simp add: omap_ok_def sorted_wrt_map)
  have "takeWhile (\<lambda>p. fst (fst p) < b) (omap_from (a, 0, 0) (logEvents c)) = filter (\<lambda>p. fst (fst p) < b) (omap_from (a, 0, 0) (logEvents c))"
    by (rule takeWhile_sorted [OF srt]) (auto simp: less_prod_def)
  moreover have "range_nodes c a b = takeWhile (\<lambda>p. fst (fst p) < b) (omap_from (a, 0, 0) (logEvents c))"
    unfolding range_nodes_def chunk_lower_bound_def using key by (intro takeWhile_cong) (auto simp: omap_from_def)
  moreover have "(a, 0, 0) \<le> k \<longleftrightarrow> a \<le> fst k" for k :: EventSequence
    by (cases k) (auto simp: less_eq_prod_def)
  ultimately show ?thesis by (auto simp: omap_from_def)
qed

text \<open>The map the fetch merges: every key with an event of that key, and whether some visible chunk holds it.\<close>

definition acked :: "(EventSequence, LogEvent \<times> bool) omap \<Rightarrow> EventSequence set \<Rightarrow> EventSequence set \<Rightarrow> bool" where
  "acked m K V \<longleftrightarrow> omap_ok m \<and> V \<subseteq> K \<and> dom (map_of m) = K \<and>
     (\<forall>k e ack. map_of m k = Some (e, ack) \<longrightarrow> k = event_sequence e \<and> (ack \<longleftrightarrow> k \<in> V))"

lemma ackedI:
  assumes "omap_ok m" "V \<subseteq> K" "dom (map_of m) = K"
    and "\<And>k e ack. map_of m k = Some (e, ack) \<Longrightarrow> k = event_sequence e \<and> (ack \<longleftrightarrow> k \<in> V)"
  shows "acked m K V"
  unfolding acked_def using assms by blast

lemma ackedD:
  assumes "acked m K V"
  shows "omap_ok m" "V \<subseteq> K" "dom (map_of m) = K" "map_of m k = Some (e, ack) \<Longrightarrow> k = event_sequence e"
    "map_of m k = Some (e, ack) \<Longrightarrow> ack \<longleftrightarrow> k \<in> V"
  using assms unfolding acked_def by blast+

lemma merge_node_acked:
  assumes m: "acked m K V" and e: "k = event_sequence e"
    and m': "m' = (let m1 = omap_emplace k (e, ack) m in case map_of m1 k of None \<Rightarrow> m1 | Some (e1, b) \<Rightarrow> omap_put k (e1, b \<or> ack) m1)"
  shows "acked m' (insert k K) (if ack then insert k V else V)"
proof -
  have "\<exists>e1 b. map_of (omap_emplace k (e, ack) m) k = Some (e1, b) \<and> k = event_sequence e1 \<and> (b \<longleftrightarrow> (if k \<in> K then k \<in> V else ack))"
  proof (cases "map_of m k")
    case None
    then have "k \<notin> K" using ackedD(3) [OF m] by blast
    then show ?thesis using None e by (simp add: omap_simps)
  next
    case (Some v)
    obtain e1 b where v: "v = (e1, b)" by fastforce
    have "k \<in> K" using ackedD(3) [OF m] Some by blast
    moreover have "map_of (omap_emplace k (e, ack) m) k = Some (e1, b)" using Some v by (simp add: omap_simps)
    moreover have "k = event_sequence e1" "b \<longleftrightarrow> k \<in> V" using ackedD(4,5) [OF m, of k e1 b] Some v by simp_all
    ultimately show ?thesis by auto
  qed
  then obtain e1 b where 1: "map_of (omap_emplace k (e, ack) m) k = Some (e1, b)" "k = event_sequence e1"
      "b \<longleftrightarrow> (if k \<in> K then k \<in> V else ack)" by blast
  have m'_eq: "m' = omap_put k (e1, b \<or> ack) (omap_emplace k (e, ack) m)" using 1(1) by (simp add: m' Let_def)
  have look: "map_of m' = (map_of m)(k \<mapsto> (e1, b \<or> ack))"
    by (auto simp: m'_eq omap_simps fun_eq_iff split: option.splits)
  show ?thesis
  proof (rule ackedI)
    show "omap_ok m'" using ackedD(1) [OF m] by (auto simp: m'_eq)
    show "(if ack then insert k V else V) \<subseteq> insert k K" using ackedD(2) [OF m] by auto
    show "dom (map_of m') = insert k K" using ackedD(3) [OF m] by (simp add: look)
    show "k' = event_sequence e' \<and> (a' \<longleftrightarrow> k' \<in> (if ack then insert k V else V))" if "map_of m' k' = Some (e', a')" for k' e' a'
    proof (cases "k' = k")
      case True
      then have "e' = e1" "a' \<longleftrightarrow> b \<or> ack" using that by (simp_all add: look)
      then show ?thesis using True 1(2,3) ackedD(2) [OF m] by auto
    next
      case False
      then have "map_of m k' = Some (e', a')" using that by (simp add: look)
      then show ?thesis using ackedD(4,5) [OF m] False by auto
    qed
  qed
qed

lemma merge_nodes_acked:
  assumes "acked m K V" "\<forall>p\<in>set nodes. fst p = event_sequence (snd p)"
  shows "acked (merge_nodes ack nodes m) (K \<union> fst ` set nodes) (if ack then V \<union> fst ` set nodes else V)"
  using assms
proof (induction ack nodes m arbitrary: K V rule: merge_nodes.induct)
  case (2 ack k e es m)
  have "k = event_sequence e" using 2(3) by simp
  note step = merge_node_acked [OF 2(2) this refl, of ack, unfolded Let_def]
  have "\<forall>p\<in>set es. fst p = event_sequence (snd p)" using 2(3) by simp
  note IH = 2(1) [OF refl step this]
  have sets: "insert k K \<union> fst ` set es = K \<union> fst ` set ((k, e) # es)"
      "(if ack then (if ack then insert k V else V) \<union> fst ` set es else (if ack then insert k V else V)) =
       (if ack then V \<union> fst ` set ((k, e) # es) else V)" by auto
  show ?case using IH unfolding sets by (simp only: merge_nodes.simps Let_def)
qed simp

lemma fetch_chunks_acked:
  assumes "\<forall>p\<in>set cs. \<exists>c. h (fst p) = Some c \<and> wf_chunk c" "acked m K V"
  shows "\<exists>floor' m' cs'. fetch_chunks h delay now a b story cs (floor, m) = Some (floor', m', cs') \<and>
    acked m' (K \<union> (\<Union>p\<in>set cs. {k. k \<in> fst ` set (logEvents (the (h (fst p)))) \<and> a \<le> fst k \<and> fst k < b}))
      (V \<union> (\<Union>p\<in>set cs. {k. fst (visibleInArchive delay story (snd p) now) \<and>
          k \<in> fst ` set (logEvents (the (h (fst p)))) \<and> a \<le> fst k \<and> fst k < b}))"
  using assms
proof (induction cs arbitrary: floor m K V)
  case (Cons x cs)
  obtain p st where x: "x = (p, st)" by (cases x)
  obtain c where c: "h p = Some c" "wf_chunk c" using Cons.prems(1) x by auto
  obtain v st1 where v: "visibleInArchive delay story st now = (v, st1)" by fastforce
  let ?N = "{k. k \<in> fst ` set (logEvents c) \<and> a \<le> fst k \<and> fst k < b}"
  have keys: "fst ` set (range_nodes c a b) = ?N" unfolding set_range_nodes [OF c(2)] by blast
  have nodes: "\<forall>q\<in>set (range_nodes c a b). fst q = event_sequence (snd q)"
    using c(2) unfolding set_range_nodes [OF c(2)] by (auto simp: wf_chunk_def wf_event_def)
  note m1 = merge_nodes_acked [OF Cons.prems(2) nodes, of v, unfolded keys]
  have rest: "\<forall>p\<in>set cs. \<exists>c. h (fst p) = Some c \<and> wf_chunk c" using Cons.prems(1) by simp
  let ?floor = "if \<not> chunk_empty c \<and> firstEventTime c < floor then firstEventTime c else floor"
  obtain floor' m' cs' where IH: "fetch_chunks h delay now a b story cs (?floor, merge_nodes v (range_nodes c a b) m) = Some (floor', m', cs')"
    "acked m' (K \<union> ?N \<union> (\<Union>p\<in>set cs. {k. k \<in> fst ` set (logEvents (the (h (fst p)))) \<and> a \<le> fst k \<and> fst k < b}))
      ((if v then V \<union> ?N else V) \<union> (\<Union>p\<in>set cs. {k. fst (visibleInArchive delay story (snd p) now) \<and>
          k \<in> fst ` set (logEvents (the (h (fst p)))) \<and> a \<le> fst k \<and> fst k < b}))"
    using Cons.IH [OF rest m1, of ?floor] by blast
  have "(if v then V \<union> ?N else V) = V \<union> {k. v \<and> k \<in> fst ` set (logEvents c) \<and> a \<le> fst k \<and> fst k < b}" by auto
  then show ?case using IH c x v by (simp add: Let_def Un_assoc)
qed simp

lemma serve_split:
  assumes "r' = serve n m served r"
  shows "known_W r' = known_W r \<and> set (hot_events r') \<subseteq> set (hot_events r) \<union> set (map (\<lambda>x. fst (snd x)) (filter (\<lambda>x. snd (snd x)) m)) \<and>
    (\<not> truncated r' \<longrightarrow> (\<forall>(k, e, ack)\<in>set m.
       e \<in> set (hot_events r') \<union> set (unconfirmed_events r') \<or> ack \<and> eventTime e < known_W r)) \<and>
    set (hot_events r) \<subseteq> set (hot_events r') \<and> set (unconfirmed_events r) \<subseteq> set (unconfirmed_events r')"
  unfolding assms
proof (induction n m served r rule: serve.induct)
  case (2 n k e ack es served r)
  show ?case
  proof (cases "ack \<and> eventTime e < known_W r")
    case True
    then show ?thesis using 2(1) [OF True] by auto
  next
    case False
    show ?thesis
    proof (cases "n \<le> served")
      case True
      then show ?thesis using False by auto
    next
      case room: False
      show ?thesis using 2(2) [OF False room] 2(3) [OF False room] False room by (cases ack) auto
    qed
  qed
qed simp

lemma fetch_answer_laws:
  assumes ok: "fetch_ok sid s" and r: "r = fetch_answer now sid n s a b"
  shows "known_W r = known_watermark sid s"
    and "\<not> truncated r \<Longrightarrow> k \<in> retained_keys sid s \<Longrightarrow> a \<le> fst k \<Longrightarrow> fst k < b \<Longrightarrow>
      k \<in> event_sequence ` (set (hot_events r) \<union> set (unconfirmed_events r)) \<or> k \<in> visible_keys now sid s \<and> fst k < known_watermark sid s"
    and "e \<in> set (hot_events r) \<Longrightarrow> event_sequence e \<in> visible_keys now sid s"
proof -
  have *: "known_W r = known_watermark sid s \<and>
      (\<not> truncated r \<longrightarrow> k \<in> retained_keys sid s \<longrightarrow> a \<le> fst k \<longrightarrow> fst k < b \<longrightarrow>
        k \<in> event_sequence ` (set (hot_events r) \<union> set (unconfirmed_events r)) \<or> k \<in> visible_keys now sid s \<and> fst k < known_watermark sid s) \<and>
      (e \<in> set (hot_events r) \<longrightarrow> event_sequence e \<in> visible_keys now sid s)" for k e
  proof (cases "map_of (storyRetention s) sid")
    case None
    then show ?thesis
      by (simp add: r fetch_answer_def fetchRange_def known_watermark_def retained_keys_def retained_chunks_def new_HotRangeResponse_def)
  next
    case (Some story)
    let ?d = "archiveVisibilityDelay s" and ?r0 = "new_HotRangeResponse\<lparr>known_W := known_w story\<rparr>"
    have live: "\<forall>p\<in>set (chunks story). \<exists>c. heap s (fst p) = Some c \<and> wf_chunk c"
      using ok Some by (auto simp: fetch_ok_def retained_chunks_def list_all_iff split: option.splits)
    have "acked [] {} {}" by (rule ackedI) (simp_all add: omap_ok_def)
    from fetch_chunks_acked [OF live this, of ?d now a b story "hot_floor new_HotRangeResponse"]
    obtain fl m cs where run: "fetch_chunks (heap s) ?d now a b story (chunks story) (hot_floor new_HotRangeResponse, []) = Some (fl, m, cs)"
      and m: "acked m (\<Union>p\<in>set (chunks story). {k. k \<in> fst ` set (logEvents (the (heap s (fst p)))) \<and> a \<le> fst k \<and> fst k < b})
        (\<Union>p\<in>set (chunks story). {k. fst (visibleInArchive ?d story (snd p) now) \<and>
          k \<in> fst ` set (logEvents (the (heap s (fst p)))) \<and> a \<le> fst k \<and> fst k < b})" (is "acked m ?K ?V")
      by auto
    have rs: "r = serve n m 0 (new_HotRangeResponse\<lparr>known_W := known_w story, hot_floor := fl\<rparr>)"
      using Some run by (simp add: r fetch_answer_def fetchRange_def)
    note sv = serve_split [OF rs]
    have W: "known_w story = known_watermark sid s" using Some by (simp add: known_watermark_def)
    have chunkk: "chunk_keys s (fst p) = fst ` set (logEvents (the (heap s (fst p))))" if mem: "p \<in> set (chunks story)" for p
    proof -
      obtain c where "heap s (fst p) = Some c" using live mem by blast
      then show ?thesis by (simp add: chunk_keys_def)
    qed
    have K: "k \<in> ?K" if k: "k \<in> retained_keys sid s" "a \<le> fst k" "fst k < b"
    proof -
      have "retained_keys sid s = (\<Union>p\<in>set (chunks story). fst ` set (logEvents (the (heap s (fst p)))))"
        unfolding retained_keys_def retained_chunks_def using Some by (simp add: chunkk)
      then show ?thesis using k by blast
    qed
    have V: "?V \<subseteq> visible_keys now sid s"
    proof
      fix k assume "k \<in> ?V"
      then obtain p where "p \<in> set (chunks story)" "fst (visibleInArchive ?d story (snd p) now)" "k \<in> chunk_keys s (fst p)"
        using chunkk by blast
      then show "k \<in> visible_keys now sid s" unfolding visible_keys_def Some option.case by force
    qed
    have 1: "known_W r = known_watermark sid s" using sv W by simp
    have 2: "k \<in> event_sequence ` (set (hot_events r) \<union> set (unconfirmed_events r)) \<or> k \<in> visible_keys now sid s \<and> fst k < known_watermark sid s"
      if nt: "\<not> truncated r" and k: "k \<in> retained_keys sid s" "a \<le> fst k" "fst k < b"
    proof -
      have "k \<in> dom (map_of m)" unfolding ackedD(3) [OF m] by (rule K [OF k])
      then obtain ev ack where ev: "map_of m k = Some (ev, ack)" by auto
      note e = ackedD(4,5) [OF m ev]
      have vis: "ack \<Longrightarrow> k \<in> visible_keys now sid s" by (rule subsetD [OF V], rule iffD1 [OF e(2)])
      have time: "fst k = eventTime ev" unfolding e(1) by (simp add: event_sequence_def)
      have "ev \<in> set (hot_events r) \<union> set (unconfirmed_events r) \<or> ack \<and> eventTime ev < known_w story"
        using sv nt map_of_SomeD [OF ev] by auto
      then show ?thesis
      proof
        assume "ev \<in> set (hot_events r) \<union> set (unconfirmed_events r)"
        then show ?thesis unfolding e(1) by (intro disjI1 imageI)
      next
        assume "ack \<and> eventTime ev < known_w story"
        then show ?thesis using vis time W by simp
      qed
    qed
    have 3: "event_sequence e \<in> visible_keys now sid s" if e: "e \<in> set (hot_events r)"
    proof -
      have "e \<in> set (map (\<lambda>x. fst (snd x)) (filter (\<lambda>x. snd (snd x)) m))"
        using sv e by (auto simp: new_HotRangeResponse_def)
      then obtain k' where "(k', e, True) \<in> set m" by auto
      then have look: "map_of m k' = Some (e, True)" using ackedD(1) [OF m] by (simp add: omap_simps)
      have "k' \<in> visible_keys now sid s" by (rule subsetD [OF V], rule iffD1 [OF ackedD(5) [OF m look] TrueI])
      then show ?thesis using ackedD(4) [OF m look] by simp
    qed
    show ?thesis using 1 2 3 by blast
  qed
  show "known_W r = known_watermark sid s" using * by blast
  show "\<not> truncated r \<Longrightarrow> k \<in> retained_keys sid s \<Longrightarrow> a \<le> fst k \<Longrightarrow> fst k < b \<Longrightarrow>
      k \<in> event_sequence ` (set (hot_events r) \<union> set (unconfirmed_events r)) \<or> k \<in> visible_keys now sid s \<and> fst k < known_watermark sid s"
    using * by blast
  show "e \<in> set (hot_events r) \<Longrightarrow> event_sequence e \<in> visible_keys now sid s" using * by blast
qed

interpretation keeper_source: hot_source "fetch_ok sid" "fetch_answer now sid n" "retained_keys sid" "visible_keys now sid" "known_watermark sid"
  for sid now n
  by unfold_locales (rule fetch_answer_laws [OF _ refl]; assumption)+

section \<open>Replay\<close>

definition in_full :: "fetch_outcome \<Rightarrow> bool" where
  "in_full out = (case out of FetchAnswered r \<Rightarrow> answered r \<and> \<not> truncated r | _ \<Rightarrow> False)"

definition issued :: "fetch_outcome \<Rightarrow> bool" where
  "issued out \<longleftrightarrow> \<not> (out = NoClient \<or> out = NotIssued)"

lemma issue_fetches_filter: "issue_fetches outs = (filter issued outs, list_all issued outs)"
proof -
  have "fold (\<lambda>o1 (pending, all_answered). if o1 = NoClient \<or> o1 = NotIssued then (pending, False) else (pending @ [o1], all_answered)) outs (ps, b) =
      (ps @ filter issued outs, b \<and> list_all issued outs)" for ps b
    by (induction outs arbitrary: ps b) (auto simp: issued_def)
  then show ?thesis by (simp add: issue_fetches_def)
qed

lemma gather_hot_exact:
  "gather_hot outs = (map waitForRange (filter issued outs),
     list_all (\<lambda>out. issued out \<and> answered (waitForRange out)) outs, list_ex (\<lambda>out. truncated (waitForRange out)) outs)"
proof -
  have loop: "fold (\<lambda>p (responses, all_answered, any_truncated).
          let r = waitForRange p in (responses @ [r], all_answered \<and> answered r, any_truncated \<or> truncated r)) ps (rs, b, c) =
      (rs @ map waitForRange ps, b \<and> list_all (\<lambda>p. answered (waitForRange p)) ps, c \<or> list_ex (\<lambda>p. truncated (waitForRange p)) ps)"
    for ps rs b c by (induction ps arbitrary: rs b c) (auto simp: Let_def)
  have "list_ex (\<lambda>p. truncated (waitForRange p)) (filter issued outs) = list_ex (\<lambda>out. truncated (waitForRange out)) outs"
    by (induction outs) (auto simp: issued_def unansweredResponse_def new_HotRangeResponse_def)
  moreover have "list_all issued outs \<and> list_all (\<lambda>p. answered (waitForRange p)) (filter issued outs) \<longleftrightarrow>
      list_all (\<lambda>out. issued out \<and> answered (waitForRange out)) outs"
    by (induction outs) auto
  ultimately show ?thesis by (simp add: gather_hot_def issue_fetches_filter loop)
qed

lemma in_full_iff: "in_full out \<longleftrightarrow> issued out \<and> answered (waitForRange out) \<and> \<not> truncated (waitForRange out)"
  by (cases out) (auto simp: in_full_def issued_def unansweredResponse_def new_HotRangeResponse_def)

lemma planReplay_complete: "plan_complete (planReplay split a b all trunc) \<longleftrightarrow> all \<and> \<not> trunc"
  by (simp add: planReplay_def Let_def)

text \<open>What a request leaves in the map of its receiver.\<close>

lemma request_stores:
  assumes fresh: "responseSenders p receiver = Some queries" "map_of queries qid = None"
    and split: "split = splitHotRange (map waitForRange (filter issued outs)) a b"
    and plan: "plan = planReplay split a b (list_all (\<lambda>out. issued out \<and> answered (waitForRange out)) outs)
      (list_ex (\<lambda>out. truncated (waitForRange out)) outs)"
    and resp: "resp = \<lparr>resp_query_id = qid, resp_events = map to_Event (hotEvents split), resp_complete = list_all in_full outs\<rparr>"
  shows "story_playback_request can_create receiver qid chronicle story a b outs p =
    (qid, p\<lparr>responseSenders := (responseSenders p)(receiver \<mapsto> omap_put qid (\<not> archiveNeeded plan, resp) queries),
            readingRequestQueue := readingRequestQueue p @
              (if archiveNeeded plan
               then [\<lparr>req_receiver = Some receiver, req_queryId = qid, req_chronicle = chronicle, req_story = story,
                      req_start = a, req_end = archiveEnd plan\<rparr>] else [])\<rparr>)"
proof -
  have "list_all in_full outs \<longleftrightarrow> list_all (\<lambda>out. issued out \<and> answered (waitForRange out)) outs \<and>
      \<not> list_ex (\<lambda>out. truncated (waitForRange out)) outs"
    by (induction outs) (auto simp: in_full_iff)
  then have "plan_complete plan \<longleftrightarrow> list_all in_full outs" by (simp add: plan planReplay_complete)
  then show ?thesis
    using fresh by (simp add: story_playback_request_def gather_hot_exact Let_def split [symmetric] plan [symmetric] resp
        stashQueryResponseRecord_def pushReadingRequest_def)
qed

lemma event_key_to_Event [simp]: "event_key (to_Event e) = event_sequence e"
  by (simp add: event_key_def to_Event_def event_sequence_def)

lemma archived_events: "fold (\<lambda>c series. fst (extractEventSeries c series)) cs xs = xs @ map (\<lambda>p. to_Event (snd p)) (concat (map logEvents cs))"
  by (induction cs arbitrary: xs) (simp_all add: extractEventSeries_def)

context event_sort
begin

text \<open>The merged events of a response whose hot events are in order: in order, and nothing lost.\<close>

lemma archive_adds:
  assumes q: "map_of queries qid = Some (ready, resp)" and srt: "sorted_wrt (<) (map event_key (resp_events resp))"
    and add: "addArchivedEventsToQueryResponse std_sort qid cs read_ok queries = (known, queries')"
  shows "known \<and> (\<exists>resp'. map_of queries' qid = Some (True, resp') \<and> resp_query_id resp' = resp_query_id resp \<and>
    resp_complete resp' = (resp_complete resp \<and> read_ok) \<and> sorted_wrt (<) (map event_key (resp_events resp')) \<and>
    event_key ` set (resp_events resp') =
      event_key ` set (resp_events resp) \<union> event_sequence ` snd ` set (concat (map logEvents cs)))"
proof -
  let ?arch = "map (\<lambda>p. to_Event (snd p)) (concat (map logEvents cs))"
  have keys: "event_key ` set ?arch = event_sequence ` snd ` set (concat (map logEvents cs))" by (simp add: image_image)
  show ?thesis
  proof (cases "?arch = []")
    case True
    then show ?thesis using q srt add by (auto simp: addArchivedEventsToQueryResponse_def archived_events omap_simps)
  next
    case False
    let ?m = "mergeReplayEvents std_sort ?arch (resp_events resp)"
    note merge = merge_exact [of ?arch "resp_events resp"]
    have "event_key ` set ?m = event_key ` set (resp_events resp) \<union> event_sequence ` snd ` set (concat (map logEvents cs))"
      using merge unfolding image_Un keys by blast
    moreover have "fold (\<lambda>c series. fst (extractEventSeries c series)) cs [] = ?arch" by (simp only: archived_events append_Nil)
    ultimately show ?thesis using q add merge False
      by (auto simp: addArchivedEventsToQueryResponse_def Let_def omap_simps simp del: map_concat)
  qed
qed

end

lemma fetch_answer_answered:
  assumes "fetch_ok sid s"
  shows "answered (fetch_answer now sid n s a b)"
proof (cases "map_of (storyRetention s) sid")
  case None
  then show ?thesis by (simp add: fetch_answer_def fetchRange_def new_HotRangeResponse_def)
next
  case (Some story)
  have serve: "answered (serve n m k r) = answered r" for m k r by (induction n m k r rule: serve.induct) auto
  have live: "\<forall>p\<in>set (chunks story). \<exists>c. heap s (fst p) = Some c \<and> wf_chunk c"
    using assms Some by (auto simp: fetch_ok_def retained_chunks_def list_all_iff split: option.splits)
  have "acked [] {} {}" by (rule ackedI) (simp_all add: omap_ok_def)
  from fetch_chunks_acked [OF live this, of "archiveVisibilityDelay s" now a b story "hot_floor new_HotRangeResponse"]
  obtain fl m cs where "fetch_chunks (heap s) (archiveVisibilityDelay s) now a b story (chunks story) (hot_floor new_HotRangeResponse, []) = Some (fl, m, cs)"
    by blast
  then show ?thesis using Some by (simp add: fetch_answer_def fetchRange_def serve) (simp add: new_HotRangeResponse_def)
qed

text \<open>
  Claim C12. A replay marked complete is complete. Hypotheses: the request is for a valid, not yet active query
  of a known receiver with an empty reading queue; every keeper of the story answers in full (it is not truncated);
  what a keeper shows as confirmed is in the archive; and an archive read that succeeds returns the archived
  events of the range it is asked for (a read may also fail). Then after the request and its archive read the stored
  response is ready and in strictly ascending order. It is marked complete when reads succeed. When it is marked
  complete it holds every event of the range that a keeper still retains in a chunk, and every archived event of the
  range below a watermark known to a keeper. Whether or not the read succeeds, it holds every event of the range
  that a keeper retains and the archive lacks.
\<close>

theorem replay_holds_every_event:
  assumes sorts: "\<And>xs. mset (std_sort xs) = mset xs" "\<And>xs. sorted (map event_key (std_sort xs))"
    and keepers: "\<forall>s\<in>set ss. fetch_ok sid s \<and> \<not> truncated (fetch_answer now sid n s a b)"
    and archive: "\<forall>s\<in>set ss. visible_keys now sid s \<subseteq> archive"
    and reader: "\<And>req k. fst (read req) \<Longrightarrow> k \<in> archive \<Longrightarrow> req_start req \<le> fst k \<Longrightarrow> fst k < req_end req \<Longrightarrow>
        k \<in> event_sequence ` snd ` set (concat (map logEvents (snd (read req))))"
    and request: "0 < qid" "chronicle \<noteq> []" "story \<noteq> []" "0 < a"
    and p: "responseSenders p receiver = Some queries" "map_of queries qid = None" "readingRequestQueue p = []"
    and run: "story_playback_request can_create receiver qid chronicle story a b
        (map (\<lambda>s. FetchAnswered (fetch_answer now sid n s a b)) ss) p = (reply, p1)" "p2 = archiveReading_step std_sort read p1"
  shows "reply = qid \<and> (\<exists>queries' resp. responseSenders p2 receiver = Some queries' \<and> map_of queries' qid = Some (True, resp) \<and>
    sorted_wrt (<) (map event_key (resp_events resp)) \<and> ((\<forall>req. fst (read req)) \<longrightarrow> resp_complete resp) \<and>
    (resp_complete resp \<longrightarrow> (\<forall>s\<in>set ss. \<forall>k. (k \<in> retained_keys sid s \<or> k \<in> archive \<and> fst k < known_watermark sid s) \<and>
      a \<le> fst k \<and> fst k < b \<longrightarrow> k \<in> event_key ` set (resp_events resp))) \<and>
    (\<forall>s\<in>set ss. \<forall>k. k \<in> retained_keys sid s \<and> k \<notin> archive \<and> a \<le> fst k \<and> fst k < b \<longrightarrow> k \<in> event_key ` set (resp_events resp)))"
proof -
  have sort: "event_sort std_sort" by unfold_locales (rule sorts)+
  let ?answers = "map (\<lambda>s. fetch_answer now sid n s a b) ss" and ?outs = "map (\<lambda>s. FetchAnswered (fetch_answer now sid n s a b)) ss"
  define split where "split = splitHotRange ?answers a b"
  define plan where "plan = planReplay split a b True False"
  have full: "list_all in_full ?outs" using keepers by (auto simp: list_all_iff in_full_def fetch_answer_answered)
  have issued: "filter issued ?outs = ?outs" by (auto simp: issued_def filter_id_conv)
  have outs: "split = splitHotRange (map waitForRange (filter issued ?outs)) a b"
    "plan = planReplay split a b (list_all (\<lambda>out. issued out \<and> answered (waitForRange out)) ?outs) (list_ex (\<lambda>out. truncated (waitForRange out)) ?outs)"
    unfolding issued using full by (auto simp: split_def plan_def comp_def list_all_iff list_ex_iff in_full_iff)
  define hot where "hot = \<lparr>resp_query_id = qid, resp_events = map to_Event (hotEvents split), resp_complete = list_all in_full ?outs\<rparr>"
  define req where "req = \<lparr>req_receiver = Some receiver, req_queryId = qid, req_chronicle = chronicle, req_story = story,
      req_start = a, req_end = archiveEnd plan\<rparr>"
  let ?q = "omap_put qid (\<not> archiveNeeded plan, hot) queries"
  have p1: "reply = qid" "p1 = p\<lparr>responseSenders := (responseSenders p)(receiver \<mapsto> ?q),
      readingRequestQueue := (if archiveNeeded plan then [req] else [])\<rparr>"
    using request_stores [OF p(1,2) outs hot_def, of can_create chronicle story] run(1) p(3) by (auto simp: req_def)
  have q: "map_of ?q qid = Some (\<not> archiveNeeded plan, hot)" by (simp add: omap_simps)
  have hot_sorted: "sorted_wrt (<) (map event_key (resp_events hot))"
    using splitHotRange_events(1) [OF split_def] by (simp add: hot_def comp_def)
  have hot_keys: "event_key ` set (resp_events hot) = event_sequence ` set (hotEvents split)" by (simp add: hot_def image_image)
  have cover: "k \<in> event_sequence ` set (hotEvents split) \<or> archiveNeeded plan \<and> k \<in> archive \<and> fst k < archiveEnd plan"
    if "s \<in> set ss" "k \<in> retained_keys sid s \<or> k \<in> archive \<and> fst k < known_watermark sid s" "a \<le> fst k" "fst k < b" for s k
    by (rule keeper_source.replay_covers [OF _ _ archive split_def plan_def that]) (use keepers in blast)+
  show ?thesis
  proof (cases "archiveNeeded plan")
    case False
    then have "p2 = p1" by (simp add: run(2) p1(2) archiveReading_step_def popReadingRequest_def)
    moreover have "\<forall>s\<in>set ss. \<forall>k. (k \<in> retained_keys sid s \<or> k \<in> archive \<and> fst k < known_watermark sid s) \<and> a \<le> fst k \<and> fst k < b \<longrightarrow>
        k \<in> event_key ` set (resp_events hot)" unfolding hot_keys using cover False by blast
    ultimately show ?thesis using q hot_sorted p1 False full
      by (intro conjI exI [of _ ?q] exI [of _ hot]) (auto simp: hot_def)
  next
    case True
    then have "a < archiveEnd plan"
      by (simp add: plan_def planReplay_def Let_def split_def splitHotRange_complete not_le)
    then have valid: "is_valid req" using request by (simp add: is_valid_def req_def)
    have ends: "req_start req = a" "req_end req = archiveEnd plan" by (simp_all add: req_def)
    obtain ok cs where cs: "read req = (ok, cs)" by fastforce
    obtain known queries' where add: "addArchivedEventsToQueryResponse std_sort qid cs ok ?q = (known, queries')" by fastforce
    obtain resp where resp: "map_of queries' qid = Some (True, resp)" "resp_complete resp = ok" "sorted_wrt (<) (map event_key (resp_events resp))"
      "event_key ` set (resp_events resp) = event_sequence ` set (hotEvents split) \<union> event_sequence ` snd ` set (concat (map logEvents cs))"
      using event_sort.archive_adds [OF sort q hot_sorted add] full unfolding hot_keys by (auto simp: hot_def)
    have "responseSenders p2 receiver = Some queries'"
      using True valid cs add by (simp add: run(2) p1(2) archiveReading_step_def popReadingRequest_def req_def)
    moreover have "k \<in> event_key ` set (resp_events resp)"
      if "ok \<or> k \<notin> archive" "s \<in> set ss" "k \<in> retained_keys sid s \<or> k \<in> archive \<and> fst k < known_watermark sid s" "a \<le> fst k" "fst k < b" for s k
      using cover [OF that(2-5)] reader [of req k, unfolded ends cs fst_conv snd_conv] that(1,4) unfolding resp(4) by blast
    moreover have "(\<forall>req. fst (read req)) \<longrightarrow> ok" using cs by (metis fst_conv)
    ultimately show ?thesis using resp(1-3) p1(1)
      by (intro conjI exI [of _ queries'] exI [of _ resp]) (assumption | blast)+
  qed
qed

text \<open>
  A keeper that retains three unconfirmed events of one story and knows the watermark 10, and the archived
  chunk with the event of time 5, which the keeper has freed.
\<close>

definition ex_store :: KeeperChunkRetentionStore where
  "ex_store = new_store 10 64 True 0 0 False
     \<lparr>heap := [1 \<mapsto> ex_chunk], storyRetention := [(7, new_StoryRetention\<lparr>known_w := 10, chunks := [(1, new_ChunkState)]\<rparr>)]\<rparr>"

definition ex_archived :: StoryChunk where
  "ex_archived = (new_StoryChunk [] [] 7 0 10)\<lparr>logEvents := [((5, 3, 1), ex_event 5 3 1)]\<rparr>"

abbreviation ex_reader :: "ArchiveReadingRequest \<Rightarrow> bool \<times> StoryChunk list" where
  "ex_reader \<equiv> \<lambda>_. (True, [ex_archived])"

theorem replay_holds_every_event_witness:
  "\<exists>p1 queries' resp. story_playback_request True (1, 2) 5 [67] [83] 1 30 [FetchAnswered (fetch_answer 0 7 100 ex_store 1 30)]
      (new_Player\<lparr>responseSenders := [(1, 2) \<mapsto> []]\<rparr>) = (5, p1) \<and>
    responseSenders (archiveReading_step (sort_key event_key) ex_reader p1) (1, 2) = Some queries' \<and>
    map_of queries' 5 = Some (True, resp) \<and> resp_complete resp \<and>
    (5, 3, 1) \<in> event_key ` set (resp_events resp) \<and> (20, 0, 0) \<in> event_key ` set (resp_events resp)"
proof -
  let ?archive = "{(5, 3, 1)} :: EventSequence set"
  have live: "fetch_ok 7 ex_store"
    by (simp add: ex_store_def fetch_ok_def retained_chunks_def new_store_def new_StoryRetention_def ex_chunk_simps wf_chunk_def
        wf_event_def omap_ok_def accepts_def)
  have none: "visible_keys 0 7 ex_store \<subseteq> ?archive"
    by (simp add: ex_store_def visible_keys_def new_store_def new_StoryRetention_def visibleInArchive_def new_ChunkState_def)
  have held: "(20, 0, 0) \<in> retained_keys 7 ex_store" "known_watermark 7 ex_store = 10"
    by (simp_all add: ex_store_def retained_keys_def retained_chunks_def chunk_keys_def known_watermark_def new_store_def
        new_StoryRetention_def ex_chunk_simps)
  have whole: "\<not> truncated (fetch_answer 0 7 100 ex_store 1 30)"
    by (simp add: fetch_answer_def fetchRange_def ex_store_def new_store_def new_StoryRetention_def ex_chunk_simps visibleInArchive_def
        new_ChunkState_def new_HotRangeResponse_def range_nodes_def chunk_lower_bound_def omap_from_def omap_emplace_def omap_put_def
        firstEventTime_def put_story_def)
  have reads: "k \<in> event_sequence ` snd ` set (concat (map logEvents (snd (ex_reader req))))" if "k \<in> ?archive" for k req
    using that by (simp add: ex_archived_def ex_event_def event_sequence_def)
  obtain reply p1 where run: "story_playback_request True (1, 2) 5 [67] [83] 1 30 (map (\<lambda>s. FetchAnswered (fetch_answer 0 7 100 s 1 30)) [ex_store])
      (new_Player\<lparr>responseSenders := [(1, 2) \<mapsto> []]\<rparr>) = (reply, p1)" by fastforce
  have "reply = 5 \<and> (\<exists>queries' resp. responseSenders (archiveReading_step (sort_key event_key) ex_reader p1) (1, 2) = Some queries' \<and>
      map_of queries' 5 = Some (True, resp) \<and> sorted_wrt (<) (map event_key (resp_events resp)) \<and>
      ((\<forall>req. fst (ex_reader req)) \<longrightarrow> resp_complete resp) \<and>
      (resp_complete resp \<longrightarrow> (\<forall>s\<in>set [ex_store]. \<forall>k. (k \<in> retained_keys 7 s \<or> k \<in> ?archive \<and> fst k < known_watermark 7 s) \<and>
        1 \<le> fst k \<and> fst k < 30 \<longrightarrow> k \<in> event_key ` set (resp_events resp))) \<and>
      (\<forall>s\<in>set [ex_store]. \<forall>k. k \<in> retained_keys 7 s \<and> k \<notin> ?archive \<and> 1 \<le> fst k \<and> fst k < 30 \<longrightarrow> k \<in> event_key ` set (resp_events resp)))"
    by (rule replay_holds_every_event [where queries = "[]", OF _ _ _ _ _ _ _ _ _ _ _ _ run refl])
      (use live none whole reads in \<open>simp_all add: new_Player_def\<close>)
  then obtain queries' resp where out: "reply = 5"
      "responseSenders (archiveReading_step (sort_key event_key) ex_reader p1) (1, 2) = Some queries'"
      "map_of queries' 5 = Some (True, resp)" "resp_complete resp"
    and all: "\<forall>k. (k \<in> retained_keys 7 ex_store \<or> k \<in> ?archive \<and> fst k < known_watermark 7 ex_store) \<and> 1 \<le> fst k \<and> fst k < 30 \<longrightarrow>
        k \<in> event_key ` set (resp_events resp)" by auto
  have "(5, 3, 1) \<in> event_key ` set (resp_events resp)" "(20, 0, 0) \<in> event_key ` set (resp_events resp)"
    by (rule all [rule_format], use held in simp)+
  moreover have "story_playback_request True (1, 2) 5 [67] [83] 1 30 [FetchAnswered (fetch_answer 0 7 100 ex_store 1 30)]
      (new_Player\<lparr>responseSenders := [(1, 2) \<mapsto> []]\<rparr>) = (5, p1)" using run out(1) by simp
  ultimately show ?thesis using out(2-4) by blast
qed

text \<open>
  Claim C13. A short answer is never passed off as a whole one: the stored response is complete exactly
  when every keeper had a client, was asked, answered and did not hit its cap, and stays so exactly when the
  archive read succeeded; and as soon as one keeper did not answer, the archive is read over the whole range.
\<close>

theorem replay_reports_gaps:
  assumes sorts: "\<And>xs. mset (std_sort xs) = mset xs" "\<And>xs. sorted (map event_key (std_sort xs))"
    and p: "responseSenders p receiver = Some queries" "map_of queries qid = None"
    and run: "story_playback_request can_create receiver qid chronicle story a b outs p = (reply, p1)"
    and q1: "responseSenders p1 receiver = Some queries1"
    and add: "addArchivedEventsToQueryResponse std_sort qid cs read_ok queries1 = (known, queries2)"
  shows "(\<exists>ready resp1 resp2. map_of queries1 qid = Some (ready, resp1) \<and> (resp_complete resp1 \<longleftrightarrow> list_all in_full outs) \<and>
      map_of queries2 qid = Some (True, resp2) \<and> (resp_complete resp2 \<longleftrightarrow> list_all in_full outs \<and> read_ok)) \<and>
    (\<not> list_all (\<lambda>out. issued out \<and> answered (waitForRange out)) outs \<longrightarrow>
      req_start (last (readingRequestQueue p1)) = a \<and> req_end (last (readingRequestQueue p1)) = b)"
proof -
  have sort: "event_sort std_sort" by unfold_locales (rule sorts)+
  define split where "split = splitHotRange (map waitForRange (filter issued outs)) a b"
  define plan where "plan = planReplay split a b (list_all (\<lambda>out. issued out \<and> answered (waitForRange out)) outs)
      (list_ex (\<lambda>out. truncated (waitForRange out)) outs)"
  define hot where "hot = \<lparr>resp_query_id = qid, resp_events = map to_Event (hotEvents split), resp_complete = list_all in_full outs\<rparr>"
  let ?q = "omap_put qid (\<not> archiveNeeded plan, hot) queries"
  note stored = request_stores [OF p split_def plan_def hot_def, of can_create chronicle story]
  have q1': "queries1 = ?q" using stored run q1 by auto
  have q: "map_of queries1 qid = Some (\<not> archiveNeeded plan, hot)" by (simp add: q1' omap_simps)
  have "sorted_wrt (<) (map event_key (resp_events hot))"
    using splitHotRange_events(1) [OF split_def] by (simp add: hot_def comp_def)
  from event_sort.archive_adds [OF sort q this add]
  have "\<exists>resp2. map_of queries2 qid = Some (True, resp2) \<and> (resp_complete resp2 \<longleftrightarrow> list_all in_full outs \<and> read_ok)"
    by (auto simp: hot_def)
  moreover have "resp_complete hot \<longleftrightarrow> list_all in_full outs" by (simp add: hot_def)
  moreover have "req_start (last (readingRequestQueue p1)) = a \<and> req_end (last (readingRequestQueue p1)) = b"
    if "\<not> list_all (\<lambda>out. issued out \<and> answered (waitForRange out)) outs"
  proof -
    have "archiveNeeded plan" "archiveEnd plan = b" using that by (simp_all add: plan_def planReplay_def Let_def)
    then show ?thesis using stored run by auto
  qed
  ultimately show ?thesis using q by blast
qed

theorem replay_reports_gaps_witness:
  "\<exists>p1 queries1 queries2 ready resp. story_playback_request True (1, 2) 5 [67] [83] 1 30 [FetchFailed] (new_Player\<lparr>responseSenders := [(1, 2) \<mapsto> []]\<rparr>) = (5, p1) \<and>
    responseSenders p1 (1, 2) = Some queries1 \<and> addArchivedEventsToQueryResponse (sort_key event_key) 5 [] True queries1 = (True, queries2) \<and>
    map_of queries2 5 = Some (ready, resp) \<and> \<not> resp_complete resp \<and> req_end (last (readingRequestQueue p1)) = 30"
proof -
  let ?p = "new_Player\<lparr>responseSenders := [(1, 2) \<mapsto> []]\<rparr>"
  obtain p1 where p1: "story_playback_request True (1, 2) 5 [67] [83] 1 30 [FetchFailed] ?p = (5, p1)"
    using request_stores [of ?p "(1, 2)" "[]" 5 _ "[FetchFailed]" 1 30, OF _ _ refl refl refl] by (simp add: new_Player_def)
  obtain queries1 where q1: "responseSenders p1 (1, 2) = Some queries1" "map_of queries1 5 \<noteq> None"
    using request_stores [of ?p "(1, 2)" "[]" 5 _ "[FetchFailed]" 1 30, OF _ _ refl refl refl, of True "[67]" "[83]"] p1
    by (auto simp: new_Player_def omap_simps)
  obtain known queries2 where q2: "addArchivedEventsToQueryResponse (sort_key event_key) 5 [] True queries1 = (known, queries2)" by fastforce
  have "known" using q1(2) q2 by (auto simp: addArchivedEventsToQueryResponse_def Let_def split: option.splits)
  moreover note replay_reports_gaps [OF stable_sort.sort_permutes stable_sort.sort_sorts _ _ p1 q1(1) q2, of "[]"]
  ultimately show ?thesis using p1 q1(1) q2 by (auto simp: in_full_def issued_def unansweredResponse_def new_Player_def)
qed

section \<open>A request that is never answered\<close>

datatype player_step = ReadArchive "ArchiveReadingRequest \<Rightarrow> bool \<times> StoryChunk list" | Drain bool service_endpoint

fun player_run :: "(Event list \<Rightarrow> Event list) \<Rightarrow> player_step \<Rightarrow> Player \<Rightarrow> Player" where
  "player_run std_sort (ReadArchive read) s = archiveReading_step std_sort read s"
| "player_run std_sort (Drain ok receiver) s = drain_step ok receiver s"

definition stuck :: "service_endpoint \<Rightarrow> u32 \<Rightarrow> Player \<Rightarrow> bool" where
  "stuck receiver qid s \<longleftrightarrow>
     (\<exists>queries resp. responseSenders s receiver = Some queries \<and> omap_ok queries \<and> map_of queries qid = Some (False, resp)) \<and>
     (\<forall>r\<in>set (readingRequestQueue s). req_receiver r = Some receiver \<and> req_queryId r = qid \<longrightarrow> \<not> is_valid r)"

lemma map_of_omap_put_other: "k \<noteq> k' \<Longrightarrow> map_of (omap_put k v m) k' = map_of m k'"
  by (simp add: omap_simps)

lemma stuck_step:
  assumes "stuck receiver qid s"
  shows "stuck receiver qid (player_run std_sort step s)"
proof -
  obtain queries resp where q: "responseSenders s receiver = Some queries" "omap_ok queries" "map_of queries qid = Some (False, resp)"
    and bad: "\<forall>r\<in>set (readingRequestQueue s). req_receiver r = Some receiver \<and> req_queryId r = qid \<longrightarrow> \<not> is_valid r"
    using assms by (auto simp: stuck_def)
  show ?thesis
  proof (cases step)
    case (ReadArchive read)
    show ?thesis
    proof (cases "readingRequestQueue s")
      case Nil
      then show ?thesis using ReadArchive assms by (simp add: archiveReading_step_def popReadingRequest_def)
    next
      case (Cons r rs)
      show ?thesis
      proof (cases "is_valid r")
        case False
        then show ?thesis using q bad Cons ReadArchive by (auto simp: stuck_def archiveReading_step_def popReadingRequest_def)
      next
        case True
        then have other: "req_receiver r \<noteq> Some receiver \<or> req_queryId r \<noteq> qid" using bad Cons by auto
        obtain ok cs where rd: "read r = (ok, cs)" by fastforce
        have same: "\<exists>queries' resp. snd (addArchivedEventsToQueryResponse std_sort (req_queryId r) cs ok queries) = queries' \<and>
            omap_ok queries' \<and> map_of queries' qid = Some (False, resp)" if "req_queryId r \<noteq> qid"
          using q(2,3) that
          by (auto simp: addArchivedEventsToQueryResponse_def Let_def map_of_omap_put_other split: option.splits)
        show ?thesis using other q bad Cons ReadArchive True rd same
          by (auto simp: stuck_def archiveReading_step_def popReadingRequest_def case_prod_beta split: option.splits)
      qed
    qed
  next
    case (Drain ok rc)
    show ?thesis
    proof (cases "rc = receiver")
      case False
      then show ?thesis using q bad Drain by (auto simp: stuck_def drain_step_def split: option.splits list.splits)
    next
      case True
      show ?thesis
      proof (cases "filter (\<lambda>p. fst (snd p)) queries")
        case Nil
        then show ?thesis using Drain True q assms by (simp add: drain_step_def)
      next
        case (Cons x xs)
        obtain i b r where x: "x = (i, b, r)" by (cases x)
        have "x \<in> set (filter (\<lambda>p. fst (snd p)) queries)" unfolding Cons by simp
        then have "x \<in> set queries" "b" using x by auto
        then have "map_of queries i = Some (True, r)" using q(2) x by (simp add: omap_simps)
        then have "i \<noteq> qid" using q(3) by auto
        then show ?thesis using Drain True q bad Cons x by (auto simp: stuck_def drain_step_def omap_simps)
      qed
    qed
  qed
qed

text \<open>
  Claim C39. A request whose archive read fails the validity test, as one that starts at time 0 or has an
  empty range does, is accepted but never answered: whatever the reading and response threads do afterwards, its response
  stays in the map of active queries, not ready to be sent.
\<close>

theorem invalid_archive_request_never_answered:
  assumes p: "responseSenders p receiver = Some queries" "omap_ok queries" "map_of queries qid = None" "readingRequestQueue p = []"
    and run: "story_playback_request can_create receiver qid chronicle story a b outs p = (reply, p1)"
    and invalid: "readingRequestQueue p1 \<noteq> []" "\<not> (0 < qid \<and> chronicle \<noteq> [] \<and> story \<noteq> [] \<and> 0 < a \<and> a < b)"
  shows "reply = qid \<and> (\<exists>queries' resp. responseSenders (fold (player_run std_sort) steps p1) receiver = Some queries' \<and>
    map_of queries' qid = Some (False, resp))"
proof -
  have stay: "stuck receiver qid (fold (player_run std_sort) steps s)" if "stuck receiver qid s" for s
    using that stuck_step by (induction steps arbitrary: s) auto
  have "archiveEnd (planReplay (splitHotRange rs a b) a b all trunc) \<le> b" for rs all trunc
    by (simp add: planReplay_def splitHotRange_def Let_def split_def not_less)
  then have ends: "\<not> a < archiveEnd (planReplay (splitHotRange rs a b) a b all trunc)" if "\<not> a < b" for rs all trunc
    using that by (meson less_le_trans)
  have "reply = qid \<and> stuck receiver qid p1"
    using request_stores [OF p(1,3) refl refl refl, of can_create chronicle story a b outs] run invalid p(2,4) ends
    by (auto simp: stuck_def is_valid_def omap_simps split: if_splits)
  then show ?thesis using stay [of p1] by (auto simp: stuck_def)
qed

theorem invalid_archive_request_never_answered_witness:
  "\<exists>p1 queries' resp. story_playback_request True (1, 2) 5 [67] [83] 0 30 [] (new_Player\<lparr>responseSenders := [(1, 2) \<mapsto> []]\<rparr>) = (5, p1) \<and>
    responseSenders (fold (player_run (sort_key event_key)) [ReadArchive (\<lambda>_. (True, [])), Drain True (1, 2)] p1) (1, 2) = Some queries' \<and>
    map_of queries' 5 = Some (False, resp)"
proof -
  let ?p = "new_Player\<lparr>responseSenders := [(1, 2) \<mapsto> []]\<rparr>"
  obtain reply p1 where run: "story_playback_request True (1, 2) 5 [67] [83] 0 30 [] ?p = (reply, p1)" by fastforce
  have "readingRequestQueue p1 \<noteq> []"
    using request_stores [of ?p "(1, 2)" "[]" 5 _ "[]" 0 30, OF _ _ refl refl refl, of True "[67]" "[83]"] run
    by (auto simp: new_Player_def planReplay_def Let_def splitHotRange_def split_bounds_def)
  then show ?thesis
    using invalid_archive_request_never_answered [OF _ _ _ _ run, of "[]" "sort_key event_key" "[ReadArchive (\<lambda>_. (True, [])), Drain True (1, 2)]"] run
    by (auto simp: new_Player_def)
qed

end
