(* ===== verification/WalRecovery.thy ===== *)
theory WalRecovery
  imports WalFormat WalReleaseTracker
begin

text \<open>
  Recovery of the keeper's write-ahead log at startup
  (\<^verbatim>\<open>src/chrono-keeper/src/WalRecovery.cpp\<close>, the opening of the directory in
  \<^verbatim>\<open>WalSegmentManager.cpp\<close>): every segment is read and its records replayed, damage is told from
  a torn write, the torn tail is zeroed, and the events still pending are returned.

  The WAL directory is a list of named files with the list of unlogged drops its
  \<^verbatim>\<open>kUnloggedDropsFile\<close> holds. Which system calls fail is an input.
\<close>

section \<open>State\<close>

record RecoveredStory =
  wal_story_id :: StoryId
  has_names :: bool
  rec_chronicle :: cpp_string
  rec_story :: cpp_string
  rec_events :: "(EventSequence, LogEvent) omap"
  rec_copies :: "(EventSequence, (u64 \<times> u64) list) omap"

record RecoveredState =
  rec_segments :: "u64 list"
  rec_stories :: "(StoryId, RecoveredStory) omap"
  dropped_in :: "(u64, StoryId list) omap"
  reusable_spare :: "u64 option"
  bytes_read :: u64
  oldest_segment_age_secs :: u64

record UnloggedDrop =
  drop_story_id :: StoryId
  drop_last_segment :: u64

record WalDirectory =
  wal_files :: "(u8 list \<times> u8 list) list"
  unlogged_drops :: "UnloggedDrop list"

text \<open>
  The calls that fail: opening the directory (its lock, listing or clean-up, with the partial
  files removed before the failure), reading a file,
  syncing a segment, saving the copy of a torn tail (with the files the attempt leaves behind), zeroing
  the tail (with the number of bytes zeroed before the failure), syncing the directory, reading and
  rewriting the unlogged drops.
\<close>

record WalFaults =
  fail_open :: "(u8 list \<Rightarrow> bool) option"
  fail_read :: "u8 list \<Rightarrow> bool"
  fail_sync :: "u8 list \<Rightarrow> bool"
  fail_copy :: "(u8 list \<times> u8 list) list option"
  fail_zero :: "nat option"
  fail_dirsync :: bool
  fail_drops :: bool
  fail_prune :: bool

datatype recover_error =
  CannotOpen
| CannotRead u64
| NoHeaderRecord u64
| OtherFormatVersion u64 u16
| UnreadableHeader u64
| HeaderForOther u64 u64
| NamesUndecodable u64 nat
| EventVersion u64 nat
| EventUndecodable u64 nat CodecStatus
| DroppedUndecodable u64 nat
| GroupUndecodable u64 nat
| SecondHeader u64 nat
| UnknownType u64 nat u8
| BadRecordInOlder u64
| DataAfterEndInOlder u64
| RecordsAfterLastGroup u64
| DataAfterTornGroup u64
| CannotSync u64
| CannotZero u64
| CannotSyncDirectory
| CannotReadDrops

record SegmentEnd =
  se_segment :: u64
  se_size :: nat
  header_end :: nat
  data_end :: nat
  bad_frame :: bool
  after_end :: "nat option"
  group_end :: "nat option"
  after_group :: "nat option"

definition dataAfterHeader :: "SegmentEnd \<Rightarrow> bool" where
  "dataAfterHeader e \<longleftrightarrow> header_end e < data_end e \<or> after_end e \<noteq> None"

text \<open>\<^verbatim>\<open>firstNonZero\<close>: blocks of 4096 bytes are compared with zeros, then the byte is looked for.\<close>

fun nonzero_from :: "u8 list \<Rightarrow> nat \<Rightarrow> nat option" where
  "nonzero_from [] i = None"
| "nonzero_from (b # bs) i = (if b = 0 then nonzero_from bs (i + 1) else Some i)"

function firstNonZero :: "u8 list \<Rightarrow> nat \<Rightarrow> nat option" where
  "firstNonZero bytes pos =
     (if pos < length bytes
      then
        let len = min 4096 (length bytes - pos) in
        if take len (drop pos bytes) \<noteq> replicate len 0 then nonzero_from (drop pos bytes) pos
        else firstNonZero bytes (pos + 4096)
      else None)"
  by pat_completeness auto
termination by (relation "measure (\<lambda>(bytes, pos). length bytes - pos)") auto

declare firstNonZero.simps [simp del]

section \<open>Replaying records\<close>

definition new_RecoveredStory :: "StoryId \<Rightarrow> RecoveredStory" where
  "new_RecoveredStory sid =
     \<lparr>wal_story_id = sid, has_names = False, rec_chronicle = [], rec_story = [], rec_events = [], rec_copies = []\<rparr>"

definition storyOf :: "RecoveredState \<Rightarrow> StoryId \<Rightarrow> RecoveredStory" where
  "storyOf state sid = (case map_of (rec_stories state) sid of None \<Rightarrow> new_RecoveredStory sid | Some story \<Rightarrow> story)"

definition put_recovered :: "RecoveredStory \<Rightarrow> StoryId \<Rightarrow> RecoveredState \<Rightarrow> RecoveredState" where
  "put_recovered story sid state = state\<lparr>rec_stories := omap_put sid story (rec_stories state)\<rparr>"

definition push_back :: "'k::linorder \<Rightarrow> 'v \<Rightarrow> ('k, 'v list) omap \<Rightarrow> ('k, 'v list) omap" where
  "push_back k v m = omap_put k ((case map_of m k of None \<Rightarrow> [] | Some vs \<Rightarrow> vs) @ [v]) m"

definition applyRecord :: "ScannedRecord \<Rightarrow> u64 \<Rightarrow> RecoveredState \<Rightarrow> recover_error + RecoveredState" where
  "applyRecord record segment state =
     (if sr_type record = type_byte Names
      then
        (case decodeNames (sr_body record) of
           None \<Rightarrow> Inl (NamesUndecodable segment (sr_offset record))
         | Some names \<Rightarrow>
             Inr (put_recovered
               (storyOf state (names_story_id names)
                 \<lparr>has_names := True, rec_chronicle := names_chronicle names, rec_story := names_story names\<rparr>)
               (names_story_id names) state))
      else if sr_type record = type_byte EventR
      then
        (case decodeLogEvent (tl (sr_body record)) of
           Inl UnsupportedVersion \<Rightarrow> Inl (EventVersion segment (sr_offset record))
         | Inl status \<Rightarrow> Inl (EventUndecodable segment (sr_offset record) status)
         | Inr (event, _, _) \<Rightarrow>
             let seq = event_sequence event; story = storyOf state (evStoryId event)
             in Inr (put_recovered
                  (story\<lparr>rec_events := omap_emplace seq event (rec_events story),
                         rec_copies := push_back seq (segment, of_nat (kFrameHeaderBytes + length (sr_body record))) (rec_copies story)\<rparr>)
                  (evStoryId event) state))
      else if sr_type record = type_byte Dropped
      then
        (case decodeDropped (sr_body record) of
           None \<Rightarrow> Inl (DroppedUndecodable segment (sr_offset record))
         | Some sid \<Rightarrow>
             let state1 = (case map_of (rec_stories state) sid of
                             None \<Rightarrow> state
                           | Some story \<Rightarrow> put_recovered (story\<lparr>rec_events := [], rec_copies := []\<rparr>) sid state)
             in Inr (state1\<lparr>dropped_in := push_back segment sid (dropped_in state1)\<rparr>))
      else if sr_type record = type_byte Group
      then
        (case decodeGroup (sr_body record) of
           None \<Rightarrow> Inl (GroupUndecodable segment (sr_offset record))
         | Some bytes \<Rightarrow> if unat bytes < kGroupFrameBytes then Inl (GroupUndecodable segment (sr_offset record)) else Inr state)
      else if sr_type record = type_byte Header then Inl (SecondHeader segment (sr_offset record))
      else Inl (UnknownType segment (sr_offset record) (sr_type record)))"

fun applyRecords :: "ScannedRecord list \<Rightarrow> u64 \<Rightarrow> RecoveredState \<Rightarrow> recover_error + RecoveredState" where
  "applyRecords [] segment state = Inr state"
| "applyRecords (r # rs) segment state = sum_bind (applyRecord r segment state) (applyRecords rs segment)"

section \<open>Reading a segment\<close>

text \<open>The last group record after the header that decodes, with the group's end, which wraps at 64 bits.\<close>

fun last_group :: "ScannedRecord list \<Rightarrow> nat option" where
  "last_group [] = None"
| "last_group (r # rs) =
     (case last_group rs of
        Some e \<Rightarrow> Some e
      | None \<Rightarrow>
          if sr_type r = type_byte Group
          then map_option (\<lambda>bytes. (sr_offset r + unat bytes) mod 2 ^ 64) (decodeGroup (sr_body r))
          else None)"

definition segment_end :: "u64 \<Rightarrow> u8 list \<Rightarrow> ScanResult \<Rightarrow> SegmentEnd" where
  "segment_end segment bytes scan =
     (let group = last_group (tl (scan_records scan)) in
      \<lparr>se_segment = segment, se_size = length bytes,
       header_end = kFrameHeaderBytes + length (sr_body (hd (scan_records scan))),
       data_end = end_offset scan, bad_frame = (scan_end scan = BadFrame),
       after_end = firstNonZero bytes (end_offset scan), group_end = group,
       after_group =
         (case group of
            None \<Rightarrow> None
          | Some e \<Rightarrow> if end_offset scan < e \<and> e < length bytes then firstNonZero bytes e else None)\<rparr>)"

definition readSegment ::
  "(u32 \<Rightarrow> u8 list \<Rightarrow> u32) \<Rightarrow> WalFaults \<Rightarrow> WalDirectory \<Rightarrow> u64 \<Rightarrow> RecoveredState
    \<Rightarrow> recover_error + (RecoveredState \<times> SegmentEnd \<times> u64)" where
  "readSegment crc faults dir segment state =
     (case (if fail_read faults (segmentFileName segment) then None else map_of (wal_files dir) (segmentFileName segment)) of
        None \<Rightarrow> Inl (CannotRead segment)
      | Some bytes \<Rightarrow>
          let state1 = state\<lparr>bytes_read := bytes_read state + of_nat (length bytes)\<rparr>;
              scan = scanSegment crc bytes
          in
          if scan_records scan = [] \<or> sr_type (hd (scan_records scan)) \<noteq> type_byte Header then Inl (NoHeaderRecord segment)
          else
            (case decodeHeader (sr_body (hd (scan_records scan))) of
               (version, None) \<Rightarrow>
                 if version \<noteq> 0 \<and> version \<noteq> kFormatVersion then Inl (OtherFormatVersion segment version)
                 else Inl (UnreadableHeader segment)
             | (version, Some header) \<Rightarrow>
                 if segment_number header \<noteq> segment then Inl (HeaderForOther segment (segment_number header))
                 else
                   sum_bind (applyRecords (tl (scan_records scan)) segment state1)
                     (\<lambda>state2. Inr (state2, segment_end segment bytes scan, created_ns header))))"

fun read_segments ::
  "(u32 \<Rightarrow> u8 list \<Rightarrow> u32) \<Rightarrow> WalFaults \<Rightarrow> WalDirectory \<Rightarrow> u64 list \<Rightarrow> RecoveredState
    \<Rightarrow> recover_error + (RecoveredState \<times> (SegmentEnd \<times> u64) list)" where
  "read_segments crc faults dir [] state = Inr (state, [])"
| "read_segments crc faults dir (segment # segments) state =
     sum_bind (readSegment crc faults dir segment state) (\<lambda>(state1, e, created).
       sum_bind (read_segments crc faults dir segments state1) (\<lambda>(state2, ends). Inr (state2, (e, created) # ends)))"

section \<open>Recovery\<close>

definition partial_suffix :: "u8 list" where "partial_suffix = [46, 112, 97, 114, 116, 105, 97, 108]"

definition endsWith :: "u8 list \<Rightarrow> u8 list \<Rightarrow> bool" where
  "endsWith name suffix \<longleftrightarrow> length suffix \<le> length name \<and> drop (length name - length suffix) name = suffix"

text \<open>\<^verbatim>\<open>WalSegmentManager::open\<close>: partial files are removed, and the segments are sorted by number.\<close>

definition manager_open :: "WalDirectory \<Rightarrow> WalDirectory \<times> u64 list" where
  "manager_open dir =
     (dir\<lparr>wal_files := filter (\<lambda>f. \<not> endsWith (fst f) partial_suffix) (wal_files dir)\<rparr>,
      sort (List.map_filter (\<lambda>f. parseSegmentFileName (fst f)) (wal_files dir)))"

text \<open>The newest segment that holds anything after its header.\<close>

fun newest_with_data :: "SegmentEnd list \<Rightarrow> nat option" where
  "newest_with_data [] = None"
| "newest_with_data (e # ends) =
     (case newest_with_data ends of Some i \<Rightarrow> Some (i + 1) | None \<Rightarrow> if dataAfterHeader e then Some 0 else None)"

text \<open>The checks on the segments older than the newest one with data.\<close>

fun check_older :: "SegmentEnd list \<Rightarrow> recover_error option" where
  "check_older [] = None"
| "check_older (e # ends) =
     (if bad_frame e then Some (BadRecordInOlder (se_segment e))
      else if after_end e \<noteq> None then Some (DataAfterEndInOlder (se_segment e))
      else check_older ends)"

text \<open>The checks on the newest one: a torn write lies in its last group.\<close>

definition check_newest :: "SegmentEnd \<Rightarrow> recover_error option" where
  "check_newest e =
     (let torn_tail = (bad_frame e \<or> after_end e \<noteq> None) in
      if torn_tail \<and> (case group_end e of None \<Rightarrow> False | Some g \<Rightarrow> g < data_end e) then Some (RecordsAfterLastGroup (se_segment e))
      else if torn_tail \<and> after_group e \<noteq> None then Some (DataAfterTornGroup (se_segment e))
      else None)"

text \<open>Syncing every segment but the torn one.\<close>

fun sync_segments :: "WalFaults \<Rightarrow> SegmentEnd option \<Rightarrow> SegmentEnd list \<Rightarrow> recover_error option" where
  "sync_segments faults torn [] = None"
| "sync_segments faults torn (e # ends) =
     (if torn \<noteq> None \<and> se_segment (the torn) = se_segment e then sync_segments faults torn ends
      else if fail_sync faults (segmentFileName (se_segment e)) then Some (CannotSync (se_segment e))
      else sync_segments faults torn ends)"

definition write_file :: "u8 list \<Rightarrow> u8 list \<Rightarrow> WalDirectory \<Rightarrow> WalDirectory" where
  "write_file name bytes dir =
     dir\<lparr>wal_files := (name, bytes) # filter (\<lambda>f. fst f \<noteq> name) (wal_files dir)\<rparr>"

fun nat_text :: "nat \<Rightarrow> u8 list" where
  "nat_text n = (if n < 10 then [of_nat (48 + n)] else nat_text (n div 10) @ [of_nat (48 + n mod 10)])"

definition tailCopyName :: "u8 list \<Rightarrow> nat \<Rightarrow> u8 list" where
  "tailCopyName name from = name @ [46, 116, 97, 105, 108, 45] @ nat_text from"

text \<open>The bytes \<^verbatim>\<open>saveTornTail\<close> copies: from the end of the data to the last byte that is not zero.\<close>

definition torn_bytes :: "u8 list \<Rightarrow> nat \<Rightarrow> u8 list" where
  "torn_bytes bytes from = rev (dropWhile (\<lambda>b. b = 0) (rev (drop from bytes)))"

definition saveTornTail :: "WalFaults \<Rightarrow> u8 list \<Rightarrow> nat \<Rightarrow> WalDirectory \<Rightarrow> WalDirectory" where
  "saveTornTail faults name from dir =
     (case fail_copy faults of
        Some left_behind \<Rightarrow> dir\<lparr>wal_files := wal_files dir @ left_behind\<rparr>
      | None \<Rightarrow>
          (case map_of (wal_files dir) name of
             None \<Rightarrow> dir
           | Some bytes \<Rightarrow>
               if torn_bytes bytes from = [] then dir
               else write_file (tailCopyName name from) (torn_bytes bytes from) dir))"

text \<open>\<^verbatim>\<open>zeroTail\<close>: the first result tells whether it succeeded.\<close>

definition zeroTail :: "WalFaults \<Rightarrow> u8 list \<Rightarrow> nat \<Rightarrow> WalDirectory \<Rightarrow> bool \<times> WalDirectory" where
  "zeroTail faults name from dir =
     (case map_of (wal_files dir) name of
        None \<Rightarrow> (False, dir)
      | Some bytes \<Rightarrow>
          (case fail_zero faults of
             None \<Rightarrow> (True, write_file name (take from bytes @ replicate (length bytes - from) 0) dir)
           | Some k \<Rightarrow> (False, write_file name (take from bytes @ replicate (min k (length bytes - from)) 0 @ drop (from + k) bytes) dir)))"

text \<open>One unlogged drop: the story's events whose every copy lies in a segment up to the one it names.\<close>

definition before_drop :: "UnloggedDrop \<Rightarrow> (u64 \<times> u64) list \<Rightarrow> bool" where
  "before_drop drp copies \<longleftrightarrow> list_all (\<lambda>c. fst c \<le> drop_last_segment drp) copies"

definition apply_drop :: "UnloggedDrop \<Rightarrow> RecoveredState \<Rightarrow> RecoveredState" where
  "apply_drop drp state =
     (case map_of (rec_stories state) (drop_story_id drp) of
        None \<Rightarrow> state
      | Some story \<Rightarrow>
          let gone = map fst (filter (\<lambda>p. before_drop drp (snd p)) (rec_copies story))
          in put_recovered
               (story\<lparr>rec_events := filter (\<lambda>p. fst p \<notin> set gone) (rec_events story),
                      rec_copies := filter (\<lambda>p. \<not> before_drop drp (snd p)) (rec_copies story)\<rparr>)
               (drop_story_id drp) state)"

definition still_needed :: "u64 list \<Rightarrow> UnloggedDrop list \<Rightarrow> UnloggedDrop list" where
  "still_needed segments drops =
     (let oldest = (case segments of [] \<Rightarrow> - 1 | s # _ \<Rightarrow> s) in filter (\<lambda>d. oldest \<le> drop_last_segment d) drops)"

definition new_RecoveredState :: "u64 list \<Rightarrow> RecoveredState" where
  "new_RecoveredState segments =
     \<lparr>rec_segments = segments, rec_stories = [], dropped_in = [], reusable_spare = None, bytes_read = 0,
      oldest_segment_age_secs = 0\<rparr>"

text \<open>What refuses the start: damage anywhere but in the last group of the newest segment with data.\<close>

definition find_damage :: "SegmentEnd list \<Rightarrow> recover_error option" where
  "find_damage ends =
     (case newest_with_data ends of
        None \<Rightarrow> None
      | Some i \<Rightarrow> (case check_older (take i ends) of Some e \<Rightarrow> Some e | None \<Rightarrow> check_newest (ends ! i)))"

definition torn_segment :: "SegmentEnd list \<Rightarrow> SegmentEnd option" where
  "torn_segment ends =
     (case newest_with_data ends of
        None \<Rightarrow> None
      | Some i \<Rightarrow> if after_end (ends ! i) \<noteq> None then Some (ends ! i) else None)"

definition repair_torn :: "WalFaults \<Rightarrow> SegmentEnd option \<Rightarrow> WalDirectory \<Rightarrow> bool \<times> WalDirectory" where
  "repair_torn faults torn dir =
     (case torn of
        None \<Rightarrow> (True, dir)
      | Some e \<Rightarrow> zeroTail faults (segmentFileName (se_segment e)) (data_end e)
                    (saveTornTail faults (segmentFileName (se_segment e)) (data_end e) dir))"

text \<open>The newest segment when it holds only its header; a torn one has been zeroed by then.\<close>

definition spare_segment :: "SegmentEnd option \<Rightarrow> SegmentEnd list \<Rightarrow> u64 option" where
  "spare_segment torn ends =
     (if ends = [] then None
      else
        let e = last ends;
            e' = (if torn \<noteq> None \<and> se_segment (the torn) = se_segment e then e\<lparr>after_end := None\<rparr> else e)
        in if dataAfterHeader e' then None else Some (se_segment e))"

definition prune_drops :: "WalFaults \<Rightarrow> u64 list \<Rightarrow> WalDirectory \<Rightarrow> WalDirectory" where
  "prune_drops faults segments dir =
     (let drops = unlogged_drops dir in
      if drops \<noteq> [] \<and> length (still_needed segments drops) \<noteq> length drops \<and> \<not> fail_prune faults
      then dir\<lparr>unlogged_drops := still_needed segments drops\<rparr> else dir)"

definition segment_age :: "u64 \<Rightarrow> u64 list \<Rightarrow> u64" where
  "segment_age now_ns created =
     (case created of [] \<Rightarrow> 0 | oldest # _ \<Rightarrow> if oldest < now_ns then (now_ns - oldest) div 1000000000 else 0)"

definition recoverWal ::
  "(u32 \<Rightarrow> u8 list \<Rightarrow> u32) \<Rightarrow> WalFaults \<Rightarrow> u64 \<Rightarrow> WalDirectory \<Rightarrow> (recover_error + RecoveredState) \<times> WalDirectory" where
  "recoverWal crc faults now_ns dir =
     (case fail_open faults of
        Some removed \<Rightarrow>
          (Inl CannotOpen, dir\<lparr>wal_files := filter (\<lambda>f. \<not> (endsWith (fst f) partial_suffix \<and> removed (fst f))) (wal_files dir)\<rparr>)
      | None \<Rightarrow>
        let (dir1, segments) = manager_open dir in
        (case read_segments crc faults dir1 segments (new_RecoveredState segments) of
           Inl e \<Rightarrow> (Inl e, dir1)
         | Inr (state, read) \<Rightarrow>
             let ends = map fst read; torn = torn_segment ends in
             (case find_damage ends of
                Some e \<Rightarrow> (Inl e, dir1)
              | None \<Rightarrow>
                  (case sync_segments faults torn ends of
                     Some e \<Rightarrow> (Inl e, dir1)
                   | None \<Rightarrow>
                       let (zeroed, dir2) = repair_torn faults torn dir1 in
                       if \<not> zeroed then (Inl (CannotZero (se_segment (the torn))), dir2)
                       else if ends \<noteq> [] \<and> fail_dirsync faults then (Inl CannotSyncDirectory, dir2)
                       else if fail_drops faults then (Inl CannotReadDrops, dir2)
                       else
                         let state1 = fold apply_drop (unlogged_drops dir2) state
                         in (Inr (state1\<lparr>rec_stories := filter (\<lambda>p. rec_events (snd p) \<noteq> []) (rec_stories state1),
                                         reusable_spare := spare_segment torn ends,
                                         oldest_segment_age_secs := segment_age now_ns (map snd read)\<rparr>),
                             prune_drops faults segments dir2)))))"

section \<open>What recovery returns\<close>

text \<open>
  The records of a segment after its header, and what each does to the list of copies that are
  still pending, oldest first.
\<close>

definition seg_log :: "(u32 \<Rightarrow> u8 list \<Rightarrow> u32) \<Rightarrow> WalDirectory \<Rightarrow> u64 \<Rightarrow> (u64 \<times> u8 list) list" where
  "seg_log crc dir segment =
     (case map_of (wal_files dir) (segmentFileName segment) of
        None \<Rightarrow> []
      | Some bytes \<Rightarrow> map (\<lambda>r. (segment, sr_body r)) (tl (scan_records (scanSegment crc bytes))))"

type_synonym event_log = "(LogEvent \<times> u64 \<times> u64) list"

definition rec_step :: "u64 \<times> u8 list \<Rightarrow> event_log \<Rightarrow> event_log" where
  "rec_step sb L =
     (case decode_record (snd sb) of
        Some (EventRec e xs) \<Rightarrow> L @ [(e, fst sb, of_nat (kFrameHeaderBytes + length (snd sb)))]
      | Some (DroppedRec sid) \<Rightarrow> filter (\<lambda>x. evStoryId (fst x) \<noteq> sid) L
      | _ \<Rightarrow> L)"

definition copies_in :: "event_log \<Rightarrow> StoryId \<Rightarrow> EventSequence \<Rightarrow> event_log" where
  "copies_in L sid ev = filter (\<lambda>x. evStoryId (fst x) = sid \<and> event_sequence (fst x) = ev) L"

definition drop_step :: "UnloggedDrop \<Rightarrow> event_log \<Rightarrow> event_log" where
  "drop_step drp L =
     filter (\<lambda>x. \<not> (evStoryId (fst x) = drop_story_id drp \<and>
       before_drop drp (map snd (copies_in L (drop_story_id drp) (event_sequence (fst x)))))) L"

definition first_event :: "event_log \<Rightarrow> LogEvent option" where
  "first_event L = (case L of [] \<Rightarrow> None | x # _ \<Rightarrow> Some (fst x))"

text \<open>A recovered state that stands for a list of pending copies.\<close>

definition story_holds :: "RecoveredStory \<Rightarrow> event_log \<Rightarrow> StoryId \<Rightarrow> bool" where
  "story_holds story L sid \<longleftrightarrow> omap_ok (rec_events story) \<and> omap_ok (rec_copies story) \<and>
     map_of (rec_copies story) = (\<lambda>ev. opt_list (map snd (copies_in L sid ev))) \<and>
     map_of (rec_events story) = (\<lambda>ev. first_event (copies_in L sid ev))"

definition holds :: "RecoveredState \<Rightarrow> event_log \<Rightarrow> bool" where
  "holds state L \<longleftrightarrow> omap_ok (rec_stories state) \<and> (\<forall>sid. story_holds (storyOf state sid) L sid)"

lemma story_holdsI:
  assumes "omap_ok (rec_events story)" "omap_ok (rec_copies story)"
    and "\<And>ev. map_of (rec_copies story) ev = opt_list (map snd (copies_in L sid ev))"
    and "\<And>ev. map_of (rec_events story) ev = first_event (copies_in L sid ev)"
  shows "story_holds story L sid"
  using assms by (simp add: story_holds_def fun_eq_iff)

lemma story_holdsD:
  assumes "story_holds story L sid"
  shows "omap_ok (rec_events story)" "omap_ok (rec_copies story)"
    "map_of (rec_copies story) ev = opt_list (map snd (copies_in L sid ev))"
    "map_of (rec_events story) ev = first_event (copies_in L sid ev)"
  using assms by (simp_all only: story_holds_def)

lemma story_holds_cong:
  assumes "\<And>ev. copies_in L' sid ev = copies_in L sid ev"
  shows "story_holds story L' sid = story_holds story L sid"
  by (simp only: story_holds_def assms)

lemma storyOf_put: "storyOf (put_recovered story sid state) s = (if s = sid then story else storyOf state s)"
  by (simp add: storyOf_def put_recovered_def omap_simps)

lemma storyOf_cong: "rec_stories s' = rec_stories s \<Longrightarrow> storyOf s' = storyOf s"
  by (simp add: storyOf_def fun_eq_iff)

lemma holds_cong: "rec_stories s' = rec_stories s \<Longrightarrow> holds s' L = holds s L"
  by (simp only: holds_def storyOf_def)

lemma holds_put:
  assumes "holds state L" "story_holds story L' sid" "\<And>s ev. s \<noteq> sid \<Longrightarrow> copies_in L' s ev = copies_in L s ev"
  shows "holds (put_recovered story sid state) L'"
proof -
  have "story_holds (storyOf (put_recovered story sid state) s) L' s" for s
  proof (cases "s = sid")
    case False
    then show ?thesis using assms(1) story_holds_cong [of L' s L] assms(3) [OF False] by (simp add: storyOf_put holds_def)
  qed (simp add: storyOf_put assms(2))
  moreover have "omap_ok (rec_stories (put_recovered story sid state))"
    using assms(1) by (auto simp: put_recovered_def holds_def)
  ultimately show ?thesis by (simp only: holds_def) blast
qed

lemma holds_story: "holds state L \<Longrightarrow> story_holds (storyOf state sid) L sid"
  by (simp add: holds_def)

lemma copies_in_append: "copies_in (L @ M) sid ev = copies_in L sid ev @ copies_in M sid ev"
  by (simp add: copies_in_def)

lemma copies_in_filter: "copies_in (filter P L) sid ev = filter P (copies_in L sid ev)"
  by (simp add: copies_in_def conj_commute)

lemma map_of_push_back: "map_of (push_back k v m) = (map_of m)(k \<mapsto> (case map_of m k of None \<Rightarrow> [] | Some vs \<Rightarrow> vs) @ [v])"
  by (simp add: push_back_def omap_simps)

lemma add_event_holds:
  assumes h: "story_holds story L (evStoryId e)"
  shows "story_holds (story\<lparr>rec_events := omap_emplace (event_sequence e) e (rec_events story),
      rec_copies := push_back (event_sequence e) c (rec_copies story)\<rparr>) (L @ [(e, c)]) (evStoryId e)"
proof (rule story_holdsI)
  note d = story_holdsD [OF h]
  have app: "copies_in (L @ [(e, c)]) (evStoryId e) ev = copies_in L (evStoryId e) ev @ (if ev = event_sequence e then [(e, c)] else [])" for ev
    by (simp add: copies_in_append) (simp add: copies_in_def)
  show "omap_ok (rec_events (story\<lparr>rec_events := omap_emplace (event_sequence e) e (rec_events story),
      rec_copies := push_back (event_sequence e) c (rec_copies story)\<rparr>))" using d(1) by auto
  show "omap_ok (rec_copies (story\<lparr>rec_events := omap_emplace (event_sequence e) e (rec_events story),
      rec_copies := push_back (event_sequence e) c (rec_copies story)\<rparr>))" using d(2) by (auto simp: push_back_def)
  show "map_of (rec_copies (story\<lparr>rec_events := omap_emplace (event_sequence e) e (rec_events story),
      rec_copies := push_back (event_sequence e) c (rec_copies story)\<rparr>)) ev = opt_list (map snd (copies_in (L @ [(e, c)]) (evStoryId e) ev))" for ev
    using d(3) [of ev] by (auto simp: map_of_push_back app opt_list_def)
  show "map_of (rec_events (story\<lparr>rec_events := omap_emplace (event_sequence e) e (rec_events story),
      rec_copies := push_back (event_sequence e) c (rec_copies story)\<rparr>)) ev = first_event (copies_in (L @ [(e, c)]) (evStoryId e) ev)" for ev
    using d(4) [of ev] d(4) [of "event_sequence e"]
    by (auto simp: omap_simps app first_event_def split: option.splits list.splits)
qed

lemma applyRecord_holds:
  assumes h: "holds state L" and run: "applyRecord r segment state = Inr state'"
    and scanned: "sr_body r \<noteq> []" "sr_type r = hd (sr_body r)"
  shows "holds state' (rec_step (segment, sr_body r) L)"
proof -
  consider (N) "sr_type r = type_byte Names" | (E) "sr_type r = type_byte EventR" | (D) "sr_type r = type_byte Dropped"
    | (G) "sr_type r = type_byte Group"
    using run by (auto simp: applyRecord_def split: if_splits)
  then show ?thesis
  proof cases
    case N
    then obtain n where n: "decodeNames (sr_body r) = Some n"
      "state' = put_recovered (storyOf state (names_story_id n)\<lparr>has_names := True, rec_chronicle := names_chronicle n, rec_story := names_story n\<rparr>)
        (names_story_id n) state"
      using run by (auto simp: applyRecord_def split: option.splits)
    have "rec_step (segment, sr_body r) L = L" using N n scanned by (simp add: rec_step_def decode_record_def)
    then show ?thesis using holds_story [OF h, of "names_story_id n"] unfolding n(2)
      by (intro holds_put [OF h]) (simp_all add: story_holds_def)
  next
    case E
    then obtain e xs k where e: "decodeLogEvent (tl (sr_body r)) = Inr (e, xs, k)"
      "state' = (let story = storyOf state (evStoryId e) in
        put_recovered (story\<lparr>rec_events := omap_emplace (event_sequence e) e (rec_events story),
          rec_copies := push_back (event_sequence e) (segment, of_nat (kFrameHeaderBytes + length (sr_body r))) (rec_copies story)\<rparr>)
          (evStoryId e) state)"
      using run by (auto simp: applyRecord_def Let_def split: sum.splits CodecStatus.splits prod.splits)
    have step: "rec_step (segment, sr_body r) L = L @ [(e, segment, of_nat (kFrameHeaderBytes + length (sr_body r)))]"
      using E e(1) scanned by (simp add: rec_step_def decode_record_def)
    show ?thesis unfolding e(2) step Let_def
      by (rule holds_put [OF h add_event_holds [OF holds_story [OF h]]]) (simp add: copies_in_def)
  next
    case D
    then obtain sid where sid: "decodeDropped (sr_body r) = Some sid" using run by (auto simp: applyRecord_def split: option.splits)
    have step: "rec_step (segment, sr_body r) L = filter (\<lambda>x. evStoryId (fst x) \<noteq> sid) L"
      using D sid scanned by (simp add: rec_step_def decode_record_def)
    let ?L = "filter (\<lambda>x. evStoryId (fst x) \<noteq> sid) L"
    have none: "copies_in ?L sid ev = []" for ev by (auto simp: copies_in_def filter_empty_conv)
    have other: "copies_in ?L s ev = copies_in L s ev" if "s \<noteq> sid" for s ev
      using that by (auto simp: copies_in_def intro!: filter_cong)
    have nil: "story_holds story ?L sid" if "rec_events story = []" "rec_copies story = []" for story
      using that by (intro story_holdsI) (simp_all add: none first_event_def omap_ok_def)
    let ?s1 = "case map_of (rec_stories state) sid of None \<Rightarrow> state
      | Some story \<Rightarrow> put_recovered (story\<lparr>rec_events := [], rec_copies := []\<rparr>) sid state"
    have "holds ?s1 ?L"
    proof (cases "map_of (rec_stories state) sid")
      case None
      then have "story_holds (storyOf state sid) ?L sid" by (intro nil) (simp_all add: storyOf_def new_RecoveredStory_def)
      then have "story_holds (storyOf state s) ?L s" for s
        using holds_story [OF h, of s] story_holds_cong [of ?L s L] other [of s] by (cases "s = sid") auto
      then show ?thesis using h None by (simp add: holds_def)
    next
      case (Some story)
      then show ?thesis using holds_put [OF h nil other] by simp
    qed
    moreover have "rec_stories state' = rec_stories ?s1"
      using run D sid by (auto simp: applyRecord_def Let_def split: option.splits)
    ultimately show ?thesis unfolding step using holds_cong by blast
  next
    case G
    then obtain n where n: "decodeGroup (sr_body r) = Some n" "state' = state"
      using run by (auto simp: applyRecord_def split: option.splits if_splits)
    have "rec_step (segment, sr_body r) L = L" using G n(1) scanned by (simp add: rec_step_def decode_record_def)
    then show ?thesis using h n(2) by simp
  qed
qed

lemma applyRecords_holds:
  assumes "holds state L" "applyRecords rs segment state = Inr state'"
    and "\<forall>r\<in>set rs. sr_body r \<noteq> [] \<and> sr_type r = hd (sr_body r)"
  shows "holds state' (fold rec_step (map (\<lambda>r. (segment, sr_body r)) rs) L)"
  using assms
proof (induction rs arbitrary: state L)
  case (Cons r rs)
  then obtain s1 where s1: "applyRecord r segment state = Inr s1" "applyRecords rs segment s1 = Inr state'"
    by (auto simp: sum_bind_Inr)
  have "holds s1 (rec_step (segment, sr_body r) L)" using applyRecord_holds [OF Cons.prems(1) s1(1)] Cons.prems(3) by simp
  from Cons.IH [OF this s1(2)] Cons.prems(3) show ?case by simp
qed simp

lemma frame_records_types: "r \<in> set (frame_records pos bodies) \<Longrightarrow> sr_type r = hd (sr_body r) \<and> sr_body r \<in> set bodies"
  by (induction pos bodies rule: frame_records.induct) auto

lemma scanned_bodies:
  assumes "r \<in> set (scan_records (scanSegment crc bytes))"
  shows "sr_body r \<noteq> [] \<and> sr_type r = hd (sr_body r)"
proof -
  let ?rs = "scan_records (scanSegment crc bytes)"
  have "?rs = frame_records 0 (map sr_body ?rs)" "good_body (sr_body r)"
    using scan_from_whole [of 0 bytes crc] assms by (auto simp: scanSegment_def Let_def)
  then show ?thesis using frame_records_types [of r 0 "map sr_body ?rs"] assms by (auto simp: good_body_def)
qed

lemma readSegment_Inr:
  assumes "readSegment crc faults dir segment state = Inr (state', e, created)"
  obtains bytes header where "map_of (wal_files dir) (segmentFileName segment) = Some bytes"
    and "scan_records (scanSegment crc bytes) \<noteq> []"
    and "snd (decodeHeader (sr_body (hd (scan_records (scanSegment crc bytes))))) = Some header" "created = created_ns header"
    and "applyRecords (tl (scan_records (scanSegment crc bytes))) segment
      (state\<lparr>bytes_read := bytes_read state + of_nat (length bytes)\<rparr>) = Inr state'"
    and "e = segment_end segment bytes (scanSegment crc bytes)"
proof -
  obtain bytes where bytes: "map_of (wal_files dir) (segmentFileName segment) = Some bytes"
    using assms by (auto simp: readSegment_def split: if_splits option.splits)
  then show thesis
    using assms that [OF bytes]
    by (auto simp: readSegment_def Let_def sum_bind_Inr split: if_splits option.splits prod.splits)
qed

lemma readSegment_holds:
  assumes h: "holds state L" and run: "readSegment crc faults dir segment state = Inr (state', e, created)"
  shows "holds state' (fold rec_step (seg_log crc dir segment) L)"
proof -
  obtain bytes where bytes: "map_of (wal_files dir) (segmentFileName segment) = Some bytes"
    and ne: "scan_records (scanSegment crc bytes) \<noteq> []"
    and app: "applyRecords (tl (scan_records (scanSegment crc bytes))) segment
      (state\<lparr>bytes_read := bytes_read state + of_nat (length bytes)\<rparr>) = Inr state'"
    using readSegment_Inr [OF run] by metis
  have "holds (state\<lparr>bytes_read := bytes_read state + of_nat (length bytes)\<rparr>) L"
    using h holds_cong [of "state\<lparr>bytes_read := bytes_read state + of_nat (length bytes)\<rparr>" state L] by simp
  from applyRecords_holds [OF this app] show ?thesis
    using scanned_bodies [of _ crc bytes] list.set_sel(2) [OF ne] by (simp add: seg_log_def bytes)
qed

lemma read_segments_holds:
  assumes "holds state L" "read_segments crc faults dir segments state = Inr (state', ends)"
  shows "holds state' (fold rec_step (concat (map (seg_log crc dir) segments)) L)"
  using assms
proof (induction segments arbitrary: state L ends)
  case (Cons segment segments)
  then obtain s1 e c ends' where s1: "readSegment crc faults dir segment state = Inr (s1, e, c)"
    "read_segments crc faults dir segments s1 = Inr (state', ends')"
    by (auto simp: sum_bind_Inr)
  from Cons.IH [OF readSegment_holds [OF Cons.prems(1) s1(1)] s1(2)] show ?case by simp
qed simp

lemma new_state_holds: "holds (new_RecoveredState segments) []"
  by (auto simp: holds_def new_RecoveredState_def storyOf_def new_RecoveredStory_def omap_ok_def copies_in_def
    first_event_def intro!: story_holdsI)

text \<open>An unlogged drop.\<close>

lemma map_of_filter_value:
  assumes "omap_ok m"
  shows "map_of (filter (\<lambda>p. P (snd p)) m) k = (case map_of m k of None \<Rightarrow> None | Some v \<Rightarrow> if P v then Some v else None)"
proof -
  have "distinct (map fst m)" using assms by (simp add: omap_ok_def strict_sorted_iff)
  then show ?thesis
  proof (induction m)
    case (Cons p m)
    then have "k = fst p \<Longrightarrow> map_of m k = None" by (auto simp: map_of_eq_None_iff)
    then show ?case using Cons by (cases p) (auto split: option.splits)
  qed simp
qed

lemma copies_in_drop:
  "copies_in (drop_step drp L) sid ev =
     (if sid = drop_story_id drp \<and> before_drop drp (map snd (copies_in L sid ev)) then [] else copies_in L sid ev)"
proof -
  let ?P = "sid = drop_story_id drp \<and> before_drop drp (map snd (copies_in L sid ev))"
  have "\<not> (evStoryId (fst x) = drop_story_id drp \<and>
      before_drop drp (map snd (copies_in L (drop_story_id drp) (event_sequence (fst x))))) \<longleftrightarrow> \<not> ?P"
    if "x \<in> set (copies_in L sid ev)" for x
    using that by (auto simp: copies_in_def)
  then have "copies_in (drop_step drp L) sid ev = filter (\<lambda>x. \<not> ?P) (copies_in L sid ev)"
    unfolding drop_step_def copies_in_filter by (intro filter_cong refl) blast
  moreover have "filter (\<lambda>x. \<not> b) xs = (if b then [] else xs)" for b and xs :: event_log by simp
  ultimately show ?thesis by (simp only:)
qed

lemma apply_drop_holds:
  assumes h: "holds state L"
  shows "holds (apply_drop drp state) (drop_step drp L)"
proof (cases "map_of (rec_stories state) (drop_story_id drp)")
  case None
  let ?sid = "drop_story_id drp"
  have "rec_copies (storyOf state ?sid) = []" using None by (simp add: storyOf_def new_RecoveredStory_def)
  then have "copies_in L ?sid ev = []" for ev using story_holdsD(3) [OF holds_story [OF h, of ?sid], of ev] by simp
  then have "copies_in (drop_step drp L) sid ev = copies_in L sid ev" for sid ev by (simp add: copies_in_drop)
  then have "story_holds story (drop_step drp L) sid = story_holds story L sid" for story sid by (rule story_holds_cong)
  then show ?thesis using h None by (simp add: holds_def apply_drop_def)
next
  case (Some story)
  let ?sid = "drop_story_id drp" and ?gone = "map fst (filter (\<lambda>p. before_drop drp (snd p)) (rec_copies story))"
  have st: "story_holds story L ?sid" using holds_story [OF h, of ?sid] Some by (simp add: storyOf_def)
  note d = story_holdsD [OF st]
  have gone: "ev \<in> set ?gone \<longleftrightarrow> copies_in L ?sid ev \<noteq> [] \<and> before_drop drp (map snd (copies_in L ?sid ev))" for ev
  proof -
    have "ev \<in> set ?gone \<longleftrightarrow> map_of (filter (\<lambda>p. before_drop drp (snd p)) (rec_copies story)) ev \<noteq> None"
      using map_of_eq_None_iff [of "filter (\<lambda>p. before_drop drp (snd p)) (rec_copies story)" ev] by (simp only: set_map) blast
    also have "\<dots> \<longleftrightarrow> copies_in L ?sid ev \<noteq> [] \<and> before_drop drp (map snd (copies_in L ?sid ev))"
      by (simp add: map_of_filter_value [OF d(2), of "before_drop drp"] d(3) opt_list_def)
    finally show ?thesis .
  qed
  have kept: "story_holds (story\<lparr>rec_events := filter (\<lambda>p. fst p \<notin> set ?gone) (rec_events story),
      rec_copies := filter (\<lambda>p. \<not> before_drop drp (snd p)) (rec_copies story)\<rparr>) (drop_step drp L) ?sid"
  proof (rule story_holdsI, goal_cases)
    case (3 ev)
    then show ?case using d(3) [of ev]
      by (simp add: map_of_filter_value [OF d(2), of "\<lambda>v. \<not> before_drop drp v"] copies_in_drop opt_list_def)
  next
    case (4 ev)
    have "map_of (filter (\<lambda>p. fst p \<notin> set ?gone) (rec_events story)) ev = (if ev \<in> set ?gone then None else map_of (rec_events story) ev)"
      by (simp only: map_of_filter_key [of "\<lambda>k. k \<notin> set ?gone"] if_not_P split: if_split) blast
    then show ?case using d(4) [of ev] by (simp only: gone RecoveredStory.simps copies_in_drop simp_thms) (simp add: first_event_def)
  qed (use d(1,2) in auto)
  show ?thesis unfolding apply_drop_def Some Let_def option.case
    by (rule holds_put [OF h kept]) (simp add: copies_in_drop)
qed

lemma apply_drops_holds: "holds state L \<Longrightarrow> holds (fold apply_drop drops state) (fold drop_step drops L)"
  by (induction drops arbitrary: state L) (auto intro: apply_drop_holds)

lemma segment_not_partial: "\<not> endsWith (segmentFileName n) partial_suffix"
proof
  let ?ds = "map digit_char (dec_digits 20 (unat n))"
  assume "endsWith (segmentFileName n) partial_suffix"
  then have "drop 16 ?ds @ kSegmentSuffix = partial_suffix"
    by (simp add: endsWith_def segmentFileName_def kSegmentSuffix_def partial_suffix_def)
  from arg_cong [OF this, of "drop 4"] show False by (simp add: kSegmentSuffix_def partial_suffix_def)
qed

lemma opened_segment: "map_of (wal_files (fst (manager_open dir))) (segmentFileName n) = map_of (wal_files dir) (segmentFileName n)"
  by (simp add: manager_open_def map_of_filter_key [of "\<lambda>k. \<not> endsWith k partial_suffix"] segment_not_partial)

lemma opened_log: "seg_log crc (fst (manager_open dir)) = seg_log crc dir"
  by (simp add: seg_log_def opened_segment fun_eq_iff)

lemma repair_drops: "unlogged_drops (snd (repair_torn faults torn dir)) = unlogged_drops dir"
  by (auto simp: repair_torn_def zeroTail_def saveTornTail_def write_file_def split: option.splits)

lemma recoverWal_Inr:
  assumes "recoverWal crc faults now_ns dir = (Inr st, dir')"
  obtains state read where
    "read_segments crc faults (fst (manager_open dir)) (snd (manager_open dir)) (new_RecoveredState (snd (manager_open dir))) = Inr (state, read)"
    "find_damage (map fst read) = None"
    "rec_stories st = filter (\<lambda>p. rec_events (snd p) \<noteq> []) (rec_stories (fold apply_drop (unlogged_drops dir) state))"
    "dir' = prune_drops faults (snd (manager_open dir)) (snd (repair_torn faults (torn_segment (map fst read)) (fst (manager_open dir))))"
    "fst (repair_torn faults (torn_segment (map fst read)) (fst (manager_open dir)))"
proof -
  have opened: "fail_open faults = None" using assms by (auto simp: recoverWal_def split: option.splits)
  obtain state read where read: "read_segments crc faults (fst (manager_open dir)) (snd (manager_open dir))
      (new_RecoveredState (snd (manager_open dir))) = Inr (state, read)"
    using assms opened by (auto simp: recoverWal_def case_prod_beta split: sum.splits)
  have drops: "unlogged_drops (fst (manager_open dir)) = unlogged_drops dir" by (simp add: manager_open_def)
  have damage: "find_damage (map fst read) = None" using assms opened read
    by (cases "find_damage (map fst read)") (simp_all add: recoverWal_def case_prod_beta Let_def)
  have synced: "sync_segments faults (torn_segment (map fst read)) (map fst read) = None" using assms opened read damage
    by (cases "sync_segments faults (torn_segment (map fst read)) (map fst read)") (simp_all add: recoverWal_def case_prod_beta Let_def)
  show thesis using assms
    by (intro that [OF read damage])
      (auto simp: recoverWal_def case_prod_beta Let_def opened read damage synced repair_drops drops split: if_splits)
qed

lemma recovered_holds:
  assumes "recoverWal crc faults now_ns dir = (Inr st, dir')"
  shows "holds st (fold drop_step (unlogged_drops dir)
    (fold rec_step (concat (map (seg_log crc dir) (snd (manager_open dir)))) []))" (is "holds st ?L")
    and "omap_ok (rec_stories st) \<and> (\<forall>p\<in>set (rec_stories st). rec_events (snd p) \<noteq> [])"
proof -
  obtain state read where read: "read_segments crc faults (fst (manager_open dir)) (snd (manager_open dir))
      (new_RecoveredState (snd (manager_open dir))) = Inr (state, read)"
    and st: "rec_stories st = filter (\<lambda>p. rec_events (snd p) \<noteq> []) (rec_stories (fold apply_drop (unlogged_drops dir) state))"
    using recoverWal_Inr [OF assms] by metis
  let ?s = "fold apply_drop (unlogged_drops dir) state"
  have h: "holds ?s ?L"
    using apply_drops_holds [OF read_segments_holds [OF new_state_holds read], of "unlogged_drops dir"] by (simp add: opened_log)
  then have ok: "omap_ok (rec_stories ?s)" by (simp add: holds_def)
  then show "omap_ok (rec_stories st) \<and> (\<forall>p\<in>set (rec_stories st). rec_events (snd p) \<noteq> [])" unfolding st by auto
  have "story_holds (storyOf st sid) ?L sid" for sid
  proof (cases "rec_events (storyOf ?s sid) = []")
    case True
    then have "storyOf st sid = new_RecoveredStory sid"
      using map_of_filter_value [OF ok, of "\<lambda>s. rec_events s \<noteq> []" sid] by (auto simp: storyOf_def st split: option.splits)
    moreover have "copies_in ?L sid ev = []" for ev
      using story_holdsD(4) [OF holds_story [OF h, of sid], of ev] True by (simp add: first_event_def split: list.splits)
    ultimately show ?thesis by (intro story_holdsI) (simp_all add: new_RecoveredStory_def first_event_def omap_ok_def)
  next
    case False
    then have "storyOf st sid = storyOf ?s sid"
      using map_of_filter_value [OF ok, of "\<lambda>s. rec_events s \<noteq> []" sid]
      by (auto simp: storyOf_def st new_RecoveredStory_def split: option.splits)
    then show ?thesis using holds_story [OF h, of sid] by simp
  qed
  then show "holds st ?L" using \<open>omap_ok (rec_stories st) \<and> _\<close> by (simp add: holds_def)
qed

lemma held_story:
  assumes "holds st L" "\<forall>p\<in>set (rec_stories st). rec_events (snd p) \<noteq> []"
  shows "map_of (rec_stories st) sid = None \<longleftrightarrow> (\<forall>x\<in>set L. evStoryId (fst x) \<noteq> sid)"
    "map_of (rec_stories st) sid = Some story \<Longrightarrow> map_of (rec_events story) = (\<lambda>ev. first_event (copies_in L sid ev))"
    "map_of (rec_stories st) sid = Some story \<Longrightarrow> map_of (rec_copies story) = (\<lambda>ev. opt_list (map snd (copies_in L sid ev)))"
proof -
  note d = story_holdsD [OF holds_story [OF assms(1), of sid]]
  show "map_of (rec_stories st) sid = None \<longleftrightarrow> (\<forall>x\<in>set L. evStoryId (fst x) \<noteq> sid)"
  proof (cases "map_of (rec_stories st) sid")
    case None
    then have "copies_in L sid ev = []" for ev
      using d(3) [of ev] by (simp add: storyOf_def new_RecoveredStory_def)
    then have "evStoryId (fst x) \<noteq> sid" if "x \<in> set L" for x
      using that unfolding copies_in_def filter_empty_conv by blast
    then show ?thesis using None by blast
  next
    case (Some story)
    have "rec_events story \<noteq> []" using assms(2) map_of_SomeD [OF Some] by force
    then obtain ev v where "(ev, v) \<in> set (rec_events story)" by (metis list.set_intros(1) neq_Nil_conv surj_pair)
    then have "map_of (rec_events story) ev \<noteq> None" by (metis weak_map_of_SomeI option.distinct(1))
    then have "copies_in L sid ev \<noteq> []" using d(4) [of ev] Some by (auto simp: storyOf_def first_event_def)
    then obtain x where "x \<in> set L" "evStoryId (fst x) = sid" unfolding copies_in_def filter_empty_conv by blast
    then show ?thesis using Some by auto
  qed
  show "map_of (rec_stories st) sid = Some story \<Longrightarrow> map_of (rec_events story) = (\<lambda>ev. first_event (copies_in L sid ev))"
    using d(4) by (intro ext) (simp add: storyOf_def)
  show "map_of (rec_stories st) sid = Some story \<Longrightarrow> map_of (rec_copies story) = (\<lambda>ev. opt_list (map snd (copies_in L sid ev)))"
    using d(3) by (intro ext) (simp add: storyOf_def)
qed

text \<open>
  Claim C15. Recovery replays the log: when it succeeds, it returns exactly the events
  that are still pending in the log, which are those of its event records, segment after segment in
  order, less the copies that a later drop record or an unlogged drop ended. For every
  story and sequence it returns the event of the first pending copy and the segment and size of every
  pending copy, and a story is returned exactly when something of it is pending.
\<close>

theorem recover_replays_log:
  assumes "recoverWal crc faults now_ns dir = (Inr st, dir')"
    and "L = fold drop_step (unlogged_drops dir) (fold rec_step (concat (map (seg_log crc dir) (snd (manager_open dir)))) [])"
  shows "(map_of (rec_stories st) sid = None \<longleftrightarrow> (\<forall>x\<in>set L. evStoryId (fst x) \<noteq> sid)) \<and>
    (map_of (rec_stories st) sid = Some story \<longrightarrow>
       map_of (rec_events story) = (\<lambda>ev. first_event (copies_in L sid ev)) \<and>
       map_of (rec_copies story) = (\<lambda>ev. opt_list (map snd (copies_in L sid ev))))"
  using held_story [OF recovered_holds(1) [OF assms(1)], where sid = sid] recovered_holds(2) [OF assms(1)]
  unfolding assms(2) by blast

section \<open>Recovery after a crash\<close>

text \<open>
  A segment file as the log writes it: the header, the bodies of the records after it, and what
  follows the last whole one.
\<close>

record SegmentImage =
  img_header :: HeaderRecord
  img_bodies :: "u8 list list"
  img_rest :: "u8 list"

definition header_body :: "SegmentImage \<Rightarrow> u8 list" where
  "header_body im = record_body (HeaderRec (img_header im))"

definition image_data :: "(u32 \<Rightarrow> u8 list \<Rightarrow> u32) \<Rightarrow> SegmentImage \<Rightarrow> u8 list" where
  "image_data crc im = frames_of crc (header_body im # img_bodies im)"

definition no_faults :: WalFaults where
  "no_faults = \<lparr>fail_open = None, fail_read = (\<lambda>_. False), fail_sync = (\<lambda>_. False), fail_copy = None,
    fail_zero = None, fail_dirsync = False, fail_drops = False, fail_prune = False\<rparr>"

text \<open>A record the log writes after the header.\<close>

definition loggable :: "u8 list \<Rightarrow> bool" where
  "loggable body \<longleftrightarrow> good_body body \<and>
     (case decode_record body of
        None \<Rightarrow> False
      | Some (HeaderRec _) \<Rightarrow> False
      | Some (GroupRec n) \<Rightarrow> kGroupFrameBytes \<le> unat n
      | _ \<Rightarrow> True)"

definition image_ok :: "(u32 \<Rightarrow> u8 list \<Rightarrow> u32) \<Rightarrow> SegmentImage \<Rightarrow> bool" where
  "image_ok crc im \<longleftrightarrow> good_body (header_body im) \<and> format_version (img_header im) = kFormatVersion \<and>
     list_all loggable (img_bodies im) \<and> scan_records (scanSegment crc (img_rest im)) = []"

definition clean_image :: "SegmentImage \<Rightarrow> bool" where
  "clean_image im \<longleftrightarrow> img_rest im = replicate (length (img_rest im)) 0"

lemma scan_stops:
  assumes "scan_records (scanSegment crc rest) = []"
  shows "scan_records (scan_from crc (xs @ rest) (length xs)) = [] \<and> end_offset (scan_from crc (xs @ rest) (length xs)) = length xs"
proof -
  let ?r = "scan_from crc (xs @ rest) (length xs)"
  have whole: "end_offset ?r \<le> length xs + length rest" "length xs \<le> end_offset ?r"
    "\<forall>rec\<in>set (scan_records ?r). good_body (sr_body rec)"
    "frames_of crc (map sr_body (scan_records ?r)) = take (end_offset ?r - length xs) rest"
    using scan_from_whole [of "length xs" "xs @ rest" crc] by (simp_all add: Let_def)
  have "scan_records ?r = []"
  proof (cases "scan_records ?r")
    case (Cons rec recs)
    then have "rest = frame_of crc (sr_body rec) @ frames_of crc (map sr_body recs) @ drop (end_offset ?r - length xs) rest"
      using whole(4) by (metis append_assoc append_take_drop_id frames_of_simps(2) list.simps(9))
    then have "drop 0 rest = frame_of crc (sr_body rec) @ frames_of crc (map sr_body recs) @ drop (end_offset ?r - length xs) rest"
      by simp
    from scan_frame [OF this] have "scan_records (scanSegment crc rest) \<noteq> []"
      using Cons whole(3) by (simp add: scanSegment_def Let_def)
    then show ?thesis using assms by simp
  qed
  then show ?thesis using whole by auto
qed

lemma scan_image:
  assumes "image_ok crc im"
  shows "scan_records (scanSegment crc (image_data crc im @ img_rest im)) = frame_records 0 (header_body im # img_bodies im)"
    "end_offset (scanSegment crc (image_data crc im @ img_rest im)) = length (image_data crc im)"
    "clean_image im \<Longrightarrow> scan_end (scanSegment crc (image_data crc im @ img_rest im)) = EndOfData"
proof -
  let ?bodies = "header_body im # img_bodies im"
  have good: "\<forall>b\<in>set ?bodies. good_body b" using assms by (auto simp: image_ok_def list_all_iff loggable_def)
  note step = scan_frames [of 0 "frames_of crc ?bodies @ img_rest im" crc ?bodies "img_rest im", OF _ good]
  have stop: "scan_records (scanSegment crc (img_rest im)) = []" using assms by (simp add: image_ok_def)
  show "scan_records (scanSegment crc (image_data crc im @ img_rest im)) = frame_records 0 ?bodies"
    "end_offset (scanSegment crc (image_data crc im @ img_rest im)) = length (image_data crc im)"
    using step scan_stops [OF stop, of "frames_of crc ?bodies"] by (simp_all add: scanSegment_def image_data_def Let_def)
  show "scan_end (scanSegment crc (image_data crc im @ img_rest im)) = EndOfData" if "clean_image im"
    using scanSegment_written [OF good, of crc "img_rest im"] that
    by (simp add: image_data_def clean_image_def torn_tail_def)
qed

lemma applyRecord_loggable:
  assumes "loggable (sr_body r)" "sr_type r = hd (sr_body r)"
  shows "\<exists>state'. applyRecord r segment state = Inr state'"
  using assms
  by (auto simp: loggable_def decode_record_def applyRecord_def Let_def not_less good_body_def
      split: if_splits option.splits sum.splits prod.splits)

lemma applyRecords_loggable:
  "\<forall>r\<in>set rs. loggable (sr_body r) \<and> sr_type r = hd (sr_body r) \<Longrightarrow> \<exists>state'. applyRecords rs segment state = Inr state'"
proof (induction rs arbitrary: state)
  case (Cons r rs)
  then obtain s1 where "applyRecord r segment state = Inr s1" using applyRecord_loggable by (meson list.set_intros(1))
  then show ?case using Cons by (auto simp: sum_bind_def)
qed simp

lemma nonzero_from_None: "nonzero_from bs i = None \<longleftrightarrow> (\<forall>b\<in>set bs. b = 0)"
  by (induction bs arbitrary: i) auto

lemma drop_block:
  assumes "take len (drop pos bytes) = replicate len 0" "len = min 4096 (length bytes - pos)"
  shows "(\<forall>b\<in>set (drop pos bytes). b = 0) \<longleftrightarrow> (\<forall>b\<in>set (drop (pos + 4096) bytes). b = 0)"
proof -
  have "drop len (drop pos bytes) = drop (pos + 4096) bytes" using assms(2) by (auto simp: min_def add.commute)
  then have "drop pos bytes = replicate len 0 @ drop (pos + 4096) bytes"
    using append_take_drop_id [of len "drop pos bytes"] assms(1) by simp
  then have "set (drop pos bytes) = set (replicate len 0) \<union> set (drop (pos + 4096) bytes)" by (metis set_append)
  then show ?thesis by auto
qed

lemma all_zero_iff: "xs = replicate (length xs) 0 \<longleftrightarrow> (\<forall>b\<in>set xs. b = 0)"
  by (metis in_set_replicate replicate_length_same)

text \<open>The block-wise search finds a byte exactly when there is one.\<close>

lemma firstNonZero_None: "firstNonZero bytes pos = None \<longleftrightarrow> (\<forall>b\<in>set (drop pos bytes). b = 0)"
proof (induction bytes pos rule: firstNonZero.induct)
  case (1 bytes pos)
  let ?len = "min 4096 (length bytes - pos)"
  show ?case
  proof (cases "pos < length bytes")
    case inside: True
    show ?thesis
    proof (cases "take ?len (drop pos bytes) = replicate ?len 0")
      case True
      then show ?thesis using 1 [OF inside refl] drop_block [OF True refl] inside
        by (subst firstNonZero.simps) (simp add: Let_def)
    next
      case False
      then show ?thesis using inside by (subst firstNonZero.simps) (simp add: Let_def nonzero_from_None)
    qed
  qed (subst firstNonZero.simps, simp)
qed

text \<open>The end of a segment as recovery sees it.\<close>

definition image_end :: "(u32 \<Rightarrow> u8 list \<Rightarrow> u32) \<Rightarrow> SegmentImage \<Rightarrow> SegmentEnd" where
  "image_end crc im =
     segment_end (segment_number (img_header im)) (image_data crc im @ img_rest im)
       (scanSegment crc (image_data crc im @ img_rest im))"

lemma image_end_data:
  assumes "image_ok crc im"
  shows "se_segment (image_end crc im) = segment_number (img_header im)"
    "data_end (image_end crc im) = length (image_data crc im)"
    "header_end (image_end crc im) = length (frame_of crc (header_body im))"
    "after_end (image_end crc im) = None \<longleftrightarrow> clean_image im"
    "clean_image im \<Longrightarrow> \<not> bad_frame (image_end crc im)"
    "group_end (image_end crc im) = last_group (frame_records (length (frame_of crc (header_body im))) (img_bodies im))"
  using scan_image [OF assms] by (simp_all add: image_end_def segment_end_def Let_def firstNonZero_None clean_image_def all_zero_iff)

lemma dataAfterHeader_image:
  assumes "image_ok crc im"
  shows "dataAfterHeader (image_end crc im) \<longleftrightarrow> img_bodies im \<noteq> [] \<or> \<not> clean_image im"
proof -
  have "length (image_data crc im) = length (frame_of crc (header_body im)) + length (frames_of crc (img_bodies im))"
    by (simp add: image_data_def)
  moreover have "length (frames_of crc bs) = 0 \<longleftrightarrow> bs = []" for bs by (cases bs) (simp_all add: kFrameHeaderBytes_def)
  ultimately show ?thesis using image_end_data [OF assms] by (auto simp: dataAfterHeader_def)
qed

lemma readSegment_image:
  assumes ok: "image_ok crc im"
    and stored: "map_of (wal_files dir) (segmentFileName (segment_number (img_header im))) = Some (image_data crc im @ img_rest im)"
  shows "\<exists>state'. readSegment crc no_faults dir (segment_number (img_header im)) state =
    Inr (state', image_end crc im, created_ns (img_header im))"
proof -
  let ?bytes = "image_data crc im @ img_rest im"
  note scan = scan_image [OF ok]
  have hdr: "decode_record (header_body im) = Some (HeaderRec (img_header im))"
    unfolding header_body_def using ok by (intro decode_record_body) (auto simp: image_ok_def header_body_def)
  have type: "hd (header_body im) = type_byte Header" by (simp add: header_body_def)
  have "decodeHeader (header_body im) = (fst (decodeHeader (header_body im)), Some (img_header im))"
    using hdr type by (cases "decodeHeader (header_body im)") (auto simp: decode_record_def split: if_splits)
  moreover have "\<exists>state'. applyRecords (tl (scan_records (scanSegment crc ?bytes))) (segment_number (img_header im)) s = Inr state'" for s
    using frame_records_types ok unfolding scan(1)
    by (intro applyRecords_loggable) (fastforce simp: image_ok_def list_all_iff)
  then obtain state' where "applyRecords (tl (scan_records (scanSegment crc ?bytes))) (segment_number (img_header im))
      (state\<lparr>bytes_read := bytes_read state + of_nat (length ?bytes)\<rparr>) = Inr state'" by blast
  ultimately show ?thesis using type
    by (auto simp: readSegment_def no_faults_def stored scan(1) Let_def image_end_def sum_bind_def split: prod.splits)
qed

lemma read_images:
  assumes "\<forall>im\<in>set images. image_ok crc im \<and>
    map_of (wal_files dir) (segmentFileName (segment_number (img_header im))) = Some (image_data crc im @ img_rest im)"
  shows "\<exists>state'. read_segments crc no_faults dir (map (segment_number \<circ> img_header) images) state =
    Inr (state', map (\<lambda>im. (image_end crc im, created_ns (img_header im))) images)"
  using assms
proof (induction images arbitrary: state)
  case (Cons im images)
  then obtain s1 where "readSegment crc no_faults dir (segment_number (img_header im)) state =
      Inr (s1, image_end crc im, created_ns (img_header im))"
    using readSegment_image by fastforce
  moreover obtain s2 where "read_segments crc no_faults dir (map (segment_number \<circ> img_header) images) s1 =
      Inr (s2, map (\<lambda>im. (image_end crc im, created_ns (img_header im))) images)"
    using Cons by fastforce
  ultimately show ?case by (simp add: sum_bind_def comp_def)
qed simp

text \<open>Which segment the newest one with data is, and when nothing is damaged.\<close>

lemma newest_with_data_snoc:
  "newest_with_data (ends @ [e]) = (if dataAfterHeader e then Some (length ends) else newest_with_data ends)"
  by (induction ends) (auto split: option.splits)

lemma newest_with_data_spares: "\<forall>e\<in>set spares. \<not> dataAfterHeader e \<Longrightarrow> newest_with_data (ends @ spares) = newest_with_data ends"
proof (induction spares rule: rev_induct)
  case (snoc e spares)
  then show ?case using newest_with_data_snoc [of "ends @ spares" e] by simp
qed simp

lemma newest_with_data_less: "newest_with_data ends = Some i \<Longrightarrow> i < length ends"
  by (induction ends arbitrary: i) (auto split: option.splits if_splits)

lemma check_older_clean: "\<forall>e\<in>set ends. \<not> bad_frame e \<and> after_end e = None \<Longrightarrow> check_older ends = None"
  by (induction ends) auto

lemma no_damage:
  assumes older: "\<forall>e\<in>set older. \<not> bad_frame e \<and> after_end e = None" and newest: "check_newest newest = None"
    and spares: "\<forall>e\<in>set spares. \<not> dataAfterHeader e"
  shows "find_damage (older @ newest # spares) = None"
proof (cases "dataAfterHeader newest")
  case True
  then have "newest_with_data ((older @ [newest]) @ spares) = Some (length older)"
    using newest_with_data_spares [OF spares, of "older @ [newest]"] by (simp only: newest_with_data_snoc if_True)
  then show ?thesis using check_older_clean [OF older] newest by (simp add: find_damage_def nth_append)
next
  case False
  then have data: "newest_with_data ((older @ [newest]) @ spares) = newest_with_data older"
    using newest_with_data_spares [OF spares, of "older @ [newest]"] by (simp only: newest_with_data_snoc if_False)
  show ?thesis
  proof (cases "newest_with_data older")
    case None
    then show ?thesis using data by (simp add: find_damage_def)
  next
    case (Some i)
    then have i: "i < length older" by (rule newest_with_data_less)
    then have "check_newest (older ! i) = None" using older nth_mem [OF i] by (auto simp: check_newest_def)
    moreover have "check_older (take i older) = None" using older by (intro check_older_clean) (auto dest: in_set_takeD)
    ultimately show ?thesis using data Some i by (simp add: find_damage_def nth_append)
  qed
qed

text \<open>A group of records: its first one gives its size in bytes, and no other one starts a group.\<close>

definition is_group :: "(u32 \<Rightarrow> u8 list \<Rightarrow> u32) \<Rightarrow> u8 list list \<Rightarrow> bool" where
  "is_group crc bodies \<longleftrightarrow> bodies \<noteq> [] \<and> hd bodies = record_body (GroupRec (of_nat (length (frames_of crc bodies)))) \<and>
     list_all (\<lambda>b. hd b \<noteq> type_byte Group) (tl bodies)"

lemma frame_records_append:
  "frame_records pos (xs @ ys) = frame_records pos xs @ frame_records (pos + length (frames_of crc xs)) ys"
  by (induction xs arbitrary: pos) (simp_all add: add.assoc)

lemma last_group_append: "last_group (xs @ ys) = (case last_group ys of Some e \<Rightarrow> Some e | None \<Rightarrow> last_group xs)"
  by (induction xs) (auto split: option.splits)

lemma last_group_none: "\<forall>r\<in>set rs. sr_type r \<noteq> type_byte Group \<Longrightarrow> last_group rs = None"
  by (induction rs) auto

lemma decode_group_body: "decodeGroup (record_body (GroupRec n)) = Some n"
proof -
  have "good_body (record_body (GroupRec n))" by (simp add: good_body_def kMaxBodyBytes_def)
  from decode_record_body [OF this] show ?thesis by (auto simp: decode_record_def split: if_splits)
qed

lemma last_group_group:
  assumes "is_group crc g" "0 < k" "pos + length (frames_of crc g) < 2 ^ 64"
  shows "last_group (frame_records pos (take k g)) = Some (pos + length (frames_of crc g))"
proof -
  let ?len = "length (frames_of crc g)"
  obtain b bs where g: "g = b # bs" "b = record_body (GroupRec (of_nat ?len))" using assms(1) by (cases g) (auto simp: is_group_def)
  obtain k' where k: "k = Suc k'" using assms(2) gr0_implies_Suc by blast
  have none: "last_group (frame_records p (take k' bs)) = None" for p
    using assms(1) g(1) frame_records_types [of _ p "take k' bs"]
    by (intro last_group_none) (auto simp: is_group_def list_all_iff dest: in_set_takeD)
  have "hd b = type_byte Group" by (simp add: g(2))
  then have "last_group (frame_records pos (b # take k' bs)) = Some ((pos + unat n) mod 2 ^ 64)" if "decodeGroup b = Some n" for n
    using that none by simp
  moreover have "decodeGroup b = Some (of_nat ?len)" by (simp only: g(2) decode_group_body)
  moreover have "unat (of_nat ?len :: u64) = ?len" using assms(3) by (simp add: unat_of_nat)
  moreover have "take k g = b # take k' bs" by (simp only: k g(1) take_Suc_Cons)
  ultimately show ?thesis using mod_less [OF assms(3)] by (simp only:)
qed

text \<open>
  A segment whose last group a crash interrupted: of the torn group the first \<open>k\<close> records are whole,
  and the bytes after them lie within the group.
\<close>

definition torn_image ::
  "(u32 \<Rightarrow> u8 list \<Rightarrow> u32) \<Rightarrow> SegmentImage \<Rightarrow> u8 list list list \<Rightarrow> u8 list list \<Rightarrow> nat \<Rightarrow> u8 list \<Rightarrow> bool" where
  "torn_image crc im groups torn k junk \<longleftrightarrow>
     list_all (is_group crc) groups \<and> is_group crc torn \<and> k \<le> length torn \<and>
     img_bodies im = concat groups @ take k torn \<and>
     img_rest im = junk @ replicate (length (img_rest im) - length junk) 0 \<and>
     length (frames_of crc (take k torn)) + length junk \<le> length (frames_of crc torn) \<and>
     length (frames_of crc (header_body im # concat groups @ torn)) < 2 ^ 64"

lemma frames_of_append [simp]: "frames_of crc (xs @ ys) = frames_of crc xs @ frames_of crc ys"
  by (simp add: frames_of_def)

lemma last_group_groups:
  assumes "list_all (is_group crc) groups" "groups \<noteq> []" "pos + length (frames_of crc (concat groups)) < 2 ^ 64"
  shows "last_group (frame_records pos (concat groups)) = Some (pos + length (frames_of crc (concat groups)))"
proof -
  obtain gs g where gs: "groups = gs @ [g]" using assms(2) rev_exhaust by blast
  let ?p = "pos + length (frames_of crc (concat gs))"
  have "is_group crc g" "?p + length (frames_of crc g) < 2 ^ 64" using assms gs by simp_all
  moreover from this have "0 < length g" by (simp add: is_group_def)
  ultimately have "last_group (frame_records ?p (take (length g) g)) = Some (?p + length (frames_of crc g))" by (intro last_group_group)
  moreover have "concat groups = concat gs @ g" by (simp add: gs)
  ultimately show ?thesis
    by (simp only: frame_records_append [of _ _ _ crc] last_group_append option.case take_all [OF order_refl] frames_of_append
      length_append add.assoc)
qed

lemma torn_image_checked:
  assumes ok: "image_ok crc im" and torn: "torn_image crc im groups torn k junk"
  shows "check_newest (image_end crc im) = None"
proof -
  let ?h = "length (frame_of crc (header_body im))" and ?c = "length (frames_of crc (concat groups))"
  let ?e = "image_end crc im" and ?bytes = "image_data crc im @ img_rest im"
  note e = image_end_data [OF ok]
  have bodies: "img_bodies im = concat groups @ take k torn" and grp: "list_all (is_group crc) groups" "is_group crc torn"
    and fits: "length (frames_of crc (take k torn)) + length junk \<le> length (frames_of crc torn)"
    and rest: "img_rest im = junk @ replicate (length (img_rest im) - length junk) 0"
    and small: "?h + (?c + length (frames_of crc torn)) < 2 ^ 64"
    using torn by (simp_all add: torn_image_def)
  have data: "data_end ?e = ?h + ?c + length (frames_of crc (take k torn))" by (simp add: e(2) image_data_def bodies)
  have last: "group_end ?e = (case last_group (frame_records (?h + ?c) (take k torn)) of Some g \<Rightarrow> Some g
      | None \<Rightarrow> last_group (frame_records ?h (concat groups)))"
    by (simp only: e(6) bodies frame_records_append [of _ _ _ crc] last_group_append)
  consider (part) "0 < k" | (first) "k = 0" "groups = []" | (next_one) "k = 0" "groups \<noteq> []" by blast
  then show ?thesis
  proof cases
    case part
    have g: "group_end ?e = Some (?h + ?c + length (frames_of crc torn))"
      using last_group_group [OF grp(2) part, of "?h + ?c"] small last by (simp add: add.assoc)
    have "drop (?h + ?c + length (frames_of crc torn)) ?bytes = drop (length (frames_of crc torn) - length (frames_of crc (take k torn))) (img_rest im)"
      using fits by (simp add: image_data_def bodies)
    also have "\<dots> = drop (length (frames_of crc torn) - length (frames_of crc (take k torn)) - length junk) (replicate (length (img_rest im) - length junk) 0)"
      by (subst rest) (use fits in simp)
    finally have "firstNonZero ?bytes (?h + ?c + length (frames_of crc torn)) = None" by (simp add: firstNonZero_None)
    then have "after_group ?e = None" using g by (simp add: image_end_def segment_end_def Let_def)
    moreover have "data_end ?e \<le> ?h + ?c + length (frames_of crc torn)" using data fits by simp
    ultimately show ?thesis using g by (simp add: check_newest_def Let_def)
  next
    case first
    then have "group_end ?e = None" using last by simp
    then show ?thesis by (simp add: check_newest_def Let_def image_end_def segment_end_def)
  next
    case next_one
    then have g: "group_end ?e = Some (?h + ?c)" using last last_group_groups [OF grp(1) next_one(2), of ?h] small by simp
    then have "after_group ?e = None" using data next_one scan_image(2) [OF ok] e(2)
      by (simp add: image_end_def segment_end_def Let_def)
    then show ?thesis using g data next_one by (simp add: check_newest_def Let_def)
  qed
qed

lemma sync_no_faults: "sync_segments no_faults torn ends = None"
  by (induction ends) (simp_all add: no_faults_def)

lemma map_of_write_file: "map_of (wal_files (write_file name bytes dir)) n = (if n = name then Some bytes else map_of (wal_files dir) n)"
  by (simp add: write_file_def map_of_filter_key [of "\<lambda>k. k \<noteq> name"])

lemma tailCopyName_other: "tailCopyName (segmentFileName m) pos \<noteq> segmentFileName n"
proof
  assume "tailCopyName (segmentFileName m) pos = segmentFileName n"
  from arg_cong [OF this, of length] show False by (simp add: tailCopyName_def segmentFileName_def)
qed

lemma saved_tail_segment:
  assumes "map_of (wal_files dir) (segmentFileName n) = Some bytes"
  shows "map_of (wal_files (saveTornTail faults (segmentFileName m) pos dir)) (segmentFileName n) = Some bytes"
  using assms tailCopyName_other [of m pos n]
  by (auto simp: saveTornTail_def map_of_write_file map_add_def split: option.splits)

lemma repair_no_faults:
  assumes "map_of (wal_files dir) (segmentFileName (se_segment (the torn))) \<noteq> None"
  shows "fst (repair_torn no_faults torn dir)"
proof (cases torn)
  case (Some e)
  then obtain bytes where "map_of (wal_files dir) (segmentFileName (se_segment e)) = Some bytes" using assms by auto
  from saved_tail_segment [OF this] show ?thesis by (simp add: repair_torn_def Some zeroTail_def no_faults_def)
qed (simp add: repair_torn_def)

lemma torn_segment_in: "torn_segment ends = Some e \<Longrightarrow> e \<in> set ends"
  using newest_with_data_less by (auto simp: torn_segment_def split: option.splits if_splits)

lemma recoverWal_no_faults:
  assumes read: "read_segments crc no_faults (fst (manager_open dir)) (snd (manager_open dir)) (new_RecoveredState (snd (manager_open dir))) = Inr (state, read)"
    and damage: "find_damage (map fst read) = None"
    and stored: "\<forall>e\<in>set (map fst read). map_of (wal_files dir) (segmentFileName (se_segment e)) \<noteq> None"
  shows "\<exists>st dir'. recoverWal crc no_faults now_ns dir = (Inr st, dir')"
proof -
  have "fst (repair_torn no_faults (torn_segment (map fst read)) (fst (manager_open dir)))"
  proof (cases "torn_segment (map fst read)")
    case (Some e)
    have "map_of (wal_files dir) (segmentFileName (se_segment e)) \<noteq> None" using torn_segment_in [OF Some] stored by blast
    then show ?thesis by (intro repair_no_faults) (simp add: opened_segment Some)
  qed (simp add: repair_torn_def)
  moreover have "fail_open no_faults = None" "\<not> fail_dirsync no_faults" "\<not> fail_drops no_faults" by (simp_all add: no_faults_def)
  ultimately show ?thesis using read damage by (simp add: recoverWal_def case_prod_beta Let_def sync_no_faults)
qed

definition written_log :: "SegmentImage list \<Rightarrow> (u64 \<times> u8 list) list" where
  "written_log images = concat (map (\<lambda>im. map (Pair (segment_number (img_header im))) (img_bodies im)) images)"

definition stored_image :: "(u32 \<Rightarrow> u8 list \<Rightarrow> u32) \<Rightarrow> WalDirectory \<Rightarrow> SegmentImage \<Rightarrow> bool" where
  "stored_image crc dir im \<longleftrightarrow> image_ok crc im \<and>
     map_of (wal_files dir) (segmentFileName (segment_number (img_header im))) = Some (image_data crc im @ img_rest im)"

lemma seg_log_image:
  assumes "stored_image crc dir im"
  shows "seg_log crc dir (segment_number (img_header im)) = map (Pair (segment_number (img_header im))) (img_bodies im)"
proof -
  have "map (\<lambda>r. (n, sr_body r)) (frame_records p bs) = map (Pair n) bs" for n p bs
    using map_map [of "Pair n" sr_body "frame_records p bs"] by (simp add: comp_def del: map_map)
  then show ?thesis using assms scan_image(1) [of crc im] by (simp add: seg_log_def stored_image_def)
qed

lemma written_log_read:
  assumes "list_all (stored_image crc dir) images"
  shows "concat (map (seg_log crc dir) (map (segment_number \<circ> img_header) images)) = written_log images"
  using assms by (induction images) (simp_all add: written_log_def seg_log_image)

lemma crash_recovers:
  assumes segs: "snd (manager_open dir) = map (segment_number \<circ> img_header) (older @ im # spares)"
    and stored: "list_all (stored_image crc dir) (older @ im # spares)"
    and clean: "list_all clean_image older" "list_all (\<lambda>i. img_bodies i = [] \<and> clean_image i) spares"
    and torn: "torn_image crc im groups torn k junk"
  shows "\<exists>st dir'. recoverWal crc no_faults now_ns dir = (Inr st, dir')"
proof -
  let ?images = "older @ im # spares"
  have ok: "image_ok crc i" if "i \<in> set ?images" for i using stored that by (auto simp: list_all_iff stored_image_def)
  obtain state where read: "read_segments crc no_faults (fst (manager_open dir)) (snd (manager_open dir))
      (new_RecoveredState (snd (manager_open dir))) = Inr (state, map (\<lambda>im. (image_end crc im, created_ns (img_header im))) ?images)"
    using read_images [of ?images crc "fst (manager_open dir)"] stored unfolding segs
    by (simp add: list_all_iff stored_image_def opened_segment del: map_append) blast
  have ends: "map fst (map (\<lambda>im. (image_end crc im, created_ns (img_header im))) ?images) = map (image_end crc) ?images"
    by simp
  have "find_damage (map (image_end crc) older @ image_end crc im # map (image_end crc) spares) = None"
  proof (rule no_damage)
    show "\<forall>e\<in>set (map (image_end crc) older). \<not> bad_frame e \<and> after_end e = None"
      using clean(1) image_end_data(4,5) ok by (auto simp: list_all_iff)
    show "\<forall>e\<in>set (map (image_end crc) spares). \<not> dataAfterHeader e"
      using clean(2) dataAfterHeader_image ok by (auto simp: list_all_iff)
    show "check_newest (image_end crc im) = None" using torn_image_checked [OF ok torn] by simp
  qed
  moreover have "\<forall>e\<in>set (map (image_end crc) ?images). map_of (wal_files dir) (segmentFileName (se_segment e)) \<noteq> None"
    using stored image_end_data(1) ok by (auto simp: list_all_iff stored_image_def)
  ultimately show ?thesis using recoverWal_no_faults [OF read] unfolding ends by (simp only: map_append list.map(2))
qed

text \<open>
  Claim C14. A crash loses nothing that was synced: when a crash interrupted the write of a group,
  so that of the newest segment with data the earlier groups are whole and of the torn one only the first records
  are, followed by bytes that do not check, then recovery succeeds and returns exactly the events pending
  after every whole record of every segment, the torn group's first ones included.
\<close>

theorem crash_recovery_complete:
  assumes "snd (manager_open dir) = map (segment_number \<circ> img_header) (older @ im # spares)"
    and "list_all (stored_image crc dir) (older @ im # spares)"
    and "list_all clean_image older" "list_all (\<lambda>i. img_bodies i = [] \<and> clean_image i) spares"
    and "torn_image crc im groups torn k junk"
  shows "\<exists>st dir'. recoverWal crc no_faults now_ns dir = (Inr st, dir') \<and>
    (\<forall>sid ev. (case map_of (rec_stories st) sid of None \<Rightarrow> None | Some story \<Rightarrow> map_of (rec_events story) ev) =
      first_event (copies_in (fold drop_step (unlogged_drops dir) (fold rec_step (written_log (older @ im # spares)) [])) sid ev))"
proof -
  let ?L = "fold drop_step (unlogged_drops dir) (fold rec_step (written_log (older @ im # spares)) [])"
  obtain st dir' where run: "recoverWal crc no_faults now_ns dir = (Inr st, dir')" using crash_recovers [OF assms] by blast
  have "holds st ?L" using recovered_holds(1) [OF run] by (simp only: assms(1) written_log_read [OF assms(2)])
  then have "(case map_of (rec_stories st) sid of None \<Rightarrow> None | Some story \<Rightarrow> map_of (rec_events story) ev) =
      first_event (copies_in ?L sid ev)" for sid ev
    using story_holdsD(4) [OF holds_story, of st ?L sid ev]
    by (simp add: storyOf_def new_RecoveredStory_def split: option.splits)
  then show ?thesis using run by blast
qed

section \<open>An example, and what recovery leaves on disk\<close>

definition example_event :: LogEvent where
  "example_event = \<lparr>evStoryId = 7, eventTime = 20, clientId = 1, eventIndex = 0, logRecord = [65]\<rparr>"

definition example_group :: "u8 list list" where
  "example_group = [record_body (GroupRec 79), record_body (EventRec example_event []), record_body (DroppedRec 7)]"

definition example_image :: SegmentImage where
  "example_image =
     \<lparr>img_header = \<lparr>format_version = kFormatVersion, segment_number = 3, created_ns = 5, keeper_endpoint = []\<rparr>,
      img_bodies = take 2 example_group, img_rest = [9]\<rparr>"

definition example_dir :: "(u32 \<Rightarrow> u8 list \<Rightarrow> u32) \<Rightarrow> WalDirectory" where
  "example_dir crc =
     \<lparr>wal_files = [(segmentFileName 3, image_data crc example_image @ img_rest example_image)], unlogged_drops = []\<rparr>"

lemma example_bodies:
  "\<exists>p. encodeLogEvent example_event [] = Inr p"
  "length (record_body (GroupRec n)) = 9" "length (record_body (EventRec example_event [])) = 37"
  "length (record_body (DroppedRec sid)) = 9" "hd (record_body (EventRec e xs)) = type_byte EventR"
  by (simp_all add: encodeLogEvent_def example_event_def Let_def kHeadBytes_def kExtensionCountBytes_def kMaxEncodedEventBytes_def part_bytes_def)

lemma example_good: "good_body (record_body (GroupRec n))" "good_body (record_body (EventRec example_event []))"
  by (simp_all only: good_body_def example_bodies(2,3) length_greater_0_conv [symmetric]) (simp_all add: kMaxBodyBytes_def)

lemma example_decoded:
  "decode_record (record_body (GroupRec n)) = Some (GroupRec n)"
  "decode_record (record_body (EventRec example_event [])) = Some (EventRec example_event [])"
  using example_bodies(1) example_good by (auto intro!: decode_record_body simp del: record_body.simps)

lemma example_size: "length (frames_of crc example_group) = 79"
  using example_bodies by (simp add: example_group_def kFrameHeaderBytes_def del: record_body.simps)

lemma example_torn: "torn_image crc example_image [] example_group 2 [9]"
proof -
  have "is_group crc example_group"
    unfolding is_group_def example_size using example_bodies(5) by (simp add: example_group_def del: record_body.simps) simp
  moreover have "length (frames_of crc (take 2 example_group)) = 62"
    using example_bodies by (simp add: example_group_def kFrameHeaderBytes_def numeral_2_eq_2 del: record_body.simps)
  moreover have "length (frame_of crc (header_body example_image)) = 36"
    by (simp add: header_body_def example_image_def kFrameHeaderBytes_def string_field_def kMagic_def)
  ultimately show ?thesis using example_size [of crc]
    by (simp add: torn_image_def) (simp add: example_image_def example_group_def)
qed

lemma example_stored: "stored_image crc (example_dir crc) example_image"
proof -
  have "loggable (record_body (GroupRec 79))" "loggable (record_body (EventRec example_event []))"
    using example_decoded example_good by (simp_all add: loggable_def kGroupFrameBytes_def kFrameHeaderBytes_def del: record_body.simps)
  then have "list_all loggable (img_bodies example_image)"
    by (simp add: example_image_def example_group_def numeral_2_eq_2 del: record_body.simps)
  moreover have "good_body (header_body example_image)"
    by (simp add: header_body_def example_image_def good_body_def string_field_def kMagic_def kMaxBodyBytes_def)
  moreover have "scan_records (scanSegment crc [9]) = []"
    by (simp add: scanSegment_def) (subst scan_from.simps, simp add: Let_def)
  ultimately show ?thesis by (simp add: stored_image_def image_ok_def) (simp add: example_dir_def example_image_def)
qed

lemma example_opened: "snd (manager_open (example_dir crc)) = [3]"
proof -
  have "parseSegmentFileName (segmentFileName 3) = Some 3" by (simp add: parse_segmentFileName)
  then show ?thesis by (simp add: manager_open_def example_dir_def List.map_filter_def)
qed

lemma example_log: "fold rec_step (written_log [example_image]) [] = [(example_event, 3, 45)]"
  using example_decoded example_bodies(3)
  by (simp add: written_log_def example_image_def example_group_def rec_step_def kFrameHeaderBytes_def numeral_2_eq_2
    del: record_body.simps)

theorem crash_recovery_complete_witness:
  "\<exists>st dir'. recoverWal (crc32c_bytewise sse_u8) no_faults 9 (example_dir (crc32c_bytewise sse_u8)) = (Inr st, dir') \<and>
    (case map_of (rec_stories st) 7 of None \<Rightarrow> None | Some story \<Rightarrow> map_of (rec_events story) (20, 1, 0)) = Some example_event"
proof -
  let ?crc = "crc32c_bytewise sse_u8"
  have segs: "snd (manager_open (example_dir ?crc)) = map (segment_number \<circ> img_header) ([] @ example_image # [])"
    by (simp add: example_opened) (simp add: example_image_def)
  have all: "list_all (stored_image ?crc (example_dir ?crc)) ([] @ example_image # [])" by (simp add: example_stored)
  have drops: "unlogged_drops (example_dir ?crc) = []" by (simp add: example_dir_def)
  obtain st dir' where run: "recoverWal ?crc no_faults 9 (example_dir ?crc) = (Inr st, dir')"
    and held: "\<And>sid ev. (case map_of (rec_stories st) sid of None \<Rightarrow> None | Some story \<Rightarrow> map_of (rec_events story) ev) =
      first_event (copies_in [(example_event, 3, 45)] sid ev)"
    using crash_recovery_complete [OF segs all _ _ example_torn, of 9] by (auto simp: example_log drops)
  have "first_event (copies_in [(example_event, 3, 45)] 7 (20, 1, 0)) = Some example_event"
    by (simp add: copies_in_def first_event_def example_event_def event_sequence_def)
  then show ?thesis using run held [where sid = 7 and ev = "(20, 1, 0)"] by auto
qed

theorem recover_replays_log_witness:
  "\<exists>st dir'. recoverWal (crc32c_bytewise sse_u8) no_faults 9 (example_dir (crc32c_bytewise sse_u8)) = (Inr st, dir') \<and>
    map_of (rec_stories st) 8 = None \<and> map_of (rec_stories st) 7 \<noteq> None"
proof -
  let ?crc = "crc32c_bytewise sse_u8"
  have segs: "snd (manager_open (example_dir ?crc)) = map (segment_number \<circ> img_header) ([] @ example_image # [])"
    by (simp add: example_opened) (simp add: example_image_def)
  have all: "list_all (stored_image ?crc (example_dir ?crc)) ([] @ example_image # [])" by (simp add: example_stored)
  obtain st dir' where run: "recoverWal ?crc no_faults 9 (example_dir ?crc) = (Inr st, dir')"
    using crash_recovers [OF segs all _ _ example_torn, of 9] by auto
  have "[(example_event, 3, 45)] = fold drop_step (unlogged_drops (example_dir ?crc))
      (fold rec_step (concat (map (seg_log ?crc (example_dir ?crc)) (snd (manager_open (example_dir ?crc))))) [])"
    unfolding segs written_log_read [OF all] by (simp add: example_log) (simp add: example_dir_def)
  note replay = recover_replays_log [OF run this]
  have "evStoryId example_event = 7" by (simp add: example_event_def)
  then show ?thesis using run replay [of 8] replay [of 7] by auto
qed

text \<open>What \<^verbatim>\<open>readSegment\<close> says of the end of a segment, it says of the bytes of that segment.\<close>

lemma read_segments_ends:
  assumes "read_segments crc faults dir segments state = Inr (state', read)" "e \<in> set (map fst read)"
  shows "\<exists>bytes. map_of (wal_files dir) (segmentFileName (se_segment e)) = Some bytes \<and> data_end e = end_offset (scanSegment crc bytes)"
  using assms
proof (induction segments arbitrary: state read)
  case (Cons segment segments)
  then obtain s1 e1 c1 read' where run: "readSegment crc faults dir segment state = Inr (s1, e1, c1)"
    "read_segments crc faults dir segments s1 = Inr (state', read')" "read = (e1, c1) # read'"
    by (auto simp: sum_bind_Inr)
  obtain bytes where "map_of (wal_files dir) (segmentFileName segment) = Some bytes"
    "e1 = segment_end segment bytes (scanSegment crc bytes)"
    using readSegment_Inr [OF run(1)] by metis
  then have "map_of (wal_files dir) (segmentFileName (se_segment e1)) = Some bytes \<and> data_end e1 = end_offset (scanSegment crc bytes)"
    by (simp add: segment_end_def Let_def)
  then show ?case using Cons.IH [OF run(2)] Cons.prems(2) run(3) by auto
qed simp

lemma zeroTail_segment:
  assumes "map_of (wal_files dir) name = Some bytes" "pos \<le> length bytes"
  shows "\<exists>bytes'. map_of (wal_files (snd (zeroTail faults name pos dir))) name = Some bytes' \<and>
    length bytes' = length bytes \<and> take pos bytes' = take pos bytes"
    "n \<noteq> name \<Longrightarrow> map_of (wal_files (snd (zeroTail faults name pos dir))) n = map_of (wal_files dir) n"
  using assms by (auto simp: zeroTail_def map_of_write_file split: option.splits)

lemma repair_keeps:
  assumes torn: "\<And>e. torn = Some e \<Longrightarrow> \<exists>bytes. map_of (wal_files dir) (segmentFileName (se_segment e)) = Some bytes \<and>
      data_end e = end_offset (scanSegment crc bytes)"
    and stored: "map_of (wal_files dir) (segmentFileName n) = Some bytes"
  shows "\<exists>bytes'. map_of (wal_files (snd (repair_torn faults torn dir))) (segmentFileName n) = Some bytes' \<and>
    length bytes' = length bytes \<and> take (end_offset (scanSegment crc bytes)) bytes' = take (end_offset (scanSegment crc bytes)) bytes"
proof (cases torn)
  case (Some e)
  let ?name = "segmentFileName (se_segment e)" and ?dir = "saveTornTail faults (segmentFileName (se_segment e)) (data_end e) dir"
  obtain b where b: "map_of (wal_files dir) ?name = Some b" "data_end e = end_offset (scanSegment crc b)" using torn [OF Some] by blast
  have "data_end e \<le> length b" using scan_from_whole [of 0 b crc] b(2) by (simp add: scanSegment_def Let_def)
  note zero = zeroTail_segment [OF saved_tail_segment [OF b(1)] this, where faults = faults]
  show ?thesis
  proof (cases "segmentFileName n = ?name")
    case True
    then have "b = bytes" using b(1) stored by simp
    then show ?thesis using zero(1) True b(2) by (simp add: repair_torn_def Some)
  next
    case False
    then show ?thesis using zero(2) [OF False] saved_tail_segment [OF stored] by (simp add: repair_torn_def Some)
  qed
qed (simp add: repair_torn_def stored)

text \<open>
  Claim C16. Recovery destroys no record: whatever system call fails and however damaged the
  directory is, every segment file is still there afterwards with its length, and every byte up to the end of its
  readable records is unchanged.
\<close>

theorem recovery_keeps_records:
  assumes stored: "map_of (wal_files dir) (segmentFileName n) = Some bytes"
  shows "\<exists>bytes'. map_of (wal_files (snd (recoverWal crc faults now_ns dir))) (segmentFileName n) = Some bytes' \<and>
    length bytes' = length bytes \<and> take (end_offset (scanSegment crc bytes)) bytes' = take (end_offset (scanSegment crc bytes)) bytes"
proof -
  let ?dir1 = "fst (manager_open dir)" and ?run = "read_segments crc faults (fst (manager_open dir)) (snd (manager_open dir)) (new_RecoveredState (snd (manager_open dir)))"
  have s1: "map_of (wal_files ?dir1) (segmentFileName n) = Some bytes" by (simp add: opened_segment stored)
  have same: "wal_files (snd (recoverWal crc faults now_ns dir)) \<in>
    {fs. map_of fs (segmentFileName n) = Some bytes} \<union> (\<lambda>read. wal_files (snd (repair_torn faults (torn_segment (map fst read)) ?dir1))) ` {read. \<exists>s. ?run = Inr (s, read)}"
  proof (cases "fail_open faults")
    case None
    then show ?thesis using s1
      by (cases ?run) (auto simp: recoverWal_def case_prod_beta Let_def prune_drops_def split: option.splits)
  next
    case (Some removed)
    then show ?thesis using stored segment_not_partial
      by (simp add: recoverWal_def map_of_filter_key [of "\<lambda>k. endsWith k partial_suffix \<longrightarrow> \<not> removed k"])
  qed
  moreover have "\<exists>bytes'. map_of (wal_files (snd (repair_torn faults (torn_segment (map fst read)) ?dir1))) (segmentFileName n) = Some bytes' \<and>
    length bytes' = length bytes \<and> take (end_offset (scanSegment crc bytes)) bytes' = take (end_offset (scanSegment crc bytes)) bytes"
    if "?run = Inr (s, read)" for s read
    using repair_keeps [OF read_segments_ends [OF that torn_segment_in] s1] by blast
  ultimately show ?thesis using stored s1 by auto
qed

theorem recovery_keeps_records_witness:
  "map_of (wal_files \<lparr>wal_files = [(segmentFileName 3, [9, 9])], unlogged_drops = []\<rparr>) (segmentFileName 3) = Some [9, 9] \<and>
   (\<exists>bytes'. map_of (wal_files (snd (recoverWal (crc32c_bytewise sse_u8) no_faults 9
      \<lparr>wal_files = [(segmentFileName 3, [9, 9])], unlogged_drops = []\<rparr>))) (segmentFileName 3) = Some bytes' \<and> length bytes' = 2)"
  using recovery_keeps_records [of "\<lparr>wal_files = [(segmentFileName 3, [9, 9])], unlogged_drops = []\<rparr>" 3 "[9, 9]"
    "crc32c_bytewise sse_u8" no_faults 9] by auto

end
