(* ===== verification/WalSegments.thy ===== *)
theory WalSegments
  imports WalRecovery
begin

text \<open>
  The segments of the keeper's write-ahead log
  (\<^verbatim>\<open>src/chrono-keeper/src/WalSegmentManager.cpp\<close>): spares are prepared with their header and zeros
  behind it, handed out in the order of their numbers, grown when a group needs more room, and deleted.

  The directory holds what is on stable storage. A file operation that fails is an argument of the
  call, with what it leaves behind. A wait on the manager's condition variable that is not over is
  \<^const>\<open>None\<close>.
\<close>

section \<open>State\<close>

record Spare =
  sp_segment :: u64
  sp_data_offset :: nat
  sp_size_bytes :: nat

record WalSegmentManager =
  sm_segmentBytes :: nat
  sm_keeperEndpoint :: cpp_string
  opened :: bool
  segmentHandedOut :: bool
  segmentList :: "u64 list"
  nextSegment :: u64
  spare :: "Spare option"
  preparing :: bool
  preparerFailed :: bool
  preparerActive :: bool

definition new_WalSegmentManager :: "nat \<Rightarrow> cpp_string \<Rightarrow> WalSegmentManager" where
  "new_WalSegmentManager segment_bytes endpoint =
     \<lparr>sm_segmentBytes = segment_bytes, sm_keeperEndpoint = endpoint, opened = False, segmentHandedOut = False,
      segmentList = [], nextSegment = 1, spare = None, preparing = False, preparerFailed = False, preparerActive = False\<rparr>"

text \<open>The calls of \<^verbatim>\<open>prepare\<close> in order; the one that fails, whether the clean-up after it succeeds,
  and what the partial file holds if it does not.\<close>

datatype prepare_call = CreateZeroed | OpenForWrite | WriteHeader | SyncHeader | RenamePartial | SyncRename

record PrepareFault =
  pf_call :: prepare_call
  pf_removed :: bool
  pf_partial :: "u8 list"

section \<open>Operations\<close>

definition sm_open :: "WalSegmentManager \<Rightarrow> WalDirectory \<Rightarrow> WalSegmentManager \<times> WalDirectory" where
  "sm_open m dir =
     (if opened m then (m, dir)
      else
        let (dir', found) = manager_open dir
        in (m\<lparr>segmentList := found, nextSegment := (if found = [] then 1 else last found + 1), opened := True\<rparr>, dir'))"

text \<open>The header frame of a segment. The constructor of the log has encoded one with the same endpoint, so
  the encoder does not throw here.\<close>

definition header_frame :: "(u32 \<Rightarrow> u8 list \<Rightarrow> u32) \<Rightarrow> u64 \<Rightarrow> u64 \<Rightarrow> cpp_string \<Rightarrow> u8 list" where
  "header_frame crc segment created endpoint =
     (case encodeHeader crc \<lparr>format_version = kFormatVersion, segment_number = segment, created_ns = created,
                             keeper_endpoint = endpoint\<rparr> of
        Inl _ \<Rightarrow> [] | Inr frame \<Rightarrow> frame)"

definition prepare ::
  "(u32 \<Rightarrow> u8 list \<Rightarrow> u32) \<Rightarrow> PrepareFault option \<Rightarrow> u64 \<Rightarrow> u64 \<Rightarrow> nat \<Rightarrow> WalSegmentManager \<Rightarrow> WalDirectory
    \<Rightarrow> Spare option \<times> WalDirectory" where
  "prepare crc fault now segment bytes m dir =
     (let name = segmentFileName segment;
          header = header_frame crc segment now (sm_keeperEndpoint m);
          size = max bytes (length header);
          contents = header @ replicate (size - length header) 0
      in (case fault of
           None \<Rightarrow>
             (Some \<lparr>sp_segment = segment, sp_data_offset = length header, sp_size_bytes = size\<rparr>, write_file name contents dir)
         | Some f \<Rightarrow>
             (None,
              if pf_removed f then dir
              else if pf_call f = SyncRename then write_file name contents dir
              else write_file (name @ partial_suffix) (pf_partial f) dir)))"

text \<open>One round of \<^verbatim>\<open>preparerLoop\<close>, when its wait is over: the number is taken, the file made, and
  the spare published.\<close>

definition preparer_begin :: "WalSegmentManager \<Rightarrow> (WalSegmentManager \<times> u64) option" where
  "preparer_begin m =
     (if preparerActive m \<and> spare m = None \<and> \<not> preparing m \<and> \<not> preparerFailed m
      then Some (m\<lparr>preparing := True, nextSegment := nextSegment m + 1\<rparr>, nextSegment m) else None)"

definition preparer_end :: "Spare option \<Rightarrow> WalSegmentManager \<Rightarrow> WalSegmentManager" where
  "preparer_end made m =
     (case made of
        None \<Rightarrow> m\<lparr>preparing := False, preparerFailed := True\<rparr>
      | Some s \<Rightarrow> m\<lparr>preparing := False, spare := Some s\<rparr>)"

text \<open>The round as a whole. Between its two holds only the flag \<open>preparing\<close> tells that it is under way, and
  no one else takes a number or a spare meanwhile.\<close>

definition preparer_round ::
  "(u32 \<Rightarrow> u8 list \<Rightarrow> u32) \<Rightarrow> PrepareFault option \<Rightarrow> u64 \<Rightarrow> WalSegmentManager \<Rightarrow> WalDirectory
    \<Rightarrow> (WalSegmentManager \<times> WalDirectory) option" where
  "preparer_round crc fault now m dir =
     (case preparer_begin m of
        None \<Rightarrow> None
      | Some (m1, segment) \<Rightarrow>
          (case prepare crc fault now segment (sm_segmentBytes m) m1 dir of
             (made, dir') \<Rightarrow> Some (preparer_end made m1, dir')))"

text \<open>\<^verbatim>\<open>extend\<close>: zeros from the size of the spare on, then a data sync. The fault is the number of zeros a
  failed attempt leaves.\<close>

definition put_zeros :: "u8 list \<Rightarrow> nat \<Rightarrow> nat \<Rightarrow> WalDirectory \<Rightarrow> WalDirectory" where
  "put_zeros name pos k dir =
     (case map_of (wal_files dir) name of
        None \<Rightarrow> dir
      | Some bytes \<Rightarrow> write_file name (take pos bytes @ replicate k 0 @ drop (pos + k) bytes) dir)"

definition extend_spare :: "nat option \<Rightarrow> Spare \<Rightarrow> nat \<Rightarrow> WalDirectory \<Rightarrow> Spare option \<times> WalDirectory" where
  "extend_spare fault target bytes dir =
     (let name = segmentFileName (sp_segment target); old = sp_size_bytes target in
      (case fault of
         Some k \<Rightarrow> (None, put_zeros name old (min k (bytes - old)) dir)
       | None \<Rightarrow> (Some (target\<lparr>sp_size_bytes := bytes\<rparr>), put_zeros name old (bytes - old) dir)))"

text \<open>\<^verbatim>\<open>takeSpare\<close>: the spare, or \<^const>\<open>None\<close> when the wait is not over. The result is the
  left summand when a file operation failed.\<close>

record TakeFault =
  tf_prepare :: "PrepareFault option"
  tf_extend :: "nat option"
  tf_now :: u64

definition spare_ready :: "WalSegmentManager \<Rightarrow> bool" where
  "spare_ready m \<longleftrightarrow> spare m \<noteq> None \<or> \<not> preparing m \<and> (\<not> preparerActive m \<or> preparerFailed m)"

text \<open>The part after the wait that makes sure there is a spare, preparing one on this thread if need be.\<close>

definition spare_or_prepare ::
  "(u32 \<Rightarrow> u8 list \<Rightarrow> u32) \<Rightarrow> TakeFault \<Rightarrow> nat \<Rightarrow> WalSegmentManager \<Rightarrow> WalDirectory
    \<Rightarrow> Spare option \<times> WalSegmentManager \<times> WalDirectory" where
  "spare_or_prepare crc f min_bytes m dir =
     (case spare m of
        Some s \<Rightarrow> (Some s, m, dir)
      | None \<Rightarrow>
          let number = nextSegment m;
              (made, dir') = prepare crc (tf_prepare f) (tf_now f) number (max (sm_segmentBytes m) min_bytes) m dir;
              m' = m\<lparr>nextSegment := number + 1\<rparr>
          in (case made of
                None \<Rightarrow> (None, m'\<lparr>preparerFailed := True\<rparr>, dir')
              | Some s \<Rightarrow> (Some s, m'\<lparr>spare := Some s\<rparr>, dir')))"

definition takeSpare ::
  "(u32 \<Rightarrow> u8 list \<Rightarrow> u32) \<Rightarrow> TakeFault \<Rightarrow> nat \<Rightarrow> WalSegmentManager \<Rightarrow> WalDirectory
    \<Rightarrow> (Spare option \<times> WalSegmentManager \<times> WalDirectory) option" where
  "takeSpare crc f min_bytes m dir =
     (if \<not> opened m then Some (None, m, dir)
      else if \<not> spare_ready m then None
      else Some
        (case spare_or_prepare crc f min_bytes m dir of
           (None, m1, dir1) \<Rightarrow> (None, m1, dir1)
         | (Some s, m1, dir1) \<Rightarrow>
             let (grown, dir2) =
               (if sp_size_bytes s < min_bytes then extend_spare (tf_extend f) s min_bytes dir1 else (Some s, dir1))
             in (case grown of
                  None \<Rightarrow> (None, m1, dir2)
                | Some t \<Rightarrow>
                    (Some t,
                     m1\<lparr>spare := None, preparerFailed := False, segmentList := segmentList m1 @ [sp_segment t],
                        segmentHandedOut := True\<rparr>,
                     dir2))))"

text \<open>\<^verbatim>\<open>adoptExisting\<close>: the newest segment, when it holds only its header.\<close>

definition allZeroFrom :: "u8 list \<Rightarrow> nat \<Rightarrow> bool" where
  "allZeroFrom bytes pos \<longleftrightarrow> list_all (\<lambda>b. b = 0) (drop pos bytes)"

definition header_only :: "(u32 \<Rightarrow> u8 list \<Rightarrow> u32) \<Rightarrow> u64 \<Rightarrow> u8 list \<Rightarrow> bool" where
  "header_only crc segment bytes \<longleftrightarrow>
     (let scan = scanSegment crc bytes in
      length (scan_records scan) = 1 \<and> scan_end scan = EndOfData \<and> sr_type (hd (scan_records scan)) = type_byte Header \<and>
      (case snd (decodeHeader (sr_body (hd (scan_records scan)))) of None \<Rightarrow> False | Some h \<Rightarrow> segment_number h = segment) \<and>
      allZeroFrom bytes (end_offset scan))"

definition adoptExisting ::
  "(u32 \<Rightarrow> u8 list \<Rightarrow> u32) \<Rightarrow> bool \<Rightarrow> u64 \<Rightarrow> WalSegmentManager \<Rightarrow> WalDirectory \<Rightarrow> Spare option \<times> WalSegmentManager" where
  "adoptExisting crc fault segment m dir =
     (if \<not> opened m \<or> segmentHandedOut m \<or> segmentList m = [] \<or> last (segmentList m) \<noteq> segment then (None, m)
      else
        (case map_of (wal_files dir) (segmentFileName segment) of
           None \<Rightarrow> (None, m)
         | Some bytes \<Rightarrow>
             if fault \<or> \<not> header_only crc segment bytes then (None, m)
             else
               (Some \<lparr>sp_segment = segment, sp_data_offset = end_offset (scanSegment crc bytes), sp_size_bytes = length bytes\<rparr>,
                m\<lparr>segmentHandedOut := True\<rparr>)))"

text \<open>\<^verbatim>\<open>deleteSegment\<close>: the fault is a failed removal, or a failed directory sync after it.\<close>

datatype delete_fault = RemoveFails | DirectorySyncFails

definition remove_file :: "u8 list \<Rightarrow> WalDirectory \<Rightarrow> WalDirectory" where
  "remove_file name dir = dir\<lparr>wal_files := filter (\<lambda>f. fst f \<noteq> name) (wal_files dir)\<rparr>"

definition deleteSegment ::
  "delete_fault option \<Rightarrow> u64 \<Rightarrow> WalSegmentManager \<Rightarrow> WalDirectory \<Rightarrow> bool \<times> WalSegmentManager \<times> WalDirectory" where
  "deleteSegment fault segment m dir =
     (if segment \<notin> set (segmentList m) \<or> fault = Some RemoveFails then (False, m, dir)
      else (fault = None, m\<lparr>segmentList := remove1 segment (segmentList m)\<rparr>, remove_file (segmentFileName segment) dir))"

definition startPreparer :: "bool \<Rightarrow> WalSegmentManager \<Rightarrow> WalSegmentManager" where
  "startPreparer created m = (if opened m \<and> created then m\<lparr>preparerActive := True\<rparr> else m)"

definition stopPreparer :: "WalSegmentManager \<Rightarrow> WalSegmentManager" where
  "stopPreparer m = m\<lparr>preparerActive := False\<rparr>"

end
