(* ===== verification/KeeperWal.thy ===== *)
theory KeeperWal
  imports WalSegments
begin

text \<open>
  The keeper's write-ahead log for durable writes
  (\<^verbatim>\<open>src/chrono-keeper/src/KeeperWal.cpp\<close>): requests queue their records, the committer writes the
  queued records as one group, syncs it and then answers its requests; the first write or sync error latches
  the log failed.

  Each definition is the body of one hold of the log's mutex or one step of the committer between two
  of them; \<open>committer\<close> is the point the committer has reached. The directory holds what is on stable storage,
  and \<open>unsynced\<close> the frames handed to a write that is neither synced nor erased. A completion is a
  number, and \<open>results\<close> holds the values set. Points in time are left out: whether a wait has timed out or an
  interval has passed is an argument.
\<close>

section \<open>State\<close>

datatype WalAdmit = AdmitOk | AdmitUnavailable | AdmitFull

datatype wal_phase = Created | Running | Stopping | Stopped

type_synonym Identity = "StoryId \<times> EventSequence"

record Queued =
  q_dropped :: bool
  q_story_id :: StoryId
  q_identity :: EventSequence
  q_event :: EventFrame
  q_names_frame :: "u8 list"
  q_dropped_frame :: "u8 list"
  q_completion :: "nat option"

definition event_frame_size :: "EventFrame \<Rightarrow> nat" where
  "event_frame_size f = length (frame_header f) + length (frame_head f) + length (frame_record f) + length (frame_tail f)"

definition q_bytes :: "Queued \<Rightarrow> nat" where
  "q_bytes q = (if q_dropped q then length (q_dropped_frame q) else event_frame_size (q_event q))"

record WalStats =
  stat_groups :: u64
  stat_events :: u64
  stat_bytes :: u64
  stat_max_events_per_group :: u64
  stat_pending_events :: u64
  stat_pending_bytes :: u64
  stat_segments :: u64
  stat_queued_events :: u64

definition no_stats :: WalStats where
  "no_stats = \<lparr>stat_groups = 0, stat_events = 0, stat_bytes = 0, stat_max_events_per_group = 0, stat_pending_events = 0,
    stat_pending_bytes = 0, stat_segments = 0, stat_queued_events = 0\<rparr>"

text \<open>
  Where the committer is: waiting for work; with a group taken off the queue, which a latched log only fails;
  with the group written and its sync to come; recording the destroys of a failed group, with the stories
  whose copies are still to be dropped and the bytes to erase; registering a group entry by entry; dropping the copies of a story
  whose drop record it has reached; and with a group answered and released segments to delete.
\<close>

datatype committer =
  Waiting
| Taken "Queued list" bool
| Written "Queued list" nat "StoryId list"
| Recording "Queued list" "StoryId list" nat
| Finishing "Queued list" "Queued list" cl_status u64 nat nat
| DroppingCopies StoryId "Queued list" "Queued list" cl_status u64 nat nat
| Answered

record KeeperWal =
  segmentBytes :: nat
  groupCommitMaxBytes :: nat
  reserveMinBytes :: u64
  reservePercent :: u32
  headerBytes :: nat
  kw_running :: bool
  kw_failed :: bool
  belowReserve :: bool
  kw_state :: wal_phase
  kw_queue :: "Queued list"
  queuedBytes :: nat
  inFlight :: "(Identity, nat) omap"
  tracker :: WalReleaseTracker
  addOrder :: "StoryId \<rightharpoonup> EventSequence list"
  counters :: WalStats
  completions :: nat
  results :: "nat \<rightharpoonup> cl_status"
  committer :: committer
  activeSegment :: u64
  activeSize :: nat
  activeDataStart :: nat
  writeOffset :: nat
  namedInActive :: "StoryId list"
  dropsBySegment :: "(u64, StoryId list) omap"
  directorySyncOwed :: bool
  segmentFiles :: WalSegmentManager
  disk :: WalDirectory
  unsynced :: "u8 list list"

definition kLockBatch :: nat where "kLockBatch = 1024"
definition kPruneOnAdd :: nat where "kPruneOnAdd = 2"

text \<open>The constructor; encoding a header for the size of one throws when the endpoint is too long.\<close>

definition new_KeeperWal ::
  "(u32 \<Rightarrow> u8 list \<Rightarrow> u32) \<Rightarrow> nat \<Rightarrow> nat \<Rightarrow> u64 \<Rightarrow> u32 \<Rightarrow> cpp_string \<Rightarrow> WalDirectory \<Rightarrow> length_error + KeeperWal" where
  "new_KeeperWal crc segment_bytes group_commit_max_bytes reserve_min reserve_percent endpoint dir =
     sum_bind (encodeHeader crc \<lparr>format_version = kFormatVersion, segment_number = 0, created_ns = 0, keeper_endpoint = endpoint\<rparr>)
       (\<lambda>header. Inr
         \<lparr>segmentBytes = segment_bytes, groupCommitMaxBytes = group_commit_max_bytes, reserveMinBytes = reserve_min,
          reservePercent = reserve_percent, headerBytes = length header, kw_running = False, kw_failed = False,
          belowReserve = False, kw_state = Created, kw_queue = [], queuedBytes = 0, inFlight = [], tracker = new_tracker,
          addOrder = Map.empty, counters = no_stats, completions = 0, results = Map.empty, committer = Waiting,
          activeSegment = 0, activeSize = 0, activeDataStart = 0, writeOffset = 0, namedInActive = [], dropsBySegment = [],
          directorySyncOwed = False, segmentFiles = new_WalSegmentManager segment_bytes endpoint, disk = dir, unsynced = []\<rparr>)"

section \<open>Requests\<close>

definition admit :: "KeeperWal \<Rightarrow> WalAdmit" where
  "admit s = (if \<not> kw_running s \<or> kw_failed s then AdmitUnavailable else if belowReserve s then AdmitFull else AdmitOk)"

definition isDurable :: "StoryId \<Rightarrow> EventSequence \<Rightarrow> KeeperWal \<Rightarrow> bool" where
  "isDurable sid ev s = isPending sid ev (tracker s)"

text \<open>What a lookup finds: an attempt to wait for, an answer, or nothing.\<close>

datatype lookup = Join nat | Answer cl_status | Unknown

definition findIdentity :: "Identity \<Rightarrow> KeeperWal \<Rightarrow> lookup" where
  "findIdentity identity s =
     (case map_of (inFlight s) identity of
        Some c \<Rightarrow> Join c
      | None \<Rightarrow> if isPending (fst identity) (snd identity) (tracker s) then Answer CL_SUCCESS else Unknown)"

definition lookupDurable :: "StoryId \<Rightarrow> EventSequence \<Rightarrow> KeeperWal \<Rightarrow> lookup" where
  "lookupDurable sid ev s = findIdentity (sid, ev) s"

definition settled :: "Identity \<Rightarrow> KeeperWal \<Rightarrow> lookup" where
  "settled identity s =
     (case findIdentity identity s of
        Unknown \<Rightarrow> if kw_state s \<noteq> Running \<or> kw_failed s then Answer CL_ERR_DURABILITY_UNAVAILABLE else Unknown
      | found \<Rightarrow> found)"

text \<open>
  \<^verbatim>\<open>appendDurable\<close>: the second hold of the mutex, after the record was encoded, and the whole
  call when nothing else runs in between. \<open>wrote\<close> tells that this call queued the record.
\<close>

definition push_entry :: "Queued \<Rightarrow> KeeperWal \<Rightarrow> KeeperWal" where
  "push_entry q s = s\<lparr>queuedBytes := queuedBytes s + q_bytes q, kw_queue := kw_queue s @ [q]\<rparr>"

definition appendDurable_queue :: "Identity \<Rightarrow> EventFrame \<Rightarrow> u8 list \<Rightarrow> KeeperWal \<Rightarrow> (lookup \<times> bool) \<times> KeeperWal" where
  "appendDurable_queue identity frame names s =
     (case settled identity s of
        Unknown \<Rightarrow>
          let c = completions s;
              entry = \<lparr>q_dropped = False, q_story_id = fst identity, q_identity = snd identity, q_event = frame,
                       q_names_frame = names, q_dropped_frame = [], q_completion = Some c\<rparr>
          in ((Join c, True),
              push_entry entry (s\<lparr>completions := c + 1, inFlight := omap_emplace identity c (inFlight s)\<rparr>))
      | found \<Rightarrow> ((found, False), s))"

definition encode_entry ::
  "(u32 \<Rightarrow> u8 list \<Rightarrow> u32) \<Rightarrow> cpp_string \<Rightarrow> cpp_string \<Rightarrow> LogEvent \<Rightarrow> length_error + (EventFrame \<times> u8 list)" where
  "encode_entry crc chronicle story event =
     sum_bind (encodeEvent crc event []) (\<lambda>frame.
       sum_bind (encodeNames crc \<lparr>names_story_id = evStoryId event, names_chronicle = chronicle, names_story = story\<rparr>)
         (\<lambda>names. Inr (frame, names)))"

definition appendDurable ::
  "(u32 \<Rightarrow> u8 list \<Rightarrow> u32) \<Rightarrow> cpp_string \<Rightarrow> cpp_string \<Rightarrow> LogEvent \<Rightarrow> KeeperWal \<Rightarrow> (lookup \<times> bool) \<times> KeeperWal" where
  "appendDurable crc chronicle story event s =
     (let identity = (evStoryId event, event_sequence event) in
      (case settled identity s of
        Unknown \<Rightarrow>
          (case encode_entry crc chronicle story event of
             Inl _ \<Rightarrow> ((Answer CL_ERR_INVALID_ARG, False), s)
           | Inr (frame, names) \<Rightarrow> appendDurable_queue identity frame names s)
      | found \<Rightarrow> ((found, False), s)))"

definition stats :: "KeeperWal \<Rightarrow> WalStats" where
  "stats s = counters s\<lparr>stat_pending_events := pendingEvents (tracker s), stat_pending_bytes := pendingBytes (tracker s),
     stat_queued_events := of_nat (length (inFlight s))\<rparr>"

section \<open>Releases\<close>

text \<open>Released identities are pruned from the front of a story's add order, at most \<open>n\<close> of them.\<close>

fun prune_front :: "nat \<Rightarrow> StoryId \<Rightarrow> WalReleaseTracker \<Rightarrow> EventSequence list \<Rightarrow> EventSequence list" where
  "prune_front 0 sid t events = events"
| "prune_front (Suc n) sid t [] = []"
| "prune_front (Suc n) sid t (e # events) = (if isPending sid e t then e # events else prune_front n sid t events)"

definition noteAdded :: "StoryId \<Rightarrow> EventSequence \<Rightarrow> KeeperWal \<Rightarrow> KeeperWal" where
  "noteAdded sid ev s =
     (let order = (case addOrder s sid of None \<Rightarrow> [] | Some events \<Rightarrow> events)
      in s\<lparr>addOrder := (addOrder s)(sid \<mapsto> prune_front kPruneOnAdd sid (tracker s) (order @ [ev]))\<rparr>)"

definition pruneAddOrder :: "StoryId \<Rightarrow> nat \<Rightarrow> KeeperWal \<Rightarrow> KeeperWal" where
  "pruneAddOrder sid budget s =
     (case addOrder s sid of
        None \<Rightarrow> s
      | Some events \<Rightarrow>
          if pendingEvents_of sid (tracker s) = 0 then s\<lparr>addOrder := (addOrder s)(sid := None)\<rparr>
          else s\<lparr>addOrder := (addOrder s)(sid \<mapsto> prune_front budget sid (tracker s) events)\<rparr>)"

definition eventDiscarded :: "StoryId \<Rightarrow> EventSequence \<Rightarrow> KeeperWal \<Rightarrow> KeeperWal" where
  "eventDiscarded sid ev s = pruneAddOrder sid kLockBatch (s\<lparr>tracker := releaseEvent sid ev (tracker s)\<rparr>)"

text \<open>
  \<^verbatim>\<open>releaseChunkEvents\<close>: its first hold, which tells whether it is done, one hold of its loop over the
  events left, and the whole call.
\<close>

definition release_small :: "StoryId \<Rightarrow> StoryChunk \<Rightarrow> KeeperWal \<Rightarrow> bool \<times> KeeperWal" where
  "release_small sid chunk s =
     (let pending = pendingEvents_of sid (tracker s) in
      if chunk_empty chunk \<or> pending = 0 then (True, s)
      else if min pending (getEventCount chunk) \<le> kLockBatch
      then (True, pruneAddOrder sid kLockBatch (s\<lparr>tracker := releaseChunk sid chunk (tracker s)\<rparr>))
      else (False, s))"

definition release_hold :: "StoryId \<Rightarrow> EventSequence list \<Rightarrow> KeeperWal \<Rightarrow> EventSequence list \<times> KeeperWal" where
  "release_hold sid events s =
     (if pendingEvents_of sid (tracker s) = 0 then ([], pruneAddOrder sid 0 s)
      else
        (drop kLockBatch events,
         pruneAddOrder sid kLockBatch (s\<lparr>tracker := fold (releaseEvent sid) (take kLockBatch events) (tracker s)\<rparr>)))"

function release_loop :: "StoryId \<Rightarrow> EventSequence list \<Rightarrow> KeeperWal \<Rightarrow> KeeperWal" where
  "release_loop sid events s =
     (case release_hold sid events s of (rest, s') \<Rightarrow> if rest = [] then s' else release_loop sid rest s')"
  by pat_completeness auto
termination
  by (relation "measure (\<lambda>(sid, events, s). length events)")
    (auto simp: release_hold_def kLockBatch_def split: if_splits)

declare release_loop.simps [simp del]

definition releaseChunkEvents :: "StoryId \<Rightarrow> StoryChunk \<Rightarrow> KeeperWal \<Rightarrow> KeeperWal" where
  "releaseChunkEvents sid chunk s =
     (case release_small sid chunk s of
        (True, s') \<Rightarrow> s'
      | (False, s') \<Rightarrow> release_loop sid (map fst (logEvents chunk)) s')"

text \<open>\<^verbatim>\<open>storyDropped\<close>; an encoded drop record never exceeds the size of a body.\<close>

definition dropped_frame :: "(u32 \<Rightarrow> u8 list \<Rightarrow> u32) \<Rightarrow> StoryId \<Rightarrow> u8 list" where
  "dropped_frame crc sid = (case encodeDropped crc sid of Inl _ \<Rightarrow> [] | Inr frame \<Rightarrow> frame)"

definition storyDropped :: "(u32 \<Rightarrow> u8 list \<Rightarrow> u32) \<Rightarrow> StoryId \<Rightarrow> KeeperWal \<Rightarrow> KeeperWal" where
  "storyDropped crc sid s =
     (if kw_state s \<noteq> Running then s
      else push_entry
        \<lparr>q_dropped = True, q_story_id = sid, q_identity = (0, 0, 0),
         q_event = \<lparr>frame_header = [], frame_head = [], frame_record = [], frame_tail = []\<rparr>, q_names_frame = [],
         q_dropped_frame = dropped_frame crc sid, q_completion = None\<rparr> s)"

text \<open>One hold of \<^verbatim>\<open>dropStoryCopies\<close>; the first result tells that it was the last.\<close>

definition drop_hold :: "StoryId \<Rightarrow> KeeperWal \<Rightarrow> bool \<times> KeeperWal" where
  "drop_hold sid s =
     (case addOrder s sid of
        None \<Rightarrow> (True, s\<lparr>tracker := wal_dropStory sid (tracker s)\<rparr>)
      | Some [] \<Rightarrow> (True, s\<lparr>addOrder := (addOrder s)(sid := None), tracker := wal_dropStory sid (tracker s)\<rparr>)
      | Some events \<Rightarrow>
          (False,
           s\<lparr>tracker := fold (releaseEvent sid) (take kLockBatch events) (tracker s),
             addOrder := (addOrder s)(sid \<mapsto> drop kLockBatch events)\<rparr>))"

section \<open>Group commit\<close>

text \<open>Everything queued up to the group size; a larger record goes alone.\<close>

fun take_loop :: "nat \<Rightarrow> Queued list \<Rightarrow> nat \<Rightarrow> Queued list \<Rightarrow> Queued list \<times> nat \<times> Queued list" where
  "take_loop max_bytes grp bytes [] = (grp, bytes, [])"
| "take_loop max_bytes grp bytes (q # queue) =
     (if grp = [] \<or> bytes + q_bytes q \<le> max_bytes then take_loop max_bytes (grp @ [q]) (bytes + q_bytes q) queue
      else (grp, bytes, q # queue))"

text \<open>A round of \<^verbatim>\<open>committerLoop\<close> up to the end of its hold; a failed log is latched.\<close>

definition take_group :: "KeeperWal \<Rightarrow> KeeperWal option" where
  "take_group s =
     (if committer s = Waiting \<and> kw_queue s \<noteq> []
      then
        (case take_loop (groupCommitMaxBytes s) [] 0 (kw_queue s) of
           (grp, bytes, rest) \<Rightarrow>
             Some (s\<lparr>kw_queue := rest, queuedBytes := queuedBytes s - bytes, committer := Taken grp (kw_failed s)\<rparr>))
      else None)"

text \<open>The frames of a group after its first one: a story's names go before its first event in the segment.\<close>

fun group_frames :: "StoryId list \<Rightarrow> StoryId list \<Rightarrow> Queued list \<Rightarrow> u8 list list \<times> StoryId list" where
  "group_frames named named_here [] = ([], named_here)"
| "group_frames named named_here (q # grp) =
     (if q_dropped q
      then (case group_frames named named_here grp of (frames, names) \<Rightarrow> (q_dropped_frame q # frames, names))
      else if q_story_id q \<notin> set named \<and> q_story_id q \<notin> set named_here
      then
        (case group_frames named (q_story_id q # named_here) grp of
           (frames, names) \<Rightarrow> (q_names_frame q # event_frame_bytes (q_event q) # frames, names))
      else (case group_frames named named_here grp of (frames, names) \<Rightarrow> (event_frame_bytes (q_event q) # frames, names)))"

fun group_bytes :: "StoryId list \<Rightarrow> StoryId list \<Rightarrow> Queued list \<Rightarrow> nat" where
  "group_bytes named named_here [] = 0"
| "group_bytes named named_here (q # grp) =
     (if \<not> q_dropped q \<and> q_story_id q \<notin> set named \<and> q_story_id q \<notin> set named_here
      then q_bytes q + length (q_names_frame q) + group_bytes named (q_story_id q # named_here) grp
      else q_bytes q + group_bytes named named_here grp)"

definition groupBytes :: "Queued list \<Rightarrow> StoryId list \<Rightarrow> nat" where
  "groupBytes grp named = kGroupFrameBytes + group_bytes named [] grp"

definition group_frame :: "(u32 \<Rightarrow> u8 list \<Rightarrow> u32) \<Rightarrow> nat \<Rightarrow> u8 list" where
  "group_frame crc bytes = (case encodeGroup crc (of_nat bytes) of Inl _ \<Rightarrow> [] | Inr frame \<Rightarrow> frame)"

text \<open>\<^verbatim>\<open>switchToSpare\<close> and \<^verbatim>\<open>rotate\<close>: the first result tells whether it succeeded.\<close>

definition switchToSpare :: "(u32 \<Rightarrow> u8 list \<Rightarrow> u32) \<Rightarrow> TakeFault \<Rightarrow> nat \<Rightarrow> KeeperWal \<Rightarrow> (bool \<times> KeeperWal) option" where
  "switchToSpare crc f min_bytes s =
     (case takeSpare crc f min_bytes (segmentFiles s) (disk s) of
        None \<Rightarrow> None
      | Some (None, m, dir) \<Rightarrow> Some (False, s\<lparr>segmentFiles := m, disk := dir\<rparr>)
      | Some (Some t, m, dir) \<Rightarrow>
          Some (True,
            s\<lparr>segmentFiles := m, disk := dir, activeSegment := sp_segment t, activeSize := sp_size_bytes t,
              activeDataStart := sp_data_offset t, writeOffset := sp_data_offset t, namedInActive := [],
              counters := counters s\<lparr>stat_segments := of_nat (length (segmentList m))\<rparr>\<rparr>))"

definition rotate ::
  "(u32 \<Rightarrow> u8 list \<Rightarrow> u32) \<Rightarrow> bool \<Rightarrow> TakeFault \<Rightarrow> nat \<Rightarrow> KeeperWal \<Rightarrow> (bool \<times> KeeperWal) option" where
  "rotate crc sync_fails f min_bytes s = (if sync_fails then Some (False, s) else switchToSpare crc f min_bytes s)"

text \<open>
  Rewriting the file of unlogged drops: a failed attempt leaves the old list, or the new one when only the
  last directory sync failed.
\<close>

datatype drops_fault = DropsUnchanged | DropsReplaced

definition put_drops :: "drops_fault option \<Rightarrow> UnloggedDrop list \<Rightarrow> WalDirectory \<Rightarrow> WalDirectory" where
  "put_drops fault drops dir = (if fault = Some DropsUnchanged then dir else dir\<lparr>unlogged_drops := drops\<rparr>)"

definition dropped_stories :: "Queued list \<Rightarrow> StoryId list" where
  "dropped_stories grp = map q_story_id (filter q_dropped grp)"

text \<open>\<^verbatim>\<open>recordUnloggedDrops\<close> up to the dropping of the copies, which \<open>Recording\<close> stands for.\<close>

definition recordUnloggedDrops :: "drops_fault option \<Rightarrow> Queued list \<Rightarrow> KeeperWal \<Rightarrow> KeeperWal" where
  "recordUnloggedDrops fault grp s =
     (let stories = dropped_stories grp in
      if stories = [] then s
      else s\<lparr>disk := put_drops fault
               (unlogged_drops (disk s) @ map (\<lambda>sid. \<lparr>drop_story_id = sid, drop_last_segment = activeSegment s\<rparr>) stories) (disk s)\<rparr>)"

definition failGroup :: "drops_fault option \<Rightarrow> Queued list \<Rightarrow> nat \<Rightarrow> KeeperWal \<Rightarrow> KeeperWal" where
  "failGroup fault grp written s =
     recordUnloggedDrops fault grp (s\<lparr>kw_failed := True, committer := Recording grp (dropped_stories grp) written\<rparr>)"

record CommitFaults =
  cf_rotate_sync :: bool
  cf_take :: TakeFault
  cf_write :: bool
  cf_sync :: bool
  cf_erase :: bool
  cf_drops :: "drops_fault option"

text \<open>\<^verbatim>\<open>commitGroup\<close> up to its write, and its sync.\<close>

definition write_group :: "(u32 \<Rightarrow> u8 list \<Rightarrow> u32) \<Rightarrow> CommitFaults \<Rightarrow> Queued list \<Rightarrow> KeeperWal \<Rightarrow> KeeperWal" where
  "write_group crc f grp s =
     (let bytes = groupBytes grp (namedInActive s);
          (frames, named_here) = group_frames (namedInActive s) [] grp;
          s' = s\<lparr>unsynced := group_frame crc bytes # frames\<rparr>
      in if cf_write f then failGroup (cf_drops f) grp bytes s'
         else s'\<lparr>committer := Written grp bytes named_here\<rparr>)"

definition commitGroup :: "(u32 \<Rightarrow> u8 list \<Rightarrow> u32) \<Rightarrow> CommitFaults \<Rightarrow> Queued list \<Rightarrow> KeeperWal \<Rightarrow> KeeperWal option" where
  "commitGroup crc f grp s =
     (if activeSize s < writeOffset s + groupBytes grp (namedInActive s)
      then
        (case rotate crc (cf_rotate_sync f) (cf_take f) (max (segmentBytes s) (headerBytes s + groupBytes grp [])) s of
           None \<Rightarrow> None
         | Some (False, s') \<Rightarrow> Some (failGroup (cf_drops f) grp 0 s')
         | Some (True, s') \<Rightarrow> Some (write_group crc f grp s'))
      else Some (write_group crc f grp s))"

text \<open>The bytes of a file overwritten from an offset on.\<close>

definition overwrite :: "nat \<Rightarrow> u8 list \<Rightarrow> u8 list \<Rightarrow> u8 list" where
  "overwrite pos new bytes = take pos bytes @ new @ drop (pos + length new) bytes"

definition write_at :: "u8 list \<Rightarrow> nat \<Rightarrow> u8 list \<Rightarrow> WalDirectory \<Rightarrow> WalDirectory" where
  "write_at name pos new dir =
     (case map_of (wal_files dir) name of None \<Rightarrow> dir | Some bytes \<Rightarrow> write_file name (overwrite pos new bytes) dir)"

definition sync_group :: "CommitFaults \<Rightarrow> Queued list \<Rightarrow> nat \<Rightarrow> StoryId list \<Rightarrow> KeeperWal \<Rightarrow> KeeperWal" where
  "sync_group f grp bytes named_here s =
     (if cf_sync f then failGroup (cf_drops f) grp bytes s
      else s\<lparr>disk := write_at (segmentFileName (activeSegment s)) (writeOffset s) (concat (unsynced s)) (disk s),
             unsynced := [], writeOffset := writeOffset s + bytes, namedInActive := named_here @ namedInActive s,
             committer := Finishing grp grp CL_SUCCESS (activeSegment s) bytes 0\<rparr>)"

text \<open>The rest of \<^verbatim>\<open>failGroup\<close>, once the copies of the group's destroyed stories are gone: the erase and
  the status.\<close>

definition erase_group :: "CommitFaults \<Rightarrow> Queued list \<Rightarrow> nat \<Rightarrow> KeeperWal \<Rightarrow> KeeperWal" where
  "erase_group f grp written s =
     (if written = 0 then s\<lparr>committer := Finishing grp grp CL_ERR_DURABILITY_UNAVAILABLE 0 0 0\<rparr>
      else if cf_erase f then s\<lparr>committer := Finishing grp grp CL_ERR_DURABILITY_UNKNOWN 0 0 0\<rparr>
      else s\<lparr>disk := write_at (segmentFileName (activeSegment s)) (writeOffset s) (replicate written 0) (disk s),
             unsynced := [], committer := Finishing grp grp CL_ERR_DURABILITY_UNAVAILABLE 0 0 0\<rparr>)"

section \<open>Answering a group\<close>

text \<open>One entry of \<^verbatim>\<open>finishGroup\<close>'s loop that is no drop record.\<close>

definition finish_entry :: "cl_status \<Rightarrow> u64 \<Rightarrow> Queued \<Rightarrow> KeeperWal \<Rightarrow> KeeperWal" where
  "finish_entry status segment q s =
     (let identity = (q_story_id q, q_identity q);
          s1 = (if status = CL_SUCCESS
                then noteAdded (q_story_id q) (q_identity q)
                  (s\<lparr>tracker := addCopy (q_story_id q) (q_identity q) segment (of_nat (event_frame_size (q_event q))) (tracker s)\<rparr>)
                else s)
      in if map_of (inFlight s1) identity \<noteq> None \<and> map_of (inFlight s1) identity = q_completion q
         then s1\<lparr>inFlight := omap_erase identity (inFlight s1)\<rparr> else s1)"

text \<open>One hold: at most \<open>n\<close> entries, up to a drop record that was synced.\<close>

fun finish_batch ::
  "nat \<Rightarrow> cl_status \<Rightarrow> u64 \<Rightarrow> Queued list \<Rightarrow> nat \<Rightarrow> KeeperWal \<Rightarrow> StoryId option \<times> Queued list \<times> nat \<times> KeeperWal" where
  "finish_batch 0 status segment rest events s = (None, rest, events, s)"
| "finish_batch (Suc n) status segment [] events s = (None, [], events, s)"
| "finish_batch (Suc n) status segment (q # rest) events s =
     (if q_dropped q
      then
        if status = CL_SUCCESS
        then (Some (q_story_id q), rest, events, s\<lparr>dropsBySegment := push_back segment (q_story_id q) (dropsBySegment s)\<rparr>)
        else finish_batch n status segment rest events s
      else finish_batch n status segment rest (events + 1) (finish_entry status segment q s))"

text \<open>The counters and the answers, after the last entry.\<close>

fun set_results :: "cl_status \<Rightarrow> Queued list \<Rightarrow> (nat \<rightharpoonup> cl_status) \<Rightarrow> (nat \<rightharpoonup> cl_status)" where
  "set_results status [] r = r"
| "set_results status (q # grp) r =
     set_results status grp (case q_completion q of None \<Rightarrow> r | Some c \<Rightarrow> r(c \<mapsto> status))"

definition answer_group :: "Queued list \<Rightarrow> cl_status \<Rightarrow> nat \<Rightarrow> nat \<Rightarrow> KeeperWal \<Rightarrow> KeeperWal" where
  "answer_group grp status bytes events s =
     (let c = counters s;
          s1 = (if status = CL_SUCCESS
                then s\<lparr>counters := c\<lparr>stat_groups := stat_groups c + 1, stat_events := stat_events c + of_nat events,
                        stat_bytes := stat_bytes c + of_nat bytes,
                        stat_max_events_per_group := max (stat_max_events_per_group c) (of_nat events)\<rparr>\<rparr>
                else s)
      in s1\<lparr>results := set_results status grp (results s1), committer := Answered\<rparr>)"

definition finish_step :: "Queued list \<Rightarrow> Queued list \<Rightarrow> cl_status \<Rightarrow> u64 \<Rightarrow> nat \<Rightarrow> nat \<Rightarrow> KeeperWal \<Rightarrow> KeeperWal" where
  "finish_step grp rest status segment bytes events s =
     (if rest = [] then answer_group grp status bytes events s
      else
        (case finish_batch kLockBatch status segment rest events s of
           (None, rest', events', s') \<Rightarrow> s'\<lparr>committer := Finishing grp rest' status segment bytes events'\<rparr>
         | (Some sid, rest', events', s') \<Rightarrow>
             s'\<lparr>committer := DroppingCopies sid grp rest' status segment bytes events'\<rparr>))"

section \<open>Deleting released segments\<close>

definition covers_line :: "UnloggedDrop \<Rightarrow> UnloggedDrop list \<Rightarrow> bool" where
  "covers_line drp drops \<longleftrightarrow>
     list_ex (\<lambda>line. drop_story_id line = drop_story_id drp \<and> drop_last_segment line = drop_last_segment drp) drops"

text \<open>The list with the carried drops appended, those it has already left out.\<close>

definition add_lines :: "UnloggedDrop list \<Rightarrow> UnloggedDrop list \<Rightarrow> UnloggedDrop list" where
  "add_lines carried drops = fold (\<lambda>d ds. if covers_line d ds then ds else ds @ [d]) carried drops"

definition drops_of :: "u64 \<Rightarrow> KeeperWal \<Rightarrow> StoryId list" where
  "drops_of segment s = (case map_of (dropsBySegment s) segment of None \<Rightarrow> [] | Some stories \<Rightarrow> stories)"

text \<open>\<^verbatim>\<open>keepDropsOfSegmentsDeletedAhead\<close>: the segments that may still go, and the file of drops.\<close>

definition keepDropsOfSegmentsDeletedAhead ::
  "drops_fault option \<Rightarrow> u64 list \<Rightarrow> KeeperWal \<Rightarrow> u64 list \<times> KeeperWal" where
  "keepDropsOfSegmentsDeletedAhead fault released s =
     (let listed = segmentList (segmentFiles s) in
      (case find (\<lambda>segment. segment \<notin> set released) listed of
         None \<Rightarrow> (released, s)
       | Some oldest_kept \<Rightarrow>
           let carrying = filter (\<lambda>segment. oldest_kept \<le> segment \<and> drops_of segment s \<noteq> []) released;
               carried = concat (map (\<lambda>segment. map (\<lambda>sid. \<lparr>drop_story_id = sid, drop_last_segment = segment\<rparr>) (drops_of segment s)) carrying);
               drops = filter (\<lambda>d. hd listed \<le> drop_last_segment d) (unlogged_drops (disk s));
               s' = s\<lparr>disk := put_drops fault (add_lines carried drops) (disk s)\<rparr>
           in if carried = [] then (released, s)
              else if fault = None then (released, s')
              else (filter (\<lambda>segment. segment \<notin> set carrying) released, s')))"

fun delete_loop :: "(u64 \<Rightarrow> delete_fault option) \<Rightarrow> u64 list \<Rightarrow> KeeperWal \<Rightarrow> KeeperWal" where
  "delete_loop fault [] s = s"
| "delete_loop fault (segment # released) s =
     (case deleteSegment (fault segment) segment (segmentFiles s) (disk s) of
        (deleted, m, dir) \<Rightarrow>
          let s1 = s\<lparr>segmentFiles := m, disk := dir\<rparr> in
          if deleted then delete_loop fault released (s1\<lparr>dropsBySegment := omap_erase segment (dropsBySegment s1)\<rparr>)
          else if segment \<notin> set (segmentList m)
          then s1\<lparr>dropsBySegment := omap_erase segment (dropsBySegment s1), directorySyncOwed := True\<rparr>
          else s1)"

record DeleteFaults =
  df_owed_sync :: bool
  df_drops :: "drops_fault option"
  df_delete :: "u64 \<Rightarrow> delete_fault option"

definition deleteReleasedSegments :: "DeleteFaults \<Rightarrow> KeeperWal \<Rightarrow> KeeperWal" where
  "deleteReleasedSegments f s =
     (if directorySyncOwed s \<and> df_owed_sync f then s
      else
        let s0 = s\<lparr>directorySyncOwed := False\<rparr>;
            released = deletable (segmentList (segmentFiles s0)) (activeSegment s0) (tracker s0)
        in if released = [] then s0
           else
             (case keepDropsOfSegmentsDeletedAhead (df_drops f) released s0 of
                (released', s1) \<Rightarrow>
                  let s2 = delete_loop (df_delete f) released' s1
                  in s2\<lparr>counters := counters s2\<lparr>stat_segments := of_nat (length (segmentList (segmentFiles s2)))\<rparr>\<rparr>))"

section \<open>Periodic work\<close>

text \<open>The free space kept: a share of the file system, and at least a minimum.\<close>

definition walReserveBytes :: "u64 \<Rightarrow> u64 \<Rightarrow> u32 \<Rightarrow> u64" where
  "walReserveBytes total_bytes reserve_min reserve_percent =
     (let share = total_bytes div 100 * ucast reserve_percent + total_bytes mod 100 * ucast reserve_percent div 100
      in if reserve_min < share then share else reserve_min)"

text \<open>The sample is \<^const>\<open>None\<close> when the free space cannot be read.\<close>

definition sampleFreeSpace :: "(u64 \<times> u64) option \<Rightarrow> KeeperWal \<Rightarrow> KeeperWal" where
  "sampleFreeSpace sample s =
     (case sample of
        None \<Rightarrow> s
      | Some (free_bytes, total_bytes) \<Rightarrow>
          s\<lparr>belowReserve := (free_bytes < walReserveBytes total_bytes (reserveMinBytes s) (reservePercent s))\<rparr>)"

record PeriodicInput =
  pi_free :: "(u64 \<times> u64) option"
  pi_first_delete :: DeleteFaults
  pi_idle_due :: bool
  pi_sync :: bool
  pi_take :: TakeFault
  pi_second_delete :: DeleteFaults

text \<open>\<^verbatim>\<open>periodicWork\<close>; the rotation of an idle segment may wait for a spare.\<close>

definition idle_rotation :: "(u32 \<Rightarrow> u8 list \<Rightarrow> u32) \<Rightarrow> PeriodicInput \<Rightarrow> KeeperWal \<Rightarrow> KeeperWal option" where
  "idle_rotation crc p s =
     (if \<not> kw_failed s \<and> activeDataStart s < writeOffset s \<and> pi_idle_due p \<and> kw_queue s = [] \<and>
         outstanding (activeSegment s) (tracker s) = 0
      then
        if pi_sync p then Some (s\<lparr>kw_failed := True\<rparr>)
        else
          (case switchToSpare crc (pi_take p) (segmentBytes s) s of
             None \<Rightarrow> None
           | Some (False, s') \<Rightarrow> Some s'
           | Some (True, s') \<Rightarrow> Some (deleteReleasedSegments (pi_second_delete p) s'))
      else Some s)"

definition periodicWork :: "(u32 \<Rightarrow> u8 list \<Rightarrow> u32) \<Rightarrow> PeriodicInput \<Rightarrow> KeeperWal \<Rightarrow> KeeperWal option" where
  "periodicWork crc p s = idle_rotation crc p (deleteReleasedSegments (pi_first_delete p) (sampleFreeSpace (pi_free p) s))"

section \<open>Start and stop\<close>

record StartFaults =
  sf_directory :: bool
  sf_open :: bool
  sf_adopt :: bool
  sf_take :: TakeFault
  sf_free :: "(u64 \<times> u64) option"
  sf_preparer :: bool
  sf_committer :: bool

definition use_segment :: "Spare \<Rightarrow> KeeperWal \<Rightarrow> KeeperWal" where
  "use_segment t s = s\<lparr>activeSegment := sp_segment t, activeSize := sp_size_bytes t, activeDataStart := sp_data_offset t,
     writeOffset := sp_data_offset t, namedInActive := []\<rparr>"

text \<open>The active segment of a start: the recovered spare, or a new one.\<close>

definition start_segment :: "(u32 \<Rightarrow> u8 list \<Rightarrow> u32) \<Rightarrow> StartFaults \<Rightarrow> u64 option \<Rightarrow> KeeperWal \<Rightarrow> (bool \<times> KeeperWal) option" where
  "start_segment crc f reusable s =
     (case (case reusable of None \<Rightarrow> (None, segmentFiles s) | Some n \<Rightarrow> adoptExisting crc (sf_adopt f) n (segmentFiles s) (disk s)) of
        (Some t, m) \<Rightarrow> Some (True, use_segment t (s\<lparr>segmentFiles := m\<rparr>))
      | (None, m) \<Rightarrow>
          (case takeSpare crc (sf_take f) (segmentBytes s) m (disk s) of
             None \<Rightarrow> None
           | Some (None, m', dir) \<Rightarrow> Some (False, s\<lparr>segmentFiles := m', disk := dir\<rparr>)
           | Some (Some t, m', dir) \<Rightarrow> Some (True, use_segment t (s\<lparr>segmentFiles := m', disk := dir\<rparr>))))"

definition add_recovered :: "StoryId \<Rightarrow> EventSequence \<times> (u64 \<times> u64) list \<Rightarrow> KeeperWal \<Rightarrow> KeeperWal" where
  "add_recovered sid p s =
     noteAdded sid (fst p) (s\<lparr>tracker := fold (\<lambda>c. addCopy sid (fst p) (fst c) (snd c)) (snd p) (tracker s)\<rparr>)"

definition add_recovered_story :: "(RecoveredStory \<Rightarrow> StoryId) option \<Rightarrow> StoryId \<times> RecoveredStory \<Rightarrow> KeeperWal \<Rightarrow> KeeperWal" where
  "add_recovered_story id_of p s =
     (if has_names (snd p)
      then fold (add_recovered (case id_of of None \<Rightarrow> fst p | Some f \<Rightarrow> f (snd p))) (rec_copies (snd p)) s
      else s)"

definition abandonStart :: "KeeperWal \<Rightarrow> KeeperWal" where
  "abandonStart s =
     s\<lparr>kw_state := Created, results := set_results CL_ERR_DURABILITY_UNAVAILABLE (kw_queue s) (results s), kw_queue := [],
       queuedBytes := 0, inFlight := [], tracker := new_tracker, addOrder := Map.empty, counters := no_stats,
       segmentFiles := stopPreparer (segmentFiles s), namedInActive := [], dropsBySegment := []\<rparr>"

definition start ::
  "(u32 \<Rightarrow> u8 list \<Rightarrow> u32) \<Rightarrow> StartFaults \<Rightarrow> RecoveredState \<Rightarrow> (RecoveredStory \<Rightarrow> StoryId) option \<Rightarrow> KeeperWal
    \<Rightarrow> (bool \<times> KeeperWal) option" where
  "start crc f recovered id_of s =
     (if kw_state s \<noteq> Created \<or> sf_directory f \<or> (\<not> opened (segmentFiles s) \<and> sf_open f) then Some (False, s)
      else
        (case sm_open (segmentFiles s) (disk s) of
           (m, dir) \<Rightarrow>
             (case start_segment crc f (reusable_spare recovered) (s\<lparr>segmentFiles := m, disk := dir\<rparr>) of
                None \<Rightarrow> None
              | Some (False, s1) \<Rightarrow> Some (False, s1)
              | Some (True, s1) \<Rightarrow>
                  let s2 = sampleFreeSpace (sf_free f) (s1\<lparr>dropsBySegment := dropped_in recovered\<rparr>);
                      s3 = fold (add_recovered_story id_of) (rec_stories recovered) s2;
                      s4 = s3\<lparr>counters := counters s3\<lparr>stat_segments := of_nat (length (segmentList (segmentFiles s3)))\<rparr>,
                              kw_state := Running, segmentFiles := startPreparer (\<not> sf_preparer f) (segmentFiles s3)\<rparr>
                  in Some (if sf_committer f then (False, abandonStart s4) else (True, s4\<lparr>kw_running := True\<rparr>)))))"

text \<open>\<^verbatim>\<open>stop\<close>: the part before it waits for the committer, and the part after the committer has returned,
  which it does once everything queued is answered.\<close>

definition stop_begin :: "KeeperWal \<Rightarrow> KeeperWal" where
  "stop_begin s =
     (case kw_state s of
        Created \<Rightarrow> s\<lparr>kw_state := Stopped\<rparr>
      | Running \<Rightarrow> s\<lparr>kw_state := Stopping, kw_running := False\<rparr>
      | _ \<Rightarrow> s)"

definition stop_end :: "KeeperWal \<Rightarrow> KeeperWal option" where
  "stop_end s =
     (if kw_state s = Stopping \<and> committer s = Waiting \<and> kw_queue s = []
      then Some (s\<lparr>kw_state := Stopped, segmentFiles := stopPreparer (segmentFiles s)\<rparr>) else None)"

end
