(* ===== verification/WalRuns.thy ===== *)
theory WalRuns
  imports KeeperWal
begin

text \<open>
  Runs of the keeper's write-ahead log: requests, releases, destroys, the committer, the preparer of spares
  and the shutdown, interleaved in any order and with any failing system calls. The theory states the
  invariant of the runs, which relates the files on disk to the records written, the tracker to the copies
  held, and every request to its place, and shows what it gives for recovery after a crash.
\<close>

section \<open>The directory as a list of segments\<close>

abbreviation number_of :: "SegmentImage \<Rightarrow> u64" where
  "number_of im \<equiv> segment_number (img_header im)"

abbreviation image_bytes :: "(u32 \<Rightarrow> u8 list \<Rightarrow> u32) \<Rightarrow> SegmentImage \<Rightarrow> u8 list" where
  "image_bytes crc im \<equiv> image_data crc im @ img_rest im"

definition seg_files :: "WalDirectory \<Rightarrow> u64 set" where
  "seg_files dir = {n. segmentFileName n \<in> fst ` set (wal_files dir)}"

definition dir_images :: "(u32 \<Rightarrow> u8 list \<Rightarrow> u32) \<Rightarrow> WalDirectory \<Rightarrow> SegmentImage list \<Rightarrow> bool" where
  "dir_images crc dir images \<longleftrightarrow>
     distinct (map fst (wal_files dir)) \<and> sorted_wrt (<) (map number_of images) \<and>
     seg_files dir = number_of ` set images \<and> list_all (stored_image crc dir) images"

lemma segmentFileName_inj [simp]: "segmentFileName m = segmentFileName n \<longleftrightarrow> m = n"
  by (metis option.inject parse_segmentFileName)

lemma set_map_filter: "set (List.map_filter f xs) = {y. \<exists>x\<in>set xs. f x = Some y}"
  by (induction xs) (auto simp: List.map_filter_simps split: option.splits)

lemma distinct_map_filter:
  assumes "distinct (map fst xs)" "\<And>a n. f a = Some n \<Longrightarrow> a = g n"
  shows "distinct (List.map_filter (\<lambda>x. f (fst x)) xs)"
  using assms(1)
proof (induction xs)
  case (Cons x xs)
  show ?case
  proof (cases "f (fst x)")
    case (Some n)
    have "f (fst z) \<noteq> Some n" if "z \<in> set xs" for z
      using assms(2) [OF Some] assms(2) [of "fst z" n] that Cons.prems by force
    then show ?thesis using Cons Some by (simp add: List.map_filter_simps set_map_filter)
  qed (use Cons in \<open>simp add: List.map_filter_simps\<close>)
qed (simp add: List.map_filter_simps)

lemma opened_numbers:
  assumes "dir_images crc dir images"
  shows "snd (manager_open dir) = map number_of images"
proof -
  let ?ns = "List.map_filter (\<lambda>f. parseSegmentFileName (fst f)) (wal_files dir)"
  have "set ?ns = seg_files dir"
    using parse_segmentFileName parseSegmentFileName_name by (force simp: set_map_filter seg_files_def image_iff)
  moreover have "distinct ?ns"
    by (rule distinct_map_filter [where g = segmentFileName])
      (use assms parseSegmentFileName_name in \<open>auto simp: dir_images_def\<close>)
  moreover have "sorted (map number_of images) \<and> distinct (map number_of images)"
    using assms by (simp add: dir_images_def strict_sorted_iff)
  ultimately have "sort ?ns = map number_of images"
    using assms by (intro sorted_distinct_set_unique) (auto simp: dir_images_def)
  then show ?thesis by (simp add: manager_open_def)
qed

lemma dir_images_distinct:
  assumes "dir_images crc dir (xs @ im # ys)"
  shows "number_of im \<notin> number_of ` set xs" "number_of im \<notin> number_of ` set ys"
    "\<forall>i\<in>set xs. number_of i < number_of im" "\<forall>i\<in>set ys. number_of im < number_of i"
  using assms by (auto simp: dir_images_def sorted_wrt_append)

lemma stored_write_other:
  "name \<noteq> segmentFileName (number_of im) \<Longrightarrow> stored_image crc (write_file name bytes dir) im = stored_image crc dir im"
  by (simp add: stored_image_def map_of_write_file)

lemma write_file_names: "distinct (map fst (wal_files dir)) \<Longrightarrow> distinct (map fst (wal_files (write_file name bytes dir)))"
  by (auto simp: write_file_def distinct_map inj_on_def)

lemma seg_files_write: "seg_files (write_file (segmentFileName n) bytes dir) = insert n (seg_files dir)"
  by (force simp: seg_files_def write_file_def)

lemma seg_files_write_other: "(\<And>n. name \<noteq> segmentFileName n) \<Longrightarrow> seg_files (write_file name bytes dir) = seg_files dir"
  by (force simp: seg_files_def write_file_def)

lemma dir_images_new:
  assumes "dir_images crc dir images" "image_ok crc im" "\<forall>i\<in>set images. number_of i < number_of im"
  shows "dir_images crc (write_file (segmentFileName (number_of im)) (image_bytes crc im) dir) (images @ [im])"
proof -
  let ?dir = "write_file (segmentFileName (number_of im)) (image_bytes crc im) dir"
  have "stored_image crc ?dir i" if "i \<in> set images" for i
    using assms(1,3) that by (subst stored_write_other) (auto simp: dir_images_def list_all_iff)
  moreover have "stored_image crc ?dir im" using assms(2) by (simp add: stored_image_def map_of_write_file)
  ultimately show ?thesis using assms(1,3)
    by (auto simp: dir_images_def write_file_names seg_files_write sorted_wrt_append list_all_iff)
qed

lemma dir_images_replace:
  assumes "dir_images crc dir (xs @ old # ys)" "image_ok crc im" "number_of im = number_of old"
  shows "dir_images crc (write_file (segmentFileName (number_of old)) (image_bytes crc im) dir) (xs @ im # ys)"
proof -
  let ?dir = "write_file (segmentFileName (number_of old)) (image_bytes crc im) dir"
  have "stored_image crc ?dir i" if "i \<in> set xs \<union> set ys" for i
    using assms(1) dir_images_distinct [OF assms(1)] that by (subst stored_write_other) (auto simp: dir_images_def list_all_iff)
  moreover have "stored_image crc ?dir im" using assms(2,3) by (simp add: stored_image_def map_of_write_file)
  ultimately show ?thesis using assms(1,3)
    by (auto simp: dir_images_def write_file_names seg_files_write sorted_wrt_append list_all_iff)
qed

lemma dir_images_other_file:
  assumes "dir_images crc dir images" "\<And>n. name \<noteq> segmentFileName n"
  shows "dir_images crc (write_file name bytes dir) images"
  using assms by (auto simp: dir_images_def write_file_names seg_files_write_other list_all_iff stored_write_other)

lemma dir_images_drops: "dir_images crc (dir\<lparr>unlogged_drops := ds\<rparr>) images = dir_images crc dir images"
proof -
  have "stored_image crc (dir\<lparr>unlogged_drops := ds\<rparr>) = stored_image crc dir" by (simp add: stored_image_def fun_eq_iff)
  then show ?thesis by (simp add: dir_images_def seg_files_def)
qed

lemma dir_images_remove:
  assumes "dir_images crc dir (xs @ im # ys)"
  shows "dir_images crc (remove_file (segmentFileName (number_of im)) dir) (xs @ ys)"
proof -
  let ?dir = "remove_file (segmentFileName (number_of im)) dir"
  have "stored_image crc ?dir i" if "i \<in> set xs \<union> set ys" for i
    using assms dir_images_distinct [OF assms] that
    by (auto simp: dir_images_def list_all_iff stored_image_def remove_file_def map_of_filter_key [of "\<lambda>k. k \<noteq> segmentFileName (number_of im)"])
  moreover have "seg_files ?dir = number_of ` (set xs \<union> set ys)"
  proof -
    have "seg_files ?dir = seg_files dir - {number_of im}" by (force simp: seg_files_def remove_file_def)
    then show ?thesis using assms dir_images_distinct [OF assms] by (auto simp: dir_images_def)
  qed
  moreover have "distinct (map fst (wal_files ?dir))"
    using assms by (auto simp: dir_images_def remove_file_def distinct_map inj_on_def)
  ultimately show ?thesis using assms by (auto simp: dir_images_def sorted_wrt_append list_all_iff)
qed

lemma dir_images_stored: "dir_images crc dir images \<Longrightarrow> im \<in> set images \<Longrightarrow> stored_image crc dir im"
  by (simp add: dir_images_def list_all_iff)

lemma partial_not_segment: "segmentFileName n @ partial_suffix \<noteq> segmentFileName m"
proof
  assume "segmentFileName n @ partial_suffix = segmentFileName m"
  from arg_cong [OF this, of length] show False by (simp add: segmentFileName_def partial_suffix_def)
qed

section \<open>The records that matter\<close>

text \<open>What a record does to the pending events: it adds a copy of one, or drops a story.\<close>

datatype log_entry = LogE StoryId EventSequence | LogD StoryId

definition entry_of :: "u8 list \<Rightarrow> log_entry option" where
  "entry_of body =
     (case decode_record body of
        Some (EventRec e _) \<Rightarrow> Some (LogE (evStoryId e) (event_sequence e))
      | Some (DroppedRec sid) \<Rightarrow> Some (LogD sid)
      | _ \<Rightarrow> None)"

definition entries_of :: "(u64 \<times> u8 list) list \<Rightarrow> (u64 \<times> log_entry) list" where
  "entries_of W = List.map_filter (\<lambda>sb. map_option (Pair (fst sb)) (entry_of (snd sb))) W"

abbreviation log_of :: "SegmentImage list \<Rightarrow> (u64 \<times> log_entry) list" where
  "log_of images \<equiv> entries_of (written_log images)"

lemma entries_of_append [simp]: "entries_of (V @ W) = entries_of V @ entries_of W"
  by (simp add: entries_of_def List.map_filter_def)

lemma entries_of_simps [simp]:
  "entries_of [] = []"
  "entries_of ((n, b) # W) = (case entry_of b of None \<Rightarrow> entries_of W | Some e \<Rightarrow> (n, e) # entries_of W)"
  by (simp_all add: entries_of_def List.map_filter_def split: option.split)

text \<open>An event that is in the log with no drop record of its story after it.\<close>

definition survives :: "StoryId \<Rightarrow> EventSequence \<Rightarrow> u64 \<Rightarrow> (u64 \<times> log_entry) list \<Rightarrow> bool" where
  "survives sid ev seg A \<longleftrightarrow> (\<exists>pre post. A = pre @ (seg, LogE sid ev) # post \<and> LogD sid \<notin> snd ` set post)"

lemma survives_append: "survives sid ev seg A \<Longrightarrow> LogD sid \<notin> snd ` set B \<Longrightarrow> survives sid ev seg (A @ B)"
proof -
  assume "survives sid ev seg A" "LogD sid \<notin> snd ` set B"
  then obtain pre post where "A @ B = pre @ (seg, LogE sid ev) # (post @ B)" "LogD sid \<notin> snd ` set (post @ B)"
    by (auto simp: survives_def)
  then show ?thesis unfolding survives_def by blast
qed

lemma survives_filter:
  assumes "survives sid ev seg A" "P (seg, LogE sid ev)"
  shows "survives sid ev seg (filter P A)"
proof -
  obtain pre post where A: "A = pre @ (seg, LogE sid ev) # post" "LogD sid \<notin> snd ` set post"
    using assms(1) by (auto simp: survives_def)
  then have "filter P A = filter P pre @ (seg, LogE sid ev) # filter P post" "LogD sid \<notin> snd ` set (filter P post)"
    using assms(2) by auto
  then show ?thesis unfolding survives_def by blast
qed

text \<open>Replaying the log keeps such an event.\<close>

definition has_copy :: "event_log \<Rightarrow> StoryId \<Rightarrow> EventSequence \<Rightarrow> u64 \<Rightarrow> bool" where
  "has_copy L sid ev seg \<longleftrightarrow> (\<exists>x\<in>set L. evStoryId (fst x) = sid \<and> event_sequence (fst x) = ev \<and> fst (snd x) = seg)"

lemma rec_step_keeps:
  assumes "has_copy L sid ev seg" "entry_of (snd sb) \<noteq> Some (LogD sid)"
  shows "has_copy (rec_step sb L) sid ev seg"
proof -
  obtain x where x: "x \<in> set L" "evStoryId (fst x) = sid" "event_sequence (fst x) = ev" "fst (snd x) = seg"
    using assms(1) unfolding has_copy_def by blast
  have "x \<in> set (rec_step sb L)"
    using x(1,2) assms(2) by (auto simp: rec_step_def entry_of_def split: option.splits WalRecord.splits)
  then show ?thesis using x(2-4) unfolding has_copy_def by blast
qed

lemma rec_steps_keep:
  "has_copy L sid ev seg \<Longrightarrow> LogD sid \<notin> snd ` set (entries_of W) \<Longrightarrow> has_copy (fold rec_step W L) sid ev seg"
proof (induction W arbitrary: L)
  case (Cons sb W)
  obtain n b where sb: "sb = (n, b)" by (cases sb)
  have "entry_of b \<noteq> Some (LogD sid)" using Cons.prems(2) by (auto simp: sb)
  then have "has_copy (rec_step sb L) sid ev seg" using rec_step_keeps [OF Cons.prems(1), of sb] by (simp add: sb)
  moreover have "LogD sid \<notin> snd ` set (entries_of W)" using Cons.prems(2) by (auto simp: sb split: option.splits)
  ultimately show ?case using Cons.IH by simp
qed simp

lemma replay_survivor:
  assumes "survives sid ev seg (entries_of W)"
  shows "has_copy (fold rec_step W L) sid ev seg"
  using assms
proof (induction W arbitrary: L)
  case (Cons sb W)
  obtain n b where sb: "sb = (n, b)" by (cases sb)
  obtain pre post where A: "entries_of (sb # W) = pre @ (seg, LogE sid ev) # post" "LogD sid \<notin> snd ` set post"
    using Cons.prems by (auto simp: survives_def)
  show ?case
  proof (cases "entry_of b = None \<or> pre \<noteq> []")
    case True
    then have "\<exists>pre'. entries_of W = pre' @ (seg, LogE sid ev) # post"
      using A(1) by (cases pre) (auto simp: sb split: option.splits)
    then have "survives sid ev seg (entries_of W)" using A(2) by (auto simp: survives_def)
    then show ?thesis using Cons.IH by simp
  next
    case False
    then have e: "entry_of b = Some (LogE sid ev)" "n = seg" "entries_of W = post" using A(1) by (auto simp: sb)
    have "has_copy (rec_step sb L) sid ev seg"
      using e(1,2) by (auto simp: sb has_copy_def rec_step_def entry_of_def split: option.splits WalRecord.splits)
    then show ?thesis using rec_steps_keep e(3) A(2) by simp
  qed
qed (simp add: survives_def)

lemma drop_step_keeps:
  assumes "has_copy L sid ev seg" "drop_story_id d = sid \<Longrightarrow> drop_last_segment d < seg"
  shows "has_copy (drop_step d L) sid ev seg"
proof -
  obtain x where x: "x \<in> set L" "evStoryId (fst x) = sid" "event_sequence (fst x) = ev" "fst (snd x) = seg"
    using assms(1) by (auto simp: has_copy_def)
  have "\<not> before_drop d (map snd (copies_in L sid ev))" if "drop_story_id d = sid"
  proof -
    have "x \<in> set (copies_in L sid ev)" using x by (simp add: copies_in_def)
    then have "snd x \<in> set (map snd (copies_in L sid ev))" by simp
    moreover have "\<not> fst (snd x) \<le> drop_last_segment d" using assms(2) [OF that] x(4) by simp
    ultimately show ?thesis unfolding before_drop_def list_all_iff by blast
  qed
  then have "x \<in> set (drop_step d L)" using x by (auto simp: drop_step_def)
  then show ?thesis using x unfolding has_copy_def by blast
qed

lemma drop_steps_keep:
  assumes "has_copy L sid ev seg" "\<forall>d\<in>set ds. drop_story_id d = sid \<longrightarrow> drop_last_segment d < seg"
  shows "has_copy (fold drop_step ds L) sid ev seg"
  using assms by (induction ds arbitrary: L) (auto intro: drop_step_keeps)

lemma has_copy_first: "has_copy L sid ev seg \<Longrightarrow> first_event (copies_in L sid ev) \<noteq> None"
  by (auto simp: has_copy_def first_event_def copies_in_def filter_empty_conv split: list.splits)

section \<open>Runs\<close>

text \<open>What a step tells the outside: a request was queued, a story destroyed, events released.\<close>

datatype wal_label =
  Enqueued nat StoryId EventSequence
| StoryGone StoryId
| Released StoryId "EventSequence list"
| Internal

inductive wal_step :: "(u32 \<Rightarrow> u8 list \<Rightarrow> u32) \<Rightarrow> KeeperWal \<Rightarrow> wal_label \<Rightarrow> KeeperWal \<Rightarrow> bool" for crc where
  step_append: "encode_entry crc chronicle story e = Inr (frame, names) \<Longrightarrow>
    appendDurable_queue (evStoryId e, event_sequence e) frame names s = ((Join c, True), s') \<Longrightarrow>
    wal_step crc s (Enqueued c (evStoryId e) (event_sequence e)) s'"
| step_dropped: "wal_step crc s (StoryGone sid) (storyDropped crc sid s)"
| step_release: "omap_ok (logEvents chunk) \<Longrightarrow> release_small sid chunk s = (finished, s') \<Longrightarrow>
    wal_step crc s (Released sid (map fst (logEvents chunk))) s'"
| step_release_hold: "release_hold sid events s = (rest, s') \<Longrightarrow> wal_step crc s (Released sid events) s'"
| step_discard: "wal_step crc s (Released sid [ev]) (eventDiscarded sid ev s)"
| step_take: "take_group s = Some s' \<Longrightarrow> wal_step crc s Internal s'"
| step_latched: "committer s = Taken g True \<Longrightarrow>
    wal_step crc s Internal (recordUnloggedDrops fault g (s\<lparr>committer := Recording g (dropped_stories g) 0\<rparr>))"
| step_commit: "committer s = Taken g False \<Longrightarrow> commitGroup crc f g s = Some s' \<Longrightarrow> wal_step crc s Internal s'"
| step_sync: "committer s = Written g bytes named \<Longrightarrow> wal_step crc s Internal (sync_group f g bytes named s)"
| step_record: "committer s = Recording g (sid # sids) w \<Longrightarrow> drop_hold sid s = (finished, s') \<Longrightarrow>
    wal_step crc s Internal (if finished then s'\<lparr>committer := Recording g sids w\<rparr> else s')"
| step_erase: "committer s = Recording g [] w \<Longrightarrow> wal_step crc s Internal (erase_group f g w s)"
| step_finish: "committer s = Finishing g rest status seg bytes events \<Longrightarrow>
    wal_step crc s Internal (finish_step g rest status seg bytes events s)"
| step_drop_copies: "committer s = DroppingCopies sid g rest status seg bytes events \<Longrightarrow> drop_hold sid s = (finished, s') \<Longrightarrow>
    wal_step crc s Internal (if finished then s'\<lparr>committer := Finishing g rest status seg bytes events\<rparr> else s')"
| step_delete: "committer s = Answered \<Longrightarrow> wal_step crc s Internal (deleteReleasedSegments f s\<lparr>committer := Waiting\<rparr>)"
| step_periodic: "committer s = Waiting \<Longrightarrow> periodicWork crc p s = Some s' \<Longrightarrow> wal_step crc s Internal s'"
| step_prepare: "preparer_round crc fault now (segmentFiles s) (disk s) = Some (m, dir) \<Longrightarrow>
    wal_step crc s Internal (s\<lparr>segmentFiles := m, disk := dir\<rparr>)"
| step_stop: "wal_step crc s Internal (stop_begin s)"
| step_stopped: "stop_end s = Some s' \<Longrightarrow> wal_step crc s Internal s'"

inductive wal_run :: "(u32 \<Rightarrow> u8 list \<Rightarrow> u32) \<Rightarrow> KeeperWal \<Rightarrow> wal_label list \<Rightarrow> KeeperWal \<Rightarrow> bool" for crc s0 where
  run_start: "wal_run crc s0 [] s0"
| run_step: "wal_run crc s0 labels s \<Longrightarrow> wal_step crc s l s' \<Longrightarrow> wal_run crc s0 (labels @ [l]) s'"

text \<open>The requests queued and not released since: neither their event was, nor their story destroyed.\<close>

fun live_step :: "wal_label \<Rightarrow> (nat \<times> StoryId \<times> EventSequence) set \<Rightarrow> (nat \<times> StoryId \<times> EventSequence) set" where
  "live_step (Enqueued c sid ev) X = insert (c, sid, ev) X"
| "live_step (StoryGone sid) X = X - {x. fst (snd x) = sid}"
| "live_step (Released sid evs) X = X - {x. fst (snd x) = sid \<and> snd (snd x) \<in> set evs}"
| "live_step Internal X = X"

definition live :: "wal_label list \<Rightarrow> (nat \<times> StoryId \<times> EventSequence) set" where
  "live labels = fold live_step labels {}"

text \<open>
  A crash: of the frames that were written and not synced, the first \<open>k\<close> are on disk whole, and the bytes of the
  others are arbitrary, except that they do not start with a frame that checks.
\<close>

definition crash :: "(u32 \<Rightarrow> u8 list \<Rightarrow> u32) \<Rightarrow> KeeperWal \<Rightarrow> nat \<Rightarrow> u8 list \<Rightarrow> WalDirectory" where
  "crash crc s k junk =
     (if unsynced s = [] then disk s
      else write_at (segmentFileName (activeSegment s)) (writeOffset s) (concat (take k (unsynced s)) @ junk) (disk s))"

definition crash_possible :: "(u32 \<Rightarrow> u8 list \<Rightarrow> u32) \<Rightarrow> KeeperWal \<Rightarrow> nat \<Rightarrow> u8 list \<Rightarrow> bool" where
  "crash_possible crc s k junk \<longleftrightarrow> k \<le> length (unsynced s) \<and> length junk = length (concat (drop k (unsynced s))) \<and>
     (case map_of (wal_files (disk s)) (segmentFileName (activeSegment s)) of
        None \<Rightarrow> False
      | Some bytes \<Rightarrow> scan_records (scanSegment crc (junk @ drop (writeOffset s + length (concat (unsynced s))) bytes)) = [])"

section \<open>The invariant\<close>

fun rest_of :: "committer \<Rightarrow> Queued list" where
  "rest_of (Taken g latched) = g"
| "rest_of (Written g bytes named) = g"
| "rest_of (Recording g sids w) = g"
| "rest_of (Finishing g rest status seg bytes events) = rest"
| "rest_of (DroppingCopies sid g rest status seg bytes events) = rest"
| "rest_of c = []"

fun whole_of :: "committer \<Rightarrow> Queued list" where
  "whole_of (Taken g latched) = g"
| "whole_of (Written g bytes named) = g"
| "whole_of (Recording g sids w) = g"
| "whole_of (Finishing g rest status seg bytes events) = g"
| "whole_of (DroppingCopies sid g rest status seg bytes events) = g"
| "whole_of c = []"

fun dropping_of :: "committer \<Rightarrow> StoryId set" where
  "dropping_of (Recording g sids w) = set sids"
| "dropping_of (DroppingCopies sid g rest status seg bytes events) = {sid}"
| "dropping_of c = {}"

text \<open>The entries that are still to be registered, and the stories about to lose their copies.\<close>

definition todo :: "KeeperWal \<Rightarrow> Queued list" where
  "todo s = rest_of (committer s) @ kw_queue s"

definition ahead :: "(u32 \<Rightarrow> u8 list \<Rightarrow> u32) \<Rightarrow> KeeperWal \<Rightarrow> StoryId set" where
  "ahead crc s = set (dropped_stories (todo s)) \<union> dropping_of (committer s) \<union> 
     {sid. \<exists>b. frame_of crc b \<in> set (unsynced s) \<and> entry_of b = Some (LogD sid)}"

definition q_entry :: "Queued \<Rightarrow> log_entry" where
  "q_entry q = (if q_dropped q then LogD (q_story_id q) else LogE (q_story_id q) (q_identity q))"

definition entry_ok :: "(u32 \<Rightarrow> u8 list \<Rightarrow> u32) \<Rightarrow> Queued \<Rightarrow> bool" where
  "entry_ok crc q \<longleftrightarrow>
     (if q_dropped q then q_dropped_frame q = dropped_frame crc (q_story_id q) \<and> q_completion q = None
      else q_completion q \<noteq> None \<and>
        (\<exists>chronicle story e. encode_entry crc chronicle story e = Inr (q_event q, q_names_frame q) \<and>
           evStoryId e = q_story_id q \<and> event_sequence e = q_identity q))"

abbreviation completions_of :: "Queued list \<Rightarrow> nat list" where
  "completions_of g \<equiv> List.map_filter q_completion g"

definition queue_inv :: "(u32 \<Rightarrow> u8 list \<Rightarrow> u32) \<Rightarrow> KeeperWal \<Rightarrow> bool" where
  "queue_inv crc s \<longleftrightarrow>
     list_all (entry_ok crc) (whole_of (committer s) @ kw_queue s) \<and>
     distinct (completions_of (whole_of (committer s) @ kw_queue s)) \<and>
     (\<forall>c\<in>set (completions_of (whole_of (committer s) @ kw_queue s)). c < completions s \<and> results s c = None) \<and>
     (\<forall>c. results s c \<noteq> None \<longrightarrow> c < completions s) \<and>
     (\<exists>finished. whole_of (committer s) = finished @ rest_of (committer s)) \<and>
     groupCommitMaxBytes s \<le> 2 ^ 32 \<and> length (whole_of (committer s)) \<le> 2 ^ 32"

definition endpoint_ok :: "cpp_string \<Rightarrow> bool" where
  "endpoint_ok endpoint \<longleftrightarrow> (\<forall>n t. good_body (record_body
     (HeaderRec \<lparr>format_version = kFormatVersion, segment_number = n, created_ns = t, keeper_endpoint = endpoint\<rparr>)))"

definition manager_inv :: "(u32 \<Rightarrow> u8 list \<Rightarrow> u32) \<Rightarrow> nat \<Rightarrow> SegmentImage list \<Rightarrow> SegmentImage list \<Rightarrow> WalSegmentManager \<Rightarrow> bool" where
  "manager_inv crc n taken spares m \<longleftrightarrow>
     opened m \<and> endpoint_ok (sm_keeperEndpoint m) \<and> unat (nextSegment m) \<le> n + 2 \<and>
     (\<forall>i\<in>set (taken @ spares). number_of i < nextSegment m) \<and>
     distinct (segmentList m) \<and> (\<forall>x\<in>set (segmentList m). x \<le> number_of (last taken)) \<and>
     (case spare m of
        None \<Rightarrow> True
      | Some sp \<Rightarrow> spares \<noteq> [] \<and> number_of (last spares) = sp_segment sp \<and>
          sp_data_offset sp = length (image_data crc (last spares)) \<and> sp_data_offset sp \<le> sp_size_bytes sp)"

definition disk_inv ::
  "(u32 \<Rightarrow> u8 list \<Rightarrow> u32) \<Rightarrow> nat \<Rightarrow> SegmentImage list \<Rightarrow> SegmentImage \<Rightarrow> u8 list list list \<Rightarrow> SegmentImage list \<Rightarrow> KeeperWal \<Rightarrow> bool" where
  "disk_inv crc n older cur gs spares s \<longleftrightarrow>
     dir_images crc (disk s) (older @ cur # spares) \<and> list_all clean_image (older @ cur # spares) \<and>
     list_all (\<lambda>i. img_bodies i = []) spares \<and>
     number_of cur = activeSegment s \<and> img_bodies cur = concat gs \<and> list_all (is_group crc) gs \<and>
     writeOffset s = length (image_data crc cur) \<and>
     manager_inv crc n (older @ [cur]) spares (segmentFiles s)"

text \<open>The group written and not synced.\<close>

definition group_of :: "(u32 \<Rightarrow> u8 list \<Rightarrow> u32) \<Rightarrow> u8 list list \<Rightarrow> u8 list list \<Rightarrow> bool" where
  "group_of crc frames bodies \<longleftrightarrow> frames = map (frame_of crc) bodies \<and> is_group crc bodies \<and> list_all loggable bodies"

definition committer_inv :: "(u32 \<Rightarrow> u8 list \<Rightarrow> u32) \<Rightarrow> (u64 \<times> log_entry) list \<Rightarrow> KeeperWal \<Rightarrow> bool" where
  "committer_inv crc A s \<longleftrightarrow>
     (unsynced s \<noteq> [] \<longrightarrow> (\<exists>bodies. group_of crc (unsynced s) bodies)) \<and>
     (case committer s of
        Waiting \<Rightarrow> \<not> kw_failed s \<longrightarrow> unsynced s = []
      | Taken g latched \<Rightarrow> latched = kw_failed s \<and> (\<not> kw_failed s \<longrightarrow> unsynced s = [])
      | Written g bytes named \<Rightarrow> \<not> kw_failed s \<and> bytes = length (concat (unsynced s)) \<and>
          (\<exists>bodies. group_of crc (unsynced s) bodies \<and>
             entries_of (map (Pair (activeSegment s)) bodies) = map (\<lambda>q. (activeSegment s, q_entry q)) g)
      | Recording g sids w \<Rightarrow> kw_failed s \<and> set sids \<subseteq> set (dropped_stories g)
      | Finishing g rest status seg bytes events \<Rightarrow>
          if status = CL_SUCCESS
          then \<not> kw_failed s \<and> unsynced s = [] \<and> seg = activeSegment s \<and> (\<exists>pre. A = pre @ map (\<lambda>q. (seg, q_entry q)) rest)
          else kw_failed s
      | DroppingCopies sid g rest status seg bytes events \<Rightarrow>
          status = CL_SUCCESS \<and> \<not> kw_failed s \<and> unsynced s = [] \<and> seg = activeSegment s \<and>
          (\<exists>pre. A = pre @ map (\<lambda>q. (seg, q_entry q)) rest)
      | Answered \<Rightarrow> \<not> kw_failed s \<longrightarrow> unsynced s = [])"

definition tracker_inv :: "nat \<Rightarrow> (u64 \<times> log_entry) list \<Rightarrow> copy_log \<Rightarrow> KeeperWal \<Rightarrow> bool" where
  "tracker_inv n A L s \<longleftrightarrow>
     tracks (tracker s) L \<and> length L + length (filter (\<lambda>q. \<not> q_dropped q) (todo s)) \<le> n \<and>
     (\<forall>seg sid. sid \<in> set (drops_of seg s) \<longrightarrow> (seg, LogD sid) \<in> set A) \<and>
     omap_ok (dropsBySegment s) \<and>
     (\<not> kw_failed s \<longrightarrow> (\<forall>d\<in>set (unlogged_drops (disk s)). drop_last_segment d < activeSegment s))"

text \<open>Where a live request is: still to be registered, held, or failed.\<close>

definition waiting :: "KeeperWal \<Rightarrow> nat \<Rightarrow> StoryId \<Rightarrow> EventSequence \<Rightarrow> bool" where
  "waiting s c sid ev \<longleftrightarrow> (\<exists>pre q post. todo s = pre @ q # post \<and> \<not> q_dropped q \<and> q_completion q = Some c \<and>
     q_story_id q = sid \<and> q_identity q = ev \<and> sid \<notin> set (dropped_stories post))"

definition held_in :: "(u64 \<times> log_entry) list \<Rightarrow> copy_log \<Rightarrow> UnloggedDrop list \<Rightarrow> StoryId \<Rightarrow> EventSequence \<Rightarrow> bool" where
  "held_in A L drops sid ev \<longleftrightarrow> (\<exists>seg b. (sid, ev, \<lparr>cp_segment = seg, cp_bytes = b\<rparr>) \<in> set L \<and> survives sid ev seg A \<and>
     (\<forall>d\<in>set drops. drop_story_id d = sid \<longrightarrow> drop_last_segment d < seg))"

fun status_of :: "committer \<Rightarrow> cl_status option" where
  "status_of (Finishing g rest status seg bytes events) = Some status"
| "status_of (DroppingCopies sid g rest status seg bytes events) = Some status"
| "status_of c = None"

definition doomed :: "KeeperWal \<Rightarrow> nat \<Rightarrow> bool" where
  "doomed s c \<longleftrightarrow> results s c \<noteq> Some CL_SUCCESS \<and> c \<notin> set (completions_of (todo s)) \<and>
     (c \<in> set (completions_of (whole_of (committer s))) \<longrightarrow> (\<exists>st. status_of (committer s) = Some st \<and> st \<noteq> CL_SUCCESS))"

definition placed ::
  "(u32 \<Rightarrow> u8 list \<Rightarrow> u32) \<Rightarrow> (u64 \<times> log_entry) list \<Rightarrow> copy_log \<Rightarrow> KeeperWal \<Rightarrow> nat \<Rightarrow> StoryId \<Rightarrow> EventSequence \<Rightarrow> bool" where
  "placed crc A L s c sid ev \<longleftrightarrow> c < completions s \<and>
     (waiting s c sid ev \<or> held_in A L (unlogged_drops (disk s)) sid ev \<and> sid \<notin> ahead crc s \<or> doomed s c)"

definition live_inv ::
  "(u32 \<Rightarrow> u8 list \<Rightarrow> u32) \<Rightarrow> (u64 \<times> log_entry) list \<Rightarrow> copy_log \<Rightarrow> (nat \<times> StoryId \<times> EventSequence) set \<Rightarrow> KeeperWal \<Rightarrow> bool" where
  "live_inv crc A L X s \<longleftrightarrow> (\<forall>x\<in>X. placed crc A L s (fst x) (fst (snd x)) (snd (snd x)))"

definition wal_inv :: "(u32 \<Rightarrow> u8 list \<Rightarrow> u32) \<Rightarrow> nat \<Rightarrow> (nat \<times> StoryId \<times> EventSequence) set \<Rightarrow> KeeperWal \<Rightarrow> bool" where
  "wal_inv crc n X s \<longleftrightarrow> (\<exists>older cur gs spares L.
     disk_inv crc n older cur gs spares s \<and> queue_inv crc s \<and>
     committer_inv crc (log_of (older @ cur # spares)) s \<and> tracker_inv n (log_of (older @ cur # spares)) L s \<and>
     live_inv crc (log_of (older @ cur # spares)) L X s)"

lemma live_invI: "(\<And>c sid ev. (c, sid, ev) \<in> X \<Longrightarrow> placed crc A L s c sid ev) \<Longrightarrow> live_inv crc A L X s"
  unfolding live_inv_def by (metis prod.collapse)

lemma live_invD: "live_inv crc A L X s \<Longrightarrow> (c, sid, ev) \<in> X \<Longrightarrow> placed crc A L s c sid ev"
  unfolding live_inv_def by (metis fst_conv snd_conv)

lemma placedE:
  assumes "placed crc A L s c sid ev"
  obtains "waiting s c sid ev" "c < completions s"
  | "held_in A L (unlogged_drops (disk s)) sid ev" "sid \<notin> ahead crc s" "c < completions s"
  | "doomed s c" "c < completions s"
  using assms unfolding placed_def by blast

text \<open>Which fields each part of the invariant depends on.\<close>

lemma disk_inv_cong:
  "disk s' = disk s \<Longrightarrow> activeSegment s' = activeSegment s \<Longrightarrow> writeOffset s' = writeOffset s \<Longrightarrow> segmentFiles s' = segmentFiles s \<Longrightarrow>
    disk_inv crc n older cur gs spares s' = disk_inv crc n older cur gs spares s"
  by (simp add: disk_inv_def)

lemma committer_inv_cong:
  assumes "committer s' = committer s" "kw_failed s' = kw_failed s" "unsynced s' = unsynced s" "activeSegment s' = activeSegment s"
  shows "committer_inv crc A s' = committer_inv crc A s"
  unfolding committer_inv_def assms by (rule refl)

section \<open>Recovery after a crash of a run\<close>

lemma frame_of_inj [simp]: "frame_of crc a = frame_of crc b \<longleftrightarrow> a = b"
proof
  assume "frame_of crc a = frame_of crc b"
  from arg_cong [OF this, of "drop 8"] show "a = b" by (simp add: frame_of_def)
qed simp

lemma written_log_append: "written_log (xs @ ys) = written_log xs @ written_log ys"
  by (simp add: written_log_def)

lemma written_log_Cons: "written_log (im # ys) = map (Pair (number_of im)) (img_bodies im) @ written_log ys"
  by (simp add: written_log_def)

lemma written_log_spares: "list_all (\<lambda>i. img_bodies i = []) spares \<Longrightarrow> written_log spares = []"
  by (induction spares) (simp_all add: written_log_def)

lemma log_of_current:
  assumes "list_all (\<lambda>i. img_bodies i = []) spares"
  shows "log_of (older @ cur # spares) = log_of older @ entries_of (map (Pair (number_of cur)) (img_bodies cur))"
  using assms by (simp add: written_log_append written_log_Cons written_log_spares)

lemma frames_of_map: "concat (map (frame_of crc) bodies) = frames_of crc bodies"
  by (simp add: frames_of_def)

lemma write_at_image:
  assumes "map_of (wal_files dir) name = Some (xs @ rest)"
  shows "write_at name (length xs) new dir = write_file name (xs @ new @ drop (length new) rest) dir"
  using assms by (simp add: write_at_def overwrite_def)

text \<open>The current segment with more records, or with bytes that do not check behind them.\<close>

lemma extended_image:
  assumes "image_ok crc cur" "list_all loggable bodies" "scan_records (scanSegment crc rest) = []"
  shows "image_ok crc (cur\<lparr>img_bodies := img_bodies cur @ bodies, img_rest := rest\<rparr>)"
    "image_data crc (cur\<lparr>img_bodies := img_bodies cur @ bodies, img_rest := rest\<rparr>) = image_data crc cur @ frames_of crc bodies"
  using assms by (simp_all add: image_ok_def image_data_def header_body_def del: record_body.simps)

lemma no_frame_in_zeros: "scan_records (scanSegment crc (replicate n 0)) = []"
proof -
  have "torn_tail crc (replicate n 0)" by (simp add: torn_tail_def)
  from scanSegment_written [OF _ this, of "[]"] show ?thesis by simp
qed

lemma dummy_group: "is_group crc [record_body (GroupRec 17)]"
  using encodeGroup_frame [of crc 17] by (simp add: is_group_def kGroupFrameBytes_def kFrameHeaderBytes_def del: record_body.simps)

text \<open>The images after a crash.\<close>

definition crash_image :: "(u32 \<Rightarrow> u8 list \<Rightarrow> u32) \<Rightarrow> SegmentImage \<Rightarrow> u8 list list \<Rightarrow> nat \<Rightarrow> u8 list \<Rightarrow> SegmentImage" where
  "crash_image crc cur bodies k junk =
     cur\<lparr>img_bodies := img_bodies cur @ take k bodies,
         img_rest := junk @ drop (length (frames_of crc (take k bodies)) + length junk) (img_rest cur)\<rparr>"

lemma crash_images:
  assumes disk: "disk_inv crc n older cur gs spares s" and g: "group_of crc (unsynced s) bodies" "unsynced s \<noteq> []"
    and crash: "crash_possible crc s k junk"
  shows "dir_images crc (crash crc s k junk) (older @ crash_image crc cur bodies k junk # spares)"
    "length (frames_of crc (take k bodies)) + length junk = length (frames_of crc bodies)"
proof -
  have k: "k \<le> length bodies" and len: "length junk = length (frames_of crc (drop k bodies))"
    using crash g by (auto simp: crash_possible_def group_of_def drop_map frames_of_map)
  have "frames_of crc bodies = frames_of crc (take k bodies) @ frames_of crc (drop k bodies)"
    using frames_of_append [of crc "take k bodies" "drop k bodies"] by simp
  then show size: "length (frames_of crc (take k bodies)) + length junk = length (frames_of crc bodies)" using len by simp
  have images: "dir_images crc (disk s) (older @ cur # spares)" and num: "number_of cur = activeSegment s"
    and off: "writeOffset s = length (image_data crc cur)"
    using disk by (simp_all add: disk_inv_def)
  have st: "stored_image crc (disk s) cur" using dir_images_stored [OF images] by simp
  have stored: "map_of (wal_files (disk s)) (segmentFileName (activeSegment s)) = Some (image_bytes crc cur)"
    using st num by (simp add: stored_image_def)
  have scan: "scan_records (scanSegment crc (img_rest (crash_image crc cur bodies k junk))) = []"
    using crash stored off size g by (simp add: crash_possible_def crash_image_def group_of_def frames_of_map)
  have "list_all loggable (take k bodies)" using g by (auto simp: group_of_def list_all_iff dest: in_set_takeD)
  note ext = extended_image [of crc cur, OF _ this scan]
  have ok: "image_ok crc cur" using st by (simp add: stored_image_def)
  have im: "crash_image crc cur bodies k junk =
      cur\<lparr>img_bodies := img_bodies cur @ take k bodies, img_rest := img_rest (crash_image crc cur bodies k junk)\<rparr>"
    by (simp add: crash_image_def)
  have "crash crc s k junk = write_file (segmentFileName (number_of cur)) (image_bytes crc (crash_image crc cur bodies k junk)) (disk s)"
    using g stored ext(2) [OF ok] im
    by (simp add: crash_def off write_at_image num group_of_def take_map frames_of_map) (simp add: crash_image_def)
  then show "dir_images crc (crash crc s k junk) (older @ crash_image crc cur bodies k junk # spares)"
    using dir_images_replace [OF images, of "crash_image crc cur bodies k junk"] ext(1) [OF ok] im by (simp add: crash_image_def)
qed

lemma torn_current:
  assumes disk: "disk_inv crc n older cur gs spares s" and g: "group_of crc (unsynced s) bodies" "unsynced s \<noteq> []"
    and crash: "crash_possible crc s k junk" and small: "writeOffset s + length (concat (unsynced s)) < 2 ^ 64"
  shows "torn_image crc (crash_image crc cur bodies k junk) gs bodies k junk"
proof -
  let ?im = "crash_image crc cur bodies k junk" and ?d = "length (frames_of crc (take k bodies)) + length junk"
  have clean: "img_rest cur = replicate (length (img_rest cur)) 0" and groups: "img_bodies cur = concat gs" "list_all (is_group crc) gs"
    and off: "writeOffset s = length (image_data crc cur)"
    using disk by (simp_all add: disk_inv_def clean_image_def)
  have size: "?d = length (frames_of crc bodies)" by (rule crash_images(2) [OF disk g crash])
  have "length (frames_of crc (header_body ?im # concat gs @ bodies)) = writeOffset s + length (concat (unsynced s))"
    using off groups g by (simp add: image_data_def crash_image_def header_body_def group_of_def frames_of_map)
  moreover have "drop ?d (img_rest cur) = replicate (length (drop ?d (img_rest cur))) 0"
    by (subst clean) (simp add: drop_replicate)
  then have "img_rest ?im = junk @ replicate (length (img_rest ?im) - length junk) 0" by (simp add: crash_image_def)
  moreover have "k \<le> length bodies" using crash g by (auto simp: crash_possible_def group_of_def)
  ultimately show ?thesis using groups g size small by (simp add: torn_image_def group_of_def) (simp add: crash_image_def)
qed

lemma unlogged_crash: "unlogged_drops (crash crc s k junk) = unlogged_drops (disk s)"
  by (simp add: crash_def write_at_def write_file_def split: option.split)

text \<open>Whatever the crash leaves, the directory is that of some written log, of which recovery gives back the records.\<close>

lemma crash_as_images:
  assumes inv: "disk_inv crc n older cur gs spares s" "committer_inv crc A s"
    and crash: "crash_possible crc s k junk" and small: "writeOffset s + length (concat (unsynced s)) + 17 < 2 ^ 64"
  obtains im groups torn k' junk' bodies
  where "dir_images crc (crash crc s k junk) (older @ im # spares)" "torn_image crc im groups torn k' junk'"
    "img_bodies im = img_bodies cur @ bodies" "number_of im = number_of cur" "\<forall>b\<in>set bodies. frame_of crc b \<in> set (unsynced s)"
proof (cases "unsynced s = []")
  case True
  have c: "clean_image cur" "img_bodies cur = concat gs" "list_all (is_group crc) gs" "writeOffset s = length (image_data crc cur)"
    "dir_images crc (disk s) (older @ cur # spares)"
    using inv(1) by (simp_all add: disk_inv_def)
  have "length (frames_of crc [record_body (GroupRec 17)]) = 17"
    using encodeGroup_frame [of crc 17] by (simp add: kGroupFrameBytes_def kFrameHeaderBytes_def del: record_body.simps)
  then have "torn_image crc cur gs [record_body (GroupRec 17)] 0 []"
    using c small True dummy_group [of crc] by (simp add: torn_image_def clean_image_def image_data_def del: record_body.simps)
  then show thesis using that [of cur gs "[record_body (GroupRec 17)]" 0 "[]" "[]"] c(5) True by (simp add: crash_def)
next
  case False
  then obtain bodies where g: "group_of crc (unsynced s) bodies" using inv(2) by (auto simp: committer_inv_def)
  have "\<forall>b\<in>set (take k bodies). frame_of crc b \<in> set (unsynced s)" using g by (auto simp: group_of_def dest: in_set_takeD)
  then show thesis
    using that [OF crash_images(1) [OF inv(1) g False crash] torn_current [OF inv(1) g False crash], of "take k bodies"] small
    by (simp add: crash_image_def)
qed

lemma held_event_recovered:
  assumes inv: "disk_inv crc n older cur gs spares s" "committer_inv crc A s"
    and held: "held_in (log_of (older @ cur # spares)) L (unlogged_drops (disk s)) sid ev" "sid \<notin> ahead crc s"
    and crash: "crash_possible crc s k junk" and small: "writeOffset s + length (concat (unsynced s)) + 17 < 2 ^ 64"
  shows "\<exists>st dir'. recoverWal crc no_faults now_ns (crash crc s k junk) = (Inr st, dir') \<and>
    (case map_of (rec_stories st) sid of None \<Rightarrow> None | Some story \<Rightarrow> map_of (rec_events story) ev) \<noteq> None"
proof -
  let ?dir = "crash crc s k junk"
  obtain im groups torn k' junk' bodies where im: "dir_images crc ?dir (older @ im # spares)" "torn_image crc im groups torn k' junk'"
    and ext: "img_bodies im = img_bodies cur @ bodies" "number_of im = number_of cur" "\<forall>b\<in>set bodies. frame_of crc b \<in> set (unsynced s)"
    by (rule crash_as_images [OF inv crash small])
  have clean: "list_all clean_image older" "list_all (\<lambda>i. img_bodies i = [] \<and> clean_image i) spares" "list_all (\<lambda>i. img_bodies i = []) spares"
    using inv(1) by (auto simp: disk_inv_def list_all_iff)
  have segs: "snd (manager_open ?dir) = map (segment_number \<circ> img_header) (older @ im # spares)"
    using opened_numbers [OF im(1)] by (simp add: comp_def)
  have stored: "list_all (stored_image crc ?dir) (older @ im # spares)" using im(1) by (simp add: dir_images_def)
  obtain st dir' where run: "recoverWal crc no_faults now_ns ?dir = (Inr st, dir')"
    using crash_recovers [OF segs stored clean(1,2) im(2)] by blast
  let ?M = "fold drop_step (unlogged_drops ?dir) (fold rec_step (written_log (older @ im # spares)) [])"
  have h: "holds st ?M" using recovered_holds(1) [OF run] by (simp only: segs written_log_read [OF stored])
  obtain seg b where seg: "survives sid ev seg (log_of (older @ cur # spares))"
    "\<forall>d\<in>set (unlogged_drops (disk s)). drop_story_id d = sid \<longrightarrow> drop_last_segment d < seg"
    using held(1) by (auto simp: held_in_def)
  have "entry_of b \<noteq> Some (LogD sid)" if "b \<in> set bodies" for b
    using held(2) ext(3) that by (auto simp: ahead_def)
  then have "LogD sid \<notin> snd ` set (entries_of (map (Pair (number_of cur)) bodies))"
    by (auto simp: entries_of_def set_map_filter)
  then have "survives sid ev seg (log_of (older @ im # spares))"
    using survives_append [OF seg(1)] by (simp add: log_of_current [OF clean(3)] ext(1,2))
  then have "has_copy ?M sid ev seg"
    using drop_steps_keep [OF replay_survivor] seg(2) by (simp add: unlogged_crash)
  then have "map_of (rec_events (storyOf st sid)) ev \<noteq> None"
    using has_copy_first story_holdsD(4) [OF holds_story [OF h, of sid], of ev] by metis
  then show ?thesis using run by (auto simp: storyOf_def new_RecoveredStory_def split: option.splits)
qed

lemma answered_is_held:
  assumes "queue_inv crc s" "live_inv crc A L X s" "(c, sid, ev) \<in> X" "results s c = Some CL_SUCCESS"
  shows "held_in A L (unlogged_drops (disk s)) sid ev \<and> sid \<notin> ahead crc s"
proof -
  have "\<not> waiting s c sid ev"
  proof
    assume "waiting s c sid ev"
    then have "\<exists>q\<in>set (todo s). q_completion q = Some c" by (force simp: waiting_def)
    then obtain q where "q \<in> set (todo s)" "q_completion q = Some c" by blast
    moreover have "set (todo s) \<subseteq> set (whole_of (committer s) @ kw_queue s)" using assms(1) by (auto simp: queue_inv_def todo_def)
    ultimately have "c \<in> set (completions_of (whole_of (committer s) @ kw_queue s))" by (auto simp: set_map_filter)
    then show False using assms(1,4) by (simp add: queue_inv_def)
  qed
  moreover have "\<not> doomed s c" using assms(4) by (simp add: doomed_def)
  ultimately show ?thesis using live_invD [OF assms(2,3)] unfolding placed_def by blast
qed

end
