(* ===== verification/WalSteps.thy ===== *)
theory WalSteps
  imports WalRuns
begin

text \<open>
  Every step of the keeper's write-ahead log up to the answer of a group keeps the invariant of its
  runs: requests and destroys, releases, the spares, the write and the sync of a group, its failure,
  and the registering of its entries.
\<close>

section \<open>Requests and releases\<close>

lemma wal_invI:
  assumes "disk_inv crc n older cur gs spares s" "queue_inv crc s" "committer_inv crc (log_of (older @ cur # spares)) s"
    "tracker_inv n (log_of (older @ cur # spares)) L s" "live_inv crc (log_of (older @ cur # spares)) L X s"
  shows "wal_inv crc n X s"
  using assms unfolding wal_inv_def by blast

lemma wal_invE:
  assumes "wal_inv crc n X s"
  obtains older cur gs spares L where "disk_inv crc n older cur gs spares s" "queue_inv crc s"
    "committer_inv crc (log_of (older @ cur # spares)) s" "tracker_inv n (log_of (older @ cur # spares)) L s"
    "live_inv crc (log_of (older @ cur # spares)) L X s"
  using assms unfolding wal_inv_def by blast

lemma manager_inv_later: "manager_inv crc n taken spares m \<Longrightarrow> n \<le> k \<Longrightarrow> manager_inv crc k taken spares m"
  by (auto simp: manager_inv_def)

lemma disk_inv_later: "disk_inv crc n older cur gs spares s \<Longrightarrow> n \<le> k \<Longrightarrow> disk_inv crc k older cur gs spares s"
  by (auto simp: disk_inv_def manager_inv_later)

lemma dropped_stories_append [simp]: "dropped_stories (xs @ ys) = dropped_stories xs @ dropped_stories ys"
  by (simp add: dropped_stories_def)

lemma completions_of_append [simp]: "completions_of (xs @ ys) = completions_of xs @ completions_of ys"
  by (simp add: List.map_filter_def)

lemma completions_of_Cons: "completions_of (q # g) = (case q_completion q of None \<Rightarrow> completions_of g | Some c \<Rightarrow> c # completions_of g)"
  by (simp add: List.map_filter_def split: option.split)

text \<open>A live request stays where it is when the entries to come only grow by others, and nothing else about it changes.\<close>

lemma waiting_push:
  "waiting s c sid ev \<Longrightarrow> todo s' = todo s @ [q] \<Longrightarrow> \<not> (q_dropped q \<and> q_story_id q = sid) \<Longrightarrow> waiting s' c sid ev"
proof -
  assume "waiting s c sid ev" and todo: "todo s' = todo s @ [q]" and other: "\<not> (q_dropped q \<and> q_story_id q = sid)"
  then obtain pre q0 post where w: "todo s = pre @ q0 # post" "\<not> q_dropped q0" "q_completion q0 = Some c"
    "q_story_id q0 = sid" "q_identity q0 = ev" "sid \<notin> set (dropped_stories post)"
    unfolding waiting_def by blast
  then have "todo s' = pre @ q0 # (post @ [q])" "sid \<notin> set (dropped_stories (post @ [q]))"
    using todo other by (auto simp: dropped_stories_def)
  then show ?thesis using w(2-5) unfolding waiting_def by blast
qed

lemma push_inv:
  assumes inv: "wal_inv crc n X s" and q: "entry_ok crc q" "q_completion q = None \<or> q_completion q = Some (completions s)"
    and k: "completions s \<le> k" "q_completion q \<noteq> None \<Longrightarrow> completions s < k"
    and X': "X' = (if q_dropped q then X - {x. fst (snd x) = q_story_id q} else insert (completions s, q_story_id q, q_identity q) X)"
  shows "wal_inv crc (Suc n) X' (push_entry q (s\<lparr>completions := k, inFlight := fl\<rparr>))"
proof -
  obtain older cur gs spares L where I: "disk_inv crc n older cur gs spares s" "queue_inv crc s"
    "committer_inv crc (log_of (older @ cur # spares)) s" "tracker_inv n (log_of (older @ cur # spares)) L s"
    "live_inv crc (log_of (older @ cur # spares)) L X s" by (rule wal_invE [OF inv])
  let ?s = "push_entry q (s\<lparr>completions := k, inFlight := fl\<rparr>)"
  have same: "disk ?s = disk s" "committer ?s = committer s" "kw_failed ?s = kw_failed s" "unsynced ?s = unsynced s"
    "activeSegment ?s = activeSegment s" "segmentFiles ?s = segmentFiles s" "writeOffset ?s = writeOffset s"
    "tracker ?s = tracker s" "drops_of seg ?s = drops_of seg s" "dropsBySegment ?s = dropsBySegment s" "completions ?s = k" "results ?s = results s"
    "kw_queue ?s = kw_queue s @ [q]" "groupCommitMaxBytes ?s = groupCommitMaxBytes s" for seg
    by (simp_all add: push_entry_def drops_of_def)
  have todo: "todo ?s = todo s @ [q]" by (simp add: todo_def same)
  have new: "results s (completions s) = None" "completions s \<notin> set (completions_of (whole_of (committer s) @ kw_queue s))"
    using I(2) by (auto simp: queue_inv_def)
  have old: "\<forall>c\<in>set (completions_of (whole_of (committer s) @ kw_queue s)). c < completions s" using I(2) by (simp add: queue_inv_def)
  show ?thesis
  proof (rule wal_invI)
    show "disk_inv crc (Suc n) older cur gs spares ?s"
      using I(1) disk_inv_later [of crc n older cur gs spares s "Suc n"] disk_inv_cong [of ?s s crc "Suc n"] same by simp
    show "queue_inv crc ?s" using I(2) q new old k
      by (auto simp: queue_inv_def same completions_of_Cons List.map_filter_simps split: option.splits dest: order.strict_trans2)
    show "committer_inv crc (log_of (older @ cur # spares)) ?s" using I(3) by (simp only: committer_inv_cong [OF same(2-5)])
    show "tracker_inv (Suc n) (log_of (older @ cur # spares)) L ?s" using I(4) by (auto simp: tracker_inv_def same todo)
    show "live_inv crc (log_of (older @ cur # spares)) L X' ?s"
    proof (rule live_invI)
      fix c sid ev
      assume x: "(c, sid, ev) \<in> X'"
      show "placed crc (log_of (older @ cur # spares)) L ?s c sid ev"
      proof (cases "\<not> q_dropped q \<and> (c, sid, ev) = (completions s, q_story_id q, q_identity q)")
        case True
        then have c: "q_completion q = Some c" using q by (auto simp: entry_ok_def)
        have "todo ?s = todo s @ q # []" "sid \<notin> set (dropped_stories [])" by (simp_all add: todo dropped_stories_def)
        then have "waiting ?s c sid ev" using True c unfolding waiting_def by blast
        then show ?thesis using True k(2) c by (simp add: same placed_def)
      next
        case False
        then have old: "(c, sid, ev) \<in> X" and other: "\<not> (q_dropped q \<and> q_story_id q = sid)" using x X' by (auto split: if_splits)
        have ah: "ahead crc ?s \<subseteq> ahead crc s \<union> (if q_dropped q then {q_story_id q} else {})"
          by (auto simp: ahead_def todo same dropped_stories_def)
        from live_invD [OF I(5) old] show ?thesis
        proof (cases rule: placedE)
          case 1
          then show ?thesis using waiting_push [OF 1(1) todo other] k(1) by (simp add: placed_def same)
        next
          case 2
          then have "sid \<notin> ahead crc ?s" using ah other by (auto split: if_splits)
          then show ?thesis using 2 k(1) by (simp add: placed_def same)
        next
          case 3
          then have "doomed ?s c" using q(2) by (auto simp: doomed_def todo same completions_of_Cons List.map_filter_simps)
          then show ?thesis using 3 k(1) by (simp add: placed_def same)
        qed
      qed
    qed
  qed
qed

lemma wal_inv_later:
  assumes "wal_inv crc n X s" "n \<le> k" "Y \<subseteq> X"
  shows "wal_inv crc k Y s"
proof -
  obtain older cur gs spares L where I: "disk_inv crc n older cur gs spares s" "queue_inv crc s"
    "committer_inv crc (log_of (older @ cur # spares)) s" "tracker_inv n (log_of (older @ cur # spares)) L s"
    "live_inv crc (log_of (older @ cur # spares)) L X s" by (rule wal_invE [OF assms(1)])
  have "tracker_inv k (log_of (older @ cur # spares)) L s" using I(4) assms(2) by (auto simp: tracker_inv_def)
  moreover have "live_inv crc (log_of (older @ cur # spares)) L Y s" using I(5) assms(3) unfolding live_inv_def by blast
  ultimately show ?thesis using wal_invI disk_inv_later [OF I(1) assms(2)] I(2,3) by blast
qed

lemma append_step:
  assumes inv: "wal_inv crc n X s" and enc: "encode_entry crc chronicle story e = Inr (frame, names)"
    and run: "appendDurable_queue (evStoryId e, event_sequence e) frame names s = ((Join c, True), s')"
  shows "wal_inv crc (Suc n) (live_step (Enqueued c (evStoryId e) (event_sequence e)) X) s'"
proof -
  let ?q = "\<lparr>q_dropped = False, q_story_id = evStoryId e, q_identity = event_sequence e, q_event = frame, q_names_frame = names,
    q_dropped_frame = [], q_completion = Some c\<rparr>"
  have s': "s' = push_entry ?q (s\<lparr>completions := c + 1, inFlight := omap_emplace (evStoryId e, event_sequence e) c (inFlight s)\<rparr>)"
    and c: "c = completions s"
    using run by (auto simp: appendDurable_queue_def Let_def split: lookup.splits)
  have "entry_ok crc ?q" using enc by (auto simp: entry_ok_def)
  then show ?thesis unfolding s' by (rule push_inv [OF inv]) (simp_all add: c)
qed

lemma dropped_step:
  assumes inv: "wal_inv crc n X s"
  shows "wal_inv crc (Suc n) (live_step (StoryGone sid) X) (storyDropped crc sid s)"
proof (cases "kw_state s = Running")
  case True
  let ?q = "\<lparr>q_dropped = True, q_story_id = sid, q_identity = (0, 0, 0),
    q_event = \<lparr>frame_header = [], frame_head = [], frame_record = [], frame_tail = []\<rparr>, q_names_frame = [],
    q_dropped_frame = dropped_frame crc sid, q_completion = None\<rparr>"
  have s': "storyDropped crc sid s = push_entry ?q (s\<lparr>completions := completions s, inFlight := inFlight s\<rparr>)"
    using True by (simp add: storyDropped_def)
  show ?thesis unfolding s' by (rule push_inv [OF inv]) (simp_all add: entry_ok_def)
next
  case False
  then show ?thesis using wal_inv_later [OF inv, of "Suc n" "X - {x. fst (snd x) = sid}"] by (simp add: storyDropped_def)
qed

text \<open>Releases only take copies away, of events that no live request has, or of a story about to be dropped.\<close>

lemma held_without:
  assumes "held_in A L drops sid ev" "\<not> (sid = r \<and> ev \<in> E)"
  shows "held_in A (without r E L) drops sid ev"
proof -
  obtain seg b where h: "(sid, ev, \<lparr>cp_segment = seg, cp_bytes = b\<rparr>) \<in> set L" "survives sid ev seg A"
    "\<forall>d\<in>set drops. drop_story_id d = sid \<longrightarrow> drop_last_segment d < seg"
    using assms(1) unfolding held_in_def by blast
  have "(sid, ev, \<lparr>cp_segment = seg, cp_bytes = b\<rparr>) \<in> set (without r E L)" using h(1) assms(2) by (simp add: without_def)
  then show ?thesis using h(2,3) unfolding held_in_def by blast
qed

lemma release_inv:
  assumes inv: "wal_inv crc n X s" and t: "\<And>L. tracks (tracker s) L \<Longrightarrow> tracks t (without sid E L)" and Y: "Y \<subseteq> X"
    and others: "\<And>c ev. (c, sid, ev) \<in> Y \<Longrightarrow> ev \<in> E \<Longrightarrow> sid \<in> ahead crc s"
  shows "wal_inv crc n Y (s\<lparr>tracker := t, addOrder := order\<rparr>)"
proof -
  obtain older cur gs spares L where I: "disk_inv crc n older cur gs spares s" "queue_inv crc s"
    "committer_inv crc (log_of (older @ cur # spares)) s" "tracker_inv n (log_of (older @ cur # spares)) L s"
    "live_inv crc (log_of (older @ cur # spares)) L X s" by (rule wal_invE [OF inv])
  let ?s = "s\<lparr>tracker := t, addOrder := order\<rparr>" and ?L = "without sid E L"
  have todo: "todo ?s = todo s" by (simp add: todo_def)
  have ah: "ahead crc ?s = ahead crc s" by (simp add: ahead_def todo)
  have wait: "waiting ?s c r ev = waiting s c r ev" for c r ev unfolding waiting_def todo by (rule refl)
  have doom: "doomed ?s c = doomed s c" for c by (simp add: doomed_def todo)
  show ?thesis
  proof (rule wal_invI)
    show "disk_inv crc n older cur gs spares ?s" using I(1) disk_inv_cong [of ?s s] by simp
    show "queue_inv crc ?s" using I(2) by (simp add: queue_inv_def)
    show "committer_inv crc (log_of (older @ cur # spares)) ?s" using I(3) committer_inv_cong [of ?s s] by simp
    show "tracker_inv n (log_of (older @ cur # spares)) ?L ?s"
      using I(4) t [of L] length_without [of sid E L] by (auto simp: tracker_inv_def todo drops_of_def)
    show "live_inv crc (log_of (older @ cur # spares)) ?L Y ?s"
    proof (rule live_invI)
      fix c sid' ev
      assume y: "(c, sid', ev) \<in> Y"
      from live_invD [OF I(5)] y Y have "placed crc (log_of (older @ cur # spares)) L s c sid' ev" by blast
      then show "placed crc (log_of (older @ cur # spares)) ?L ?s c sid' ev"
      proof (cases rule: placedE)
        case 2
        then have "\<not> (sid' = sid \<and> ev \<in> E)" using others y by blast
        from held_without [OF 2(1) this] show ?thesis using 2(2,3) by (simp add: placed_def ah)
      qed (simp_all add: placed_def wait doom)
    qed
  qed
qed

lemma pruneAddOrder_only: "\<exists>order. pruneAddOrder sid budget s = s\<lparr>addOrder := order\<rparr>"
proof -
  have same: "\<exists>order. s = s\<lparr>addOrder := order\<rparr>" by (rule exI [of _ "addOrder s"]) simp
  show ?thesis
  proof (cases "addOrder s sid")
    case None
    then show ?thesis using same by (simp add: pruneAddOrder_def)
  next
    case (Some events)
    then show ?thesis unfolding pruneAddOrder_def by (cases "pendingEvents_of sid (tracker s) = 0") (simp_all, blast+)
  qed
qed

lemma release_step_inv:
  assumes "wal_inv crc n X s" "\<And>L. tracks (tracker s) L \<Longrightarrow> tracks t (without sid (set evs) L)"
  shows "wal_inv crc (Suc n) (live_step (Released sid evs) X) (pruneAddOrder sid budget (s\<lparr>tracker := t\<rparr>))"
proof -
  obtain order where o: "pruneAddOrder sid budget (s\<lparr>tracker := t\<rparr>) = s\<lparr>tracker := t, addOrder := order\<rparr>"
    using pruneAddOrder_only [of sid budget "s\<lparr>tracker := t\<rparr>"] by auto
  have "wal_inv crc n (live_step (Released sid evs) X) (s\<lparr>tracker := t, addOrder := order\<rparr>)"
    by (rule release_inv [OF assms]) auto
  then show ?thesis unfolding o by (rule wal_inv_later) simp_all
qed

lemma discard_step: "wal_inv crc n X s \<Longrightarrow> wal_inv crc (Suc n) (live_step (Released sid [ev]) X) (eventDiscarded sid ev s)"
  unfolding eventDiscarded_def by (rule release_step_inv) (simp_all add: releaseEvent_tracks)

lemma release_small_step:
  assumes inv: "wal_inv crc n X s" and chunk: "omap_ok (logEvents chunk)" and run: "release_small sid chunk s = (finished, s')"
  shows "wal_inv crc (Suc n) (live_step (Released sid (map fst (logEvents chunk))) X) s'"
proof -
  have same: "wal_inv crc (Suc n) (live_step (Released sid (map fst (logEvents chunk))) X) s"
    using wal_inv_later [OF inv] by simp
  show ?thesis using run same release_step_inv [OF inv, of "releaseChunk sid chunk (tracker s)" sid "map fst (logEvents chunk)" kLockBatch]
      releaseChunk_tracks [OF _ chunk]
    by (auto simp: release_small_def Let_def split: if_splits)
qed

lemma release_hold_step:
  assumes inv: "wal_inv crc n X s" and run: "release_hold sid evs s = (rest, s')"
  shows "wal_inv crc (Suc n) (live_step (Released sid evs) X) s'"
proof (cases "pendingEvents_of sid (tracker s) = 0")
  case True
  have "s\<lparr>tracker := tracker s\<rparr> = s" by simp
  moreover have "tracks (tracker s) (without sid (set []) L)" if "tracks (tracker s) L" for L using that by simp
  ultimately have "wal_inv crc (Suc n) (live_step (Released sid []) X) (pruneAddOrder sid 0 s)"
    using release_step_inv [OF inv, of "tracker s" sid "[]" 0] by metis
  then show ?thesis using run True wal_inv_later [of crc "Suc n" "live_step (Released sid []) X" _ "Suc n" "live_step (Released sid evs) X"]
    by (auto simp: release_hold_def)
next
  case False
  have "wal_inv crc (Suc n) (live_step (Released sid (take kLockBatch evs)) X) s'"
    using run False release_step_inv [OF inv, of "fold (releaseEvent sid) (take kLockBatch evs) (tracker s)" sid "take kLockBatch evs" kLockBatch]
      fold_releaseEvent_tracks by (auto simp: release_hold_def)
  then show ?thesis by (rule wal_inv_later) (auto dest: in_set_takeD)
qed

text \<open>
  A step that leaves the log, the tracker and the entries to come as they are: the directory may be rewritten as long as it
  holds the same records, spares may come, and a destroyed story may be put on the list of unlogged drops.
\<close>

lemma quiet_step:
  assumes inv: "wal_inv crc n X s" and later: "n \<le> k"
    and disk: "\<And>older cur gs spares. disk_inv crc n older cur gs spares s \<Longrightarrow> \<exists>older' cur' gs' spares'.
      disk_inv crc k older' cur' gs' spares' s' \<and> log_of (older' @ cur' # spares') = log_of (older @ cur # spares)"
    and committer: "\<And>A. queue_inv crc s \<Longrightarrow> committer_inv crc A s \<Longrightarrow> committer_inv crc A s'"
    and same: "tracker s' = tracker s" "dropsBySegment s' = dropsBySegment s" "completions s' = completions s" "results s' = results s"
      "groupCommitMaxBytes s' = groupCommitMaxBytes s" "todo s' = todo s"
    and whole: "whole_of (committer s') @ kw_queue s' = whole_of (committer s) @ kw_queue s"
      "queue_inv crc s \<Longrightarrow> \<exists>finished. whole_of (committer s') = finished @ rest_of (committer s')"
      "queue_inv crc s \<Longrightarrow> length (whole_of (committer s')) \<le> 2 ^ 32"
    and status: "\<And>st. status_of (committer s) = Some st \<Longrightarrow> st \<noteq> CL_SUCCESS \<Longrightarrow> status_of (committer s') = Some st"
    and failed: "kw_failed s \<Longrightarrow> kw_failed s'" and active: "activeSegment s \<le> activeSegment s'"
    and drops: "\<And>d. d \<in> set (unlogged_drops (disk s')) \<Longrightarrow>
      d \<in> set (unlogged_drops (disk s)) \<or> kw_failed s' \<and> drop_story_id d \<in> ahead crc s"
    and ahead: "ahead crc s' \<subseteq> ahead crc s"
  shows "wal_inv crc k X s'"
proof -
  obtain older cur gs spares L where I: "disk_inv crc n older cur gs spares s" "queue_inv crc s"
    "committer_inv crc (log_of (older @ cur # spares)) s" "tracker_inv n (log_of (older @ cur # spares)) L s"
    "live_inv crc (log_of (older @ cur # spares)) L X s" by (rule wal_invE [OF inv])
  obtain older' cur' gs' spares' where D: "disk_inv crc k older' cur' gs' spares' s'"
    "log_of (older' @ cur' # spares') = log_of (older @ cur # spares)" using disk [OF I(1)] by blast
  have dr: "drops_of seg s' = drops_of seg s" for seg by (simp add: drops_of_def same)
  have "queue_inv crc s'" using I(2) whole by (simp add: queue_inv_def same)
  moreover have "committer_inv crc (log_of (older @ cur # spares)) s'" using committer [OF I(2,3)] .
  moreover have "tracker_inv k (log_of (older @ cur # spares)) L s'"
    unfolding tracker_inv_def same dr
  proof (intro conjI impI ballI)
    fix d assume ok: "\<not> kw_failed s'" and d: "d \<in> set (unlogged_drops (disk s'))"
    then have "d \<in> set (unlogged_drops (disk s))" "\<not> kw_failed s" using drops failed by blast+
    then have "drop_last_segment d < activeSegment s" using I(4) by (simp add: tracker_inv_def)
    then show "drop_last_segment d < activeSegment s'" using active by simp
  qed (use I(4) later in \<open>auto simp: tracker_inv_def\<close>)
  moreover have "live_inv crc (log_of (older @ cur # spares)) L X s'"
  proof (rule live_invI)
    fix c sid ev
    assume "(c, sid, ev) \<in> X"
    from live_invD [OF I(5) this] show "placed crc (log_of (older @ cur # spares)) L s' c sid ev"
    proof (cases rule: placedE)
      case 1
      then have "waiting s' c sid ev" unfolding waiting_def same by blast
      then show ?thesis using 1 by (simp add: placed_def same)
    next
      case 2
      then have "held_in (log_of (older @ cur # spares)) L (unlogged_drops (disk s')) sid ev"
        using drops unfolding held_in_def by blast
      then show ?thesis using 2 ahead by (auto simp: placed_def same)
    next
      case 3
      have "c \<in> set (completions_of (whole_of (committer s)))"
        if "c \<in> set (completions_of (whole_of (committer s')))"
      proof -
        have "c \<in> set (completions_of (whole_of (committer s') @ kw_queue s'))" using that by simp
        then have "c \<in> set (completions_of (whole_of (committer s) @ kw_queue s))" by (simp only: whole)
        moreover have "c \<notin> set (completions_of (kw_queue s))" using 3 by (simp add: doomed_def todo_def)
        ultimately show ?thesis by simp
      qed
      then have "doomed s' c" using 3 status by (auto simp: doomed_def same)
      then show ?thesis using 3 by (simp add: placed_def same)
    qed
  qed
  ultimately show ?thesis using wal_invI [OF D(1)] D(2) by simp
qed

lemma disk_unchanged:
  assumes "disk s' = disk s" "activeSegment s' = activeSegment s" "writeOffset s' = writeOffset s" "segmentFiles s' = segmentFiles s"
    "disk_inv crc n older cur gs spares s"
  shows "\<exists>older' cur' gs' spares'. disk_inv crc (Suc n) older' cur' gs' spares' s' \<and>
    log_of (older' @ cur' # spares') = log_of (older @ cur # spares)"
proof -
  have "disk_inv crc (Suc n) older cur gs spares s'"
    using disk_inv_later [OF assms(5)] disk_inv_cong [OF assms(1-4)] by simp
  then show ?thesis by blast
qed

text \<open>A group taken has at least one entry, and its size is bounded unless it is one entry.\<close>

lemma take_loop_split: "take_loop m g b q = (g', b', r) \<Longrightarrow> g' @ r = g @ q"
  by (induction m g b q arbitrary: g' b' r rule: take_loop.induct) (auto split: if_splits)

lemma take_loop_length:
  assumes "take_loop m g b q = (g', b', r)" "\<forall>x\<in>set q. 0 < q_bytes x" "length g \<le> b" "length g \<le> Suc 0 \<or> b \<le> m"
  shows "length g' \<le> Suc 0 \<or> length g' \<le> m"
  using assms
  by (induction m g b q arbitrary: g' b' r rule: take_loop.induct) (fastforce split: if_splits)+

text \<open>The frames of a group: those of bodies that recovery reads back as the entries of the group.\<close>

lemma record_entry:
  assumes "good_body (record_body r)" "\<And>e xs. r = EventRec e xs \<Longrightarrow> \<exists>p. encodeLogEvent e xs = Inr p" "\<And>h. r \<noteq> HeaderRec h"
  shows "entry_of (record_body r) =
    (case r of EventRec e xs \<Rightarrow> Some (LogE (evStoryId e) (event_sequence e)) | DroppedRec sid \<Rightarrow> Some (LogD sid) | _ \<Rightarrow> None)"
proof -
  have "decode_record (record_body r) = Some r" using decode_record_body [OF assms(1) _ assms(2)] assms(3) by blast
  then show ?thesis by (simp add: entry_of_def del: record_body.simps split: WalRecord.split)
qed

lemma record_loggable:
  assumes "good_body (record_body r)" "\<And>e xs. r = EventRec e xs \<Longrightarrow> \<exists>p. encodeLogEvent e xs = Inr p" "\<And>h. r \<noteq> HeaderRec h"
    "\<And>n. r = GroupRec n \<Longrightarrow> kGroupFrameBytes \<le> unat n"
  shows "loggable (record_body r)"
proof -
  have "decode_record (record_body r) = Some r" using decode_record_body [OF assms(1) _ assms(2)] assms(3) by blast
  then show ?thesis using assms by (auto simp: loggable_def simp del: record_body.simps split: WalRecord.split)
qed

lemma event_frame_length: "event_frame_size f = length (event_frame_bytes f)"
  by (simp add: event_frame_size_def event_frame_bytes_def)

definition q_bodies :: "(u32 \<Rightarrow> u8 list \<Rightarrow> u32) \<Rightarrow> Queued \<Rightarrow> u8 list \<Rightarrow> u8 list \<Rightarrow> bool" where
  "q_bodies crc q names body \<longleftrightarrow>
     (if q_dropped q then q_dropped_frame q = frame_of crc body
      else event_frame_bytes (q_event q) = frame_of crc body \<and> q_names_frame q = frame_of crc names) \<and>
     loggable body \<and> hd body \<noteq> type_byte Group \<and> entry_of body = Some (q_entry q) \<and>
     (\<not> q_dropped q \<longrightarrow> loggable names \<and> hd names \<noteq> type_byte Group \<and> entry_of names = None)"

context checksum
begin

lemma entry_bodies:
  assumes "entry_ok crc q"
  shows "\<exists>names body. q_bodies crc q names body"
proof (cases "q_dropped q")
  case True
  let ?body = "record_body (DroppedRec (q_story_id q))"
  have "q_dropped_frame q = frame_of crc ?body" and good: "good_body ?body"
    using assms True encodeDropped_frame [of crc "q_story_id q"] by (simp_all add: entry_ok_def dropped_frame_def)
  moreover have "loggable ?body" by (rule record_loggable [OF good]) simp_all
  moreover have "entry_of ?body = Some (q_entry q)" using record_entry [OF good] True by (simp add: q_entry_def)
  ultimately have "q_bodies crc q [] ?body" using True by (simp add: q_bodies_def)
  then show ?thesis by blast
next
  case False
  then obtain chronicle story e where enc: "encode_entry crc chronicle story e = Inr (q_event q, q_names_frame q)"
    and id: "evStoryId e = q_story_id q" "event_sequence e = q_identity q"
    using assms by (auto simp: entry_ok_def)
  let ?names = "\<lparr>names_story_id = evStoryId e, names_chronicle = chronicle, names_story = story\<rparr>"
  have ev: "encodeEvent crc e [] = Inr (q_event q)" and na: "encodeNames crc ?names = Inr (q_names_frame q)"
    using enc by (auto simp: encode_entry_def sum_bind_Inr)
  note fe = encodeEvent_frame [OF ev] and fn = encodeNames_frame [OF na]
  have parts: "\<exists>p. encodeLogEvent e [] = Inr p" using ev by (auto simp: encodeEvent_def sum_bind_Inr)
  let ?e = "EventRec e []" and ?n = "NamesRec ?names"
  have "loggable (record_body ?e)" "loggable (record_body ?n)"
    using fe fn parts by (auto intro!: record_loggable simp del: record_body.simps)
  moreover have "entry_of (record_body ?e) = Some (q_entry q)" "entry_of (record_body ?n) = None"
    using record_entry [of ?e] record_entry [of ?n] fe fn parts False id by (simp_all add: q_entry_def del: record_body.simps)
  ultimately have "q_bodies crc q (record_body ?n) (record_body ?e)" using False fe fn by (simp add: q_bodies_def)
  then show ?thesis by blast
qed

end

context checksum
begin

lemma q_bytes_length: "q_bodies crc q names body \<Longrightarrow> q_bytes q = length (frame_of crc body)"
  by (auto simp: q_bodies_def q_bytes_def event_frame_length)

lemma q_bytes_positive: "entry_ok crc q \<Longrightarrow> 0 < q_bytes q"
  using entry_bodies [of q] q_bytes_length [of q] by (auto simp: frame_of_def)

lemma group_bodies:
  assumes "list_all (entry_ok crc) g"
  shows "\<exists>bodies. fst (group_frames named here g) = map (frame_of crc) bodies \<and> list_all loggable bodies \<and>
    list_all (\<lambda>b. hd b \<noteq> type_byte Group) bodies \<and> length (frames_of crc bodies) = group_bytes named here g \<and>
    length bodies \<le> 2 * length g \<and> entries_of (map (Pair seg) bodies) = map (\<lambda>q. (seg, q_entry q)) g"
  using assms
proof (induction g arbitrary: here)
  case (Cons q g)
  obtain names body where b: "q_bodies crc q names body" using entry_bodies [of q] Cons.prems by auto
  have ih: "list_all (entry_ok crc) g" using Cons.prems by simp
  show ?case
  proof (cases "\<not> q_dropped q \<and> q_story_id q \<notin> set named \<and> q_story_id q \<notin> set here")
    case True
    obtain bodies where B: "fst (group_frames named (q_story_id q # here) g) = map (frame_of crc) bodies" "list_all loggable bodies"
      "list_all (\<lambda>b. hd b \<noteq> type_byte Group) bodies" "length (frames_of crc bodies) = group_bytes named (q_story_id q # here) g"
      "length bodies \<le> 2 * length g" "entries_of (map (Pair seg) bodies) = map (\<lambda>q. (seg, q_entry q)) g"
      using Cons.IH [OF ih, of "q_story_id q # here"] by blast
    have "fst (group_frames named here (q # g)) = map (frame_of crc) (names # body # bodies)"
      using True b B(1) by (auto simp: q_bodies_def split: prod.split)
    moreover have "length (frames_of crc (names # body # bodies)) = group_bytes named here (q # g)"
      using True b B(4) q_bytes_length [OF b] by (simp add: q_bodies_def frames_of_def)
    moreover have "list_all loggable (names # body # bodies)" "list_all (\<lambda>b. hd b \<noteq> type_byte Group) (names # body # bodies)"
      "entries_of (map (Pair seg) (names # body # bodies)) = map (\<lambda>q. (seg, q_entry q)) (q # g)"
      "length (names # body # bodies) \<le> 2 * length (q # g)"
      using True b B by (simp_all add: q_bodies_def)
    ultimately show ?thesis by blast
  next
    case False
    obtain bodies where B: "fst (group_frames named here g) = map (frame_of crc) bodies" "list_all loggable bodies"
      "list_all (\<lambda>b. hd b \<noteq> type_byte Group) bodies" "length (frames_of crc bodies) = group_bytes named here g"
      "length bodies \<le> 2 * length g" "entries_of (map (Pair seg) bodies) = map (\<lambda>q. (seg, q_entry q)) g"
      using Cons.IH [OF ih, of here] by blast
    have "fst (group_frames named here (q # g)) = map (frame_of crc) (body # bodies)"
      using False b B(1) by (auto simp: q_bodies_def split: prod.split if_splits)
    moreover have "length (frames_of crc (body # bodies)) = group_bytes named here (q # g)"
      using False b B(4) q_bytes_length [OF b] by (auto simp: frames_of_def)
    moreover have "list_all loggable (body # bodies)" "list_all (\<lambda>b. hd b \<noteq> type_byte Group) (body # bodies)"
      "entries_of (map (Pair seg) (body # bodies)) = map (\<lambda>q. (seg, q_entry q)) (q # g)"
      "length (body # bodies) \<le> 2 * length (q # g)"
      using b B by (simp_all add: q_bodies_def)
    ultimately show ?thesis by blast
  qed
qed (simp add: frames_of_def)

lemma frames_bound: "list_all loggable bodies \<Longrightarrow> length (frames_of crc bodies) \<le> length bodies * (kMaxBodyBytes + 8)"
  by (induction bodies) (auto simp: frames_of_def frame_of_def loggable_def good_body_def)

lemma written_group:
  assumes "list_all (entry_ok crc) g" "length g \<le> 2 ^ 32"
  shows "\<exists>bodies. group_of crc (group_frame crc (groupBytes g named) # fst (group_frames named [] g)) bodies \<and>
    length (frames_of crc bodies) = groupBytes g named \<and> entries_of (map (Pair seg) bodies) = map (\<lambda>q. (seg, q_entry q)) g"
proof -
  obtain bodies where B: "fst (group_frames named [] g) = map (frame_of crc) bodies" "list_all loggable bodies"
    "list_all (\<lambda>b. hd b \<noteq> type_byte Group) bodies" "length (frames_of crc bodies) = group_bytes named [] g"
    "length bodies \<le> 2 * length g" "entries_of (map (Pair seg) bodies) = map (\<lambda>q. (seg, q_entry q)) g"
    using group_bodies [OF assms(1), of named "[]" seg] by blast
  let ?n = "groupBytes g named" and ?head = "record_body (GroupRec (of_nat (groupBytes g named)))"
  have head: "group_frame crc ?n = frame_of crc ?head" "good_body ?head" "length (frame_of crc ?head) = kGroupFrameBytes"
    using encodeGroup_frame [of crc "of_nat ?n"] by (simp_all add: group_frame_def del: record_body.simps)
  have size: "length (frames_of crc (?head # bodies)) = ?n"
    using head(3) B(4) by (simp add: groupBytes_def frames_of_def del: record_body.simps)
  have "length bodies * (kMaxBodyBytes + 8) \<le> 2 * 2 ^ 32 * (kMaxBodyBytes + 8)" using B(5) assms(2) by (intro mult_right_mono) simp_all
  then have "length (frames_of crc bodies) \<le> 2 ^ 33 * (kMaxBodyBytes + 8)" using frames_bound [OF B(2)] by simp
  then have "?n < 2 ^ 64" using B(4) by (simp add: groupBytes_def kMaxBodyBytes_def kGroupFrameBytes_def kFrameHeaderBytes_def)
  then have "unat (of_nat ?n :: u64) = ?n" by (simp add: unat_of_nat)
  then have "loggable ?head" using head(2) by (intro record_loggable) (auto simp: groupBytes_def)
  moreover have "entry_of ?head = None" using record_entry [OF head(2)] by (simp del: record_body.simps)
  ultimately have "group_of crc (group_frame crc ?n # fst (group_frames named [] g)) (?head # bodies)"
    "entries_of (map (Pair seg) (?head # bodies)) = map (\<lambda>q. (seg, q_entry q)) g"
    using B head(1) size by (simp_all add: group_of_def is_group_def del: record_body.simps)
  then show ?thesis using size by blast
qed

end

context checksum
begin

lemma take_step:
  assumes inv: "wal_inv crc n X s" and run: "take_group s = Some s'"
  shows "wal_inv crc (Suc n) X s'"
proof -
  obtain grp bytes rest where w: "committer s = Waiting" and t: "take_loop (groupCommitMaxBytes s) [] 0 (kw_queue s) = (grp, bytes, rest)"
    and s': "s' = s\<lparr>kw_queue := rest, queuedBytes := queuedBytes s - bytes, committer := Taken grp (kw_failed s)\<rparr>"
    using run by (auto simp: take_group_def split: if_splits prod.splits)
  have parts: "grp @ rest = kw_queue s" using take_loop_split [OF t] by simp
  show ?thesis
  proof (rule quiet_step [OF inv])
    show "length (whole_of (committer s')) \<le> 2 ^ 32" if q: "queue_inv crc s"
    proof -
      have "\<forall>x\<in>set (kw_queue s). 0 < q_bytes x" using q q_bytes_positive by (simp add: queue_inv_def list_all_iff)
      then have "length grp \<le> Suc 0 \<or> length grp \<le> groupCommitMaxBytes s" using take_loop_length [OF t] by simp
      then show ?thesis using q by (auto simp: s' queue_inv_def)
    qed
    show "committer_inv crc A s'" if "committer_inv crc A s" for A using that w by (auto simp: s' committer_inv_def)
    show "ahead crc s' \<subseteq> ahead crc s" using parts w by (auto simp: s' ahead_def todo_def)
  qed (use parts w in \<open>auto simp: s' todo_def intro: disk_unchanged\<close>)
qed

lemma fail_inv:
  assumes inv: "wal_inv crc n X s" and c: "committer s = Taken g latched \<or> committer s = Written g bytes named" and later: "n \<le> k"
  shows "wal_inv crc k X (failGroup fault g w s)"
proof -
  let ?s = "failGroup fault g w s"
  have f: "committer ?s = Recording g (dropped_stories g) w" "kw_failed ?s" "unsynced ?s = unsynced s" "kw_queue ?s = kw_queue s"
    "tracker ?s = tracker s" "dropsBySegment ?s = dropsBySegment s" "completions ?s = completions s" "results ?s = results s"
    "groupCommitMaxBytes ?s = groupCommitMaxBytes s" "activeSegment ?s = activeSegment s" "writeOffset ?s = writeOffset s"
    "segmentFiles ?s = segmentFiles s"
    by (simp_all add: failGroup_def recordUnloggedDrops_def Let_def)
  have ah: "ahead crc ?s = ahead crc s" using c by (auto simp: ahead_def todo_def f)
  show ?thesis
  proof (rule quiet_step [OF inv later])
    fix older cur gs spares
    assume D: "disk_inv crc n older cur gs spares s"
    have "dir_images crc (disk ?s) = dir_images crc (disk s)"
      by (rule ext) (simp add: failGroup_def recordUnloggedDrops_def Let_def put_drops_def dir_images_drops)
    then have "disk_inv crc k older cur gs spares ?s" using disk_inv_later [OF D later] by (simp add: disk_inv_def f)
    then show "\<exists>older' cur' gs' spares'. disk_inv crc k older' cur' gs' spares' ?s \<and>
        log_of (older' @ cur' # spares') = log_of (older @ cur # spares)" by blast
  next
    fix d
    assume "d \<in> set (unlogged_drops (disk ?s))"
    then have "d \<in> set (unlogged_drops (disk s)) \<or> drop_story_id d \<in> set (dropped_stories g)"
      by (auto simp: failGroup_def recordUnloggedDrops_def Let_def put_drops_def split: if_splits)
    then show "d \<in> set (unlogged_drops (disk s)) \<or> kw_failed ?s \<and> drop_story_id d \<in> ahead crc s"
      using c f(2) by (auto simp: ahead_def todo_def)
  next
    show "committer_inv crc A ?s" if "committer_inv crc A s" for A using that by (simp add: committer_inv_def f)
  qed (use c in \<open>auto simp: f todo_def ah queue_inv_def\<close>)
qed

lemma latched_step:
  assumes inv: "wal_inv crc n X s" and c: "committer s = Taken g True"
  shows "wal_inv crc (Suc n) X (recordUnloggedDrops fault g (s\<lparr>committer := Recording g (dropped_stories g) 0\<rparr>))"
proof -
  have "kw_failed s" using inv c by (auto simp: wal_inv_def committer_inv_def)
  then have "s\<lparr>kw_failed := True, committer := Recording g (dropped_stories g) 0\<rparr> = s\<lparr>committer := Recording g (dropped_stories g) 0\<rparr>"
    by simp
  then have "recordUnloggedDrops fault g (s\<lparr>committer := Recording g (dropped_stories g) 0\<rparr>) = failGroup fault g 0 s"
    by (simp add: failGroup_def)
  then show ?thesis using fail_inv [OF inv, of g True] c by simp
qed

lemma write_step:
  assumes inv: "wal_inv crc n X s" and c: "committer s = Taken g False" and later: "n \<le> k"
  shows "wal_inv crc k X (write_group crc f g s)"
proof -
  let ?frames = "group_frame crc (groupBytes g (namedInActive s)) # fst (group_frames (namedInActive s) [] g)"
  let ?s = "s\<lparr>unsynced := ?frames, committer := Written g (groupBytes g (namedInActive s)) (snd (group_frames (namedInActive s) [] g))\<rparr>"
  have ok: "queue_inv crc s" using inv by (auto simp: wal_inv_def)
  then obtain bodies where B: "group_of crc ?frames bodies" "length (frames_of crc bodies) = groupBytes g (namedInActive s)"
    "entries_of (map (Pair (activeSegment s)) bodies) = map (\<lambda>q. (activeSegment s, q_entry q)) g"
    using written_group [of g "namedInActive s" "activeSegment s"] c by (auto simp: queue_inv_def)
  have size: "length (concat ?frames) = groupBytes g (namedInActive s)"
    using B(1,2) by (simp only: group_of_def frames_of_map)
  have logged: "sid \<in> set (dropped_stories g)" if "b \<in> set bodies" "entry_of b = Some (LogD sid)" for b sid
  proof -
    have "(activeSegment s, LogD sid) \<in> set (entries_of (map (Pair (activeSegment s)) bodies))"
      using that by (force simp: entries_of_def set_map_filter)
    then show ?thesis unfolding B(3) by (force simp: q_entry_def dropped_stories_def split: if_splits)
  qed
  have "wal_inv crc k X ?s"
  proof (rule quiet_step [OF inv later])
    show "ahead crc ?s \<subseteq> ahead crc s"
      using B(1) logged c by (auto simp: ahead_def todo_def group_of_def)
    show "committer_inv crc A ?s" if "committer_inv crc A s" for A
      using that B c size by (auto simp: committer_inv_def simp del: length_concat)
    show "\<exists>older' cur' gs' spares'. disk_inv crc k older' cur' gs' spares' ?s \<and>
        log_of (older' @ cur' # spares') = log_of (older @ cur # spares)" if "disk_inv crc n older cur gs spares s" for older cur gs spares
      using disk_inv_later [OF that later] disk_inv_cong [of ?s s] by force
  qed (use c in \<open>auto simp: todo_def queue_inv_def\<close>)
  from this fail_inv [OF this, of g undefined "groupBytes g (namedInActive s)" "snd (group_frames (namedInActive s) [] g)" k]
  show ?thesis by (simp add: write_group_def failGroup_def Let_def split_beta)
qed

end

section \<open>Preparing and taking spares\<close>

lemma encodeHeader_good: "good_body (record_body (HeaderRec h)) \<Longrightarrow> encodeHeader crc h = Inr (frame_of crc (record_body (HeaderRec h)))"
  by (auto simp: encodeHeader_def fb_put_def fb_new_split fb_putString_frame fb_finish_frame good_body_def string_field_def)

definition fresh_image :: "u64 \<Rightarrow> u64 \<Rightarrow> cpp_string \<Rightarrow> nat \<Rightarrow> SegmentImage" where
  "fresh_image segment created endpoint zeros =
     \<lparr>img_header = \<lparr>format_version = kFormatVersion, segment_number = segment, created_ns = created, keeper_endpoint = endpoint\<rparr>,
      img_bodies = [], img_rest = replicate zeros 0\<rparr>"

lemma fresh_image_simps [simp]:
  "number_of (fresh_image n t e z) = n" "img_bodies (fresh_image n t e z) = []" "clean_image (fresh_image n t e z)"
  by (simp_all add: fresh_image_def clean_image_def)

lemma fresh_image_ok: "endpoint_ok e \<Longrightarrow> image_ok crc (fresh_image n t e z)"
  by (simp add: fresh_image_def image_ok_def header_body_def endpoint_ok_def no_frame_in_zeros del: record_body.simps)

lemma fresh_image_data: "endpoint_ok e \<Longrightarrow> image_data crc (fresh_image n t e z) = header_frame crc n t e"
  by (simp add: fresh_image_def image_data_def header_body_def endpoint_ok_def header_frame_def encodeHeader_good del: record_body.simps)

abbreviation only_spares :: "SegmentImage list \<Rightarrow> bool" where
  "only_spares \<equiv> list_all (\<lambda>i. img_bodies i = [] \<and> clean_image i)"

definition is_spare :: "(u32 \<Rightarrow> u8 list \<Rightarrow> u32) \<Rightarrow> SegmentImage list \<Rightarrow> Spare \<Rightarrow> bool" where
  "is_spare crc spares sp \<longleftrightarrow> spares \<noteq> [] \<and> number_of (last spares) = sp_segment sp \<and>
     sp_data_offset sp = length (image_data crc (last spares)) \<and> sp_data_offset sp \<le> sp_size_bytes sp"

lemma is_spare_append: "is_spare crc spares sp \<Longrightarrow> is_spare crc (others @ spares) sp"
  by (simp add: is_spare_def)

lemma write_file_drops [simp]: "unlogged_drops (write_file name bytes dir) = unlogged_drops dir"
  by (simp add: write_file_def)

lemma prepare_images:
  assumes dir: "dir_images crc dir images" "\<forall>i\<in>set images. number_of i < number" and ok: "endpoint_ok (sm_keeperEndpoint m)"
    and run: "prepare crc fault now number bytes m dir = (made, dir')"
  shows "\<exists>extra. dir_images crc dir' (images @ extra) \<and> only_spares extra \<and> (\<forall>i\<in>set extra. number_of i = number) \<and>
    unlogged_drops dir' = unlogged_drops dir \<and> (\<forall>sp. made = Some sp \<longrightarrow> is_spare crc extra sp)"
proof -
  let ?e = "sm_keeperEndpoint m"
  let ?im = "fresh_image number now ?e (max bytes (length (header_frame crc number now ?e)) - length (header_frame crc number now ?e))"
  have bytes: "image_bytes crc ?im = header_frame crc number now ?e @
      replicate (max bytes (length (header_frame crc number now ?e)) - length (header_frame crc number now ?e)) 0"
    by (simp add: fresh_image_data [OF ok]) (simp add: fresh_image_def)
  have new: "dir_images crc (write_file (segmentFileName number) (image_bytes crc ?im) dir) (images @ [?im])"
    using dir_images_new [OF dir(1) fresh_image_ok [OF ok]] dir(2) by simp
  have with_spare: ?thesis if "dir' = write_file (segmentFileName number) (image_bytes crc ?im) dir"
    "\<forall>sp. made = Some sp \<longrightarrow> sp_segment sp = number \<and> sp_data_offset sp = length (header_frame crc number now ?e) \<and>
      sp_data_offset sp \<le> sp_size_bytes sp"
    using new that by (intro exI [of _ "[?im]"]) (auto simp: is_spare_def fresh_image_data [OF ok])
  have without: ?thesis if "dir_images crc dir' images" "unlogged_drops dir' = unlogged_drops dir" "made = None"
    using that by (intro exI [of _ "[]"]) simp
  show ?thesis
  proof (cases fault)
    case None
    then show ?thesis using run with_spare by (auto simp: prepare_def Let_def bytes)
  next
    case (Some f)
    have partial: "dir_images crc (write_file (segmentFileName number @ partial_suffix) (pf_partial f) dir) images"
      by (rule dir_images_other_file [OF dir(1) partial_not_segment])
    show ?thesis using run Some with_spare without dir(1) partial by (auto simp: prepare_def Let_def bytes split: if_splits)
  qed
qed

lemma manager_numbers:
  assumes "manager_inv crc n taken spares m" "n + 3 < 2 ^ 64"
  shows "unat (nextSegment m + 1) = unat (nextSegment m) + 1" "nextSegment m < nextSegment m + 1"
proof -
  have "unat (nextSegment m) + 1 < 2 ^ 64" using assms by (simp add: manager_inv_def)
  then show "unat (nextSegment m + 1) = unat (nextSegment m) + 1" by (simp add: unat_word_ariths)
  then show "nextSegment m < nextSegment m + 1" by (simp add: word_less_nat_alt)
qed

lemma manager_prepares:
  assumes dir: "dir_images crc dir (taken @ spares)" "only_spares spares" and inv: "manager_inv crc n taken spares m"
    and small: "n + 3 < 2 ^ 64" and m': "sm_keeperEndpoint m' = sm_keeperEndpoint m"
    and run: "prepare crc fault now (nextSegment m) bytes m' dir = (made, dir')"
  obtains spares' where "dir_images crc dir' (taken @ spares')" "only_spares spares'" "unlogged_drops dir' = unlogged_drops dir"
    "\<forall>sp. made = Some sp \<longrightarrow> is_spare crc spares' sp" "\<forall>i\<in>set (taken @ spares'). number_of i < nextSegment m + 1"
proof -
  have "\<forall>i\<in>set (taken @ spares). number_of i < nextSegment m" "endpoint_ok (sm_keeperEndpoint m')"
    using inv m' by (simp_all add: manager_inv_def)
  from prepare_images [OF dir(1) this run]
  obtain extra where e: "dir_images crc dir' ((taken @ spares) @ extra)" "only_spares extra" "\<forall>i\<in>set extra. number_of i = nextSegment m"
    "unlogged_drops dir' = unlogged_drops dir" "\<And>sp. made = Some sp \<Longrightarrow> is_spare crc extra sp" by blast
  have "\<forall>i\<in>set (taken @ spares @ extra). number_of i < nextSegment m + 1"
    using inv e(3) manager_numbers(2) [OF inv small] by (auto simp: manager_inv_def intro: order.strict_trans)
  moreover have "is_spare crc (spares @ extra) sp" if "made = Some sp" for sp
    using e(5) [OF that] by (rule is_spare_append)
  ultimately show thesis using that [of "spares @ extra"] e(1,2,4) dir(2) by simp
qed

lemma disk_invD:
  assumes "disk_inv crc n older cur gs spares s"
  shows "dir_images crc (disk s) ((older @ [cur]) @ spares)" "only_spares spares" "list_all clean_image (older @ [cur])"
    "manager_inv crc n (older @ [cur]) spares (segmentFiles s)"
    "number_of cur = activeSegment s" "img_bodies cur = concat gs" "list_all (is_group crc) gs" "writeOffset s = length (image_data crc cur)"
  using assms by (auto simp: disk_inv_def list_all_iff)

lemma disk_invI:
  assumes "dir_images crc (disk s) ((older @ [cur]) @ spares)" "only_spares spares" "list_all clean_image (older @ [cur])"
    "manager_inv crc n (older @ [cur]) spares (segmentFiles s)"
    "number_of cur = activeSegment s" "img_bodies cur = concat gs" "list_all (is_group crc) gs" "writeOffset s = length (image_data crc cur)"
  shows "disk_inv crc n older cur gs spares s"
  using assms by (auto simp: disk_inv_def list_all_iff)

lemma log_of_spares: "only_spares spares \<Longrightarrow> log_of (older @ cur # spares) = log_of (older @ [cur])"
  using log_of_current [of spares older cur] log_of_current [of "[]" older cur] by (simp add: list_all_iff)

lemma prepare_disk:
  assumes D: "disk_inv crc n older cur gs spares s" and small: "n + 3 < 2 ^ 64"
    and run: "preparer_round crc fault now (segmentFiles s) (disk s) = Some (m, dir)"
  shows "\<exists>spares'. disk_inv crc (Suc n) older cur gs spares' (s\<lparr>segmentFiles := m, disk := dir\<rparr>) \<and>
    log_of (older @ cur # spares') = log_of (older @ cur # spares) \<and> unlogged_drops dir = unlogged_drops (disk s)"
proof -
  note d = disk_invD [OF D] and num = manager_numbers [OF disk_invD(4) [OF D] small]
  let ?m = "segmentFiles s"
  let ?m1 = "?m\<lparr>preparing := True, nextSegment := nextSegment ?m + 1\<rparr>"
  obtain made where p: "prepare crc fault now (nextSegment ?m) (sm_segmentBytes ?m) ?m1 (disk s) = (made, dir)"
    and m: "m = preparer_end made ?m1" and none: "spare ?m = None"
    using run by (auto simp: preparer_round_def preparer_begin_def split: if_splits prod.splits)
  obtain spares' where sp: "dir_images crc dir ((older @ [cur]) @ spares')" "only_spares spares'" "unlogged_drops dir = unlogged_drops (disk s)"
    "\<forall>t. made = Some t \<longrightarrow> is_spare crc spares' t" "\<forall>i\<in>set ((older @ [cur]) @ spares'). number_of i < nextSegment ?m + 1"
    by (rule manager_prepares [OF d(1,2,4) small _ p]) simp
  have "manager_inv crc (Suc n) (older @ [cur]) spares' m"
    using d(4) sp(4,5) num none by (auto simp: m preparer_end_def manager_inv_def is_spare_def split: option.split)
  then have "disk_inv crc (Suc n) older cur gs spares' (s\<lparr>segmentFiles := m, disk := dir\<rparr>)"
    using d sp by (intro disk_invI) simp_all
  then show ?thesis using log_of_spares [OF d(2)] log_of_spares [OF sp(2)] sp(3) by auto
qed

lemma prepare_step:
  assumes inv: "wal_inv crc n X s" and small: "n + 3 < 2 ^ 64"
    and run: "preparer_round crc fault now (segmentFiles s) (disk s) = Some (m, dir)"
  shows "wal_inv crc (Suc n) X (s\<lparr>segmentFiles := m, disk := dir\<rparr>)"
proof -
  let ?s = "s\<lparr>segmentFiles := m, disk := dir\<rparr>"
  obtain older cur gs spares where D: "disk_inv crc n older cur gs spares s" using inv unfolding wal_inv_def by blast
  then have drops: "unlogged_drops dir = unlogged_drops (disk s)" using prepare_disk [OF _ small run] by blast
  have ah: "ahead crc ?s = ahead crc s" by (simp add: ahead_def todo_def)
  show ?thesis
  proof (rule quiet_step [OF inv])
    show "\<exists>older' cur' gs' spares'. disk_inv crc (Suc n) older' cur' gs' spares' ?s \<and>
        log_of (older' @ cur' # spares') = log_of (older @ cur # spares)" if "disk_inv crc n older cur gs spares s" for older cur gs spares
      using prepare_disk [OF that small run] by blast
    show "committer_inv crc A ?s" if "committer_inv crc A s" for A using that committer_inv_cong [of ?s s] by simp
  qed (auto simp: todo_def ah drops queue_inv_def)
qed

text \<open>Growing a spare changes no record.\<close>

lemma put_zeros_images:
  assumes dir: "dir_images crc dir (xs @ [im])" and clean: "clean_image im" and pos: "length (image_data crc im) \<le> pos"
  shows "\<exists>im'. dir_images crc (put_zeros (segmentFileName (number_of im)) pos k dir) (xs @ [im']) \<and> number_of im' = number_of im \<and>
    img_bodies im' = img_bodies im \<and> clean_image im' \<and> image_data crc im' = image_data crc im"
proof -
  let ?d = "pos - length (image_data crc im)"
  let ?rest = "take ?d (img_rest im) @ replicate k 0 @ drop (?d + k) (img_rest im)"
  let ?im = "im\<lparr>img_rest := ?rest\<rparr>"
  have st: "stored_image crc dir im" using dir_images_stored [OF dir] by simp
  have zeros: "set (img_rest im) \<subseteq> {0}" using clean by (metis clean_image_def set_replicate_conv_if subset_refl empty_subsetI)
  have "set ?rest \<subseteq> {0}" using zeros set_take_subset [of ?d "img_rest im"] set_drop_subset [of "?d + k" "img_rest im"] by auto
  then have rest: "?rest = replicate (length ?rest) 0" by (intro replicate_eqI) auto
  have data: "image_data crc ?im = image_data crc im" by (simp add: image_data_def header_body_def del: record_body.simps)
  have "image_ok crc ?im" using st no_frame_in_zeros [of crc "length ?rest"] rest
    by (simp add: stored_image_def image_ok_def header_body_def del: record_body.simps)
  from dir_images_replace [OF dir this]
  have "dir_images crc (write_file (segmentFileName (number_of im)) (image_bytes crc ?im) dir) (xs @ [?im])" by simp
  moreover have "put_zeros (segmentFileName (number_of im)) pos k dir = write_file (segmentFileName (number_of im)) (image_bytes crc ?im) dir"
    using st data pos by (simp add: put_zeros_def stored_image_def)
  ultimately show ?thesis using data rest by (intro exI [of _ ?im]) (simp add: clean_image_def)
qed

lemma put_zeros_drops [simp]: "unlogged_drops (put_zeros name pos k dir) = unlogged_drops dir"
  by (simp add: put_zeros_def split: option.split)

text \<open>What \<^verbatim>\<open>takeSpare\<close> leaves: the spares and the manager before the hand-over, and the last spare handed over.\<close>

lemma spare_or_prepare_inv:
  assumes dir: "dir_images crc dir (taken @ spares)" "only_spares spares" and inv: "manager_inv crc n taken spares m"
    and small: "n + 3 < 2 ^ 64" and run: "spare_or_prepare crc f min_bytes m dir = (got, m', dir')"
  shows "\<exists>spares'. dir_images crc dir' (taken @ spares') \<and> only_spares spares' \<and> manager_inv crc (Suc n) taken spares' m' \<and>
    unlogged_drops dir' = unlogged_drops dir \<and> (\<forall>sp. got = Some sp \<longrightarrow> is_spare crc spares' sp)"
proof (cases "spare m")
  case (Some sp)
  then have "is_spare crc spares sp" using inv by (simp add: manager_inv_def is_spare_def)
  then show ?thesis using Some run dir manager_inv_later [OF inv, of "Suc n"] by (auto simp: spare_or_prepare_def)
next
  case None
  obtain made where p: "prepare crc (tf_prepare f) (tf_now f) (nextSegment m) (max (sm_segmentBytes m) min_bytes) m dir = (made, dir')"
    and out: "(got, m') = (case made of None \<Rightarrow> (None, m\<lparr>nextSegment := nextSegment m + 1, preparerFailed := True\<rparr>)
      | Some sp \<Rightarrow> (Some sp, m\<lparr>nextSegment := nextSegment m + 1, spare := Some sp\<rparr>))"
    using run None by (auto simp: spare_or_prepare_def Let_def split: prod.splits option.splits)
  obtain spares' where sp: "dir_images crc dir' (taken @ spares')" "only_spares spares'" "unlogged_drops dir' = unlogged_drops dir"
    "\<forall>t. made = Some t \<longrightarrow> is_spare crc spares' t" "\<forall>i\<in>set (taken @ spares'). number_of i < nextSegment m + 1"
    by (rule manager_prepares [OF dir inv small refl p])
  have "manager_inv crc (Suc n) taken spares' m'" "\<forall>t. got = Some t \<longrightarrow> is_spare crc spares' t"
    using out inv sp(4,5) manager_numbers [OF inv small] None by (auto simp: manager_inv_def is_spare_def split: option.splits)
  then show ?thesis using sp by blast
qed

lemma manager_taken:
  assumes "manager_inv crc n taken (xs @ [im]) m" "sp_segment t = number_of im" "number_of (last taken) < number_of im"
  shows "manager_inv crc n (taken @ xs @ [im]) []
    (m\<lparr>spare := None, preparerFailed := False, segmentList := segmentList m @ [sp_segment t], segmentHandedOut := True\<rparr>)"
  using assms by (auto simp: manager_inv_def intro: order.trans less_imp_le dest: order.strict_trans1)

lemma manager_respare:
  assumes "manager_inv crc n taken (xs @ [im]) m" "number_of im' = number_of im" "image_data crc im' = image_data crc im"
  shows "manager_inv crc n taken (xs @ [im']) m"
  using assms by (auto simp: manager_inv_def split: option.splits)

lemma takeSpare_inv:
  assumes dir: "dir_images crc dir (taken @ spares)" "only_spares spares" and inv: "manager_inv crc n taken spares m" and some: "taken \<noteq> []"
    and small: "n + 3 < 2 ^ 64" and run: "takeSpare crc f min_bytes m dir = Some (got, m', dir')"
  shows "unlogged_drops dir' = unlogged_drops dir \<and> (case got of
     None \<Rightarrow> \<exists>spares'. dir_images crc dir' (taken @ spares') \<and> only_spares spares' \<and> manager_inv crc (Suc n) taken spares' m'
   | Some t \<Rightarrow> \<exists>xs im. dir_images crc dir' (taken @ xs @ [im]) \<and> only_spares (xs @ [im]) \<and>
       manager_inv crc (Suc n) (taken @ xs @ [im]) [] m' \<and> number_of im = sp_segment t \<and> sp_data_offset t = length (image_data crc im))"
proof -
  obtain got1 m1 dir1 where sp: "spare_or_prepare crc f min_bytes m dir = (got1, m1, dir1)" by (metis prod.exhaust)
  obtain spares' where I: "dir_images crc dir1 (taken @ spares')" "only_spares spares'" "manager_inv crc (Suc n) taken spares' m1"
    "unlogged_drops dir1 = unlogged_drops dir" "\<forall>t. got1 = Some t \<longrightarrow> is_spare crc spares' t"
    using spare_or_prepare_inv [OF dir inv small sp] by blast
  have op: "opened m" using inv by (simp add: manager_inv_def)
  show ?thesis
  proof (cases got1)
    case None
    then show ?thesis using run sp op I by (auto simp: takeSpare_def split: if_splits)
  next
    case (Some t0)
    then obtain xs im where x: "spares' = xs @ [im]" "number_of im = sp_segment t0" "sp_data_offset t0 = length (image_data crc im)"
        "length (image_data crc im) \<le> sp_size_bytes t0"
      using I(5) by (metis append_butlast_last_id is_spare_def)
    have im: "clean_image im" "img_bodies im = []" "only_spares xs" using I(2) x(1) by simp_all
    obtain grown dir2 where g: "(if sp_size_bytes t0 < min_bytes then extend_spare (tf_extend f) t0 min_bytes dir1 else (Some t0, dir1)) = (grown, dir2)"
      by (metis prod.exhaust)
    have out: "(got, m', dir') = (case grown of None \<Rightarrow> (None, m1, dir2) | Some t \<Rightarrow> (Some t,
         m1\<lparr>spare := None, preparerFailed := False, segmentList := segmentList m1 @ [sp_segment t], segmentHandedOut := True\<rparr>, dir2))"
      using run op sp Some g by (auto simp: takeSpare_def split: if_splits option.splits)
    have "\<exists>im'. dir_images crc dir2 (taken @ xs @ [im']) \<and> number_of im' = number_of im \<and> img_bodies im' = [] \<and> clean_image im' \<and>
        image_data crc im' = image_data crc im \<and> unlogged_drops dir2 = unlogged_drops dir1"
    proof (cases "sp_size_bytes t0 < min_bytes")
      case True
      then obtain k where "dir2 = put_zeros (segmentFileName (number_of im)) (sp_size_bytes t0) k dir1"
        using g x(2) by (auto simp: extend_spare_def Let_def split: option.splits)
      then show ?thesis using put_zeros_images [of crc dir1 "taken @ xs" im "sp_size_bytes t0" k] I(1) x(1,4) im by auto
    qed (use g I(1) x(1) im in auto)
    then obtain im' where i: "dir_images crc dir2 (taken @ xs @ [im'])" "number_of im' = number_of im" "img_bodies im' = []" "clean_image im'"
      "image_data crc im' = image_data crc im" "unlogged_drops dir2 = unlogged_drops dir1" by blast
    have m: "manager_inv crc (Suc n) taken (xs @ [im']) m1" using manager_respare [OF _ i(2,5)] I(3) x(1) by simp
    have sp': "only_spares (xs @ [im'])" using im i by simp
    have off: "sp_segment t = sp_segment t0 \<and> sp_data_offset t = sp_data_offset t0" if "grown = Some t" for t
      using g that by (auto simp: extend_spare_def Let_def split: if_splits option.splits)
    show ?thesis
    proof (cases grown)
      case None
      then have "got = None" "m' = m1" "dir' = dir2" using out by simp_all
      then show ?thesis using i(1,6) m sp' I(4) by auto
    next
      case (Some t)
      then have o: "got = Some t" "dir' = dir2"
        "m' = m1\<lparr>spare := None, preparerFailed := False, segmentList := segmentList m1 @ [sp_segment t], segmentHandedOut := True\<rparr>"
        using out by simp_all
      have t: "sp_segment t = number_of im'" "sp_data_offset t = length (image_data crc im')" using off [OF Some] x i(2,5) by simp_all
      have "manager_inv crc (Suc n) (taken @ xs @ [im']) [] m'" unfolding o(3)
      proof (rule manager_taken [OF m t(1)])
        show "number_of (last taken) < number_of im'"
          using dir_images_distinct(3) [of crc dir2 "taken @ xs" im' "[]"] i(1) some by simp
      qed
      then show ?thesis using i(1,6) sp' t I(4) unfolding o(1,2) by (auto simp del: append_assoc)
    qed
  qed
qed

lemma switch_disk:
  assumes D: "disk_inv crc n older cur gs spares s" and small: "n + 3 < 2 ^ 64"
    and run: "switchToSpare crc f min_bytes s = Some (ok, s')"
  shows "unlogged_drops (disk s') = unlogged_drops (disk s) \<and> activeSegment s \<le> activeSegment s' \<and>
    (\<exists>older' cur' gs' spares'. disk_inv crc (Suc n) older' cur' gs' spares' s' \<and>
       log_of (older' @ cur' # spares') = log_of (older @ cur # spares))"
proof -
  note d = disk_invD [OF D]
  obtain got m' dir' where t: "takeSpare crc f min_bytes (segmentFiles s) (disk s) = Some (got, m', dir')"
    using run by (auto simp: switchToSpare_def split: option.splits)
  note T = takeSpare_inv [OF d(1,2,4) _ small t]
  show ?thesis
  proof (cases got)
    case None
    then have s': "s' = s\<lparr>segmentFiles := m', disk := dir'\<rparr>" using run t by (simp add: switchToSpare_def)
    obtain spares' where sp: "dir_images crc dir' ((older @ [cur]) @ spares')" "only_spares spares'" "manager_inv crc (Suc n) (older @ [cur]) spares' m'"
      using T None by auto
    have "disk_inv crc (Suc n) older cur gs spares' s'" unfolding s' using d sp by (intro disk_invI) simp_all
    moreover have "log_of (older @ cur # spares') = log_of (older @ cur # spares)"
      using log_of_spares [OF d(2)] log_of_spares [OF sp(2)] by simp
    moreover have "unlogged_drops (disk s') = unlogged_drops (disk s)" "activeSegment s' = activeSegment s" using T s' by simp_all
    ultimately show ?thesis by (metis order_refl)
  next
    case (Some t)
    then have s': "disk s' = dir'" "segmentFiles s' = m'" "activeSegment s' = sp_segment t" "writeOffset s' = sp_data_offset t"
      using run t by (auto simp: switchToSpare_def)
    obtain xs im where x: "dir_images crc dir' ((older @ [cur]) @ xs @ [im])" "only_spares (xs @ [im])"
      "manager_inv crc (Suc n) ((older @ [cur]) @ xs @ [im]) [] m'" "number_of im = sp_segment t" "sp_data_offset t = length (image_data crc im)"
      using T Some by auto
    have "disk_inv crc (Suc n) (older @ cur # xs) im [] [] s'"
      using d(3) x by (intro disk_invI) (auto simp: s' list_all_iff)
    moreover have "log_of ((older @ cur # xs) @ im # []) = log_of (older @ cur # spares)"
      using log_of_spares [OF d(2)] log_of_spares [OF x(2), of older cur] by simp
    moreover have "activeSegment s \<le> activeSegment s'"
      using dir_images_distinct(4) [of crc dir' older cur "xs @ [im]"] x(1,4) d(5) by (simp add: s' less_imp_le)
    moreover have "unlogged_drops (disk s') = unlogged_drops (disk s)" using T s' by simp
    ultimately show ?thesis by blast
  qed
qed

lemma switch_only:
  assumes "switchToSpare crc f min_bytes s = Some (ok, s')"
  shows "tracker s' = tracker s" "dropsBySegment s' = dropsBySegment s" "completions s' = completions s" "results s' = results s"
    "groupCommitMaxBytes s' = groupCommitMaxBytes s" "committer s' = committer s" "kw_queue s' = kw_queue s" "kw_failed s' = kw_failed s"
    "unsynced s' = unsynced s"
  using assms by (auto simp: switchToSpare_def split: option.splits)

lemma switch_step:
  assumes inv: "wal_inv crc n X s" and small: "n + 3 < 2 ^ 64" and c: "committer s = Waiting \<or> committer s = Taken g False"
    and run: "switchToSpare crc f min_bytes s = Some (ok, s')"
  shows "wal_inv crc (Suc n) X s'"
proof -
  obtain older cur gs spares where D: "disk_inv crc n older cur gs spares s" using inv unfolding wal_inv_def by blast
  note sw = switch_disk [OF _ small run] and same = switch_only [OF run]
  have ah: "ahead crc s' = ahead crc s" by (simp add: ahead_def todo_def same)
  show ?thesis
  proof (rule quiet_step [OF inv])
    show "committer_inv crc A s'" if "committer_inv crc A s" for A using that c by (auto simp: committer_inv_def same)
  qed (use sw [OF D] sw in \<open>auto simp: todo_def same ah queue_inv_def\<close>)
qed

context checksum
begin

lemma commit_step:
  assumes inv: "wal_inv crc n X s" and small: "n + 3 < 2 ^ 64" and c: "committer s = Taken g False"
    and run: "commitGroup crc f g s = Some s'"
  shows "wal_inv crc (Suc n) X s'"
proof (cases "activeSize s < writeOffset s + groupBytes g (namedInActive s)")
  case False
  then show ?thesis using run write_step [OF inv c] by (auto simp: commitGroup_def)
next
  case True
  then obtain ok s1 where r: "rotate crc (cf_rotate_sync f) (cf_take f) (max (segmentBytes s) (headerBytes s + groupBytes g [])) s = Some (ok, s1)"
    and s': "s' = (if ok then write_group crc f g s1 else failGroup (cf_drops f) g 0 s1)"
    using run by (auto simp: commitGroup_def split: option.splits bool.splits)
  have s1: "wal_inv crc (Suc n) X s1 \<and> committer s1 = Taken g False"
  proof (cases "cf_rotate_sync f")
    case True
    then show ?thesis using r c wal_inv_later [OF inv, of "Suc n" X] by (simp add: rotate_def)
  next
    case False
    then show ?thesis using r c switch_step [OF inv small] switch_only(6) by (auto simp: rotate_def)
  qed
  then show ?thesis using write_step [of "Suc n" X s1 g "Suc n" f] fail_inv [of "Suc n" X s1 g False] s' by auto
qed

end

text \<open>A group that was synced is in the log.\<close>

lemma held_more:
  assumes "held_in A L drops sid ev" "LogD sid \<notin> snd ` set B"
  shows "held_in (A @ B) L drops sid ev"
  using assms survives_append unfolding held_in_def by blast

lemma sync_disk:
  assumes D: "disk_inv crc n older cur gs spares s" and g: "group_of crc (unsynced s) bodies" and b: "bytes = length (concat (unsynced s))"
    and s': "disk s' = write_at (segmentFileName (activeSegment s)) (writeOffset s) (concat (unsynced s)) (disk s)"
      "activeSegment s' = activeSegment s" "segmentFiles s' = segmentFiles s" "writeOffset s' = writeOffset s + bytes"
  shows "\<exists>cur'. disk_inv crc (Suc n) older cur' (gs @ [bodies]) spares s' \<and>
    log_of (older @ cur' # spares) = log_of (older @ cur # spares) @ entries_of (map (Pair (activeSegment s)) bodies)"
proof -
  note d = disk_invD [OF D]
  let ?cur = "cur\<lparr>img_bodies := img_bodies cur @ bodies, img_rest := drop (length (concat (unsynced s))) (img_rest cur)\<rparr>"
  have new: "concat (unsynced s) = frames_of crc bodies" using g by (simp add: group_of_def frames_of_map)
  have clean: "img_rest cur = replicate (length (img_rest cur)) 0" using d(3) by (simp add: clean_image_def)
  have rest: "clean_image ?cur" unfolding clean_image_def by simp (subst clean, simp add: drop_replicate)
  have dirc: "dir_images crc (disk s) (older @ cur # spares)" using d(1) by simp
  then have st: "stored_image crc (disk s) cur" by (rule dir_images_stored) simp
  then have ok: "image_ok crc cur" by (simp add: stored_image_def)
  have stored: "map_of (wal_files (disk s)) (segmentFileName (activeSegment s)) = Some (image_data crc cur @ img_rest cur)"
    using st d(5) by (simp add: stored_image_def)
  have scan: "scan_records (scanSegment crc (img_rest ?cur)) = []" using rest by (metis clean_image_def no_frame_in_zeros)
  have log: "list_all loggable bodies" using g by (simp add: group_of_def)
  note ext = extended_image [OF ok log scan]
  have "disk s' = write_file (segmentFileName (number_of cur)) (image_bytes crc ?cur) (disk s)"
    using ext(2) by (simp add: s' d(5,8) write_at_image [OF stored] new)
  then have "dir_images crc (disk s') (older @ ?cur # spares)" using dir_images_replace [OF dirc, of ?cur] ext(1) by simp
  moreover have "manager_inv crc (Suc n) (older @ [?cur]) spares (segmentFiles s')"
    using manager_inv_later [OF d(4), of "Suc n"] by (simp add: s' manager_inv_def)
  ultimately have "disk_inv crc (Suc n) older ?cur (gs @ [bodies]) spares s'"
    using d rest g ext(2) b new by (intro disk_invI) (simp_all add: s' group_of_def)
  moreover have "list_all (\<lambda>i. img_bodies i = []) spares" using d(2) by (simp add: list_all_iff)
  ultimately show ?thesis by (intro exI [of _ ?cur]) (simp add: log_of_current d(5))
qed

lemma write_at_drops [simp]: "unlogged_drops (write_at name pos new dir) = unlogged_drops dir"
  by (simp add: write_at_def split: option.split)

lemma sync_ok_step:
  assumes inv: "wal_inv crc n X s" and c: "committer s = Written g bytes named" and ok: "\<not> cf_sync f"
  shows "wal_inv crc (Suc n) X (sync_group f g bytes named s)"
proof -
  let ?s = "sync_group f g bytes named s" and ?a = "activeSegment s"
  obtain older cur gs spares L where I: "disk_inv crc n older cur gs spares s" "queue_inv crc s"
    "committer_inv crc (log_of (older @ cur # spares)) s" "tracker_inv n (log_of (older @ cur # spares)) L s"
    "live_inv crc (log_of (older @ cur # spares)) L X s" by (rule wal_invE [OF inv])
  let ?A = "log_of (older @ cur # spares)" and ?B = "map (\<lambda>q. (?a, q_entry q)) g"
  obtain bodies where B: "group_of crc (unsynced s) bodies" "entries_of (map (Pair ?a) bodies) = ?B" "bytes = length (concat (unsynced s))"
    and run: "\<not> kw_failed s" using I(3) c by (auto simp: committer_inv_def simp del: length_concat)
  have f: "disk ?s = write_at (segmentFileName ?a) (writeOffset s) (concat (unsynced s)) (disk s)" "activeSegment ?s = ?a"
    "segmentFiles ?s = segmentFiles s" "writeOffset ?s = writeOffset s + bytes"
    "committer ?s = Finishing g g CL_SUCCESS ?a bytes 0" "unsynced ?s = []" "kw_failed ?s = kw_failed s" "kw_queue ?s = kw_queue s"
    "tracker ?s = tracker s" "dropsBySegment ?s = dropsBySegment s" "completions ?s = completions s" "results ?s = results s"
    "groupCommitMaxBytes ?s = groupCommitMaxBytes s" using ok by (simp_all add: sync_group_def)
  obtain cur' where D: "disk_inv crc (Suc n) older cur' (gs @ [bodies]) spares ?s" "log_of (older @ cur' # spares) = ?A @ ?B"
    using sync_disk [OF I(1) B(1,3) f(1-4)] unfolding B(2) by blast
  have drops: "unlogged_drops (disk ?s) = unlogged_drops (disk s)" by (simp add: f)
  have todo: "todo ?s = todo s" by (simp add: todo_def f c)
  have ah: "ahead crc ?s \<subseteq> ahead crc s" by (auto simp: ahead_def todo f)
  have gone: "LogD sid \<notin> snd ` set ?B" if "sid \<notin> ahead crc s" for sid
    using that by (auto simp: ahead_def todo_def c dropped_stories_def q_entry_def split: if_splits)
  have "queue_inv crc ?s" using I(2) by (simp add: queue_inv_def f c)
  moreover have "committer_inv crc (?A @ ?B) ?s" using run by (simp add: committer_inv_def f)
  moreover have "tracker_inv (Suc n) (?A @ ?B) L ?s" using I(4) by (auto simp: tracker_inv_def todo f drops_of_def)
  moreover have "live_inv crc (?A @ ?B) L X ?s"
  proof (rule live_invI)
    fix c' sid ev
    assume "(c', sid, ev) \<in> X"
    from live_invD [OF I(5) this] show "placed crc (?A @ ?B) L ?s c' sid ev"
    proof (cases rule: placedE)
      case 1
      then have "waiting ?s c' sid ev" unfolding waiting_def todo by blast
      then show ?thesis using 1 by (simp add: placed_def f)
    next
      case 2
      then have "held_in (?A @ ?B) L (unlogged_drops (disk ?s)) sid ev" using held_more gone drops by simp
      then show ?thesis using 2 ah by (auto simp: placed_def f)
    next
      case 3
      then have "doomed ?s c'" by (simp add: doomed_def todo f c)
      then show ?thesis using 3 by (simp add: placed_def f)
    qed
  qed
  ultimately show ?thesis using wal_invI [OF D(1)] D(2) by simp
qed

lemma erase_disk:
  assumes D: "disk_inv crc n older cur gs spares s"
    and s': "disk s' = write_at (segmentFileName (activeSegment s)) (writeOffset s) (replicate w 0) (disk s)"
      "activeSegment s' = activeSegment s" "segmentFiles s' = segmentFiles s" "writeOffset s' = writeOffset s"
  shows "\<exists>cur'. disk_inv crc (Suc n) older cur' gs spares s' \<and> log_of (older @ cur' # spares) = log_of (older @ cur # spares)"
proof -
  note d = disk_invD [OF D]
  let ?cur = "cur\<lparr>img_rest := replicate w 0 @ drop w (img_rest cur)\<rparr>"
  have clean: "img_rest cur = replicate (length (img_rest cur)) 0" using d(3) by (simp add: clean_image_def)
  have rest: "clean_image ?cur" unfolding clean_image_def
    by simp (subst clean, simp add: drop_replicate replicate_add [symmetric])
  have dirc: "dir_images crc (disk s) (older @ cur # spares)" using d(1) by simp
  then have st: "stored_image crc (disk s) cur" by (rule dir_images_stored) simp
  then have ok: "image_ok crc cur" by (simp add: stored_image_def)
  have stored: "map_of (wal_files (disk s)) (segmentFileName (activeSegment s)) = Some (image_data crc cur @ img_rest cur)"
    using st d(5) by (simp add: stored_image_def)
  have scan: "scan_records (scanSegment crc (img_rest ?cur)) = []" using rest by (metis clean_image_def no_frame_in_zeros)
  have data: "image_data crc ?cur = image_data crc cur" and okc: "image_ok crc ?cur"
    using ok scan by (simp_all add: image_data_def image_ok_def header_body_def del: record_body.simps)
  have "disk s' = write_file (segmentFileName (number_of cur)) (image_bytes crc ?cur) (disk s)"
    using data by (simp add: s' d(5,8) write_at_image [OF stored])
  then have "dir_images crc (disk s') (older @ ?cur # spares)" using dir_images_replace [OF dirc okc] by simp
  moreover have "manager_inv crc (Suc n) (older @ [?cur]) spares (segmentFiles s')"
    using manager_inv_later [OF d(4), of "Suc n"] by (simp add: s' manager_inv_def)
  ultimately have "disk_inv crc (Suc n) older ?cur gs spares s'"
    using d rest data by (intro disk_invI) (simp_all add: s')
  moreover have "log_of (older @ ?cur # spares) = log_of (older @ cur # spares)"
    by (simp add: written_log_append written_log_Cons)
  ultimately show ?thesis by blast
qed

lemma erase_step:
  assumes inv: "wal_inv crc n X s" and c: "committer s = Recording g [] w"
  shows "wal_inv crc (Suc n) X (erase_group f g w s)"
proof -
  let ?s = "erase_group f g w s"
  define st where "st = (if w \<noteq> 0 \<and> cf_erase f then CL_ERR_DURABILITY_UNKNOWN else CL_ERR_DURABILITY_UNAVAILABLE)"
  have f: "committer ?s = Finishing g g st 0 0 0" "st \<noteq> CL_SUCCESS" "unsynced ?s = unsynced s \<or> unsynced ?s = []"
    "kw_failed ?s = kw_failed s" "kw_queue ?s = kw_queue s" "activeSegment ?s = activeSegment s"
    "tracker ?s = tracker s" "dropsBySegment ?s = dropsBySegment s" "completions ?s = completions s" "results ?s = results s"
    "groupCommitMaxBytes ?s = groupCommitMaxBytes s" "unlogged_drops (disk ?s) = unlogged_drops (disk s)"
    by (simp_all add: erase_group_def st_def)
  have ah: "ahead crc ?s \<subseteq> ahead crc s" using f(3) c by (auto simp: ahead_def todo_def f(1,5))
  show ?thesis
  proof (rule quiet_step [OF inv])
    fix older cur gs spares
    assume D: "disk_inv crc n older cur gs spares s"
    show "\<exists>older' cur' gs' spares'. disk_inv crc (Suc n) older' cur' gs' spares' ?s \<and>
        log_of (older' @ cur' # spares') = log_of (older @ cur # spares)"
    proof (cases "w = 0 \<or> cf_erase f")
      case True
      then show ?thesis using D by (intro disk_unchanged) (auto simp: erase_group_def)
    next
      case False
      then show ?thesis using erase_disk [OF D, of ?s w] by (auto simp: erase_group_def)
    qed
  next
    show "committer_inv crc A ?s" if "committer_inv crc A s" for A using f(3) that f(2) c by (elim disjE) (simp_all add: committer_inv_def f(1,4))
  qed (use c ah in \<open>auto simp: todo_def f queue_inv_def\<close>)
qed

text \<open>Dropping the copies of a destroyed story.\<close>

lemma drop_hold_inv:
  assumes inv: "wal_inv crc n X s" and gone: "sid \<in> ahead crc s" and run: "drop_hold sid s = (finished, s')"
  shows "wal_inv crc n X s' \<and> committer s' = committer s \<and> kw_queue s' = kw_queue s \<and> unsynced s' = unsynced s \<and> kw_failed s' = kw_failed s"
proof -
  obtain t order E where s': "s' = s\<lparr>tracker := t, addOrder := order\<rparr>" and t: "\<And>L. tracks (tracker s) L \<Longrightarrow> tracks t (without sid E L)"
  proof (cases "addOrder s sid")
    case None
    then have "s' = s\<lparr>tracker := wal_dropStory sid (tracker s), addOrder := addOrder s\<rparr>" using run by (auto simp: drop_hold_def)
    then show thesis using that wal_dropStory_tracks by blast
  next
    case (Some events)
    show thesis
    proof (cases events)
      case Nil
      then have "s' = s\<lparr>tracker := wal_dropStory sid (tracker s), addOrder := (addOrder s)(sid := None)\<rparr>"
        using run Some by (auto simp: drop_hold_def)
      then show thesis using that wal_dropStory_tracks by blast
    next
      case (Cons e es)
      then have "s' = s\<lparr>tracker := fold (releaseEvent sid) (take kLockBatch events) (tracker s),
          addOrder := (addOrder s)(sid \<mapsto> drop kLockBatch events)\<rparr>"
        using run Some by (auto simp: drop_hold_def)
      then show thesis using that fold_releaseEvent_tracks by blast
    qed
  qed
  have "wal_inv crc n X s'" unfolding s' by (rule release_inv [OF inv t]) (use gone in auto)
  then show ?thesis by (simp add: s')
qed

lemma committer_switch:
  assumes inv: "wal_inv crc n X s" and c: "committer s = c" and "rest_of c' = rest_of c" "whole_of c' = whole_of c" "status_of c' = status_of c"
    "dropping_of c' \<subseteq> dropping_of c"
    and ok: "\<And>A. committer_inv crc A s \<Longrightarrow> committer_inv crc A (s\<lparr>committer := c'\<rparr>)"
  shows "wal_inv crc n X (s\<lparr>committer := c'\<rparr>)"
proof (rule quiet_step [OF inv order_refl])
  show "\<exists>older' cur' gs' spares'. disk_inv crc n older' cur' gs' spares' (s\<lparr>committer := c'\<rparr>) \<and>
      log_of (older' @ cur' # spares') = log_of (older @ cur # spares)" if "disk_inv crc n older cur gs spares s" for older cur gs spares
    using that disk_inv_cong [of "s\<lparr>committer := c'\<rparr>" s] by force
  show "ahead crc (s\<lparr>committer := c'\<rparr>) \<subseteq> ahead crc s" using assms by (auto simp: ahead_def todo_def)
qed (use assms in \<open>auto simp: todo_def queue_inv_def\<close>)

lemma record_step:
  assumes inv: "wal_inv crc n X s" and c: "committer s = Recording g (sid # sids) w" and run: "drop_hold sid s = (finished, s')"
  shows "wal_inv crc (Suc n) X (if finished then s'\<lparr>committer := Recording g sids w\<rparr> else s')"
proof -
  have "sid \<in> ahead crc s" by (simp add: ahead_def c)
  from drop_hold_inv [OF inv this run] have s': "wal_inv crc n X s'" "committer s' = Recording g (sid # sids) w" using c by simp_all
  have "wal_inv crc n X (s'\<lparr>committer := Recording g sids w\<rparr>)"
    by (rule committer_switch [OF s']) (use s'(2) in \<open>auto simp: committer_inv_def\<close>)
  then show ?thesis using wal_inv_later [of crc n X _ "Suc n" X] s'(1) by simp
qed

lemma drop_copies_step:
  assumes inv: "wal_inv crc n X s" and c: "committer s = DroppingCopies sid g rest status seg bytes events"
    and run: "drop_hold sid s = (finished, s')"
  shows "wal_inv crc (Suc n) X (if finished then s'\<lparr>committer := Finishing g rest status seg bytes events\<rparr> else s')"
proof -
  have "sid \<in> ahead crc s" by (simp add: ahead_def c)
  from drop_hold_inv [OF inv this run]
  have s': "wal_inv crc n X s'" "committer s' = DroppingCopies sid g rest status seg bytes events" using c by simp_all
  have "wal_inv crc n X (s'\<lparr>committer := Finishing g rest status seg bytes events\<rparr>)"
    by (rule committer_switch [OF s']) (use s'(2) in \<open>auto simp: committer_inv_def\<close>)
  then show ?thesis using wal_inv_later [of crc n X _ "Suc n" X] s'(1) by simp
qed

section \<open>Answering a group\<close>

lemma finish_entry_only:
  "disk (finish_entry st seg q s) = disk s" "committer (finish_entry st seg q s) = committer s" "kw_failed (finish_entry st seg q s) = kw_failed s"
  "unsynced (finish_entry st seg q s) = unsynced s" "activeSegment (finish_entry st seg q s) = activeSegment s"
  "segmentFiles (finish_entry st seg q s) = segmentFiles s" "writeOffset (finish_entry st seg q s) = writeOffset s"
  "kw_queue (finish_entry st seg q s) = kw_queue s" "completions (finish_entry st seg q s) = completions s"
  "results (finish_entry st seg q s) = results s" "groupCommitMaxBytes (finish_entry st seg q s) = groupCommitMaxBytes s"
  "dropsBySegment (finish_entry st seg q s) = dropsBySegment s"
  "tracker (finish_entry st seg q s) = (if st = CL_SUCCESS
     then addCopy (q_story_id q) (q_identity q) seg (of_nat (event_frame_size (q_event q))) (tracker s) else tracker s)"
  by (simp_all add: finish_entry_def noteAdded_def Let_def)

text \<open>A live request whose entry is not the first one to come stays a waiting one.\<close>

lemma waiting_tail:
  assumes w: "waiting s c sid ev" and t: "todo s = q # todo s'"
  obtains "\<not> q_dropped q" "q_completion q = Some c" "q_story_id q = sid" "q_identity q = ev" "sid \<notin> set (dropped_stories (todo s'))"
  | "waiting s' c sid ev"
proof -
  obtain pre q0 post where x: "todo s = pre @ q0 # post" "\<not> q_dropped q0" "q_completion q0 = Some c"
    "q_story_id q0 = sid" "q_identity q0 = ev" "sid \<notin> set (dropped_stories post)"
    using w unfolding waiting_def by blast
  show thesis
  proof (cases pre)
    case Nil
    then show thesis using that(1) x t by simp
  next
    case (Cons p pre')
    then have "todo s' = pre' @ q0 # post" using x(1) t by simp
    then have "waiting s' c sid ev" using x(2-6) unfolding waiting_def by blast
    then show thesis by (rule that(2))
  qed
qed

lemma ahead_tail: "todo s = q # todo s' \<Longrightarrow> dropping_of (committer s') \<subseteq> dropping_of (committer s) \<Longrightarrow> unsynced s' = unsynced s \<Longrightarrow>
    ahead crc s' \<subseteq> ahead crc s"
  by (auto simp: ahead_def dropped_stories_def)

lemma doomed_tail:
  assumes "doomed s c" "todo s = q # todo s'" "whole_of (committer s') = whole_of (committer s)" "results s' = results s"
    "status_of (committer s') = status_of (committer s)"
  shows "doomed s' c"
  using assms by (auto simp: doomed_def completions_of_Cons split: option.splits)

text \<open>The next entry of a group is registered, or skipped when the group failed.\<close>

lemma finish_entry_inv:
  assumes inv: "wal_inv crc n X s" and small: "n + 3 < 2 ^ 64" and c: "committer s = Finishing g (q # rest) st seg bytes events"
    and q: "\<not> q_dropped q"
  shows "wal_inv crc n X ((finish_entry st seg q s)\<lparr>committer := Finishing g rest st seg bytes events'\<rparr>)"
proof -
  let ?s = "(finish_entry st seg q s)\<lparr>committer := Finishing g rest st seg bytes events'\<rparr>"
  let ?x = "(q_story_id q, q_identity q, \<lparr>cp_segment = seg, cp_bytes = of_nat (event_frame_size (q_event q))\<rparr>)"
  obtain older cur gs spares L where I: "disk_inv crc n older cur gs spares s" "queue_inv crc s"
    "committer_inv crc (log_of (older @ cur # spares)) s" "tracker_inv n (log_of (older @ cur # spares)) L s"
    "live_inv crc (log_of (older @ cur # spares)) L X s" by (rule wal_invE [OF inv])
  let ?A = "log_of (older @ cur # spares)" and ?L = "if st = CL_SUCCESS then L @ [?x] else L"
  note f = finish_entry_only
  have todo: "todo s = q # todo ?s" by (simp add: todo_def c f)
  have ah: "ahead crc ?s \<subseteq> ahead crc s" using ahead_tail [OF todo] by (simp add: f c)
  have A: "\<exists>pre. ?A = pre @ (seg, LogE (q_story_id q) (q_identity q)) # map (\<lambda>q. (seg, q_entry q)) rest"
    "\<not> kw_failed s" "unsynced s = []" "seg = activeSegment s" if "st = CL_SUCCESS"
    using I(3) that q by (auto simp: committer_inv_def c q_entry_def)
  have room: "length L + 1 < 2 ^ 64" using I(4) small q by (simp add: tracker_inv_def todo)
  show ?thesis
  proof (rule wal_invI)
    show "disk_inv crc n older cur gs spares ?s" using I(1) disk_inv_cong [of ?s s] by (simp add: f)
    show "queue_inv crc ?s"
    proof -
      obtain fin where "g = fin @ q # rest" using I(2) by (auto simp: queue_inv_def c)
      then have "g = (fin @ [q]) @ rest" by simp
      then have "\<exists>fin. g = fin @ rest" by blast
      then show ?thesis using I(2) by (simp add: queue_inv_def f c)
    qed
    show "committer_inv crc ?A ?s"
    proof (cases "st = CL_SUCCESS")
      case True
      then obtain pre where "?A = (pre @ [(seg, LogE (q_story_id q) (q_identity q))]) @ map (\<lambda>q. (seg, q_entry q)) rest" using A(1) by auto
      then show ?thesis using A(2-4) True by (auto simp: committer_inv_def f)
    qed (use I(3) in \<open>simp add: committer_inv_def f c\<close>)
    show "tracker_inv n ?A ?L ?s"
      using I(4) q addCopy_tracks [of "tracker s" L] room by (auto simp: tracker_inv_def todo f drops_of_def)
    show "live_inv crc ?A ?L X ?s"
    proof (rule live_invI)
      fix c' sid ev
      assume "(c', sid, ev) \<in> X"
      from live_invD [OF I(5) this] have lt: "c' < completions ?s" by (simp add: placed_def f)
      from live_invD [OF I(5) \<open>(c', sid, ev) \<in> X\<close>] show "placed crc ?A ?L ?s c' sid ev"
      proof (cases rule: placedE)
        case 1
        from 1(1) todo show ?thesis
        proof (cases rule: waiting_tail)
          case 1
          show ?thesis
          proof (cases "st = CL_SUCCESS")
            case True
            have "LogD sid \<notin> snd ` set (map (\<lambda>q. (seg, q_entry q)) rest)"
              using 1(5) by (auto simp: todo_def f dropped_stories_def q_entry_def split: if_splits)
            then have "survives sid ev seg ?A" using A(1) [OF True] 1(3,4) unfolding survives_def by metis
            moreover have "\<forall>d\<in>set (unlogged_drops (disk ?s)). drop_last_segment d < seg"
              using I(4) A(2,4) [OF True] by (simp add: tracker_inv_def f)
            moreover have "(sid, ev, \<lparr>cp_segment = seg, cp_bytes = of_nat (event_frame_size (q_event q))\<rparr>) \<in> set ?L"
              using True 1(3,4) by simp
            ultimately have "held_in ?A ?L (unlogged_drops (disk ?s)) sid ev" unfolding held_in_def by blast
            moreover have "sid \<notin> ahead crc ?s" using 1(5) A(3) [OF True] by (simp add: ahead_def f)
            ultimately show ?thesis using lt by (simp add: placed_def)
          next
            case False
            have wh: "c' \<in> set (completions_of (whole_of (committer s) @ kw_queue s))"
            proof -
              have "q \<in> set g" using I(2) by (auto simp: queue_inv_def c)
              then have "c' \<in> set (completions_of g)" using 1(2) by (auto simp: set_map_filter)
              then show ?thesis by (simp add: c)
            qed
            obtain fin where "g = fin @ q # rest" using I(2) by (auto simp: queue_inv_def c)
            then have "c' \<notin> set (completions_of (todo ?s))"
              using I(2) 1(2) by (auto simp: queue_inv_def c f todo_def completions_of_Cons)
            moreover have "results ?s c' = None" using I(2) wh by (simp add: queue_inv_def f)
            ultimately have "doomed ?s c'" using False by (simp add: doomed_def f)
            then show ?thesis using lt by (simp add: placed_def)
          qed
        next
          case 2
          then show ?thesis using lt by (simp add: placed_def)
        qed
      next
        case 2
        have "set L \<subseteq> set ?L" by auto
        then have "held_in ?A ?L (unlogged_drops (disk ?s)) sid ev" using 2(1) unfolding held_in_def f(1) by (simp add: f) blast
        then show ?thesis using lt 2(2) ah by (auto simp: placed_def)
      next
        case 3
        then have "doomed ?s c'" using doomed_tail [OF 3(1) todo] by (simp add: f c)
        then show ?thesis using lt by (simp add: placed_def)
      qed
    qed
  qed
qed

lemma live_tail:
  assumes live: "live_inv crc A L X s" and t: "todo s = q # todo s'" and q: "q_dropped q"
    and same: "completions s' = completions s" "results s' = results s" "unlogged_drops (disk s') = unlogged_drops (disk s)"
      "whole_of (committer s') = whole_of (committer s)" "status_of (committer s') = status_of (committer s)"
    and ah: "ahead crc s' \<subseteq> ahead crc s"
  shows "live_inv crc A L X s'"
proof (rule live_invI)
  fix c sid ev
  assume "(c, sid, ev) \<in> X"
  from live_invD [OF live this] show "placed crc A L s' c sid ev"
  proof (cases rule: placedE)
    case 1
    from 1(1) t q have "waiting s' c sid ev" by (cases rule: waiting_tail) auto
    then show ?thesis using 1(2) by (simp add: placed_def same)
  next
    case 2
    then show ?thesis using ah by (auto simp: placed_def same)
  next
    case 3
    then show ?thesis using doomed_tail [OF 3(1) t same(4,2,5)] by (simp add: placed_def same)
  qed
qed

lemma drops_of_push:
  "drops_of k (s\<lparr>dropsBySegment := push_back seg sid (dropsBySegment s)\<rparr>) = drops_of k s @ (if k = seg then [sid] else [])"
  by (simp add: drops_of_def map_of_push_back)

lemma omap_ok_push: "omap_ok m \<Longrightarrow> omap_ok (push_back k v m)"
  by (auto simp: push_back_def)

lemma finish_drop_inv:
  assumes inv: "wal_inv crc n X s" and c: "committer s = Finishing g (q # rest) st seg bytes events" and q: "q_dropped q"
  shows "st \<noteq> CL_SUCCESS \<Longrightarrow> wal_inv crc n X (s\<lparr>committer := Finishing g rest st seg bytes events'\<rparr>)"
    "st = CL_SUCCESS \<Longrightarrow> wal_inv crc n X (s\<lparr>dropsBySegment := push_back seg (q_story_id q) (dropsBySegment s),
       committer := DroppingCopies (q_story_id q) g rest st seg bytes events'\<rparr>)"
proof -
  obtain older cur gs spares L where I: "disk_inv crc n older cur gs spares s" "queue_inv crc s"
    "committer_inv crc (log_of (older @ cur # spares)) s" "tracker_inv n (log_of (older @ cur # spares)) L s"
    "live_inv crc (log_of (older @ cur # spares)) L X s" by (rule wal_invE [OF inv])
  let ?A = "log_of (older @ cur # spares)"
  obtain fin where "g = fin @ q # rest" using I(2) by (auto simp: queue_inv_def c)
  then have "g = (fin @ [q]) @ rest" by simp
  then have fin: "\<exists>fin. g = fin @ rest" by blast
  show "wal_inv crc n X (s\<lparr>committer := Finishing g rest st seg bytes events'\<rparr>)" if st: "st \<noteq> CL_SUCCESS"
  proof -
    let ?s = "s\<lparr>committer := Finishing g rest st seg bytes events'\<rparr>"
    have todo: "todo s = q # todo ?s" by (simp add: todo_def c)
    have "disk_inv crc n older cur gs spares ?s" using I(1) disk_inv_cong [of ?s s] by simp
    moreover have "queue_inv crc ?s" using I(2) fin by (simp add: queue_inv_def c)
    moreover have "committer_inv crc ?A ?s" using I(3) st by (simp add: committer_inv_def c)
    moreover have "tracker_inv n ?A L ?s" using I(4) q by (simp add: tracker_inv_def todo drops_of_def)
    moreover have "live_inv crc ?A L X ?s"
      by (rule live_tail [OF I(5) todo q]) (use ahead_tail [OF todo] in \<open>simp_all add: c\<close>)
    ultimately show ?thesis by (rule wal_invI)
  qed
  show "wal_inv crc n X (s\<lparr>dropsBySegment := push_back seg (q_story_id q) (dropsBySegment s),
      committer := DroppingCopies (q_story_id q) g rest st seg bytes events'\<rparr>)" if st: "st = CL_SUCCESS"
  proof -
    let ?s = "s\<lparr>dropsBySegment := push_back seg (q_story_id q) (dropsBySegment s),
      committer := DroppingCopies (q_story_id q) g rest st seg bytes events'\<rparr>"
    have todo: "todo s = q # todo ?s" by (simp add: todo_def c)
    obtain pre where A: "?A = pre @ (seg, LogD (q_story_id q)) # map (\<lambda>q. (seg, q_entry q)) rest"
      and run: "\<not> kw_failed s" "unsynced s = []" "seg = activeSegment s"
      using I(3) st q by (auto simp: committer_inv_def c q_entry_def)
    then have A': "?A = (pre @ [(seg, LogD (q_story_id q))]) @ map (\<lambda>q. (seg, q_entry q)) rest" by simp
    have drops: "drops_of k ?s = drops_of k s @ (if k = seg then [q_story_id q] else [])" for k
      using drops_of_push [where s = s and sid = "q_story_id q"] by (simp add: drops_of_def)
    have "disk_inv crc n older cur gs spares ?s" using I(1) disk_inv_cong [of ?s s] by simp
    moreover have "queue_inv crc ?s" using I(2) fin by (simp add: queue_inv_def c)
    moreover have "committer_inv crc ?A ?s" using st run A' by (auto simp: committer_inv_def)
    moreover have "tracker_inv n ?A L ?s"
      using I(4) q A omap_ok_push [of "dropsBySegment s"] by (auto simp: tracker_inv_def todo drops split: if_splits)
    moreover have "ahead crc ?s \<subseteq> ahead crc s" using q by (auto simp: ahead_def todo dropped_stories_def c)
    then have "live_inv crc ?A L X ?s" by (intro live_tail [OF I(5) todo q]) (simp_all add: c)
    ultimately show ?thesis by (rule wal_invI)
  qed
qed

lemma finish_entry_committer: "finish_entry st seg q (s\<lparr>committer := c\<rparr>) = (finish_entry st seg q s)\<lparr>committer := c\<rparr>"
  unfolding finish_entry_def noteAdded_def Let_def by auto

lemma finish_batch_inv:
  assumes "wal_inv crc n X (s\<lparr>committer := Finishing g rest st seg bytes events\<rparr>)" "n + 3 < 2 ^ 64"
    and "finish_batch k st seg rest events s = (stop, rest', events', s')"
  shows "wal_inv crc n X (s'\<lparr>committer := (case stop of None \<Rightarrow> Finishing g rest' st seg bytes events'
      | Some sid \<Rightarrow> DroppingCopies sid g rest' st seg bytes events')\<rparr>)"
  using assms
proof (induction k st seg rest events s rule: finish_batch.induct)
  case (3 k st seg q rest events s)
  let ?s = "s\<lparr>committer := Finishing g (q # rest) st seg bytes events\<rparr>"
  show ?case
  proof (cases "q_dropped q")
    case True
    have drop: "wal_inv crc n X (?s\<lparr>committer := Finishing g rest st seg bytes events\<rparr>)" if "st \<noteq> CL_SUCCESS"
      by (rule finish_drop_inv(1) [OF "3.prems"(1) _ True that]) simp
    show ?thesis
    proof (cases "st = CL_SUCCESS")
      case False
      then show ?thesis using "3.IH"(1) [OF True False] drop "3.prems" True by simp
    next
      case st: True
      have "wal_inv crc n X (?s\<lparr>dropsBySegment := push_back seg (q_story_id q) (dropsBySegment ?s),
          committer := DroppingCopies (q_story_id q) g rest st seg bytes events\<rparr>)"
        by (rule finish_drop_inv(2) [OF "3.prems"(1) _ True st]) simp
      then show ?thesis using "3.prems"(3) True st by auto
    qed
  next
    case False
    have "wal_inv crc n X ((finish_entry st seg q ?s)\<lparr>committer := Finishing g rest st seg bytes (events + 1)\<rparr>)"
      by (rule finish_entry_inv [OF "3.prems"(1,2) _ False]) simp
    then show ?thesis using "3.IH"(2) [OF False] "3.prems" False by (simp add: finish_entry_committer)
  qed
qed auto

lemma set_results: "distinct (completions_of g) \<Longrightarrow> set_results st g r c = (if c \<in> set (completions_of g) then Some st else r c)"
  by (induction g arbitrary: r) (auto simp: completions_of_Cons List.map_filter_simps split: option.splits)

lemma answer_inv:
  assumes inv: "wal_inv crc n X s" and c: "committer s = Finishing g [] st seg bytes events"
  shows "wal_inv crc n X (answer_group g st bytes events s)"
proof -
  let ?s = "answer_group g st bytes events s"
  obtain older cur gs spares L where I: "disk_inv crc n older cur gs spares s" "queue_inv crc s"
    "committer_inv crc (log_of (older @ cur # spares)) s" "tracker_inv n (log_of (older @ cur # spares)) L s"
    "live_inv crc (log_of (older @ cur # spares)) L X s" by (rule wal_invE [OF inv])
  let ?A = "log_of (older @ cur # spares)"
  have f: "committer ?s = Answered" "results ?s = set_results st g (results s)" "disk ?s = disk s" "kw_failed ?s = kw_failed s"
    "unsynced ?s = unsynced s" "activeSegment ?s = activeSegment s" "segmentFiles ?s = segmentFiles s" "writeOffset ?s = writeOffset s"
    "kw_queue ?s = kw_queue s" "completions ?s = completions s" "groupCommitMaxBytes ?s = groupCommitMaxBytes s" "tracker ?s = tracker s"
    "dropsBySegment ?s = dropsBySegment s"
    by (simp_all add: answer_group_def Let_def)
  have Q: "distinct (completions_of g)" "set (completions_of g) \<inter> set (completions_of (kw_queue s)) = {}"
    "\<forall>c\<in>set (completions_of g). c < completions s"
    using I(2) by (auto simp: queue_inv_def c)
  note res = set_results [OF Q(1), of st "results s"]
  have todo: "todo ?s = todo s" by (simp add: todo_def f c)
  have ah: "ahead crc ?s = ahead crc s" by (simp add: ahead_def todo f c)
  have "disk_inv crc n older cur gs spares ?s" using I(1) disk_inv_cong [of ?s s] by (simp add: f)
  moreover have "queue_inv crc ?s" using I(2) Q by (auto simp: queue_inv_def f c res split: if_splits)
  moreover have "committer_inv crc ?A ?s" using I(3) by (auto simp: committer_inv_def f c split: if_splits)
  moreover have "tracker_inv n ?A L ?s" using I(4) by (simp add: tracker_inv_def todo f drops_of_def)
  moreover have "live_inv crc ?A L X ?s"
  proof (rule live_invI)
    fix c' sid ev
    assume "(c', sid, ev) \<in> X"
    from live_invD [OF I(5) this] show "placed crc ?A L ?s c' sid ev"
    proof (cases rule: placedE)
      case 1
      then have "waiting ?s c' sid ev" unfolding waiting_def todo by blast
      then show ?thesis using 1 by (simp add: placed_def f)
    next
      case 2
      then show ?thesis by (simp add: placed_def f ah)
    next
      case 3
      then have "doomed ?s c'" by (auto simp: doomed_def todo f c res)
      then show ?thesis using 3 by (simp add: placed_def f)
    qed
  qed
  ultimately show ?thesis by (rule wal_invI)
qed

lemma finish_step_inv:
  assumes inv: "wal_inv crc n X s" and small: "n + 3 < 2 ^ 64" and c: "committer s = Finishing g rest st seg bytes events"
  shows "wal_inv crc (Suc n) X (finish_step g rest st seg bytes events s)"
proof -
  have "wal_inv crc n X (finish_step g rest st seg bytes events s)"
  proof (cases "rest = []")
    case True
    then show ?thesis using answer_inv [OF inv] c by (simp add: finish_step_def)
  next
    case False
    obtain stop rest' events' s' where b: "finish_batch kLockBatch st seg rest events s = (stop, rest', events', s')"
      by (metis prod.exhaust)
    have "s\<lparr>committer := Finishing g rest st seg bytes events\<rparr> = s" by (simp flip: c)
    then have "wal_inv crc n X (s\<lparr>committer := Finishing g rest st seg bytes events\<rparr>)" using inv by simp
    from finish_batch_inv [OF this small b] show ?thesis using False b by (cases stop) (simp_all add: finish_step_def)
  qed
  then show ?thesis by (rule wal_inv_later) simp_all
qed

end
