(* ===== verification/WalDurability.thy ===== *)
theory WalDurability
  imports WalSteps
begin

text \<open>
  Durable writes survive a crash: the remaining steps of the keeper's write-ahead log keep the invariant of its
  runs too, the deletion of released segments among them, so an event answered as durable, and neither
  released nor destroyed with its story since, is recovered after a crash at any moment.
\<close>

section \<open>Deleting released segments\<close>

lemma log_segments: "x \<in> set (log_of images) \<Longrightarrow> fst x \<in> number_of ` set images"
  by (auto simp: entries_of_def set_map_filter written_log_def)

lemma log_of_append: "log_of (xs @ ys) = log_of xs @ log_of ys"
  by (simp add: written_log_append)

lemma log_without:
  assumes "dir_images crc dir (xs @ im # ys)"
  shows "log_of (xs @ ys) = filter (\<lambda>x. fst x \<noteq> number_of im) (log_of (xs @ im # ys))"
proof -
  have keep: "filter (\<lambda>x. fst x \<noteq> number_of im) (log_of zs) = log_of zs" if "number_of im \<notin> number_of ` set zs" for zs
    using that log_segments by (fastforce intro: filter_True)
  have "filter (\<lambda>x. fst x \<noteq> number_of im) (log_of [im]) = []"
    using log_segments [of _ "[im]"] by (auto simp: filter_empty_conv)
  moreover have "log_of (xs @ im # ys) = log_of xs @ log_of [im] @ log_of ys"
    using log_of_append [of xs "[im] @ ys"] log_of_append [of "[im]" ys] by simp
  ultimately show ?thesis using keep dir_images_distinct(1,2) [OF assms] by (simp add: log_of_append)
qed

lemma log_sorted: "dir_images crc dir images \<Longrightarrow> sorted (map fst (log_of images))"
proof -
  assume dir: "dir_images crc dir images"
  have one: "sorted (map fst (log_of [im]))" for im
    using log_segments [of _ "[im]"] by (simp add: sorted_map sorted_wrt_iff_nth_less)
  have "sorted_wrt (<) (map number_of images) \<Longrightarrow> sorted (map fst (log_of images))"
  proof (induction images)
    case (Cons im images)
    have "log_of (im # images) = log_of [im] @ log_of images" using log_of_append [of "[im]" images] by simp
    moreover have "\<forall>x\<in>set (log_of [im]). \<forall>y\<in>set (log_of images). fst x \<le> fst y"
      using Cons.prems log_segments [of _ "[im]"] log_segments [of _ images] by (fastforce intro: less_imp_le)
    ultimately show ?case using Cons one [of im] by (simp add: sorted_append)
  qed (simp add: written_log_def)
  then show ?thesis using dir by (simp add: dir_images_def)
qed

lemma survives_before:
  assumes "survives sid ev seg A" "sorted (map fst A)" "(n, LogD sid) \<in> set A"
  shows "n \<le> seg"
proof -
  obtain pre post where A: "A = pre @ (seg, LogE sid ev) # post" "LogD sid \<notin> snd ` set post"
    using assms(1) unfolding survives_def by blast
  have "(n, LogD sid) \<notin> set post" using A(2) by (metis image_eqI snd_conv)
  then have "(n, LogD sid) \<in> set pre" using assms(3) A(1) by simp
  then have "n \<in> fst ` set pre" by (metis fst_conv image_eqI)
  then show ?thesis using assms(2) A(1) by (simp add: sorted_append) blast
qed

text \<open>A file that is no segment of the list is not there.\<close>

lemma remove_absent:
  assumes "dir_images crc dir images" "n \<notin> number_of ` set images"
  shows "remove_file (segmentFileName n) dir = dir"
proof -
  have "fst x \<noteq> segmentFileName n" if "x \<in> set (wal_files dir)" for x
  proof
    assume "fst x = segmentFileName n"
    then have "n \<in> seg_files dir" using that by (force simp: seg_files_def)
    then show False using assms by (simp add: dir_images_def)
  qed
  then show ?thesis by (simp add: remove_file_def filter_id_conv)
qed

lemma delete_disk:
  assumes D: "disk_inv crc n older cur gs spares s" and old: "seg < activeSegment s"
    and s': "disk s' = remove_file (segmentFileName seg) (disk s)" "activeSegment s' = activeSegment s" "writeOffset s' = writeOffset s"
      "segmentFiles s' = segmentFiles s\<lparr>segmentList := remove1 seg (segmentList (segmentFiles s))\<rparr>"
  shows "\<exists>older'. disk_inv crc n older' cur gs spares s' \<and>
    log_of (older' @ cur # spares) = filter (\<lambda>x. fst x \<noteq> seg) (log_of (older @ cur # spares))"
proof -
  note d = disk_invD [OF D]
  have dir: "dir_images crc (disk s) (older @ cur # spares)" using d(1) by simp
  have list: "manager_inv crc n (older @ [cur]) spares (segmentFiles s')"
    using d(4) set_remove1_subset [of seg "segmentList (segmentFiles s)"] by (auto simp: s' manager_inv_def)
  show ?thesis
  proof (cases "seg \<in> number_of ` set (older @ cur # spares)")
    case False
    have "remove_file (segmentFileName seg) (disk s) = disk s" by (rule remove_absent [OF dir False])
    then have "disk_inv crc n older cur gs spares s'" using d list by (intro disk_invI) (simp_all add: s')
    moreover have "filter (\<lambda>x. fst x \<noteq> seg) (log_of (older @ cur # spares)) = log_of (older @ cur # spares)"
      using False log_segments by (fastforce intro: filter_True)
    ultimately show ?thesis by metis
  next
    case True
    have "seg \<noteq> number_of i" if "i \<in> set (cur # spares)" for i
      using old d(5) dir_images_distinct(4) [OF dir] that by auto
    then obtain xs im ys where o: "older = xs @ im # ys" "seg = number_of im" using True by (auto dest: split_list)
    have dir': "dir_images crc (disk s) (xs @ im # ys @ cur # spares)" using dir o by simp
    from dir_images_remove [OF this] have "dir_images crc (disk s') ((xs @ ys) @ cur # spares)" by (simp add: s' o)
    moreover have "manager_inv crc n ((xs @ ys) @ [cur]) spares (segmentFiles s')"
      using list by (simp add: o manager_inv_def)
    ultimately have "disk_inv crc n (xs @ ys) cur gs spares s'" using d by (intro disk_invI) (simp_all add: s' o)
    moreover have "log_of ((xs @ ys) @ cur # spares) = filter (\<lambda>x. fst x \<noteq> seg) (log_of (older @ cur # spares))"
      using log_without [OF dir'] by (simp only: o append_assoc append_Cons)
    ultimately show ?thesis by blast
  qed
qed

lemma live_kept:
  assumes live: "live_inv crc A L X s"
    and same: "todo s' = todo s" "committer s' = committer s" "unsynced s' = unsynced s" "completions s' = completions s" "results s' = results s"
    and held: "\<And>sid ev. held_in A L (unlogged_drops (disk s)) sid ev \<Longrightarrow> held_in A' L (unlogged_drops (disk s')) sid ev"
  shows "live_inv crc A' L X s'"
proof (rule live_invI)
  fix c sid ev
  assume "(c, sid, ev) \<in> X"
  from live_invD [OF live this] show "placed crc A' L s' c sid ev"
  proof (cases rule: placedE)
    case 1
    then have "waiting s' c sid ev" unfolding waiting_def same by blast
    then show ?thesis using 1 by (simp add: placed_def same)
  next
    case 2
    then show ?thesis using held by (simp add: placed_def same ahead_def)
  next
    case 3
    then show ?thesis by (simp add: placed_def doomed_def same)
  qed
qed

abbreviation between_groups :: "KeeperWal \<Rightarrow> bool" where
  "between_groups s \<equiv> committer s = Waiting \<or> committer s = Answered"

text \<open>A segment that holds no copy of a pending event is not one a held event rests on.\<close>

lemma delete_one_inv:
  assumes inv: "wal_inv crc n X s" and c: "between_groups s" and seg: "seg < activeSegment s" "outstanding seg (tracker s) = 0"
    and s': "s' = s\<lparr>segmentFiles := segmentFiles s\<lparr>segmentList := remove1 seg (segmentList (segmentFiles s))\<rparr>,
      disk := remove_file (segmentFileName seg) (disk s), dropsBySegment := omap_erase seg (dropsBySegment s), directorySyncOwed := owed\<rparr>"
  shows "wal_inv crc n X s'"
proof -
  obtain older cur gs spares L where I: "disk_inv crc n older cur gs spares s" "queue_inv crc s"
    "committer_inv crc (log_of (older @ cur # spares)) s" "tracker_inv n (log_of (older @ cur # spares)) L s"
    "live_inv crc (log_of (older @ cur # spares)) L X s" by (rule wal_invE [OF inv])
  let ?A = "log_of (older @ cur # spares)" and ?A' = "filter (\<lambda>x. fst x \<noteq> seg) (log_of (older @ cur # spares))"
  obtain older' where D: "disk_inv crc n older' cur gs spares s'" "log_of (older' @ cur # spares) = ?A'"
    using delete_disk [OF I(1) seg(1), of s'] by (auto simp: s')
  have t: "tracks (tracker s) L" "omap_ok (dropsBySegment s)" using I(4) by (simp_all add: tracker_inv_def)
  then have none: "in_segment L seg = 0" using outstanding_zero seg(2) by simp
  have drops: "drops_of k s' = (if k = seg then [] else drops_of k s)" for k
    using t(2) by (simp add: s' drops_of_def omap_simps)
  have todo: "todo s' = todo s" by (simp add: s' todo_def)
  have t': "tracker s' = tracker s" "omap_ok (dropsBySegment s')" "unlogged_drops (disk s') = unlogged_drops (disk s)"
    "activeSegment s' = activeSegment s" "kw_failed s' = kw_failed s"
    using t(2) by (auto simp: s' remove_file_def)
  have "queue_inv crc s'" using I(2) by (simp add: s' queue_inv_def)
  moreover have "committer_inv crc ?A' s'" using I(3) c by (auto simp: s' committer_inv_def)
  moreover have "tracker_inv n ?A' L s'"
    using I(4) drops t' by (auto simp: tracker_inv_def todo)
  moreover have "live_inv crc ?A' L X s'"
  proof (rule live_kept [OF I(5)])
    fix sid ev
    assume "held_in ?A L (unlogged_drops (disk s)) sid ev"
    then obtain seg0 b where h: "(sid, ev, \<lparr>cp_segment = seg0, cp_bytes = b\<rparr>) \<in> set L" "survives sid ev seg0 ?A"
      "\<forall>d\<in>set (unlogged_drops (disk s)). drop_story_id d = sid \<longrightarrow> drop_last_segment d < seg0"
      unfolding held_in_def by blast
    have "seg0 \<noteq> seg" using none h(1) by (auto simp: in_segment_def filter_empty_conv)
    then have "survives sid ev seg0 ?A'" using survives_filter [OF h(2)] by simp
    then show "held_in ?A' L (unlogged_drops (disk s')) sid ev" using h(1,3) unfolding held_in_def t' by blast
  qed (simp_all add: s' todo_def)
  ultimately show ?thesis using wal_invI [OF D(1)] D(2) by simp
qed

lemma delete_loop_inv:
  assumes "wal_inv crc n X s" "between_groups s" "\<forall>seg\<in>set released. seg < activeSegment s \<and> outstanding seg (tracker s) = 0"
    "distinct released" "set released \<subseteq> set (segmentList (segmentFiles s))"
  shows "wal_inv crc n X (delete_loop fault released s) \<and> committer (delete_loop fault released s) = committer s"
  using assms
proof (induction released arbitrary: s)
  case (Cons seg released)
  let ?m = "segmentFiles s\<lparr>segmentList := remove1 seg (segmentList (segmentFiles s))\<rparr>"
  let ?s = "\<lambda>owed. s\<lparr>segmentFiles := ?m, disk := remove_file (segmentFileName seg) (disk s),
      dropsBySegment := omap_erase seg (dropsBySegment s), directorySyncOwed := owed\<rparr>"
  have inv: "wal_inv crc n X (?s owed)" for owed using delete_one_inv [OF Cons.prems(1,2) _ _ refl] Cons.prems(3) by simp
  have listed: "seg \<in> set (segmentList (segmentFiles s))" using Cons.prems(5) by simp
  obtain older cur gs spares where D: "disk_inv crc n older cur gs spares s" using Cons.prems(1) unfolding wal_inv_def by blast
  have gone: "seg \<notin> set (segmentList ?m)" using disk_invD(4) [OF D] by (simp add: manager_inv_def)
  consider "fault seg = Some RemoveFails" | "fault seg = Some DirectorySyncFails" | "fault seg = None"
    by (metis delete_fault.exhaust option.exhaust)
  then show ?case
  proof cases
    case 1
    have "deleteSegment (fault seg) seg (segmentFiles s) (disk s) = (False, segmentFiles s, disk s)" using 1 by (simp add: deleteSegment_def)
    then show ?thesis using listed Cons.prems(1) by (simp add: Let_def)
  next
    case 2
    then have "deleteSegment (fault seg) seg (segmentFiles s) (disk s) = (False, ?m, remove_file (segmentFileName seg) (disk s))"
      using listed by (simp add: deleteSegment_def)
    then show ?thesis using gone inv [of True] by (simp add: Let_def)
  next
    case 3
    then have del: "deleteSegment (fault seg) seg (segmentFiles s) (disk s) = (True, ?m, remove_file (segmentFileName seg) (disk s))"
      using listed by (simp add: deleteSegment_def)
    let ?s1 = "s\<lparr>segmentFiles := ?m, disk := remove_file (segmentFileName seg) (disk s), dropsBySegment := omap_erase seg (dropsBySegment s)\<rparr>"
    have same: "?s (directorySyncOwed s) = ?s1" by simp
    have step: "delete_loop fault (seg # released) s = delete_loop fault released ?s1" using del by (simp add: Let_def)
    have rest: "set released \<subseteq> set (segmentList ?m)" using Cons.prems(4,5) disk_invD(4) [OF D] by (auto simp: manager_inv_def)
    have "wal_inv crc n X ?s1" using inv [of "directorySyncOwed s"] unfolding same .
    moreover have "wal_inv crc n X (delete_loop fault released ?s1) \<and> committer (delete_loop fault released ?s1) = committer ?s1"
      if "wal_inv crc n X ?s1"
      using Cons.IH [OF that] Cons.prems(2-5) rest by simp
    ultimately show ?thesis unfolding step by simp
  qed
qed simp

lemma wal_inv_same:
  assumes inv: "wal_inv crc n X s"
    and same: "disk s' = disk s" "segmentFiles s' = segmentFiles s" "activeSegment s' = activeSegment s" "writeOffset s' = writeOffset s"
      "committer s' = committer s" "kw_queue s' = kw_queue s" "unsynced s' = unsynced s" "tracker s' = tracker s"
      "dropsBySegment s' = dropsBySegment s" "completions s' = completions s" "results s' = results s"
      "groupCommitMaxBytes s' = groupCommitMaxBytes s" "kw_failed s' = kw_failed s"
  shows "wal_inv crc n X s'"
proof (rule quiet_step [OF inv order_refl])
  show "\<exists>older' cur' gs' spares'. disk_inv crc n older' cur' gs' spares' s' \<and>
      log_of (older' @ cur' # spares') = log_of (older @ cur # spares)" if "disk_inv crc n older cur gs spares s" for older cur gs spares
    using that disk_inv_cong [OF same(1,3,4,2)] by blast
  show "committer_inv crc A s'" if "committer_inv crc A s" for A using that committer_inv_cong [OF same(5,13,7,3)] by simp
  have "todo s' = todo s" by (simp add: todo_def same)
  then show "todo s' = todo s" "ahead crc s' \<subseteq> ahead crc s" by (simp_all add: ahead_def same)
qed (auto simp: same queue_inv_def)

lemma add_lines_subset: "set (add_lines carried drops) \<subseteq> set carried \<union> set drops"
  unfolding add_lines_def by (induction carried arbitrary: drops) (fastforce split: if_splits)+

text \<open>The drops kept for a segment deleted ahead of an older one end before every copy of their story that is left.\<close>

lemma more_drops_inv:
  assumes inv: "wal_inv crc n X s" and c: "between_groups s"
    and lines: "\<And>d. d \<in> set ds \<Longrightarrow> d \<in> set (unlogged_drops (disk s)) \<or>
      drop_story_id d \<in> set (drops_of (drop_last_segment d) s) \<and> drop_last_segment d < activeSegment s \<and>
        outstanding (drop_last_segment d) (tracker s) = 0"
  shows "wal_inv crc n X (s\<lparr>disk := disk s\<lparr>unlogged_drops := ds\<rparr>\<rparr>)"
proof -
  let ?s = "s\<lparr>disk := disk s\<lparr>unlogged_drops := ds\<rparr>\<rparr>"
  obtain older cur gs spares L where I: "disk_inv crc n older cur gs spares s" "queue_inv crc s"
    "committer_inv crc (log_of (older @ cur # spares)) s" "tracker_inv n (log_of (older @ cur # spares)) L s"
    "live_inv crc (log_of (older @ cur # spares)) L X s" by (rule wal_invE [OF inv])
  let ?A = "log_of (older @ cur # spares)"
  have sorted: "sorted (map fst ?A)" using log_sorted disk_invD(1) [OF I(1)] by fastforce
  have t: "tracks (tracker s) L" using I(4) by (simp add: tracker_inv_def)
  show ?thesis
  proof (rule wal_invI)
    show "disk_inv crc n older cur gs spares ?s" using I(1) by (simp add: disk_inv_def dir_images_drops)
    show "queue_inv crc ?s" using I(2) by (simp add: queue_inv_def)
    show "committer_inv crc ?A ?s" using I(3) committer_inv_cong [of ?s s] by simp
    have "drop_last_segment d < activeSegment s" if "\<not> kw_failed s" "d \<in> set ds" for d
      using lines [OF that(2)] I(4) that(1) by (auto simp: tracker_inv_def)
    moreover have "drops_of k ?s = drops_of k s" "todo ?s = todo s" for k by (simp_all add: drops_of_def todo_def)
    ultimately show "tracker_inv n ?A L ?s" using I(4) by (simp add: tracker_inv_def)
    show "live_inv crc ?A L X ?s"
    proof (rule live_kept [OF I(5)])
      fix sid ev
      assume "held_in ?A L (unlogged_drops (disk s)) sid ev"
      then obtain seg b where h: "(sid, ev, \<lparr>cp_segment = seg, cp_bytes = b\<rparr>) \<in> set L" "survives sid ev seg ?A"
        "\<forall>d\<in>set (unlogged_drops (disk s)). drop_story_id d = sid \<longrightarrow> drop_last_segment d < seg"
        unfolding held_in_def by blast
      have "drop_last_segment d < seg" if d: "d \<in> set ds" "drop_story_id d = sid" for d
      proof (cases "d \<in> set (unlogged_drops (disk s))")
        case False
        then have new: "sid \<in> set (drops_of (drop_last_segment d) s)" "outstanding (drop_last_segment d) (tracker s) = 0"
          using lines d by auto
        then have "(drop_last_segment d, LogD sid) \<in> set ?A" using I(4) by (simp add: tracker_inv_def)
        then have "drop_last_segment d \<le> seg" by (rule survives_before [OF h(2) sorted])
        moreover have "in_segment L (drop_last_segment d) = 0" using new(2) outstanding_zero [OF t] by simp
        then have "drop_last_segment d \<noteq> seg" using h(1) by (auto simp: in_segment_def filter_empty_conv)
        ultimately show ?thesis by simp
      qed (use h(3) d(2) in blast)
      then show "held_in ?A L (unlogged_drops (disk ?s)) sid ev" using h(1,2) unfolding held_in_def by auto
    qed (simp_all add: todo_def)
  qed
qed

lemma keep_drops_inv:
  assumes inv: "wal_inv crc n X s" and c: "between_groups s"
    and rel: "\<forall>seg\<in>set released. seg < activeSegment s \<and> outstanding seg (tracker s) = 0" "distinct released"
    and run: "keepDropsOfSegmentsDeletedAhead fault released s = (released', s')"
  shows "wal_inv crc n X s' \<and> set released' \<subseteq> set released \<and> distinct released' \<and> committer s' = committer s \<and>
    activeSegment s' = activeSegment s \<and> tracker s' = tracker s \<and> segmentFiles s' = segmentFiles s"
proof (cases "find (\<lambda>segment. segment \<notin> set released) (segmentList (segmentFiles s))")
  case None
  then show ?thesis using run inv rel(2) by (simp add: keepDropsOfSegmentsDeletedAhead_def Let_def)
next
  case (Some oldest)
  define carrying where "carrying = filter (\<lambda>segment. oldest \<le> segment \<and> drops_of segment s \<noteq> []) released"
  define carried where "carried = concat (map (\<lambda>segment. map (\<lambda>sid. \<lparr>drop_story_id = sid, drop_last_segment = segment\<rparr>)
    (drops_of segment s)) carrying)"
  define drops where "drops = filter (\<lambda>d. hd (segmentList (segmentFiles s)) \<le> drop_last_segment d) (unlogged_drops (disk s))"
  have out: "(released', s') = (if carried = [] then (released, s)
      else if fault = None then (released, s\<lparr>disk := put_drops fault (add_lines carried drops) (disk s)\<rparr>)
      else (filter (\<lambda>segment. segment \<notin> set carrying) released, s\<lparr>disk := put_drops fault (add_lines carried drops) (disk s)\<rparr>))"
    using run [symmetric]
    by (simp only: keepDropsOfSegmentsDeletedAhead_def Let_def Some option.case carrying_def carried_def drops_def)
  have new: "wal_inv crc n X (s\<lparr>disk := disk s\<lparr>unlogged_drops := add_lines carried drops\<rparr>\<rparr>)"
  proof (rule more_drops_inv [OF inv c])
    fix d
    assume "d \<in> set (add_lines carried drops)"
    then have "d \<in> set carried \<or> d \<in> set drops" using add_lines_subset by blast
    then show "d \<in> set (unlogged_drops (disk s)) \<or> drop_story_id d \<in> set (drops_of (drop_last_segment d) s) \<and>
        drop_last_segment d < activeSegment s \<and> outstanding (drop_last_segment d) (tracker s) = 0"
      using rel(1) by (auto simp: carried_def carrying_def drops_def)
  qed
  have "wal_inv crc n X s'" using out inv new by (simp add: put_drops_def split: if_splits)
  then show ?thesis using out rel(2) by (auto split: if_splits)
qed

lemma delete_released_inv:
  assumes inv: "wal_inv crc n X s" and c: "between_groups s"
  shows "wal_inv crc n X (deleteReleasedSegments f s) \<and> committer (deleteReleasedSegments f s) = committer s"
proof -
  let ?s = "s\<lparr>directorySyncOwed := False\<rparr>"
  let ?rel = "deletable (segmentList (segmentFiles s)) (activeSegment s) (tracker s)"
  have s0: "wal_inv crc n X ?s" by (rule wal_inv_same [OF inv]) simp_all
  obtain older cur gs spares where D: "disk_inv crc n older cur gs spares s" using inv unfolding wal_inv_def by blast
  have rel: "\<forall>seg\<in>set ?rel. seg < activeSegment ?s \<and> outstanding seg (tracker ?s) = 0" "distinct ?rel"
    "set ?rel \<subseteq> set (segmentList (segmentFiles s))"
    using disk_invD(4,5) [OF D] by (auto simp: deletable_def manager_inv_def)
  obtain released s1 where k: "keepDropsOfSegmentsDeletedAhead (df_drops f) ?rel ?s = (released, s1)" by (metis prod.exhaust)
  have K: "wal_inv crc n X s1" "set released \<subseteq> set ?rel" "distinct released" "committer s1 = committer s"
    "activeSegment s1 = activeSegment s" "tracker s1 = tracker s" "segmentFiles s1 = segmentFiles s"
    using keep_drops_inv [OF s0 _ rel(1,2) k] c by auto
  have "wal_inv crc n X (delete_loop (df_delete f) released s1) \<and> committer (delete_loop (df_delete f) released s1) = committer s"
    using delete_loop_inv [OF K(1), of released] c K(2-7) rel by auto
  moreover have "wal_inv crc n X (t\<lparr>counters := k\<rparr>)" if "wal_inv crc n X t" for t k
    by (rule wal_inv_same [OF that]) simp_all
  ultimately show ?thesis using inv s0 k by (simp add: deleteReleasedSegments_def Let_def)
qed

section \<open>Every step keeps the invariant\<close>

lemma delete_step:
  assumes inv: "wal_inv crc n X s" and c: "committer s = Answered"
  shows "wal_inv crc (Suc n) X (deleteReleasedSegments f s\<lparr>committer := Waiting\<rparr>)"
proof -
  from delete_released_inv [OF inv, of f] c
  have d: "wal_inv crc n X (deleteReleasedSegments f s)" "committer (deleteReleasedSegments f s) = Answered" by simp_all
  have "wal_inv crc n X (deleteReleasedSegments f s\<lparr>committer := Waiting\<rparr>)"
    by (rule committer_switch [OF d]) (use d(2) in \<open>auto simp: committer_inv_def\<close>)
  then show ?thesis by (rule wal_inv_later) simp_all
qed

lemma sync_error_inv:
  assumes inv: "wal_inv crc n X s" and c: "committer s = Waiting"
  shows "wal_inv crc n X (s\<lparr>kw_failed := True\<rparr>)"
proof (rule quiet_step [OF inv order_refl])
  let ?s = "s\<lparr>kw_failed := True\<rparr>"
  show "\<exists>older' cur' gs' spares'. disk_inv crc n older' cur' gs' spares' ?s \<and>
      log_of (older' @ cur' # spares') = log_of (older @ cur # spares)" if "disk_inv crc n older cur gs spares s" for older cur gs spares
    using that disk_inv_cong [of ?s s] by force
  show "committer_inv crc A ?s" if "committer_inv crc A s" for A using that c by (simp add: committer_inv_def)
  show "todo ?s = todo s" "ahead crc ?s \<subseteq> ahead crc s" by (simp_all add: todo_def ahead_def)
qed (auto simp: queue_inv_def)

lemma periodic_step:
  assumes inv: "wal_inv crc n X s" and small: "n + 3 < 2 ^ 64" and c: "committer s = Waiting" and run: "periodicWork crc p s = Some s'"
  shows "wal_inv crc (Suc n) X s'"
proof -
  let ?s1 = "sampleFreeSpace (pi_free p) s"
  let ?s2 = "deleteReleasedSegments (pi_first_delete p) ?s1"
  have s1: "wal_inv crc n X ?s1" "committer ?s1 = Waiting"
    using c by (auto intro!: wal_inv_same [OF inv] simp: sampleFreeSpace_def split: option.splits prod.splits)
  have s2: "wal_inv crc n X ?s2" "committer ?s2 = Waiting" using delete_released_inv [OF s1(1), of "pi_first_delete p"] s1(2) by simp_all
  have run: "idle_rotation crc p ?s2 = Some s'" using run by (simp add: periodicWork_def)
  have same: "wal_inv crc (Suc n) X ?s2" using wal_inv_later [OF s2(1)] by simp
  have failed: "wal_inv crc (Suc n) X (?s2\<lparr>kw_failed := True\<rparr>)" using wal_inv_later [OF sync_error_inv [OF s2]] by simp
  have switched: "wal_inv crc (Suc n) X t \<and> committer t = Waiting" if "switchToSpare crc (pi_take p) (segmentBytes ?s2) ?s2 = Some (ok, t)" for ok t
    using switch_step [OF s2(1) small _ that] switch_only(6) [OF that] s2(2) by simp
  show ?thesis using run same failed switched delete_released_inv
    by (auto simp: idle_rotation_def split: if_splits option.splits bool.splits)
qed

lemma stop_step:
  assumes inv: "wal_inv crc n X s"
  shows "wal_inv crc (Suc n) X (stop_begin s)" "stop_end s = Some s' \<Longrightarrow> wal_inv crc (Suc n) X s'"
proof -
  have "wal_inv crc n X (stop_begin s)"
    by (rule wal_inv_same [OF inv]) (simp_all add: stop_begin_def split: wal_phase.split)
  then show "wal_inv crc (Suc n) X (stop_begin s)" by (rule wal_inv_later) simp_all
  show "wal_inv crc (Suc n) X s'" if "stop_end s = Some s'"
  proof (rule quiet_step [OF inv])
    have s': "s' = s\<lparr>kw_state := Stopped, segmentFiles := stopPreparer (segmentFiles s)\<rparr>"
      using that by (simp add: stop_end_def split: if_splits)
    show "\<exists>older' cur' gs' spares'. disk_inv crc (Suc n) older' cur' gs' spares' s' \<and>
        log_of (older' @ cur' # spares') = log_of (older @ cur # spares)" if D: "disk_inv crc n older cur gs spares s" for older cur gs spares
    proof -
      have "disk_inv crc (Suc n) older cur gs spares s'"
        using disk_inv_later [OF D, of "Suc n"] by (auto simp: s' disk_inv_def manager_inv_def stopPreparer_def)
      then show ?thesis by blast
    qed
    show "committer_inv crc A s'" if "committer_inv crc A s" for A using that committer_inv_cong [of s' s] by (simp add: s')
    have "todo s' = todo s" by (simp add: s' todo_def)
    then show "todo s' = todo s" "ahead crc s' \<subseteq> ahead crc s" by (simp_all add: ahead_def s')
  qed (use that in \<open>auto simp: stop_end_def queue_inv_def split: if_splits\<close>)
qed

context checksum
begin

lemma wal_step_inv:
  assumes "wal_step crc s l s'" "wal_inv crc n X s" "n + 3 < 2 ^ 64"
  shows "wal_inv crc (Suc n) (live_step l X) s'"
  using assms
proof (induction rule: wal_step.induct)
  case (step_sync s g bytes named f)
  then show ?case using fail_inv [of n X s g undefined bytes named "Suc n"] sync_ok_step [of crc n X s g bytes named f]
    by (cases "cf_sync f") (simp_all add: sync_group_def)
next
  case (step_append chronicle story e frame names s c s')
  then show ?case using append_step by blast
next
  case (step_periodic s p s')
  then show ?case using periodic_step by simp
next
  case (step_release chunk sid s finished s')
  then show ?case using release_small_step by blast
qed (simp_all add: dropped_step release_hold_step discard_step take_step latched_step commit_step record_step erase_step
    finish_step_inv drop_copies_step delete_step prepare_step stop_step del: live_step.simps(2,3))

lemma wal_run_inv:
  assumes "wal_run crc s0 labels s" "wal_inv crc 0 {} s0" "length labels + 3 < 2 ^ 64"
  shows "wal_inv crc (length labels) (live labels) s"
  using assms
proof (induction rule: wal_run.induct)
  case (run_step labels s l s')
  then show ?case using wal_step_inv [OF run_step.hyps(2), of "length labels" "live labels"] by (simp add: live_def)
qed (simp add: live_def)

end

section \<open>Acknowledged events survive\<close>

abbreviation empty_directory :: WalDirectory where
  "empty_directory \<equiv> \<lparr>wal_files = [], unlogged_drops = []\<rparr>"

lemma header_length: "length (record_body (HeaderRec \<lparr>format_version = v, segment_number = n, created_ns = t, keeper_endpoint = e\<rparr>)) =
    length (record_body (HeaderRec \<lparr>format_version = v, segment_number = 0, created_ns = 0, keeper_endpoint = e\<rparr>))"
  by (simp add: string_field_def)

lemma new_endpoint_ok: "new_KeeperWal crc sb gb rmin rp e dir = Inr w \<Longrightarrow> endpoint_ok e"
proof -
  assume "new_KeeperWal crc sb gb rmin rp e dir = Inr w"
  then obtain h where "encodeHeader crc \<lparr>format_version = kFormatVersion, segment_number = 0, created_ns = 0, keeper_endpoint = e\<rparr> = Inr h"
    by (auto simp: new_KeeperWal_def sum_bind_Inr)
  from encodeHeader_frame [OF this] have "good_body (record_body (HeaderRec \<lparr>format_version = kFormatVersion, segment_number = 0, created_ns = 0,
      keeper_endpoint = e\<rparr>))" by simp
  then show ?thesis using header_length [of kFormatVersion _ _ e] by (simp add: endpoint_ok_def good_body_def)
qed

lemma new_fields:
  assumes "new_KeeperWal crc sb gb rmin rp e dir = Inr w"
  shows "segmentFiles w = new_WalSegmentManager sb e" "disk w = dir" "kw_state w = Created" "segmentBytes w = sb"
    "groupCommitMaxBytes w = gb" "committer w = Waiting" "kw_queue w = []" "unsynced w = []" "tracker w = new_tracker"
    "completions w = 0" "results w = Map.empty" "\<not> kw_failed w" "inFlight w = []"
  using assms by (auto simp: new_KeeperWal_def sum_bind_Inr)

text \<open>What a start on an empty directory makes of the log: segment 1, prepared on the calling thread.\<close>

definition started_manager :: "nat \<Rightarrow> cpp_string \<Rightarrow> WalSegmentManager" where
  "started_manager sb e = new_WalSegmentManager sb e\<lparr>nextSegment := 2, opened := True, segmentHandedOut := True, segmentList := [1]\<rparr>"

definition started_size :: "(u32 \<Rightarrow> u8 list \<Rightarrow> u32) \<Rightarrow> u64 \<Rightarrow> nat \<Rightarrow> cpp_string \<Rightarrow> nat" where
  "started_size crc now sb e = max sb (length (header_frame crc 1 now e))"

definition started_image :: "(u32 \<Rightarrow> u8 list \<Rightarrow> u32) \<Rightarrow> u64 \<Rightarrow> nat \<Rightarrow> cpp_string \<Rightarrow> SegmentImage" where
  "started_image crc now sb e = fresh_image 1 now e (started_size crc now sb e - length (header_frame crc 1 now e))"

definition started_file :: "(u32 \<Rightarrow> u8 list \<Rightarrow> u32) \<Rightarrow> u64 \<Rightarrow> nat \<Rightarrow> cpp_string \<Rightarrow> u8 list" where
  "started_file crc now sb e = header_frame crc 1 now e @ replicate (started_size crc now sb e - length (header_frame crc 1 now e)) 0"

lemma started_manager_list [simp]: "segmentList (started_manager sb e) = [1]"
  by (simp add: started_manager_def)

lemma take_first:
  fixes sb e defines "m \<equiv> new_WalSegmentManager sb e\<lparr>segmentList := [], nextSegment := 1, opened := True\<rparr>"
  shows "tf_prepare f = None \<Longrightarrow> takeSpare crc f sb m empty_directory =
      Some (Some \<lparr>sp_segment = 1, sp_data_offset = length (header_frame crc 1 (tf_now f) e), sp_size_bytes = started_size crc (tf_now f) sb e\<rparr>,
        started_manager sb e, write_file (segmentFileName 1) (started_file crc (tf_now f) sb e) empty_directory)"
    "tf_prepare f \<noteq> None \<Longrightarrow> \<exists>m' dir. takeSpare crc f sb m empty_directory = Some (None, m', dir)"
  by (auto simp: m_def takeSpare_def spare_ready_def spare_or_prepare_def prepare_def new_WalSegmentManager_def Let_def
      started_manager_def started_size_def started_file_def)

definition started :: "(u32 \<Rightarrow> u8 list \<Rightarrow> u32) \<Rightarrow> StartFaults \<Rightarrow> nat \<Rightarrow> cpp_string \<Rightarrow> KeeperWal \<Rightarrow> KeeperWal" where
  "started crc f sb e w =
     (let now = tf_now (sf_take f);
          t = \<lparr>sp_segment = 1, sp_data_offset = length (header_frame crc 1 now e), sp_size_bytes = started_size crc now sb e\<rparr>;
          dir = write_file (segmentFileName 1) (started_file crc now sb e) empty_directory;
          s = sampleFreeSpace (sf_free f) (use_segment t (w\<lparr>segmentFiles := started_manager sb e, disk := dir\<rparr>)\<lparr>dropsBySegment := []\<rparr>)
      in s\<lparr>counters := counters s\<lparr>stat_segments := 1\<rparr>, kw_state := Running,
           segmentFiles := startPreparer (\<not> sf_preparer f) (started_manager sb e), kw_running := True\<rparr>)"

lemma sampleFreeSpace_files [simp]: "segmentFiles (sampleFreeSpace x s) = segmentFiles s"
  by (simp add: sampleFreeSpace_def split: option.split prod.split)

lemma start_fresh:
  assumes new: "new_KeeperWal crc sb gb rmin rp e empty_directory = Inr w"
  shows "start crc f (new_RecoveredState []) id_of w = Some (True, s) \<longleftrightarrow>
    \<not> sf_directory f \<and> \<not> sf_open f \<and> tf_prepare (sf_take f) = None \<and> \<not> sf_committer f \<and> s = started crc f sb e w"
proof -
  let ?m = "new_WalSegmentManager sb e\<lparr>segmentList := [], nextSegment := 1, opened := True\<rparr>"
  note w = new_fields [OF new]
  have opened: "sm_open (segmentFiles w) (disk w) = (?m, empty_directory)" "\<not> opened (segmentFiles w)"
    by (simp_all add: w sm_open_def manager_open_def new_WalSegmentManager_def List.map_filter_simps)
  show ?thesis
  proof (cases "tf_prepare (sf_take f) = None")
    case True
    show ?thesis using w opened True take_first(1) [OF True, of crc sb e]
      by (auto simp: start_def start_segment_def new_RecoveredState_def started_def Let_def use_segment_def)
  next
    case False
    then show ?thesis using w opened take_first(2) [OF False, of crc sb e]
      by (auto simp: start_def start_segment_def new_RecoveredState_def)
  qed
qed

lemma start_inv:
  assumes new: "new_KeeperWal crc sb gb rmin rp e empty_directory = Inr w" and gb: "gb \<le> 2 ^ 32"
    and run: "start crc f (new_RecoveredState []) id_of w = Some (True, s)"
  shows "wal_inv crc 0 {} s"
proof -
  have ok: "endpoint_ok e" by (rule new_endpoint_ok [OF new])
  note w = new_fields [OF new]
  let ?now = "tf_now (sf_take f)"
  let ?im = "started_image crc ?now sb e"
  have s: "disk s = write_file (segmentFileName 1) (started_file crc ?now sb e) empty_directory" "activeSegment s = 1"
    "writeOffset s = length (header_frame crc 1 ?now e)" "segmentFiles s = startPreparer (\<not> sf_preparer f) (started_manager sb e)"
    "committer s = Waiting" "kw_queue s = []" "unsynced s = []" "tracker s = new_tracker" "dropsBySegment s = []" "completions s = 0"
    "results s = Map.empty" "groupCommitMaxBytes s = gb"
    using run unfolding start_fresh [OF new]
    by (simp_all add: started_def Let_def use_segment_def sampleFreeSpace_def w split: option.split prod.split)
  have im: "number_of ?im = 1" "img_bodies ?im = []" "clean_image ?im" "image_data crc ?im = header_frame crc 1 ?now e"
    "image_bytes crc ?im = started_file crc ?now sb e" "image_ok crc ?im"
    using fresh_image_ok [OF ok] fresh_image_data [OF ok] by (simp_all add: started_image_def started_file_def) (simp add: fresh_image_def)
  have "dir_images crc empty_directory []" by (simp add: dir_images_def seg_files_def)
  from dir_images_new [OF this im(6)] have dir: "dir_images crc (disk s) ([] @ [?im])" unfolding s(1) im(1,5) by simp
  have "manager_inv crc 0 ([] @ [?im]) [] (segmentFiles s)"
    using ok by (simp add: s manager_inv_def startPreparer_def started_manager_def new_WalSegmentManager_def im)
  then have "disk_inv crc 0 [] ?im [] [] s" using dir by (intro disk_invI) (simp_all add: s im)
  moreover have "queue_inv crc s" using gb by (simp add: queue_inv_def s List.map_filter_simps)
  moreover have "committer_inv crc (log_of [?im]) s" by (simp add: committer_inv_def s)
  moreover have "tracker_inv 0 (log_of [?im]) [] s"
    using new_tracker_tracks by (simp add: tracker_inv_def s todo_def drops_of_def omap_ok_def)
  moreover have "live_inv crc (log_of [?im]) [] {} s" by (simp add: live_inv_def)
  ultimately show ?thesis using wal_invI [of crc 0 "[]" ?im "[]" "[]" s "[]" "{}"] by simp
qed

text \<open>
  Claim C1. An event that the log has answered as durable survives a crash: in every run of the log from a start on
  an empty directory, whatever system calls fail in it and however its threads interleave, and whatever a crash then leaves of
  the bytes that were being written, recovery succeeds and gives the event back, unless it was released or its story
  destroyed since its request was queued.
\<close>

theorem acknowledged_event_survives_crash:
  assumes law: "\<And>c xs ys. crc (crc c xs) ys = crc c (xs @ ys)"
    and new: "new_KeeperWal crc segment_bytes group_max reserve_min reserve_percent endpoint empty_directory = Inr w" "group_max \<le> 2 ^ 32"
    and start: "start crc f (new_RecoveredState []) id_of w = Some (True, s0)"
    and run: "wal_run crc s0 labels s" "length labels + 3 < 2 ^ 64"
    and event: "(c, sid, ev) \<in> live labels" "results s c = Some CL_SUCCESS"
    and crash: "crash_possible crc s k junk" "writeOffset s + length (concat (unsynced s)) + 17 < 2 ^ 64"
  shows "\<exists>st dir'. recoverWal crc no_faults now_ns (crash crc s k junk) = (Inr st, dir') \<and>
    (case map_of (rec_stories st) sid of None \<Rightarrow> None | Some story \<Rightarrow> map_of (rec_events story) ev) \<noteq> None"
proof -
  have "checksum crc" by unfold_locales (rule law)
  from checksum.wal_run_inv [OF this run(1) start_inv [OF new start] run(2)]
  obtain older cur gs spares L where I: "disk_inv crc (length labels) older cur gs spares s" "queue_inv crc s"
    "committer_inv crc (log_of (older @ cur # spares)) s" "live_inv crc (log_of (older @ cur # spares)) L (live labels) s"
    by (rule wal_invE)
  from answered_is_held [OF I(2,4) event] show ?thesis using held_event_recovered [OF I(1,3) _ _ crash] by blast
qed

text \<open>A run with one event: queued, written, synced, registered and answered.\<close>

definition wit_crc :: "u32 \<Rightarrow> u8 list \<Rightarrow> u32" where "wit_crc c xs = c"

definition wit_event :: LogEvent where
  "wit_event = \<lparr>evStoryId = 7, eventTime = 5, clientId = 2, eventIndex = 0, logRecord = [1]\<rparr>"

definition wit_take :: TakeFault where
  "wit_take = \<lparr>tf_prepare = None, tf_extend = None, tf_now = 0\<rparr>"

definition wit_start :: StartFaults where
  "wit_start = \<lparr>sf_directory = False, sf_open = False, sf_adopt = False, sf_take = wit_take, sf_free = None, sf_preparer = False,
    sf_committer = False\<rparr>"

definition wit_commit :: CommitFaults where
  "wit_commit = \<lparr>cf_rotate_sync = False, cf_take = wit_take, cf_write = False, cf_sync = False, cf_erase = False, cf_drops = None\<rparr>"

definition wit_wal :: KeeperWal where
  "wit_wal = projr (new_KeeperWal wit_crc 256 4096 0 0 [] empty_directory)"

definition wit_frames :: "EventFrame \<times> u8 list" where
  "wit_frames = projr (encode_entry wit_crc [] [] wit_event)"

lemma wit_encoded: "encode_entry wit_crc [] [] wit_event = Inr (fst wit_frames, snd wit_frames)"
    "event_frame_size (fst wit_frames) = 45" "length (snd wit_frames) = 25"
proof -
  have names: "encodeNames wit_crc \<lparr>names_story_id = 7, names_chronicle = [], names_story = []\<rparr> =
      Inr (frame_of wit_crc (record_body (NamesRec \<lparr>names_story_id = 7, names_chronicle = [], names_story = []\<rparr>)))"
    by (simp add: encodeNames_def fb_put_def fb_new_split fb_putString_frame fb_finish_frame string_field_def kMaxBodyBytes_def)
  obtain f where f: "encodeEvent wit_crc wit_event [] = Inr f" "event_frame_size f = 45"
    by (simp add: encodeEvent_def encodeLogEvent_def wit_event_def kHeadBytes_def kExtensionCountBytes_def kMaxEncodedEventBytes_def
        kMaxBodyBytes_def Let_def event_frame_size_def)
  then show "encode_entry wit_crc [] [] wit_event = Inr (fst wit_frames, snd wit_frames)" "event_frame_size (fst wit_frames) = 45"
    "length (snd wit_frames) = 25"
    using names by (simp_all add: wit_frames_def encode_entry_def wit_event_def frame_of_def string_field_def)
qed

lemma wit_new: "new_KeeperWal wit_crc 256 4096 0 0 [] empty_directory = Inr wit_wal"
proof -
  let ?h = "\<lparr>format_version = kFormatVersion, segment_number = 0, created_ns = 0, keeper_endpoint = []\<rparr>"
  have "good_body (record_body (HeaderRec ?h))" by (simp add: good_body_def kMaxBodyBytes_def string_field_def kMagic_def)
  then show ?thesis by (simp add: wit_wal_def new_KeeperWal_def encodeHeader_good del: record_body.simps)
qed

lemma wit_header: "length (header_frame wit_crc 1 0 []) = 36"
proof -
  let ?h = "\<lparr>format_version = kFormatVersion, segment_number = 1, created_ns = 0, keeper_endpoint = []\<rparr>"
  have "good_body (record_body (HeaderRec ?h))" by (simp add: good_body_def kMaxBodyBytes_def string_field_def kMagic_def)
  then have "header_frame wit_crc 1 0 [] = frame_of wit_crc (record_body (HeaderRec ?h))"
    by (simp add: header_frame_def encodeHeader_good del: record_body.simps)
  then show ?thesis by (simp add: frame_of_def string_field_def kMagic_def)
qed

definition wit_state :: KeeperWal where
  "wit_state = started wit_crc wit_start 256 [] wit_wal"

lemma wit_started: "start wit_crc wit_start (new_RecoveredState []) None wit_wal = Some (True, wit_state)"
  unfolding start_fresh [OF wit_new] by (simp add: wit_start_def wit_take_def wit_state_def)

lemma wit_fields:
  "kw_state wit_state = Running" "kw_failed wit_state = False" "kw_queue wit_state = []" "inFlight wit_state = []" "tracker wit_state = new_tracker"
  "committer wit_state = Waiting" "completions wit_state = 0" "activeSize wit_state = 256" "writeOffset wit_state = 36"
  "namedInActive wit_state = []" "activeSegment wit_state = 1" "unsynced wit_state = []" "groupCommitMaxBytes wit_state = 4096"
  using wit_header
  by (simp_all add: wit_state_def started_def wit_start_def wit_take_def sampleFreeSpace_def use_segment_def started_size_def Let_def
      new_fields [OF wit_new])

lemma synced_crash:
  assumes "disk_inv crc n older cur gs spares s" "unsynced s = []"
  shows "crash_possible crc s 0 []"
proof -
  note d = disk_invD [OF assms(1)]
  have "stored_image crc (disk s) cur" by (rule dir_images_stored [OF d(1)]) simp
  then have "map_of (wal_files (disk s)) (segmentFileName (activeSegment s)) = Some (image_bytes crc cur)"
    using d(5) by (simp add: stored_image_def)
  moreover have "scan_records (scanSegment crc (img_rest cur)) = []"
    using d(3) no_frame_in_zeros [of crc "length (img_rest cur)"] by (simp add: clean_image_def)
  ultimately show ?thesis using assms(2) d(8) by (simp add: crash_possible_def)
qed

lemma wit_run:
  "\<exists>s. wal_run wit_crc wit_state [Enqueued 0 7 (5, 2, 0), Internal, Internal, Internal, Internal, Internal] s \<and>
    results s 0 = Some CL_SUCCESS \<and> unsynced s = [] \<and> writeOffset s = 123"
proof -
  define q where "q = \<lparr>q_dropped = False, q_story_id = 7, q_identity = (5, 2, 0), q_event = fst wit_frames, q_names_frame = snd wit_frames,
    q_dropped_frame = [], q_completion = Some (0::nat)\<rparr>"
  define s1 where "s1 = push_entry q (wit_state\<lparr>completions := 1, inFlight := omap_emplace (7, (5, 2, 0)) 0 []\<rparr>)"
  define s2 where "s2 = s1\<lparr>kw_queue := [], queuedBytes := queuedBytes s1 - q_bytes q, committer := Taken [q] False\<rparr>"
  define s3 where "s3 = s2\<lparr>unsynced := group_frame wit_crc 87 # [q_names_frame q, event_frame_bytes (q_event q)], committer := Written [q] 87 [7]\<rparr>"
  define s4 where "s4 = sync_group wit_commit [q] 87 [7] s3"
  define s5 where "s5 = (finish_entry CL_SUCCESS 1 q s4)\<lparr>committer := Finishing [q] [] CL_SUCCESS 1 87 1\<rparr>"
  have w: "evStoryId wit_event = 7" "event_sequence wit_event = (5, 2, 0)" by (simp_all add: wit_event_def event_sequence_def)
  have "wal_step wit_crc wit_state (Enqueued 0 7 (5, 2, 0)) s1"
    using step_append [OF wit_encoded(1), of wit_state 0 s1]
    by (simp add: w appendDurable_queue_def settled_def findIdentity_def wit_fields isPending_def new_tracker_def s1_def q_def Let_def)
  from run_step [OF run_start this] have r1: "wal_run wit_crc wit_state [Enqueued 0 7 (5, 2, 0)] s1" by simp
  have qb: "q_bytes q = 45" by (simp add: q_bytes_def q_def wit_encoded)
  have "take_group s1 = Some s2" by (simp add: take_group_def s1_def s2_def push_entry_def wit_fields)
  from run_step [OF r1 step_take [OF this]] have r2: "wal_run wit_crc wit_state [Enqueued 0 7 (5, 2, 0), Internal] s2" by simp
  have bytes: "groupBytes [q] [] = 87"
    by (simp add: groupBytes_def qb kGroupFrameBytes_def kFrameHeaderBytes_def) (simp add: q_def wit_encoded)
  have f2: "activeSize s2 = 256" "writeOffset s2 = 36" "namedInActive s2 = []" "committer s2 = Taken [q] False"
    by (simp_all add: s2_def s1_def push_entry_def wit_fields)
  have "commitGroup wit_crc wit_commit [q] s2 = Some s3"
    by (simp add: commitGroup_def f2 bytes write_group_def Let_def s3_def wit_commit_def) (simp add: q_def)
  from run_step [OF r2 step_commit [OF f2(4) this]]
  have r3: "wal_run wit_crc wit_state [Enqueued 0 7 (5, 2, 0), Internal, Internal] s3" by simp
  have "committer s3 = Written [q] 87 [7]" by (simp add: s3_def)
  from run_step [OF r3 step_sync [where f = wit_commit, OF this]]
  have r4: "wal_run wit_crc wit_state [Enqueued 0 7 (5, 2, 0), Internal, Internal, Internal] s4" by (simp add: s4_def)
  have c4: "committer s4 = Finishing [q] [q] CL_SUCCESS 1 87 0" "unsynced s4 = []" "writeOffset s4 = 123"
    by (simp_all add: s4_def s3_def s2_def s1_def sync_group_def wit_commit_def push_entry_def wit_fields)
  have "finish_step [q] [q] CL_SUCCESS 1 87 0 s4 = s5" by (simp add: finish_step_def s5_def kLockBatch_def numeral_eq_Suc) (simp add: q_def)
  with run_step [OF r4 step_finish [OF c4(1)]]
  have r5: "wal_run wit_crc wit_state [Enqueued 0 7 (5, 2, 0), Internal, Internal, Internal, Internal] s5" by simp
  have "committer s5 = Finishing [q] [] CL_SUCCESS 1 87 1" by (simp add: s5_def)
  from run_step [OF r5 step_finish [OF this]]
  have "wal_run wit_crc wit_state [Enqueued 0 7 (5, 2, 0), Internal, Internal, Internal, Internal, Internal] (answer_group [q] CL_SUCCESS 87 1 s5)"
    by (simp add: finish_step_def)
  moreover have "results (answer_group [q] CL_SUCCESS 87 1 s5) 0 = Some CL_SUCCESS" "unsynced (answer_group [q] CL_SUCCESS 87 1 s5) = []"
    "writeOffset (answer_group [q] CL_SUCCESS 87 1 s5) = 123"
    using c4 by (simp_all add: answer_group_def Let_def s5_def finish_entry_only) (simp add: q_def)
  ultimately show ?thesis by blast
qed

theorem acknowledged_event_survives_crash_witness:
  "\<exists>labels s. wal_run wit_crc wit_state labels s \<and> (0, 7, (5, 2, 0)) \<in> live labels \<and> results s 0 = Some CL_SUCCESS \<and>
    (\<exists>st dir'. recoverWal wit_crc no_faults 0 (crash wit_crc s 0 []) = (Inr st, dir') \<and>
      (case map_of (rec_stories st) 7 of None \<Rightarrow> None | Some story \<Rightarrow> map_of (rec_events story) (5, 2, 0)) \<noteq> None)"
proof -
  let ?labels = "[Enqueued 0 7 (5, 2, 0), Internal, Internal, Internal, Internal, Internal]"
  obtain s where r: "wal_run wit_crc wit_state ?labels s" "results s 0 = Some CL_SUCCESS" "unsynced s = []" "writeOffset s = 123"
    using wit_run by blast
  have live: "(0, 7, (5, 2, 0)) \<in> live ?labels" by (simp add: live_def)
  have "checksum wit_crc" by unfold_locales (simp add: wit_crc_def)
  from checksum.wal_run_inv [OF this r(1) start_inv [OF wit_new _ wit_started]]
  obtain n older cur gs spares where "disk_inv wit_crc n older cur gs spares s" by (auto simp: wal_inv_def)
  from synced_crash [OF this r(3)] have crash: "crash_possible wit_crc s 0 []" .
  show ?thesis
    using acknowledged_event_survives_crash [OF _ wit_new _ wit_started r(1) _ live r(2) crash, of 0] r live by (auto simp: wit_crc_def)
qed

end
