(* ===== verification/KeeperPipeline.thy ===== *)
theory KeeperPipeline
  imports StoryPipeline
begin

text \<open>
  The keeper's story pipeline (\<^verbatim>\<open>src/chrono-keeper/src/KeeperStoryPipeline.cpp\<close>) with its ingestion
  handle (\<^verbatim>\<open>include/StoryIngestionHandle.h\<close>): events wait in a deque, are collected into the
  window of the timeline that contains them, and leave the pipeline in sealed chunks.

  The pipeline owns its windows and its deques, so they are values. Its calls to the retention store are
  returned in order. Dereferencing an end iterator, and a loop that does not end, is the outcome \<^const>\<open>None\<close>.
  Everything under the pipeline's sequencing mutex is one step.
\<close>

section \<open>State\<close>

text \<open>The calls the pipeline and the data store make to the retention store.\<close>

datatype tail_call =
  RegisterActiveSource StoryId
| UnregisterActiveSource StoryId
| IngestSealedChunk StoryId StoryChunk
| EventDiscarded StoryId EventSequence
| ReleaseStoryTail StoryId
| ClearDroppedStory StoryId
| RequeueStalled u32
| FreeDurableChunks

record KeeperStoryPipeline =
  kp_storyId :: StoryId
  kp_chronicleName :: cpp_string
  kp_storyName :: cpp_string
  kp_chunkGranularity :: u64
  kp_acceptanceWindow :: u64
  kp_lastArrival :: u64
  kp_activeDeque :: "LogEvent list"
  kp_passiveDeque :: "LogEvent list"
  kp_timeline :: "(u64, StoryChunk) omap"

definition kp_TimelineStart :: "KeeperStoryPipeline \<Rightarrow> u64" where
  "kp_TimelineStart pl = fst (hd (kp_timeline pl))"

definition kp_TimelineEnd :: "KeeperStoryPipeline \<Rightarrow> u64" where
  "kp_TimelineEnd pl = endTime (snd (last (kp_timeline pl)))"

definition kp_window :: "KeeperStoryPipeline \<Rightarrow> u64 \<Rightarrow> u64 \<Rightarrow> StoryChunk" where
  "kp_window pl a b = new_StoryChunk (kp_chronicleName pl) (kp_storyName pl) (kp_storyId pl) a b"

text \<open>The constructor; a granularity of 0 divides by zero.\<close>

definition new_KeeperStoryPipeline ::
  "cpp_string \<Rightarrow> cpp_string \<Rightarrow> StoryId \<Rightarrow> u64 \<Rightarrow> u32 \<Rightarrow> u32 \<Rightarrow> (KeeperStoryPipeline \<times> tail_call list) option" where
  "new_KeeperStoryPipeline chronicle story sid start_time granularity window =
     (if granularity = 0 then None
      else
        let g = ucast granularity * 1000000000;
            t = start_time - start_time mod g;
            pl = \<lparr>kp_storyId = sid, kp_chronicleName = chronicle, kp_storyName = story, kp_chunkGranularity = g,
                  kp_acceptanceWindow = ucast window * 1000000000, kp_lastArrival = 0, kp_activeDeque = [],
                  kp_passiveDeque = [], kp_timeline = []\<rparr>;
            add = (\<lambda>i m. let c = kp_window pl (t + g * i) (t + g * (i + 1)) in omap_emplace (startTime c) c m)
        in Some (pl\<lparr>kp_timeline := add 2 (add 1 (add 0 []))\<rparr>, [RegisterActiveSource sid]))"

section \<open>The ingestion handle\<close>

definition kp_ingestEvent :: "LogEvent \<Rightarrow> KeeperStoryPipeline \<Rightarrow> KeeperStoryPipeline" where
  "kp_ingestEvent e pl = pl\<lparr>kp_activeDeque := kp_activeDeque pl @ [e]\<rparr>"

definition kp_swapActiveDeque :: "KeeperStoryPipeline \<Rightarrow> KeeperStoryPipeline" where
  "kp_swapActiveDeque pl =
     (if kp_passiveDeque pl \<noteq> [] \<or> kp_activeDeque pl = [] then pl
      else pl\<lparr>kp_activeDeque := kp_passiveDeque pl, kp_passiveDeque := kp_activeDeque pl\<rparr>)"

section \<open>Extending the timeline\<close>

definition kp_insert_window :: "u64 \<Rightarrow> StoryChunk \<Rightarrow> KeeperStoryPipeline \<Rightarrow> u64 option \<times> KeeperStoryPipeline" where
  "kp_insert_window key c pl =
     (case map_of (kp_timeline pl) key of
        Some _ \<Rightarrow> (None, pl)
      | None \<Rightarrow> (Some key, pl\<lparr>kp_timeline := omap_emplace key c (kp_timeline pl)\<rparr>))"

definition kp_prependStoryChunk :: "KeeperStoryPipeline \<Rightarrow> u64 option \<times> KeeperStoryPipeline" where
  "kp_prependStoryChunk pl =
     (let a = kp_TimelineStart pl - kp_chunkGranularity pl
      in kp_insert_window a (kp_window pl a (kp_TimelineStart pl)) pl)"

definition kp_appendStoryChunk :: "KeeperStoryPipeline \<Rightarrow> u64 option \<times> KeeperStoryPipeline" where
  "kp_appendStoryChunk pl =
     (let a = kp_TimelineEnd pl in kp_insert_window a (kp_window pl a (a + kp_chunkGranularity pl)) pl)"

text \<open>The two loops that extend the timeline to a time; the iterator is \<^const>\<open>None\<close> when they give up.\<close>

partial_function (option) kp_append_loop ::
  "u64 \<Rightarrow> u64 option \<Rightarrow> KeeperStoryPipeline \<Rightarrow> (u64 option \<times> KeeperStoryPipeline) option" where
  "kp_append_loop t iter pl =
     (if kp_TimelineEnd pl \<le> t
      then (case kp_appendStoryChunk pl of
              (None, pl') \<Rightarrow> Some (None, pl')
            | (Some key, pl') \<Rightarrow> kp_append_loop t (Some key) pl')
      else Some (iter, pl))"

partial_function (option) kp_prepend_loop ::
  "u64 \<Rightarrow> u64 option \<Rightarrow> KeeperStoryPipeline \<Rightarrow> (u64 option \<times> KeeperStoryPipeline) option" where
  "kp_prepend_loop t iter pl =
     (if t < kp_TimelineStart pl
      then (case kp_prependStoryChunk pl of
              (None, pl') \<Rightarrow> Some (None, pl')
            | (Some key, pl') \<Rightarrow> kp_prepend_loop t (Some key) pl')
      else Some (iter, pl))"

section \<open>Merging events\<close>

text \<open>Inserting into the window an iterator points at; an end iterator has none.\<close>

definition kp_insert_at :: "u64 option \<Rightarrow> LogEvent \<Rightarrow> KeeperStoryPipeline \<Rightarrow> (nat \<times> KeeperStoryPipeline) option" where
  "kp_insert_at iter e pl =
     (case iter of
        None \<Rightarrow> None
      | Some key \<Rightarrow>
          (case map_of (kp_timeline pl) key of
             None \<Rightarrow> None
           | Some c \<Rightarrow> (case insertEvent c e of (n, c') \<Rightarrow> Some (n, pl\<lparr>kp_timeline := omap_put key c' (kp_timeline pl)\<rparr>))))"

text \<open>The window before the first one that starts after the time.\<close>

definition kp_locate :: "u64 \<Rightarrow> KeeperStoryPipeline \<Rightarrow> u64 option" where
  "kp_locate t pl =
     (let before = (\<lambda>ps. if ps = [] then None else Some (fst (last ps))) in
      (case omap_from t (kp_timeline pl) of
         [] \<Rightarrow> before (kp_timeline pl)
       | (key, c) # _ \<Rightarrow> if t < startTime c then before (filter (\<lambda>p. fst p < key) (kp_timeline pl)) else Some key))"

definition kp_discard :: "LogEvent \<Rightarrow> KeeperStoryPipeline \<Rightarrow> tail_call list" where
  "kp_discard e pl = [EventDiscarded (kp_storyId pl) (event_sequence e)]"

text \<open>The branch for an event within the timeline, and for one that a window was added for.\<close>

definition kp_merge_inside ::
  "LogEvent \<Rightarrow> u64 option \<Rightarrow> KeeperStoryPipeline \<Rightarrow> (u64 option \<times> KeeperStoryPipeline \<times> tail_call list) option" where
  "kp_merge_inside e iter pl =
     (case kp_insert_at iter e pl of
        None \<Rightarrow> None
      | Some (n, pl1) \<Rightarrow>
          if n \<noteq> 0 then Some (iter, pl1, [])
          else
            (case kp_insert_at (kp_locate (eventTime e) pl1) e pl1 of
               None \<Rightarrow> None
             | Some (n', pl2) \<Rightarrow> Some (kp_locate (eventTime e) pl1, pl2, if n' \<noteq> 0 then [] else kp_discard e pl2)))"

definition kp_merge_outside ::
  "LogEvent \<Rightarrow> (u64 option \<times> KeeperStoryPipeline) option \<Rightarrow> (u64 option \<times> KeeperStoryPipeline \<times> tail_call list) option" where
  "kp_merge_outside e extended =
     (case extended of
        None \<Rightarrow> None
      | Some (None, pl) \<Rightarrow> Some (None, pl, kp_discard e pl)
      | Some (Some key, pl) \<Rightarrow>
          (case kp_insert_at (Some key) e pl of
             None \<Rightarrow> None
           | Some (n, pl') \<Rightarrow> Some (Some key, pl', if n \<noteq> 0 then [] else kp_discard e pl')))"

definition kp_merge_event ::
  "LogEvent \<Rightarrow> u64 option \<Rightarrow> KeeperStoryPipeline \<Rightarrow> (u64 option \<times> KeeperStoryPipeline \<times> tail_call list) option" where
  "kp_merge_event e iter pl =
     (let t = eventTime e in
      if kp_TimelineStart pl \<le> t \<and> t < kp_TimelineEnd pl then kp_merge_inside e iter pl
      else if kp_TimelineEnd pl \<le> t then kp_merge_outside e (kp_append_loop t iter pl)
      else kp_merge_outside e (kp_prepend_loop t iter (pl\<lparr>kp_acceptanceWindow := (kp_TimelineStart pl - t) + 3000\<rparr>)))"

fun kp_merge_all ::
  "LogEvent list \<Rightarrow> u64 option \<Rightarrow> KeeperStoryPipeline \<Rightarrow> (KeeperStoryPipeline \<times> tail_call list) option" where
  "kp_merge_all [] iter pl = Some (pl, [])"
| "kp_merge_all (e # es) iter pl =
     (case kp_merge_event e iter pl of
        None \<Rightarrow> None
      | Some (iter', pl', calls) \<Rightarrow>
          (case kp_merge_all es iter' pl' of
             None \<Rightarrow> None
           | Some (pl'', calls') \<Rightarrow> Some (pl'', calls @ calls')))"

text \<open>\<^verbatim>\<open>mergeEvents\<close>, which leaves the deque empty.\<close>

definition kp_mergeEvents :: "u64 \<Rightarrow> LogEvent list \<Rightarrow> KeeperStoryPipeline \<Rightarrow> (KeeperStoryPipeline \<times> tail_call list) option" where
  "kp_mergeEvents now events pl =
     (if events = [] then Some (pl, [])
      else kp_merge_all events (Some (fst (last (kp_timeline pl)))) (pl\<lparr>kp_lastArrival := now\<rparr>))"

definition kp_collectIngestedEvents :: "u64 \<Rightarrow> KeeperStoryPipeline \<Rightarrow> (KeeperStoryPipeline \<times> tail_call list) option" where
  "kp_collectIngestedEvents now pl =
     (let pl1 = kp_swapActiveDeque pl in kp_mergeEvents now (kp_passiveDeque pl1) (pl1\<lparr>kp_passiveDeque := []\<rparr>))"

section \<open>Sealing\<close>

text \<open>A sealed chunk goes to the retention store unless it is empty.\<close>

definition seal_chunk :: "StoryId \<Rightarrow> StoryChunk \<Rightarrow> tail_call list" where
  "seal_chunk sid c = (if chunk_empty c then [] else [IngestSealedChunk sid c])"

text \<open>Taking the head of the timeline off, when it has decayed; at least two windows stay.\<close>

definition kp_take_head :: "KeeperStoryPipeline \<Rightarrow> (KeeperStoryPipeline \<times> tail_call list) option" where
  "kp_take_head pl =
     (case kp_timeline pl of
        [] \<Rightarrow> None
      | (_, c) # rest \<Rightarrow>
          let pl1 = pl\<lparr>kp_timeline := rest\<rparr> in
          if 2 \<le> length rest then Some (pl1, seal_chunk (kp_storyId pl) c)
          else if rest = [] then None
          else Some (snd (kp_appendStoryChunk pl1), seal_chunk (kp_storyId pl) c))"

partial_function (option) kp_extract_loop ::
  "u64 \<Rightarrow> KeeperStoryPipeline \<Rightarrow> tail_call list \<Rightarrow> (KeeperStoryPipeline \<times> tail_call list) option" where
  "kp_extract_loop current_time pl calls =
     (case kp_timeline pl of
        [] \<Rightarrow> None
      | (_, head) # _ \<Rightarrow>
          if kp_acceptanceWindow pl + endTime head \<le> current_time
          then
            (if kp_acceptanceWindow pl + endTime head < current_time
             then
               (case kp_take_head pl of
                  None \<Rightarrow> None
                | Some (pl', sealed) \<Rightarrow> kp_extract_loop current_time pl' (calls @ sealed))
             else kp_extract_loop current_time pl calls)
          else Some (pl, calls))"

definition kp_extractDecayedStoryChunks :: "u64 \<Rightarrow> KeeperStoryPipeline \<Rightarrow> (KeeperStoryPipeline \<times> tail_call list) option" where
  "kp_extractDecayedStoryChunks current_time pl = kp_extract_loop current_time pl []"

text \<open>\<^verbatim>\<open>finalize\<close>: what waits is merged, and every window that holds an event is sealed.\<close>

definition kp_finalize :: "u64 \<Rightarrow> KeeperStoryPipeline \<Rightarrow> (KeeperStoryPipeline \<times> tail_call list) option" where
  "kp_finalize now pl =
     (case kp_mergeEvents now (kp_passiveDeque pl) pl of
        None \<Rightarrow> None
      | Some (pl1, calls1) \<Rightarrow>
          (case kp_mergeEvents now (kp_activeDeque pl) pl1 of
             None \<Rightarrow> None
           | Some (pl2, calls2) \<Rightarrow>
               Some (pl2\<lparr>kp_timeline := [], kp_activeDeque := [], kp_passiveDeque := []\<rparr>,
                     calls1 @ calls2 @ concat (map (\<lambda>p. seal_chunk (kp_storyId pl) (snd p)) (kp_timeline pl2)))))"

definition delete_KeeperStoryPipeline :: "u64 \<Rightarrow> KeeperStoryPipeline \<Rightarrow> tail_call list option" where
  "delete_KeeperStoryPipeline now pl =
     map_option (\<lambda>(_, calls). UnregisterActiveSource (kp_storyId pl) # calls) (kp_finalize now pl)"

section \<open>Reading the active timeline\<close>

text \<open>The newest \<open>n\<close> identities, ascending.\<close>

definition kp_activeTailSequences :: "nat \<Rightarrow> KeeperStoryPipeline \<Rightarrow> EventSequence list" where
  "kp_activeTailSequences n pl =
     rev (take n (concat (map (\<lambda>p. rev (map fst (logEvents (snd p)))) (rev (kp_timeline pl)))))"

definition kp_findActiveEvent :: "EventSequence \<Rightarrow> KeeperStoryPipeline \<Rightarrow> LogEvent option" where
  "kp_findActiveEvent sq pl =
     (let covering = omap_upto (fst sq) (kp_timeline pl)
      in if covering = [] then None else findEvent (snd (last covering)) sq)"

section \<open>The keeper's timeline is a pipeline timeline\<close>

text \<open>
  A keeper pipeline seen as a pipeline of the other services: the same windows, without its deques and
  without queue and tracker. The operations that extend the timeline and the one that lets it decay are
  the same on both.
\<close>

definition as_pipeline :: "KeeperStoryPipeline \<Rightarrow> StoryPipeline" where
  "as_pipeline pl =
     \<lparr>plIncarnation = 0, plStoryId = kp_storyId pl, plChronicleName = kp_chronicleName pl,
      plStoryName = kp_storyName pl, chunkGranularity = kp_chunkGranularity pl,
      acceptanceWindow = kp_acceptanceWindow pl, ingestionHandle = True, activeDeque = [], passiveDeque = [],
      storyTimelineMap = kp_timeline pl, theExtractionQueue = None, theReceiptTracker = None\<rparr>"

definition kp_ok :: "KeeperStoryPipeline \<Rightarrow> bool" where
  "kp_ok pl \<longleftrightarrow> kp_timeline pl \<noteq> [] \<and>
     timeline_ok (kp_storyId pl) (unat (kp_chunkGranularity pl)) (kp_timeline pl)"

abbreviation kp_events :: "KeeperStoryPipeline \<Rightarrow> EventSequence \<Rightarrow> LogEvent option" where
  "kp_events pl \<equiv> map_of (timeline_events (kp_timeline pl))"

lemma as_pipeline_fields [simp]:
  "plStoryId (as_pipeline pl) = kp_storyId pl" "chunkGranularity (as_pipeline pl) = kp_chunkGranularity pl"
  "acceptanceWindow (as_pipeline pl) = kp_acceptanceWindow pl" "storyTimelineMap (as_pipeline pl) = kp_timeline pl"
  "TimelineStart (as_pipeline pl) = kp_TimelineStart pl" "TimelineEnd (as_pipeline pl) = kp_TimelineEnd pl"
  "pipeline_ok (as_pipeline pl) = kp_ok pl"
  "(as_pipeline pl)\<lparr>storyTimelineMap := m\<rparr> = as_pipeline (pl\<lparr>kp_timeline := m\<rparr>)"
  by (simp_all add: as_pipeline_def TimelineStart_def TimelineEnd_def kp_TimelineStart_def kp_TimelineEnd_def
      pipeline_ok_def kp_ok_def)

lemma as_pipeline_window: "make_window (as_pipeline pl) a b = kp_window pl a b"
  by (simp add: make_window_def kp_window_def as_pipeline_def new_StoryChunk_def Let_def)

lemma as_pipeline_insert: "insert_window key c (as_pipeline pl) = apsnd as_pipeline (kp_insert_window key c pl)"
  by (simp add: insert_window_def kp_insert_window_def split: option.split)

lemma as_pipeline_append: "appendStoryChunk (as_pipeline pl) = apsnd as_pipeline (kp_appendStoryChunk pl)"
  by (simp add: appendStoryChunk_def kp_appendStoryChunk_def Let_def as_pipeline_window as_pipeline_insert)

text \<open>What only the windows and the acceptance window of a pipeline may differ in.\<close>

definition kp_frame :: "KeeperStoryPipeline \<Rightarrow> KeeperStoryPipeline \<Rightarrow> bool" where
  "kp_frame pl0 pl \<longleftrightarrow>
     pl0\<lparr>kp_timeline := [], kp_acceptanceWindow := 0\<rparr> = pl\<lparr>kp_timeline := [], kp_acceptanceWindow := 0\<rparr>"

lemma kp_frame_simps [simp]:
  "kp_frame pl pl" "kp_frame pl0 (pl\<lparr>kp_timeline := m\<rparr>) = kp_frame pl0 pl"
  "kp_frame pl0 (pl\<lparr>kp_acceptanceWindow := w\<rparr>) = kp_frame pl0 pl"
  by (simp_all add: kp_frame_def)

lemma kp_frame_trans: "kp_frame a b \<Longrightarrow> kp_frame b c \<Longrightarrow> kp_frame a c"
  by (simp add: kp_frame_def)

lemma kp_frameD:
  "kp_frame pl0 pl \<Longrightarrow> kp_storyId pl = kp_storyId pl0 \<and> kp_chunkGranularity pl = kp_chunkGranularity pl0 \<and>
     kp_chronicleName pl = kp_chronicleName pl0 \<and> kp_storyName pl = kp_storyName pl0 \<and>
     kp_lastArrival pl = kp_lastArrival pl0 \<and>
     kp_activeDeque pl = kp_activeDeque pl0 \<and> kp_passiveDeque pl = kp_passiveDeque pl0"
  by (cases pl0; cases pl) (simp add: kp_frame_def)

section \<open>Extending the timeline\<close>

text \<open>Adding a window keeps the timeline and its events.\<close>

lemma kp_append_step:
  assumes ok: "kp_ok pl" and room: "unat (kp_TimelineEnd pl) + unat (kp_chunkGranularity pl) < 2 ^ 64"
  obtains w where "kp_appendStoryChunk pl = (Some (kp_TimelineEnd pl),
      pl\<lparr>kp_timeline := kp_timeline pl @ [(kp_TimelineEnd pl, w)]\<rparr>)"
    and "kp_ok (pl\<lparr>kp_timeline := kp_timeline pl @ [(kp_TimelineEnd pl, w)]\<rparr>)"
    and "unat (endTime w) = unat (kp_TimelineEnd pl) + unat (kp_chunkGranularity pl)" and "logEvents w = []"
proof -
  let ?c = "new_StoryChunk [] [] (kp_storyId pl) 0 0"
  have inv: "merge_inv (as_pipeline pl) ?c (as_pipeline pl) ?c"
    using ok by (intro merge_inv_refl wf_new_StoryChunk) (simp_all add: new_StoryChunk_def Let_def)
  from appendStoryChunk_step [OF inv] room obtain w where
    app: "appendStoryChunk (as_pipeline pl) = (Some (kp_TimelineEnd pl),
       as_pipeline (pl\<lparr>kp_timeline := kp_timeline pl @ [(kp_TimelineEnd pl, w)]\<rparr>))"
    and inv': "merge_inv (as_pipeline pl) ?c (snd (appendStoryChunk (as_pipeline pl))) ?c"
    and e: "unat (TimelineEnd (snd (appendStoryChunk (as_pipeline pl)))) = unat (kp_TimelineEnd pl) + unat (kp_chunkGranularity pl)"
    and w: "endTime w = TimelineEnd (snd (appendStoryChunk (as_pipeline pl)))" "logEvents w = []"
    by auto
  show thesis
  proof (rule that [of w])
    show "kp_appendStoryChunk pl = (Some (kp_TimelineEnd pl), pl\<lparr>kp_timeline := kp_timeline pl @ [(kp_TimelineEnd pl, w)]\<rparr>)"
      using app unfolding as_pipeline_append
      by (auto simp: kp_appendStoryChunk_def kp_insert_window_def Let_def as_pipeline_def split: option.splits)
    show "kp_ok (pl\<lparr>kp_timeline := kp_timeline pl @ [(kp_TimelineEnd pl, w)]\<rparr>)"
      using inv' app by (simp add: merge_inv_def)
    show "unat (endTime w) = unat (kp_TimelineEnd pl) + unat (kp_chunkGranularity pl)" "logEvents w = []"
      using e w by simp_all
  qed
qed

lemma as_pipeline_prepend: "prependStoryChunk (as_pipeline pl) = apsnd as_pipeline (kp_prependStoryChunk pl)"
  if "kp_TimelineStart pl - kp_chunkGranularity pl < kp_TimelineStart pl"
  using that
  by (simp add: prependStoryChunk_def kp_prependStoryChunk_def Let_def as_pipeline_window as_pipeline_insert
      kp_window_def new_StoryChunk_interval)

lemma kp_prepend_step:
  assumes ok: "kp_ok pl" and pos: "0 < kp_TimelineStart pl"
  obtains w where "kp_prependStoryChunk pl = (Some (kp_TimelineStart pl - kp_chunkGranularity pl),
      pl\<lparr>kp_timeline := (kp_TimelineStart pl - kp_chunkGranularity pl, w) # kp_timeline pl\<rparr>)"
    and "kp_ok (pl\<lparr>kp_timeline := (kp_TimelineStart pl - kp_chunkGranularity pl, w) # kp_timeline pl\<rparr>)"
    and "kp_TimelineStart pl - kp_chunkGranularity pl < kp_TimelineStart pl"
    and "endTime w = kp_TimelineStart pl" and "logEvents w = []"
proof -
  let ?c = "new_StoryChunk [] [] (kp_storyId pl) 0 0" and ?a = "kp_TimelineStart pl - kp_chunkGranularity pl"
  have inv: "merge_inv (as_pipeline pl) ?c (as_pipeline pl) ?c"
    using ok by (intro merge_inv_refl wf_new_StoryChunk) (simp_all add: new_StoryChunk_def Let_def)
  from prependStoryChunk_step [OF inv] pos obtain w where
    pre: "prependStoryChunk (as_pipeline pl) = (Some ?a, as_pipeline (pl\<lparr>kp_timeline := (?a, w) # kp_timeline pl\<rparr>))"
    and inv': "merge_inv (as_pipeline pl) ?c (snd (prependStoryChunk (as_pipeline pl))) ?c"
    and dec: "unat ?a < unat (kp_TimelineStart pl)"
    by auto
  have less: "?a < kp_TimelineStart pl" using dec by (simp add: word_less_nat_alt)
  have res: "kp_prependStoryChunk pl = (Some ?a, pl\<lparr>kp_timeline := (?a, w) # kp_timeline pl\<rparr>)"
    using pre unfolding as_pipeline_prepend [OF less]
    by (auto simp: kp_prependStoryChunk_def kp_insert_window_def Let_def as_pipeline_def split: option.splits)
  have ok': "kp_ok (pl\<lparr>kp_timeline := (?a, w) # kp_timeline pl\<rparr>)"
    using inv' pre by (simp add: merge_inv_def)
  have "map_of (kp_timeline (snd (kp_prependStoryChunk pl))) ?a = Some w" by (simp add: res)
  moreover have "map_of (kp_timeline pl) ?a = None"
    using res by (auto simp: kp_prependStoryChunk_def kp_insert_window_def Let_def split: option.splits)
  ultimately have "w = kp_window pl ?a (kp_TimelineStart pl)"
    by (simp add: kp_prependStoryChunk_def kp_insert_window_def Let_def omap_simps)
  then have "logEvents w = []" by (simp add: kp_window_def new_StoryChunk_def Let_def)
  moreover have "endTime w = kp_TimelineStart pl"
    using ok' ok by (auto simp: kp_ok_def timeline_ok_Cons kp_TimelineStart_def)
  ultimately show thesis using that res ok' less by blast
qed

text \<open>
  The loops end with the window that covers the time at the end, or at the start, of the timeline.
\<close>

lemma kp_append_loop_reaches:
  assumes "kp_ok pl" and "kp_TimelineEnd pl \<le> t" and "unat t + unat (kp_chunkGranularity pl) < 2 ^ 64"
  shows "\<exists>key w pl'. kp_append_loop t iter pl = Some (Some key, pl') \<and> kp_ok pl' \<and> kp_frame pl pl' \<and>
    (key, w) = last (kp_timeline pl') \<and> key \<le> t \<and> t < endTime w \<and>
    length (kp_timeline pl) \<le> length (kp_timeline pl') \<and> kp_acceptanceWindow pl' = kp_acceptanceWindow pl \<and>
    timeline_events (kp_timeline pl') = timeline_events (kp_timeline pl)"
  using assms
proof (induction "2 ^ 64 - unat (kp_TimelineEnd pl)" arbitrary: pl iter rule: less_induct)
  case less
  let ?e = "kp_TimelineEnd pl" and ?g = "unat (kp_chunkGranularity pl)"
  have pos: "0 < ?g" using less.prems(1) by (simp add: kp_ok_def timeline_ok_def)
  have room: "unat ?e + ?g < 2 ^ 64" using less.prems(2,3) by (simp add: word_le_nat_alt)
  from kp_append_step [OF less.prems(1) this] obtain w where
    step: "kp_appendStoryChunk pl = (Some ?e, pl\<lparr>kp_timeline := kp_timeline pl @ [(?e, w)]\<rparr>)"
    and ok: "kp_ok (pl\<lparr>kp_timeline := kp_timeline pl @ [(?e, w)]\<rparr>)"
    and w: "unat (endTime w) = unat ?e + ?g" "logEvents w = []" .
  let ?pl1 = "pl\<lparr>kp_timeline := kp_timeline pl @ [(?e, w)]\<rparr>"
  have end1: "kp_TimelineEnd ?pl1 = endTime w" by (simp add: kp_TimelineEnd_def)
  have unf: "kp_append_loop t iter pl = kp_append_loop t (Some ?e) ?pl1"
    using less.prems(2) by (subst kp_append_loop.simps) (simp add: step)
  show ?case
  proof (cases "endTime w \<le> t")
    case True
    have dec: "2 ^ 64 - unat (kp_TimelineEnd ?pl1) < 2 ^ 64 - unat ?e"
      using w(1) pos room unfolding end1 by linarith
    show ?thesis
      unfolding unf using less.hyps [OF dec ok, of "Some ?e"] True less.prems(3) w(2)
      by (simp add: end1) (auto simp: kp_frame_def)
  next
    case False
    then have "kp_append_loop t (Some ?e) ?pl1 = Some (Some ?e, ?pl1)"
      by (subst kp_append_loop.simps) (simp add: end1)
    with False unf ok less.prems(2) w(2) show ?thesis by (auto simp: not_le)
  qed
qed

lemma kp_prepend_loop_reaches:
  assumes "kp_ok pl" and "t < kp_TimelineStart pl"
  shows "\<exists>key w pl'. kp_prepend_loop t iter pl = Some (Some key, pl') \<and> kp_ok pl' \<and> kp_frame pl pl' \<and>
    (key, w) = hd (kp_timeline pl') \<and> key \<le> t \<and> t < endTime w \<and>
    length (kp_timeline pl) \<le> length (kp_timeline pl') \<and> kp_acceptanceWindow pl' = kp_acceptanceWindow pl \<and>
    kp_TimelineEnd pl' = kp_TimelineEnd pl \<and> timeline_events (kp_timeline pl') = timeline_events (kp_timeline pl)"
  using assms
proof (induction "unat (kp_TimelineStart pl)" arbitrary: pl iter rule: less_induct)
  case less
  let ?a = "kp_TimelineStart pl - kp_chunkGranularity pl"
  have "0 < kp_TimelineStart pl" using less.prems(2) le_less_trans word_zero_le by blast
  from kp_prepend_step [OF less.prems(1) this] obtain w where
    step: "kp_prependStoryChunk pl = (Some ?a, pl\<lparr>kp_timeline := (?a, w) # kp_timeline pl\<rparr>)"
    and ok: "kp_ok (pl\<lparr>kp_timeline := (?a, w) # kp_timeline pl\<rparr>)" and dec: "?a < kp_TimelineStart pl"
    and w: "endTime w = kp_TimelineStart pl" "logEvents w = []" .
  let ?pl1 = "pl\<lparr>kp_timeline := (?a, w) # kp_timeline pl\<rparr>"
  have start: "kp_TimelineStart ?pl1 = ?a" by (simp add: kp_TimelineStart_def)
  have fin: "kp_TimelineEnd ?pl1 = kp_TimelineEnd pl"
    using less.prems(1) by (simp add: kp_TimelineEnd_def kp_ok_def)
  have unf: "kp_prepend_loop t iter pl = kp_prepend_loop t (Some ?a) ?pl1"
    using less.prems(2) by (subst kp_prepend_loop.simps) (simp add: step)
  show ?case
  proof (cases "t < ?a")
    case True
    have "unat (kp_TimelineStart ?pl1) < unat (kp_TimelineStart pl)" using dec by (simp add: start word_less_nat_alt)
    from less.hyps [OF this ok, of "Some ?a"] True w(2) show ?thesis
      unfolding unf by (simp add: start fin) (auto simp: kp_frame_def)
  next
    case False
    then have "kp_prepend_loop t (Some ?a) ?pl1 = Some (Some ?a, ?pl1)"
      by (subst kp_prepend_loop.simps) (simp add: start)
    with False unf ok fin less.prems(2) w show ?thesis by (auto simp: not_less)
  qed
qed

section \<open>Placing an event\<close>

text \<open>What the windows take: events of the story that have a record.\<close>

definition kp_takes :: "StoryId \<Rightarrow> LogEvent \<Rightarrow> bool" where
  "kp_takes sid e \<longleftrightarrow> evStoryId e = sid \<and> logRecord e \<noteq> []"

abbreviation kp_keys :: "KeeperStoryPipeline \<Rightarrow> u64 set" where
  "kp_keys pl \<equiv> fst ` set (kp_timeline pl)"

text \<open>Inserting at a window: taken exactly when the event belongs there.\<close>

lemma insertEvent_lookup:
  "events_of (snd (insertEvent c e)) =
     (if accepts c e then [event_sequence e \<mapsto> e] ++ events_of c else events_of c)"
  by (auto simp: insertEvent_def omap_simps map_add_def fun_eq_iff split: option.split)

lemma kp_insert_at_step:
  fixes e :: LogEvent
  assumes ok: "kp_ok pl" and at: "(key, w) \<in> set (kp_timeline pl)"
  defines "here \<equiv> kp_takes (kp_storyId pl) e \<and> key \<le> eventTime e \<and> eventTime e < endTime w"
  shows "\<exists>pl'. kp_insert_at (Some key) e pl = Some (if here then 1 else 0, pl') \<and> kp_ok pl' \<and>
    kp_frame pl pl' \<and> kp_keys pl' = kp_keys pl \<and> length (kp_timeline pl') = length (kp_timeline pl) \<and>
    kp_acceptanceWindow pl' = kp_acceptanceWindow pl \<and> kp_TimelineEnd pl' = kp_TimelineEnd pl \<and>
    (if here then kp_events pl' = [event_sequence e \<mapsto> e] ++ kp_events pl else pl' = pl)"
proof -
  let ?sid = "kp_storyId pl" and ?g = "unat (kp_chunkGranularity pl)"
  from at obtain m n where m: "kp_timeline pl = m @ (key, w) # n" by (auto simp: in_set_conv_decomp)
  have tl: "timeline_ok ?sid ?g (m @ (key, w) # n)" using ok by (simp add: kp_ok_def m)
  then have win: "window_ok ?sid ?g (key, w)" by (auto simp: timeline_ok_append timeline_ok_Cons)
  have sorted: "omap_ok (m @ (key, w) # n)" using tl by (rule timeline_sorted)
  have look: "map_of (kp_timeline pl) key = Some w" unfolding m map_of_omap_Some [OF sorted] by simp
  have acc: "accepts w e \<longleftrightarrow> here"
    using win by (auto simp: here_def kp_takes_def accepts_def window_ok_def)
  obtain r w' where ins: "insertEvent w e = (r, w')" by fastforce
  then have fields: "endTime w' = endTime w" "startTime w' = startTime w" "chunkStoryId w' = chunkStoryId w"
    by (auto simp: insertEvent_def split: if_splits)
  have put: "omap_put key w' (kp_timeline pl) = m @ (key, w') # n" unfolding m by (rule omap_put_mid [OF sorted])
  have res: "kp_insert_at (Some key) e pl = Some (r, pl\<lparr>kp_timeline := m @ (key, w') # n\<rparr>)"
    by (simp add: kp_insert_at_def look ins put)
  show ?thesis
  proof (cases here)
    case False
    then have "r = 0" "w' = w" using ins acc by (auto simp: insertEvent_def)
    moreover have "pl\<lparr>kp_timeline := m @ (key, w) # n\<rparr> = pl" by (simp flip: m)
    ultimately show ?thesis using False res ok by simp
  next
    case True
    have r: "r = 1" using ins acc True by (auto simp: insertEvent_def)
    have win': "window_ok ?sid ?g (key, w')"
      using win insertEvent_wf [OF _ ins] fields by (simp add: window_ok_def)
    then have tl': "timeline_ok ?sid ?g (m @ (key, w') # n)"
      using tl fields by (simp add: timeline_ok_append timeline_ok_Cons)
    have ev: "events_of w' = [event_sequence e \<mapsto> e] ++ events_of w"
      using insertEvent_lookup [of w e] ins acc True by simp
    have "map_of (timeline_events (m @ (key, w') # n)) k =
        ([event_sequence e \<mapsto> e] ++ map_of (timeline_events (m @ (key, w) # n))) k" for k
      unfolding timeline_lookup_split [OF tl] timeline_lookup_split [OF tl'] map_add_def
      using True by (simp add: fields ev here_def map_add_def split: option.split)
    then have "map_of (timeline_events (m @ (key, w') # n)) =
        [event_sequence e \<mapsto> e] ++ map_of (timeline_events (m @ (key, w) # n))" by blast
    moreover have "kp_TimelineEnd (pl\<lparr>kp_timeline := m @ (key, w') # n\<rparr>) = kp_TimelineEnd pl"
      using fields m by (cases n rule: rev_cases) (simp_all add: kp_TimelineEnd_def)
    ultimately show ?thesis using True r res tl' m by (simp add: kp_ok_def)
  qed
qed

lemma kp_locate_covers:
  assumes ok: "kp_ok pl" and t: "kp_TimelineStart pl \<le> t" "t < kp_TimelineEnd pl"
  shows "\<exists>key w. kp_locate t pl = Some key \<and> (key, w) \<in> set (kp_timeline pl) \<and> key \<le> t \<and> t < endTime w"
proof -
  let ?m = "kp_timeline pl" and ?sid = "kp_storyId pl" and ?g = "unat (kp_chunkGranularity pl)"
  have tl: "timeline_ok ?sid ?g ?m" and ne: "?m \<noteq> []" using ok by (simp_all add: kp_ok_def)
  have sorted: "omap_ok ?m" using tl by (rule timeline_sorted)
  let ?xs = "filter (\<lambda>p. fst p < t) ?m"
  note split = omap_split [OF sorted, of t]
  show ?thesis
  proof (cases "omap_from t ?m")
    case Nil
    then have "last ?m \<in> set ?xs" using split ne by (metis append_Nil2 last_in_set)
    then have "fst (last ?m) < t" by simp
    with Nil ne t(2) show ?thesis
      by (intro exI [of _ "fst (last ?m)"] exI [of _ "snd (last ?m)"]) (simp add: kp_locate_def kp_TimelineEnd_def)
  next
    case (Cons p rest)
    then have "p \<in> set (omap_from t ?m)" by simp
    then have p: "p \<in> set ?m" "t \<le> fst p" by (simp_all add: omap_from_def)
    then have start: "startTime (snd p) = fst p" using tl by (auto simp: timeline_ok_def window_ok_def)
    show ?thesis
    proof (cases "t < fst p")
      case True
      have "?xs \<noteq> []"
        using True Cons split t(1) by (metis kp_TimelineStart_def append_Nil leD list.sel(1))
      then obtain zs z where zs: "?xs = zs @ [z]" by (metis rev_exhaust)
      then have "z \<in> set ?xs" by simp
      then have z: "fst z < t" "z \<in> set ?m" by simp_all
      have m: "?m = zs @ z # p # rest" using split zs Cons by simp
      have "omap_from (fst p) ((zs @ [z]) @ p # rest) = p # rest"
        using sorted m by (intro omap_from_mid) simp
      then have "filter (\<lambda>q. fst q < fst p) ?m = zs @ [z]"
        using omap_split [OF sorted, of "fst p"] by (simp add: m)
      then have "kp_locate t pl = Some (fst z)"
        using True Cons start by (auto simp: kp_locate_def split: prod.splits list.splits)
      moreover have "endTime (snd z) = fst p" using tl m by (simp add: timeline_ok_append timeline_ok_Cons)
      ultimately show ?thesis using z True
        by (intro exI [of _ "fst z"] exI [of _ "snd z"]) simp
    next
      case False
      then have "fst p = t" using p by simp
      moreover from False Cons start have "kp_locate t pl = Some (fst p)"
        by (auto simp: kp_locate_def split: prod.splits list.splits)
      ultimately show ?thesis using p timeline_interval [OF tl p(1)]
        by (cases p) auto
    qed
  qed
qed

text \<open>
  One event: it is placed (the copy that is there first stays), or the retention store is told that it was
  discarded. The iterator stays at a window. The timeline's end and the acceptance window stay within a bound
  that leaves the event's window in.
\<close>

definition kp_within :: "nat \<Rightarrow> KeeperStoryPipeline \<Rightarrow> bool" where
  "kp_within b pl \<longleftrightarrow> unat (kp_TimelineEnd pl) \<le> b \<and> unat (kp_acceptanceWindow pl) \<le> b + 3000"

definition merge_result :: "LogEvent \<Rightarrow> KeeperStoryPipeline \<Rightarrow> KeeperStoryPipeline \<Rightarrow> tail_call list \<Rightarrow> bool" where
  "merge_result e pl pl' calls \<longleftrightarrow> kp_ok pl' \<and> kp_frame pl pl' \<and> length (kp_timeline pl) \<le> length (kp_timeline pl') \<and>
     (\<forall>b. kp_within b pl \<longrightarrow> unat (eventTime e) + unat (kp_chunkGranularity pl) \<le> b \<longrightarrow> kp_within b pl') \<and>
     (if kp_takes (kp_storyId pl) e then kp_events pl' = [event_sequence e \<mapsto> e] ++ kp_events pl \<and> calls = []
      else kp_events pl' = kp_events pl \<and> calls = [EventDiscarded (kp_storyId pl) (event_sequence e)])"

lemma kp_merge_inside_step:
  assumes ok: "kp_ok pl" and t: "kp_TimelineStart pl \<le> eventTime e" "eventTime e < kp_TimelineEnd pl"
    and key: "key \<in> kp_keys pl"
  shows "\<exists>key' pl' calls. kp_merge_inside e (Some key) pl = Some (Some key', pl', calls) \<and> key' \<in> kp_keys pl' \<and>
    merge_result e pl pl' calls"
proof -
  from key obtain w where w: "(key, w) \<in> set (kp_timeline pl)" by auto
  from kp_locate_covers [OF ok t] obtain k2 w2 where
    loc: "kp_locate (eventTime e) pl = Some k2" and w2: "(k2, w2) \<in> set (kp_timeline pl)"
      "k2 \<le> eventTime e" "eventTime e < endTime w2" by blast
  let ?here = "kp_takes (kp_storyId pl) e \<and> key \<le> eventTime e \<and> eventTime e < endTime w"
  from kp_insert_at_step [OF ok w, of e] obtain pl1 where
    ins: "kp_insert_at (Some key) e pl = Some (if ?here then 1 else 0, pl1)" and pl1: "kp_ok pl1" "kp_frame pl pl1"
      "kp_keys pl1 = kp_keys pl" "length (kp_timeline pl1) = length (kp_timeline pl)"
      "kp_acceptanceWindow pl1 = kp_acceptanceWindow pl" "kp_TimelineEnd pl1 = kp_TimelineEnd pl"
      "if ?here then kp_events pl1 = [event_sequence e \<mapsto> e] ++ kp_events pl else pl1 = pl" by auto
  show ?thesis
  proof (cases ?here)
    case True
    then have "kp_merge_inside e (Some key) pl = Some (Some key, pl1, [])"
      using ins by (simp add: kp_merge_inside_def)
    with True pl1 key show ?thesis by (simp add: merge_result_def kp_within_def)
  next
    case False
    then have same: "pl1 = pl" using pl1(7) by (simp only: if_False)
    from kp_insert_at_step [OF ok w2(1), of e] w2 obtain pl2 where
      ins2: "kp_insert_at (Some k2) e pl = Some (if kp_takes (kp_storyId pl) e then 1 else 0, pl2)" "kp_ok pl2"
        "kp_frame pl pl2" "kp_keys pl2 = kp_keys pl" "length (kp_timeline pl2) = length (kp_timeline pl)"
        "kp_acceptanceWindow pl2 = kp_acceptanceWindow pl" "kp_TimelineEnd pl2 = kp_TimelineEnd pl"
        "if kp_takes (kp_storyId pl) e then kp_events pl2 = [event_sequence e \<mapsto> e] ++ kp_events pl else pl2 = pl"
      by auto
    have "kp_merge_inside e (Some key) pl =
        Some (Some k2, pl2, if kp_takes (kp_storyId pl) e then [] else kp_discard e pl2)"
      using ins ins2(1) False loc by (simp add: kp_merge_inside_def same)
    moreover have "k2 \<in> kp_keys pl2" using w2(1) ins2(4) by force
    ultimately show ?thesis using ins2 by (simp add: merge_result_def kp_discard_def kp_within_def)
  qed
qed

lemma kp_merge_outside_step:
  assumes ok: "kp_ok pl1" and fr: "kp_frame pl pl1" and at: "(key, w) \<in> set (kp_timeline pl1)"
    and t: "key \<le> eventTime e" "eventTime e < endTime w"
    and same: "timeline_events (kp_timeline pl1) = timeline_events (kp_timeline pl)"
      "length (kp_timeline pl) \<le> length (kp_timeline pl1)"
    and within: "\<And>b. kp_within b pl \<Longrightarrow> unat (eventTime e) + unat (kp_chunkGranularity pl) \<le> b \<Longrightarrow> kp_within b pl1"
  shows "\<exists>pl' calls. kp_merge_outside e (Some (Some key, pl1)) = Some (Some key, pl', calls) \<and> key \<in> kp_keys pl' \<and>
    merge_result e pl pl' calls"
proof -
  have sid: "kp_storyId pl1 = kp_storyId pl" using kp_frameD [OF fr] by simp
  from kp_insert_at_step [OF ok at, of e] t sid obtain pl2 where
    ins: "kp_insert_at (Some key) e pl1 = Some (if kp_takes (kp_storyId pl) e then 1 else 0, pl2)" "kp_ok pl2"
      "kp_frame pl1 pl2" "kp_keys pl2 = kp_keys pl1" "length (kp_timeline pl2) = length (kp_timeline pl1)"
      "kp_acceptanceWindow pl2 = kp_acceptanceWindow pl1" "kp_TimelineEnd pl2 = kp_TimelineEnd pl1"
      "if kp_takes (kp_storyId pl) e then kp_events pl2 = [event_sequence e \<mapsto> e] ++ kp_events pl1 else pl2 = pl1"
    by auto
  have "key \<in> kp_keys pl2" using at ins(4) by force
  moreover have "kp_merge_outside e (Some (Some key, pl1)) =
      Some (Some key, pl2, if kp_takes (kp_storyId pl) e then [] else kp_discard e pl2)"
    using ins(1) by (simp add: kp_merge_outside_def)
  moreover have "kp_frame pl pl2" using fr ins(3) by (rule kp_frame_trans)
  moreover have "kp_within b pl2 = kp_within b pl1" for b using ins(6,7) by (simp add: kp_within_def)
  ultimately show ?thesis using ins sid same within by (simp add: merge_result_def kp_discard_def)
qed

lemma kp_timeline_forward: "kp_ok pl \<Longrightarrow> kp_TimelineStart pl \<le> kp_TimelineEnd pl"
proof -
  assume ok: "kp_ok pl"
  then have tl: "timeline_ok (kp_storyId pl) (unat (kp_chunkGranularity pl)) (kp_timeline pl)" and
    hd: "hd (kp_timeline pl) \<in> set (kp_timeline pl)" by (simp_all add: kp_ok_def)
  have "kp_TimelineStart pl < endTime (snd (hd (kp_timeline pl)))"
    using timeline_interval [OF tl hd] by (simp add: kp_TimelineStart_def)
  also have "\<dots> \<le> kp_TimelineEnd pl" using timeline_end_mono [OF tl hd] by (simp add: kp_TimelineEnd_def)
  finally show ?thesis by simp
qed

lemma kp_widened_bound: "t < s \<Longrightarrow> unat ((s - t) + 3000 :: u64) \<le> unat s + 3000"
proof -
  assume "t < s"
  then have "unat (s - t) = unat s - unat t" by (simp add: unat_sub)
  moreover have "unat ((s - t) + 3000) \<le> unat (s - t) + 3000" by (simp add: unat_word_ariths)
  ultimately show ?thesis by simp
qed

lemma kp_merge_event_step:
  assumes ok: "kp_ok pl" and room: "unat (eventTime e) + unat (kp_chunkGranularity pl) < 2 ^ 64"
    and key: "key \<in> kp_keys pl"
  shows "\<exists>key' pl' calls. kp_merge_event e (Some key) pl = Some (Some key', pl', calls) \<and> key' \<in> kp_keys pl' \<and>
    merge_result e pl pl' calls"
proof -
  let ?t = "eventTime e"
  consider (inside) "kp_TimelineStart pl \<le> ?t" "?t < kp_TimelineEnd pl" | (behind) "kp_TimelineEnd pl \<le> ?t"
    | (delayed) "?t < kp_TimelineStart pl" "?t < kp_TimelineEnd pl" by force
  then show ?thesis
  proof cases
    case inside
    then show ?thesis using kp_merge_inside_step [OF ok inside key] by (simp add: kp_merge_event_def Let_def)
  next
    case behind
    from kp_append_loop_reaches [OF ok behind room] obtain k w pl1 where
      loop: "kp_append_loop ?t (Some key) pl = Some (Some k, pl1)" and pl1: "kp_ok pl1" "kp_frame pl pl1"
      and w: "(k, w) = last (kp_timeline pl1)" "k \<le> ?t" "?t < endTime w"
      and same: "timeline_events (kp_timeline pl1) = timeline_events (kp_timeline pl)"
        "length (kp_timeline pl) \<le> length (kp_timeline pl1)"
      and aw: "kp_acceptanceWindow pl1 = kp_acceptanceWindow pl" by blast
    have at: "(k, w) \<in> set (kp_timeline pl1)" using w(1) pl1(1) by (simp add: kp_ok_def)
    then have "unat (endTime w) = unat k + unat (kp_chunkGranularity pl)"
      using pl1(1) kp_frameD [OF pl1(2)] by (auto simp: kp_ok_def timeline_ok_def window_ok_def)
    moreover have "kp_TimelineEnd pl1 = endTime w" using w(1) by (metis kp_TimelineEnd_def snd_conv)
    ultimately have "kp_within b pl1"
      if "kp_within b pl" "unat ?t + unat (kp_chunkGranularity pl) \<le> b" for b
      using that w(2) aw by (simp add: kp_within_def word_le_nat_alt)
    from kp_merge_outside_step [OF pl1 at w(2,3) same this] behind loop show ?thesis
      by (auto simp: kp_merge_event_def Let_def)
  next
    case delayed
    let ?pl0 = "pl\<lparr>kp_acceptanceWindow := (kp_TimelineStart pl - ?t) + 3000\<rparr>"
    have "kp_ok ?pl0" "?t < kp_TimelineStart ?pl0" using ok delayed by (simp_all add: kp_ok_def kp_TimelineStart_def)
    from kp_prepend_loop_reaches [OF this, of "Some key"] obtain k w pl1 where
      loop: "kp_prepend_loop ?t (Some key) ?pl0 = Some (Some k, pl1)" and pl1: "kp_ok pl1" "kp_frame ?pl0 pl1"
      and w: "(k, w) = hd (kp_timeline pl1)" "k \<le> ?t" "?t < endTime w"
      and same: "timeline_events (kp_timeline pl1) = timeline_events (kp_timeline pl)"
        "length (kp_timeline pl) \<le> length (kp_timeline pl1)"
      and aw: "kp_acceptanceWindow pl1 = kp_acceptanceWindow ?pl0" "kp_TimelineEnd pl1 = kp_TimelineEnd ?pl0" by fastforce
    have at: "(k, w) \<in> set (kp_timeline pl1)" using w(1) pl1(1) by (simp add: kp_ok_def)
    have fr: "kp_frame pl pl1" using pl1(2) by (simp add: kp_frame_def)
    have "kp_TimelineStart pl \<le> kp_TimelineEnd pl" by (rule kp_timeline_forward [OF ok])
    then have "kp_within b pl1" if "kp_within b pl" for b
      using that aw kp_widened_bound [of ?t "kp_TimelineStart pl"] delayed
      by (simp add: kp_within_def kp_TimelineEnd_def word_le_nat_alt)
    then show ?thesis using kp_merge_outside_step [OF pl1(1) fr at w(2,3) same] delayed loop
      by (auto simp: kp_merge_event_def Let_def)
  qed
qed

section \<open>Merging a deque\<close>

text \<open>The events of a sequence that the windows take, the first copy of each, and the others' reports.\<close>

definition placed :: "StoryId \<Rightarrow> LogEvent list \<Rightarrow> EventSequence \<Rightarrow> LogEvent option" where
  "placed sid es = map_of (map (\<lambda>e. (event_sequence e, e)) (filter (kp_takes sid) es))"

definition discards :: "StoryId \<Rightarrow> LogEvent list \<Rightarrow> tail_call list" where
  "discards sid es = map (\<lambda>e. EventDiscarded sid (event_sequence e)) (filter (\<lambda>e. \<not> kp_takes sid e) es)"

lemma placed_simps [simp]:
  "placed sid [] = Map.empty"
  "placed sid (e # es) = (if kp_takes sid e then (placed sid es)(event_sequence e \<mapsto> e) else placed sid es)"
  by (simp_all add: placed_def)

lemma discards_simps [simp]:
  "discards sid [] = []"
  "discards sid (e # es) = (if kp_takes sid e then [] else [EventDiscarded sid (event_sequence e)]) @ discards sid es"
  by (simp_all add: discards_def)

definition kp_room :: "KeeperStoryPipeline \<Rightarrow> LogEvent list \<Rightarrow> bool" where
  "kp_room pl es \<longleftrightarrow> (\<forall>e\<in>set es. unat (eventTime e) + unat (kp_chunkGranularity pl) < 2 ^ 64)"

definition kp_times_within :: "nat \<Rightarrow> KeeperStoryPipeline \<Rightarrow> LogEvent list \<Rightarrow> bool" where
  "kp_times_within b pl es \<longleftrightarrow> (\<forall>e\<in>set es. unat (eventTime e) + unat (kp_chunkGranularity pl) \<le> b)"

text \<open>A bound the timeline keeps while a deque is merged.\<close>

definition kp_stays_within :: "LogEvent list \<Rightarrow> KeeperStoryPipeline \<Rightarrow> KeeperStoryPipeline \<Rightarrow> bool" where
  "kp_stays_within es pl pl' \<longleftrightarrow> (\<forall>b. kp_within b pl \<longrightarrow> kp_times_within b pl es \<longrightarrow> kp_within b pl')"

lemma kp_merge_all_step:
  assumes "kp_ok pl" and "kp_room pl es" and "key \<in> kp_keys pl"
  shows "\<exists>pl'. kp_merge_all es (Some key) pl = Some (pl', discards (kp_storyId pl) es) \<and> kp_ok pl' \<and>
    kp_frame pl pl' \<and> length (kp_timeline pl) \<le> length (kp_timeline pl') \<and>
    kp_events pl' = placed (kp_storyId pl) es ++ kp_events pl \<and> kp_stays_within es pl pl'"
  using assms
proof (induction es arbitrary: pl key)
  case Nil
  then show ?case by (simp add: kp_stays_within_def)
next
  case (Cons e es)
  let ?sid = "kp_storyId pl"
  from kp_merge_event_step [OF Cons.prems(1) _ Cons.prems(3), of e] Cons.prems(2) obtain key' pl1 calls where
    step: "kp_merge_event e (Some key) pl = Some (Some key', pl1, calls)" "key' \<in> kp_keys pl1" and
    res: "merge_result e pl pl1 calls" by (auto simp: kp_room_def)
  have pl1: "kp_ok pl1" "kp_frame pl pl1" "length (kp_timeline pl) \<le> length (kp_timeline pl1)"
    using res by (simp_all add: merge_result_def)
  note fr = kp_frameD [OF pl1(2)]
  from Cons.IH [OF pl1(1) _ step(2)] Cons.prems(2) fr obtain pl2 where
    rest: "kp_merge_all es (Some key') pl1 = Some (pl2, discards ?sid es)" "kp_ok pl2" "kp_frame pl1 pl2"
      "length (kp_timeline pl1) \<le> length (kp_timeline pl2)" "kp_events pl2 = placed ?sid es ++ kp_events pl1"
      "kp_stays_within es pl1 pl2"
    by (auto simp: kp_room_def)
  have "kp_frame pl pl2" using pl1(2) rest(3) by (rule kp_frame_trans)
  moreover have "kp_events pl2 = placed ?sid (e # es) ++ kp_events pl"
    using res rest(5) by (auto simp: merge_result_def map_add_def fun_eq_iff split: option.split if_splits)
  moreover have "kp_merge_all (e # es) (Some key) pl = Some (pl2, discards ?sid (e # es))"
    using step(1) rest(1) res by (simp add: merge_result_def split: if_splits)
  moreover have "kp_stays_within (e # es) pl pl2"
    using res rest(6) fr by (simp add: kp_stays_within_def kp_times_within_def merge_result_def)
  ultimately show ?case using rest(2,4) pl1(3) by (intro exI [of _ pl2]) (simp del: placed_simps discards_simps)
qed

lemma kp_mergeEvents_step:
  assumes ok: "kp_ok pl" and room: "kp_room pl es"
  shows "\<exists>pl'. kp_mergeEvents now es pl = Some (pl', discards (kp_storyId pl) es) \<and> kp_ok pl' \<and>
    kp_frame (if es = [] then pl else pl\<lparr>kp_lastArrival := now\<rparr>) pl' \<and>
    length (kp_timeline pl) \<le> length (kp_timeline pl') \<and>
    kp_events pl' = placed (kp_storyId pl) es ++ kp_events pl \<and> kp_stays_within es pl pl'"
proof (cases "es = []")
  case True
  with ok show ?thesis by (simp add: kp_mergeEvents_def kp_stays_within_def)
next
  case False
  let ?pl = "pl\<lparr>kp_lastArrival := now\<rparr>"
  have "fst (last (kp_timeline pl)) \<in> kp_keys ?pl" using ok by (simp add: kp_ok_def)
  moreover have "kp_ok ?pl" "kp_room ?pl es" using ok room by (simp_all add: kp_ok_def kp_room_def)
  moreover have "kp_stays_within es ?pl = kp_stays_within es pl"
    by (simp add: kp_stays_within_def kp_within_def kp_times_within_def kp_TimelineEnd_def fun_eq_iff)
  ultimately show ?thesis
    using kp_merge_all_step [of ?pl es "fst (last (kp_timeline pl))"] False by (simp add: kp_mergeEvents_def)
qed

text \<open>What a collection takes in: the passive deque, or the active one when that is empty.\<close>

definition kp_collected :: "KeeperStoryPipeline \<Rightarrow> LogEvent list" where
  "kp_collected pl = (if kp_passiveDeque pl = [] then kp_activeDeque pl else kp_passiveDeque pl)"

lemma kp_collect_step:
  assumes ok: "kp_ok pl" and room: "kp_room pl (kp_collected pl)"
  shows "\<exists>pl'. kp_collectIngestedEvents now pl = Some (pl', discards (kp_storyId pl) (kp_collected pl)) \<and> kp_ok pl' \<and>
    kp_storyId pl' = kp_storyId pl \<and> kp_chunkGranularity pl' = kp_chunkGranularity pl \<and>
    kp_chronicleName pl' = kp_chronicleName pl \<and> kp_storyName pl' = kp_storyName pl \<and>
    kp_passiveDeque pl' = [] \<and>
    kp_activeDeque pl' = (if kp_passiveDeque pl = [] then [] else kp_activeDeque pl) \<and>
    kp_lastArrival pl' = (if kp_collected pl = [] then kp_lastArrival pl else now) \<and>
    length (kp_timeline pl) \<le> length (kp_timeline pl') \<and>
    kp_events pl' = placed (kp_storyId pl) (kp_collected pl) ++ kp_events pl \<and> kp_stays_within (kp_collected pl) pl pl'"
proof -
  let ?pl1 = "(kp_swapActiveDeque pl)\<lparr>kp_passiveDeque := []\<rparr>"
  have pl1: "kp_ok ?pl1" "kp_room ?pl1 (kp_collected pl)" "kp_storyId ?pl1 = kp_storyId pl"
    "kp_chunkGranularity ?pl1 = kp_chunkGranularity pl" "kp_timeline ?pl1 = kp_timeline pl"
    "kp_chronicleName ?pl1 = kp_chronicleName pl" "kp_storyName ?pl1 = kp_storyName pl" "kp_passiveDeque ?pl1 = []"
    "kp_activeDeque ?pl1 = (if kp_passiveDeque pl = [] then [] else kp_activeDeque pl)"
    "kp_lastArrival ?pl1 = kp_lastArrival pl" "kp_passiveDeque (kp_swapActiveDeque pl) = kp_collected pl"
    using ok room by (auto simp: kp_swapActiveDeque_def kp_collected_def kp_ok_def kp_room_def)
  from kp_mergeEvents_step [OF pl1(1,2), of now] obtain pl' where
    m: "kp_mergeEvents now (kp_collected pl) ?pl1 = Some (pl', discards (kp_storyId pl) (kp_collected pl))" "kp_ok pl'"
      "kp_frame (if kp_collected pl = [] then ?pl1 else ?pl1\<lparr>kp_lastArrival := now\<rparr>) pl'"
      "length (kp_timeline pl) \<le> length (kp_timeline pl')"
      "kp_events pl' = placed (kp_storyId pl) (kp_collected pl) ++ kp_events pl" "kp_stays_within (kp_collected pl) ?pl1 pl'"
    unfolding pl1(3,5) by blast
  have "kp_collectIngestedEvents now pl = Some (pl', discards (kp_storyId pl) (kp_collected pl))"
    using m(1) pl1(11) by (simp add: kp_collectIngestedEvents_def Let_def)
  moreover have "kp_stays_within (kp_collected pl) pl pl'"
    using m(6) by (simp add: kp_stays_within_def kp_within_def kp_times_within_def kp_TimelineEnd_def kp_swapActiveDeque_def)
  ultimately show ?thesis using m(2,4,5) kp_frameD [OF m(3)] pl1 by (simp split: if_splits)
qed

section \<open>Decay\<close>

text \<open>The chunks handed out by a list of windows, and the events in them.\<close>

definition sealed :: "StoryId \<Rightarrow> StoryChunk list \<Rightarrow> tail_call list" where
  "sealed sid cs = concat (map (seal_chunk sid) cs)"

lemma sealed_simps [simp]:
  "sealed sid [] = []" "sealed sid (c # cs) = seal_chunk sid c @ sealed sid cs"
  "sealed sid (cs @ ds) = sealed sid cs @ sealed sid ds"
  by (simp_all add: sealed_def)

lemma kp_take_head_drop:
  assumes "kp_timeline pl = (key, h) # q # m"
  shows "\<exists>pl'. kp_take_head pl = Some (pl', seal_chunk (kp_storyId pl) h) \<and> as_pipeline pl' = drop_head (as_pipeline pl) \<and>
    kp_frame pl pl' \<and> kp_acceptanceWindow pl' = kp_acceptanceWindow pl"
proof (cases m)
  case Nil
  let ?pl = "snd (kp_appendStoryChunk (pl\<lparr>kp_timeline := [q]\<rparr>))"
  have "kp_frame pl ?pl" "kp_acceptanceWindow ?pl = kp_acceptanceWindow pl"
    by (simp_all add: kp_appendStoryChunk_def kp_insert_window_def Let_def split: option.split)
  with assms Nil show ?thesis by (simp add: kp_take_head_def drop_head_def Let_def as_pipeline_append)
next
  case (Cons r n)
  with assms show ?thesis by (simp add: kp_take_head_def drop_head_def Let_def)
qed

text \<open>The decay loop does what the one of the other services does, and hands each window on.\<close>

lemma kp_extract_refines:
  assumes "extractDecayedStoryChunks now (as_pipeline pl) ex = Some r"
  shows "\<exists>pl' out. r = (as_pipeline pl', ex @ out) \<and> kp_frame pl pl' \<and> kp_acceptanceWindow pl' = kp_acceptanceWindow pl \<and>
    kp_extract_loop now pl calls = Some (pl', calls @ sealed (kp_storyId pl) out)"
proof -
  let ?P = "\<lambda>now spl ex r. \<forall>pl calls. spl = as_pipeline pl \<longrightarrow> (\<exists>pl' out. r = (as_pipeline pl', ex @ out) \<and> kp_frame pl pl' \<and> kp_acceptanceWindow pl' = kp_acceptanceWindow pl \<and>
    kp_extract_loop now pl calls = Some (pl', calls @ sealed (kp_storyId pl) out))"
  have "?P now (as_pipeline pl) ex r"
  proof (rule extractDecayedStoryChunks.raw_induct [where P = ?P, OF _ assms], intro allI impI)
    fix f now spl ex r pl calls
    assume IH: "\<And>now spl ex r. f now spl ex = Some r \<Longrightarrow> ?P now spl ex r" and spl: "spl = as_pipeline pl"
      and eq: "(case storyTimelineMap spl of [] \<Rightarrow> None
        | (key, head) # rest \<Rightarrow>
            if acceptanceWindow spl + endTime head \<le> now
            then if acceptanceWindow spl + endTime head < now
                 then if rest = [] then None
                      else let pl1 = spl\<lparr>storyTimelineMap := rest\<rparr>;
                               pl2 = (if length rest < 2 then snd (appendStoryChunk pl1) else pl1)
                           in f now pl2 (ex @ [head])
                 else f now spl ex
            else Some (spl, ex)) = Some r"
    obtain key h rest where m: "kp_timeline pl = (key, h) # rest"
      using eq spl by (auto split: list.splits)
    let ?d = "kp_acceptanceWindow pl + endTime h"
    show "\<exists>pl' out. r = (as_pipeline pl', ex @ out) \<and> kp_frame pl pl' \<and> kp_acceptanceWindow pl' = kp_acceptanceWindow pl \<and>
        kp_extract_loop now pl calls = Some (pl', calls @ sealed (kp_storyId pl) out)"
    proof (cases "?d < now")
      case True
      then obtain q n where rest: "rest = q # n" using eq spl m less_imp_le [OF True] by (cases rest) auto
      from kp_take_head_drop [OF m [unfolded rest]] obtain pl1 where
        take: "kp_take_head pl = Some (pl1, seal_chunk (kp_storyId pl) h)" "as_pipeline pl1 = drop_head (as_pipeline pl)"
          "kp_frame pl pl1" "kp_acceptanceWindow pl1 = kp_acceptanceWindow pl" by blast
      have "f now (drop_head (as_pipeline pl)) (ex @ [h]) = Some r"
        using eq True less_imp_le [OF True] m rest spl by (simp add: drop_head_def Let_def)
      from IH [OF this] take(2) obtain pl2 out where
        "r = (as_pipeline pl2, (ex @ [h]) @ out)" "kp_frame pl1 pl2" "kp_acceptanceWindow pl2 = kp_acceptanceWindow pl1"
        "kp_extract_loop now pl1 (calls @ seal_chunk (kp_storyId pl) h) =
           Some (pl2, (calls @ seal_chunk (kp_storyId pl) h) @ sealed (kp_storyId pl1) out)" by metis
      moreover have "kp_extract_loop now pl calls = kp_extract_loop now pl1 (calls @ seal_chunk (kp_storyId pl) h)"
        using True less_imp_le [OF True] m take(1) by (subst kp_extract_loop.simps) simp
      ultimately show ?thesis
        using kp_frameD [OF take(3)] kp_frame_trans [OF take(3)] take(4)
        by (intro exI [of _ pl2] exI [of _ "h # out"]) simp
    next
      case False
      show ?thesis
      proof (cases "?d = now")
        case True
        then have "f now spl ex = Some r" using eq m spl by simp
        with IH spl show ?thesis by blast
      next
        case ne: False
        then have "kp_extract_loop now pl calls = Some (pl, calls)"
          using False m by (subst kp_extract_loop.simps) simp
        moreover have "r = (spl, ex)" using eq m spl False ne by simp
        ultimately show ?thesis using spl by (intro exI [of _ pl] exI [of _ "[]"]) simp
      qed
    qed
  qed
  then show ?thesis by blast
qed

section \<open>What an operation accounts for\<close>

text \<open>
  The identities a pipeline holds, waiting or in a window, and those that a list of calls hands on: in a
  sealed chunk, or reported as discarded.
\<close>

definition kp_holds :: "KeeperStoryPipeline \<Rightarrow> EventSequence set" where
  "kp_holds pl = event_sequence ` (set (kp_activeDeque pl) \<union> set (kp_passiveDeque pl)) \<union> dom (kp_events pl)"

fun call_events :: "tail_call \<Rightarrow> EventSequence set" where
  "call_events (IngestSealedChunk _ c) = dom (events_of c)"
| "call_events (EventDiscarded _ sq) = {sq}"
| "call_events _ = {}"

abbreviation calls_events :: "tail_call list \<Rightarrow> EventSequence set" where
  "calls_events calls \<equiv> \<Union> (call_events ` set calls)"

lemma dom_placed: "dom (placed sid es) = event_sequence ` {e \<in> set es. kp_takes sid e}"
  by (induction es) auto

lemma calls_events_discards: "calls_events (discards sid es) = event_sequence ` {e \<in> set es. \<not> kp_takes sid e}"
  by (auto simp: discards_def)

lemma placed_or_discarded: "dom (placed sid es) \<union> calls_events (discards sid es) = event_sequence ` set es"
  unfolding dom_placed calls_events_discards by blast

lemma calls_events_sealed: "calls_events (sealed sid cs) = (\<Union>c\<in>set cs. dom (events_of c))"
  by (induction cs) (auto simp: seal_chunk_def)

lemma kp_collect_accounts:
  assumes "kp_ok pl" and "kp_room pl (kp_collected pl)" and "kp_collectIngestedEvents now pl = Some (pl', calls)"
  shows "kp_holds pl' \<union> calls_events calls = kp_holds pl"
proof -
  have *: "kp_events pl' = placed (kp_storyId pl) (kp_collected pl) ++ kp_events pl"
    "calls = discards (kp_storyId pl) (kp_collected pl)" "kp_passiveDeque pl' = []"
    "kp_activeDeque pl' = (if kp_passiveDeque pl = [] then [] else kp_activeDeque pl)"
    using kp_collect_step [OF assms(1,2), of now] assms(3) by auto
  have "kp_holds pl' \<union> calls_events calls = event_sequence ` (set (kp_activeDeque pl') \<union> set (kp_collected pl)) \<union> dom (kp_events pl)"
    using placed_or_discarded [of "kp_storyId pl" "kp_collected pl"] by (auto simp: kp_holds_def *)
  also have "set (kp_activeDeque pl') \<union> set (kp_collected pl) = set (kp_activeDeque pl) \<union> set (kp_passiveDeque pl)"
    by (auto simp: * kp_collected_def)
  finally show ?thesis by (simp add: kp_holds_def)
qed

text \<open>
  Decay, when no window's decay time equals the current time.
\<close>

definition kp_decays :: "u64 \<Rightarrow> KeeperStoryPipeline \<Rightarrow> bool" where
  "kp_decays now pl \<longleftrightarrow> 2 \<le> length (kp_timeline pl) \<and>
     unat (kp_acceptanceWindow pl) + unat (kp_TimelineEnd pl) < 2 ^ 64 \<and>
     unat now + 2 * unat (kp_chunkGranularity pl) < 2 ^ 64 \<and>
     (kp_acceptanceWindow pl \<le> now \<longrightarrow> \<not> kp_chunkGranularity pl udvd (now - kp_acceptanceWindow pl))"

lemma kp_extract_step:
  assumes ok: "kp_ok pl" and dec: "kp_decays now pl"
  shows "\<exists>pl' out. kp_extractDecayedStoryChunks now pl = Some (pl', sealed (kp_storyId pl) out) \<and> kp_ok pl' \<and>
    kp_frame pl pl' \<and> 2 \<le> length (kp_timeline pl') \<and> kp_acceptanceWindow pl' = kp_acceptanceWindow pl \<and>
    (\<forall>c\<in>set out. unat (kp_acceptanceWindow pl) + unat (endTime c) < unat now) \<and>
    (\<forall>p\<in>set (kp_timeline pl'). unat now < unat (kp_acceptanceWindow pl) + unat (endTime (snd p))) \<and>
    concat (map logEvents out) @ timeline_events (kp_timeline pl') = timeline_events (kp_timeline pl)"
proof -
  from extract_decays [of "as_pipeline pl" now "[]"] ok dec obtain spl out where
    spl: "extractDecayedStoryChunks now (as_pipeline pl) [] = Some (spl, out)" "pipeline_ok spl"
      "2 \<le> length (storyTimelineMap spl)" "\<forall>c\<in>set out. unat (kp_acceptanceWindow pl) + unat (endTime c) < unat now"
      "\<forall>p\<in>set (storyTimelineMap spl). unat now < unat (kp_acceptanceWindow pl) + unat (endTime (snd p))"
      "concat (map logEvents out) @ timeline_events (storyTimelineMap spl) = timeline_events (kp_timeline pl)"
    by (auto simp: kp_decays_def)
  from kp_extract_refines [OF spl(1), of "[]"] obtain pl' where
    pl': "spl = as_pipeline pl'" "kp_frame pl pl'" "kp_acceptanceWindow pl' = kp_acceptanceWindow pl"
      "kp_extract_loop now pl [] = Some (pl', sealed (kp_storyId pl) out)"
    by auto
  with spl(2-) pl' show ?thesis by (auto simp: kp_extractDecayedStoryChunks_def)
qed

lemma dom_concat_events: "dom (map_of (concat (map logEvents cs))) = (\<Union>c\<in>set cs. dom (events_of c))"
  by (induction cs) auto

lemma kp_extract_accounts:
  assumes "kp_ok pl" and "kp_decays now pl" and "kp_extractDecayedStoryChunks now pl = Some (pl', calls)"
  shows "kp_holds pl' \<union> calls_events calls = kp_holds pl"
proof -
  from kp_extract_step [OF assms(1,2)] assms(3) obtain out where
    out: "calls = sealed (kp_storyId pl) out" "kp_frame pl pl'"
      "concat (map logEvents out) @ timeline_events (kp_timeline pl') = timeline_events (kp_timeline pl)" by auto
  have "dom (kp_events pl) = (\<Union>c\<in>set out. dom (events_of c)) \<union> dom (kp_events pl')"
    unfolding out(3) [symmetric] map_of_append dom_map_add dom_concat_events by blast
  then show ?thesis
    unfolding kp_holds_def out(1) calls_events_sealed using kp_frameD [OF out(2)] by auto
qed

section \<open>The end of a pipeline\<close>

lemma kp_finalize_step:
  assumes ok: "kp_ok pl" and room: "kp_room pl (kp_passiveDeque pl @ kp_activeDeque pl)"
  shows "\<exists>pl' cs. kp_finalize now pl = Some (pl', discards (kp_storyId pl) (kp_passiveDeque pl) @
       discards (kp_storyId pl) (kp_activeDeque pl) @ sealed (kp_storyId pl) cs) \<and>
    (\<forall>c\<in>set cs. wf_chunk c \<and> chunkStoryId c = kp_storyId pl) \<and>
    map_of (concat (map logEvents cs)) =
      placed (kp_storyId pl) (kp_activeDeque pl) ++ (placed (kp_storyId pl) (kp_passiveDeque pl) ++ kp_events pl) \<and>
    kp_holds pl' = {}"
proof -
  let ?sid = "kp_storyId pl"
  have r: "kp_room pl (kp_passiveDeque pl)" "kp_room pl (kp_activeDeque pl)" using room by (auto simp: kp_room_def)
  from kp_mergeEvents_step [OF ok r(1), of now] obtain pl1 where
    m1: "kp_mergeEvents now (kp_passiveDeque pl) pl = Some (pl1, discards ?sid (kp_passiveDeque pl))" "kp_ok pl1"
      "kp_frame (if kp_passiveDeque pl = [] then pl else pl\<lparr>kp_lastArrival := now\<rparr>) pl1"
      "kp_events pl1 = placed ?sid (kp_passiveDeque pl) ++ kp_events pl" by blast
  have fr1: "kp_storyId pl1 = ?sid" "kp_chunkGranularity pl1 = kp_chunkGranularity pl"
    using kp_frameD [OF m1(3)] by (auto split: if_splits)
  then have "kp_room pl1 (kp_activeDeque pl)" using r(2) by (simp add: kp_room_def)
  from kp_mergeEvents_step [OF m1(2) this, of now] fr1 obtain pl2 where
    m2: "kp_mergeEvents now (kp_activeDeque pl) pl1 = Some (pl2, discards ?sid (kp_activeDeque pl))" "kp_ok pl2"
      "kp_frame (if kp_activeDeque pl = [] then pl1 else pl1\<lparr>kp_lastArrival := now\<rparr>) pl2"
      "kp_events pl2 = placed ?sid (kp_activeDeque pl) ++ kp_events pl1" by auto
  have sid2: "kp_storyId pl2 = ?sid" using kp_frameD [OF m2(3)] fr1 by (auto split: if_splits)
  let ?cs = "map snd (kp_timeline pl2)"
  have "concat (map (\<lambda>p. seal_chunk ?sid (snd p)) (kp_timeline pl2)) = sealed ?sid ?cs"
    by (simp add: sealed_def comp_def)
  moreover have "concat (map logEvents ?cs) = timeline_events (kp_timeline pl2)"
    by (simp add: timeline_events_def comp_def)
  moreover have "\<forall>c\<in>set ?cs. wf_chunk c \<and> chunkStoryId c = ?sid"
    using m2(2) sid2 by (auto simp: kp_ok_def timeline_ok_def window_ok_def)
  ultimately show ?thesis
    using m1(1,4) m2(1,4)
    by (intro exI [of _ "pl2\<lparr>kp_timeline := [], kp_activeDeque := [], kp_passiveDeque := []\<rparr>"] exI [of _ ?cs])
       (simp add: kp_finalize_def kp_holds_def)
qed

lemma kp_finalize_accounts:
  assumes "kp_ok pl" and "kp_room pl (kp_passiveDeque pl @ kp_activeDeque pl)" and "kp_finalize now pl = Some (pl', calls)"
  shows "calls_events calls = kp_holds pl \<and> kp_holds pl' = {}"
proof -
  let ?sid = "kp_storyId pl"
  from kp_finalize_step [OF assms(1,2), of now] assms(3) obtain cs where
    cs: "calls = discards ?sid (kp_passiveDeque pl) @ discards ?sid (kp_activeDeque pl) @ sealed ?sid cs"
      "map_of (concat (map logEvents cs)) =
         placed ?sid (kp_activeDeque pl) ++ (placed ?sid (kp_passiveDeque pl) ++ kp_events pl)" "kp_holds pl' = {}" by auto
  have "calls_events (sealed ?sid cs) =
      dom (placed ?sid (kp_activeDeque pl)) \<union> dom (placed ?sid (kp_passiveDeque pl)) \<union> dom (kp_events pl)"
    unfolding calls_events_sealed dom_concat_events [symmetric] cs(2) by auto
  then have "calls_events calls = event_sequence ` set (kp_passiveDeque pl) \<union> event_sequence ` set (kp_activeDeque pl) \<union> dom (kp_events pl)"
    unfolding cs(1) set_append image_Un Union_Un_distrib
    by (simp only: Un_ac flip: placed_or_discarded [of ?sid "kp_passiveDeque pl"] placed_or_discarded [of ?sid "kp_activeDeque pl"])
  then show ?thesis using cs(3) by (auto simp: kp_holds_def)
qed

lemma delete_KeeperStoryPipeline_accounts:
  assumes "kp_ok pl" and "kp_room pl (kp_passiveDeque pl @ kp_activeDeque pl)"
  shows "\<exists>calls. delete_KeeperStoryPipeline now pl = Some calls \<and> calls_events calls = kp_holds pl"
proof -
  from kp_finalize_step [OF assms, of now] obtain pl' calls where fin: "kp_finalize now pl = Some (pl', calls)" by blast
  from kp_finalize_accounts [OF assms fin] fin show ?thesis by (simp add: delete_KeeperStoryPipeline_def)
qed

section \<open>The beginning of a pipeline\<close>

lemma new_KeeperStoryPipeline_step:
  assumes "granularity \<noteq> 0" and "unat start_time + 3 * (unat granularity * 1000000000) < 2 ^ 64"
  shows "\<exists>pl. new_KeeperStoryPipeline chronicle story sid start_time granularity window = Some (pl, [RegisterActiveSource sid]) \<and>
    kp_ok pl \<and> length (kp_timeline pl) = 3 \<and> timeline_events (kp_timeline pl) = [] \<and> kp_holds pl = {} \<and>
    kp_TimelineStart pl \<le> start_time \<and> start_time < kp_TimelineEnd pl \<and>
    kp_storyId pl = sid \<and> kp_chunkGranularity pl = ucast granularity * 1000000000 \<and>
    kp_chronicleName pl = chronicle \<and> kp_storyName pl = story \<and>
    kp_acceptanceWindow pl = ucast window * 1000000000 \<and> kp_lastArrival pl = 0 \<and>
    kp_activeDeque pl = [] \<and> kp_passiveDeque pl = []"
proof -
  obtain pl where new: "new_KeeperStoryPipeline chronicle story sid start_time granularity window = Some (pl, [RegisterActiveSource sid])"
    using assms(1) by (simp add: new_KeeperStoryPipeline_def Let_def)
  have as: "new_StoryPipeline (- 1) chronicle story sid start_time granularity window = Some (0, as_pipeline pl)"
    using new assms(1) unfolding new_StoryPipeline_def new_KeeperStoryPipeline_def
    by (auto simp: Let_def as_pipeline_def make_window_def kp_window_def new_StoryChunk_def)
  show ?thesis
    using new new_pipeline_ok [OF as assms(2)]
    by (auto simp: new_KeeperStoryPipeline_def Let_def kp_holds_def split: if_splits)
qed

section \<open>Reading\<close>

lemma omap_upto_split: "omap_ok m \<Longrightarrow> m = omap_upto k m @ filter (\<lambda>p. k < fst p) m"
proof (induction m)
  case (Cons p m)
  show ?case
  proof (cases "fst p \<le> k")
    case True
    with Cons show ?thesis by (simp add: omap_upto_def omap_ok_Cons not_less)
  next
    case False
    with Cons.prems have "\<forall>q\<in>set m. k < fst q" by (auto simp: omap_ok_Cons)
    then have "\<forall>q\<in>set m. \<not> fst q \<le> k" by (simp add: not_le)
    with \<open>\<forall>q\<in>set m. k < fst q\<close> False show ?thesis by (simp add: omap_upto_def)
  qed
qed (simp add: omap_upto_def)

lemma timeline_events_sorted: "timeline_ok sid g m \<Longrightarrow> omap_ok (timeline_events m)"
proof (induction m)
  case (Cons p m)
  have p: "window_ok sid g p" "0 < g" using Cons.prems by (simp_all add: timeline_ok_Cons)
  have m: "timeline_ok sid g m" using Cons.prems by (cases m) (simp_all add: timeline_ok_Cons timeline_ok_def)
  have "fst a < fst b" if a: "a \<in> set (logEvents (snd p))" and b: "b \<in> set (timeline_events m)" for a b
  proof -
    have "wf_event (snd p) a" using a p(1) by (simp add: window_ok_def wf_chunk_def)
    then have "fst (fst a) < endTime (snd p)" by (auto simp: wf_event_def accepts_def)
    moreover from b obtain q where q: "q \<in> set m" "b \<in> set (logEvents (snd q))" by (auto simp: timeline_events_def)
    moreover have "wf_event (snd q) b" "startTime (snd q) = fst q"
      using q m by (auto simp: timeline_ok_def window_ok_def wf_chunk_def)
    then have "fst q \<le> fst (fst b)" by (auto simp: wf_event_def accepts_def)
    moreover have "endTime (snd p) \<le> fst q" by (rule timeline_after [OF Cons.prems q(1)])
    ultimately have "fst (fst a) < fst (fst b)" by simp
    then show ?thesis by (cases a; cases b) (simp add: less_prod_def)
  qed
  with Cons.IH [OF m] p(1) show ?case by (auto simp: omap_ok_append window_ok_def wf_chunk_def)
qed simp

lemma kp_activeTailSequences_last:
  "kp_activeTailSequences n pl =
     (let ks = map fst (timeline_events (kp_timeline pl)) in drop (length ks - n) ks)"
proof -
  have "concat (map (\<lambda>p. rev (map fst (logEvents (snd p)))) (rev (kp_timeline pl))) =
      rev (map fst (timeline_events (kp_timeline pl)))"
    by (simp add: timeline_events_def rev_concat map_concat rev_map comp_def)
  then show ?thesis by (simp add: kp_activeTailSequences_def take_rev Let_def)
qed

lemma kp_findActiveEvent_lookup:
  assumes "kp_ok pl"
  shows "kp_findActiveEvent sq pl = kp_events pl sq"
proof -
  let ?m = "kp_timeline pl" and ?t = "fst sq"
  have tl: "timeline_ok (kp_storyId pl) (unat (kp_chunkGranularity pl)) ?m" using assms by (simp add: kp_ok_def)
  let ?cov = "omap_upto ?t ?m" and ?ys = "filter (\<lambda>p. ?t < fst p) ?m"
  note split = omap_upto_split [OF timeline_sorted [OF tl], of ?t]
  show ?thesis
  proof (cases "?cov = []")
    case True
    then have "?m = ?ys" using split by simp
    then have "\<And>p. p \<in> set ?m \<Longrightarrow> ?t < fst p" by (metis (mono_tags, lifting) filter_id_conv)
    then have "kp_events pl sq = None" by (intro timeline_lookup_None [OF tl]) (simp add: not_le)
    with True show ?thesis by (simp add: kp_findActiveEvent_def)
  next
    case False
    then obtain xs p where xs: "?cov = xs @ [p]" by (metis rev_exhaust)
    have m: "?m = xs @ p # ?ys" using split xs by simp
    have tl': "timeline_ok (kp_storyId pl) (unat (kp_chunkGranularity pl)) (xs @ p # ?ys)" using tl m by simp
    have "p \<in> set ?cov" using xs by simp
    then have p: "fst p \<le> ?t" by (simp add: omap_upto_def)
    have win: "window_ok (kp_storyId pl) (unat (kp_chunkGranularity pl)) p"
      using tl' by (simp add: timeline_ok_append timeline_ok_Cons)
    have found: "kp_findActiveEvent sq pl = events_of (snd p) sq"
      using False xs by (simp add: kp_findActiveEvent_def findEvent_def)
    show ?thesis
    proof (cases "?t < endTime (snd p)")
      case True
      then show ?thesis using timeline_lookup_split [OF tl', of sq] p found m by simp
    next
      case False
      then have "\<not> (fst q \<le> ?t \<and> ?t < endTime (snd q))" if "q \<in> set ?m" for q
        using that timeline_before [OF tl', of q] p
        by (subst (asm) m) (auto dest: order_trans less_le_trans simp: not_le not_less)
      then have "kp_events pl sq = None" by (intro timeline_lookup_None [OF tl])
      moreover have "events_of (snd p) sq = None" using False by (intro window_None [OF win]) simp
      ultimately show ?thesis using found by simp
    qed
  qed
qed

section \<open>Bounds\<close>

lemma timeline_length:
  "timeline_ok sid g m \<Longrightarrow> m \<noteq> [] \<Longrightarrow> unat (endTime (snd (last m))) = unat (fst (hd m)) + length m * g"
proof (induction m)
  case (Cons p m)
  then show ?case by (cases m) (auto simp: timeline_ok_Cons window_ok_def)
qed simp

lemma kp_timeline_length:
  "kp_ok pl \<Longrightarrow> unat (kp_TimelineEnd pl) = unat (kp_TimelineStart pl) + length (kp_timeline pl) * unat (kp_chunkGranularity pl)"
  unfolding kp_ok_def kp_TimelineEnd_def kp_TimelineStart_def by (blast intro: timeline_length)

text \<open>
  Decay whenever it returns: with the clock and the timeline below a bound, the windows handed on and the
  windows left are what was there.
\<close>

lemma kp_take_head_step:
  assumes ok: "kp_ok pl" and two: "2 \<le> length (kp_timeline pl)" and head: "kp_timeline pl = (key, h) # rest"
    and room: "kp_within b pl" "2 * b + 3000 < 2 ^ 64" "unat now + 2 * unat (kp_chunkGranularity pl) \<le> b"
    and dec: "kp_acceptanceWindow pl + endTime h < now"
  shows "\<exists>pl'. kp_take_head pl = Some (pl', seal_chunk (kp_storyId pl) h) \<and> kp_ok pl' \<and> kp_frame pl pl' \<and>
    2 \<le> length (kp_timeline pl') \<and> kp_within b pl' \<and>
    logEvents h @ timeline_events (kp_timeline pl') = timeline_events (kp_timeline pl)"
proof -
  let ?A = "unat (kp_acceptanceWindow pl)" and ?g = "unat (kp_chunkGranularity pl)"
  obtain q m where m: "kp_timeline pl = (key, h) # q # m" using two head by (cases rest) auto
  have tl: "timeline_ok (kp_storyId pl) ?g ((key, h) # q # m)" using ok m by (simp add: kp_ok_def)
  have le: "unat (endTime h) \<le> unat (kp_TimelineEnd pl)"
    using timeline_end_mono [OF tl, of "(key, h)"] by (simp add: kp_TimelineEnd_def m word_le_nat_alt)
  have sum: "?A + unat (kp_TimelineEnd pl) < 2 ^ 64" using room(1,2) by (simp add: kp_within_def)
  then have lt: "?A + unat (endTime h) < unat now"
    using dec le by (simp add: word_less_nat_alt unat_word_ariths)
  have big: "unat now + 2 * ?g < 2 ^ 64" using room(2,3) by simp
  have prem: "pipeline_ok (as_pipeline pl)" "2 \<le> length (storyTimelineMap (as_pipeline pl))"
    "hd (storyTimelineMap (as_pipeline pl)) = (key, h)" "?A + unat (TimelineEnd (as_pipeline pl)) < 2 ^ 64"
    "unat now + 2 * unat (chunkGranularity (as_pipeline pl)) < 2 ^ 64"
    using ok two m sum big by simp_all
  note dh = drop_head_step [OF prem(1-3) lt prem(5,4)]
  from kp_take_head_drop [OF m] obtain pl' where
    take: "kp_take_head pl = Some (pl', seal_chunk (kp_storyId pl) h)" "as_pipeline pl' = drop_head (as_pipeline pl)"
      "kp_frame pl pl'" "kp_acceptanceWindow pl' = kp_acceptanceWindow pl" by blast
  have res: "kp_ok pl'" "2 \<le> length (kp_timeline pl')" "kp_TimelineStart pl' = endTime h"
    "logEvents h @ timeline_events (kp_timeline pl') = timeline_events (kp_timeline pl)"
    using dh(1,2,3,5) unfolding take(2) [symmetric] by simp_all
  have "unat (kp_TimelineEnd pl') \<le> b"
  proof (cases m)
    case Nil
    have "length (kp_timeline pl') \<le> 2"
      using take(1) m Nil
      by (auto simp: kp_take_head_def Let_def kp_appendStoryChunk_def kp_insert_window_def omap_emplace_def omap_put_def
          split: option.splits)
    then have "length (kp_timeline pl') = 2" using res(2) by simp
    then have "unat (kp_TimelineEnd pl') = unat (endTime h) + 2 * ?g"
      using kp_timeline_length [OF res(1)] res(3) kp_frameD [OF take(3)] by simp
    then show ?thesis using lt room(3) by simp
  next
    case (Cons r n)
    then have "kp_timeline pl' = q # m" using take(1) m by (auto simp: kp_take_head_def Let_def)
    then have "kp_TimelineEnd pl' = kp_TimelineEnd pl" using m by (simp add: kp_TimelineEnd_def)
    then show ?thesis using room(1) by (simp add: kp_within_def)
  qed
  then have "kp_within b pl'" using room(1) take(4) by (simp add: kp_within_def)
  with take(1,3) res show ?thesis by blast
qed

definition extract_result :: "nat \<Rightarrow> KeeperStoryPipeline \<Rightarrow> KeeperStoryPipeline \<Rightarrow> tail_call list \<Rightarrow> bool" where
  "extract_result b pl pl' calls \<longleftrightarrow> kp_ok pl' \<and> kp_frame pl pl' \<and> 2 \<le> length (kp_timeline pl') \<and> kp_within b pl' \<and>
     (\<exists>out. calls = sealed (kp_storyId pl) out \<and>
        concat (map logEvents out) @ timeline_events (kp_timeline pl') = timeline_events (kp_timeline pl))"

lemma kp_extract_partial:
  assumes ret: "kp_extract_loop now pl calls = Some r"
    and start: "kp_ok pl" "2 \<le> length (kp_timeline pl)" "kp_within b pl" "2 * b + 3000 < 2 ^ 64"
      "unat now + 2 * unat (kp_chunkGranularity pl) \<le> b"
  shows "\<exists>pl' calls'. r = (pl', calls @ calls') \<and> extract_result b pl pl' calls'"
proof -
  let ?Q = "\<lambda>now pl. kp_ok pl \<and> 2 \<le> length (kp_timeline pl) \<and> kp_within b pl \<and> unat now + 2 * unat (kp_chunkGranularity pl) \<le> b"
  let ?P = "\<lambda>now pl calls r. ?Q now pl \<longrightarrow> (\<exists>pl' calls'. r = (pl', calls @ calls') \<and> extract_result b pl pl' calls')"
  have "?P now pl calls r"
  proof (rule kp_extract_loop.raw_induct [where P = ?P, OF _ ret], rule impI)
    fix f now pl calls r
    assume IH: "\<And>now pl calls r. f now pl calls = Some r \<Longrightarrow> ?P now pl calls r" and Q: "?Q now pl"
      and eq: "(case kp_timeline pl of [] \<Rightarrow> None
        | (x, head) # xs \<Rightarrow>
            if kp_acceptanceWindow pl + endTime head \<le> now
            then if kp_acceptanceWindow pl + endTime head < now
                 then case kp_take_head pl of None \<Rightarrow> None | Some (pl', cs) \<Rightarrow> f now pl' (calls @ cs)
                 else f now pl calls
            else Some (pl, calls)) = Some r"
    obtain key h rest where m: "kp_timeline pl = (key, h) # rest" using eq by (auto split: list.splits)
    let ?d = "kp_acceptanceWindow pl + endTime h"
    consider (dec) "?d < now" | (same) "?d = now" | (kept) "\<not> ?d \<le> now" by fastforce
    then show "\<exists>pl' calls'. r = (pl', calls @ calls') \<and> extract_result b pl pl' calls'"
    proof cases
      case dec
      from kp_take_head_step [OF _ _ m _ start(4) _ dec] Q obtain pl1 where
        take: "kp_take_head pl = Some (pl1, seal_chunk (kp_storyId pl) h)" "kp_ok pl1" "kp_frame pl pl1"
          "2 \<le> length (kp_timeline pl1)" "kp_within b pl1"
          "logEvents h @ timeline_events (kp_timeline pl1) = timeline_events (kp_timeline pl)" by blast
      note fr = kp_frameD [OF take(3)]
      have "f now pl1 (calls @ seal_chunk (kp_storyId pl) h) = Some r"
        using eq dec less_imp_le [OF dec] m take(1) by simp
      from IH [OF this] Q take fr obtain pl2 calls2 where
        r: "r = (pl2, (calls @ seal_chunk (kp_storyId pl) h) @ calls2)" and res: "extract_result b pl1 pl2 calls2" by auto
      from res obtain out where
        out: "calls2 = sealed (kp_storyId pl) out" "kp_frame pl1 pl2"
          "concat (map logEvents out) @ timeline_events (kp_timeline pl2) = timeline_events (kp_timeline pl1)"
        using fr by (auto simp: extract_result_def)
      have "concat (map logEvents (h # out)) @ timeline_events (kp_timeline pl2) = timeline_events (kp_timeline pl)"
        using out(3) take(6) by simp
      moreover have "seal_chunk (kp_storyId pl) h @ calls2 = sealed (kp_storyId pl) (h # out)" by (simp add: out(1))
      moreover have "kp_frame pl pl2" by (rule kp_frame_trans [OF take(3) out(2)])
      ultimately have "extract_result b pl pl2 (seal_chunk (kp_storyId pl) h @ calls2)"
        using res unfolding extract_result_def by blast
      with r show ?thesis by simp
    next
      case same
      then have "f now pl calls = Some r" using eq m by simp
      with IH Q show ?thesis by blast
    next
      case kept
      then have "r = (pl, calls)" using eq m by simp
      moreover have "extract_result b pl pl []"
        using Q unfolding extract_result_def by (auto intro: exI [of _ "[]"])
      ultimately show ?thesis by simp
    qed
  qed
  with start show ?thesis by blast
qed

section \<open>Properties of the keeper's pipeline\<close>

text \<open>
  Claim C21. Collecting the waiting events always ends (for events at least one window before the end of the
  64-bit clock) and settles every one of them: an event of the story that has a record is in the window of the
  timeline that covers its time, unless an event of the same identity was there first; every other event is
  reported to the retention store as discarded, in order, and nothing else is reported. The timeline stays a
  gap-free sequence of windows and is extended to the past or the future as needed.
\<close>

theorem kp_collect_places_or_reports:
  assumes "kp_ok pl" and "kp_room pl (kp_collected pl)"
  shows "\<exists>pl'. kp_collectIngestedEvents now pl = Some (pl', discards (kp_storyId pl) (kp_collected pl)) \<and> kp_ok pl' \<and>
    kp_events pl' = placed (kp_storyId pl) (kp_collected pl) ++ kp_events pl \<and>
    kp_holds pl' \<union> calls_events (discards (kp_storyId pl) (kp_collected pl)) = kp_holds pl \<and>
    kp_passiveDeque pl' = [] \<and> length (kp_timeline pl) \<le> length (kp_timeline pl')"
proof -
  from kp_collect_step [OF assms, of now] obtain pl' where
    "kp_collectIngestedEvents now pl = Some (pl', discards (kp_storyId pl) (kp_collected pl))" "kp_ok pl'"
    "kp_events pl' = placed (kp_storyId pl) (kp_collected pl) ++ kp_events pl"
    "kp_passiveDeque pl' = []" "length (kp_timeline pl) \<le> length (kp_timeline pl')" by blast
  with kp_collect_accounts [OF assms this(1)] show ?thesis by blast
qed

text \<open>
  Claim C22. The live tail is read exactly: the newest identities are the last \<open>n\<close> of all the identities of the
  timeline, in strictly ascending order across the windows, and looking one up finds the event stored under it.
\<close>

theorem active_tail_exact:
  assumes "kp_ok pl"
  defines "ks \<equiv> map fst (timeline_events (kp_timeline pl))"
  shows "kp_activeTailSequences n pl = drop (length ks - n) ks \<and> sorted_wrt (<) ks \<and>
    kp_findActiveEvent sq pl = kp_events pl sq"
proof -
  have "timeline_ok (kp_storyId pl) (unat (kp_chunkGranularity pl)) (kp_timeline pl)" using assms(1) by (simp add: kp_ok_def)
  then have "sorted_wrt (<) ks" using timeline_events_sorted by (auto simp: ks_def omap_ok_def)
  then show ?thesis
    using kp_findActiveEvent_lookup [OF assms(1), of sq] kp_activeTailSequences_last [of n pl] by (simp add: ks_def Let_def)
qed

section \<open>Witnesses\<close>

definition ex_keeper :: KeeperStoryPipeline where
  "ex_keeper = fst (the (new_KeeperStoryPipeline [] [] 7 200000000000 60 120))"

lemma ex_keeper_new:
  "kp_ok ex_keeper" "kp_storyId ex_keeper = 7" "kp_chunkGranularity ex_keeper = 60000000000"
  "kp_activeDeque ex_keeper = []" "kp_passiveDeque ex_keeper = []" "timeline_events (kp_timeline ex_keeper) = []"
  using new_KeeperStoryPipeline_step [of 60 200000000000 "[]" "[]" 7 120] by (auto simp: ex_keeper_def)

text \<open>Two events, the second without a record.\<close>

definition ex_blank :: LogEvent where
  "ex_blank = (ex_event 190000000000 4 2)\<lparr>logRecord := []\<rparr>"

definition ex_waiting :: KeeperStoryPipeline where
  "ex_waiting = kp_ingestEvent ex_blank (kp_ingestEvent (ex_event 100000000000 3 1) ex_keeper)"

lemma ex_waiting_collected: "kp_collected ex_waiting = [ex_event 100000000000 3 1, ex_blank]"
  by (simp add: ex_waiting_def kp_ingestEvent_def kp_collected_def ex_keeper_new)

lemma ex_waiting_ok: "kp_ok ex_waiting" "kp_room ex_waiting (kp_collected ex_waiting)" "kp_storyId ex_waiting = 7"
  "timeline_events (kp_timeline ex_waiting) = []"
  using ex_keeper_new
  by (simp_all add: ex_waiting_collected)
     (simp_all add: ex_waiting_def kp_ingestEvent_def kp_ok_def kp_room_def ex_event_def ex_blank_def)

theorem kp_collect_places_or_reports_witness:
  "\<exists>pl'. kp_collectIngestedEvents 300000000000 ex_waiting = Some (pl', [EventDiscarded 7 (190000000000, 4, 2)]) \<and>
     kp_events pl' (100000000000, 3, 1) = Some (ex_event 100000000000 3 1)"
proof -
  have d: "discards 7 (kp_collected ex_waiting) = [EventDiscarded 7 (190000000000, 4, 2)]"
    "placed 7 (kp_collected ex_waiting) (100000000000, 3, 1) = Some (ex_event 100000000000 3 1)"
    by (simp_all add: ex_waiting_collected kp_takes_def ex_blank_def ex_event_def event_sequence_def)
  from kp_collect_places_or_reports [OF ex_waiting_ok(1,2), of 300000000000] d show ?thesis
    by (auto simp: ex_waiting_ok map_add_def)
qed

definition ex_tail :: KeeperStoryPipeline where
  "ex_tail = ex_keeper\<lparr>kp_timeline :=
     [(0, (new_StoryChunk [] [] 7 0 60000000000)\<lparr>logEvents := logEvents ex_chunk\<rparr>)]\<rparr>"

lemma ex_tail_ok: "kp_ok ex_tail"
  by (simp add: ex_tail_def kp_ok_def timeline_ok_Cons window_ok_def wf_chunk_def wf_event_def accepts_def omap_ok_def
      ex_chunk_simps ex_keeper_new)

theorem active_tail_exact_witness:
  "kp_activeTailSequences 2 ex_tail = [(20, 0, 0), (20, 3, 2)] \<and> kp_findActiveEvent (12, 3, 1) ex_tail = Some (ex_event 12 3 1)"
  using active_tail_exact [OF ex_tail_ok, of 2 "(12, 3, 1)"] by (simp add: ex_tail_def ex_chunk_simps)

end
