(* ===== verification/KeeperDataStore.thy ===== *)
theory KeeperDataStore
  imports KeeperPipeline KeeperWal
begin

text \<open>
  The keeper's data store and its ingestion queue (\<^verbatim>\<open>src/chrono-keeper/src/KeeperDataStore.cpp\<close>,
  \<^verbatim>\<open>include/KeeperDataStore.h\<close>, \<^verbatim>\<open>include/IngestionQueue.h\<close>): which stories have a pipeline, which of them
  wait for their exit, and the events that found no pipeline.

  The store owns the pipelines, so they are values, and an ingestion handle is the story's pipeline. The
  pointer of a waiting entry is the pipeline the map holds for its story. What a hold of the store's mutex does is one
  definition; the calls to the retention store are returned in order. An \<^verbatim>\<open>unordered_map\<close> is an
  ordered one. The clock's readings are arguments. \<^const>\<open>None\<close> is a pipeline's loop that does not end, a division by
  zero, or a handle or a waiting entry whose pipeline is gone.
\<close>

section \<open>State\<close>

datatype DataStoreState = StateUnknown | StateRunning | StateShuttingDown

record KeeperDataStore =
  ds_state :: DataStoreState
  story_chunk_duration_secs :: u32
  acceptance_window_secs :: u32
  watermark_resend_timeout_secs :: u32
  acceptingPipelines :: bool
  theMapOfStoryPipelines :: "(StoryId, KeeperStoryPipeline) omap"
  pipelinesWaitingForExit :: "(StoryId, u64) omap"
  startedByDurableWrite :: "StoryId list"
  retiredStoryNames :: "(StoryId, cpp_string \<times> cpp_string) omap"
  storyIngestionHandles :: "StoryId list"
  orphanEventQueue :: "LogEvent list"

definition new_KeeperDataStore :: "u32 \<Rightarrow> u32 \<Rightarrow> u32 \<Rightarrow> KeeperDataStore" where
  "new_KeeperDataStore duration window resend_timeout =
     \<lparr>ds_state = StateUnknown, story_chunk_duration_secs = duration, acceptance_window_secs = window,
      watermark_resend_timeout_secs = resend_timeout, acceptingPipelines = True, theMapOfStoryPipelines = [],
      pipelinesWaitingForExit = [], startedByDurableWrite = [], retiredStoryNames = [], storyIngestionHandles = [],
      orphanEventQueue = []\<rparr>"

section \<open>The ingestion queue\<close>

definition hasStoryIngestionHandle :: "StoryId \<Rightarrow> KeeperDataStore \<Rightarrow> bool" where
  "hasStoryIngestionHandle sid ds = (sid \<in> set (storyIngestionHandles ds))"

definition addStoryIngestionHandle :: "StoryId \<Rightarrow> KeeperDataStore \<Rightarrow> KeeperDataStore" where
  "addStoryIngestionHandle sid ds = ds\<lparr>storyIngestionHandles := oset_insert sid (storyIngestionHandles ds)\<rparr>"

definition removeIngestionHandle :: "StoryId \<Rightarrow> KeeperDataStore \<Rightarrow> KeeperDataStore" where
  "removeIngestionHandle sid ds = ds\<lparr>storyIngestionHandles := filter (\<lambda>s. s \<noteq> sid) (storyIngestionHandles ds)\<rparr>"

text \<open>The two ends of \<^verbatim>\<open>ingestLogEvent\<close>; the handle may have gone, or come, before an event is made an orphan.\<close>

definition push_orphan :: "LogEvent \<Rightarrow> KeeperDataStore \<Rightarrow> KeeperDataStore" where
  "push_orphan e ds = ds\<lparr>orphanEventQueue := orphanEventQueue ds @ [e]\<rparr>"

definition ingestLogEvent :: "LogEvent \<Rightarrow> KeeperDataStore \<Rightarrow> KeeperDataStore option" where
  "ingestLogEvent e ds =
     (if hasStoryIngestionHandle (evStoryId e) ds
      then
        (case map_of (theMapOfStoryPipelines ds) (evStoryId e) of
           None \<Rightarrow> None
         | Some pl \<Rightarrow> Some (ds\<lparr>theMapOfStoryPipelines := omap_put (evStoryId e) (kp_ingestEvent e pl) (theMapOfStoryPipelines ds)\<rparr>))
      else Some (push_orphan e ds))"

fun drain_walk :: "LogEvent list \<Rightarrow> KeeperDataStore \<Rightarrow> KeeperDataStore option" where
  "drain_walk [] ds = Some ds"
| "drain_walk (e # es) ds = Option.bind (ingestLogEvent e ds) (drain_walk es)"

text \<open>Each orphan goes to its story's handle, or stays in its place.\<close>

definition drainOrphanEvents :: "KeeperDataStore \<Rightarrow> KeeperDataStore option" where
  "drainOrphanEvents ds = drain_walk (orphanEventQueue ds) (ds\<lparr>orphanEventQueue := []\<rparr>)"

definition queue_is_empty :: "KeeperDataStore \<Rightarrow> bool" where
  "queue_is_empty ds \<longleftrightarrow> orphanEventQueue ds = [] \<and> storyIngestionHandles ds = []"

definition orphanStoryIds :: "KeeperDataStore \<Rightarrow> StoryId list" where
  "orphanStoryIds ds = foldr (\<lambda>e. oset_insert (evStoryId e)) (orphanEventQueue ds) []"

definition extractOrphansForStory :: "StoryId \<Rightarrow> KeeperDataStore \<Rightarrow> LogEvent list \<times> KeeperDataStore" where
  "extractOrphansForStory sid ds =
     (filter (\<lambda>e. evStoryId e = sid) (orphanEventQueue ds),
      ds\<lparr>orphanEventQueue := filter (\<lambda>e. evStoryId e \<noteq> sid) (orphanEventQueue ds)\<rparr>)"

text \<open>\<^verbatim>\<open>shutDown\<close>: a last drain, and every handle is disengaged.\<close>

definition queue_shutDown :: "KeeperDataStore \<Rightarrow> KeeperDataStore option" where
  "queue_shutDown ds = map_option (\<lambda>ds'. ds'\<lparr>storyIngestionHandles := []\<rparr>) (drainOrphanEvents ds)"

section \<open>Starting and stopping a story\<close>

text \<open>\<^verbatim>\<open>addStoryPipeline\<close>; the pipeline's constructor has registered with the retention store even when it is not added.\<close>

definition addStoryPipeline ::
  "cpp_string \<Rightarrow> cpp_string \<Rightarrow> StoryId \<Rightarrow> u64 \<Rightarrow> KeeperDataStore \<Rightarrow> (KeeperStoryPipeline option \<times> KeeperDataStore \<times> tail_call list) option" where
  "addStoryPipeline chronicle story sid start_time ds =
     (case new_KeeperStoryPipeline chronicle story sid start_time (story_chunk_duration_secs ds) (acceptance_window_secs ds) of
        None \<Rightarrow> None
      | Some (pl, calls) \<Rightarrow>
          (case map_of (theMapOfStoryPipelines ds) sid of
             Some _ \<Rightarrow> Some (None, ds, calls)
           | None \<Rightarrow>
               Some (Some pl,
                 addStoryIngestionHandle sid
                   (ds\<lparr>theMapOfStoryPipelines := omap_put sid pl (theMapOfStoryPipelines ds)\<rparr>), calls)))"

definition startStoryRecording ::
  "cpp_string \<Rightarrow> cpp_string \<Rightarrow> StoryId \<Rightarrow> u64 \<Rightarrow> KeeperDataStore \<Rightarrow> (cl_status \<times> KeeperDataStore \<times> tail_call list) option" where
  "startStoryRecording chronicle story sid start_time ds =
     (case map_of (theMapOfStoryPipelines ds) sid of
        Some _ \<Rightarrow>
          Some (CL_SUCCESS,
            ds\<lparr>pipelinesWaitingForExit := omap_erase sid (pipelinesWaitingForExit ds),
               startedByDurableWrite := filter (\<lambda>s. s \<noteq> sid) (startedByDurableWrite ds)\<rparr>,
            [ClearDroppedStory sid])
      | None \<Rightarrow>
          map_option (\<lambda>(pl, ds', calls). (if pl = None then CL_ERR_UNKNOWN else CL_SUCCESS, ds', ClearDroppedStory sid # calls))
            (addStoryPipeline chronicle story sid start_time ds))"

definition ensureStoryPipeline ::
  "u64 \<Rightarrow> cpp_string \<Rightarrow> cpp_string \<Rightarrow> StoryId \<Rightarrow> KeeperDataStore \<Rightarrow> (cl_status \<times> KeeperDataStore \<times> tail_call list) option" where
  "ensureStoryPipeline current_time chronicle story sid ds =
     (if map_of (theMapOfStoryPipelines ds) sid \<noteq> None then Some (CL_SUCCESS, ds, [])
      else if \<not> acceptingPipelines ds then Some (CL_ERR_UNKNOWN, ds, [])
      else
        (case addStoryPipeline chronicle story sid current_time ds of
           None \<Rightarrow> None
         | Some (None, ds', calls) \<Rightarrow> Some (CL_ERR_UNKNOWN, ds', calls)
         | Some (Some pl, ds', calls) \<Rightarrow>
             Some (CL_SUCCESS,
               ds'\<lparr>pipelinesWaitingForExit := omap_put sid (current_time + kp_acceptanceWindow pl) (pipelinesWaitingForExit ds'),
                   startedByDurableWrite := oset_insert sid (startedByDurableWrite ds')\<rparr>, calls)))"

definition stopStoryRecording :: "u64 \<Rightarrow> StoryId \<Rightarrow> KeeperDataStore \<Rightarrow> cl_status \<times> KeeperDataStore" where
  "stopStoryRecording now sid ds =
     (CL_SUCCESS,
      case map_of (theMapOfStoryPipelines ds) sid of
        None \<Rightarrow> ds
      | Some pl \<Rightarrow>
          ds\<lparr>pipelinesWaitingForExit := omap_put sid (now + kp_acceptanceWindow pl) (pipelinesWaitingForExit ds),
             startedByDurableWrite := filter (\<lambda>s. s \<noteq> sid) (startedByDurableWrite ds)\<rparr>)"

section \<open>Collection and decay\<close>

text \<open>An operation on each pipeline of the map in turn.\<close>

fun each_pipeline ::
  "(KeeperStoryPipeline \<Rightarrow> (KeeperStoryPipeline \<times> tail_call list) option) \<Rightarrow> (StoryId, KeeperStoryPipeline) omap \<Rightarrow>
     ((StoryId, KeeperStoryPipeline) omap \<times> tail_call list) option" where
  "each_pipeline f [] = Some ([], [])"
| "each_pipeline f ((sid, pl) # m) =
     (case f pl of
        None \<Rightarrow> None
      | Some (pl', calls) \<Rightarrow> map_option (\<lambda>(m', calls'). ((sid, pl') # m', calls @ calls')) (each_pipeline f m))"

definition on_pipelines ::
  "(KeeperStoryPipeline \<Rightarrow> (KeeperStoryPipeline \<times> tail_call list) option) \<Rightarrow> KeeperDataStore \<Rightarrow>
     (KeeperDataStore \<times> tail_call list) option" where
  "on_pipelines f ds =
     map_option (\<lambda>(m, calls). (ds\<lparr>theMapOfStoryPipelines := m\<rparr>, calls)) (each_pipeline f (theMapOfStoryPipelines ds))"

text \<open>\<^verbatim>\<open>collectIngestedEvents\<close>: the orphans first, then under the store's mutex the pipelines.\<close>

definition ds_collect_pipelines :: "u64 \<Rightarrow> KeeperDataStore \<Rightarrow> (KeeperDataStore \<times> tail_call list) option" where
  "ds_collect_pipelines now ds = on_pipelines (kp_collectIngestedEvents now) ds"

definition ds_collectIngestedEvents :: "u64 \<Rightarrow> KeeperDataStore \<Rightarrow> (KeeperDataStore \<times> tail_call list) option" where
  "ds_collectIngestedEvents now ds = Option.bind (drainOrphanEvents ds) (ds_collect_pipelines now)"

definition ds_extractDecayedStoryChunks :: "u64 \<Rightarrow> KeeperDataStore \<Rightarrow> (KeeperDataStore \<times> tail_call list) option" where
  "ds_extractDecayedStoryChunks current_time ds = on_pipelines (kp_extractDecayedStoryChunks current_time) ds"

section \<open>Retirement\<close>

text \<open>One waiting entry: its exit time has not come, or it is moved past the last arrival, or the pipeline goes.\<close>

definition retire_entry :: "u64 \<Rightarrow> StoryId \<times> u64 \<Rightarrow> KeeperDataStore \<Rightarrow> (KeeperDataStore \<times> tail_call list) option" where
  "retire_entry current_time entry ds =
     (if current_time < snd entry then Some (ds, [])
      else
        (case map_of (theMapOfStoryPipelines ds) (fst entry) of
           None \<Rightarrow> None
         | Some pl \<Rightarrow>
             let sid = kp_storyId pl; kept_until = kp_lastArrival pl + kp_acceptanceWindow pl in
             if acceptingPipelines ds \<and> sid \<in> set (startedByDurableWrite ds) \<and> current_time < kept_until
             then Some (ds\<lparr>pipelinesWaitingForExit := omap_put (fst entry) kept_until (pipelinesWaitingForExit ds)\<rparr>, [])
             else
               map_option
                 (\<lambda>calls.
                   (removeIngestionHandle sid
                      (ds\<lparr>startedByDurableWrite := filter (\<lambda>s. s \<noteq> sid) (startedByDurableWrite ds),
                          retiredStoryNames := omap_put sid (kp_chronicleName pl, kp_storyName pl) (retiredStoryNames ds),
                          theMapOfStoryPipelines := omap_erase sid (theMapOfStoryPipelines ds),
                          pipelinesWaitingForExit := omap_erase (fst entry) (pipelinesWaitingForExit ds)\<rparr>),
                    calls @ [ReleaseStoryTail sid]))
                 (delete_KeeperStoryPipeline current_time pl)))"

fun retire_walk :: "u64 \<Rightarrow> (StoryId, u64) omap \<Rightarrow> KeeperDataStore \<Rightarrow> (KeeperDataStore \<times> tail_call list) option" where
  "retire_walk current_time [] ds = Some (ds, [])"
| "retire_walk current_time (entry # entries) ds =
     (case retire_entry current_time entry ds of
        None \<Rightarrow> None
      | Some (ds', calls) \<Rightarrow> map_option (\<lambda>(ds'', calls'). (ds'', calls @ calls')) (retire_walk current_time entries ds'))"

definition retire_pipelines :: "u64 \<Rightarrow> KeeperDataStore \<Rightarrow> (KeeperDataStore \<times> tail_call list) option" where
  "retire_pipelines current_time ds =
     (if theMapOfStoryPipelines ds = [] then Some (ds, []) else retire_walk current_time (pipelinesWaitingForExit ds) ds)"

text \<open>
  Late events of a retired story leave the orphan queue in a recovery chunk. The chunk ends one past the latest
  event's time, which wraps at 64 bits; an event the chunk does not take is dropped.
\<close>

definition recovery_chunk :: "cpp_string \<times> cpp_string \<Rightarrow> StoryId \<Rightarrow> LogEvent list \<Rightarrow> StoryChunk" where
  "recovery_chunk names sid orphans =
     (let ts = map eventTime orphans; c = new_StoryChunk (fst names) (snd names) sid (foldr min ts (hd ts)) (foldr max ts (hd ts) + 1)
      in fold (\<lambda>e c. snd (insertEvent c e)) orphans c)"

definition seal_orphans_of :: "StoryId \<Rightarrow> KeeperDataStore \<Rightarrow> KeeperDataStore \<times> tail_call list" where
  "seal_orphans_of sid ds =
     (if map_of (theMapOfStoryPipelines ds) sid \<noteq> None then (ds, [])
      else
        (case map_of (retiredStoryNames ds) sid of
           None \<Rightarrow> (ds, [])
         | Some names \<Rightarrow>
             (case extractOrphansForStory sid ds of
                (orphans, ds') \<Rightarrow>
                  if orphans = [] then (ds', [])
                  else
                    let c = recovery_chunk names sid orphans in
                    (ds', if chunk_empty c then [] else [IngestSealedChunk sid c, ReleaseStoryTail sid]))))"

fun seal_orphans :: "StoryId list \<Rightarrow> KeeperDataStore \<Rightarrow> KeeperDataStore \<times> tail_call list" where
  "seal_orphans [] ds = (ds, [])"
| "seal_orphans (sid # sids) ds =
     (case seal_orphans_of sid ds of
        (ds', calls) \<Rightarrow> (case seal_orphans sids ds' of (ds'', calls') \<Rightarrow> (ds'', calls @ calls')))"

text \<open>\<^verbatim>\<open>sealOrphanedEvents\<close>: the story ids are read before the store's mutex is taken.\<close>

definition sealOrphanedEvents :: "KeeperDataStore \<Rightarrow> KeeperDataStore \<times> tail_call list" where
  "sealOrphanedEvents ds = seal_orphans (orphanStoryIds ds) ds"

definition retireDecayedPipelines :: "u64 \<Rightarrow> KeeperDataStore \<Rightarrow> (KeeperDataStore \<times> tail_call list) option" where
  "retireDecayedPipelines current_time ds =
     map_option (\<lambda>(ds1, calls). case sealOrphanedEvents ds1 of (ds2, calls') \<Rightarrow> (ds2, calls @ calls'))
       (retire_pipelines current_time ds)"

section \<open>Replay of the write-ahead log\<close>

text \<open>
  The id of a recovered story; the hash of its names is an argument. A placed event's record is moved into the chunk.
  The fold carries the chunk that is being filled.
\<close>

definition recoveredStoryId :: "(cpp_string \<Rightarrow> cpp_string \<Rightarrow> StoryId) \<Rightarrow> RecoveredStory \<Rightarrow> StoryId" where
  "recoveredStoryId storyIdOf story = (if has_names story then storyIdOf (rec_chronicle story) (rec_story story) else wal_story_id story)"

definition hand_over :: "StoryId \<Rightarrow> StoryChunk \<Rightarrow> tail_call list" where
  "hand_over sid c = (if chunk_empty c then [] else [IngestSealedChunk sid c])"

definition aligned_chunk :: "u64 \<Rightarrow> RecoveredStory \<Rightarrow> StoryId \<Rightarrow> u64 \<Rightarrow> StoryChunk" where
  "aligned_chunk chunk_duration story sid t =
     (let start_time = t - t mod chunk_duration
      in new_StoryChunk (rec_chronicle story) (rec_story story) sid start_time (start_time + chunk_duration))"

fun replay_events ::
  "u64 \<Rightarrow> RecoveredStory \<Rightarrow> StoryId \<Rightarrow> (EventSequence, LogEvent) omap \<Rightarrow> StoryChunk option \<Rightarrow>
     (EventSequence, LogEvent) omap \<times> tail_call list" where
  "replay_events chunk_duration story sid [] chunk = ([], case chunk of None \<Rightarrow> [] | Some c \<Rightarrow> hand_over sid c)"
| "replay_events chunk_duration story sid ((sq, e) # es) chunk =
     (let past = (case chunk of None \<Rightarrow> False | Some c \<Rightarrow> endTime c \<le> eventTime e);
          given = (case chunk of Some c \<Rightarrow> if past then hand_over sid c else [] | None \<Rightarrow> []);
          c = (case chunk of Some c \<Rightarrow> if past then aligned_chunk chunk_duration story sid (eventTime e) else c
               | None \<Rightarrow> aligned_chunk chunk_duration story sid (eventTime e));
          e' = e\<lparr>evStoryId := sid\<rparr>
      in (case insertEvent c e' of
            (n, c') \<Rightarrow>
              (case replay_events chunk_duration story sid es (Some c') of
                 (rest, calls) \<Rightarrow>
                   ((sq, if n = 0 then e' else e'\<lparr>logRecord := []\<rparr>) # rest,
                    given @ (if n = 0 then [EventDiscarded sid sq] else []) @ calls))))"

definition replay_story ::
  "(cpp_string \<Rightarrow> cpp_string \<Rightarrow> StoryId) \<Rightarrow> u64 \<Rightarrow> RecoveredStory \<Rightarrow> RecoveredStory \<times> tail_call list" where
  "replay_story storyIdOf chunk_duration story =
     (if rec_events story = [] \<or> \<not> has_names story then (story, [])
      else
        let sid = recoveredStoryId storyIdOf story in
        (case replay_events chunk_duration story sid (rec_events story) None of
           (es, calls) \<Rightarrow> (story\<lparr>rec_events := es\<rparr>, calls @ [ReleaseStoryTail sid])))"

definition handed_over :: "tail_call list \<Rightarrow> nat" where
  "handed_over calls = length (filter (\<lambda>c. case c of IngestSealedChunk _ _ \<Rightarrow> True | _ \<Rightarrow> False) calls)"

text \<open>The number of chunks handed over, the state with its records moved, and the calls.\<close>

definition replayRecoveredEvents ::
  "(cpp_string \<Rightarrow> cpp_string \<Rightarrow> StoryId) \<Rightarrow> KeeperDataStore \<Rightarrow> RecoveredState \<Rightarrow> nat \<times> RecoveredState \<times> tail_call list" where
  "replayRecoveredEvents storyIdOf ds recovered =
     (let chunk_duration = ucast (max (story_chunk_duration_secs ds) 1) * 1000000000;
          replayed = map (\<lambda>(wsid, story). (wsid, replay_story storyIdOf chunk_duration story)) (rec_stories recovered);
          calls = concat (map (\<lambda>p. snd (snd p)) replayed)
      in (handed_over calls, recovered\<lparr>rec_stories := map (\<lambda>p. (fst p, fst (snd p))) replayed\<rparr>, calls))"

section \<open>The collection task\<close>

definition startDataCollection :: "KeeperDataStore \<Rightarrow> KeeperDataStore" where
  "startDataCollection ds =
     (if ds_state ds = StateRunning \<or> ds_state ds = StateShuttingDown then ds else ds\<lparr>ds_state := StateRunning\<rparr>)"

text \<open>Closing the store to new pipelines, and labelling those that are not yet waiting.\<close>

definition label_waiting :: "u64 \<Rightarrow> StoryId \<times> KeeperStoryPipeline \<Rightarrow> (StoryId, u64) omap \<Rightarrow> (StoryId, u64) omap" where
  "label_waiting current_time p waiting =
     (case map_of waiting (fst p) of
        Some _ \<Rightarrow> waiting
      | None \<Rightarrow> omap_put (fst p) (current_time + kp_acceptanceWindow (snd p)) waiting)"

text \<open>\<^verbatim>\<open>shutdownDataCollection\<close> up to the joins of the collection threads.\<close>

definition shutdownDataCollection :: "u64 \<Rightarrow> KeeperDataStore \<Rightarrow> KeeperDataStore" where
  "shutdownDataCollection current_time ds =
     (if ds_state ds = StateShuttingDown then ds
      else
        ds\<lparr>acceptingPipelines := False, ds_state := StateShuttingDown,
           pipelinesWaitingForExit := fold (label_waiting current_time) (theMapOfStoryPipelines ds) (pipelinesWaitingForExit ds)\<rparr>)"

text \<open>The condition of the task's loop, and one round of it, with the clock read three times.\<close>

definition collection_goes_on :: "KeeperDataStore \<Rightarrow> bool" where
  "collection_goes_on ds \<longleftrightarrow> ds_state ds \<noteq> StateShuttingDown \<or> \<not> queue_is_empty ds \<or> theMapOfStoryPipelines ds \<noteq> []"

definition collection_round :: "u64 \<Rightarrow> u64 \<Rightarrow> u64 \<Rightarrow> KeeperDataStore \<Rightarrow> (KeeperDataStore \<times> tail_call list) option" where
  "collection_round t1 t2 t3 ds =
     Option.bind (ds_collectIngestedEvents t1 ds) (\<lambda>(ds1, calls1).
     Option.bind (ds_extractDecayedStoryChunks t2 ds1) (\<lambda>(ds2, calls2).
     Option.bind (retireDecayedPipelines t3 ds2) (\<lambda>(ds3, calls3).
       Some (ds3, calls1 @ calls2 @ calls3 @ [RequeueStalled (watermark_resend_timeout_secs ds), FreeDurableChunks]))))"

section \<open>The invariant of a store\<close>

text \<open>
  The clock is read below \<open>2 ^ 62\<close> ns (the year 2116), and the configured durations are below \<open>2 ^ 56\<close> ns (two years): the timelines then stay
  below \<open>clock_bound\<close>, where no sum the pipelines form wraps.
\<close>

definition clock_bound :: nat where
  "clock_bound = 2 ^ 62 + 3 * 2 ^ 56"

definition clock_ok :: "u64 \<Rightarrow> bool" where
  "clock_ok t \<longleftrightarrow> unat t < 2 ^ 62"

definition durations_ok :: "KeeperDataStore \<Rightarrow> bool" where
  "durations_ok ds \<longleftrightarrow> story_chunk_duration_secs ds \<noteq> 0 \<and> unat (story_chunk_duration_secs ds) * 1000000000 \<le> 2 ^ 56 \<and>
     unat (acceptance_window_secs ds) * 1000000000 \<le> 2 ^ 56"

definition waits_in :: "StoryId \<Rightarrow> LogEvent \<Rightarrow> bool" where
  "waits_in sid e \<longleftrightarrow> evStoryId e = sid \<and> clock_ok (eventTime e)"

definition pl_inv :: "u32 \<Rightarrow> StoryId \<Rightarrow> KeeperStoryPipeline \<Rightarrow> bool" where
  "pl_inv duration sid pl \<longleftrightarrow> kp_ok pl \<and> kp_storyId pl = sid \<and> kp_chunkGranularity pl = ucast duration * 1000000000 \<and>
     2 \<le> length (kp_timeline pl) \<and> kp_within clock_bound pl \<and>
     (\<forall>e\<in>set (kp_activeDeque pl) \<union> set (kp_passiveDeque pl). waits_in sid e)"

abbreviation ds_pipeline :: "KeeperDataStore \<Rightarrow> StoryId \<rightharpoonup> KeeperStoryPipeline" where
  "ds_pipeline ds \<equiv> map_of (theMapOfStoryPipelines ds)"

definition ds_inv :: "KeeperDataStore \<Rightarrow> bool" where
  "ds_inv ds \<longleftrightarrow> durations_ok ds \<and> omap_ok (theMapOfStoryPipelines ds) \<and> omap_ok (pipelinesWaitingForExit ds) \<and>
     set (storyIngestionHandles ds) = dom (ds_pipeline ds) \<and> dom (map_of (pipelinesWaitingForExit ds)) \<subseteq> dom (ds_pipeline ds) \<and>
     (\<forall>sid pl. ds_pipeline ds sid = Some pl \<longrightarrow> pl_inv (story_chunk_duration_secs ds) sid pl) \<and>
     (\<forall>e\<in>set (orphanEventQueue ds). clock_ok (eventTime e))"

lemma granularity_bound:
  assumes "unat duration * 1000000000 \<le> 2 ^ 56"
  shows "unat (ucast (duration :: u32) * 1000000000 :: u64) \<le> 2 ^ 56"
  using assms by (simp add: unat_word_ariths unsigned_ucast_eq take_bit_nat_eq_self)

text \<open>What a pipeline needs of the clock, from the invariant.\<close>

lemma pl_inv_room:
  assumes "pl_inv d sid pl" "unat d * 1000000000 \<le> 2 ^ 56"
  shows "kp_room pl (kp_passiveDeque pl @ kp_activeDeque pl)" "kp_room pl (kp_collected pl)"
    "kp_times_within clock_bound pl (kp_collected pl)"
    "clock_ok now \<Longrightarrow> unat now + 2 * unat (kp_chunkGranularity pl) \<le> clock_bound"
proof -
  have g: "unat (kp_chunkGranularity pl) \<le> 2 ^ 56" using assms granularity_bound [of d] by (simp add: pl_inv_def)
  have t: "unat (eventTime e) + unat (kp_chunkGranularity pl) \<le> 2 ^ 62 + 2 ^ 56"
    if "e \<in> set (kp_activeDeque pl) \<union> set (kp_passiveDeque pl)" for e
  proof -
    have "unat (eventTime e) < 2 ^ 62" using assms(1) that by (auto simp: pl_inv_def waits_in_def clock_ok_def)
    with g show ?thesis by linarith
  qed
  then show "kp_room pl (kp_passiveDeque pl @ kp_activeDeque pl)" "kp_room pl (kp_collected pl)"
    "kp_times_within clock_bound pl (kp_collected pl)"
    by (fastforce simp: kp_room_def kp_times_within_def kp_collected_def clock_bound_def split: if_splits)+
  show "clock_ok now \<Longrightarrow> unat now + 2 * unat (kp_chunkGranularity pl) \<le> clock_bound"
    using g by (simp add: clock_ok_def clock_bound_def)
qed

section \<open>Where an event is\<close>

definition kp_keeps :: "KeeperStoryPipeline \<Rightarrow> LogEvent \<Rightarrow> bool" where
  "kp_keeps pl e \<longleftrightarrow> e \<in> set (kp_activeDeque pl) \<union> set (kp_passiveDeque pl) \<or> event_sequence e \<in> dom (kp_events pl)"

definition handed_on :: "tail_call list \<Rightarrow> LogEvent \<Rightarrow> bool" where
  "handed_on calls e \<longleftrightarrow> (\<exists>c. IngestSealedChunk (evStoryId e) c \<in> set calls \<and> event_sequence e \<in> dom (events_of c))"

lemma handed_on_mono: "handed_on calls e \<Longrightarrow> set calls \<subseteq> set calls' \<Longrightarrow> handed_on calls' e"
  by (auto simp: handed_on_def)

lemma handed_on_sealed:
  "evStoryId e = sid \<Longrightarrow> event_sequence e \<in> dom (map_of (concat (map logEvents cs))) \<Longrightarrow> handed_on (sealed sid cs) e"
  unfolding dom_concat_events handed_on_def sealed_def by (fastforce simp: seal_chunk_def)

lemma collect_pl_inv:
  assumes inv: "pl_inv d sid pl" and d: "unat d * 1000000000 \<le> 2 ^ 56"
    and ret: "kp_collectIngestedEvents now pl = Some (pl', calls)"
  shows "pl_inv d sid pl'"
    and "kp_keeps pl e \<Longrightarrow> evStoryId e = sid \<Longrightarrow> logRecord e \<noteq> [] \<Longrightarrow> kp_keeps pl' e"
proof -
  note room = pl_inv_room [OF inv d]
  have ok: "kp_ok pl" and sid: "kp_storyId pl = sid" using inv by (simp_all add: pl_inv_def)
  have step: "kp_ok pl'" "kp_storyId pl' = kp_storyId pl" "kp_chunkGranularity pl' = kp_chunkGranularity pl"
    "kp_passiveDeque pl' = []" "kp_activeDeque pl' = (if kp_passiveDeque pl = [] then [] else kp_activeDeque pl)"
    "length (kp_timeline pl) \<le> length (kp_timeline pl')"
    "kp_events pl' = placed sid (kp_collected pl) ++ kp_events pl" "kp_stays_within (kp_collected pl) pl pl'"
    using kp_collect_step [OF ok room(2), of now] ret sid by auto
  show "pl_inv d sid pl'"
    using inv step room(3) by (auto simp: pl_inv_def kp_stays_within_def)
  show "kp_keeps pl' e" if "kp_keeps pl e" "evStoryId e = sid" "logRecord e \<noteq> []"
  proof (cases "e \<in> set (kp_collected pl)")
    case True
    then have "event_sequence e \<in> dom (placed sid (kp_collected pl))"
      using that(2,3) by (auto simp: dom_placed kp_takes_def)
    then show ?thesis by (simp add: kp_keeps_def step(7))
  next
    case False
    then show ?thesis using that(1) by (auto simp: kp_keeps_def kp_collected_def step(4,5,7) split: if_splits)
  qed
qed

lemma extract_pl_inv:
  assumes inv: "pl_inv d sid pl" and d: "unat d * 1000000000 \<le> 2 ^ 56" and now: "clock_ok now"
    and ret: "kp_extractDecayedStoryChunks now pl = Some (pl', calls)"
  shows "pl_inv d sid pl'" and "kp_keeps pl e \<Longrightarrow> evStoryId e = sid \<Longrightarrow> kp_keeps pl' e \<or> handed_on calls e"
proof -
  have ok: "kp_ok pl" "2 \<le> length (kp_timeline pl)" "kp_within clock_bound pl" and sid: "kp_storyId pl = sid"
    using inv by (simp_all add: pl_inv_def)
  have big: "2 * clock_bound + 3000 < 2 ^ 64" by (simp add: clock_bound_def)
  have loop: "kp_extract_loop now pl [] = Some (pl', calls)" using ret by (simp add: kp_extractDecayedStoryChunks_def)
  have res: "extract_result clock_bound pl pl' calls"
    using kp_extract_partial [OF loop ok big pl_inv_room(4) [OF inv d now]] by simp
  then obtain out where
    out: "calls = sealed sid out" "kp_frame pl pl'"
      "concat (map logEvents out) @ timeline_events (kp_timeline pl') = timeline_events (kp_timeline pl)"
    using sid by (auto simp: extract_result_def)
  note fr = kp_frameD [OF out(2)]
  show "pl_inv d sid pl'" using inv res fr by (simp add: pl_inv_def extract_result_def)
  show "kp_keeps pl' e \<or> handed_on calls e" if "kp_keeps pl e" "evStoryId e = sid"
  proof (cases "event_sequence e \<in> dom (kp_events pl)")
    case True
    then have "event_sequence e \<in> dom (map_of (concat (map logEvents out))) \<or> event_sequence e \<in> dom (kp_events pl')"
      unfolding out(3) [symmetric] map_of_append dom_map_add by blast
    then show ?thesis using handed_on_sealed [OF that(2)] by (auto simp: kp_keeps_def out(1))
  next
    case False
    then show ?thesis using that(1) fr by (auto simp: kp_keeps_def)
  qed
qed

lemma delete_hands_on:
  assumes inv: "pl_inv d sid pl" and d: "unat d * 1000000000 \<le> 2 ^ 56"
    and ret: "delete_KeeperStoryPipeline now pl = Some calls"
    and e: "kp_keeps pl e" "evStoryId e = sid" "logRecord e \<noteq> []"
  shows "handed_on calls e"
proof -
  have ok: "kp_ok pl" and sid: "kp_storyId pl = sid" using inv by (simp_all add: pl_inv_def)
  from kp_finalize_step [OF ok pl_inv_room(1) [OF inv d], of now] sid obtain pl' cs where
    fin: "kp_finalize now pl = Some (pl', discards sid (kp_passiveDeque pl) @ discards sid (kp_activeDeque pl) @ sealed sid cs)"
    and ev: "map_of (concat (map logEvents cs)) = placed sid (kp_activeDeque pl) ++ (placed sid (kp_passiveDeque pl) ++ kp_events pl)"
    by blast
  have cs: "set (sealed sid cs) \<subseteq> set calls" using fin ret by (auto simp: delete_KeeperStoryPipeline_def)
  have "event_sequence e \<in> dom (map_of (concat (map logEvents cs)))"
    unfolding ev using e by (auto simp: kp_keeps_def dom_placed kp_takes_def)
  from handed_on_mono [OF handed_on_sealed [OF e(2) this] cs] show ?thesis .
qed

section \<open>Conservation, one operation at a time\<close>

definition ds_keeps :: "KeeperDataStore \<Rightarrow> LogEvent \<Rightarrow> bool" where
  "ds_keeps ds e \<longleftrightarrow> e \<in> set (orphanEventQueue ds) \<or> (\<exists>pl. ds_pipeline ds (evStoryId e) = Some pl \<and> kp_keeps pl e)"

text \<open>
  An operation that takes the events \<open>es\<close> in and makes the calls: the invariant holds afterwards, and an event with a
  record that was taken in or was held is held, or is in a chunk handed on under its story.
\<close>

definition conserves :: "KeeperDataStore \<Rightarrow> LogEvent list \<Rightarrow> tail_call list \<Rightarrow> KeeperDataStore \<Rightarrow> bool" where
  "conserves ds es calls ds' \<longleftrightarrow> ds_inv ds' \<and>
     (\<forall>e. logRecord e \<noteq> [] \<longrightarrow> e \<in> set es \<or> ds_keeps ds e \<longrightarrow> ds_keeps ds' e \<or> handed_on calls e)"

lemma conserves_refl: "ds_inv ds \<Longrightarrow> conserves ds [] calls ds"
  by (simp add: conserves_def)

lemma conserves_inv: "conserves ds es calls ds' \<Longrightarrow> ds_inv ds'"
  by (simp add: conserves_def)

lemma conserves_trans:
  assumes "conserves ds es calls ds1" "conserves ds1 es' calls' ds2"
  shows "conserves ds (es @ es') (calls @ calls') ds2"
proof -
  have "handed_on calls e \<or> handed_on calls' e \<Longrightarrow> handed_on (calls @ calls') e" for e
    using handed_on_mono by fastforce
  with assms show ?thesis by (simp add: conserves_def) blast
qed

lemma ds_invD:
  assumes "ds_inv ds"
  shows "durations_ok ds" "omap_ok (theMapOfStoryPipelines ds)" "omap_ok (pipelinesWaitingForExit ds)"
    "unat (story_chunk_duration_secs ds) * 1000000000 \<le> 2 ^ 56"
    "ds_pipeline ds sid = Some pl \<Longrightarrow> pl_inv (story_chunk_duration_secs ds) sid pl"
  using assms by (simp_all add: ds_inv_def durations_ok_def)

text \<open>Ingestion.\<close>

lemma push_orphan_conserves:
  assumes "ds_inv ds" "clock_ok (eventTime e)"
  shows "conserves ds [e] [] (push_orphan e ds)"
  using assms by (auto simp: conserves_def push_orphan_def ds_inv_def ds_keeps_def durations_ok_def)

lemma kp_ingest_same [simp]:
  "kp_ok (kp_ingestEvent e pl) = kp_ok pl" "kp_within b (kp_ingestEvent e pl) = kp_within b pl"
  "kp_timeline (kp_ingestEvent e pl) = kp_timeline pl" "kp_storyId (kp_ingestEvent e pl) = kp_storyId pl"
  "kp_chunkGranularity (kp_ingestEvent e pl) = kp_chunkGranularity pl"
  "kp_passiveDeque (kp_ingestEvent e pl) = kp_passiveDeque pl"
  "kp_activeDeque (kp_ingestEvent e pl) = kp_activeDeque pl @ [e]"
  by (simp_all add: kp_ingestEvent_def kp_ok_def kp_within_def kp_TimelineEnd_def)

lemma ingest_conserves:
  assumes inv: "ds_inv ds" and t: "clock_ok (eventTime e)" and ret: "ingestLogEvent e ds = Some ds'"
  shows "conserves ds [e] [] ds'"
proof (cases "hasStoryIngestionHandle (evStoryId e) ds")
  case True
  with ret obtain pl where pl: "ds_pipeline ds (evStoryId e) = Some pl"
    and ds': "ds' = ds\<lparr>theMapOfStoryPipelines := omap_put (evStoryId e) (kp_ingestEvent e pl) (theMapOfStoryPipelines ds)\<rparr>"
    by (auto simp: ingestLogEvent_def split: option.splits)
  have "pl_inv (story_chunk_duration_secs ds) (evStoryId e) (kp_ingestEvent e pl)"
    using ds_invD(5) [OF inv pl] t
    by (simp add: pl_inv_def waits_in_def)
  then have "ds_inv ds'"
    using inv pl unfolding ds' by (auto simp: ds_inv_def durations_ok_def omap_simps)
  moreover have "kp_keeps (kp_ingestEvent e pl) e'" if "kp_keeps pl e' \<or> e' = e" for e'
    using that by (auto simp: kp_keeps_def)
  ultimately show ?thesis
    using pl by (auto simp: conserves_def ds_keeps_def ds' omap_simps)
next
  case False
  with ret push_orphan_conserves [OF inv t] show ?thesis by (simp add: ingestLogEvent_def)
qed

lemma drain_walk_conserves:
  assumes "ds_inv ds" "\<forall>e\<in>set es. clock_ok (eventTime e)" "drain_walk es ds = Some ds'"
  shows "conserves ds es [] ds'"
  using assms
proof (induction es arbitrary: ds)
  case Nil
  then show ?case by (simp add: conserves_refl)
next
  case (Cons e es)
  from Cons.prems(3) obtain ds1 where ds1: "ingestLogEvent e ds = Some ds1" "drain_walk es ds1 = Some ds'"
    by (auto simp: Option.bind_eq_Some_conv)
  have one: "conserves ds [e] [] ds1" using Cons.prems ds1(1) by (intro ingest_conserves) simp_all
  have "conserves ds1 es [] ds'"
    using Cons.prems(2) by (intro Cons.IH [OF conserves_inv [OF one] _ ds1(2)]) simp
  from conserves_trans [OF one this] show ?case by simp
qed

lemma drain_conserves:
  assumes inv: "ds_inv ds" and ret: "drainOrphanEvents ds = Some ds'"
  shows "conserves ds [] [] ds'"
proof -
  let ?ds0 = "ds\<lparr>orphanEventQueue := []\<rparr>"
  have "ds_inv ?ds0" using inv by (auto simp: ds_inv_def durations_ok_def)
  moreover have "\<forall>e\<in>set (orphanEventQueue ds). clock_ok (eventTime e)" using inv by (simp add: ds_inv_def)
  ultimately have "conserves ?ds0 (orphanEventQueue ds) [] ds'"
    using ret unfolding drainOrphanEvents_def by (rule drain_walk_conserves)
  then show ?thesis by (auto simp: conserves_def ds_keeps_def)
qed

text \<open>Collection and decay.\<close>

lemma each_pipeline_lookup:
  "each_pipeline f m = Some (m', calls) \<Longrightarrow> map fst m' = map fst m \<and>
     (\<forall>sid pl'. map_of m' sid = Some pl' \<longrightarrow> (\<exists>pl cs. map_of m sid = Some pl \<and> f pl = Some (pl', cs) \<and> set cs \<subseteq> set calls))"
proof (induction f m arbitrary: m' calls rule: each_pipeline.induct)
  case (2 f sid pl m)
  from 2(2) obtain pl1 cs m1 calls1 where
    *: "f pl = Some (pl1, cs)" "each_pipeline f m = Some (m1, calls1)" "m' = (sid, pl1) # m1" "calls = cs @ calls1"
    by (auto split: option.splits)
  from 2(1) [OF *(1) refl *(2)] have IH: "map fst m1 = map fst m"
    "\<And>s p. map_of m1 s = Some p \<Longrightarrow> \<exists>q cs. map_of m s = Some q \<and> f q = Some (p, cs) \<and> set cs \<subseteq> set calls1" by auto
  have "\<exists>q cs. map_of ((sid, pl) # m) s = Some q \<and> f q = Some (p, cs) \<and> set cs \<subseteq> set calls"
    if "map_of m' s = Some p" for s p
  proof (cases "s = sid")
    case True
    with that * show ?thesis by auto
  next
    case False
    with IH(2) [of s p] that * show ?thesis by auto
  qed
  with IH(1) show ?case by (simp add: *(3))
qed simp

lemma on_pipelines_conserves:
  assumes inv: "ds_inv ds" and ret: "on_pipelines f ds = Some (ds', calls)"
    and keep: "\<And>sid pl pl' cs. ds_pipeline ds sid = Some pl \<Longrightarrow> f pl = Some (pl', cs) \<Longrightarrow>
      pl_inv (story_chunk_duration_secs ds) sid pl' \<and>
      (\<forall>e. kp_keeps pl e \<longrightarrow> evStoryId e = sid \<longrightarrow> logRecord e \<noteq> [] \<longrightarrow> kp_keeps pl' e \<or> handed_on cs e)"
  shows "conserves ds [] calls ds'"
proof -
  let ?m = "theMapOfStoryPipelines ds"
  from ret obtain m' where m': "each_pipeline f ?m = Some (m', calls)" and ds': "ds' = ds\<lparr>theMapOfStoryPipelines := m'\<rparr>"
    by (auto simp: on_pipelines_def)
  note look = each_pipeline_lookup [OF m']
  have dom: "dom (map_of m') = dom (map_of ?m)" using look dom_keys by blast
  have ok': "omap_ok m'" using ds_invD(2) [OF inv] look by (simp add: omap_ok_def)
  have "\<forall>sid pl'. map_of m' sid = Some pl' \<longrightarrow> pl_inv (story_chunk_duration_secs ds) sid pl'" using look keep by blast
  with inv ok' dom have inv': "ds_inv ds'" unfolding ds' by (simp add: ds_inv_def durations_ok_def)
  have "ds_keeps ds' e \<or> handed_on calls e" if "logRecord e \<noteq> []" "ds_keeps ds e" for e
  proof (cases "e \<in> set (orphanEventQueue ds)")
    case True
    then show ?thesis by (simp add: ds_keeps_def ds')
  next
    case False
    with that(2) obtain pl where pl: "ds_pipeline ds (evStoryId e) = Some pl" "kp_keeps pl e" by (auto simp: ds_keeps_def)
    then obtain pl' where pl': "map_of m' (evStoryId e) = Some pl'" using dom by blast
    with look pl(1) obtain cs where cs: "f pl = Some (pl', cs)" "set cs \<subseteq> set calls" by fastforce
    from keep [OF pl(1) cs(1)] pl(2) that(1) have "kp_keeps pl' e \<or> handed_on cs e" by blast
    then show ?thesis using pl' cs(2) handed_on_mono by (auto simp: ds_keeps_def ds')
  qed
  with inv' show ?thesis by (simp add: conserves_def)
qed

lemma collect_conserves:
  assumes inv: "ds_inv ds" and ret: "ds_collect_pipelines now ds = Some (ds', calls)"
  shows "conserves ds [] calls ds'"
  using collect_pl_inv [OF ds_invD(5) [OF inv] ds_invD(4) [OF inv]]
  by (intro on_pipelines_conserves [OF inv ret [unfolded ds_collect_pipelines_def]]) blast

lemma extract_conserves:
  assumes inv: "ds_inv ds" and now: "clock_ok now" and ret: "ds_extractDecayedStoryChunks now ds = Some (ds', calls)"
  shows "conserves ds [] calls ds'"
  using extract_pl_inv [OF ds_invD(5) [OF inv] ds_invD(4) [OF inv] now]
  by (intro on_pipelines_conserves [OF inv ret [unfolded ds_extractDecayedStoryChunks_def]]) blast

text \<open>Starting and stopping a story.\<close>

lemma new_pipeline_inv:
  assumes d: "durations_ok ds" and t: "clock_ok t"
    and new: "new_KeeperStoryPipeline chronicle story sid t (story_chunk_duration_secs ds) (acceptance_window_secs ds) = Some (pl, calls)"
  shows "pl_inv (story_chunk_duration_secs ds) sid pl" and "handed_on calls e \<Longrightarrow> False"
proof -
  let ?d = "story_chunk_duration_secs ds" and ?w = "acceptance_window_secs ds"
  have n: "?d \<noteq> 0" "unat ?d * 1000000000 \<le> 2 ^ 56" "unat ?w * 1000000000 \<le> 2 ^ 56" "unat t < 2 ^ 62"
    using d t by (simp_all add: durations_ok_def clock_ok_def)
  then have room: "unat t + 3 * (unat ?d * 1000000000) < 2 ^ 64" by simp
  have pl: "kp_ok pl" "length (kp_timeline pl) = 3" "kp_TimelineStart pl \<le> t" "kp_storyId pl = sid"
    "kp_chunkGranularity pl = ucast ?d * 1000000000" "kp_acceptanceWindow pl = ucast ?w * 1000000000"
    "kp_activeDeque pl = []" "kp_passiveDeque pl = []" "calls = [RegisterActiveSource sid]"
    using new_KeeperStoryPipeline_step [OF n(1) room, of chronicle story sid ?w] new by auto
  have "unat (kp_TimelineStart pl) < 2 ^ 62" using pl(3) n(4) by (simp add: word_le_nat_alt)
  then have "unat (kp_TimelineEnd pl) \<le> clock_bound"
    using kp_timeline_length [OF pl(1)] pl(2,5) granularity_bound [OF n(2)] by (simp add: clock_bound_def)
  moreover have "unat (kp_acceptanceWindow pl) \<le> clock_bound"
    using granularity_bound [OF n(3)] unfolding pl(6) by (rule order_trans) (simp add: clock_bound_def)
  ultimately show "pl_inv ?d sid pl" using pl by (simp add: pl_inv_def kp_within_def)
  show "handed_on calls e \<Longrightarrow> False" by (simp add: pl(9) handed_on_def)
qed

lemma add_conserves:
  assumes inv: "ds_inv ds" and t: "clock_ok t" and ret: "addStoryPipeline chronicle story sid t ds = Some (r, ds', calls)"
  shows "conserves ds [] calls ds'" and "r = Some pl \<Longrightarrow> ds_pipeline ds' sid = Some pl"
proof -
  from ret obtain pl where
    new: "new_KeeperStoryPipeline chronicle story sid t (story_chunk_duration_secs ds) (acceptance_window_secs ds) = Some (pl, calls)"
    by (auto simp: addStoryPipeline_def split: option.splits)
  show "conserves ds [] calls ds'"
  proof (cases "ds_pipeline ds sid")
    case (Some pl0)
    with ret new show ?thesis using conserves_refl [OF inv] by (simp add: addStoryPipeline_def)
  next
    case None
    then have ds': "ds' = addStoryIngestionHandle sid (ds\<lparr>theMapOfStoryPipelines := omap_put sid pl (theMapOfStoryPipelines ds)\<rparr>)"
      using ret new by (simp add: addStoryPipeline_def)
    have "ds_inv ds'"
      using inv new_pipeline_inv(1) [OF ds_invD(1) [OF inv] t new] unfolding ds'
      by (auto simp: ds_inv_def durations_ok_def addStoryIngestionHandle_def omap_simps)
    then show ?thesis using None by (auto simp: conserves_def ds_keeps_def ds' addStoryIngestionHandle_def omap_simps)
  qed
  show "ds_pipeline ds' sid = Some pl'" if "r = Some pl'" for pl'
    using ret that by (auto simp: addStoryPipeline_def addStoryIngestionHandle_def omap_simps split: option.splits)
qed

lemma handed_on_Cons: "handed_on calls e \<Longrightarrow> handed_on (c # calls) e"
  by (auto simp: handed_on_def)

text \<open>Changing who waits keeps everything as long as only stories with a pipeline wait.\<close>

lemma waiting_conserves:
  assumes "ds_inv ds" "omap_ok w" "dom (map_of w) \<subseteq> dom (ds_pipeline ds)"
  shows "conserves ds [] calls (ds\<lparr>pipelinesWaitingForExit := w, startedByDurableWrite := s\<rparr>)"
  using assms by (auto simp: conserves_def ds_inv_def durations_ok_def ds_keeps_def)

lemma start_conserves:
  assumes inv: "ds_inv ds" and t: "clock_ok t" and ret: "startStoryRecording chronicle story sid t ds = Some (r, ds', calls)"
  shows "conserves ds [] calls ds'"
proof (cases "ds_pipeline ds sid")
  case (Some pl)
  have "omap_ok (omap_erase sid (pipelinesWaitingForExit ds))" "dom (map_of (omap_erase sid (pipelinesWaitingForExit ds))) \<subseteq> dom (ds_pipeline ds)"
    using inv by (auto simp: ds_inv_def omap_simps)
  from waiting_conserves [OF inv this] Some ret show ?thesis by (auto simp: startStoryRecording_def)
next
  case None
  with ret obtain q calls' where "addStoryPipeline chronicle story sid t ds = Some (q, ds', calls')" "calls = ClearDroppedStory sid # calls'"
    by (auto simp: startStoryRecording_def)
  with add_conserves(1) [OF inv t this(1)] show ?thesis by (auto simp: conserves_def intro: handed_on_Cons)
qed

lemma ensure_conserves:
  assumes inv: "ds_inv ds" and t: "clock_ok t" and ret: "ensureStoryPipeline t chronicle story sid ds = Some (r, ds', calls)"
  shows "conserves ds [] calls ds'"
proof (cases "ds_pipeline ds sid = None \<and> acceptingPipelines ds")
  case False
  with ret inv show ?thesis by (auto simp: ensureStoryPipeline_def intro: conserves_refl split: if_splits)
next
  case True
  then obtain q ds1 where add: "addStoryPipeline chronicle story sid t ds = Some (q, ds1, calls)"
    and ds': "ds' = (case q of None \<Rightarrow> ds1 | Some pl \<Rightarrow>
       ds1\<lparr>pipelinesWaitingForExit := omap_put sid (t + kp_acceptanceWindow pl) (pipelinesWaitingForExit ds1),
          startedByDurableWrite := oset_insert sid (startedByDurableWrite ds1)\<rparr>)"
    using ret by (auto simp: ensureStoryPipeline_def split: option.splits)
  note c1 = add_conserves [OF inv t add]
  show ?thesis
  proof (cases q)
    case None
    with ds' c1(1) show ?thesis by simp
  next
    case (Some pl)
    have "omap_ok (omap_put sid (t + kp_acceptanceWindow pl) (pipelinesWaitingForExit ds1))"
      "dom (map_of (omap_put sid (t + kp_acceptanceWindow pl) (pipelinesWaitingForExit ds1))) \<subseteq> dom (ds_pipeline ds1)"
      using conserves_inv [OF c1(1)] c1(2) [OF Some] by (auto simp: ds_inv_def omap_simps)
    from waiting_conserves [OF conserves_inv [OF c1(1)] this] conserves_trans [OF c1(1), of "[]" "[]"] Some ds' show ?thesis by simp
  qed
qed

lemma stop_conserves:
  assumes inv: "ds_inv ds" and ret: "stopStoryRecording now sid ds = (r, ds')"
  shows "conserves ds [] [] ds'"
proof (cases "ds_pipeline ds sid")
  case None
  with ret inv show ?thesis by (auto simp: stopStoryRecording_def intro: conserves_refl)
next
  case (Some pl)
  let ?w = "omap_put sid (now + kp_acceptanceWindow pl) (pipelinesWaitingForExit ds)"
  have "omap_ok ?w" "dom (map_of ?w) \<subseteq> dom (ds_pipeline ds)" using inv Some by (auto simp: ds_inv_def omap_simps)
  from waiting_conserves [OF inv this] Some ret show ?thesis by (auto simp: stopStoryRecording_def)
qed

text \<open>Retirement.\<close>

lemma retire_entry_conserves:
  assumes inv: "ds_inv ds" and ret: "retire_entry now entry ds = Some (ds', calls)"
  shows "conserves ds [] calls ds'"
proof (cases "now < snd entry")
  case True
  with ret inv show ?thesis by (auto simp: retire_entry_def intro: conserves_refl)
next
  case due: False
  let ?sid = "fst entry"
  from due ret obtain pl where pl: "ds_pipeline ds ?sid = Some pl" by (auto simp: retire_entry_def split: option.splits)
  note pi = ds_invD(5) [OF inv pl]
  then have sid: "kp_storyId pl = ?sid" by (simp add: pl_inv_def)
  let ?kept = "kp_lastArrival pl + kp_acceptanceWindow pl"
  show ?thesis
  proof (cases "acceptingPipelines ds \<and> ?sid \<in> set (startedByDurableWrite ds) \<and> now < ?kept")
    case True
    let ?w = "omap_put ?sid ?kept (pipelinesWaitingForExit ds)"
    have "omap_ok ?w" "dom (map_of ?w) \<subseteq> dom (ds_pipeline ds)" using inv pl by (auto simp: ds_inv_def omap_simps)
    from waiting_conserves [OF inv this, of "[]" "startedByDurableWrite ds"] True due pl ret sid show ?thesis
      by (auto simp: retire_entry_def Let_def)
  next
    case False
    then obtain calls0 where del: "delete_KeeperStoryPipeline now pl = Some calls0" and calls: "calls = calls0 @ [ReleaseStoryTail ?sid]"
      and ds': "ds' = removeIngestionHandle ?sid
          (ds\<lparr>startedByDurableWrite := filter (\<lambda>s. s \<noteq> ?sid) (startedByDurableWrite ds),
              retiredStoryNames := omap_put ?sid (kp_chronicleName pl, kp_storyName pl) (retiredStoryNames ds),
              theMapOfStoryPipelines := omap_erase ?sid (theMapOfStoryPipelines ds),
              pipelinesWaitingForExit := omap_erase ?sid (pipelinesWaitingForExit ds)\<rparr>)"
      using ret due pl by (auto simp: retire_entry_def Let_def sid)
    have "ds_inv ds'" using inv unfolding ds'
      by (auto simp: ds_inv_def durations_ok_def removeIngestionHandle_def omap_simps)
    moreover have "ds_keeps ds' e \<or> handed_on calls e" if "logRecord e \<noteq> []" "ds_keeps ds e" for e
    proof (cases "evStoryId e = ?sid \<and> kp_keeps pl e")
      case True
      have "handed_on calls0 e" using True that(1) by (intro delete_hands_on [OF pi ds_invD(4) [OF inv] del]) auto
      then show ?thesis using handed_on_mono [of calls0 e calls] by (auto simp: calls)
    next
      case False
      then show ?thesis using that(2) pl by (auto simp: ds_keeps_def ds' removeIngestionHandle_def omap_simps)
    qed
    ultimately show ?thesis by (simp add: conserves_def)
  qed
qed

lemma retire_walk_conserves:
  "ds_inv ds \<Longrightarrow> retire_walk now entries ds = Some (ds', calls) \<Longrightarrow> conserves ds [] calls ds'"
proof (induction entries arbitrary: ds ds' calls)
  case Nil
  then show ?case by (auto intro: conserves_refl)
next
  case (Cons entry entries)
  from Cons.prems(2) obtain ds1 calls1 calls2 where
    *: "retire_entry now entry ds = Some (ds1, calls1)" "retire_walk now entries ds1 = Some (ds', calls2)" "calls = calls1 @ calls2"
    by (auto split: option.splits)
  note c1 = retire_entry_conserves [OF Cons.prems(1) *(1)]
  from conserves_trans [OF c1 Cons.IH [OF conserves_inv [OF c1] *(2)]] show ?case by (simp add: *(3))
qed

lemma retire_conserves:
  assumes "ds_inv ds" "retire_pipelines now ds = Some (ds', calls)"
  shows "conserves ds [] calls ds'"
  using assms retire_walk_conserves [OF assms(1)]
  by (auto simp: retire_pipelines_def intro: conserves_refl split: if_splits)

text \<open>Late events of retired stories.\<close>

lemma fold_insert_keeps: "dom (events_of c) \<subseteq> dom (events_of (fold (\<lambda>e c. snd (insertEvent c e)) es c))"
proof (induction es arbitrary: c)
  case (Cons e es)
  have "dom (events_of c) \<subseteq> dom (events_of (snd (insertEvent c e)))" unfolding insertEvent_lookup by auto
  then show ?case using Cons [of "snd (insertEvent c e)"] by auto
qed simp

lemma fold_insert_takes:
  "e \<in> set es \<Longrightarrow> accepts c e \<Longrightarrow> event_sequence e \<in> dom (events_of (fold (\<lambda>e c. snd (insertEvent c e)) es c))"
proof (induction es arbitrary: c)
  case (Cons a es)
  let ?c = "snd (insertEvent c a)"
  have acc: "accepts ?c e" using Cons.prems(2) by (auto simp: insertEvent_def)
  show ?case
  proof (cases "e = a")
    case True
    then have "event_sequence e \<in> dom (events_of ?c)" using Cons.prems(2) unfolding insertEvent_lookup by simp
    then show ?thesis using fold_insert_keeps [of ?c es] by auto
  next
    case False
    then show ?thesis using Cons.IH [OF _ acc] Cons.prems(1) by simp
  qed
qed simp

lemma foldr_bounds:
  fixes t :: u64
  assumes "t \<in> set ts"
  shows "foldr min ts a \<le> t" "t \<le> foldr max ts a"
  using assms by (induction ts) (auto simp: min_le_iff_disj le_max_iff_disj)

lemma foldr_max_in: "foldr max (ts :: u64 list) a \<in> insert a (set ts)"
  by (induction ts) (auto simp: max_def)

lemma recovery_chunk_holds:
  assumes e: "e \<in> set es" "logRecord e \<noteq> []" and all: "\<forall>x\<in>set es. evStoryId x = sid \<and> clock_ok (eventTime x)"
  shows "event_sequence e \<in> dom (events_of (recovery_chunk names sid es))"
proof -
  let ?ts = "map eventTime es"
  let ?lo = "foldr min ?ts (hd ?ts)" and ?hi = "foldr max ?ts (hd ?ts)"
  have ts: "eventTime e \<in> set ?ts" "hd ?ts \<in> set ?ts" using e(1) by (cases es; auto)+
  have "?hi \<in> set ?ts" using foldr_max_in [of ?ts "hd ?ts"] ts(2) by auto
  then have "unat ?hi < 2 ^ 62" using all by (auto simp: clock_ok_def)
  then have hi: "unat (?hi + 1) = unat ?hi + 1" by (simp add: unat_word_ariths)
  have in_range: "?lo \<le> eventTime e" "eventTime e \<le> ?hi" using foldr_bounds [OF ts(1)] by auto
  then have lt: "?lo < ?hi + 1" "eventTime e < ?hi + 1" using hi by (simp_all add: word_le_nat_alt word_less_nat_alt)
  have "accepts (new_StoryChunk (fst names) (snd names) sid ?lo (?hi + 1)) e"
    using e all in_range lt new_StoryChunk_interval [OF lt(1)] by (simp add: accepts_def new_StoryChunk_def Let_def)
  then show ?thesis unfolding recovery_chunk_def Let_def by (rule fold_insert_takes [OF e(1)])
qed

lemma seal_orphans_of_conserves:
  assumes inv: "ds_inv ds" and ret: "seal_orphans_of sid ds = (ds', calls)"
  shows "conserves ds [] calls ds'"
proof (cases "ds_pipeline ds sid = None \<and> map_of (retiredStoryNames ds) sid \<noteq> None")
  case False
  with ret inv show ?thesis by (auto simp: seal_orphans_of_def intro: conserves_refl split: option.splits)
next
  case True
  then obtain names where names: "ds_pipeline ds sid = None" "map_of (retiredStoryNames ds) sid = Some names" by blast
  let ?es = "filter (\<lambda>e. evStoryId e = sid) (orphanEventQueue ds)" and ?c = "recovery_chunk names sid (filter (\<lambda>e. evStoryId e = sid) (orphanEventQueue ds))"
  have ds': "ds' = ds\<lparr>orphanEventQueue := filter (\<lambda>e. evStoryId e \<noteq> sid) (orphanEventQueue ds)\<rparr>"
    and calls: "calls = (if ?es = [] \<or> chunk_empty ?c then [] else [IngestSealedChunk sid ?c, ReleaseStoryTail sid])"
    using ret names by (auto simp: seal_orphans_of_def extractOrphansForStory_def Let_def split: if_splits)
  have "ds_inv ds'" using inv by (auto simp: ds' ds_inv_def durations_ok_def)
  moreover have "ds_keeps ds' e \<or> handed_on calls e" if "logRecord e \<noteq> []" "ds_keeps ds e" for e
  proof (cases "e \<in> set (orphanEventQueue ds) \<and> evStoryId e = sid")
    case True
    then have e: "e \<in> set ?es" by simp
    have "\<forall>x\<in>set ?es. evStoryId x = sid \<and> clock_ok (eventTime x)" using inv by (simp add: ds_inv_def)
    from recovery_chunk_holds [OF e that(1) this, of names] have in_c: "event_sequence e \<in> dom (events_of ?c)" .
    then have "\<not> chunk_empty ?c" by (simp only: chunk_empty_dom) blast
    moreover have "?es \<noteq> []" using e by (metis empty_iff empty_set)
    ultimately have "IngestSealedChunk sid ?c \<in> set calls" by (simp add: calls)
    with in_c True show ?thesis by (auto simp: handed_on_def)
  next
    case False
    then show ?thesis using that(2) by (auto simp: ds_keeps_def ds')
  qed
  ultimately show ?thesis by (simp add: conserves_def)
qed

lemma seal_orphans_conserves:
  "ds_inv ds \<Longrightarrow> seal_orphans sids ds = (ds', calls) \<Longrightarrow> conserves ds [] calls ds'"
proof (induction sids arbitrary: ds ds' calls)
  case Nil
  then show ?case by (auto intro: conserves_refl)
next
  case (Cons sid sids)
  from Cons.prems(2) obtain ds1 calls1 calls2 where
    *: "seal_orphans_of sid ds = (ds1, calls1)" "seal_orphans sids ds1 = (ds', calls2)" "calls = calls1 @ calls2"
    by (auto split: prod.splits)
  note c1 = seal_orphans_of_conserves [OF Cons.prems(1) *(1)]
  from conserves_trans [OF c1 Cons.IH [OF conserves_inv [OF c1] *(2)]] show ?case by (simp add: *(3))
qed

text \<open>Starting and shutting down the collection.\<close>

lemma label_fold:
  "omap_ok w \<Longrightarrow> dom (map_of w) \<subseteq> D \<Longrightarrow> fst ` set m \<subseteq> D \<Longrightarrow>
     omap_ok (fold (label_waiting t) m w) \<and> dom (map_of (fold (label_waiting t) m w)) \<subseteq> D"
proof (induction m arbitrary: w)
  case (Cons p m)
  let ?w = "label_waiting t p w"
  have "omap_ok ?w" "dom (map_of ?w) = insert (fst p) (dom (map_of w))"
    using Cons.prems(1) by (auto simp: label_waiting_def omap_simps split: option.splits)
  with Cons.prems Cons.IH [of ?w] show ?case by simp
qed simp

lemma shutdown_conserves:
  assumes inv: "ds_inv ds"
  shows "conserves ds [] [] (shutdownDataCollection now ds)"
proof (cases "ds_state ds = StateShuttingDown")
  case True
  with inv show ?thesis by (simp add: shutdownDataCollection_def conserves_refl)
next
  case False
  let ?w = "fold (label_waiting now) (theMapOfStoryPipelines ds) (pipelinesWaitingForExit ds)"
  have "omap_ok ?w" "dom (map_of ?w) \<subseteq> dom (ds_pipeline ds)"
    using inv label_fold [of "pipelinesWaitingForExit ds" "dom (ds_pipeline ds)" "theMapOfStoryPipelines ds"]
    by (simp_all add: ds_inv_def dom_map_of_conv_image_fst)
  with inv False show ?thesis
    by (auto simp: shutdownDataCollection_def conserves_def ds_inv_def durations_ok_def ds_keeps_def)
qed

section \<open>Runs of a store\<close>

text \<open>
  A step is one hold of a mutex: taking an event in (as an orphan also when the story's handle has come in the
  meantime), starting and stopping a story, and what the collection threads do; the story ids that orphans are sealed for
  may be out of date. A step carries the events taken in and the calls made. A decay that does not return is no
  step.
\<close>

inductive ds_step :: "KeeperDataStore \<Rightarrow> LogEvent list \<Rightarrow> tail_call list \<Rightarrow> KeeperDataStore \<Rightarrow> bool" where
  Ingest: "ingestLogEvent e ds = Some ds' \<Longrightarrow> clock_ok (eventTime e) \<Longrightarrow> ds_step ds [e] [] ds'"
| IngestLate: "clock_ok (eventTime e) \<Longrightarrow> ds_step ds [e] [] (push_orphan e ds)"
| StartStory: "startStoryRecording chronicle story sid t ds = Some (r, ds', calls) \<Longrightarrow> clock_ok t \<Longrightarrow> ds_step ds [] calls ds'"
| EnsurePipeline: "ensureStoryPipeline t chronicle story sid ds = Some (r, ds', calls) \<Longrightarrow> clock_ok t \<Longrightarrow> ds_step ds [] calls ds'"
| StopStory: "stopStoryRecording t sid ds = (r, ds') \<Longrightarrow> ds_step ds [] [] ds'"
| Drain: "drainOrphanEvents ds = Some ds' \<Longrightarrow> ds_step ds [] [] ds'"
| Collect: "ds_collect_pipelines t ds = Some (ds', calls) \<Longrightarrow> ds_step ds [] calls ds'"
| Decay: "ds_extractDecayedStoryChunks t ds = Some (ds', calls) \<Longrightarrow> clock_ok t \<Longrightarrow> ds_step ds [] calls ds'"
| Retire: "retire_pipelines t ds = Some (ds', calls) \<Longrightarrow> ds_step ds [] calls ds'"
| SealOrphans: "seal_orphans sids ds = (ds', calls) \<Longrightarrow> ds_step ds [] calls ds'"
| StartCollection: "ds_step ds [] [] (startDataCollection ds)"
| Shutdown: "ds_step ds [] [] (shutdownDataCollection t ds)"

inductive ds_run :: "KeeperDataStore \<Rightarrow> LogEvent list \<Rightarrow> tail_call list \<Rightarrow> KeeperDataStore \<Rightarrow> bool" where
  RunNil: "ds_run ds [] [] ds"
| RunStep: "ds_run ds es calls ds1 \<Longrightarrow> ds_step ds1 es' calls' ds2 \<Longrightarrow> ds_run ds (es @ es') (calls @ calls') ds2"

lemma ds_step_conserves: "ds_step ds es calls ds' \<Longrightarrow> ds_inv ds \<Longrightarrow> conserves ds es calls ds'"
proof (induction rule: ds_step.induct)
  case (StartCollection ds)
  then show ?case by (auto simp: startDataCollection_def conserves_def ds_inv_def durations_ok_def ds_keeps_def)
qed (blast intro: ingest_conserves push_orphan_conserves start_conserves ensure_conserves stop_conserves drain_conserves
    collect_conserves extract_conserves retire_conserves seal_orphans_conserves shutdown_conserves)+

lemma ds_run_conserves: "ds_run ds es calls ds' \<Longrightarrow> ds_inv ds \<Longrightarrow> conserves ds es calls ds'"
proof (induction rule: ds_run.induct)
  case (RunNil ds)
  then show ?case by (rule conserves_refl)
next
  case (RunStep ds es calls ds1 es' calls' ds2)
  note c1 = RunStep.IH [OF RunStep.prems]
  from conserves_trans [OF c1 ds_step_conserves [OF RunStep.hyps(2) conserves_inv [OF c1]]] show ?case .
qed

lemma new_store_inv:
  "duration \<noteq> 0 \<Longrightarrow> unat duration * 1000000000 \<le> 2 ^ 56 \<Longrightarrow> unat window * 1000000000 \<le> 2 ^ 56 \<Longrightarrow>
   ds_inv (new_KeeperDataStore duration window resend)"
  by (simp add: ds_inv_def durations_ok_def new_KeeperDataStore_def)

section \<open>No handle and no waiting entry outlives its pipeline\<close>

lemma each_pipeline_total: "(\<And>pl. pl \<in> snd ` set m \<Longrightarrow> f pl \<noteq> None) \<Longrightarrow> each_pipeline f m \<noteq> None"
proof (induction f m rule: each_pipeline.induct)
  case (2 f sid pl m)
  from 2(2) [of pl] obtain pl' calls where "f pl = Some (pl', calls)" by auto
  moreover from 2(1) [OF this refl] 2(2) have "each_pipeline f m \<noteq> None" by auto
  ultimately show ?case by auto
qed simp

lemma ingest_total: "ds_inv ds \<Longrightarrow> ingestLogEvent e ds \<noteq> None"
  by (auto simp: ds_inv_def ingestLogEvent_def hasStoryIngestionHandle_def split: option.splits)

lemma drain_walk_total:
  "ds_inv ds \<Longrightarrow> \<forall>e\<in>set es. clock_ok (eventTime e) \<Longrightarrow> drain_walk es ds \<noteq> None"
proof (induction es arbitrary: ds)
  case (Cons e es)
  from ingest_total [OF Cons.prems(1)] obtain ds1 where ds1: "ingestLogEvent e ds = Some ds1" by blast
  have "clock_ok (eventTime e)" using Cons.prems(2) by simp
  from ingest_conserves [OF Cons.prems(1) this ds1] have "ds_inv ds1" by (rule conserves_inv)
  with Cons ds1 show ?case by simp
qed simp

lemma drain_total: "ds_inv ds \<Longrightarrow> drainOrphanEvents ds \<noteq> None"
proof -
  assume inv: "ds_inv ds"
  then have "ds_inv (ds\<lparr>orphanEventQueue := []\<rparr>)" by (auto simp: ds_inv_def durations_ok_def)
  with inv show ?thesis unfolding drainOrphanEvents_def by (intro drain_walk_total) (simp_all add: ds_inv_def)
qed

lemma collect_total: "ds_inv ds \<Longrightarrow> ds_collect_pipelines now ds \<noteq> None"
proof -
  assume inv: "ds_inv ds"
  have "kp_collectIngestedEvents now pl \<noteq> None" if pl: "pl \<in> snd ` set (theMapOfStoryPipelines ds)" for pl
  proof -
    from pl obtain sid where "(sid, pl) \<in> set (theMapOfStoryPipelines ds)" by auto
    then have "ds_pipeline ds sid = Some pl" by (simp add: map_of_omap_Some [OF ds_invD(2) [OF inv]])
    from ds_invD(5) [OF inv this] have pi: "pl_inv (story_chunk_duration_secs ds) sid pl" .
    then have "kp_ok pl" by (simp add: pl_inv_def)
    from kp_collect_step [OF this pl_inv_room(2) [OF pi ds_invD(4) [OF inv]], of now] show ?thesis by auto
  qed
  then show ?thesis unfolding ds_collect_pipelines_def on_pipelines_def
    using each_pipeline_total [of "theMapOfStoryPipelines ds" "kp_collectIngestedEvents now"] by auto
qed

lemma retire_entry_total:
  assumes inv: "ds_inv ds" and "fst entry \<in> dom (ds_pipeline ds)"
  shows "\<exists>ds' calls. retire_entry now entry ds = Some (ds', calls) \<and> dom (ds_pipeline ds) \<subseteq> insert (fst entry) (dom (ds_pipeline ds'))"
proof -
  from assms(2) obtain pl where pl: "ds_pipeline ds (fst entry) = Some pl" by blast
  note pi = ds_invD(5) [OF inv pl]
  then have ok: "kp_ok pl" "kp_storyId pl = fst entry" by (simp_all add: pl_inv_def)
  from delete_KeeperStoryPipeline_accounts [OF ok(1) pl_inv_room(1) [OF pi ds_invD(4) [OF inv]], of now] obtain calls where
    "delete_KeeperStoryPipeline now pl = Some calls" by blast
  with pl ok(2) have "\<exists>ds' calls. retire_entry now entry ds = Some (ds', calls)" by (simp add: retire_entry_def Let_def)
  moreover have "dom (ds_pipeline ds) \<subseteq> insert (fst entry) (dom (ds_pipeline ds'))"
    if "retire_entry now entry ds = Some (ds', calls')" for ds' calls'
    using that pl ok(2) by (auto simp: retire_entry_def Let_def removeIngestionHandle_def omap_simps split: if_splits)
  ultimately show ?thesis by blast
qed

lemma retire_walk_total:
  "ds_inv ds \<Longrightarrow> fst ` set entries \<subseteq> dom (ds_pipeline ds) \<Longrightarrow> distinct (map fst entries) \<Longrightarrow> retire_walk now entries ds \<noteq> None"
proof (induction entries arbitrary: ds)
  case (Cons entry entries)
  have "fst entry \<in> dom (ds_pipeline ds)" using Cons.prems(2) by simp
  from retire_entry_total [OF Cons.prems(1) this, of now] obtain ds1 calls where
    *: "retire_entry now entry ds = Some (ds1, calls)" "dom (ds_pipeline ds) \<subseteq> insert (fst entry) (dom (ds_pipeline ds1))" by blast
  have "fst ` set entries \<subseteq> dom (ds_pipeline ds)" using Cons.prems(2) by simp
  from order_trans [OF this *(2)] Cons.prems(3) have "fst ` set entries \<subseteq> dom (ds_pipeline ds1)"
    by (simp add: subset_insert)
  moreover have "ds_inv ds1" by (rule conserves_inv [OF retire_entry_conserves [OF Cons.prems(1) *(1)]])
  ultimately have "retire_walk now entries ds1 \<noteq> None" using Cons.prems(3) by (intro Cons.IH) simp_all
  with *(1) show ?case by auto
qed simp

lemma retire_total: "ds_inv ds \<Longrightarrow> retire_pipelines now ds \<noteq> None"
proof -
  assume inv: "ds_inv ds"
  have "retire_walk now (pipelinesWaitingForExit ds) ds \<noteq> None"
    using inv omap_ok_distinct [OF ds_invD(3) [OF inv]]
    by (intro retire_walk_total) (simp_all add: ds_inv_def dom_map_of_conv_image_fst)
  then show ?thesis by (simp add: retire_pipelines_def)
qed

section \<open>Orphans of an unknown story\<close>

fun collection_rounds :: "(u64 \<times> u64 \<times> u64) list \<Rightarrow> KeeperDataStore \<Rightarrow> (KeeperDataStore \<times> tail_call list) option" where
  "collection_rounds [] ds = Some (ds, [])"
| "collection_rounds ((t1, t2, t3) # ts) ds =
     (case collection_round t1 t2 t3 ds of
        None \<Rightarrow> None
      | Some (ds1, calls) \<Rightarrow> map_option (\<lambda>(ds2, calls'). (ds2, calls @ calls')) (collection_rounds ts ds1))"

text \<open>An orphan whose story has neither a pipeline nor a retired name.\<close>

definition stranded :: "LogEvent \<Rightarrow> KeeperDataStore \<Rightarrow> bool" where
  "stranded e ds \<longleftrightarrow> e \<in> set (orphanEventQueue ds) \<and> ds_pipeline ds (evStoryId e) = None \<and>
     map_of (retiredStoryNames ds) (evStoryId e) = None"

lemma ingest_stranded:
  assumes inv: "ds_inv ds" and no: "ds_pipeline ds sid = None" "map_of (retiredStoryNames ds) sid = None"
    and ret: "ingestLogEvent e ds = Some ds'"
  shows "ds_pipeline ds' sid = None" "map_of (retiredStoryNames ds') sid = None"
    "set (orphanEventQueue ds) \<subseteq> set (orphanEventQueue ds')" "evStoryId e = sid \<Longrightarrow> e \<in> set (orphanEventQueue ds')"
proof -
  have "sid \<notin> set (storyIngestionHandles ds)" using inv no(1) by (simp add: ds_inv_def domIff)
  then show "ds_pipeline ds' sid = None" "map_of (retiredStoryNames ds') sid = None"
    "set (orphanEventQueue ds) \<subseteq> set (orphanEventQueue ds')" "evStoryId e = sid \<Longrightarrow> e \<in> set (orphanEventQueue ds')"
    using no ret
    by (auto simp: ingestLogEvent_def hasStoryIngestionHandle_def push_orphan_def omap_simps split: if_splits option.splits)
qed

lemma drain_walk_stranded:
  assumes "ds_inv ds" "\<forall>e\<in>set es. clock_ok (eventTime e)" "ds_pipeline ds sid = None" "map_of (retiredStoryNames ds) sid = None"
    "drain_walk es ds = Some ds'"
  shows "ds_pipeline ds' sid = None \<and> map_of (retiredStoryNames ds') sid = None \<and>
    set (orphanEventQueue ds) \<subseteq> set (orphanEventQueue ds') \<and> {e \<in> set es. evStoryId e = sid} \<subseteq> set (orphanEventQueue ds')"
  using assms
proof (induction es arbitrary: ds)
  case (Cons e es)
  from Cons.prems(5) obtain ds1 where ds1: "ingestLogEvent e ds = Some ds1" "drain_walk es ds1 = Some ds'"
    by (auto simp: Option.bind_eq_Some_conv)
  note s = ingest_stranded [OF Cons.prems(1,3,4) ds1(1)]
  have "ds_inv ds1" using Cons.prems(2) by (intro conserves_inv [OF ingest_conserves [OF Cons.prems(1) _ ds1(1)]]) simp
  from Cons.IH [OF this _ s(1,2) ds1(2)] Cons.prems(2) s(3,4) show ?case by auto
qed simp

lemma drain_stranded:
  assumes inv: "ds_inv ds" and str: "stranded e ds" and ret: "drainOrphanEvents ds = Some ds'"
  shows "stranded e ds'"
proof -
  let ?ds0 = "ds\<lparr>orphanEventQueue := []\<rparr>"
  have "ds_inv ?ds0" "\<forall>e\<in>set (orphanEventQueue ds). clock_ok (eventTime e)"
    using inv by (auto simp: ds_inv_def durations_ok_def)
  from drain_walk_stranded [OF this, of "evStoryId e" ds'] str ret show ?thesis
    by (auto simp: stranded_def drainOrphanEvents_def)
qed

lemma on_pipelines_stranded: "stranded e ds \<Longrightarrow> on_pipelines f ds = Some (ds', calls) \<Longrightarrow> stranded e ds'"
proof -
  assume str: "stranded e ds" and "on_pipelines f ds = Some (ds', calls)"
  then obtain m where m: "each_pipeline f (theMapOfStoryPipelines ds) = Some (m, calls)" "ds' = ds\<lparr>theMapOfStoryPipelines := m\<rparr>"
    by (auto simp: on_pipelines_def)
  have "dom (map_of m) = dom (ds_pipeline ds)" using each_pipeline_lookup [OF m(1)] dom_keys by blast
  with str show ?thesis by (auto simp: stranded_def m(2) domIff dest: equalityD1)
qed

lemma retire_walk_stranded:
  "ds_inv ds \<Longrightarrow> stranded e ds \<Longrightarrow> retire_walk now entries ds = Some (ds', calls) \<Longrightarrow> stranded e ds'"
proof (induction entries arbitrary: ds ds' calls)
  case (Cons entry entries)
  from Cons.prems(3) obtain ds1 calls1 calls2 where
    *: "retire_entry now entry ds = Some (ds1, calls1)" "retire_walk now entries ds1 = Some (ds', calls2)"
    by (auto split: option.splits)
  have "stranded e ds1"
  proof (cases "ds_pipeline ds (fst entry)")
    case None
    with *(1) Cons.prems(2) show ?thesis by (auto simp: retire_entry_def split: if_splits)
  next
    case (Some pl)
    have "kp_storyId pl = fst entry" using ds_invD(5) [OF Cons.prems(1) Some] by (simp add: pl_inv_def)
    with Some *(1) Cons.prems(2) show ?thesis
      by (auto simp: retire_entry_def Let_def stranded_def removeIngestionHandle_def omap_simps split: if_splits)
  qed
  with Cons.IH [OF conserves_inv [OF retire_entry_conserves [OF Cons.prems(1) *(1)]] _ *(2)] show ?case by blast
qed simp

lemma seal_orphans_stranded: "stranded e ds \<Longrightarrow> seal_orphans sids ds = (ds', calls) \<Longrightarrow> stranded e ds'"
proof (induction sids arbitrary: ds ds' calls)
  case (Cons sid sids)
  obtain ds1 calls1 calls2 where
    *: "seal_orphans_of sid ds = (ds1, calls1)" "seal_orphans sids ds1 = (ds', calls2)"
    using Cons.prems(2) by (auto split: prod.splits)
  have "stranded e ds1"
    using Cons.prems(1) *(1)
    by (auto simp: seal_orphans_of_def stranded_def extractOrphansForStory_def Let_def split: if_splits option.splits)
  from Cons.IH [OF this *(2)] show ?case .
qed simp

lemma collection_round_stranded:
  assumes inv: "ds_inv ds" and str: "stranded e ds" and t: "clock_ok t2"
    and ret: "collection_round t1 t2 t3 ds = Some (ds', calls)"
  shows "ds_inv ds' \<and> stranded e ds'"
proof -
  from ret obtain ds0 ds1 c1 ds2 c2 ds3 c3 where
    drain: "drainOrphanEvents ds = Some ds0" and collect: "ds_collect_pipelines t1 ds0 = Some (ds1, c1)"
    and decay: "ds_extractDecayedStoryChunks t2 ds1 = Some (ds2, c2)" and retire: "retire_pipelines t3 ds2 = Some (ds3, c3)"
    and last: "fst (seal_orphans (orphanStoryIds ds3) ds3) = ds'"
    by (auto simp: collection_round_def ds_collectIngestedEvents_def retireDecayedPipelines_def sealOrphanedEvents_def
        Option.bind_eq_Some_conv split_beta)
  define c4 where "c4 = snd (seal_orphans (orphanStoryIds ds3) ds3)"
  have seal: "seal_orphans (orphanStoryIds ds3) ds3 = (ds', c4)" using last by (simp add: c4_def flip: last)
  have inv0: "ds_inv ds0" by (rule conserves_inv [OF drain_conserves [OF inv drain]])
  have inv1: "ds_inv ds1" by (rule conserves_inv [OF collect_conserves [OF inv0 collect]])
  have inv2: "ds_inv ds2" by (rule conserves_inv [OF extract_conserves [OF inv1 t decay]])
  have inv3: "ds_inv ds3" by (rule conserves_inv [OF retire_conserves [OF inv2 retire]])
  have "ds_inv ds'" by (rule conserves_inv [OF seal_orphans_conserves [OF inv3 seal]])
  moreover have "stranded e ds2"
    using on_pipelines_stranded drain_stranded [OF inv str drain] collect decay
    by (metis ds_collect_pipelines_def ds_extractDecayedStoryChunks_def)
  then have "stranded e ds3"
    using retire retire_walk_stranded [OF inv2] by (auto simp: retire_pipelines_def split: if_splits)
  then have "stranded e ds'" by (rule seal_orphans_stranded [OF _ seal])
  ultimately show ?thesis by blast
qed

lemma collection_rounds_stranded:
  "ds_inv ds \<Longrightarrow> stranded e ds \<Longrightarrow> \<forall>t\<in>set ts. clock_ok (fst (snd t)) \<Longrightarrow> collection_rounds ts ds = Some (ds', calls) \<Longrightarrow> stranded e ds'"
proof (induction ts ds arbitrary: ds' calls rule: collection_rounds.induct)
  case (2 t1 t2 t3 ts ds)
  from 2(5) obtain ds1 c1 c2 where
    *: "collection_round t1 t2 t3 ds = Some (ds1, c1)" "collection_rounds ts ds1 = Some (ds', c2)"
    by (auto split: option.splits)
  have "clock_ok t2" using 2(4) by simp
  from collection_round_stranded [OF 2(2,3) this *(1)] 2(1) [OF *(1) refl] 2(4) *(2) show ?case by auto
qed simp

section \<open>Replay\<close>

text \<open>The events recovery read back: sorted by the identity each is stored under, with room for a chunk behind each.\<close>

definition replayable :: "u64 \<Rightarrow> (EventSequence, LogEvent) omap \<Rightarrow> bool" where
  "replayable d es \<longleftrightarrow> omap_ok es \<and> (\<forall>p\<in>set es. fst p = event_sequence (snd p) \<and> unat (eventTime (snd p)) + unat d < 2 ^ 64)"

definition covers_from :: "StoryId \<Rightarrow> u64 \<Rightarrow> StoryChunk \<Rightarrow> bool" where
  "covers_from sid t c \<longleftrightarrow> wf_chunk c \<and> chunkStoryId c = sid \<and> startTime c \<le> t"

lemma aligned_chunk_covers:
  assumes d: "0 < d" and room: "unat t + unat d < 2 ^ 64"
  shows "covers_from sid t (aligned_chunk d story sid t)" and "t < endTime (aligned_chunk d story sid t)"
proof -
  let ?s = "t - t mod d"
  have s: "unat ?s = unat t - unat t mod unat d" by (simp add: unat_sub unat_mod word_le_nat_alt)
  have d0: "0 < unat d" using d by (simp add: word_less_nat_alt)
  then have m: "unat t mod unat d < unat d" "unat t mod unat d \<le> unat t" by simp_all
  have b: "unat ?s \<le> unat t" "unat t < unat ?s + unat d" using s m by linarith+
  have e: "unat (?s + d) = unat ?s + unat d" using room b(1) by (simp add: unat_word_ariths)
  then have less: "?s < ?s + d" using d0 by (simp add: word_less_nat_alt)
  note iv = new_StoryChunk_interval [OF less]
  have sid: "chunkStoryId (new_StoryChunk x y sid u v) = sid" for x y u v by (simp add: new_StoryChunk_def Let_def)
  show "covers_from sid t (aligned_chunk d story sid t)"
    using b(1) iv by (simp add: covers_from_def aligned_chunk_def Let_def word_le_nat_alt sid)
  show "t < endTime (aligned_chunk d story sid t)"
    using b e iv by (simp add: aligned_chunk_def Let_def word_less_nat_alt)
qed

definition sealed_in :: "tail_call list \<Rightarrow> StoryId \<Rightarrow> EventSequence \<Rightarrow> LogEvent \<Rightarrow> bool" where
  "sealed_in calls sid sq e \<longleftrightarrow> (\<exists>c. IngestSealedChunk sid c \<in> set calls \<and> events_of c sq = Some e)"

lemma sealed_in_mono: "sealed_in calls sid sq e \<Longrightarrow> set calls \<subseteq> set calls' \<Longrightarrow> sealed_in calls' sid sq e"
  by (auto simp: sealed_in_def)

lemma hand_over_sealed: "events_of c sq = Some e \<Longrightarrow> sealed_in (hand_over sid c) sid sq e"
  by (cases "chunk_empty c") (auto simp: sealed_in_def hand_over_def)

text \<open>A replayed event without a record is reported as discarded, any other is in a chunk handed over.\<close>

definition replay_settles :: "tail_call list \<Rightarrow> StoryId \<Rightarrow> EventSequence \<times> LogEvent \<Rightarrow> bool" where
  "replay_settles calls sid p \<longleftrightarrow>
     (if logRecord (snd p) = [] then EventDiscarded sid (fst p) \<in> set calls
      else sealed_in calls sid (fst p) ((snd p)\<lparr>evStoryId := sid\<rparr>))"

lemma replay_settles_mono: "replay_settles calls sid p \<Longrightarrow> set calls \<subseteq> set calls' \<Longrightarrow> replay_settles calls' sid p"
  by (auto simp: replay_settles_def intro: sealed_in_mono split: if_splits)

text \<open>The chunk an event is put into while it is replayed.\<close>

definition replay_chunk :: "u64 \<Rightarrow> RecoveredStory \<Rightarrow> StoryId \<Rightarrow> u64 \<Rightarrow> StoryChunk option \<Rightarrow> StoryChunk" where
  "replay_chunk d story sid t chunk =
     (case chunk of Some c \<Rightarrow> if endTime c \<le> t then aligned_chunk d story sid t else c | None \<Rightarrow> aligned_chunk d story sid t)"

lemma replay_events_Cons:
  "\<exists>given rest tail_calls. replay_events d story sid ((sq, e) # es) chunk = (rest, given @ tail_calls) \<and>
     snd (replay_events d story sid es (Some (snd (insertEvent (replay_chunk d story sid (eventTime e) chunk) (e\<lparr>evStoryId := sid\<rparr>))))) = tail_calls \<and>
     (\<forall>c. chunk = Some c \<longrightarrow> endTime c \<le> eventTime e \<longrightarrow> set (hand_over sid c) \<subseteq> set given) \<and>
     (fst (insertEvent (replay_chunk d story sid (eventTime e) chunk) (e\<lparr>evStoryId := sid\<rparr>)) = 0 \<longrightarrow> EventDiscarded sid sq \<in> set given)"
  by (auto simp: replay_chunk_def Let_def split_beta split: option.split)

lemma replay_chunk_takes:
  fixes story :: RecoveredStory
  assumes d: "0 < d" and room: "unat (eventTime e) + unat d < 2 ^ 64"
    and chunk: "\<forall>c. chunk = Some c \<longrightarrow> covers_from sid (eventTime e) c \<and> (\<forall>k\<in>dom (events_of c). k < event_sequence e)"
  defines "c \<equiv> replay_chunk d story sid (eventTime e) chunk" and "e' \<equiv> e\<lparr>evStoryId := sid\<rparr>"
  shows "covers_from sid (eventTime e) (snd (insertEvent c e'))"
    and "\<forall>k\<in>dom (events_of (snd (insertEvent c e'))). k \<le> event_sequence e"
    and "logRecord e \<noteq> [] \<Longrightarrow> events_of (snd (insertEvent c e')) (event_sequence e) = Some e'"
    and "events_of c k = Some v \<Longrightarrow> events_of (snd (insertEvent c e')) k = Some v"
    and "logRecord e = [] \<Longrightarrow> fst (insertEvent c e') = 0"
proof -
  note al = aligned_chunk_covers [OF d room]
  have fresh: "events_of (aligned_chunk d story sid t) = Map.empty" for t
    by (simp add: aligned_chunk_def new_StoryChunk_def Let_def)
  have c: "covers_from sid (eventTime e) c" "eventTime e < endTime c" "\<forall>k\<in>dom (events_of c). k < event_sequence e"
    using al chunk fresh by (auto simp: c_def replay_chunk_def split: option.split)
  have sq: "event_sequence e' = event_sequence e" by (simp add: e'_def event_sequence_def)
  have acc: "accepts c e' \<longleftrightarrow> logRecord e \<noteq> []"
    using c by (auto simp: accepts_def covers_from_def e'_def)
  have none: "events_of c (event_sequence e) = None" using c(3) by (metis domIff less_irrefl)
  note look = insertEvent_lookup [of c e', unfolded sq acc]
  have "wf_chunk (snd (insertEvent c e'))"
    using c(1) insertEvent_wf [of c e'] by (cases "insertEvent c e'") (auto simp: covers_from_def)
  moreover have "chunkStoryId (snd (insertEvent c e')) = chunkStoryId c" "startTime (snd (insertEvent c e')) = startTime c"
    by (auto simp: insertEvent_def)
  ultimately show "covers_from sid (eventTime e) (snd (insertEvent c e'))" using c(1) by (simp add: covers_from_def)
  show "\<forall>k\<in>dom (events_of (snd (insertEvent c e'))). k \<le> event_sequence e"
  proof
    fix k assume "k \<in> dom (events_of (snd (insertEvent c e')))"
    then have "k = event_sequence e \<or> k \<in> dom (events_of c)" unfolding look by (auto split: if_splits)
    then show "k \<le> event_sequence e" using c(3) by (auto intro: less_imp_le)
  qed
  show "logRecord e \<noteq> [] \<Longrightarrow> events_of (snd (insertEvent c e')) (event_sequence e) = Some e'"
    unfolding look using none by (simp add: map_add_def)
  show "events_of c k = Some v \<Longrightarrow> events_of (snd (insertEvent c e')) k = Some v"
    unfolding look by (simp add: map_add_def)
  show "logRecord e = [] \<Longrightarrow> fst (insertEvent c e') = 0" using acc by (simp add: insertEvent_def)
qed

lemma replay_events_complete:
  assumes "0 < d" and "replayable d es"
    and "\<forall>c. chunk = Some c \<longrightarrow> (\<forall>p\<in>set es. covers_from sid (eventTime (snd p)) c) \<and> (\<forall>k\<in>dom (events_of c). \<forall>p\<in>set es. k < fst p)"
  shows "(\<forall>c k v. chunk = Some c \<longrightarrow> events_of c k = Some v \<longrightarrow> sealed_in (snd (replay_events d story sid es chunk)) sid k v) \<and>
    (\<forall>p\<in>set es. replay_settles (snd (replay_events d story sid es chunk)) sid p)"
  using assms(2,3)
proof (induction es arbitrary: chunk)
  case Nil
  then show ?case by (auto intro: hand_over_sealed)
next
  case (Cons p es)
  obtain sq e where p: "p = (sq, e)" by fastforce
  let ?e = "e\<lparr>evStoryId := sid\<rparr>"
  let ?c = "replay_chunk d story sid (eventTime e) chunk"
  let ?c' = "snd (insertEvent ?c ?e)"
  have ok: "omap_ok ((sq, e) # es)"
    and each: "\<forall>q\<in>set ((sq, e) # es). fst q = event_sequence (snd q) \<and> unat (eventTime (snd q)) + unat d < 2 ^ 64"
    using Cons.prems(1) unfolding replayable_def p by blast+
  then have sq: "sq = event_sequence e" and room: "unat (eventTime e) + unat d < 2 ^ 64" by simp_all
  have later: "\<forall>q\<in>set es. sq < fst q" using ok by (simp add: omap_ok_Cons)
  have rest: "replayable d es" unfolding replayable_def using ok each by (simp add: omap_ok_Cons)
  have times: "\<forall>q\<in>set es. eventTime e \<le> eventTime (snd q)"
  proof
    fix q assume q: "q \<in> set es"
    then have "event_sequence e \<le> event_sequence (snd q)" using later rest by (force simp: replayable_def sq intro: less_imp_le)
    from seq_time_mono [OF this] show "eventTime e \<le> eventTime (snd q)" by simp
  qed
  have chunk: "\<forall>c. chunk = Some c \<longrightarrow> covers_from sid (eventTime e) c \<and> (\<forall>k\<in>dom (events_of c). k < event_sequence e)"
    using Cons.prems(2) by (auto simp: p sq)
  note takes = replay_chunk_takes [OF assms(1) room chunk, where story = story]
  have c': "\<forall>q\<in>set es. covers_from sid (eventTime (snd q)) ?c'" "\<forall>k\<in>dom (events_of ?c'). \<forall>q\<in>set es. k < fst q"
    using takes(1,2) times later by (auto simp: covers_from_def sq intro: order_trans le_less_trans)
  obtain given others tail_calls where
    step: "replay_events d story sid (p # es) chunk = (others, given @ tail_calls)"
      "snd (replay_events d story sid es (Some ?c')) = tail_calls"
      "\<And>c. chunk = Some c \<Longrightarrow> endTime c \<le> eventTime e \<Longrightarrow> set (hand_over sid c) \<subseteq> set given"
      "fst (insertEvent ?c ?e) = 0 \<Longrightarrow> EventDiscarded sid sq \<in> set given"
    using replay_events_Cons [of d story sid sq e es chunk] unfolding p by metis
  from Cons.IH [OF rest, of "Some ?c'"] c' step(2) have
    IH1: "\<And>k v. events_of ?c' k = Some v \<Longrightarrow> sealed_in tail_calls sid k v" and
    IH2: "\<And>q. q \<in> set es \<Longrightarrow> replay_settles tail_calls sid q" by blast+
  have up: "sealed_in tail_calls sid k v \<Longrightarrow> sealed_in (given @ tail_calls) sid k v" for k v
    by (rule sealed_in_mono) auto
  have "sealed_in (given @ tail_calls) sid k v" if "chunk = Some c" "events_of c k = Some v" for c k v
  proof (cases "endTime c \<le> eventTime e")
    case True
    from sealed_in_mono [OF hand_over_sealed [OF that(2)], of sid "given @ tail_calls"] step(3) [OF that(1) True]
    show ?thesis by auto
  next
    case False
    then have "?c = c" using that(1) by (simp add: replay_chunk_def)
    then show ?thesis using up IH1 takes(4) that(2) by auto
  qed
  moreover have "replay_settles (given @ tail_calls) sid p"
    using takes(3,5) IH1 up step(4) by (auto simp: replay_settles_def p sq)
  moreover have "\<forall>q\<in>set es. replay_settles (given @ tail_calls) sid q"
    using IH2 replay_settles_mono [of tail_calls sid _ "given @ tail_calls"] by (metis set_append sup_ge2)
  ultimately show ?case unfolding step(1) snd_conv by (simp only: list.set ball_simps) blast
qed

lemma replay_story_settles:
  assumes "0 < d" "has_names story" "replayable d (rec_events story)" "p \<in> set (rec_events story)"
  shows "replay_settles (snd (replay_story storyIdOf d story)) (storyIdOf (rec_chronicle story) (rec_story story)) p \<and>
    ReleaseStoryTail (storyIdOf (rec_chronicle story) (rec_story story)) \<in> set (snd (replay_story storyIdOf d story))"
proof -
  let ?sid = "storyIdOf (rec_chronicle story) (rec_story story)"
  let ?calls = "snd (replay_events d story ?sid (rec_events story) None)"
  have "replay_settles ?calls ?sid p" using replay_events_complete [OF assms(1,3), of None] assms(4) by simp
  then have "replay_settles (?calls @ [ReleaseStoryTail ?sid]) ?sid p" by (rule replay_settles_mono) auto
  moreover have "snd (replay_story storyIdOf d story) = ?calls @ [ReleaseStoryTail ?sid]"
    using assms(2,4) by (auto simp: replay_story_def recoveredStoryId_def Let_def split_beta)
  ultimately show ?thesis by simp
qed

definition replay_duration :: "KeeperDataStore \<Rightarrow> u64" where
  "replay_duration ds = ucast (max (story_chunk_duration_secs ds) 1) * 1000000000"

lemma replay_duration_pos: "0 < replay_duration ds"
proof -
  let ?m = "max (story_chunk_duration_secs ds) 1"
  have "unat ?m < 2 ^ 32" using unsigned_less [of ?m, where ?'a = nat] by simp
  then have "unat (replay_duration ds) = unat ?m * 1000000000"
    by (simp add: replay_duration_def unat_word_ariths unsigned_ucast_eq take_bit_nat_eq_self)
  moreover have "1 \<le> unat ?m" using max.cobounded2 [of 1 "story_chunk_duration_secs ds"] by (simp add: word_le_nat_alt)
  ultimately show ?thesis by (simp add: word_less_nat_alt)
qed

section \<open>Properties of the store\<close>

text \<open>
  Claim C17. No event is lost in the keeper: over every run of a new store (any interleaving of ingestion, starts and stops of
  stories, collection, decay, retirement, sealing of late events and shutdown, with the clock below the year 2116), each
  event with a record that was taken in waits in the orphan queue, or waits in or is held by its story's pipeline, or
  is in a sealed chunk handed to the retention store under its story.
\<close>

theorem ingested_event_accounted_for:
  assumes "duration \<noteq> 0" and "unat duration * 1000000000 \<le> 2 ^ 56" and "unat window * 1000000000 \<le> 2 ^ 56"
    and "ds_run (new_KeeperDataStore duration window resend) es calls ds" and "e \<in> set es" and "logRecord e \<noteq> []"
  shows "e \<in> set (orphanEventQueue ds) \<or> (\<exists>pl. ds_pipeline ds (evStoryId e) = Some pl \<and> kp_keeps pl e) \<or>
    (\<exists>c. IngestSealedChunk (evStoryId e) c \<in> set calls \<and> event_sequence e \<in> dom (events_of c))"
  using ds_run_conserves [OF assms(4) new_store_inv [OF assms(1-3)]] assms(5,6)
  by (simp add: conserves_def ds_keeps_def handed_on_def)

text \<open>
  Claim C19. No handle and no waiting entry outlives its pipeline: in every reachable state the ingestion handles are
  exactly the stories with a pipeline and only these wait for their exit, so ingestion, draining, collection and retirement
  never reach a deleted pipeline, and all of them return.
\<close>

theorem store_never_dangles:
  assumes "duration \<noteq> 0" and "unat duration * 1000000000 \<le> 2 ^ 56" and "unat window * 1000000000 \<le> 2 ^ 56"
    and "ds_run (new_KeeperDataStore duration window resend) es calls ds"
  shows "set (storyIngestionHandles ds) = dom (ds_pipeline ds) \<and> dom (map_of (pipelinesWaitingForExit ds)) \<subseteq> dom (ds_pipeline ds) \<and>
    ingestLogEvent e ds \<noteq> None \<and> drainOrphanEvents ds \<noteq> None \<and> ds_collect_pipelines now ds \<noteq> None \<and> retire_pipelines now ds \<noteq> None"
proof -
  have inv: "ds_inv ds" by (rule conserves_inv [OF ds_run_conserves [OF assms(4) new_store_inv [OF assms(1-3)]]])
  then have "set (storyIngestionHandles ds) = dom (ds_pipeline ds)" "dom (map_of (pipelinesWaitingForExit ds)) \<subseteq> dom (ds_pipeline ds)"
    unfolding ds_inv_def by blast+
  with inv show ?thesis by (simp add: ingest_total drain_total collect_total retire_total)
qed

text \<open>
  Claim C20. An event of a story this keeper never recorded keeps the shutdown waiting for ever: it stays in the orphan
  queue through every round of the collection task, and while it is there the task's loop goes on, although the data store is
  shutting down and however many rounds pass.
\<close>

theorem unknown_story_blocks_shutdown:
  assumes "ds_inv ds" and "e \<in> set (orphanEventQueue ds)" and "ds_pipeline ds (evStoryId e) = None"
    and "map_of (retiredStoryNames ds) (evStoryId e) = None" and "\<forall>t\<in>set ts. clock_ok (fst (snd t))"
    and "collection_rounds ts (shutdownDataCollection now ds) = Some (ds', calls)"
  shows "e \<in> set (orphanEventQueue ds') \<and> collection_goes_on ds'"
proof -
  have "stranded e (shutdownDataCollection now ds)"
    using assms(2-4) by (simp add: stranded_def shutdownDataCollection_def)
  from collection_rounds_stranded [OF conserves_inv [OF shutdown_conserves [OF assms(1)]] this assms(5,6)] show ?thesis
    by (auto simp: stranded_def collection_goes_on_def queue_is_empty_def)
qed

text \<open>
  Claim C18. Replay after a restart hands everything over: each event recovered for a story with names is, with the story id
  computed from the names, in a sealed chunk handed to the retention store (or, without a record, reported as
  discarded), and the story's tail is released. Recovered events are ordered by identity, and each leaves room for a chunk on
  the clock.
\<close>

theorem replay_hands_over_everything:
  assumes "(wsid, story) \<in> set (rec_stories recovered)" and "has_names story" and "replayable (replay_duration ds) (rec_events story)"
    and "p \<in> set (rec_events story)" and "replayRecoveredEvents storyIdOf ds recovered = (n, recovered', calls)"
  shows "replay_settles calls (storyIdOf (rec_chronicle story) (rec_story story)) p \<and>
    ReleaseStoryTail (storyIdOf (rec_chronicle story) (rec_story story)) \<in> set calls"
proof -
  have "calls = concat (map (\<lambda>q. snd (replay_story storyIdOf (replay_duration ds) (snd q))) (rec_stories recovered))"
    using assms(5) by (simp add: replayRecoveredEvents_def replay_duration_def Let_def split_beta comp_def)
  with assms(1) have "set (snd (replay_story storyIdOf (replay_duration ds) story)) \<subseteq> set calls" by (auto 0 3)
  with replay_story_settles [OF replay_duration_pos assms(2-4), of storyIdOf] show ?thesis
    using replay_settles_mono by blast
qed

section \<open>Witnesses\<close>

abbreviation ex_store :: KeeperDataStore where
  "ex_store \<equiv> new_KeeperDataStore 30 60 300"

lemma ex_store_inv: "ds_inv ex_store"
  by (rule new_store_inv) simp_all

lemma ex_run:
  "\<exists>calls ds. ds_run ex_store [ex_event 200000000000 3 1] calls ds \<and> ds_pipeline ds 7 \<noteq> None"
proof -
  let ?e = "ex_event 200000000000 3 1"
  have t: "clock_ok 200000000000" "clock_ok (eventTime ?e)" by (simp_all add: clock_ok_def ex_event_def)
  obtain r ds1 c1 where start: "startStoryRecording [] [] 7 200000000000 ex_store = Some (r, ds1, c1)" and one: "ds_pipeline ds1 7 \<noteq> None"
    by (simp add: startStoryRecording_def addStoryPipeline_def new_KeeperStoryPipeline_def new_KeeperDataStore_def
        addStoryIngestionHandle_def Let_def omap_simps)
  have inv1: "ds_inv ds1" by (rule conserves_inv [OF start_conserves [OF ex_store_inv t(1) start]])
  from ingest_total [OF inv1, of ?e] obtain ds2 where ingest: "ingestLogEvent ?e ds1 = Some ds2" by blast
  have two: "ds_pipeline ds2 7 \<noteq> None"
    using ingest one by (auto simp: ingestLogEvent_def push_orphan_def omap_simps split: if_splits option.splits)
  from RunStep [OF RunStep [OF RunNil StartStory [OF start t(1)]] Ingest [OF ingest t(2)]] two show ?thesis by auto
qed

theorem ingested_event_accounted_for_witness:
  "\<exists>calls ds. ds_run ex_store [ex_event 200000000000 3 1] calls ds \<and> ds_pipeline ds 7 \<noteq> None \<and>
     (ex_event 200000000000 3 1 \<in> set (orphanEventQueue ds) \<or> (\<exists>pl. ds_pipeline ds 7 = Some pl \<and> kp_keeps pl (ex_event 200000000000 3 1)) \<or>
      (\<exists>c. IngestSealedChunk 7 c \<in> set calls \<and> event_sequence (ex_event 200000000000 3 1) \<in> dom (events_of c)))"
proof -
  let ?e = "ex_event 200000000000 3 1"
  obtain calls ds where run: "ds_run ex_store [?e] calls ds" "ds_pipeline ds 7 \<noteq> None" using ex_run by blast
  have "evStoryId ?e = 7" "logRecord ?e \<noteq> []" by (simp_all add: ex_event_def)
  with ingested_event_accounted_for [of 30 60 300, OF _ _ _ run(1), of ?e] run show ?thesis
    by (intro exI [of _ calls] exI [of _ ds]) simp
qed

theorem store_never_dangles_witness:
  "\<exists>calls ds. ds_run ex_store [ex_event 200000000000 3 1] calls ds \<and> 7 \<in> set (storyIngestionHandles ds) \<and>
     ingestLogEvent (ex_event 200000000000 3 1) ds \<noteq> None"
proof -
  let ?e = "ex_event 200000000000 3 1"
  obtain calls ds where run: "ds_run ex_store [?e] calls ds" "ds_pipeline ds 7 \<noteq> None" using ex_run by blast
  with store_never_dangles [of 30 60 300, OF _ _ _ run(1), of ?e] show ?thesis
    by (intro exI [of _ calls] exI [of _ ds]) (simp add: domIff)
qed

lemma ex_stranded_inv: "ds_inv (push_orphan (ex_event 100 3 1) ex_store)"
  by (rule conserves_inv [OF push_orphan_conserves [OF ex_store_inv]]) (simp add: clock_ok_def ex_event_def)

theorem unknown_story_blocks_shutdown_witness:
  "\<exists>ds' calls. collection_rounds [(1, 2, 3), (4, 5, 6)] (shutdownDataCollection 0 (push_orphan (ex_event 100 3 1) ex_store)) =
     Some (ds', calls) \<and> collection_goes_on ds'"
proof -
  let ?ds = "push_orphan (ex_event 100 3 1) ex_store"
  obtain ds' calls where run: "collection_rounds [(1, 2, 3), (4, 5, 6)] (shutdownDataCollection 0 ?ds) = Some (ds', calls)"
    by (simp add: collection_round_def ds_collectIngestedEvents_def drainOrphanEvents_def ingestLogEvent_def hasStoryIngestionHandle_def
        ds_collect_pipelines_def on_pipelines_def ds_extractDecayedStoryChunks_def retireDecayedPipelines_def retire_pipelines_def
        sealOrphanedEvents_def orphanStoryIds_def seal_orphans_of_def shutdownDataCollection_def push_orphan_def new_KeeperDataStore_def
        oset_insert_def)
  have "ex_event 100 3 1 \<in> set (orphanEventQueue ?ds)" "ds_pipeline ?ds (evStoryId (ex_event 100 3 1)) = None"
    "map_of (retiredStoryNames ?ds) (evStoryId (ex_event 100 3 1)) = None"
    by (simp_all add: push_orphan_def new_KeeperDataStore_def)
  from unknown_story_blocks_shutdown [OF ex_stranded_inv this _ run] run show ?thesis by (simp add: clock_ok_def)
qed

definition ex_recovered :: RecoveredStory where
  "ex_recovered = (new_RecoveredStory 7)\<lparr>has_names := True, rec_events := logEvents ex_chunk\<rparr>"

theorem replay_hands_over_everything_witness:
  "\<exists>n r calls c. replayRecoveredEvents (\<lambda>_ _. 9) ex_store
       \<lparr>rec_segments = [], rec_stories = [(7, ex_recovered)], dropped_in = [], reusable_spare = None, bytes_read = 0,
        oldest_segment_age_secs = 0\<rparr> = (n, r, calls) \<and>
     IngestSealedChunk 9 c \<in> set calls \<and> events_of c (12, 3, 1) \<noteq> None"
proof -
  let ?r = "\<lparr>rec_segments = [], rec_stories = [(7, ex_recovered)], dropped_in = [], reusable_spare = None, bytes_read = 0,
        oldest_segment_age_secs = 0\<rparr>"
  obtain n r calls where ret: "replayRecoveredEvents (\<lambda>_ _. 9) ex_store ?r = (n, r, calls)" by (metis prod_cases3)
  have d: "replay_duration ex_store = 30000000000" by (simp add: replay_duration_def new_KeeperDataStore_def max_def word_le_nat_alt)
  have "replayable (replay_duration ex_store) (rec_events ex_recovered)"
    by (simp add: d replayable_def ex_recovered_def omap_ok_def ex_chunk_simps)
  moreover have "has_names ex_recovered" "((12, 3, 1), ex_event 12 3 1) \<in> set (rec_events ex_recovered)"
    by (simp_all add: ex_recovered_def ex_chunk_simps)
  ultimately have "replay_settles calls 9 ((12, 3, 1), ex_event 12 3 1)"
    using replay_hands_over_everything [of 7 ex_recovered ?r ex_store _ "\<lambda>_ _. 9", OF _ _ _ _ ret] by simp
  then have "\<exists>c. IngestSealedChunk 9 c \<in> set calls \<and> events_of c (12, 3, 1) \<noteq> None"
    by (auto simp: replay_settles_def sealed_in_def ex_event_def)
  with ret show ?thesis by blast
qed

end
