(* ===== verification/KeeperIndexCounts.thy ===== *)
theory KeeperIndexCounts
  imports KeeperChunkRetentionStore
begin

text \<open>
  The count of indexed events in the retention store: a chunk's \<^verbatim>\<open>indexed_count\<close> is at least the number of index entries
  that point to it, and sealing an event a second time makes it larger. A chunk whose count is larger than its entries is never
  freed for being confirmed, whatever the keeper does with its story short of releasing its tail or dropping it.
\<close>

section \<open>Chunks that count too many events\<close>

definition overcounted :: "StoryId \<Rightarrow> ptr \<Rightarrow> KeeperChunkRetentionStore \<Rightarrow> bool" where
  "overcounted sid p s \<longleftrightarrow> (\<exists>st. tracked s sid p = Some st \<and> entries p (index (story_of sid s)) < indexed_count st)"

lemma overcounted_cong:
  "map_of (storyRetention s') sid = map_of (storyRetention s) sid \<Longrightarrow> overcounted sid p s' = overcounted sid p s"
  by (simp add: overcounted_def tracked_def story_of_def)

lemma overcountedI:
  assumes "overcounted sid p s"
    and "\<And>st. tracked s sid p = Some st \<Longrightarrow> \<exists>st'. tracked s' sid p = Some st' \<and>
      indexed_count st + entries p (index (story_of sid s')) \<le> indexed_count st' + entries p (index (story_of sid s))"
  shows "overcounted sid p s'"
proof -
  from assms(1) obtain st where st: "tracked s sid p = Some st" "entries p (index (story_of sid s)) < indexed_count st"
    by (auto simp: overcounted_def)
  from assms(2) [OF st(1)] obtain st' where st': "tracked s' sid p = Some st'"
    "indexed_count st + entries p (index (story_of sid s')) \<le> indexed_count st' + entries p (index (story_of sid s))" by blast
  from st(2) st'(2) have "entries p (index (story_of sid s')) < indexed_count st'" by linarith
  with st'(1) show ?thesis by (auto simp: overcounted_def)
qed

lemma story_of_put_other: "sid \<noteq> sid' \<Longrightarrow> story_of sid (put_story sid' story s) = story_of sid s"
  by (simp add: story_of_def omap_simps)

section \<open>Operations that keep the excess\<close>

lemma over_maybeFree:
  assumes ret: "maybeFreeChunk now sid' r s = Some s'" and over: "overcounted sid p s"
  shows "overcounted sid p s'"
proof -
  obtain story st c where a: "map_of (storyRetention s) sid' = Some story" "map_of (chunks story) r = Some st" "heap s r = Some c"
    using ret by (cases "map_of (storyRetention s) sid'"; cases "heap s r") (auto simp: maybeFreeChunk_def bind_eq_Some_conv)
  show ?thesis
  proof (cases "sid = sid'")
    case other: False
    have "map_of (storyRetention s') sid = map_of (storyRetention s) sid"
      by (rule maybeFreeChunk_cases [OF a, of now]) (use ret other in \<open>auto simp: omap_simps\<close>)
    with over overcounted_cong [of s' sid s p] show ?thesis by simp
  next
    case True
    note idx = maybeFreeChunk_index [OF ret]
    show ?thesis
    proof (rule maybeFreeChunk_cases [OF a, of now])
      fix s2 st'
      assume *: "maybeFreeChunk now sid' r s = Some s2" "indexed_count st' = indexed_count st"
        "storyRetention s2 = omap_put sid' (story\<lparr>chunks := omap_put r st' (chunks story)\<rparr>) (storyRetention s)"
      then have "s2 = s'" using ret by simp
      then have "tracked s' sid p = (if p = r then Some st' else tracked s sid p)" using *(3) a(1) True by (simp add: tracked_def omap_simps)
      moreover have "tracked s sid r = Some st" using a True by (simp add: tracked_def)
      ultimately have "\<exists>st1. tracked s' sid p = Some st1 \<and> indexed_count st1 = indexed_count st0" if "tracked s sid p = Some st0" for st0
        using that *(2) by (cases "p = r") simp_all
      then show ?thesis using idx True by (intro overcountedI [OF over]) fastforce
    next
      fix s2
      assume *: "maybeFreeChunk now sid' r s = Some s2" "indexed_count st = 0"
        "storyRetention s2 = omap_put sid' (story\<lparr>chunks := omap_erase r (chunks story)\<rparr>) (storyRetention s)"
      have "p \<noteq> r" using over *(2) a True by (auto simp: overcounted_def tracked_def)
      moreover have "s2 = s'" using *(1) ret by simp
      ultimately have "tracked s' sid p = tracked s sid p" using *(3) a(1) True by (simp add: tracked_def omap_simps)
      then show ?thesis using over idx True by (simp add: overcounted_def)
    qed
  qed
qed

lemma over_free_loop: "free_loop now sid' ps s = Some s' \<Longrightarrow> overcounted sid p s \<Longrightarrow> overcounted sid p s'"
  by (induction ps arbitrary: s) (auto simp: bind_eq_Some_conv dest: over_maybeFree)

lemma over_free_stories: "free_stories now sids s = Some s' \<Longrightarrow> overcounted sid p s \<Longrightarrow> overcounted sid p s'"
  by (induction sids arbitrary: s) (auto simp: bind_eq_Some_conv dest: over_free_loop)

lemma over_evict:
  assumes ret: "evict_oldest now sid' s = Some s'" and over: "overcounted sid p s"
  shows "overcounted sid p s'"
proof (cases "sid = sid'")
  case False
  let ?story = "story_of sid' s"
  obtain k r rest where idx: "index ?story = (k, r) # rest" using ret by (auto simp: evict_oldest_def Let_def split: list.splits)
  have other: "overcounted sid p (put_story sid' story s)" for story
    using over False overcounted_cong [of "put_story sid' story s" sid s p] by (simp add: omap_simps)
  from ret show ?thesis
    using other by (auto simp: evict_oldest_def Let_def idx split: option.splits if_splits dest: over_maybeFree)
next
  case True
  let ?story = "story_of sid' s"
  obtain k r rest where idx: "index ?story = (k, r) # rest" using ret by (auto simp: evict_oldest_def Let_def split: list.splits)
  have shrink: "entries p rest \<le> entries p (index ?story)" by (simp add: idx entries_def)
  have plain: "overcounted sid p (put_story sid' (?story\<lparr>index := rest\<rparr>) s)"
    using shrink True by (intro overcountedI [OF over]) (auto simp: tracked_story_of [of s])
  show ?thesis
  proof (cases "map_of (chunks ?story) r")
    case None
    with ret plain show ?thesis by (simp add: evict_oldest_def Let_def idx)
  next
    case (Some st)
    show ?thesis
    proof (cases "0 < indexed_count st")
      case zero: False
      with ret plain Some show ?thesis by (simp add: evict_oldest_def Let_def idx)
    next
      case pos: True
      define st1 where "st1 = st\<lparr>indexed_count := indexed_count st - 1\<rparr>"
      let ?s1 = "put_story sid' (?story\<lparr>index := rest, chunks := omap_put r st1 (chunks ?story)\<rparr>) s"
      have one: "overcounted sid p ?s1"
      proof (rule overcountedI [OF over])
        fix st0 assume st0: "tracked s sid p = Some st0"
        show "\<exists>st'. tracked ?s1 sid p = Some st' \<and>
            indexed_count st0 + entries p (index (story_of sid ?s1)) \<le> indexed_count st' + entries p (index (story_of sid s))"
        proof (cases "p = r")
          case True
          with st0 Some \<open>sid = sid'\<close> have "st0 = st" by (simp add: tracked_story_of)
          moreover have "entries p (index ?story) = Suc (entries p rest)" using True by (simp add: idx entries_def)
          ultimately show ?thesis using True \<open>sid = sid'\<close> pos by (simp add: omap_simps st1_def)
        next
          case False
          with st0 \<open>sid = sid'\<close> shrink show ?thesis by (simp add: omap_simps tracked_story_of [of s])
        qed
      qed
      from ret Some pos have "(if indexed_count st1 = 0 then maybeFreeChunk now sid' r ?s1 else Some ?s1) = Some s'"
        by (simp add: evict_oldest_def Let_def idx st1_def [symmetric] del: One_nat_def)
      with one over_maybeFree show ?thesis by (auto split: if_splits)
    qed
  qed
qed

lemma over_evict_loop: "evict_loop n now sid' s = Some s' \<Longrightarrow> overcounted sid p s \<Longrightarrow> overcounted sid p s'"
  by (induction n arbitrary: s) (auto simp: bind_eq_Some_conv dest: over_evict split: if_splits)

text \<open>Callbacks, reports and the timer.\<close>

lemma over_put_state:
  assumes over: "overcounted sid p s" and st: "tracked s sid' r = Some st" "indexed_count st' = indexed_count st"
  shows "overcounted sid p (put_state sid' r st' s)"
proof (rule overcountedI [OF over])
  fix st0 assume "tracked s sid p = Some st0"
  then show "\<exists>st1. tracked (put_state sid' r st' s) sid p = Some st1 \<and>
      indexed_count st0 + entries p (index (story_of sid (put_state sid' r st' s))) \<le> indexed_count st1 + entries p (index (story_of sid s))"
    using st by (cases "sid = sid'") (auto simp: put_state_def Let_def omap_simps tracked_story_of [of s] story_of_put_other)
qed

lemma over_delete: "delete_chunk r s = Some s' \<Longrightarrow> overcounted sid p s' = overcounted sid p s"
  by (rule overcounted_cong) (auto simp: delete_chunk_def split: option.splits)

lemma over_callbacks:
  "markShipped now r s = Some s' \<Longrightarrow> overcounted sid p s \<Longrightarrow> overcounted sid p s'"
  "markSendFailed now r s = Some s' \<Longrightarrow> overcounted sid p s \<Longrightarrow> overcounted sid p s'"
  using over_put_state over_maybeFree over_delete
  by (fastforce simp: markShipped_def markSendFailed_def bind_eq_Some_conv split: option.splits)+

lemma over_view:
  assumes "overcounted sid p s" "chunks story = chunks (story_of sid' s)" "index story = index (story_of sid' s)"
  shows "overcounted sid p (put_story sid' story s)"
  using assms by (cases "sid = sid'") (auto simp: overcounted_def tracked_story_of [of s] story_of_put_other)

lemma drop_chunks_retention: "drop_chunks ps s = Some s' \<Longrightarrow> storyRetention s' = storyRetention s"
  by (induction ps s rule: drop_chunks.induct) (auto simp: Let_def bind_eq_Some_conv delete_chunk_def split: if_splits option.splits)

lemma over_report:
  assumes ret: "applyReport now sid' report s = Some s'" and over: "overcounted sid p s"
    and other: "watermark report = kStoryDroppedWatermark \<Longrightarrow> sid' \<noteq> sid"
  shows "overcounted sid p s'"
proof (cases "watermark report = kStoryDroppedWatermark")
  case True
  with ret have d: "keeper_dropStory now sid' s = Some s'" by (simp add: applyReport_def)
  then have "map_of (storyRetention s') sid = map_of (storyRetention s) sid"
    using other [OF True] by (auto simp: keeper_dropStory_def Let_def omap_simps dest!: drop_chunks_retention split: option.splits)
  with over overcounted_cong [of s' sid s p] show ?thesis by simp
next
  case False
  let ?s1 = "put_story sid' (report_view report (story_of sid' s)) s"
  have "overcounted sid p ?s1" by (rule over_view [OF over]) simp_all
  moreover have "free_loop now sid' (story_ptrs sid' ?s1) ?s1 = Some s'" using ret False by (simp add: applyReport_def report_view_def Let_def)
  ultimately show ?thesis using over_free_loop by blast
qed

lemma over_marked:
  assumes over: "overcounted sid p s" and upd: "\<And>st. indexed_count (upd st) = indexed_count st"
  shows "overcounted sid p (s\<lparr>storyRetention := map (\<lambda>(sid, story). (sid, marked pick upd story)) (storyRetention s)\<rparr>)"
proof -
  let ?s = "s\<lparr>storyRetention := map (\<lambda>(sid, story). (sid, marked pick upd story)) (storyRetention s)\<rparr>"
  obtain story st where st: "map_of (storyRetention s) sid = Some story" "map_of (chunks story) p = Some st"
    "entries p (index story) < indexed_count st"
    using over by (cases "map_of (storyRetention s) sid") (auto simp: overcounted_def tracked_def story_of_def)
  have "map_of (storyRetention ?s) sid = Some (marked pick upd story)" by (simp add: map_of_map_key st(1))
  moreover have "map_of (chunks (marked pick upd story)) p = Some (if pick story p st then upd st else st)" by (simp add: map_of_marked st(2))
  ultimately show ?thesis using st(3) upd by (simp add: overcounted_def tracked_def story_of_def)
qed

lemma over_timers:
  assumes inv: "store_inv P s" and over: "overcounted sid p s"
  shows "requeueStalled now a s = Some (ps, s') \<Longrightarrow> overcounted sid p s'" "flushUnshippedChunks s = (qs, s'') \<Longrightarrow> overcounted sid p s''"
proof -
  assume "requeueStalled now a s = Some (ps, s')"
  then have "s' = s\<lparr>storyRetention := map (\<lambda>(sid, story). (sid, marked (\<lambda>story p st. is_stalled now a story (the (heap s p)) st)
         (\<lambda>st. st\<lparr>in_queue := True, last_activity := now\<rparr>) story)) (storyRetention s)\<rparr>"
    by (simp add: requeueStalled_def requeue_stories_eq [OF live_chunks [OF inv]])
  then show "overcounted sid p s'" using over by (simp add: over_marked)
next
  assume "flushUnshippedChunks s = (qs, s'')"
  then have "s'' = s\<lparr>storyRetention := map (\<lambda>(sid, story). (sid, marked (\<lambda>story p st. unshipped st) (\<lambda>st. st\<lparr>in_queue := True\<rparr>) story)) (storyRetention s)\<rparr>"
    by (auto simp: flushUnshippedChunks_def marked_def)
  then show "overcounted sid p s''" using over by (simp add: over_marked)
qed

lemma over_fetch:
  assumes inv: "store_inv P s" and ret: "fetchRange now sid' a b n s = Some (r, s')" and over: "overcounted sid p s"
  shows "overcounted sid p s'"
proof (cases "map_of (storyRetention s) sid'")
  case None
  with ret over show ?thesis by (simp add: fetchRange_def)
next
  case (Some story)
  have "\<forall>(p, st)\<in>set (chunks story). heap s p \<noteq> None" using live_chunks [OF inv] map_of_SomeD [OF Some] by blast
  from fetch_chunks_spec [OF this] obtain fl m cs where
    run: "fetch_chunks (heap s) (archiveVisibilityDelay s) now a b story (chunks story) (hot_floor new_HotRangeResponse, []) = Some (fl, m, cs)"
    and rel: "list_all2 (\<lambda>x y. fst y = fst x \<and> same_delivery (snd x) (snd y) \<and> indexed_count (snd y) = indexed_count (snd x)) (chunks story) cs"
    by blast
  have s': "s' = put_story sid' (story\<lparr>chunks := cs\<rparr>) s" using ret Some run by (simp add: fetchRange_def)
  show ?thesis
  proof (rule overcountedI [OF over])
    fix st assume st: "tracked s sid p = Some st"
    show "\<exists>st'. tracked s' sid p = Some st' \<and>
        indexed_count st + entries p (index (story_of sid s')) \<le> indexed_count st' + entries p (index (story_of sid s))"
    proof (cases "sid = sid'")
      case True
      then have "map_of (chunks story) p = Some st" "story_of sid s = story" using st Some by (simp_all add: tracked_def story_of_def)
      with list_all2_keys(1) [OF rel, of p] True show ?thesis by (auto simp: s' option_rel_Some1)
    next
      case False
      with st show ?thesis by (simp add: s' story_of_put_other)
    qed
  qed
qed

section \<open>Sealing\<close>

text \<open>Entries that move to another chunk leave the count of the old one.\<close>

lemma entries_put_le: "omap_ok m \<Longrightarrow> q \<noteq> p \<Longrightarrow> entries p (omap_put k q m) \<le> entries p m"
  using entries_put [of m p k q] by simp

lemma entries_put_moved:
  assumes "omap_ok m" "map_of m k = Some p" "q \<noteq> p"
  shows "entries p (omap_put k q m) < entries p m"
proof -
  have "(k, p) \<in> set m" using assms(2) by (rule map_of_SomeD)
  then obtain a b where m: "m = a @ (k, p) # b" by (auto simp: in_set_conv_decomp)
  show ?thesis using omap_put_mid [of a k p b q] assms(1,3) by (simp add: m entries_def)
qed

lemma entries_fold_le:
  "omap_ok m \<Longrightarrow> q \<noteq> p \<Longrightarrow> entries p (fold (\<lambda>e. omap_put (fst e) q) es m) \<le> entries p m"
proof (induction es arbitrary: m)
  case (Cons e es)
  have "omap_ok (omap_put (fst e) q m)" using Cons.prems(1) by blast
  from Cons.IH [OF this Cons.prems(2)] entries_put_le [OF Cons.prems, of "fst e"] show ?case by simp
qed simp

lemma entries_fold_moved:
  "omap_ok m \<Longrightarrow> q \<noteq> p \<Longrightarrow> map_of m k = Some p \<Longrightarrow> k \<in> fst ` set es \<Longrightarrow>
   entries p (fold (\<lambda>e. omap_put (fst e) q) es m) < entries p m"
proof (induction es arbitrary: m)
  case (Cons e es)
  have ok: "omap_ok (omap_put (fst e) q m)" using Cons.prems(1) by blast
  show ?case
  proof (cases "fst e = k")
    case True
    with entries_fold_le [OF ok Cons.prems(2), of es] entries_put_moved [OF Cons.prems(1,3,2)] show ?thesis by simp
  next
    case False
    then have "map_of (omap_put (fst e) q m) k = Some p" "k \<in> fst ` set es" using Cons.prems(3,4) by (simp_all add: omap_simps)
    from Cons.IH [OF ok Cons.prems(2) this] entries_put_le [OF Cons.prems(1,2), of "fst e"] show ?thesis by simp
  qed
qed simp

lemma ingestSealedChunk_taken:
  assumes "ingestSealedChunk now sid q s = Some (ps, s')" "heap s q = Some c" "q \<noteq> 0"
    and "\<not> chunk_empty c" "storyWasDropped now sid s = (False, s1)"
  obtains s2 s3 where "storyRetention s2 = omap_put sid (ingested now q c (story_of sid s)) (storyRetention s)"
    "enforceCapacity now sid s2 = Some s3" "storyRetention s' = storyRetention s3"
proof -
  have so: "story_of sid s1 = story_of sid s" "storyRetention s1 = storyRetention s"
    using storyWasDropped_frame(2) [of now sid s] assms(5) by (simp_all add: story_of_def)
  from assms obtain s3 where "enforceCapacity now sid ((put_story sid (ingested now q c (story_of sid s1)) s1)
      \<lparr>retainedBytes := retainedBytes s1 + approx_bytes (sealed_state now c), unconfirmedBytes := unconfirmedBytes s1 + approx_bytes (sealed_state now c)\<rparr>) = Some s3"
    "s' = warnOnCapCrossing s3"
    by (auto simp: ingestSealedChunk_def Let_def ingested_def)
  from that [OF _ this(1)] this(2) so show thesis by simp
qed

lemma ingested_lookup:
  assumes "storyRetention s2 = omap_put sid (ingested now q c (story_of sid s)) (storyRetention s)" "q \<noteq> p"
  shows "story_of sid s2 = ingested now q c (story_of sid s)" "tracked s2 sid p = tracked s sid p"
proof -
  show so: "story_of sid s2 = ingested now q c (story_of sid s)" by (simp add: story_of_def [of sid s2] assms(1) omap_simps)
  have "map_of (omap_emplace q st m) p = map_of m p" for st and m :: "(ptr, ChunkState) omap"
    using assms(2) by (simp add: omap_simps split: option.split)
  then show "tracked s2 sid p = tracked s sid p" by (simp add: tracked_story_of so) (simp add: ingested_def)
qed

lemma over_enforce: "enforceCapacity now sid' s = Some s' \<Longrightarrow> overcounted sid p s \<Longrightarrow> overcounted sid p s'"
  unfolding enforceCapacity_def by (rule over_evict_loop)

lemma over_ingest:
  assumes inv: "omap_ok (index (story_of sid' s))" and ret: "ingestSealedChunk now sid' q s = Some (ps, s')"
    and over: "overcounted sid p s" and new: "q \<noteq> p"
  shows "overcounted sid p s'"
proof (cases "q = 0 \<or> heap s q = None")
  case True
  with ret over show ?thesis by (cases "q = 0") (auto simp: ingestSealedChunk_def)
next
  case False
  then obtain c where c: "heap s q = Some c" by blast
  obtain d s1 where d: "storyWasDropped now sid' s = (d, s1)" by fastforce
  have s1: "storyRetention s1 = storyRetention s" using storyWasDropped_frame(2) [of now sid' s] d by simp
  consider (gone) "chunk_empty c \<or> d" | (taken) "\<not> chunk_empty c" "\<not> d" by blast
  then show ?thesis
  proof cases
    case gone
    have "storyRetention s' = storyRetention s"
      using ret False c d s1 gone by (auto simp: ingestSealedChunk_def delete_chunk_def split: option.splits if_splits)
    with over overcounted_cong [of s' sid s p] show ?thesis by simp
  next
    case taken
    then have d0: "storyWasDropped now sid' s = (False, s1)" using d by simp
    have q0: "q \<noteq> 0" using False by simp
    obtain s2 s3 where s2: "storyRetention s2 = omap_put sid' (ingested now q c (story_of sid' s)) (storyRetention s)"
      and s3: "enforceCapacity now sid' s2 = Some s3" "storyRetention s' = storyRetention s3"
      by (rule ingestSealedChunk_taken [OF ret c q0 taken(1) d0])
    have "overcounted sid p s2"
    proof (cases "sid = sid'")
      case other: False
      then have "map_of (storyRetention s2) sid = map_of (storyRetention s) sid" by (simp add: s2 omap_simps)
      with over overcounted_cong [of s2 sid s p] show ?thesis by simp
    next
      case True
      from ingested_lookup [OF s2 new] True
      have "tracked s2 sid p = tracked s sid p" "story_of sid s2 = ingested now q c (story_of sid s)" by simp_all
      with over entries_fold_le [OF inv new, of "logEvents c"] True show ?thesis by (auto simp: overcounted_def ingested_def)
    qed
    from over_enforce [OF s3(1) this] overcounted_cong [of s' sid s3 p] s3(2) show ?thesis by simp
  qed
qed

lemma ingest_moves_entry:
  assumes inv: "omap_ok (index (story_of sid s))" and ret: "ingestSealedChunk now sid q s = Some (ps, s')"
    and q: "q \<noteq> 0" "q \<noteq> p" "heap s q = Some c" "\<not> fst (storyWasDropped now sid s)"
    and st: "tracked s sid p = Some st" "entries p (index (story_of sid s)) \<le> indexed_count st"
    and k: "map_of (index (story_of sid s)) k = Some p" "k \<in> fst ` set (logEvents c)"
  shows "overcounted sid p s'"
proof -
  have "\<not> chunk_empty c" using k(2) by auto
  moreover obtain s1 where "storyWasDropped now sid s = (False, s1)" using q(4) by (cases "storyWasDropped now sid s") simp
  ultimately obtain s2 s3 where s2: "storyRetention s2 = omap_put sid (ingested now q c (story_of sid s)) (storyRetention s)"
    and s3: "enforceCapacity now sid s2 = Some s3" "storyRetention s' = storyRetention s3"
    by (rule ingestSealedChunk_taken [OF ret q(3,1)])
  have "tracked s2 sid p = Some st" "story_of sid s2 = ingested now q c (story_of sid s)"
    using ingested_lookup [OF s2 q(2)] st(1) by simp_all
  moreover have "entries p (index (ingested now q c (story_of sid s))) < entries p (index (story_of sid s))"
    using entries_fold_moved [OF inv q(2) k] by (simp add: ingested_def)
  ultimately have "overcounted sid p s2" using st(2) by (simp add: overcounted_def)
  from over_enforce [OF s3(1) this] overcounted_cong [of s' sid s3 p] s3(2) show ?thesis by simp
qed

section \<open>Every step keeps the excess\<close>

text \<open>The two steps that end it: the story's tail is released, or the story is reported as destroyed.\<close>

fun lets_go :: "StoryId \<Rightarrow> keeper_op \<Rightarrow> bool" where
  "lets_go sid (ReleaseTail now s) = (s = sid)"
| "lets_go sid op = drops_story sid op"

lemma over_step:
  assumes inv: "keeper_inv k" and ret: "keeper_step op k = Some k'" and over: "overcounted sid p (kstore k)" and stays: "\<not> lets_go sid op"
  shows "overcounted sid p (kstore k')"
proof -
  note f = pool_facts [OF inv]
  have live: "heap (kstore k) p \<noteq> None"
  proof -
    from over obtain st where "tracked (kstore k) sid p = Some st" by (auto simp: overcounted_def)
    from store_inv_tracked(1) [OF f(2) this] show ?thesis by blast
  qed
  show ?thesis
  proof (cases op)
    case (Seal now q c)
    show ?thesis
    proof (cases "q = 0 \<or> heap (kstore k) q \<noteq> None")
      case True
      with ret over Seal show ?thesis by auto
    next
      case False
      let ?s = "(kstore k)\<lparr>heap := (heap (kstore k))(q \<mapsto> c)\<rparr>"
      from ret False Seal obtain ps s where s: "ingestSealedChunk now (chunkStoryId c) q ?s = Some (ps, s)" "kstore k' = s" by auto
      have "omap_ok (index (story_of (chunkStoryId c) ?s))"
        using story_inv_ok [OF story_inv_of [OF f(2), of "chunkStoryId c"]] by (simp add: story_of_def)
      moreover have "overcounted sid p ?s" using over overcounted_cong [of ?s sid "kstore k" p] by simp
      moreover have "q \<noteq> p" using False live by auto
      ultimately show ?thesis using over_ingest [OF _ s(1)] s(2) by blast
    qed
  next
    case (ReleaseTail now sid')
    obtain s where s: "releaseStoryTail now sid' (kstore k) = Some s" "frees_confirmed (set (pool k)) sid' (kstore k) s"
      using releaseStoryTail_frees [OF f(2)] by blast
    have "map_of (storyRetention s) sid = map_of (storyRetention (kstore k)) sid"
      using frees_confirmedD(3) [OF s(2)] stays ReleaseTail by simp
    with over overcounted_cong [of s sid "kstore k" p] ret s(1) ReleaseTail show ?thesis by auto
  next
    case (Deliver q i n)
    then have "storyRetention (kstore k') = storyRetention (kstore k)" using ret by (auto split: if_splits)
    with over overcounted_cong [of "kstore k'" sid "kstore k" p] show ?thesis by simp
  next
    case (Report now sid' report)
    with ret obtain s where "applyReport now sid' report (kstore k) = Some s" "kstore k' = s" by auto
    with over_report [OF _ over] stays Report show ?thesis by auto
  next
    case (Requeue now a)
    with ret obtain ps s where "requeueStalled now a (kstore k) = Some (ps, s)" "kstore k' = s" by auto
    with over_timers(1) [OF f(2) over] show ?thesis by blast
  next
    case Flush
    obtain ps s where "flushUnshippedChunks (kstore k) = (ps, s)" by fastforce
    with over_timers(2) [OF f(2) over] ret Flush show ?thesis by auto
  next
    case (FetchRange now sid' a b n)
    with ret obtain r s where "fetchRange now sid' a b n (kstore k) = Some (r, s)" "kstore k' = s" by auto
    with over_fetch [OF f(2) _ over] show ?thesis by blast
  next
    case (RecordAgain sid')
    then have "storyRetention (kstore k') = storyRetention (kstore k)" using ret by (auto simp: clearDroppedStory_def)
    with over overcounted_cong [of "kstore k'" sid "kstore k" p] show ?thesis by simp
  next
    case (FreeDurable now)
    with ret over show ?thesis by (auto simp: freeDurableChunks_def dest: over_free_stories)
  next
    case (Eject)
    with ret over show ?thesis by (auto split: prod.splits if_splits)
  qed (use ret over in \<open>auto split: if_splits dest: over_callbacks\<close>)
qed

lemma over_run:
  "keeper_inv k \<Longrightarrow> keeper_run ops k = Some k' \<Longrightarrow> overcounted sid p (kstore k) \<Longrightarrow> \<forall>op\<in>set ops. \<not> lets_go sid op \<Longrightarrow> overcounted sid p (kstore k')"
proof (induction ops arbitrary: k)
  case (Cons op ops)
  from Cons.prems(2) obtain k1 where k1: "keeper_step op k = Some k1" "keeper_run ops k1 = Some k'" by (auto simp: bind_eq_Some_conv)
  have "keeper_inv k1" using keeper_step_ok [OF Cons.prems(1), of op] k1(1) by auto
  from Cons.IH [OF this k1(2)] over_step [OF Cons.prems(1) k1(1) Cons.prems(3)] Cons.prems(4) show ?case by simp
qed simp

text \<open>
  Claim C33. Sealing an event a second time strands the chunk that held it. Take any reachable keeper whose index leads an event
  to a chunk, and seal another chunk of the story with the same event, while the story is not dropped: the entry moves to the new
  chunk and the count of the old one is not lowered. From then on, whatever the keeper does short of releasing the tail of this story or learning
  that it was destroyed, the old chunk stays live and tracked, with a count above the number of entries that lead to it, however often it is
  confirmed written, covered by the watermark, evicted from the index or looked at by the timer.
\<close>

theorem resealed_event_keeps_old_chunk:
  assumes run: "keeper_run ops (new_keeper (new_store cap mb live delay ttl wal)) = Some k"
    and first: "map_of (index (story_of (chunkStoryId c) (kstore k))) e = Some p"
    and again: "keeper_step (Seal now q c) k = Some k1" "q \<noteq> 0" "heap (kstore k) q = None" "e \<in> fst ` set (logEvents c)"
      "\<not> fst (storyWasDropped now (chunkStoryId c) (kstore k))"
    and later: "keeper_run ops' k1 = Some k'" "\<forall>op\<in>set ops'. \<not> lets_go (chunkStoryId c) op"
  shows "heap (kstore k') p \<noteq> None \<and> (\<exists>st. tracked (kstore k') (chunkStoryId c) p = Some st \<and>
    entries p (index (story_of (chunkStoryId c) (kstore k'))) < indexed_count st)"
proof -
  let ?sid = "chunkStoryId c" and ?s = "(kstore k)\<lparr>heap := (heap (kstore k))(q \<mapsto> c)\<rparr>"
  obtain k0 where "keeper_run ops (new_keeper (new_store cap mb live delay ttl wal)) = Some k0" "keeper_inv k0"
    using keeper_run_ok [OF keeper_inv_new] by blast
  then have inv: "keeper_inv k" using run by simp
  have inv1: "keeper_inv k1" using keeper_step_ok [OF inv, of "Seal now q c"] again(1) by auto
  note f = pool_facts [OF inv]
  note sinv = story_inv_of [OF f(2), of ?sid]
  have so: "story_of ?sid ?s = story_of ?sid (kstore k)" "tracked ?s = tracked (kstore k)" by (simp_all add: story_of_def tracked_def fun_eq_iff)
  have entry: "(e, p) \<in> set (index (story_of ?sid (kstore k)))" using first by (rule map_of_SomeD)
  from story_inv_index [OF sinv entry] obtain st where st: "map_of (chunks (story_of ?sid (kstore k))) p = Some st" and live: "heap (kstore k) p \<noteq> None"
    by auto
  from again obtain ps s where s: "ingestSealedChunk now ?sid q ?s = Some (ps, s)" "kstore k1 = s" by auto
  have "overcounted ?sid p s"
  proof (rule ingest_moves_entry [OF _ s(1) again(2)])
    show "omap_ok (index (story_of ?sid ?s))" using story_inv_ok [OF sinv] by (simp add: so)
    show "q \<noteq> p" using live again(3) by auto
    show "\<not> fst (storyWasDropped now ?sid ?s)" using again(5) by (simp add: storyWasDropped_def Let_def)
    show "entries p (index (story_of ?sid ?s)) \<le> indexed_count st" using story_invD(3) [OF sinv st] by (simp add: so)
  qed (use first again(4) st in \<open>simp_all add: so tracked_story_of\<close>)
  with over_run [OF inv1 later(1) _ later(2)] s(2) have over: "overcounted ?sid p (kstore k')" by simp
  obtain k2 where "keeper_run ops' k1 = Some k2" "keeper_inv k2" using keeper_run_ok [OF inv1] by blast
  then have "keeper_inv k'" using later(1) by simp
  note f' = pool_facts [OF this]
  from over obtain st' where st': "tracked (kstore k') ?sid p = Some st'" "entries p (index (story_of ?sid (kstore k'))) < indexed_count st'"
    by (auto simp: overcounted_def)
  with store_inv_tracked(1) [OF f'(2) st'(1)] show ?thesis by auto
qed

text \<open>
  The event is sealed in chunks 1 and 2, both are shipped, and a report covers them: the first chunk is out of the queue and of the index and
  written, and stays.
\<close>

definition twin_chunk :: StoryChunk where
  "twin_chunk = (new_StoryChunk [] [] 7 10 30)\<lparr>logEvents := [((12, 3, 1), ex_event 12 3 1)]\<rparr>"

theorem resealed_event_keeps_old_chunk_witness:
  "\<exists>k' st. keeper_run
       ([Seal 0 1 twin_chunk, Stash 1, Eject, Shipped 1 1] @ [Seal 2 2 twin_chunk] @
        [Stash 2, Eject, Shipped 3 2,
         Report 4 7 \<lparr>watermark = 100, report_grapher_instance = 0, report_highest_receipt = 0, report_pending_receipts = []\<rparr>, FreeDurable 6])
       (new_keeper (new_store 2 0 False 0 10 True)) = Some k' \<and>
     tracked (kstore k') 7 1 = Some st \<and> confirmedWritten (story_of 7 (kstore k')) twin_chunk st \<and> \<not> in_queue st \<and>
     heap (kstore k') 1 \<noteq> None"
proof -
  let ?init = "new_keeper (new_store 2 0 False 0 10 True)"
  let ?ops = "[Seal 0 1 twin_chunk, Stash 1, Eject, Shipped 1 1]" and ?seal = "Seal 2 2 twin_chunk"
  let ?ops' = "[Stash 2, Eject, Shipped 3 2,
      Report 4 7 \<lparr>watermark = 100, report_grapher_instance = 0, report_highest_receipt = 0, report_pending_receipts = []\<rparr>, FreeDurable 6]"
  have "case keeper_run ?ops ?init of None \<Rightarrow> False
    | Some k \<Rightarrow> map_of (index (story_of 7 (kstore k))) (12, 3, 1) = Some 1 \<and> heap (kstore k) 2 = None \<and> \<not> fst (storyWasDropped 2 7 (kstore k)) \<and>
        (case keeper_step ?seal k of None \<Rightarrow> False
         | Some k1 \<Rightarrow>
            (case keeper_run ?ops' k1 of None \<Rightarrow> False
             | Some k' \<Rightarrow> (case tracked (kstore k') 7 1 of None \<Rightarrow> True
                 | Some st \<Rightarrow> confirmedWritten (story_of 7 (kstore k')) twin_chunk st \<and> \<not> in_queue st)))" by code_simp
  then obtain k k1 k' where k: "keeper_run ?ops ?init = Some k" "map_of (index (story_of 7 (kstore k))) (12, 3, 1) = Some 1"
      "heap (kstore k) 2 = None" "\<not> fst (storyWasDropped 2 7 (kstore k))"
    and k1: "keeper_step ?seal k = Some k1" and k': "keeper_run ?ops' k1 = Some k'"
    and ck: "case tracked (kstore k') 7 1 of None \<Rightarrow> True
      | Some st \<Rightarrow> confirmedWritten (story_of 7 (kstore k')) twin_chunk st \<and> \<not> in_queue st"
    unfolding option.case_eq_if by (auto split: if_splits)
  have c: "chunkStoryId twin_chunk = 7" "(12, 3, 1) \<in> fst ` set (logEvents twin_chunk)" by (simp_all add: twin_chunk_def new_StoryChunk_def)
  have "\<forall>op\<in>set ?ops'. \<not> lets_go 7 op" by (simp add: kStoryDroppedWatermark_def)
  with resealed_event_keeps_old_chunk [OF k(1), of twin_chunk "(12, 3, 1)" 1 2 2 k1 ?ops' k'] k k1 k' c
  obtain st where st: "heap (kstore k') 1 \<noteq> None" "tracked (kstore k') 7 1 = Some st" by auto
  have run: "keeper_run (xs @ ys) k0 = Option.bind (keeper_run xs k0) (keeper_run ys)" for xs ys k0
  proof (induction xs arbitrary: k0)
    case (Cons op xs)
    then show ?case by (cases "keeper_step op k0") simp_all
  qed simp
  have "keeper_run [?seal] k = Some k1" using k1 by (simp only: keeper_run.simps bind.bind_lunit)
  then have "keeper_run (?ops @ [?seal] @ ?ops') ?init = Some k'" by (simp only: run k(1) k' bind.bind_lunit)
  with st ck show ?thesis by auto
qed

end
