(* ===== verification/ArchiveFiles.thy ===== *)
theory ArchiveFiles
  imports StoryWatermarkRegistry WalFormat
begin

text \<open>
  The files of the archive: their directories and names
  (\<^verbatim>\<open>src/chrono-common/include/ArchiveLayout.h\<close>), how a window is written and published
  (\<^verbatim>\<open>src/chrono-common/src/StoryChunkWriter.cpp\<close>), and the grapher's extractor that writes the windows, reports them
  to the watermark registry and deletes the files of a destroyed story
  (\<^verbatim>\<open>src/chrono-grapher/src/HDF5FileChunkExtractor.cpp\<close>).

  A file of the archive is its two directory names, its own name, the time of its last change and the window it holds. What
  the file system and the HDF5 library answer is an argument of the operations. The regular expressions are matched
  from left to right; in both patterns a part never begins with a character the part before it could go on with, so there
  is one way to match.
\<close>

section \<open>Directory names\<close>

definition encode_char :: "u8 \<Rightarrow> cpp_string" where
  "encode_char c = (if c = 37 then [37, 50, 53] else if c = 47 then [37, 50, 70] else if c = 0 then [37, 48, 48] else [c])"

definition encodeArchiveName :: "cpp_string \<Rightarrow> cpp_string" where
  "encodeArchiveName name =
     (if name = [] then [37]
      else if name = [46] then [37, 50, 69]
      else if name = [46, 46] then [37, 50, 69, 37, 50, 69]
      else concat (map encode_char name))"

section \<open>Names of window files\<close>

fun decimal :: "nat \<Rightarrow> nat list" where
  "decimal n = (if n < 10 then [n] else decimal (n div 10) @ [n mod 10])"

declare decimal.simps [simp del]

text \<open>\<^verbatim>\<open>std::to_string\<close> of an unsigned number, and \<^verbatim>\<open>std::stoull\<close> of a sequence of digits.\<close>

definition to_string :: "u64 \<Rightarrow> cpp_string" where
  "to_string n = map digit_char (decimal (unat n))"

definition stoull :: "cpp_string \<Rightarrow> u64 option" where
  "stoull s = (if digits_val s 0 < 2 ^ 64 then Some (of_nat (digits_val s 0)) else None)"

definition writer_tag :: "u64 \<Rightarrow> u64 \<Rightarrow> cpp_string" where
  "writer_tag recording_group process_start = to_string recording_group @ [46] @ to_string process_start"

definition windowFileName :: "u64 \<Rightarrow> cpp_string \<Rightarrow> u64 \<Rightarrow> u64 \<Rightarrow> cpp_string" where
  "windowFileName start_time tag incarnation sequence =
     to_string (start_time div 1000000000) @ [46] @ tag @ [46] @ to_string incarnation @ [46] @ to_string sequence @
     [46, 118, 108, 101, 110] @ [46, 104, 53]"

record WindowFileName =
  start_second :: u64
  recording_group :: u64
  writer_start :: u64
  file_incarnation :: u64
  file_sequence :: u64

text \<open>Parts of the patterns: a literal, a number, a number and the dot behind it, a dot and the number behind it.\<close>

definition literal :: "cpp_string \<Rightarrow> cpp_string \<Rightarrow> cpp_string option" where
  "literal p s = (if take (length p) s = p then Some (drop (length p) s) else None)"

definition number :: "cpp_string \<Rightarrow> (cpp_string \<times> cpp_string) option" where
  "number s = (let ds = takeWhile is_digit s in if ds = [] then None else Some (ds, dropWhile is_digit s))"

definition number_dot :: "cpp_string \<Rightarrow> (cpp_string \<times> cpp_string) option" where
  "number_dot s = Option.bind (number s) (\<lambda>(ds, r). map_option (Pair ds) (literal [46] r))"

definition dot_number :: "cpp_string \<Rightarrow> (cpp_string \<times> cpp_string) option" where
  "dot_number s = Option.bind (literal [46] s) number"

text \<open>\<^verbatim>\<open>.vlen\<close>, a number perhaps, \<^verbatim>\<open>.h5\<close>, and perhaps the ending of a partial file, which has no line break.\<close>

definition window_ending :: "cpp_string \<Rightarrow> bool" where
  "window_ending s =
     (case literal [46, 118, 108, 101, 110] s of
        None \<Rightarrow> False
      | Some r \<Rightarrow>
          (case literal [46, 104, 53] (case dot_number r of None \<Rightarrow> r | Some (ds, r') \<Rightarrow> r') of
             None \<Rightarrow> False
           | Some e \<Rightarrow>
               e = [] \<or>
               (case literal [46, 112, 97, 114, 116, 105, 97, 108, 46] e of
                  None \<Rightarrow> False
                | Some p \<Rightarrow> p \<noteq> [] \<and> 10 \<notin> set p \<and> 13 \<notin> set p)))"

definition parseWindowFileName :: "cpp_string \<Rightarrow> WindowFileName option" where
  "parseWindowFileName s =
     Option.bind (number_dot s) (\<lambda>(d1, s1).
     Option.bind (number_dot s1) (\<lambda>(d2, s2).
     Option.bind (number_dot s2) (\<lambda>(d3, s3).
     Option.bind (number_dot s3) (\<lambda>(d4, s4).
     Option.bind (number s4) (\<lambda>(d5, s5).
       if \<not> window_ending s5 then None
       else
         Option.bind (stoull d1) (\<lambda>n1.
         Option.bind (stoull d2) (\<lambda>n2.
         Option.bind (stoull d3) (\<lambda>n3.
         Option.bind (stoull d4) (\<lambda>n4.
         Option.bind (stoull d5) (\<lambda>n5.
           Some \<lparr>start_second = n1, recording_group = n2, writer_start = n3, file_incarnation = n4, file_sequence = n5\<rparr>))))))))))"

function skip_numbers :: "cpp_string \<Rightarrow> cpp_string" where
  "skip_numbers s = (case dot_number s of None \<Rightarrow> s | Some (ds, r) \<Rightarrow> skip_numbers r)"
  by auto
termination
proof (relation "measure length")
  fix s ds r p assume "dot_number s = Some p" "(ds, r) = p"
  then have "dot_number s = Some (ds, r)" by simp
  then show "(r, s) \<in> measure length"
    by (auto simp: dot_number_def literal_def number_def Let_def Option.bind_eq_Some_conv split: if_splits
        dest: arg_cong [of _ _ length] intro!: le_less_trans [OF length_dropWhile_le])
qed simp

declare skip_numbers.simps [simp del]

definition isWindowFileName :: "cpp_string \<Rightarrow> bool" where
  "isWindowFileName s = (case number s of None \<Rightarrow> False | Some (ds, r) \<Rightarrow> window_ending (skip_numbers r))"

fun isPartialFileName :: "cpp_string \<Rightarrow> bool" where
  "isPartialFileName [] = False"
| "isPartialFileName (c # s) = (literal [46, 112, 97, 114, 116, 105, 97, 108, 46] (c # s) \<noteq> None \<or> isPartialFileName s)"

section \<open>Writing a window\<close>

record archive_file =
  af_chronicle :: cpp_string
  af_story :: cpp_string
  af_name :: cpp_string
  af_modified :: "int option"
  af_window :: StoryChunk

text \<open>The extractor of one grapher process and the files of the archive.\<close>

record Archive =
  ar_group :: u64
  ar_start :: u64
  ar_sequence :: u64
  ar_registry :: bool
  ar_manifest :: bool
  ar_files :: "archive_file list"

text \<open>\<^verbatim>\<open>path::extension\<close> and \<^verbatim>\<open>path::stem\<close> of a file name.\<close>

definition path_extension :: "cpp_string \<Rightarrow> cpp_string" where
  "path_extension name =
     (let e = takeWhile (\<lambda>c. c \<noteq> 46) (rev name)
      in if name = [46, 46] \<or> length name \<le> length e + 1 then [] else 46 # rev e)"

definition path_stem :: "cpp_string \<Rightarrow> cpp_string" where
  "path_stem name = take (length name - length (path_extension name)) name"

definition numberedFileName :: "cpp_string \<Rightarrow> nat \<Rightarrow> cpp_string" where
  "numberedFileName base n =
     (if n = 0 then base else path_stem base @ [46] @ to_string (of_nat n) @ path_extension base)"

definition kMaxFilesPerWindow :: nat where
  "kMaxFilesPerWindow = 100000"

text \<open>
  What the file system answers: a link that stands (its reply may have been lost), no links on this file system,
  or another error; and for the fallback whether the check and the rename work.
\<close>

datatype link_reply = LinkStands | LinkUnsupported | LinkFails

record write_replies =
  directory_made :: bool
  data_written :: "u64 option"
  file_synced :: bool
  link_replies :: "cpp_string \<Rightarrow> link_reply"
  check_works :: "cpp_string \<Rightarrow> bool"
  rename_works :: "cpp_string \<Rightarrow> bool"
  directory_synced :: bool
  parents_synced :: bool
  window_removed :: bool
  written_at :: int

function publishByRename :: "write_replies \<Rightarrow> (cpp_string \<Rightarrow> bool) \<Rightarrow> cpp_string \<Rightarrow> nat \<Rightarrow> cpp_string option" where
  "publishByRename w taken base n =
     (if kMaxFilesPerWindow \<le> n then None
      else
        let name = numberedFileName base n in
        if \<not> check_works w name then None
        else if taken name then publishByRename w taken base (Suc n)
        else if rename_works w name then Some name
        else None)"
  by auto
termination by (relation "measure (\<lambda>(w, taken, base, n). kMaxFilesPerWindow - n)") auto

function publishFile :: "write_replies \<Rightarrow> (cpp_string \<Rightarrow> bool) \<Rightarrow> cpp_string \<Rightarrow> nat \<Rightarrow> cpp_string option" where
  "publishFile w taken base n =
     (if kMaxFilesPerWindow \<le> n then None
      else
        let name = numberedFileName base n in
        if taken name then publishFile w taken base (Suc n)
        else (case link_replies w name of
                LinkStands \<Rightarrow> Some name
              | LinkUnsupported \<Rightarrow> publishByRename w taken base 0
              | LinkFails \<Rightarrow> None))"
  by auto
termination by (relation "measure (\<lambda>(w, taken, base, n). kMaxFilesPerWindow - n)") auto

declare publishByRename.simps [simp del] publishFile.simps [simp del]

text \<open>
  The size of the file, 0 for a failed write, and the file that was published. A window whose directory could not be synced
  counts as failed and is removed, if that works. Partial files are left out.
\<close>

definition writeWindow :: "write_replies \<Rightarrow> StoryChunk \<Rightarrow> Archive \<Rightarrow> u64 \<times> archive_file option \<times> Archive" where
  "writeWindow w c ar0 =
     (let chronicle_dir = encodeArchiveName (chronicleName c); story_dir = encodeArchiveName (storyName c);
          base = windowFileName (startTime c) (writer_tag (ar_group ar0) (ar_start ar0)) (chunkIncarnation c) (ar_sequence ar0);
          ar = ar0\<lparr>ar_sequence := ar_sequence ar0 + 1\<rparr>;
          taken = (\<lambda>name. \<exists>f\<in>set (ar_files ar). af_chronicle f = chronicle_dir \<and> af_story f = story_dir \<and> af_name f = name)
      in if \<not> directory_made w then (0, None, ar)
         else
           (case data_written w of
              None \<Rightarrow> (0, None, ar)
            | Some bytes \<Rightarrow>
                if \<not> file_synced w then (0, None, ar)
                else
                  (case publishFile w taken base 0 of
                     None \<Rightarrow> (0, None, ar)
                   | Some name \<Rightarrow>
                       let f = \<lparr>af_chronicle = chronicle_dir, af_story = story_dir, af_name = name,
                                af_modified = Some (written_at w), af_window = c\<rparr>;
                           ar' = ar\<lparr>ar_files := ar_files ar @ [f]\<rparr>
                       in if directory_synced w \<and> parents_synced w then (bytes, Some f, ar')
                          else (0, None, if window_removed w then ar else ar'))))"

section \<open>The extractor\<close>

text \<open>
  What the manifest answers: whether it had failed before the window and after it, and whether the record
  of the window was appended (if not, whether its file could be removed).
\<close>

record extract_replies =
  write_of :: write_replies
  failed_before :: bool
  record_appended :: bool
  unrecorded_removed :: bool
  failed_after :: bool

definition hold_call :: "StoryChunk \<Rightarrow> Archive \<Rightarrow> registry_op list" where
  "hold_call c ar = (if ar_registry ar \<and> \<not> watermarkExempt c then [PersistFailed (chunkStoryId c)] else [])"

definition persisted_calls :: "StoryChunk \<Rightarrow> Archive \<Rightarrow> registry_op list" where
  "persisted_calls c ar =
     (if ar_registry ar
      then (if watermarkExempt c then [] else [AdvancePersisted (chunkStoryId c) (startTime c) (endTime c)]) @
           map (Release (chunkStoryId c)) (carriedReceipts c)
      else [])"

definition process_chunk :: "extract_replies \<Rightarrow> StoryChunk \<Rightarrow> Archive \<Rightarrow> cl_status \<times> registry_op list \<times> Archive" where
  "process_chunk x c ar =
     (if ar_manifest ar \<and> failed_before x then (CL_ERR_UNKNOWN, hold_call c ar, ar)
      else if chunk_empty c then (CL_SUCCESS, persisted_calls c ar, ar)
      else
        (case writeWindow (write_of x) c ar of
           (bytes, file, ar1) \<Rightarrow>
             let unrecorded = (bytes \<noteq> 0 \<and> ar_manifest ar \<and> \<not> record_appended x);
                 ar2 = (if unrecorded \<and> unrecorded_removed x
                        then ar1\<lparr>ar_files := filter (\<lambda>f. Some f \<noteq> file) (ar_files ar1)\<rparr> else ar1)
             in if bytes = 0 \<or> unrecorded \<or> ar_manifest ar \<and> failed_after x
                then (CL_ERR_UNKNOWN, hold_call c ar, ar2)
                else (CL_SUCCESS, persisted_calls c ar, ar2)))"

section \<open>Deleting a destroyed story\<close>

text \<open>No \<open>requested_at\<close> is the latest time point, which the default scope has.\<close>

record DestroyScope =
  incarnation_bound :: u64
  requested_at :: "int option"

definition kForeignFileMargin :: int where
  "kForeignFileMargin = 120 * 1000000000"

definition coveredByDestroy :: "Archive \<Rightarrow> DestroyScope \<Rightarrow> archive_file \<Rightarrow> bool" where
  "coveredByDestroy ar scope f =
     (case parseWindowFileName (af_name f) of
        Some p \<Rightarrow>
          if recording_group p = ar_group ar
          then if writer_start p = ar_start ar then file_incarnation p \<le> incarnation_bound scope else True
          else
            (case requested_at scope of None \<Rightarrow> True
             | Some at \<Rightarrow> (case af_modified f of None \<Rightarrow> False | Some m \<Rightarrow> m + kForeignFileMargin < at))
      | None \<Rightarrow>
          (case requested_at scope of None \<Rightarrow> True
           | Some at \<Rightarrow> (case af_modified f of None \<Rightarrow> False | Some m \<Rightarrow> m + kForeignFileMargin < at)))"

text \<open>
  What deletion meets: nothing, a directory that is redirected or cannot be listed, or a file that cannot be
  removed after a number of others.
\<close>

datatype delete_reply = Deletes | Refuses | StopsAfter nat

fun drop_matching :: "nat \<Rightarrow> ('a \<Rightarrow> bool) \<Rightarrow> 'a list \<Rightarrow> 'a list" where
  "drop_matching n P [] = []"
| "drop_matching n P (f # fs) =
     (if P f then (case n of 0 \<Rightarrow> f # fs | Suc m \<Rightarrow> drop_matching m P fs) else f # drop_matching n P fs)"

definition delete_matching :: "delete_reply \<Rightarrow> (archive_file \<Rightarrow> bool) \<Rightarrow> Archive \<Rightarrow> cl_status \<times> Archive" where
  "delete_matching reply P ar =
     (case reply of
        Deletes \<Rightarrow> (CL_SUCCESS, ar\<lparr>ar_files := filter (\<lambda>f. \<not> P f) (ar_files ar)\<rparr>)
      | Refuses \<Rightarrow> (CL_ERR_UNKNOWN, ar)
      | StopsAfter n \<Rightarrow> (CL_ERR_UNKNOWN, ar\<lparr>ar_files := drop_matching n P (ar_files ar)\<rparr>))"

text \<open>The record of a deletion in the manifest, when there is one.\<close>

definition record_deletion :: "bool \<Rightarrow> cl_status \<times> Archive \<Rightarrow> cl_status \<times> Archive" where
  "record_deletion recorded r =
     (if fst r = CL_SUCCESS \<and> ar_manifest (snd r) \<and> \<not> recorded then (CL_ERR_UNKNOWN, snd r) else r)"

definition delete_story_files ::
  "delete_reply \<Rightarrow> bool \<Rightarrow> cpp_string \<Rightarrow> cpp_string \<Rightarrow> DestroyScope \<Rightarrow> Archive \<Rightarrow> cl_status \<times> Archive" where
  "delete_story_files reply recorded chronicle story scope ar =
     record_deletion recorded
       (delete_matching reply
         (\<lambda>f. af_chronicle f = encodeArchiveName chronicle \<and> af_story f = encodeArchiveName story \<and>
              isWindowFileName (af_name f) \<and> coveredByDestroy ar scope f) ar)"

definition delete_chronicle_files ::
  "delete_reply \<Rightarrow> bool \<Rightarrow> cpp_string \<Rightarrow> DestroyScope \<Rightarrow> Archive \<Rightarrow> cl_status \<times> Archive" where
  "delete_chronicle_files reply recorded chronicle scope ar =
     record_deletion recorded
       (delete_matching reply
         (\<lambda>f. af_chronicle f = encodeArchiveName chronicle \<and> isWindowFileName (af_name f) \<and> coveredByDestroy ar scope f) ar)"

section \<open>Lemmas on names\<close>

lemma encode_char_cases:
  obtains "encode_char c = [37, 50, 53]" "c = 37" | "encode_char c = [37, 50, 70]" "c = 47"
    | "encode_char c = [37, 48, 48]" "c = 0" | "encode_char c = [c]" "c \<noteq> 37" "c \<noteq> 47" "c \<noteq> 0"
  unfolding encode_char_def by (cases "c = 37"; cases "c = 47"; cases "c = 0") auto

lemma encode_chars_inj: "concat (map encode_char a) = concat (map encode_char b) \<Longrightarrow> a = b"
proof (induction a arbitrary: b)
  case Nil
  then show ?case by (cases b) (auto simp: encode_char_def split: if_splits)
next
  case (Cons x a)
  then obtain y b' where b: "b = y # b'" by (cases b) (auto simp: encode_char_def split: if_splits)
  have "x = y \<and> concat (map encode_char a) = concat (map encode_char b')"
    using Cons.prems unfolding b by (cases rule: encode_char_cases [of x]; cases rule: encode_char_cases [of y]) auto
  with Cons.IH show ?case by (simp add: b)
qed

lemma encode_chars_head:
  "name \<noteq> [] \<Longrightarrow> concat (map encode_char name) = c # r \<Longrightarrow>
   c \<noteq> 47 \<and> c \<noteq> 0 \<and> (c = 37 \<longrightarrow> (\<exists>d s. r = 50 # d # s \<and> (d = 53 \<or> d = 70) \<or> r = 48 # 48 # s))"
  by (cases name; cases rule: encode_char_cases [of "hd name"]) auto

lemma encode_chars_safe: "47 \<notin> set (concat (map encode_char name)) \<and> 0 \<notin> set (concat (map encode_char name))"
  by (auto simp: encode_char_def)

lemma encode_char_neq_Nil [simp]: "encode_char c \<noteq> []"
  by (simp add: encode_char_def)

lemma encode_chars_dot: "concat (map encode_char name) = [46] \<Longrightarrow> name = [46]"
  "concat (map encode_char name) = [46, 46] \<Longrightarrow> name = [46, 46]"
  using encode_chars_inj [of name "[46]"] encode_chars_inj [of name "[46, 46]"] by (simp_all add: encode_char_def)

definition special_names :: "cpp_string set" where
  "special_names = {[], [46], [46, 46]}"

lemma encode_chars_special:
  assumes "name \<noteq> []"
  shows "concat (map encode_char name) \<notin> encodeArchiveName ` special_names" "concat (map encode_char name) \<noteq> []"
proof -
  show "concat (map encode_char name) \<noteq> []" using assms by (cases name) simp_all
  then obtain c r where cr: "concat (map encode_char name) = c # r" by (meson neq_Nil_conv)
  have "c # r \<noteq> [37] \<and> c # r \<noteq> [37, 50, 69] \<and> c # r \<noteq> [37, 50, 69, 37, 50, 69]"
    using encode_chars_head [OF assms cr] by auto
  then show "concat (map encode_char name) \<notin> encodeArchiveName ` special_names"
    unfolding cr by (simp add: special_names_def encodeArchiveName_def)
qed

lemma encode_plain: "name \<notin> special_names \<Longrightarrow> encodeArchiveName name = concat (map encode_char name)"
  by (simp add: special_names_def encodeArchiveName_def)

lemma encode_plain_special: "name \<notin> special_names \<Longrightarrow> encodeArchiveName name \<notin> encodeArchiveName ` special_names"
  using encode_chars_special(1) [of name] by (simp add: encode_plain) (simp add: special_names_def)

lemma inj_encodeArchiveName: "inj encodeArchiveName"
proof (rule injI)
  fix a b assume eq: "encodeArchiveName a = encodeArchiveName b"
  have s: "inj_on encodeArchiveName special_names" by (simp add: special_names_def encodeArchiveName_def)
  show "a = b"
  proof (cases "a \<in> special_names \<or> b \<in> special_names")
    case True
    then have "a \<in> special_names \<and> b \<in> special_names" using eq encode_plain_special imageI by metis
    then show ?thesis using inj_onD [OF s eq] by simp
  next
    case False
    with eq show ?thesis by (simp add: encode_plain encode_chars_inj)
  qed
qed

lemma encodeArchiveName_inj [simp]: "encodeArchiveName a = encodeArchiveName b \<longleftrightarrow> a = b"
  using inj_encodeArchiveName by (auto dest: injD)

section \<open>Numbers in names\<close>

lemma decimal_digits: "d \<in> set (decimal n) \<Longrightarrow> d < 10"
  by (induction n rule: decimal.induct) (subst (asm) (2) decimal.simps, auto split: if_splits)

lemma digits_val_decimal: "digits_val (map digit_char (decimal n)) 0 = n"
proof (induction n rule: decimal.induct)
  case (1 n)
  show ?case
  proof (cases "n < 10")
    case True
    then show ?thesis using digit_char [OF True] by (subst decimal.simps) simp
  next
    case False
    have "unat (digit_char (n mod 10)) = 48 + n mod 10" by (rule digit_char) simp
    with False 1 [OF False] show ?thesis by (subst decimal.simps) (simp add: digits_val_append)
  qed
qed

lemma to_string_digits: "list_all is_digit (to_string n)"
proof -
  have "is_digit (digit_char d)" if "d < 10" for d using digit_char [OF that] that by (simp add: is_digit_nat)
  then show ?thesis using decimal_digits by (auto simp: to_string_def list_all_iff)
qed

lemma to_string_neq_Nil [simp]: "to_string n \<noteq> []"
  by (simp add: to_string_def) (subst decimal.simps, simp)

lemma stoull_to_string [simp]: "stoull (to_string n) = Some n"
proof -
  have "digits_val (to_string n) 0 = unat n" by (simp only: to_string_def digits_val_decimal)
  then show ?thesis using unsigned_less [of n] by (simp add: stoull_def)
qed

lemma not_digit [simp]: "\<not> is_digit 46"
  by (simp add: is_digit_def)

lemma number_to_string [simp]: "\<not> is_digit c \<Longrightarrow> number (to_string n @ c # r) = Some (to_string n, c # r)"
  using to_string_digits [of n] by (simp add: number_def Let_def list_all_iff takeWhile_append2 dropWhile_append2)

lemma number_dot_to_string [simp]: "number_dot (to_string n @ 46 # r) = Some (to_string n, r)"
  by (simp add: number_dot_def literal_def)

lemma dot_number_to_string [simp]: "\<not> is_digit c \<Longrightarrow> dot_number (46 # to_string n @ c # r) = Some (to_string n, c # r)"
  by (simp add: dot_number_def literal_def)

lemma dot_number_other [simp]: "\<not> is_digit c \<Longrightarrow> dot_number (46 # c # r) = None"
  by (simp add: dot_number_def literal_def number_def)

section \<open>The names of published files\<close>

lemma path_extension_h5: "x \<noteq> [] \<Longrightarrow> path_extension (x @ [46, 104, 53]) = [46, 104, 53]"
  by (simp add: path_extension_def Let_def)

lemma path_stem_h5: "x \<noteq> [] \<Longrightarrow> path_stem (x @ [46, 104, 53]) = x"
  by (simp add: path_stem_def path_extension_h5)

lemma literal_append [simp]: "literal p (p @ r) = Some r"
  by (simp add: literal_def)

text \<open>The fields of a window file in front of its ending.\<close>

definition name_fields :: "u64 \<Rightarrow> u64 \<Rightarrow> u64 \<Rightarrow> u64 \<Rightarrow> u64 \<Rightarrow> cpp_string" where
  "name_fields t g s i q = to_string t @ 46 # to_string g @ 46 # to_string s @ 46 # to_string i @ 46 # to_string q"

definition name_ending :: "nat \<Rightarrow> cpp_string" where
  "name_ending n = [46, 118, 108, 101, 110] @ (if n = 0 then [] else 46 # to_string (of_nat n)) @ [46, 104, 53]"

lemma numbered_name:
  "numberedFileName (windowFileName t (writer_tag g s) i q) n = name_fields (t div 1000000000) g s i q @ name_ending n"
proof -
  let ?x = "name_fields (t div 1000000000) g s i q @ [46, 118, 108, 101, 110]"
  have w: "windowFileName t (writer_tag g s) i q = ?x @ [46, 104, 53]"
    by (simp add: windowFileName_def writer_tag_def name_fields_def)
  have "?x \<noteq> []" by simp
  from path_extension_h5 [OF this] path_stem_h5 [OF this] show ?thesis
    unfolding numberedFileName_def w by (simp add: name_ending_def)
qed

lemma name_ending_dot: "\<exists>r. name_ending n = 46 # 118 # r"
  by (simp add: name_ending_def)

lemma window_ending_name: "window_ending (name_ending n)"
  by (simp add: window_ending_def name_ending_def literal_def is_digit_def)

lemma parse_name:
  "parseWindowFileName (name_fields t g s i q @ name_ending n) =
     Some \<lparr>start_second = t, recording_group = g, writer_start = s, file_incarnation = i, file_sequence = q\<rparr>"
proof -
  obtain r where r: "name_ending n = 46 # r" using name_ending_dot by blast
  have "window_ending (46 # r)" using window_ending_name [of n] by (simp only: r)
  then show ?thesis by (simp add: parseWindowFileName_def name_fields_def r)
qed

lemma is_window_name: "isWindowFileName (name_fields t g s i q @ name_ending n)"
proof -
  obtain r where r: "name_ending n = 46 # 118 # r" using name_ending_dot by blast
  have "\<not> is_digit 118" by (simp add: is_digit_def)
  then have "skip_numbers (46 # to_string g @ 46 # to_string s @ 46 # to_string i @ 46 # to_string q @ 46 # 118 # r) = 46 # 118 # r"
    by (simp add: skip_numbers.simps)
  then show ?thesis using window_ending_name [of n] by (simp add: isWindowFileName_def name_fields_def r)
qed

section \<open>What the writer publishes\<close>

text \<open>A name that is published was free, and is one of the window's names.\<close>

lemma publishByRename_free:
  "publishByRename w taken base n = Some name \<Longrightarrow> \<not> taken name \<and> (\<exists>m. name = numberedFileName base m)"
proof (induction w taken base n rule: publishByRename.induct)
  case (1 w taken base n)
  from 1(2) show ?case
    by (subst (asm) publishByRename.simps) (use 1(1) in \<open>auto simp: Let_def split: if_splits\<close>)
qed

lemma publishFile_free:
  "publishFile w taken base n = Some name \<Longrightarrow> \<not> taken name \<and> (\<exists>m. name = numberedFileName base m)"
proof (induction w taken base n rule: publishFile.induct)
  case (1 w taken base n)
  from 1(2) show ?case
    by (subst (asm) publishFile.simps)
      (use 1(1) in \<open>auto simp: Let_def dest: publishByRename_free split: if_splits link_reply.splits\<close>)
qed

text \<open>A file of this process for a window: named for it, in the directory of its story.\<close>

text \<open>
  The file of a window that the process of a group with a start time wrote; and the files an archive may hold: every file lies in
  the directory of its window's names and has the name of a window file, which says who wrote it or is one from before the
  writers were part of the name.
\<close>

definition written_by :: "u64 \<Rightarrow> u64 \<Rightarrow> archive_file \<Rightarrow> bool" where
  "written_by grp start f \<longleftrightarrow>
     (\<exists>sequence n. af_name f =
        numberedFileName (windowFileName (startTime (af_window f)) (writer_tag grp start) (chunkIncarnation (af_window f)) sequence) n)"

definition in_place :: "archive_file \<Rightarrow> bool" where
  "in_place f \<longleftrightarrow> af_chronicle f = encodeArchiveName (chronicleName (af_window f)) \<and>
     af_story f = encodeArchiveName (storyName (af_window f))"

definition file_of :: "Archive \<Rightarrow> archive_file \<Rightarrow> bool" where
  "file_of ar f \<longleftrightarrow> in_place f \<and> written_by (ar_group ar) (ar_start ar) f"

definition window_file :: "archive_file \<Rightarrow> bool" where
  "window_file f \<longleftrightarrow> in_place f \<and> isWindowFileName (af_name f) \<and>
     ((\<exists>grp start. written_by grp start f) \<or> parseWindowFileName (af_name f) = None)"

definition archive_ok :: "Archive \<Rightarrow> bool" where
  "archive_ok ar \<longleftrightarrow> (\<forall>f\<in>set (ar_files ar). window_file f)"

lemma written_name:
  assumes "written_by grp start f"
  shows "isWindowFileName (af_name f)"
    and "\<exists>q. parseWindowFileName (af_name f) = Some \<lparr>start_second = startTime (af_window f) div 1000000000, recording_group = grp,
      writer_start = start, file_incarnation = chunkIncarnation (af_window f), file_sequence = q\<rparr>"
  using assms by (auto simp: written_by_def numbered_name is_window_name parse_name)

lemma file_of_ok: "file_of ar f \<Longrightarrow> window_file f"
  using written_name(1) by (auto simp: file_of_def window_file_def)

lemma writeWindow_cases:
  assumes "writeWindow w c ar = (bytes, file, ar')"
  obtains "bytes = 0" "file = None" "ar_files ar' = ar_files ar"
  | f where "af_window f = c" "file_of ar f" "ar_files ar' = ar_files ar @ [f]"
      "file = Some f \<or> bytes = 0 \<and> file = None" "f \<notin> set (ar_files ar)"
proof -
  let ?base = "windowFileName (startTime c) (writer_tag (ar_group ar) (ar_start ar)) (chunkIncarnation c) (ar_sequence ar)"
  let ?taken = "\<lambda>name. \<exists>f\<in>set (ar_files ar). af_chronicle f = encodeArchiveName (chronicleName c) \<and>
    af_story f = encodeArchiveName (storyName c) \<and> af_name f = name"
  show thesis
  proof (cases "publishFile w ?taken ?base 0")
    case None
    with assms that(1) show ?thesis by (auto simp: writeWindow_def Let_def split: if_splits option.splits)
  next
    case (Some name)
    from publishFile_free [OF this] obtain m where m: "\<not> ?taken name" "name = numberedFileName ?base m" by blast
    let ?f = "\<lparr>af_chronicle = encodeArchiveName (chronicleName c), af_story = encodeArchiveName (storyName c), af_name = name,
        af_modified = Some (written_at w), af_window = c\<rparr>"
    have f: "af_window ?f = c" "file_of ar ?f" "?f \<notin> set (ar_files ar)"
      using m by (auto simp: file_of_def in_place_def written_by_def)
    show ?thesis
    proof (cases "ar_files ar' = ar_files ar @ [?f]")
      case True
      have "file = Some ?f \<or> bytes = 0 \<and> file = None"
        using assms Some by (auto simp: writeWindow_def Let_def split: if_splits option.splits)
      with that(2) f True show ?thesis by blast
    next
      case False
      with assms Some that(1) show ?thesis by (auto simp: writeWindow_def Let_def split: if_splits option.splits)
    qed
  qed
qed

lemma writeWindow_frame:
  "writeWindow w c ar = (bytes, file, ar') \<Longrightarrow> ar_group ar' = ar_group ar \<and> ar_start ar' = ar_start ar \<and>
     ar_registry ar' = ar_registry ar \<and> ar_manifest ar' = ar_manifest ar"
  by (auto simp: writeWindow_def Let_def split: if_splits option.splits)

abbreviation archived :: "Archive \<Rightarrow> StoryChunk set" where
  "archived ar \<equiv> af_window ` set (ar_files ar)"

definition same_writer :: "Archive \<Rightarrow> Archive \<Rightarrow> bool" where
  "same_writer ar ar' \<longleftrightarrow> ar_group ar' = ar_group ar \<and> ar_start ar' = ar_start ar \<and> ar_registry ar' = ar_registry ar \<and>
     ar_manifest ar' = ar_manifest ar"

lemma file_of_same: "same_writer ar ar' \<Longrightarrow> file_of ar' f = file_of ar f"
  by (simp add: same_writer_def file_of_def)

text \<open>A window that is processed is in the archive, or its story is reported as failed.\<close>

lemma process_chunk_outcome:
  assumes ok: "archive_ok ar" and ret: "process_chunk x c ar = (st, calls, ar')"
  shows "archive_ok ar'" "same_writer ar ar'" "set (ar_files ar) \<subseteq> set (ar_files ar')"
    and "\<And>f. f \<in> set (ar_files ar') \<Longrightarrow> f \<in> set (ar_files ar) \<or> af_window f = c \<and> file_of ar f"
    and "calls = (if st = CL_SUCCESS then persisted_calls c ar else hold_call c ar)"
    and "st = CL_SUCCESS \<Longrightarrow> chunk_empty c \<or> c \<in> archived ar'"
proof -
  have *: "same_writer ar ar' \<and> set (ar_files ar) \<subseteq> set (ar_files ar') \<and>
    (\<forall>f\<in>set (ar_files ar'). f \<in> set (ar_files ar) \<or> af_window f = c \<and> file_of ar f) \<and>
    calls = (if st = CL_SUCCESS then persisted_calls c ar else hold_call c ar) \<and>
    (st = CL_SUCCESS \<longrightarrow> chunk_empty c \<or> c \<in> archived ar')"
  proof (cases "(ar_manifest ar \<and> failed_before x) \<or> chunk_empty c")
    case True
    then show ?thesis using ret by (auto simp: process_chunk_def same_writer_def split: if_splits)
  next
    case False
    obtain bytes fo ar1 where w: "writeWindow (write_of x) c ar = (bytes, fo, ar1)" by (metis prod_cases3)
    let ?gone = "bytes \<noteq> 0 \<and> ar_manifest ar \<and> \<not> record_appended x \<and> unrecorded_removed x"
    have files: "ar_files ar' = (if ?gone then filter (\<lambda>f. Some f \<noteq> fo) (ar_files ar1) else ar_files ar1)"
      using ret False w by (auto simp: process_chunk_def Let_def split: if_splits)
    have same: "same_writer ar ar'"
      using ret False w writeWindow_frame [OF w] by (auto simp: process_chunk_def Let_def same_writer_def split: if_splits)
    have calls: "calls = (if st = CL_SUCCESS then persisted_calls c ar else hold_call c ar)"
      "st = CL_SUCCESS \<Longrightarrow> bytes \<noteq> 0 \<and> \<not> ?gone"
      using ret False w by (auto simp: process_chunk_def Let_def split: if_splits)
    from w show ?thesis
    proof (cases rule: writeWindow_cases)
      case 1
      then have "ar_files ar' = ar_files ar" by (simp add: files)
      with same calls 1 show ?thesis by auto
    next
      case (2 f)
      then have "set (ar_files ar) \<subseteq> set (ar_files ar')" "set (ar_files ar') \<subseteq> insert f (set (ar_files ar))"
        "\<not> ?gone \<Longrightarrow> f \<in> set (ar_files ar')"
        using files by (auto split: if_splits)
      with same calls 2 show ?thesis by auto
    qed
  qed
  then show "same_writer ar ar'" "set (ar_files ar) \<subseteq> set (ar_files ar')"
    "\<And>f. f \<in> set (ar_files ar') \<Longrightarrow> f \<in> set (ar_files ar) \<or> af_window f = c \<and> file_of ar f"
    "calls = (if st = CL_SUCCESS then persisted_calls c ar else hold_call c ar)"
    "st = CL_SUCCESS \<Longrightarrow> chunk_empty c \<or> c \<in> archived ar'" by blast+
  show "archive_ok ar'" using ok * file_of_ok unfolding archive_ok_def by blast
qed

section \<open>What a destroy deletes\<close>

text \<open>The windows a destroy is for: those of the story (or of the whole chronicle) from pipelines up to the bound.\<close>

definition destroy_covers :: "cpp_string \<Rightarrow> cpp_string option \<Rightarrow> u64 \<Rightarrow> StoryChunk \<Rightarrow> bool" where
  "destroy_covers chronicle story bound c \<longleftrightarrow>
     chronicleName c = chronicle \<and> (story = None \<or> story = Some (storyName c)) \<and> chunkIncarnation c \<le> bound"

text \<open>
  The files a destroy is for, told by their writers and windows: of the files of the story (or of the whole chronicle), those this
  process wrote from pipelines up to the bound, all that an earlier process of its group wrote, and of the others those changed more
  than the margin before the request. A scope without a time of request takes the others whatever their age.
\<close>

definition outdated :: "DestroyScope \<Rightarrow> archive_file \<Rightarrow> bool" where
  "outdated scope f \<longleftrightarrow>
     (case requested_at scope of
        None \<Rightarrow> True
      | Some at \<Rightarrow> (\<exists>m. af_modified f = Some m \<and> m + kForeignFileMargin < at))"

definition destroy_takes :: "Archive \<Rightarrow> cpp_string \<Rightarrow> cpp_string option \<Rightarrow> DestroyScope \<Rightarrow> archive_file \<Rightarrow> bool" where
  "destroy_takes ar chronicle story scope f \<longleftrightarrow>
     chronicleName (af_window f) = chronicle \<and> (story = None \<or> story = Some (storyName (af_window f))) \<and>
     (written_by (ar_group ar) (ar_start ar) f \<and> chunkIncarnation (af_window f) \<le> incarnation_bound scope \<or>
      (\<exists>start. start \<noteq> ar_start ar \<and> written_by (ar_group ar) start f) \<or>
      (\<nexists>start. written_by (ar_group ar) start f) \<and> outdated scope f)"

lemma destroy_takes_same: "same_writer ar ar' \<Longrightarrow> destroy_takes ar' = destroy_takes ar"
  by (simp add: same_writer_def destroy_takes_def fun_eq_iff)

lemma written_by_unique: "written_by grp start f \<Longrightarrow> written_by grp' start' f \<Longrightarrow> grp = grp' \<and> start = start'"
  by (drule written_name(2))+ auto

lemma destroy_takes_own:
  "file_of ar f \<Longrightarrow> destroy_takes ar chronicle story scope f \<longleftrightarrow> destroy_covers chronicle story (incarnation_bound scope) (af_window f)"
  using written_by_unique by (fastforce simp: file_of_def destroy_takes_def destroy_covers_def)

text \<open>The test on the name finds the same files.\<close>

lemma coveredByDestroy_iff:
  assumes "(\<exists>grp start. written_by grp start f) \<or> parseWindowFileName (af_name f) = None"
  shows "coveredByDestroy ar scope f \<longleftrightarrow>
     (written_by (ar_group ar) (ar_start ar) f \<and> chunkIncarnation (af_window f) \<le> incarnation_bound scope \<or>
      (\<exists>start. start \<noteq> ar_start ar \<and> written_by (ar_group ar) start f) \<or>
      (\<nexists>start. written_by (ar_group ar) start f) \<and> outdated scope f)"
proof (cases "parseWindowFileName (af_name f)")
  case None
  then have "\<not> written_by grp start f" for grp start using written_name(2) by fastforce
  with None show ?thesis by (auto simp: coveredByDestroy_def outdated_def split: option.splits)
next
  case (Some p)
  with assms obtain grp start where w: "written_by grp start f" by auto
  from written_name(2) [OF w] Some have p: "recording_group p = grp" "writer_start p = start" "file_incarnation p = chunkIncarnation (af_window f)"
    by auto
  have other: "written_by grp' start' f \<longleftrightarrow> grp' = grp \<and> start' = start" for grp' start'
    using w written_by_unique by blast
  show ?thesis unfolding other coveredByDestroy_def Some option.case p by (auto simp: outdated_def split: option.splits)
qed

lemma matching_files:
  assumes "archive_ok ar" "f \<in> set (ar_files ar)"
  shows "(af_chronicle f = encodeArchiveName chronicle \<and> af_story f = encodeArchiveName story \<and> isWindowFileName (af_name f) \<and>
      coveredByDestroy ar scope f) \<longleftrightarrow> destroy_takes ar chronicle (Some story) scope f"
    and "(af_chronicle f = encodeArchiveName chronicle \<and> isWindowFileName (af_name f) \<and> coveredByDestroy ar scope f) \<longleftrightarrow>
      destroy_takes ar chronicle None scope f"
proof -
  have f: "in_place f" "isWindowFileName (af_name f)" "(\<exists>grp start. written_by grp start f) \<or> parseWindowFileName (af_name f) = None"
    using assms by (simp_all add: archive_ok_def window_file_def)
  show "(af_chronicle f = encodeArchiveName chronicle \<and> af_story f = encodeArchiveName story \<and> isWindowFileName (af_name f) \<and>
      coveredByDestroy ar scope f) \<longleftrightarrow> destroy_takes ar chronicle (Some story) scope f"
    "(af_chronicle f = encodeArchiveName chronicle \<and> isWindowFileName (af_name f) \<and> coveredByDestroy ar scope f) \<longleftrightarrow>
      destroy_takes ar chronicle None scope f"
    unfolding coveredByDestroy_iff [OF f(3)] destroy_takes_def using f(1,2) by (auto simp: in_place_def)
qed

lemma drop_matching_set:
  "set (drop_matching n P fs) \<subseteq> set fs" "f \<in> set fs \<Longrightarrow> \<not> P f \<Longrightarrow> f \<in> set (drop_matching n P fs)"
  by (induction n P fs rule: drop_matching.induct) (auto split: nat.splits)

lemma delete_matching_files:
  assumes "record_deletion recorded (delete_matching reply P ar) = (st, ar')"
  shows "same_writer ar ar'" "set (ar_files ar') \<subseteq> set (ar_files ar)"
    "f \<in> set (ar_files ar) \<Longrightarrow> \<not> P f \<Longrightarrow> f \<in> set (ar_files ar')"
    "reply = Deletes \<Longrightarrow> ar_files ar' = filter (\<lambda>f. \<not> P f) (ar_files ar)"
  using assms
  by (auto simp: record_deletion_def delete_matching_def same_writer_def split: delete_reply.splits if_splits
      dest: subsetD [OF drop_matching_set(1)] intro: drop_matching_set(2))

text \<open>What either kind of deletion does to the files.\<close>

definition delete_files ::
  "delete_reply \<Rightarrow> bool \<Rightarrow> cpp_string \<Rightarrow> cpp_string option \<Rightarrow> DestroyScope \<Rightarrow> Archive \<Rightarrow> cl_status \<times> Archive" where
  "delete_files reply recorded chronicle story scope ar =
     (case story of
        None \<Rightarrow> delete_chronicle_files reply recorded chronicle scope ar
      | Some s \<Rightarrow> delete_story_files reply recorded chronicle s scope ar)"

lemma delete_files_effect:
  assumes ok: "archive_ok ar" and ret: "delete_files reply recorded chronicle story scope ar = (st, ar')"
  shows "archive_ok ar'" "same_writer ar ar'" "set (ar_files ar') \<subseteq> set (ar_files ar)"
    and "f \<in> set (ar_files ar) \<Longrightarrow> \<not> destroy_takes ar chronicle story scope f \<Longrightarrow> f \<in> set (ar_files ar')"
    and "reply = Deletes \<Longrightarrow> ar_files ar' = filter (\<lambda>f. \<not> destroy_takes ar chronicle story scope f) (ar_files ar)"
proof -
  obtain P where P: "record_deletion recorded (delete_matching reply P ar) = (st, ar')"
    "\<And>f. f \<in> set (ar_files ar) \<Longrightarrow> P f = destroy_takes ar chronicle story scope f"
  proof (cases story)
    case None
    show thesis
      by (rule that [OF ret [unfolded delete_files_def None option.case delete_chronicle_files_def]])
        (use matching_files(2) [OF ok] None in simp)
  next
    case (Some s)
    show thesis
      by (rule that [OF ret [unfolded delete_files_def Some option.case delete_story_files_def]])
        (use matching_files(1) [OF ok] Some in simp)
  qed
  note d = delete_matching_files [OF P(1)]
  show "same_writer ar ar'" by (rule d(1))
  show "archive_ok ar'" using ok subsetD [OF d(2)] unfolding archive_ok_def by blast
  show "set (ar_files ar') \<subseteq> set (ar_files ar)" by (rule d(2))
  show "f \<in> set (ar_files ar')" if "f \<in> set (ar_files ar)" "\<not> destroy_takes ar chronicle story scope f"
    using that d(3) P(2) by auto
  show "reply = Deletes \<Longrightarrow> ar_files ar' = filter (\<lambda>f. \<not> destroy_takes ar chronicle story scope f) (ar_files ar)"
    using d(4) P(2) by (auto intro: filter_cong)
qed

section \<open>Properties of the archive's names\<close>

text \<open>
  Claim C40. Directory names keep chronicles and stories apart and stay inside the archive: the encoding of names is
  injective, and an encoded name is never empty, never the directory itself or its parent, contains neither a slash nor a NUL,
  and never takes the name of the manifest's directory (which begins with a per cent sign and an m).
\<close>

theorem archive_directories_apart:
  "inj encodeArchiveName \<and> 47 \<notin> set (encodeArchiveName name) \<and> 0 \<notin> set (encodeArchiveName name) \<and>
   encodeArchiveName name \<notin> {[], [46], [46, 46]} \<and> take 2 (encodeArchiveName name) \<noteq> [37, 109]"
proof (cases "name \<in> special_names")
  case True
  then show ?thesis using inj_encodeArchiveName by (auto simp: special_names_def encodeArchiveName_def)
next
  case False
  then have ne: "name \<noteq> []" by (auto simp: special_names_def)
  obtain c r where cr: "concat (map encode_char name) = c # r" using encode_chars_special(2) [OF ne] by (meson neq_Nil_conv)
  have "take 2 (c # r) \<noteq> [37, 109]" using encode_chars_head [OF ne cr] by auto
  moreover have "concat (map encode_char name) \<notin> {[], [46], [46, 46]}"
    using encode_chars_special(2) [OF ne] encode_chars_dot [of name] False by (auto simp: special_names_def simp del: concat_eq_Nil_conv)
  ultimately show ?thesis using inj_encodeArchiveName encode_chars_safe [of name] by (simp add: encode_plain [OF False] cr)
qed

text \<open>
  The name of a published window file is read back exactly, whichever numbered name the window got: the second
  its window starts at, the writer's group and start time, the pipeline's number and the file's number.
\<close>

theorem window_name_round_trip:
  "parseWindowFileName (numberedFileName (windowFileName start_time (writer_tag grp start) incarnation sequence) n) =
     Some \<lparr>start_second = start_time div 1000000000, recording_group = grp, writer_start = start,
           file_incarnation = incarnation, file_sequence = sequence\<rparr> \<and>
   isWindowFileName (numberedFileName (windowFileName start_time (writer_tag grp start) incarnation sequence) n)"
  by (simp add: numbered_name parse_name is_window_name)

lemma delete_succeeds: "st = CL_SUCCESS \<Longrightarrow> delete_files reply recorded chronicle story scope ar = (st, ar') \<Longrightarrow> reply = Deletes"
  by (cases reply) (auto simp: delete_files_def delete_story_files_def delete_chronicle_files_def delete_matching_def record_deletion_def
    split: option.splits if_splits)

section \<open>The archive as the store sees it\<close>

text \<open>
  What the store relies on: writing a window leaves it in a file unless it fails, and the file is one a destroy of the window takes;
  other files stay. Deleting takes only what the destroy is for, and all of it when it succeeds.
\<close>

locale window_archive =
  fixes sound :: "'a \<Rightarrow> bool" and files :: "'a \<Rightarrow> 'f set" and content :: "'f \<Rightarrow> StoryChunk"
    and takes :: "'a \<Rightarrow> cpp_string \<Rightarrow> cpp_string option \<Rightarrow> DestroyScope \<Rightarrow> 'f \<Rightarrow> bool"
    and store_window :: "'w \<Rightarrow> StoryChunk \<Rightarrow> 'a \<Rightarrow> cl_status \<times> registry_op list \<times> 'a"
    and delete_windows :: "'d \<Rightarrow> cpp_string \<Rightarrow> cpp_string option \<Rightarrow> DestroyScope \<Rightarrow> 'a \<Rightarrow> cl_status \<times> 'a"
  assumes store_sound: "sound a \<Longrightarrow> store_window x c a = (st, calls, a') \<Longrightarrow> sound a' \<and> takes a' = takes a"
    and store_keeps: "sound a \<Longrightarrow> store_window x c a = (st, calls, a') \<Longrightarrow> files a \<subseteq> files a'"
    and store_adds: "sound a \<Longrightarrow> store_window x c a = (st, calls, a') \<Longrightarrow> f \<in> files a' \<Longrightarrow> f \<notin> files a \<Longrightarrow>
      content f = c \<and> (takes a' chronicle story scope f \<longleftrightarrow> destroy_covers chronicle story (incarnation_bound scope) c)"
    and store_success: "sound a \<Longrightarrow> store_window x c a = (CL_SUCCESS, calls, a') \<Longrightarrow> chunk_empty c \<or> c \<in> content ` files a'"
    and delete_sound: "sound a \<Longrightarrow> delete_windows d chronicle story scope a = (st, a') \<Longrightarrow> sound a' \<and> takes a' = takes a"
    and delete_shrinks: "sound a \<Longrightarrow> delete_windows d chronicle story scope a = (st, a') \<Longrightarrow> files a' \<subseteq> files a"
    and delete_spares: "sound a \<Longrightarrow> delete_windows d chronicle story scope a = (st, a') \<Longrightarrow> f \<in> files a \<Longrightarrow>
      \<not> takes a chronicle story scope f \<Longrightarrow> f \<in> files a'"
    and delete_success: "sound a \<Longrightarrow> delete_windows d chronicle story scope a = (CL_SUCCESS, a') \<Longrightarrow> f \<in> files a' \<Longrightarrow>
      \<not> takes a chronicle story scope f"
begin

lemma stored_or_failed:
  assumes "sound a" "store_window x c a = (st, calls, a')" "y \<in> insert c (content ` files a)" "\<not> chunk_empty y" "y \<notin> content ` files a'"
  shows "y = c \<and> st \<noteq> CL_SUCCESS"
  using store_keeps [OF assms(1,2)] store_success [OF assms(1), of x c calls a'] assms(2-5) by blast

lemma kept_or_taken:
  assumes "sound a" "delete_windows d chronicle story scope a = (st, a')" "f \<in> files a"
  shows "f \<in> files a' \<or> takes a chronicle story scope f"
  using delete_spares [OF assms] by blast

lemma delete_takes_all:
  assumes "sound a" "delete_windows d chronicle story scope a = (CL_SUCCESS, a')"
  shows "files a' = {f\<in>files a. \<not> takes a chronicle story scope f}"
  using delete_shrinks [OF assms] delete_spares [OF assms] delete_success [OF assms] by blast

text \<open>Nothing a destroy is for comes back by writing windows it is not for, or by other deletions.\<close>

lemma store_stays_clean:
  assumes "sound a" "store_window x c a = (st, calls, a')" "\<forall>f\<in>files a. \<not> takes a chronicle story scope f"
    "\<not> destroy_covers chronicle story (incarnation_bound scope) c"
  shows "\<forall>f\<in>files a'. \<not> takes a' chronicle story scope f"
  using store_adds [OF assms(1,2)] store_sound [OF assms(1,2)] assms(3,4) by metis

lemma delete_stays_clean:
  assumes "sound a" "delete_windows d chr st' sc a = (st, a')" "\<forall>f\<in>files a. \<not> takes a chronicle story scope f"
  shows "\<forall>f\<in>files a'. \<not> takes a' chronicle story scope f"
  using delete_sound [OF assms(1,2)] delete_shrinks [OF assms(1,2)] assms(3) by auto

end

interpretation hdf5: window_archive archive_ok "\<lambda>ar. set (ar_files ar)" af_window destroy_takes process_chunk "\<lambda>d. delete_files (fst d) (snd d)"
proof
  fix a a' :: Archive and d chronicle story scope f
  assume ok: "archive_ok a" and ret: "delete_files (fst d) (snd d) chronicle story scope a = (CL_SUCCESS, a')" and f: "f \<in> set (ar_files a')"
  have "fst d = Deletes" using delete_succeeds [OF refl ret] .
  from delete_files_effect(5) [OF ok ret this] f show "\<not> destroy_takes a chronicle story scope f" by simp
next
  fix a a' :: Archive and x c st calls
  assume "archive_ok a" "process_chunk x c a = (st, calls, a')"
  note po = process_chunk_outcome [OF this]
  show "archive_ok a' \<and> destroy_takes a' = destroy_takes a" "set (ar_files a) \<subseteq> set (ar_files a')"
    using po(1-3) destroy_takes_same by blast+
  show "af_window f = c \<and> (destroy_takes a' chronicle story scope f \<longleftrightarrow> destroy_covers chronicle story (incarnation_bound scope) c)"
    if "f \<in> set (ar_files a')" "f \<notin> set (ar_files a)" for f chronicle story scope
    using po(4) [OF that(1)] that(2) destroy_takes_own [of a f] destroy_takes_same [OF po(2)] by simp
next
  fix a a' :: Archive and x c calls
  assume "archive_ok a" "process_chunk x c a = (CL_SUCCESS, calls, a')"
  from process_chunk_outcome(6) [OF this refl] show "chunk_empty c \<or> c \<in> archived a'" .
next
  fix a a' :: Archive and d chronicle story scope st
  assume ok: "archive_ok a" and ret: "delete_files (fst d) (snd d) chronicle story scope a = (st, a')"
  note de = delete_files_effect [OF ok ret]
  show "archive_ok a' \<and> destroy_takes a' = destroy_takes a" using de(1,2) destroy_takes_same by blast
  show "set (ar_files a') \<subseteq> set (ar_files a)" by (fact de(3))
  show "f \<in> set (ar_files a')" if "f \<in> set (ar_files a)" "\<not> destroy_takes a chronicle story scope f" for f by (rule de(4) [OF that])
qed

end
