(* ===== verification/GrapherDataStore.thy ===== *)
theory GrapherDataStore
  imports ArchiveFiles
begin

text \<open>
  The grapher's data store (\<^verbatim>\<open>src/chrono-grapher/src/GrapherDataStore.cpp\<close>, \<^verbatim>\<open>include/GrapherDataStore.h\<close>) with its
  ingestion queue (\<^verbatim>\<open>include/ChunkIngestionQueue.h\<close>) and the threads that write what it extracts
  (\<^verbatim>\<open>src/chrono-common/include/StoryChunkExtractionModule.h\<close>): which stories have a pipeline, the chunks that found none, the
  windows on their way to the archive, and the destruction of stories and chronicles.

  The store owns the pipelines, so they are values. An ingestion handle is the number of the pipeline it belongs to, and the
  pointer of a waiting entry is the pipeline the map holds for its story. What a hold of a mutex does is one definition. What a
  thread keeps in a local variable between two holds is a component of the state: chunks that arrived
  (\<open>gs_inHand\<close>), chunks whose handle was looked up (\<open>gs_placing\<close>), windows of retired pipelines (\<open>gs_retired\<close>), destroy
  tasks that are not enqueued yet (\<open>gs_tasks\<close>) and windows being written (\<open>gs_inProcess\<close>, whose number is the queue's count of
  chunks in process). A pipeline appends to the store's extraction queue and calls the store's registry; in the model it
  collects both, and they are moved out when the call returns. Calls to the registry and the deletions are returned
  in order. The clock's readings are arguments. \<^const>\<open>None\<close> is a pipeline's loop that does not end, a division by zero, or a
  handle or a waiting entry whose pipeline is gone.
\<close>

section \<open>State\<close>

datatype GrapherState = GrapherUnknown | GrapherRunning | GrapherShuttingDown

datatype DestroyKind = StoryKind | ChronicleKind

record DestroyTask =
  task_kind :: DestroyKind
  task_chronicleName :: cpp_string
  task_storyName :: cpp_string
  task_scope :: DestroyScope
  task_pipelines :: "StoryPipeline list"
  remainingChunks :: "StoryChunk list"

datatype destroy_worker = WorkerNotStarted | WorkerWaits | WorkerDrains DestroyTask | WorkerGone

record GrapherDataStore =
  gs_state :: GrapherState
  gs_chunk_duration_secs :: u32
  gs_acceptance_window_secs :: u32
  gs_inactive_pipeline_delay_secs :: u32
  gs_extractionChain :: bool
  gs_registry :: bool
  gs_latestIncarnation :: u64
  gs_pipelines :: "(StoryId, StoryPipeline) omap"
  gs_waiting :: "(StoryId, u64) omap"
  gs_destroyedStories :: "StoryId list"
  gs_destroyedChronicles :: "cpp_string list"
  gs_handles :: "(StoryId, u64) omap"
  gs_orphans :: "StoryChunk list"
  gs_destroyQueue :: "DestroyTask list"
  gs_workerShouldExit :: bool
  gs_worker :: destroy_worker
  gs_queue :: "StoryChunk list"
  gs_inProcess :: "StoryChunk list"
  gs_inHand :: "StoryChunk list"
  gs_placing :: "(u64 \<times> StoryChunk) list"
  gs_retired :: "StoryChunk list list"
  gs_tasks :: "DestroyTask list"
  gs_archive :: Archive

definition new_GrapherDataStore :: "u32 \<Rightarrow> u32 \<Rightarrow> u32 \<Rightarrow> bool \<Rightarrow> bool \<Rightarrow> Archive \<Rightarrow> GrapherDataStore" where
  "new_GrapherDataStore duration window delay chain registry ar =
     \<lparr>gs_state = GrapherUnknown, gs_chunk_duration_secs = duration, gs_acceptance_window_secs = window,
      gs_inactive_pipeline_delay_secs = delay, gs_extractionChain = chain, gs_registry = registry, gs_latestIncarnation = 0,
      gs_pipelines = [], gs_waiting = [], gs_destroyedStories = [], gs_destroyedChronicles = [], gs_handles = [],
      gs_orphans = [], gs_destroyQueue = [], gs_workerShouldExit = False, gs_worker = WorkerNotStarted, gs_queue = [],
      gs_inProcess = [], gs_inHand = [], gs_placing = [], gs_retired = [], gs_tasks = [], gs_archive = ar\<rparr>"

datatype grapher_call =
  OnRegistry registry_op
| DeletesFiles cpp_string "cpp_string option" DestroyScope cl_status

definition on_registry :: "GrapherDataStore \<Rightarrow> registry_op list \<Rightarrow> grapher_call list" where
  "on_registry gs ops = (if gs_registry gs then map OnRegistry ops else [])"

section \<open>Calls on a pipeline\<close>

fun tracker_op :: "tracker_call \<Rightarrow> registry_op" where
  "tracker_op (HoldReceipt sid n) = Hold sid n"
| "tracker_op (ReceiptMerged sid n) = Merged sid n"

text \<open>What a call on a pipeline leaves: the pipeline, the chunks it stashed, the windows it handed out, and the calls it made.\<close>

type_synonym pipe_result = "StoryPipeline \<times> StoryChunk list \<times> StoryChunk list \<times> grapher_call list"

definition pipe_outputs :: "StoryPipeline \<Rightarrow> StoryChunk list \<Rightarrow> pipe_result" where
  "pipe_outputs pl extracted =
     (pl\<lparr>theExtractionQueue := map_option (\<lambda>_. []) (theExtractionQueue pl),
         theReceiptTracker := map_option (\<lambda>_. []) (theReceiptTracker pl)\<rparr>,
      case theExtractionQueue pl of None \<Rightarrow> [] | Some q \<Rightarrow> q,
      extracted,
      case theReceiptTracker pl of None \<Rightarrow> [] | Some calls \<Rightarrow> map (OnRegistry \<circ> tracker_op) calls)"

definition pipe_collect :: "StoryPipeline \<Rightarrow> pipe_result option" where
  "pipe_collect pl = map_option (\<lambda>pl'. pipe_outputs pl' []) (collectIngestedEvents pl)"

definition pipe_extract :: "u64 \<Rightarrow> StoryPipeline \<Rightarrow> pipe_result option" where
  "pipe_extract now pl = map_option (\<lambda>(pl', out). pipe_outputs pl' out) (extractDecayedStoryChunks now pl [])"

definition pipe_finalize :: "StoryPipeline \<Rightarrow> pipe_result option" where
  "pipe_finalize pl = map_option (\<lambda>(pl', out). pipe_outputs pl' out) (finalize pl [])"

text \<open>A call on each pipeline of a map in turn.\<close>

fun each_pipe ::
  "(StoryPipeline \<Rightarrow> pipe_result option) \<Rightarrow> (StoryId, StoryPipeline) omap \<Rightarrow>
     ((StoryId, StoryPipeline) omap \<times> StoryChunk list \<times> StoryChunk list \<times> grapher_call list) option" where
  "each_pipe f [] = Some ([], [], [], [])"
| "each_pipe f ((sid, pl) # m) =
     (case f pl of
        None \<Rightarrow> None
      | Some (pl', stash, out, calls) \<Rightarrow>
          map_option (\<lambda>(m', stash', out', calls'). ((sid, pl') # m', stash @ stash', out @ out', calls @ calls')) (each_pipe f m))"

section \<open>The ingestion queue\<close>

text \<open>An existing handle of the story would stay.\<close>

definition gs_addHandle :: "StoryId \<Rightarrow> u64 \<Rightarrow> GrapherDataStore \<Rightarrow> GrapherDataStore" where
  "gs_addHandle sid n gs = gs\<lparr>gs_handles := omap_emplace sid n (gs_handles gs)\<rparr>"

definition gs_removeHandle :: "StoryId \<Rightarrow> GrapherDataStore \<Rightarrow> GrapherDataStore" where
  "gs_removeHandle sid gs = gs\<lparr>gs_handles := omap_erase sid (gs_handles gs)\<rparr>"

text \<open>
  The two parts of \<^verbatim>\<open>ingestStoryChunk\<close>. The handle is looked up without the queue's mutex; the chunk is put in the deque of
  the handle, or among the orphans, afterwards.
\<close>

definition find_handle :: "StoryChunk \<Rightarrow> GrapherDataStore \<Rightarrow> u64 option" where
  "find_handle c gs = map_of (gs_handles gs) (chunkStoryId c)"

definition push_chunk :: "u64 \<Rightarrow> StoryChunk \<Rightarrow> GrapherDataStore \<Rightarrow> GrapherDataStore option" where
  "push_chunk n c gs =
     (case map_of (gs_pipelines gs) (chunkStoryId c) of
        None \<Rightarrow> None
      | Some pl \<Rightarrow>
          if plIncarnation pl = n
          then Some (gs\<lparr>gs_pipelines := omap_put (chunkStoryId c) (ingestChunk c pl) (gs_pipelines gs)\<rparr>) else None)"

definition ingestStoryChunk :: "StoryChunk \<Rightarrow> GrapherDataStore \<Rightarrow> GrapherDataStore option" where
  "ingestStoryChunk c gs =
     (case find_handle c gs of
        None \<Rightarrow> Some (gs\<lparr>gs_orphans := gs_orphans gs @ [c]\<rparr>)
      | Some n \<Rightarrow> push_chunk n c gs)"

fun drain_chunks :: "StoryChunk list \<Rightarrow> GrapherDataStore \<Rightarrow> GrapherDataStore option" where
  "drain_chunks [] gs = Some gs"
| "drain_chunks (c # cs) gs = Option.bind (ingestStoryChunk c gs) (drain_chunks cs)"

definition drainOrphanChunks :: "GrapherDataStore \<Rightarrow> GrapherDataStore option" where
  "drainOrphanChunks gs =
     (if gs_orphans gs = [] \<or> gs_handles gs = [] then Some gs
      else drain_chunks (gs_orphans gs) (gs\<lparr>gs_orphans := []\<rparr>))"

definition extractOrphanChunks :: "GrapherDataStore \<Rightarrow> StoryChunk list \<times> GrapherDataStore" where
  "extractOrphanChunks gs = (gs_orphans gs, gs\<lparr>gs_orphans := []\<rparr>)"

definition chunk_queue_shutDown :: "GrapherDataStore \<Rightarrow> GrapherDataStore option" where
  "chunk_queue_shutDown gs = map_option (\<lambda>gs'. gs'\<lparr>gs_handles := []\<rparr>) (drainOrphanChunks gs)"

section \<open>Starting and stopping a story\<close>

definition attach :: "GrapherDataStore \<Rightarrow> StoryPipeline \<Rightarrow> StoryPipeline" where
  "attach gs pl = pl\<lparr>theExtractionQueue := Some [], theReceiptTracker := (if gs_registry gs then Some [] else None)\<rparr>"

definition tombstoned :: "StoryId \<Rightarrow> cpp_string \<Rightarrow> GrapherDataStore \<Rightarrow> bool" where
  "tombstoned sid chronicle gs \<longleftrightarrow> sid \<in> set (gs_destroyedStories gs) \<or> chronicle \<in> set (gs_destroyedChronicles gs)"

text \<open>The status, whether the story had a live pipeline, the store and the calls.\<close>

definition gs_startStoryRecording ::
  "cpp_string \<Rightarrow> cpp_string \<Rightarrow> StoryId \<Rightarrow> u64 \<Rightarrow> bool \<Rightarrow> GrapherDataStore \<Rightarrow>
     (cl_status \<times> bool \<times> GrapherDataStore \<times> grapher_call list) option" where
  "gs_startStoryRecording chronicle story sid start_time is_adoption gs0 =
     (if is_adoption \<and> tombstoned sid chronicle gs0 then Some (CL_ERR_UNKNOWN, False, gs0, [])
      else
        let gs = (if is_adoption then gs0
                  else gs0\<lparr>gs_destroyedStories := filter (\<lambda>s. s \<noteq> sid) (gs_destroyedStories gs0),
                           gs_destroyedChronicles := filter (\<lambda>c. c \<noteq> chronicle) (gs_destroyedChronicles gs0)\<rparr>)
        in (case map_of (gs_pipelines gs) sid of
              Some _ \<Rightarrow>
                Some (CL_SUCCESS, map_of (gs_waiting gs) sid = None, gs\<lparr>gs_waiting := omap_erase sid (gs_waiting gs)\<rparr>,
                  on_registry gs [RegisterStory sid start_time False])
            | None \<Rightarrow>
                (case new_StoryPipeline (gs_latestIncarnation gs) chronicle story sid start_time
                        (gs_chunk_duration_secs gs) (gs_acceptance_window_secs gs) of
                   None \<Rightarrow> None
                 | Some (n, pl) \<Rightarrow>
                     Some (CL_SUCCESS, False,
                       gs_addHandle sid n
                         (gs\<lparr>gs_latestIncarnation := n, gs_pipelines := omap_put sid (attach gs pl) (gs_pipelines gs)\<rparr>),
                       on_registry gs [RegisterStory sid start_time (\<not> is_adoption)]))))"

definition gs_stopStoryRecording :: "u64 \<Rightarrow> StoryId \<Rightarrow> GrapherDataStore \<Rightarrow> cl_status \<times> GrapherDataStore" where
  "gs_stopStoryRecording now sid gs =
     (CL_SUCCESS,
      case map_of (gs_pipelines gs) sid of
        None \<Rightarrow> gs
      | Some _ \<Rightarrow>
          gs\<lparr>gs_waiting := omap_put sid (now + ucast (gs_inactive_pipeline_delay_secs gs) * 1000000000) (gs_waiting gs)\<rparr>)"

section \<open>Destroying a story or a chronicle\<close>

text \<open>
  The part of \<^verbatim>\<open>destroyStory\<close> before the task is enqueued. The code erases the story from the map before it drains
  the orphans; the drain looks only at the handles. \<^verbatim>\<open>finalize\<close> runs after the mutex is released, on a pipeline that only a
  handle looked up before can still reach: what such a thread puts in the deque it may as well put there before the
  hold, so that \<^verbatim>\<open>finalize\<close> is part of the step.
\<close>

definition new_task :: "DestroyKind \<Rightarrow> cpp_string \<Rightarrow> cpp_string \<Rightarrow> int \<Rightarrow> GrapherDataStore \<Rightarrow> DestroyTask" where
  "new_task kind chronicle story now gs =
     \<lparr>task_kind = kind, task_chronicleName = chronicle, task_storyName = story,
      task_scope = \<lparr>incarnation_bound = gs_latestIncarnation gs, requested_at = Some now\<rparr>, task_pipelines = [],
      remainingChunks = []\<rparr>"

text \<open>
  Unhook the pipelines that are hit: drain, collect, remove the handles, report the drop of the stories where it is not
  reported yet, and finalize. A waiting entry that is looked at and has no pipeline in the map has none at all.
\<close>

definition unhook :: "(StoryId \<times> StoryPipeline \<Rightarrow> bool) \<Rightarrow> (StoryId \<Rightarrow> bool) \<Rightarrow> bool \<Rightarrow> DestroyTask \<Rightarrow> GrapherDataStore \<Rightarrow>
    (DestroyTask \<times> GrapherDataStore \<times> grapher_call list) option" where
  "unhook hit looked_at report task gs0 =
     (if \<exists>w\<in>set (gs_waiting gs0). looked_at (fst w) \<and> map_of (gs_pipelines gs0) (fst w) = None then None
      else if filter hit (gs_pipelines gs0) = [] then Some (task, gs0, [])
      else
        Option.bind (drainOrphanChunks gs0) (\<lambda>gs.
        Option.bind (each_pipe pipe_collect (filter hit (gs_pipelines gs))) (\<lambda>(m1, stash1, out1, calls1).
        Option.bind (each_pipe pipe_finalize m1) (\<lambda>(m2, stash2, out2, calls2).
          Some (task\<lparr>task_pipelines := map snd m2, remainingChunks := out2\<rparr>,
                gs\<lparr>gs_pipelines := filter (\<lambda>p. \<not> hit p) (gs_pipelines gs),
                   gs_waiting := filter (\<lambda>w. fst w \<notin> fst ` set m1) (gs_waiting gs),
                   gs_handles := filter (\<lambda>h. fst h \<notin> fst ` set m1) (gs_handles gs),
                   gs_queue := gs_queue gs @ stash1 @ stash2\<rparr>,
                calls1 @ (if report then on_registry gs (map (\<lambda>p. DropStory (fst p)) m1) else []) @ calls2)))))"

definition unhook_story ::
  "int \<Rightarrow> StoryId \<Rightarrow> cpp_string \<Rightarrow> cpp_string \<Rightarrow> GrapherDataStore \<Rightarrow> (DestroyTask \<times> GrapherDataStore \<times> grapher_call list) option" where
  "unhook_story now sid chronicle story gs =
     map_option (\<lambda>(task, gs', calls). (task, gs', on_registry gs [DropStory sid] @ calls))
       (unhook (\<lambda>p. fst p = sid) (\<lambda>s. s = sid) False (new_task StoryKind chronicle story now gs)
         (gs\<lparr>gs_destroyedStories := List.insert sid (gs_destroyedStories gs)\<rparr>))"

definition unhook_chronicle ::
  "int \<Rightarrow> cpp_string \<Rightarrow> GrapherDataStore \<Rightarrow> (DestroyTask \<times> GrapherDataStore \<times> grapher_call list) option" where
  "unhook_chronicle now chronicle gs =
     unhook (\<lambda>p. plChronicleName (snd p) = chronicle) (\<lambda>_. True) True (new_task ChronicleKind chronicle [] now gs)
       (gs\<lparr>gs_destroyedChronicles := List.insert chronicle (gs_destroyedChronicles gs)\<rparr>)"

definition enqueueDestroyTask :: "DestroyTask \<Rightarrow> GrapherDataStore \<Rightarrow> GrapherDataStore" where
  "enqueueDestroyTask task gs = gs\<lparr>gs_destroyQueue := gs_destroyQueue gs @ [task]\<rparr>"

definition destroyStory ::
  "int \<Rightarrow> StoryId \<Rightarrow> cpp_string \<Rightarrow> cpp_string \<Rightarrow> GrapherDataStore \<Rightarrow> (cl_status \<times> GrapherDataStore \<times> grapher_call list) option" where
  "destroyStory now sid chronicle story gs =
     map_option (\<lambda>(task, gs', calls). (CL_SUCCESS, enqueueDestroyTask task gs', calls)) (unhook_story now sid chronicle story gs)"

definition destroyChronicle :: "int \<Rightarrow> cpp_string \<Rightarrow> GrapherDataStore \<Rightarrow> (cl_status \<times> GrapherDataStore \<times> grapher_call list) option" where
  "destroyChronicle now chronicle gs =
     map_option (\<lambda>(task, gs', calls). (CL_SUCCESS, enqueueDestroyTask task gs', calls)) (unhook_chronicle now chronicle gs)"

section \<open>The destroy worker and the extraction threads\<close>

definition remove_nth :: "nat \<Rightarrow> 'a list \<Rightarrow> 'a list" where
  "remove_nth i xs = take i xs @ drop (Suc i) xs"

definition extraction_idle :: "GrapherDataStore \<Rightarrow> bool" where
  "extraction_idle gs \<longleftrightarrow> gs_queue gs = [] \<and> gs_inProcess gs = []"

text \<open>
  The worker takes the oldest task and stashes its chunks; it waits until extraction is idle, or for the exit flag, and
  deletes the files; with the flag up and no task left it ends.
\<close>

definition worker_take :: "GrapherDataStore \<Rightarrow> GrapherDataStore option" where
  "worker_take gs =
     (case (gs_worker gs, gs_destroyQueue gs) of
        (WorkerWaits, task # tasks) \<Rightarrow>
          Some (gs\<lparr>gs_destroyQueue := tasks, gs_queue := gs_queue gs @ remainingChunks task,
                   gs_worker := WorkerDrains (task\<lparr>remainingChunks := []\<rparr>)\<rparr>)
      | _ \<Rightarrow> None)"

definition task_story :: "DestroyTask \<Rightarrow> cpp_string option" where
  "task_story task = (if task_kind task = StoryKind then Some (task_storyName task) else None)"

definition worker_delete :: "delete_reply \<Rightarrow> bool \<Rightarrow> GrapherDataStore \<Rightarrow> (GrapherDataStore \<times> grapher_call list) option" where
  "worker_delete reply recorded gs =
     (case gs_worker gs of
        WorkerDrains task \<Rightarrow>
          if \<not> gs_workerShouldExit gs \<and> \<not> extraction_idle gs then None
          else if gs_extractionChain gs
          then
            (case delete_files reply recorded (task_chronicleName task) (task_story task) (task_scope task) (gs_archive gs) of
               (status, ar) \<Rightarrow>
                 Some (gs\<lparr>gs_archive := ar, gs_worker := WorkerWaits\<rparr>,
                   [DeletesFiles (task_chronicleName task) (task_story task) (task_scope task) status]))
          else Some (gs\<lparr>gs_worker := WorkerWaits\<rparr>, [])
      | _ \<Rightarrow> None)"

definition worker_exit :: "GrapherDataStore \<Rightarrow> GrapherDataStore option" where
  "worker_exit gs =
     (if gs_worker gs = WorkerWaits \<and> gs_destroyQueue gs = [] \<and> gs_workerShouldExit gs
      then Some (gs\<lparr>gs_worker := WorkerGone\<rparr>) else None)"

text \<open>An extraction thread takes the oldest window; it writes the window and frees it, whatever comes of it.\<close>

definition gs_ejectStoryChunk :: "GrapherDataStore \<Rightarrow> GrapherDataStore option" where
  "gs_ejectStoryChunk gs =
     (case gs_queue gs of
        [] \<Rightarrow> None
      | c # cs \<Rightarrow> Some (gs\<lparr>gs_queue := cs, gs_inProcess := gs_inProcess gs @ [c]\<rparr>))"

definition extract_chunk :: "extract_replies \<Rightarrow> nat \<Rightarrow> GrapherDataStore \<Rightarrow> (GrapherDataStore \<times> grapher_call list) option" where
  "extract_chunk x i gs =
     (if length (gs_inProcess gs) \<le> i then None
      else
        (case process_chunk x (gs_inProcess gs ! i) (gs_archive gs) of
           (status, ops, ar) \<Rightarrow>
             Some (gs\<lparr>gs_archive := ar, gs_inProcess := remove_nth i (gs_inProcess gs)\<rparr>, map OnRegistry ops)))"

section \<open>Collection, decay and retirement\<close>

definition on_pipes ::
  "(StoryPipeline \<Rightarrow> pipe_result option) \<Rightarrow> GrapherDataStore \<Rightarrow> (GrapherDataStore \<times> StoryChunk list \<times> grapher_call list) option" where
  "on_pipes f gs =
     map_option (\<lambda>(m, stash, out, calls). (gs\<lparr>gs_pipelines := m, gs_queue := gs_queue gs @ stash\<rparr>, out, calls))
       (each_pipe f (gs_pipelines gs))"

text \<open>\<^verbatim>\<open>collectIngestedEvents\<close> drains the orphans first, then takes the store's mutex.\<close>

definition gs_collect_pipelines :: "GrapherDataStore \<Rightarrow> (GrapherDataStore \<times> grapher_call list) option" where
  "gs_collect_pipelines gs = map_option (\<lambda>(gs', out, calls). (gs', calls)) (on_pipes pipe_collect gs)"

definition gs_collectIngestedEvents :: "GrapherDataStore \<Rightarrow> (GrapherDataStore \<times> grapher_call list) option" where
  "gs_collectIngestedEvents gs = Option.bind (drainOrphanChunks gs) gs_collect_pipelines"

text \<open>The decayed windows are stashed under the store's mutex.\<close>

definition gs_extractDecayedStoryChunks :: "u64 \<Rightarrow> GrapherDataStore \<Rightarrow> (GrapherDataStore \<times> grapher_call list) option" where
  "gs_extractDecayedStoryChunks current_time gs =
     map_option (\<lambda>(gs', out, calls). (gs'\<lparr>gs_queue := gs_queue gs' @ out\<rparr>, calls)) (on_pipes (pipe_extract current_time) gs)"

definition retire_pipe ::
  "u64 \<Rightarrow> StoryId \<times> u64 \<Rightarrow> GrapherDataStore \<Rightarrow> (GrapherDataStore \<times> StoryChunk list \<times> grapher_call list) option" where
  "retire_pipe current_time entry gs =
     (if current_time < snd entry then Some (gs, [], [])
      else
        (case map_of (gs_pipelines gs) (fst entry) of
           None \<Rightarrow> None
         | Some pl \<Rightarrow>
             map_option
               (\<lambda>(pl', stash, out, calls).
                 (gs_removeHandle (plStoryId pl)
                    (gs\<lparr>gs_pipelines := omap_erase (plStoryId pl) (gs_pipelines gs),
                        gs_waiting := omap_erase (fst entry) (gs_waiting gs), gs_queue := gs_queue gs @ stash\<rparr>), out, calls))
               (pipe_finalize pl)))"

fun retire_pipes ::
  "u64 \<Rightarrow> (StoryId, u64) omap \<Rightarrow> GrapherDataStore \<Rightarrow> (GrapherDataStore \<times> StoryChunk list \<times> grapher_call list) option" where
  "retire_pipes current_time [] gs = Some (gs, [], [])"
| "retire_pipes current_time (entry # entries) gs =
     (case retire_pipe current_time entry gs of
        None \<Rightarrow> None
      | Some (gs', out, calls) \<Rightarrow>
          map_option (\<lambda>(gs'', out', calls'). (gs'', out @ out', calls @ calls')) (retire_pipes current_time entries gs'))"

text \<open>The windows of the retired pipelines are stashed after the mutex is released.\<close>

definition gs_retire_hold :: "u64 \<Rightarrow> GrapherDataStore \<Rightarrow> (GrapherDataStore \<times> grapher_call list) option" where
  "gs_retire_hold current_time gs =
     map_option (\<lambda>(gs', out, calls). (gs'\<lparr>gs_retired := gs_retired gs' @ [out]\<rparr>, calls))
       (if gs_pipelines gs = [] then Some (gs, [], []) else retire_pipes current_time (gs_waiting gs) gs)"

definition stash_retired :: "nat \<Rightarrow> GrapherDataStore \<Rightarrow> GrapherDataStore option" where
  "stash_retired i gs =
     (if length (gs_retired gs) \<le> i then None
      else Some (gs\<lparr>gs_queue := gs_queue gs @ gs_retired gs ! i, gs_retired := remove_nth i (gs_retired gs)\<rparr>))"

definition gs_retireDecayedPipelines :: "u64 \<Rightarrow> GrapherDataStore \<Rightarrow> (GrapherDataStore \<times> grapher_call list) option" where
  "gs_retireDecayedPipelines current_time gs =
     Option.bind (gs_retire_hold current_time gs) (\<lambda>(gs', calls).
       map_option (\<lambda>gs''. (gs'', calls)) (stash_retired (length (gs_retired gs)) gs'))"

section \<open>Adoption of orphan chunks\<close>

text \<open>
  Each orphan gets a pipeline from its own names, or is dropped if its story is destroyed. The stories
  adopted, and of these the ones that were live already, are carried along; of the first the others are stopped at the end.
\<close>

definition adopt_chunk :: "StoryChunk \<Rightarrow> GrapherDataStore \<Rightarrow> (bool \<times> bool \<times> GrapherDataStore \<times> grapher_call list) option" where
  "adopt_chunk c gs =
     map_option
       (\<lambda>(status, was_active, gs', calls).
         if status = CL_SUCCESS then (True, was_active, gs', calls)
         else (False, False, gs', calls @ on_registry gs' [DropStory (chunkStoryId c)]))
       (gs_startStoryRecording (chronicleName c) (storyName c) (chunkStoryId c) (startTime c) True gs)"

fun adopt_chunks ::
  "StoryChunk list \<Rightarrow> StoryId list \<Rightarrow> StoryId list \<Rightarrow> GrapherDataStore \<Rightarrow>
     (StoryId list \<times> StoryId list \<times> GrapherDataStore \<times> grapher_call list) option" where
  "adopt_chunks [] adopted active gs = Some (adopted, active, gs, [])"
| "adopt_chunks (c # cs) adopted active gs =
     (case adopt_chunk c gs of
        None \<Rightarrow> None
      | Some (taken, was_active, gs1, calls) \<Rightarrow>
          if \<not> taken
          then map_option (\<lambda>(ad, ac, gs', calls'). (ad, ac, gs', calls @ calls')) (adopt_chunks cs adopted active gs1)
          else
            Option.bind (ingestStoryChunk c gs1) (\<lambda>gs2.
              map_option (\<lambda>(ad, ac, gs', calls'). (ad, ac, gs', calls @ calls'))
                (adopt_chunks cs (List.insert (chunkStoryId c) adopted)
                  (if chunkStoryId c \<notin> set adopted \<and> was_active then List.insert (chunkStoryId c) active else active) gs2)))"

definition adoptOrphanChunks :: "u64 \<Rightarrow> GrapherDataStore \<Rightarrow> (GrapherDataStore \<times> grapher_call list) option" where
  "adoptOrphanChunks now gs =
     (case extractOrphanChunks gs of
        (orphans, gs1) \<Rightarrow>
          if orphans = [] then Some (gs1, [])
          else
            map_option
              (\<lambda>(adopted, active, gs2, calls).
                (fold (\<lambda>sid g. snd (gs_stopStoryRecording now sid g)) (filter (\<lambda>s. s \<notin> set active) adopted) gs2, calls))
              (adopt_chunks orphans [] [] gs1))"

section \<open>The collection task, start and shutdown\<close>

text \<open>One round of the task, with the clock read three times; the report of the watermarks is left out.\<close>

definition gs_collection_round :: "u64 \<Rightarrow> u64 \<Rightarrow> u64 \<Rightarrow> GrapherDataStore \<Rightarrow> (GrapherDataStore \<times> grapher_call list) option" where
  "gs_collection_round t1 t2 t3 gs =
     Option.bind (gs_collectIngestedEvents gs) (\<lambda>(gs1, calls1).
     Option.bind (gs_extractDecayedStoryChunks t1 gs1) (\<lambda>(gs2, calls2).
     Option.bind (gs_retireDecayedPipelines t2 gs2) (\<lambda>(gs3, calls3).
     Option.bind (adoptOrphanChunks t3 gs3) (\<lambda>(gs4, calls4).
       Some (gs4, calls1 @ calls2 @ calls3 @ calls4)))))"

definition gs_startDataCollection :: "GrapherDataStore \<Rightarrow> GrapherDataStore" where
  "gs_startDataCollection gs =
     (if gs_state gs = GrapherRunning \<or> gs_state gs = GrapherShuttingDown then gs
      else gs\<lparr>gs_state := GrapherRunning, gs_workerShouldExit := False, gs_worker := WorkerWaits\<rparr>)"

text \<open>Shutdown up to the joins of the threads, and the retirement of what is left behind them.\<close>

definition gs_shutdown_begin :: "GrapherDataStore \<Rightarrow> GrapherDataStore" where
  "gs_shutdown_begin gs =
     (if gs_state gs = GrapherShuttingDown then gs else gs\<lparr>gs_state := GrapherShuttingDown, gs_workerShouldExit := True\<rparr>)"

definition gs_shutdown_finish :: "GrapherDataStore \<Rightarrow> (GrapherDataStore \<times> grapher_call list) option" where
  "gs_shutdown_finish gs =
     (if gs_pipelines gs = [] then Some (gs, [])
      else
        map_option
          (\<lambda>(m, stash, out, calls).
            (gs\<lparr>gs_pipelines := [], gs_waiting := [],
                gs_handles := filter (\<lambda>h. fst h \<notin> (plStoryId \<circ> snd) ` set (gs_pipelines gs)) (gs_handles gs),
                gs_queue := gs_queue gs @ stash @ out\<rparr>, calls))
          (each_pipe pipe_finalize (gs_pipelines gs)))"

section \<open>Windows keep the mark of their pipeline\<close>

text \<open>
  A window of a pipeline carries its story, names and number and counts for the watermark. A pipeline has at least two
  windows, and they end by a bound.
\<close>

definition window_tag :: "StoryPipeline \<Rightarrow> StoryChunk \<Rightarrow> bool" where
  "window_tag pl c \<longleftrightarrow> chunkIncarnation c = plIncarnation pl \<and> chronicleName c = plChronicleName pl \<and>
     storyName c = plStoryName pl \<and> chunkStoryId c = plStoryId pl \<and> \<not> watermarkExempt c"

definition shaped :: "nat \<Rightarrow> StoryPipeline \<Rightarrow> bool" where
  "shaped b pl \<longleftrightarrow> 2 \<le> length (storyTimelineMap pl) \<and>
     (\<forall>p\<in>set (storyTimelineMap pl). window_tag pl (snd p) \<and> unat (endTime (snd p)) \<le> b)"

lemma window_tag_updates [simp]:
  "window_tag (pl\<lparr>storyTimelineMap := m\<rparr>) = window_tag pl" "window_tag (pl\<lparr>theReceiptTracker := t\<rparr>) = window_tag pl"
  "window_tag (pl\<lparr>theExtractionQueue := q\<rparr>) = window_tag pl" "window_tag (pl\<lparr>acceptanceWindow := w\<rparr>) = window_tag pl"
  "window_tag (pl\<lparr>activeDeque := d\<rparr>) = window_tag pl" "window_tag (pl\<lparr>passiveDeque := d\<rparr>) = window_tag pl"
  "window_tag pl (c\<lparr>logEvents := es\<rparr>) = window_tag pl c" "window_tag pl (c\<lparr>carriedReceipts := rs\<rparr>) = window_tag pl c"
  by (simp_all add: window_tag_def fun_eq_iff)

lemma window_tag_make: "window_tag pl (make_window pl a b)"
  by (simp add: window_tag_def make_window_def new_StoryChunk_def Let_def)

lemma shaped_end: "shaped b pl \<Longrightarrow> unat (TimelineEnd pl) \<le> b"
  by (cases "storyTimelineMap pl" rule: rev_cases) (auto simp: shaped_def TimelineEnd_def)

lemma merge_into_shaped:
  assumes inv: "merge_inv pl0 other0 pl other" and at: "storyTimelineMap pl = m @ (key, c) # n"
    and step: "merge_into key pl other = (pl', other')" and sh: "shaped b pl"
  shows "shaped b pl'"
proof -
  have tl: "timeline_ok (plStoryId pl) (unat (chunkGranularity pl)) (m @ (key, c) # n)"
    and other: "wf_chunk other" "chunkStoryId other = plStoryId pl"
    using inv by (simp_all add: merge_inv_def pipeline_ok_def at)
  then have c: "wf_chunk c" "chunkStoryId c = plStoryId pl" by (auto simp: timeline_ok_def window_ok_def)
  note ok = timeline_sorted [OF tl]
  have look: "map_of (storyTimelineMap pl) key = Some c" unfolding at map_of_omap_Some [OF ok] by simp
  obtain c1 pl1 where h: "holdReceipts pl c other = (c1, pl1)" by fastforce
  from holdReceipts_frame [OF h] have c1: "c1 = c\<lparr>carriedReceipts := carriedReceipts c1\<rparr>"
    and pl1: "pl1 = pl\<lparr>theReceiptTracker := theReceiptTracker pl1\<rparr>" by simp_all
  obtain k c2 other2 where me: "mergeEvents c1 other 0 = (k, c2, other2)" by (metis prod_cases3)
  have "wf_chunk c1" "chunkStoryId c1 = chunkStoryId other" using c other c1 by (metis wf_chunk_carried, metis StoryChunk.select_convs(3) StoryChunk.surjective StoryChunk.update_convs(12))
  from mergeEvents_lookup(5) [OF this(1) other(1) this(2) me] have c2: "c2 = c1\<lparr>logEvents := logEvents c2\<rparr>" .
  have "endTime c2 = endTime c" "window_tag pl c2 = window_tag pl c"
    by (subst c2, subst c1, simp)+
  moreover have pl': "pl' = pl\<lparr>theReceiptTracker := theReceiptTracker pl1, storyTimelineMap := m @ (key, c2) # n\<rparr>"
    using step omap_put_mid [OF ok] by (subst (asm) merge_into_def) (simp add: look h me, subst (asm) pl1, subst (asm) pl1, simp add: at)
  ultimately show ?thesis using sh by (auto simp: shaped_def at pl')
qed

lemma omap_put_length: "map_of m k = None \<Longrightarrow> length (omap_put k v m) = Suc (length m)"
proof -
  assume "map_of m k = None"
  then have "filter (\<lambda>p. k < fst p) m = filter (\<lambda>p. \<not> fst p < k) m"
    by (intro filter_cong) (auto simp: map_of_eq_None_iff not_less order.order_iff_strict)
  then show ?thesis using sum_length_filter_compl [of "\<lambda>p. fst p < k" m] by (simp add: omap_put_def)
qed

lemma insert_window_shaped:
  assumes "shaped b pl" "window_tag pl c" "unat (endTime c) \<le> b"
  shows "shaped b (snd (insert_window key c pl))"
  using assms
  by (auto simp: shaped_def insert_window_def omap_emplace_def set_omap_put omap_put_length split: option.split)

lemma prepend_shaped:
  assumes inv: "merge_inv pl0 other0 pl other" and pos: "0 < TimelineStart pl" and sh: "shaped b pl"
  shows "shaped b (snd (prependStoryChunk pl))"
proof -
  let ?a = "TimelineStart pl - chunkGranularity pl"
  from prependStoryChunk_step [OF inv pos] have "unat ?a < unat (TimelineStart pl)" by metis
  then have w: "endTime (make_window pl ?a (TimelineStart pl)) = TimelineStart pl"
    by (simp add: make_window_def new_StoryChunk_def Let_def word_less_nat_alt word_le_nat_alt)
  obtain p m where m: "storyTimelineMap pl = p # m" using sh by (cases "storyTimelineMap pl") (auto simp: shaped_def)
  have "fst p < endTime (snd p)"
    using inv by (intro timeline_interval) (auto simp: merge_inv_def pipeline_ok_def m)
  then have "unat (TimelineStart pl) \<le> b" using sh by (auto simp: shaped_def m TimelineStart_def word_less_nat_alt)
  then show ?thesis unfolding prependStoryChunk_def Let_def
    by (intro insert_window_shaped [OF sh window_tag_make]) (simp add: w)
qed

lemma append_shaped:
  assumes sh: "shaped b pl" and g: "0 < unat (chunkGranularity pl)" and room: "unat (TimelineEnd pl) + unat (chunkGranularity pl) \<le> b" "b < 2 ^ 64"
  shows "shaped b (snd (appendStoryChunk pl))"
proof -
  let ?b = "TimelineEnd pl + chunkGranularity pl"
  have "unat ?b = unat (TimelineEnd pl) + unat (chunkGranularity pl)" using room by (simp add: unat_word_ariths)
  moreover from this g have "endTime (make_window pl (TimelineEnd pl) ?b) = ?b"
    by (simp add: make_window_def new_StoryChunk_def Let_def word_le_nat_alt)
  ultimately show ?thesis unfolding appendStoryChunk_def
    using room by (intro insert_window_shaped [OF sh window_tag_make]) simp
qed

lemma prepend_loop_shaped:
  assumes "prepend_loop pl other iter d = Some r" "merge_inv pl0 other0 pl other" "shaped b pl"
  shows "shaped b (fst r)"
proof -
  let ?P = "\<lambda>pl other iter d r. merge_inv pl0 other0 pl other \<longrightarrow> shaped b pl \<longrightarrow> shaped b (fst r)"
  have "?P pl other iter d r"
  proof (rule prepend_loop.raw_induct [where P = ?P, OF _ assms(1)], intro impI)
    fix f pl other iter d r
    assume IH: "\<And>pl other iter d r. f pl other iter d = Some r \<Longrightarrow> ?P pl other iter d r"
      and inv: "merge_inv pl0 other0 pl other" and sh: "shaped b pl"
      and eq: "(if \<not> chunk_empty other \<and> firstEventTime other < TimelineStart pl
        then case prependStoryChunk pl of
            (None, pl') \<Rightarrow> (case salvage pl' other of (pl'', other', da) \<Rightarrow> f pl'' other' (Some (TimelineStart pl'')) (d \<or> da))
          | (Some key, pl') \<Rightarrow> f pl' other (Some key) d
        else Some (pl, other, iter, d)) = Some r"
    show "shaped b (fst r)"
    proof (cases "\<not> chunk_empty other \<and> firstEventTime other < TimelineStart pl")
      case True
      then have pos: "0 < TimelineStart pl" using le_less_trans word_zero_le by blast
      from prependStoryChunk_step [OF inv pos] obtain w where
        step: "prependStoryChunk pl = (Some (TimelineStart pl - chunkGranularity pl),
          pl\<lparr>storyTimelineMap := (TimelineStart pl - chunkGranularity pl, w) # storyTimelineMap pl\<rparr>)"
        and inv': "merge_inv pl0 other0 (snd (prependStoryChunk pl)) other" .
      from eq True step have "f (snd (prependStoryChunk pl)) other (Some (TimelineStart pl - chunkGranularity pl)) d = Some r" by simp
      from IH [OF this] inv' prepend_shaped [OF inv pos sh] show ?thesis by blast
    next
      case False
      with eq sh show ?thesis by (auto split: if_splits)
    qed
  qed
  with assms show ?thesis by blast
qed

lemma merge_timeline_shaped:
  assumes "merge_inv pl0 other0 pl other" and "storyTimelineMap pl = m @ n"
    and "merge_timeline (map fst n) pl other = (pl', other')" and "shaped b pl"
  shows "shaped b pl'"
  using assms
proof (induction n arbitrary: m pl other)
  case Nil
  then show ?case by simp
next
  case (Cons p n)
  obtain key c where p: "p = (key, c)" by fastforce
  show ?case
  proof (cases "\<not> chunk_empty other \<and> firstEventTime other < TimelineEnd pl")
    case True
    obtain pl1 other1 where mrg: "merge_into key pl other = (pl1, other1)" by fastforce
    have at: "storyTimelineMap pl = m @ (key, c) # n" using Cons.prems(2) by (simp add: p)
    from merge_into_step [OF Cons.prems(1) at mrg] obtain c' where
      inv1: "merge_inv pl0 other0 pl1 other1" and tl1: "storyTimelineMap pl1 = (m @ [(key, c')]) @ n" by auto
    have "merge_timeline (map fst n) pl1 other1 = (pl', other')" using Cons.prems(3) True mrg by (simp add: p)
    from Cons.IH [OF inv1 tl1 this merge_into_shaped [OF Cons.prems(1) at mrg Cons.prems(4)]] show ?thesis .
  next
    case False
    with Cons.prems show ?thesis by (auto simp: p split: if_splits)
  qed
qed

lemma append_loop_shaped:
  assumes "append_loop pl other = Some r" "merge_inv pl0 other0 pl other" "shaped b pl"
    and room: "unat (endTime other0) + unat (chunkGranularity pl0) \<le> b" "b < 2 ^ 64"
  shows "shaped b (fst r)"
proof -
  let ?P = "\<lambda>pl other r. merge_inv pl0 other0 pl other \<longrightarrow> shaped b pl \<longrightarrow> shaped b (fst r)"
  have "?P pl other r"
  proof (rule append_loop.raw_induct [where P = ?P, OF _ assms(1)], intro impI)
    fix f pl other r
    assume IH: "\<And>pl other r. f pl other = Some r \<Longrightarrow> ?P pl other r"
      and inv: "merge_inv pl0 other0 pl other" and sh: "shaped b pl"
      and eq: "(if \<not> chunk_empty other \<and> TimelineEnd pl \<le> endTime other
        then case appendStoryChunk pl of
            (None, pl') \<Rightarrow> Some (pl', other)
          | (Some key, pl') \<Rightarrow>
              if firstEventTime other < TimelineEnd pl'
              then case merge_into key pl' other of (pl'', other') \<Rightarrow> f pl'' other'
              else f pl' other
        else Some (pl, other)) = Some r"
    have fr: "chunkGranularity pl = chunkGranularity pl0" "endTime other = endTime other0" "0 < unat (chunkGranularity pl)"
      using inv by (auto simp: merge_inv_def pipeline_ok_def timeline_ok_def dest: pipeline_frameD chunk_frameD)
    show "shaped b (fst r)"
    proof (cases "\<not> chunk_empty other \<and> TimelineEnd pl \<le> endTime other")
      case True
      then have le: "unat (TimelineEnd pl) + unat (chunkGranularity pl) \<le> b"
        using room(1) fr by (auto simp: word_le_nat_alt)
      then have "unat (TimelineEnd pl) + unat (chunkGranularity pl) < 2 ^ 64" using room(2) by linarith
      from appendStoryChunk_step [OF inv this] obtain w where
        app: "appendStoryChunk pl = (Some (TimelineEnd pl), pl\<lparr>storyTimelineMap := storyTimelineMap pl @ [(TimelineEnd pl, w)]\<rparr>)"
        and inv1: "merge_inv pl0 other0 (snd (appendStoryChunk pl)) other" .
      let ?pl1 = "snd (appendStoryChunk pl)"
      have sh1: "shaped b ?pl1" by (rule append_shaped [OF sh fr(3) le room(2)])
      have at: "storyTimelineMap ?pl1 = storyTimelineMap pl @ (TimelineEnd pl, w) # []" by (simp add: app)
      obtain pl2 other2 where mrg: "merge_into (TimelineEnd pl) ?pl1 other = (pl2, other2)" by fastforce
      have inv2: "merge_inv pl0 other0 pl2 other2" using merge_into_step [OF inv1 at mrg] by blast
      have "f pl2 other2 = Some r \<or> f ?pl1 other = Some r" using eq True mrg by (auto simp: app split: if_splits)
      then show ?thesis using IH inv1 inv2 sh1 merge_into_shaped [OF inv1 at mrg sh1] by blast
    next
      case False
      with eq sh show ?thesis by (auto split: if_splits)
    qed
  qed
  with assms show ?thesis by blast
qed

lemma widened_tag: "window_tag (widened pl other) = window_tag pl"
  by (simp add: widened_def)

text \<open>What a merge leaves of a pipeline: everything but its windows, the acceptance window and the calls.\<close>

definition pipe_frame :: "StoryPipeline \<Rightarrow> StoryPipeline \<Rightarrow> bool" where
  "pipe_frame pl pl' \<longleftrightarrow> pipeline_frame (pl\<lparr>acceptanceWindow := 0\<rparr>) (pl'\<lparr>acceptanceWindow := 0\<rparr>)"

lemma pipe_frame_refl [simp]: "pipe_frame pl pl"
  by (simp add: pipe_frame_def)

lemma pipe_frame_trans: "pipe_frame pl pl1 \<Longrightarrow> pipe_frame pl1 pl2 \<Longrightarrow> pipe_frame pl pl2"
  by (simp add: pipe_frame_def pipeline_frame_def)

lemma pipe_frame_of: "pipeline_frame pl pl' \<Longrightarrow> pipe_frame pl pl'"
  by (cases pl; cases pl') (simp add: pipe_frame_def pipeline_frame_def)

lemma pipe_frame_widened: "pipe_frame pl (widened pl other)"
  by (cases pl) (simp add: pipe_frame_def pipeline_frame_def widened_def)

lemma pipe_frameD:
  assumes "pipe_frame pl pl'"
  shows "plIncarnation pl' = plIncarnation pl" "plStoryId pl' = plStoryId pl" "plChronicleName pl' = plChronicleName pl"
    "plStoryName pl' = plStoryName pl" "chunkGranularity pl' = chunkGranularity pl" "ingestionHandle pl' = ingestionHandle pl"
    "activeDeque pl' = activeDeque pl" "passiveDeque pl' = passiveDeque pl" "theExtractionQueue pl' = theExtractionQueue pl"
    "window_tag pl' = window_tag pl"
  using assms by (cases pl; cases pl'; simp add: pipe_frame_def pipeline_frame_def window_tag_def fun_eq_iff)+

text \<open>A merge keeps the shape, and the acceptance window within the bound.\<close>

definition bounded :: "nat \<Rightarrow> StoryPipeline \<Rightarrow> bool" where
  "bounded b pl \<longleftrightarrow> pipeline_ok pl \<and> shaped b pl \<and> unat (acceptanceWindow pl) \<le> b + 3000"

lemma start_bound:
  assumes "pipeline_ok pl" "shaped b pl" "t < TimelineStart pl" "b + 3000 < 2 ^ 64"
  shows "unat (TimelineStart pl - t + 3000) \<le> b + 3000"
proof -
  obtain p m where m: "storyTimelineMap pl = p # m" using assms(2) by (cases "storyTimelineMap pl") (auto simp: shaped_def)
  have "fst p < endTime (snd p)" using assms(1) by (intro timeline_interval) (auto simp: pipeline_ok_def m)
  then have "unat (TimelineStart pl) \<le> b" using assms(2) by (auto simp: shaped_def m TimelineStart_def word_less_nat_alt)
  moreover have "unat (TimelineStart pl - t) \<le> unat (TimelineStart pl)"
    using assms(3) by (simp add: unat_sub less_imp_le)
  ultimately show ?thesis using assms(4) by (simp add: unat_word_ariths)
qed

lemma merge_bounded:
  assumes pl: "bounded b pl" and wf: "wf_chunk other" and sid: "chunkStoryId other = plStoryId pl"
    and room: "unat (endTime other) + unat (chunkGranularity pl) \<le> b" "b + 3000 < 2 ^ 64"
  shows "\<exists>pl' other'. pipeline_mergeEvents pl other = Some (pl', other') \<and> bounded b pl' \<and> pipe_frame pl pl' \<and>
    dom (pipeline_events pl') = dom (pipeline_events pl) \<union> dom (events_of other)"
proof (cases "chunk_empty other")
  case True
  with pl show ?thesis by (simp add: pipeline_mergeEvents_def)
next
  case ne: False
  have ok: "pipeline_ok pl" and sh: "shaped b pl" and aw: "unat (acceptanceWindow pl) \<le> b + 3000"
    using pl by (simp_all add: bounded_def)
  let ?pl0 = "widened pl other"
  have sh0: "shaped b ?pl0" using sh by (simp add: shaped_def widened_same widened_tag)
  have r64: "unat (endTime other) + unat (chunkGranularity pl) < 2 ^ 64" using room by linarith
  from merge_start_covers [OF ok wf sid ne] obtain pl1 iter where
    start: "merge_start pl other = Some (pl1, other, iter, False)" and inv1: "merge_inv ?pl0 other pl1 other"
    and iter: "case iter of None \<Rightarrow> TimelineEnd pl1 \<le> firstEventTime other
         | Some key \<Rightarrow> key \<le> firstEventTime other \<and> (\<exists>m n. storyTimelineMap pl1 = m @ n \<and> n \<noteq> [] \<and> fst (hd n) = key
             \<and> omap_from key (storyTimelineMap pl1) = n)" by blast
  have inv0: "merge_inv ?pl0 other ?pl0 other" using ok wf sid by (intro merge_inv_refl) (simp_all add: widened_same)
  have sh1: "shaped b pl1"
  proof (cases "firstEventTime other < TimelineStart pl")
    case True
    then have "prepend_loop ?pl0 other None False = Some (pl1, other, iter, False)"
      using start ne by (simp add: merge_start_def Let_def widened_def)
    from prepend_loop_shaped [OF this inv0 sh0] show ?thesis by simp
  next
    case False
    with start sh show ?thesis by (auto simp: merge_start_def Let_def split: if_splits)
  qed
  obtain pl2 other2 where mt: "(case iter of None \<Rightarrow> (pl1, other)
      | Some key \<Rightarrow> merge_timeline (map fst (omap_from key (storyTimelineMap pl1))) pl1 other) = (pl2, other2)"
    by fastforce
  have two: "merge_inv ?pl0 other pl2 other2 \<and> shaped b pl2"
  proof (cases iter)
    case None
    with mt inv1 sh1 show ?thesis by simp
  next
    case (Some key)
    with iter obtain m n where n: "storyTimelineMap pl1 = m @ n" "n \<noteq> []" "fst (hd n) = key"
      "omap_from key (storyTimelineMap pl1) = n" "key \<le> firstEventTime other" by auto
    with Some mt have mt': "merge_timeline (map fst n) pl1 other = (pl2, other2)" by simp
    have "events_from (if n = [] then TimelineEnd pl1 else fst (hd n)) other"
      using n events_from_first [OF wf ne] by simp
    from merge_timeline_drains [OF inv1 n(1) this mt'] merge_timeline_shaped [OF inv1 n(1) mt' sh1] show ?thesis by blast
  qed
  from pipeline_merge [OF ok wf sid r64 ne] obtain pl3 other3 where
    res: "pipeline_mergeEvents pl other = Some (fst (finish_merge False pl3 other3), other3)"
    and inv3: "merge_inv ?pl0 other pl3 other3" and e3: "chunk_empty other3" by blast
  let ?pl' = "fst (finish_merge False pl3 other3)"
  have "storyTimelineMap pl \<noteq> []" using ok by (simp add: pipeline_ok_def)
  then have "map_option (\<lambda>(pl3, other3). finish_merge False pl3 other3) (append_loop pl2 other2) = Some (?pl', other3)"
    using res unfolding pipeline_mergeEvents_def using ne start mt by simp
  then obtain pl4 other4 where al: "append_loop pl2 other2 = Some (pl4, other4)" and fin: "fst (finish_merge False pl4 other4) = ?pl'"
    by auto
  have "storyTimelineMap (fst (finish_merge False pl4 other4)) = storyTimelineMap pl4"
    by (simp add: finish_merge_def Let_def split: option.split)
  moreover have "shaped b pl4"
    using append_loop_shaped [OF al, of ?pl0 other b] two room by (simp add: widened_same)
  ultimately have tl': "2 \<le> length (storyTimelineMap ?pl') \<and>
      (\<forall>p\<in>set (storyTimelineMap ?pl'). window_tag pl4 (snd p) \<and> unat (endTime (snd p)) \<le> b)"
    unfolding fin by (simp add: shaped_def)
  have fr3: "pipeline_frame ?pl0 pl3" and ok3: "pipeline_ok pl3" using inv3 by (simp_all add: merge_inv_def)
  note fr' = finish_merge_drained(2,3) [OF e3, of pl3]
  have frame: "pipe_frame pl ?pl'"
    by (rule pipe_frame_trans [OF pipe_frame_widened pipe_frame_trans [OF pipe_frame_of [OF fr3] pipe_frame_of [OF fr'(2)]]])
  have "pipe_frame pl4 (fst (finish_merge False pl4 other4))"
    by (rule pipe_frame_of) (simp add: finish_merge_def Let_def pipeline_frame_def split: option.split)
  then have "window_tag ?pl' = window_tag pl4" unfolding fin by (rule pipe_frameD)
  with tl' have sh': "shaped b ?pl'" by (simp add: shaped_def)
  have "pipeline_ok ?pl'" using ok3 fr'(1) pipeline_frameD [OF fr'(2)] by (simp add: pipeline_ok_def)
  moreover have "unat (acceptanceWindow ?pl') \<le> b + 3000"
  proof -
    have "unat (acceptanceWindow ?pl0) \<le> b + 3000"
      using aw start_bound [OF ok sh _ room(2), of "firstEventTime other"] by (simp add: widened_def)
    then show ?thesis using pipeline_frameD [OF fr3] pipeline_frameD [OF fr'(2)] by simp
  qed
  moreover have "dom (pipeline_events ?pl') = dom (pipeline_events pl) \<union> dom (events_of other)"
    using merge_inv_drained [OF inv3 e3] fr'(1) by (simp add: widened_same)
  ultimately show ?thesis using res frame sh' by (auto simp: bounded_def)
qed

lemma merge_all_bounded:
  assumes "bounded b pl" "b + 3000 < 2 ^ 64"
    and "\<forall>c\<in>set cs. wf_chunk c \<and> chunkStoryId c = plStoryId pl \<and> unat (endTime c) + unat (chunkGranularity pl) \<le> b"
  shows "\<exists>pl'. merge_all cs pl = Some pl' \<and> bounded b pl' \<and> pipe_frame pl pl' \<and>
    dom (pipeline_events pl') = dom (pipeline_events pl) \<union> (\<Union>c\<in>set cs. dom (events_of c))"
  using assms(1,3)
proof (induction cs arbitrary: pl)
  case Nil
  then show ?case by simp
next
  case (Cons c cs)
  then have c: "wf_chunk c" "chunkStoryId c = plStoryId pl" "unat (endTime c) + unat (chunkGranularity pl) \<le> b" by simp_all
  from merge_bounded [OF Cons.prems(1) c assms(2)] obtain pl1 c' where
    one: "pipeline_mergeEvents pl c = Some (pl1, c')" "bounded b pl1" "pipe_frame pl pl1"
      "dom (pipeline_events pl1) = dom (pipeline_events pl) \<union> dom (events_of c)" by blast
  have "\<forall>c\<in>set cs. wf_chunk c \<and> chunkStoryId c = plStoryId pl1 \<and> unat (endTime c) + unat (chunkGranularity pl1) \<le> b"
    using Cons.prems(2) pipe_frameD [OF one(3)] by simp
  from Cons.IH [OF one(2) this] obtain pl2 where two: "merge_all cs pl1 = Some pl2" "bounded b pl2" "pipe_frame pl1 pl2"
    "dom (pipeline_events pl2) = dom (pipeline_events pl1) \<union> (\<Union>c\<in>set cs. dom (events_of c))" by blast
  show ?case using one two pipe_frame_trans [OF one(3) two(3)] by (intro exI [of _ pl2]) auto
qed

text \<open>Decay, when it returns.\<close>

definition decay_result :: "nat \<Rightarrow> StoryPipeline \<Rightarrow> StoryPipeline \<Rightarrow> StoryChunk list \<Rightarrow> bool" where
  "decay_result b pl pl' out \<longleftrightarrow> bounded b pl' \<and> pipeline_frame pl pl' \<and> theReceiptTracker pl' = theReceiptTracker pl \<and>
     (\<forall>c\<in>set out. window_tag pl c) \<and>
     concat (map logEvents out) @ timeline_events (storyTimelineMap pl') = timeline_events (storyTimelineMap pl)"

lemma append_windows:
  "set (storyTimelineMap (snd (appendStoryChunk pl))) \<subseteq>
     insert (TimelineEnd pl, make_window pl (TimelineEnd pl) (TimelineEnd pl + chunkGranularity pl)) (set (storyTimelineMap pl))"
  "theReceiptTracker (snd (appendStoryChunk pl)) = theReceiptTracker pl"
  by (auto simp: appendStoryChunk_def insert_window_def omap_emplace_def set_omap_put split: option.split)

lemma drop_head_bounded:
  assumes bd: "bounded b pl" and head: "storyTimelineMap pl = (key, h) # q # m" and room: "2 * b + 3000 < 2 ^ 64"
    and now: "unat now + 2 * unat (chunkGranularity pl) \<le> b" and due: "acceptanceWindow pl + endTime h < now"
  shows "decay_result b pl (drop_head pl) [h]"
proof -
  let ?g = "unat (chunkGranularity pl)" and ?pl1 = "pl\<lparr>storyTimelineMap := q # m\<rparr>"
  have ok: "pipeline_ok pl" and sh: "shaped b pl" and aw: "unat (acceptanceWindow pl) \<le> b + 3000" using bd by (simp_all add: bounded_def)
  have tl: "timeline_ok (plStoryId pl) ?g ((key, h) # q # m)" using ok by (simp add: pipeline_ok_def head)
  have h: "unat (endTime h) \<le> b" "window_tag pl h" using sh by (auto simp: shaped_def head)
  have g: "0 < ?g" using tl by (simp add: timeline_ok_Cons)
  have "unat (acceptanceWindow pl + endTime h) = unat (acceptanceWindow pl) + unat (endTime h)"
    using aw h(1) room by (simp add: unat_word_ariths)
  then have due': "unat (acceptanceWindow pl) + unat (endTime h) < unat now" using due by (simp add: word_less_nat_alt)
  have "unat now + 2 * ?g < 2 ^ 64" "unat (acceptanceWindow pl) + unat (TimelineEnd pl) < 2 ^ 64"
    using now room shaped_end [OF sh] aw by simp_all
  note dh = drop_head_step [OF ok _ _ due' this, of key]
  have two: "2 \<le> length (storyTimelineMap pl)" by (simp add: head)
  have fr: "pipeline_frame pl (drop_head pl)" by (rule dh(6)) (simp_all add: head)
  have len: "2 \<le> length (storyTimelineMap (drop_head pl))" by (rule dh(2)) (simp_all add: head)
  have old: "window_tag pl (snd p) \<and> unat (endTime (snd p)) \<le> b" if "p \<in> set (q # m)" for p
    using sh that by (auto simp: shaped_def head)
  have tags: "window_tag pl (snd p) \<and> unat (endTime (snd p)) \<le> b" if p: "p \<in> set (storyTimelineMap (drop_head pl))" for p
  proof (cases "m = []")
    case False
    then have "\<not> length (q # m) < 2" by (cases m) simp_all
    then show ?thesis using p old by (simp add: drop_head_def head del: length_Cons)
  next
    case True
    have q: "unat (endTime (snd q)) = unat (endTime h) + ?g" "TimelineEnd ?pl1 = endTime (snd q)"
      using tl True by (auto simp: timeline_ok_Cons window_ok_def TimelineEnd_def)
    let ?e = "TimelineEnd ?pl1 + chunkGranularity pl" and ?w = "make_window ?pl1 (TimelineEnd ?pl1) (TimelineEnd ?pl1 + chunkGranularity pl)"
    have "unat (endTime (snd q)) + ?g \<le> b" using q due' now by linarith
    then have e: "unat ?e = unat (endTime (snd q)) + ?g" "unat ?e \<le> b" using q(2) room by (simp_all add: unat_word_ariths)
    then have w: "endTime ?w = ?e" using g q(2) by (simp add: make_window_def new_StoryChunk_def Let_def word_le_nat_alt)
    have wt: "window_tag pl ?w" using window_tag_make [of ?pl1] by simp
    have "p \<in> set (storyTimelineMap (snd (appendStoryChunk ?pl1)))" using p True by (simp add: drop_head_def head)
    then have "p \<in> set (q # m) \<or> p = (TimelineEnd ?pl1, ?w)" using append_windows(1) [of ?pl1] by auto
    then show ?thesis using old [of p] w wt e(2) by auto
  qed
  have "window_tag (drop_head pl) = window_tag pl" by (rule pipe_frameD(10) [OF pipe_frame_of [OF fr]])
  with tags len have "shaped b (drop_head pl)" by (simp add: shaped_def)
  moreover have "pipeline_ok (drop_head pl)" by (rule dh(1)) (simp_all add: head)
  moreover have "theReceiptTracker (drop_head pl) = theReceiptTracker pl" by (simp add: drop_head_def Let_def append_windows(2))
  moreover have "logEvents h @ timeline_events (storyTimelineMap (drop_head pl)) = timeline_events (storyTimelineMap pl)"
    by (rule dh(5)) (simp_all add: head)
  ultimately show ?thesis using fr aw h(2) pipeline_frameD [OF fr] by (simp add: decay_result_def bounded_def)
qed

lemma decay_result_trans:
  "decay_result b pl pl1 [h] \<Longrightarrow> decay_result b pl1 pl2 out \<Longrightarrow> decay_result b pl pl2 (h # out)"
  using pipe_frameD(10) [OF pipe_frame_of, of pl pl1]
  by (auto simp: decay_result_def pipeline_frame_def)

lemma extract_bounded:
  assumes ret: "extractDecayedStoryChunks now pl ex = Some r" and start: "bounded b pl" "2 * b + 3000 < 2 ^ 64"
    "unat now + 2 * unat (chunkGranularity pl) \<le> b"
  shows "\<exists>pl' out. r = (pl', ex @ out) \<and> decay_result b pl pl' out"
proof -
  let ?Q = "\<lambda>now pl. bounded b pl \<and> unat now + 2 * unat (chunkGranularity pl) \<le> b"
  let ?P = "\<lambda>now pl ex r. ?Q now pl \<longrightarrow> (\<exists>pl' out. r = (pl', ex @ out) \<and> decay_result b pl pl' out)"
  have "?P now pl ex r"
  proof (rule extractDecayedStoryChunks.raw_induct [where P = ?P, OF _ ret], rule impI)
    fix f now pl ex r
    assume IH: "\<And>now pl ex r. f now pl ex = Some r \<Longrightarrow> ?P now pl ex r" and Q: "?Q now pl"
      and eq: "(case storyTimelineMap pl of [] \<Rightarrow> None
        | (key, head) # rest \<Rightarrow>
            if acceptanceWindow pl + endTime head \<le> now
            then if acceptanceWindow pl + endTime head < now
                 then if rest = [] then None
                      else let pl1 = pl\<lparr>storyTimelineMap := rest\<rparr>;
                               pl2 = (if length rest < 2 then snd (appendStoryChunk pl1) else pl1)
                           in f now pl2 (ex @ [head])
                 else f now pl ex
            else Some (pl, ex)) = Some r"
    from Q obtain key h q m where m: "storyTimelineMap pl = (key, h) # q # m"
      by (cases "storyTimelineMap pl"; cases "tl (storyTimelineMap pl)") (auto simp: bounded_def shaped_def)
    let ?d = "acceptanceWindow pl + endTime h"
    consider (dec) "?d < now" | (same) "?d = now" | (kept) "\<not> ?d \<le> now" by fastforce
    then show "\<exists>pl' out. r = (pl', ex @ out) \<and> decay_result b pl pl' out"
    proof cases
      case dec
      note one = drop_head_bounded [OF _ m start(2) _ dec]
      have "f now (drop_head pl) (ex @ [h]) = Some r"
        using eq dec less_imp_le [OF dec] by (simp add: m drop_head_def Let_def)
      moreover have "?Q now (drop_head pl)" using Q one pipeline_frameD [of pl "drop_head pl"] by (auto simp: decay_result_def)
      ultimately obtain pl2 out where "r = (pl2, (ex @ [h]) @ out)" "decay_result b (drop_head pl) pl2 out" using IH by blast
      then show ?thesis using decay_result_trans [OF one] Q by auto
    next
      case same
      then have "f now pl ex = Some r" using eq m by simp
      then show ?thesis using IH Q by blast
    next
      case kept
      then show ?thesis using eq m Q by (auto simp: decay_result_def)
    qed
  qed
  with start show ?thesis by blast
qed

text \<open>No window that the decay leaves behind is due.\<close>

definition undecayed :: "u64 \<Rightarrow> StoryPipeline \<Rightarrow> bool" where
  "undecayed now pl \<longleftrightarrow> (\<forall>p\<in>set (storyTimelineMap pl). unat now < unat (acceptanceWindow pl) + unat (endTime (snd p)))"

lemma extract_head:
  assumes ret: "extractDecayedStoryChunks now pl ex = Some r"
  shows "\<not> acceptanceWindow (fst r) + endTime (snd (hd (storyTimelineMap (fst r)))) \<le> now"
proof (rule extractDecayedStoryChunks.raw_induct
    [where P = "\<lambda>now pl ex r. \<not> acceptanceWindow (fst r) + endTime (snd (hd (storyTimelineMap (fst r)))) \<le> now", OF _ ret])
  fix f now pl ex r
  assume IH: "\<And>now pl ex r. f now pl ex = Some r \<Longrightarrow> \<not> acceptanceWindow (fst r) + endTime (snd (hd (storyTimelineMap (fst r)))) \<le> now"
    and eq: "(case storyTimelineMap pl of [] \<Rightarrow> None
      | (key, head) # rest \<Rightarrow>
          if acceptanceWindow pl + endTime head \<le> now
          then if acceptanceWindow pl + endTime head < now
               then if rest = [] then None
                    else let pl1 = pl\<lparr>storyTimelineMap := rest\<rparr>;
                             pl2 = (if length rest < 2 then snd (appendStoryChunk pl1) else pl1)
                         in f now pl2 (ex @ [head])
               else f now pl ex
          else Some (pl, ex)) = Some r"
  then show "\<not> acceptanceWindow (fst r) + endTime (snd (hd (storyTimelineMap (fst r)))) \<le> now"
    by (auto simp: Let_def split: list.splits if_splits dest!: IH)
qed

lemma extract_undecayed:
  assumes "extractDecayedStoryChunks now pl ex = Some r" "bounded b (fst r)" "2 * b + 3000 < 2 ^ 64"
  shows "undecayed now (fst r)"
  unfolding undecayed_def
proof
  let ?pl = "fst r"
  fix p assume p: "p \<in> set (storyTimelineMap ?pl)"
  then obtain h m where m: "storyTimelineMap ?pl = h # m" by (cases "storyTimelineMap ?pl") auto
  have tl: "timeline_ok (plStoryId ?pl) (unat (chunkGranularity ?pl)) (h # m)" using assms(2) by (simp add: bounded_def pipeline_ok_def m)
  have "endTime (snd h) \<le> endTime (snd p)" by (rule timeline_head_first [OF tl]) (use p m in simp)
  moreover have "\<not> acceptanceWindow ?pl + endTime (snd h) \<le> now" using extract_head [OF assms(1)] by (simp add: m)
  moreover have "unat (acceptanceWindow ?pl) + unat (endTime (snd h)) < 2 ^ 64"
    using assms(2,3) by (auto simp: bounded_def shaped_def m)
  ultimately show "unat now < unat (acceptanceWindow ?pl) + unat (endTime (snd p))"
    by (simp add: word_le_nat_alt unat_word_ariths)
qed

section \<open>The invariant of a pipeline in the store\<close>

text \<open>
  The clock is read below \<open>2 ^ 62\<close> ns (the year 2116) and chunks end below it; the configured durations are below \<open>2 ^ 56\<close> ns
  (two years). The timelines then stay below \<open>time_bound\<close>, where no sum the pipelines form wraps.
\<close>

definition time_bound :: nat where
  "time_bound = 2 ^ 62 + 3 * 2 ^ 56"

definition time_ok :: "u64 \<Rightarrow> bool" where
  "time_ok t \<longleftrightarrow> unat t < 2 ^ 62"

definition chunk_ok :: "StoryChunk \<Rightarrow> bool" where
  "chunk_ok c \<longleftrightarrow> wf_chunk c \<and> time_ok (startTime c) \<and> time_ok (endTime c)"

definition queued :: "StoryPipeline \<Rightarrow> StoryChunk set" where
  "queued pl = set (passiveDeque pl) \<union> set (activeDeque pl)"

definition pipe_inv :: "u32 \<Rightarrow> StoryId \<Rightarrow> StoryPipeline \<Rightarrow> bool" where
  "pipe_inv d sid pl \<longleftrightarrow> bounded time_bound pl \<and> plStoryId pl = sid \<and> ingestionHandle pl \<and>
     chunkGranularity pl = ucast d * 1000000000 \<and> theExtractionQueue pl = Some [] \<and>
     (theReceiptTracker pl = None \<or> theReceiptTracker pl = Some []) \<and> passiveDeque pl = [] \<and>
     (\<forall>c\<in>queued pl. chunk_ok c \<and> chunkStoryId c = sid)"

definition duration_ok :: "u32 \<Rightarrow> bool" where
  "duration_ok d \<longleftrightarrow> unat d * 1000000000 \<le> 2 ^ 56"

lemma duration_bound: "duration_ok d \<Longrightarrow> unat (ucast (d :: u32) * 1000000000 :: u64) \<le> 2 ^ 56"
  by (simp add: duration_ok_def unat_word_ariths unsigned_ucast_eq take_bit_nat_eq_self)

definition pipe_keeps :: "StoryPipeline \<Rightarrow> EventSequence set" where
  "pipe_keeps pl = dom (pipeline_events pl) \<union> (\<Union>c\<in>queued pl. dom (events_of c))"

text \<open>The same pipeline of the same story, for the store.\<close>

definition same_pipe :: "StoryPipeline \<Rightarrow> StoryPipeline \<Rightarrow> bool" where
  "same_pipe pl pl' \<longleftrightarrow> plIncarnation pl' = plIncarnation pl \<and> plStoryId pl' = plStoryId pl \<and>
     plChronicleName pl' = plChronicleName pl \<and> plStoryName pl' = plStoryName pl"

lemma same_pipe_tag: "same_pipe pl pl' \<Longrightarrow> window_tag pl' = window_tag pl"
  by (simp add: same_pipe_def window_tag_def fun_eq_iff)

lemma queued_room:
  assumes "pipe_inv d sid pl" "duration_ok d" "c \<in> queued pl"
  shows "wf_chunk c \<and> chunkStoryId c = plStoryId pl \<and> unat (endTime c) + unat (chunkGranularity pl) \<le> time_bound"
proof -
  have "chunk_ok c" "chunkStoryId c = sid" "plStoryId pl = sid" "chunkGranularity pl = ucast d * 1000000000"
    using assms(1,3) by (auto simp: pipe_inv_def)
  with duration_bound [OF assms(2)] show ?thesis by (simp add: chunk_ok_def time_ok_def time_bound_def)
qed

lemma time_room: "time_bound + 3000 < 2 ^ 64" "2 * time_bound + 3000 < 2 ^ 64"
  by (simp_all add: time_bound_def)

lemma bounded_updates [simp]:
  "bounded b (pl\<lparr>activeDeque := d\<rparr>) = bounded b pl" "bounded b (pl\<lparr>passiveDeque := d\<rparr>) = bounded b pl"
  "bounded b (pl\<lparr>theExtractionQueue := q\<rparr>) = bounded b pl" "bounded b (pl\<lparr>theReceiptTracker := t\<rparr>) = bounded b pl"
  by (simp_all add: bounded_def shaped_def pipeline_ok_def)

lemma pipe_outputs_inv:
  assumes "bounded time_bound pl" "plStoryId pl = sid" "ingestionHandle pl" "chunkGranularity pl = ucast d * 1000000000"
    "theExtractionQueue pl = Some []" "passiveDeque pl = []" "\<forall>c\<in>queued pl. chunk_ok c \<and> chunkStoryId c = sid"
  shows "\<exists>pl' calls. pipe_outputs pl out = (pl', [], out, calls) \<and> pipe_inv d sid pl' \<and> same_pipe pl pl' \<and>
    pipe_keeps pl' = pipe_keeps pl \<and> queued pl' = queued pl \<and> undecayed now pl' = undecayed now pl"
  using assms
  by (cases "theReceiptTracker pl") (auto simp: pipe_outputs_def pipe_inv_def same_pipe_def pipe_keeps_def queued_def undecayed_def)

lemma pipe_collect_step:
  assumes inv: "pipe_inv d sid pl" and d: "duration_ok d"
  shows "\<exists>pl' calls. pipe_collect pl = Some (pl', [], [], calls) \<and> pipe_inv d sid pl' \<and> same_pipe pl pl' \<and>
    pipe_keeps pl \<subseteq> pipe_keeps pl' \<and> queued pl' = {}"
proof -
  let ?pl1 = "swapActiveDeque pl"
  let ?pl2 = "?pl1\<lparr>passiveDeque := []\<rparr>"
  have q: "queued ?pl1 = queued pl" "set (passiveDeque ?pl1) \<subseteq> queued pl" "set (activeDeque ?pl1) \<subseteq> queued pl"
    by (auto simp: swapActiveDeque_def queued_def)
  have pl2: "bounded time_bound ?pl2" "plStoryId ?pl2 = plStoryId pl" "chunkGranularity ?pl2 = chunkGranularity pl"
    "ingestionHandle ?pl2" "theExtractionQueue ?pl2 = Some []" "pipeline_events ?pl2 = pipeline_events pl"
    "plIncarnation ?pl2 = plIncarnation pl" "plChronicleName ?pl2 = plChronicleName pl" "plStoryName ?pl2 = plStoryName pl"
    using inv by (simp_all add: pipe_inv_def swapActiveDeque_def)
  have "\<forall>c\<in>set (passiveDeque ?pl1). wf_chunk c \<and> chunkStoryId c = plStoryId ?pl2 \<and> unat (endTime c) + unat (chunkGranularity ?pl2) \<le> time_bound"
    using queued_room [OF inv d] q(2) pl2 by auto
  from merge_all_bounded [OF pl2(1) time_room(1) this] obtain pl3 where
    m: "merge_all (passiveDeque ?pl1) ?pl2 = Some pl3" "bounded time_bound pl3" "pipe_frame ?pl2 pl3"
      "dom (pipeline_events pl3) = dom (pipeline_events ?pl2) \<union> (\<Union>c\<in>set (passiveDeque ?pl1). dom (events_of c))" by blast
  note fr = pipe_frameD [OF m(3)]
  have col: "collectIngestedEvents pl = Some pl3"
    using m(1) inv by (simp add: collectIngestedEvents_def Let_def pipe_inv_def)
  have q3: "queued pl3 = set (activeDeque ?pl1)" "passiveDeque pl3 = []" by (simp_all add: queued_def fr)
  have none: "activeDeque ?pl1 = []" using inv by (auto simp: pipe_inv_def swapActiveDeque_def)
  have "pipe_keeps pl = dom (pipeline_events pl) \<union> (\<Union>c\<in>queued ?pl1. dom (events_of c))" by (simp only: pipe_keeps_def q(1))
  also have "\<dots> = pipe_keeps pl3" unfolding pipe_keeps_def q3(1) m(4) pl2(6) queued_def [of ?pl1] UN_Un by (simp only: Un_assoc)
  finally have "pipe_keeps pl \<subseteq> pipe_keeps pl3" by simp
  moreover have "same_pipe pl pl3" using fr pl2 by (simp add: same_pipe_def)
  moreover have "\<forall>c\<in>queued pl3. chunk_ok c \<and> chunkStoryId c = sid" using q3(1) q(3) inv by (auto simp: pipe_inv_def)
  ultimately show ?thesis
    using pipe_outputs_inv [OF m(2), of sid d "[]" 0] fr pl2 inv col q3 none
    by (auto simp: pipe_collect_def pipe_inv_def same_pipe_def)
qed

lemma pipe_finalize_step:
  assumes inv: "pipe_inv d sid pl" and d: "duration_ok d"
  shows "\<exists>pl' out calls. pipe_finalize pl = Some (pl', [], out, calls) \<and> (\<forall>c\<in>set out. window_tag pl c) \<and>
    pipe_keeps pl = (\<Union>c\<in>set out. dom (events_of c)) \<and> plIncarnation pl' = plIncarnation pl"
proof -
  let ?pl1 = "pl\<lparr>passiveDeque := []\<rparr>"
  have "bounded time_bound ?pl1" using inv by (simp add: pipe_inv_def)
  moreover have "\<forall>c\<in>set (passiveDeque pl). wf_chunk c \<and> chunkStoryId c = plStoryId ?pl1 \<and> unat (endTime c) + unat (chunkGranularity ?pl1) \<le> time_bound"
    using queued_room [OF inv d] by (auto simp: queued_def)
  ultimately obtain pl2 where
    m: "merge_all (passiveDeque pl) ?pl1 = Some pl2" "bounded time_bound pl2" "pipe_frame ?pl1 pl2"
      "dom (pipeline_events pl2) = dom (pipeline_events ?pl1) \<union> (\<Union>c\<in>set (passiveDeque pl). dom (events_of c))"
    using merge_all_bounded [OF _ time_room(1)] by blast
  note fr = pipe_frameD [OF m(3)]
  let ?pl3 = "pl2\<lparr>activeDeque := []\<rparr>"
  have "bounded time_bound ?pl3" using m(2) by simp
  moreover have "\<forall>c\<in>set (activeDeque pl2). wf_chunk c \<and> chunkStoryId c = plStoryId ?pl3 \<and> unat (endTime c) + unat (chunkGranularity ?pl3) \<le> time_bound"
    using queued_room [OF inv d] fr by (auto simp: queued_def)
  ultimately obtain pl4 where
    n: "merge_all (activeDeque pl2) ?pl3 = Some pl4" "bounded time_bound pl4" "pipe_frame ?pl3 pl4"
      "dom (pipeline_events pl4) = dom (pipeline_events ?pl3) \<union> (\<Union>c\<in>set (activeDeque pl2). dom (events_of c))"
    using merge_all_bounded [OF _ time_room(1)] by blast
  note fr4 = pipe_frameD [OF n(3)]
  let ?out = "map snd (storyTimelineMap pl4)"
  have fin: "finalize pl [] = Some (pl4\<lparr>ingestionHandle := False, storyTimelineMap := []\<rparr>, ?out)"
    using m(1) n(1) inv by (simp add: finalize_def pipe_inv_def)
  have "window_tag pl4 = window_tag pl" using fr4(10) fr(10) by simp
  then have "\<forall>c\<in>set ?out. window_tag pl c" using n(2) by (auto simp: bounded_def shaped_def)
  moreover have "pipe_keeps pl = dom (pipeline_events pl4)"
    using m(4) n(4) fr by (auto simp: pipe_keeps_def queued_def)
  moreover have "plIncarnation pl4 = plIncarnation pl" "theExtractionQueue pl4 = Some []" using fr fr4 inv by (simp_all add: pipe_inv_def)
  ultimately show ?thesis by (auto simp: pipe_finalize_def fin pipe_outputs_def dom_timeline_events)
qed

lemma pipe_extract_step:
  assumes inv: "pipe_inv d sid pl" and d: "duration_ok d" and now: "time_ok now"
    and ret: "pipe_extract now pl = Some (pl', stash, out, calls)"
  shows "stash = [] \<and> pipe_inv d sid pl' \<and> same_pipe pl pl' \<and> (\<forall>c\<in>set out. window_tag pl c) \<and>
    pipe_keeps pl = pipe_keeps pl' \<union> (\<Union>c\<in>set out. dom (events_of c)) \<and> queued pl' = queued pl \<and> undecayed now pl'"
proof -
  from ret obtain r where ex: "extractDecayedStoryChunks now pl [] = Some r" and
    r: "(pl', stash, out, calls) = pipe_outputs (fst r) (snd r)" by (auto simp: pipe_extract_def)
  have "unat now + 2 * unat (chunkGranularity pl) \<le> time_bound"
    using inv now duration_bound [OF d] by (simp add: pipe_inv_def time_ok_def time_bound_def)
  with extract_bounded [OF ex _ time_room(2)] inv obtain pl1 out1 where
    e: "r = (pl1, out1)" "decay_result time_bound pl pl1 out1" by (auto simp: pipe_inv_def)
  have dr: "bounded time_bound pl1" "pipeline_frame pl pl1" "\<forall>c\<in>set out1. window_tag pl c"
    "concat (map logEvents out1) @ timeline_events (storyTimelineMap pl1) = timeline_events (storyTimelineMap pl)"
    using e(2) by (simp_all add: decay_result_def)
  note fr = pipe_frameD [OF pipe_frame_of [OF dr(2)]]
  have q: "queued pl1 = queued pl" using fr by (simp add: queued_def)
  have "dom (pipeline_events pl) = dom (pipeline_events pl1) \<union> (\<Union>c\<in>set out1. dom (events_of c))"
    by (subst dr(4) [symmetric]) (auto simp: dom_map_of_conv_image_fst)
  then have "pipe_keeps pl = pipe_keeps pl1 \<union> (\<Union>c\<in>set out1. dom (events_of c))" by (auto simp: pipe_keeps_def q)
  moreover have "same_pipe pl pl1" using fr by (simp add: same_pipe_def)
  moreover obtain pl2 calls2 where "pipe_outputs pl1 out1 = (pl2, [], out1, calls2)" "pipe_inv d sid pl2" "same_pipe pl1 pl2"
    "pipe_keeps pl2 = pipe_keeps pl1" "queued pl2 = queued pl1" "undecayed now pl2 = undecayed now pl1"
    using pipe_outputs_inv [OF dr(1), of sid d out1 now] fr q inv by (auto simp: pipe_inv_def)
  moreover have "undecayed now pl1" using extract_undecayed [OF ex] e(1) dr(1) time_room(2) by simp
  ultimately show ?thesis using r e(1) dr(3) q by (auto simp: same_pipe_def)
qed

end
