(* ===== verification/GrapherRuns.thy ===== *)
theory GrapherRuns
  imports GrapherDataStore
begin

text \<open>
  The runs of the grapher's data store: the step relation that interleaves the holds of its mutexes with arriving chunks,
  the extraction threads and the destroy worker; the invariant of its runs; and which steps can let go of an event, with the calls that
  report it.

  A step of the relation that takes a chunk out of a thread's hands does not ask which thread it is, so every interleaving
  of the code is a run. The process makes fewer than \<open>2 ^ 64\<close> pipelines.
\<close>

section \<open>Where an event is\<close>

abbreviation gs_pipe :: "GrapherDataStore \<Rightarrow> StoryId \<rightharpoonup> StoryPipeline" where
  "gs_pipe gs \<equiv> map_of (gs_pipelines gs)"

text \<open>Chunks that have not reached a pipeline, and windows on their way to the archive.\<close>

definition arriving :: "GrapherDataStore \<Rightarrow> StoryChunk set" where
  "arriving gs = set (gs_orphans gs) \<union> set (gs_inHand gs) \<union> snd ` set (gs_placing gs)"

definition task_windows :: "GrapherDataStore \<Rightarrow> StoryChunk set" where
  "task_windows gs = (\<Union>task\<in>set (gs_tasks gs) \<union> set (gs_destroyQueue gs). set (remainingChunks task))"

definition transit :: "GrapherDataStore \<Rightarrow> StoryChunk set" where
  "transit gs = set (gs_queue gs) \<union> set (gs_inProcess gs) \<union> set (concat (gs_retired gs)) \<union> task_windows gs"

definition held_chunks :: "GrapherDataStore \<Rightarrow> StoryChunk set" where
  "held_chunks gs = arriving gs \<union> transit gs \<union> archived (gs_archive gs)"

definition has_event :: "StoryChunk \<Rightarrow> StoryId \<Rightarrow> EventSequence \<Rightarrow> bool" where
  "has_event c sid k \<longleftrightarrow> chunkStoryId c = sid \<and> k \<in> dom (events_of c)"

definition gs_holds :: "GrapherDataStore \<Rightarrow> StoryId \<Rightarrow> EventSequence \<Rightarrow> bool" where
  "gs_holds gs sid k \<longleftrightarrow> (\<exists>c\<in>held_chunks gs. has_event c sid k) \<or> (\<exists>pl. gs_pipe gs sid = Some pl \<and> k \<in> pipe_keeps pl)"

text \<open>
  The three ways a step lets go of an event, each with the call that reports it: the adoption refuses a chunk in hand whose story or
  chronicle has a tombstone and reports the story as dropped; the write of a window in process fails and the story is reported as
  failed; or the worker deletes a file that the destroy it works on is for.
\<close>

definition let_go :: "GrapherDataStore \<Rightarrow> grapher_call list \<Rightarrow> StoryId \<Rightarrow> EventSequence \<Rightarrow> bool" where
  "let_go gs calls sid k \<longleftrightarrow>
     (\<exists>c\<in>set (gs_inHand gs). has_event c sid k \<and> tombstoned sid (chronicleName c) gs \<and> OnRegistry (DropStory sid) \<in> set calls) \<or>
     (\<exists>c\<in>set (gs_inProcess gs). has_event c sid k \<and> OnRegistry (PersistFailed sid) \<in> set calls) \<or>
     (\<exists>f\<in>set (ar_files (gs_archive gs)). has_event (af_window f) sid k \<and>
        (\<exists>task status. gs_worker gs = WorkerDrains task \<and>
           destroy_takes (gs_archive gs) (task_chronicleName task) (task_story task) (task_scope task) f \<and>
           DeletesFiles (task_chronicleName task) (task_story task) (task_scope task) status \<in> set calls))"

section \<open>The invariant\<close>

definition config_ok :: "GrapherDataStore \<Rightarrow> bool" where
  "config_ok gs \<longleftrightarrow> gs_chunk_duration_secs gs \<noteq> 0 \<and> duration_ok (gs_chunk_duration_secs gs) \<and>
     duration_ok (gs_acceptance_window_secs gs) \<and> gs_registry gs \<and> ar_registry (gs_archive gs) \<and> archive_ok (gs_archive gs)"

definition gs_inv :: "GrapherDataStore \<Rightarrow> bool" where
  "gs_inv gs \<longleftrightarrow> config_ok gs \<and>
     omap_ok (gs_pipelines gs) \<and> omap_ok (gs_waiting gs) \<and> omap_ok (gs_handles gs) \<and>
     map_of (gs_handles gs) = map_option plIncarnation \<circ> gs_pipe gs \<and>
     dom (map_of (gs_waiting gs)) \<subseteq> dom (gs_pipe gs) \<and>
     (\<forall>sid pl. gs_pipe gs sid = Some pl \<longrightarrow> pipe_inv (gs_chunk_duration_secs gs) sid pl) \<and>
     (\<forall>c\<in>arriving gs. chunk_ok c) \<and> (\<forall>c\<in>transit gs. \<not> watermarkExempt c)"

text \<open>Every event held before, or in a chunk that arrives, is held afterwards, but for a set of events.\<close>

definition gs_conserves ::
  "GrapherDataStore \<Rightarrow> StoryChunk list \<Rightarrow> (StoryId \<times> EventSequence) set \<Rightarrow> GrapherDataStore \<Rightarrow> bool" where
  "gs_conserves gs arrived lost gs' \<longleftrightarrow> gs_inv gs' \<and>
     (\<forall>sid k. gs_holds gs sid k \<or> (\<exists>c\<in>set arrived. has_event c sid k) \<longrightarrow> gs_holds gs' sid k \<or> (sid, k) \<in> lost)"

lemma gs_invD:
  assumes "gs_inv gs"
  shows "config_ok gs" "omap_ok (gs_pipelines gs)" "omap_ok (gs_waiting gs)" "omap_ok (gs_handles gs)"
    "map_of (gs_handles gs) = map_option plIncarnation \<circ> gs_pipe gs" "dom (map_of (gs_waiting gs)) \<subseteq> dom (gs_pipe gs)"
    "gs_pipe gs sid = Some pl \<Longrightarrow> pipe_inv (gs_chunk_duration_secs gs) sid pl"
    "c \<in> arriving gs \<Longrightarrow> chunk_ok c" "c \<in> transit gs \<Longrightarrow> \<not> watermarkExempt c"
    "duration_ok (gs_chunk_duration_secs gs)"
  using assms by (simp_all add: gs_inv_def config_ok_def)

lemma gs_conserves_inv: "gs_conserves gs arrived lost gs' \<Longrightarrow> gs_inv gs'"
  by (simp add: gs_conserves_def)

lemma gs_conserves_mono: "gs_conserves gs arrived lost gs' \<Longrightarrow> lost \<subseteq> lost' \<Longrightarrow> gs_conserves gs arrived lost' gs'"
  unfolding gs_conserves_def by blast

lemma gs_conserves_refl: "gs_inv gs \<Longrightarrow> gs_conserves gs [] lost gs"
  by (simp add: gs_conserves_def)

lemma gs_conserves_trans:
  assumes "gs_conserves gs a1 {} gs1" "gs_conserves gs1 a2 {} gs2"
  shows "gs_conserves gs (a1 @ a2) {} gs2"
  using assms unfolding gs_conserves_def set_append by blast

text \<open>The two ways an event is held, and when both are kept.\<close>

lemma gs_holds_chunk: "c \<in> held_chunks gs \<Longrightarrow> has_event c sid k \<Longrightarrow> gs_holds gs sid k"
  unfolding gs_holds_def by blast

lemma gs_holds_pipe: "gs_pipe gs sid = Some pl \<Longrightarrow> k \<in> pipe_keeps pl \<Longrightarrow> gs_holds gs sid k"
  unfolding gs_holds_def by blast

lemma gs_conservesI:
  assumes "gs_inv gs'"
    and "\<And>c sid k. c \<in> held_chunks gs \<union> set arrived \<Longrightarrow> has_event c sid k \<Longrightarrow> gs_holds gs' sid k \<or> (sid, k) \<in> lost"
    and "\<And>sid pl k. gs_pipe gs sid = Some pl \<Longrightarrow> k \<in> pipe_keeps pl \<Longrightarrow> gs_holds gs' sid k \<or> (sid, k) \<in> lost"
  shows "gs_conserves gs arrived lost gs'"
  unfolding gs_conserves_def gs_holds_def [of gs] using assms by blast

text \<open>Steps that move chunks between containers and leave the pipelines and the archive alone.\<close>

definition core where
  "core gs = (gs_pipelines gs, gs_handles gs, gs_chunk_duration_secs gs, gs_acceptance_window_secs gs, gs_registry gs, gs_archive gs)"

lemma coreD:
  assumes "core gs' = core gs"
  shows "gs_pipelines gs' = gs_pipelines gs" "gs_handles gs' = gs_handles gs" "gs_archive gs' = gs_archive gs"
    "gs_chunk_duration_secs gs' = gs_chunk_duration_secs gs" "gs_acceptance_window_secs gs' = gs_acceptance_window_secs gs"
    "gs_registry gs' = gs_registry gs" "config_ok gs' = config_ok gs"
  using assms by (simp_all add: core_def config_ok_def)

lemma move_conserves:
  assumes inv: "gs_inv gs" and core: "core gs' = core gs"
    and wait: "omap_ok (gs_waiting gs')" "dom (map_of (gs_waiting gs')) \<subseteq> dom (gs_pipe gs)"
    and fresh: "\<forall>c\<in>set arrived. chunk_ok c"
    and all: "arriving gs \<union> set arrived \<union> transit gs \<subseteq> arriving gs' \<union> transit gs'"
    and arr: "arriving gs' \<subseteq> arriving gs \<union> set arrived" and tra: "transit gs' \<subseteq> transit gs"
  shows "gs_conserves gs arrived {} gs'"
proof (rule gs_conservesI)
  note cd = coreD [OF core]
  have "\<forall>c\<in>arriving gs'. chunk_ok c" using arr fresh gs_invD(8) [OF inv] by blast
  moreover have "\<forall>c\<in>transit gs'. \<not> watermarkExempt c" using tra gs_invD(9) [OF inv] by blast
  ultimately show "gs_inv gs'" using inv wait by (simp add: gs_inv_def cd)
  show "gs_holds gs' sid k \<or> (sid, k) \<in> {}" if "c \<in> held_chunks gs \<union> set arrived" "has_event c sid k" for c sid k
  proof -
    have "c \<in> held_chunks gs'" using that(1) all by (auto simp: held_chunks_def cd)
    then show ?thesis using gs_holds_chunk that(2) by blast
  qed
  show "gs_holds gs' sid k \<or> (sid, k) \<in> {}" if "gs_pipe gs sid = Some pl" "k \<in> pipe_keeps pl" for sid pl k
    using gs_holds_pipe [of gs' sid pl k] that by (simp add: cd)
qed

lemma set_remove_nth: "i < length xs \<Longrightarrow> set xs = insert (xs ! i) (set (remove_nth i xs))"
  unfolding remove_nth_def by (subst id_take_nth_drop [of i xs]) auto

lemma remove_nth_subset: "set (remove_nth i xs) \<subseteq> set xs"
  unfolding remove_nth_def using set_take_subset set_drop_subset by fastforce

section \<open>Ingestion\<close>

text \<open>Replacing a pipeline by one that keeps its events and more.\<close>

lemma update_pipe_inv:
  assumes inv: "gs_inv gs" and pl: "gs_pipe gs sid = Some pl" and pl': "pipe_inv (gs_chunk_duration_secs gs) sid pl'" "plIncarnation pl' = plIncarnation pl"
  shows "gs_inv (gs\<lparr>gs_pipelines := omap_put sid pl' (gs_pipelines gs)\<rparr>)"
proof -
  let ?gs' = "gs\<lparr>gs_pipelines := omap_put sid pl' (gs_pipelines gs)\<rparr>"
  have "map_of (gs_handles gs) = map_option plIncarnation \<circ> (gs_pipe gs)(sid \<mapsto> pl')"
    using gs_invD(5) [OF inv] pl pl'(2) by (auto simp: fun_eq_iff)
  moreover have "arriving ?gs' = arriving gs" "transit ?gs' = transit gs" by (simp_all add: arriving_def transit_def task_windows_def)
  ultimately show ?thesis using inv pl'(1) by (auto simp: gs_inv_def config_ok_def omap_simps)
qed

lemma ingestChunk_inv:
  assumes "pipe_inv d sid pl" "chunk_ok c" "chunkStoryId c = sid"
  shows "pipe_inv d sid (ingestChunk c pl)" "pipe_keeps (ingestChunk c pl) = pipe_keeps pl \<union> dom (events_of c)"
  using assms by (auto simp: pipe_inv_def ingestChunk_def queued_def pipe_keeps_def)

lemma push_conserves:
  assumes inv: "gs_inv gs" and c: "chunk_ok c" and ret: "push_chunk n c gs = Some gs'"
  shows "gs_conserves gs [c] {} gs'"
proof -
  let ?sid = "chunkStoryId c"
  from ret obtain pl where pl: "gs_pipe gs ?sid = Some pl"
    and gs': "gs' = gs\<lparr>gs_pipelines := omap_put ?sid (ingestChunk c pl) (gs_pipelines gs)\<rparr>"
    by (auto simp: push_chunk_def split: option.splits if_splits)
  note ic = ingestChunk_inv [OF gs_invD(7) [OF inv pl] c refl]
  have held: "held_chunks gs' = held_chunks gs"
    by (simp add: gs' held_chunks_def arriving_def transit_def task_windows_def)
  show ?thesis
  proof (rule gs_conservesI)
    show "gs_inv gs'" unfolding gs' by (rule update_pipe_inv [OF inv pl ic(1)]) (simp add: ingestChunk_def)
    have new: "gs_pipe gs' ?sid = Some (ingestChunk c pl)" by (simp add: gs' omap_simps)
    show "gs_holds gs' sid k \<or> (sid, k) \<in> {}" if "x \<in> held_chunks gs \<union> set [c]" "has_event x sid k" for x sid k
    proof (cases "x = c")
      case True
      then show ?thesis using that(2) gs_holds_pipe [OF new, of k] by (auto simp: has_event_def ic(2))
    next
      case False
      then show ?thesis using that held gs_holds_chunk [of x gs'] by auto
    qed
    show "gs_holds gs' sid k \<or> (sid, k) \<in> {}" if "gs_pipe gs sid = Some pl'" "k \<in> pipe_keeps pl'" for sid pl' k
    proof (cases "sid = ?sid")
      case True
      then have "k \<in> pipe_keeps (ingestChunk c pl)" unfolding ic(2) using that pl by simp
      then show ?thesis using True gs_holds_pipe [OF new] by blast
    next
      case False
      then have "gs_pipe gs' sid = Some pl'" using that(1) by (simp add: gs' omap_simps)
      then show ?thesis using that(2) gs_holds_pipe by blast
    qed
  qed
qed

lemma orphan_conserves:
  assumes "gs_inv gs" "chunk_ok c"
  shows "gs_conserves gs [c] {} (gs\<lparr>gs_orphans := gs_orphans gs @ [c]\<rparr>)"
  using assms gs_invD(3,6) [OF assms(1)]
  by (intro move_conserves) (auto simp: core_def arriving_def transit_def task_windows_def)

lemma gs_ingest_conserves: "gs_inv gs \<Longrightarrow> chunk_ok c \<Longrightarrow> ingestStoryChunk c gs = Some gs' \<Longrightarrow> gs_conserves gs [c] {} gs'"
  using push_conserves orphan_conserves by (auto simp: ingestStoryChunk_def split: option.splits)

lemma drain_chunks_conserves:
  "gs_inv gs \<Longrightarrow> \<forall>c\<in>set cs. chunk_ok c \<Longrightarrow> drain_chunks cs gs = Some gs' \<Longrightarrow> gs_conserves gs cs {} gs'"
proof (induction cs arbitrary: gs)
  case Nil
  then show ?case by (simp add: gs_conserves_refl)
next
  case (Cons c cs)
  from Cons.prems(3) obtain gs1 where gs1: "ingestStoryChunk c gs = Some gs1" "drain_chunks cs gs1 = Some gs'"
    by (auto simp: Option.bind_eq_Some_conv)
  have one: "gs_conserves gs [c] {} gs1" using Cons.prems gs1(1) by (intro gs_ingest_conserves) simp_all
  have "gs_conserves gs1 cs {} gs'" using Cons.prems(2) by (intro Cons.IH [OF gs_conserves_inv [OF one] _ gs1(2)]) simp
  from gs_conserves_trans [OF one this] show ?case by simp
qed

text \<open>Taking a chunk out of a container and placing it elsewhere is a step of the whole.\<close>

lemma reinsert_conserves:
  assumes "gs_conserves gs0 cs {} gs'" "gs_pipelines gs0 = gs_pipelines gs" "held_chunks gs \<subseteq> held_chunks gs0 \<union> set cs"
  shows "gs_conserves gs [] {} gs'"
proof -
  have h: "gs_holds gs0 sid k \<or> (\<exists>c\<in>set cs. has_event c sid k)" if "gs_holds gs sid k" for sid k
    using that assms(2,3) unfolding gs_holds_def by auto
  have "gs_inv gs'" and c: "\<And>sid k. gs_holds gs0 sid k \<or> (\<exists>c\<in>set cs. has_event c sid k) \<Longrightarrow> gs_holds gs' sid k \<or> (sid, k) \<in> {}"
    using assms(1) unfolding gs_conserves_def by blast+
  then show ?thesis unfolding gs_conserves_def using h by (metis empty_iff empty_set)
qed

lemma gs_drain_conserves:
  assumes inv: "gs_inv gs" and ret: "drainOrphanChunks gs = Some gs'"
  shows "gs_conserves gs [] {} gs'"
proof (cases "gs_orphans gs = [] \<or> gs_handles gs = []")
  case True
  with ret gs_conserves_refl [OF inv] show ?thesis by (auto simp: drainOrphanChunks_def)
next
  case False
  let ?gs0 = "gs\<lparr>gs_orphans := []\<rparr>"
  have "gs_inv ?gs0" using inv by (auto simp: gs_inv_def config_ok_def arriving_def transit_def task_windows_def)
  moreover have "\<forall>c\<in>set (gs_orphans gs). chunk_ok c" using gs_invD(8) [OF inv] by (simp add: arriving_def)
  ultimately have "gs_conserves ?gs0 (gs_orphans gs) {} gs'" using ret False by (intro drain_chunks_conserves) (simp_all add: drainOrphanChunks_def)
  then show ?thesis by (rule reinsert_conserves) (auto simp: held_chunks_def arriving_def transit_def task_windows_def)
qed

section \<open>Operations on all pipelines\<close>

lemma each_pipe_lookup:
  "each_pipe f m = Some (m', stash, out, calls) \<Longrightarrow> map fst m' = map fst m \<and>
     (\<forall>sid pl'. map_of m' sid = Some pl' \<longrightarrow>
        (\<exists>pl st ot cs. map_of m sid = Some pl \<and> f pl = Some (pl', st, ot, cs) \<and> set ot \<subseteq> set out)) \<and>
     (\<forall>c\<in>set out. \<exists>p\<in>set m. \<exists>pl' st ot cs. f (snd p) = Some (pl', st, ot, cs) \<and> c \<in> set ot) \<and>
     (\<forall>c\<in>set stash. \<exists>p\<in>set m. \<exists>pl' st ot cs. f (snd p) = Some (pl', st, ot, cs) \<and> c \<in> set st)"
proof (induction f m arbitrary: m' stash out calls rule: each_pipe.induct)
  case (2 f sid pl m)
  from 2(2) obtain pl1 st o1 cs m1 st1 out1 calls1 where
    *: "f pl = Some (pl1, st, o1, cs)" "each_pipe f m = Some (m1, st1, out1, calls1)" "m' = (sid, pl1) # m1" "out = o1 @ out1"
      "stash = st @ st1"
    by (auto split: option.splits)
  from 2(1) [OF *(1) refl refl refl *(2)] have IH: "map fst m1 = map fst m"
    "\<And>s p. map_of m1 s = Some p \<Longrightarrow> \<exists>q st ot cs. map_of m s = Some q \<and> f q = Some (p, st, ot, cs) \<and> set ot \<subseteq> set out1"
    "\<And>c. c \<in> set out1 \<Longrightarrow> \<exists>p\<in>set m. \<exists>pl' st ot cs. f (snd p) = Some (pl', st, ot, cs) \<and> c \<in> set ot"
    "\<And>c. c \<in> set st1 \<Longrightarrow> \<exists>p\<in>set m. \<exists>pl' st ot cs. f (snd p) = Some (pl', st, ot, cs) \<and> c \<in> set st" by auto
  have "\<exists>q st ot cs. map_of ((sid, pl) # m) s = Some q \<and> f q = Some (p, st, ot, cs) \<and> set ot \<subseteq> set out"
    if "map_of m' s = Some p" for s p
  proof (cases "s = sid")
    case True
    with that * show ?thesis by auto
  next
    case False
    with IH(2) [of s p] that * show ?thesis by fastforce
  qed
  moreover have "\<exists>p\<in>set ((sid, pl) # m). \<exists>pl' st ot cs. f (snd p) = Some (pl', st, ot, cs) \<and> c \<in> set ot" if "c \<in> set out" for c
    using that IH(3) [of c] *(1,4) by auto
  moreover have "\<exists>p\<in>set ((sid, pl) # m). \<exists>pl' st ot cs. f (snd p) = Some (pl', st, ot, cs) \<and> c \<in> set st" if "c \<in> set stash" for c
    using that IH(4) [of c] *(1,5) by auto
  ultimately show ?case using IH(1) unfolding *(3) by simp
qed simp

lemma gs_pipe_mem: "gs_inv gs \<Longrightarrow> gs_pipe gs sid = Some pl \<longleftrightarrow> (sid, pl) \<in> set (gs_pipelines gs)"
  by (rule map_of_omap_Some [OF gs_invD(2)])

text \<open>What each call on a pipeline promises the store.\<close>

definition pipe_step_ok :: "u32 \<Rightarrow> StoryId \<Rightarrow> StoryPipeline \<Rightarrow> pipe_result \<Rightarrow> bool" where
  "pipe_step_ok d sid pl r \<longleftrightarrow>
     (case r of (pl', stash, out, calls) \<Rightarrow> stash = [] \<and> pipe_inv d sid pl' \<and> same_pipe pl pl' \<and> (\<forall>c\<in>set out. window_tag pl c) \<and>
        pipe_keeps pl \<subseteq> pipe_keeps pl' \<union> (\<Union>c\<in>set out. dom (events_of c)))"

lemma window_tag_event: "pipe_inv d sid pl \<Longrightarrow> window_tag pl c \<Longrightarrow> k \<in> dom (events_of c) \<Longrightarrow> has_event c sid k \<and> \<not> watermarkExempt c"
  by (simp add: pipe_inv_def window_tag_def has_event_def)

lemma on_pipes_facts:
  assumes inv: "gs_inv gs" and ret: "each_pipe f (gs_pipelines gs) = Some (m', stash, out, calls)"
    and ok: "\<And>sid pl r. gs_pipe gs sid = Some pl \<Longrightarrow> f pl = Some r \<Longrightarrow> pipe_step_ok (gs_chunk_duration_secs gs) sid pl r"
  shows "stash = []" "omap_ok m'" "dom (map_of m') = dom (gs_pipe gs)"
    "map_of m' sid = Some pl' \<Longrightarrow> \<exists>pl. gs_pipe gs sid = Some pl \<and> same_pipe pl pl' \<and> pipe_inv (gs_chunk_duration_secs gs) sid pl' \<and>
       pipe_keeps pl \<subseteq> pipe_keeps pl' \<union> (\<Union>c\<in>{c\<in>set out. window_tag pl c}. dom (events_of c))"
    "c \<in> set out \<Longrightarrow> \<exists>sid pl. gs_pipe gs sid = Some pl \<and> window_tag pl c"
proof -
  note look = each_pipe_lookup [OF ret]
  have ok': "pipe_step_ok (gs_chunk_duration_secs gs) (fst p) (snd p) r" if "p \<in> set (gs_pipelines gs)" "f (snd p) = Some r" for p r
    using ok [of "fst p" "snd p" r] that gs_pipe_mem [OF inv, of "fst p" "snd p"] by simp
  have "c \<notin> set stash" for c
  proof
    assume "c \<in> set stash"
    with look obtain p pl' st out1 cs where "p \<in> set (gs_pipelines gs)" "f (snd p) = Some (pl', st, out1, cs)" "c \<in> set st" by blast
    with ok' show False by (fastforce simp: pipe_step_ok_def)
  qed
  then show "stash = []" by (cases stash) auto
  show "omap_ok m'" using look gs_invD(2) [OF inv] by (simp add: omap_ok_def)
  show "dom (map_of m') = dom (gs_pipe gs)" using look dom_keys by blast
  show "\<exists>pl. gs_pipe gs sid = Some pl \<and> same_pipe pl pl' \<and> pipe_inv (gs_chunk_duration_secs gs) sid pl' \<and>
       pipe_keeps pl \<subseteq> pipe_keeps pl' \<union> (\<Union>c\<in>{c\<in>set out. window_tag pl c}. dom (events_of c))" if sid: "map_of m' sid = Some pl'"
  proof -
    from look sid obtain pl st out1 cs where pl: "gs_pipe gs sid = Some pl" "f pl = Some (pl', st, out1, cs)" "set out1 \<subseteq> set out" by blast
    from ok [OF pl(1,2)] have s: "same_pipe pl pl'" "pipe_inv (gs_chunk_duration_secs gs) sid pl'" "\<forall>c\<in>set out1. window_tag pl c"
      "pipe_keeps pl \<subseteq> pipe_keeps pl' \<union> (\<Union>c\<in>set out1. dom (events_of c))" by (simp_all add: pipe_step_ok_def)
    have "set out1 \<subseteq> {c\<in>set out. window_tag pl c}" using s(3) pl(3) by blast
    then have "(\<Union>c\<in>set out1. dom (events_of c)) \<subseteq> (\<Union>c\<in>{c\<in>set out. window_tag pl c}. dom (events_of c))" by (rule UN_mono) simp
    with s pl(1) show ?thesis by (meson Un_mono order_refl order_trans)
  qed
  show "\<exists>sid pl. gs_pipe gs sid = Some pl \<and> window_tag pl c" if "c \<in> set out"
  proof -
    from look that obtain p pl' st out1 cs where p: "p \<in> set (gs_pipelines gs)" "f (snd p) = Some (pl', st, out1, cs)" "c \<in> set out1" by blast
    with ok' have "window_tag (snd p) c" by (fastforce simp: pipe_step_ok_def)
    moreover have "gs_pipe gs (fst p) = Some (snd p)" using p(1) gs_pipe_mem [OF inv] by simp
    ultimately show ?thesis by blast
  qed
qed

lemma on_pipes_conserves:
  assumes inv: "gs_inv gs" and ret: "on_pipes f gs = Some (gs1, out, calls)"
    and ok: "\<And>sid pl r. gs_pipe gs sid = Some pl \<Longrightarrow> f pl = Some r \<Longrightarrow> pipe_step_ok (gs_chunk_duration_secs gs) sid pl r"
  shows "gs_conserves gs [] {} (gs1\<lparr>gs_queue := gs_queue gs1 @ out\<rparr>)"
proof -
  from ret obtain m' stash where m': "each_pipe f (gs_pipelines gs) = Some (m', stash, out, calls)"
    and gs1: "gs1 = gs\<lparr>gs_pipelines := m', gs_queue := gs_queue gs @ stash\<rparr>" by (auto simp: on_pipes_def)
  note facts = on_pipes_facts [OF inv m' ok]
  let ?gs' = "gs1\<lparr>gs_queue := gs_queue gs1 @ out\<rparr>"
  have gs': "gs_pipelines ?gs' = m'" "gs_queue ?gs' = gs_queue gs @ out" using facts(1) by (simp_all add: gs1)
  have arr: "arriving ?gs' = arriving gs" by (simp add: gs1 arriving_def)
  have tra: "transit ?gs' = transit gs \<union> set out" using gs'(2) by (auto simp: gs1 transit_def task_windows_def)
  have tagged: "\<exists>sid pl. gs_pipe gs sid = Some pl \<and> window_tag pl c \<and> pipe_inv (gs_chunk_duration_secs gs) sid pl" if "c \<in> set out" for c
    using facts(5) [OF _ _ that] gs_invD(7) [OF inv] by blast
  then have ex: "\<forall>c\<in>set out. \<not> watermarkExempt c" by (auto simp: window_tag_def)
  have "map_option plIncarnation (map_of m' sid) = map_option plIncarnation (gs_pipe gs sid)" for sid
  proof (cases "map_of m' sid")
    case None
    then show ?thesis using facts(3) by (metis domIff option.simps(8))
  next
    case (Some pl')
    with facts(4) obtain pl where "gs_pipe gs sid = Some pl" "same_pipe pl pl'" by blast
    with Some show ?thesis by (simp add: same_pipe_def)
  qed
  then have handles: "map_of (gs_handles gs) = map_option plIncarnation \<circ> map_of m'" using gs_invD(5) [OF inv] by (simp add: fun_eq_iff)
  show ?thesis
  proof (rule gs_conservesI)
    show "gs_inv ?gs'"
      unfolding gs_inv_def gs'(1) arr tra
      using inv facts(2,3,4) ex handles by (auto simp: gs_inv_def config_ok_def gs1)
    show "gs_holds ?gs' sid k \<or> (sid, k) \<in> {}" if "c \<in> held_chunks gs \<union> set []" "has_event c sid k" for c sid k
    proof -
      have "c \<in> held_chunks ?gs'" using that(1) arr tra by (auto simp: held_chunks_def gs1)
      then show ?thesis using that(2) gs_holds_chunk by blast
    qed
    show "gs_holds ?gs' sid k \<or> (sid, k) \<in> {}" if pl: "gs_pipe gs sid = Some pl" "k \<in> pipe_keeps pl" for sid pl k
    proof -
      obtain pl' where pl': "map_of m' sid = Some pl'" using facts(3) pl(1) by blast
      from facts(4) [OF _ _ pl'] pl(1) have
        "pipe_keeps pl \<subseteq> pipe_keeps pl' \<union> (\<Union>c\<in>{c\<in>set out. window_tag pl c}. dom (events_of c))" by auto
      from subsetD [OF this pl(2)] consider "k \<in> pipe_keeps pl'" | c where "c \<in> set out" "window_tag pl c" "k \<in> dom (events_of c)" by blast
      then show ?thesis
      proof cases
        case 1
        then show ?thesis using gs_holds_pipe [of ?gs' sid pl'] pl' gs'(1) by simp
      next
        case 2
        then have "c \<in> held_chunks ?gs'" using tra by (simp add: held_chunks_def)
        then show ?thesis using gs_holds_chunk window_tag_event [OF gs_invD(7) [OF inv pl(1)] 2(2,3)] by blast
      qed
    qed
  qed
qed

lemma collect_pipe_ok:
  "gs_inv gs \<Longrightarrow> gs_pipe gs sid = Some pl \<Longrightarrow> pipe_collect pl = Some r \<Longrightarrow> pipe_step_ok (gs_chunk_duration_secs gs) sid pl r"
  using pipe_collect_step [OF gs_invD(7) gs_invD(10)] by (fastforce simp: pipe_step_ok_def)

lemma extract_pipe_ok:
  "gs_inv gs \<Longrightarrow> time_ok now \<Longrightarrow> gs_pipe gs sid = Some pl \<Longrightarrow> pipe_extract now pl = Some r \<Longrightarrow>
   pipe_step_ok (gs_chunk_duration_secs gs) sid pl r"
  using pipe_extract_step [OF gs_invD(7) gs_invD(10)] by (cases r) (force simp: pipe_step_ok_def)

lemma gs_collect_conserves:
  assumes inv: "gs_inv gs" and ret: "gs_collect_pipelines gs = Some (gs', calls)"
  shows "gs_conserves gs [] {} gs'"
proof -
  from ret obtain gs1 out where on: "on_pipes pipe_collect gs = Some (gs1, out, calls)" and gs': "gs' = gs1"
    by (auto simp: gs_collect_pipelines_def)
  have "out = []"
  proof -
    from on obtain m' st where e: "each_pipe pipe_collect (gs_pipelines gs) = Some (m', st, out, calls)" by (auto simp: on_pipes_def)
    have "c \<notin> set out" for c
      using each_pipe_lookup [OF e] by (auto simp: pipe_collect_def pipe_outputs_def)
    then show ?thesis by (cases out) auto
  qed
  with on_pipes_conserves [OF inv on collect_pipe_ok [OF inv]] gs' show ?thesis by simp
qed

lemma decay_conserves:
  assumes inv: "gs_inv gs" and now: "time_ok now" and ret: "gs_extractDecayedStoryChunks now gs = Some (gs', calls)"
  shows "gs_conserves gs [] {} gs'"
proof -
  from ret obtain gs1 out where "on_pipes (pipe_extract now) gs = Some (gs1, out, calls)" "gs' = gs1\<lparr>gs_queue := gs_queue gs1 @ out\<rparr>"
    by (auto simp: gs_extractDecayedStoryChunks_def)
  with on_pipes_conserves [OF inv this(1) extract_pipe_ok [OF inv now]] show ?thesis by simp
qed

section \<open>Operations that take pipelines out of the store\<close>

definition remove_pipes :: "StoryId set \<Rightarrow> GrapherDataStore \<Rightarrow> GrapherDataStore" where
  "remove_pipes K gs =
     gs\<lparr>gs_pipelines := filter (\<lambda>p. fst p \<notin> K) (gs_pipelines gs), gs_waiting := filter (\<lambda>p. fst p \<notin> K) (gs_waiting gs),
        gs_handles := filter (\<lambda>p. fst p \<notin> K) (gs_handles gs)\<rparr>"

lemma remove_pipes_lookup:
  "map_of (filter (\<lambda>p. fst p \<notin> K) m) = (\<lambda>k. if k \<in> K then None else map_of m k)"
  using map_of_filter_key [of "\<lambda>k. k \<notin> K" m] by (simp add: fun_eq_iff)

text \<open>The windows that leave with the pipelines hold all their events.\<close>

definition windows_for :: "StoryId set \<Rightarrow> StoryChunk set \<Rightarrow> GrapherDataStore \<Rightarrow> bool" where
  "windows_for K W gs \<longleftrightarrow> (\<forall>c\<in>W. \<exists>sid pl. gs_pipe gs sid = Some pl \<and> window_tag pl c) \<and>
     (\<forall>sid pl k. sid \<in> K \<longrightarrow> gs_pipe gs sid = Some pl \<longrightarrow> k \<in> pipe_keeps pl \<longrightarrow> (\<exists>c\<in>W. has_event c sid k))"

lemma remove_conserves:
  assumes inv: "gs_inv gs" and core: "core gs' = core (remove_pipes K gs)" "gs_waiting gs' = gs_waiting (remove_pipes K gs)"
    and arr: "arriving gs' = arriving gs" and tra: "transit gs' = transit gs \<union> W" and W: "windows_for K W gs"
  shows "gs_conserves gs [] {} gs'"
proof (rule gs_conservesI)
  note cd = coreD [OF core(1)]
  have pipe: "gs_pipe gs' = (\<lambda>k. if k \<in> K then None else gs_pipe gs k)"
    and hand: "map_of (gs_handles gs') = (\<lambda>k. if k \<in> K then None else map_of (gs_handles gs) k)"
    and wait: "map_of (gs_waiting gs') = (\<lambda>k. if k \<in> K then None else map_of (gs_waiting gs) k)"
    by (simp_all add: cd core(2) remove_pipes_def remove_pipes_lookup)
  have ex: "\<forall>c\<in>W. \<not> watermarkExempt c" using W by (auto simp: windows_for_def window_tag_def)
  have "omap_ok (gs_pipelines gs')" "omap_ok (gs_handles gs')" "omap_ok (gs_waiting gs')"
    using gs_invD(2,3,4) [OF inv] by (auto simp: cd core(2) remove_pipes_def)
  moreover have "config_ok gs'" using gs_invD(1) [OF inv] by (simp add: cd) (simp add: remove_pipes_def config_ok_def)
  moreover have "map_of (gs_handles gs') = map_option plIncarnation \<circ> gs_pipe gs'"
    using gs_invD(5) [OF inv] by (simp add: hand pipe fun_eq_iff)
  moreover have "dom (map_of (gs_waiting gs')) \<subseteq> dom (gs_pipe gs')"
    using gs_invD(6) [OF inv] by (auto simp: wait pipe subset_iff domIff split: if_splits)
  moreover have "gs_chunk_duration_secs gs' = gs_chunk_duration_secs gs" by (simp add: cd) (simp add: remove_pipes_def)
  ultimately show "gs_inv gs'"
    unfolding gs_inv_def arr tra using gs_invD(7,8,9) [OF inv] ex by (auto simp: pipe split: if_splits)
  have held: "held_chunks gs' = held_chunks gs \<union> W"
    by (auto simp: held_chunks_def arr tra cd(3)) (auto simp: remove_pipes_def)
  show "gs_holds gs' sid k \<or> (sid, k) \<in> {}" if "c \<in> held_chunks gs \<union> set []" "has_event c sid k" for c sid k
    using that gs_holds_chunk [of c gs' sid k] by (auto simp: held)
  show "gs_holds gs' sid k \<or> (sid, k) \<in> {}" if pl: "gs_pipe gs sid = Some pl" "k \<in> pipe_keeps pl" for sid pl k
  proof (cases "sid \<in> K")
    case True
    with W pl obtain c where "c \<in> W" "has_event c sid k" unfolding windows_for_def by blast
    then show ?thesis using gs_holds_chunk [of c gs' sid k] by (auto simp: held)
  next
    case False
    then have "gs_pipe gs' sid = Some pl" using pl(1) by (simp add: pipe)
    then show ?thesis using pl(2) gs_holds_pipe by blast
  qed
qed

definition hold_out :: "StoryChunk list \<Rightarrow> GrapherDataStore \<Rightarrow> GrapherDataStore" where
  "hold_out w gs = gs\<lparr>gs_retired := gs_retired gs @ [w]\<rparr>"

lemma hold_out_inv: "gs_inv (hold_out [] gs) = gs_inv gs" "held_chunks (hold_out [] gs) = held_chunks gs"
  by (auto simp: gs_inv_def config_ok_def hold_out_def arriving_def transit_def task_windows_def held_chunks_def)

lemma finalize_pipe:
  assumes inv: "gs_inv gs" and pl: "gs_pipe gs sid = Some pl" and ret: "pipe_finalize pl = Some (pl', stash, out, calls)"
  shows "stash = []" "\<forall>c\<in>set out. window_tag pl c" "k \<in> pipe_keeps pl \<Longrightarrow> \<exists>c\<in>set out. has_event c sid k"
proof -
  note pi = gs_invD(7) [OF inv pl]
  from pipe_finalize_step [OF pi gs_invD(10) [OF inv]] ret have
    *: "stash = []" "\<forall>c\<in>set out. window_tag pl c" "pipe_keeps pl = (\<Union>c\<in>set out. dom (events_of c))" by auto
  then show "stash = []" "\<forall>c\<in>set out. window_tag pl c" by blast+
  show "\<exists>c\<in>set out. has_event c sid k" if "k \<in> pipe_keeps pl"
    using that *(2,3) window_tag_event [OF pi] by blast
qed

lemma retire_pipe_conserves:
  assumes inv: "gs_inv (hold_out acc gs)" and ret: "retire_pipe now entry gs = Some (gs', out, calls)"
  shows "gs_conserves (hold_out acc gs) [] {} (hold_out (acc @ out) gs')"
proof (cases "now < snd entry")
  case True
  with ret gs_conserves_refl [OF inv] show ?thesis by (auto simp: retire_pipe_def)
next
  case due: False
  let ?sid = "fst entry"
  from due ret obtain pl pl' stash where pl: "gs_pipe gs ?sid = Some pl" and fin: "pipe_finalize pl = Some (pl', stash, out, calls)"
    and gs': "gs' = gs_removeHandle (plStoryId pl)
      (gs\<lparr>gs_pipelines := omap_erase (plStoryId pl) (gs_pipelines gs), gs_waiting := omap_erase ?sid (gs_waiting gs), gs_queue := gs_queue gs @ stash\<rparr>)"
    by (auto simp: retire_pipe_def split: option.splits)
  have pl0: "gs_pipe (hold_out acc gs) ?sid = Some pl" using pl by (simp add: hold_out_def)
  note f = finalize_pipe [OF inv pl0 fin]
  have sid: "plStoryId pl = ?sid" using gs_invD(7) [OF inv pl0] by (simp add: pipe_inv_def)
  show ?thesis
  proof (rule remove_conserves [OF inv, where K = "{?sid}" and W = "set out"])
    show "core (hold_out (acc @ out) gs') = core (remove_pipes {?sid} (hold_out acc gs))"
      by (simp add: core_def gs' sid hold_out_def remove_pipes_def gs_removeHandle_def omap_erase_def)
    show "gs_waiting (hold_out (acc @ out) gs') = gs_waiting (remove_pipes {?sid} (hold_out acc gs))"
      by (simp add: gs' sid hold_out_def remove_pipes_def gs_removeHandle_def omap_erase_def)
    show "arriving (hold_out (acc @ out) gs') = arriving (hold_out acc gs)"
      by (simp add: gs' hold_out_def arriving_def gs_removeHandle_def)
    show "transit (hold_out (acc @ out) gs') = transit (hold_out acc gs) \<union> set out"
      using f(1) by (auto simp: gs' hold_out_def transit_def task_windows_def gs_removeHandle_def)
    show "windows_for {?sid} (set out) (hold_out acc gs)" using f(2,3) pl0 by (auto simp: windows_for_def)
  qed
qed

lemma retire_pipes_conserves:
  "gs_inv (hold_out acc gs) \<Longrightarrow> retire_pipes now entries gs = Some (gs', out, calls) \<Longrightarrow>
   gs_conserves (hold_out acc gs) [] {} (hold_out (acc @ out) gs')"
proof (induction entries arbitrary: gs acc out calls)
  case Nil
  then show ?case by (auto intro: gs_conserves_refl)
next
  case (Cons entry entries)
  from Cons.prems(2) obtain gs1 out1 calls1 out2 calls2 where
    *: "retire_pipe now entry gs = Some (gs1, out1, calls1)" "retire_pipes now entries gs1 = Some (gs', out2, calls2)"
      "out = out1 @ out2" "calls = calls1 @ calls2" by (auto split: option.splits)
  note one = retire_pipe_conserves [OF Cons.prems(1) *(1)]
  from gs_conserves_trans [OF one Cons.IH [OF gs_conserves_inv [OF one] *(2)]] show ?case by (simp add: *(3,4))
qed

lemma gs_conserves_cong:
  assumes "gs_conserves gs0 arrived {} gs'" "gs_pipelines gs0 = gs_pipelines gs" "held_chunks gs0 = held_chunks gs"
  shows "gs_conserves gs arrived {} gs'"
  using assms unfolding gs_conserves_def gs_holds_def by simp

lemma gs_retire_conserves:
  assumes inv: "gs_inv gs" and ret: "gs_retire_hold now gs = Some (gs', calls)"
  shows "gs_conserves gs [] {} gs'"
proof -
  obtain gs1 out where *: "gs' = hold_out out gs1"
    "(if gs_pipelines gs = [] then Some (gs, [], []) else retire_pipes now (gs_waiting gs) gs) = Some (gs1, out, calls)"
    using ret by (auto simp: gs_retire_hold_def hold_out_def)
  have inv0: "gs_inv (hold_out [] gs)" using inv by (simp add: hold_out_inv)
  have "gs_conserves (hold_out [] gs) [] {} (hold_out out gs1)"
  proof (cases "gs_pipelines gs = []")
    case True
    with *(2) gs_conserves_refl [OF inv0] show ?thesis by auto
  next
    case False
    with *(2) retire_pipes_conserves [OF inv0, of now "gs_waiting gs" gs1 out calls] show ?thesis by simp
  qed
  then show ?thesis unfolding *(1) by (rule gs_conserves_cong) (simp_all add: hold_out_inv, simp add: hold_out_def)
qed

text \<open>Finalizing a whole map of pipelines.\<close>

lemma finalize_each:
  assumes inv: "gs_inv gs" and ret: "each_pipe pipe_finalize (filter hit (gs_pipelines gs)) = Some (m', stash, out, calls)"
  shows "stash = []" "windows_for (fst ` set (filter hit (gs_pipelines gs))) (set out) gs"
proof -
  note look = each_pipe_lookup [OF ret]
  have mem: "gs_pipe gs (fst p) = Some (snd p)" if "p \<in> set (gs_pipelines gs)" for p
    using that gs_pipe_mem [OF inv, of "fst p" "snd p"] by simp
  have "c \<notin> set stash" for c
  proof
    assume "c \<in> set stash"
    with look obtain p pl' st out1 cs where "p \<in> set (gs_pipelines gs)" "pipe_finalize (snd p) = Some (pl', st, out1, cs)" "c \<in> set st"
      by (metis filter_is_subset subsetD)
    with finalize_pipe(1) [OF inv mem] show False by fastforce
  qed
  then show "stash = []" by (cases stash) auto
  have "\<exists>sid pl. gs_pipe gs sid = Some pl \<and> window_tag pl c" if "c \<in> set out" for c
  proof -
    from look that obtain p pl' st out1 cs where p: "p \<in> set (gs_pipelines gs)" "pipe_finalize (snd p) = Some (pl', st, out1, cs)" "c \<in> set out1"
      by (metis filter_is_subset subsetD)
    with finalize_pipe(2) [OF inv mem [OF p(1)] p(2)] mem [OF p(1)] show ?thesis by blast
  qed
  moreover have "\<exists>c\<in>set out. has_event c sid k"
    if "sid \<in> fst ` set (filter hit (gs_pipelines gs))" "gs_pipe gs sid = Some pl" "k \<in> pipe_keeps pl" for sid pl k
  proof -
    have "map_of m' sid \<noteq> None" using that(1) look dom_keys [of m' "filter hit (gs_pipelines gs)"] by (metis domIff dom_map_of_conv_image_fst)
    then obtain pl' where "map_of m' sid = Some pl'" by blast
    with look obtain pl1 st ot cs where
      *: "map_of (filter hit (gs_pipelines gs)) sid = Some pl1" "pipe_finalize pl1 = Some (pl', st, ot, cs)" "set ot \<subseteq> set out" by blast
    from *(1) have "(sid, pl1) \<in> set (gs_pipelines gs)" by (auto dest: map_of_SomeD)
    then have "gs_pipe gs sid = Some pl1" using gs_pipe_mem [OF inv] by blast
    then have "pl1 = pl" using that(2) by simp
    with finalize_pipe(3) [OF inv that(2) _ that(3)] *(2,3) show ?thesis by blast
  qed
  ultimately show "windows_for (fst ` set (filter hit (gs_pipelines gs))) (set out) gs" unfolding windows_for_def by blast
qed

lemma shutdown_finish_conserves:
  assumes inv: "gs_inv gs" and ret: "gs_shutdown_finish gs = Some (gs', calls)"
  shows "gs_conserves gs [] {} gs'"
proof (cases "gs_pipelines gs = []")
  case True
  with ret gs_conserves_refl [OF inv] show ?thesis by (auto simp: gs_shutdown_finish_def)
next
  case False
  with ret obtain m stash out where e: "each_pipe pipe_finalize (gs_pipelines gs) = Some (m, stash, out, calls)"
    and gs': "gs' = gs\<lparr>gs_pipelines := [], gs_waiting := [],
        gs_handles := filter (\<lambda>h. fst h \<notin> (plStoryId \<circ> snd) ` set (gs_pipelines gs)) (gs_handles gs),
        gs_queue := gs_queue gs @ stash @ out\<rparr>" by (auto simp: gs_shutdown_finish_def)
  let ?K = "fst ` set (gs_pipelines gs)"
  have "plStoryId (snd p) = fst p" if "p \<in> set (gs_pipelines gs)" for p
    using gs_invD(7) [OF inv, of "fst p" "snd p"] that gs_pipe_mem [OF inv, of "fst p" "snd p"] by (simp add: pipe_inv_def)
  then have K: "(plStoryId \<circ> snd) ` set (gs_pipelines gs) = ?K" by (intro image_cong) simp_all
  note fe = finalize_each [OF inv, of "\<lambda>_. True", simplified, OF e]
  have "filter (\<lambda>p. fst p \<notin> ?K) (gs_waiting gs) = []"
    using gs_invD(6) [OF inv] by (auto simp: filter_empty_conv dom_map_of_conv_image_fst)
  moreover have "filter (\<lambda>p. fst p \<notin> ?K) (gs_pipelines gs) = []" by (auto simp: filter_empty_conv)
  ultimately show ?thesis
    using fe by (intro remove_conserves [OF inv, where K = ?K and W = "set out"])
      (auto simp: gs' K [unfolded comp_def] core_def remove_pipes_def arriving_def transit_def task_windows_def)
qed

section \<open>Destroying\<close>

lemma filter_hits:
  assumes "omap_ok m"
  shows "filter (\<lambda>p. \<not> hit p) m = filter (\<lambda>p. fst p \<notin> fst ` set (filter hit m)) m"
proof (rule filter_cong [OF refl])
  fix p assume p: "p \<in> set m"
  have "q = p" if "q \<in> set m" "fst q = fst p" for q
    using omap_ok_distinct [OF assms] p that by (auto simp: distinct_map dest: inj_onD)
  then show "(\<not> hit p) = (fst p \<notin> fst ` set (filter hit m))" using p by fastforce
qed

lemma collect_finalize_each:
  assumes inv: "gs_inv gs" and col: "each_pipe pipe_collect (filter hit (gs_pipelines gs)) = Some (m1, st1, o1, c1)"
    and fin: "each_pipe pipe_finalize m1 = Some (m2, st2, out, c2)"
  shows "st1 = []" "st2 = []" "fst ` set m1 = fst ` set (filter hit (gs_pipelines gs))"
    "\<And>c. c \<in> set out \<Longrightarrow> \<exists>p\<in>set (filter hit (gs_pipelines gs)). window_tag (snd p) c" "windows_for (fst ` set m1) (set out) gs"
proof -
  let ?m = "filter hit (gs_pipelines gs)" and ?d = "gs_chunk_duration_secs gs"
  note look1 = each_pipe_lookup [OF col] and look2 = each_pipe_lookup [OF fin]
  have mem: "gs_pipe gs (fst p) = Some (snd p)" if "p \<in> set ?m" for p
    using that gs_pipe_mem [OF inv, of "fst p" "snd p"] by simp
  have keys: "map fst m1 = map fst ?m" using look1 by blast
  then show "fst ` set m1 = fst ` set ?m" by (metis list.set_map)
  have "omap_ok ?m" using gs_invD(2) [OF inv] by blast
  then have ok1: "omap_ok m1" using keys by (simp add: omap_ok_def)
  have coll: "pipe_step_ok ?d (fst p) (snd p) r" if "p \<in> set ?m" "pipe_collect (snd p) = Some r" for p r
    using collect_pipe_ok [OF inv mem [OF that(1)] that(2)] .
  have "c \<notin> set st1" for c
  proof
    assume "c \<in> set st1"
    with look1 obtain p pl' st ot cs where "p \<in> set ?m" "pipe_collect (snd p) = Some (pl', st, ot, cs)" "c \<in> set st" by blast
    with coll show False by (fastforce simp: pipe_step_ok_def)
  qed
  then show "st1 = []" by (cases st1) auto
  have mid: "\<exists>pl. (fst p, pl) \<in> set ?m \<and> pipe_inv ?d (fst p) (snd p) \<and> same_pipe pl (snd p) \<and> pipe_keeps pl \<subseteq> pipe_keeps (snd p)"
    if "p \<in> set m1" for p
  proof -
    have "map_of m1 (fst p) = Some (snd p)" unfolding map_of_omap_Some [OF ok1] using that by simp
    with look1 obtain pl st ot cs where pl: "map_of ?m (fst p) = Some pl" "pipe_collect pl = Some (snd p, st, ot, cs)" by blast
    have pm: "(fst p, pl) \<in> set ?m" using pl(1) by (rule map_of_SomeD)
    have "ot = []" using pl(2) by (auto simp: pipe_collect_def pipe_outputs_def)
    with coll [OF pm, of "(snd p, st, ot, cs)"] pl(2) pm show ?thesis by (auto simp: pipe_step_ok_def)
  qed
  note d = gs_invD(10) [OF inv]
  have fin1: "st = [] \<and> (\<forall>c\<in>set ot. window_tag (snd p) c) \<and> pipe_keeps (snd p) = (\<Union>c\<in>set ot. dom (events_of c))"
    if "p \<in> set m1" "pipe_finalize (snd p) = Some (pl', st, ot, cs)" for p pl' st ot cs
    using mid [OF that(1)] pipe_finalize_step [of ?d "fst p" "snd p"] d that(2) by auto
  have "c \<notin> set st2" for c
  proof
    assume "c \<in> set st2"
    with look2 obtain p pl' st ot cs where "p \<in> set m1" "pipe_finalize (snd p) = Some (pl', st, ot, cs)" "c \<in> set st" by blast
    with fin1 show False by fastforce
  qed
  then show "st2 = []" by (cases st2) auto
  show tags: "\<exists>p\<in>set ?m. window_tag (snd p) c" if "c \<in> set out" for c
  proof -
    from look2 that obtain p pl' st ot cs where p: "p \<in> set m1" "pipe_finalize (snd p) = Some (pl', st, ot, cs)" "c \<in> set ot" by blast
    with fin1 have "window_tag (snd p) c" by blast
    moreover from mid [OF p(1)] obtain pl where "(fst p, pl) \<in> set ?m" "same_pipe pl (snd p)" by blast
    ultimately show ?thesis using same_pipe_tag by (metis snd_conv)
  qed
  have "\<exists>c\<in>set out. has_event c sid k" if sid: "sid \<in> fst ` set m1" "gs_pipe gs sid = Some pl" "k \<in> pipe_keeps pl" for sid pl k
  proof -
    from sid(1) obtain pl1 where pl1: "(sid, pl1) \<in> set m1" by auto
    have "map_of m2 sid \<noteq> None" using sid(1) look2 dom_keys [of m2 m1] by (metis domIff dom_map_of_conv_image_fst)
    then obtain pl2 where "map_of m2 sid = Some pl2" by blast
    with look2 obtain plx st ot cs where plx: "map_of m1 sid = Some plx" "pipe_finalize plx = Some (pl2, st, ot, cs)" "set ot \<subseteq> set out" by blast
    have "plx = pl1" using plx(1) pl1 map_of_omap_Some [OF ok1, of sid pl1] by simp
    note f = fin1 [OF pl1, unfolded snd_conv, OF plx(2) [unfolded this]]
    from mid [OF pl1] obtain plo where o: "(sid, plo) \<in> set ?m" "pipe_inv ?d sid pl1" "pipe_keeps plo \<subseteq> pipe_keeps pl1" by auto
    have "plo = pl" using mem [OF o(1)] sid(2) by simp
    then have "k \<in> pipe_keeps pl1" using o(3) sid(3) by blast
    with f obtain c where "c \<in> set ot" "k \<in> dom (events_of c)" "window_tag pl1 c" by blast
    with window_tag_event [OF o(2)] plx(3) show ?thesis by blast
  qed
  moreover have "\<exists>sid pl. gs_pipe gs sid = Some pl \<and> window_tag pl c" if "c \<in> set out" for c
    using tags [OF that] mem by blast
  ultimately show "windows_for (fst ` set m1) (set out) gs" unfolding windows_for_def by blast
qed

lemma drain_chunks_frame:
  "drain_chunks cs gs = Some gs' \<Longrightarrow> gs'\<lparr>gs_pipelines := [], gs_orphans := []\<rparr> = gs\<lparr>gs_pipelines := [], gs_orphans := []\<rparr>"
  by (induction cs arbitrary: gs) (fastforce simp: Option.bind_eq_Some_conv ingestStoryChunk_def push_chunk_def split: option.splits if_splits)+

lemma drain_frame:
  "drainOrphanChunks gs = Some gs' \<Longrightarrow> gs'\<lparr>gs_pipelines := [], gs_orphans := []\<rparr> = gs\<lparr>gs_pipelines := [], gs_orphans := []\<rparr>"
  by (auto simp: drainOrphanChunks_def dest!: drain_chunks_frame split: if_splits)

definition add_task :: "DestroyTask \<Rightarrow> GrapherDataStore \<Rightarrow> GrapherDataStore" where
  "add_task task gs = gs\<lparr>gs_tasks := gs_tasks gs @ [task]\<rparr>"

lemma unhook_conserves:
  assumes inv: "gs_inv gs0" and ret: "unhook hit looked_at report task gs0 = Some (task', gs', calls)" and fresh: "remainingChunks task = []"
  shows "gs_conserves gs0 [] {} (add_task task' gs')"
proof (cases "filter hit (gs_pipelines gs0) = []")
  case True
  with ret have "task' = task" "gs' = gs0" by (auto simp: unhook_def split: if_splits)
  then show ?thesis using inv gs_invD(3,6) [OF inv] fresh
    by (intro move_conserves) (auto simp: core_def add_task_def arriving_def transit_def task_windows_def)
next
  case False
  note ret' = ret [unfolded unhook_def if_not_P [OF False]]
  from ret' obtain gs where dr: "drainOrphanChunks gs0 = Some gs" by (cases "drainOrphanChunks gs0") (simp_all split: if_splits)
  from ret' dr obtain m1 st1 o1 c1 where
    col: "each_pipe pipe_collect (filter hit (gs_pipelines gs)) = Some (m1, st1, o1, c1)"
    by (cases "each_pipe pipe_collect (filter hit (gs_pipelines gs))") (auto split: if_splits)
  from ret' dr col obtain m2 st2 out c2 where fin: "each_pipe pipe_finalize m1 = Some (m2, st2, out, c2)"
    by (cases "each_pipe pipe_finalize m1") (auto split: if_splits)
  from ret' dr col fin have task': "task' = task\<lparr>task_pipelines := map snd m2, remainingChunks := out\<rparr>"
    and gs': "gs' = gs\<lparr>gs_pipelines := filter (\<lambda>p. \<not> hit p) (gs_pipelines gs), gs_waiting := filter (\<lambda>w. fst w \<notin> fst ` set m1) (gs_waiting gs),
        gs_handles := filter (\<lambda>h. fst h \<notin> fst ` set m1) (gs_handles gs), gs_queue := gs_queue gs @ st1 @ st2\<rparr>"
    by (simp_all split: if_splits)
  note one = gs_drain_conserves [OF inv dr]
  note inv1 = gs_conserves_inv [OF one]
  note cf = collect_finalize_each [OF inv1 col fin]
  have "filter (\<lambda>p. \<not> hit p) (gs_pipelines gs) = filter (\<lambda>p. fst p \<notin> fst ` set m1) (gs_pipelines gs)"
    unfolding cf(3) by (rule filter_hits [OF gs_invD(2) [OF inv1]])
  then have "gs_conserves gs [] {} (add_task task' gs')"
    using cf(1,2,5) by (intro remove_conserves [OF inv1, where K = "fst ` set m1" and W = "set out"])
      (auto simp: gs' task' core_def add_task_def remove_pipes_def arriving_def transit_def task_windows_def)
  from gs_conserves_trans [OF one this] show ?thesis by simp
qed

text \<open>The tombstones are not part of the invariant.\<close>

lemma tombstone_inv:
  "gs_inv (gs\<lparr>gs_destroyedStories := s\<rparr>) = gs_inv gs" "gs_inv (gs\<lparr>gs_destroyedChronicles := t\<rparr>) = gs_inv gs"
  "held_chunks (gs\<lparr>gs_destroyedStories := s\<rparr>) = held_chunks gs" "held_chunks (gs\<lparr>gs_destroyedChronicles := t\<rparr>) = held_chunks gs"
  by (simp_all add: gs_inv_def config_ok_def held_chunks_def arriving_def transit_def task_windows_def)

lemma unhook_story_conserves:
  assumes inv: "gs_inv gs" and ret: "unhook_story now sid chronicle story gs = Some (task, gs', calls)"
  shows "gs_conserves gs [] {} (add_task task gs')"
proof -
  let ?gs0 = "gs\<lparr>gs_destroyedStories := List.insert sid (gs_destroyedStories gs)\<rparr>"
  from ret obtain calls0 where u: "unhook (\<lambda>p. fst p = sid) (\<lambda>s. s = sid) False (new_task StoryKind chronicle story now gs) ?gs0 = Some (task, gs', calls0)"
    by (auto simp: unhook_story_def)
  have "gs_conserves ?gs0 [] {} (add_task task gs')"
    using inv by (intro unhook_conserves [OF _ u]) (simp_all add: tombstone_inv new_task_def)
  then show ?thesis by (rule gs_conserves_cong) (simp_all add: tombstone_inv)
qed

lemma unhook_chronicle_conserves:
  assumes inv: "gs_inv gs" and ret: "unhook_chronicle now chronicle gs = Some (task, gs', calls)"
  shows "gs_conserves gs [] {} (add_task task gs')"
proof -
  let ?gs0 = "gs\<lparr>gs_destroyedChronicles := List.insert chronicle (gs_destroyedChronicles gs)\<rparr>"
  have "gs_conserves ?gs0 [] {} (add_task task gs')"
    using inv by (intro unhook_conserves [OF _ ret [unfolded unhook_chronicle_def]]) (simp_all add: tombstone_inv new_task_def)
  then show ?thesis by (rule gs_conserves_cong) (simp_all add: tombstone_inv)
qed

section \<open>Starting a story\<close>

lemma omap_emplace_subset: "set (omap_emplace k v m) \<subseteq> insert (k, v) (set m)"
  by (auto simp: omap_emplace_def set_omap_put split: option.split)

lemma new_pipe_tags:
  assumes "new_StoryPipeline latest chronicle story sid t d w = Some (n, pl)" "p \<in> set (storyTimelineMap pl)"
  shows "window_tag pl (snd p)"
proof -
  define pl0 where "pl0 = \<lparr>plIncarnation = latest + 1, plStoryId = sid, plChronicleName = chronicle, plStoryName = story,
    chunkGranularity = ucast d * 1000000000, acceptanceWindow = ucast w * 1000000000, ingestionHandle = True, activeDeque = [],
    passiveDeque = [], storyTimelineMap = [], theExtractionQueue = None, theReceiptTracker = None\<rparr>"
  define win where "win i = make_window pl0 (t - t mod (ucast d * 1000000000) + ucast d * 1000000000 * i)
    (t - t mod (ucast d * 1000000000) + ucast d * 1000000000 * (i + 1))" for i
  have pl: "pl = pl0\<lparr>storyTimelineMap := omap_emplace (startTime (win 2)) (win 2) (omap_emplace (startTime (win 1)) (win 1)
      (omap_emplace (startTime (win 0)) (win 0) []))\<rparr>"
    using assms(1) by (auto simp: new_StoryPipeline_def Let_def pl0_def win_def split: if_splits)
  have tag: "window_tag pl (win i)" for i using window_tag_make [of pl0] by (simp add: pl win_def)
  have "snd p \<in> {win 2, win 1, win 0}"
    using assms(2) omap_emplace_subset [of "startTime (win 2)"] omap_emplace_subset [of "startTime (win 1)"]
      omap_emplace_subset [of "startTime (win 0)" _ "[]"] unfolding pl by fastforce
  with tag show ?thesis by auto
qed

lemma new_pipe_inv:
  assumes d: "d \<noteq> 0" "duration_ok d" "duration_ok w" and t: "time_ok t"
    and new: "new_StoryPipeline latest chronicle story sid t d w = Some (n, pl)"
  shows "pipe_inv d sid (attach gs pl)" "pipe_keeps (attach gs pl) = {}" "plIncarnation (attach gs pl) = n" "n = latest + 1"
    "plChronicleName (attach gs pl) = chronicle"
proof -
  have room: "unat t + 3 * (unat d * 1000000000) < 2 ^ 64" using d(2) t by (simp add: duration_ok_def time_ok_def)
  note np = new_pipeline_ok [OF new room]
  have f: "plIncarnation pl = n" "n = latest + 1" "plStoryId pl = sid" "plChronicleName pl = chronicle" "ingestionHandle pl" "chunkGranularity pl = ucast d * 1000000000"
    "acceptanceWindow pl = ucast w * 1000000000" "activeDeque pl = []" "passiveDeque pl = []"
    using new by (auto simp: new_StoryPipeline_def Let_def split: if_splits)
  note tags = new_pipe_tags [OF new]
  obtain p q r where tl: "storyTimelineMap pl = [p, q, r]"
    using np(2) by (cases "storyTimelineMap pl"; cases "tl (storyTimelineMap pl)"; cases "tl (tl (storyTimelineMap pl))") (auto simp: numeral_eq_Suc)
  have g: "unat (chunkGranularity pl) \<le> 2 ^ 56" unfolding f(6) by (rule duration_bound [OF d(2)])
  have "unat (endTime (snd r)) = unat (fst p) + 3 * unat (chunkGranularity pl)"
    using np(1) by (auto simp: pipeline_ok_def tl timeline_ok_Cons window_ok_def)
  moreover have "unat (fst p) < 2 ^ 62" using np(4) t by (simp add: TimelineStart_def tl time_ok_def word_le_nat_alt)
  ultimately have e: "unat (TimelineEnd pl) \<le> time_bound" using g by (simp add: TimelineEnd_def tl time_bound_def)
  have "unat (endTime (snd x)) \<le> time_bound" if "x \<in> set (storyTimelineMap pl)" for x
    using timeline_end_mono [of "plStoryId pl" "unat (chunkGranularity pl)" "storyTimelineMap pl" x] np(1) that e
    by (simp add: pipeline_ok_def TimelineEnd_def word_le_nat_alt)
  then have "shaped time_bound pl" using tags by (auto simp: shaped_def tl)
  moreover have "unat (acceptanceWindow pl) \<le> time_bound + 3000"
    unfolding f(7) using duration_bound [OF d(3)] by (simp add: time_bound_def)
  ultimately have b: "bounded time_bound pl" using np(1) by (simp add: bounded_def)
  then show "pipe_inv d sid (attach gs pl)" using f by (simp add: attach_def pipe_inv_def queued_def)
  show "pipe_keeps (attach gs pl) = {}" using np(3) f by (simp add: attach_def pipe_keeps_def queued_def)
  show "plIncarnation (attach gs pl) = n" "n = latest + 1" "plChronicleName (attach gs pl) = chronicle" using f by (simp_all add: attach_def)
qed

text \<open>Starting a story, by the visor or by adoption. The visor's start lifts the tombstones.\<close>

definition lifted :: "bool \<Rightarrow> StoryId \<Rightarrow> cpp_string \<Rightarrow> GrapherDataStore \<Rightarrow> GrapherDataStore" where
  "lifted adoption sid chronicle gs =
     (if adoption then gs
      else gs\<lparr>gs_destroyedStories := filter (\<lambda>s. s \<noteq> sid) (gs_destroyedStories gs),
              gs_destroyedChronicles := filter (\<lambda>c. c \<noteq> chronicle) (gs_destroyedChronicles gs)\<rparr>)"

lemma lifted_frame [simp]:
  "gs_pipelines (lifted a sid chr gs) = gs_pipelines gs" "gs_waiting (lifted a sid chr gs) = gs_waiting gs"
  "gs_handles (lifted a sid chr gs) = gs_handles gs" "gs_archive (lifted a sid chr gs) = gs_archive gs"
  "gs_latestIncarnation (lifted a sid chr gs) = gs_latestIncarnation gs" "gs_registry (lifted a sid chr gs) = gs_registry gs"
  "gs_chunk_duration_secs (lifted a sid chr gs) = gs_chunk_duration_secs gs" "attach (lifted a sid chr gs) = attach gs"
  "gs_acceptance_window_secs (lifted a sid chr gs) = gs_acceptance_window_secs gs" "arriving (lifted a sid chr gs) = arriving gs"
  "transit (lifted a sid chr gs) = transit gs" "config_ok (lifted a sid chr gs) = config_ok gs"
  by (simp_all add: lifted_def attach_def fun_eq_iff arriving_def transit_def task_windows_def config_ok_def)

lemma start_cases:
  assumes "gs_startStoryRecording chronicle story sid t adoption gs = Some (r, active, gs', calls)"
  obtains (refused) "adoption" "tombstoned sid chronicle gs" "gs' = gs" "r = CL_ERR_UNKNOWN" "calls = []"
  | (running) pl where "\<not> (adoption \<and> tombstoned sid chronicle gs)" "r = CL_SUCCESS" "gs_pipe gs sid = Some pl"
      "gs' = lifted adoption sid chronicle gs\<lparr>gs_waiting := omap_erase sid (gs_waiting gs)\<rparr>"
  | (made) n pl where "\<not> (adoption \<and> tombstoned sid chronicle gs)" "r = CL_SUCCESS" "gs_pipe gs sid = None"
      "new_StoryPipeline (gs_latestIncarnation gs) chronicle story sid t (gs_chunk_duration_secs gs) (gs_acceptance_window_secs gs) = Some (n, pl)"
      "gs' = gs_addHandle sid n (lifted adoption sid chronicle gs
         \<lparr>gs_latestIncarnation := n, gs_pipelines := omap_put sid (attach gs pl) (gs_pipelines gs)\<rparr>)"
proof (cases "adoption \<and> tombstoned sid chronicle gs")
  case True
  note ret = assms [unfolded gs_startStoryRecording_def if_P [OF True]]
  show thesis by (rule refused) (use True ret in simp_all)
next
  case False
  note ret = assms [unfolded gs_startStoryRecording_def if_not_P [OF False] lifted_def [symmetric] Let_def lifted_frame]
  show thesis
  proof (cases "gs_pipe gs sid")
    case (Some pl)
    with ret running [OF False _ Some] show ?thesis by simp
  next
    case None
    from None ret obtain n pl where new: "new_StoryPipeline (gs_latestIncarnation gs) chronicle story sid t (gs_chunk_duration_secs gs) (gs_acceptance_window_secs gs) = Some (n, pl)"
      by (cases "new_StoryPipeline (gs_latestIncarnation gs) chronicle story sid t (gs_chunk_duration_secs gs) (gs_acceptance_window_secs gs)")
        (simp_all only: option.case option.distinct, metis surj_pair)
    from ret made [OF False _ None new] show ?thesis unfolding None new option.case prod.case by simp
  qed
qed

lemma gs_start_conserves:
  assumes inv: "gs_inv gs" and t: "time_ok t" and ret: "gs_startStoryRecording chronicle story sid t adoption gs = Some (r, active, gs', calls)"
  shows "gs_conserves gs [] {} gs'"
  using ret
proof (cases rule: start_cases)
  case refused
  then show ?thesis using gs_conserves_refl [OF inv] by simp
next
  case (running pl)
  have "core gs' = core gs" "arriving gs' = arriving (lifted adoption sid chronicle gs)" "transit gs' = transit (lifted adoption sid chronicle gs)"
    "gs_waiting gs' = omap_erase sid (gs_waiting gs)"
    by (simp_all add: running(4) core_def arriving_def transit_def task_windows_def)
  with inv gs_invD(3,6) [OF inv] show ?thesis
    by (intro move_conserves) (auto simp: omap_simps)
next
  case (made n pl)
  have cfg: "gs_chunk_duration_secs gs \<noteq> 0" "duration_ok (gs_chunk_duration_secs gs)" "duration_ok (gs_acceptance_window_secs gs)"
    using gs_invD(1) [OF inv] by (simp_all add: config_ok_def)
  note np = new_pipe_inv [OF cfg t made(4)]
  have f: "gs_pipe gs' = (gs_pipe gs)(sid \<mapsto> attach gs pl)" "gs_handles gs' = omap_emplace sid n (gs_handles gs)"
    "gs_pipelines gs' = omap_put sid (attach gs pl) (gs_pipelines gs)"
    "gs_waiting gs' = gs_waiting gs" "gs_chunk_duration_secs gs' = gs_chunk_duration_secs gs" "gs_archive gs' = gs_archive gs"
    by (simp_all add: made(5) gs_addHandle_def omap_simps)
  have "arriving gs' = arriving (lifted adoption sid chronicle gs)" "transit gs' = transit (lifted adoption sid chronicle gs)"
    "config_ok gs' = config_ok (lifted adoption sid chronicle gs)"
    by (simp_all only: made(5)) (simp_all add: gs_addHandle_def arriving_def transit_def task_windows_def config_ok_def)
  note f = f this [unfolded lifted_frame]
  have "map_of (gs_handles gs) sid = None" using gs_invD(5) [OF inv] made(3) by simp
  then have "map_of (gs_handles gs') = (map_of (gs_handles gs))(sid \<mapsto> n)" by (simp add: f omap_simps)
  then have h: "map_of (gs_handles gs') = map_option plIncarnation \<circ> gs_pipe gs'"
    using gs_invD(5) [OF inv] np(3) by (auto simp: f(1) fun_eq_iff)
  show ?thesis
  proof (rule gs_conservesI)
    have "omap_ok (gs_handles gs')" "omap_ok (gs_pipelines gs')" using gs_invD(2,4) [OF inv] by (auto simp: f)
    moreover have "dom (map_of (gs_waiting gs')) \<subseteq> dom (gs_pipe gs')" using gs_invD(6) [OF inv] unfolding f(1,4) by auto
    moreover have "pipe_inv (gs_chunk_duration_secs gs') s p" if "gs_pipe gs' s = Some p" for s p
      using that gs_invD(7) [OF inv, of s p] np(1) unfolding f(1,5) by (auto split: if_splits)
    moreover have "config_ok gs'" "omap_ok (gs_waiting gs')" "\<forall>c\<in>arriving gs'. chunk_ok c" "\<forall>c\<in>transit gs'. \<not> watermarkExempt c"
      using gs_invD(1,3,8,9) [OF inv] by (simp_all add: f)
    ultimately show "gs_inv gs'" unfolding gs_inv_def using h by blast
    show "gs_holds gs' s k \<or> (s, k) \<in> {}" if "c \<in> held_chunks gs \<union> set []" "has_event c s k" for c s k
      using that gs_holds_chunk [of c gs' s k] by (simp add: held_chunks_def f)
    show "gs_holds gs' s k \<or> (s, k) \<in> {}" if "gs_pipe gs s = Some pl'" "k \<in> pipe_keeps pl'" for s pl' k
    proof -
      have "gs_pipe gs' s = Some pl'" using that(1) made(3) unfolding f(1) by auto
      then show ?thesis using gs_holds_pipe that(2) by blast
    qed
  qed
qed

lemma gs_stop_conserves:
  assumes inv: "gs_inv gs" and ret: "gs_stopStoryRecording now sid gs = (r, gs')"
  shows "gs_conserves gs [] {} gs'"
proof (cases "gs_pipe gs sid")
  case None
  with ret gs_conserves_refl [OF inv] show ?thesis by (auto simp: gs_stopStoryRecording_def)
next
  case (Some pl)
  then have gs': "gs' = gs\<lparr>gs_waiting := omap_put sid (now + ucast (gs_inactive_pipeline_delay_secs gs) * 1000000000) (gs_waiting gs)\<rparr>"
    using ret by (simp add: gs_stopStoryRecording_def)
  have "dom (map_of (gs_waiting gs')) \<subseteq> dom (gs_pipe gs)"
    using gs_invD(6) [OF inv] Some by (simp add: gs' omap_simps) blast
  with inv gs_invD(3) [OF inv] show ?thesis
    by (intro move_conserves) (auto simp: gs' core_def arriving_def transit_def task_windows_def)
qed

text \<open>A chunk that leaves a container without going elsewhere is accounted for by the calls.\<close>

lemma drop_in_hand:
  assumes inv: "gs_inv gs" and i: "i < length (gs_inHand gs)"
  shows "gs_conserves gs [] {(sid, k). has_event (gs_inHand gs ! i) sid k} (gs\<lparr>gs_inHand := remove_nth i (gs_inHand gs)\<rparr>)"
proof -
  let ?gs' = "gs\<lparr>gs_inHand := remove_nth i (gs_inHand gs)\<rparr>" and ?c = "gs_inHand gs ! i"
  have tra: "transit ?gs' = transit gs" by (simp add: transit_def task_windows_def)
  have arr: "arriving gs = insert ?c (arriving ?gs')" using set_remove_nth [OF i] by (auto simp: arriving_def)
  show ?thesis
  proof (rule gs_conservesI)
    show "gs_inv ?gs'" using inv unfolding gs_inv_def tra arr by (auto simp: config_ok_def)
    show "gs_holds ?gs' sid k \<or> (sid, k) \<in> {(sid, k). has_event ?c sid k}" if "c \<in> held_chunks gs \<union> set []" "has_event c sid k" for c sid k
    proof (cases "c = ?c")
      case True
      then show ?thesis using that(2) by simp
    next
      case False
      then have "c \<in> held_chunks ?gs'" using that(1) arr tra by (simp add: held_chunks_def)
      then show ?thesis using gs_holds_chunk that(2) by blast
    qed
    show "gs_holds ?gs' sid k \<or> (sid, k) \<in> {(sid, k). has_event ?c sid k}" if "gs_pipe gs sid = Some pl" "k \<in> pipe_keeps pl" for sid pl k
      using gs_holds_pipe [of ?gs' sid pl k] that by simp
  qed
qed

lemma adopt_conserves:
  assumes inv: "gs_inv gs" and i: "i < length (gs_inHand gs)"
    and ret: "adopt_chunk (gs_inHand gs ! i) gs = Some (taken, active, gs', calls)"
  shows "gs_conserves gs [] {(sid, k). let_go gs calls sid k} (if taken then gs' else gs'\<lparr>gs_inHand := remove_nth i (gs_inHand gs')\<rparr>)"
proof -
  let ?c = "gs_inHand gs ! i"
  from ret obtain r act calls0 where
    start: "gs_startStoryRecording (chronicleName ?c) (storyName ?c) (chunkStoryId ?c) (startTime ?c) True gs = Some (r, act, gs', calls0)"
    and res: "taken = (r = CL_SUCCESS)" "calls = (if taken then calls0 else calls0 @ on_registry gs' [DropStory (chunkStoryId ?c)])"
    by (auto simp: adopt_chunk_def split: if_splits)
  have "chunk_ok ?c" using gs_invD(8) [OF inv] i by (auto simp: arriving_def)
  then have t: "time_ok (startTime ?c)" by (simp add: chunk_ok_def)
  show ?thesis
  proof (cases taken)
    case True
    then show ?thesis using gs_conserves_mono [OF gs_start_conserves [OF inv t start]] by simp
  next
    case False
    have gs': "gs' = gs" and tomb: "tombstoned (chunkStoryId ?c) (chronicleName ?c) gs"
      using start by (cases rule: start_cases; use False res(1) in simp)+
    have "gs_registry gs" using gs_invD(1) [OF inv] by (simp add: config_ok_def)
    then have "OnRegistry (DropStory (chunkStoryId ?c)) \<in> set calls" using False res(2) by (simp add: gs' on_registry_def)
    then have "{(sid, k). has_event ?c sid k} \<subseteq> {(sid, k). let_go gs calls sid k}"
      using tomb nth_mem [OF i] unfolding let_go_def has_event_def by blast
    from gs_conserves_mono [OF drop_in_hand [OF inv i] this] False gs' show ?thesis by simp
  qed
qed

section \<open>The extraction threads and the destroy worker\<close>

lemma gs_extract_conserves:
  assumes inv: "gs_inv gs" and ret: "extract_chunk x i gs = Some (gs', calls)"
  shows "gs_conserves gs [] {(sid, k). let_go gs calls sid k} gs'"
proof -
  let ?c = "gs_inProcess gs ! i"
  have i: "i < length (gs_inProcess gs)" using ret by (simp add: extract_chunk_def split: if_splits)
  obtain st ops ar where p: "process_chunk x ?c (gs_archive gs) = (st, ops, ar)" by (metis prod_cases3)
  have gs': "gs' = gs\<lparr>gs_archive := ar, gs_inProcess := remove_nth i (gs_inProcess gs)\<rparr>" "calls = map OnRegistry ops"
    using ret i p by (auto simp: extract_chunk_def)
  have ok: "archive_ok (gs_archive gs)" and reg: "ar_registry (gs_archive gs)" using gs_invD(1) [OF inv] by (simp_all add: config_ok_def)
  note po = process_chunk_outcome [OF ok p]
  have set: "set (gs_inProcess gs) = insert ?c (set (gs_inProcess gs'))" using set_remove_nth [OF i] by (simp add: gs')
  have tra: "transit gs = insert ?c (transit gs')" using set by (auto simp: gs' transit_def task_windows_def)
  have arr: "arriving gs' = arriving gs" by (simp add: gs' arriving_def)
  have pipes: "gs_pipelines gs' = gs_pipelines gs" by (simp add: gs')
  show ?thesis
  proof (rule gs_conservesI)
    have "config_ok gs'" using gs_invD(1) [OF inv] po(1,2) by (simp add: config_ok_def gs' same_writer_def)
    then show "gs_inv gs'" using inv unfolding gs_inv_def tra arr by (auto simp: gs')
    show "gs_holds gs' sid k \<or> (sid, k) \<in> {(sid, k). let_go gs calls sid k}" if "c \<in> held_chunks gs \<union> set []" "has_event c sid k" for c sid k
    proof (cases "c \<in> held_chunks gs'")
      case True
      then show ?thesis using gs_holds_chunk that(2) by blast
    next
      case False
      have ar: "gs_archive gs' = ar" by (simp add: gs')
      have "c \<in> insert ?c (archived (gs_archive gs))" "c \<notin> archived ar"
        using False that(1) unfolding held_chunks_def arr tra ar by auto
      moreover have "\<not> chunk_empty c" using that(2) by (auto simp: has_event_def)
      ultimately have c: "c = ?c" and "st \<noteq> CL_SUCCESS" using hdf5.stored_or_failed [OF ok p] by blast+
      moreover have "\<not> watermarkExempt c" using gs_invD(9) [OF inv, of c] tra c by simp
      ultimately have "OnRegistry (PersistFailed (chunkStoryId c)) \<in> set calls"
        using po(5) reg by (simp add: gs' hold_call_def c)
      then show ?thesis using that(2) nth_mem [OF i] by (auto simp: let_go_def has_event_def c)
    qed
    show "gs_holds gs' sid k \<or> (sid, k) \<in> {(sid, k). let_go gs calls sid k}" if "gs_pipe gs sid = Some pl" "k \<in> pipe_keeps pl" for sid pl k
      using gs_holds_pipe [of gs' sid pl k] that by (simp add: pipes)
  qed
qed

lemma delete_conserves:
  assumes inv: "gs_inv gs" and ret: "worker_delete reply recorded gs = Some (gs', calls)"
  shows "gs_conserves gs [] {(sid, k). let_go gs calls sid k} gs'"
proof -
  from ret obtain task where task: "gs_worker gs = WorkerDrains task" by (auto simp: worker_delete_def split: destroy_worker.splits)
  have ok: "archive_ok (gs_archive gs)" using gs_invD(1) [OF inv] by (simp add: config_ok_def)
  let ?takes = "destroy_takes (gs_archive gs) (task_chronicleName task) (task_story task) (task_scope task)"
  obtain st ar where del: "delete_files reply recorded (task_chronicleName task) (task_story task) (task_scope task) (gs_archive gs) = (st, ar)"
    by fastforce
  note de = delete_files_effect [OF ok del]
  show ?thesis
  proof (cases "gs_extractionChain gs")
    case False
    with ret task have "gs' = gs\<lparr>gs_worker := WorkerWaits\<rparr>" by (auto simp: worker_delete_def split: if_splits)
    with inv gs_invD(3,6) [OF inv] show ?thesis
      by (intro gs_conserves_mono [OF move_conserves]) (auto simp: core_def arriving_def transit_def task_windows_def)
  next
    case True
    with ret task del have gs': "gs' = gs\<lparr>gs_archive := ar, gs_worker := WorkerWaits\<rparr>"
      and calls: "calls = [DeletesFiles (task_chronicleName task) (task_story task) (task_scope task) st]"
      by (auto simp: worker_delete_def split: if_splits)
    have f: "arriving gs' = arriving gs" "transit gs' = transit gs" by (simp_all add: gs' arriving_def transit_def task_windows_def)
    show ?thesis
    proof (rule gs_conservesI)
      have "config_ok gs'" using gs_invD(1) [OF inv] de(1,2) by (simp add: config_ok_def gs' same_writer_def)
      then show "gs_inv gs'" using inv unfolding gs_inv_def f by (simp add: gs')
      show "gs_holds gs' sid k \<or> (sid, k) \<in> {(sid, k). let_go gs calls sid k}" if "c \<in> held_chunks gs \<union> set []" "has_event c sid k" for c sid k
      proof (cases "c \<in> held_chunks gs'")
        case True
        then show ?thesis using gs_holds_chunk that(2) by blast
      next
        case False
        have ar: "gs_archive gs' = ar" by (simp add: gs')
        have "c \<in> archived (gs_archive gs)" "c \<notin> archived ar" using False that(1) unfolding held_chunks_def f ar by auto
        then obtain g where g: "g \<in> set (ar_files (gs_archive gs))" "af_window g = c" "g \<notin> set (ar_files ar)" by auto
        with hdf5.kept_or_taken [OF ok, of "(reply, recorded)", unfolded fst_conv snd_conv, OF del g(1)] have "?takes g" by blast
        then show ?thesis using that(2) task g(1,2) by (auto simp: let_go_def calls)
      qed
      show "gs_holds gs' sid k \<or> (sid, k) \<in> {(sid, k). let_go gs calls sid k}" if "gs_pipe gs sid = Some pl" "k \<in> pipe_keeps pl" for sid pl k
        using gs_holds_pipe [of gs' sid pl k] that by (simp add: gs')
    qed
  qed
qed

section \<open>Steps and runs\<close>

text \<open>
  A step with the chunks that arrive in it and the calls it makes. A call of \<^verbatim>\<open>ingestStoryChunk\<close> that finds no handle puts
  its chunk among the orphans later, so the step of the orphan does not look at the handles again. The visor and the
  adoption stop stories with the same call. What is left after the joins is retired when the worker has ended or never ran.
\<close>

inductive gs_step :: "GrapherDataStore \<Rightarrow> StoryChunk list \<Rightarrow> grapher_call list \<Rightarrow> GrapherDataStore \<Rightarrow> bool" where
  Arrive: "chunk_ok c \<Longrightarrow> gs_step gs [c] [] (gs\<lparr>gs_inHand := gs_inHand gs @ [c]\<rparr>)"
| LookUp: "i < length (gs_inHand gs) \<Longrightarrow> find_handle (gs_inHand gs ! i) gs = Some n \<Longrightarrow>
    gs_step gs [] [] (gs\<lparr>gs_placing := gs_placing gs @ [(n, gs_inHand gs ! i)], gs_inHand := remove_nth i (gs_inHand gs)\<rparr>)"
| PushOrphan: "i < length (gs_inHand gs) \<Longrightarrow>
    gs_step gs [] [] (gs\<lparr>gs_orphans := gs_orphans gs @ [gs_inHand gs ! i], gs_inHand := remove_nth i (gs_inHand gs)\<rparr>)"
| Place: "i < length (gs_placing gs) \<Longrightarrow> gs_placing gs ! i = (n, c) \<Longrightarrow>
    push_chunk n c (gs\<lparr>gs_placing := remove_nth i (gs_placing gs)\<rparr>) = Some gs' \<Longrightarrow> gs_step gs [] [] gs'"
| Drain: "drainOrphanChunks gs = Some gs' \<Longrightarrow> gs_step gs [] [] gs'"
| Start: "gs_startStoryRecording chronicle story sid t False gs = Some (r, active, gs', calls) \<Longrightarrow> time_ok t \<Longrightarrow>
    gs_latestIncarnation gs \<noteq> - 1 \<Longrightarrow> gs_step gs [] calls gs'"
| Stop: "gs_stopStoryRecording now sid gs = (r, gs') \<Longrightarrow> gs_step gs [] [] gs'"
| AdoptTake: "extractOrphanChunks gs = (cs, gs1) \<Longrightarrow> gs_step gs [] [] (gs1\<lparr>gs_inHand := gs_inHand gs1 @ cs\<rparr>)"
| Adopt: "i < length (gs_inHand gs) \<Longrightarrow> adopt_chunk (gs_inHand gs ! i) gs = Some (taken, active, gs1, calls) \<Longrightarrow>
    gs_latestIncarnation gs \<noteq> - 1 \<Longrightarrow>
    gs_step gs [] calls (if taken then gs1 else gs1\<lparr>gs_inHand := remove_nth i (gs_inHand gs1)\<rparr>)"
| Collect: "gs_collect_pipelines gs = Some (gs', calls) \<Longrightarrow> gs_step gs [] calls gs'"
| Decay: "gs_extractDecayedStoryChunks now gs = Some (gs', calls) \<Longrightarrow> time_ok now \<Longrightarrow> gs_step gs [] calls gs'"
| RetireHold: "gs_retire_hold now gs = Some (gs', calls) \<Longrightarrow> gs_step gs [] calls gs'"
| StashRetired: "stash_retired i gs = Some gs' \<Longrightarrow> gs_step gs [] [] gs'"
| UnhookStory: "unhook_story now sid chronicle story gs = Some (task, gs1, calls) \<Longrightarrow> gs_step gs [] calls (add_task task gs1)"
| UnhookChronicle: "unhook_chronicle now chronicle gs = Some (task, gs1, calls) \<Longrightarrow> gs_step gs [] calls (add_task task gs1)"
| Enqueue: "i < length (gs_tasks gs) \<Longrightarrow>
    gs_step gs [] [] (enqueueDestroyTask (gs_tasks gs ! i) (gs\<lparr>gs_tasks := remove_nth i (gs_tasks gs)\<rparr>))"
| WorkerTake: "worker_take gs = Some gs' \<Longrightarrow> gs_step gs [] [] gs'"
| WorkerDelete: "worker_delete reply recorded gs = Some (gs', calls) \<Longrightarrow> gs_step gs [] calls gs'"
| WorkerExit: "worker_exit gs = Some gs' \<Longrightarrow> gs_step gs [] [] gs'"
| Eject: "gs_ejectStoryChunk gs = Some gs' \<Longrightarrow> gs_step gs [] [] gs'"
| Extract: "extract_chunk x i gs = Some (gs', calls) \<Longrightarrow> gs_step gs [] calls gs'"
| StartCollection: "gs_step gs [] [] (gs_startDataCollection gs)"
| ShutdownBegin: "gs_step gs [] [] (gs_shutdown_begin gs)"
| ShutdownFinish: "gs_state gs = GrapherShuttingDown \<Longrightarrow> gs_worker gs = WorkerGone \<or> gs_worker gs = WorkerNotStarted \<Longrightarrow>
    gs_shutdown_finish gs = Some (gs', calls) \<Longrightarrow> gs_step gs [] calls gs'"

inductive gs_run :: "GrapherDataStore \<Rightarrow> StoryChunk list \<Rightarrow> grapher_call list \<Rightarrow> GrapherDataStore \<Rightarrow> bool" where
  Stay: "gs_run gs [] [] gs"
| Further: "gs_run gs arrived calls gs1 \<Longrightarrow> gs_step gs1 a c gs' \<Longrightarrow> gs_run gs (arrived @ a) (calls @ c) gs'"

lemma move_step:
  assumes "gs_inv gs" "core gs' = core gs" "gs_waiting gs' = gs_waiting gs" "\<forall>c\<in>set arrived. chunk_ok c"
    "arriving gs' = arriving gs \<union> set arrived" "transit gs' = transit gs"
  shows "gs_conserves gs arrived {} gs'"
  using assms gs_invD(3,6) [OF assms(1)] by (intro move_conserves) auto

lemma place_conserves:
  assumes inv: "gs_inv gs" and i: "i < length (gs_placing gs)" "gs_placing gs ! i = (n, c)"
    and ret: "push_chunk n c (gs\<lparr>gs_placing := remove_nth i (gs_placing gs)\<rparr>) = Some gs'"
  shows "gs_conserves gs [] {} gs'"
proof -
  let ?gs0 = "gs\<lparr>gs_placing := remove_nth i (gs_placing gs)\<rparr>"
  have sub: "arriving gs = insert c (arriving ?gs0)" using set_remove_nth [OF i(1)] i(2) by (auto simp: arriving_def)
  have tra: "transit ?gs0 = transit gs" by (simp add: transit_def task_windows_def)
  have "gs_inv ?gs0" using inv unfolding gs_inv_def sub tra by (auto simp: config_ok_def)
  moreover have "chunk_ok c" using gs_invD(8) [OF inv] sub by blast
  ultimately have "gs_conserves ?gs0 [c] {} gs'" using ret by (rule push_conserves)
  then show ?thesis by (rule reinsert_conserves) (auto simp: held_chunks_def sub tra)
qed

lemma gs_step_conserves:
  assumes inv: "gs_inv gs" and step: "gs_step gs arrived calls gs'"
  shows "gs_conserves gs arrived {(sid, k). let_go gs calls sid k} gs'"
proof -
  have up: "gs_conserves gs arrived {} gs' \<Longrightarrow> ?thesis" by (erule gs_conserves_mono) (rule empty_subsetI)
  show ?thesis using step
  proof cases
    case (Arrive c)
    then show ?thesis using inv by (intro up move_step) (auto simp: core_def arriving_def transit_def task_windows_def)
  next
    case (LookUp i n)
    then show ?thesis using inv set_remove_nth [OF LookUp(4)]
      by (intro up move_step) (auto simp: core_def arriving_def transit_def task_windows_def)
  next
    case (PushOrphan i)
    then show ?thesis using inv set_remove_nth [OF PushOrphan(4)]
      by (intro up move_step) (auto simp: core_def arriving_def transit_def task_windows_def)
  next
    case (Place i n c)
    with up place_conserves [OF inv] show ?thesis by simp
  next
    case Drain
    with up gs_drain_conserves [OF inv] show ?thesis by simp
  next
    case (Start chronicle story sid t r active)
    with up gs_start_conserves [OF inv] show ?thesis by simp
  next
    case (Stop now sid r)
    with up gs_stop_conserves [OF inv] show ?thesis by simp
  next
    case (AdoptTake cs gs1)
    then show ?thesis using inv
      by (intro up move_step) (auto simp: extractOrphanChunks_def core_def arriving_def transit_def task_windows_def)
  next
    case (Adopt i taken active gs1)
    with adopt_conserves [OF inv] show ?thesis by simp
  next
    case Collect
    with up gs_collect_conserves [OF inv] show ?thesis by simp
  next
    case (Decay now)
    with up decay_conserves [OF inv] show ?thesis by simp
  next
    case (RetireHold now)
    with up gs_retire_conserves [OF inv] show ?thesis by simp
  next
    case (StashRetired i)
    then have i: "i < length (gs_retired gs)"
      and gs': "gs' = gs\<lparr>gs_queue := gs_queue gs @ gs_retired gs ! i, gs_retired := remove_nth i (gs_retired gs)\<rparr>"
      by (auto simp: stash_retired_def split: if_splits)
    have "set (concat (gs_retired gs)) = set (gs_retired gs ! i) \<union> set (concat (gs_retired gs'))"
      using set_remove_nth [OF i] by (auto simp: gs')
    then have "transit gs' = transit gs" unfolding transit_def task_windows_def by (auto simp: gs')
    then show ?thesis using inv StashRetired(1) by (intro up move_step) (auto simp: gs' core_def arriving_def)
  next
    case (UnhookStory now sid chronicle story task gs1)
    with up unhook_story_conserves [OF inv] show ?thesis by simp
  next
    case (UnhookChronicle now chronicle task gs1)
    with up unhook_chronicle_conserves [OF inv] show ?thesis by simp
  next
    case (Enqueue i)
    then show ?thesis using inv set_remove_nth [OF Enqueue(4)]
      by (intro up move_step) (auto simp: enqueueDestroyTask_def core_def arriving_def transit_def task_windows_def)
  next
    case WorkerTake
    then obtain task tasks where "gs_destroyQueue gs = task # tasks" "gs' = gs\<lparr>gs_destroyQueue := tasks,
        gs_queue := gs_queue gs @ remainingChunks task, gs_worker := WorkerDrains (task\<lparr>remainingChunks := []\<rparr>)\<rparr>"
      by (auto simp: worker_take_def split: destroy_worker.splits list.splits)
    then show ?thesis using inv WorkerTake(1) by (intro up move_step) (auto simp: core_def arriving_def transit_def task_windows_def)
  next
    case (WorkerDelete reply recorded)
    with delete_conserves [OF inv] show ?thesis by simp
  next
    case WorkerExit
    then show ?thesis using inv
      by (intro up move_step) (auto simp: worker_exit_def core_def arriving_def transit_def task_windows_def split: if_splits)
  next
    case Eject
    then show ?thesis using inv
      by (intro up move_step) (auto simp: gs_ejectStoryChunk_def core_def arriving_def transit_def task_windows_def split: list.splits)
  next
    case (Extract x i)
    with gs_extract_conserves [OF inv] show ?thesis by simp
  next
    case StartCollection
    then show ?thesis using inv
      by (intro up move_step) (auto simp: gs_startDataCollection_def core_def arriving_def transit_def task_windows_def)
  next
    case ShutdownBegin
    then show ?thesis using inv
      by (intro up move_step) (auto simp: gs_shutdown_begin_def core_def arriving_def transit_def task_windows_def)
  next
    case ShutdownFinish
    with up shutdown_finish_conserves [OF inv] show ?thesis by simp
  qed
qed

text \<open>The invariant holds along a run, and an event is held at its end or was let go of at one of its steps.\<close>

lemma gs_run_inv: "gs_run gs arrived calls gs' \<Longrightarrow> gs_inv gs \<Longrightarrow> gs_inv gs'"
  by (induction rule: gs_run.induct) (blast intro: gs_conserves_inv gs_step_conserves)+

lemma gs_run_accounts:
  assumes "gs_run gs0 arrived calls gs" "gs_inv gs0" "gs_holds gs0 sid k \<or> (\<exists>c\<in>set arrived. has_event c sid k)"
  shows "gs_holds gs sid k \<or>
    (\<exists>a1 c1 gs1 a2 c2 gs2 a3 c3. gs_run gs0 a1 c1 gs1 \<and> gs_step gs1 a2 c2 gs2 \<and> gs_run gs2 a3 c3 gs \<and>
       arrived = a1 @ a2 @ a3 \<and> calls = c1 @ c2 @ c3 \<and> \<not> gs_holds gs2 sid k \<and> let_go gs1 c2 sid k)"
  using assms
proof (induction rule: gs_run.induct)
  case (Stay gs)
  then show ?case by simp
next
  case (Further gs0 arrived calls gs a c gs')
  have step: "gs_holds gs' sid k \<or> let_go gs c sid k" if "gs_holds gs sid k \<or> (\<exists>x\<in>set a. has_event x sid k)"
    using gs_step_conserves [OF gs_run_inv [OF Further.hyps(1) Further.prems(1)] Further.hyps(2)] that
    unfolding gs_conserves_def mem_Collect_eq prod.case by blast
  show ?case
  proof (cases "gs_holds gs sid k \<or> (\<exists>x\<in>set a. has_event x sid k)")
    case True
    show ?thesis
    proof (cases "gs_holds gs' sid k")
      case gone: False
      with step [OF True] Further.hyps gs_run.Stay [of gs'] show ?thesis by (intro disjI2) (metis append_Nil2)
    qed simp
  next
    case False
    then have old: "gs_holds gs0 sid k \<or> (\<exists>c\<in>set arrived. has_event c sid k)" using Further.prems(2) by auto
    from False Further.IH [OF Further.prems(1) old] obtain a1 c1 gs1 a2 c2 gs2 a3 c3 where
      *: "gs_run gs0 a1 c1 gs1" "gs_step gs1 a2 c2 gs2" "gs_run gs2 a3 c3 gs" "arrived = a1 @ a2 @ a3" "calls = c1 @ c2 @ c3"
        "\<not> gs_holds gs2 sid k" "let_go gs1 c2 sid k" by blast
    from gs_run.Further [OF *(3) Further.hyps(2)] have "gs_run gs2 (a3 @ a) (c3 @ c) gs'" .
    with *(1,2,6,7) show ?thesis unfolding *(4,5) append_assoc by blast
  qed
qed

section \<open>Scripts\<close>

text \<open>Moves that are computed: a script is a run.\<close>

datatype gs_move =
  ChunkArrives StoryChunk | ChunkLookedUp nat | ChunkPlaced nat | ChunkOrphaned nat | StoryStarts cpp_string cpp_string StoryId u64
| StoryStops u64 StoryId | OrphansTaken | OrphanAdopted nat | PipelinesCollect | PipelinesDecay u64 | PipelinesRetire u64 | WindowsStashed nat
| StoryDestroyed int StoryId cpp_string cpp_string | TaskEnqueued nat | TaskTaken | FilesDeleted delete_reply bool
| WindowEjected | WindowWritten extract_replies nat | CollectionStarts

fun perform :: "gs_move \<Rightarrow> GrapherDataStore \<Rightarrow> (StoryChunk list \<times> grapher_call list \<times> GrapherDataStore) option" where
  "perform (ChunkArrives c) gs = (if chunk_ok c then Some ([c], [], gs\<lparr>gs_inHand := gs_inHand gs @ [c]\<rparr>) else None)"
| "perform (ChunkLookedUp i) gs =
     (if i < length (gs_inHand gs)
      then map_option (\<lambda>n. ([], [], gs\<lparr>gs_placing := gs_placing gs @ [(n, gs_inHand gs ! i)], gs_inHand := remove_nth i (gs_inHand gs)\<rparr>))
             (find_handle (gs_inHand gs ! i) gs)
      else None)"
| "perform (ChunkPlaced i) gs =
     (if i < length (gs_placing gs)
      then (case gs_placing gs ! i of
              (n, c) \<Rightarrow> map_option (\<lambda>gs'. ([], [], gs')) (push_chunk n c (gs\<lparr>gs_placing := remove_nth i (gs_placing gs)\<rparr>)))
      else None)"
| "perform (ChunkOrphaned i) gs =
     (if i < length (gs_inHand gs)
      then Some ([], [], gs\<lparr>gs_orphans := gs_orphans gs @ [gs_inHand gs ! i], gs_inHand := remove_nth i (gs_inHand gs)\<rparr>) else None)"
| "perform (StoryStarts chronicle story sid t) gs =
     (if time_ok t \<and> gs_latestIncarnation gs \<noteq> - 1
      then map_option (\<lambda>(r, active, gs', calls). ([], calls, gs')) (gs_startStoryRecording chronicle story sid t False gs) else None)"
| "perform (StoryStops now sid) gs = Some ([], [], snd (gs_stopStoryRecording now sid gs))"
| "perform OrphansTaken gs = (case extractOrphanChunks gs of (cs, gs1) \<Rightarrow> Some ([], [], gs1\<lparr>gs_inHand := gs_inHand gs1 @ cs\<rparr>))"
| "perform (OrphanAdopted i) gs =
     (if i < length (gs_inHand gs) \<and> gs_latestIncarnation gs \<noteq> - 1
      then map_option (\<lambda>(taken, active, gs1, calls). ([], calls, if taken then gs1 else gs1\<lparr>gs_inHand := remove_nth i (gs_inHand gs1)\<rparr>))
             (adopt_chunk (gs_inHand gs ! i) gs)
      else None)"
| "perform PipelinesCollect gs = map_option (\<lambda>(gs', calls). ([], calls, gs')) (gs_collect_pipelines gs)"
| "perform (PipelinesDecay now) gs =
     (if time_ok now then map_option (\<lambda>(gs', calls). ([], calls, gs')) (gs_extractDecayedStoryChunks now gs) else None)"
| "perform (PipelinesRetire now) gs = map_option (\<lambda>(gs', calls). ([], calls, gs')) (gs_retire_hold now gs)"
| "perform (WindowsStashed i) gs = map_option (\<lambda>gs'. ([], [], gs')) (stash_retired i gs)"
| "perform (StoryDestroyed now sid chronicle story) gs =
     map_option (\<lambda>(task, gs', calls). ([], calls, add_task task gs')) (unhook_story now sid chronicle story gs)"
| "perform (TaskEnqueued i) gs =
     (if i < length (gs_tasks gs)
      then Some ([], [], enqueueDestroyTask (gs_tasks gs ! i) (gs\<lparr>gs_tasks := remove_nth i (gs_tasks gs)\<rparr>)) else None)"
| "perform TaskTaken gs = map_option (\<lambda>gs'. ([], [], gs')) (worker_take gs)"
| "perform (FilesDeleted reply recorded) gs = map_option (\<lambda>(gs', calls). ([], calls, gs')) (worker_delete reply recorded gs)"
| "perform WindowEjected gs = map_option (\<lambda>gs'. ([], [], gs')) (gs_ejectStoryChunk gs)"
| "perform (WindowWritten x i) gs = map_option (\<lambda>(gs', calls). ([], calls, gs')) (extract_chunk x i gs)"
| "perform CollectionStarts gs = Some ([], [], gs_startDataCollection gs)"

fun follow :: "gs_move list \<Rightarrow> GrapherDataStore \<Rightarrow> (StoryChunk list \<times> grapher_call list \<times> GrapherDataStore) option" where
  "follow [] gs = Some ([], [], gs)"
| "follow (m # ms) gs =
     (case perform m gs of
        None \<Rightarrow> None
      | Some (a, c, gs1) \<Rightarrow> map_option (\<lambda>(a', c', gs'). (a @ a', c @ c', gs')) (follow ms gs1))"

lemma perform_step: "perform m gs = Some (a, c, gs') \<Longrightarrow> gs_step gs a c gs'"
proof (cases m)
  case (StoryStops now sid)
  moreover assume "perform m gs = Some (a, c, gs')"
  ultimately show ?thesis using gs_step.Stop [of now sid gs "fst (gs_stopStoryRecording now sid gs)" gs'] by (simp add: prod_eq_iff)
next
  case (OrphanAdopted i)
  moreover assume "perform m gs = Some (a, c, gs')"
  ultimately show ?thesis using gs_step.Adopt [of i gs] by (auto split: if_splits simp del: if_split)
qed (auto intro: gs_step.intros split: if_splits prod.splits)

lemma gs_run_trans: "gs_run gs1 a2 c2 gs2 \<Longrightarrow> gs_run gs a1 c1 gs1 \<Longrightarrow> gs_run gs (a1 @ a2) (c1 @ c2) gs2"
proof (induction rule: gs_run.induct)
  case (Further gs1 a2 c2 gs2 a c gs')
  from gs_run.Further [OF Further.IH [OF Further.prems] Further.hyps(2)] show ?case by simp
qed simp

lemma follow_run: "follow ms gs = Some (a, c, gs') \<Longrightarrow> gs_run gs a c gs'"
proof (induction ms arbitrary: gs a c)
  case Nil
  then show ?case by (auto intro: gs_run.Stay)
next
  case (Cons m ms)
  from Cons.prems obtain a1 c1 gs1 a2 c2 where m: "perform m gs = Some (a1, c1, gs1)" "follow ms gs1 = Some (a2, c2, gs')" "a = a1 @ a2" "c = c1 @ c2"
    by (auto split: option.splits)
  have "gs_run gs a1 c1 gs1" using gs_run.Further [OF gs_run.Stay perform_step [OF m(1)]] by simp
  with gs_run_trans [OF Cons.IH [OF m(2)]] show ?case by (simp add: m(3,4))
qed

lemma follow_check:
  "(case follow ms gs0 of None \<Rightarrow> False | Some (a, c, gs) \<Rightarrow> P a c gs) \<Longrightarrow> \<exists>a c gs. gs_run gs0 a c gs \<and> P a c gs"
  by (auto dest: follow_run split: option.splits)

text \<open>Equations that compute: the bound on the clock as a word, and the first name of a file without the bound on its number.\<close>

lemma time_ok_code [code]: "time_ok t = (t < 4611686018427387904)"
  by (simp add: time_ok_def word_less_nat_alt)

lemma publishFile_code [code]:
  "publishFile w taken base n =
     (if n = 0
      then if taken base then publishFile w taken base 1
           else (case link_replies w base of LinkStands \<Rightarrow> Some base | LinkUnsupported \<Rightarrow> publishByRename w taken base 0 | LinkFails \<Rightarrow> None)
      else if kMaxFilesPerWindow \<le> n then None
      else if taken (numberedFileName base n) then publishFile w taken base (Suc n)
      else (case link_replies w (numberedFileName base n) of
              LinkStands \<Rightarrow> Some (numberedFileName base n) | LinkUnsupported \<Rightarrow> publishByRename w taken base 0 | LinkFails \<Rightarrow> None))"
  by (subst publishFile.simps, cases "n = 0") (simp_all add: Let_def kMaxFilesPerWindow_def numberedFileName_def [of base 0])

declare append_loop.simps [code] prepend_loop.simps [code] extractDecayedStoryChunks.simps [code]

text \<open>A store with an empty archive and a chunk with one event.\<close>

definition demo_store :: GrapherDataStore where
  "demo_store = new_GrapherDataStore 1 1 0 True True
     \<lparr>ar_group = 1, ar_start = 5, ar_sequence = 0, ar_registry = True, ar_manifest = False, ar_files = []\<rparr>"

definition demo_chunk :: StoryChunk where
  "demo_chunk = (new_StoryChunk [67] [83] 7 0 10)
     \<lparr>logEvents := [((5, 1, 0), \<lparr>evStoryId = 7, eventTime = 5, clientId = 1, eventIndex = 0, logRecord = [65]\<rparr>)]\<rparr>"

definition demo_replies :: extract_replies where
  "demo_replies =
     \<lparr>write_of = \<lparr>directory_made = True, data_written = Some 1, file_synced = True, link_replies = (\<lambda>_. LinkStands),
        check_works = (\<lambda>_. True), rename_works = (\<lambda>_. True), directory_synced = True, parents_synced = True,
        window_removed = True, written_at = 0\<rparr>,
      failed_before = False, record_appended = True, unrecorded_removed = True, failed_after = False\<rparr>"

lemma demo_config: "config_ok demo_store"
  by (simp add: config_ok_def demo_store_def new_GrapherDataStore_def duration_ok_def archive_ok_def)

lemma new_grapher_inv:
  assumes "gs0 = new_GrapherDataStore duration window delay chain True ar" "config_ok gs0"
  shows "gs_inv gs0"
  using assms(2) unfolding gs_inv_def by (auto simp: assms(1) new_GrapherDataStore_def arriving_def transit_def task_windows_def omap_ok_def)

section \<open>The operations are runs\<close>

lemma one_step: "gs_step gs a c gs' \<Longrightarrow> gs_run gs a c gs'"
  using gs_run.Further [OF gs_run.Stay] by fastforce

lemma run_then: "gs_run gs [] c1 gs1 \<Longrightarrow> gs_run gs1 [] c2 gs2 \<Longrightarrow> gs_run gs [] (c1 @ c2) gs2"
  using gs_run_trans by fastforce

lemma remove_nth_mid: "remove_nth (length h) (h @ c # cs) = h @ cs"
  by (simp add: remove_nth_def)

lemma task_run: "gs_run (add_task task gs) [] [] (enqueueDestroyTask task gs)"
proof -
  have "gs_tasks (add_task task gs) = gs_tasks gs @ [task]" by (simp add: add_task_def)
  then show ?thesis using one_step [OF gs_step.Enqueue [of "length (gs_tasks gs)" "add_task task gs"]]
    by (simp add: remove_nth_mid [of _ _ "[]", simplified] add_task_def enqueueDestroyTask_def)
qed

lemma destroy_run:
  "destroyStory now sid chronicle story gs = Some (r, gs', calls) \<Longrightarrow> gs_run gs [] calls gs'"
  "destroyChronicle now chronicle gs = Some (r, gs', calls) \<Longrightarrow> gs_run gs [] calls gs'"
  using run_then [OF one_step task_run] gs_step.UnhookStory gs_step.UnhookChronicle
  by (fastforce simp: destroyStory_def destroyChronicle_def)+

lemma retire_run: "gs_retireDecayedPipelines now gs = Some (gs', calls) \<Longrightarrow> gs_run gs [] calls gs'"
  using run_then [OF one_step one_step] gs_step.RetireHold gs_step.StashRetired
  by (fastforce simp: gs_retireDecayedPipelines_def Option.bind_eq_Some_conv)

text \<open>Chunks in a thread's hands do not matter for starting a story.\<close>

lemma start_hand:
  "gs_startStoryRecording chronicle story sid t adoption (gs\<lparr>gs_inHand := h\<rparr>) =
     map_option (\<lambda>(r, active, gs', calls). (r, active, gs'\<lparr>gs_inHand := h\<rparr>, calls)) (gs_startStoryRecording chronicle story sid t adoption gs)"
proof (cases "adoption \<and> tombstoned sid chronicle gs")
  case True
  then show ?thesis by (simp add: gs_startStoryRecording_def tombstoned_def)
next
  case False
  let ?gsh = "gs\<lparr>gs_inHand := h\<rparr>"
  have f: "tombstoned sid chronicle ?gsh = tombstoned sid chronicle gs" by (simp add: tombstoned_def)
  have l: "lifted adoption sid chronicle ?gsh = lifted adoption sid chronicle gs\<lparr>gs_inHand := h\<rparr>" by (simp add: lifted_def)
  show ?thesis
    unfolding gs_startStoryRecording_def f if_not_P [OF False] lifted_def [symmetric] l Let_def
    by (cases "gs_pipe gs sid";
        cases "new_StoryPipeline (gs_latestIncarnation gs) chronicle story sid t (gs_chunk_duration_secs gs) (gs_acceptance_window_secs gs)")
      (simp_all add: attach_def gs_addHandle_def on_registry_def split_beta)
qed

lemma adopt_hand:
  "adopt_chunk c (gs\<lparr>gs_inHand := h\<rparr>) =
     map_option (\<lambda>(taken, active, gs', calls). (taken, active, gs'\<lparr>gs_inHand := h\<rparr>, calls)) (adopt_chunk c gs)"
proof (cases "gs_startStoryRecording (chronicleName c) (storyName c) (chunkStoryId c) (startTime c) True gs")
  case (Some x)
  then show ?thesis by (cases x) (simp add: adopt_chunk_def start_hand on_registry_def)
qed (simp add: adopt_chunk_def start_hand)

lemma stop_hand: "snd (gs_stopStoryRecording now sid (gs\<lparr>gs_inHand := h\<rparr>)) = snd (gs_stopStoryRecording now sid gs)\<lparr>gs_inHand := h\<rparr>"
  by (simp add: gs_stopStoryRecording_def split: option.split)

lemma start_latest:
  assumes "gs_startStoryRecording chronicle story sid t adoption gs = Some (r, active, gs', calls)"
  shows "unat (gs_latestIncarnation gs') \<le> unat (gs_latestIncarnation gs) + 1"
  using assms
proof (cases rule: start_cases)
  case (made n pl)
  have "n = gs_latestIncarnation gs + 1" using made(4) by (auto simp: new_StoryPipeline_def Let_def split: if_splits)
  then show ?thesis by (simp add: made(5) gs_addHandle_def unat_word_ariths)
qed simp_all

lemma adopt_latest: "adopt_chunk c gs = Some (taken, active, gs', calls) \<Longrightarrow> unat (gs_latestIncarnation gs') \<le> unat (gs_latestIncarnation gs) + 1"
  by (auto simp: adopt_chunk_def dest!: start_latest split: if_splits)

lemma ingest_latest: "ingestStoryChunk c gs = Some gs' \<Longrightarrow> gs_latestIncarnation gs' = gs_latestIncarnation gs"
  by (auto simp: ingestStoryChunk_def push_chunk_def split: option.splits if_splits)

lemma ingest_run:
  assumes "ingestStoryChunk c gs = Some gs'"
  shows "gs_run (gs\<lparr>gs_inHand := h @ c # cs\<rparr>) [] [] (gs'\<lparr>gs_inHand := h @ cs\<rparr>)"
proof (cases "find_handle c gs")
  case None
  then have gs': "gs' = gs\<lparr>gs_orphans := gs_orphans gs @ [c]\<rparr>" using assms by (simp add: ingestStoryChunk_def)
  from one_step [OF gs_step.PushOrphan [of "length h" "gs\<lparr>gs_inHand := h @ c # cs\<rparr>"]] show ?thesis
    by (simp add: gs' remove_nth_mid)
next
  case (Some n)
  let ?gs1 = "gs\<lparr>gs_placing := gs_placing gs @ [(n, c)], gs_inHand := h @ cs\<rparr>"
  have "gs_run (gs\<lparr>gs_inHand := h @ c # cs\<rparr>) [] [] ?gs1"
    using one_step [OF gs_step.LookUp [of "length h" "gs\<lparr>gs_inHand := h @ c # cs\<rparr>" n]] Some
    by (simp add: remove_nth_mid find_handle_def)
  moreover have "push_chunk n c (gs\<lparr>gs_inHand := h @ cs\<rparr>) = Some (gs'\<lparr>gs_inHand := h @ cs\<rparr>)"
    using assms Some by (auto simp: ingestStoryChunk_def push_chunk_def split: option.splits if_splits)
  then have "gs_run ?gs1 [] [] (gs'\<lparr>gs_inHand := h @ cs\<rparr>)"
    by (intro one_step gs_step.Place [of "length (gs_placing gs)" _ n c]) (simp_all add: remove_nth_mid [of _ _ "[]", simplified])
  ultimately show ?thesis using run_then by fastforce
qed

lemma adopt_chunks_run:
  "adopt_chunks cs adopted active gs = Some (adopted', active', gs', calls) \<Longrightarrow> unat (gs_latestIncarnation gs) + length cs < 2 ^ 64 \<Longrightarrow>
   gs_run (gs\<lparr>gs_inHand := h @ cs\<rparr>) [] calls (gs'\<lparr>gs_inHand := h\<rparr>)"
proof (induction cs arbitrary: adopted active gs calls)
  case Nil
  then show ?case by (auto intro: gs_run.Stay)
next
  case (Cons c cs)
  from Cons.prems(1) obtain taken act gs1 calls1 where ad: "adopt_chunk c gs = Some (taken, act, gs1, calls1)"
    by (auto split: option.splits)
  let ?S = "gs\<lparr>gs_inHand := h @ c # cs\<rparr>"
  have room: "gs_latestIncarnation gs \<noteq> - 1" using Cons.prems(2) by (auto simp: unsigned_minus_1_eq_mask mask_eq_exp_minus_1)
  have adS: "adopt_chunk (gs_inHand ?S ! length h) ?S = Some (taken, act, gs1\<lparr>gs_inHand := h @ c # cs\<rparr>, calls1)"
    using ad by (simp add: adopt_hand)
  have step: "gs_run ?S [] calls1 (if taken then gs1\<lparr>gs_inHand := h @ c # cs\<rparr> else gs1\<lparr>gs_inHand := h @ cs\<rparr>)"
    using one_step [OF gs_step.Adopt [OF _ adS]] room by (cases taken) (simp_all add: remove_nth_mid)
  show ?case
  proof (cases taken)
    case False
    with Cons.prems(1) ad obtain calls2 where
      rest: "adopt_chunks cs adopted active gs1 = Some (adopted', active', gs', calls2)" "calls = calls1 @ calls2" by auto
    have "unat (gs_latestIncarnation gs1) + length cs < 2 ^ 64" using adopt_latest [OF ad] Cons.prems(2) by simp
    from run_then [OF step [unfolded if_not_P [OF False]] Cons.IH [OF rest(1) this]] rest(2) show ?thesis by simp
  next
    case True
    with Cons.prems(1) ad obtain gs2 calls2 adopted2 active2 where gs2: "ingestStoryChunk c gs1 = Some gs2"
      and rest: "adopt_chunks cs adopted2 active2 gs2 = Some (adopted', active', gs', calls2)" "calls = calls1 @ calls2"
      by (auto simp: Option.bind_eq_Some_conv)
    have "unat (gs_latestIncarnation gs2) + length cs < 2 ^ 64" using adopt_latest [OF ad] ingest_latest [OF gs2] Cons.prems(2) by simp
    from run_then [OF run_then [OF step [unfolded if_P [OF True]] ingest_run [OF gs2]] Cons.IH [OF rest(1) this]] rest(2) show ?thesis by simp
  qed
qed

lemma stops_run: "gs_run gs [] [] (fold (\<lambda>sid g. snd (gs_stopStoryRecording now sid g)) sids gs)"
proof (induction sids arbitrary: gs)
  case (Cons sid sids)
  have "gs_run gs [] [] (snd (gs_stopStoryRecording now sid gs))" by (rule one_step, rule gs_step.Stop) (rule prod.collapse [symmetric])
  from run_then [OF this Cons.IH] show ?case by simp
qed (simp add: gs_run.Stay)

lemma adopt_chunks_hand: "adopt_chunks cs adopted active gs = Some (adopted', active', gs', calls) \<Longrightarrow> gs_inHand gs' = gs_inHand gs"
proof (induction cs arbitrary: adopted active gs calls)
  case (Cons c cs)
  from Cons.prems obtain taken act gs1 calls1 where ad: "adopt_chunk c gs = Some (taken, act, gs1, calls1)"
    by (auto split: option.splits)
  have "gs1 = gs1\<lparr>gs_inHand := gs_inHand gs\<rparr>" using adopt_hand [where gs = gs and c = c and h = "gs_inHand gs"] ad by simp
  then have h: "gs_inHand gs1 = gs_inHand gs" by (metis GrapherDataStore.select_convs(19) GrapherDataStore.surjective GrapherDataStore.update_convs(19))
  have "gs_inHand gs2 = gs_inHand gs1" if "ingestStoryChunk c gs1 = Some gs2" for gs2
    using that by (auto simp: ingestStoryChunk_def push_chunk_def split: option.splits if_splits)
  with Cons.prems ad h Cons.IH show ?case by (fastforce simp: Option.bind_eq_Some_conv split: if_splits)
qed simp

lemma adoptOrphans_run:
  assumes "adoptOrphanChunks now gs = Some (gs', calls)" "unat (gs_latestIncarnation gs) + length (gs_orphans gs) < 2 ^ 64"
  shows "gs_run gs [] calls gs'"
proof (cases "gs_orphans gs = []")
  case True
  then have "gs' = gs\<lparr>gs_orphans := []\<rparr>" "calls = []" using assms(1) by (simp_all add: adoptOrphanChunks_def extractOrphanChunks_def)
  moreover have "gs\<lparr>gs_orphans := []\<rparr> = gs" using True by (cases gs) simp
  ultimately show ?thesis using gs_run.Stay [of gs] by simp
next
  case False
  let ?gs1 = "gs\<lparr>gs_orphans := []\<rparr>"
  from assms(1) False obtain adopted active gs2 where ad: "adopt_chunks (gs_orphans gs) [] [] ?gs1 = Some (adopted, active, gs2, calls)"
    and gs': "gs' = fold (\<lambda>sid g. snd (gs_stopStoryRecording now sid g)) (filter (\<lambda>s. s \<notin> set active) adopted) gs2"
    by (auto simp: adoptOrphanChunks_def extractOrphanChunks_def)
  have "gs_run gs [] [] (?gs1\<lparr>gs_inHand := gs_inHand gs @ gs_orphans gs\<rparr>)"
    using one_step [OF gs_step.AdoptTake [OF extractOrphanChunks_def]] by simp
  moreover have "gs_run (?gs1\<lparr>gs_inHand := gs_inHand gs @ gs_orphans gs\<rparr>) [] calls (gs2\<lparr>gs_inHand := gs_inHand gs\<rparr>)"
    by (rule adopt_chunks_run [OF ad]) (use assms(2) in simp)
  moreover have "gs2\<lparr>gs_inHand := gs_inHand gs\<rparr> = gs2" using adopt_chunks_hand [OF ad] by simp
  ultimately show ?thesis using run_then run_then [OF _ stops_run] unfolding gs' by (metis append_Nil append_Nil2)
qed

lemma drain_chunks_orphans: "drain_chunks cs gs = Some gs' \<Longrightarrow> length (gs_orphans gs') \<le> length (gs_orphans gs) + length cs"
proof (induction cs arbitrary: gs)
  case (Cons c cs)
  from Cons.prems obtain gs1 where gs1: "ingestStoryChunk c gs = Some gs1" "drain_chunks cs gs1 = Some gs'"
    by (auto simp: Option.bind_eq_Some_conv)
  have "length (gs_orphans gs1) \<le> length (gs_orphans gs) + 1"
    using gs1(1) by (auto simp: ingestStoryChunk_def push_chunk_def split: option.splits if_splits)
  with Cons.IH [OF gs1(2)] show ?case by simp
qed simp

text \<open>No operation of a round but the adoption makes pipelines or orphans.\<close>

definition orphan_room :: "GrapherDataStore \<Rightarrow> nat" where
  "orphan_room gs = unat (gs_latestIncarnation gs) + length (gs_orphans gs)"

lemma drain_room: "drainOrphanChunks gs = Some gs' \<Longrightarrow> orphan_room gs' \<le> orphan_room gs"
proof -
  assume ret: "drainOrphanChunks gs = Some gs'"
  from drain_frame [OF ret] have "gs_latestIncarnation gs' = gs_latestIncarnation gs" by (cases gs; cases gs') simp
  moreover have "length (gs_orphans gs') \<le> length (gs_orphans gs)"
    using ret drain_chunks_orphans [of "gs_orphans gs" "gs\<lparr>gs_orphans := []\<rparr>" gs'] by (auto simp: drainOrphanChunks_def split: if_splits)
  ultimately show ?thesis by (simp add: orphan_room_def)
qed

lemma on_pipes_room: "on_pipes f gs = Some (gs', out, calls) \<Longrightarrow> orphan_room gs' = orphan_room gs"
  by (auto simp: on_pipes_def orphan_room_def)

lemma retire_pipes_room: "retire_pipes now entries gs = Some (gs', out, calls) \<Longrightarrow> orphan_room gs' = orphan_room gs"
proof (induction entries arbitrary: gs out calls)
  case (Cons entry entries)
  from Cons.prems obtain gs1 out1 calls1 out2 calls2 where
    *: "retire_pipe now entry gs = Some (gs1, out1, calls1)" "retire_pipes now entries gs1 = Some (gs', out2, calls2)"
    by (auto split: option.splits)
  have "orphan_room gs1 = orphan_room gs"
    using *(1) by (auto simp: retire_pipe_def gs_removeHandle_def orphan_room_def split: if_splits option.splits)
  with Cons.IH [OF *(2)] show ?case by simp
qed simp

lemma retire_room: "gs_retireDecayedPipelines now gs = Some (gs', calls) \<Longrightarrow> orphan_room gs' = orphan_room gs"
proof -
  assume "gs_retireDecayedPipelines now gs = Some (gs', calls)"
  then obtain gs1 where h: "gs_retire_hold now gs = Some (gs1, calls)" and "stash_retired (length (gs_retired gs)) gs1 = Some gs'"
    by (auto simp: gs_retireDecayedPipelines_def Option.bind_eq_Some_conv)
  then have "orphan_room gs' = orphan_room gs1" by (auto simp: stash_retired_def orphan_room_def split: if_splits)
  moreover from h obtain gs2 out where "orphan_room gs1 = orphan_room gs2"
    "(if gs_pipelines gs = [] then Some (gs, [], []) else retire_pipes now (gs_waiting gs) gs) = Some (gs2, out, calls)"
    by (auto simp: gs_retire_hold_def orphan_room_def)
  ultimately show ?thesis using retire_pipes_room by (auto split: if_splits)
qed

text \<open>
  A round of the data collection task, composed of its operations as the code composes them, is a run of the step relation with
  the same calls, as long as the numbers of pipelines do not wrap: what holds of all runs holds of the rounds.
\<close>

lemma collection_round_is_run:
  assumes round: "gs_collection_round t1 t2 t3 gs = Some (gs', calls)" and t: "time_ok t1"
    and room: "unat (gs_latestIncarnation gs) + length (gs_orphans gs) < 2 ^ 64"
  shows "gs_run gs [] calls gs'"
proof -
  from round obtain gs0 gs1 c1 gs2 c2 gs3 c3 c4 where
    *: "drainOrphanChunks gs = Some gs0" "gs_collect_pipelines gs0 = Some (gs1, c1)" "gs_extractDecayedStoryChunks t1 gs1 = Some (gs2, c2)"
      "gs_retireDecayedPipelines t2 gs2 = Some (gs3, c3)" "adoptOrphanChunks t3 gs3 = Some (gs', c4)" "calls = c1 @ c2 @ c3 @ c4"
    by (auto simp: gs_collection_round_def gs_collectIngestedEvents_def Option.bind_eq_Some_conv)
  have "orphan_room gs1 = orphan_room gs0" using *(2) on_pipes_room by (auto simp: gs_collect_pipelines_def)
  moreover have "orphan_room gs2 = orphan_room gs1"
    using *(3) on_pipes_room by (fastforce simp: gs_extractDecayedStoryChunks_def orphan_room_def)
  ultimately have "orphan_room gs3 < 2 ^ 64"
    using drain_room [OF *(1)] retire_room [OF *(4)] room by (simp add: orphan_room_def [of gs])
  then have "gs_run gs3 [] c4 gs'" using adoptOrphans_run [OF *(5)] by (simp add: orphan_room_def)
  from run_then [OF retire_run [OF *(4)] this] have "gs_run gs2 [] (c3 @ c4) gs'" .
  from run_then [OF one_step [OF gs_step.Decay [OF *(3) t]] this] have "gs_run gs1 [] (c2 @ c3 @ c4) gs'" .
  from run_then [OF one_step [OF gs_step.Collect [OF *(2)]] this] have "gs_run gs0 [] calls gs'" by (simp add: *(6))
  from run_then [OF one_step [OF gs_step.Drain [OF *(1)]] this] show ?thesis by simp
qed

end
