(* ===== verification/GrapherDestroy.thy ===== *)
theory GrapherDestroy
  imports GrapherRuns
begin

text \<open>
  What becomes of events and of destroyed stories: where the pipelines and windows of a run come from, that an event is held or was let
  go of by a step that reported it for a destroy that was requested, the tombstones, and that no window and no file a destroy takes is left
  when the destroy worker is done.
\<close>

section \<open>Where pipelines and windows come from\<close>

definition keeps_pipes :: "GrapherDataStore \<Rightarrow> GrapherDataStore \<Rightarrow> bool" where
  "keeps_pipes gs gs' \<longleftrightarrow> (\<forall>sid pl'. gs_pipe gs' sid = Some pl' \<longrightarrow> (\<exists>pl. gs_pipe gs sid = Some pl \<and> same_pipe pl pl'))"

definition made_by :: "GrapherDataStore \<Rightarrow> StoryChunk \<Rightarrow> bool" where
  "made_by gs c \<longleftrightarrow> (\<exists>sid pl. gs_pipe gs sid = Some pl \<and> window_tag pl c)"

definition control where
  "control gs = (gs_latestIncarnation gs, gs_destroyedStories gs, gs_destroyedChronicles gs, gs_tasks gs, gs_destroyQueue gs,
     gs_worker gs, gs_state gs, gs_workerShouldExit gs, gs_extractionChain gs)"

text \<open>The windows that are queued or in process, and the files, each with the process that judges who wrote it.\<close>

datatype way_item = Window StoryChunk | FileOf Archive archive_file

definition writer_of :: "Archive \<Rightarrow> Archive" where
  "writer_of ar = ar\<lparr>ar_sequence := 0, ar_files := []\<rparr>"

definition on_the_way :: "GrapherDataStore \<Rightarrow> way_item set" where
  "on_the_way gs = Window ` (set (gs_queue gs) \<union> set (gs_inProcess gs)) \<union>
     FileOf (writer_of (gs_archive gs)) ` set (ar_files (gs_archive gs))"

text \<open>An item that holds a window: the window itself, or the file this process wrote of it.\<close>

fun stems :: "way_item \<Rightarrow> StoryChunk \<Rightarrow> bool" where
  "stems (Window c) d \<longleftrightarrow> d = c"
| "stems (FileOf ar f) d \<longleftrightarrow> d = af_window f \<and> file_of ar f"

lemma writer_of_same: "same_writer ar ar' \<Longrightarrow> writer_of ar' = writer_of ar"
  by (cases ar; cases ar') (simp add: same_writer_def writer_of_def)

lemma writer_of_judges [simp]: "file_of (writer_of ar) = file_of ar" "destroy_takes (writer_of ar) = destroy_takes ar"
  by (simp_all add: writer_of_def file_of_def destroy_takes_def fun_eq_iff)

text \<open>A step that starts and destroys nothing: its windows are old ones or come from a pipeline.\<close>

definition plain :: "GrapherDataStore \<Rightarrow> GrapherDataStore \<Rightarrow> bool" where
  "plain gs gs' \<longleftrightarrow> control gs' = control gs \<and> keeps_pipes gs gs' \<and>
     (\<forall>c\<in>set (concat (gs_retired gs')). c \<in> set (concat (gs_retired gs)) \<or> made_by gs c) \<and>
     (\<forall>x\<in>on_the_way gs'. x \<in> on_the_way gs \<or>
        (\<exists>c. stems x c \<and> (Window c \<in> on_the_way gs \<or> c \<in> set (concat (gs_retired gs)) \<or> made_by gs c)))"

lemma keeps_pipes_refl: "gs_pipelines gs' = gs_pipelines gs \<Longrightarrow> keeps_pipes gs gs'"
  by (simp add: keeps_pipes_def same_pipe_def)

lemma keeps_pipes_trans: "keeps_pipes gs gs1 \<Longrightarrow> keeps_pipes gs1 gs2 \<Longrightarrow> keeps_pipes gs gs2"
  unfolding keeps_pipes_def same_pipe_def by metis

lemma keeps_pipes_made: "keeps_pipes gs gs' \<Longrightarrow> made_by gs' c \<Longrightarrow> made_by gs c"
  unfolding keeps_pipes_def made_by_def using same_pipe_tag by metis

lemma keeps_pipes_filter: "gs_inv gs \<Longrightarrow> gs_pipelines gs' = filter P (gs_pipelines gs) \<Longrightarrow> keeps_pipes gs gs'"
  unfolding keeps_pipes_def using gs_pipe_mem map_of_SomeD same_pipe_def by (metis filter_is_subset subsetD)

lemma plainI:
  assumes "control gs' = control gs" "keeps_pipes gs gs'" "gs_retired gs' = gs_retired gs" "on_the_way gs' \<subseteq> on_the_way gs"
  shows "plain gs gs'"
  using assms unfolding plain_def by auto

lemma push_keeps: "push_chunk n c gs = Some gs' \<Longrightarrow>
  keeps_pipes gs gs' \<and> gs'\<lparr>gs_pipelines := []\<rparr> = gs\<lparr>gs_pipelines := []\<rparr>"
  by (auto simp: push_chunk_def keeps_pipes_def same_pipe_def omap_simps ingestChunk_def split: option.splits if_splits)

lemma drain_chunks_keeps: "drain_chunks cs gs = Some gs' \<Longrightarrow> keeps_pipes gs gs'"
proof (induction cs arbitrary: gs)
  case (Cons c cs)
  from Cons.prems obtain gs1 where gs1: "ingestStoryChunk c gs = Some gs1" "drain_chunks cs gs1 = Some gs'"
    by (auto simp: Option.bind_eq_Some_conv)
  have "keeps_pipes gs gs1"
    using gs1(1) push_keeps by (auto simp: ingestStoryChunk_def intro: keeps_pipes_refl split: option.splits)
  with Cons.IH [OF gs1(2)] show ?case by (rule keeps_pipes_trans [rotated])
qed (simp add: keeps_pipes_refl)

lemma drain_keeps: "drainOrphanChunks gs = Some gs' \<Longrightarrow> keeps_pipes gs gs'"
  using drain_chunks_keeps [of "gs_orphans gs" "gs\<lparr>gs_orphans := []\<rparr>" gs']
  by (auto simp: drainOrphanChunks_def keeps_pipes_def same_pipe_def split: if_splits)

lemma plain_frame:
  assumes "gs'\<lparr>gs_pipelines := [], gs_orphans := []\<rparr> = gs\<lparr>gs_pipelines := [], gs_orphans := []\<rparr>" "keeps_pipes gs gs'"
  shows "plain gs gs'" "control gs' = control gs" "gs_retired gs' = gs_retired gs" "on_the_way gs' = on_the_way gs"
    "gs_queue gs' = gs_queue gs" "gs_inProcess gs' = gs_inProcess gs" "gs_archive gs' = gs_archive gs"
proof -
  show *: "control gs' = control gs" "gs_retired gs' = gs_retired gs" "on_the_way gs' = on_the_way gs"
    "gs_queue gs' = gs_queue gs" "gs_inProcess gs' = gs_inProcess gs" "gs_archive gs' = gs_archive gs"
    using assms(1) by (cases gs; cases gs'; simp add: control_def on_the_way_def)+
  show "plain gs gs'" using assms(2) * by (intro plainI) simp_all
qed

lemma on_pipes_plain:
  assumes inv: "gs_inv gs" and ret: "on_pipes f gs = Some (gs1, out, calls)"
    and ok: "\<And>sid pl r. gs_pipe gs sid = Some pl \<Longrightarrow> f pl = Some r \<Longrightarrow> pipe_step_ok (gs_chunk_duration_secs gs) sid pl r"
  shows "plain gs (gs1\<lparr>gs_queue := gs_queue gs1 @ out\<rparr>)" "plain gs gs1"
proof -
  from ret obtain m' stash where m': "each_pipe f (gs_pipelines gs) = Some (m', stash, out, calls)"
    and gs1: "gs1 = gs\<lparr>gs_pipelines := m', gs_queue := gs_queue gs @ stash\<rparr>" by (auto simp: on_pipes_def)
  note facts = on_pipes_facts [OF inv m' ok]
  have k: "\<exists>pl. gs_pipe gs sid = Some pl \<and> same_pipe pl pl'" if "map_of m' sid = Some pl'" for sid pl'
    using facts(4) that by blast
  have m: "made_by gs c" if "c \<in> set out" for c using facts(5) that unfolding made_by_def by blast
  show "plain gs (gs1\<lparr>gs_queue := gs_queue gs1 @ out\<rparr>)" "plain gs gs1"
    using k m facts(1) by (auto simp: plain_def gs1 control_def keeps_pipes_def on_the_way_def)
qed

lemma retire_pipe_plain:
  assumes inv: "gs_inv (hold_out acc gs)" and ret: "retire_pipe now entry gs = Some (gs', out, calls)"
  shows "keeps_pipes gs gs' \<and> control gs' = control gs \<and> gs_retired gs' = gs_retired gs \<and> on_the_way gs' = on_the_way gs \<and>
    (\<forall>c\<in>set out. made_by gs c)"
proof (cases "now < snd entry")
  case True
  with ret show ?thesis by (auto simp: retire_pipe_def keeps_pipes_refl)
next
  case due: False
  let ?sid = "fst entry"
  from due ret obtain pl pl' stash where pl: "gs_pipe gs ?sid = Some pl" and fin: "pipe_finalize pl = Some (pl', stash, out, calls)"
    and gs': "gs' = gs_removeHandle (plStoryId pl)
      (gs\<lparr>gs_pipelines := omap_erase (plStoryId pl) (gs_pipelines gs), gs_waiting := omap_erase ?sid (gs_waiting gs), gs_queue := gs_queue gs @ stash\<rparr>)"
    by (auto simp: retire_pipe_def split: option.splits)
  have pl0: "gs_pipe (hold_out acc gs) ?sid = Some pl" using pl by (simp add: hold_out_def)
  note f = finalize_pipe(1,2) [OF inv pl0 fin]
  have "gs_pipe gs' = (\<lambda>k. if k = plStoryId pl then None else gs_pipe gs k)"
    by (auto simp: gs' gs_removeHandle_def omap_simps)
  then have "keeps_pipes gs gs'" by (auto simp: keeps_pipes_def same_pipe_def split: if_splits)
  moreover have "\<forall>c\<in>set out. made_by gs c" using f(2) pl unfolding made_by_def by blast
  ultimately show ?thesis using f(1) by (simp add: gs' gs_removeHandle_def control_def on_the_way_def)
qed

lemma retire_pipes_plain:
  "gs_inv (hold_out acc gs) \<Longrightarrow> retire_pipes now entries gs = Some (gs', out, calls) \<Longrightarrow>
   keeps_pipes gs gs' \<and> control gs' = control gs \<and> gs_retired gs' = gs_retired gs \<and> on_the_way gs' = on_the_way gs \<and>
    (\<forall>c\<in>set out. made_by gs c)"
proof (induction entries arbitrary: gs acc out calls)
  case Nil
  then show ?case by (auto simp: keeps_pipes_refl)
next
  case (Cons entry entries)
  from Cons.prems(2) obtain gs1 out1 calls1 out2 calls2 where
    *: "retire_pipe now entry gs = Some (gs1, out1, calls1)" "retire_pipes now entries gs1 = Some (gs', out2, calls2)"
      "out = out1 @ out2" by (auto split: option.splits)
  note one = retire_pipe_plain [OF Cons.prems(1) *(1)]
  note two = Cons.IH [OF gs_conserves_inv [OF retire_pipe_conserves [OF Cons.prems(1) *(1)]] *(2)]
  have "keeps_pipes gs gs'" using one two keeps_pipes_trans by blast
  moreover have "\<forall>c\<in>set out. made_by gs c" using one two keeps_pipes_made [of gs gs1] *(3) by auto
  ultimately show ?case using one two by simp
qed

lemma retire_plain:
  assumes inv: "gs_inv gs" and ret: "gs_retire_hold now gs = Some (gs', calls)"
  shows "plain gs gs'"
proof -
  obtain gs1 out where *: "gs' = gs1\<lparr>gs_retired := gs_retired gs1 @ [out]\<rparr>"
    "(if gs_pipelines gs = [] then Some (gs, [], []) else retire_pipes now (gs_waiting gs) gs) = Some (gs1, out, calls)"
    using ret by (auto simp: gs_retire_hold_def)
  have inv0: "gs_inv (hold_out [] gs)" using inv by (simp add: hold_out_inv)
  have "keeps_pipes gs gs1 \<and> control gs1 = control gs \<and> gs_retired gs1 = gs_retired gs \<and> on_the_way gs1 = on_the_way gs \<and>
    (\<forall>c\<in>set out. made_by gs c)"
    using *(2) retire_pipes_plain [OF inv0] by (auto simp: keeps_pipes_refl split: if_splits)
  moreover have "keeps_pipes gs gs'" "control gs' = control gs1" "gs_retired gs' = gs_retired gs1 @ [out]" "on_the_way gs' = on_the_way gs1"
    using calculation by (simp_all add: *(1) keeps_pipes_def control_def on_the_way_def)
  ultimately show ?thesis by (auto simp: plain_def)
qed

lemma shutdown_finish_plain:
  assumes inv: "gs_inv gs" and ret: "gs_shutdown_finish gs = Some (gs', calls)"
  shows "plain gs gs'"
proof (cases "gs_pipelines gs = []")
  case True
  with ret show ?thesis by (auto simp: gs_shutdown_finish_def intro: plainI keeps_pipes_refl)
next
  case False
  with ret obtain m stash out where e: "each_pipe pipe_finalize (gs_pipelines gs) = Some (m, stash, out, calls)"
    and gs': "gs' = gs\<lparr>gs_pipelines := [], gs_waiting := [],
        gs_handles := filter (\<lambda>h. fst h \<notin> (plStoryId \<circ> snd) ` set (gs_pipelines gs)) (gs_handles gs),
        gs_queue := gs_queue gs @ stash @ out\<rparr>" by (auto simp: gs_shutdown_finish_def)
  note fe = finalize_each [OF inv, of "\<lambda>_. True", simplified, OF e]
  have "\<forall>c\<in>set out. made_by gs c" using fe(2) unfolding windows_for_def made_by_def by blast
  then show ?thesis using fe(1) by (auto simp: plain_def gs' control_def keeps_pipes_def on_the_way_def)
qed

lemma unhook_effect:
  assumes inv: "gs_inv gs0" and ret: "unhook hit looked_at report task gs0 = Some (task', gs', calls)" and fresh: "remainingChunks task = []"
  shows "keeps_pipes gs0 gs'" "\<forall>p\<in>set (gs_pipelines gs'). \<not> hit p" "control gs' = control gs0" "gs_retired gs' = gs_retired gs0"
    "on_the_way gs' = on_the_way gs0" "\<forall>c\<in>set (remainingChunks task'). made_by gs0 c"
    "task_chronicleName task' = task_chronicleName task" "task_story task' = task_story task" "task_scope task' = task_scope task"
proof -
  have "keeps_pipes gs0 gs' \<and> (\<forall>p\<in>set (gs_pipelines gs'). \<not> hit p) \<and> control gs' = control gs0 \<and> gs_retired gs' = gs_retired gs0 \<and>
    on_the_way gs' = on_the_way gs0 \<and> (\<forall>c\<in>set (remainingChunks task'). made_by gs0 c) \<and>
    task_chronicleName task' = task_chronicleName task \<and> task_story task' = task_story task \<and> task_scope task' = task_scope task"
  proof (cases "filter hit (gs_pipelines gs0) = []")
    case True
    then show ?thesis using ret fresh keeps_pipes_refl [of gs0 gs0] by (auto simp: unhook_def filter_empty_conv split: if_splits)
  next
    case False
    note ret' = ret [unfolded unhook_def if_not_P [OF False]]
    from ret' obtain gs where dr: "drainOrphanChunks gs0 = Some gs" by (cases "drainOrphanChunks gs0") (simp_all split: if_splits)
    from ret' dr obtain m1 st1 o1 c1 where
      col: "each_pipe pipe_collect (filter hit (gs_pipelines gs)) = Some (m1, st1, o1, c1)"
      by (cases "each_pipe pipe_collect (filter hit (gs_pipelines gs))") (auto split: if_splits)
    from ret' dr col obtain m2 st2 out c2 where fin: "each_pipe pipe_finalize m1 = Some (m2, st2, out, c2)"
      by (cases "each_pipe pipe_finalize m1") (auto split: if_splits)
    from ret' dr col fin have task': "task' = task\<lparr>task_pipelines := map snd m2, remainingChunks := out\<rparr>"
      and gs': "gs' = gs\<lparr>gs_pipelines := filter (\<lambda>p. \<not> hit p) (gs_pipelines gs), gs_waiting := filter (\<lambda>w. fst w \<notin> fst ` set m1) (gs_waiting gs),
          gs_handles := filter (\<lambda>h. fst h \<notin> fst ` set m1) (gs_handles gs), gs_queue := gs_queue gs @ st1 @ st2\<rparr>"
      by (simp_all split: if_splits)
    note inv1 = gs_conserves_inv [OF gs_drain_conserves [OF inv dr]]
    note k0 = drain_keeps [OF dr]
    note fr = plain_frame [OF drain_frame [OF dr] k0]
    note cf = collect_finalize_each [OF inv1 col fin]
    have "keeps_pipes gs gs'" by (rule keeps_pipes_filter [OF inv1, of _ "\<lambda>p. \<not> hit p"]) (simp add: gs')
    with k0 have "keeps_pipes gs0 gs'" by (rule keeps_pipes_trans)
    moreover have "made_by gs c" if "c \<in> set out" for c
      using cf(4) [OF that] gs_pipe_mem [OF inv1] unfolding made_by_def by (metis filter_is_subset prod.collapse subsetD)
    then have "\<forall>c\<in>set out. made_by gs0 c" using keeps_pipes_made [OF k0] by blast
    moreover have "control gs' = control gs" "gs_retired gs' = gs_retired gs" "on_the_way gs' = on_the_way gs" "\<forall>p\<in>set (gs_pipelines gs'). \<not> hit p"
      using cf(1,2) by (simp_all add: gs' control_def on_the_way_def)
    ultimately show ?thesis using fr by (simp add: task' task_story_def)
  qed
  then show "keeps_pipes gs0 gs'" "\<forall>p\<in>set (gs_pipelines gs'). \<not> hit p" "control gs' = control gs0" "gs_retired gs' = gs_retired gs0"
    "on_the_way gs' = on_the_way gs0" "\<forall>c\<in>set (remainingChunks task'). made_by gs0 c"
    "task_chronicleName task' = task_chronicleName task" "task_story task' = task_story task" "task_scope task' = task_scope task" by blast+
qed
text \<open>The kinds of steps, for invariants that do not look at the chunks that arrive.\<close>

lemma step_cases:
  assumes inv: "gs_inv gs" and step: "gs_step gs arrived calls gs'"
  obtains (plain) "plain gs gs'"
  | (start) chronicle story sid t adoption r active gs1 calls1 h where
      "gs_startStoryRecording chronicle story sid t adoption gs = Some (r, active, gs1, calls1)" "time_ok t"
      "gs_latestIncarnation gs \<noteq> - 1" "gs' = gs1\<lparr>gs_inHand := h\<rparr>"
  | (unhook_story) now sid chronicle story task gs1 where
      "unhook_story now sid chronicle story gs = Some (task, gs1, calls)" "gs' = add_task task gs1"
  | (unhook_chronicle) now chronicle task gs1 where
      "unhook_chronicle now chronicle gs = Some (task, gs1, calls)" "gs' = add_task task gs1"
  | (enqueue) i where "i < length (gs_tasks gs)"
      "gs' = enqueueDestroyTask (gs_tasks gs ! i) (gs\<lparr>gs_tasks := remove_nth i (gs_tasks gs)\<rparr>)"
  | (take) task tasks where "gs_worker gs = WorkerWaits" "gs_destroyQueue gs = task # tasks"
      "gs' = gs\<lparr>gs_destroyQueue := tasks, gs_queue := gs_queue gs @ remainingChunks task,
         gs_worker := WorkerDrains (task\<lparr>remainingChunks := []\<rparr>)\<rparr>"
  | (delete) reply recorded where "worker_delete reply recorded gs = Some (gs', calls)"
  | (exit) "gs_worker gs = WorkerWaits" "gs_workerShouldExit gs" "gs' = gs\<lparr>gs_worker := WorkerGone\<rparr>"
  | (collection) "gs' = gs_startDataCollection gs"
  | (shutdown) "gs' = gs_shutdown_begin gs"
  using step
proof cases
  case (Arrive c)
  show thesis by (rule plain) (rule plainI, auto simp: Arrive control_def on_the_way_def intro: keeps_pipes_refl)
next
  case (LookUp i n)
  show thesis by (rule plain) (rule plainI, auto simp: LookUp control_def on_the_way_def intro: keeps_pipes_refl)
next
  case (PushOrphan i)
  show thesis by (rule plain) (rule plainI, auto simp: PushOrphan control_def on_the_way_def intro: keeps_pipes_refl)
next
  case (Place i n c)
  from push_keeps [OF Place(5)] have "keeps_pipes gs gs'" "control gs' = control gs" "gs_retired gs' = gs_retired gs" "on_the_way gs' = on_the_way gs"
    by (cases gs; cases gs'; simp add: keeps_pipes_def control_def on_the_way_def)+
  then show thesis by (intro plain plainI) simp_all
next
  case Drain
  then show thesis using plain plain_frame(1) [OF drain_frame drain_keeps] by blast
next
  case (Start chronicle story sid t r active)
  then show thesis using start [of chronicle story sid t False r active gs' calls "gs_inHand gs'"] by simp
next
  case (Stop now sid r)
  show thesis by (rule plain) (rule plainI, use Stop in
    \<open>auto simp: gs_stopStoryRecording_def control_def on_the_way_def intro: keeps_pipes_refl split: option.splits\<close>)
next
  case (AdoptTake cs gs1)
  show thesis by (rule plain) (rule plainI, use AdoptTake in
    \<open>auto simp: extractOrphanChunks_def control_def on_the_way_def intro: keeps_pipes_refl\<close>)
next
  case (Adopt i taken active gs1)
  let ?c = "gs_inHand gs ! i"
  from Adopt(4) obtain r act calls0 where
    s: "gs_startStoryRecording (chronicleName ?c) (storyName ?c) (chunkStoryId ?c) (startTime ?c) True gs = Some (r, act, gs1, calls0)"
    by (auto simp: adopt_chunk_def split: if_splits)
  have "chunk_ok ?c" using gs_invD(8) [OF inv] Adopt(3) by (auto simp: arriving_def)
  then have "time_ok (startTime ?c)" by (simp add: chunk_ok_def)
  then show thesis
    by (rule start [OF s _ Adopt(5), where h = "if taken then gs_inHand gs1 else remove_nth i (gs_inHand gs1)"]) (use Adopt(2) in simp)
next
  case Collect
  then obtain out where "on_pipes pipe_collect gs = Some (gs', out, calls)" by (auto simp: gs_collect_pipelines_def)
  from on_pipes_plain(2) [OF inv this collect_pipe_ok [OF inv]] show thesis by (rule plain)
next
  case (Decay now)
  then obtain gs1 out where "on_pipes (pipe_extract now) gs = Some (gs1, out, calls)" "gs' = gs1\<lparr>gs_queue := gs_queue gs1 @ out\<rparr>"
    by (auto simp: gs_extractDecayedStoryChunks_def)
  with on_pipes_plain(1) [OF inv this(1) extract_pipe_ok [OF inv Decay(3)]] plain show thesis by simp
next
  case (RetireHold now)
  from retire_plain [OF inv RetireHold(2)] show thesis by (rule plain)
next
  case (StashRetired i)
  then have i: "i < length (gs_retired gs)"
    and gs': "gs' = gs\<lparr>gs_queue := gs_queue gs @ gs_retired gs ! i, gs_retired := remove_nth i (gs_retired gs)\<rparr>"
    by (auto simp: stash_retired_def split: if_splits)
  have "plain gs gs'" using set_remove_nth [OF i] unfolding plain_def by (auto simp: gs' control_def on_the_way_def intro: keeps_pipes_refl)
  then show thesis by (rule plain)
next
  case (UnhookStory now sid chronicle story task gs1)
  then show thesis using unhook_story by blast
next
  case (UnhookChronicle now chronicle task gs1)
  then show thesis using unhook_chronicle by blast
next
  case (Enqueue i)
  then show thesis using enqueue by blast
next
  case WorkerTake
  then show thesis using take by (auto simp: worker_take_def split: destroy_worker.splits list.splits)
next
  case (WorkerDelete reply recorded)
  then show thesis using delete by blast
next
  case WorkerExit
  then show thesis using exit by (auto simp: worker_exit_def split: if_splits)
next
  case Eject
  have "plain gs gs'" by (rule plainI) (use Eject in
    \<open>auto simp: gs_ejectStoryChunk_def control_def on_the_way_def intro: keeps_pipes_refl split: list.splits\<close>)
  then show thesis by (rule plain)
next
  case (Extract x i)
  let ?c = "gs_inProcess gs ! i"
  have i: "i < length (gs_inProcess gs)" using Extract(2) by (simp add: extract_chunk_def split: if_splits)
  obtain st ops ar where p: "process_chunk x ?c (gs_archive gs) = (st, ops, ar)" by (metis prod_cases3)
  have gs': "gs' = gs\<lparr>gs_archive := ar, gs_inProcess := remove_nth i (gs_inProcess gs)\<rparr>"
    using Extract(2) i p by (auto simp: extract_chunk_def)
  have "archive_ok (gs_archive gs)" using gs_invD(1) [OF inv] by (simp add: config_ok_def)
  note po = process_chunk_outcome [OF this p]
  have w: "writer_of ar = writer_of (gs_archive gs)" by (rule writer_of_same [OF po(2)])
  have "\<forall>x\<in>on_the_way gs'. x \<in> on_the_way gs \<or> (\<exists>c. stems x c \<and> Window c \<in> on_the_way gs)"
  proof
    fix x assume "x \<in> on_the_way gs'"
    then consider (queued) c where "x = Window c" "c \<in> set (gs_queue gs) \<union> set (remove_nth i (gs_inProcess gs))"
      | (stored) f where "x = FileOf (writer_of (gs_archive gs)) f" "f \<in> set (ar_files ar)" by (auto simp: gs' on_the_way_def w)
    then show "x \<in> on_the_way gs \<or> (\<exists>c. stems x c \<and> Window c \<in> on_the_way gs)"
    proof cases
      case queued
      then show ?thesis using subsetD [OF remove_nth_subset [of i "gs_inProcess gs"], of c] by (auto simp: on_the_way_def)
    next
      case stored
      from po(4) [OF stored(2)] show ?thesis using nth_mem [OF i] by (auto simp: stored(1) on_the_way_def)
    qed
  qed
  then have "plain gs gs'" by (auto simp: plain_def gs' control_def keeps_pipes_refl)
  then show thesis by (rule plain)
next
  case StartCollection
  then show thesis using collection by blast
next
  case ShutdownBegin
  then show thesis using shutdown by blast
next
  case ShutdownFinish
  from shutdown_finish_plain [OF inv ShutdownFinish(4)] show thesis by (rule plain)
qed

section \<open>Tombstones\<close>

definition tombstones_hold :: "GrapherDataStore \<Rightarrow> bool" where
  "tombstones_hold gs \<longleftrightarrow> (\<forall>sid pl. gs_pipe gs sid = Some pl \<longrightarrow> \<not> tombstoned sid (plChronicleName pl) gs)"

text \<open>Pipelines are numbered in the order they are made.\<close>

definition numbered :: "GrapherDataStore \<Rightarrow> bool" where
  "numbered gs \<longleftrightarrow> (\<forall>sid pl. gs_pipe gs sid = Some pl \<longrightarrow> plIncarnation pl \<le> gs_latestIncarnation gs)"

lemma controlD:
  assumes "control gs' = control gs"
  shows "gs_latestIncarnation gs' = gs_latestIncarnation gs" "tombstoned sid chronicle gs' = tombstoned sid chronicle gs"
    "gs_tasks gs' = gs_tasks gs" "gs_destroyQueue gs' = gs_destroyQueue gs" "gs_worker gs' = gs_worker gs" "gs_state gs' = gs_state gs"
    "gs_workerShouldExit gs' = gs_workerShouldExit gs" "gs_extractionChain gs' = gs_extractionChain gs"
  using assms by (simp_all add: control_def tombstoned_def)

lemma kept_tombstones:
  assumes "tombstones_hold gs" "keeps_pipes gs gs'" "\<And>sid pl. gs_pipe gs' sid = Some pl \<Longrightarrow> tombstoned sid (plChronicleName pl) gs' \<Longrightarrow> tombstoned sid (plChronicleName pl) gs"
  shows "tombstones_hold gs'"
  using assms unfolding tombstones_hold_def keeps_pipes_def same_pipe_def by metis

lemma kept_numbers:
  assumes "numbered gs" "keeps_pipes gs gs'" "gs_latestIncarnation gs' = gs_latestIncarnation gs"
  shows "numbered gs'"
  using assms unfolding numbered_def keeps_pipes_def same_pipe_def by metis

lemma lifted_tombstone: "tombstoned s c (lifted adoption sid chronicle gs) \<Longrightarrow> tombstoned s c gs"
  by (cases adoption) (auto simp: lifted_def tombstoned_def)

lemma lifted_own: "\<not> (adoption \<and> tombstoned sid chronicle gs) \<Longrightarrow> \<not> tombstoned sid chronicle (lifted adoption sid chronicle gs)"
  by (cases adoption) (auto simp: lifted_def tombstoned_def)

lemma next_number: "n \<noteq> - 1 \<Longrightarrow> (n :: u64) < n + 1"
proof -
  assume "n \<noteq> - 1"
  then have "1 + n \<noteq> 0" using max_word_wrap [of n] by (auto simp: add.commute)
  from unatSuc [OF this] show "n < n + 1" by (simp add: word_less_nat_alt add.commute)
qed

lemma start_effect:
  assumes inv: "gs_inv gs" and t: "time_ok t" and ret: "gs_startStoryRecording chronicle story sid t adoption gs = Some (r, active, gs', calls)"
    and latest: "gs_latestIncarnation gs \<noteq> - 1"
  shows "gs_retired gs' = gs_retired gs" "on_the_way gs' = on_the_way gs" "gs_tasks gs' = gs_tasks gs" "gs_destroyQueue gs' = gs_destroyQueue gs"
    "gs_worker gs' = gs_worker gs" "gs_state gs' = gs_state gs" "gs_workerShouldExit gs' = gs_workerShouldExit gs" "gs_extractionChain gs' = gs_extractionChain gs"
    "gs_latestIncarnation gs \<le> gs_latestIncarnation gs'" "tombstoned s c gs' \<Longrightarrow> tombstoned s c gs"
    "gs_pipe gs' s = Some pl \<Longrightarrow> gs_pipe gs s = Some pl \<or>
       plIncarnation pl = gs_latestIncarnation gs + 1 \<and> gs_latestIncarnation gs' = gs_latestIncarnation gs + 1 \<and> \<not> tombstoned s (plChronicleName pl) gs'"
proof -
  have *: "gs_retired gs' = gs_retired gs \<and> on_the_way gs' = on_the_way gs \<and> gs_tasks gs' = gs_tasks gs \<and> gs_destroyQueue gs' = gs_destroyQueue gs \<and>
    gs_worker gs' = gs_worker gs \<and> gs_state gs' = gs_state gs \<and> gs_workerShouldExit gs' = gs_workerShouldExit gs \<and> gs_extractionChain gs' = gs_extractionChain gs \<and>
    gs_latestIncarnation gs \<le> gs_latestIncarnation gs' \<and> (tombstoned s c gs' \<longrightarrow> tombstoned s c gs) \<and>
    (gs_pipe gs' s = Some pl \<longrightarrow> gs_pipe gs s = Some pl \<or>
       plIncarnation pl = gs_latestIncarnation gs + 1 \<and> gs_latestIncarnation gs' = gs_latestIncarnation gs + 1 \<and> \<not> tombstoned s (plChronicleName pl) gs')"
    using ret
  proof (cases rule: start_cases)
    case (running pl1)
    have "tombstoned s c gs' = tombstoned s c (lifted adoption sid chronicle gs)" by (simp add: running(4) tombstoned_def)
    then have "tombstoned s c gs' \<longrightarrow> tombstoned s c gs" using lifted_tombstone by blast
    moreover have "gs_pipelines gs' = gs_pipelines gs" by (simp add: running(4))
    moreover have "gs_retired gs' = gs_retired gs" "on_the_way gs' = on_the_way gs" "gs_tasks gs' = gs_tasks gs" "gs_destroyQueue gs' = gs_destroyQueue gs"
      "gs_worker gs' = gs_worker gs" "gs_state gs' = gs_state gs" "gs_workerShouldExit gs' = gs_workerShouldExit gs" "gs_extractionChain gs' = gs_extractionChain gs"
      "gs_latestIncarnation gs' = gs_latestIncarnation gs"
      by (cases adoption; simp add: running(4) lifted_def on_the_way_def)+
    ultimately show ?thesis by simp
  next
    case (made n pl1)
    have cfg: "gs_chunk_duration_secs gs \<noteq> 0" "duration_ok (gs_chunk_duration_secs gs)" "duration_ok (gs_acceptance_window_secs gs)"
      using gs_invD(1) [OF inv] by (simp_all add: config_ok_def)
    note np = new_pipe_inv [OF cfg t made(4)]
    have tomb: "tombstoned s c gs' = tombstoned s c (lifted adoption sid chronicle gs)" for s c by (simp add: made(5) gs_addHandle_def tombstoned_def)
    have pipe: "gs_pipe gs' = (gs_pipe gs)(sid \<mapsto> attach gs pl1)" by (simp add: made(5) gs_addHandle_def omap_simps)
    have "gs_latestIncarnation gs \<le> n" unfolding np(4) using next_number [OF latest] by simp
    moreover have "gs_latestIncarnation gs' = n" by (simp add: made(5) gs_addHandle_def)
    moreover have "\<not> tombstoned sid chronicle gs'" unfolding tomb by (rule lifted_own [OF made(1)])
    moreover have "gs_pipe gs' s = Some pl \<longrightarrow> gs_pipe gs s = Some pl \<or> s = sid \<and> pl = attach gs pl1" by (auto simp: pipe)
    moreover have "tombstoned s c gs' \<longrightarrow> tombstoned s c gs" unfolding tomb using lifted_tombstone by blast
    moreover have "gs_retired gs' = gs_retired gs" "on_the_way gs' = on_the_way gs" "gs_tasks gs' = gs_tasks gs" "gs_destroyQueue gs' = gs_destroyQueue gs"
      "gs_worker gs' = gs_worker gs" "gs_state gs' = gs_state gs" "gs_workerShouldExit gs' = gs_workerShouldExit gs" "gs_extractionChain gs' = gs_extractionChain gs"
      by (cases adoption; simp add: made(5) gs_addHandle_def lifted_def on_the_way_def)+
    ultimately show ?thesis using np(3,4,5) by auto
  qed simp_all
  then show "gs_retired gs' = gs_retired gs" "on_the_way gs' = on_the_way gs" "gs_tasks gs' = gs_tasks gs" "gs_destroyQueue gs' = gs_destroyQueue gs"
    "gs_worker gs' = gs_worker gs" "gs_state gs' = gs_state gs" "gs_workerShouldExit gs' = gs_workerShouldExit gs" "gs_extractionChain gs' = gs_extractionChain gs"
    "gs_latestIncarnation gs \<le> gs_latestIncarnation gs'" by simp_all
  from * show "tombstoned s c gs' \<Longrightarrow> tombstoned s c gs"
    "gs_pipe gs' s = Some pl \<Longrightarrow> gs_pipe gs s = Some pl \<or>
       plIncarnation pl = gs_latestIncarnation gs + 1 \<and> gs_latestIncarnation gs' = gs_latestIncarnation gs + 1 \<and> \<not> tombstoned s (plChronicleName pl) gs'"
    by blast+
qed

lemma unhook_pipes:
  assumes inv: "gs_inv gs" and ret: "unhook_story now sid chronicle story gs = Some (task, gs', calls)"
  shows "keeps_pipes gs gs'" "gs_pipe gs' sid = None" "gs_latestIncarnation gs' = gs_latestIncarnation gs"
    "gs_destroyedStories gs' = List.insert sid (gs_destroyedStories gs)" "gs_destroyedChronicles gs' = gs_destroyedChronicles gs"
    "gs_retired gs' = gs_retired gs" "on_the_way gs' = on_the_way gs" "\<forall>c\<in>set (remainingChunks task). made_by gs c"
    "gs_tasks gs' = gs_tasks gs" "gs_destroyQueue gs' = gs_destroyQueue gs" "gs_worker gs' = gs_worker gs" "gs_state gs' = gs_state gs"
    "gs_workerShouldExit gs' = gs_workerShouldExit gs" "gs_extractionChain gs' = gs_extractionChain gs"
    "task_chronicleName task = chronicle" "task_story task = Some story" "task_scope task = \<lparr>incarnation_bound = gs_latestIncarnation gs, requested_at = Some now\<rparr>"
proof -
  let ?gs0 = "gs\<lparr>gs_destroyedStories := List.insert sid (gs_destroyedStories gs)\<rparr>"
  from ret obtain calls0 where u: "unhook (\<lambda>p. fst p = sid) (\<lambda>s. s = sid) False (new_task StoryKind chronicle story now gs) ?gs0 = Some (task, gs', calls0)"
    by (auto simp: unhook_story_def)
  have "gs_inv ?gs0" using inv by (simp add: tombstone_inv)
  note ue = unhook_effect [OF this u]
  have fresh: "remainingChunks (new_task StoryKind chronicle story now gs) = []" by (simp add: new_task_def)
  show "keeps_pipes gs gs'" using ue(1) [OF fresh] by (simp add: keeps_pipes_def)
  show "gs_pipe gs' sid = None" using ue(2) [OF fresh] by (auto simp: map_of_eq_None_iff)
  show "gs_latestIncarnation gs' = gs_latestIncarnation gs" "gs_destroyedStories gs' = List.insert sid (gs_destroyedStories gs)"
    "gs_destroyedChronicles gs' = gs_destroyedChronicles gs" "gs_tasks gs' = gs_tasks gs" "gs_destroyQueue gs' = gs_destroyQueue gs"
    "gs_worker gs' = gs_worker gs" "gs_state gs' = gs_state gs" "gs_workerShouldExit gs' = gs_workerShouldExit gs"
    "gs_extractionChain gs' = gs_extractionChain gs" using ue(3) [OF fresh] by (simp_all add: control_def)
  show "gs_retired gs' = gs_retired gs" "on_the_way gs' = on_the_way gs" using ue(4,5) [OF fresh] by (simp_all add: on_the_way_def)
  show "\<forall>c\<in>set (remainingChunks task). made_by gs c" using ue(6) [OF fresh] by (simp add: made_by_def)
  show "task_chronicleName task = chronicle" "task_story task = Some story"
    "task_scope task = \<lparr>incarnation_bound = gs_latestIncarnation gs, requested_at = Some now\<rparr>"
    using ue(7,8,9) [OF fresh] by (simp_all add: new_task_def task_story_def)
qed

lemma unhook_chronicle_pipes:
  assumes inv: "gs_inv gs" and ret: "unhook_chronicle now chronicle gs = Some (task, gs', calls)"
  shows "keeps_pipes gs gs'" "\<And>sid pl. gs_pipe gs' sid = Some pl \<Longrightarrow> plChronicleName pl \<noteq> chronicle"
    "gs_latestIncarnation gs' = gs_latestIncarnation gs"
    "gs_destroyedStories gs' = gs_destroyedStories gs" "gs_destroyedChronicles gs' = List.insert chronicle (gs_destroyedChronicles gs)"
    "gs_retired gs' = gs_retired gs" "on_the_way gs' = on_the_way gs" "\<forall>c\<in>set (remainingChunks task). made_by gs c"
    "gs_tasks gs' = gs_tasks gs" "gs_destroyQueue gs' = gs_destroyQueue gs" "gs_worker gs' = gs_worker gs" "gs_state gs' = gs_state gs"
    "gs_workerShouldExit gs' = gs_workerShouldExit gs" "gs_extractionChain gs' = gs_extractionChain gs"
    "task_chronicleName task = chronicle" "task_story task = None"
    "task_scope task = \<lparr>incarnation_bound = gs_latestIncarnation gs, requested_at = Some now\<rparr>"
proof -
  let ?gs0 = "gs\<lparr>gs_destroyedChronicles := List.insert chronicle (gs_destroyedChronicles gs)\<rparr>"
  have "gs_inv ?gs0" using inv by (simp add: tombstone_inv)
  note ue = unhook_effect [OF this ret [unfolded unhook_chronicle_def]]
  have fresh: "remainingChunks (new_task ChronicleKind chronicle [] now gs) = []" by (simp add: new_task_def)
  show "keeps_pipes gs gs'" using ue(1) [OF fresh] by (simp add: keeps_pipes_def)
  show "plChronicleName pl \<noteq> chronicle" if "gs_pipe gs' sid = Some pl" for sid pl
    using ue(2) [OF fresh] map_of_SomeD [OF that] by auto
  show "gs_latestIncarnation gs' = gs_latestIncarnation gs" "gs_destroyedStories gs' = gs_destroyedStories gs"
    "gs_destroyedChronicles gs' = List.insert chronicle (gs_destroyedChronicles gs)" "gs_tasks gs' = gs_tasks gs" "gs_destroyQueue gs' = gs_destroyQueue gs"
    "gs_worker gs' = gs_worker gs" "gs_state gs' = gs_state gs" "gs_workerShouldExit gs' = gs_workerShouldExit gs"
    "gs_extractionChain gs' = gs_extractionChain gs" using ue(3) [OF fresh] by (simp_all add: control_def)
  show "gs_retired gs' = gs_retired gs" "on_the_way gs' = on_the_way gs" using ue(4,5) [OF fresh] by (simp_all add: on_the_way_def)
  show "\<forall>c\<in>set (remainingChunks task). made_by gs c" using ue(6) [OF fresh] by (simp add: made_by_def)
  show "task_chronicleName task = chronicle" "task_story task = None"
    "task_scope task = \<lparr>incarnation_bound = gs_latestIncarnation gs, requested_at = Some now\<rparr>"
    using ue(7,8,9) [OF fresh] by (simp_all add: new_task_def task_story_def)
qed

lemma delete_frame:
  assumes "worker_delete reply recorded gs = Some (gs', calls)"
  shows "gs_pipelines gs' = gs_pipelines gs" "gs_latestIncarnation gs' = gs_latestIncarnation gs" "gs_destroyedStories gs' = gs_destroyedStories gs"
    "gs_destroyedChronicles gs' = gs_destroyedChronicles gs" "gs_retired gs' = gs_retired gs" "gs_tasks gs' = gs_tasks gs"
    "gs_destroyQueue gs' = gs_destroyQueue gs" "gs_state gs' = gs_state gs" "gs_workerShouldExit gs' = gs_workerShouldExit gs"
    "gs_extractionChain gs' = gs_extractionChain gs" "gs_queue gs' = gs_queue gs" "gs_inProcess gs' = gs_inProcess gs" "gs_worker gs' = WorkerWaits"
  using assms by (auto simp: worker_delete_def split: destroy_worker.splits if_splits prod.splits)

lemma life_frame:
  "gs_pipelines (gs_startDataCollection gs) = gs_pipelines gs" "gs_pipelines (gs_shutdown_begin gs) = gs_pipelines gs"
  "gs_latestIncarnation (gs_startDataCollection gs) = gs_latestIncarnation gs" "gs_latestIncarnation (gs_shutdown_begin gs) = gs_latestIncarnation gs"
  "gs_destroyedStories (gs_startDataCollection gs) = gs_destroyedStories gs" "gs_destroyedStories (gs_shutdown_begin gs) = gs_destroyedStories gs"
  "gs_destroyedChronicles (gs_startDataCollection gs) = gs_destroyedChronicles gs"
  "gs_destroyedChronicles (gs_shutdown_begin gs) = gs_destroyedChronicles gs"
  "gs_retired (gs_startDataCollection gs) = gs_retired gs" "gs_tasks (gs_startDataCollection gs) = gs_tasks gs"
  "gs_destroyQueue (gs_startDataCollection gs) = gs_destroyQueue gs" "on_the_way (gs_startDataCollection gs) = on_the_way gs"
  "gs_extractionChain (gs_startDataCollection gs) = gs_extractionChain gs"
  by (simp_all add: gs_startDataCollection_def gs_shutdown_begin_def on_the_way_def)

text \<open>The pipelines and the tombstones of every step.\<close>

lemma step_tombstones:
  assumes inv: "gs_inv gs" and step: "gs_step gs arrived calls gs'" and old: "tombstones_hold gs" "numbered gs"
  shows "tombstones_hold gs' \<and> numbered gs' \<and> gs_latestIncarnation gs \<le> gs_latestIncarnation gs'"
proof -
  have frame: ?thesis if "keeps_pipes gs gs'" "gs_latestIncarnation gs' = gs_latestIncarnation gs"
    "\<And>sid pl. gs_pipe gs' sid = Some pl \<Longrightarrow> tombstoned sid (plChronicleName pl) gs' \<Longrightarrow> tombstoned sid (plChronicleName pl) gs"
    using kept_tombstones [OF old(1) that(1) that(3)] kept_numbers [OF old(2) that(1,2)] that(2) by simp
  from inv step show ?thesis
  proof (cases rule: step_cases)
    case plain
    then show ?thesis by (intro frame) (auto simp: plain_def dest: controlD)
  next
    case (start chronicle story sid t adoption r active gs1 calls1 h)
    note se = start_effect [OF inv start(2,1,3)]
    have pipe: "gs_pipe gs' = gs_pipe gs1" "gs_latestIncarnation gs' = gs_latestIncarnation gs1" "tombstoned s c gs' = tombstoned s c gs1" for s c
      by (simp_all add: start(4) tombstoned_def)
    have "\<not> tombstoned s (plChronicleName pl) gs1" if "gs_pipe gs1 s = Some pl" for s pl
      using se(11) [OF that] se(10) old(1) unfolding tombstones_hold_def by blast
    moreover have "plIncarnation pl \<le> gs_latestIncarnation gs1" if "gs_pipe gs1 s = Some pl" for s pl
      using se(11) [OF that] se(9) old(2) order_trans [OF _ se(9)] unfolding numbered_def by auto
    ultimately show ?thesis using se(9) unfolding tombstones_hold_def numbered_def pipe by blast
  next
    case (unhook_story now sid chronicle story task gs1)
    note up = unhook_pipes [OF inv unhook_story(1)]
    have "gs_pipelines gs' = gs_pipelines gs1" by (simp add: unhook_story(2) add_task_def)
    moreover have "tombstoned s c gs' = (s = sid \<or> tombstoned s c gs)" for s c
      using up(4,5) by (auto simp: unhook_story(2) add_task_def tombstoned_def)
    ultimately show ?thesis using up(1,2,3) by (intro frame) (auto simp: keeps_pipes_def unhook_story(2) add_task_def)
  next
    case (unhook_chronicle now chronicle task gs1)
    note up = unhook_chronicle_pipes [OF inv unhook_chronicle(1)]
    have "gs_pipelines gs' = gs_pipelines gs1" by (simp add: unhook_chronicle(2) add_task_def)
    moreover have "tombstoned s c gs' = (c = chronicle \<or> tombstoned s c gs)" for s c
      using up(4,5) by (auto simp: unhook_chronicle(2) add_task_def tombstoned_def)
    ultimately show ?thesis using up(1,2,3) by (intro frame) (auto simp: keeps_pipes_def unhook_chronicle(2) add_task_def)
  next
    case (enqueue i)
    then show ?thesis by (intro frame) (auto simp: enqueueDestroyTask_def tombstoned_def intro: keeps_pipes_refl)
  next
    case (take task tasks)
    then show ?thesis by (intro frame) (auto simp: tombstoned_def intro: keeps_pipes_refl)
  next
    case (delete reply recorded)
    note df = delete_frame [OF delete]
    then show ?thesis by (intro frame) (auto simp: tombstoned_def intro: keeps_pipes_refl)
  next
    case exit
    then show ?thesis by (intro frame) (auto simp: tombstoned_def intro: keeps_pipes_refl)
  next
    case collection
    then show ?thesis by (intro frame) (auto simp: life_frame tombstoned_def intro: keeps_pipes_refl)
  next
    case shutdown
    then show ?thesis by (intro frame) (auto simp: life_frame tombstoned_def intro: keeps_pipes_refl)
  qed
qed

lemma run_tombstones:
  "gs_run gs arrived calls gs' \<Longrightarrow> gs_inv gs \<Longrightarrow> tombstones_hold gs \<Longrightarrow> numbered gs \<Longrightarrow>
   tombstones_hold gs' \<and> numbered gs' \<and> gs_latestIncarnation gs \<le> gs_latestIncarnation gs'"
proof (induction rule: gs_run.induct)
  case (Further gs arrived calls gs1 a c gs')
  from step_tombstones [OF gs_run_inv [OF Further.hyps(1) Further.prems(1)] Further.hyps(2)] Further.IH Further.prems
  show ?case by (meson order_trans)
qed simp

section \<open>Destroying a story clears the archive\<close>

text \<open>What the destroy of a story with a scope is for, among the windows and among the files.\<close>

abbreviation doomed :: "cpp_string \<Rightarrow> cpp_string \<Rightarrow> DestroyScope \<Rightarrow> StoryChunk \<Rightarrow> bool" where
  "doomed chronicle story scope \<equiv> destroy_covers chronicle (Some story) (incarnation_bound scope)"

fun destined :: "cpp_string \<Rightarrow> cpp_string \<Rightarrow> DestroyScope \<Rightarrow> way_item \<Rightarrow> bool" where
  "destined chronicle story scope (Window c) \<longleftrightarrow> doomed chronicle story scope c"
| "destined chronicle story scope (FileOf ar f) \<longleftrightarrow> destroy_takes ar chronicle (Some story) scope f"

lemma stems_destined: "stems x c \<Longrightarrow> destined chronicle story scope x = doomed chronicle story scope c"
  by (cases x) (auto simp: destroy_takes_own)

abbreviation pending :: "GrapherDataStore \<Rightarrow> DestroyTask set" where
  "pending gs \<equiv> set (gs_tasks gs) \<union> set (gs_destroyQueue gs)"

text \<open>A task whose deletion takes every file the scope takes.\<close>

definition requested_by :: "int option \<Rightarrow> int option \<Rightarrow> bool" where
  "requested_by at at' \<longleftrightarrow> at' = None \<or> (\<exists>t t'. at = Some t \<and> at' = Some t' \<and> t \<le> t')"

definition covers_task :: "cpp_string \<Rightarrow> cpp_string \<Rightarrow> DestroyScope \<Rightarrow> DestroyTask \<Rightarrow> bool" where
  "covers_task chronicle story scope task \<longleftrightarrow> task_chronicleName task = chronicle \<and>
     (task_story task = None \<or> task_story task = Some story) \<and> incarnation_bound scope \<le> incarnation_bound (task_scope task) \<and>
     requested_by (requested_at scope) (requested_at (task_scope task))"

definition holds_doomed :: "cpp_string \<Rightarrow> cpp_string \<Rightarrow> DestroyScope \<Rightarrow> DestroyTask \<Rightarrow> bool" where
  "holds_doomed chronicle story scope task \<longleftrightarrow> (\<exists>c\<in>set (remainingChunks task). doomed chronicle story scope c)"

definition deletions_succeed :: "grapher_call list \<Rightarrow> bool" where
  "deletions_succeed calls \<longleftrightarrow>
     (\<forall>chronicle story scope status. DeletesFiles chronicle story scope status \<in> set calls \<longrightarrow> status = CL_SUCCESS)"

text \<open>
  Between the destroy and the end of its worker: no pipeline and no retired window is doomed, tasks that hold doomed windows
  cover the story, and a covering task is pending, or is being worked on with no doomed window behind it, or all is gone.
\<close>

definition clearing :: "cpp_string \<Rightarrow> cpp_string \<Rightarrow> DestroyScope \<Rightarrow> GrapherDataStore \<Rightarrow> bool" where
  "clearing chronicle story scope gs \<longleftrightarrow> gs_extractionChain gs \<and> incarnation_bound scope \<le> gs_latestIncarnation gs \<and>
     (\<forall>sid pl. gs_pipe gs sid = Some pl \<longrightarrow> plChronicleName pl = chronicle \<longrightarrow> plStoryName pl = story \<longrightarrow> incarnation_bound scope < plIncarnation pl) \<and>
     (\<forall>c\<in>set (concat (gs_retired gs)). \<not> doomed chronicle story scope c) \<and>
     (\<forall>task\<in>pending gs. holds_doomed chronicle story scope task \<longrightarrow> covers_task chronicle story scope task) \<and>
     ((\<exists>task\<in>pending gs. covers_task chronicle story scope task) \<or>
      (\<forall>task\<in>pending gs. \<not> holds_doomed chronicle story scope task) \<and>
      ((\<exists>task. gs_worker gs = WorkerDrains task \<and> covers_task chronicle story scope task) \<or>
       (\<forall>x\<in>on_the_way gs. \<not> destined chronicle story scope x)))"

definition living :: "GrapherDataStore \<Rightarrow> bool" where
  "living gs \<longleftrightarrow> (gs_workerShouldExit gs \<longrightarrow> gs_state gs = GrapherShuttingDown) \<and>
     (gs_state gs = GrapherUnknown \<longrightarrow> gs_worker gs = WorkerNotStarted)"

lemma covers_task_takes:
  "covers_task chronicle story scope task \<Longrightarrow> destroy_takes ar chronicle (Some story) scope f \<Longrightarrow>
   destroy_takes ar (task_chronicleName task) (task_story task) (task_scope task) f"
  by (fastforce simp: covers_task_def destroy_takes_def outdated_def requested_by_def split: option.splits)

lemma clearingD:
  assumes "clearing chronicle story scope gs"
  shows "gs_extractionChain gs" "incarnation_bound scope \<le> gs_latestIncarnation gs"
    "gs_pipe gs sid = Some pl \<Longrightarrow> plChronicleName pl = chronicle \<Longrightarrow> plStoryName pl = story \<Longrightarrow> incarnation_bound scope < plIncarnation pl"
    "c \<in> set (concat (gs_retired gs)) \<Longrightarrow> \<not> doomed chronicle story scope c"
    "task \<in> pending gs \<Longrightarrow> holds_doomed chronicle story scope task \<Longrightarrow> covers_task chronicle story scope task"
    "(\<exists>task\<in>pending gs. covers_task chronicle story scope task) \<or>
      (\<forall>task\<in>pending gs. \<not> holds_doomed chronicle story scope task) \<and>
      ((\<exists>task. gs_worker gs = WorkerDrains task \<and> covers_task chronicle story scope task) \<or>
       (\<forall>x\<in>on_the_way gs. \<not> destined chronicle story scope x))"
    "made_by gs c \<Longrightarrow> \<not> doomed chronicle story scope c"
proof -
  note cl = assms [unfolded clearing_def]
  show pipe: "gs_pipe gs sid = Some pl \<Longrightarrow> plChronicleName pl = chronicle \<Longrightarrow> plStoryName pl = story \<Longrightarrow> incarnation_bound scope < plIncarnation pl" for sid pl
    using cl by blast
  show "gs_extractionChain gs" "incarnation_bound scope \<le> gs_latestIncarnation gs" "c \<in> set (concat (gs_retired gs)) \<Longrightarrow> \<not> doomed chronicle story scope c"
    "task \<in> pending gs \<Longrightarrow> holds_doomed chronicle story scope task \<Longrightarrow> covers_task chronicle story scope task" using cl by blast+
  show "(\<exists>task\<in>pending gs. covers_task chronicle story scope task) \<or>
      (\<forall>task\<in>pending gs. \<not> holds_doomed chronicle story scope task) \<and>
      ((\<exists>task. gs_worker gs = WorkerDrains task \<and> covers_task chronicle story scope task) \<or>
       (\<forall>x\<in>on_the_way gs. \<not> destined chronicle story scope x))" using cl by blast
  show "\<not> doomed chronicle story scope c" if "made_by gs c"
    using that pipe unfolding made_by_def window_tag_def destroy_covers_def by (metis not_less option.sel option.distinct(1))
qed

text \<open>Steps that leave the tasks and the worker alone.\<close>

lemma clearing_frame:
  assumes cl: "clearing chronicle story scope gs"
    and pipes: "\<And>sid pl. gs_pipe gs' sid = Some pl \<Longrightarrow> (\<exists>pl0. gs_pipe gs sid = Some pl0 \<and> same_pipe pl0 pl) \<or> incarnation_bound scope < plIncarnation pl"
    and num: "gs_latestIncarnation gs \<le> gs_latestIncarnation gs'" "gs_extractionChain gs' = gs_extractionChain gs"
    and ret: "\<And>c. c \<in> set (concat (gs_retired gs')) \<Longrightarrow> c \<in> set (concat (gs_retired gs)) \<or> made_by gs c"
    and way: "\<And>x. x \<in> on_the_way gs' \<Longrightarrow> x \<in> on_the_way gs \<or>
      (\<exists>c. stems x c \<and> (Window c \<in> on_the_way gs \<or> c \<in> set (concat (gs_retired gs)) \<or> made_by gs c))"
    and tasks: "pending gs' = pending gs" and work: "\<And>task. gs_worker gs = WorkerDrains task \<Longrightarrow> gs_worker gs' = WorkerDrains task"
  shows "clearing chronicle story scope gs'"
proof -
  note d = clearingD [OF cl]
  have "incarnation_bound scope < plIncarnation pl" if "gs_pipe gs' sid = Some pl" "plChronicleName pl = chronicle" "plStoryName pl = story" for sid pl
    using pipes [OF that(1)] d(3) that(2,3) unfolding same_pipe_def by metis
  moreover have "\<not> doomed chronicle story scope c" if "c \<in> set (concat (gs_retired gs'))" for c
    using ret [OF that] d(4,7) by blast
  moreover have "\<forall>x\<in>on_the_way gs'. \<not> destined chronicle story scope x" if "\<forall>x\<in>on_the_way gs. \<not> destined chronicle story scope x"
  proof
    fix x assume "x \<in> on_the_way gs'"
    from way [OF this] consider "x \<in> on_the_way gs"
      | c where "stems x c" "Window c \<in> on_the_way gs \<or> c \<in> set (concat (gs_retired gs)) \<or> made_by gs c" by blast
    then show "\<not> destined chronicle story scope x"
    proof cases
      case 1
      then show ?thesis using that by blast
    next
      case 2
      have "\<not> doomed chronicle story scope c" using 2(2) that d(4,7) destined.simps(1) by blast
      then show ?thesis using stems_destined [OF 2(1)] by blast
    qed
  qed
  moreover have "incarnation_bound scope \<le> gs_latestIncarnation gs'" using d(2) num(1) by (rule order_trans)
  ultimately show ?thesis
    unfolding clearing_def tasks num(2) using d(1,5,6) work by blast
qed

lemma delete_clears:
  assumes inv: "gs_inv gs" and ret: "worker_delete reply recorded gs = Some (gs', calls)" and ok: "deletions_succeed calls"
    and cl: "clearing chronicle story scope gs" and up: "\<not> gs_workerShouldExit gs"
  shows "clearing chronicle story scope gs'"
proof -
  note d = clearingD [OF cl] and df = delete_frame [OF ret]
  from ret obtain task where task: "gs_worker gs = WorkerDrains task" by (auto simp: worker_delete_def split: destroy_worker.splits)
  have own: "archive_ok (gs_archive gs)" using gs_invD(1) [OF inv] by (simp add: config_ok_def)
  obtain st ar where del: "delete_files reply recorded (task_chronicleName task) (task_story task) (task_scope task) (gs_archive gs) = (st, ar)"
    by fastforce
  note de = delete_files_effect [OF own del]
  have idle: "extraction_idle gs" using ret task up by (auto simp: worker_delete_def split: if_splits)
  with ret task del d(1) up have gs': "gs' = gs\<lparr>gs_archive := ar, gs_worker := WorkerWaits\<rparr>"
    and calls: "calls = [DeletesFiles (task_chronicleName task) (task_story task) (task_scope task) st]"
    by (auto simp: worker_delete_def)
  have st: "st = CL_SUCCESS" using ok calls by (simp add: deletions_succeed_def)
  note files = hdf5.delete_takes_all [OF own, of "(reply, recorded)", unfolded fst_conv snd_conv, OF del [unfolded st]]
  have way: "on_the_way gs' = FileOf (writer_of (gs_archive gs)) ` set (ar_files ar)"
    using idle writer_of_same [OF de(2)] by (simp add: gs' on_the_way_def extraction_idle_def)
  have gone: "\<forall>x\<in>on_the_way gs'. \<not> destined chronicle story scope x" if "covers_task chronicle story scope task"
    using covers_task_takes [OF that] unfolding way files by auto
  have less: "\<forall>x\<in>on_the_way gs'. \<not> destined chronicle story scope x" if "\<forall>x\<in>on_the_way gs. \<not> destined chronicle story scope x"
  proof
    fix x assume "x \<in> on_the_way gs'"
    then have "x \<in> on_the_way gs" using subsetD [OF de(3)] unfolding way by (auto simp: on_the_way_def)
    then show "\<not> destined chronicle story scope x" using that by blast
  qed
  have "(\<exists>task\<in>pending gs. covers_task chronicle story scope task) \<or>
      (\<forall>task\<in>pending gs. \<not> holds_doomed chronicle story scope task) \<and> (\<forall>x\<in>on_the_way gs'. \<not> destined chronicle story scope x)"
    using d(6) task gone less by auto
  with d(1-5) show ?thesis unfolding clearing_def df by blast
qed

lemma add_task_clears:
  assumes cl: "clearing chronicle story scope gs" and keep: "keeps_pipes gs gs1" "gs_latestIncarnation gs1 = gs_latestIncarnation gs"
    "gs_retired gs1 = gs_retired gs" "on_the_way gs1 = on_the_way gs" "gs_tasks gs1 = gs_tasks gs" "gs_destroyQueue gs1 = gs_destroyQueue gs"
    "gs_worker gs1 = gs_worker gs" "gs_extractionChain gs1 = gs_extractionChain gs" "\<forall>c\<in>set (remainingChunks task). made_by gs c"
  shows "clearing chronicle story scope (add_task task gs1)"
proof -
  have "clearing chronicle story scope gs1"
    by (rule clearing_frame [OF cl]) (use keep in \<open>auto simp: keeps_pipes_def\<close>)
  moreover have "\<not> holds_doomed chronicle story scope task" using keep(9) clearingD(7) [OF cl] unfolding holds_doomed_def by blast
  ultimately show ?thesis by (auto simp: clearing_def add_task_def on_the_way_def)
qed

lemma step_life:
  assumes inv: "gs_inv gs" and step: "gs_step gs arrived calls gs'" and live: "living gs"
  shows "living gs' \<and> gs_extractionChain gs' = gs_extractionChain gs"
  using inv step
proof (cases rule: step_cases)
  case plain
  then have "control gs' = control gs" by (simp add: plain_def)
  from controlD [OF this] live show ?thesis by (simp add: living_def)
next
  case (start chr st sid t adoption r active gs1 calls1 h)
  from start_effect [OF inv start(2,1,3)] live show ?thesis by (simp add: living_def start(4))
next
  case (unhook_story now sid chr st task gs1)
  from unhook_pipes [OF inv unhook_story(1)] live show ?thesis by (simp add: living_def unhook_story(2) add_task_def)
next
  case (unhook_chronicle now chr task gs1)
  from unhook_chronicle_pipes [OF inv unhook_chronicle(1)] live show ?thesis by (simp add: living_def unhook_chronicle(2) add_task_def)
next
  case (delete reply recorded)
  from delete have "gs_worker gs \<noteq> WorkerNotStarted" by (auto simp: worker_delete_def)
  with delete_frame [OF delete] live show ?thesis by (auto simp: living_def)
qed (use live in \<open>auto simp: living_def enqueueDestroyTask_def gs_startDataCollection_def gs_shutdown_begin_def\<close>)

lemma run_life: "gs_run gs arrived calls gs' \<Longrightarrow> gs_inv gs \<Longrightarrow> living gs \<Longrightarrow> living gs' \<and> gs_extractionChain gs' = gs_extractionChain gs"
proof (induction rule: gs_run.induct)
  case (Further gs arrived calls gs1 a c gs')
  have "gs_inv gs1" by (rule gs_run_inv [OF Further.hyps(1) Further.prems(1)])
  from step_life [OF this Further.hyps(2)] Further.IH [OF Further.prems] show ?case by simp
qed simp

lemma step_clearing:
  assumes inv: "gs_inv gs" and step: "gs_step gs arrived calls gs'" and ok: "deletions_succeed calls"
    and live: "living gs" and cl: "\<not> gs_workerShouldExit gs \<Longrightarrow> clearing chronicle story scope gs"
  shows "\<not> gs_workerShouldExit gs' \<longrightarrow> clearing chronicle story scope gs'"
  using inv step
proof (cases rule: step_cases)
  case plain
  then have c: "control gs' = control gs" by (simp add: plain_def)
  note cd = controlD [OF c]
  have "clearing chronicle story scope gs'" if "clearing chronicle story scope gs"
    by (rule clearing_frame [OF that]) (use plain in \<open>auto simp: plain_def keeps_pipes_def cd\<close>)
  then show ?thesis using live cl by (simp add: living_def cd)
next
  case (start chr st sid t adoption r active gs1 calls1 h)
  note se = start_effect [OF inv start(2,1,3)]
  have way: "on_the_way (gs1\<lparr>gs_inHand := h\<rparr>) = on_the_way gs1" by (simp add: on_the_way_def)
  have "clearing chronicle story scope gs'" if that: "clearing chronicle story scope gs"
  proof (rule clearing_frame [OF that])
    show "(\<exists>pl0. gs_pipe gs s = Some pl0 \<and> same_pipe pl0 pl) \<or> incarnation_bound scope < plIncarnation pl" if "gs_pipe gs' s = Some pl" for s pl
    proof -
      have "gs_pipe gs1 s = Some pl" using that by (simp add: start(4))
      from se(11) [OF this] next_number [OF start(3)] clearingD(2) [OF \<open>clearing chronicle story scope gs\<close>] show ?thesis
        by (auto simp: same_pipe_def)
    qed
  qed (use se way in \<open>auto simp: start(4)\<close>)
  then show ?thesis using live cl se by (simp add: living_def start(4))
next
  case (unhook_story now sid chr st task gs1)
  note up = unhook_pipes [OF inv unhook_story(1)]
  have "clearing chronicle story scope gs'" if "clearing chronicle story scope gs"
    unfolding unhook_story(2) by (rule add_task_clears [OF that]) (use up in auto)
  then show ?thesis using live cl up by (simp add: living_def unhook_story(2) add_task_def)
next
  case (unhook_chronicle now chr task gs1)
  note up = unhook_chronicle_pipes [OF inv unhook_chronicle(1)]
  have "clearing chronicle story scope gs'" if "clearing chronicle story scope gs"
    unfolding unhook_chronicle(2) by (rule add_task_clears [OF that]) (use up in auto)
  then show ?thesis using live cl up by (simp add: living_def unhook_chronicle(2) add_task_def)
next
  case (enqueue i)
  have "clearing chronicle story scope gs'" if "clearing chronicle story scope gs"
    by (rule clearing_frame [OF that])
      (use set_remove_nth [OF enqueue(1)] in \<open>auto simp: enqueue(2) enqueueDestroyTask_def on_the_way_def same_pipe_def\<close>)
  then show ?thesis using live cl by (simp add: living_def enqueue(2) enqueueDestroyTask_def)
next
  case (take task tasks)
  let ?D = "holds_doomed chronicle story scope" and ?K = "covers_task chronicle story scope"
  have "clearing chronicle story scope gs'" if that: "clearing chronicle story scope gs"
  proof -
    note d = clearingD [OF that]
    have pend: "pending gs = insert task (pending gs')" by (auto simp: take(2,3))
    have work: "gs_worker gs' = WorkerDrains (task\<lparr>remainingChunks := []\<rparr>)" "?K (task\<lparr>remainingChunks := []\<rparr>) = ?K task"
      by (simp_all add: take(3) covers_task_def task_story_def)
    have way: "on_the_way gs' = on_the_way gs \<union> Window ` set (remainingChunks task)" by (auto simp: take(3) on_the_way_def)
    have "(\<exists>task\<in>pending gs'. ?K task) \<or> (\<forall>task\<in>pending gs'. \<not> ?D task) \<and> (?K task \<or> (\<forall>x\<in>on_the_way gs'. \<not> destined chronicle story scope x))"
      using d(5,6) take(1) unfolding pend way holds_doomed_def by auto
    then show ?thesis using d(1-5) unfolding clearing_def using work pend by (auto simp: take(3))
  qed
  then show ?thesis using live cl take(1) by (auto simp: living_def take(3))
next
  case (delete reply recorded)
  note df = delete_frame [OF delete]
  from delete have "gs_worker gs \<noteq> WorkerNotStarted" by (auto simp: worker_delete_def)
  then show ?thesis using live cl delete_clears [OF inv delete ok] by (auto simp: living_def df)
next
  case exit
  then show ?thesis using live by (auto simp: living_def)
next
  case collection
  show ?thesis
  proof (cases "gs_state gs = GrapherUnknown")
    case True
    then have n: "gs_worker gs = WorkerNotStarted" using live by (simp add: living_def)
    have "clearing chronicle story scope gs'" if "clearing chronicle story scope gs"
      unfolding collection by (rule clearing_frame [OF that]) (auto simp: life_frame n same_pipe_def)
    then show ?thesis using cl live True by (auto simp: living_def collection gs_startDataCollection_def)
  next
    case False
    then have "gs' = gs" by (cases "gs_state gs") (simp_all add: collection gs_startDataCollection_def)
    then show ?thesis using live cl by simp
  qed
next
  case shutdown
  then show ?thesis using live cl by (auto simp: living_def gs_shutdown_begin_def)
qed

lemma run_clearing:
  "gs_run gs arrived calls gs' \<Longrightarrow> gs_inv gs \<Longrightarrow> deletions_succeed calls \<Longrightarrow> living gs \<Longrightarrow>
   (\<not> gs_workerShouldExit gs \<Longrightarrow> clearing chronicle story scope gs) \<Longrightarrow>
   \<not> gs_workerShouldExit gs' \<longrightarrow> clearing chronicle story scope gs'"
proof (induction rule: gs_run.induct)
  case (Further gs arrived calls gs1 a c gs')
  have ok: "deletions_succeed calls" "deletions_succeed c" using Further.prems(2) by (auto simp: deletions_succeed_def)
  have IH: "\<not> gs_workerShouldExit gs1 \<longrightarrow> clearing chronicle story scope gs1" using Further.IH Further.prems ok(1) by blast
  have live: "living gs1" using run_life [OF Further.hyps(1)] Further.prems by blast
  show ?case
    by (rule step_clearing [OF gs_run_inv [OF Further.hyps(1) Further.prems(1)] Further.hyps(2) ok(2)])
      (use IH live in blast)+
qed blast

section \<open>Every task was requested\<close>

text \<open>A destroy of a story or of a chronicle, with the scope it gives its task.\<close>

definition request :: "GrapherDataStore \<Rightarrow> GrapherDataStore \<Rightarrow> cpp_string \<Rightarrow> cpp_string option \<Rightarrow> DestroyScope \<Rightarrow> bool" where
  "request gs gs' chronicle story scope \<longleftrightarrow>
     (\<exists>now task gs1 calls. gs' = add_task task gs1 \<and> scope = \<lparr>incarnation_bound = gs_latestIncarnation gs, requested_at = Some now\<rparr> \<and>
        (case story of
           None \<Rightarrow> unhook_chronicle now chronicle gs = Some (task, gs1, calls)
         | Some s \<Rightarrow> (\<exists>sid. unhook_story now sid chronicle s gs = Some (task, gs1, calls))))"

definition requested :: "GrapherDataStore \<Rightarrow> GrapherDataStore \<Rightarrow> cpp_string \<Rightarrow> cpp_string option \<Rightarrow> DestroyScope \<Rightarrow> bool" where
  "requested gs0 gs chronicle story scope \<longleftrightarrow>
     (\<exists>a c gs1 gs2 a' c'. gs_run gs0 a c gs1 \<and> request gs1 gs2 chronicle story scope \<and> gs_run gs2 a' c' gs)"

definition working :: "GrapherDataStore \<Rightarrow> DestroyTask set" where
  "working gs = pending gs \<union> {task. gs_worker gs = WorkerDrains task}"

abbreviation task_requested :: "GrapherDataStore \<Rightarrow> GrapherDataStore \<Rightarrow> DestroyTask \<Rightarrow> bool" where
  "task_requested gs0 gs task \<equiv> requested gs0 gs (task_chronicleName task) (task_story task) (task_scope task)"

lemma requested_further: "requested gs0 gs chronicle story scope \<Longrightarrow> gs_step gs a c gs' \<Longrightarrow> requested gs0 gs' chronicle story scope"
  unfolding requested_def by (meson gs_run.Further)

lemma requested_now: "gs_run gs0 a c gs \<Longrightarrow> request gs gs' chronicle story scope \<Longrightarrow> requested gs0 gs' chronicle story scope"
  unfolding requested_def by (meson gs_run.Stay)

text \<open>Where a task to be worked on comes from: it was one before, or the step is the request for it.\<close>

lemma step_tasks:
  assumes inv: "gs_inv gs" and step: "gs_step gs arrived calls gs'" and task: "task \<in> working gs'"
  shows "(\<exists>t\<in>working gs. task_chronicleName t = task_chronicleName task \<and> task_story t = task_story task \<and> task_scope t = task_scope task) \<or>
    request gs gs' (task_chronicleName task) (task_story task) (task_scope task)"
  using inv step
proof (cases rule: step_cases)
  case plain
  then have "control gs' = control gs" by (simp add: plain_def)
  from controlD [OF this] task show ?thesis by (auto simp: working_def)
next
  case (start chronicle story sid t adoption r active gs1 calls1 h)
  from start_effect [OF inv start(2,1,3)] task show ?thesis by (auto simp: working_def start(4))
next
  case (unhook_story now sid chronicle story task' gs1)
  note up = unhook_pipes [OF inv unhook_story(1)]
  have "task = task' \<or> task \<in> working gs" using task up(9-11) by (auto simp: working_def unhook_story(2) add_task_def)
  moreover have "request gs gs' chronicle (Some story) (task_scope task')"
    unfolding request_def up(17) option.case using unhook_story by blast
  ultimately show ?thesis using up(15,16) by auto
next
  case (unhook_chronicle now chronicle task' gs1)
  note up = unhook_chronicle_pipes [OF inv unhook_chronicle(1)]
  have "task = task' \<or> task \<in> working gs" using task up(9-11) by (auto simp: working_def unhook_chronicle(2) add_task_def)
  moreover have "request gs gs' chronicle None (task_scope task')"
    unfolding request_def up(17) option.case using unhook_chronicle by blast
  ultimately show ?thesis using up(15,16) by auto
next
  case (enqueue i)
  then show ?thesis using task set_remove_nth [OF enqueue(1)] by (auto simp: working_def enqueueDestroyTask_def)
next
  case (take t tasks)
  have "task \<in> working gs \<or> task = t\<lparr>remainingChunks := []\<rparr>" "t \<in> working gs" using task by (auto simp: working_def take)
  then show ?thesis by (auto simp: task_story_def)
next
  case (delete reply recorded)
  from delete_frame [OF delete] task show ?thesis by (auto simp: working_def)
next
  case exit
  then show ?thesis using task by (auto simp: working_def)
next
  case collection
  then show ?thesis using task by (cases "gs_state gs") (auto simp: working_def gs_startDataCollection_def)
next
  case shutdown
  then show ?thesis using task by (auto simp: working_def gs_shutdown_begin_def)
qed

lemma tasks_requested:
  "gs_run gs0 arrived calls gs \<Longrightarrow> gs_inv gs0 \<Longrightarrow> working gs0 = {} \<Longrightarrow> task \<in> working gs \<Longrightarrow> task_requested gs0 gs task"
proof (induction arbitrary: task rule: gs_run.induct)
  case (Further gs0 arrived calls gs a c gs')
  from step_tasks [OF gs_run_inv [OF Further.hyps(1) Further.prems(1)] Further.hyps(2) Further.prems(3)] show ?case
  proof
    assume "\<exists>t\<in>working gs. task_chronicleName t = task_chronicleName task \<and> task_story t = task_story task \<and> task_scope t = task_scope task"
    then show ?thesis using requested_further [OF _ Further.hyps(2)] Further.IH [OF Further.prems(1,2)] by metis
  qed (rule requested_now [OF Further.hyps(1)])
qed simp

section \<open>Properties of the destroyed stories\<close>

lemma new_store_rest:
  assumes "gs0 = new_GrapherDataStore duration window delay chain True ar"
  shows "tombstones_hold gs0" "numbered gs0" "living gs0" "working gs0 = {}"
  by (simp_all add: assms new_GrapherDataStore_def tombstones_hold_def numbered_def living_def working_def)

text \<open>
  Claim C23. Over every run of a new grapher store, whatever the order of the holds of its mutexes, the writes that fail and the
  stories that are destroyed, an event of a chunk that arrived (or was in the archive) is held by the store: in a chunk
  that is on its way to a pipeline, in the pipeline of its story, in a window on its way to the archive, or in a
  file. Otherwise one step of the run let go of it, in one of three ways. Its chunk was in the hands of the adoption while its story
  or chronicle had a tombstone, and the step reported the story as dropped; its window was in process, and the step reported
  the story as failed to persist; or it was in a file that the destroy being worked on is for, and the step reported the
  deletion for this destroy. A destroy that is worked on was requested earlier in the run, with the scope of its request.
\<close>

theorem grapher_loses_no_event:
  assumes start: "gs0 = new_GrapherDataStore duration window delay chain True ar" "config_ok gs0"
    and run: "gs_run gs0 arrived calls gs"
    and event: "x \<in> set arrived \<or> x \<in> archived ar" "has_event x sid k"
  shows "gs_holds gs sid k \<or>
    (\<exists>a1 c1 gs1 a2 c2 gs2 a3 c3. gs_run gs0 a1 c1 gs1 \<and> gs_step gs1 a2 c2 gs2 \<and> gs_run gs2 a3 c3 gs \<and>
       arrived = a1 @ a2 @ a3 \<and> calls = c1 @ c2 @ c3 \<and> \<not> gs_holds gs2 sid k \<and> let_go gs1 c2 sid k \<and>
       (\<forall>task. gs_worker gs1 = WorkerDrains task \<longrightarrow>
          requested gs0 gs1 (task_chronicleName task) (task_story task) (task_scope task)))"
proof -
  note inv = new_grapher_inv [OF start]
  have "gs_holds gs0 sid k" if "x \<in> archived ar"
    by (rule gs_holds_chunk [OF _ event(2)]) (use that in \<open>simp add: start(1) held_chunks_def new_GrapherDataStore_def\<close>)
  then have "gs_holds gs0 sid k \<or> (\<exists>c\<in>set arrived. has_event c sid k)" using event by blast
  from gs_run_accounts [OF run inv this] show ?thesis
  proof
    assume "\<exists>a1 c1 gs1 a2 c2 gs2 a3 c3. gs_run gs0 a1 c1 gs1 \<and> gs_step gs1 a2 c2 gs2 \<and> gs_run gs2 a3 c3 gs \<and>
       arrived = a1 @ a2 @ a3 \<and> calls = c1 @ c2 @ c3 \<and> \<not> gs_holds gs2 sid k \<and> let_go gs1 c2 sid k"
    then obtain a1 c1 gs1 a2 c2 gs2 a3 c3 where *: "gs_run gs0 a1 c1 gs1" "gs_step gs1 a2 c2 gs2" "gs_run gs2 a3 c3 gs"
      "arrived = a1 @ a2 @ a3" "calls = c1 @ c2 @ c3" "\<not> gs_holds gs2 sid k" "let_go gs1 c2 sid k" by blast
    have "task_requested gs0 gs1 task" if "gs_worker gs1 = WorkerDrains task" for task
      by (rule tasks_requested [OF *(1) inv new_store_rest(4) [OF start(1)]]) (simp add: working_def that)
    with * show ?thesis by blast
  qed simp
qed

text \<open>
  Claim C27. In every reachable state of a grapher store, a story whose tombstone stands has no pipeline, and no pipeline belongs
  to a chronicle whose tombstone stands: a late chunk of a destroyed story, adopted or not, does not bring it back.
\<close>

theorem destroyed_story_has_no_pipeline:
  assumes start: "gs0 = new_GrapherDataStore duration window delay chain True ar" "config_ok gs0"
    and run: "gs_run gs0 arrived calls gs" and pipe: "gs_pipe gs sid = Some pl"
  shows "sid \<notin> set (gs_destroyedStories gs) \<and> plChronicleName pl \<notin> set (gs_destroyedChronicles gs)"
  using run_tombstones [OF run new_grapher_inv [OF start] new_store_rest(1,2) [OF start(1)]] pipe
  by (auto simp: tombstones_hold_def tombstoned_def)

text \<open>
  Claim C24. A destroy of a story is complete. Take any reachable state of a store with an extraction chain in which the story is
  destroyed, while no pipeline of another story id bears its names and none of its windows is held by a retiring pass or by another
  destroy. In every later state, if every deletion reported success and the worker is not asked to exit, waits and has no task, then
  no window of the story from a pipeline made before the destroy is on its way to the archive, and the archive holds no file the
  destroy is for: none this process wrote from those pipelines, none an earlier process of its group wrote for the story, and of
  the files of other groups or with names from before the writer tags none that was changed more than the margin before the request. The
  archive may hold files of any of these kinds when the process starts.
\<close>

theorem destroyed_story_stays_deleted:
  assumes start: "gs0 = new_GrapherDataStore duration window delay True True ar" "config_ok gs0"
    and before: "gs_run gs0 arrived0 calls0 gs"
    and destroy: "unhook_story now sid chronicle story gs = Some (task, gs1, calls1)"
    and scope: "scope = \<lparr>incarnation_bound = gs_latestIncarnation gs, requested_at = Some now\<rparr>"
    and alone: "\<And>s pl. gs_pipe gs s = Some pl \<Longrightarrow> plChronicleName pl = chronicle \<Longrightarrow> plStoryName pl = story \<Longrightarrow> s = sid"
    and quiet: "\<And>c. c \<in> set (concat (gs_retired gs)) \<union> task_windows gs \<Longrightarrow> \<not> destroy_covers chronicle (Some story) (gs_latestIncarnation gs) c"
    and run: "gs_run (add_task task gs1) arrived calls gs'" "deletions_succeed calls"
    and rest: "\<not> gs_workerShouldExit gs'" "gs_tasks gs' = []" "gs_destroyQueue gs' = []" "gs_worker gs' = WorkerWaits"
  shows "(\<forall>f\<in>set (ar_files (gs_archive gs')). \<not> destroy_takes (gs_archive gs') chronicle (Some story) scope f) \<and>
    (\<forall>c\<in>transit gs'. \<not> destroy_covers chronicle (Some story) (gs_latestIncarnation gs) c)"
proof -
  have inv: "gs_inv gs" by (rule gs_run_inv [OF before new_grapher_inv [OF start]])
  have live: "living gs" and chain: "gs_extractionChain gs"
    using run_life [OF before new_grapher_inv [OF start] new_store_rest(3) [OF start(1)]] by (simp_all add: start(1) new_GrapherDataStore_def)
  note up = unhook_pipes [OF inv destroy]
  have inv1: "gs_inv (add_task task gs1)" by (rule gs_conserves_inv [OF unhook_story_conserves [OF inv destroy]])
  have pipe: "\<not> (plChronicleName pl = chronicle \<and> plStoryName pl = story)" if "gs_pipe gs1 s = Some pl" for s pl
    using up(1,2) alone that unfolding keeps_pipes_def same_pipe_def by (metis option.distinct(1))
  have "covers_task chronicle story scope task" using up(15-17) by (simp add: covers_task_def scope requested_by_def)
  moreover have "\<not> holds_doomed chronicle story scope t" if "t \<in> pending gs" for t
    using quiet that unfolding holds_doomed_def task_windows_def by (auto simp: scope)
  ultimately have "clearing chronicle story scope (add_task task gs1)"
    using up(3,6,9,10,14) chain pipe quiet by (auto simp: clearing_def add_task_def scope)
  moreover have "living (add_task task gs1)" using live up(11-13) by (simp add: living_def add_task_def)
  ultimately have "clearing chronicle story scope gs'" using run_clearing [OF run(1) inv1 run(2)] rest(1) by blast
  note d = clearingD(4,6) [OF this]
  have way: "\<forall>x\<in>on_the_way gs'. \<not> destined chronicle story scope x" using d(2) rest by auto
  have "\<not> destroy_takes (gs_archive gs') chronicle (Some story) scope f" if "f \<in> set (ar_files (gs_archive gs'))" for f
    using way that by (force simp: on_the_way_def)
  moreover have "\<not> doomed chronicle story scope c" if c: "c \<in> transit gs'" for c
  proof -
    consider "c \<in> set (gs_queue gs') \<union> set (gs_inProcess gs')" | "c \<in> set (concat (gs_retired gs'))"
      using c rest(2,3) unfolding transit_def task_windows_def by auto
    then show ?thesis
    proof cases
      case 1
      then have "Window c \<in> on_the_way gs'" by (simp add: on_the_way_def)
      with way have "\<not> destined chronicle story scope (Window c)" by blast
      then show ?thesis by simp
    qed (rule d(1))
  qed
  ultimately show ?thesis by (simp add: scope)
qed

lemma stoull_code [code]:
  "stoull s = (let v = int (digits_val s 0) in if v < 18446744073709551616 then Some (word_of_int v) else None)"
  by (simp add: stoull_def Let_def)

text \<open>
  Claim C25. The condition on the retiring pass is needed, and the code does not ensure it: a pass that takes the store's mutex,
  finalizes a decayed pipeline and releases the mutex holds the windows in a local variable. A destroy of the story
  then finds no pipeline, the worker finds extraction idle and deletes, and the windows are stashed and written afterwards. At
  the end of this run nothing is pending, every deletion has succeeded, and a file of the destroyed story is in the archive.
\<close>

theorem retired_window_survives_destroy:
  "\<exists>calls gs. gs_run demo_store [demo_chunk] calls gs \<and> deletions_succeed calls \<and>
     DeletesFiles [67] (Some [83]) \<lparr>incarnation_bound = 1, requested_at = Some 0\<rparr> CL_SUCCESS \<in> set calls \<and> 7 \<in> set (gs_destroyedStories gs) \<and> gs_pipelines gs = [] \<and>
     transit gs = {} \<and> \<not> gs_workerShouldExit gs \<and> gs_tasks gs = [] \<and> gs_destroyQueue gs = [] \<and> gs_worker gs = WorkerWaits \<and>
     (\<exists>c\<in>archived (gs_archive gs). destroy_covers [67] (Some [83]) 1 c \<and> has_event c 7 (5, 1, 0))"
proof -
  let ?ok = "\<lambda>call. case call of DeletesFiles chronicle story bound status \<Rightarrow> status = CL_SUCCESS | _ \<Rightarrow> True"
  have "case follow [CollectionStarts, StoryStarts [67] [83] 7 0, ChunkArrives demo_chunk, ChunkLookedUp 0, ChunkPlaced 0, StoryStops 0 7,
      PipelinesRetire 0, StoryDestroyed 0 7 [67] [83], TaskEnqueued 0, TaskTaken, FilesDeleted Deletes True, WindowsStashed 0,
      WindowEjected, WindowWritten demo_replies 0, WindowEjected, WindowWritten demo_replies 0, WindowEjected, WindowWritten demo_replies 0] demo_store of
      None \<Rightarrow> False
    | Some (a, calls, gs) \<Rightarrow> a = [demo_chunk] \<and> list_all ?ok calls \<and> list_ex (\<lambda>call. call = DeletesFiles [67] (Some [83]) \<lparr>incarnation_bound = 1, requested_at = Some 0\<rparr> CL_SUCCESS) calls \<and>
        list_ex (\<lambda>sid. sid = 7) (gs_destroyedStories gs) \<and> gs_pipelines gs = [] \<and> gs_queue gs = [] \<and> gs_inProcess gs = [] \<and> concat (gs_retired gs) = [] \<and>
        \<not> gs_workerShouldExit gs \<and> gs_tasks gs = [] \<and> gs_destroyQueue gs = [] \<and> gs_worker gs = WorkerWaits \<and>
        list_ex (\<lambda>f. destroy_covers [67] (Some [83]) 1 (af_window f) \<and> chunkStoryId (af_window f) = 7 \<and>
          map_of (logEvents (af_window f)) (5, 1, 0) \<noteq> None) (ar_files (gs_archive gs))" by code_simp
  from follow_check [OF this] obtain calls gs where *: "gs_run demo_store [demo_chunk] calls gs" "list_all ?ok calls"
    "DeletesFiles [67] (Some [83]) \<lparr>incarnation_bound = 1, requested_at = Some 0\<rparr> CL_SUCCESS \<in> set calls" "7 \<in> set (gs_destroyedStories gs)" "gs_pipelines gs = []"
    "gs_queue gs = []" "gs_inProcess gs = []" "concat (gs_retired gs) = []" "\<not> gs_workerShouldExit gs" "gs_tasks gs = []"
    "gs_destroyQueue gs = []" "gs_worker gs = WorkerWaits" "\<exists>f\<in>set (ar_files (gs_archive gs)).
        destroy_covers [67] (Some [83]) 1 (af_window f) \<and> chunkStoryId (af_window f) = 7 \<and> map_of (logEvents (af_window f)) (5, 1, 0) \<noteq> None"
    unfolding list_ex_iff by blast
  have "deletions_succeed calls" using *(2) by (auto simp: deletions_succeed_def list_all_iff)
  moreover have "transit gs = {}" using *(6-8,10,11) by (simp only: transit_def task_windows_def) simp
  moreover have "\<exists>c\<in>archived (gs_archive gs). destroy_covers [67] (Some [83]) 1 c \<and> has_event c 7 (5, 1, 0)"
    using *(13) by (auto simp: has_event_def)
  ultimately show ?thesis using * by blast
qed

theorem destroyed_story_has_no_pipeline_witness:
  "\<exists>calls gs pl. gs_run demo_store [demo_chunk, demo_chunk] calls gs \<and> gs_pipe gs 7 = Some pl \<and>
     7 \<notin> set (gs_destroyedStories gs) \<and> plChronicleName pl \<notin> set (gs_destroyedChronicles gs)"
proof -
  have "case follow [ChunkArrives demo_chunk, OrphanAdopted 0, StoryDestroyed 0 7 [67] [83], OrphanAdopted 0, ChunkArrives demo_chunk,
      StoryStarts [67] [83] 7 0] demo_store of
      None \<Rightarrow> False
    | Some (a, calls, gs) \<Rightarrow> a = [demo_chunk, demo_chunk] \<and> map_of (gs_pipelines gs) 7 \<noteq> None" by code_simp
  from follow_check [OF this] obtain calls gs pl where "gs_run demo_store [demo_chunk, demo_chunk] calls gs" "gs_pipe gs 7 = Some pl" by blast
  with destroyed_story_has_no_pipeline [OF demo_store_def demo_config this] show ?thesis by blast
qed

theorem grapher_loses_no_event_witness:
  "\<exists>calls gs. gs_run demo_store [demo_chunk] calls gs \<and> length (ar_files (gs_archive gs)) = 1 \<and> gs_pipelines gs = [] \<and>
     gs_holds gs 7 (5, 1, 0)"
proof -
  let ?quiet = "\<lambda>call. case call of DeletesFiles chronicle story scope status \<Rightarrow> False | OnRegistry r \<Rightarrow> r \<noteq> DropStory 7 \<and> r \<noteq> PersistFailed 7"
  have "case follow [CollectionStarts, ChunkArrives demo_chunk, ChunkOrphaned 0, OrphansTaken, OrphanAdopted 0, ChunkLookedUp 0, ChunkPlaced 0,
      PipelinesCollect, StoryStops 0 7, PipelinesRetire 0, WindowsStashed 0, WindowEjected, WindowWritten demo_replies 0] demo_store of
      None \<Rightarrow> False
    | Some (a, c, gs) \<Rightarrow> a = [demo_chunk] \<and> list_all ?quiet c \<and> length (ar_files (gs_archive gs)) = 1 \<and> gs_pipelines gs = []" by code_simp
  from follow_check [OF this] obtain calls gs where
    *: "length (ar_files (gs_archive gs)) = 1" "gs_pipelines gs = []" "gs_run demo_store [demo_chunk] calls gs" "list_all ?quiet calls" by blast
  have "has_event demo_chunk 7 (5, 1, 0)" by (simp add: has_event_def demo_chunk_def new_StoryChunk_def)
  note or_lost = grapher_loses_no_event [OF demo_store_def demo_config *(3) _ this, simplified]
  have "\<not> let_go gs1 c2 7 (5, 1, 0)" if "calls = c1 @ c2 @ c3" for gs1 c1 c2 c3
  proof -
    have quiet: "?quiet call" if "call \<in> set c2" for call
      using *(4) that unfolding \<open>calls = c1 @ c2 @ c3\<close> list_all_iff by simp
    from quiet [of "OnRegistry (DropStory 7)"] quiet [of "OnRegistry (PersistFailed 7)"]
    have "OnRegistry (DropStory 7) \<notin> set c2" "OnRegistry (PersistFailed 7) \<notin> set c2" by auto
    moreover have "DeletesFiles chronicle story scope status \<notin> set c2" for chronicle story scope status
      using quiet [of "DeletesFiles chronicle story scope status"] by auto
    ultimately show ?thesis unfolding let_go_def by blast
  qed
  with or_lost have "gs_holds gs 7 (5, 1, 0)" by blast
  with * show ?thesis by blast
qed

text \<open>
  An archive with three files of the story: one an earlier process of the group wrote, an old one of another group, and a recent one
  of the other group. The destroy at second 200 takes the first two and leaves the third.
\<close>

definition left_file :: "u64 \<Rightarrow> u64 \<Rightarrow> int \<Rightarrow> archive_file" where
  "left_file grp start modified =
     \<lparr>af_chronicle = [67], af_story = [83], af_name = windowFileName 0 (writer_tag grp start) 0 0, af_modified = Some modified,
      af_window = new_StoryChunk [67] [83] 7 0 10\<rparr>"

definition left_archive :: Archive where
  "left_archive =
     \<lparr>ar_group = 1, ar_start = 5, ar_sequence = 0, ar_registry = True, ar_manifest = False,
      ar_files = [left_file 1 4 0, left_file 2 3 0, left_file 2 3 100000000000]\<rparr>"

lemma left_config: "config_ok (new_GrapherDataStore 1 1 0 True True left_archive)"
proof -
  have "in_place (left_file grp start m)" for grp start m
    by (simp add: in_place_def left_file_def new_StoryChunk_def encodeArchiveName_def encode_char_def)
  moreover have "written_by grp start (left_file grp start m)" for grp start m
    unfolding written_by_def by (rule exI [of _ 0], rule exI [of _ 0]) (simp add: left_file_def new_StoryChunk_def numberedFileName_def)
  ultimately have "window_file (left_file grp start m)" for grp start m
    unfolding window_file_def using written_name(1) by blast
  then show ?thesis by (simp add: config_ok_def new_GrapherDataStore_def duration_ok_def archive_ok_def left_archive_def)
qed

theorem destroyed_story_stays_deleted_witness:
  "\<exists>gs task gs1 calls1 arrived calls gs'.
     gs_run (new_GrapherDataStore 1 1 0 True True left_archive) [demo_chunk] [OnRegistry (RegisterStory 7 0 True)] gs \<and>
     unhook_story 200000000000 7 [67] [83] gs = Some (task, gs1, calls1) \<and> gs_run (add_task task gs1) arrived calls gs' \<and>
     gs_worker gs' = WorkerWaits \<and> ar_files (gs_archive gs') = [left_file 2 3 100000000000] \<and>
     \<not> destroy_takes (gs_archive gs') [67] (Some [83])
         \<lparr>incarnation_bound = gs_latestIncarnation gs, requested_at = Some 200000000000\<rparr> (left_file 2 3 100000000000)"
proof -
  let ?gs0 = "new_GrapherDataStore 1 1 0 True True left_archive"
  let ?ok = "\<lambda>call. case call of DeletesFiles chronicle story scope status \<Rightarrow> status = CL_SUCCESS | _ \<Rightarrow> True"
  let ?check = "\<lambda>gs calls gs'. list_all (\<lambda>p. fst p = 7) (gs_pipelines gs) \<and> gs_retired gs = [] \<and> gs_tasks gs = [] \<and> gs_destroyQueue gs = [] \<and>
     list_all ?ok calls \<and> \<not> gs_workerShouldExit gs' \<and> gs_tasks gs' = [] \<and> gs_destroyQueue gs' = [] \<and> gs_worker gs' = WorkerWaits \<and>
     ar_files (gs_archive gs') = [left_file 2 3 100000000000]"
  let ?rest = "\<lambda>gs. case unhook_story 200000000000 7 [67] [83] gs of
           None \<Rightarrow> False
         | Some (task, gs1, calls1) \<Rightarrow>
             (case follow [TaskEnqueued 0, TaskTaken, WindowEjected, WindowWritten demo_replies 0, WindowEjected, WindowWritten demo_replies 0,
                WindowEjected, WindowWritten demo_replies 0, FilesDeleted Deletes True] (add_task task gs1) of
                None \<Rightarrow> False
              | Some (a', calls, gs') \<Rightarrow> ?check gs calls gs')"
  have "case follow [CollectionStarts, StoryStarts [67] [83] 7 0, ChunkArrives demo_chunk, ChunkLookedUp 0, ChunkPlaced 0] ?gs0 of
      None \<Rightarrow> False
    | Some (a, c, gs) \<Rightarrow> a = [demo_chunk] \<and> c = [OnRegistry (RegisterStory 7 0 True)] \<and> ?rest gs" by code_simp
  from follow_check [OF this] obtain gs where gs: "gs_run ?gs0 [demo_chunk] [OnRegistry (RegisterStory 7 0 True)] gs" and rest: "?rest gs" by blast
  from rest obtain task gs1 calls1 where un: "unhook_story 200000000000 7 [67] [83] gs = Some (task, gs1, calls1)"
    by (cases "unhook_story 200000000000 7 [67] [83] gs") auto
  from follow_check [OF rest [unfolded un option.case prod.case]] obtain arrived calls gs' where
    run: "gs_run (add_task task gs1) arrived calls gs'" and ck: "?check gs calls gs'" by blast
  have ok: "deletions_succeed calls" using ck by (auto simp: deletions_succeed_def list_all_iff)
  have alone: "s = 7" if "gs_pipe gs s = Some pl" for s pl
    using ck map_of_SomeD [OF that] by (auto simp: list_all_iff)
  have quiet: "set (concat (gs_retired gs)) \<union> task_windows gs = {}" using ck by (simp add: task_windows_def)
  let ?scope = "\<lparr>incarnation_bound = gs_latestIncarnation gs, requested_at = Some 200000000000\<rparr>"
  have "(\<forall>f\<in>set (ar_files (gs_archive gs')). \<not> destroy_takes (gs_archive gs') [67] (Some [83]) ?scope f) \<and>
    (\<forall>c\<in>transit gs'. \<not> destroy_covers [67] (Some [83]) (gs_latestIncarnation gs) c)"
  proof (rule destroyed_story_stays_deleted [OF refl left_config gs un refl _ _ run ok])
    show "s = 7" if "gs_pipe gs s = Some pl" for s pl by (rule alone [OF that])
    show "\<not> destroy_covers [67] (Some [83]) (gs_latestIncarnation gs) c" if "c \<in> set (concat (gs_retired gs)) \<union> task_windows gs" for c
      using that unfolding quiet by (rule emptyE)
  qed (use ck in blast)+
  moreover have "left_file 2 3 100000000000 \<in> set (ar_files (gs_archive gs'))" using ck by simp
  ultimately have kept: "\<not> destroy_takes (gs_archive gs') [67] (Some [83]) ?scope (left_file 2 3 100000000000)" by blast
  show ?thesis
    by (rule exI [of _ gs], rule exI [of _ task], rule exI [of _ gs1], rule exI [of _ calls1], rule exI [of _ arrived], rule exI [of _ calls],
      rule exI [of _ gs'], intro conjI gs un run kept) (use ck in simp_all)
qed

end
