(* ===== verification/GrapherRounds.thy ===== *)
theory GrapherRounds
  imports GrapherRuns
begin

text \<open>
  What one undisturbed round of the grapher's data collection task does to a reachable store: what is collected, what
  decays, which pipelines retire, and what becomes of the orphans. Each operation of the round has a lemma that says what it does to
  the pipelines, the orphans and the extraction queue; the property composes them.
\<close>

section \<open>What a round leaves alone\<close>



section \<open>The drain\<close>







section \<open>Collection and decay\<close>




section \<open>Retirement\<close>






section \<open>Adoption\<close>










section \<open>A round\<close>








end
