(* ===== verification/Spec2Isabelle.thy ===== *)
theory Spec2Isabelle
  imports StoryPipeline KeeperChunkRetentionStore WalFormat WalReleaseTracker PlayerReplay WalRecovery WalDurability
    KeeperDataStore KeeperIndexCounts GrapherDestroy GrapherRounds
begin

text \<open>
  ChronoLog: a verification library of the recording path of the log store.

  \<^bold>\<open>The program.\<close> Clients record events of stories. A \<^emph>\<open>keeper\<close> takes the events, groups those of a
  story into time windows (story chunks) and ships each sealed chunk to a \<^emph>\<open>grapher\<close>, which merges the
  chunks of all keepers into larger windows and writes them to the archive. The grapher reports to the
  keepers how far each story is persisted and which chunks have arrived; a keeper retains a chunk until it is
  confirmed. A \<^emph>\<open>player\<close> answers a replay request from the archive and, for what is not archived
  yet, from the keepers. A durable write is answered only once the keeper has synced it to its write-ahead
  log, from which a restarted keeper recovers it. A \<^emph>\<open>visor\<close> registers the processes and the
  clients' chronicles and stories.

  \<^bold>\<open>The theories\<close>, in the order in which they build on each other (paths are below
  \<^verbatim>\<open>src/src/\<close>):

  \<^item> \<open>ChronoPrelude\<close>: machine integers, byte strings, results with an exception, and
    \<^verbatim>\<open>std::map\<close> and \<^verbatim>\<open>std::set\<close> as sorted lists; the locale \<open>ordered_map\<close>
    states what the components rely on and is interpreted on that representation.
  \<^item> \<open>StoryChunk\<close>: events and chunks (\<^verbatim>\<open>chrono-common/src/StoryChunk.cpp\<close>): insertion,
    merging, erasing and copying of ranges.
  \<^item> \<open>StoryPipeline\<close>: the timeline of windows of one story
    (\<^verbatim>\<open>chrono-common/src/StoryPipeline.cpp\<close>): no event of a merged chunk is lost, the windows
    stay ordered, disjoint and without gaps, decay and shutdown hand out exactly what they should.
  \<^item> \<open>StoryWatermarkRegistry\<close>: the grapher's persisted watermarks and chunk receipts
    (\<^verbatim>\<open>chrono-grapher/include/StoryWatermarkRegistry.h\<close>).
  \<^item> \<open>KeeperChunkRetentionStore\<close>: the keeper's sealed chunks on an explicit heap
    (\<^verbatim>\<open>chrono-keeper/include/KeeperChunkRetentionStore.h\<close>), the extraction queue, and the interleaving
    of the threads that use them. \<open>KeeperIndexCounts\<close>: an event that is sealed twice leaves the first chunk with a count that never
    reaches zero, so that the chunk is kept for as long as its story is.
  \<^item> \<open>LogEventCodec\<close>, \<open>WalFormat\<close>: the bytes of events, records and segments
    (\<^verbatim>\<open>chrono-common/src/LogEventCodec.cpp\<close>, \<^verbatim>\<open>chrono-common/src/Crc32c.cpp\<close>,
    \<^verbatim>\<open>chrono-keeper/src/WalFormat.cpp\<close>).
  \<^item> \<open>WalReleaseTracker\<close>: which durable events are pending, and which segments can go
    (\<^verbatim>\<open>chrono-keeper/src/WalReleaseTracker.cpp\<close>), as a refinement of the list of copies.
  \<^item> \<open>WalRecovery\<close>: reading the log back at startup
    (\<^verbatim>\<open>chrono-keeper/src/WalRecovery.cpp\<close>).
  \<^item> \<open>WalSegments\<close>: preparing, taking, growing and deleting the files of the log
    (\<^verbatim>\<open>chrono-keeper/src/WalSegmentManager.cpp\<close>).
  \<^item> \<open>KeeperWal\<close>: the log itself (\<^verbatim>\<open>chrono-keeper/src/KeeperWal.cpp\<close>): requests, group
    commit, failed groups, releases, destroyed stories, deletion of segments, start and stop; one definition for
    each hold of its mutex and for each step of the committer between two of them.
  \<^item> \<open>WalRuns\<close>: the step relation that interleaves these with any failing calls, the invariant of its runs,
    crashes, and what the invariant gives for recovery. \<open>WalSteps\<close> and \<open>WalDurability\<close>: every step keeps the
    invariant, so an event answered as durable survives a crash at any moment.
  \<^item> \<open>KeeperPipeline\<close>: the keeper's timeline of one story
    (\<^verbatim>\<open>chrono-keeper/src/KeeperStoryPipeline.cpp\<close>): every collected event is placed or reported, decay
    refines the decay of \<open>StoryPipeline\<close>, and the live tail is read exactly.
  \<^item> \<open>KeeperDataStore\<close>: the keeper's pipelines, the ingestion queue, retirement, late events and the replay of
    the log (\<^verbatim>\<open>chrono-keeper/src/KeeperDataStore.cpp\<close>, \<^verbatim>\<open>chrono-keeper/include/IngestionQueue.h\<close>).
  \<^item> \<open>ArchiveFiles\<close>: the names of the archive's files, how a window is published under its name, the grapher's
    extractor and the deletion of destroyed stories (\<^verbatim>\<open>chrono-common/include/ArchiveLayout.h\<close>,
    \<^verbatim>\<open>chrono-common/src/StoryChunkWriter.cpp\<close>, \<^verbatim>\<open>chrono-grapher/src/HDF5FileChunkExtractor.cpp\<close>): names are read back
    exactly and no two stories share a directory; the locale \<open>window_archive\<close> states what the store relies on
    from its archive and is interpreted on the extractor.
  \<^item> \<open>GrapherDataStore\<close>: the grapher's pipelines, orphan chunks and their adoption, decay, retirement, the destruction of
    stories and chronicles and its worker, and the extraction threads (\<^verbatim>\<open>chrono-grapher/src/GrapherDataStore.cpp\<close>,
    \<^verbatim>\<open>chrono-grapher/include/ChunkIngestionQueue.h\<close>). \<open>GrapherRuns\<close>: the step relation that interleaves them, its
    invariant, and which step can let go of an event. \<open>GrapherDestroy\<close>: that no event is lost without a report that fits it, tombstones,
    when a destroyed story stays deleted, file by file, and a run in which it does not. \<open>GrapherRounds\<close>: what a round of the data
    collection task does to pipelines, windows and orphans.
  \<^item> \<open>PlayerReplay\<close>: a replay request in the player
    (\<^verbatim>\<open>chrono-player/src/PlaybackService.cpp\<close> and the files around it); the locale
    \<open>hot_source\<close> states what the player relies on from a keeper and is interpreted on the keeper's
    \<^verbatim>\<open>fetchRange\<close>.

  \<^bold>\<open>Conventions.\<close> A C++ object is a \<^verbatim>\<open>record\<close> with the names of its fields; a method is a
  function from the state to the new state, with its results, and the body of a critical section is one
  step. An exception is the left summand of the result. A loop that may not end is a partial function whose value
  is then \<^const>\<open>None\<close>. Unsigned integers are words of their width; the sizes of strings in memory and of files and the
  counts of events in a chunk are natural numbers. Log output is left out. A call of the operating system that can fail has its failure as an
  argument of the model, with what the failed call leaves on disk.

  \<^bold>\<open>Crashes.\<close> The directory of the log holds what is on stable storage; the frames of the group being written
  are kept apart until the sync returns. A crash keeps a whole number of these frames and puts arbitrary bytes in
  the room of the others, which must not start with a frame whose checksum is right. The runs of the durability theorem are shorter
  than \<open>2 ^ 64\<close> steps, so that segment numbers and the counts of copies do not wrap, and a group is at most
  \<open>2 ^ 32\<close> bytes by configuration, so that its size fits the group record.

  \<^bold>\<open>The grapher's bounds.\<close> In the runs of the grapher the clock and the chunks lie below \<open>2 ^ 62\<close> ns and the configured durations are
  at most \<open>2 ^ 56\<close> ns, so that no sum of times wraps; a process makes fewer than \<open>2 ^ 64\<close> pipelines. Its archive may hold files from the
  start: each has the name of a window file and lies in the directory of its window's names, and was written by some process of some
  group or has a name from before the writers were part of it.

  \<^bold>\<open>Not modelled.\<close> The processes around these components: remote calls, thread pools and
  timers, the configuration files, the command line and the client library. The contents of archive files are calls of the HDF5
  library, and the manifest of the archive is JSON text through another; their answers are arguments. The registries of the
  visor forward calls to the other processes. A removal of a segment whose directory sync failed is taken to be on disk.
\<close>

end
